(* ===== verification/Prelude.thy ===== *)
theory Prelude
  imports Complex_Main "HOL-Library.Word" "HOL-Library.AList" "HOL-Library.Monad_Syntax"
begin

text \<open>
  The types and generic operations every component of the sensor model shares.

  \<^item> Machine integers keep their width as \<open>'n word\<close> where the code computes with them
    (\<open>u8\<close>, \<open>u16\<close>, \<open>u32\<close>, \<open>u64\<close>, \<open>u128\<close>); a \<open>usize\<close> that counts or indexes is a
    \<open>nat\<close>, since a Rust slice has at most \<open>isize::MAX\<close> bytes and offsets into it are
    far from the end of the type. Checked and saturating additions on \<open>usize\<close> are
    written out.
  \<^item> A \<open>&[u8]\<close> is a list of \<open>u8\<close>; a \<open>&str\<close> is the list of its UTF-8 bytes, as
    Isabelle characters (which are bytes).
  \<^item> A \<open>HashMap\<close> is an association list with distinct keys: lookup is \<open>map_of\<close>,
    insert is \<open>AList.update\<close>, remove is \<open>AList.delete\<close>, \<open>retain\<close> is \<open>filter\<close>
    and \<open>len()\<close> is \<open>length\<close>.
  \<^item> Where the source indexes a slice with \<open>b[i]\<close>, the model reads with \<open>b_at\<close> in the
    option monad and \<open>None\<close> is the panic; where it uses \<open>b.get(i)?\<close>, the same read
    yields the source's \<open>None\<close>.
\<close>

unbundle bit_operations_syntax

named_theorems bytes_simps \<open>reads, slices and byte-order conversions\<close>
named_theorems amap_simps \<open>association lists as hash maps\<close>
named_theorems inv_intros \<open>invariants kept by the operations\<close>

section \<open>Types\<close>

type_synonym u8 = "8 word"
type_synonym u16 = "16 word"
type_synonym u32 = "32 word"
type_synonym u64 = "64 word"
type_synonym u128 = "128 word"
type_synonym bytes = "8 word list"
type_synonym ('k, 'v) amap = "('k \<times> 'v) list"

section \<open>Reading bytes\<close>

definition b_at :: "'a list \<Rightarrow> nat \<Rightarrow> 'a option" where
  "b_at b i = (if i < length b then Some (b ! i) else None)"

definition b_slice :: "'a list \<Rightarrow> nat \<Rightarrow> nat \<Rightarrow> 'a list option" where
  "b_slice b i j = (if i \<le> j \<and> j \<le> length b then Some (take (j - i) (drop i b)) else None)"

definition b_from :: "'a list \<Rightarrow> nat \<Rightarrow> 'a list option" where
  "b_from b i = (if i \<le> length b then Some (drop i b) else None)"

definition be16 :: "u8 \<Rightarrow> u8 \<Rightarrow> u16" where
  "be16 hi lo = 256 * ucast hi + ucast lo"

definition le16 :: "u8 \<Rightarrow> u8 \<Rightarrow> u16" where
  "le16 lo hi = be16 hi lo"

definition be_word :: "bytes \<Rightarrow> 'n::len word" where
  "be_word bs = fold (\<lambda>b acc. push_bit 8 acc OR ucast b) bs 0"

definition be32 :: "u8 \<Rightarrow> u8 \<Rightarrow> u8 \<Rightarrow> u8 \<Rightarrow> u32" where
  "be32 a b c d = be_word [a, b, c, d]"

definition le32 :: "u8 \<Rightarrow> u8 \<Rightarrow> u8 \<Rightarrow> u8 \<Rightarrow> u32" where
  "le32 a b c d = be32 d c b a"

definition be128 :: "bytes \<Rightarrow> u128" where
  "be128 bs = be_word bs"

definition usize_max :: nat where
  "usize_max = 2 ^ 64 - 1"

definition usize_checked_add :: "nat \<Rightarrow> nat \<Rightarrow> nat option" where
  "usize_checked_add a b = (if a + b \<le> usize_max then Some (a + b) else None)"

definition usize_saturating_add :: "nat \<Rightarrow> nat \<Rightarrow> nat" where
  "usize_saturating_add a b = min (a + b) usize_max"

lemma b_at_Some [bytes_simps]: "b_at b i = Some x \<longleftrightarrow> i < length b \<and> b ! i = x"
  by (auto simp: b_at_def)

lemma b_at_None [bytes_simps]: "b_at b i = None \<longleftrightarrow> length b \<le> i"
  by (auto simp: b_at_def)

lemma b_at_in [simp]: "i < length b \<Longrightarrow> b_at b i = Some (b ! i)"
  by (simp add: b_at_def)

lemma b_at_out [simp]: "length b \<le> i \<Longrightarrow> b_at b i = None"
  by (simp add: b_at_def)

lemma b_slice_Some [bytes_simps]:
  "b_slice b i j = Some s \<longleftrightarrow> i \<le> j \<and> j \<le> length b \<and> s = take (j - i) (drop i b)"
  by (auto simp: b_slice_def)

lemma b_slice_length: "b_slice b i j = Some s \<Longrightarrow> length s = j - i"
  by (auto simp: b_slice_def split: if_splits)

lemma usize_checked_add_Some [bytes_simps]:
  "usize_checked_add a b = Some c \<longleftrightarrow> c = a + b \<and> a + b \<le> usize_max"
  by (auto simp: usize_checked_add_def)

lemma unat_u8_bound: "unat (x :: u8) < 256"
  using unsigned_less [of x, where 'a = nat] by simp

lemma unat_u16_bound: "unat (x :: u16) < 65536"
  using unsigned_less [of x, where 'a = nat] by simp

lemma unat_ucast_u8_u16 [simp]: "unat (ucast (v :: u8) :: u16) = unat v"
  by (simp add: unsigned_ucast_eq take_bit_nat_eq_self_iff order_less_trans [OF unat_u8_bound])

lemma unat_be16 [bytes_simps]: "unat (be16 hi lo) = 256 * unat hi + unat lo"
  using unat_u8_bound [of hi] unat_u8_bound [of lo]
  by (simp add: be16_def unat_word_ariths)

section \<open>Hash maps as association lists\<close>

lemma amap_get_update [amap_simps]: "map_of (AList.update k v m) = (map_of m)(k \<mapsto> v)"
  by (simp add: update_conv')

lemma amap_get_delete [amap_simps]: "map_of (AList.delete k m) = (map_of m)(k := None)"
  by (simp add: delete_conv')

lemma amap_update_keys [amap_simps]:
  "fst ` set (AList.update k v m) = insert k (fst ` set m)"
  by (simp add: dom_update)

lemma amap_len_update [amap_simps]:
  "length (AList.update k v m) = (if map_of m k = None then Suc (length m) else length m)"
  by (induction m) auto

lemma amap_len_delete: "length (AList.delete k m) \<le> length m"
  by (simp add: length_delete_le)

lemma amap_distinct_update [inv_intros]:
  "distinct (map fst m) \<Longrightarrow> distinct (map fst (AList.update k v m))"
  by (rule distinct_update)

lemma amap_distinct_delete [inv_intros]:
  "distinct (map fst m) \<Longrightarrow> distinct (map fst (AList.delete k m))"
  by (rule distinct_delete)

lemma amap_distinct_filter [inv_intros]:
  "distinct (map fst m) \<Longrightarrow> distinct (map fst (filter P m))"
  by (rule distinct_map_filter)

lemma amap_len_card: "distinct (map fst m) \<Longrightarrow> length m = card (dom (map_of m))"
  by (metis distinct_card dom_map_of_conv_image_fst length_map list.set_map)

lemma amap_get_filter:
  "distinct (map fst m) \<Longrightarrow>
   map_of (filter P m) k = (case map_of m k of None \<Rightarrow> None | Some v \<Rightarrow> if P (k, v) then Some v else None)"
proof (induction m)
  case Nil
  then show ?case by simp
next
  case (Cons p m)
  obtain k' v' where p: "p = (k', v')" by (cases p)
  from Cons.prems p have "map_of m k' = None"
    by (auto simp: map_of_eq_None_iff)
  with Cons p show ?case by (auto split: option.splits)
qed

end
