(* ===== verification/Smallstr.thy ===== *)
theory Smallstr
  imports Strs
begin

text \<open>
  \<open>smallstr.rs\<close>: the fixed-capacity stack string. \<open>SmallStr<N>\<close> is a buffer of \<open>N\<close>
  bytes (the capacity is the length of \<open>ss_buf\<close>) and a fill count. The abstract view is
  \<open>ss_text\<close>, the filled part; a push appends and truncates at the capacity, never in the
  middle of a UTF-8 sequence. The \<open>debug_assert!\<close>s are not part of a release build and
  are not modelled.
\<close>

record smallstr =
  ss_buf :: string
  ss_len :: nat

definition ss_new :: "nat \<Rightarrow> smallstr" where
  "ss_new N = \<lparr>ss_buf = replicate N (char_of (0 :: nat)), ss_len = 0\<rparr>"

definition ss_clear :: "smallstr \<Rightarrow> smallstr" where
  "ss_clear s = s\<lparr>ss_len := 0\<rparr>"

definition ss_text :: "smallstr \<Rightarrow> string" where
  "ss_text s = take (ss_len s) (ss_buf s)"

definition ss_as_str :: "smallstr \<Rightarrow> string" where
  "ss_as_str s = (let t = take (ss_len s) (ss_buf s) in if utf8_valid t then t else [])"

definition ss_is_empty :: "smallstr \<Rightarrow> bool" where
  "ss_is_empty s \<longleftrightarrow> ss_len s = 0"

text \<open>\<open>while n > 0 && (bytes[n] & 0xc0) == 0x80 { n -= 1 }\<close>\<close>

fun floor_char_boundary :: "string \<Rightarrow> nat \<Rightarrow> nat" where
  "floor_char_boundary b 0 = 0"
| "floor_char_boundary b (Suc n) =
     (if and (code (b ! Suc n)) 192 = 128 then floor_char_boundary b n else Suc n)"

definition ss_push_str :: "smallstr \<Rightarrow> string \<Rightarrow> smallstr" where
  "ss_push_str s b =
     (let n = min (length b) (length (ss_buf s) - ss_len s);
          n = (if n = length b then n else floor_char_boundary b n)
      in s\<lparr>ss_buf := take (ss_len s) (ss_buf s) @ take n b @ drop (ss_len s + n) (ss_buf s),
           ss_len := ss_len s + n\<rparr>)"

definition ss_push_byte :: "smallstr \<Rightarrow> char \<Rightarrow> smallstr" where
  "ss_push_byte s b =
     (if ss_len s < length (ss_buf s)
      then s\<lparr>ss_buf := (ss_buf s)[ss_len s := b], ss_len := ss_len s + 1\<rparr> else s)"

text \<open>The digit loop of \<open>push_u16\<close>, filling the scratch array from its end.\<close>

function u16_digits :: "nat \<Rightarrow> string \<Rightarrow> string" where
  "u16_digits v acc =
     (let acc = digit_char (v mod 10) # acc; v = v div 10
      in if v = 0 then acc else u16_digits v acc)"
  by pat_completeness auto
termination
  by (relation "measure fst") auto

declare u16_digits.simps [simp del]

definition ss_push_u16 :: "smallstr \<Rightarrow> u16 \<Rightarrow> smallstr" where
  "ss_push_u16 s v = fold (\<lambda>b s. ss_push_byte s b) (u16_digits (unat v) []) s"

definition ss_push_u8_dec :: "smallstr \<Rightarrow> u8 \<Rightarrow> smallstr" where
  "ss_push_u8_dec s v = ss_push_u16 s (ucast v)"

section \<open>Invariant and abstract behaviour\<close>

definition ss_inv :: "smallstr \<Rightarrow> bool" where
  "ss_inv s \<longleftrightarrow> ss_len s \<le> length (ss_buf s)"

definition ss_cap :: "smallstr \<Rightarrow> nat" where
  "ss_cap s = length (ss_buf s)"

lemma ss_new_simps [simp]: "ss_inv (ss_new N)" "ss_text (ss_new N) = []" "ss_cap (ss_new N) = N"
  by (simp_all add: ss_inv_def ss_new_def ss_text_def ss_cap_def)

lemma ss_clear_simps [simp]:
  "ss_inv (ss_clear s)" "ss_text (ss_clear s) = []" "ss_cap (ss_clear s) = ss_cap s"
  by (simp_all add: ss_inv_def ss_clear_def ss_text_def ss_cap_def)

lemma ss_text_length: "ss_inv s \<Longrightarrow> length (ss_text s) = ss_len s"
  by (simp add: ss_inv_def ss_text_def)

lemma floor_char_boundary_le: "floor_char_boundary b n \<le> n"
  by (induction b n rule: floor_char_boundary.induct) auto

lemma ss_push_byte_inv [inv_intros, simp]: "ss_inv s \<Longrightarrow> ss_inv (ss_push_byte s b)"
  by (simp add: ss_inv_def ss_push_byte_def)

lemma ss_push_byte_cap [simp]: "ss_cap (ss_push_byte s b) = ss_cap s"
  by (simp add: ss_cap_def ss_push_byte_def)

lemma ss_push_byte_text:
  "ss_inv s \<Longrightarrow> ss_text (ss_push_byte s b) = take (ss_cap s) (ss_text s @ [b])"
  by (auto simp: ss_inv_def ss_text_def ss_cap_def ss_push_byte_def take_Suc_conv_app_nth)

lemma ss_push_byte_fits [simp]:
  "ss_inv s \<Longrightarrow> length (ss_text s) < ss_cap s \<Longrightarrow> ss_text (ss_push_byte s b) = ss_text s @ [b]"
  by (simp add: ss_push_byte_text)

lemma ss_push_str_inv [inv_intros, simp]: "ss_inv s \<Longrightarrow> ss_inv (ss_push_str s t)"
  using floor_char_boundary_le [of t "min (length t) (length (ss_buf s) - ss_len s)"]
  by (auto simp: ss_inv_def ss_push_str_def Let_def)

lemma ss_push_str_cap [simp]: "ss_inv s \<Longrightarrow> ss_cap (ss_push_str s t) = ss_cap s"
  using floor_char_boundary_le [of t "min (length t) (length (ss_buf s) - ss_len s)"]
  by (auto simp: ss_cap_def ss_inv_def ss_push_str_def Let_def)

lemma ss_push_str_text:
  assumes "ss_inv s"
  shows "ss_text (ss_push_str s t) = ss_text s @
           (let n = ss_cap s - length (ss_text s)
            in if length t \<le> n then t else take (floor_char_boundary t n) t)"
proof -
  define n where "n = min (length t) (length (ss_buf s) - ss_len s)"
  have "floor_char_boundary t n \<le> length t"
    using floor_char_boundary_le [of t n] by (simp add: n_def)
  with assms show ?thesis
    by (auto simp: ss_push_str_def ss_text_def ss_cap_def ss_inv_def Let_def n_def min_def)
qed

lemma ss_push_str_fits [simp]:
  "ss_inv s \<Longrightarrow> length (ss_text s) + length t \<le> ss_cap s \<Longrightarrow>
   ss_text (ss_push_str s t) = ss_text s @ t"
  by (subst ss_push_str_text) (auto simp: Let_def)

lemma u16_digits_dec: "u16_digits v acc = dec v @ acc"
proof (induction v acc rule: u16_digits.induct)
  case (1 v acc)
  show ?case
    by (subst u16_digits.simps, subst dec.simps) (auto simp: 1 Let_def)
qed

lemma ss_push_bytes_fit:
  "ss_inv s \<Longrightarrow> length (ss_text s) + length t \<le> ss_cap s \<Longrightarrow>
   ss_text (fold (\<lambda>b s. ss_push_byte s b) t s) = ss_text s @ t \<and>
   ss_inv (fold (\<lambda>b s. ss_push_byte s b) t s) \<and>
   ss_cap (fold (\<lambda>b s. ss_push_byte s b) t s) = ss_cap s"
  by (induction t arbitrary: s) auto

lemma ss_push_u16_fits [simp]:
  assumes "ss_inv s" and "length (ss_text s) + length (dec (unat v)) \<le> ss_cap s"
  shows "ss_text (ss_push_u16 s v) = ss_text s @ dec (unat v)"
    and "ss_inv (ss_push_u16 s v)" and "ss_cap (ss_push_u16 s v) = ss_cap s"
  using ss_push_bytes_fit [OF assms] by (simp_all add: ss_push_u16_def u16_digits_dec)

lemma ss_push_u8_dec_fits [simp]:
  assumes "ss_inv s" and "length (ss_text s) + length (dec (unat v)) \<le> ss_cap s"
  shows "ss_text (ss_push_u8_dec s v) = ss_text s @ dec (unat v)"
    and "ss_inv (ss_push_u8_dec s v)" and "ss_cap (ss_push_u8_dec s v) = ss_cap s"
  using assms by (simp_all add: ss_push_u8_dec_def)

section \<open>Truncation keeps the text valid UTF-8\<close>

lemma and_192: "and (n :: nat) 192 = 64 * ((n div 64) mod 4)"
proof -
  have "and n (push_bit 6 3) = push_bit 6 (and (drop_bit 6 n) 3)"
    by (rule bit_eqI)
      (auto simp only: bit_push_bit_iff bit_and_iff bit_drop_bit_eq comp_def le_add_diff_inverse)
  also have "and (drop_bit 6 n) 3 = take_bit 2 (drop_bit 6 n)"
    by (simp add: take_bit_eq_mask mask_eq_exp_minus_1)
  finally show ?thesis
    by (simp add: push_bit_eq_mult drop_bit_eq_div take_bit_eq_mod)
qed

lemma boundary_test: "and (code c) 192 = 128 \<longleftrightarrow> cont c"
proof -
  have "code c div 64 < 4" using code_bound [of c] by simp
  then have "and (code c) 192 = 64 * (code c div 64)"
    by (subst and_192) simp
  moreover have "64 * q = 128 \<longleftrightarrow> 128 \<le> 64 * q + r \<and> 64 * q + r \<le> 191"
    if "r < 64" for q r :: nat
    using that by arith
  from this [of "code c mod 64" "code c div 64"]
  have "64 * (code c div 64) = 128 \<longleftrightarrow> 128 \<le> code c \<and> code c \<le> 191"
    by (simp add: mult_div_mod_eq)
  ultimately show ?thesis by (simp only: cont_def)
qed

lemma floor_char_boundary_stop:
  "floor_char_boundary b n = 0 \<or> \<not> cont (b ! floor_char_boundary b n)"
  by (induction b n rule: floor_char_boundary.induct) (auto simp: boundary_test)

lemma utf8_head_le: "utf8_head s \<le> length s"
  by (cases s) (auto split: option.splits)

lemma utf8_head_append: "utf8_head s \<noteq> 0 \<Longrightarrow> utf8_head (s @ t) = utf8_head s"
  by (cases s) (auto simp: nth_append split: option.splits if_splits dest: utf8_class_range)

lemma utf8_head_take: "utf8_head s \<noteq> 0 \<Longrightarrow> utf8_head s \<le> n \<Longrightarrow> utf8_head (take n s) = utf8_head s"
  by (cases s; cases n)
     (auto simp: min_def nth_append split: option.splits if_splits dest: utf8_class_range)

lemma utf8_valid_append: "utf8_valid s \<Longrightarrow> utf8_valid t \<Longrightarrow> utf8_valid (s @ t)"
proof (induction s rule: utf8_valid.induct)
  case (1 s)
  show ?case
  proof (cases "s = []")
    case True
    with 1 show ?thesis by simp
  next
    case False
    with "1.prems" have h: "utf8_head s \<noteq> 0" "utf8_valid (drop (utf8_head s) s)"
      by (auto simp: utf8_valid.simps [of s] split: if_splits)
    with False 1 have "utf8_valid (drop (utf8_head s) s @ t)" by blast
    with False h utf8_head_le [of s] show ?thesis
      by (simp add: utf8_valid.simps [of "s @ t"] utf8_head_append)
  qed
qed

text \<open>Every byte inside a well-formed sequence, past its first, is a continuation byte.\<close>

lemma utf8_head_cont:
  assumes "0 < i" and "i < utf8_head s"
  shows "cont (s ! i)"
proof (cases s)
  case Nil
  with assms show ?thesis by simp
next
  case (Cons c cs)
  with assms obtain n lo hi where "utf8_head s = n" and "list_all cont (take (n - 1) cs)"
      and "n \<le> Suc (length cs)"
    by (auto split: if_splits option.splits)
  with assms Cons show ?thesis
    by (cases i) (auto simp: list_all_length)
qed

text \<open>Cutting valid text where no continuation byte starts leaves valid text.\<close>

lemma utf8_valid_cut:
  "utf8_valid s \<Longrightarrow> n < length s \<Longrightarrow> n = 0 \<or> \<not> cont (s ! n) \<Longrightarrow> utf8_valid (take n s)"
proof (induction s arbitrary: n rule: utf8_valid.induct)
  case (1 s)
  let ?h = "utf8_head s"
  from "1.prems" have ne: "s \<noteq> []" by auto
  with "1.prems" have h: "?h \<noteq> 0" "utf8_valid (drop ?h s)"
    by (auto simp: utf8_valid.simps [of s] split: if_splits)
  show ?case
  proof (cases "n < ?h")
    case True
    with utf8_head_cont [of n s] "1.prems" have "n = 0" by auto
    then show ?thesis by (simp add: utf8_valid.simps [of "[]"])
  next
    case False
    with "1.prems" have cut: "n - ?h < length (drop ?h s)"
        "n - ?h = 0 \<or> \<not> cont (drop ?h s ! (n - ?h))"
      by auto
    from "1.IH" [OF ne h(1) h(2) cut] have "utf8_valid (drop ?h (take n s))"
      by (simp add: drop_take)
    moreover have "utf8_head (take n s) = ?h"
      using False h(1) by (simp add: utf8_head_take)
    ultimately show ?thesis
      using h(1) by (subst utf8_valid.simps) simp
  qed
qed

lemma ss_push_str_utf8:
  assumes "ss_inv s" and "utf8_valid (ss_text s)" and "utf8_valid t"
  shows "utf8_valid (ss_text (ss_push_str s t))"
proof -
  let ?n = "ss_cap s - length (ss_text s)"
  have "utf8_valid (take (floor_char_boundary t ?n) t)" if "\<not> length t \<le> ?n"
    using that floor_char_boundary_le [of t ?n] floor_char_boundary_stop [of t ?n]
    by (intro utf8_valid_cut) (auto simp: assms)
  with assms show ?thesis
    by (auto simp: ss_push_str_text Let_def intro: utf8_valid_append)
qed

lemma ss_as_str_text: "utf8_valid (ss_text s) \<Longrightarrow> ss_as_str s = ss_text s"
  by (simp add: ss_as_str_def ss_text_def Let_def)

lemma utf8_valid_ascii: "list_all is_ascii s \<Longrightarrow> utf8_valid s"
proof (induction s)
  case Nil
  then show ?case by (simp add: utf8_valid.simps)
next
  case (Cons c s)
  then show ?case by (subst utf8_valid.simps) (simp add: is_ascii_def)
qed

end
