(* ===== verification/Addr.thy ===== *)
theory Addr
  imports Smallstr
begin

text \<open>
  \<open>addr.rs\<close>: native addresses, their rendering (IPv6 with the compression of
  \<open>core/addr.py\<close>, which is not RFC 5952), the dotted-quad and IPv6 literal parsers, and the
  canonical-form test that lets a trail's text be looked up as a native key.
\<close>

datatype ip = V4 u32 | V6 u128

fun ip_version :: "ip \<Rightarrow> nat" where
  "ip_version (V4 _) = 4"
| "ip_version (V6 _) = 6"

fun is_v6 :: "ip \<Rightarrow> bool" where
  "is_v6 (V6 _) = True"
| "is_v6 (V4 _) = False"

fun is_localhost :: "ip \<Rightarrow> bool" where
  "is_localhost (V4 v) = (v = 0x7f000001)"
| "is_localhost (V6 v) = (v = 1)"

fun is_local :: "ip \<Rightarrow> bool" where
  "is_local (V4 v) =
     (let a = ucast (drop_bit 24 v) :: u8; b = ucast (drop_bit 16 v) :: u8
      in a = 127 \<or> a = 10 \<or> (a = 172 \<and> 16 \<le> b \<and> b \<le> 31) \<or> (a = 192 \<and> b = 168))"
| "is_local (V6 _) = False"

section \<open>Rendering\<close>

definition hex_table :: string where
  "hex_table = ''0123456789abcdef''"

definition push_hex4 :: "smallstr \<Rightarrow> u8 \<Rightarrow> u8 \<Rightarrow> smallstr" where
  "push_hex4 out hi lo =
     (let out = ss_push_byte out (hex_table ! unat (drop_bit 4 hi));
          out = ss_push_byte out (hex_table ! unat (hi AND 0xf));
          out = ss_push_byte out (hex_table ! unat (drop_bit 4 lo))
      in ss_push_byte out (hex_table ! unat (lo AND 0xf)))"

definition is_word :: "char \<Rightarrow> bool" where
  "is_word c \<longleftrightarrow> is_digit c \<or> is_lower c \<or> is_upper c \<or> c = CHR ''_''"

definition zero_unit :: string where
  "zero_unit = ''0000:''"

definition unit_at :: "string \<Rightarrow> nat \<Rightarrow> bool" where
  "unit_at b i \<longleftrightarrow> i + 5 \<le> length b \<and> take 5 (drop i b) = zero_unit"

text \<open>The inner loop over one run of units: where it ends and how many units it has.\<close>

function count_units :: "string \<Rightarrow> nat \<Rightarrow> nat \<Rightarrow> nat \<times> nat" where
  "count_units b i units =
     (if unit_at b i then count_units b (i + 5) (units + 1) else (i, units))"
  by pat_completeness auto
termination
  by (relation "measure (\<lambda>(b, i, u). length b - i)") (auto simp: unit_at_def)

declare count_units.simps [simp del]

lemma count_units_ge: "i \<le> fst (count_units b i u)"
proof (induction b i u rule: count_units.induct)
  case (1 b i u)
  then show ?case by (subst count_units.simps) (fastforce intro: order_trans)
qed

lemma count_units_progress: "unit_at b i \<Longrightarrow> i < fst (count_units b i u)"
  using count_units_ge [of "i + 5" b "u + 1"] by (subst count_units.simps) auto

text \<open>The outer loop: the longest run and the first place it starts.\<close>

function best_run :: "string \<Rightarrow> nat \<Rightarrow> nat \<Rightarrow> nat \<Rightarrow> nat \<times> nat" where
  "best_run b i best_units first_best_at =
     (if i + 5 \<le> length b then
        if unit_at b i then
          (let (i', units) = count_units b i 0
           in if units > best_units then best_run b i' units i
              else best_run b i' best_units first_best_at)
        else best_run b (i + 1) best_units first_best_at
      else (best_units, first_best_at))"
  by pat_completeness auto
termination
proof (relation "measure (\<lambda>(b, i, u, f). length b - i)", goal_cases)
  case (2 b i best f p i' u)
  then show ?case using count_units_progress [of b i 0] by (auto dest: sym [of _ "count_units b i 0"])
next
  case (3 b i best f p i' u)
  then show ?case using count_units_progress [of b i 0] by (auto dest: sym [of _ "count_units b i 0"])
qed auto

declare best_run.simps [simp del]

text \<open>\<open>0+(\w)\<close> from \<open>zstart\<close>: greedy over the zeros, then backing off one at a time until
  a word character follows.\<close>

function skip_zeros :: "string \<Rightarrow> nat \<Rightarrow> nat" where
  "skip_zeros s j = (if j < length s \<and> s ! j = CHR ''0'' then skip_zeros s (j + 1) else j)"
  by pat_completeness auto
termination
  by (relation "measure (\<lambda>(s, j). length s - j)") auto

declare skip_zeros.simps [simp del]

fun back_off :: "string \<Rightarrow> nat \<Rightarrow> nat \<Rightarrow> nat option" where
  "back_off s zstart k =
     (if zstart < k \<and> k < length s \<and> is_word (s ! k) then Some k
      else if k \<le> zstart then None
      else back_off s zstart (k - 1))"

declare back_off.simps [simp del]

definition match_zeros :: "string \<Rightarrow> nat \<Rightarrow> nat option" where
  "match_zeros s zstart = back_off s zstart (skip_zeros s zstart)"

text \<open>The substitution at position \<open>i\<close>: the anchors in the order of the alternation
  (the start of the text, then a colon), the first that matches.\<close>

definition match_anchor :: "string \<Rightarrow> nat \<Rightarrow> (nat \<times> nat) option" where
  "match_anchor s i =
     (case (if i = 0 then match_zeros s 0 else None) of
        Some k \<Rightarrow> Some (0, k)
      | None \<Rightarrow>
          (if s ! i = CHR '':''
           then map_option (\<lambda>k. (1, k)) (match_zeros s (i + 1)) else None))"

lemma back_off_Some: "back_off s z k = Some m \<Longrightarrow> z < m \<and> m \<le> k \<and> m < length s \<and> is_word (s ! m)"
proof (induction s z k rule: back_off.induct)
  case (1 s z k)
  then show ?case
    by (subst (asm) (2) back_off.simps) (fastforce split: if_splits)
qed

lemma match_anchor_progress: "match_anchor s i = Some (a, k) \<Longrightarrow> i < k \<and> k < length s"
  by (auto simp: match_anchor_def match_zeros_def split: if_splits option.splits
           dest!: back_off_Some)

function strip_zeros :: "string \<Rightarrow> nat \<Rightarrow> smallstr \<Rightarrow> smallstr" where
  "strip_zeros s i out =
     (if i < length s then
        (case match_anchor s i of
           Some (anchor, k) \<Rightarrow>
             strip_zeros s (k + 1)
               (ss_push_byte (if anchor = 1 then ss_push_byte out (CHR '':'') else out) (s ! k))
         | None \<Rightarrow> strip_zeros s (i + 1) (ss_push_byte out (s ! i)))
      else out)"
  by pat_completeness auto
termination
  by (relation "measure (\<lambda>(s, i, out). length s - i)") (auto dest!: match_anchor_progress)

declare strip_zeros.simps [simp del]

definition compress_ipv6_into :: "string \<Rightarrow> smallstr \<Rightarrow> smallstr" where
  "compress_ipv6_into address out =
     (let (best_units, first_best_at) = best_run address 0 0 usize_max
      in if best_units = 0 then ss_push_str out address
         else
           (let collapsed = ss_push_str (ss_new 48) (take first_best_at address);
                collapsed = ss_push_byte collapsed (CHR '':'');
                collapsed = ss_push_str collapsed (drop (first_best_at + best_units * 5) address);
                out = strip_zeros (ss_as_str collapsed) 0 out
            in if starts_with (ss_as_str out) '':'' \<and> \<not> starts_with (ss_as_str out) ''::''
               then ss_push_str (ss_push_byte (ss_clear out) (CHR '':'')) (ss_as_str out)
               else out))"

definition compress_ipv6 :: "string \<Rightarrow> string" where
  "compress_ipv6 address = ss_as_str (compress_ipv6_into address (ss_new 48))"

definition u128_bytes :: "u128 \<Rightarrow> bytes" where
  "u128_bytes v = map (\<lambda>i. ucast (drop_bit (8 * (15 - i)) v)) [0..<16]"

fun render_into :: "ip \<Rightarrow> smallstr \<Rightarrow> smallstr" where
  "render_into (V4 v) out =
     (let out = ss_push_u8_dec out (ucast (drop_bit 24 v));
          out = ss_push_byte out (CHR ''.'');
          out = ss_push_u8_dec out (ucast (drop_bit 16 v));
          out = ss_push_byte out (CHR ''.'');
          out = ss_push_u8_dec out (ucast (drop_bit 8 v));
          out = ss_push_byte out (CHR ''.'')
      in ss_push_u8_dec out (ucast v))"
| "render_into (V6 v) out =
     (let bytes = u128_bytes v;
          expanded = fold (\<lambda>g e.
            push_hex4 (if g > 0 then ss_push_byte e (CHR '':'') else e)
              (bytes ! (g * 2)) (bytes ! (g * 2 + 1))) [0..<8] (ss_new 40)
      in compress_ipv6_into (ss_as_str expanded) out)"

definition ip_render :: "ip \<Rightarrow> string" where
  "ip_render ip = ss_as_str (render_into ip (ss_new 48))"

fun ip_addr_port :: "ip \<Rightarrow> u16 \<Rightarrow> string" where
  "ip_addr_port (V4 v) port =
     ss_as_str (ss_push_u16 (ss_push_byte (ss_push_str (ss_new 64) (ip_render (V4 v))) (CHR '':''))
       port)"
| "ip_addr_port (V6 v) port =
     ss_as_str (ss_push_u16 (ss_push_byte (ss_push_byte
       (ss_push_str (ss_push_byte (ss_new 64) (CHR ''['')) (ip_render (V6 v)))
       (CHR '']'')) (CHR '':'')) port)"

section \<open>Parsing\<close>

fun addr_octets :: "nat \<Rightarrow> string list \<Rightarrow> u32 \<Rightarrow> (u32 \<times> string list) option" where
  "addr_octets 0 parts out = Some (out, parts)"
| "addr_octets (Suc n) [] out = None"
| "addr_octets (Suc n) (p # parts) out =
     (if p = [] \<or> length p > 3 \<or> \<not> list_all is_digit p then None
      else let v = parse_dec p
           in if v > 255 then None else addr_octets n parts (push_bit 8 out OR of_nat v))"

definition addr_to_int :: "string \<Rightarrow> u32 option" where
  "addr_to_int value =
     (case addr_octets 4 (split_on (CHR ''.'') value) 0 of
        None \<Rightarrow> None
      | Some (out, rest) \<Rightarrow> if rest \<noteq> [] then None else Some out)"

definition make_mask :: "u32 \<Rightarrow> u32" where
  "make_mask bits =
     (if bits \<ge> 32 then 0xffffffff
      else if bits = 0 then 0
      else 0xffffffff XOR (push_bit (unat (32 - bits)) 1 - 1))"

definition is_bracket :: "char \<Rightarrow> bool" where
  "is_bracket c \<longleftrightarrow> c = CHR ''['' \<or> c = CHR '']''"

definition addr_port_str :: "string \<Rightarrow> string \<Rightarrow> string" where
  "addr_port_str addr port =
     (if CHR '':'' \<in> set addr \<and> CHR ''.'' \<notin> set addr
      then ''['' @ rev (dropWhile is_bracket (rev (dropWhile is_bracket addr))) @ '']:'' @ port
      else addr @ '':'' @ port)"

definition parse_u16 :: "string \<Rightarrow> u16 option" where
  "parse_u16 s = (if parse_dec s \<le> 65535 then Some (of_nat (parse_dec s)) else None)"

definition parse_host_port :: "string \<Rightarrow> string \<times> u16 option" where
  "parse_host_port v =
     (let value = trim v;
          (host, port) =
            (if starts_with value ''['' \<and> CHR '']'' \<in> set value then
               (let rest = drop 1 value; i = the (find_char rest (CHR '']''));
                    after = drop (i + 1) rest
                in (take i rest, case strip_prefix after '':'' of None \<Rightarrow> [] | Some p \<Rightarrow> p))
             else
               (let n = count_list value (CHR '':'')
                in if n = 0 then (value, [])
                   else if n = 1 then
                     (let i = the (find_char value (CHR '':'')) in (take i value, drop (i + 1) value))
                   else
                     (let i = the (rfind_char value (CHR '':'')) in (take i value, drop (i + 1) value))));
          parsed = (if port = [] \<or> \<not> list_all is_digit port then None else parse_u16 port)
      in (host, parsed))"

fun parse_groups_it :: "string list \<Rightarrow> u16 list \<Rightarrow> u16 list option" where
  "parse_groups_it [] out = Some out"
| "parse_groups_it (part # rest) out =
     (if part = [] then None
      else if rest = [] \<and> CHR ''.'' \<in> set part then
        (case addr_to_int part of
           None \<Rightarrow> None
         | Some v4 \<Rightarrow> Some (out @ [ucast (drop_bit 16 v4), ucast (v4 AND 0xffff)]))
      else if length part > 4 \<or> \<not> list_all is_hexdigit part then None
      else parse_groups_it rest (out @ [of_nat (parse_hex part)]))"

definition parse_groups :: "string \<Rightarrow> u16 list option" where
  "parse_groups s = (if s = [] then Some [] else parse_groups_it (split_on (CHR '':'') s) [])"

definition groups_value :: "u16 list \<Rightarrow> u128" where
  "groups_value gs = fold (\<lambda>g out. push_bit 16 out OR ucast g) gs 0"

definition parse_ipv6 :: "string \<Rightarrow> u128 option" where
  "parse_ipv6 text =
     (if text = [] \<or> length text > 45 then None
      else case (case split_once text ''::'' of
                   Some (h, t) \<Rightarrow> if has_sub t ''::'' then None else Some (h, Some t)
                 | None \<Rightarrow> Some (text, None)) of
        None \<Rightarrow> None
      | Some (head, tail) \<Rightarrow> do {
          groups \<leftarrow> parse_groups head;
          groups \<leftarrow> (case tail of
              Some t \<Rightarrow> do {
                trailing \<leftarrow> parse_groups t;
                if length groups + length trailing > 7 then None
                else Some (groups @ replicate (8 - (length groups + length trailing)) 0 @ trailing)
              }
            | None \<Rightarrow> Some groups);
          if length groups \<noteq> 8 then None else Some (groups_value groups)
        })"

definition canonical_ip_text :: "string \<Rightarrow> string" where
  "canonical_ip_text text =
     (if CHR '':'' \<notin> set text then text
      else case strip_prefix text ''['' of
        Some rest \<Rightarrow>
          (case split_once rest '']:'' of
             None \<Rightarrow> text
           | Some (addr, port) \<Rightarrow>
               (case parse_ipv6 addr of
                  None \<Rightarrow> text
                | Some v6 \<Rightarrow>
                    (if port = [] \<or> length port > 5 \<or> \<not> list_all is_digit port then text
                     else if parse_dec port \<le> 0xffff
                     then ''['' @ ip_render (V6 v6) @ '']:'' @ port
                     else text)))
      | None \<Rightarrow>
          (case parse_ipv6 text of
             Some v6 \<Rightarrow> ip_render (V6 v6)
           | None \<Rightarrow> text))"

definition parse_canonical_ip :: "string \<Rightarrow> ip option" where
  "parse_canonical_ip text =
     (case addr_to_int text of
        Some v \<Rightarrow> (if ip_render (V4 v) = text then Some (V4 v) else None)
      | None \<Rightarrow>
          (if CHR '':'' \<notin> set text then None
           else case parse_ipv6 text of
             None \<Rightarrow> None
           | Some v \<Rightarrow> (if ip_render (V6 v) = text then Some (V6 v) else None)))"

section \<open>IPv4 text and number agree\<close>


lemma dec_u8_length: "length (dec (unat (x :: u8))) \<le> 3"
  using unat_u8_bound [of x] by (intro dec_length3) simp

lemma dec_ascii: "list_all is_ascii (dec n)"
  using dec_digits [of n] by (auto simp: list_all_iff is_ascii_def is_digit_def)

lemma render_V4:
  "ip_render (V4 v) =
     dec (unat (ucast (drop_bit 24 v) :: u8)) @ ''.'' @ dec (unat (ucast (drop_bit 16 v) :: u8)) @ ''.'' @
     dec (unat (ucast (drop_bit 8 v) :: u8)) @ ''.'' @ dec (unat (ucast v :: u8))"
proof -
  define a b c d where abcd: "a = (ucast (drop_bit 24 v) :: u8)" "b = (ucast (drop_bit 16 v) :: u8)"
    "c = (ucast (drop_bit 8 v) :: u8)" "d = (ucast v :: u8)"
  have room: "length (dec (unat a)) \<le> 3" "length (dec (unat b)) \<le> 3"
    "length (dec (unat c)) \<le> 3" "length (dec (unat d)) \<le> 3"
    by (simp_all only: dec_u8_length)
  let ?s = "dec (unat a) @ ''.'' @ dec (unat b) @ ''.'' @ dec (unat c) @ ''.'' @ dec (unat d)"
  have "ss_text (render_into (V4 v) (ss_new 48)) = ?s"
    using room by (simp add: Let_def abcd [symmetric])
  moreover have "list_all is_ascii ?s"
    by (simp add: dec_ascii is_ascii_def code_def)
  ultimately show ?thesis
    by (simp add: ip_render_def ss_as_str_text utf8_valid_ascii abcd)
qed

lemma octets_value:
  fixes v :: u32
  shows "push_bit 8 (push_bit 8 (push_bit 8 (ucast (ucast (drop_bit 24 v) :: u8)) OR
           ucast (ucast (drop_bit 16 v) :: u8)) OR ucast (ucast (drop_bit 8 v) :: u8)) OR
         ucast (ucast v :: u8) = v"
proof (rule bit_word_eqI, goal_cases)
  case (1 n)
  have "24 + (n - 24) = n" if "24 \<le> n" using that by simp
  moreover have "16 + (n - 16) = n" if "16 \<le> n" using that by simp
  moreover have "8 + (n - 8) = n" if "8 \<le> n" using that by simp
  ultimately show ?case using 1
    by (cases "n < 8"; cases "n < 16"; cases "n < 24") (auto simp: bit_simps)
qed


lemma addr_octets_dec:
  "addr_octets (Suc n) (dec (unat (x :: u8)) # ps) out =
   addr_octets n ps (push_bit 8 out OR ucast x)"
proof -
  have "unat x \<le> 255" using unat_u8_bound [of x] by simp
  moreover have "(of_nat (unat x) :: u32) = ucast x" by simp
  ultimately show ?thesis using dec_u8_length [of x]
    by (simp add: dec_digits)
qed

lemma split_quad:
  "split_on (CHR ''.'') (dec a @ ''.'' @ dec b @ ''.'' @ dec c @ ''.'' @ dec d) = [dec a, dec b, dec c, dec d]"
  using dec_no_dot [of a] dec_no_dot [of b] dec_no_dot [of c] dec_no_dot [of d]
  by (simp add: split_on_append split_on_no)

lemma addr_to_int_render: "addr_to_int (ip_render (V4 v)) = Some v"
proof -
  have "addr_octets 4 [dec (unat (a :: u8)), dec (unat (b :: u8)), dec (unat (c :: u8)), dec (unat (d :: u8))] 0
    = Some (push_bit 8 (push_bit 8 (push_bit 8 (ucast a) OR ucast b) OR ucast c) OR ucast d, [])" for a b c d
  proof -
    have "addr_octets 4 = addr_octets (Suc (Suc (Suc (Suc 0))))" by (simp add: numeral_eq_Suc)
    then show ?thesis by (simp only: addr_octets_dec addr_octets.simps(1) push_bit_of_0 or.left_neutral)
  qed
  then show ?thesis
    by (simp only: render_V4 addr_to_int_def split_quad octets_value) simp
qed

lemma parse_canonical_V4: "parse_canonical_ip e = Some (V4 v) \<longleftrightarrow> e = ip_render (V4 v)"
proof
  assume "parse_canonical_ip e = Some (V4 v)"
  then show "e = ip_render (V4 v)" by (auto simp: parse_canonical_ip_def split: option.splits if_splits)
next
  assume "e = ip_render (V4 v)"
  then show "parse_canonical_ip e = Some (V4 v)" by (simp add: parse_canonical_ip_def addr_to_int_render)
qed

end
