(* ===== verification/Packet.thy ===== *)
theory Packet
  imports Addr
begin

text \<open>
  \<open>packet/mod.rs\<close>: the IP, TCP, UDP and ICMP header parsers. \<open>parse_ip\<close> and the
  IPv6 extension-header walk index the packet directly, so they live in the option monad
  with \<open>None\<close> for the panic of an out-of-range index; the theorems show that it is never
  reached. The transport parsers use \<open>get\<close> and return the source's own \<open>None\<close>.
\<close>

record ip_header =
  ih_version :: u8
  ih_header_len :: nat
  ih_protocol :: u8
  ih_src :: ip
  ih_dst :: ip

datatype drop_reason = NotIp | Fragment | Truncated

definition ipv6_ext_hopopt :: u8 where "ipv6_ext_hopopt = 0"
definition ipv6_ext_routing :: u8 where "ipv6_ext_routing = 43"
definition ipv6_ext_fragment :: u8 where "ipv6_ext_fragment = 44"
definition ipv6_ext_ah :: u8 where "ipv6_ext_ah = 51"
definition ipv6_ext_dstopts :: u8 where "ipv6_ext_dstopts = 60"
definition ipv6_ext_mobility :: u8 where "ipv6_ext_mobility = 135"
definition ipv6_ext_hip :: u8 where "ipv6_ext_hip = 139"
definition ipv6_ext_shim6 :: u8 where "ipv6_ext_shim6 = 140"

lemmas ext_defs = ipv6_ext_hopopt_def ipv6_ext_routing_def ipv6_ext_fragment_def ipv6_ext_ah_def
  ipv6_ext_dstopts_def ipv6_ext_mobility_def ipv6_ext_hip_def ipv6_ext_shim6_def

definition max_ipv6_ext_headers :: nat where
  "max_ipv6_ext_headers = 8"

definition is_ipv6_ext_header :: "u8 \<Rightarrow> bool" where
  "is_ipv6_ext_header p \<longleftrightarrow>
     p = ipv6_ext_hopopt \<or> p = ipv6_ext_routing \<or> p = ipv6_ext_fragment \<or> p = ipv6_ext_ah \<or>
     p = ipv6_ext_dstopts \<or> p = ipv6_ext_mobility \<or> p = ipv6_ext_hip \<or> p = ipv6_ext_shim6"

section \<open>The IPv6 extension-header walk\<close>

text \<open>One turn of the \<open>match protocol\<close>: an early \<open>return Err\<close> (\<open>Inl\<close>), a \<open>break\<close>
  (\<open>Inr None\<close>) or the length of the header to step over.\<close>

definition ext_len :: "bytes \<Rightarrow> u8 \<Rightarrow> nat \<Rightarrow> (drop_reason + nat option) option" where
  "ext_len d p off =
     (if p = ipv6_ext_fragment then
        (if off + 4 > length d then Some (Inl Truncated)
         else do {
           x \<leftarrow> b_at d (off + 2);
           y \<leftarrow> b_at d (off + 3);
           if drop_bit 3 (be16 x y) \<noteq> 0 then Some (Inr None) else Some (Inr (Some 8))
         })
      else if p = ipv6_ext_hopopt \<or> p = ipv6_ext_routing \<or> p = ipv6_ext_dstopts \<or>
              p = ipv6_ext_mobility \<or> p = ipv6_ext_hip \<or> p = ipv6_ext_shim6 then
        (if off + 2 > length d then Some (Inl Truncated)
         else do { l \<leftarrow> b_at d (off + 1); Some (Inr (Some ((unat l + 1) * 8))) })
      else if p = ipv6_ext_ah then
        (if off + 2 > length d then Some (Inl Truncated)
         else do { l \<leftarrow> b_at d (off + 1); Some (Inr (Some ((unat l + 2) * 4))) })
      else Some (Inr None))"

fun walk_ext :: "nat \<Rightarrow> bytes \<Rightarrow> u8 \<Rightarrow> nat \<Rightarrow> (drop_reason + u8 \<times> nat) option" where
  "walk_ext 0 d p off = Some (Inr (p, off))"
| "walk_ext (Suc n) d p off = do {
     turn \<leftarrow> ext_len d p off;
     (case turn of
        Inl e \<Rightarrow> Some (Inl e)
      | Inr None \<Rightarrow> Some (Inr (p, off))
      | Inr (Some len) \<Rightarrow>
          (if off + len > length d then Some (Inl Truncated)
           else do { p' \<leftarrow> b_at d off; walk_ext n d p' (off + len) }))
   }"

definition walk_ipv6_ext_headers :: "bytes \<Rightarrow> u8 \<Rightarrow> (drop_reason + u8 \<times> nat) option" where
  "walk_ipv6_ext_headers d first = walk_ext max_ipv6_ext_headers d first 40"

definition parse_ipv6_header :: "bytes \<Rightarrow> (drop_reason + ip_header) option" where
  "parse_ipv6_header d =
     (if length d < 40 then Some (Inl Truncated)
      else do {
        src \<leftarrow> b_slice d 8 24;
        dst \<leftarrow> b_slice d 24 40;
        nxt \<leftarrow> b_at d 6;
        walked \<leftarrow> (if is_ipv6_ext_header nxt then walk_ipv6_ext_headers d nxt
                   else Some (Inr (nxt, 40)));
        (case walked of
           Inl e \<Rightarrow> Some (Inl e)
         | Inr (protocol, header_len) \<Rightarrow>
             Some (Inr \<lparr>ih_version = 6, ih_header_len = header_len, ih_protocol = protocol,
                        ih_src = V6 (be128 src), ih_dst = V6 (be128 dst)\<rparr>))
      })"

definition parse_ip :: "bytes \<Rightarrow> (drop_reason + ip_header) option" where
  "parse_ip d =
     (case d of [] \<Rightarrow> Some (Inl NotIp) | first # _ \<Rightarrow>
        (if drop_bit 4 first = 4 then
           (if length d < 20 then Some (Inl Truncated)
            else do {
              f1 \<leftarrow> b_at d 6; f2 \<leftarrow> b_at d 7;
              (if be16 f1 f2 AND 0x1fff \<noteq> 0 then Some (Inl Fragment)
               else do {
                 proto \<leftarrow> b_at d 9;
                 s0 \<leftarrow> b_at d 12; s1 \<leftarrow> b_at d 13; s2 \<leftarrow> b_at d 14; s3 \<leftarrow> b_at d 15;
                 d0 \<leftarrow> b_at d 16; d1 \<leftarrow> b_at d 17; d2 \<leftarrow> b_at d 18; d3 \<leftarrow> b_at d 19;
                 Some (Inr \<lparr>ih_version = 4, ih_header_len = unat (first AND 0x0f) * 4,
                            ih_protocol = proto, ih_src = V4 (be32 s0 s1 s2 s3),
                            ih_dst = V4 (be32 d0 d1 d2 d3)\<rparr>)
               })
            })
         else if drop_bit 4 first = 6 then parse_ipv6_header d
         else Some (Inl NotIp)))"

section \<open>Transport headers\<close>

record tcp_header =
  th_src_port :: u16
  th_dst_port :: u16
  th_flags :: u8
  th_data_offset :: u8

definition parse_tcp :: "bytes \<Rightarrow> nat \<Rightarrow> tcp_header option" where
  "parse_tcp d header_len = do {
     h \<leftarrow> b_slice d header_len (usize_saturating_add header_len 14);
     s0 \<leftarrow> b_at h 0; s1 \<leftarrow> b_at h 1; d0 \<leftarrow> b_at h 2; d1 \<leftarrow> b_at h 3;
     off \<leftarrow> b_at h 12; fl \<leftarrow> b_at h 13;
     Some \<lparr>th_src_port = be16 s0 s1, th_dst_port = be16 d0 d1, th_flags = fl,
           th_data_offset = drop_bit 4 off\<rparr>
   }"

definition tcp_seq :: "bytes \<Rightarrow> nat \<Rightarrow> u32" where
  "tcp_seq d header_len =
     (case b_slice d (header_len + 4) (header_len + 8) of
        None \<Rightarrow> 0
      | Some b \<Rightarrow> be32 (b ! 0) (b ! 1) (b ! 2) (b ! 3))"

definition tcp_payload :: "tcp_header \<Rightarrow> bytes \<Rightarrow> nat \<Rightarrow> bytes" where
  "tcp_payload t d header_len =
     (let h_size = usize_saturating_add header_len (unat (th_data_offset t) * 4)
      in case b_from d h_size of None \<Rightarrow> [] | Some p \<Rightarrow> p)"

record udp_header =
  uh_src_port :: u16
  uh_dst_port :: u16

definition parse_udp :: "bytes \<Rightarrow> nat \<Rightarrow> udp_header option" where
  "parse_udp d header_len = do {
     h \<leftarrow> b_slice d header_len (usize_saturating_add header_len 4);
     s0 \<leftarrow> b_at h 0; s1 \<leftarrow> b_at h 1; d0 \<leftarrow> b_at h 2; d1 \<leftarrow> b_at h 3;
     Some \<lparr>uh_src_port = be16 s0 s1, uh_dst_port = be16 d0 d1\<rparr>
   }"

definition udp_payload :: "bytes \<Rightarrow> nat \<Rightarrow> bytes" where
  "udp_payload d header_len =
     (case b_from d (usize_saturating_add header_len 8) of None \<Rightarrow> [] | Some p \<Rightarrow> p)"

definition icmp_type :: "bytes \<Rightarrow> nat \<Rightarrow> u8 option" where
  "icmp_type d header_len = b_at d header_len"

section \<open>The walk as steps over headers\<close>

text \<open>
  An extension-header chain as RFC 8200 and RFC 4302 lay it out, without the code's length computation: a state is the
  next header's number and its offset, and a step skips one complete header that fits in the packet. An options-like
  header has its length in units of eight bytes beyond the first eight, an authentication header in units of four
  beyond the first eight, a fragment header is eight bytes and only the first fragment is stepped over.
\<close>

definition options_headers :: "u8 set" where
  "options_headers = {0, 43, 60, 135, 139, 140}"

inductive ext_step :: "bytes \<Rightarrow> u8 \<times> nat \<Rightarrow> u8 \<times> nat \<Rightarrow> bool" for d where
  options: "p \<in> options_headers \<Longrightarrow> off + 8 + 8 * unat (d ! (off + 1)) \<le> length d \<Longrightarrow>
    ext_step d (p, off) (d ! off, off + 8 + 8 * unat (d ! (off + 1)))"
| authentication: "off + 8 + 4 * unat (d ! (off + 1)) \<le> length d \<Longrightarrow>
    ext_step d (51, off) (d ! off, off + 8 + 4 * unat (d ! (off + 1)))"
| fragment: "off + 8 \<le> length d \<Longrightarrow> be16 (d ! (off + 2)) (d ! (off + 3)) < 8 \<Longrightarrow>
    ext_step d (44, off) (d ! off, off + 8)"

inductive_cases ext_stepE: "ext_step d (p, off) s"

text \<open>The chain ends at anything that is no extension header, and at a later fragment.\<close>

definition chain_ends :: "bytes \<Rightarrow> u8 \<times> nat \<Rightarrow> bool" where
  "chain_ends d s \<longleftrightarrow> (case s of (p, off) \<Rightarrow>
     p \<notin> options_headers \<and> p \<noteq> 51 \<and> p \<noteq> 44 \<or>
     p = 44 \<and> off + 4 \<le> length d \<and> 8 \<le> be16 (d ! (off + 2)) (d ! (off + 3)))"

lemma drop_bit_3_zero: "drop_bit 3 (w :: u16) = 0 \<longleftrightarrow> w < 8"
proof -
  have "drop_bit 3 w = 0 \<longleftrightarrow> unat (drop_bit 3 w) = 0" by (simp only: unsigned_eq_0_iff)
  also have "\<dots> \<longleftrightarrow> unat w div 8 = 0" using unat_u16_bound [of w] by (subst unsigned_drop_bit_eq) (simp add: drop_bit_eq_div take_bit_nat_eq_self)
  also have "\<dots> \<longleftrightarrow> unat w < 8" by auto
  also have "\<dots> \<longleftrightarrow> w < 8" by (simp add: word_less_nat_alt)
  finally show ?thesis .
qed

lemma ext_len_no_panic: "ext_len d p off \<noteq> None"
  by (auto simp: ext_len_def)

lemma ext_len_pos: "ext_len d p off = Some (Inr (Some len)) \<Longrightarrow> 0 < len \<and> off < length d"
  by (auto simp: ext_len_def bytes_simps split: if_splits bind_splits)

text \<open>The code's step and its stop are those of the layout.\<close>

lemma ext_len_step:
  assumes "ext_len d p off = Some (Inr (Some len))" "off + len \<le> length d"
  shows "ext_step d (p, off) (d ! off, off + len)"
proof -
  consider "p \<in> options_headers" "len = 8 + 8 * unat (d ! (off + 1))" | "p = 51" "len = 8 + 4 * unat (d ! (off + 1))"
    | "p = 44" "len = 8" "be16 (d ! (off + 2)) (d ! (off + 3)) < 8"
    using assms by (auto simp: ext_len_def ext_defs options_headers_def bytes_simps drop_bit_3_zero split: if_splits bind_splits)
  then show ?thesis
    using ext_step.options [of p off d] ext_step.authentication [of off d] ext_step.fragment [of off d] assms(2)
    by cases (simp_all add: add.assoc)
qed

lemma ext_step_len:
  assumes step: "ext_step d (p, off) s"
  obtains len where "ext_len d p off = Some (Inr (Some len))" "s = (d ! off, off + len)" "off + len \<le> length d" "0 < len"
  using step
proof cases
  case options
  then show thesis by (intro that [of "8 + 8 * unat (d ! (off + 1))"]) (auto simp: ext_len_def ext_defs options_headers_def)
next
  case authentication
  then show thesis by (intro that [of "8 + 4 * unat (d ! (off + 1))"]) (auto simp: ext_len_def ext_defs)
next
  case fragment
  then show thesis by (intro that [of 8]) (auto simp: ext_len_def ext_defs drop_bit_3_zero)
qed

lemma ext_len_ends: "ext_len d p off = Some (Inr None) \<longleftrightarrow> chain_ends d (p, off)"
  by (auto simp: ext_len_def chain_ends_def ext_defs options_headers_def bytes_simps drop_bit_3_zero not_less split: bind_splits)

lemma walk_ext_pos:
  "0 < n \<Longrightarrow> walk_ext n d p off = walk_ext (Suc (n - 1)) d p off"
  by simp

lemma walk_ext_no_panic: "walk_ext n d p off \<noteq> None"
proof (induction n arbitrary: p off)
  case (Suc n)
  from ext_len_no_panic [of d p off] obtain t where t: "ext_len d p off = Some t" by blast
  show ?case
  proof (cases t)
    case (Inr r)
    with t Suc.IH show ?thesis by (cases r) (auto dest!: ext_len_pos)
  qed (simp add: t)
qed simp

lemma ext_len_answers: "ext_len d p off = Some (Inl e) \<Longrightarrow> e = Truncated"
  by (auto simp: ext_len_def bytes_simps split: if_splits bind_splits)

lemma walk_ext_answers: "walk_ext n d p off = Some (Inl Truncated) \<or> (\<exists>s. walk_ext n d p off = Some (Inr s))"
proof (induction n arbitrary: p off)
  case (Suc n)
  obtain t where t: "ext_len d p off = Some t" using ext_len_no_panic [of d p off] by blast
  show ?case
  proof (cases t)
    case (Inl e)
    then show ?thesis using t ext_len_answers by simp
  next
    case (Inr r)
    then show ?thesis using t Suc.IH [of "d ! off" "off + the r"] by (cases r) (auto dest!: ext_len_pos)
  qed
qed simp

lemma walk_ext_steps:
  "walk_ext n d p off = Some (Inr (p', off')) \<Longrightarrow>
   \<exists>k \<le> n. (ext_step d ^^ k) (p, off) (p', off') \<and> (k = n \<or> ext_len d p' off' = Some (Inr None))"
proof (induction n arbitrary: p off)
  case 0
  then show ?case by simp
next
  case (Suc n)
  from ext_len_no_panic [of d p off] obtain t where t: "ext_len d p off = Some t" by blast
  show ?case
  proof (cases t)
    case (Inl e)
    with t Suc.prems show ?thesis by simp
  next
    case (Inr r)
    show ?thesis
    proof (cases r)
      case None
      with t Inr Suc.prems have "p' = p" "off' = off" "ext_len d p off = Some (Inr None)"
        by auto
      then show ?thesis by (intro exI [of _ 0]) simp
    next
      case (Some len)
      note el = t [unfolded Inr Some]
      from ext_len_pos [OF el] have pos: "0 < len" "off < length d" by auto
      with el Suc.prems have fits: "off + len \<le> length d"
        and rest: "walk_ext n d (d ! off) (off + len) = Some (Inr (p', off'))"
        by (auto split: if_splits)
      from Suc.IH [OF rest] obtain k where k: "k \<le> n"
          "(ext_step d ^^ k) (d ! off, off + len) (p', off')"
          "k = n \<or> ext_len d p' off' = Some (Inr None)"
        by blast
      have "ext_step d (p, off) (d ! off, off + len)"
        using el fits by (rule ext_len_step)
      then have "(ext_step d ^^ Suc k) (p, off) (p', off')"
        using k(2) by (rule relpowp_Suc_I2)
      with k show ?thesis by (intro exI [of _ "Suc k"]) auto
    qed
  qed
qed

lemma ext_step_grows: "ext_step d (p, off) (p', off') \<Longrightarrow> off < off' \<and> off' \<le> length d"
  by (auto elim!: ext_step_len)

lemma ext_steps_bound:
  "(ext_step d ^^ k) (p, off) (p', off') \<Longrightarrow> off \<le> length d \<Longrightarrow> off \<le> off' \<and> off' \<le> length d"
proof (induction k arbitrary: p off)
  case 0
  then show ?case by simp
next
  case (Suc k)
  then obtain q o' where "ext_step d (p, off) (q, o')" "(ext_step d ^^ k) (q, o') (p', off')"
    by (metis relpowp_Suc_D2 surj_pair)
  with Suc.IH [of q o'] ext_step_grows [of d p off q o'] show ?case by fastforce
qed

section \<open>Reading the headers\<close>

lemma b_slice_in: "i \<le> j \<Longrightarrow> j \<le> length b \<Longrightarrow> b_slice b i j = Some (take (j - i) (drop i b))"
  by (simp add: b_slice_def)

lemma parse_ipv6_header_Ok:
  assumes "parse_ipv6_header d = Some (Inr h)"
  shows "40 \<le> length d \<and> ih_version h = 6 \<and>
    (if is_ipv6_ext_header (d ! 6)
     then walk_ext max_ipv6_ext_headers d (d ! 6) 40 = Some (Inr (ih_protocol h, ih_header_len h))
     else ih_protocol h = d ! 6 \<and> ih_header_len h = 40) \<and>
    ih_src h = V6 (be128 (take 16 (drop 8 d))) \<and> ih_dst h = V6 (be128 (take 16 (drop 24 d)))"
  using assms
  by (auto simp: parse_ipv6_header_def b_slice_in walk_ipv6_ext_headers_def
           split: if_splits sum.splits bind_splits)

lemma parse_ip_v4_fragment:
  assumes "20 \<le> length d" and "drop_bit 4 (d ! 0) = 4"
  shows "parse_ip d = Some (Inl Fragment) \<longleftrightarrow> be16 (d ! 6) (d ! 7) AND 0x1fff \<noteq> 0"
  using assms by (cases d) (auto simp: parse_ip_def)

lemma usize_saturating_add_exact: "a + b \<le> usize_max \<Longrightarrow> usize_saturating_add a b = a + b"
  by (simp add: usize_saturating_add_def)

lemma b_slice_saturating:
  assumes "length d \<le> usize_max"
  shows "b_slice d n (usize_saturating_add n k) =
    (if n + k \<le> length d then Some (take k (drop n d))
     else if n \<le> usize_max \<and> usize_max \<le> length d then Some (take (usize_max - n) (drop n d))
     else None)"
  using assms by (auto simp: b_slice_def usize_saturating_add_def min_def)

lemma tcp_payload_drop:
  "length d < usize_max \<Longrightarrow> tcp_payload t d n = drop (n + unat (th_data_offset t) * 4) d"
  by (auto simp: tcp_payload_def b_from_def Let_def usize_saturating_add_def min_def)

lemma ext_step_det: "ext_step d s t \<Longrightarrow> ext_step d s u \<Longrightarrow> t = u"
  by (cases s) (auto elim!: ext_step_len)

lemma walk_ext_complete:
  "(ext_step d ^^ k) (p, off) (p', off') \<Longrightarrow> k \<le> n \<Longrightarrow> k = n \<or> ext_len d p' off' = Some (Inr None) \<Longrightarrow>
   walk_ext n d p off = Some (Inr (p', off'))"
proof (induction k arbitrary: n p off)
  case 0
  then show ?case by (cases n) auto
next
  case (Suc k)
  from Suc.prems(1) obtain s where s: "ext_step d (p, off) s" "(ext_step d ^^ k) s (p', off')"
    by (metis relpowp_Suc_D2)
  from Suc.prems obtain m where n: "n = Suc m" by (cases n) auto
  from s(1) obtain len where st: "s = (d ! off, off + len)" "ext_len d p off = Some (Inr (Some len))"
      "off + len \<le> length d" "0 < len"
    by (auto elim!: ext_step_len)
  with Suc.IH [of "d ! off" "off + len" m] s Suc.prems n show ?case by auto
qed

lemma parse_udp_spec:
  assumes "length d < usize_max"
  shows "parse_udp d n =
    (if n + 4 \<le> length d
     then Some \<lparr>uh_src_port = be16 (d ! n) (d ! (n + 1)), uh_dst_port = be16 (d ! (n + 2)) (d ! (n + 3))\<rparr>
     else None)"
proof (cases "n + 4 \<le> length d")
  case True
  define h where "h = take 4 (drop n d)"
  have len: "length h = 4" using True by (simp add: h_def)
  have nth: "k < 4 \<Longrightarrow> h ! k = d ! (n + k)" for k
    using True by (simp add: h_def)
  have "b_slice d n (usize_saturating_add n 4) = Some h"
    using True assms by (simp add: b_slice_saturating h_def)
  with True len show ?thesis by (simp add: parse_udp_def nth)
next
  case False
  with assms show ?thesis by (simp add: parse_udp_def b_slice_saturating)
qed

section \<open>Properties\<close>

text \<open>\<open>parse_ip\<close> never panics: whatever the bytes of the packet, every index the IPv4
  parser, the IPv6 parser and the extension-header walk read is inside the packet.\<close>

theorem parse_ip_never_panics: "parse_ip d \<noteq> None"
proof (cases d)
  case Nil
  then show ?thesis by (simp add: parse_ip_def)
next
  case (Cons first rest)
  have "parse_ipv6_header d \<noteq> None"
    using walk_ext_no_panic [of max_ipv6_ext_headers d "d ! 6" 40]
    by (auto simp: parse_ipv6_header_def b_slice_in walk_ipv6_ext_headers_def split: sum.splits)
  with Cons show ?thesis by (auto simp: parse_ip_def)
qed

text \<open>C12: the IPv6 extension-header walk reads the chain that RFC 8200 and RFC 4302 lay out: it returns a protocol and an
  offset exactly when at most eight complete headers of the laid-out lengths lead there from the fixed header, and the
  chain ends there (a transport protocol, ESP, a later fragment) or eight were walked. When no such chain is in the packet
  the walk says the packet is truncated; it never panics.\<close>

theorem walk_is_header_chain:
  "(walk_ipv6_ext_headers d first = Some (Inr (p', off')) \<longleftrightarrow>
     (\<exists>k. k \<le> 8 \<and> (ext_step d ^^ k) (first, 40) (p', off') \<and> (k = 8 \<or> chain_ends d (p', off')))) \<and>
   (walk_ipv6_ext_headers d first = Some (Inl Truncated) \<longleftrightarrow>
     \<not> (\<exists>k s. k \<le> 8 \<and> (ext_step d ^^ k) (first, 40) s \<and> (k = 8 \<or> chain_ends d s)))"
proof -
  have read: "walk_ipv6_ext_headers d first = Some (Inr (q, o')) \<longleftrightarrow>
     (\<exists>k. k \<le> 8 \<and> (ext_step d ^^ k) (first, 40) (q, o') \<and> (k = 8 \<or> chain_ends d (q, o')))" for q o'
    using walk_ext_steps [of 8 d first 40 q o'] walk_ext_complete [of _ d first 40 q o' 8]
    by (auto simp: walk_ipv6_ext_headers_def max_ipv6_ext_headers_def ext_len_ends)
  have "walk_ipv6_ext_headers d first = Some (Inl Truncated) \<or> (\<exists>q o'. walk_ipv6_ext_headers d first = Some (Inr (q, o')))"
    using walk_ext_answers [of 8 d first 40] by (auto simp: walk_ipv6_ext_headers_def max_ipv6_ext_headers_def)
  moreover have "walk_ipv6_ext_headers d first = Some (Inl Truncated) \<Longrightarrow> walk_ipv6_ext_headers d first \<noteq> Some (Inr s)" for s by simp
  ultimately have "walk_ipv6_ext_headers d first = Some (Inl Truncated) \<longleftrightarrow> \<not> (\<exists>q o'. walk_ipv6_ext_headers d first = Some (Inr (q, o')))"
    by blast
  then show ?thesis unfolding read by (auto simp: split_paired_Ex)
qed

text \<open>An accepted IPv6 packet reports a transport offset between the end of the fixed
  header and the end of the packet, and its addresses are the sixteen bytes each of the fixed
  header.\<close>

theorem parse_ipv6_bounds:
  assumes "parse_ip d = Some (Inr h)" and "ih_version h = 6"
  shows "40 \<le> ih_header_len h \<and> ih_header_len h \<le> length d \<and>
    ih_src h = V6 (be128 (take 16 (drop 8 d))) \<and> ih_dst h = V6 (be128 (take 16 (drop 24 d)))"
proof -
  from assms have "parse_ipv6_header d = Some (Inr h)"
    by (cases d) (auto simp: parse_ip_def split: if_splits bind_splits)
  note ok = parse_ipv6_header_Ok [OF this]
  show ?thesis
  proof (cases "is_ipv6_ext_header (d ! 6)")
    case True
    with ok walk_ext_steps [of 8 d "d ! 6" 40 "ih_protocol h" "ih_header_len h"]
    obtain k where "(ext_step d ^^ k) (d ! 6, 40) (ih_protocol h, ih_header_len h)"
      by (auto simp: max_ipv6_ext_headers_def)
    with ext_steps_bound [of k d "d ! 6" 40] ok show ?thesis by auto
  qed (use ok in auto)
qed

definition sample_hopopt_packet :: bytes where
  "sample_hopopt_packet =
     [0x60, 0, 0, 0, 0, 16, 0, 64] @ replicate 32 1 @ [17, 0, 0, 0, 0, 0, 0, 0] @ replicate 8 9"

theorem parse_ipv6_bounds_witness:
  "40 \<le> (48 :: nat) \<and> (48 :: nat) \<le> length sample_hopopt_packet"
proof -
  define h where "h = \<lparr>ih_version = 6, ih_header_len = 48, ih_protocol = 17,
    ih_src = V6 (be128 (replicate 16 1)), ih_dst = V6 (be128 (replicate 16 1))\<rparr>"
  have "parse_ip sample_hopopt_packet = Some (Inr h)"
    unfolding h_def sample_hopopt_packet_def by code_simp
  from parse_ipv6_bounds [OF this] show ?thesis by (simp add: h_def)
qed

text \<open>The TCP header parser succeeds exactly when the fourteen bytes it reads are in the
  packet, and then reports the big-endian ports, the flags and the data offset found there.\<close>

theorem parse_tcp_spec:
  assumes "length d < usize_max"
  shows "parse_tcp d n =
    (if n + 14 \<le> length d
     then Some \<lparr>th_src_port = be16 (d ! n) (d ! (n + 1)), th_dst_port = be16 (d ! (n + 2)) (d ! (n + 3)),
                th_flags = d ! (n + 13), th_data_offset = drop_bit 4 (d ! (n + 12))\<rparr>
     else None)"
proof (cases "n + 14 \<le> length d")
  case True
  define h where "h = take 14 (drop n d)"
  have len: "length h = 14" using True by (simp add: h_def)
  have nth: "k < 14 \<Longrightarrow> h ! k = d ! (n + k)" for k
    using True by (simp add: h_def)
  have "b_slice d n (usize_saturating_add n 14) = Some h"
    using True assms by (simp add: b_slice_saturating h_def)
  with True len show ?thesis by (simp add: parse_tcp_def nth)
next
  case False
  with assms show ?thesis by (simp add: parse_tcp_def b_slice_saturating)
qed

theorem parse_tcp_spec_witness:
  "parse_tcp (replicate 12 0 @ [0x50, 0x02]) 0 =
     Some \<lparr>th_src_port = 0, th_dst_port = 0, th_flags = 2, th_data_offset = 5\<rparr>"
  by (subst parse_tcp_spec) (simp_all add: usize_max_def be16_def nth_append)

end
