(* ===== verification/Dlt.thy ===== *)
theory Dlt
  imports Packet
begin

text \<open>
  \<open>packet/dlt.rs\<close>: where the IP header starts for each datalink type, and the learner that
  infers an offset for a datalink that has none. A datalink number is an \<open>int\<close>; the
  platform-dependent values are those of every platform but OpenBSD. Reads under a guard of
  the same function are written \<open>b ! i\<close>; every other read goes through \<open>b_at\<close> or
  \<open>b_slice\<close>, which are the source's \<open>get\<close>. The two messages \<open>resolve\<close> and
  \<open>guess\<close> print are returned as a list of notes.

  \<open>special_offset\<close> and \<open>ip_offset\<close> call each other in the source, but only for an
  Ethernet frame inside another header; \<open>ip_offset_ethernet\<close> is \<open>ip_offset\<close> at
  \<open>DLT_EN10MB\<close>, and \<open>ip_offset_en10mb\<close> shows that it is.
\<close>

definition dlt_null :: int where "dlt_null = 0"
definition dlt_en10mb :: int where "dlt_en10mb = 1"
definition dlt_ppp :: int where "dlt_ppp = 9"
definition dlt_raw :: int where "dlt_raw = 12"
definition dlt_pfsync_bsd :: int where "dlt_pfsync_bsd = 18"
definition dlt_ppp_serial :: int where "dlt_ppp_serial = 50"
definition dlt_ppp_ether :: int where "dlt_ppp_ether = 51"
definition dlt_c_hdlc :: int where "dlt_c_hdlc = 104"
definition dlt_ieee802_11 :: int where "dlt_ieee802_11 = 105"
definition dlt_loop :: int where "dlt_loop = 108"
definition dlt_enc :: int where "dlt_enc = 109"
definition dlt_linux_sll :: int where "dlt_linux_sll = 113"
definition dlt_pflog :: int where "dlt_pflog = 117"
definition dlt_prism_header :: int where "dlt_prism_header = 119"
definition dlt_ieee802_11_radio :: int where "dlt_ieee802_11_radio = 127"
definition dlt_ppi :: int where "dlt_ppi = 192"
definition dlt_ipv4 :: int where "dlt_ipv4 = 228"
definition dlt_ipv6 :: int where "dlt_ipv6 = 229"
definition dlt_nflog :: int where "dlt_nflog = 239"
definition dlt_netanalyzer :: int where "dlt_netanalyzer = 240"
definition dlt_linux_sll2 :: int where "dlt_linux_sll2 = 276"

lemmas dlt_defs = dlt_null_def dlt_en10mb_def dlt_ppp_def dlt_raw_def dlt_pfsync_bsd_def
  dlt_ppp_serial_def dlt_ppp_ether_def dlt_c_hdlc_def dlt_ieee802_11_def dlt_loop_def dlt_enc_def
  dlt_linux_sll_def dlt_pflog_def dlt_prism_header_def dlt_ieee802_11_radio_def dlt_ppi_def
  dlt_ipv4_def dlt_ipv6_def dlt_nflog_def dlt_netanalyzer_def dlt_linux_sll2_def

definition dlt_offsets :: "(int \<times> nat) list" where
  "dlt_offsets =
     [(0, 4), (1, 14), (6, 22), (7, 6), (8, 16), (9, 4), (10, 21), (12, 0), (108, 4), (113, 16),
      (117, 48)]"

definition dlt_offset :: "int \<Rightarrow> nat option" where
  "dlt_offset datalink = map_option snd (find (\<lambda>(d, _). d = datalink) dlt_offsets)"

section \<open>Fixed and self-describing headers\<close>

definition ip_at :: "bytes \<Rightarrow> nat \<Rightarrow> nat option" where
  "ip_at packet off = do {
     b \<leftarrow> b_at packet off;
     if drop_bit 4 b = 4 \<or> drop_bit 4 b = 6 then Some off else None
   }"

definition af_ok :: "u32 \<Rightarrow> bool" where
  "af_ok family \<longleftrightarrow> family = 2 \<or> family = 23 \<or> family = 24 \<or> family = 28 \<or> family = 30"

definition af_family_offset :: "bytes \<Rightarrow> nat \<Rightarrow> nat option" where
  "af_family_offset packet header = do {
     raw \<leftarrow> b_slice packet 0 4;
     if af_ok (le32 (raw ! 0) (raw ! 1) (raw ! 2) (raw ! 3)) \<or>
        af_ok (be32 (raw ! 0) (raw ! 1) (raw ! 2) (raw ! 3))
     then ip_at packet header else None
   }"

text \<open>\<open>(length + 3) & !3\<close>: round up to a multiple of four.\<close>

definition align4 :: "nat \<Rightarrow> nat" where
  "align4 n = (n + 3) div 4 * 4"

definition pflog_offset :: "bytes \<Rightarrow> nat option" where
  "pflog_offset packet = do {
     b \<leftarrow> b_at packet 0;
     if unat b < 45 then None else ip_at packet (align4 (unat b))
   }"

text \<open>Length and type of the TLV at \<open>off\<close>, in whichever byte order fits the packet; both
  uses are under the loop's guard \<open>off + 4 <= packet.len()\<close>.\<close>

definition nflog_tlv :: "bytes \<Rightarrow> nat \<Rightarrow> nat \<times> u16" where
  "nflog_tlv packet off =
     (let len_le = unat (le16 (packet ! off) (packet ! (off + 1)));
          ty_le = le16 (packet ! (off + 2)) (packet ! (off + 3))
      in if len_le \<ge> 4 \<and> off + len_le \<le> length packet then (len_le, ty_le)
         else (unat (be16 (packet ! off) (packet ! (off + 1))),
               be16 (packet ! (off + 2)) (packet ! (off + 3))))"

function nflog_tlvs :: "bytes \<Rightarrow> nat \<Rightarrow> nat option" where
  "nflog_tlvs packet off =
     (if off + 4 \<le> length packet then
        (if fst (nflog_tlv packet off) < 4 \<or> off + fst (nflog_tlv packet off) > length packet then None
         else if snd (nflog_tlv packet off) AND 0x7fff = 9 then ip_at packet (off + 4)
         else nflog_tlvs packet (off + align4 (fst (nflog_tlv packet off))))
      else None)"
  by pat_completeness auto
termination
proof (relation "measure (\<lambda>(packet, off). length packet - off)", goal_cases)
  case (2 packet off)
  then have "0 < align4 (fst (nflog_tlv packet off))"
    by (simp add: align4_def div_greater_zero_iff)
  moreover from 2 have "off < length packet" by auto
  ultimately show ?case by (simp add: diff_less_mono2)
qed auto

declare nflog_tlvs.simps [simp del]

definition nflog_offset :: "bytes \<Rightarrow> nat option" where
  "nflog_offset packet = do {
     b \<leftarrow> b_at packet 0;
     if b \<noteq> 2 \<and> b \<noteq> 10 then None else nflog_tlvs packet 4
   }"

definition ieee80211_offset :: "bytes \<Rightarrow> nat \<Rightarrow> nat option" where
  "ieee80211_offset packet off = do {
     fc0 \<leftarrow> b_at packet off;
     fc1 \<leftarrow> b_at packet (off + 1);
     if drop_bit 2 fc0 AND 0x3 \<noteq> 2 \<or> fc1 AND 0x40 \<noteq> 0 then None
     else
       (let subtype = drop_bit 4 fc0
        in if subtype AND 0x4 \<noteq> 0 then None
           else
             (let header = 24 + (if fc1 AND 0x3 = 0x3 then 6 else 0)
                + (if subtype AND 0x8 \<noteq> 0 then 2 + (if fc1 AND 0x80 \<noteq> 0 then 4 else 0) else 0);
                  llc = off + header
              in do {
                h \<leftarrow> b_slice packet llc (llc + 8);
                if h = [0xaa, 0xaa, 0x03, 0, 0, 0, 0x08, 0x00] \<or> h = [0xaa, 0xaa, 0x03, 0, 0, 0, 0x86, 0xdd]
                then ip_at packet (llc + 8) else None
              }))
   }"

section \<open>Ethernet\<close>

definition max_vlan_tags :: nat where
  "max_vlan_tags = 4"

definition is_tpid :: "bytes \<Rightarrow> bool" where
  "is_tpid t \<longleftrightarrow> t = [0x81, 0x00] \<or> t = [0x88, 0xa8] \<or> t = [0x91, 0x00]"

definition is_ip_ethertype :: "bytes \<Rightarrow> bool" where
  "is_ip_ethertype t \<longleftrightarrow> t = [0x08, 0x00] \<or> t = [0x86, 0xdd]"

definition is_ip_ppp :: "bytes \<Rightarrow> bool" where
  "is_ip_ppp t \<longleftrightarrow> t = [0x00, 0x21] \<or> t = [0x00, 0x57]"

text \<open>The tag loop: \<open>n\<close> tags may still be skipped. \<open>offset\<close> never gets below 2, so
  \<open>checked_sub(2)\<close> does not fail.\<close>

fun vlan_walk :: "nat \<Rightarrow> bytes \<Rightarrow> nat \<Rightarrow> nat" where
  "vlan_walk 0 packet offset = offset"
| "vlan_walk (Suc n) packet offset =
     (case b_slice packet (offset - 2) offset of
        Some t \<Rightarrow> if is_tpid t then vlan_walk n packet (offset + 4) else offset
      | None \<Rightarrow> offset)"

definition ethernet_walk :: "bytes \<Rightarrow> nat \<Rightarrow> nat option" where
  "ethernet_walk packet base =
     (if base \<ge> 2 then
        (let offset = vlan_walk max_vlan_tags packet base
         in do {
           ethertype \<leftarrow> b_slice packet (offset - 2) offset;
           if is_ip_ethertype ethertype then Some offset
           else if ethertype = [0x88, 0x64] then do {
             ppp \<leftarrow> b_slice packet (offset + 6) (offset + 8);
             if is_ip_ppp ppp then Some (offset + 8) else None
           }
           else None
         })
      else None)"

definition fast_path :: "bytes \<Rightarrow> nat \<Rightarrow> bool" where
  "fast_path packet base \<longleftrightarrow>
     base \<ge> 2 \<and> (case b_slice packet (base - 2) base of Some t \<Rightarrow> is_ip_ethertype t | None \<Rightarrow> False)"

definition ip_offset_ethernet :: "bytes \<Rightarrow> nat \<Rightarrow> nat option" where
  "ip_offset_ethernet packet base =
     (if fast_path packet base then Some base else ethernet_walk packet base)"

section \<open>Dispatch on the datalink\<close>

definition special_offset :: "int \<Rightarrow> bytes \<Rightarrow> nat option option" where
  "special_offset datalink packet =
     (if datalink = dlt_null \<or> datalink = dlt_loop then Some (af_family_offset packet 4)
      else if datalink = dlt_enc then Some (af_family_offset packet 12)
      else if datalink = dlt_raw \<or> datalink = dlt_ipv4 \<or> datalink = dlt_ipv6 then Some (ip_at packet 0)
      else if datalink = dlt_pflog then Some (pflog_offset packet)
      else if datalink = dlt_nflog then Some (nflog_offset packet)
      else if datalink = dlt_linux_sll2 then do {
        t \<leftarrow> b_slice packet 0 2;
        Some (if is_ip_ethertype t then ip_at packet 20 else None) }
      else if datalink = dlt_c_hdlc then do {
        t \<leftarrow> b_slice packet 2 4;
        Some (if is_ip_ethertype t then ip_at packet 4 else None) }
      else if datalink = dlt_ppp_serial then do {
        t \<leftarrow> b_slice packet 2 4;
        Some (if is_ip_ppp t then ip_at packet 4 else None) }
      else if datalink = dlt_ppp_ether then do {
        t \<leftarrow> b_slice packet 6 8;
        Some (if is_ip_ppp t then ip_at packet 8 else None) }
      else if datalink = dlt_netanalyzer then Some (ip_offset_ethernet packet 18)
      else if datalink = dlt_ieee802_11 then Some (ieee80211_offset packet 0)
      else if datalink = dlt_ieee802_11_radio then do {
        l \<leftarrow> b_slice packet 2 4;
        Some (ieee80211_offset packet (unat (le16 (l ! 0) (l ! 1)))) }
      else if datalink = dlt_ppi then do {
        l \<leftarrow> b_slice packet 2 4;
        t \<leftarrow> b_slice packet 4 8;
        (let len = unat (le16 (l ! 0) (l ! 1)); dlt = le32 (t ! 0) (t ! 1) (t ! 2) (t ! 3)
         in Some (if dlt = 105 then ieee80211_offset packet len
                  else if dlt = 1 then ip_offset_ethernet packet (len + 14)
                  else None)) }
      else if datalink = dlt_prism_header then do {
        t \<leftarrow> b_slice packet 4 8;
        (let len = unat (le32 (t ! 0) (t ! 1) (t ! 2) (t ! 3))
         in Some (ieee80211_offset packet (if len = 144 then len else 144))) }
      else if datalink = dlt_pfsync_bsd then Some None
      else None)"

definition ip_offset_walk :: "int \<Rightarrow> bytes \<Rightarrow> nat \<Rightarrow> nat option" where
  "ip_offset_walk datalink packet base =
     (if datalink = dlt_raw then Some base
      else case special_offset datalink packet of
        Some result \<Rightarrow> result
      | None \<Rightarrow>
          (if datalink = dlt_ppp then do {
             field \<leftarrow> b_slice packet 2 4;
             if is_ip_ppp field then Some base else None }
           else ethernet_walk packet base))"

definition ip_offset :: "int \<Rightarrow> bytes \<Rightarrow> nat \<Rightarrow> nat option" where
  "ip_offset datalink packet base =
     (if datalink = dlt_en10mb \<and> fast_path packet base then Some base
      else ip_offset_walk datalink packet base)"

section \<open>The offset learner\<close>

definition common_ip_proto :: "u8 list" where
  "common_ip_proto = [1, 2, 6, 17, 47, 50, 51, 58, 89, 103, 132]"

definition ip_header_score :: "bytes \<Rightarrow> nat \<Rightarrow> nat \<Rightarrow> nat" where
  "ip_header_score b off n =
     (case b_at b off of None \<Rightarrow> 0 | Some first \<Rightarrow>
        (if drop_bit 4 first = 4 \<and> off + 20 \<le> n then
           (let ihl = unat (first AND 0x0f) * 4;
                total = unat (be16 (b ! (off + 2)) (b ! (off + 3)));
                proto = b ! (off + 9)
            in if \<not> (20 \<le> ihl \<and> ihl \<le> 60 \<and> total \<ge> ihl \<and> proto \<in> set common_ip_proto) then 0
               else
                 (let rem = n - off
                  in if rem \<ge> total \<and> rem - total \<le> 64 then 2
                     else if total \<le> 65535 then 1 else 0))
         else if drop_bit 4 first = 6 \<and> off + 40 \<le> n then
           (let nexthdr = b ! (off + 6)
            in if nexthdr \<notin> set common_ip_proto \<and>
                  \<not> (nexthdr = 0 \<or> nexthdr = 43 \<or> nexthdr = 44 \<or> nexthdr = 60) then 0
               else
                 (let payload = unat (be16 (b ! (off + 4)) (b ! (off + 5)));
                      rem = n - off - 40
                  in if payload > 0 \<and> rem \<ge> payload \<and> rem - payload \<le> 64 then 2 else 1))
         else 0))"

fun guess_loop :: "bytes \<Rightarrow> nat list \<Rightarrow> nat option \<Rightarrow> nat option" where
  "guess_loop packet [] weak = weak"
| "guess_loop packet (off # offs) weak =
     (let score = ip_header_score packet off (length packet)
      in if score = 2 then Some off
         else guess_loop packet offs (if score = 1 \<and> weak = None then Some off else weak))"

definition guess_ip_offset :: "bytes \<Rightarrow> nat \<Rightarrow> nat option" where
  "guess_ip_offset packet max_off =
     (let n = length packet
      in if n = 0 then None
         else guess_loop packet [0..<Suc (min max_off (n - 1))] None)"

record dlt_learner =
  dl_locked :: "(int, nat option) amap"
  dl_provisional :: "(int, nat) amap"

datatype dlt_note = InferredOffset int nat | UnexpectedDatalink int

definition dl_new :: dlt_learner where
  "dl_new = \<lparr>dl_locked = [], dl_provisional = []\<rparr>"

definition dl_guess :: "dlt_learner \<Rightarrow> int \<Rightarrow> bytes \<Rightarrow> dlt_learner \<times> nat option \<times> dlt_note list" where
  "dl_guess l datalink packet =
     (case map_of (dl_locked l) datalink of
        Some (Some off) \<Rightarrow> (l, Some off, [])
      | Some None \<Rightarrow> (l, None, [])
      | None \<Rightarrow>
          (case guess_ip_offset packet 64 of
             None \<Rightarrow> (l, None, [])
           | Some off \<Rightarrow>
               (if map_of (dl_provisional l) datalink = Some off then
                  (l\<lparr>dl_locked := AList.update datalink (Some off) (dl_locked l)\<rparr>, Some off,
                   [InferredOffset datalink off])
                else
                  (l\<lparr>dl_provisional := AList.update datalink off (dl_provisional l)\<rparr>, Some off, []))))"

definition ethernet_base :: nat where
  "ethernet_base = 14"

definition dl_resolve :: "dlt_learner \<Rightarrow> int \<Rightarrow> bytes \<Rightarrow> dlt_learner \<times> nat option \<times> dlt_note list" where
  "dl_resolve l datalink packet =
     (if datalink = dlt_en10mb then (l, ip_offset dlt_en10mb packet ethernet_base, [])
      else case special_offset datalink packet of
        Some result \<Rightarrow> (l, result, [])
      | None \<Rightarrow>
          (case dlt_offset datalink of
             Some base \<Rightarrow> (l, ip_offset datalink packet base, [])
           | None \<Rightarrow>
               (let (l', off, notes) = dl_guess l datalink packet
                in (l', off, UnexpectedDatalink datalink # notes))))"

section \<open>Lemmas\<close>

lemma b_slice_append:
  "length xs = i \<Longrightarrow> length ys = j - i \<Longrightarrow> i \<le> j \<Longrightarrow> b_slice (xs @ ys @ zs) i j = Some ys"
  by (simp add: b_slice_def)

lemma special_en10mb: "special_offset dlt_en10mb packet = None"
  by (simp add: special_offset_def dlt_defs)

lemma tpid_not_ip: "is_tpid t \<Longrightarrow> \<not> is_ip_ethertype t"
  by (auto simp: is_tpid_def is_ip_ethertype_def)

lemma vlan_walk_stop:
  "b_slice packet (offset - 2) offset = Some t \<Longrightarrow> \<not> is_tpid t \<Longrightarrow> vlan_walk n packet offset = offset"
  by (cases n) auto

lemma ethernet_walk_fast:
  assumes "fast_path packet base"
  shows "ethernet_walk packet base = Some base"
proof -
  from assms obtain t where t: "2 \<le> base" "b_slice packet (base - 2) base = Some t" "is_ip_ethertype t"
    by (auto simp: fast_path_def split: option.splits)
  then have "vlan_walk max_vlan_tags packet base = base"
    using tpid_not_ip by (intro vlan_walk_stop) blast+
  with t show ?thesis by (simp add: ethernet_walk_def Let_def)
qed

lemma ip_offset_walk_en10mb: "ip_offset_walk dlt_en10mb packet base = ethernet_walk packet base"
  by (simp add: ip_offset_walk_def special_en10mb) (simp add: dlt_defs)

lemma ip_offset_en10mb: "ip_offset dlt_en10mb packet base = ip_offset_ethernet packet base"
  by (simp add: ip_offset_def ip_offset_ethernet_def ip_offset_walk_en10mb)

lemma ip_offset_ethernet_eq: "ip_offset_ethernet packet base = ethernet_walk packet base"
  by (simp add: ip_offset_ethernet_def ethernet_walk_fast)

text \<open>A stack of tags: each a TPID and two bytes of tag control information.\<close>

fun tag_bytes :: "(bytes \<times> bytes) list \<Rightarrow> bytes" where
  "tag_bytes [] = []"
| "tag_bytes ((tpid, tci) # tags) = tpid @ tci @ tag_bytes tags"

definition good_tag :: "bytes \<times> bytes \<Rightarrow> bool" where
  "good_tag tag \<longleftrightarrow> is_tpid (fst tag) \<and> length (snd tag) = 2"

lemma is_tpid_length: "is_tpid t \<Longrightarrow> length t = 2"
  by (auto simp: is_tpid_def)

lemma vlan_walk_prefix:
  "list_all good_tag tags \<Longrightarrow> length pre = offset - 2 \<Longrightarrow> 2 \<le> offset \<Longrightarrow>
   vlan_walk (length tags + m) (pre @ tag_bytes tags @ rest) offset =
   vlan_walk m (pre @ tag_bytes tags @ rest) (offset + 4 * length tags)"
proof (induction tags arbitrary: pre offset)
  case (Cons tag tags)
  obtain tpid tci where tag: "tag = (tpid, tci)" by (cases tag)
  with Cons.prems have t: "is_tpid tpid" "length tci = 2"
    by (auto simp: good_tag_def)
  have "b_slice (pre @ tpid @ tci @ tag_bytes tags @ rest) (offset - 2) offset = Some tpid"
    using Cons.prems t by (intro b_slice_append) (auto simp: is_tpid_length)
  with Cons.IH [of "pre @ tpid @ tci" "offset + 4"] Cons.prems t show ?case
    by (auto simp: tag is_tpid_length add.assoc)
qed simp

lemma tag_bytes_append: "tag_bytes (xs @ ys) = tag_bytes xs @ tag_bytes ys"
  by (induction xs rule: tag_bytes.induct) auto

lemma tag_bytes_length: "list_all good_tag tags \<Longrightarrow> length (tag_bytes tags) = 4 * length tags"
  by (induction tags rule: tag_bytes.induct) (auto simp: good_tag_def is_tpid_length)

lemma vlan_walk_tags:
  assumes "list_all good_tag tags" and "length tags \<le> n" and "length pre = offset - 2" and "2 \<le> offset"
    and "length et = 2" and "\<not> is_tpid et"
  shows "vlan_walk n (pre @ tag_bytes tags @ et @ rest) offset = offset + 4 * length tags"
proof -
  let ?o = "offset + 4 * length tags"
  have "b_slice ((pre @ tag_bytes tags) @ et @ rest) (?o - 2) ?o = Some et"
    using assms by (intro b_slice_append) (auto simp: tag_bytes_length)
  then show ?thesis
    using vlan_walk_prefix [OF assms(1,3,4), of "n - length tags" "et @ rest"] assms
    by (simp add: vlan_walk_stop)
qed

lemma align4_ge: "n \<le> align4 n"
  unfolding align4_def by arith

lemma ip_at_Some: "ip_at packet off = Some o' \<Longrightarrow>
    o' = off \<and> off < length packet \<and> (drop_bit 4 (packet ! off) = 4 \<or> drop_bit 4 (packet ! off) = 6)"
  by (auto simp: ip_at_def bytes_simps split: bind_splits if_splits)

definition at_ip_version :: "bytes \<Rightarrow> nat \<Rightarrow> bool" where
  "at_ip_version packet off \<longleftrightarrow>
     off < length packet \<and> (drop_bit 4 (packet ! off) = 4 \<or> drop_bit 4 (packet ! off) = 6)"

lemma ip_at_version: "ip_at packet off = Some r \<Longrightarrow> at_ip_version packet r"
  by (auto simp: at_ip_version_def dest: ip_at_Some)

lemma nflog_tlvs_at: "nflog_tlvs packet off = Some r \<Longrightarrow> at_ip_version packet r"
proof (induction packet off rule: nflog_tlvs.induct)
  case (1 packet off)
  from "1.prems" show ?case
    by (subst (asm) nflog_tlvs.simps) (auto split: if_splits intro: "1.IH" ip_at_version)
qed

lemma ieee80211_at: "ieee80211_offset packet off = Some r \<Longrightarrow> at_ip_version packet r"
  by (auto simp: ieee80211_offset_def at_ip_version_def Let_def split: bind_splits if_splits
           dest!: ip_at_Some)

lemma ethernet_walk_le: "ethernet_walk packet base = Some r \<Longrightarrow> r \<le> length packet"
  by (auto simp: ethernet_walk_def Let_def bytes_simps split: bind_splits if_splits)

lemma ip_offset_ethernet_le: "ip_offset_ethernet packet base = Some r \<Longrightarrow> r \<le> length packet"
  by (simp add: ip_offset_ethernet_eq ethernet_walk_le)

lemma guess_short: "length packet < 20 \<Longrightarrow> guess_ip_offset packet m = None"
proof -
  assume short: "length packet < 20"
  then have zero: "ip_header_score packet off (length packet) = 0" for off
    by (auto simp: ip_header_score_def split: option.splits)
  have "guess_loop packet offs None = None" for offs
    by (induction offs) (simp_all add: zero Let_def)
  then show ?thesis by (simp add: guess_ip_offset_def Let_def)
qed

lemma ip_header_score_in: "ip_header_score b off n \<noteq> 0 \<Longrightarrow> off < length b"
  by (auto simp: ip_header_score_def bytes_simps split: option.splits)

lemma guess_loop_mem:
  "guess_loop packet offs weak = Some r \<Longrightarrow> weak = Some r \<or>
     (r \<in> set offs \<and> ip_header_score packet r (length packet) \<noteq> 0)"
proof (induction offs arbitrary: weak)
  case Nil
  then show ?case by simp
next
  case (Cons off offs)
  show ?case
  proof (cases "ip_header_score packet off (length packet) = 2")
    case True
    with Cons.prems show ?thesis by (simp add: Let_def)
  next
    case False
    let ?w = "if ip_header_score packet off (length packet) = 1 \<and> weak = None then Some off else weak"
    from False Cons.prems have "guess_loop packet offs ?w = Some r"
      by (simp add: Let_def)
    from Cons.IH [OF this] show ?thesis by (auto split: if_splits)
  qed
qed


section \<open>The learner over a stream of packets\<close>

definition dl_run :: "dlt_learner \<Rightarrow> (int \<times> bytes) list \<Rightarrow> dlt_learner" where
  "dl_run l ps = fold (\<lambda>(d, p) l. fst (dl_resolve l d p)) ps l"

definition special_datalink :: "int \<Rightarrow> bool" where
  "special_datalink d \<longleftrightarrow>
     d \<in> {dlt_null, dlt_loop, dlt_enc, dlt_raw, dlt_ipv4, dlt_ipv6, dlt_pflog, dlt_nflog,
          dlt_linux_sll2, dlt_c_hdlc, dlt_ppp_serial, dlt_ppp_ether, dlt_netanalyzer, dlt_ieee802_11,
          dlt_ieee802_11_radio, dlt_ppi, dlt_prism_header, dlt_pfsync_bsd}"

lemma dl_guess_cases:
  obtains (locked) "map_of (dl_locked l) d \<noteq> None" "fst (dl_guess l d p) = l"
    "fst (snd (dl_guess l d p)) = the (map_of (dl_locked l) d)"
  | (silent) "map_of (dl_locked l) d = None" "guess_ip_offset p 64 = None" "dl_guess l d p = (l, None, [])"
  | (agree) off where "map_of (dl_locked l) d = None" "guess_ip_offset p 64 = Some off"
    "map_of (dl_provisional l) d = Some off"
    "dl_guess l d p = (l\<lparr>dl_locked := AList.update d (Some off) (dl_locked l)\<rparr>, Some off, [InferredOffset d off])"
  | (first) off where "map_of (dl_locked l) d = None" "guess_ip_offset p 64 = Some off"
    "map_of (dl_provisional l) d \<noteq> Some off"
    "dl_guess l d p = (l\<lparr>dl_provisional := AList.update d off (dl_provisional l)\<rparr>, Some off, [])"
  by (cases "map_of (dl_locked l) d"; cases "guess_ip_offset p 64")
     (auto simp: dl_guess_def split: option.splits if_splits)

lemma dl_guess_keeps_lock:
  "map_of (dl_locked l) e = Some x \<Longrightarrow> map_of (dl_locked (fst (dl_guess l d p))) e = Some x"
  by (cases rule: dl_guess_cases [of l d p]) (auto simp: amap_simps)

lemma dl_resolve_keeps_lock:
  "map_of (dl_locked l) e = Some x \<Longrightarrow> map_of (dl_locked (fst (dl_resolve l d p))) e = Some x"
  using dl_guess_keeps_lock [of l e x d p]
  by (auto simp: dl_resolve_def Let_def split: option.splits prod.splits)

lemma dl_run_keeps_lock:
  "map_of (dl_locked l) e = Some x \<Longrightarrow> map_of (dl_locked (dl_run l ps)) e = Some x"
  by (induction ps arbitrary: l) (auto simp: dl_run_def dl_resolve_keeps_lock)

lemma special_offset_None_short:
  "special_datalink d \<Longrightarrow> special_offset d p = None \<Longrightarrow> length p < 8"
  by (auto simp: special_datalink_def special_offset_def dlt_defs b_slice_def Let_def
           split: if_splits bind_splits)

lemma special_offset_in_packet:
  "special_offset d p = Some (Some off) \<Longrightarrow>
   at_ip_version p off \<or> ((d = dlt_netanalyzer \<or> d = dlt_ppi) \<and> off \<le> length p)"
  by (auto simp: special_offset_def Let_def af_family_offset_def pflog_offset_def nflog_offset_def
           split: if_splits bind_splits
           dest: ip_at_version nflog_tlvs_at ieee80211_at ip_offset_ethernet_le)

section \<open>Properties\<close>

text \<open>For an Ethernet frame the fast path that answers before the link-type dispatch gives
  the same offset as the full walk, on every frame and every base offset.\<close>

theorem ethernet_fast_path_is_the_walk:
  "ip_offset dlt_en10mb packet base = ip_offset_walk dlt_en10mb packet base"
  by (simp add: ip_offset_en10mb ip_offset_ethernet_eq ip_offset_walk_en10mb)

text \<open>A frame with up to four stacked VLAN tags of any of the three TPIDs in front of an IP
  ethertype yields the offset just behind that ethertype, four bytes further per tag.\<close>

theorem stacked_tags_are_walked:
  assumes "list_all good_tag tags" and "length tags \<le> 4" and "2 \<le> base" and "length pre = base - 2"
    and "is_ip_ethertype et"
  shows "ip_offset dlt_en10mb (pre @ tag_bytes tags @ et @ rest) base = Some (base + 4 * length tags)"
proof -
  have et: "length et = 2" "\<not> is_tpid et"
    using assms(5) tpid_not_ip by (auto simp: is_ip_ethertype_def)
  let ?p = "pre @ tag_bytes tags @ et @ rest" and ?o = "base + 4 * length tags"
  have "vlan_walk max_vlan_tags ?p base = ?o"
    using assms et by (intro vlan_walk_tags) (auto simp: max_vlan_tags_def)
  moreover have "b_slice ((pre @ tag_bytes tags) @ et @ rest) (?o - 2) ?o = Some et"
    using assms et by (intro b_slice_append) (auto simp: tag_bytes_length)
  ultimately show ?thesis
    using assms by (simp add: ip_offset_en10mb ip_offset_ethernet_eq ethernet_walk_def Let_def)
qed

theorem stacked_tags_are_walked_witness:
  "ip_offset dlt_en10mb
     (replicate 12 0xaa @ tag_bytes [([0x88, 0xa8], [0, 100]), ([0x81, 0x00], [0, 101])] @ [0x08, 0x00] @ [0x45]) 14
   = Some 22"
  by (subst stacked_tags_are_walked) (simp_all add: good_tag_def is_tpid_def is_ip_ethertype_def)

text \<open>A frame that opens with more than four VLAN tags is dropped, whatever follows them, so
  a frame made of tags cannot turn the walk into a scan of the packet.\<close>

theorem tag_flood_is_dropped:
  assumes "list_all good_tag tags" and "4 < length tags" and "2 \<le> base" and "length pre = base - 2"
  shows "ip_offset dlt_en10mb (pre @ tag_bytes tags @ rest) base = None"
proof -
  obtain ts tpid tci more where tags: "tags = ts @ (tpid, tci) # more" and len: "length ts = 4"
    using assms(2) by (metis id_take_nth_drop length_take less_imp_le_nat min.absorb2 surj_pair)
  with assms(1) have tpid: "is_tpid tpid" and good: "list_all good_tag ts"
    by (auto simp: good_tag_def)
  let ?f = "pre @ tag_bytes ts @ tpid @ (tci @ tag_bytes more @ rest)"
  have "vlan_walk max_vlan_tags ?f base = base + 16"
    using vlan_walk_prefix [OF good assms(4,3), of 0] len by (simp add: max_vlan_tags_def)
  moreover have "b_slice ((pre @ tag_bytes ts) @ tpid @ (tci @ tag_bytes more @ rest)) (base + 16 - 2) (base + 16) = Some tpid"
    using good len assms tpid by (intro b_slice_append) (auto simp: tag_bytes_length is_tpid_length)
  moreover have "\<not> is_ip_ethertype tpid" "tpid \<noteq> [0x88, 0x64]"
    using tpid by (auto simp: is_tpid_def is_ip_ethertype_def)
  moreover have "pre @ tag_bytes tags @ rest = ?f"
    by (simp add: tags tag_bytes_append)
  ultimately show ?thesis
    using assms(3) by (simp add: ip_offset_en10mb ip_offset_ethernet_eq ethernet_walk_def Let_def)
qed

theorem tag_flood_is_dropped_witness:
  "ip_offset dlt_en10mb (replicate 12 0xaa @ tag_bytes (replicate 64 ([0x81, 0x00], [0, 100])) @ [0x08, 0x00, 0x45]) 14
   = None"
  by (rule tag_flood_is_dropped) (simp_all add: good_tag_def is_tpid_def list_all_iff)

text \<open>A link type with a self-describing header yields only an offset inside the packet
  where an IP version nibble stands (for the Ethernet frames inside NetAnalyzer and PPI, an
  offset behind an IP ethertype, at most the packet's end), and never changes the learner.\<close>

theorem special_links_land_on_ip:
  assumes "special_datalink d" and "dl_resolve l d p = (l', r, notes)"
  shows "l' = l \<and>
    (\<forall>off. special_offset d p = Some (Some off) \<longrightarrow> r = Some off \<and>
       (at_ip_version p off \<or> ((d = dlt_netanalyzer \<or> d = dlt_ppi) \<and> off \<le> length p)))"
proof (cases "special_offset d p")
  case None
  with assms(1) have "guess_ip_offset p 64 = None"
    by (intro guess_short) (auto dest: special_offset_None_short)
  then have "fst (dl_guess l d p) = l"
    by (cases rule: dl_guess_cases [of l d p]) auto
  with None assms show ?thesis
    by (auto simp: dl_resolve_def Let_def split: option.splits prod.splits if_splits)
next
  case (Some res)
  with assms special_offset_in_packet [of d p] show ?thesis
    by (auto simp: dl_resolve_def special_datalink_def dlt_defs)
qed

theorem special_links_land_on_ip_witness:
  "dl_resolve dl_new dlt_raw [0x45, 0, 0, 20] = (dl_new, Some 0, []) \<and> at_ip_version [0x45, 0, 0, 20] 0"
proof -
  have r: "dl_resolve dl_new dlt_raw [0x45, 0, 0, 20] = (dl_new, Some 0, [])"
    and s: "special_offset dlt_raw [0x45, 0, 0, 20] = Some (Some 0)"
    by code_simp+
  have "special_datalink dlt_raw" by (simp add: special_datalink_def)
  from special_links_land_on_ip [OF this r] s r show ?thesis
    by (auto simp: dlt_netanalyzer_def dlt_ppi_def dlt_raw_def)
qed

text \<open>The learner locks an offset for an unknown datalink exactly when a packet's guess
  agrees with the provisional one of an earlier packet, and a locked offset answers for that
  datalink after any further packets of any link types.\<close>

theorem learner_locks_on_agreement:
  assumes "map_of (dl_locked l) d = None" and "d \<noteq> dlt_en10mb" and "dlt_offset d = None"
    and "\<not> special_datalink d" and "guess_ip_offset p 64 = Some off"
  shows "map_of (dl_locked (fst (dl_resolve l d p))) d =
           (if map_of (dl_provisional l) d = Some off then Some (Some off) else None) \<and>
         (map_of (dl_provisional l) d = Some off \<longrightarrow>
          fst (snd (dl_resolve (dl_run (fst (dl_resolve l d p)) ps) d q)) = Some off)"
proof -
  have no: "special_offset d x = None" for x
    using assms(4) by (auto simp: special_offset_def special_datalink_def)
  have step: "fst (dl_resolve l d p) = fst (dl_guess l d p)"
    using assms no by (simp add: dl_resolve_def Let_def split: prod.splits)
  have lock: "map_of (dl_locked (fst (dl_resolve l d p))) d =
           (if map_of (dl_provisional l) d = Some off then Some (Some off) else None)"
    using assms by (simp add: step dl_guess_def amap_simps)
  have "fst (snd (dl_resolve (dl_run (fst (dl_resolve l d p)) ps) d q)) = Some off"
    if "map_of (dl_provisional l) d = Some off"
  proof -
    from that lock have "map_of (dl_locked (dl_run (fst (dl_resolve l d p)) ps)) d = Some (Some off)"
      by (intro dl_run_keeps_lock) simp
    with assms no show ?thesis by (simp add: dl_resolve_def dl_guess_def)
  qed
  with lock show ?thesis by blast
qed

definition sample_unknown_link :: bytes where
  "sample_unknown_link = replicate 14 0 @
     [0x45, 0, 0, 28, 0, 1, 0, 0, 64, 17, 0, 0, 10, 0, 0, 1, 8, 8, 8, 8, 0, 0, 0, 53, 0, 8, 0, 0]"

theorem learner_locks_on_agreement_witness:
  "map_of (dl_locked (fst (dl_resolve
     \<lparr>dl_locked = [], dl_provisional = [(9999, 14)]\<rparr> 9999 sample_unknown_link))) 9999 = Some (Some 14)"
proof -
  have "guess_ip_offset sample_unknown_link 64 = Some 14"
    unfolding sample_unknown_link_def by code_simp
  moreover have "dlt_offset 9999 = None" by code_simp
  moreover have "\<not> special_datalink 9999" by (simp add: special_datalink_def dlt_defs)
  ultimately show ?thesis
    by (subst learner_locks_on_agreement [where off = 14]) (simp_all add: dlt_defs)
qed

text \<open>The comment on \<open>special_offset\<close> says that none of its link types goes to the learner.
  A packet too short for the bytes its arm reads with \<open>?\<close> does: the \<open>?\<close> leaves the outer
  option, so \<open>resolve\<close> reports an unexpected datalink and asks the learner, which finds
  nothing in so short a packet.\<close>

lemma short_special_packet_is_reported:
  "dl_resolve dl_new dlt_c_hdlc [0x0f, 0x00] = (dl_new, None, [UnexpectedDatalink dlt_c_hdlc])"
  by code_simp

end
