(* ===== verification/Tunnel.thy ===== *)
theory Tunnel
  imports Dlt
begin

text \<open>
  \<open>packet/tunnel.rs\<close>: the offset of the IP packet inside a tunnelled one (IP-in-IP, GRE with
  its optional words, ERSPAN, VXLAN on both ports, GENEVE with options). Every read is a
  \<open>get(..)?\<close> of the source and every attacker-influenced addition is \<open>checked_add\<close>; the
  unchecked ones add at most 3 to an offset that has just been read successfully, or to the
  sum of \<open>ip_offset\<close> and the header length, which is inside the address space.
\<close>

definition vxlan_port :: u16 where "vxlan_port = 4789"
definition vxlan_linux_port :: u16 where "vxlan_linux_port = 8472"
definition geneve_port :: u16 where "geneve_port = 6081"
definition ipproto_ipip :: u8 where "ipproto_ipip = 4"
definition ipproto_ipv6 :: u8 where "ipproto_ipv6 = 41"
definition ipproto_gre :: u8 where "ipproto_gre = 47"
definition ipproto_udp :: u8 where "ipproto_udp = 17"
definition eth_p_ipv4 :: u16 where "eth_p_ipv4 = 0x0800"
definition eth_p_ipv6 :: u16 where "eth_p_ipv6 = 0x86dd"
definition eth_p_teb :: u16 where "eth_p_teb = 0x6558"
definition eth_p_erspan2 :: u16 where "eth_p_erspan2 = 0x88be"
definition eth_p_erspan3 :: u16 where "eth_p_erspan3 = 0x22eb"

lemmas tunnel_consts = vxlan_port_def vxlan_linux_port_def geneve_port_def ipproto_ipip_def
  ipproto_ipv6_def ipproto_gre_def ipproto_udp_def eth_p_ipv4_def eth_p_ipv6_def eth_p_teb_def
  eth_p_erspan2_def eth_p_erspan3_def

definition max_tunnel_depth :: nat where
  "max_tunnel_depth = 3"

definition may_encapsulate :: "u8 \<Rightarrow> bool" where
  "may_encapsulate p \<longleftrightarrow> p = ipproto_ipip \<or> p = ipproto_ipv6 \<or> p = ipproto_gre \<or> p = ipproto_udp"

definition at_ip_header :: "bytes \<Rightarrow> nat \<Rightarrow> nat option" where
  "at_ip_header packet off = do {
     b \<leftarrow> b_at packet off;
     if drop_bit 4 b = 4 \<or> drop_bit 4 b = 6 then Some off else None
   }"

definition at_ethernet :: "bytes \<Rightarrow> nat \<Rightarrow> nat option" where
  "at_ethernet packet off = do {
     base \<leftarrow> usize_checked_add off 14;
     ip \<leftarrow> ip_offset dlt_en10mb packet base;
     at_ip_header packet ip
   }"

text \<open>The length of a GRE header with its optional checksum, key and sequence words.\<close>

definition gre_len :: "u16 \<Rightarrow> nat" where
  "gre_len flags =
     4 + (if flags AND 0x8000 \<noteq> 0 then 4 else 0) + (if flags AND 0x2000 \<noteq> 0 then 4 else 0)
       + (if flags AND 0x1000 \<noteq> 0 then 4 else 0)"

definition gre_inner :: "bytes \<Rightarrow> nat \<Rightarrow> nat option" where
  "gre_inner packet off = do {
     f0 \<leftarrow> b_at packet off; f1 \<leftarrow> b_at packet (off + 1);
     p0 \<leftarrow> b_at packet (off + 2); p1 \<leftarrow> b_at packet (off + 3);
     (let flags = be16 f0 f1; proto = be16 p0 p1
      in if flags AND 0x0007 \<noteq> 0 then None
         else do {
           body \<leftarrow> usize_checked_add off (gre_len flags);
           (if proto = eth_p_ipv4 \<or> proto = eth_p_ipv6 then at_ip_header packet body
            else if proto = eth_p_teb then at_ethernet packet body
            else if proto = eth_p_erspan2 then do {
              frame \<leftarrow> usize_checked_add body 8; at_ethernet packet frame }
            else if proto = eth_p_erspan3 then do {
              frame \<leftarrow> usize_checked_add body 12; at_ethernet packet frame }
            else None)
         })
   }"

definition geneve_inner :: "bytes \<Rightarrow> nat \<Rightarrow> nat option" where
  "geneve_inner packet off = do {
     ver_optlen \<leftarrow> b_at packet off;
     if drop_bit 6 ver_optlen \<noteq> 0 then None
     else (let opt_bytes = unat (ver_optlen AND 0x3f) * 4
           in do {
             p0 \<leftarrow> b_at packet (off + 2); p1 \<leftarrow> b_at packet (off + 3);
             base \<leftarrow> usize_checked_add off 8;
             body \<leftarrow> usize_checked_add base opt_bytes;
             (let proto = be16 p0 p1
              in if proto = eth_p_ipv4 \<or> proto = eth_p_ipv6 then at_ip_header packet body
                 else if proto = eth_p_teb then at_ethernet packet body
                 else None)
           })
   }"

definition inner_ip_offset :: "bytes \<Rightarrow> nat \<Rightarrow> ip_header \<Rightarrow> nat option" where
  "inner_ip_offset packet ip_off header = do {
     payload \<leftarrow> usize_checked_add ip_off (ih_header_len header);
     (let p = ih_protocol header
      in if p = ipproto_ipip \<or> p = ipproto_ipv6 then at_ip_header packet payload
         else if p = ipproto_gre then gre_inner packet payload
         else if p = ipproto_udp then do {
           d0 \<leftarrow> b_at packet (payload + 2); d1 \<leftarrow> b_at packet (payload + 3);
           body \<leftarrow> usize_checked_add payload 8;
           (let dport = be16 d0 d1
            in if dport = vxlan_port \<or> dport = vxlan_linux_port then do {
                 frame \<leftarrow> usize_checked_add body 8; at_ethernet packet frame }
               else if dport = geneve_port then geneve_inner packet body
               else None)
         }
         else None)
   }"

section \<open>Lemmas\<close>

lemma at_ip_header_Some:
  "at_ip_header packet off = Some r \<Longrightarrow> r = off \<and> at_ip_version packet r"
  by (auto simp: at_ip_header_def at_ip_version_def bytes_simps split: bind_splits if_splits)

lemma at_ip_header_eq: "at_ip_version packet off \<Longrightarrow> at_ip_header packet off = Some off"
  by (auto simp: at_ip_header_def at_ip_version_def)

lemma vlan_walk_ge: "offset \<le> vlan_walk n packet offset"
  by (induction n packet offset rule: vlan_walk.induct) (auto split: option.splits)

lemma ethernet_walk_ge: "ethernet_walk packet base = Some r \<Longrightarrow> base \<le> r"
  using vlan_walk_ge [of base max_vlan_tags packet]
  by (auto simp: ethernet_walk_def Let_def split: bind_splits if_splits)

lemma at_ethernet_Some:
  "at_ethernet packet off = Some r \<Longrightarrow> off + 14 \<le> r \<and> at_ip_version packet r"
  by (auto simp: at_ethernet_def ip_offset_en10mb ip_offset_ethernet_eq bytes_simps split: bind_splits
           dest!: at_ip_header_Some ethernet_walk_ge)

lemma at_ethernet_eq:
  assumes "is_ip_ethertype (take 2 (drop (off + 12) packet))" and "at_ip_version packet (off + 14)"
    and "off + 14 \<le> usize_max"
  shows "at_ethernet packet off = Some (off + 14)"
proof -
  have "fast_path packet (off + 14)"
    using assms by (auto simp: fast_path_def b_slice_def at_ip_version_def add.commute)
  then show ?thesis
    using assms by (simp add: at_ethernet_def usize_checked_add_def ip_offset_def at_ip_header_eq add.commute)
qed

lemma gre_inner_Some:
  "gre_inner packet off = Some r \<Longrightarrow> off + 4 \<le> r \<and> at_ip_version packet r"
  by (auto simp: gre_inner_def Let_def gre_len_def bytes_simps split: bind_splits if_splits
           dest!: at_ip_header_Some at_ethernet_Some)

lemma geneve_inner_Some:
  "geneve_inner packet off = Some r \<Longrightarrow> off + 8 \<le> r \<and> at_ip_version packet r"
  by (auto simp: geneve_inner_def Let_def bytes_simps split: bind_splits if_splits
           dest!: at_ip_header_Some at_ethernet_Some)

section \<open>Properties\<close>

text \<open>Whatever the outer packet claims, an inner packet is only ever reported at an offset
  inside the packet, not before the outer payload, where an IP version nibble stands; and only
  for the four protocols that \<open>may_encapsulate\<close> names.\<close>

theorem inner_packet_is_inside:
  assumes "inner_ip_offset packet ip_off h = Some r"
  shows "may_encapsulate (ih_protocol h) \<and> ip_off + ih_header_len h \<le> r \<and> r < length packet \<and>
    (drop_bit 4 (packet ! r) = 4 \<or> drop_bit 4 (packet ! r) = 6)"
proof -
  have "may_encapsulate (ih_protocol h) \<and> ip_off + ih_header_len h \<le> r \<and> at_ip_version packet r"
    using assms
    by (auto simp: inner_ip_offset_def Let_def may_encapsulate_def bytes_simps split: bind_splits if_splits
             dest!: at_ip_header_Some at_ethernet_Some gre_inner_Some geneve_inner_Some)
  then show ?thesis by (simp add: at_ip_version_def)
qed

definition sample_gre_packet :: bytes where
  "sample_gre_packet = replicate 20 0 @ [0xb0, 0, 0x08, 0] @ replicate 12 7 @ [0x45, 0, 0, 20]"

theorem inner_packet_is_inside_witness:
  "\<exists>h. ih_protocol h = 47 \<and> ih_header_len h = 20 \<and> inner_ip_offset sample_gre_packet 0 h = Some 36 \<and>
     may_encapsulate 47 \<and> 20 \<le> (36 :: nat) \<and> 36 < length sample_gre_packet \<and>
     (drop_bit 4 (sample_gre_packet ! 36) = 4 \<or> drop_bit 4 (sample_gre_packet ! 36) = 6)"
proof -
  define h where "h = \<lparr>ih_version = 4, ih_header_len = 20, ih_protocol = 47, ih_src = V4 1, ih_dst = V4 2\<rparr>"
  have inner: "inner_ip_offset sample_gre_packet 0 h = Some 36"
    by (simp add: h_def sample_gre_packet_def inner_ip_offset_def gre_inner_def gre_len_def at_ip_header_def
        tunnel_consts usize_checked_add_def usize_max_def be16_def b_at_def nth_append)
  from inner_packet_is_inside [OF inner] show ?thesis using inner by (intro exI [of _ h]) (simp add: h_def)
qed

text \<open>GRE is measured right: with any combination of the optional checksum, key and
  sequence words (\<open>len\<close> of them, 4 bytes each) and version 0, an IP packet behind the header is
  found exactly at its first byte.\<close>

theorem gre_options_are_measured:
  fixes c k s :: bool
  defines "flags \<equiv> (if c then 0x8000 else 0) OR (if k then 0x2000 else 0) OR (if s then 0x1000 else 0) :: u16"
  assumes "b_at packet off = Some f0" and "b_at packet (off + 1) = Some f1" and "be16 f0 f1 = flags"
    and "b_at packet (off + 2) = Some p0" and "b_at packet (off + 3) = Some p1"
    and "be16 p0 p1 = eth_p_ipv4 \<or> be16 p0 p1 = eth_p_ipv6"
    and "len = of_bool c + of_bool k + of_bool s"
    and "at_ip_version packet (off + 4 + 4 * len)" and "length packet \<le> usize_max"
  shows "gre_inner packet off = Some (off + 4 + 4 * len)"
proof -
  have "gre_len flags = 4 + 4 * len" and "flags AND 7 = 0"
    using assms(8) by (cases c; cases k; cases s; simp add: flags_def gre_len_def)+
  moreover have "off + 4 + 4 * len \<le> usize_max"
    using assms(9,10) by (simp add: at_ip_version_def)
  ultimately show ?thesis
    using assms at_ip_header_eq [OF assms(9)]
    by (auto simp: gre_inner_def usize_checked_add_def add.assoc)
qed

theorem gre_options_are_measured_witness:
  "gre_inner (replicate 20 0 @ [0xb0, 0, 0x08, 0] @ replicate 12 7 @ [0x45, 0, 0, 20]) 20 = Some 36"
proof -
  have "gre_inner (replicate 20 0 @ [0xb0, 0, 0x08, 0] @ replicate 12 7 @ [0x45, 0, 0, 20]) 20
    = Some (20 + 4 + 4 * 3)"
    by (rule gre_options_are_measured 
        [where c = True and k = True and s = True and ?f0.0 = 176 and ?f1.0 = 0 and ?p0.0 = 8 and ?p1.0 = 0])
      (simp_all add: b_at_def nth_append be16_def eth_p_ipv4_def at_ip_version_def usize_max_def)
  then show ?thesis by simp
qed

end
