(* ===== verification/Fasthash.thy ===== *)
theory Fasthash
  imports Addr
begin

text \<open>
  \<open>fasthash.rs\<close>: the two hashers of the packet path. The process seed (drawn once from the
  operating system) is an argument of the model. \<open>from_ne_bytes\<close> is read little-endian, the
  byte order of the hosts the sensor is built for. What the collections built on these hashers
  do does not depend on them; what does is every set and table keyed by a digest instead of
  the thing itself (\<open>name_key\<close>, \<open>pair_key\<close>, the sender fingerprints, the cache index).
\<close>

definition seed64 :: u64 where "seed64 = 0x517cc1b727220a95"
definition wy0 :: u64 where "wy0 = 0xa0761d6478bd642f"
definition wy1 :: u64 where "wy1 = 0xe7037ed1a0b428db"

section \<open>Little-endian loads\<close>

text \<open>\<open>u32::from_le_bytes(rest[i..i + 4])\<close> and \<open>u64::from_le_bytes\<close>, on a slice of the right length.\<close>

definition le_u32_at :: "bytes \<Rightarrow> nat \<Rightarrow> u64" where
  "le_u32_at b i = be_word (rev (take 4 (drop i b)))"

definition le_u64 :: "bytes \<Rightarrow> u64" where
  "le_u64 b = be_word (rev b)"

text \<open>The bytes after the last whole word. The source's \<open>debug_assert\<close> is the hypothesis
  \<open>1 \<le> length rest < 8\<close> of the lemmas about it.\<close>

definition tail_word :: "bytes \<Rightarrow> u64" where
  "tail_word rest =
     (let n = length rest
      in if n \<ge> 4 then push_bit 32 (le_u32_at rest 0) OR le_u32_at rest (n - 4)
         else push_bit 16 (ucast (rest ! 0)) OR push_bit 8 (ucast (rest ! (n div 2))) OR ucast (rest ! (n - 1)))"

section \<open>FxHash\<close>

definition fx_add :: "u64 \<Rightarrow> u64 \<Rightarrow> u64" where
  "fx_add h i = (word_rotl 5 h XOR i) * seed64"

function fx_chunks :: "u64 \<Rightarrow> bytes \<Rightarrow> u64" where
  "fx_chunks h b =
     (if length b \<ge> 8 then fx_chunks (fx_add h (le_u64 (take 8 b))) (drop 8 b)
      else if b = [] then h else fx_add h (tail_word b))"
  by pat_completeness auto
termination by (relation "measure (\<lambda>(h, b). length b)") auto

declare fx_chunks.simps [simp del]

definition fx_write :: "u64 \<Rightarrow> bytes \<Rightarrow> u64" where
  "fx_write h b = fx_chunks (fx_add h (of_nat (length b))) b"

definition fx_write_u128 :: "u64 \<Rightarrow> u128 \<Rightarrow> u64" where
  "fx_write_u128 h i = fx_add (fx_add h (ucast i)) (ucast (drop_bit 64 i))"

definition fx_finish :: "u64 \<Rightarrow> u64" where
  "fx_finish h0 =
     (let h1 = h0 XOR drop_bit 32 h0; h2 = h1 * 0xd6e8feb86659fd93 in h2 XOR drop_bit 32 h2)"

text \<open>The derived \<open>Hash\<close> of an \<open>Ip\<close>: the variant, then its number.\<close>

fun fx_ip :: "u64 \<Rightarrow> ip \<Rightarrow> u64" where
  "fx_ip h (V4 v) = fx_add (fx_add h 0) (ucast v)"
| "fx_ip h (V6 v) = fx_write_u128 (fx_add h 1) v"

section \<open>The seeded hash\<close>

definition wymix :: "u64 \<Rightarrow> u64 \<Rightarrow> u64" where
  "wymix a b = (let r = ucast a * ucast b :: u128 in ucast r XOR ucast (drop_bit 64 r))"

text \<open>The two words a tail of 1 to 15 bytes is read as.\<close>

definition seeded_tail :: "bytes \<Rightarrow> u64 \<times> u64" where
  "seeded_tail rest =
     (let n = length rest
      in if n \<ge> 4
         then (let q = 4 * (n div 8)
               in (push_bit 32 (le_u32_at rest 0) OR le_u32_at rest q,
                   push_bit 32 (le_u32_at rest (n - 4)) OR le_u32_at rest (n - 4 - q)))
         else (push_bit 16 (ucast (rest ! 0)) OR push_bit 8 (ucast (rest ! (n div 2))) OR ucast (rest ! (n - 1)), 0))"

function seeded_chunks :: "u64 \<Rightarrow> bytes \<Rightarrow> u64" where
  "seeded_chunks h b =
     (if length b \<ge> 16
      then seeded_chunks (wymix (le_u64 (take 8 b) XOR h XOR wy0)
             (le_u64 (take 8 (drop 8 b)) XOR h XOR wy1)) (drop 16 b)
      else if b = [] then h
      else (let (x, y) = seeded_tail b in wymix (x XOR h XOR wy0) (y XOR h XOR wy1)))"
  by pat_completeness auto
termination by (relation "measure (\<lambda>(h, b). length b)") auto

declare seeded_chunks.simps [simp del]

definition seeded_write :: "u64 \<Rightarrow> bytes \<Rightarrow> u64" where
  "seeded_write h b = seeded_chunks (h XOR wy0 * (of_nat (length b) + 1)) b"

definition seeded_write_u8 :: "u64 \<Rightarrow> u8 \<Rightarrow> u64" where
  "seeded_write_u8 h i = wymix (h XOR wy0) (ucast i XOR wy1)"

definition seeded_write_u64 :: "u64 \<Rightarrow> u64 \<Rightarrow> u64" where
  "seeded_write_u64 h i = wymix (h XOR wy0) (i XOR wy1)"

definition seeded_finish :: "u64 \<Rightarrow> u64 \<Rightarrow> u64" where
  "seeded_finish seed h = wymix (h XOR seed) wy1"

definition str_bytes :: "string \<Rightarrow> bytes" where
  "str_bytes s = map of_char s"

definition name_key :: "u64 \<Rightarrow> string \<Rightarrow> u64" where
  "name_key seed name = seeded_finish seed (seeded_write seed (str_bytes name))"

text \<open>The hash of a string key (\<open>Hash for str\<close> writes the bytes and then \<open>0xff\<close>).\<close>

definition str_hash :: "u64 \<Rightarrow> string \<Rightarrow> u64" where
  "str_hash seed s = seeded_finish seed (seeded_write_u8 (seeded_write seed (str_bytes s)) 0xff)"

text \<open>The derived \<open>Hash\<close> of an \<open>Ip\<close> under the seeded hasher, which has no \<open>write_u32\<close> or
  \<open>write_u128\<close> of its own: the number goes in as bytes, in the host's order.\<close>

definition le_bytes :: "nat \<Rightarrow> 'n::len word \<Rightarrow> bytes" where
  "le_bytes n w = map (\<lambda>i. ucast (drop_bit (8 * i) w)) [0..<n]"

fun seeded_ip :: "u64 \<Rightarrow> ip \<Rightarrow> u64" where
  "seeded_ip h (V4 v) = seeded_write (seeded_write_u64 h 0) (le_bytes 4 v)"
| "seeded_ip h (V6 v) = seeded_write (seeded_write_u64 h 1) (le_bytes 16 v)"

section \<open>Lemmas\<close>

lemma bit_be_word4:
  fixes a b c d :: u8
  shows "bit (be_word [a, b, c, d] :: u64) n \<longleftrightarrow>
     (if n < 8 then bit d n else if n < 16 then bit c (n - 8)
      else if n < 24 then bit b (n - 16) else if n < 32 then bit a (n - 24) else False)"
proof -
  have "\<not> bit x m" if "8 \<le> m" for x :: u8 and m
    using that bit_imp_le_length [of x m] by auto
  then show ?thesis
    by (auto simp: be_word_def bit_or_iff bit_push_bit_iff bit_ucast_iff bit_take_bit_iff possible_bit_def)
qed

lemma le_u32_at_word:
  assumes "i + 4 \<le> length b"
  shows "le_u32_at b i = be_word [b ! (i + 3), b ! (i + 2), b ! (i + 1), b ! i]"
proof -
  have "take 4 (drop i b) = [b ! i, b ! (i + 1), b ! (i + 2), b ! (i + 3)]"
    using assms by (intro nth_equalityI) (auto simp: less_Suc_eq numeral_eq_Suc)
  then show ?thesis by (simp add: le_u32_at_def)
qed

lemma be_word4_inject:
  fixes a b c d :: u8
  assumes "be_word [a, b, c, d] = (be_word [a', b', c', d'] :: u64)"
  shows "a = a' \<and> b = b' \<and> c = c' \<and> d = d'"
proof -
  have *: "bit (be_word [a, b, c, d] :: u64) n = bit (be_word [a', b', c', d'] :: u64) n" for n
    using assms by simp
  have d: "bit d n = bit d' n" if "n < 8" for n
    using * [of n] that by (simp add: bit_be_word4)
  have c: "bit c n = bit c' n" if "n < 8" for n
    using * [of "n + 8"] that by (simp add: bit_be_word4)
  have b: "bit b n = bit b' n" if "n < 8" for n
    using * [of "n + 16"] that by (simp add: bit_be_word4)
  have a: "bit a n = bit a' n" if "n < 8" for n
    using * [of "n + 24"] that by (simp add: bit_be_word4)
  show ?thesis
    using a b c d by (auto intro!: bit_word_eqI)
qed

lemma le_u32_at_inject:
  assumes "le_u32_at b i = le_u32_at b' i'" "i + 4 \<le> length b" "i' + 4 \<le> length b'" "k < 4"
  shows "b ! (i + k) = b' ! (i' + k)"
proof -
  have "b ! (i + 3) = b' ! (i' + 3) \<and> b ! (i + 2) = b' ! (i' + 2) \<and> b ! (i + 1) = b' ! (i' + 1) \<and> b ! i = b' ! i'"
    using assms(1) unfolding le_u32_at_word [OF assms(2)] le_u32_at_word [OF assms(3)]
    by (rule be_word4_inject)
  moreover have "k = 0 \<or> k = 1 \<or> k = 2 \<or> k = 3" using assms(4) by auto
  ultimately show ?thesis by auto
qed

lemma le_u32_at_high: "i + 4 \<le> length b \<Longrightarrow> 32 \<le> n \<Longrightarrow> \<not> bit (le_u32_at b i) n"
  by (simp add: le_u32_at_word bit_be_word4)

lemma halves_inject:
  fixes a b c d :: u64
  assumes eq: "push_bit 32 a OR b = push_bit 32 c OR d"
    and hi: "\<And>n. 32 \<le> n \<Longrightarrow> \<not> bit a n" "\<And>n. 32 \<le> n \<Longrightarrow> \<not> bit b n"
      "\<And>n. 32 \<le> n \<Longrightarrow> \<not> bit c n" "\<And>n. 32 \<le> n \<Longrightarrow> \<not> bit d n"
  shows "a = c \<and> b = d"
proof -
  have *: "bit (push_bit 32 a OR b) n = bit (push_bit 32 c OR d) n" for n
    using eq by simp
  have "bit b n = bit d n" if "n < 64" for n
    using * [of n] hi(2,4) [of n] by (cases "n < 32") (auto simp: bit_or_iff bit_push_bit_iff)
  moreover have "bit a n = bit c n" if "n < 64" for n
  proof (cases "n < 32")
    case True
    then show ?thesis using * [of "n + 32"] hi(2,4) [of "n + 32"]
      by (auto simp: bit_or_iff bit_push_bit_iff)
  next
    case False
    then show ?thesis using hi(1,3) [of n] by simp
  qed
  ultimately show ?thesis by (auto intro!: bit_word_eqI)
qed

lemma small_tail_inject:
  fixes r r' :: bytes
  assumes "length r = n" "length r' = n" "0 < n" "n < 4"
    and eq: "push_bit 16 (ucast (r ! 0)) OR push_bit 8 (ucast (r ! (n div 2))) OR ucast (r ! (n - 1)) =
      (push_bit 16 (ucast (r' ! 0)) OR push_bit 8 (ucast (r' ! (n div 2))) OR ucast (r' ! (n - 1)) :: u64)"
  shows "r = r'"
proof -
  have be: "push_bit 16 (ucast a) OR push_bit 8 (ucast b) OR ucast c = (be_word [0, a, b, c] :: u64)"
    for a b c :: u8
    by (rule bit_word_eqI)
      (auto simp: be_word_def bit_or_iff bit_push_bit_iff bit_ucast_iff bit_take_bit_iff possible_bit_def)
  have "r ! 0 = r' ! 0 \<and> r ! (n div 2) = r' ! (n div 2) \<and> r ! (n - 1) = r' ! (n - 1)"
    using eq unfolding be by (blast dest: be_word4_inject)
  moreover have "k = 0 \<or> k = n div 2 \<or> k = n - 1" if "k < n" for k
    using assms(3,4) that by presburger
  ultimately show ?thesis
    using assms(1,2) by (intro nth_equalityI) auto
qed

lemma load_pair_inject:
  assumes "push_bit 32 (le_u32_at r i) OR le_u32_at r j = push_bit 32 (le_u32_at r' i) OR le_u32_at r' j"
    and "length r = n" "length r' = n" "i + 4 \<le> n" "j + 4 \<le> n" "k < 4"
  shows "r ! (i + k) = r' ! (i + k) \<and> r ! (j + k) = r' ! (j + k)"
proof -
  have "le_u32_at r i = le_u32_at r' i \<and> le_u32_at r j = le_u32_at r' j"
    using assms(1) by (rule halves_inject) (use assms in \<open>auto simp: le_u32_at_high\<close>)
  then show ?thesis
    using le_u32_at_inject [of r i r' i k] le_u32_at_inject [of r j r' j k] assms by simp
qed

lemma tail_word_inject:
  assumes "tail_word r = tail_word r'" "length r = n" "length r' = n" "0 < n" "n < 8"
  shows "r = r'"
proof (cases "n < 4")
  case True
  then show ?thesis using assms by (intro small_tail_inject [of r n r']) (auto simp: tail_word_def)
next
  case False
  then have eq: "push_bit 32 (le_u32_at r 0) OR le_u32_at r (n - 4)
      = push_bit 32 (le_u32_at r' 0) OR le_u32_at r' (n - 4)"
    using assms by (simp add: tail_word_def Let_def)
  have "r ! m = r' ! m" if "m < n" for m
    using load_pair_inject [OF eq assms(2,3), of "if m < 4 then m else m - (n - 4)"] False assms(5) that
    by (cases "m < 4") auto
  then show ?thesis using assms by (intro nth_equalityI) auto
qed

lemma seeded_tail_inject:
  assumes "seeded_tail r = seeded_tail r'" "length r = n" "length r' = n" "0 < n" "n < 16"
  shows "r = r'"
proof (cases "n < 4")
  case True
  then show ?thesis using assms by (intro small_tail_inject [of r n r']) (auto simp: seeded_tail_def)
next
  case False
  define q where "q = 4 * (n div 8)"
  have q: "n < 8 \<Longrightarrow> q = 0" "8 \<le> n \<Longrightarrow> q = 4"
    using assms(5) unfolding q_def by (auto intro: div_nat_eqI)
  have e1: "push_bit 32 (le_u32_at r 0) OR le_u32_at r q = push_bit 32 (le_u32_at r' 0) OR le_u32_at r' q"
    and e2: "push_bit 32 (le_u32_at r (n - 4)) OR le_u32_at r (n - 4 - q)
      = push_bit 32 (le_u32_at r' (n - 4)) OR le_u32_at r' (n - 4 - q)"
    using assms False by (auto simp: seeded_tail_def Let_def q_def)
  have "0 + 4 \<le> n" "q + 4 \<le> n" "n - 4 + 4 \<le> n" "n - 4 - q + 4 \<le> n"
    using q False by (cases "n < 8"; auto)+
  note c1 = load_pair_inject [OF e1 assms(2,3) this(1,2)] and c2 = load_pair_inject [OF e2 assms(2,3) this(3,4)]
  have "r ! m = r' ! m" if "m < n" for m
  proof -
    consider "m < 4" | "4 \<le> m" "m < 8" "8 \<le> n" | "n - 4 \<le> m" | "8 \<le> n" "8 \<le> m" "m < n - 4"
      using that False by linarith
    then show ?thesis
    proof cases
      case 1 then show ?thesis using c1 [of m] by simp
    next
      case 2 then show ?thesis using c1 [of "m - 4"] q by simp
    next
      case 3 then show ?thesis using c2 [of "m - (n - 4)"] that by simp
    next
      case 4 then show ?thesis using c2 [of "m - (n - 8)"] q assms(5) by simp
    qed
  qed
  then show ?thesis using assms by (intro nth_equalityI) auto
qed

text \<open>No byte of a key's tail is lost by the overlapping reads: for a given tail length (1 to
  7 bytes for \<open>tail_word\<close>, 1 to 15 for the seeded hash) the words read determine the bytes.\<close>

theorem tails_are_read_whole:
  assumes "0 < n"
  shows "(n < 8 \<longrightarrow> inj_on tail_word {r. length r = n}) \<and>
    (n < 16 \<longrightarrow> inj_on seeded_tail {r. length r = n})"
  using assms by (auto simp: inj_on_def intro: tail_word_inject seeded_tail_inject)

theorem tails_are_read_whole_witness:
  "inj_on tail_word {r. length r = 5} \<and> inj_on seeded_tail {r. length r = 13}"
  using tails_are_read_whole [of 5] tails_are_read_whole [of 13] by simp

end
