(* ===== verification/Orders.thy ===== *)
theory Orders
  imports Fasthash "HOL-Library.Product_Lexorder" "HOL-Library.List_Lexorder" "HOL-Library.Char_ord"
begin

text \<open>
  The orders the code sorts by: the derived \<open>Ord\<close> of \<open>Ip\<close> (IPv4 before IPv6, then the
  number), the lexicographic orders of tuples and of strings (by byte), and \<open>Iterator::max_by\<close>,
  which returns the last of several maximal elements.
\<close>

section \<open>The derived order of addresses\<close>

fun ip_rank :: "ip \<Rightarrow> nat \<times> nat" where
  "ip_rank (V4 v) = (0, unat v)"
| "ip_rank (V6 v) = (1, unat v)"

lemma ip_rank_inject: "ip_rank x = ip_rank y \<longleftrightarrow> x = y"
  by (cases x; cases y) (auto simp: word_unat_eq_iff)

instantiation ip :: linorder
begin

definition less_eq_ip :: "ip \<Rightarrow> ip \<Rightarrow> bool" where
  "less_eq_ip x y \<longleftrightarrow> ip_rank x \<le> ip_rank y"

definition less_ip :: "ip \<Rightarrow> ip \<Rightarrow> bool" where
  "less_ip x y \<longleftrightarrow> ip_rank x < ip_rank y"

instance
  by standard (auto simp: less_eq_ip_def less_ip_def ip_rank_inject [symmetric] order_less_le)

end

section \<open>The last maximum\<close>

definition max_by :: "('a \<Rightarrow> 'b::linorder) \<Rightarrow> 'a list \<Rightarrow> 'a option" where
  "max_by f xs = foldl (\<lambda>best x. case best of None \<Rightarrow> Some x | Some b \<Rightarrow> if f b \<le> f x then Some x else Some b)
     None xs"

lemma max_by_Some:
  assumes "max_by f xs = Some m"
  shows "m \<in> set xs \<and> (\<forall>x \<in> set xs. f x \<le> f m)"
proof -
  have "foldl (\<lambda>best x. case best of None \<Rightarrow> Some x | Some b \<Rightarrow> if f b \<le> f x then Some x else Some b)
      a xs = Some m \<Longrightarrow> (case a of None \<Rightarrow> m \<in> set xs | Some b \<Rightarrow> m = b \<or> m \<in> set xs) \<and>
      (\<forall>x \<in> set xs \<union> set_option a. f x \<le> f m)" for a
    by (induction xs arbitrary: a) (fastforce split: option.splits if_splits)+
  from this [of None] show ?thesis using assms by (simp add: max_by_def)
qed

lemma max_by_None: "max_by f xs = None \<longleftrightarrow> xs = []"
proof -
  have *: "foldl (\<lambda>best x. case best of None \<Rightarrow> Some x | Some b \<Rightarrow> if f b \<le> f x then Some x else Some b)
      (Some b) ys \<noteq> None" for b ys
    by (induction ys arbitrary: b) auto
  show ?thesis by (cases xs) (simp_all add: max_by_def * del: not_None_eq)
qed

end
