(* ===== verification/Names.thy ===== *)
theory Names
  imports Orders
begin

text \<open>
  The hand-written matchers the packet path runs instead of a regular expression or a library
  search (\<open>protocols/mod.rs\<close>, \<open>settings.rs\<close>, \<open>heuristics/mod.rs\<close>), as byte loops, each with
  the pattern it stands for.
\<close>

section \<open>\<open>protocols::has\<close> and \<open>dots\<close>\<close>

text \<open>\<open>memchr\<close> from an offset on.\<close>

definition memchr_from :: "char \<Rightarrow> string \<Rightarrow> nat \<Rightarrow> nat option" where
  "memchr_from c hay from = find (\<lambda>i. hay ! i = c) [from..<length hay]"

function has_from :: "string \<Rightarrow> string \<Rightarrow> nat \<Rightarrow> bool" where
  "has_from hay needle from =
     (case memchr_from (hd needle) hay from of
        None \<Rightarrow> False
      | Some k \<Rightarrow> if starts_with (drop k hay) needle then True else has_from hay needle (k + 1))"
  by pat_completeness auto
termination
  by (relation "measure (\<lambda>(hay, needle, from). length hay - from)")
    (auto simp: memchr_from_def find_Some_iff dest!: arg_cong [of _ _ length])

declare has_from.simps [simp del]

definition has :: "string \<Rightarrow> string \<Rightarrow> bool" where
  "has hay needle =
     (case needle of
        [] \<Rightarrow> True
      | first # _ \<Rightarrow>
          if length hay < 64
          then list_ex (\<lambda>i. hay ! i = first \<and> starts_with (drop i hay) needle) [0..<length hay]
          else has_from hay needle 0)"

definition dots :: "string \<Rightarrow> nat list" where
  "dots name = filter (\<lambda>i. name ! i = CHR ''.'') [0..<length name]"

section \<open>\<open>settings.rs\<close>\<close>

definition is_alnum :: "char \<Rightarrow> bool" where
  "is_alnum c \<longleftrightarrow> is_digit c \<or> is_lower c \<or> is_upper c"

definition tld_char :: "char \<Rightarrow> bool" where
  "tld_char c \<longleftrightarrow> is_alnum c \<or> c = CHR ''-''"

definition name_char :: "char \<Rightarrow> bool" where
  "name_char c \<longleftrightarrow> is_alnum c \<or> c = CHR ''.'' \<or> c = CHR ''-'' \<or> c = CHR ''_''"

text \<open>A loop \<open>while i > 0 && P(b[i - 1]) { i -= 1 }\<close>.\<close>

fun back_while :: "(char \<Rightarrow> bool) \<Rightarrow> string \<Rightarrow> nat \<Rightarrow> nat" where
  "back_while P b 0 = 0"
| "back_while P b (Suc i) = (if P (b ! i) then back_while P b i else Suc i)"

definition is_valid_dns_name :: "string \<Rightarrow> bool" where
  "is_valid_dns_name name =
     (let i = back_while tld_char name (length name)
      in if i = length name \<or> i = 0 \<or> name ! (i - 1) \<noteq> CHR ''.'' then False
         else list_all name_char (take (i - 1) name))"

definition forwarded_names :: "string list" where
  "forwarded_names = [''CF-Connecting-IP'', ''True-Client-IP'', ''X-Forwarded-For'']"

definition has_forwarded_for_header :: "string \<Rightarrow> bool" where
  "has_forwarded_for_header packet =
     list_ex (\<lambda>colon. let before = take colon packet
        in before \<noteq> [] \<and> last before \<in> {CHR ''p'', CHR ''P'', CHR ''r'', CHR ''R''} \<and>
           list_ex (\<lambda>name. length name \<le> length before \<and>
              eq_ignore_ascii_case (drop (length before - length name) before) name) forwarded_names)
       (filter (\<lambda>i. packet ! i = CHR '':'') [0..<length packet])"

fun dashed_loop :: "string \<Rightarrow> nat \<Rightarrow> nat \<Rightarrow> bool" where
  "dashed_loop [] groups digits = (digits > 0 \<and> groups = 4)"
| "dashed_loop (c # cs) groups digits =
     (if c = CHR ''-'' then if digits = 0 then False else dashed_loop cs (groups + 1) 0
      else if is_digit c then dashed_loop cs groups (digits + 1)
      else False)"

definition is_dashed_quad :: "string \<Rightarrow> bool" where
  "is_dashed_quad label = dashed_loop label 1 0"

section \<open>\<open>heuristics/mod.rs\<close>\<close>

definition strip_last_two_octets_str :: "string \<Rightarrow> string" where
  "strip_last_two_octets_str value =
     (let i = back_while is_digit value (length value)
      in if i = length value \<or> i = 0 \<or> value ! (i - 1) \<noteq> CHR ''.'' then value
         else (let j = back_while is_digit value (i - 1)
               in if j = i - 1 then value else take j value))"

definition count_prefixes :: "ip list \<Rightarrow> (string, nat) amap" where
  "count_prefixes ips = foldl (\<lambda>counts ip.
     let key = strip_last_two_octets_str (ip_render ip)
     in AList.update key ((case map_of counts key of None \<Rightarrow> 0 | Some n \<Rightarrow> n) + 1) counts) [] ips"

text \<open>\<open>local_prefix\<close>, with the cached value it may update.\<close>

definition local_prefix :: "ip list \<Rightarrow> string option \<Rightarrow> string \<times> string option" where
  "local_prefix sources cached =
     (let best = (case max_by (\<lambda>(key, n). (n, key)) (count_prefixes sources) of
                    None \<Rightarrow> '''' | Some (key, n) \<Rightarrow> key)
      in if best \<noteq> '''' then (best, Some best)
         else ((case cached of None \<Rightarrow> ''_'' | Some c \<Rightarrow> c), cached))"

section \<open>Lemmas\<close>

lemma starts_with_append: "starts_with s p \<longleftrightarrow> (\<exists>t. s = p @ t)"
  by (auto simp: starts_with_def) (metis append_take_drop_id)

lemma memchr_from_Some:
  "memchr_from c hay from = Some k \<longleftrightarrow>
   from \<le> k \<and> k < length hay \<and> hay ! k = c \<and> (\<forall>j. from \<le> j \<and> j < k \<longrightarrow> hay ! j \<noteq> c)"
proof
  assume "memchr_from c hay from = Some k"
  then obtain i where i: "i < length [from..<length hay]" "hay ! ([from..<length hay] ! i) = c"
    "k = [from..<length hay] ! i" "\<forall>j<i. hay ! ([from..<length hay] ! j) \<noteq> c"
    by (auto simp: memchr_from_def find_Some_iff)
  then have k: "k = from + i" by simp
  have "hay ! j \<noteq> c" if "from \<le> j" "j < k" for j
    using i(1,4) k that by (auto dest: spec [of _ "j - from"])
  then show "from \<le> k \<and> k < length hay \<and> hay ! k = c \<and> (\<forall>j. from \<le> j \<and> j < k \<longrightarrow> hay ! j \<noteq> c)"
    using i k by auto
next
  assume "from \<le> k \<and> k < length hay \<and> hay ! k = c \<and> (\<forall>j. from \<le> j \<and> j < k \<longrightarrow> hay ! j \<noteq> c)"
  then show "memchr_from c hay from = Some k"
    unfolding memchr_from_def find_Some_iff by (intro exI [of _ "k - from"]) auto
qed

lemma memchr_from_None:
  "memchr_from c hay from = None \<longleftrightarrow> (\<forall>j. from \<le> j \<and> j < length hay \<longrightarrow> hay ! j \<noteq> c)"
  by (auto simp: memchr_from_def find_None_iff)

lemma starts_at_first:
  "starts_with (drop i hay) (c # cs) \<Longrightarrow> i < length hay \<and> hay ! i = c"
  by (cases "i < length hay") (auto simp: starts_with_append Cons_nth_drop_Suc [symmetric])

lemma has_from_iff:
  assumes "needle \<noteq> []"
  shows "has_from hay needle from \<longleftrightarrow> (\<exists>i \<ge> from. starts_with (drop i hay) needle)"
  using assms
proof (induction hay needle "from" rule: has_from.induct)
  case (1 hay needle "from")
  obtain c cs where needle: "needle = c # cs" using 1(2) by (cases needle) auto
  show ?case
  proof (cases "memchr_from (hd needle) hay from")
    case None
    then have "\<not> starts_with (drop i hay) needle" if "from \<le> i" for i
      using that needle starts_at_first [of i hay c cs] by (auto simp: memchr_from_None)
    then show ?thesis using None by (subst has_from.simps) auto
  next
    case (Some k)
    then have k: "from \<le> k" "\<forall>j. from \<le> j \<and> j < k \<longrightarrow> hay ! j \<noteq> c"
      using needle by (auto simp: memchr_from_Some)
    have skip: "k \<le> i" if "starts_with (drop i hay) needle" "from \<le> i" for i
      using that k needle starts_at_first [of i hay c cs] by (meson not_le_imp_less)
    show ?thesis
    proof (cases "starts_with (drop k hay) needle")
      case True
      then show ?thesis using Some k by (subst has_from.simps) auto
    next
      case False
      then have "has_from hay needle from \<longleftrightarrow> (\<exists>i \<ge> k + 1. starts_with (drop i hay) needle)"
        using 1(1) [OF Some False] 1(2) Some by (subst has_from.simps) simp
      also have "\<dots> \<longleftrightarrow> (\<exists>i \<ge> from. starts_with (drop i hay) needle)"
      proof
        assume "\<exists>i \<ge> from. starts_with (drop i hay) needle"
        then obtain i where i: "from \<le> i" "starts_with (drop i hay) needle" by blast
        then have "k \<le> i" "i \<noteq> k" using skip False by auto
        then show "\<exists>i \<ge> k + 1. starts_with (drop i hay) needle" using i by (intro exI [of _ i]) simp
      next
        assume "\<exists>i \<ge> k + 1. starts_with (drop i hay) needle"
        then obtain i where "k + 1 \<le> i" "starts_with (drop i hay) needle" by blast
        then show "\<exists>i \<ge> from. starts_with (drop i hay) needle" using k(1) by (intro exI [of _ i]) simp
      qed
      finally show ?thesis .
    qed
  qed
qed

lemma sub_at: "(\<exists>pre post. hay = pre @ needle @ post) \<longleftrightarrow> (\<exists>i. starts_with (drop i hay) needle)"
proof
  assume "\<exists>pre post. hay = pre @ needle @ post"
  then obtain pre post where "hay = pre @ needle @ post" by blast
  then have "starts_with (drop (length pre) hay) needle" by (simp add: starts_with_append)
  then show "\<exists>i. starts_with (drop i hay) needle" by blast
next
  assume "\<exists>i. starts_with (drop i hay) needle"
  then obtain i t where "drop i hay = needle @ t" by (auto simp: starts_with_append)
  then have "hay = take i hay @ needle @ t" by (metis append_take_drop_id)
  then show "\<exists>pre post. hay = pre @ needle @ post" by blast
qed

lemma has_iff: "has hay needle \<longleftrightarrow> (\<exists>pre post. hay = pre @ needle @ post)"
proof (cases needle)
  case Nil
  then show ?thesis by (auto simp: has_def)
next
  case (Cons c cs)
  have "list_ex (\<lambda>i. hay ! i = c \<and> starts_with (drop i hay) needle) [0..<length hay]
      \<longleftrightarrow> (\<exists>i. starts_with (drop i hay) needle)"
    using Cons starts_at_first [of _ hay c cs] by (auto simp: list_ex_iff) (meson atLeastLessThan_iff le0)
  moreover have "has_from hay needle 0 \<longleftrightarrow> (\<exists>i. starts_with (drop i hay) needle)"
    using has_from_iff [of needle hay 0] Cons by simp
  ultimately show ?thesis unfolding sub_at using Cons by (simp add: has_def)
qed

lemma back_while_spec:
  assumes "n \<le> length b"
  shows "back_while P b n \<le> n \<and> list_all P (drop (back_while P b n) (take n b)) \<and>
    (back_while P b n = 0 \<or> \<not> P (b ! (back_while P b n - 1)))"
  using assms
proof (induction n)
  case 0
  then show ?case by simp
next
  case (Suc n)
  show ?case
  proof (cases "P (b ! n)")
    case True
    have "take (Suc n) b = take n b @ [b ! n]" using Suc.prems by (simp add: take_Suc_conv_app_nth)
    then show ?thesis using Suc True by auto
  next
    case False
    then show ?thesis by simp
  qed
qed

text \<open>The loop finds the longest suffix in \<open>P\<close>.\<close>

lemma back_while_append:
  assumes "list_all P l" and "p = [] \<or> \<not> P (last p)" and "b = p @ l @ r"
  shows "back_while P b (length p + length l) = length p"
  using assms
proof (induction l arbitrary: r rule: rev_induct)
  case Nil
  then show ?case by (cases p rule: rev_cases) (auto simp: nth_append)
next
  case (snoc x xs)
  have "b ! (length p + length xs) = x" using snoc.prems by (simp add: nth_append)
  then show ?case using snoc by simp
qed

lemma back_while_whole:
  "list_all P l \<Longrightarrow> p = [] \<or> \<not> P (last p) \<Longrightarrow> back_while P (p @ l) (length p + length l) = length p"
  using back_while_append [of P l p "p @ l" "[]"] by simp

lemma back_while_split:
  assumes "n \<le> length b" and "i = back_while P b n"
  shows "take n b = take i b @ drop i (take n b) \<and> list_all P (drop i (take n b)) \<and>
    (i = 0 \<or> \<not> P (last (take i b))) \<and> i \<le> n"
proof -
  have "i \<le> n" using back_while_spec [OF assms(1), of P] assms(2) by simp
  then have "take i (take n b) = take i b" by (simp add: min_absorb1)
  moreover have "i \<noteq> 0 \<Longrightarrow> last (take i b) = b ! (i - 1)"
    using \<open>i \<le> n\<close> assms(1) by (subst last_conv_nth) auto
  ultimately show ?thesis
    using back_while_spec [OF assms(1), of P] assms(2) append_take_drop_id [of i "take n b"] by auto
qed

text \<open>The hand-coded name check is the expression it replaces,
  \<open>\A[a-zA-Z0-9._-]*\.[a-zA-Z0-9-]+\Z\<close>: a name passes exactly when it is a run of name
  characters, a dot, and a non-empty label of letters, digits and hyphens.\<close>

theorem dns_name_check_is_its_pattern:
  "is_valid_dns_name name \<longleftrightarrow>
     (\<exists>p l. name = p @ ''.'' @ l \<and> l \<noteq> [] \<and> list_all tld_char l \<and> list_all name_char p)"
proof
  define i where "i = back_while tld_char name (length name)"
  assume "is_valid_dns_name name"
  then have v: "i \<noteq> length name" "i \<noteq> 0" "name ! (i - 1) = CHR ''.''" "list_all name_char (take (i - 1) name)"
    by (auto simp: is_valid_dns_name_def Let_def i_def split: if_splits)
  note s = back_while_split [OF le_refl i_def]
  have "take i name = take (i - 1) name @ ''.''"
    using v s by (metis One_nat_def Suc_le_lessD Suc_pred le_eq_less_or_eq not_gr_zero take_Suc_conv_app_nth)
  then have "name = take (i - 1) name @ ''.'' @ drop i name"
    by (metis append.assoc append_take_drop_id)
  moreover have "drop i name \<noteq> []" using v s by simp
  ultimately show "\<exists>p l. name = p @ ''.'' @ l \<and> l \<noteq> [] \<and> list_all tld_char l \<and> list_all name_char p"
    using s v(4) by (intro exI [of _ "take (i - 1) name"] exI [of _ "drop i name"]) simp
next
  assume "\<exists>p l. name = p @ ''.'' @ l \<and> l \<noteq> [] \<and> list_all tld_char l \<and> list_all name_char p"
  then obtain p l where n: "name = p @ ''.'' @ l" "l \<noteq> []" "list_all tld_char l" "list_all name_char p"
    by blast
  have "\<not> tld_char (CHR ''.'')" by (simp add: tld_char_def is_alnum_def is_digit_def is_lower_def is_upper_def code_def)
  then have "back_while tld_char ((p @ ''.'') @ l) (length (p @ ''.'') + length l) = length (p @ ''.'')"
    using n(3) by (intro back_while_whole) simp_all
  then have "back_while tld_char name (length name) = Suc (length p)" using n(1) by simp
  then show "is_valid_dns_name name" using n by (simp add: is_valid_dns_name_def Let_def nth_append)
qed

lemma dashed_loop_split:
  "dashed_loop s g d \<longleftrightarrow>
     (\<forall>p \<in> set (split_on (CHR ''-'') s). list_all is_digit p) \<and>
     (d > 0 \<or> hd (split_on (CHR ''-'') s) \<noteq> []) \<and>
     (\<forall>p \<in> set (tl (split_on (CHR ''-'') s)). p \<noteq> []) \<and>
     g + length (split_on (CHR ''-'') s) = 5"
proof (induction s g d rule: dashed_loop.induct)
  case (2 c cs g d)
  obtain y ys where "split_on (CHR ''-'') cs = y # ys" by (cases "split_on (CHR ''-'') cs") auto
  then show ?case using 2 by auto
qed auto

text \<open>The one-pass dashed-quad check accepts exactly the labels made of four non-empty groups
  of digits separated by hyphens.\<close>

theorem dashed_quad_is_four_groups:
  "is_dashed_quad label \<longleftrightarrow>
     length (split_on (CHR ''-'') label) = 4 \<and>
     list_all (\<lambda>p. p \<noteq> [] \<and> list_all is_digit p) (split_on (CHR ''-'') label)"
proof -
  obtain y ys where "split_on (CHR ''-'') label = y # ys" by (cases "split_on (CHR ''-'') label") auto
  then show ?thesis unfolding is_dashed_quad_def dashed_loop_split by (auto simp: list_all_iff)
qed

lemma eq_ignore_case_last:
  assumes "eq_ignore_ascii_case w name" and "name \<noteq> []"
  shows "w \<noteq> [] \<and> to_lower (last w) = to_lower (last name)"
proof -
  have *: "map to_lower w = map to_lower name"
    using assms(1) by (simp add: eq_ignore_ascii_case_def)
  then have "w \<noteq> []" using assms(2) by auto
  then show ?thesis using * assms(2) by (metis last_map)
qed

lemma code_inject: "code x = code y \<longleftrightarrow> x = y"
  by (simp add: code_def)

lemma to_lower_pr:
  "to_lower c = CHR ''p'' \<longleftrightarrow> c = CHR ''p'' \<or> c = CHR ''P''"
  "to_lower c = CHR ''r'' \<longleftrightarrow> c = CHR ''r'' \<or> c = CHR ''R''"
proof -
  have "to_lower c = d \<longleftrightarrow> c = d \<or> c = e" if "is_lower d" "is_upper e" "code d = code e + 32" for d e
  proof (cases "is_upper c")
    case True
    then have "code (to_lower c) = code c + 32"
      by (simp add: to_lower_def is_upper_def)
    moreover have "c \<noteq> d" using True that by (auto simp: is_upper_def is_lower_def)
    ultimately show ?thesis using that code_inject [of "to_lower c" d] code_inject [of c e] by auto
  next
    case False
    then show ?thesis using that by (auto simp: to_lower_def)
  qed
  then show "to_lower c = CHR ''p'' \<longleftrightarrow> c = CHR ''p'' \<or> c = CHR ''P''"
    and "to_lower c = CHR ''r'' \<longleftrightarrow> c = CHR ''r'' \<or> c = CHR ''R''"
    by (simp_all add: is_lower_def is_upper_def code_def)
qed

lemma forwarded_last:
  assumes "name \<in> set forwarded_names" and "eq_ignore_ascii_case w name"
  shows "w \<noteq> [] \<and> last w \<in> {CHR ''p'', CHR ''P'', CHR ''r'', CHR ''R''}"
proof -
  have "name \<noteq> []" "to_lower (last name) = CHR ''p'' \<or> to_lower (last name) = CHR ''r''"
    using assms(1) by (auto simp: forwarded_names_def to_lower_pr)
  then show ?thesis
    using eq_ignore_case_last [OF assms(2)] to_lower_pr [of "last w"] by auto
qed

text \<open>The forwarded-for test, which only looks back from colons whose preceding byte can end
  a name, finds exactly the packets that contain one of the three header names, in any case,
  directly followed by a colon.\<close>

theorem forwarded_header_check_is_search:
  "has_forwarded_for_header packet \<longleftrightarrow>
     (\<exists>name \<in> set forwarded_names. \<exists>pre w post. packet = pre @ w @ '':'' @ post \<and> eq_ignore_ascii_case w name)"
proof
  assume "has_forwarded_for_header packet"
  then obtain i name where i: "i < length packet" "packet ! i = CHR '':''" "name \<in> set forwarded_names"
    "length name \<le> i" "eq_ignore_ascii_case (drop (i - length name) (take i packet)) name"
    by (auto simp: has_forwarded_for_header_def list_ex_iff Let_def min_def)
  have "packet = take (i - length name) packet @ drop (i - length name) (take i packet) @ '':'' @ drop (Suc i) packet"
    using i(1,2,4) by (simp add: drop_take id_take_nth_drop [OF i(1), symmetric] Cons_nth_drop_Suc)
      (metis append_take_drop_id Cons_nth_drop_Suc append.assoc diff_le_self take_add le_add_diff_inverse2 add.commute)
  with i(3,5) show "\<exists>name \<in> set forwarded_names. \<exists>pre w post. packet = pre @ w @ '':'' @ post \<and> eq_ignore_ascii_case w name"
    by blast
next
  assume "\<exists>name \<in> set forwarded_names. \<exists>pre w post. packet = pre @ w @ '':'' @ post \<and> eq_ignore_ascii_case w name"
  then obtain name pre w post where p: "name \<in> set forwarded_names" "packet = pre @ w @ '':'' @ post"
    "eq_ignore_ascii_case w name" by blast
  define i where "i = length (pre @ w)"
  have len: "length w = length name"
    using p(3) by (auto simp: eq_ignore_ascii_case_def dest: map_eq_imp_length_eq)
  have "i < length packet" "packet ! i = CHR '':''" "take i packet = pre @ w"
    using p(2) by (simp_all add: i_def nth_append)
  moreover have "w \<noteq> []" "last w \<in> {CHR ''p'', CHR ''P'', CHR ''r'', CHR ''R''}"
    using forwarded_last [OF p(1,3)] by auto
  ultimately show "has_forwarded_for_header packet"
    using p(1,3) len unfolding has_forwarded_for_header_def list_ex_iff
    by (intro bexI [of _ i]) (auto simp: Let_def list_ex_iff intro!: bexI [of _ name])
qed

section \<open>Address prefixes\<close>

lemma strip_no_dot: "CHR ''.'' \<notin> set s \<Longrightarrow> strip_last_two_octets_str s = s"
proof -
  assume no: "CHR ''.'' \<notin> set s"
  define i where "i = back_while is_digit s (length s)"
  have "i \<le> length s" using back_while_spec [of "length s" s is_digit] by (simp add: i_def)
  then have "i \<noteq> 0 \<Longrightarrow> s ! (i - 1) \<in> set s" by simp
  then have "i = 0 \<or> s ! (i - 1) \<noteq> CHR ''.''" using no by auto
  then show ?thesis unfolding strip_last_two_octets_str_def i_def Let_def by auto
qed

lemma strip_quad:
  "strip_last_two_octets_str (p @ ''.'' @ dec a @ ''.'' @ dec b) = p @ ''.''"
proof -
  have nodot: "\<not> is_digit (CHR ''.'')" by (simp add: is_digit_def code_def)
  define q where "q = p @ ''.'' @ dec a @ ''.''"
  have "back_while is_digit (q @ dec b) (length q + length (dec b)) = length q"
    using nodot dec_digits by (intro back_while_whole) (auto simp: q_def)
  moreover have "back_while is_digit ((p @ ''.'') @ dec a @ (''.'' @ dec b)) (length (p @ ''.'') + length (dec a)) =
      length (p @ ''.'')"
    using nodot dec_digits by (intro back_while_append [OF _ _ refl]) auto
  ultimately have *: "back_while is_digit (q @ dec b) (length (q @ dec b)) = length q"
    "back_while is_digit (q @ dec b) (length q - 1) = Suc (length p)"
    by (simp_all add: q_def add.assoc del: back_while.simps)
  have **: "length q \<noteq> length (q @ dec b)" "length q \<noteq> 0" "(q @ dec b) ! (length q - 1) = CHR ''.''"
    "Suc (length p) \<noteq> length q - 1" "take (Suc (length p)) (q @ dec b) = p @ ''.''"
    by (simp_all add: q_def nth_append)
  have "strip_last_two_octets_str (q @ dec b) = p @ ''.''"
    unfolding strip_last_two_octets_str_def Let_def * using ** by simp
  then show ?thesis by (simp add: q_def)
qed

end
