(* ===== verification/Capped.thy ===== *)
theory Capped
  imports Prelude
begin

text \<open>
  The contract of every heuristic accumulator (\<open>heuristics/mod.rs\<close>,
  \<open>HEURISTIC_MAX_KEYS\<close>): keys are chosen by whoever sends the traffic, so their number is
  capped, and the policy at the cap is to refuse a new key, never to evict an old one. The
  accumulators provide the laws for their own step functions, under an invariant of their
  own; that memory stays bounded and that a flood cannot push earlier evidence out follows
  once, here. \<open>dropped e s\<close> are the keys the operation \<open>e\<close> is meant to drop (a window
  reset, a prune, an alert's own key).
\<close>

locale capped_accumulator =
  fixes keys :: "'s \<Rightarrow> 'k set"
    and step :: "'e \<Rightarrow> 's \<Rightarrow> 's"
    and dropped :: "'e \<Rightarrow> 's \<Rightarrow> 'k set"
    and inv :: "'s \<Rightarrow> bool"
    and cap :: nat
  assumes keys_finite: "finite (keys s)"
    and inv_step: "inv s \<Longrightarrow> inv (step e s)"
    and keys_grow: "inv s \<Longrightarrow> card (keys (step e s)) \<le> card (keys s) + 1"
    and keys_refused: "inv s \<Longrightarrow> cap \<le> card (keys s) \<Longrightarrow> keys (step e s) \<subseteq> keys s"
    and keys_kept: "inv s \<Longrightarrow> keys s - dropped e s \<subseteq> keys (step e s)"
begin

lemma step_bounded:
  assumes "inv s" and "card (keys s) \<le> cap"
  shows "card (keys (step e s)) \<le> cap"
proof (cases "cap \<le> card (keys s)")
  case True
  then show ?thesis
    using assms card_mono [OF keys_finite keys_refused, of s e] by simp
next
  case False
  then show ?thesis using keys_grow [OF assms(1), of e] by simp
qed

lemma run_inv: "inv s \<Longrightarrow> inv (fold step es s)"
  by (induction es arbitrary: s) (auto intro: inv_step)

lemma run_bounded: "inv s \<Longrightarrow> card (keys s) \<le> cap \<Longrightarrow> card (keys (fold step es s)) \<le> cap"
  by (induction es arbitrary: s) (auto intro: inv_step step_bounded)

lemma run_keeps:
  "inv s \<Longrightarrow> k \<in> keys s \<Longrightarrow> (\<And>e s. e \<in> set es \<Longrightarrow> k \<notin> dropped e s) \<Longrightarrow> k \<in> keys (fold step es s)"
proof (induction es arbitrary: s)
  case Nil
  then show ?case by simp
next
  case (Cons e es)
  then have "k \<in> keys (step e s)" using keys_kept [of s e] by auto
  with Cons show ?case by (simp add: inv_step)
qed

end

text \<open>The usual shape of a provider: the keys are those of an association list.\<close>

lemma amap_update_card:
  "card (fst ` set (AList.update k v m)) \<le> card (fst ` set m) + 1"
  by (simp add: amap_simps card_insert_if)

lemma amap_card_length: "card (fst ` set m) \<le> length m"
  using card_length [of "map fst m"] by simp

lemma amap_get_keys: "map_of m k \<noteq> None \<longleftrightarrow> k \<in> fst ` set m"
  by (simp add: map_of_eq_None_iff)

lemma amap_set_update: "set (AList.update k v m) \<subseteq> insert (k, v) (set m)"
  by (induction m) auto

lemma amap_get_in: "map_of m k = Some v \<Longrightarrow> k \<in> fst ` set m"
  by (metis amap_get_keys option.distinct(1))

lemma amap_length_card: "distinct (map fst m) \<Longrightarrow> card (fst ` set m) = length m"
  by (metis distinct_card length_map list.set_map)

text \<open>An accumulator that is one hash map: every operation either stores one entry, with a free
  slot if its key is new, or keeps all keys but the dropped ones and adds none.\<close>

locale table_accumulator =
  fixes table :: "'s \<Rightarrow> ('k, 'v) amap"
    and step :: "'e \<Rightarrow> 's \<Rightarrow> 's"
    and dropped :: "'e \<Rightarrow> 's \<Rightarrow> 'k set"
    and inv :: "'s \<Rightarrow> bool"
    and cap :: nat
  assumes table_inv: "inv s \<Longrightarrow> inv (step e s)"
    and table_distinct: "inv s \<Longrightarrow> distinct (map fst (table s))"
    and table_step: "inv s \<Longrightarrow>
      (\<exists>k v. table (step e s) = AList.update k v (table s) \<and>
        (map_of (table s) k = None \<longrightarrow> length (table s) < cap)) \<or>
      fst ` set (table (step e s)) \<subseteq> fst ` set (table s) \<and>
      fst ` set (table s) - dropped e s \<subseteq> fst ` set (table (step e s))"

sublocale table_accumulator \<subseteq> capped_accumulator "\<lambda>s. fst ` set (table s)" step dropped inv cap
proof unfold_locales
  fix s e
  show "finite (fst ` set (table s))" by simp
  assume inv: "inv s"
  then show "inv (step e s)" by (rule table_inv)
  have len: "card (fst ` set (table s)) = length (table s)"
    using table_distinct [OF inv] by (rule amap_length_card)
  show "card (fst ` set (table (step e s))) \<le> card (fst ` set (table s)) + 1"
    using table_step [OF inv, of e]
  proof (elim disjE exE conjE)
    fix k v
    assume "table (step e s) = AList.update k v (table s)"
    then show ?thesis using amap_update_card [of k v "table s"] by simp
  next
    assume "fst ` set (table (step e s)) \<subseteq> fst ` set (table s)"
    then have "card (fst ` set (table (step e s))) \<le> card (fst ` set (table s))"
      by (intro card_mono) simp_all
    then show ?thesis by simp
  qed
  show "cap \<le> card (fst ` set (table s)) \<Longrightarrow> fst ` set (table (step e s)) \<subseteq> fst ` set (table s)"
    using table_step [OF inv, of e] len by (auto simp: amap_simps image_iff dest: amap_get_in)
      (metis (no_types, lifting) amap_get_in amap_update_keys fst_conv imageE image_eqI insert_iff not_None_eq not_le)+
  show "fst ` set (table s) - dropped e s \<subseteq> fst ` set (table (step e s))"
    using table_step [OF inv, of e]
  proof (elim disjE exE conjE)
    fix k v
    assume "table (step e s) = AList.update k v (table s)"
    then show ?thesis by (auto simp: amap_update_keys)
  qed simp
qed

end
