(* ===== verification/Scan.thy ===== *)
theory Scan
  imports Orders Capped "HOL-Library.Multiset"
begin

text \<open>
  \<open>heuristics/scan.rs\<close>: the sliding-window accumulators of the scan heuristics. One bucket of
  distinct items per key, inline up to 12 items and a set beyond; a key is queued for the sweep
  at the insertion that takes it past its threshold; the sweep reads the queue, not the table.
  A hash set is a \<open>set\<close>, a hash map an association list.
\<close>

definition udp_sent_slots :: nat where "udp_sent_slots = 65536"
definition scan_track_per_key :: nat where "scan_track_per_key = 1024"
definition scan_max_keys :: nat where "scan_max_keys = 50000"
definition inline_max :: nat where "inline_max = 12"
definition icmp_tunnel_threshold :: nat where "icmp_tunnel_threshold = 10"

text \<open>A tuple \<open>(sender, port, peer)\<close> hashed field by field; the lowest bit is set, so the
  fingerprint is never that of an empty slot.\<close>

definition sender_fingerprint :: "u64 \<Rightarrow> ip \<Rightarrow> u16 \<Rightarrow> ip \<Rightarrow> u64" where
  "sender_fingerprint seed sender port peer = fx_finish (fx_ip (fx_add (fx_ip seed sender) (ucast port)) peer) OR 1"

record port_detail =
  pd_sec :: nat
  pd_usec :: u32
  pd_src_port :: u16
  pd_dst_port :: u16

record infection_detail =
  if_sec :: nat
  if_usec :: u32
  if_src_port :: u16
  if_dst_ip :: ip

record path_detail =
  pa_sec :: nat
  pa_usec :: u32
  pa_src_port :: u16
  pa_dst_port :: u16

section \<open>The distinct items under a key\<close>

datatype 'a items = Inline nat "'a option list" | Spilled "'a set"

definition items_default :: "'a items" where
  "items_default = Inline 0 (replicate inline_max None)"

fun items_len :: "'a items \<Rightarrow> nat" where
  "items_len (Inline n slots) = n"
| "items_len (Spilled s) = card s"

fun items_contains :: "'a items \<Rightarrow> 'a \<Rightarrow> bool" where
  "items_contains (Inline n slots) x \<longleftrightarrow> Some x \<in> set (take n slots)"
| "items_contains (Spilled s) x \<longleftrightarrow> x \<in> s"

fun items_ordered :: "'a::linorder items \<Rightarrow> 'a list" where
  "items_ordered (Inline n slots) = List.map_filter id (take n slots)"
| "items_ordered (Spilled s) = sorted_list_of_set s"

text \<open>The flag is whether the item was new.\<close>

fun items_insert :: "'a items \<Rightarrow> 'a \<Rightarrow> bool \<times> 'a items" where
  "items_insert (Inline n slots) x =
     (if Some x \<in> set (take n slots) then (False, Inline n slots)
      else if n < inline_max then (True, Inline (Suc n) (slots[n := Some x]))
      else (let s = set (List.map_filter id slots) in (x \<notin> s, Spilled (insert x s))))"
| "items_insert (Spilled s) x = (x \<notin> s, Spilled (insert x s))"

record ('a, 'd) bucket =
  bk_items :: "'a items"
  bk_detail :: "'d option"

definition bucket_default :: "('a, 'd) bucket" where
  "bucket_default = \<lparr>bk_items = items_default, bk_detail = None\<rparr>"

definition insert_and_crossed :: "('a, 'd) bucket \<Rightarrow> 'a \<Rightarrow> nat \<Rightarrow> bool \<times> ('a, 'd) bucket" where
  "insert_and_crossed b x threshold =
     (if items_len (bk_items b) > threshold \<or> items_len (bk_items b) \<ge> scan_track_per_key then (False, b)
      else (let (fresh, items') = items_insert (bk_items b) x; b' = b\<lparr>bk_items := items'\<rparr>
            in if \<not> fresh then (False, b')
               else (items_len items' = threshold + 1, b')))"

section \<open>The state\<close>

datatype prefix_key = PV4 u16 | PV6 u128

fun prefix_of :: "ip \<Rightarrow> prefix_key" where
  "prefix_of (V4 v) = PV4 (ucast (drop_bit 16 v))"
| "prefix_of (V6 v) = PV6 v"

fun prefix_render :: "prefix_key \<Rightarrow> string" where
  "prefix_render (PV4 v) = dec (unat (drop_bit 8 v)) @ ''.'' @ dec (unat (v AND 0xff)) @ ''.''"
| "prefix_render (PV6 v) = ip_render (V6 v)"

record thresholds =
  th_port :: nat
  th_infection :: nat
  th_web :: nat
  th_udp :: nat

record scan_state =
  sc_port :: "(ip \<times> ip, (u16, port_detail) bucket) amap"
  sc_infection :: "(ip \<times> u16, (ip, infection_detail) bucket) amap"
  sc_web :: "(ip \<times> ip, (string, path_detail) bucket) amap"
  sc_udp :: "(ip \<times> ip, (u16, port_detail) bucket) amap"
  sc_udp_sent :: "u64 list"
  sc_icmp :: "(ip \<times> ip, (u64, port_detail) bucket) amap"
  sc_alerted_port :: "(ip \<times> ip) set"
  sc_alerted_infection :: "(ip \<times> u16) set"
  sc_alerted_path :: "(ip \<times> ip) set"
  sc_alerted_udp :: "(ip \<times> ip) set"
  sc_alerted_icmp :: "(ip \<times> ip) set"
  sc_ready_port :: "(ip \<times> ip) list"
  sc_ready_infection :: "(ip \<times> u16) list"
  sc_ready_web :: "(ip \<times> ip) list"
  sc_ready_udp :: "(ip \<times> ip) list"
  sc_ready_icmp :: "(ip \<times> ip) list"
  sc_prefix_counts :: "(prefix_key, nat) amap"
  sc_thresholds :: thresholds
  sc_connect_keys :: nat
  sc_window_start :: nat

definition scan_new :: "thresholds \<Rightarrow> scan_state" where
  "scan_new th = \<lparr>sc_port = [], sc_infection = [], sc_web = [], sc_udp = [],
     sc_udp_sent = replicate udp_sent_slots 0, sc_icmp = [],
     sc_alerted_port = {}, sc_alerted_infection = {}, sc_alerted_path = {}, sc_alerted_udp = {}, sc_alerted_icmp = {},
     sc_ready_port = [], sc_ready_infection = [], sc_ready_web = [], sc_ready_udp = [], sc_ready_icmp = [],
     sc_prefix_counts = [], sc_thresholds = th, sc_connect_keys = 0, sc_window_start = 0\<rparr>"

definition scan_default :: scan_state where
  "scan_default = scan_new \<lparr>th_port = 10, th_infection = 32, th_web = 10, th_udp = 10\<rparr>"

definition note_source :: "ip \<Rightarrow> scan_state \<Rightarrow> scan_state" where
  "note_source src st =
     (let key = prefix_of src; n = case map_of (sc_prefix_counts st) key of None \<Rightarrow> 0 | Some c \<Rightarrow> c
      in st\<lparr>sc_prefix_counts := AList.update key (n + 1) (sc_prefix_counts st)\<rparr>)"

section \<open>Tracking\<close>

text \<open>The two arms every \<open>track_*\<close> function has on its own table: a known key's bucket, where
  the first detail is kept, and a new key's.\<close>

definition known_bucket :: "('a, 'd) bucket \<Rightarrow> 'a \<Rightarrow> nat \<Rightarrow> 'd \<Rightarrow> bool \<times> ('a, 'd) bucket" where
  "known_bucket b x threshold d =
     insert_and_crossed (if bk_detail b = None then b\<lparr>bk_detail := Some d\<rparr> else b) x threshold"

definition fresh_bucket :: "'a \<Rightarrow> 'd \<Rightarrow> ('a, 'd) bucket" where
  "fresh_bucket x d = bucket_default\<lparr>bk_items := snd (items_insert items_default x), bk_detail := Some d\<rparr>"

definition track_port :: "ip \<Rightarrow> ip \<Rightarrow> u16 \<Rightarrow> port_detail \<Rightarrow> scan_state \<Rightarrow> scan_state" where
  "track_port src dst port d st =
     (let threshold = th_port (sc_thresholds st)
      in case map_of (sc_port st) (src, dst) of
           Some b \<Rightarrow>
             (let (crossed, b') = known_bucket b port threshold d;
                  st' = st\<lparr>sc_port := AList.update (src, dst) b' (sc_port st)\<rparr>
              in if crossed then st'\<lparr>sc_ready_port := sc_ready_port st' @ [(src, dst)]\<rparr> else st')
         | None \<Rightarrow>
             if sc_connect_keys st \<ge> scan_max_keys then st
             else (let st' = st\<lparr>sc_connect_keys := sc_connect_keys st + 1,
                                sc_port := AList.update (src, dst) (fresh_bucket port d) (sc_port st)\<rparr>;
                       st'' = if 1 > threshold then st'\<lparr>sc_ready_port := sc_ready_port st' @ [(src, dst)]\<rparr> else st'
                   in note_source src st''))"

definition track_infection :: "ip \<Rightarrow> u16 \<Rightarrow> ip \<Rightarrow> infection_detail \<Rightarrow> scan_state \<Rightarrow> scan_state" where
  "track_infection src dst_port dst d st =
     (let threshold = th_infection (sc_thresholds st)
      in case map_of (sc_infection st) (src, dst_port) of
           Some b \<Rightarrow>
             (let (crossed, b') = known_bucket b dst threshold d;
                  st' = st\<lparr>sc_infection := AList.update (src, dst_port) b' (sc_infection st)\<rparr>
              in if crossed then st'\<lparr>sc_ready_infection := sc_ready_infection st' @ [(src, dst_port)]\<rparr> else st')
         | None \<Rightarrow>
             if sc_connect_keys st \<ge> scan_max_keys then st
             else (let st' = st\<lparr>sc_connect_keys := sc_connect_keys st + 1,
                                sc_infection := AList.update (src, dst_port) (fresh_bucket dst d) (sc_infection st)\<rparr>;
                       st'' = if 1 > threshold
                              then st'\<lparr>sc_ready_infection := sc_ready_infection st' @ [(src, dst_port)]\<rparr> else st'
                   in note_source src st''))"

definition track_path :: "ip \<Rightarrow> ip \<Rightarrow> string \<Rightarrow> path_detail \<Rightarrow> scan_state \<Rightarrow> scan_state" where
  "track_path src dst segment d st =
     (let threshold = th_web (sc_thresholds st)
      in case map_of (sc_web st) (src, dst) of
           Some b0 \<Rightarrow>
             (let b = if bk_detail b0 = None then b0\<lparr>bk_detail := Some d\<rparr> else b0
              in if items_len (bk_items b) \<le> threshold \<and> items_len (bk_items b) < scan_track_per_key
                    \<and> \<not> items_contains (bk_items b) segment
                 then (let b' = b\<lparr>bk_items := snd (items_insert (bk_items b) segment)\<rparr>;
                           st' = st\<lparr>sc_web := AList.update (src, dst) b' (sc_web st)\<rparr>
                       in if items_len (bk_items b') = threshold + 1
                          then st'\<lparr>sc_ready_web := sc_ready_web st' @ [(src, dst)]\<rparr> else st')
                 else st\<lparr>sc_web := AList.update (src, dst) b (sc_web st)\<rparr>)
         | None \<Rightarrow>
             if length (sc_web st) \<ge> scan_max_keys then st
             else (let st' = st\<lparr>sc_web := AList.update (src, dst) (fresh_bucket segment d) (sc_web st)\<rparr>
                   in if 1 > threshold then st'\<lparr>sc_ready_web := sc_ready_web st' @ [(src, dst)]\<rparr> else st'))"

text \<open>A slot of the recent-senders table: the high half of the fingerprint, masked to the table.\<close>

definition sent_slot :: "u64 list \<Rightarrow> u64 \<Rightarrow> nat" where
  "sent_slot slots f = unat (drop_bit 32 f) AND (length slots - 1)"

definition track_udp :: "u64 \<Rightarrow> ip \<Rightarrow> ip \<Rightarrow> u16 \<Rightarrow> port_detail \<Rightarrow> scan_state \<Rightarrow> scan_state" where
  "track_udp seed src dst port d st0 =
     (let sent = sender_fingerprint seed src (pd_src_port d) dst;
          reply = sender_fingerprint seed dst port src;
          slots = (sc_udp_sent st0)[sent_slot (sc_udp_sent st0) sent := sent];
          st = st0\<lparr>sc_udp_sent := slots\<rparr>;
          threshold = th_udp (sc_thresholds st)
      in if slots ! sent_slot slots reply = reply then st
         else case map_of (sc_udp st) (src, dst) of
           Some b \<Rightarrow>
             (let (crossed, b') = known_bucket b port threshold d;
                  st' = st\<lparr>sc_udp := AList.update (src, dst) b' (sc_udp st)\<rparr>
              in if crossed then st'\<lparr>sc_ready_udp := sc_ready_udp st' @ [(src, dst)]\<rparr> else st')
         | None \<Rightarrow>
             if length (sc_udp st) \<ge> scan_max_keys then st
             else (let st' = st\<lparr>sc_udp := AList.update (src, dst) (fresh_bucket port d) (sc_udp st)\<rparr>
                   in if 1 > threshold then st'\<lparr>sc_ready_udp := sc_ready_udp st' @ [(src, dst)]\<rparr> else st'))"

definition track_icmp :: "ip \<Rightarrow> ip \<Rightarrow> u64 \<Rightarrow> port_detail \<Rightarrow> scan_state \<Rightarrow> scan_state" where
  "track_icmp src dst digest d st =
     (case map_of (sc_icmp st) (src, dst) of
        Some b \<Rightarrow>
          (let (crossed, b') = insert_and_crossed b digest icmp_tunnel_threshold;
               st' = st\<lparr>sc_icmp := AList.update (src, dst) b' (sc_icmp st)\<rparr>
           in if crossed then st'\<lparr>sc_ready_icmp := sc_ready_icmp st' @ [(src, dst)]\<rparr> else st')
      | None \<Rightarrow>
          if length (sc_icmp st) \<ge> scan_max_keys then st
          else st\<lparr>sc_icmp := AList.update (src, dst) (fresh_bucket digest d) (sc_icmp st)\<rparr>)"

section \<open>The sweep's side\<close>

text \<open>What the five \<open>*_candidates\<close> functions do with their queue, their alerted set and their
  table: drop the alerted keys from the queue, look the rest up, sort by key.\<close>

definition candidates ::
  "('k::linorder) list \<Rightarrow> 'k set \<Rightarrow> ('k, ('a, 'd) bucket) amap \<Rightarrow> 'k list \<times> ('k \<times> 'd) list" where
  "candidates ready alerted m =
     (let queue = filter (\<lambda>k. k \<notin> alerted) ready
      in (queue, sort_key fst (List.map_filter
            (\<lambda>k. map_option (Pair k) (Option.bind (map_of m k) bk_detail)) queue)))"

definition port_scan_candidates :: "scan_state \<Rightarrow> scan_state \<times> ((ip \<times> ip) \<times> port_detail) list" where
  "port_scan_candidates st =
     (let (q, out) = candidates (sc_ready_port st) (sc_alerted_port st) (sc_port st)
      in (st\<lparr>sc_ready_port := q\<rparr>, out))"

definition infection_candidates :: "scan_state \<Rightarrow> scan_state \<times> ((ip \<times> u16) \<times> infection_detail) list" where
  "infection_candidates st =
     (let (q, out) = candidates (sc_ready_infection st) (sc_alerted_infection st) (sc_infection st)
      in (st\<lparr>sc_ready_infection := q\<rparr>, out))"

definition web_scan_candidates :: "scan_state \<Rightarrow> scan_state \<times> ((ip \<times> ip) \<times> path_detail) list" where
  "web_scan_candidates st =
     (let (q, out) = candidates (sc_ready_web st) (sc_alerted_path st) (sc_web st)
      in (st\<lparr>sc_ready_web := q\<rparr>, out))"

definition udp_scan_candidates :: "scan_state \<Rightarrow> scan_state \<times> ((ip \<times> ip) \<times> port_detail) list" where
  "udp_scan_candidates st =
     (let (q, out) = candidates (sc_ready_udp st) (sc_alerted_udp st) (sc_udp st)
      in (st\<lparr>sc_ready_udp := q\<rparr>, out))"

definition icmp_tunnel_candidates :: "scan_state \<Rightarrow> scan_state \<times> ((ip \<times> ip) \<times> port_detail) list" where
  "icmp_tunnel_candidates st =
     (let (q, out) = candidates (sc_ready_icmp st) (sc_alerted_icmp st) (sc_icmp st)
      in (st\<lparr>sc_ready_icmp := q\<rparr>, out))"

text \<open>The text of a segment up to its 40th character, by character boundaries.\<close>

definition scan_clip :: nat where "scan_clip = 40"

definition clip_segment :: "string \<Rightarrow> string" where
  "clip_segment s =
     (let starts = filter (\<lambda>i. \<not> cont (s ! i)) [0..<length s]
      in case b_at starts scan_clip of
           Some i \<Rightarrow> ''/'' @ take i s @ ''...''
         | None \<Rightarrow> ''/'' @ s)"

definition scanned_paths :: "scan_state \<Rightarrow> ip \<Rightarrow> ip \<Rightarrow> string" where
  "scanned_paths st src dst =
     (let items = case map_of (sc_web st) (src, dst) of None \<Rightarrow> [] | Some b \<Rightarrow> items_ordered (bk_items b);
          paths = map clip_segment items
      in if paths = [] then ''*'' else join '', '' paths)"

definition mark_port_alerted :: "ip \<Rightarrow> ip \<Rightarrow> scan_state \<Rightarrow> scan_state" where
  "mark_port_alerted src dst st = st\<lparr>sc_alerted_port := insert (src, dst) (sc_alerted_port st)\<rparr>"

definition mark_infection_alerted :: "ip \<Rightarrow> u16 \<Rightarrow> scan_state \<Rightarrow> scan_state" where
  "mark_infection_alerted src port st = st\<lparr>sc_alerted_infection := insert (src, port) (sc_alerted_infection st)\<rparr>"

definition mark_path_alerted :: "ip \<Rightarrow> ip \<Rightarrow> scan_state \<Rightarrow> scan_state" where
  "mark_path_alerted src dst st = st\<lparr>sc_alerted_path := insert (src, dst) (sc_alerted_path st)\<rparr>"

definition mark_udp_alerted :: "ip \<Rightarrow> ip \<Rightarrow> scan_state \<Rightarrow> scan_state" where
  "mark_udp_alerted src dst st = st\<lparr>sc_alerted_udp := insert (src, dst) (sc_alerted_udp st)\<rparr>"

definition mark_icmp_alerted :: "ip \<Rightarrow> ip \<Rightarrow> scan_state \<Rightarrow> scan_state" where
  "mark_icmp_alerted src dst st = st\<lparr>sc_alerted_icmp := insert (src, dst) (sc_alerted_icmp st)\<rparr>"

definition scan_local_prefix :: "scan_state \<Rightarrow> string option" where
  "scan_local_prefix st =
     (case max_by (\<lambda>(key, n). (n, key)) (map (\<lambda>(key, n). (prefix_render key, n)) (sc_prefix_counts st)) of
        Some (key, n) \<Rightarrow> if key = [] then None else Some key
      | None \<Rightarrow> None)"

definition clear_window :: "nat \<Rightarrow> scan_state \<Rightarrow> scan_state" where
  "clear_window sec st = st\<lparr>sc_port := [], sc_infection := [], sc_web := [], sc_udp := [], sc_icmp := [],
     sc_alerted_port := {}, sc_alerted_infection := {}, sc_alerted_path := {}, sc_alerted_udp := {},
     sc_alerted_icmp := {}, sc_ready_port := [], sc_ready_infection := [], sc_ready_web := [],
     sc_ready_udp := [], sc_ready_icmp := [], sc_prefix_counts := [], sc_connect_keys := 0,
     sc_window_start := sec\<rparr>"

definition scan_key_count :: "scan_state \<Rightarrow> nat" where
  "scan_key_count st = sc_connect_keys st + length (sc_web st) + length (sc_udp st) + length (sc_icmp st)"

section \<open>Items are a set\<close>

fun items_set :: "'a items \<Rightarrow> 'a set" where
  "items_set (Inline n slots) = {x. Some x \<in> set (take n slots)}"
| "items_set (Spilled s) = s"

fun items_inv :: "'a items \<Rightarrow> bool" where
  "items_inv (Inline n slots) \<longleftrightarrow>
     length slots = inline_max \<and> n \<le> inline_max \<and> None \<notin> set (take n slots) \<and> distinct (take n slots)"
| "items_inv (Spilled s) \<longleftrightarrow> finite s"

lemma items_default_inv [inv_intros]: "items_inv items_default"
  by (simp add: items_default_def)

lemma items_default_set [simp]: "items_set items_default = {}"
  by (simp add: items_default_def)

lemma the_some_image: "None \<notin> A \<Longrightarrow> Some ` {x. Some x \<in> A} = A"
  by (auto simp: image_iff) (metis not_None_eq)

lemma items_len_card: "items_inv it \<Longrightarrow> items_len it = card (items_set it)"
proof (cases it)
  case (Inline n slots)
  assume inv: "items_inv it"
  have "card {x. Some x \<in> set (take n slots)} = card (Some ` {x. Some x \<in> set (take n slots)})"
    by (simp add: card_image)
  also have "\<dots> = card (set (take n slots))"
    using inv Inline by (simp add: the_some_image)
  also have "\<dots> = n"
    using inv Inline by (simp add: distinct_card)
  finally show ?thesis using Inline by simp
qed simp

lemma items_set_finite: "items_inv it \<Longrightarrow> finite (items_set it)"
proof (cases it)
  case (Inline n slots)
  have "finite (Some ` {x. Some x \<in> set (take n slots)})"
    by (rule finite_subset [of _ "set (take n slots)"]) auto
  then show ?thesis using Inline by (simp add: finite_image_iff)
qed simp

lemma items_contains_iff: "items_contains it x \<longleftrightarrow> x \<in> items_set it"
  by (cases it) auto

lemma map_filter_id_set: "set (List.map_filter id xs) = {x. Some x \<in> set xs}"
  by (auto simp: List.map_filter_def image_iff) (metis option.sel option.discI)

lemma items_insert_set:
  assumes "items_inv it"
  shows "fst (items_insert it x) \<longleftrightarrow> x \<notin> items_set it"
    and "items_set (snd (items_insert it x)) = insert x (items_set it)"
    and "items_inv (snd (items_insert it x))"
proof -
  have "(fst (items_insert it x) \<longleftrightarrow> x \<notin> items_set it) \<and>
    items_set (snd (items_insert it x)) = insert x (items_set it) \<and> items_inv (snd (items_insert it x))"
  proof (cases it)
    case (Inline n slots)
    show ?thesis
    proof (cases "Some x \<in> set (take n slots)")
      case True
      then show ?thesis using Inline assms by auto
    next
      case new: False
      show ?thesis
      proof (cases "n < inline_max")
        case True
        then have "take (Suc n) (slots[n := Some x]) = take n slots @ [Some x]"
          using assms Inline by (simp add: take_Suc_conv_app_nth)
        then show ?thesis using Inline assms new True by auto
      next
        case False
        then have "take n slots = slots" using assms Inline by simp
        moreover have "finite (set (List.map_filter id slots))" by simp
        ultimately show ?thesis using Inline assms new False
          by (simp add: Let_def map_filter_id_set)
      qed
    qed
  next
    case (Spilled s)
    then show ?thesis using assms by auto
  qed
  then show "fst (items_insert it x) \<longleftrightarrow> x \<notin> items_set it"
    and "items_set (snd (items_insert it x)) = insert x (items_set it)"
    and "items_inv (snd (items_insert it x))" by auto
qed

lemma items_ordered_set: "items_inv it \<Longrightarrow> set (items_ordered it) = items_set it"
  by (cases it) (auto simp: map_filter_id_set)

lemma map_filter_id_distinct: "distinct xs \<Longrightarrow> distinct (List.map_filter id xs)"
  by (induction xs) (auto simp: map_filter_simps map_filter_id_set split: option.splits)

lemma items_ordered_distinct: "items_inv it \<Longrightarrow> distinct (items_ordered it)"
  by (cases it) (auto simp: map_filter_id_distinct)

section \<open>One insertion\<close>

text \<open>What a bucket holds of the items its key has touched: all of them up to the threshold,
  and one past it from then on.\<close>

definition tracks :: "nat \<Rightarrow> 'a items \<Rightarrow> 'a set \<Rightarrow> bool" where
  "tracks t it seen \<longleftrightarrow> items_inv it \<and> finite seen \<and> items_set it \<subseteq> seen \<and>
     (if card seen \<le> t then items_set it = seen else card (items_set it) = t + 1)"

lemma tracks_crossed: "tracks t it seen \<Longrightarrow> t < items_len it \<longleftrightarrow> t < card seen"
  by (auto simp: tracks_def items_len_card split: if_splits)

lemma tracks_bound: "tracks t it seen \<Longrightarrow> items_len it \<le> t + 1"
  by (auto simp: tracks_def items_len_card split: if_splits)

lemma tracks_insert:
  assumes "tracks t it seen" and "items_len it \<le> t"
  shows "tracks t (snd (items_insert it x)) (insert x seen)"
proof -
  have *: "items_inv it" "finite seen" "items_set it = seen" "card seen \<le> t"
    using assms by (auto simp: tracks_def items_len_card split: if_splits)
  then have "card (insert x seen) \<le> t + 1" by (simp add: card_insert_if)
  then show ?thesis
    using * items_insert_set [OF *(1), of x] by (auto simp: tracks_def)
qed

lemma tracks_more: "tracks t it seen \<Longrightarrow> t < items_len it \<Longrightarrow> tracks t it (insert x seen)"
  by (auto simp: tracks_def items_len_card card_insert_if split: if_splits)

lemma insert_and_crossed_spec:
  assumes "tracks t (bk_items b) seen" and "t < scan_track_per_key"
    and "insert_and_crossed b x t = (c, b')"
  shows "tracks t (bk_items b') (insert x seen) \<and> bk_detail b' = bk_detail b \<and>
    (c \<longleftrightarrow> items_len (bk_items b) \<le> t \<and> t < items_len (bk_items b'))"
proof (cases "items_len (bk_items b) \<le> t")
  case False
  then show ?thesis
    using assms tracks_more [OF assms(1)] by (auto simp: insert_and_crossed_def)
next
  case True
  have inv: "items_inv (bk_items b)" using assms(1) by (simp add: tracks_def)
  note ins = items_insert_set [OF inv, of x]
  have "tracks t (snd (items_insert (bk_items b) x)) (insert x seen)"
    by (rule tracks_insert [OF assms(1) True])
  moreover have "\<not> fst (items_insert (bk_items b) x) \<Longrightarrow> items_len (snd (items_insert (bk_items b) x)) \<le> t"
    using True ins inv by (auto simp: items_len_card insert_absorb)
  moreover have "items_len (snd (items_insert (bk_items b) x)) \<le> t + 1"
    using calculation(1) by (rule tracks_bound)
  ultimately show ?thesis
    using assms(2,3) True
    by (auto simp: insert_and_crossed_def Let_def case_prod_beta split: if_splits)
qed

lemma known_bucket_spec:
  assumes "tracks t (bk_items b) seen" and "t < scan_track_per_key" and "bk_detail b \<noteq> None"
    and "known_bucket b x t d = (c, b')"
  shows "tracks t (bk_items b') (insert x seen) \<and> bk_detail b' = bk_detail b \<and>
    (c \<longleftrightarrow> items_len (bk_items b) \<le> t \<and> t < items_len (bk_items b'))"
proof -
  have "insert_and_crossed b x t = (c, b')"
    using assms(3,4) by (cases "bk_detail b") (simp_all add: known_bucket_def)
  from insert_and_crossed_spec [OF assms(1,2) this] show ?thesis .
qed

lemma fresh_bucket_spec:
  "tracks t (bk_items (fresh_bucket x d)) {x} \<and> bk_detail (fresh_bucket x d) = Some d \<and>
   items_len (bk_items (fresh_bucket x d)) = 1"
proof -
  have "items_inv (snd (items_insert (items_default :: 'a items) x))"
    and "items_set (snd (items_insert (items_default :: 'a items) x)) = {x}"
    using items_insert_set [OF items_default_inv, of x] by auto
  then show ?thesis by (auto simp: fresh_bucket_def tracks_def items_len_card)
qed

section \<open>A table and its queue\<close>

text \<open>\<open>seen k\<close> is the set of items key \<open>k\<close> has touched in this window. The table has a bucket
  for every such key; the queue holds, once each, keys past the threshold, and all of those
  the sweep has not reported.\<close>

fun entry_ok :: "nat \<Rightarrow> ('a, 'd) bucket option \<Rightarrow> bool \<Rightarrow> bool \<Rightarrow> 'a set \<Rightarrow> bool" where
  "entry_ok t None queued alerted seen \<longleftrightarrow> seen = {} \<and> \<not> queued"
| "entry_ok t (Some b) queued alerted seen \<longleftrightarrow>
     seen \<noteq> {} \<and> tracks t (bk_items b) seen \<and> bk_detail b \<noteq> None \<and>
     (queued \<longrightarrow> t < card seen) \<and> (t < card seen \<and> \<not> alerted \<longrightarrow> queued)"

definition table_ok ::
  "nat \<Rightarrow> ('k, ('a, 'd) bucket) amap \<Rightarrow> 'k list \<Rightarrow> 'k set \<Rightarrow> ('k \<Rightarrow> 'a set) \<Rightarrow> bool" where
  "table_ok t m ready alerted seen \<longleftrightarrow>
     distinct (map fst m) \<and> distinct ready \<and>
     (\<forall>k. entry_ok t (map_of m k) (k \<in> set ready) (k \<in> alerted) (seen k))"

lemma table_ok_entry:
  "table_ok t m ready alerted seen \<Longrightarrow> entry_ok t (map_of m k) (k \<in> set ready) (k \<in> alerted) (seen k)"
  by (simp add: table_ok_def)

lemma table_ok_empty [inv_intros]: "table_ok t [] [] alerted (\<lambda>_. {})"
  by (simp add: table_ok_def)

lemma entry_ok_weaken: "entry_ok t ob q al seen \<Longrightarrow> al \<longrightarrow> al' \<Longrightarrow> entry_ok t ob q al' seen"
  by (cases ob) auto

lemma entry_ok_unqueue: "entry_ok t ob q True seen \<Longrightarrow> entry_ok t ob False True seen"
  by (cases ob) auto

lemma table_ok_alerted: "table_ok t m ready alerted seen \<Longrightarrow> table_ok t m ready (insert k alerted) seen"
  by (auto simp: table_ok_def simp del: entry_ok.simps intro: entry_ok_weaken)

lemma table_ok_retain:
  assumes "table_ok t m ready alerted seen"
  shows "table_ok t m (filter (\<lambda>k. k \<notin> alerted) ready) alerted seen"
proof -
  have "entry_ok t (map_of m k) (k \<in> set ready \<and> k \<notin> alerted) (k \<in> alerted) (seen k)" for k
  proof (cases "k \<in> alerted")
    case True
    then show ?thesis
      using table_ok_entry [OF assms, of k] entry_ok_unqueue by metis
  next
    case False
    then show ?thesis using table_ok_entry [OF assms, of k] by (simp only: simp_thms)
  qed
  then show ?thesis using assms by (simp add: table_ok_def)
qed

lemma table_ok_known:
  assumes ok: "table_ok t m ready alerted seen"
    and b: "map_of m k = Some b" and tr: "tracks t (bk_items b') (insert x (seen k))"
    and d: "bk_detail b' \<noteq> None"
    and c: "c \<longleftrightarrow> items_len (bk_items b) \<le> t \<and> t < items_len (bk_items b')"
  shows "table_ok t (AList.update k b' m) (if c then ready @ [k] else ready) alerted
    (seen(k := insert x (seen k)))"
proof -
  have e: "entry_ok t (Some b) (k \<in> set ready) (k \<in> alerted) (seen k)"
    using table_ok_entry [OF ok, of k] b by simp
  then have "tracks t (bk_items b) (seen k)" by simp
  note l = tracks_crossed [OF this] tracks_crossed [OF tr]
  have "finite (seen k)" using e by (simp add: tracks_def)
  then have mono: "t < card (seen k) \<Longrightarrow> t < card (insert x (seen k))"
    by (simp add: card_insert_if)
  have "distinct (if c then ready @ [k] else ready)"
    using ok c l e by (auto simp: table_ok_def)
  moreover have "entry_ok t (Some b') (k \<in> set (if c then ready @ [k] else ready)) (k \<in> alerted) (insert x (seen k))"
    using e tr d c l mono by auto
  ultimately show ?thesis
    using ok by (auto simp: table_ok_def distinct_update amap_simps)
qed

lemma table_ok_fresh:
  assumes ok: "table_ok t m ready alerted seen" and b: "map_of m k = None"
  shows "table_ok t (AList.update k (fresh_bucket x d) m) (if 1 > t then ready @ [k] else ready) alerted
    (seen(k := insert x (seen k)))"
proof -
  have "entry_ok t None (k \<in> set ready) (k \<in> alerted) (seen k)"
    using table_ok_entry [OF ok, of k] b by simp
  then have k: "seen k = {}" "k \<notin> set ready" by auto
  have "entry_ok t (Some (fresh_bucket x d)) (k \<in> set (if 1 > t then ready @ [k] else ready)) (k \<in> alerted) {x}"
    using fresh_bucket_spec [of t x d] k by auto
  moreover have "distinct (if 1 > t then ready @ [k] else ready)"
    using ok k by (simp add: table_ok_def)
  ultimately show ?thesis
    using ok k by (auto simp: table_ok_def distinct_update amap_simps simp del: entry_ok.simps)
qed

lemma candidates_exact:
  assumes ok: "table_ok t m ready alerted seen"
  shows "set (map fst (snd (candidates ready alerted m))) = {k. t < card (seen k) \<and> k \<notin> alerted}"
    and "distinct (map fst (snd (candidates ready alerted m)))"
    and "sorted (map fst (snd (candidates ready alerted m)))"
proof -
  define queue where "queue = filter (\<lambda>k. k \<notin> alerted) ready"
  define detail where "detail k = the (bk_detail (the (map_of m k)))" for k
  have e: "entry_ok t (map_of m k) (k \<in> set ready) (k \<in> alerted) (seen k)" for k
    using ok by (simp add: table_ok_def)
  have q: "k \<in> set queue \<longleftrightarrow> t < card (seen k) \<and> k \<notin> alerted" for k
    using e [of k] by (cases "map_of m k") (auto simp: queue_def)
  have "map_option (Pair k) (Option.bind (map_of m k) bk_detail) = Some (k, detail k)" if "k \<in> set queue" for k
    using e [of k] that by (cases "map_of m k") (auto simp: queue_def detail_def)
  then have "List.map_filter (\<lambda>k. map_option (Pair k) (Option.bind (map_of m k) bk_detail)) queue
      = map (\<lambda>k. (k, detail k)) queue"
    by (induction queue) (auto simp: map_filter_simps)
  then have c: "snd (candidates ready alerted m) = sort_key fst (map (\<lambda>k. (k, detail k)) queue)"
    by (simp add: candidates_def queue_def Let_def)
  have "map fst (sort_key fst (map (\<lambda>k. (k, detail k)) queue)) = sort queue"
    by (rule properties_for_sort [symmetric]) (auto simp: comp_def image_mset.compositionality)
  then have *: "map fst (snd (candidates ready alerted m)) = sort queue"
    using c by simp
  show "set (map fst (snd (candidates ready alerted m))) = {k. t < card (seen k) \<and> k \<notin> alerted}"
    unfolding * using q by auto
  show "distinct (map fst (snd (candidates ready alerted m)))"
    unfolding * using ok by (simp add: queue_def table_ok_def)
  show "sorted (map fst (snd (candidates ready alerted m)))"
    unfolding * by simp
qed

section \<open>Runs\<close>

text \<open>The calls the packet path and the sweep make on the state, as events.\<close>

datatype scan_event =
    SynTo ip ip u16 port_detail
  | ConnectTo ip u16 ip infection_detail
  | PathTo ip ip string path_detail
  | UdpTo ip ip u16 port_detail
  | EchoTo ip ip u64 port_detail
  | SweepPort | SweepInfection | SweepWeb | SweepUdp | SweepIcmp
  | MarkPort ip ip | MarkInfection ip u16 | MarkPath ip ip | MarkUdp ip ip | MarkIcmp ip ip
  | ClearWindow nat

fun scan_step :: "u64 \<Rightarrow> scan_event \<Rightarrow> scan_state \<Rightarrow> scan_state" where
  "scan_step seed (SynTo src dst port d) st = track_port src dst port d st"
| "scan_step seed (ConnectTo src port dst d) st = track_infection src port dst d st"
| "scan_step seed (PathTo src dst segment d) st = track_path src dst segment d st"
| "scan_step seed (UdpTo src dst port d) st = track_udp seed src dst port d st"
| "scan_step seed (EchoTo src dst digest d) st = track_icmp src dst digest d st"
| "scan_step seed SweepPort st = fst (port_scan_candidates st)"
| "scan_step seed SweepInfection st = fst (infection_candidates st)"
| "scan_step seed SweepWeb st = fst (web_scan_candidates st)"
| "scan_step seed SweepUdp st = fst (udp_scan_candidates st)"
| "scan_step seed SweepIcmp st = fst (icmp_tunnel_candidates st)"
| "scan_step seed (MarkPort src dst) st = mark_port_alerted src dst st"
| "scan_step seed (MarkInfection src port) st = mark_infection_alerted src port st"
| "scan_step seed (MarkPath src dst) st = mark_path_alerted src dst st"
| "scan_step seed (MarkUdp src dst) st = mark_udp_alerted src dst st"
| "scan_step seed (MarkIcmp src dst) st = mark_icmp_alerted src dst st"
| "scan_step seed (ClearWindow sec) st = clear_window sec st"

definition is_clear :: "scan_event \<Rightarrow> bool" where
  "is_clear e \<longleftrightarrow> (\<exists>sec. e = ClearWindow sec)"

lemmas scan_ops = track_port_def track_infection_def track_path_def track_udp_def track_icmp_def
  port_scan_candidates_def infection_candidates_def web_scan_candidates_def udp_scan_candidates_def
  icmp_tunnel_candidates_def candidates_def mark_port_alerted_def mark_infection_alerted_def
  mark_path_alerted_def mark_udp_alerted_def mark_icmp_alerted_def clear_window_def note_source_def

subsection \<open>The key budget\<close>

definition connect_table_keys :: "scan_state \<Rightarrow> ((ip \<times> ip) + (ip \<times> u16)) set" where
  "connect_table_keys st = Inl ` fst ` set (sc_port st) \<union> Inr ` fst ` set (sc_infection st)"

definition scan_inv :: "scan_state \<Rightarrow> bool" where
  "scan_inv st \<longleftrightarrow> distinct (map fst (sc_port st)) \<and> distinct (map fst (sc_infection st)) \<and>
     distinct (map fst (sc_web st)) \<and> distinct (map fst (sc_udp st)) \<and> distinct (map fst (sc_icmp st)) \<and>
     sc_connect_keys st = length (sc_port st) + length (sc_infection st)"

lemma connect_keys_card:
  assumes "scan_inv st"
  shows "card (connect_table_keys st) = sc_connect_keys st"
proof -
  have "card (connect_table_keys st) = card (fst ` set (sc_port st)) + card (fst ` set (sc_infection st))"
    unfolding connect_table_keys_def
    by (subst card_Un_disjoint) (auto simp: card_image)
  also have "\<dots> = length (sc_port st) + length (sc_infection st)"
    using assms by (metis scan_inv_def distinct_card length_map list.set_map)
  finally show ?thesis using assms by (simp add: scan_inv_def)
qed

lemma scan_inv_step [inv_intros]:
  assumes "scan_inv st"
  shows "scan_inv (scan_step seed e st)"
  using assms
  by (cases e) (auto simp: scan_inv_def scan_ops Let_def amap_simps distinct_update split: option.splits prod.splits)

definition scan_dropped :: "scan_event \<Rightarrow> scan_state \<Rightarrow> 'k set" where
  "scan_dropped e st = (if is_clear e then UNIV else {})"

lemma connect_step:
  shows "sc_connect_keys (scan_step seed e st) \<le> sc_connect_keys st + 1"
    and "scan_max_keys \<le> sc_connect_keys st \<Longrightarrow>
      connect_table_keys (scan_step seed e st) \<subseteq> connect_table_keys st"
    and "\<not> is_clear e \<Longrightarrow> connect_table_keys st \<subseteq> connect_table_keys (scan_step seed e st)"
  by (cases e; auto simp: scan_ops Let_def connect_table_keys_def is_clear_def amap_simps
        dest!: amap_get_in split: option.splits prod.splits)+

interpretation connect: capped_accumulator connect_table_keys "scan_step seed" scan_dropped scan_inv scan_max_keys
proof unfold_locales
  fix st e
  show "finite (connect_table_keys st)" by (simp add: connect_table_keys_def)
  assume inv: "scan_inv st"
  then show inv': "scan_inv (scan_step seed e st)" by (rule scan_inv_step)
  show "card (connect_table_keys (scan_step seed e st)) \<le> card (connect_table_keys st) + 1"
    unfolding connect_keys_card [OF inv] connect_keys_card [OF inv'] by (rule connect_step)
  show "scan_max_keys \<le> card (connect_table_keys st) \<Longrightarrow>
      connect_table_keys (scan_step seed e st) \<subseteq> connect_table_keys st"
    unfolding connect_keys_card [OF inv] by (rule connect_step)
  show "connect_table_keys st - scan_dropped e st \<subseteq> connect_table_keys (scan_step seed e st)"
    using connect_step(3) [of e st seed] by (auto simp: scan_dropped_def)
qed

definition web_keys :: "scan_state \<Rightarrow> (ip \<times> ip) set" where "web_keys st = fst ` set (sc_web st)"
definition udp_keys :: "scan_state \<Rightarrow> (ip \<times> ip) set" where "udp_keys st = fst ` set (sc_udp st)"
definition icmp_keys :: "scan_state \<Rightarrow> (ip \<times> ip) set" where "icmp_keys st = fst ` set (sc_icmp st)"

lemmas table_keys = web_keys_def udp_keys_def icmp_keys_def

lemma table_keys_card:
  assumes "scan_inv st"
  shows "card (web_keys st) = length (sc_web st)" and "card (udp_keys st) = length (sc_udp st)"
    and "card (icmp_keys st) = length (sc_icmp st)"
  using assms by (auto simp: scan_inv_def table_keys) (metis distinct_card length_map list.set_map)+

lemma web_step:
  shows "length (sc_web (scan_step seed e st)) \<le> length (sc_web st) + 1"
    and "scan_max_keys \<le> length (sc_web st) \<Longrightarrow> web_keys (scan_step seed e st) \<subseteq> web_keys st"
    and "\<not> is_clear e \<Longrightarrow> web_keys st \<subseteq> web_keys (scan_step seed e st)"
  by (cases e; auto simp: scan_ops Let_def web_keys_def is_clear_def amap_simps
        dest!: amap_get_in split: option.splits prod.splits)+

lemma udp_step:
  shows "length (sc_udp (scan_step seed e st)) \<le> length (sc_udp st) + 1"
    and "scan_max_keys \<le> length (sc_udp st) \<Longrightarrow> udp_keys (scan_step seed e st) \<subseteq> udp_keys st"
    and "\<not> is_clear e \<Longrightarrow> udp_keys st \<subseteq> udp_keys (scan_step seed e st)"
  by (cases e; auto simp: scan_ops Let_def udp_keys_def is_clear_def amap_simps
        dest!: amap_get_in split: option.splits prod.splits)+

lemma icmp_step:
  shows "length (sc_icmp (scan_step seed e st)) \<le> length (sc_icmp st) + 1"
    and "scan_max_keys \<le> length (sc_icmp st) \<Longrightarrow> icmp_keys (scan_step seed e st) \<subseteq> icmp_keys st"
    and "\<not> is_clear e \<Longrightarrow> icmp_keys st \<subseteq> icmp_keys (scan_step seed e st)"
  by (cases e; auto simp: scan_ops Let_def icmp_keys_def is_clear_def amap_simps
        dest!: amap_get_in split: option.splits prod.splits)+

lemmas scan_step_laws = connect_step web_step udp_step icmp_step

interpretation web: capped_accumulator web_keys "scan_step seed" scan_dropped scan_inv scan_max_keys
proof unfold_locales
  fix st e
  show "finite (web_keys st)" by (simp add: web_keys_def)
  assume inv: "scan_inv st"
  then show inv': "scan_inv (scan_step seed e st)" by (rule scan_inv_step)
  show "card (web_keys (scan_step seed e st)) \<le> card (web_keys st) + 1"
    unfolding table_keys_card [OF inv] table_keys_card [OF inv'] by (rule web_step)
  show "scan_max_keys \<le> card (web_keys st) \<Longrightarrow> web_keys (scan_step seed e st) \<subseteq> web_keys st"
    unfolding table_keys_card [OF inv] by (rule web_step)
  show "web_keys st - scan_dropped e st \<subseteq> web_keys (scan_step seed e st)"
    using web_step(3) [of e st seed] by (auto simp: scan_dropped_def)
qed

interpretation udp: capped_accumulator udp_keys "scan_step seed" scan_dropped scan_inv scan_max_keys
proof unfold_locales
  fix st e
  show "finite (udp_keys st)" by (simp add: udp_keys_def)
  assume inv: "scan_inv st"
  then show inv': "scan_inv (scan_step seed e st)" by (rule scan_inv_step)
  show "card (udp_keys (scan_step seed e st)) \<le> card (udp_keys st) + 1"
    unfolding table_keys_card [OF inv] table_keys_card [OF inv'] by (rule udp_step)
  show "scan_max_keys \<le> card (udp_keys st) \<Longrightarrow> udp_keys (scan_step seed e st) \<subseteq> udp_keys st"
    unfolding table_keys_card [OF inv] by (rule udp_step)
  show "udp_keys st - scan_dropped e st \<subseteq> udp_keys (scan_step seed e st)"
    using udp_step(3) [of e st seed] by (auto simp: scan_dropped_def)
qed

interpretation icmp: capped_accumulator icmp_keys "scan_step seed" scan_dropped scan_inv scan_max_keys
proof unfold_locales
  fix st e
  show "finite (icmp_keys st)" by (simp add: icmp_keys_def)
  assume inv: "scan_inv st"
  then show inv': "scan_inv (scan_step seed e st)" by (rule scan_inv_step)
  show "card (icmp_keys (scan_step seed e st)) \<le> card (icmp_keys st) + 1"
    unfolding table_keys_card [OF inv] table_keys_card [OF inv'] by (rule icmp_step)
  show "scan_max_keys \<le> card (icmp_keys st) \<Longrightarrow> icmp_keys (scan_step seed e st) \<subseteq> icmp_keys st"
    unfolding table_keys_card [OF inv] by (rule icmp_step)
  show "icmp_keys st - scan_dropped e st \<subseteq> icmp_keys (scan_step seed e st)"
    using icmp_step(3) [of e st seed] by (auto simp: scan_dropped_def)
qed

lemma scan_inv_new [inv_intros]: "scan_inv (scan_new th)"
  by (simp add: scan_inv_def scan_new_def)

text \<open>Whatever packets arrive, the scan state never holds more than the 50,000 keys of its
  shared connection budget and 50,000 keys in each other table, so a flood of addresses has
  bounded memory.\<close>

theorem scan_memory_is_bounded:
  "let st = fold (scan_step seed) evs (scan_new th)
   in length (sc_port st) + length (sc_infection st) \<le> scan_max_keys \<and>
      length (sc_web st) \<le> scan_max_keys \<and> length (sc_udp st) \<le> scan_max_keys \<and>
      length (sc_icmp st) \<le> scan_max_keys \<and> scan_key_count st \<le> 4 * scan_max_keys"
proof -
  define st where "st = fold (scan_step seed) evs (scan_new th)"
  have inv: "scan_inv st" unfolding st_def by (rule connect.run_inv [OF scan_inv_new])
  have "card (connect_table_keys st) \<le> scan_max_keys" unfolding st_def
    by (rule connect.run_bounded [OF scan_inv_new]) (simp add: connect_table_keys_def scan_new_def)
  moreover have "card (web_keys st) \<le> scan_max_keys" unfolding st_def
    by (rule web.run_bounded [OF scan_inv_new]) (simp add: web_keys_def scan_new_def)
  moreover have "card (udp_keys st) \<le> scan_max_keys" unfolding st_def
    by (rule udp.run_bounded [OF scan_inv_new]) (simp add: udp_keys_def scan_new_def)
  moreover have "card (icmp_keys st) \<le> scan_max_keys" unfolding st_def
    by (rule icmp.run_bounded [OF scan_inv_new]) (simp add: icmp_keys_def scan_new_def)
  ultimately show ?thesis
    using inv by (simp add: table_keys_card connect_keys_card scan_key_count_def scan_inv_def Let_def flip: st_def)
qed

subsection \<open>Evidence is kept\<close>

definition syn_ports :: "scan_event list \<Rightarrow> ip \<times> ip \<Rightarrow> u16 set" where
  "syn_ports evs k = {p. \<exists>d. SynTo (fst k) (snd k) p d \<in> set evs}"

definition infection_hosts :: "scan_event list \<Rightarrow> ip \<times> u16 \<Rightarrow> ip set" where
  "infection_hosts evs k = {dst. \<exists>d. ConnectTo (fst k) (snd k) dst d \<in> set evs}"

definition web_segments :: "scan_event list \<Rightarrow> ip \<times> ip \<Rightarrow> string set" where
  "web_segments evs k = {s. \<exists>d. PathTo (fst k) (snd k) s d \<in> set evs}"

definition echo_digests :: "scan_event list \<Rightarrow> ip \<times> ip \<Rightarrow> u64 set" where
  "echo_digests evs k = {x. \<exists>d. EchoTo (fst k) (snd k) x d \<in> set evs}"

lemmas seen_defs = syn_ports_def infection_hosts_def web_segments_def echo_digests_def

lemma syn_ports_snoc [simp]:
  "syn_ports (evs @ [e]) = (case e of
     SynTo src dst p d \<Rightarrow> (syn_ports evs)((src, dst) := insert p (syn_ports evs (src, dst))) | _ \<Rightarrow> syn_ports evs)"
  by (auto simp: syn_ports_def fun_eq_iff split: scan_event.split)

lemma infection_hosts_snoc [simp]:
  "infection_hosts (evs @ [e]) = (case e of
     ConnectTo src port dst d \<Rightarrow> (infection_hosts evs)((src, port) := insert dst (infection_hosts evs (src, port)))
   | _ \<Rightarrow> infection_hosts evs)"
  by (auto simp: infection_hosts_def fun_eq_iff split: scan_event.split)

lemma web_segments_snoc [simp]:
  "web_segments (evs @ [e]) = (case e of
     PathTo src dst s d \<Rightarrow> (web_segments evs)((src, dst) := insert s (web_segments evs (src, dst))) | _ \<Rightarrow> web_segments evs)"
  by (auto simp: web_segments_def fun_eq_iff split: scan_event.split)

text \<open>What a run keeps of a table: every bucket, with its detail and its items, and it goes on recording what its key
  touches until it is past the threshold (or at the cap of a bucket).\<close>

definition kept :: "nat \<Rightarrow> ('k \<Rightarrow> 'a set) \<Rightarrow> ('k, ('a, 'd) bucket) amap \<Rightarrow> ('k, ('a, 'd) bucket) amap \<Rightarrow> bool" where
  "kept t touched m m' \<longleftrightarrow> (\<forall>k b. map_of m k = Some b \<longrightarrow>
     (\<exists>b'. map_of m' k = Some b' \<and> bk_detail b' = bk_detail b \<and> items_set (bk_items b) \<subseteq> items_set (bk_items b') \<and>
        (touched k \<subseteq> items_set (bk_items b') \<or> t < items_len (bk_items b') \<or> scan_track_per_key \<le> items_len (bk_items b'))))"

definition buckets_ok :: "('k, ('a, 'd) bucket) amap \<Rightarrow> bool" where
  "buckets_ok m \<longleftrightarrow> (\<forall>k b. map_of m k = Some b \<longrightarrow> items_inv (bk_items b) \<and> bk_detail b \<noteq> None)"

lemma kept_refl: "\<forall>k. map_of m k \<noteq> None \<longrightarrow> touched k = {} \<Longrightarrow> kept t touched m m"
  by (auto simp: kept_def)

lemma kept_refused: "map_of m k = None \<Longrightarrow> \<forall>j. j \<noteq> k \<longrightarrow> touched j = {} \<Longrightarrow> kept t touched m m"
  by (force simp: kept_def)

lemma items_len_mono: "items_inv a \<Longrightarrow> items_inv b \<Longrightarrow> items_set a \<subseteq> items_set b \<Longrightarrow> items_len a \<le> items_len b"
  by (simp add: items_len_card items_set_finite card_mono)

lemma kept_trans:
  assumes "kept t T m m1" "kept t T1 m1 m2" "buckets_ok m1" "buckets_ok m2"
  shows "kept t (\<lambda>k. T k \<union> T1 k) m m2"
  unfolding kept_def
proof (intro allI impI)
  fix k b assume "map_of m k = Some b"
  then obtain b1 where 1: "map_of m1 k = Some b1" "bk_detail b1 = bk_detail b" "items_set (bk_items b) \<subseteq> items_set (bk_items b1)"
    "T k \<subseteq> items_set (bk_items b1) \<or> t < items_len (bk_items b1) \<or> scan_track_per_key \<le> items_len (bk_items b1)"
    using assms(1) unfolding kept_def by metis
  then obtain b2 where 2: "map_of m2 k = Some b2" "bk_detail b2 = bk_detail b1" "items_set (bk_items b1) \<subseteq> items_set (bk_items b2)"
    "T1 k \<subseteq> items_set (bk_items b2) \<or> t < items_len (bk_items b2) \<or> scan_track_per_key \<le> items_len (bk_items b2)"
    using assms(2) unfolding kept_def by metis
  have "items_len (bk_items b1) \<le> items_len (bk_items b2)"
    using 1(1) 2(1,3) assms(3,4) by (intro items_len_mono) (auto simp: buckets_ok_def)
  then show "\<exists>b'. map_of m2 k = Some b' \<and> bk_detail b' = bk_detail b \<and> items_set (bk_items b) \<subseteq> items_set (bk_items b') \<and>
      (T k \<union> T1 k \<subseteq> items_set (bk_items b') \<or> t < items_len (bk_items b') \<or> scan_track_per_key \<le> items_len (bk_items b'))"
    using 1 2 by (intro exI [of _ b2]) auto
qed

lemma kept_update:
  assumes "buckets_ok m" "map_of m k = Some b" "\<forall>j. j \<noteq> k \<longrightarrow> touched j = {}" "touched k \<subseteq> {x}"
    and "bk_detail b' = bk_detail b" "items_inv (bk_items b')" "items_set (bk_items b) \<subseteq> items_set (bk_items b')"
    and "x \<in> items_set (bk_items b') \<or> t < items_len (bk_items b') \<or> scan_track_per_key \<le> items_len (bk_items b')"
  shows "kept t touched m (AList.update k b' m) \<and> buckets_ok (AList.update k b' m)"
  using assms by (auto simp: kept_def buckets_ok_def amap_simps)

lemma kept_fresh:
  assumes "buckets_ok m" "map_of m k = None" "\<forall>j. j \<noteq> k \<longrightarrow> touched j = {}"
  shows "kept t touched m (AList.update k (fresh_bucket x d) m) \<and> buckets_ok (AList.update k (fresh_bucket x d) m)"
proof -
  have "items_inv (bk_items (fresh_bucket x d))" "bk_detail (fresh_bucket x d) = Some d"
    using fresh_bucket_spec [of 0 x d] by (auto simp: tracks_def)
  then show ?thesis using assms by (auto simp: kept_def buckets_ok_def amap_simps)
qed

lemma crossed_keeps:
  assumes "items_inv (bk_items b)" "insert_and_crossed b x t = (c, b')"
  shows "bk_detail b' = bk_detail b \<and> items_inv (bk_items b') \<and> items_set (bk_items b) \<subseteq> items_set (bk_items b') \<and>
    (x \<in> items_set (bk_items b') \<or> t < items_len (bk_items b') \<or> scan_track_per_key \<le> items_len (bk_items b'))"
  using assms items_insert_set [OF assms(1), of x]
  by (auto simp: insert_and_crossed_def Let_def case_prod_beta split: if_splits)

lemma known_keeps:
  assumes "items_inv (bk_items b)" "bk_detail b \<noteq> None" "known_bucket b x t d = (c, b')"
  shows "bk_detail b' = bk_detail b \<and> items_inv (bk_items b') \<and> items_set (bk_items b) \<subseteq> items_set (bk_items b') \<and>
    (x \<in> items_set (bk_items b') \<or> t < items_len (bk_items b') \<or> scan_track_per_key \<le> items_len (bk_items b'))"
proof -
  have "insert_and_crossed b x t = (c, b')" using assms(2,3) by (auto simp: known_bucket_def)
  from crossed_keeps [OF assms(1) this] show ?thesis .
qed

text \<open>The five tables, and what an event may do to each.\<close>

definition tables_ok :: "scan_state \<Rightarrow> bool" where
  "tables_ok st \<longleftrightarrow> buckets_ok (sc_port st) \<and> buckets_ok (sc_infection st) \<and> buckets_ok (sc_web st) \<and>
     buckets_ok (sc_udp st) \<and> buckets_ok (sc_icmp st)"

definition evidence_kept :: "scan_event list \<Rightarrow> scan_state \<Rightarrow> scan_state \<Rightarrow> bool" where
  "evidence_kept evs st st' \<longleftrightarrow>
     kept (th_port (sc_thresholds st)) (syn_ports evs) (sc_port st) (sc_port st') \<and>
     kept (th_infection (sc_thresholds st)) (infection_hosts evs) (sc_infection st) (sc_infection st') \<and>
     kept (th_web (sc_thresholds st)) (web_segments evs) (sc_web st) (sc_web st') \<and>
     kept (th_udp (sc_thresholds st)) (\<lambda>_. {}) (sc_udp st) (sc_udp st') \<and>
     kept icmp_tunnel_threshold (echo_digests evs) (sc_icmp st) (sc_icmp st')"

lemma touched_one:
  "syn_ports [SynTo src dst p d] = (\<lambda>k. if k = (src, dst) then {p} else {})"
  "infection_hosts [ConnectTo src port h d'] = (\<lambda>k. if k = (src, port) then {h} else {})"
  "web_segments [PathTo src dst s d''] = (\<lambda>k. if k = (src, dst) then {s} else {})"
  "echo_digests [EchoTo src dst x d] = (\<lambda>k. if k = (src, dst) then {x} else {})"
  by (auto simp: seen_defs fun_eq_iff)

lemma track_port_kept:
  assumes "buckets_ok (sc_port st)" "m' = sc_port (track_port src dst p d st)"
  shows "kept (th_port (sc_thresholds st)) (syn_ports [SynTo src dst p d]) (sc_port st) m' \<and> buckets_ok m'"
proof (cases "map_of (sc_port st) (src, dst)")
  case (Some b)
  then have b: "items_inv (bk_items b)" "bk_detail b \<noteq> None" using assms(1) by (auto simp: buckets_ok_def)
  obtain c b' where k: "known_bucket b p (th_port (sc_thresholds st)) d = (c, b')" by (cases "known_bucket b p (th_port (sc_thresholds st)) d")
  then have "m' = AList.update (src, dst) b' (sc_port st)" using assms(2) Some by (auto simp: track_port_def Let_def)
  then show ?thesis
    using kept_update [OF assms(1) Some, of "syn_ports [SynTo src dst p d]" p b' "th_port (sc_thresholds st)"] known_keeps [OF b k] by (simp add: touched_one)
next
  case None
  then have "m' \<in> {sc_port st, AList.update (src, dst) (fresh_bucket p d) (sc_port st)}"
    using assms(2) by (auto simp: track_port_def Let_def note_source_def)
  then show ?thesis
    using kept_fresh [OF assms(1) None, of "syn_ports [SynTo src dst p d]" "th_port (sc_thresholds st)" p d] kept_refused [OF None, of "syn_ports [SynTo src dst p d]"] assms(1)
    by (auto simp: touched_one)
qed

lemma track_infection_kept:
  assumes "buckets_ok (sc_infection st)" "m' = sc_infection (track_infection src port dst d st)"
  shows "kept (th_infection (sc_thresholds st)) (infection_hosts [ConnectTo src port dst d]) (sc_infection st) m' \<and> buckets_ok m'"
proof (cases "map_of (sc_infection st) (src, port)")
  case (Some b)
  then have b: "items_inv (bk_items b)" "bk_detail b \<noteq> None" using assms(1) by (auto simp: buckets_ok_def)
  obtain c b' where k: "known_bucket b dst (th_infection (sc_thresholds st)) d = (c, b')"
    by (cases "known_bucket b dst (th_infection (sc_thresholds st)) d")
  then have "m' = AList.update (src, port) b' (sc_infection st)" using assms(2) Some by (auto simp: track_infection_def Let_def)
  then show ?thesis
    using kept_update [OF assms(1) Some, of "infection_hosts [ConnectTo src port dst d]" dst b' "th_infection (sc_thresholds st)"] known_keeps [OF b k] by (simp add: touched_one)
next
  case None
  then have "m' \<in> {sc_infection st, AList.update (src, port) (fresh_bucket dst d) (sc_infection st)}"
    using assms(2) by (auto simp: track_infection_def Let_def note_source_def)
  then show ?thesis
    using kept_fresh [OF assms(1) None, of "infection_hosts [ConnectTo src port dst d]" "th_infection (sc_thresholds st)" dst d] kept_refused [OF None, of "infection_hosts [ConnectTo src port dst d]"] assms(1)
    by (auto simp: touched_one)
qed

lemma track_path_kept:
  assumes "buckets_ok (sc_web st)" "m' = sc_web (track_path src dst s d st)"
  shows "kept (th_web (sc_thresholds st)) (web_segments [PathTo src dst s d]) (sc_web st) m' \<and> buckets_ok m'"
proof (cases "map_of (sc_web st) (src, dst)")
  case (Some b)
  let ?t = "th_web (sc_thresholds st)"
  have b: "items_inv (bk_items b)" "bk_detail b \<noteq> None" using assms(1) Some by (auto simp: buckets_ok_def)
  define b' where "b' = (if items_len (bk_items b) \<le> ?t \<and> items_len (bk_items b) < scan_track_per_key \<and> \<not> items_contains (bk_items b) s
    then b\<lparr>bk_items := snd (items_insert (bk_items b) s)\<rparr> else b)"
  have "m' = AList.update (src, dst) b' (sc_web st)"
    using assms(2) Some b by (auto simp: track_path_def Let_def b'_def)
  moreover have "bk_detail b' = bk_detail b \<and> items_inv (bk_items b') \<and> items_set (bk_items b) \<subseteq> items_set (bk_items b') \<and>
    (s \<in> items_set (bk_items b') \<or> ?t < items_len (bk_items b') \<or> scan_track_per_key \<le> items_len (bk_items b'))"
    using b items_insert_set [OF b(1), of s] by (auto simp: b'_def items_contains_iff)
  ultimately show ?thesis using kept_update [OF assms(1) Some, of "web_segments [PathTo src dst s d]" s b' "th_web (sc_thresholds st)"] by (simp add: touched_one)
next
  case None
  then have "m' \<in> {sc_web st, AList.update (src, dst) (fresh_bucket s d) (sc_web st)}"
    using assms(2) by (auto simp: track_path_def Let_def note_source_def)
  then show ?thesis
    using kept_fresh [OF assms(1) None, of "web_segments [PathTo src dst s d]" "th_web (sc_thresholds st)" s d] kept_refused [OF None, of "web_segments [PathTo src dst s d]"] assms(1)
    by (auto simp: touched_one)
qed

lemma track_udp_kept:
  assumes "buckets_ok (sc_udp st)" "m' = sc_udp (track_udp seed src dst p d st)"
  shows "kept (th_udp (sc_thresholds st)) (\<lambda>_. {}) (sc_udp st) m' \<and> buckets_ok m'"
proof (cases "map_of (sc_udp st) (src, dst)")
  case (Some b)
  then have b: "items_inv (bk_items b)" "bk_detail b \<noteq> None" using assms(1) by (auto simp: buckets_ok_def)
  obtain c b' where k: "known_bucket b p (th_udp (sc_thresholds st)) d = (c, b')" by (cases "known_bucket b p (th_udp (sc_thresholds st)) d")
  then have "m' \<in> {sc_udp st, AList.update (src, dst) b' (sc_udp st)}" using assms(2) Some by (auto simp: track_udp_def Let_def)
  then show ?thesis
    using kept_update [OF assms(1) Some, of "\<lambda>_. {}" p b' "th_udp (sc_thresholds st)"] known_keeps [OF b k] assms(1) by (auto intro!: kept_refl)
next
  case None
  then have "m' \<in> {sc_udp st, AList.update (src, dst) (fresh_bucket p d) (sc_udp st)}"
    using assms(2) by (auto simp: track_udp_def Let_def)
  then show ?thesis using kept_fresh [OF assms(1) None, of "\<lambda>_. {}" "th_udp (sc_thresholds st)" p d] assms(1) by (auto intro!: kept_refl)
qed

lemma track_icmp_kept:
  assumes "buckets_ok (sc_icmp st)" "m' = sc_icmp (track_icmp src dst x d st)"
  shows "kept icmp_tunnel_threshold (echo_digests [EchoTo src dst x d]) (sc_icmp st) m' \<and> buckets_ok m'"
proof (cases "map_of (sc_icmp st) (src, dst)")
  case (Some b)
  then have b: "items_inv (bk_items b)" using assms(1) by (auto simp: buckets_ok_def)
  obtain c b' where k: "insert_and_crossed b x icmp_tunnel_threshold = (c, b')" by (cases "insert_and_crossed b x icmp_tunnel_threshold")
  then have "m' = AList.update (src, dst) b' (sc_icmp st)" using assms(2) Some by (auto simp: track_icmp_def Let_def)
  then show ?thesis
    using kept_update [OF assms(1) Some, of "echo_digests [EchoTo src dst x d]" x b' "icmp_tunnel_threshold"] crossed_keeps [OF b k] by (simp add: touched_one)
next
  case None
  then have "m' \<in> {sc_icmp st, AList.update (src, dst) (fresh_bucket x d) (sc_icmp st)}"
    using assms(2) by (auto simp: track_icmp_def Let_def note_source_def)
  then show ?thesis
    using kept_fresh [OF assms(1) None, of "echo_digests [EchoTo src dst x d]" "icmp_tunnel_threshold" x d] kept_refused [OF None, of "echo_digests [EchoTo src dst x d]"] assms(1)
    by (auto simp: touched_one)
qed

lemma table_untouched:
  assumes "\<not> is_clear e"
  shows "(\<And>src dst p d. e \<noteq> SynTo src dst p d) \<Longrightarrow> sc_port (scan_step seed e st) = sc_port st \<and> syn_ports [e] = (\<lambda>_. {})"
    "(\<And>src p dst d. e \<noteq> ConnectTo src p dst d) \<Longrightarrow> sc_infection (scan_step seed e st) = sc_infection st \<and> infection_hosts [e] = (\<lambda>_. {})"
    "(\<And>src dst p d. e \<noteq> PathTo src dst p d) \<Longrightarrow> sc_web (scan_step seed e st) = sc_web st \<and> web_segments [e] = (\<lambda>_. {})"
    "(\<And>src dst p d. e \<noteq> UdpTo src dst p d) \<Longrightarrow> sc_udp (scan_step seed e st) = sc_udp st"
    "(\<And>src dst p d. e \<noteq> EchoTo src dst p d) \<Longrightarrow> sc_icmp (scan_step seed e st) = sc_icmp st \<and> echo_digests [e] = (\<lambda>_. {})"
    "sc_thresholds (scan_step seed e st) = sc_thresholds st"
  using assms
  by (cases e; auto simp: scan_ops Let_def is_clear_def seen_defs fun_eq_iff split: option.split prod.split)+

lemma evidence_step:
  assumes "tables_ok st" "\<not> is_clear e"
  shows "evidence_kept [e] st (scan_step seed e st) \<and> tables_ok (scan_step seed e st)"
proof -
  note t = assms(1) [unfolded tables_ok_def] and same = table_untouched [OF assms(2), of seed st]
  have port: "kept (th_port (sc_thresholds st)) (syn_ports [e]) (sc_port st) (sc_port (scan_step seed e st)) \<and> buckets_ok (sc_port (scan_step seed e st))"
  proof (cases "\<exists>src dst p d. e = SynTo src dst p d")
    case True
    then show ?thesis using track_port_kept [of st, OF _ refl] t by auto
  next
    case False
    then show ?thesis using same t by (simp add: kept_refl)
  qed
  have infection: "kept (th_infection (sc_thresholds st)) (infection_hosts [e]) (sc_infection st) (sc_infection (scan_step seed e st)) \<and> buckets_ok (sc_infection (scan_step seed e st))"
  proof (cases "\<exists>src p dst d. e = ConnectTo src p dst d")
    case True
    then show ?thesis using track_infection_kept [of st, OF _ refl] t by auto
  next
    case False
    then show ?thesis using same t by (simp add: kept_refl)
  qed
  have web: "kept (th_web (sc_thresholds st)) (web_segments [e]) (sc_web st) (sc_web (scan_step seed e st)) \<and> buckets_ok (sc_web (scan_step seed e st))"
  proof (cases "\<exists>src dst p d. e = PathTo src dst p d")
    case True
    then show ?thesis using track_path_kept [of st, OF _ refl] t by auto
  next
    case False
    then show ?thesis using same t by (simp add: kept_refl)
  qed
  have udp: "kept (th_udp (sc_thresholds st)) ((\<lambda>_. {})) (sc_udp st) (sc_udp (scan_step seed e st)) \<and> buckets_ok (sc_udp (scan_step seed e st))"
  proof (cases "\<exists>src dst p d. e = UdpTo src dst p d")
    case True
    then show ?thesis using track_udp_kept [of st, OF _ refl] t by auto
  next
    case False
    then show ?thesis using same t by (simp add: kept_refl)
  qed
  have icmp: "kept (icmp_tunnel_threshold) (echo_digests [e]) (sc_icmp st) (sc_icmp (scan_step seed e st)) \<and> buckets_ok (sc_icmp (scan_step seed e st))"
  proof (cases "\<exists>src dst p d. e = EchoTo src dst p d")
    case True
    then show ?thesis using track_icmp_kept [of st, OF _ refl] t by auto
  next
    case False
    then show ?thesis using same t by (simp add: kept_refl)
  qed
  show ?thesis using port infection web udp icmp by (simp add: evidence_kept_def tables_ok_def)
qed

lemma evidence_trans:
  assumes "evidence_kept evs st st1" "evidence_kept [e] st1 st2" "tables_ok st1" "tables_ok st2" "sc_thresholds st1 = sc_thresholds st"
  shows "evidence_kept (evs @ [e]) st st2"
proof -
  have u: "syn_ports (evs @ [e]) = (\<lambda>k. syn_ports evs k \<union> syn_ports [e] k)"
    "infection_hosts (evs @ [e]) = (\<lambda>k. infection_hosts evs k \<union> infection_hosts [e] k)"
    "web_segments (evs @ [e]) = (\<lambda>k. web_segments evs k \<union> web_segments [e] k)"
    "echo_digests (evs @ [e]) = (\<lambda>k. echo_digests evs k \<union> echo_digests [e] k)"
    unfolding seen_defs by (auto simp: fun_eq_iff)
  have "kept (th_udp (sc_thresholds st)) (\<lambda>k. {} \<union> {}) (sc_udp st) (sc_udp st2)"
    using assms by (intro kept_trans) (auto simp: evidence_kept_def tables_ok_def)
  then show ?thesis
    using assms unfolding evidence_kept_def u tables_ok_def by (auto intro!: kept_trans)
qed

lemma evidence_run:
  assumes "tables_ok st" "\<forall>e \<in> set evs. \<not> is_clear e"
  shows "evidence_kept evs st (fold (scan_step seed) evs st) \<and> tables_ok (fold (scan_step seed) evs st) \<and>
    sc_thresholds (fold (scan_step seed) evs st) = sc_thresholds st"
  using assms(2)
proof (induction evs rule: rev_induct)
  case Nil
  then show ?case using assms(1) by (simp add: evidence_kept_def seen_defs kept_refl)
next
  case (snoc e evs)
  define st1 where "st1 = fold (scan_step seed) evs st"
  have IH: "evidence_kept evs st st1" "tables_ok st1" "sc_thresholds st1 = sc_thresholds st"
    using snoc by (simp_all add: st1_def)
  have e: "\<not> is_clear e" using snoc.prems by simp
  note step = evidence_step [OF IH(2) e, of seed]
  show ?case
    using evidence_trans [OF IH(1) _ IH(2) _ IH(3), of e "scan_step seed e st1"] step table_untouched(6) [OF e, of seed st1] IH(3)
    by (simp add: st1_def)
qed

lemma tables_ok_run: "tables_ok (fold (scan_step seed) evs (scan_new th))"
proof (induction evs rule: rev_induct)
  case Nil
  then show ?case by (simp add: tables_ok_def buckets_ok_def scan_new_def)
next
  case (snoc e evs)
  then show ?case
    using evidence_step [of "fold (scan_step seed) evs (scan_new th)" e seed]
    by (cases "is_clear e") (auto simp: is_clear_def tables_ok_def buckets_ok_def clear_window_def)
qed

text \<open>C13: no traffic pushes evidence out of the tables. In any state a run of the sensor reaches, until the window is
  cleared, every bucket of the five tables keeps its detail and every item in it, whatever packets, sweeps and marks
  come in between and however many other keys a flood brings; and the tracked key goes on: each port, host, path
  segment or echo payload it touches is recorded, until its bucket is past the threshold (or full). (The UDP table takes a
  packet only when no traffic the other way excuses it, so of it the theorem says that what is in it stays.)\<close>

theorem scan_evidence_is_never_evicted:
  assumes "\<forall>e \<in> set evs. \<not> is_clear e"
  shows "evidence_kept evs (fold (scan_step seed) before (scan_new th))
    (fold (scan_step seed) evs (fold (scan_step seed) before (scan_new th)))"
  using evidence_run [OF tables_ok_run assms] by blast

definition sample_port_detail :: port_detail where
  "sample_port_detail = \<lparr>pd_sec = 1, pd_usec = 0, pd_src_port = 40000, pd_dst_port = 22\<rparr>"

theorem scan_evidence_is_never_evicted_witness:
  "let st = fold (scan_step 7) [SynTo (V4 1) (V4 2) 22 sample_port_detail] scan_default;
       st' = fold (scan_step 7) [SynTo (V4 3) (V4 2) 80 sample_port_detail, SynTo (V4 1) (V4 2) 23 sample_port_detail, SweepPort] st
   in map_of (sc_port st) (V4 1, V4 2) \<noteq> None \<and>
      (\<exists>b. map_of (sc_port st') (V4 1, V4 2) = Some b \<and> bk_detail b = Some sample_port_detail \<and> 22 \<in> items_set (bk_items b) \<and>
         (23 \<in> items_set (bk_items b) \<or> 10 < items_len (bk_items b) \<or> scan_track_per_key \<le> items_len (bk_items b)))"
proof -
  let ?evs = "[SynTo (V4 3) (V4 2) 80 sample_port_detail, SynTo (V4 1) (V4 2) 23 sample_port_detail, SweepPort]"
  define st where "st = fold (scan_step 7) [SynTo (V4 1) (V4 2) 22 sample_port_detail] scan_default"
  define st' where "st' = fold (scan_step 7) ?evs st"
  have "evidence_kept ?evs st st'"
    unfolding st'_def st_def scan_default_def by (rule scan_evidence_is_never_evicted) (simp add: is_clear_def)
  then have "kept 10 (syn_ports ?evs) (sc_port st) (sc_port st')"
    by (simp add: evidence_kept_def st_def scan_default_def scan_new_def scan_ops scan_max_keys_def)
  moreover have "map_of (sc_port st) (V4 1, V4 2) = Some (fresh_bucket 22 sample_port_detail)"
    by (simp add: st_def scan_default_def scan_new_def scan_ops scan_max_keys_def)
  moreover have "items_set (bk_items (fresh_bucket (22 :: u16) sample_port_detail)) = {22}" "bk_detail (fresh_bucket (22 :: u16) sample_port_detail) = Some sample_port_detail"
    by (auto simp: fresh_bucket_def bucket_default_def items_default_def inline_max_def take_Suc_conv_app_nth)
  moreover have "23 \<in> syn_ports ?evs (V4 1, V4 2)" by (auto simp: syn_ports_def)
  ultimately show ?thesis unfolding Let_def st_def [symmetric] st'_def [symmetric] kept_def by fastforce
qed

subsection \<open>What the sweep reports\<close>

lemma track_port_frame [simp]:
  shows "sc_thresholds (track_port src dst p d st) = sc_thresholds st"
    and "sc_alerted_port (track_port src dst p d st) = sc_alerted_port st"
    and "sc_alerted_infection (track_port src dst p d st) = sc_alerted_infection st"
    and "sc_alerted_path (track_port src dst p d st) = sc_alerted_path st"
    and "sc_infection (track_port src dst p d st) = sc_infection st"
    and "sc_ready_infection (track_port src dst p d st) = sc_ready_infection st"
    and "sc_web (track_port src dst p d st) = sc_web st"
    and "sc_ready_web (track_port src dst p d st) = sc_ready_web st"
  by (simp_all add: scan_ops Let_def split: option.split prod.split)

lemma track_infection_frame [simp]:
  shows "sc_thresholds (track_infection src port dst d st) = sc_thresholds st"
    and "sc_alerted_port (track_infection src port dst d st) = sc_alerted_port st"
    and "sc_alerted_infection (track_infection src port dst d st) = sc_alerted_infection st"
    and "sc_alerted_path (track_infection src port dst d st) = sc_alerted_path st"
    and "sc_port (track_infection src port dst d st) = sc_port st"
    and "sc_ready_port (track_infection src port dst d st) = sc_ready_port st"
    and "sc_web (track_infection src port dst d st) = sc_web st"
    and "sc_ready_web (track_infection src port dst d st) = sc_ready_web st"
  by (simp_all add: scan_ops Let_def split: option.split prod.split)

lemma track_path_frame [simp]:
  shows "sc_thresholds (track_path src dst s d st) = sc_thresholds st"
    and "sc_alerted_port (track_path src dst s d st) = sc_alerted_port st"
    and "sc_alerted_infection (track_path src dst s d st) = sc_alerted_infection st"
    and "sc_alerted_path (track_path src dst s d st) = sc_alerted_path st"
    and "sc_port (track_path src dst s d st) = sc_port st"
    and "sc_ready_port (track_path src dst s d st) = sc_ready_port st"
    and "sc_infection (track_path src dst s d st) = sc_infection st"
    and "sc_ready_infection (track_path src dst s d st) = sc_ready_infection st"
  by (simp_all add: scan_ops Let_def split: option.split prod.split)

lemma track_udp_frame [simp]:
  shows "sc_thresholds (track_udp seed src dst p d st) = sc_thresholds st"
    and "sc_alerted_port (track_udp seed src dst p d st) = sc_alerted_port st"
    and "sc_alerted_infection (track_udp seed src dst p d st) = sc_alerted_infection st"
    and "sc_alerted_path (track_udp seed src dst p d st) = sc_alerted_path st"
    and "sc_port (track_udp seed src dst p d st) = sc_port st"
    and "sc_ready_port (track_udp seed src dst p d st) = sc_ready_port st"
    and "sc_infection (track_udp seed src dst p d st) = sc_infection st"
    and "sc_ready_infection (track_udp seed src dst p d st) = sc_ready_infection st"
    and "sc_web (track_udp seed src dst p d st) = sc_web st"
    and "sc_ready_web (track_udp seed src dst p d st) = sc_ready_web st"
  by (simp_all add: scan_ops Let_def split: option.split prod.split)

lemma track_icmp_frame [simp]:
  shows "sc_thresholds (track_icmp src dst g d st) = sc_thresholds st"
    and "sc_alerted_port (track_icmp src dst g d st) = sc_alerted_port st"
    and "sc_alerted_infection (track_icmp src dst g d st) = sc_alerted_infection st"
    and "sc_alerted_path (track_icmp src dst g d st) = sc_alerted_path st"
    and "sc_port (track_icmp src dst g d st) = sc_port st"
    and "sc_ready_port (track_icmp src dst g d st) = sc_ready_port st"
    and "sc_infection (track_icmp src dst g d st) = sc_infection st"
    and "sc_ready_infection (track_icmp src dst g d st) = sc_ready_infection st"
    and "sc_web (track_icmp src dst g d st) = sc_web st"
    and "sc_ready_web (track_icmp src dst g d st) = sc_ready_web st"
  by (simp_all add: scan_ops Let_def split: option.split prod.split)

lemma known_step:
  assumes "table_ok t m ready alerted seen" and "t < scan_track_per_key" and "map_of m k = Some b"
    and "known_bucket b x t d = (c, b')"
  shows "table_ok t (AList.update k b' m) (if c then ready @ [k] else ready) alerted
    (seen(k := insert x (seen k)))"
proof -
  have "entry_ok t (Some b) (k \<in> set ready) (k \<in> alerted) (seen k)"
    using table_ok_entry [OF assms(1), of k] assms(3) by simp
  then have "tracks t (bk_items b) (seen k)" and "bk_detail b \<noteq> None" by auto
  from known_bucket_spec [OF this(1) assms(2) this(2) assms(4)] this(2)
  show ?thesis using assms(1,3) by (intro table_ok_known) auto
qed

lemma track_port_ok:
  assumes "table_ok (th_port (sc_thresholds st)) (sc_port st) (sc_ready_port st) (sc_alerted_port st) seen"
    and "th_port (sc_thresholds st) < scan_track_per_key" and "sc_connect_keys st < scan_max_keys"
    and "st' = track_port src dst p d st"
  shows "table_ok (th_port (sc_thresholds st)) (sc_port st') (sc_ready_port st') (sc_alerted_port st')
    (seen((src, dst) := insert p (seen (src, dst))))"
proof (cases "map_of (sc_port st) (src, dst)")
  case None
  then show ?thesis
    using table_ok_fresh [OF assms(1) None, of p d] assms(3,4)
    by (cases "th_port (sc_thresholds st) = 0") (simp_all add: track_port_def note_source_def Let_def)
next
  case (Some b)
  obtain c b' where "known_bucket b p (th_port (sc_thresholds st)) d = (c, b')" by fastforce
  then show ?thesis
    using known_step [OF assms(1,2) Some, of p d c b'] Some assms(4)
    by (cases c) (simp_all add: track_port_def Let_def)
qed

lemma track_infection_ok:
  assumes "table_ok (th_infection (sc_thresholds st)) (sc_infection st) (sc_ready_infection st) (sc_alerted_infection st) seen"
    and "th_infection (sc_thresholds st) < scan_track_per_key" and "sc_connect_keys st < scan_max_keys"
    and "st' = track_infection src port dst d st"
  shows "table_ok (th_infection (sc_thresholds st)) (sc_infection st') (sc_ready_infection st') (sc_alerted_infection st')
    (seen((src, port) := insert dst (seen (src, port))))"
proof (cases "map_of (sc_infection st) (src, port)")
  case None
  then show ?thesis
    using table_ok_fresh [OF assms(1) None, of dst d] assms(3,4)
    by (cases "th_infection (sc_thresholds st) = 0") (simp_all add: track_infection_def note_source_def Let_def)
next
  case (Some b)
  obtain c b' where "known_bucket b dst (th_infection (sc_thresholds st)) d = (c, b')" by fastforce
  then show ?thesis
    using known_step [OF assms(1,2) Some, of dst d c b'] Some assms(4)
    by (cases c) (simp_all add: track_infection_def Let_def)
qed

lemma track_path_ok:
  assumes ok: "table_ok (th_web (sc_thresholds st)) (sc_web st) (sc_ready_web st) (sc_alerted_path st) seen"
    and t: "th_web (sc_thresholds st) < scan_track_per_key" and "length (sc_web st) < scan_max_keys"
    and st': "st' = track_path src dst s d st"
  shows "table_ok (th_web (sc_thresholds st)) (sc_web st') (sc_ready_web st') (sc_alerted_path st')
    (seen((src, dst) := insert s (seen (src, dst))))"
proof (cases "map_of (sc_web st) (src, dst)")
  case None
  then show ?thesis
    using table_ok_fresh [OF ok None, of s d] assms(3) st'
    by (cases "th_web (sc_thresholds st) = 0") (simp_all add: track_path_def Let_def)
next
  case (Some b)
  define t where "t = th_web (sc_thresholds st)"
  have "entry_ok t (Some b) ((src, dst) \<in> set (sc_ready_web st)) ((src, dst) \<in> sc_alerted_path st) (seen (src, dst))"
    using table_ok_entry [OF ok, of "(src, dst)"] Some by (simp add: t_def)
  then have tr: "tracks t (bk_items b) (seen (src, dst))" and "bk_detail b \<noteq> None" by auto
  then obtain d0 where b: "bk_detail b = Some d0" by auto
  have inv: "items_inv (bk_items b)" using tr by (simp add: tracks_def)
  show ?thesis
  proof (cases "items_len (bk_items b) \<le> t \<and> \<not> items_contains (bk_items b) s")
    case True
    define b' where "b' = b\<lparr>bk_items := snd (items_insert (bk_items b) s)\<rparr>"
    have tr': "tracks t (bk_items b') (insert s (seen (src, dst)))"
      using tracks_insert [OF tr] True by (simp add: b'_def)
    have "items_len (bk_items b') = t + 1 \<longleftrightarrow> t < items_len (bk_items b')"
      using tracks_bound [OF tr'] by auto
    then show ?thesis
      using table_ok_known [OF ok Some, of b' s "items_len (bk_items b') = t + 1"] tr' True b
        \<open>bk_detail b \<noteq> None\<close> Some st' t
      by (cases "items_len (bk_items b') = t + 1") (simp_all add: track_path_def Let_def t_def b'_def)
  next
    case False
    have "tracks t (bk_items b) (insert s (seen (src, dst)))"
    proof (cases "items_len (bk_items b) \<le> t")
      case True
      then have "s \<in> seen (src, dst)"
        using False tr by (auto simp: tracks_def items_contains_iff)
      then show ?thesis using tr by (simp add: insert_absorb)
    next
      case False
      then show ?thesis using tracks_more [OF tr] by simp
    qed
    then have "table_ok t (AList.update (src, dst) b (sc_web st)) (if False then sc_ready_web st @ [(src, dst)] else sc_ready_web st)
        (sc_alerted_path st) (seen((src, dst) := insert s (seen (src, dst))))"
      using table_ok_known [OF ok Some, of b s False] \<open>bk_detail b \<noteq> None\<close> by (auto simp: t_def)
    moreover have "st' = st\<lparr>sc_web := AList.update (src, dst) b (sc_web st)\<rparr>"
      using False b Some st' by (cases "items_len (bk_items b) \<le> t") (auto simp: track_path_def t_def)
    ultimately show ?thesis by (simp add: t_def)
  qed
qed

text \<open>The three ghost-tracked tables, and what every event leaves alone.\<close>

definition sweep_ok :: "thresholds \<Rightarrow> scan_event list \<Rightarrow> scan_state \<Rightarrow> bool" where
  "sweep_ok th evs st \<longleftrightarrow> sc_thresholds st = th \<and>
     table_ok (th_port th) (sc_port st) (sc_ready_port st) (sc_alerted_port st) (syn_ports evs) \<and>
     table_ok (th_infection th) (sc_infection st) (sc_ready_infection st) (sc_alerted_infection st) (infection_hosts evs) \<and>
     table_ok (th_web th) (sc_web st) (sc_ready_web st) (sc_alerted_path st) (web_segments evs) \<and>
     sc_alerted_port st = {(s, d). MarkPort s d \<in> set evs} \<and>
     sc_alerted_infection st = {(s, p). MarkInfection s p \<in> set evs} \<and>
     sc_alerted_path st = {(s, d). MarkPath s d \<in> set evs}"

definition small_thresholds :: "thresholds \<Rightarrow> bool" where
  "small_thresholds th \<longleftrightarrow> th_port th < scan_track_per_key \<and> th_infection th < scan_track_per_key \<and>
     th_web th < scan_track_per_key"

lemma sweep_ok_step:
  assumes "sweep_ok th evs st" and "small_thresholds th" and "\<not> is_clear e"
    and "sc_connect_keys st < scan_max_keys" and "length (sc_web st) < scan_max_keys"
  shows "sweep_ok th (evs @ [e]) (scan_step seed e st)"
proof (cases e)
  case (SynTo src dst p d)
  then show ?thesis
    using assms track_port_ok [of st "syn_ports evs" "track_port src dst p d st" src dst p d]
    by (auto simp: sweep_ok_def small_thresholds_def)
next
  case (ConnectTo src port dst d)
  then show ?thesis
    using assms track_infection_ok [of st "infection_hosts evs" "track_infection src port dst d st" src port dst d]
    by (auto simp: sweep_ok_def small_thresholds_def)
next
  case (PathTo src dst s d)
  then show ?thesis
    using assms track_path_ok [of st "web_segments evs" "track_path src dst s d st" src dst s d]
    by (auto simp: sweep_ok_def small_thresholds_def)
next
  case SweepPort
  have "table_ok (th_port th) (sc_port st) (filter (\<lambda>k. k \<notin> sc_alerted_port st) (sc_ready_port st)) (sc_alerted_port st) (syn_ports evs)"
    using assms(1) unfolding sweep_ok_def by (intro table_ok_retain) blast
  then show ?thesis
    using assms(1) SweepPort by (auto simp: sweep_ok_def port_scan_candidates_def candidates_def Let_def)
next
  case SweepInfection
  have "table_ok (th_infection th) (sc_infection st) (filter (\<lambda>k. k \<notin> sc_alerted_infection st) (sc_ready_infection st)) (sc_alerted_infection st) (infection_hosts evs)"
    using assms(1) unfolding sweep_ok_def by (intro table_ok_retain) blast
  then show ?thesis
    using assms(1) SweepInfection by (auto simp: sweep_ok_def infection_candidates_def candidates_def Let_def)
next
  case SweepWeb
  have "table_ok (th_web th) (sc_web st) (filter (\<lambda>k. k \<notin> sc_alerted_path st) (sc_ready_web st)) (sc_alerted_path st) (web_segments evs)"
    using assms(1) unfolding sweep_ok_def by (intro table_ok_retain) blast
  then show ?thesis
    using assms(1) SweepWeb by (auto simp: sweep_ok_def web_scan_candidates_def candidates_def Let_def)
next
  case (MarkPort s d)
  then show ?thesis
    using assms table_ok_alerted [of "th_port th" "sc_port st" "sc_ready_port st" "sc_alerted_port st" "syn_ports evs"]
    by (auto simp: sweep_ok_def mark_port_alerted_def)
next
  case (MarkInfection s p)
  then show ?thesis
    using assms table_ok_alerted [of "th_infection th" "sc_infection st" "sc_ready_infection st" "sc_alerted_infection st" "infection_hosts evs"]
    by (auto simp: sweep_ok_def mark_infection_alerted_def)
next
  case (MarkPath s d)
  then show ?thesis
    using assms table_ok_alerted [of "th_web th" "sc_web st" "sc_ready_web st" "sc_alerted_path st" "web_segments evs"]
    by (auto simp: sweep_ok_def mark_path_alerted_def)
next
  case (ClearWindow sec)
  then show ?thesis using assms(3) by (simp add: is_clear_def)
qed (use assms(1) in \<open>auto simp: sweep_ok_def udp_scan_candidates_def icmp_tunnel_candidates_def candidates_def
       mark_udp_alerted_def mark_icmp_alerted_def Let_def\<close>)

lemma budget_mono:
  assumes "\<not> is_clear e"
  shows "sc_connect_keys st \<le> sc_connect_keys (scan_step seed e st)"
    and "length (sc_web st) \<le> length (sc_web (scan_step seed e st))"
  using assms by (cases e; auto simp: scan_ops Let_def is_clear_def amap_simps split: option.splits prod.splits)+

lemma run_sweep_ok:
  assumes "small_thresholds th"
  shows "\<forall>e \<in> set evs. \<not> is_clear e \<Longrightarrow>
    sc_connect_keys (fold (scan_step seed) evs (scan_new th)) < scan_max_keys \<Longrightarrow>
    length (sc_web (fold (scan_step seed) evs (scan_new th))) < scan_max_keys \<Longrightarrow>
    sweep_ok th evs (fold (scan_step seed) evs (scan_new th))"
proof (induction evs rule: rev_induct)
  case Nil
  have "syn_ports [] = (\<lambda>k. {})" "infection_hosts [] = (\<lambda>k. {})" "web_segments [] = (\<lambda>k. {})"
    by (auto simp: seen_defs)
  then show ?case by (simp add: sweep_ok_def scan_new_def table_ok_empty)
next
  case (snoc e evs)
  define st where "st = fold (scan_step seed) evs (scan_new th)"
  have e: "\<not> is_clear e" using snoc.prems by simp
  have "sc_connect_keys st < scan_max_keys" "length (sc_web st) < scan_max_keys"
    using budget_mono [OF e, of st seed] snoc.prems by (auto simp: st_def)
  moreover have "sweep_ok th evs st" using snoc calculation by (simp add: st_def)
  ultimately show ?case
    using sweep_ok_step [OF _ assms e, of evs st seed] by (simp add: st_def)
qed

text \<open>C14: within a window the sweep reports exactly the scanners: whatever the packets, sweeps and
  alert marks in between, a (source, destination) pair is a port-scan candidate if and only if
  it was seen on more distinct ports than the threshold and is not yet marked as alerted, and
  the same holds for infection scans and distinct hosts and for web scans and distinct path
  segments. Nothing is missed by queueing keys at the crossing instead of rescanning the
  tables. (As long as the key budget is not exhausted, which refuses new keys.)\<close>

theorem sweep_reports_exactly_the_scanners:
  assumes "small_thresholds th" and "\<forall>e \<in> set evs. \<not> is_clear e"
    and "st = fold (scan_step seed) evs (scan_new th)"
    and "sc_connect_keys st < scan_max_keys" and "length (sc_web st) < scan_max_keys"
  shows "set (map fst (snd (port_scan_candidates st))) =
      {(s, d). th_port th < card (syn_ports evs (s, d)) \<and> MarkPort s d \<notin> set evs} \<and>
    set (map fst (snd (infection_candidates st))) =
      {(s, p). th_infection th < card (infection_hosts evs (s, p)) \<and> MarkInfection s p \<notin> set evs} \<and>
    set (map fst (snd (web_scan_candidates st))) =
      {(s, d). th_web th < card (web_segments evs (s, d)) \<and> MarkPath s d \<notin> set evs} \<and>
    distinct (map fst (snd (port_scan_candidates st))) \<and> sorted (map fst (snd (port_scan_candidates st)))"
proof -
  have ok: "sweep_ok th evs st"
    using run_sweep_ok [OF assms(1,2), of seed] assms(3-) by simp
  have p: "table_ok (th_port th) (sc_port st) (sc_ready_port st) (sc_alerted_port st) (syn_ports evs)"
    and i: "table_ok (th_infection th) (sc_infection st) (sc_ready_infection st) (sc_alerted_infection st) (infection_hosts evs)"
    and w: "table_ok (th_web th) (sc_web st) (sc_ready_web st) (sc_alerted_path st) (web_segments evs)"
    and al: "sc_alerted_port st = {(s, d). MarkPort s d \<in> set evs}"
      "sc_alerted_infection st = {(s, p). MarkInfection s p \<in> set evs}"
      "sc_alerted_path st = {(s, d). MarkPath s d \<in> set evs}"
    using ok by (auto simp: sweep_ok_def)
  show ?thesis
    using candidates_exact [OF p] candidates_exact [OF i] candidates_exact [OF w]
    by (auto simp: port_scan_candidates_def infection_candidates_def web_scan_candidates_def al
        case_prod_beta)
qed

definition sample_scan_events :: "scan_event list" where
  "sample_scan_events =
     [SynTo (V4 1) (V4 2) 22 sample_port_detail, SynTo (V4 1) (V4 2) 23 sample_port_detail,
      SweepPort, SynTo (V4 3) (V4 2) 80 sample_port_detail]"

theorem sweep_reports_exactly_the_scanners_witness:
  "(V4 1, V4 2) \<in> set (map fst (snd (port_scan_candidates (fold (scan_step 7) sample_scan_events
     (scan_new \<lparr>th_port = 1, th_infection = 1, th_web = 1, th_udp = 1\<rparr>)))))"
proof -
  define th where "th = \<lparr>th_port = 1 :: nat, th_infection = 1 :: nat, th_web = 1 :: nat, th_udp = 1 :: nat\<rparr>"
  define st where "st = fold (scan_step 7) sample_scan_events (scan_new th)"
  have "sc_connect_keys st < scan_max_keys" "length (sc_web st) < scan_max_keys"
    by (simp_all add: st_def th_def sample_scan_events_def scan_new_def scan_ops known_bucket_def fresh_bucket_def
        bucket_default_def items_default_def insert_and_crossed_def scan_track_per_key_def inline_max_def
        scan_max_keys_def Let_def)
  note main = sweep_reports_exactly_the_scanners [OF _ _ st_def this]
  have "small_thresholds th" by (simp add: small_thresholds_def th_def scan_track_per_key_def)
  moreover have "\<forall>e \<in> set sample_scan_events. \<not> is_clear e"
    by (simp add: sample_scan_events_def is_clear_def)
  moreover have "syn_ports sample_scan_events (V4 1, V4 2) = {22, 23}"
    by (auto simp: syn_ports_def sample_scan_events_def)
  moreover have "MarkPort (V4 1) (V4 2) \<notin> set sample_scan_events"
    by (simp add: sample_scan_events_def)
  ultimately have "(V4 1, V4 2) \<in> set (map fst (snd (port_scan_candidates st)))"
    using main by (simp add: th_def)
  then show ?thesis unfolding st_def th_def .
qed

subsection \<open>Answers are not probes\<close>

lemma and_nat_le: "(a :: nat) AND b \<le> b"
proof -
  have "int (a AND b) \<le> int b" by (simp add: of_nat_and_eq)
  then show ?thesis by simp
qed

lemma sent_slot_in: "slots \<noteq> [] \<Longrightarrow> sent_slot slots f < length slots"
  using and_nat_le [of "unat (drop_bit 32 f)" "length slots - 1"]
  by (cases slots) (auto simp: sent_slot_def)

lemma sent_slot_update [simp]: "sent_slot (slots[i := x]) f = sent_slot slots f"
  by (simp add: sent_slot_def)

lemma track_udp_sent:
  "sc_udp_sent (track_udp seed src dst port d st) =
   (sc_udp_sent st)[sent_slot (sc_udp_sent st) (sender_fingerprint seed src (pd_src_port d) dst) :=
      sender_fingerprint seed src (pd_src_port d) dst]"
  by (simp add: track_udp_def Let_def split: option.split prod.split)

lemma sample_fingerprints:
  "sender_fingerprint 7 (V4 1) 5353 (V4 2) = 2823329581336820275"
  "sender_fingerprint 7 (V4 2) 53 (V4 1) = 7088718383385760529"
  by code_simp+

text \<open>The answer to a datagram is never counted as a UDP probe: after a datagram from \<open>a\<close>
  port \<open>p\<close> to \<open>b\<close> port \<open>q\<close>, one back from \<open>b\<close> port \<open>q\<close> to \<open>a\<close> port \<open>p\<close> leaves every table,
  queue and counter as it was, unless it evicts the remembered sender from their common slot
  of the direct-mapped table.\<close>

theorem udp_answers_are_not_probes:
  assumes "st1 = track_udp seed a b q d st" and "sc_udp_sent st \<noteq> []"
    and "st2 = track_udp seed b a (pd_src_port d) d' st1" and "pd_src_port d' = q"
    and "sent_slot (sc_udp_sent st) (sender_fingerprint seed b q a) \<noteq>
      sent_slot (sc_udp_sent st) (sender_fingerprint seed a (pd_src_port d) b)"
  shows "st2 = st1\<lparr>sc_udp_sent := (sc_udp_sent st1)
    [sent_slot (sc_udp_sent st1) (sender_fingerprint seed b q a) := sender_fingerprint seed b q a]\<rparr>"
proof -
  define f where "f = sender_fingerprint seed a (pd_src_port d) b"
  define i where "i = sent_slot (sc_udp_sent st) f"
  have "i < length (sc_udp_sent st)" using assms(2) by (simp add: i_def sent_slot_in)
  then have "sc_udp_sent st1 ! i = f" "sent_slot (sc_udp_sent st1) g = sent_slot (sc_udp_sent st) g" for g
    using assms(1) by (simp_all add: track_udp_sent i_def f_def)
  moreover have "sent_slot (sc_udp_sent st) (sender_fingerprint seed b q a) \<noteq> i"
    using assms(5) by (simp add: i_def f_def)
  ultimately show ?thesis
    using assms(3,4) by (simp add: track_udp_def Let_def i_def flip: f_def)
qed

theorem udp_answers_are_not_probes_witness:
  "let d = sample_port_detail\<lparr>pd_src_port := 5353\<rparr>; d' = sample_port_detail\<lparr>pd_src_port := 53\<rparr>;
       st1 = track_udp 7 (V4 1) (V4 2) 53 d (scan_default\<lparr>sc_udp_sent := replicate 16 0\<rparr>);
       st2 = track_udp 7 (V4 2) (V4 1) 5353 d' st1
   in sc_udp st2 = sc_udp st1 \<and> sc_ready_udp st2 = sc_ready_udp st1"
proof -
  define d where "d = sample_port_detail\<lparr>pd_src_port := 5353\<rparr>"
  define d' where "d' = sample_port_detail\<lparr>pd_src_port := 53\<rparr>"
  define st where "st = scan_default\<lparr>sc_udp_sent := replicate 16 0\<rparr>"
  have slots: "sc_udp_sent st = replicate 16 0" by (simp add: st_def)
  have "track_udp 7 (V4 2) (V4 1) (pd_src_port d) d' (track_udp 7 (V4 1) (V4 2) 53 d st) =
      (track_udp 7 (V4 1) (V4 2) 53 d st)\<lparr>sc_udp_sent := (sc_udp_sent (track_udp 7 (V4 1) (V4 2) 53 d st))
        [sent_slot (sc_udp_sent (track_udp 7 (V4 1) (V4 2) 53 d st)) (sender_fingerprint 7 (V4 2) 53 (V4 1)) :=
           sender_fingerprint 7 (V4 2) 53 (V4 1)]\<rparr>"
  proof (rule udp_answers_are_not_probes [OF refl _ refl])
    show "sc_udp_sent st \<noteq> []" by (simp add: slots)
    show "pd_src_port d' = 53" by (simp add: d'_def)
    show "sent_slot (sc_udp_sent st) (sender_fingerprint 7 (V4 2) 53 (V4 1)) \<noteq>
        sent_slot (sc_udp_sent st) (sender_fingerprint 7 (V4 1) (pd_src_port d) (V4 2))"
      by (simp add: slots d_def sample_fingerprints sent_slot_def)
  qed
  then show ?thesis by (simp add: Let_def d_def d'_def flip: st_def)
qed

end
