(* ===== verification/Beacon.thy ===== *)
theory Beacon
  imports Scan
begin

text \<open>
  \<open>heuristics/beacon.rs\<close>: periodic reconnections by the coefficient of variation of the gaps
  between connection attempts. The statistic is modelled over the reals (the code computes it
  in \<open>f64\<close>; sums of at most sixteen 16-bit gaps are exact there, the division and the root
  round), with \<open>None\<close> for the code's \<open>INFINITY\<close>.
\<close>

definition heuristic_max_keys :: nat where "heuristic_max_keys = scan_max_keys"

definition min_intervals :: nat where "min_intervals = 8"
definition max_cv :: real where "max_cv = 1 / 5"
definition min_interval_secs :: nat where "min_interval_secs = 5"
definition max_interval_secs :: nat where "max_interval_secs = 6 * 3600"
definition swarm_peers :: nat where "swarm_peers = 8"
definition stale_after_secs :: nat where "stale_after_secs = 24 * 3600"
definition kept_intervals :: nat where "kept_intervals = min_intervals * 2"

lemmas beacon_consts = min_intervals_def min_interval_secs_def max_interval_secs_def
  swarm_peers_def stale_after_secs_def kept_intervals_def heuristic_max_keys_def scan_max_keys_def

record flow =
  fl_last_sec :: nat
  fl_gaps :: "u16 list"
  fl_len :: nat
  fl_head :: nat
  fl_alerted :: bool

definition flow_new :: "nat \<Rightarrow> flow" where
  "flow_new sec = \<lparr>fl_last_sec = sec, fl_gaps = replicate kept_intervals 0, fl_len = 0, fl_head = 0,
     fl_alerted = False\<rparr>"

definition push_gap :: "nat \<Rightarrow> flow \<Rightarrow> flow" where
  "push_gap gap f = f\<lparr>fl_gaps := (fl_gaps f)[fl_head f := of_nat (min gap 65535)],
     fl_head := (fl_head f + 1) mod kept_intervals, fl_len := min (fl_len f + 1) kept_intervals\<rparr>"

definition flow_cv :: "flow \<Rightarrow> real option" where
  "flow_cv f =
     (let n = fl_len f; gaps = map unat (take n (fl_gaps f))
      in if n < 2 then None
         else (let mean = real (sum_list gaps) / real n
               in if mean \<le> 0 then None
                  else (let var = sum_list (map (\<lambda>g. (real g - mean) * (real g - mean)) gaps)
                        in Some (sqrt (var / real n) / mean))))"

text \<open>\<open>flow.cv() > MAX_CV\<close>, infinity included.\<close>

definition irregular :: "flow \<Rightarrow> bool" where
  "irregular f = (case flow_cv f of None \<Rightarrow> True | Some c \<Rightarrow> c > max_cv)"

record beacon_tracker =
  bt_flows :: "(ip \<times> ip \<times> u16, flow) amap"
  bt_saturations :: nat
  bt_pruned_hour :: "nat option"

definition bt_default :: beacon_tracker where
  "bt_default = \<lparr>bt_flows = [], bt_saturations = 0, bt_pruned_hour = None\<rparr>"

definition swarm_peer :: "ip \<Rightarrow> nat \<Rightarrow> (ip \<times> ip \<times> u16) \<times> flow \<Rightarrow> bool" where
  "swarm_peer src sec e = (case e of ((s, _, _), f) \<Rightarrow>
     s = src \<and> fl_len f \<ge> min_intervals div 2 \<and> sec - min (fl_last_sec f) sec \<le> max_interval_secs)"

definition is_swarm :: "beacon_tracker \<Rightarrow> ip \<Rightarrow> nat \<Rightarrow> bool" where
  "is_swarm bt src sec = (swarm_peers \<le> length (filter (swarm_peer src sec) (bt_flows bt)))"

definition bt_observe :: "ip \<Rightarrow> ip \<Rightarrow> u16 \<Rightarrow> nat \<Rightarrow> beacon_tracker \<Rightarrow> bool \<times> beacon_tracker" where
  "bt_observe src dst port sec bt =
     (let full = length (bt_flows bt) \<ge> heuristic_max_keys; key = (src, dst, port);
          store = (\<lambda>f. bt\<lparr>bt_flows := AList.update key f (bt_flows bt)\<rparr>)
      in case map_of (bt_flows bt) key of
           Some f \<Rightarrow>
             if sec \<le> fl_last_sec f then (False, bt)
             else (let gap = sec - fl_last_sec f; f1 = f\<lparr>fl_last_sec := sec\<rparr>
                   in if gap > max_interval_secs then (False, store (f1\<lparr>fl_len := 0, fl_head := 0\<rparr>))
                      else if gap < min_interval_secs then (False, store f1)
                      else (let f2 = push_gap gap f1
                            in if fl_alerted f2 \<or> fl_len f2 < min_intervals then (False, store f2)
                               else if irregular f2 then (False, store f2)
                               else (let bt' = store (f2\<lparr>fl_alerted := True\<rparr>)
                                     in (\<not> is_swarm bt' src sec, bt'))))
         | None \<Rightarrow>
             if full then (False, bt\<lparr>bt_saturations := bt_saturations bt + 1\<rparr>)
             else (False, store (flow_new sec)))"

definition bt_maybe_prune :: "nat \<Rightarrow> beacon_tracker \<Rightarrow> beacon_tracker" where
  "bt_maybe_prune sec bt =
     (let hour = sec div 3600
      in if bt_pruned_hour bt = Some hour then bt
         else bt\<lparr>bt_pruned_hour := Some hour,
                 bt_flows := filter (\<lambda>(_, f). sec - fl_last_sec f \<le> stale_after_secs) (bt_flows bt)\<rparr>)"

section \<open>The key cap\<close>

datatype beacon_event = Connect ip ip u16 nat | BeaconTick nat

fun beacon_step :: "beacon_event \<Rightarrow> beacon_tracker \<Rightarrow> beacon_tracker" where
  "beacon_step (Connect src dst port sec) bt = snd (bt_observe src dst port sec bt)"
| "beacon_step (BeaconTick sec) bt = bt_maybe_prune sec bt"

definition beacon_keys :: "beacon_tracker \<Rightarrow> (ip \<times> ip \<times> u16) set" where
  "beacon_keys bt = fst ` set (bt_flows bt)"

text \<open>What the hourly tick drops: flows silent for a day.\<close>

fun beacon_dropped :: "beacon_event \<Rightarrow> beacon_tracker \<Rightarrow> (ip \<times> ip \<times> u16) set" where
  "beacon_dropped (Connect src dst port sec) bt = {}"
| "beacon_dropped (BeaconTick sec) bt = {k. \<exists>f. (k, f) \<in> set (bt_flows bt) \<and> stale_after_secs < sec - fl_last_sec f}"

definition good_gap :: "u16 \<Rightarrow> bool" where
  "good_gap g \<longleftrightarrow> min_interval_secs \<le> unat g \<and> unat g \<le> max_interval_secs"

definition flow_ok :: "flow \<Rightarrow> bool" where
  "flow_ok f \<longleftrightarrow> length (fl_gaps f) = kept_intervals \<and> fl_len f \<le> kept_intervals \<and>
     fl_head f < kept_intervals \<and> (fl_len f < kept_intervals \<longrightarrow> fl_head f = fl_len f) \<and>
     (\<forall>g \<in> set (take (fl_len f) (fl_gaps f)). good_gap g)"

definition beacon_inv :: "beacon_tracker \<Rightarrow> bool" where
  "beacon_inv bt \<longleftrightarrow> distinct (map fst (bt_flows bt)) \<and> (\<forall>(k, f) \<in> set (bt_flows bt). flow_ok f)"

lemma flow_ok_new: "flow_ok (flow_new sec)"
  by (simp add: flow_ok_def flow_new_def kept_intervals_def min_intervals_def)

lemma kept_pos: "0 < kept_intervals"
  by (simp add: kept_intervals_def min_intervals_def)

lemma push_gap_partial:
  assumes "flow_ok f" and "fl_len f < kept_intervals"
  shows "take (fl_len (push_gap gap f)) (fl_gaps (push_gap gap f)) =
    take (fl_len f) (fl_gaps f) @ [of_nat (min gap 65535)]"
  using assms by (simp add: flow_ok_def push_gap_def take_Suc_conv_app_nth)

lemma unat_gap: "gap \<le> max_interval_secs \<Longrightarrow> unat (of_nat (min gap 65535) :: u16) = gap"
  by (simp add: max_interval_secs_def min_def unsigned_of_nat take_bit_nat_eq_self)

lemma flow_ok_push:
  assumes "flow_ok f" and "min_interval_secs \<le> gap" and "gap \<le> max_interval_secs"
  shows "flow_ok (push_gap gap f)"
proof -
  have g: "good_gap (of_nat (min gap 65535))"
    using assms(2,3) by (simp add: good_gap_def unat_gap)
  have head: "fl_head (push_gap gap f) < kept_intervals"
    using kept_pos by (simp add: push_gap_def)
  have len: "length (fl_gaps (push_gap gap f)) = kept_intervals" "fl_len (push_gap gap f) \<le> kept_intervals"
    using assms(1) by (simp_all add: push_gap_def flow_ok_def)
  show ?thesis
  proof (cases "fl_len f < kept_intervals")
    case True
    then have "fl_len (push_gap gap f) < kept_intervals \<longrightarrow> fl_head (push_gap gap f) = fl_len (push_gap gap f)"
      using assms(1) by (simp add: push_gap_def flow_ok_def)
    then show ?thesis
      using head len g assms(1) unfolding flow_ok_def [of "push_gap gap f"] push_gap_partial [OF assms(1) True]
      by (auto simp: flow_ok_def)
  next
    case False
    then have "fl_len f = kept_intervals" using assms(1) by (simp add: flow_ok_def)
    moreover from this have "\<forall>x \<in> set (fl_gaps (push_gap gap f)). good_gap x"
      using assms(1) g set_update_subset_insert [of "fl_gaps f" "fl_head f" "of_nat (min gap 65535)"]
      by (auto simp: push_gap_def flow_ok_def)
    ultimately show ?thesis
      using head len by (simp add: flow_ok_def push_gap_def)
  qed
qed

lemma amap_update_fst: "(x, y) \<in> set (AList.update k v m) \<Longrightarrow> x = k \<or> x \<in> fst ` set m"
  using amap_set_update [of k v m] by force

lemma sum_list_ge: "\<forall>g \<in> set gs. c \<le> g \<Longrightarrow> c * length gs \<le> sum_list (gs :: nat list)"
  by (induction gs) auto

lemma flow_ok_reset: "flow_ok f \<Longrightarrow> flow_ok (f\<lparr>fl_last_sec := s, fl_len := 0, fl_head := 0\<rparr>)"
  by (simp add: flow_ok_def kept_pos)

lemma flow_ok_fields [simp]:
  "flow_ok (f\<lparr>fl_last_sec := s\<rparr>) \<longleftrightarrow> flow_ok f" "flow_ok (f\<lparr>fl_alerted := a\<rparr>) \<longleftrightarrow> flow_ok f"
  by (simp_all add: flow_ok_def)

lemma update_inv:
  "beacon_inv bt \<Longrightarrow> flow_ok f \<Longrightarrow> beacon_inv (bt\<lparr>bt_flows := AList.update k f (bt_flows bt)\<rparr>)"
  using amap_set_update [of k f "bt_flows bt"] by (auto simp: beacon_inv_def distinct_update)

lemma beacon_inv_get: "beacon_inv bt \<Longrightarrow> map_of (bt_flows bt) k = Some f \<Longrightarrow> flow_ok f"
  by (auto simp: beacon_inv_def dest!: map_of_SomeD)

lemma bt_observe_cases:
  assumes "bt_observe src dst port sec bt = (alert, bt')" and "beacon_inv bt"
  shows "bt' = bt \<or> (bt' = bt\<lparr>bt_saturations := bt_saturations bt + 1\<rparr> \<and>
      heuristic_max_keys \<le> length (bt_flows bt) \<and> map_of (bt_flows bt) (src, dst, port) = None) \<or>
    (\<exists>f. bt' = bt\<lparr>bt_flows := AList.update (src, dst, port) f (bt_flows bt)\<rparr> \<and> flow_ok f \<and>
      (map_of (bt_flows bt) (src, dst, port) = None \<longrightarrow> length (bt_flows bt) < heuristic_max_keys))"
proof (cases "map_of (bt_flows bt) (src, dst, port)")
  case None
  then show ?thesis
    using assms(1) flow_ok_new [of sec]
    by (cases "heuristic_max_keys \<le> length (bt_flows bt)") (auto simp: bt_observe_def Let_def)
next
  case (Some f)
  have ok: "flow_ok f" using beacon_inv_get [OF assms(2) Some] .
  define gap where "gap = sec - fl_last_sec f"
  define f1 where "f1 = f\<lparr>fl_last_sec := sec\<rparr>"
  have ok1: "flow_ok f1" using ok by (simp add: f1_def)
  have ok0: "flow_ok (f1\<lparr>fl_len := 0, fl_head := 0\<rparr>)" using flow_ok_reset [OF ok, of sec] by (simp add: f1_def)
  have ok2: "flow_ok (push_gap gap f1)" if "\<not> gap > max_interval_secs" "\<not> gap < min_interval_secs"
    using flow_ok_push [OF ok1, of gap] that by simp
  show ?thesis
    using assms(1) Some ok1 ok0 ok2
    by (simp add: bt_observe_def Let_def split: if_splits flip: gap_def f1_def) fastforce+
qed

lemma saturate_inv: "beacon_inv bt \<Longrightarrow> beacon_inv (bt\<lparr>bt_saturations := n\<rparr>)"
  by (simp add: beacon_inv_def)

lemma bt_observe_inv:
  assumes "beacon_inv bt"
  shows "beacon_inv (snd (bt_observe src dst port sec bt))"
  using bt_observe_cases [OF _ assms, of src dst port sec] assms
  by (cases "bt_observe src dst port sec bt") (auto intro: update_inv saturate_inv)

lemma bt_prune_inv: "beacon_inv bt \<Longrightarrow> beacon_inv (bt_maybe_prune sec bt)"
  by (auto simp: bt_maybe_prune_def Let_def beacon_inv_def distinct_map_filter)

lemma beacon_keys_update [simp]:
  "beacon_keys (bt\<lparr>bt_flows := AList.update k f (bt_flows bt)\<rparr>) = insert k (beacon_keys bt)"
  "beacon_keys (bt\<lparr>bt_saturations := n\<rparr>) = beacon_keys bt"
  by (simp_all add: beacon_keys_def amap_simps)

lemma beacon_keys_get: "map_of (bt_flows bt) k = Some f \<Longrightarrow> k \<in> beacon_keys bt"
  by (auto simp: beacon_keys_def dest: amap_get_in)

lemma beacon_keys_finite [simp]: "finite (beacon_keys bt)"
  by (simp add: beacon_keys_def)

interpretation beacon: capped_accumulator beacon_keys beacon_step beacon_dropped beacon_inv heuristic_max_keys
proof unfold_locales
  fix bt e
  show "finite (beacon_keys bt)" by (simp add: beacon_keys_def)
  assume inv: "beacon_inv bt"
  then have len: "length (bt_flows bt) = card (beacon_keys bt)"
    by (simp add: beacon_inv_def beacon_keys_def amap_length_card)
  show "beacon_inv (beacon_step e bt)"
    using inv by (cases e) (auto intro: bt_observe_inv bt_prune_inv)
  show "card (beacon_keys (beacon_step e bt)) \<le> card (beacon_keys bt) + 1"
  proof (cases e)
    case (Connect src dst port sec)
    then show ?thesis
      using bt_observe_cases [OF _ inv, of src dst port sec]
      by (cases "bt_observe src dst port sec bt") (auto simp: card_insert_if)
  next
    case (BeaconTick sec)
    then show ?thesis
      by (auto simp: beacon_keys_def bt_maybe_prune_def Let_def intro!: card_mono le_SucI)
  qed
  show "heuristic_max_keys \<le> card (beacon_keys bt) \<Longrightarrow> beacon_keys (beacon_step e bt) \<subseteq> beacon_keys bt"
  proof (cases e)
    case (Connect src dst port sec)
    then show "heuristic_max_keys \<le> card (beacon_keys bt) \<Longrightarrow> ?thesis"
      using bt_observe_cases [OF _ inv, of src dst port sec] len
      by (cases "bt_observe src dst port sec bt") (auto dest: beacon_keys_get)
  next
    case (BeaconTick sec)
    then show ?thesis by (auto simp: beacon_keys_def bt_maybe_prune_def Let_def)
  qed
  show "beacon_keys bt - beacon_dropped e bt \<subseteq> beacon_keys (beacon_step e bt)"
  proof (cases e)
    case (Connect src dst port sec)
    then show ?thesis
      using bt_observe_cases [OF _ inv, of src dst port sec]
      by (cases "bt_observe src dst port sec bt") auto
  next
    case (BeaconTick sec)
    then show ?thesis by (force simp: beacon_keys_def bt_maybe_prune_def Let_def image_iff)
  qed
qed

section \<open>What an alert means\<close>

definition gaps_of :: "flow \<Rightarrow> nat list" where
  "gaps_of f = map unat (take (fl_len f) (fl_gaps f))"

definition gap_mean :: "nat list \<Rightarrow> real" where
  "gap_mean gs = real (sum_list gs) / real (length gs)"

definition gap_variance :: "nat list \<Rightarrow> real" where
  "gap_variance gs = sum_list (map (\<lambda>g. (real g - gap_mean gs)\<^sup>2) gs) / real (length gs)"

lemma gaps_of_length: "flow_ok f \<Longrightarrow> length (gaps_of f) = fl_len f"
  by (simp add: gaps_of_def flow_ok_def)

lemma flow_cv_gaps:
  assumes "flow_ok f" and "2 \<le> fl_len f"
  shows "flow_cv f = Some (sqrt (gap_variance (gaps_of f)) / gap_mean (gaps_of f))"
    and "0 < gap_mean (gaps_of f)"
proof -
  have len: "length (gaps_of f) = fl_len f" by (rule gaps_of_length [OF assms(1)])
  have "\<forall>g \<in> set (gaps_of f). 5 \<le> g"
    using assms(1) by (auto simp: flow_ok_def good_gap_def gaps_of_def min_interval_secs_def)
  from sum_list_ge [OF this] have "0 < sum_list (gaps_of f)"
    using len assms(2) by simp
  then show pos: "0 < gap_mean (gaps_of f)"
    using len assms(2) by (simp add: gap_mean_def)
  have mean: "real (sum_list (map unat (take (fl_len f) (fl_gaps f)))) / real (fl_len f) = gap_mean (gaps_of f)"
    using len by (simp add: gap_mean_def gaps_of_def)
  have var: "sum_list (map (\<lambda>g. (real g - gap_mean (gaps_of f)) * (real g - gap_mean (gaps_of f)))
      (map unat (take (fl_len f) (fl_gaps f)))) / real (fl_len f) = gap_variance (gaps_of f)"
    using len by (simp add: gap_variance_def gaps_of_def power2_eq_square)
  show "flow_cv f = Some (sqrt (gap_variance (gaps_of f)) / gap_mean (gaps_of f))"
    unfolding flow_cv_def Let_def mean var using assms(2) pos by simp
qed

text \<open>C15: a beacon alert means a timer: when an attempt completes a verdict, the flow has at least
  eight recorded gaps, each between 5 seconds and 6 hours, their standard deviation is at most
  a fifth of their mean, the flow had not alerted before, and the source is not a swarm
  client.\<close>

theorem beacon_alert_means_timer:
  assumes "beacon_inv bt" and "bt_observe src dst port sec bt = (True, bt')"
  shows "\<exists>f. map_of (bt_flows bt') (src, dst, port) = Some f \<and> fl_alerted f \<and>
    min_intervals \<le> length (gaps_of f) \<and>
    (\<forall>g \<in> set (gaps_of f). min_interval_secs \<le> g \<and> g \<le> max_interval_secs) \<and>
    sqrt (gap_variance (gaps_of f)) \<le> gap_mean (gaps_of f) / 5 \<and>
    \<not> fl_alerted (the (map_of (bt_flows bt) (src, dst, port))) \<and> \<not> is_swarm bt' src sec"
proof -
  from assms(2) obtain f0 where f0: "map_of (bt_flows bt) (src, dst, port) = Some f0"
    by (auto simp: bt_observe_def Let_def split: option.splits if_splits)
  define gap where "gap = sec - fl_last_sec f0"
  define f where "f = push_gap gap (f0\<lparr>fl_last_sec := sec\<rparr>)"
  have f: "\<not> fl_alerted f" "min_intervals \<le> fl_len f" "\<not> irregular f" "\<not> is_swarm bt' src sec"
    "gap \<le> max_interval_secs" "min_interval_secs \<le> gap"
    "bt' = bt\<lparr>bt_flows := AList.update (src, dst, port) (f\<lparr>fl_alerted := True\<rparr>) (bt_flows bt)\<rparr>"
    using assms(2) f0 by (auto simp: bt_observe_def Let_def f_def gap_def split: if_splits)
  have ok: "flow_ok f" unfolding f_def
    using beacon_inv_get [OF assms(1) f0] f(5,6) by (intro flow_ok_push) simp_all
  have "2 \<le> fl_len f" using f(2) by (simp add: min_intervals_def)
  note cv = flow_cv_gaps [OF ok this]
  have "sqrt (gap_variance (gaps_of f)) \<le> gap_mean (gaps_of f) / 5"
    using f(3) cv by (simp add: irregular_def max_cv_def field_simps)
  moreover have "gaps_of (f\<lparr>fl_alerted := True\<rparr>) = gaps_of f" by (simp add: gaps_of_def)
  moreover have "\<forall>g \<in> set (gaps_of f). min_interval_secs \<le> g \<and> g \<le> max_interval_secs"
    using ok by (auto simp: flow_ok_def good_gap_def gaps_of_def)
  moreover have "\<not> fl_alerted f0" using f(1) by (simp add: f_def push_gap_def)
  ultimately show ?thesis
    using f f0 gaps_of_length [OF ok] by (simp add: amap_simps)
qed

section \<open>A regular timer\<close>

fun observe_all :: "ip \<Rightarrow> ip \<Rightarrow> u16 \<Rightarrow> nat list \<Rightarrow> beacon_tracker \<Rightarrow> bool list \<times> beacon_tracker" where
  "observe_all src dst port [] bt = ([], bt)"
| "observe_all src dst port (t # ts) bt =
     (let (a, bt1) = bt_observe src dst port t bt; (as, bt2) = observe_all src dst port ts bt1 in (a # as, bt2))"

definition timer_state :: "ip \<times> ip \<times> u16 \<Rightarrow> nat \<Rightarrow> nat \<Rightarrow> nat \<Rightarrow> beacon_tracker \<Rightarrow> bool" where
  "timer_state key t0 g i bt \<longleftrightarrow> (\<exists>f. bt_flows bt = [(key, f)] \<and> flow_ok f \<and> fl_last_sec f = t0 + i * g \<and>
     fl_len f = min i kept_intervals \<and> set (gaps_of f) \<subseteq> {g} \<and> fl_alerted f = (min_intervals \<le> i))"

lemma gaps_of_push:
  assumes "flow_ok f" and "gap \<le> max_interval_secs"
  shows "set (gaps_of (push_gap gap f)) \<subseteq> insert gap (set (gaps_of f))"
proof (cases "fl_len f < kept_intervals")
  case True
  then show ?thesis
    unfolding gaps_of_def push_gap_partial [OF assms(1) True] using assms(2) by (simp add: unat_gap)
next
  case False
  then have "fl_len f = kept_intervals" using assms(1) by (simp add: flow_ok_def)
  then show ?thesis
    using assms set_update_subset_insert [of "fl_gaps f" "fl_head f" "of_nat (min gap 65535)"]
    by (auto simp: gaps_of_def push_gap_def flow_ok_def unat_gap)
qed

lemma constant_gaps_regular:
  assumes "flow_ok f" and "2 \<le> fl_len f" and "set (gaps_of f) \<subseteq> {g}"
  shows "\<not> irregular f"
proof -
  have "gaps_of f = replicate (fl_len f) g"
    using assms(3) gaps_of_length [OF assms(1)] by (intro replicate_eqI) auto
  then have "gap_variance (gaps_of f) = 0"
    using assms(2) by (simp add: gap_variance_def gap_mean_def sum_list_replicate)
  then show ?thesis
    using flow_cv_gaps [OF assms(1,2)] by (simp add: irregular_def max_cv_def)
qed

lemma timer_state_step:
  assumes "timer_state (src, dst, port) t0 g i bt" and "min_interval_secs \<le> g" and "g \<le> max_interval_secs"
    and "bt_observe src dst port (t0 + Suc i * g) bt = (a, bt')"
  shows "a = (Suc i = min_intervals) \<and> timer_state (src, dst, port) t0 g (Suc i) bt'"
proof -
  obtain f where f: "bt_flows bt = [((src, dst, port), f)]" "flow_ok f" "fl_last_sec f = t0 + i * g"
    "fl_len f = min i kept_intervals" "set (gaps_of f) \<subseteq> {g}" "fl_alerted f = (min_intervals \<le> i)"
    using assms(1) by (auto simp: timer_state_def)
  define sec where "sec = t0 + Suc i * g"
  define f2 where "f2 = push_gap g (f\<lparr>fl_last_sec := sec\<rparr>)"
  have ok: "flow_ok f2" unfolding f2_def using f(2) assms(2,3) by (intro flow_ok_push) simp_all
  have gaps: "set (gaps_of f2) \<subseteq> {g}"
    using gaps_of_push [of "f\<lparr>fl_last_sec := sec\<rparr>" g] f(2,5) assms(3)
    by (auto simp: f2_def gaps_of_def)
  have len: "fl_len f2 = min (Suc i) kept_intervals" using f(4) by (simp add: f2_def push_gap_def)
  have f2: "fl_alerted f2 = (min_intervals \<le> i)" "fl_last_sec f2 = sec"
    using f(6) by (simp_all add: f2_def push_gap_def)
  have g: "0 < g" using assms(2) by (simp add: min_interval_secs_def)
  have reg: "\<not> irregular f2" if "min_intervals \<le> Suc i"
    using that len by (intro constant_gaps_regular [OF ok _ gaps]) (simp add: beacon_consts)
  have gap: "sec - fl_last_sec f = g" "\<not> sec \<le> fl_last_sec f"
    using f(3) g by (simp_all add: sec_def)
  have swarm: "\<not> is_swarm (bt\<lparr>bt_flows := [((src, dst, port), f')]\<rparr>) src sec" for f'
    by (simp add: is_swarm_def swarm_peers_def)
  have few: "fl_len f2 < min_intervals \<longleftrightarrow> Suc i < min_intervals"
    using len by (auto simp: beacon_consts min_def)
  show ?thesis
  proof (cases "fl_alerted f2 \<or> fl_len f2 < min_intervals")
    case True
    then have "a = False \<and> bt' = bt\<lparr>bt_flows := [((src, dst, port), f2)]\<rparr>"
      using assms(2-4) f(1) gap by (auto simp: bt_observe_def Let_def f2_def sec_def)
    then show ?thesis
      using True ok gaps len f2 few by (auto simp: timer_state_def sec_def)
  next
    case False
    then have i: "Suc i = min_intervals" using f2 few by simp
    then have "a = True \<and> bt' = bt\<lparr>bt_flows := [((src, dst, port), f2\<lparr>fl_alerted := True\<rparr>)]\<rparr>"
      using assms(2-4) f(1) gap False reg swarm by (auto simp: bt_observe_def Let_def f2_def sec_def)
    then show ?thesis
      using i ok gaps len f2 by (auto simp: timer_state_def sec_def gaps_of_def)
  qed
qed

lemma timer_run:
  assumes "min_interval_secs \<le> g" and "g \<le> max_interval_secs"
  shows "timer_state (src, dst, port) t0 g i bt \<Longrightarrow>
    fst (observe_all src dst port (map (\<lambda>j. t0 + j * g) [Suc i..<Suc i + n]) bt) =
    map (\<lambda>j. j = min_intervals) [Suc i..<Suc i + n]"
proof (induction n arbitrary: i bt)
  case 0
  then show ?case by simp
next
  case (Suc n)
  obtain a bt' where o: "bt_observe src dst port (t0 + Suc i * g) bt = (a, bt')" by fastforce
  have "a = (Suc i = min_intervals)" "timer_state (src, dst, port) t0 g (Suc i) bt'"
    using timer_state_step [OF Suc.prems assms o] by auto
  moreover have "[Suc i..<Suc i + Suc n] = Suc i # [Suc (Suc i)..<Suc (Suc i) + n]"
    by (simp add: upt_rec)
  ultimately show ?case
    using Suc.IH [of "Suc i" bt'] o by (auto simp: case_prod_beta Let_def)
qed

text \<open>C16: a regular timer is caught exactly once: connection attempts to one destination every \<open>g\<close>
  seconds, for any \<open>g\<close> from 5 seconds to 6 hours, alert at the ninth attempt (the eighth gap)
  and at no other, however long the timer runs.\<close>

theorem regular_timer_is_reported_once:
  assumes "min_interval_secs \<le> g" and "g \<le> max_interval_secs"
  shows "fst (observe_all src dst port (map (\<lambda>j. t0 + j * g) [0..<Suc n]) bt_default) =
    map (\<lambda>j. j = min_intervals) [0..<Suc n]"
proof -
  have "bt_observe src dst port t0 bt_default = (False, bt_default\<lparr>bt_flows := [((src, dst, port), flow_new t0)]\<rparr>)"
    by (simp add: bt_observe_def bt_default_def beacon_consts)
  moreover have "timer_state (src, dst, port) t0 g 0 (bt_default\<lparr>bt_flows := [((src, dst, port), flow_new t0)]\<rparr>)"
    using flow_ok_new [of t0] by (simp add: timer_state_def flow_new_def gaps_of_def min_intervals_def)
  note timer_run [OF assms this, of n]
  moreover have "[0..<Suc n] = 0 # [Suc 0..<Suc 0 + n]" by (simp add: upt_rec)
  ultimately show ?thesis by (simp add: min_intervals_def case_prod_beta Let_def del: upt_Suc)
qed

theorem regular_timer_is_reported_once_witness:
  "fst (observe_all (V4 1) (V4 2) 443 (map (\<lambda>j. 1000 + j * 30) [0..<Suc 11]) bt_default) =
   [False, False, False, False, False, False, False, False, True, False, False, False]"
  using regular_timer_is_reported_once [of 30 "V4 1" "V4 2" 443 1000 11]
  by (simp add: beacon_consts upt_rec del: observe_all.simps)

definition sample_flow :: flow where
  "sample_flow = \<lparr>fl_last_sec = 1000, fl_gaps = replicate 16 30, fl_len = 7, fl_head = 7, fl_alerted = False\<rparr>"

theorem beacon_alert_means_timer_witness:
  "\<exists>bt bt' f. bt_observe (V4 1) (V4 2) 443 1030 bt = (True, bt') \<and>
     map_of (bt_flows bt') (V4 1, V4 2, 443) = Some f \<and> sqrt (gap_variance (gaps_of f)) \<le> gap_mean (gaps_of f) / 5"
proof -
  define bt where "bt = bt_default\<lparr>bt_flows := [((V4 1, V4 2, 443), sample_flow)]\<rparr>"
  have ok: "flow_ok sample_flow"
    by (simp add: flow_ok_def sample_flow_def beacon_consts good_gap_def)
  then have inv: "beacon_inv bt" by (simp add: beacon_inv_def bt_def bt_default_def)
  define f where "f = push_gap 30 (sample_flow\<lparr>fl_last_sec := 1030\<rparr>)"
  have "set (gaps_of f) \<subseteq> insert 30 (set (gaps_of (sample_flow\<lparr>fl_last_sec := 1030\<rparr>)))"
    unfolding f_def using ok by (intro gaps_of_push) (simp_all add: beacon_consts)
  then have "set (gaps_of f) \<subseteq> {30}" by (auto simp: gaps_of_def sample_flow_def)
  moreover have "flow_ok f" unfolding f_def using ok by (intro flow_ok_push) (simp_all add: beacon_consts)
  moreover have len: "fl_len f = 8" "\<not> fl_alerted f"
    by (simp_all add: f_def push_gap_def sample_flow_def beacon_consts)
  ultimately have "\<not> irregular f" by (intro constant_gaps_regular) simp_all
  then have "\<exists>bt'. bt_observe (V4 1) (V4 2) 443 1030 bt = (True, bt')"
    using len by (auto simp: bt_observe_def bt_def Let_def beacon_consts is_swarm_def sample_flow_def f_def)
  then obtain bt' where o: "bt_observe (V4 1) (V4 2) 443 1030 bt = (True, bt')" by blast
  from beacon_alert_means_timer [OF inv o] show ?thesis using o by blast
qed

text \<open>An attempt less than five seconds after the previous one records no gap and raises no
  alert, but it does move the flow's clock: the next gap is measured from the retry.\<close>

theorem retries_move_the_clock:
  assumes "map_of (bt_flows bt) (src, dst, port) = Some f"
    and "fl_last_sec f < sec" and "sec - fl_last_sec f < min_interval_secs"
  shows "bt_observe src dst port sec bt =
    (False, bt\<lparr>bt_flows := AList.update (src, dst, port) (f\<lparr>fl_last_sec := sec\<rparr>) (bt_flows bt)\<rparr>)"
  using assms by (simp add: bt_observe_def beacon_consts)

theorem retries_move_the_clock_witness:
  "bt_observe (V4 1) (V4 2) 443 1003 (bt_default\<lparr>bt_flows := [((V4 1, V4 2, 443), sample_flow)]\<rparr>) =
   (False, bt_default\<lparr>bt_flows := [((V4 1, V4 2, 443), sample_flow\<lparr>fl_last_sec := 1003\<rparr>)]\<rparr>)"
  using retries_move_the_clock [of "bt_default\<lparr>bt_flows := [((V4 1, V4 2, 443), sample_flow)]\<rparr>"
      "V4 1" "V4 2" 443 sample_flow 1003]
  by (simp add: sample_flow_def beacon_consts)

end
