(* ===== verification/Icmp.thy ===== *)
theory Icmp
  imports Names Beacon
begin

text \<open>
  \<open>heuristics/icmp.rs\<close>: the echo payloads of ordinary ping tools, by precomputed tables and by
  the byte-by-byte original; and the text form of the address prefixes that \<open>scan.rs\<close> keeps
  as numbers.
\<close>

definition timestamp_len :: nat where "timestamp_len = 16"
definition table_len :: nat where "table_len = 1536"

definition distinct_part :: "bytes \<Rightarrow> bytes" where
  "distinct_part data = (case b_from data timestamp_len of Some d \<Rightarrow> d | None \<Rightarrow> [])"

definition windows_fill :: bytes where
  "windows_fill = map (\<lambda>i. 97 + of_nat (i mod 23)) [0..<table_len]"

definition counting_fill :: bytes where
  "counting_fill = map of_nat [0..<table_len]"

definition is_standard_echo_payload_bytewise :: "bytes \<Rightarrow> bool" where
  "is_standard_echo_payload_bytewise data =
     (if length data \<le> timestamp_len then True
      else (let first = data ! 0
            in if list_all (\<lambda>b. b = first) data then True
               else if list_all (\<lambda>(i, b). b = 97 + of_nat (i mod 23)) (enumerate 0 data) then True
               else list_ex (\<lambda>skip. length data > skip \<and>
                      list_all (\<lambda>(b, i). b = of_nat i) (zip (drop skip data) [skip..<length data])) [8, 16]))"

definition is_standard_echo_payload :: "bytes \<Rightarrow> bool" where
  "is_standard_echo_payload data =
     (let n = length data
      in if n \<le> timestamp_len then True
         else if n > table_len then is_standard_echo_payload_bytewise data
         else drop 1 data = take (n - 1) data
            \<or> data = take n windows_fill
            \<or> drop 16 data = take (n - 16) (drop 16 counting_fill))"

lemma shift_constant:
  "data \<noteq> [] \<Longrightarrow> drop 1 data = take (length data - 1) data \<longleftrightarrow> (\<forall>i < length data. data ! i = data ! 0)"
proof
  assume "data \<noteq> []" and "drop 1 data = take (length data - 1) data"
  then have step: "data ! Suc i = data ! i" if "Suc i < length data" for i
    using that by (metis One_nat_def Suc_less_eq Suc_pred add.commute length_greater_0_conv nth_drop nth_take
        plus_1_eq_Suc Suc_leI)
  show "\<forall>i < length data. data ! i = data ! 0"
  proof (intro allI impI)
    fix i
    show "i < length data \<Longrightarrow> data ! i = data ! 0" by (induction i) (use step in auto)
  qed
next
  assume "data \<noteq> []" and *: "\<forall>i < length data. data ! i = data ! 0"
  show "drop 1 data = take (length data - 1) data"
  proof (rule nth_equalityI)
    fix i
    assume "i < length (drop 1 data)"
    then have "Suc i < length data" by simp
    then have "data ! Suc i = data ! 0" "data ! i = data ! 0" using * by auto
    then show "drop 1 data ! i = take (length data - 1) data ! i"
      using \<open>Suc i < length data\<close> by simp
  qed simp
qed

lemma shift_index: "(\<forall>j < n - k. P (k + j)) \<longleftrightarrow> (\<forall>i. k \<le> i \<and> i < n \<longrightarrow> P (i :: nat))"
proof
  assume *: "\<forall>j < n - k. P (k + j)"
  show "\<forall>i. k \<le> i \<and> i < n \<longrightarrow> P i"
  proof (intro allI impI)
    fix i
    assume "k \<le> i \<and> i < n"
    then show "P i" using * [rule_format, of "i - k"] by auto
  qed
qed simp

lemma counting_from:
  assumes "skip \<le> n" and "length data = n"
  shows "list_all (\<lambda>(b, i). b = of_nat i) (zip (drop skip data) [skip..<n]) \<longleftrightarrow>
    (\<forall>i. skip \<le> i \<and> i < n \<longrightarrow> data ! i = of_nat i)"
proof -
  have "list_all (\<lambda>(b, i). b = of_nat i) (zip (drop skip data) [skip..<n]) \<longleftrightarrow>
      (\<forall>j < n - skip. data ! (skip + j) = of_nat (skip + j))"
    using assms by (auto simp: list_all_length)
  also have "\<dots> \<longleftrightarrow> (\<forall>i. skip \<le> i \<and> i < n \<longrightarrow> data ! i = of_nat i)"
    by (rule shift_index)
  finally show ?thesis .
qed

text \<open>The table comparisons of the echo-payload test answer as the byte-by-byte original does,
  for every payload, whichever side of the table length it is on.\<close>

theorem echo_tables_are_bytewise:
  "is_standard_echo_payload data = is_standard_echo_payload_bytewise data"
proof (cases "length data \<le> timestamp_len \<or> length data > table_len")
  case True
  then show ?thesis
    by (auto simp: is_standard_echo_payload_def is_standard_echo_payload_bytewise_def Let_def)
next
  case False
  define n where "n = length data"
  have n: "16 < n" "n \<le> table_len" using False by (auto simp: n_def timestamp_len_def)
  have "list_all (\<lambda>b. b = data ! 0) data \<longleftrightarrow> (\<forall>i < n. data ! i = data ! 0)"
    by (simp add: list_all_length n_def)
  then have const: "drop 1 data = take (n - 1) data \<longleftrightarrow> list_all (\<lambda>b. b = data ! 0) data"
    using shift_constant [of data] n by (cases data) (simp_all add: n_def)
  have win: "data = take n windows_fill \<longleftrightarrow> list_all (\<lambda>(i, b). b = 97 + of_nat (i mod 23)) (enumerate 0 data)"
    using n(2) by (auto simp: list_all_length windows_fill_def n_def nth_enumerate_eq list_eq_iff_nth_eq)
  have count: "drop 16 data = take (n - 16) (drop 16 counting_fill) \<longleftrightarrow>
      (\<forall>i. 16 \<le> i \<and> i < n \<longrightarrow> data ! i = of_nat i)"
  proof -
    have "drop 16 data = take (n - 16) (drop 16 counting_fill) \<longleftrightarrow>
        (\<forall>j < n - 16. data ! (16 + j) = of_nat (16 + j))"
      using n by (auto simp: counting_fill_def n_def list_eq_iff_nth_eq)
    also have "\<dots> \<longleftrightarrow> (\<forall>i. 16 \<le> i \<and> i < n \<longrightarrow> data ! i = of_nat i)"
      by (rule shift_index)
    finally show ?thesis .
  qed
  have ex: "list_ex (\<lambda>skip. length data > skip \<and>
        list_all (\<lambda>(b, i). b = of_nat i) (zip (drop skip data) [skip..<length data])) [8, 16]
      \<longleftrightarrow> (\<forall>i. 16 \<le> i \<and> i < n \<longrightarrow> data ! i = of_nat i)"
  proof -
    have c: "list_all (\<lambda>(b, i). b = of_nat i) (zip (drop skip data) [skip..<length data]) \<longleftrightarrow>
        (\<forall>i. skip \<le> i \<and> i < n \<longrightarrow> data ! i = of_nat i)" if "skip \<le> n" for skip
      using counting_from [OF that, of data] by (simp add: n_def)
    have "8 \<le> n" "16 \<le> n" "8 < length data" "16 < length data" using n(1) by (simp_all add: n_def)
    then show ?thesis
      by (simp add: c del: One_nat_def) (use le_trans [of "8 :: nat" 16] in \<open>auto\<close>)
  qed
  have len: "\<not> length data \<le> timestamp_len" "\<not> length data > table_len" using False by auto
  have or_if: "(c \<or> w \<or> k) = (if c then True else if w then True else k)" for c w k by auto
  show ?thesis
    unfolding is_standard_echo_payload_def is_standard_echo_payload_bytewise_def Let_def
      if_not_P [OF len(1)] if_not_P [OF len(2)] const [unfolded n_def] win [unfolded n_def]
      count [unfolded n_def] ex [unfolded n_def]
    by (rule or_if)
qed

text \<open>The numeric prefix kept for a tracked source renders to exactly the text the original
  expression leaves of its address (\<open>A.B.\<close> for IPv4).\<close>

theorem native_prefix_is_text_prefix:
  "prefix_render (prefix_of (V4 v)) = strip_last_two_octets_str (ip_render (V4 v))"
proof -
  have hi: "drop_bit 8 (ucast (drop_bit 16 v) :: u16) = (ucast (ucast (drop_bit 24 v) :: u8) :: u16)"
    by (rule bit_word_eqI) (auto simp: bit_drop_bit_eq bit_ucast_iff possible_bit_def ac_simps)
  have "(ucast (drop_bit 16 v) AND mask 8 :: u16) = ucast (ucast (drop_bit 16 v) :: u8)"
    by (rule bit_word_eqI) (auto simp: bit_and_iff bit_mask_iff bit_drop_bit_eq bit_ucast_iff possible_bit_def)
  then have lo: "(ucast (drop_bit 16 v) AND 255 :: u16) = ucast (ucast (drop_bit 16 v) :: u8)"
    by (simp add: mask_eq_exp_minus_1)
  show ?thesis
    using strip_quad [of "dec (unat (ucast (drop_bit 24 v) :: u8)) @ ''.'' @ dec (unat (ucast (drop_bit 16 v) :: u8))"
        "unat (ucast (drop_bit 8 v) :: u8)" "unat (ucast v :: u8)"]
    by (simp add: render_V4 hi lo)
qed

end
