(* ===== verification/Nxdomain.thy ===== *)
theory Nxdomain
  imports Icmp
begin

text \<open>
  \<open>heuristics/nxdomain.rs\<close>: the hourly counters of names that do not exist, keyed by a query
  or by the wildcard of its parent, with their hourly prune. A \<open>StrSet\<close> is a \<open>set\<close>; entropies
  are over the reals.
\<close>

definition no_such_name_per_hour_threshold :: nat where "no_such_name_per_hour_threshold = 20"

record nx_counter =
  nc_hour :: nat
  nc_count :: nat
  nc_names :: "string set"

record nx_counters =
  nx_counters :: "(string, nx_counter) amap"
  nx_saturations :: nat
  nx_pruned_hour :: "nat option"

datatype nx_alert = Wildcard string "string list" | Exact string

definition nx_default :: nx_counters where
  "nx_default = \<lparr>nx_counters = [], nx_saturations = 0, nx_pruned_hour = None\<rparr>"

definition nx_maybe_prune :: "nat \<Rightarrow> nx_counters \<Rightarrow> nx_counters" where
  "nx_maybe_prune sec nx =
     (let hour = sec div 3600
      in if nx_pruned_hour nx = Some hour then nx
         else nx\<lparr>nx_pruned_hour := Some hour,
                 nx_counters := filter (\<lambda>(_, c). nc_hour c = hour) (nx_counters nx)\<rparr>)"

text \<open>\<open>item.replace(suffix, "")\<close>\<close>

function str_remove :: "string \<Rightarrow> string \<Rightarrow> string" where
  "str_remove s w =
     (if w = [] then s
      else case find_sub s w of
             None \<Rightarrow> s
           | Some i \<Rightarrow> take i s @ str_remove (drop (i + length w) s) w)"
  by pat_completeness auto
termination
proof (relation "measure (\<lambda>(s, w). length s)")
  fix s w :: string and i
  have "find_sub s w = Some i \<Longrightarrow> w \<noteq> [] \<Longrightarrow> i < length s"
    by (induction s w arbitrary: i rule: find_sub.induct) (auto simp: starts_with_def split: if_splits option.splits)
  then show "w \<noteq> [] \<Longrightarrow> find_sub s w = Some i \<Longrightarrow> ((drop (i + length w) s, w), s, w) \<in> measure (\<lambda>(s, w). length s)"
    by (cases w) auto
qed simp

declare str_remove.simps [simp del]

definition nx_alert_of :: "string \<Rightarrow> string set \<Rightarrow> nx_alert" where
  "nx_alert_of key names =
     (case strip_prefix key ''*'' of
        Some sfx \<Rightarrow>
          (let sorted = sorted_list_of_set names;
               joined = join '','' (map (\<lambda>item. str_remove item sfx) sorted)
           in Wildcard (''('' @ joined @ '')'' @ sfx) sorted)
      | None \<Rightarrow> Exact key)"

definition nx_observe :: "string \<Rightarrow> string \<Rightarrow> nat \<Rightarrow> nx_counters \<Rightarrow> nx_alert option \<times> nx_counters" where
  "nx_observe key query sec nx =
     (let hour = sec div 3600; m = nx_counters nx;
          fresh = (if length m \<ge> heuristic_max_keys then (None, nx\<lparr>nx_saturations := nx_saturations nx + 1\<rparr>)
                   else (None, nx\<lparr>nx_counters := AList.update key \<lparr>nc_hour = hour, nc_count = 1, nc_names = {}\<rparr> m\<rparr>))
      in case map_of m key of
           Some c \<Rightarrow>
             if nc_hour c = hour
             then (let c = c\<lparr>nc_count := nc_count c + 1, nc_names := insert query (nc_names c)\<rparr>;
                       m = AList.update key c m
                   in if nc_count c \<le> no_such_name_per_hour_threshold then (None, nx\<lparr>nx_counters := m\<rparr>)
                      else (let alert = nx_alert_of key (nc_names c);
                                m = (case alert of Wildcard _ names \<Rightarrow> fold AList.delete names m | Exact _ \<Rightarrow> m)
                            in (Some alert, nx\<lparr>nx_counters := AList.delete key m\<rparr>)))
             else fresh
         | None \<Rightarrow> fresh)"

definition label_entropy :: "string \<Rightarrow> real" where
  "label_entropy part =
     (if part = [] then 0
      else (let chars = str_chars part; len = real (length chars)
            in sum_list (map (\<lambda>c. let p = real (length (filter (\<lambda>x. x = c) chars)) / len in - (p * log 2 p))
                 (remdups chars))))"

definition consonants :: string where "consonants = ''bcdfghjklmnpqrstvwxyz''"

definition consonant_count :: "string \<Rightarrow> nat" where
  "consonant_count part = length (filter (\<lambda>c. c \<in> (\<lambda>x. [x]) ` set consonants) (str_chars part))"

section \<open>The key cap\<close>

datatype nx_event = NxSeen string string nat | NxTick nat

fun nx_step :: "nx_event \<Rightarrow> nx_counters \<Rightarrow> nx_counters" where
  "nx_step (NxSeen key query sec) nx = snd (nx_observe key query sec nx)"
| "nx_step (NxTick sec) nx = nx_maybe_prune sec nx"

definition nx_keys :: "nx_counters \<Rightarrow> string set" where
  "nx_keys nx = fst ` set (nx_counters nx)"

text \<open>What an alert drops: its own key and, for a wildcard, the names it lists; what the tick
  drops: counters of another hour.\<close>

fun nx_dropped :: "nx_event \<Rightarrow> nx_counters \<Rightarrow> string set" where
  "nx_dropped (NxSeen key query sec) nx =
     (case fst (nx_observe key query sec nx) of
        None \<Rightarrow> {} | Some (Exact _) \<Rightarrow> {key} | Some (Wildcard _ names) \<Rightarrow> insert key (set names))"
| "nx_dropped (NxTick sec) nx = {k. \<exists>c. (k, c) \<in> set (nx_counters nx) \<and> nc_hour c \<noteq> sec div 3600}"

definition nx_inv :: "nx_counters \<Rightarrow> bool" where
  "nx_inv nx \<longleftrightarrow> distinct (map fst (nx_counters nx))"

lemma delete_keys_set: "fst ` set (AList.delete k m) = fst ` set m - {k}"
proof -
  have "set (map fst (AList.delete k m)) = set (map fst m) - {k}"
    unfolding AList.delete_keys by auto
  then show ?thesis by simp
qed

lemma fold_delete_keys: "fst ` set (fold AList.delete ks m) = fst ` set m - set ks"
  by (induction ks arbitrary: m) (auto simp: delete_keys_set)

lemma fold_delete_distinct: "distinct (map fst m) \<Longrightarrow> distinct (map fst (fold AList.delete ks m))"
  by (induction ks arbitrary: m) (auto intro: distinct_delete)

lemma nx_keys_finite [simp]: "finite (nx_keys nx)"
  by (simp add: nx_keys_def)

lemma nx_keys_card: "nx_inv nx \<Longrightarrow> card (nx_keys nx) = length (nx_counters nx)"
  by (simp add: nx_keys_def nx_inv_def amap_length_card)

lemma nx_observe_cases:
  assumes "nx_inv nx" and "nx_observe key query sec nx = (al, nx')"
  shows "nx_inv nx' \<and>
    (case al of
       None \<Rightarrow> nx_keys nx' = nx_keys nx \<or> (nx_keys nx' = insert key (nx_keys nx) \<and>
         (key \<in> nx_keys nx \<or> length (nx_counters nx) < heuristic_max_keys))
     | Some (Exact _) \<Rightarrow> nx_keys nx' = nx_keys nx - {key}
     | Some (Wildcard _ names) \<Rightarrow> nx_keys nx' = nx_keys nx - insert key (set names))"
proof -
  have upd: "nx_inv (nx\<lparr>nx_counters := AList.update key c (nx_counters nx)\<rparr>)"
    "nx_keys (nx\<lparr>nx_counters := AList.update key c (nx_counters nx)\<rparr>) = insert key (nx_keys nx)" for c
    using assms(1) by (simp_all add: nx_inv_def nx_keys_def distinct_update amap_simps)
  have sat: "nx_inv (nx\<lparr>nx_saturations := n\<rparr>)" "nx_keys (nx\<lparr>nx_saturations := n\<rparr>) = nx_keys nx" for n
    using assms(1) by (simp_all add: nx_inv_def nx_keys_def)
  have del: "nx_inv (nx\<lparr>nx_counters := AList.delete key (fold AList.delete ks (AList.update key c (nx_counters nx)))\<rparr>)"
    "nx_keys (nx\<lparr>nx_counters := AList.delete key (fold AList.delete ks (AList.update key c (nx_counters nx)))\<rparr>) =
       nx_keys nx - insert key (set ks)" for ks c
    using assms(1) by (auto simp: nx_inv_def nx_keys_def delete_keys_set fold_delete_keys amap_simps
        intro!: distinct_delete fold_delete_distinct distinct_update)
  note del1 = del [of "[]", simplified]
  have fresh: ?thesis
    if "(al, nx') = (if length (nx_counters nx) \<ge> heuristic_max_keys then (None, nx\<lparr>nx_saturations := nx_saturations nx + 1\<rparr>)
        else (None, nx\<lparr>nx_counters := AList.update key \<lparr>nc_hour = sec div 3600, nc_count = 1, nc_names = {}\<rparr> (nx_counters nx)\<rparr>))"
    using that upd sat by (simp split: if_splits)
  show ?thesis
  proof (cases "map_of (nx_counters nx) key")
    case None
    then show ?thesis using assms(2) by (intro fresh) (simp add: nx_observe_def Let_def)
  next
    case (Some c)
    then have key: "key \<in> nx_keys nx" by (auto simp: nx_keys_def dest: amap_get_in)
    show ?thesis
    proof (cases "nc_hour c = sec div 3600")
      case False
      then show ?thesis using assms(2) Some by (intro fresh) (simp add: nx_observe_def Let_def)
    next
      case True
      then show ?thesis
        using assms(2) Some upd del del1 key
        by (auto simp: nx_observe_def Let_def split: if_splits nx_alert.splits)
    qed
  qed
qed

lemma nx_prune_inv: "nx_inv nx \<Longrightarrow> nx_inv (nx_maybe_prune sec nx)"
  by (auto simp: nx_maybe_prune_def Let_def nx_inv_def distinct_map_filter)

lemma nx_prune_keys: "nx_keys (nx_maybe_prune sec nx) \<subseteq> nx_keys nx"
  by (auto simp: nx_keys_def nx_maybe_prune_def Let_def)

interpretation nx: capped_accumulator nx_keys nx_step nx_dropped nx_inv heuristic_max_keys
proof unfold_locales
  fix nx e
  show "finite (nx_keys nx)" by simp
  assume inv: "nx_inv nx"
  show "nx_inv (nx_step e nx)"
  proof (cases e)
    case (NxSeen key query sec)
    obtain al nx' where "nx_observe key query sec nx = (al, nx')" by fastforce
    then show ?thesis using NxSeen nx_observe_cases [OF inv] by simp
  next
    case (NxTick sec)
    then show ?thesis using nx_prune_inv [OF inv] by simp
  qed
  show "card (nx_keys (nx_step e nx)) \<le> card (nx_keys nx) + 1"
  proof (cases e)
    case (NxSeen key query sec)
    obtain al nx' where o: "nx_observe key query sec nx = (al, nx')" by fastforce
    have "nx_keys nx' \<subseteq> insert key (nx_keys nx)"
      using nx_observe_cases [OF inv o] by (auto split: option.splits nx_alert.splits)
    then have "card (nx_keys nx') \<le> card (insert key (nx_keys nx))" by (intro card_mono) simp_all
    then show ?thesis using NxSeen o by (simp add: card_insert_if split: if_splits)
  next
    case (NxTick sec)
    then show ?thesis using card_mono [OF nx_keys_finite nx_prune_keys [of sec nx]] by simp
  qed
  show "heuristic_max_keys \<le> card (nx_keys nx) \<Longrightarrow> nx_keys (nx_step e nx) \<subseteq> nx_keys nx"
  proof (cases e)
    case (NxSeen key query sec)
    obtain al nx' where o: "nx_observe key query sec nx = (al, nx')" by fastforce
    assume "heuristic_max_keys \<le> card (nx_keys nx)"
    then show ?thesis using NxSeen o nx_observe_cases [OF inv o] nx_keys_card [OF inv]
      by (auto split: option.splits nx_alert.splits)
  next
    case (NxTick sec)
    then show ?thesis using nx_prune_keys by simp
  qed
  show "nx_keys nx - nx_dropped e nx \<subseteq> nx_keys (nx_step e nx)"
  proof (cases e)
    case (NxSeen key query sec)
    obtain al nx' where o: "nx_observe key query sec nx = (al, nx')" by fastforce
    then show ?thesis using NxSeen nx_observe_cases [OF inv o]
      by (auto split: option.splits nx_alert.splits)
  next
    case (NxTick sec)
    then show ?thesis by (force simp: nx_keys_def nx_maybe_prune_def Let_def image_iff)
  qed
qed

section \<open>The hourly threshold\<close>

fun nx_run :: "string \<Rightarrow> (string \<times> nat) list \<Rightarrow> nx_counters \<Rightarrow> nx_alert option list" where
  "nx_run key [] nx = []"
| "nx_run key ((query, sec) # qs) nx =
     (let (al, nx') = nx_observe key query sec nx in al # nx_run key qs nx')"

definition nx_at :: "string \<Rightarrow> nat \<Rightarrow> nat \<Rightarrow> nx_counters \<Rightarrow> bool" where
  "nx_at key hour n nx \<longleftrightarrow> nx_inv nx \<and>
     (if n = 0 then map_of (nx_counters nx) key = None \<and> length (nx_counters nx) < heuristic_max_keys
      else length (nx_counters nx) \<le> heuristic_max_keys \<and>
        (\<exists>c. map_of (nx_counters nx) key = Some c \<and> nc_hour c = hour \<and> nc_count c = n))"

lemma nx_at_step:
  assumes "nx_at key hour n nx" and "n \<le> 20" and "sec div 3600 = hour"
    and o: "nx_observe key query sec nx = (al, nx')"
  shows "(al \<noteq> None \<longleftrightarrow> n = 20) \<and> nx_at key hour (if n = 20 then 0 else n + 1) nx'"
proof -
  have inv: "nx_inv nx" using assms(1) by (simp add: nx_at_def)
  note cases = nx_observe_cases [OF inv o]
  consider "n = 0" | "0 < n" "n < 20" | "n = 20" using assms(2) by linarith
  then show ?thesis
  proof cases
    case 1
    then show ?thesis
      using assms cases by (auto simp: nx_observe_def nx_at_def Let_def amap_simps)
  next
    case 2
    then show ?thesis
      using assms cases
      by (auto simp: nx_observe_def nx_at_def Let_def amap_simps no_such_name_per_hour_threshold_def)
  next
    case 3
    then obtain c where c: "map_of (nx_counters nx) key = Some c" "nc_hour c = hour" "nc_count c = 20"
      and le: "card (nx_keys nx) \<le> heuristic_max_keys"
      using assms(1) nx_keys_card [OF inv] by (auto simp: nx_at_def)
    have "al \<noteq> None"
      using o c assms(3) by (auto simp: nx_observe_def Let_def no_such_name_per_hour_threshold_def)
    then obtain y where "al = Some y" by auto
    then have keys: "nx_inv nx'" "nx_keys nx' \<subseteq> nx_keys nx - {key}"
      using cases by (cases y; auto)+
    have "key \<in> nx_keys nx" using c(1) by (auto simp: nx_keys_def dest: amap_get_in)
    then have "card (nx_keys nx - {key}) < card (nx_keys nx)" by (intro psubset_card_mono) auto
    then have "card (nx_keys nx') < heuristic_max_keys"
      using card_mono [OF _ keys(2)] le by simp
    moreover have "map_of (nx_counters nx') key = None"
      using keys(2) by (auto simp: nx_keys_def map_of_eq_None_iff)
    ultimately show ?thesis
      using \<open>al \<noteq> None\<close> keys(1) 3 nx_keys_card [OF keys(1)] by (simp add: nx_at_def)
  qed
qed

lemma nx_run_length [simp]: "length (nx_run key qs nx) = length qs"
  by (induction key qs nx rule: nx_run.induct) (auto split: prod.split)

lemma nx_run_alerts:
  "nx_at key hour n nx \<Longrightarrow> n \<le> 20 \<Longrightarrow> \<forall>(q, sec) \<in> set qs. sec div 3600 = hour \<Longrightarrow> i < length qs \<Longrightarrow>
   nx_run key qs nx ! i \<noteq> None \<longleftrightarrow> (n + i) mod 21 = 20"
proof (induction key qs nx arbitrary: n i rule: nx_run.induct)
  case (1 key nx)
  then show ?case by simp
next
  case (2 key query sec qs nx)
  obtain al nx' where o: "nx_observe key query sec nx = (al, nx')" by fastforce
  have sec: "sec div 3600 = hour" using "2.prems"(3) by simp
  note step = nx_at_step [OF "2.prems"(1,2) sec o]
  show ?case
  proof (cases i)
    case 0
    then show ?thesis using o step "2.prems"(2) by auto
  next
    case (Suc j)
    have "nx_run key qs nx' ! j \<noteq> None \<longleftrightarrow> ((if n = 20 then 0 else n + 1) + j) mod 21 = 20"
      using "2.IH" [OF o [symmetric] refl, of "if n = 20 then 0 else n + 1" j] step "2.prems" Suc by auto
    also have "\<dots> \<longleftrightarrow> (n + i) mod 21 = 20"
      using Suc "2.prems"(2) mod_add_self1 [of 21 j] by (auto simp: add.commute)
    finally show ?thesis using o Suc by simp
  qed
qed

text \<open>C17: within an hour a missing name is reported at every 21st failed lookup: for any sequence
  of lookups of a key that is not tracked yet, the \<open>i\<close>-th (from 0) raises an alert if and only
  if \<open>i mod 21 = 20\<close>, because the alert deletes the counter and the count starts over.\<close>

theorem every_21st_failure_alerts:
  assumes "nx_inv nx" and "map_of (nx_counters nx) key = None"
    and "length (nx_counters nx) < heuristic_max_keys"
    and "\<forall>(q, sec) \<in> set qs. sec div 3600 = hour" and "i < length qs"
  shows "nx_run key qs nx ! i \<noteq> None \<longleftrightarrow> i mod 21 = 20"
  using nx_run_alerts [of key hour 0 nx qs i] assms by (simp add: nx_at_def)

theorem every_21st_failure_alerts_witness:
  "nx_run ''*.example.com'' (replicate 30 (''a.example.com'', 7200)) nx_default ! 20 \<noteq> None \<and>
   nx_run ''*.example.com'' (replicate 30 (''a.example.com'', 7200)) nx_default ! 21 = None"
  using every_21st_failure_alerts [of nx_default "''*.example.com''" "replicate 30 (''a.example.com'', 7200)" 2 20]
    every_21st_failure_alerts [of nx_default "''*.example.com''" "replicate 30 (''a.example.com'', 7200)" 2 21]
  by (simp add: nx_default_def nx_inv_def heuristic_max_keys_def scan_max_keys_def del: nx_run.simps)

end
