(* ===== verification/Dnsheur.thy ===== *)
theory Dnsheur
  imports Nxdomain
begin

text \<open>
  \<open>heuristics/dns_exhaustion.rs\<close> and \<open>heuristics/dns_tunneling.rs\<close>: the two accumulators every
  DNS query passes through, keyed by digests. Entropies are over the reals; the \<open>usize\<close> counters
  count queries and bytes and do not reach their width.
\<close>

section \<open>DNS exhaustion\<close>

definition hourly_secs :: nat where "hourly_secs = 3600"

record ex_window =
  ew_start :: nat
  ew_subdomains :: "u64 set"

record dns_exhaustion =
  de_domains :: "(u64, ex_window) amap"
  de_hour_marker :: "nat option"
  de_exhausted :: "u64 set"
  de_saturations :: nat

datatype ex_outcome = Continue | Alert | Suppress

definition de_default :: dns_exhaustion where
  "de_default = \<lparr>de_domains = [], de_hour_marker = None, de_exhausted = {}, de_saturations = 0\<rparr>"

definition maybe_hourly_reset :: "nat \<Rightarrow> dns_exhaustion \<Rightarrow> dns_exhaustion" where
  "maybe_hourly_reset sec de =
     (if sec - (case de_hour_marker de of None \<Rightarrow> 0 | Some h \<Rightarrow> h) > hourly_secs
      then de\<lparr>de_domains := [], de_exhausted := {}, de_hour_marker := Some sec\<rparr> else de)"

definition de_observe_keyed :: "u64 \<Rightarrow> u64 \<Rightarrow> nat \<Rightarrow> nat \<Rightarrow> dns_exhaustion \<Rightarrow> ex_outcome \<times> dns_exhaustion" where
  "de_observe_keyed key subkey sec threshold de =
     (let full = length (de_domains de) \<ge> heuristic_max_keys;
          go = (\<lambda>w. let store = (\<lambda>w. de\<lparr>de_domains := AList.update key w (de_domains de)\<rparr>)
             in if sec - ew_start w > 60 then (Continue, store (w\<lparr>ew_start := sec, ew_subdomains := {}\<rparr>))
                else if card (ew_subdomains w) < threshold
                then (Continue, store (w\<lparr>ew_subdomains := insert subkey (ew_subdomains w)\<rparr>))
                else (if key \<notin> de_exhausted de then Alert else Suppress, store w))
      in case map_of (de_domains de) key of
           Some w \<Rightarrow> go w
         | None \<Rightarrow> if full then (Continue, de\<lparr>de_saturations := de_saturations de + 1\<rparr>)
                   else go \<lparr>ew_start = sec, ew_subdomains = {}\<rparr>)"

definition de_observe :: "u64 \<Rightarrow> string \<Rightarrow> string \<Rightarrow> nat \<Rightarrow> nat \<Rightarrow> dns_exhaustion \<Rightarrow> ex_outcome \<times> dns_exhaustion" where
  "de_observe seed domain part sec threshold de =
     de_observe_keyed (name_key seed domain) (name_key seed part) sec threshold de"

definition is_exhausted :: "u64 \<Rightarrow> string \<Rightarrow> dns_exhaustion \<Rightarrow> bool" where
  "is_exhausted seed domain de \<longleftrightarrow> name_key seed domain \<in> de_exhausted de"

definition mark_exhausted :: "u64 \<Rightarrow> string \<Rightarrow> dns_exhaustion \<Rightarrow> dns_exhaustion" where
  "mark_exhausted seed domain de = de\<lparr>de_exhausted := insert (name_key seed domain) (de_exhausted de)\<rparr>"

definition local_subdomain_lookups :: "string list" where
  "local_subdomain_lookups = [''wpad'', ''autodiscover'', ''_ldap._tcp'']"

definition has_local_lookup :: "u64 \<Rightarrow> string \<Rightarrow> dns_exhaustion \<Rightarrow> bool" where
  "has_local_lookup seed domain de =
     (case map_of (de_domains de) (name_key seed domain) of
        None \<Rightarrow> False
      | Some w \<Rightarrow> list_ex (\<lambda>needle. name_key seed needle \<in> ew_subdomains w) local_subdomain_lookups)"

section \<open>DNS tunneling\<close>

definition name_sample :: nat where "name_sample = 256"
definition tunneling_min_queries :: nat where "tunneling_min_queries = 150"
definition tunneling_min_distinct_pct :: nat where "tunneling_min_distinct_pct = 95"
definition tunneling_min_long_pct :: nat where "tunneling_min_long_pct = 90"
definition tunneling_min_label :: nat where "tunneling_min_label = 20"
definition tunneling_min_entropy_x100 :: nat where "tunneling_min_entropy_x100 = 300"
definition tunneling_min_bytes :: nat where "tunneling_min_bytes = 6144"
definition tunneling_min_span :: nat where "tunneling_min_span = 120"
definition tunneling_window :: nat where "tunneling_window = 900"

lemmas tunneling_consts = name_sample_def tunneling_min_queries_def tunneling_min_distinct_pct_def
  tunneling_min_long_pct_def tunneling_min_bytes_def tunneling_min_span_def tunneling_window_def

definition entropy_x100 :: "string \<Rightarrow> nat" where
  "entropy_x100 label =
     (if label = [] then 0
      else (let total = real (length label);
                bits = sum_list (map (\<lambda>c. let p = real (length (filter (\<lambda>x. x = c) label)) / total
                                         in - (p * log 2 p)) (remdups label))
            in nat \<lfloor>bits * 100\<rfloor>))"

definition hash_label_service_zones :: "string list" where
  "hash_label_service_zones =
     [''sophosxl.net'', ''sophos.com'', ''mcafee.com'', ''avqs.mcafee.com'', ''avts.mcafee.com'',
      ''kaspersky-labs.com'', ''kaspersky.com'', ''nod32.com'', ''eset.com'', ''trendmicro.com'',
      ''sophosupd.com'', ''avira-update.com'', ''avast.com'', ''avg.com'', ''bitdefender.net'',
      ''clamav.net'', ''virustotal.com'', ''opendns.com'', ''umbrella.com'', ''webroot.com'',
      ''spamhaus.org'', ''spamcop.net'', ''sorbs.net'', ''barracudacentral.org'', ''surbl.org'',
      ''uribl.com'', ''abuseat.org'', ''senderbase.org'', ''mailspike.net'', ''invaluement.com'',
      ''akamai.net'', ''akamaiedge.net'', ''cloudfront.net'', ''azureedge.net'', ''windows.net'',
      ''amazonaws.com'', ''a2z.com'', ''aws.dev'', ''max.com'', ''googleapis.com'',
      ''googleusercontent.com'', ''1e100.net'', ''cdn77.org'', ''fastly.net'', ''_domainkey'',
      ''_dmarc'', ''_spf'', ''acme-challenge'']"

definition is_label_zone :: "string \<Rightarrow> bool" where
  "is_label_zone e \<longleftrightarrow> starts_with e ''_'' \<or> starts_with e ''acme-''"

definition label_zones :: "string list" where
  "label_zones = filter is_label_zone hash_label_service_zones"

definition suffix_zones :: "string set" where
  "suffix_zones = set (filter (\<lambda>e. \<not> is_label_zone e) hash_label_service_zones)"

definition allowed_zone :: "string \<Rightarrow> bool" where
  "allowed_zone zone =
     (if zone \<in> suffix_zones \<or> list_ex (\<lambda>i. drop (i + 1) zone \<in> suffix_zones) (dots zone) then True
      else if CHR ''_'' \<in> set zone \<or> has zone ''acme-''
      then list_ex (\<lambda>entry. list_ex (\<lambda>label. label = entry) (split_on (CHR ''.'') zone)) label_zones
      else False)"

definition may_contain_bl :: "string \<Rightarrow> bool" where
  "may_contain_bl name = has name ''bl''"

record tunnel_acc =
  ta_queries :: nat
  ta_names :: "u64 set"
  ta_carrying :: nat
  ta_bytes :: nat
  ta_first_sec :: nat
  ta_last_sec :: nat
  ta_alerted :: bool
  ta_exempt :: bool

definition ta_new :: "nat \<Rightarrow> bool \<Rightarrow> tunnel_acc" where
  "ta_new sec ex = \<lparr>ta_queries = 0, ta_names = {}, ta_carrying = 0, ta_bytes = 0, ta_first_sec = sec,
     ta_last_sec = 0, ta_alerted = False, ta_exempt = ex\<rparr>"

datatype tunnel_outcome = Quiet | TunnelAlert

definition pair_key :: "u64 \<Rightarrow> ip \<Rightarrow> u64 \<Rightarrow> u64" where
  "pair_key seed src zone_key = seeded_finish seed (seeded_write_u64 (seeded_ip seed src) zone_key)"

record dns_tunneling =
  dt_pairs :: "(u64, tunnel_acc) amap"
  dt_window_start :: nat
  dt_saturations :: nat

definition dt_default :: dns_tunneling where
  "dt_default = \<lparr>dt_pairs = [], dt_window_start = 0, dt_saturations = 0\<rparr>"

definition verdict :: "tunnel_acc \<Rightarrow> bool" where
  "verdict a =
     (if ta_queries a < tunneling_min_queries then False
      else if ta_bytes a < tunneling_min_bytes then False
      else if ta_last_sec a - ta_first_sec a < tunneling_min_span then False
      else if card (ta_names a) * 100 < min (ta_queries a) name_sample * tunneling_min_distinct_pct then False
      else if ta_carrying a * 100 < ta_queries a * tunneling_min_long_pct then False
      else True)"

definition maybe_window_reset :: "nat \<Rightarrow> dns_tunneling \<Rightarrow> dns_tunneling" where
  "maybe_window_reset sec dt =
     (if sec - dt_window_start dt > tunneling_window then dt\<lparr>dt_pairs := [], dt_window_start := sec\<rparr> else dt)"

definition carries :: "string \<Rightarrow> bool" where
  "carries leading \<longleftrightarrow> length (str_chars leading) \<ge> tunneling_min_label \<and>
     entropy_x100 leading \<ge> tunneling_min_entropy_x100"

definition ta_record :: "u64 \<times> nat \<Rightarrow> string \<Rightarrow> nat \<Rightarrow> tunnel_acc \<Rightarrow> tunnel_acc" where
  "ta_record subdomain leading sec a =
     (let a = a\<lparr>ta_queries := ta_queries a + 1, ta_last_sec := sec, ta_bytes := ta_bytes a + snd subdomain\<rparr>;
          a = if carries leading then a\<lparr>ta_carrying := ta_carrying a + 1\<rparr> else a
      in if ta_queries a \<le> name_sample then a\<lparr>ta_names := insert (fst subdomain) (ta_names a)\<rparr> else a)"

definition dt_observe_unless ::
  "u64 \<Rightarrow> u64 \<times> nat \<Rightarrow> string \<Rightarrow> nat \<Rightarrow> bool \<Rightarrow> dns_tunneling \<Rightarrow> tunnel_outcome \<times> dns_tunneling" where
  "dt_observe_unless key subdomain leading sec ex dt =
     (let full = length (dt_pairs dt) \<ge> heuristic_max_keys;
          store = (\<lambda>a. dt\<lparr>dt_pairs := AList.update key a (dt_pairs dt)\<rparr>);
          go = (\<lambda>a. if ta_exempt a \<or> ta_alerted a then (Quiet, store a)
                    else (let a = ta_record subdomain leading sec a
                          in if \<not> verdict a then (Quiet, store a)
                             else (TunnelAlert, store (a\<lparr>ta_alerted := True\<rparr>))))
      in case map_of (dt_pairs dt) key of
           Some a \<Rightarrow> go a
         | None \<Rightarrow> if full then (Quiet, dt\<lparr>dt_saturations := dt_saturations dt + 1\<rparr>)
                   else go (ta_new sec ex))"

definition dt_observe ::
  "u64 \<Rightarrow> u64 \<Rightarrow> string \<Rightarrow> string \<Rightarrow> nat \<Rightarrow> dns_tunneling \<Rightarrow> tunnel_outcome \<times> dns_tunneling" where
  "dt_observe seed key subdomain leading sec dt =
     dt_observe_unless key (name_key seed subdomain, length subdomain) leading sec False dt"

section \<open>The key caps\<close>

datatype ex_event = ExQuery u64 u64 nat nat | ExTick nat | ExMark u64 string

fun ex_step :: "ex_event \<Rightarrow> dns_exhaustion \<Rightarrow> dns_exhaustion" where
  "ex_step (ExQuery key subkey sec threshold) de = snd (de_observe_keyed key subkey sec threshold de)"
| "ex_step (ExTick sec) de = maybe_hourly_reset sec de"
| "ex_step (ExMark seed domain) de = mark_exhausted seed domain de"

fun ex_dropped :: "ex_event \<Rightarrow> dns_exhaustion \<Rightarrow> u64 set" where
  "ex_dropped (ExTick sec) de = (if maybe_hourly_reset sec de = de then {} else UNIV)"
| "ex_dropped _ de = {}"

definition de_inv :: "dns_exhaustion \<Rightarrow> bool" where
  "de_inv de \<longleftrightarrow> distinct (map fst (de_domains de))"

lemma de_observe_table:
  "(\<exists>w. de_domains (snd (de_observe_keyed key subkey sec threshold de)) = AList.update key w (de_domains de) \<and>
      (map_of (de_domains de) key = None \<longrightarrow> length (de_domains de) < heuristic_max_keys)) \<or>
   de_domains (snd (de_observe_keyed key subkey sec threshold de)) = de_domains de"
  by (cases "map_of (de_domains de) key") (auto simp: de_observe_keyed_def Let_def)

interpretation exhaustion: table_accumulator de_domains ex_step ex_dropped de_inv heuristic_max_keys
proof unfold_locales
  fix e de
  assume inv: "de_inv de"
  then show "distinct (map fst (de_domains de))" by (simp add: de_inv_def)
  show "de_inv (ex_step e de)"
    using inv de_observe_table
    by (cases e; simp add: de_inv_def maybe_hourly_reset_def mark_exhausted_def) (metis distinct_update)
  show "(\<exists>k v. de_domains (ex_step e de) = AList.update k v (de_domains de) \<and>
        (map_of (de_domains de) k = None \<longrightarrow> length (de_domains de) < heuristic_max_keys)) \<or>
      fst ` set (de_domains (ex_step e de)) \<subseteq> fst ` set (de_domains de) \<and>
      fst ` set (de_domains de) - ex_dropped e de \<subseteq> fst ` set (de_domains (ex_step e de))"
  proof (cases e)
    case (ExQuery key subkey sec threshold)
    then show ?thesis using de_observe_table [of key subkey sec threshold de] by auto
  qed (auto simp: maybe_hourly_reset_def mark_exhausted_def)
qed

datatype tunnel_event = TunnelQuery u64 "u64 \<times> nat" string nat bool | TunnelTick nat

fun tunnel_step :: "tunnel_event \<Rightarrow> dns_tunneling \<Rightarrow> dns_tunneling" where
  "tunnel_step (TunnelQuery key subdomain leading sec ex) dt = snd (dt_observe_unless key subdomain leading sec ex dt)"
| "tunnel_step (TunnelTick sec) dt = maybe_window_reset sec dt"

fun tunnel_dropped :: "tunnel_event \<Rightarrow> dns_tunneling \<Rightarrow> u64 set" where
  "tunnel_dropped (TunnelTick sec) dt = (if maybe_window_reset sec dt = dt then {} else UNIV)"
| "tunnel_dropped _ dt = {}"

definition acc_ok :: "tunnel_acc \<Rightarrow> bool" where
  "acc_ok a \<longleftrightarrow> finite (ta_names a) \<and> card (ta_names a) \<le> min (ta_queries a) name_sample \<and>
     ta_carrying a \<le> ta_queries a"

definition dt_inv :: "dns_tunneling \<Rightarrow> bool" where
  "dt_inv dt \<longleftrightarrow> distinct (map fst (dt_pairs dt)) \<and> (\<forall>(k, a) \<in> set (dt_pairs dt). acc_ok a)"

lemma acc_ok_new [simp]: "acc_ok (ta_new sec ex)"
  by (simp add: acc_ok_def ta_new_def)

lemma acc_ok_record [simp]: "acc_ok a \<Longrightarrow> acc_ok (ta_record subdomain leading sec a)"
  by (auto simp: acc_ok_def ta_record_def Let_def card_insert_if)

lemma acc_ok_alerted [simp]: "acc_ok (a\<lparr>ta_alerted := x\<rparr>) = acc_ok a"
  by (simp add: acc_ok_def)

lemma dt_inv_get: "dt_inv dt \<Longrightarrow> map_of (dt_pairs dt) k = Some a \<Longrightarrow> acc_ok a"
  by (auto simp: dt_inv_def dest!: map_of_SomeD)

lemma dt_observe_table:
  assumes "dt_inv dt"
  shows "(\<exists>a. dt_pairs (snd (dt_observe_unless key subdomain leading sec ex dt)) = AList.update key a (dt_pairs dt) \<and>
      acc_ok a \<and> (map_of (dt_pairs dt) key = None \<longrightarrow> length (dt_pairs dt) < heuristic_max_keys)) \<or>
   dt_pairs (snd (dt_observe_unless key subdomain leading sec ex dt)) = dt_pairs dt"
  using dt_inv_get [OF assms, of key]
  by (cases "map_of (dt_pairs dt) key") (auto simp: dt_observe_unless_def Let_def)

lemma dt_update_inv:
  assumes "dt_inv dt" and "acc_ok a" and "dt_pairs dt' = AList.update k a (dt_pairs dt)"
  shows "dt_inv dt'"
  using assms amap_set_update [of k a "dt_pairs dt"] by (auto simp: dt_inv_def distinct_update)

lemma dt_inv_same: "dt_pairs dt' = dt_pairs dt \<Longrightarrow> dt_inv dt \<Longrightarrow> dt_inv dt'"
  by (simp add: dt_inv_def)

lemma dt_observe_inv:
  assumes "dt_inv dt"
  shows "dt_inv (snd (dt_observe_unless key subdomain leading sec ex dt))"
  using dt_observe_table [OF assms, of key subdomain leading sec ex]
  by (elim disjE exE conjE) (blast intro: dt_update_inv [OF assms] dt_inv_same [OF _ assms])+

interpretation tunneling: table_accumulator dt_pairs tunnel_step tunnel_dropped dt_inv heuristic_max_keys
proof unfold_locales
  fix e dt
  assume inv: "dt_inv dt"
  then show "distinct (map fst (dt_pairs dt))" by (simp add: dt_inv_def)
  show "dt_inv (tunnel_step e dt)"
  proof (cases e)
    case (TunnelQuery key subdomain leading sec ex)
    then show ?thesis using dt_observe_inv [OF inv] by simp
  next
    case (TunnelTick sec)
    then show ?thesis using inv by (auto simp: maybe_window_reset_def dt_inv_def)
  qed
  show "(\<exists>k v. dt_pairs (tunnel_step e dt) = AList.update k v (dt_pairs dt) \<and>
        (map_of (dt_pairs dt) k = None \<longrightarrow> length (dt_pairs dt) < heuristic_max_keys)) \<or>
      fst ` set (dt_pairs (tunnel_step e dt)) \<subseteq> fst ` set (dt_pairs dt) \<and>
      fst ` set (dt_pairs dt) - tunnel_dropped e dt \<subseteq> fst ` set (dt_pairs (tunnel_step e dt))"
  proof (cases e)
    case (TunnelQuery key subdomain leading sec ex)
    then show ?thesis using dt_observe_table [OF inv, of key subdomain leading sec ex] by auto
  qed (auto simp: maybe_window_reset_def)
qed

text \<open>Neither DNS accumulator can be made to hold more than the 50,000 keys of
  \<open>HEURISTIC_MAX_KEYS\<close>, nor the name samples of one tunneling pair more than 256 names,
  whatever queries, resets and marks arrive in whatever order.\<close>

theorem dns_heuristics_are_bounded:
  "length (de_domains (fold ex_step evs de_default)) \<le> heuristic_max_keys \<and>
   length (dt_pairs (fold tunnel_step evs' dt_default)) \<le> heuristic_max_keys \<and>
   list_all (\<lambda>(k, a). card (ta_names a) \<le> name_sample) (dt_pairs (fold tunnel_step evs' dt_default))"
proof -
  have e: "de_inv de_default" by (simp add: de_inv_def de_default_def)
  have t: "dt_inv dt_default" by (simp add: dt_inv_def dt_default_def)
  have "card (fst ` set (de_domains (fold ex_step evs de_default))) \<le> heuristic_max_keys"
    by (rule exhaustion.run_bounded [OF e]) (simp add: de_default_def)
  moreover have "card (fst ` set (dt_pairs (fold tunnel_step evs' dt_default))) \<le> heuristic_max_keys"
    by (rule tunneling.run_bounded [OF t]) (simp add: dt_default_def)
  moreover have "de_inv (fold ex_step evs de_default)" "dt_inv (fold tunnel_step evs' dt_default)"
    using exhaustion.run_inv [OF e] tunneling.run_inv [OF t] by auto
  ultimately show ?thesis
    by (auto simp: de_inv_def dt_inv_def acc_ok_def amap_length_card list_all_iff)
qed

section \<open>When exhaustion alerts\<close>

fun de_run :: "u64 \<Rightarrow> nat \<Rightarrow> (u64 \<times> nat) list \<Rightarrow> dns_exhaustion \<Rightarrow> ex_outcome list" where
  "de_run key threshold [] de = []"
| "de_run key threshold ((sub, sec) # qs) de =
     (let (out, de') = de_observe_keyed key sub sec threshold de in out # de_run key threshold qs de')"

definition window_at :: "u64 \<Rightarrow> nat \<Rightarrow> nat \<Rightarrow> u64 set \<Rightarrow> dns_exhaustion \<Rightarrow> bool" where
  "window_at key t0 threshold seen de \<longleftrightarrow> key \<notin> de_exhausted de \<and> finite seen \<and>
     (\<exists>w. map_of (de_domains de) key = Some w \<and> ew_start w = t0 \<and> finite (ew_subdomains w) \<and>
        (if card seen < threshold then ew_subdomains w = seen else card (ew_subdomains w) \<ge> threshold))"

lemma window_at_step:
  assumes "window_at key t0 threshold seen de" and "sec - t0 \<le> 60"
    and "de_observe_keyed key sub sec threshold de = (out, de')"
  shows "out = (if card seen < threshold then Continue else Alert) \<and>
    window_at key t0 threshold (insert sub seen) de'"
proof -
  obtain w where w: "map_of (de_domains de) key = Some w" "ew_start w = t0" "key \<notin> de_exhausted de" "finite seen"
    "finite (ew_subdomains w)" "if card seen < threshold then ew_subdomains w = seen else card (ew_subdomains w) \<ge> threshold"
    using assms(1) by (auto simp: window_at_def)
  show ?thesis
  proof (cases "card seen < threshold")
    case True
    then show ?thesis
      using assms(2,3) w by (auto simp: de_observe_keyed_def window_at_def Let_def amap_simps)
  next
    case False
    moreover have "card seen \<le> card (insert sub seen)" by (simp add: card_insert_le)
    ultimately show ?thesis
      using assms(2,3) w by (auto simp: de_observe_keyed_def window_at_def Let_def amap_simps)
  qed
qed

lemma de_run_window:
  "window_at key t0 threshold seen de \<Longrightarrow> \<forall>(sub, sec) \<in> set qs. sec - t0 \<le> 60 \<Longrightarrow> i < length qs \<Longrightarrow>
   de_run key threshold qs de ! i =
     (if card (seen \<union> fst ` set (take i qs)) < threshold then Continue else Alert)"
proof (induction key threshold qs de arbitrary: seen i rule: de_run.induct)
  case (1 key threshold de)
  then show ?case by simp
next
  case (2 key threshold sub sec qs de)
  obtain out de' where o: "de_observe_keyed key sub sec threshold de = (out, de')" by fastforce
  have "sec - t0 \<le> 60" using "2.prems"(2) by simp
  note step = window_at_step [OF "2.prems"(1) this o]
  show ?case
  proof (cases i)
    case 0
    then show ?thesis using o step by simp
  next
    case (Suc j)
    then show ?thesis
      using "2.IH" [OF o [symmetric] refl, of "insert sub seen" j] step "2.prems" o by simp
  qed
qed

text \<open>Exhaustion is reported as soon as a domain has shown \<open>threshold\<close> distinct subdomains in
  one minute, and not before: in a run of queries under a new domain within 60 seconds of the
  first, a query continues if and only if fewer than \<open>threshold\<close> distinct subdomains were
  asked before it.\<close>

theorem exhaustion_alerts_at_threshold:
  assumes "map_of (de_domains de) key = None" and "length (de_domains de) < heuristic_max_keys"
    and "key \<notin> de_exhausted de" and "\<forall>(sub, sec) \<in> set qs. sec - snd (hd qs) \<le> 60"
    and "i < length qs"
  shows "de_run key threshold qs de ! i = (if card (fst ` set (take i qs)) < threshold then Continue else Alert)"
proof -
  obtain sub t0 qs' where qs: "qs = (sub, t0) # qs'" using assms(5) by (cases qs) auto
  define de0 where "de0 = de\<lparr>de_domains := AList.update key \<lparr>ew_start = t0, ew_subdomains = {}\<rparr> (de_domains de)\<rparr>"
  have "de_observe_keyed key sub t0 threshold de = de_observe_keyed key sub t0 threshold de0"
    using assms(1,2) by (auto simp: de_observe_keyed_def de0_def Let_def amap_simps)
  then have "de_run key threshold qs de = de_run key threshold qs de0" by (simp add: qs)
  moreover have "window_at key t0 threshold {} de0"
    using assms(3) by (simp add: window_at_def de0_def amap_simps)
  ultimately show ?thesis
    using de_run_window [of key t0 threshold "{}" de0 qs i] assms(4,5) by (simp add: qs)
qed

theorem exhaustion_alerts_at_threshold_witness:
  "de_run 9 2 [(1, 100), (1, 101), (2, 102), (3, 160)] de_default ! 3 = Alert \<and>
   de_run 9 2 [(1, 100), (1, 101), (2, 102), (3, 160)] de_default ! 2 = Continue"
  using exhaustion_alerts_at_threshold [of de_default 9 "[(1, 100), (1, 101), (2, 102), (3, 160)]" 3 2]
    exhaustion_alerts_at_threshold [of de_default 9 "[(1, 100), (1, 101), (2, 102), (3, 160)]" 2 2]
  by (simp add: de_default_def heuristic_max_keys_def scan_max_keys_def del: de_run.simps)

section \<open>What a tunneling alert means\<close>

text \<open>A tunneling alert carries all the evidence at once: the pair has at least 150 queries and
  6144 bytes over at least two minutes, at least 95\% of its sampled names are distinct, at
  least 90\% of its queries carry a payload, its zone is not exempt and it had not been
  reported in this window. The alert marks the pair.\<close>

theorem tunneling_alert_has_all_evidence:
  assumes "dt_observe_unless key subdomain leading sec ex dt = (TunnelAlert, dt')"
  shows "\<exists>a. map_of (dt_pairs dt') key = Some a \<and> ta_alerted a \<and> \<not> ta_exempt a \<and>
    150 \<le> ta_queries a \<and> 6144 \<le> ta_bytes a \<and> ta_first_sec a + 120 \<le> ta_last_sec a \<and>
    min (ta_queries a) 256 * 95 \<le> card (ta_names a) * 100 \<and> ta_queries a * 90 \<le> ta_carrying a * 100 \<and>
    (\<forall>b. map_of (dt_pairs dt) key = Some b \<longrightarrow> \<not> ta_alerted b)"
proof -
  have v: "150 \<le> ta_queries a \<and> 6144 \<le> ta_bytes a \<and> ta_first_sec a + 120 \<le> ta_last_sec a \<and>
      min (ta_queries a) 256 * 95 \<le> card (ta_names a) * 100 \<and> ta_queries a * 90 \<le> ta_carrying a * 100"
    if "verdict a" for a
    using that by (simp add: verdict_def tunneling_consts split: if_splits)
  have keep: "ta_exempt (ta_record subdomain leading sec a) = ta_exempt a" for a
    by (simp add: ta_record_def Let_def)
  obtain a0 where a0: "\<not> ta_exempt a0" "verdict (ta_record subdomain leading sec a0)"
    "dt' = dt\<lparr>dt_pairs := AList.update key ((ta_record subdomain leading sec a0)\<lparr>ta_alerted := True\<rparr>) (dt_pairs dt)\<rparr>"
    "\<forall>b. map_of (dt_pairs dt) key = Some b \<longrightarrow> \<not> ta_alerted b"
  proof (cases "map_of (dt_pairs dt) key")
    case None
    then show thesis
      using assms by (intro that [of "ta_new sec ex"]) (auto simp: dt_observe_unless_def Let_def split: if_splits)
  next
    case (Some b)
    then show thesis
      using assms by (intro that [of b]) (auto simp: dt_observe_unless_def Let_def split: if_splits)
  qed
  then show ?thesis
    using v [OF a0(2)] keep [of a0]
    by (intro exI [of _ "(ta_record subdomain leading sec a0)\<lparr>ta_alerted := True\<rparr>"]) (simp add: amap_simps)
qed

definition sample_pair :: tunnel_acc where
  "sample_pair = \<lparr>ta_queries = 149, ta_names = of_nat ` {1..149}, ta_carrying = 149, ta_bytes = 7000,
     ta_first_sec = 1000, ta_last_sec = 1100, ta_alerted = False, ta_exempt = False\<rparr>"

lemma sample_names: "card (insert 150 ((of_nat :: nat \<Rightarrow> u64) ` {1..149})) = 150"
proof -
  have "inj_on (of_nat :: nat \<Rightarrow> u64) {1..150}"
    by (auto intro!: inj_onI simp: word_of_nat_eq_iff take_bit_nat_eq_self)
  then have "card ((of_nat :: nat \<Rightarrow> u64) ` {1..150}) = 150" by (simp add: card_image)
  moreover have "{1..150 :: nat} = insert 150 {1..149}" by auto
  then have "(of_nat :: nat \<Rightarrow> u64) ` {1..150} = insert 150 (of_nat ` {1..149})"
    by (simp only: image_insert of_nat_numeral)
  ultimately show ?thesis by (simp only:)
qed

theorem tunneling_alert_has_all_evidence_witness:
  "\<exists>dt' a. dt_observe_unless 5 (150, 40) ''a'' 1200 False (dt_default\<lparr>dt_pairs := [(5, sample_pair)]\<rparr>) = (TunnelAlert, dt')
     \<and> map_of (dt_pairs dt') 5 = Some a \<and> 150 \<le> ta_queries a \<and> ta_first_sec a + 120 \<le> ta_last_sec a"
proof -
  have "\<not> carries ''a''" by (simp add: carries_def str_chars.simps tunneling_min_label_def)
  then have "\<exists>dt'. dt_observe_unless 5 (150, 40) ''a'' 1200 False (dt_default\<lparr>dt_pairs := [(5, sample_pair)]\<rparr>)
      = (TunnelAlert, dt')"
    using sample_names
    by (simp add: dt_observe_unless_def Let_def sample_pair_def ta_record_def verdict_def tunneling_consts dt_default_def)
  then obtain dt' where o: "dt_observe_unless 5 (150, 40) ''a'' 1200 False (dt_default\<lparr>dt_pairs := [(5, sample_pair)]\<rparr>)
      = (TunnelAlert, dt')" by blast
  from tunneling_alert_has_all_evidence [OF this] show ?thesis using o by blast
qed

section \<open>Allowed zones\<close>

lemma split_on_infix: "x \<in> set (split_on c s) \<Longrightarrow> \<exists>pre post. s = pre @ x @ post"
proof (induction s arbitrary: x)
  case Nil
  then show ?case by auto
next
  case (Cons a s)
  obtain y ys where y: "split_on c s = y # ys" by (cases "split_on c s") auto
  have hd: "\<exists>post. s = y @ post"
  proof -
    have "\<exists>post. s = hd (split_on c s) @ post" for s
      by (induction s) (auto split: list.splits)
    from this [of s] show ?thesis using y by simp
  qed
  show ?case
  proof (cases "a = c")
    case True
    then consider "x = []" | "x \<in> set (split_on c s)" using Cons.prems by auto
    then show ?thesis
    proof cases
      case 1
      then show ?thesis by auto
    next
      case 2
      then obtain pre post where "s = pre @ x @ post" using Cons.IH by blast
      then have "a # s = (a # pre) @ x @ post" by simp
      then show ?thesis by blast
    qed
  next
    case False
    then consider "x = a # y" | "x \<in> set ys" using Cons.prems y by auto
    then show ?thesis
    proof cases
      case 1
      then obtain post where "a # s = [] @ x @ post" using hd by auto
      then show ?thesis by blast
    next
      case 2
      then have "x \<in> set (split_on c s)" using y by simp
      then obtain pre post where "s = pre @ x @ post" using Cons.IH by blast
      then have "a # s = (a # pre) @ x @ post" by simp
      then show ?thesis by blast
    qed
  qed
qed

lemma suffix_walk:
  "list_ex (\<lambda>i. drop (i + 1) zone \<in> Z) (dots zone) \<longleftrightarrow> (\<exists>p e. e \<in> Z \<and> zone = p @ ''.'' @ e)"
proof
  assume "list_ex (\<lambda>i. drop (i + 1) zone \<in> Z) (dots zone)"
  then obtain i where i: "i < length zone" "zone ! i = CHR ''.''" "drop (Suc i) zone \<in> Z"
    by (auto simp: list_ex_iff dots_def)
  then have "zone = take i zone @ ''.'' @ drop (Suc i) zone"
    using id_take_nth_drop [OF i(1)] i(2) by simp
  then show "\<exists>p e. e \<in> Z \<and> zone = p @ ''.'' @ e" using i(3) by blast
next
  assume "\<exists>p e. e \<in> Z \<and> zone = p @ ''.'' @ e"
  then obtain p e where "e \<in> Z" "zone = p @ ''.'' @ e" by blast
  then have "length p \<in> set (dots zone)" "drop (length p + 1) zone \<in> Z"
    by (simp_all add: dots_def nth_append)
  then show "list_ex (\<lambda>i. drop (i + 1) zone \<in> Z) (dots zone)"
    unfolding list_ex_iff by blast
qed

text \<open>Walking the zone's suffixes against a set, with its guarded label pass, answers as the
  loop over the forty-eight entries it replaces: a zone is allowed if and only if it is, or is
  below, one of the service zones, or one of its labels is a label entry.\<close>

theorem allowed_zone_is_the_loop:
  "allowed_zone zone \<longleftrightarrow>
     (\<exists>e \<in> set hash_label_service_zones.
        if is_label_zone e then e \<in> set (split_on (CHR ''.'') zone)
        else zone = e \<or> (\<exists>p. zone = p @ ''.'' @ e))"
proof -
  have guard: "CHR ''_'' \<in> set zone \<or> has zone ''acme-''"
    if e: "e \<in> set (split_on (CHR ''.'') zone)" "is_label_zone e" for e
  proof -
    obtain pre post where z: "zone = pre @ e @ post" using split_on_infix [OF e(1)] by blast
    show ?thesis
    proof (cases "starts_with e ''_''")
      case True
      then obtain t where "e = ''_'' @ t" by (auto simp: starts_with_append)
      then show ?thesis using z by simp
    next
      case False
      then obtain t where "e = ''acme-'' @ t"
        using e(2) by (auto simp: is_label_zone_def starts_with_append)
      then have "zone = pre @ ''acme-'' @ (t @ post)" using z by simp
      then show ?thesis unfolding has_iff by blast
    qed
  qed
  have "allowed_zone zone \<longleftrightarrow> (zone \<in> suffix_zones \<or> (\<exists>p e. e \<in> suffix_zones \<and> zone = p @ ''.'' @ e)) \<or>
      (\<exists>e \<in> set label_zones. e \<in> set (split_on (CHR ''.'') zone))"
    unfolding allowed_zone_def suffix_walk
    using guard by (auto simp: list_ex_iff label_zones_def)
  then show ?thesis unfolding suffix_zones_def label_zones_def by auto
qed

end
