(* ===== verification/Event.thy ===== *)
theory Event
  imports Orders
begin

text \<open>
  \<open>event.rs\<close>: the event tuple and its renderings. Strings are byte lists; the characters the
  renderers treat specially are all ASCII, so a pass over the characters of a Rust string and
  a pass over its bytes write the same text. \<open>out\<close> is the buffer the code appends to.
  \<open>libc::localtime_r\<close> is the argument \<open>localtime\<close>: the broken-down time of a second, or \<open>None\<close>.
\<close>

section \<open>Fields\<close>

datatype field = FInt int | FText string

definition field_dash :: field where "field_dash = FText ''-''"

definition field_port :: "u16 \<Rightarrow> field" where "field_port value = FInt (int (unat value))"

text \<open>\<open>i64::to_string\<close>\<close>

definition int_dec :: "int \<Rightarrow> string" where
  "int_dec i = (if i < 0 then CHR ''-'' # dec (nat (- i)) else dec (nat i))"

fun as_plain :: "field \<Rightarrow> string" where
  "as_plain (FInt i) = int_dec i"
| "as_plain (FText s) = s"

fun is_falsy :: "field \<Rightarrow> bool" where
  "is_falsy (FInt i) \<longleftrightarrow> i = 0"
| "is_falsy (FText s) \<longleftrightarrow> s = []"

text \<open>The derived order: integers before texts.\<close>

fun field_rank :: "field \<Rightarrow> nat \<times> int \<times> string" where
  "field_rank (FInt i) = (0, i, [])"
| "field_rank (FText s) = (1, 0, s)"

lemma field_rank_inject: "field_rank x = field_rank y \<longleftrightarrow> x = y"
  by (cases x; cases y) auto

instantiation field :: linorder
begin

definition less_eq_field :: "field \<Rightarrow> field \<Rightarrow> bool" where
  "less_eq_field x y \<longleftrightarrow> field_rank x \<le> field_rank y"

definition less_field :: "field \<Rightarrow> field \<Rightarrow> bool" where
  "less_field x y \<longleftrightarrow> field_rank x < field_rank y"

instance
  by standard (auto simp: less_eq_field_def less_field_def field_rank_inject [symmetric] order_less_le)

end

record event =
  ev_sec :: nat
  ev_usec :: nat
  ev_src_ip :: string
  ev_src_port :: field
  ev_dst_ip :: field
  ev_dst_port :: field
  ev_proto :: field
  ev_trail_type :: string
  ev_trail :: field
  ev_info :: string
  ev_reference :: string

section \<open>Python's \<open>repr\<close>\<close>

definition newline :: char where "newline = char_of (10 :: nat)"
definition carriage_return :: char where "carriage_return = char_of (13 :: nat)"
definition tab :: char where "tab = char_of (9 :: nat)"
definition squote :: char where "squote = char_of (39 :: nat)"
definition dquote :: char where "dquote = char_of (34 :: nat)"
definition backslash :: char where "backslash = char_of (92 :: nat)"

definition hex_digit :: "nat \<Rightarrow> char" where
  "hex_digit d = (if d < 10 then char_of (48 + d) else char_of (87 + d))"

definition py_char :: "char \<Rightarrow> char \<Rightarrow> string" where
  "py_char quote c =
     (if c = backslash then [backslash, backslash]
      else if c = newline then [backslash, CHR ''n'']
      else if c = carriage_return then [backslash, CHR ''r'']
      else if c = tab then [backslash, CHR ''t'']
      else if c = quote then [backslash, c]
      else if code c < 32 \<or> code c = 127 then [backslash, CHR ''x'', hex_digit (code c div 16), hex_digit (code c mod 16)]
      else [c])"

definition py_quote :: "string \<Rightarrow> char" where
  "py_quote v = (if squote \<in> set v \<and> dquote \<notin> set v then dquote else squote)"

definition py_repr_str :: "string \<Rightarrow> string \<Rightarrow> string" where
  "py_repr_str v out =
     (let quote = py_quote v
      in foldl (\<lambda>out c. out @ py_char quote c) (out @ [quote]) v @ [quote])"

fun field_py_repr :: "field \<Rightarrow> string \<Rightarrow> string" where
  "field_py_repr (FInt i) out = out @ int_dec i"
| "field_py_repr (FText s) out = py_repr_str s out"

definition ev_py_repr :: "event \<Rightarrow> string" where
  "ev_py_repr e =
     (let out = ''('' @ dec (ev_sec e) @ '', '' @ dec (ev_usec e) @ '', '';
          out = py_repr_str (ev_src_ip e) out @ '', '';
          out = field_py_repr (ev_src_port e) out @ '', '';
          out = field_py_repr (ev_dst_ip e) out @ '', '';
          out = field_py_repr (ev_dst_port e) out @ '', '';
          out = field_py_repr (ev_proto e) out @ '', '';
          out = py_repr_str (ev_trail_type e) out @ '', '';
          out = field_py_repr (ev_trail e) out @ '', '';
          out = py_repr_str (ev_info e) out @ '', '';
          out = py_repr_str (ev_reference e) out
      in out @ '')'')"

section \<open>The event log line\<close>

definition flatten :: "char \<Rightarrow> char" where
  "flatten c = (if c = newline \<or> c = carriage_return then CHR '' '' else c)"

definition push_safe_value :: "string \<Rightarrow> string \<Rightarrow> string" where
  "push_safe_value out v =
     (if v = [] then out @ ''-''
      else (let flattened = map flatten v
            in if CHR '' '' \<in> set flattened \<or> dquote \<in> set flattened
               then foldl (\<lambda>out c. if c = dquote then out @ [dquote, dquote] else out @ [c]) (out @ [dquote]) flattened @ [dquote]
               else out @ flattened))"

definition safe_value :: "string \<Rightarrow> string" where
  "safe_value v = push_safe_value [] v"

definition push_safe_field :: "string \<Rightarrow> field \<Rightarrow> string" where
  "push_safe_field out f =
     (if is_falsy f then out @ ''-''
      else case f of FInt i \<Rightarrow> out @ int_dec i | FText s \<Rightarrow> push_safe_value out s)"

definition render_line :: "event \<Rightarrow> string \<Rightarrow> string \<Rightarrow> string" where
  "render_line e sensor_name localtime =
     (let out = push_safe_value [] localtime @ '' '';
          out = push_safe_value out sensor_name @ '' '';
          out = push_safe_value out (ev_src_ip e) @ '' '';
          out = push_safe_field out (ev_src_port e) @ '' '';
          out = push_safe_field out (ev_dst_ip e) @ '' '';
          out = push_safe_field out (ev_dst_port e) @ '' '';
          out = push_safe_field out (ev_proto e) @ '' '';
          out = push_safe_value out (ev_trail_type e) @ '' '';
          out = push_safe_field out (ev_trail e) @ '' '';
          out = push_safe_value out (ev_info e) @ '' '';
          out = push_safe_value out (ev_reference e)
      in out @ [newline])"

section \<open>Times\<close>

record tm =
  tm_year :: int
  tm_mon :: int
  tm_mday :: int
  tm_hour :: int
  tm_min :: int
  tm_sec :: int

definition push_pad :: "smallstr \<Rightarrow> int \<Rightarrow> nat \<Rightarrow> smallstr" where
  "push_pad out v width =
     (let t = int_dec v
      in ss_push_str (foldl (\<lambda>s _. ss_push_byte s (CHR ''0'')) out [length t..<width]) t)"

definition push_pad2 :: "smallstr \<Rightarrow> int \<Rightarrow> smallstr" where "push_pad2 out v = push_pad out v 2"
definition push_pad4 :: "smallstr \<Rightarrow> int \<Rightarrow> smallstr" where "push_pad4 out v = push_pad out v 4"

definition push_date :: "tm \<Rightarrow> smallstr \<Rightarrow> smallstr" where
  "push_date t out =
     (let out = ss_push_byte (push_pad4 out (tm_year t + 1900)) (CHR ''-'');
          out = ss_push_byte (push_pad2 out (tm_mon t + 1)) (CHR ''-'')
      in push_pad2 out (tm_mday t))"

definition local_time_string :: "(nat \<Rightarrow> tm option) \<Rightarrow> nat \<Rightarrow> nat \<Rightarrow> smallstr" where
  "local_time_string localtime sec usec =
     (case localtime sec of
        None \<Rightarrow> ss_push_str (ss_new 40) ''1970-01-01 00:00:00.000000''
      | Some t \<Rightarrow>
          (let out = ss_push_byte (push_date t (ss_new 40)) (CHR '' '');
               out = ss_push_byte (push_pad2 out (tm_hour t)) (CHR '':'');
               out = ss_push_byte (push_pad2 out (tm_min t)) (CHR '':'');
               out = ss_push_byte (push_pad2 out (tm_sec t)) (CHR ''.'')
           in push_pad out (int usec) 6))"

definition local_date_string :: "(nat \<Rightarrow> tm option) \<Rightarrow> nat \<Rightarrow> smallstr" where
  "local_date_string localtime sec =
     (case localtime sec of
        None \<Rightarrow> ss_push_str (ss_new 16) ''1970-01-01''
      | Some t \<Rightarrow> push_date t (ss_new 16))"

definition months :: "string list" where
  "months = [''Jan'', ''Feb'', ''Mar'', ''Apr'', ''May'', ''Jun'', ''Jul'', ''Aug'', ''Sep'', ''Oct'', ''Nov'', ''Dec'']"

text \<open>\<open>format!("{:02}")\<close>: zeros between the sign and the digits.\<close>

definition pad2 :: "int \<Rightarrow> string" where
  "pad2 v = (let t = dec (nat \<bar>v\<bar>); s = (if v < 0 then ''-'' else [])
             in s @ replicate (2 - length s - length t) (CHR ''0'') @ t)"

text \<open>A negative month cast to \<open>usize\<close> is huge, so it too is clamped to the last name.\<close>

definition syslog_time_string :: "(nat \<Rightarrow> tm option) \<Rightarrow> nat \<Rightarrow> string" where
  "syslog_time_string localtime sec =
     (case localtime sec of
        None \<Rightarrow> ''Jan 01 00:00:00''
      | Some t \<Rightarrow>
          (let mon = months ! (if tm_mon t < 0 then 11 else min (nat (tm_mon t)) 11)
           in mon @ '' '' @ pad2 (tm_mday t) @ '' '' @ pad2 (tm_hour t) @ '':'' @ pad2 (tm_min t) @ '':'' @ pad2 (tm_sec t)))"

section \<open>Reading a line back\<close>

text \<open>The reader of the log: a field is either quoted, with doubled quotes inside, or runs to the
  next space or line end.\<close>

fun read_quoted :: "string \<Rightarrow> (string \<times> string) option" where
  "read_quoted [] = None"
| "read_quoted [c] = (if c = dquote then Some ([], []) else None)"
| "read_quoted (c # d # cs) =
     (if c \<noteq> dquote then map_option (apfst (Cons c)) (read_quoted (d # cs))
      else if d = dquote then map_option (apfst (Cons dquote)) (read_quoted cs)
      else Some ([], d # cs))"

definition field_end :: "char \<Rightarrow> bool" where
  "field_end c \<longleftrightarrow> c = CHR '' '' \<or> c = newline"

fun read_field :: "string \<Rightarrow> (string \<times> string) option" where
  "read_field [] = None"
| "read_field (c # cs) =
     (if c = dquote then read_quoted cs
      else Some (takeWhile (\<lambda>x. \<not> field_end x) (c # cs), dropWhile (\<lambda>x. \<not> field_end x) (c # cs)))"

fun read_fields :: "nat \<Rightarrow> string \<Rightarrow> (string list \<times> string) option" where
  "read_fields 0 s = Some ([], s)"
| "read_fields (Suc n) s =
     (case read_field s of
        Some (f, c # rest) \<Rightarrow>
          (if c = (if n = 0 then newline else CHR '' '') then map_option (apfst (Cons f)) (read_fields n rest) else None)
      | _ \<Rightarrow> None)"

text \<open>What a reader is meant to see: \<open>-\<close> for nothing, otherwise the text on one line.\<close>

definition shown :: "string \<Rightarrow> string" where
  "shown v = (if v = [] then ''-'' else map flatten v)"

definition shown_field :: "field \<Rightarrow> string" where
  "shown_field f = (if is_falsy f then ''-'' else case f of FInt i \<Rightarrow> int_dec i | FText s \<Rightarrow> map flatten s)"

definition line_fields :: "event \<Rightarrow> string \<Rightarrow> string \<Rightarrow> string list" where
  "line_fields e sensor_name localtime =
     [shown localtime, shown sensor_name, shown (ev_src_ip e), shown_field (ev_src_port e), shown_field (ev_dst_ip e),
      shown_field (ev_dst_port e), shown_field (ev_proto e), shown (ev_trail_type e), shown_field (ev_trail e),
      shown (ev_info e), shown (ev_reference e)]"

lemma special_codes [simp]:
  "code newline = 10" "code carriage_return = 13" "code tab = 9" "code squote = 39" "code dquote = 34" "code backslash = 92"
  by (simp_all add: newline_def carriage_return_def tab_def squote_def dquote_def backslash_def)

lemma code_space: "code (CHR '' '') = 32" "code (CHR ''-'') = 45"
  by (simp_all add: code_def)

lemma code_neq: "code c \<noteq> code d \<Longrightarrow> c \<noteq> d"
  by auto

lemma special_distinct [simp]:
  "dquote \<noteq> CHR '' ''" "CHR '' '' \<noteq> dquote" "newline \<noteq> CHR '' ''" "CHR '' '' \<noteq> newline" "dquote \<noteq> newline" "newline \<noteq> dquote"
  "CHR ''-'' \<noteq> dquote" "CHR ''-'' \<noteq> newline" "dquote \<noteq> CHR ''-''" "newline \<noteq> CHR ''-''"
  "newline \<noteq> carriage_return" "carriage_return \<noteq> newline"
  by (rule code_neq, simp add: code_space)+

text \<open>The text of one value: \<open>push_safe_value\<close> without its buffer.\<close>

definition quoted :: "string \<Rightarrow> string" where
  "quoted v = dquote # concat (map (\<lambda>c. if c = dquote then [dquote, dquote] else [c]) v) @ [dquote]"

definition safe_text :: "string \<Rightarrow> string" where
  "safe_text v = (if CHR '' '' \<in> set v \<or> dquote \<in> set v then quoted v else v)"

lemma fold_quoted:
  "foldl (\<lambda>out c. if c = dquote then out @ [dquote, dquote] else out @ [c]) out v =
   out @ concat (map (\<lambda>c. if c = dquote then [dquote, dquote] else [c]) v)"
  by (induction v arbitrary: out) auto

lemma push_safe_value_text: "push_safe_value out v = out @ safe_text (shown v)"
  by (auto simp: push_safe_value_def safe_text_def shown_def quoted_def fold_quoted Let_def)

lemma int_dec_plain: "CHR '' '' \<notin> set (int_dec i) \<and> dquote \<notin> set (int_dec i) \<and> newline \<notin> set (int_dec i)"
proof -
  have "CHR '' '' \<notin> set (dec n) \<and> dquote \<notin> set (dec n) \<and> newline \<notin> set (dec n)" for n
  proof -
    have "is_digit c \<Longrightarrow> c \<noteq> CHR '' '' \<and> c \<noteq> dquote \<and> c \<noteq> newline" for c
      using code_space special_codes by (auto simp: is_digit_def)
    then show ?thesis using dec_digits [of n] by (fastforce simp: list_all_iff)
  qed
  then show ?thesis by (auto simp: int_dec_def)
qed

lemma push_safe_field_text: "push_safe_field out f = out @ safe_text (shown_field f)"
proof (cases f)
  case (FInt i)
  then show ?thesis using int_dec_plain [of i] by (simp add: push_safe_field_def safe_text_def shown_field_def)
next
  case (FText s)
  then show ?thesis by (simp add: push_safe_field_def push_safe_value_text shown_field_def shown_def safe_text_def)
qed

lemma render_line_text:
  "render_line e sensor_name localtime = join '' '' (map safe_text (line_fields e sensor_name localtime)) @ [newline]"
  by (simp add: render_line_def line_fields_def push_safe_value_text push_safe_field_text Let_def)

lemma read_quoted_text:
  "rest = [] \<or> hd rest \<noteq> dquote \<Longrightarrow>
   read_quoted (concat (map (\<lambda>c. if c = dquote then [dquote, dquote] else [c]) v) @ dquote # rest) = Some (v, rest)"
proof (induction v)
  case Nil
  then show ?case by (cases rest) auto
next
  case (Cons c v)
  then show ?case
    by (cases "concat (map (\<lambda>c. if c = dquote then [dquote, dquote] else [c]) v) @ dquote # rest") auto
qed

lemma read_field_text:
  assumes "v \<noteq> []" and "newline \<notin> set v" and "field_end c"
  shows "read_field (safe_text v @ c # rest) = Some (v, c # rest)"
proof (cases "CHR '' '' \<in> set v \<or> dquote \<in> set v")
  case True
  moreover have "c \<noteq> dquote" using assms(3) by (auto simp: field_end_def)
  ultimately show ?thesis using read_quoted_text [of "c # rest" v] by (simp add: safe_text_def quoted_def)
next
  case False
  then have "\<forall>x \<in> set v. \<not> field_end x" using assms(2) by (auto simp: field_end_def)
  then have "takeWhile (\<lambda>x. \<not> field_end x) (v @ c # rest) = v \<and> dropWhile (\<lambda>x. \<not> field_end x) (v @ c # rest) = c # rest"
    using assms(3) by (simp add: takeWhile_append2 dropWhile_append2)
  moreover obtain x xs where "v = x # xs" using assms(1) by (cases v) auto
  moreover from this have "x \<noteq> dquote" using False by auto
  ultimately show ?thesis using False by (simp add: safe_text_def)
qed

lemma read_fields_text:
  "\<forall>v \<in> set vs. v \<noteq> [] \<and> newline \<notin> set v \<Longrightarrow> vs \<noteq> [] \<Longrightarrow>
   read_fields (length vs) (join '' '' (map safe_text vs) @ newline # rest) = Some (vs, rest)"
proof (induction vs)
  case (Cons v vs)
  show ?case
  proof (cases vs)
    case Nil
    then show ?thesis using Cons.prems read_field_text [of v newline rest] by (simp add: field_end_def)
  next
    case (Cons w ws)
    then show ?thesis
      using Cons.prems \<open>_ \<Longrightarrow> _ \<Longrightarrow> read_fields _ _ = _\<close>
        read_field_text [of v "CHR '' ''" "join '' '' (map safe_text vs) @ newline # rest"]
      by (simp add: field_end_def)
  qed
qed simp

lemma shown_line: "shown v \<noteq> [] \<and> newline \<notin> set (shown v)"
  by (auto simp: shown_def flatten_def)

lemma shown_field_line: "shown_field f \<noteq> [] \<and> newline \<notin> set (shown_field f)"
  using int_dec_plain by (cases f) (auto simp: shown_field_def flatten_def int_dec_def)

lemma safe_text_newlines: "newline \<notin> set v \<Longrightarrow> newline \<notin> set (safe_text v)"
  by (auto simp: safe_text_def quoted_def)

lemma join_newlines: "\<forall>v \<in> set vs. newline \<notin> set v \<Longrightarrow> newline \<notin> set (join '' '' vs)"
  by (induction "'' ''" vs rule: join.induct) auto

text \<open>C20: an event log line reads back as its eleven columns as they are shown (line breaks as spaces, an
  empty field as a dash), whatever bytes the fields hold:
  no name, path or user agent taken off the wire can add a column, end a quoted field early or
  start a second line.\<close>

theorem event_line_reads_back:
  "read_fields 11 (render_line e sensor_name localtime @ rest) = Some (line_fields e sensor_name localtime, rest) \<and>
   filter (\<lambda>c. c = newline) (render_line e sensor_name localtime) = [newline]"
proof -
  have lines: "\<forall>v \<in> set (line_fields e sensor_name localtime). v \<noteq> [] \<and> newline \<notin> set v"
    using shown_line shown_field_line by (auto simp: line_fields_def)
  have "newline \<notin> set (join '' '' (map safe_text (line_fields e sensor_name localtime)))"
    using lines by (intro join_newlines) (auto dest: safe_text_newlines)
  then have "filter (\<lambda>c. c = newline) (join '' '' (map safe_text (line_fields e sensor_name localtime))) = []"
    by (auto simp: filter_empty_conv)
  moreover have "length (line_fields e sensor_name localtime) = 11" by (simp add: line_fields_def)
  moreover have "line_fields e sensor_name localtime \<noteq> []" by (simp add: line_fields_def)
  ultimately show ?thesis
    using read_fields_text [OF lines, of rest] by (simp add: render_line_text)
qed

end
