(* ===== verification/Throttle.thy ===== *)
theory Throttle
  imports Event Capped "HOL-Library.Multiset"
begin

text \<open>
  \<open>throttle.rs\<close> and \<open>merge_events\<close> of \<open>output.rs\<close>: what the event log holds back and how it comes
  out again. The key table is an association list walked in its order where the code iterates a
  hash map, so no property depends on that order. Counters are naturals; the saturating ones
  saturate. The hasher of the keys starts at \<open>process_seed()\<close>, a random number fixed for the process, which the
  throttle carries as \<open>th_seed\<close>.
\<close>

section \<open>Merging\<close>

definition varying :: "(event \<Rightarrow> field) \<Rightarrow> event \<Rightarrow> event list \<Rightarrow> field set" where
  "varying col first rest =
     foldl (\<lambda>s cur. if col cur \<noteq> col first then insert (col cur) (if s = {} then {col first} else s) else s) {} rest"

definition join_column :: "field set \<Rightarrow> field \<Rightarrow> field" where
  "join_column s old = (if s = {} then old else FText (join '','' (map as_plain (sorted_list_of_set s))))"

definition merge_events :: "event list \<Rightarrow> event option" where
  "merge_events events =
     (case events of
        [] \<Rightarrow> None
      | first # rest \<Rightarrow>
          (let src_ports = varying ev_src_port first rest; dst_ips = varying ev_dst_ip first rest;
               dst_ports = varying ev_dst_port first rest; protos = varying ev_proto first rest;
               condensed = (src_ports \<noteq> {} \<or> dst_ips \<noteq> {} \<or> dst_ports \<noteq> {} \<or> protos \<noteq> {})
           in Some (if condensed
                    then first\<lparr>ev_src_port := join_column src_ports (ev_src_port first),
                               ev_dst_ip := join_column dst_ips (ev_dst_ip first),
                               ev_dst_port := join_column dst_ports (ev_dst_port first),
                               ev_proto := join_column protos (ev_proto first)\<rparr>
                    else first)))"

section \<open>Configuration and state\<close>

datatype throttle_mode = Summarize | Legacy | Off

definition throttle_mode_parse :: "string \<Rightarrow> throttle_mode option" where
  "throttle_mode_parse v =
     (let s = map to_lower (trim v)
      in if s \<in> {'''', ''summarize'', ''smart''} then Some Summarize
         else if s \<in> {''legacy'', ''python'', ''compat''} then Some Legacy
         else if s \<in> {''off'', ''none'', ''false'', ''disabled''} then Some Off
         else None)"

fun throttle_mode_label :: "throttle_mode \<Rightarrow> string" where
  "throttle_mode_label Summarize = ''summarize''"
| "throttle_mode_label Legacy = ''legacy''"
| "throttle_mode_label Off = ''off''"

record throttle_config =
  tc_mode :: throttle_mode
  tc_window :: nat
  tc_burst :: nat
  tc_max_keys :: nat
  tc_legacy_divisor :: nat

definition throttle_config_default :: throttle_config where
  "throttle_config_default = \<lparr>tc_mode = Summarize, tc_window = 60, tc_burst = 3, tc_max_keys = 50000, tc_legacy_divisor = 1\<rparr>"

datatype decision = Write | Suppress

record key_state =
  ks_window_start :: nat
  ks_written :: nat
  ks_held :: "event list"
  ks_held_total :: nat
  ks_last_seen :: nat
  ks_seen :: nat
  ks_span :: nat

record throttle =
  th_seed :: u64
  th_cfg :: throttle_config
  th_keys :: "(u64, key_state) amap"
  th_legacy_bucket :: "nat option"
  th_legacy_trails :: "u64 set"
  th_evicted :: nat
  th_suppressed :: nat
  th_summaries :: nat

definition max_span :: nat where "max_span = 3600"
definition max_condensed_events :: nat where "max_condensed_events = 1000"
definition u32_max :: nat where "u32_max = 2 ^ 32 - 1"

definition throttle_new :: "u64 \<Rightarrow> throttle_config \<Rightarrow> throttle" where
  "throttle_new seed cfg = \<lparr>th_seed = seed, th_cfg = cfg, th_keys = [], th_legacy_bucket = None, th_legacy_trails = {},
     th_evicted = 0, th_suppressed = 0, th_summaries = 0\<rparr>"

section \<open>Keys\<close>

text \<open>\<open>i64::hash\<close> writes the number as a \<open>u64\<close>; a byte slice its length and then its bytes; a string
  its bytes and then \<open>0xff\<close>.\<close>

definition fx_bytes :: "u64 \<Rightarrow> bytes \<Rightarrow> u64" where
  "fx_bytes h b = fx_write (fx_add h (of_nat (length b))) b"

definition fx_str :: "u64 \<Rightarrow> string \<Rightarrow> u64" where
  "fx_str h s = fx_add (fx_write h (str_bytes s)) 0xff"

fun hash_field :: "u64 \<Rightarrow> field \<Rightarrow> u64" where
  "hash_field h (FInt i) = fx_add h (of_int i)"
| "hash_field h (FText s) = fx_bytes h (str_bytes s)"

definition heuristic_reference :: string where "heuristic_reference = ''(heuristic)''"

definition throttle_subject :: "event \<Rightarrow> field" where
  "throttle_subject e =
     (case ev_trail e of
        FInt i \<Rightarrow> FInt i
      | FText trail \<Rightarrow>
          (let ty = ev_trail_type e;
               grouped =
                 (if ty = ''DNS'' \<and> starts_with trail ''(''
                  then map_option (\<lambda>i. ''(*)'' @ drop (i + 1) trail) (find_sub trail '').'')
                  else if (ty = ''URL'' \<or> ty = ''HTTP'') \<and> ev_reference e = heuristic_reference \<and> \<not> starts_with trail ''(''
                  then map_option (\<lambda>i. take i trail @ ''(*)'') (find_char trail (CHR ''(''))
                  else if ty = ''UA'' \<and> ev_reference e = heuristic_reference
                  then map_option (\<lambda>i. take i trail @ '' (*)'') (find_sub trail '' ('')
                  else if ty = ''PATH'' \<and> ev_reference e = heuristic_reference
                  then Some ''*''
                  else None)
           in case grouped of Some g \<Rightarrow> FText g | None \<Rightarrow> FText trail))"

definition digest_field :: "u64 \<Rightarrow> string \<Rightarrow> field \<Rightarrow> string \<Rightarrow> u64" where
  "digest_field seed addr trail info =
     fx_finish (fx_str (hash_field (fx_add (fx_bytes seed (str_bytes addr)) 0xff) trail) info)"

definition digest_field_pair :: "u64 \<Rightarrow> field \<Rightarrow> field \<Rightarrow> string \<Rightarrow> u64" where
  "digest_field_pair seed addr trail info =
     fx_finish (fx_str (hash_field (fx_add (hash_field seed addr) 0xff) trail) info)"

definition keys_for :: "u64 \<Rightarrow> event \<Rightarrow> u64 \<times> u64" where
  "keys_for seed e =
     (let subject = throttle_subject e
      in (digest_field seed (ev_src_ip e) subject (ev_info e), digest_field_pair seed (ev_dst_ip e) subject (ev_info e)))"

section \<open>Windows and summaries\<close>

definition clamp :: "nat \<Rightarrow> nat \<Rightarrow> nat \<Rightarrow> nat" where
  "clamp x lo hi = max lo (min x hi)"

definition close_window :: "key_state \<Rightarrow> nat \<Rightarrow> nat \<Rightarrow> nat \<Rightarrow> bool \<times> key_state" where
  "close_window st now window burst =
     (let active = (now - ks_last_seen st < max max_span window);
          st = st\<lparr>ks_window_start := now\<rparr>;
          st = (if \<not> active then st\<lparr>ks_span := window\<rparr>
                else if ks_seen st > 0 then st\<lparr>ks_span := clamp (min (ks_span st * 2) (2 ^ 64 - 1)) window (max max_span window)\<rparr>
                else st)
      in (active, st\<lparr>ks_seen := 0, ks_written := (if active then burst else 0)\<rparr>))"

definition summary :: "event list \<Rightarrow> nat \<Rightarrow> event option" where
  "summary held n =
     (if held = [] then None
      else do {
        merged \<leftarrow> merge_events held;
        (let merged = (if list_ex (\<lambda>e. ev_trail e \<noteq> ev_trail (hd held)) held
                       then merged\<lparr>ev_trail := throttle_subject (hd held)\<rparr> else merged);
             overflow = n - length held
         in Some (if overflow > 0 then merged\<lparr>ev_info := ev_info merged @ '' (+'' @ dec overflow @ '' more)''\<rparr> else merged))
      })"

definition summarize :: "key_state \<Rightarrow> event option \<times> key_state" where
  "summarize st = (summary (ks_held st) (ks_held_total st), st\<lparr>ks_held := [], ks_held_total := 0\<rparr>)"

definition due_of :: "(u64 \<times> key_state) list \<Rightarrow> event list" where
  "due_of ks = List.map_filter (\<lambda>(k, st). fst (summarize st)) ks"

definition evict_batch :: "throttle \<Rightarrow> event list \<times> throttle" where
  "evict_batch th =
     (if th_keys th = [] then ([], th)
      else (let target = min (max (tc_max_keys (th_cfg th) div 100) 1) (max (length (th_keys th) - 1) 1);
                cutoff = sort (map (ks_last_seen \<circ> snd) (th_keys th)) ! (target - 1);
                gone = filter (\<lambda>(k, st). ks_last_seen st \<le> cutoff) (th_keys th);
                due = due_of gone
            in (due, th\<lparr>th_keys := filter (\<lambda>(k, st). ks_last_seen st > cutoff) (th_keys th),
                        th_evicted := th_evicted th + length gone,
                        th_summaries := th_summaries th + length due\<rparr>)))"

section \<open>Admission\<close>

definition admit_legacy :: "event \<Rightarrow> throttle \<Rightarrow> decision \<times> throttle" where
  "admit_legacy e th =
     (let bucket = ev_sec e div max (tc_legacy_divisor (th_cfg th)) 1
      in if th_legacy_bucket th \<noteq> Some bucket
         then (Write, th\<lparr>th_legacy_bucket := Some bucket, th_legacy_trails := {}\<rparr>)
         else (let (src_key, dst_key) = keys_for (th_seed th) e
               in if src_key \<in> th_legacy_trails th \<or> dst_key \<in> th_legacy_trails th
                  then (Suppress, th\<lparr>th_suppressed := th_suppressed th + 1\<rparr>)
                  else (Write, th\<lparr>th_legacy_trails := insert dst_key (insert src_key (th_legacy_trails th))\<rparr>)))"

text \<open>The key that tracks an event: the destination's only when it alone is tracked.\<close>

definition tracking_key :: "event \<Rightarrow> throttle \<Rightarrow> u64" where
  "tracking_key e th =
     (let (src_key, dst_key) = keys_for (th_seed th) e
      in if map_of (th_keys th) src_key \<noteq> None then src_key
         else if map_of (th_keys th) dst_key \<noteq> None then dst_key
         else src_key)"

definition hold :: "event \<Rightarrow> key_state \<Rightarrow> key_state" where
  "hold e st = st\<lparr>ks_held := ks_held st @ [e], ks_held_total := ks_held_total st + 1\<rparr>"

definition admit_known :: "event \<Rightarrow> u64 \<Rightarrow> key_state \<Rightarrow> throttle \<Rightarrow> decision \<times> event list \<times> throttle" where
  "admit_known e key st th =
     (let sec = ev_sec e; cfg = th_cfg th;
          expired = (sec - ks_window_start st \<ge> ks_span st \<or> sec < ks_window_start st)
      in if expired
         then (let (out, st) = summarize st;
                   due = (case out of Some s \<Rightarrow> [s] | None \<Rightarrow> []);
                   th = th\<lparr>th_summaries := th_summaries th + length due\<rparr>;
                   (busy, st) = close_window st sec (tc_window cfg) (tc_burst cfg);
                   st = st\<lparr>ks_last_seen := sec, ks_seen := 1\<rparr>
               in if \<not> busy
                  then (Write, due, th\<lparr>th_keys := AList.update key (st\<lparr>ks_written := 1\<rparr>) (th_keys th)\<rparr>)
                  else (Suppress, due, th\<lparr>th_suppressed := th_suppressed th + 1,
                                         th_keys := AList.update key (hold e st) (th_keys th)\<rparr>))
         else (let st = st\<lparr>ks_last_seen := sec, ks_seen := min (ks_seen st + 1) u32_max\<rparr>
               in if ks_written st < tc_burst cfg
                  then (Write, [], th\<lparr>th_keys := AList.update key (st\<lparr>ks_written := ks_written st + 1\<rparr>) (th_keys th)\<rparr>)
                  else (let st' = (if length (ks_held st) < max_condensed_events then hold e st
                                   else st\<lparr>ks_held_total := ks_held_total st + 1\<rparr>)
                        in (Suppress, [], th\<lparr>th_suppressed := th_suppressed th + 1,
                                            th_keys := AList.update key st' (th_keys th)\<rparr>))))"

definition admit_summarizing :: "event \<Rightarrow> throttle \<Rightarrow> decision \<times> event list \<times> throttle" where
  "admit_summarizing e th =
     (let key = tracking_key e th
      in case map_of (th_keys th) key of
           Some st \<Rightarrow> admit_known e key st th
         | None \<Rightarrow>
             (let (due, th) = (if length (th_keys th) \<ge> tc_max_keys (th_cfg th) then evict_batch th else ([], th));
                  fresh = \<lparr>ks_window_start = ev_sec e, ks_written = 1, ks_held = [], ks_held_total = 0,
                           ks_last_seen = ev_sec e, ks_seen = 1, ks_span = tc_window (th_cfg th)\<rparr>
              in (Write, due, th\<lparr>th_keys := AList.update key fresh (th_keys th)\<rparr>)))"

definition th_admit :: "event \<Rightarrow> throttle \<Rightarrow> decision \<times> event list \<times> throttle" where
  "th_admit e th =
     (case tc_mode (th_cfg th) of
        Off \<Rightarrow> (Write, [], th)
      | Legacy \<Rightarrow> (let (d, th) = admit_legacy e th in (d, [], th))
      | Summarize \<Rightarrow> admit_summarizing e th)"

section \<open>Flushing\<close>

definition in_window :: "nat \<Rightarrow> key_state \<Rightarrow> bool" where
  "in_window now st \<longleftrightarrow> now - ks_window_start st < ks_span st \<and> now \<ge> ks_window_start st"

definition flush_key :: "throttle_config \<Rightarrow> nat \<Rightarrow> u64 \<times> key_state \<Rightarrow> (u64 \<times> key_state) option" where
  "flush_key cfg now e =
     (case e of (k, st) \<Rightarrow>
        if in_window now st then Some (k, st)
        else (let (active, st') = close_window (snd (summarize st)) now (tc_window cfg) (tc_burst cfg)
              in if active then Some (k, st') else None))"

definition flush_due :: "nat \<Rightarrow> throttle \<Rightarrow> event list \<times> throttle" where
  "flush_due now th =
     (if tc_mode (th_cfg th) \<noteq> Summarize then ([], th)
      else (let due = due_of (filter (\<lambda>(k, st). \<not> in_window now st) (th_keys th))
            in (due, th\<lparr>th_keys := List.map_filter (flush_key (th_cfg th) now) (th_keys th),
                        th_summaries := th_summaries th + length due\<rparr>)))"

definition flush_all :: "throttle \<Rightarrow> event list \<times> throttle" where
  "flush_all th =
     (let due = due_of (th_keys th)
      in (due, th\<lparr>th_keys := [], th_summaries := th_summaries th + length due\<rparr>))"

definition tracked_keys :: "throttle \<Rightarrow> nat" where
  "tracked_keys th = length (th_keys th)"

section \<open>The ledger\<close>

text \<open>The ledger keeps, per tracked key, every event held back since its last summary, which the
  throttle itself stores only up to \<open>MAX_CONDENSED_EVENTS\<close> of, with their number.\<close>

definition represents :: "key_state \<Rightarrow> event list \<Rightarrow> bool" where
  "represents st es \<longleftrightarrow> ks_held st = take max_condensed_events es \<and> ks_held_total st = length es"

definition summary_of :: "event list \<Rightarrow> event option" where
  "summary_of es = summary (take max_condensed_events es) (length es)"

definition ledger :: "(u64 \<Rightarrow> event list) \<Rightarrow> throttle \<Rightarrow> bool" where
  "ledger P th \<longleftrightarrow> distinct (map fst (th_keys th)) \<and> (\<forall>(k, st) \<in> set (th_keys th). represents st (P k))"

definition owed :: "(u64 \<Rightarrow> event list) \<Rightarrow> (u64 \<times> key_state) list \<Rightarrow> event multiset" where
  "owed P ks = (\<Sum>k \<in> fst ` set ks. mset (P k))"

definition reported :: "(u64 \<Rightarrow> event list) \<Rightarrow> (u64 \<times> key_state) list \<Rightarrow> event list list" where
  "reported P ks = filter (\<lambda>es. es \<noteq> []) (map (P \<circ> fst) ks)"

lemma max_condensed_pos [simp]: "max_condensed_events > 0"
  by (simp add: max_condensed_events_def)

lemma merge_events_Some: "es \<noteq> [] \<Longrightarrow> \<exists>m. merge_events es = Some m"
  by (cases es) (simp_all add: merge_events_def Let_def)

lemma summary_of_Some: "es \<noteq> [] \<Longrightarrow> \<exists>m. summary_of es = Some m"
  using merge_events_Some [of "take max_condensed_events es"]
  by (auto simp: summary_of_def summary_def Let_def)

lemma summary_of_Nil [simp]: "summary_of [] = None"
  by (simp add: summary_of_def summary_def)

lemma summarize_represents: "represents st es \<Longrightarrow> summarize st = (summary_of es, st\<lparr>ks_held := [], ks_held_total := 0\<rparr>)"
  by (simp add: summarize_def summary_of_def represents_def)

lemma due_reported:
  "\<forall>(k, st) \<in> set ks. represents st (P k) \<Longrightarrow> map Some (due_of ks) = map summary_of (reported P ks)"
proof (induction ks)
  case (Cons e ks)
  obtain k st where e: "e = (k, st)" by (cases e)
  have "due_of (e # ks) = (case summary_of (P k) of None \<Rightarrow> [] | Some s \<Rightarrow> [s]) @ due_of ks"
    using Cons.prems e by (auto simp: due_of_def List.map_filter_def summarize_represents split: option.splits)
  then show ?case
    using Cons summary_of_Some [of "P k"] by (auto simp: reported_def e split: option.splits)
qed (simp add: due_of_def reported_def List.map_filter_def)

lemma mset_reported: "distinct (map fst ks) \<Longrightarrow> mset (concat (reported P ks)) = owed P ks"
proof (induction ks)
  case (Cons e ks)
  then show ?case by (cases e) (auto simp: reported_def owed_def)
qed (simp add: reported_def owed_def)

lemma reported_nonempty: "list_all (\<lambda>es. es \<noteq> []) (reported P ks)"
  by (simp add: reported_def list_all_iff)

lemma owed_split:
  assumes "distinct (map fst ks)"
  shows "owed P ks = owed P (filter Q ks) + owed P (filter (\<lambda>e. \<not> Q e) ks)"
  using assms
proof (induction ks)
  case (Cons e ks)
  have "fst e \<notin> fst ` set (filter Q ks)" "fst e \<notin> fst ` set (filter (\<lambda>e. \<not> Q e) ks)"
    using Cons.prems by (force simp: image_iff)+
  then show ?case using Cons by (simp add: owed_def)
qed (simp add: owed_def)

lemma owed_update:
  assumes "map_of ks k = Some st"
  shows "owed (P(k := es)) (AList.update k st' ks) + mset (P k) = owed P ks + mset es"
proof -
  have k: "k \<in> fst ` set ks" using assms by (metis image_eqI fst_conv map_of_SomeD)
  then have D: "fst ` set (AList.update k st' ks) = fst ` set ks" by (auto simp: amap_simps)
  have "(\<Sum>x \<in> fst ` set ks. mset ((P(k := es)) x)) = mset es + (\<Sum>x \<in> fst ` set ks - {k}. mset (P x))"
    using k by (simp add: sum.remove [of _ k])
  moreover have "owed P ks = mset (P k) + (\<Sum>x \<in> fst ` set ks - {k}. mset (P x))"
    using k by (simp add: owed_def sum.remove [of _ k])
  ultimately show ?thesis using D by (simp add: owed_def)
qed

lemma amap_update_entries:
  "distinct (map fst m) \<Longrightarrow> x \<in> set (AList.update k v m) \<Longrightarrow> x = (k, v) \<or> (x \<in> set m \<and> fst x \<noteq> k)"
  by (induction m) (auto simp: image_iff split: if_splits)

lemma ledger_update:
  assumes "ledger P th" and "represents st' es"
  shows "ledger (P(k := es)) (th\<lparr>th_keys := AList.update k st' (th_keys th)\<rparr>)"
proof -
  have "represents s ((P(k := es)) j)" if "(j, s) \<in> set (AList.update k st' (th_keys th))" for j s
    using amap_update_entries [OF _ that] assms by (auto simp: ledger_def)
  then show ?thesis
    using assms(1) by (auto simp: ledger_def amap_distinct_update)
qed

text \<open>One operation on the ledger: what it settles is reported, in summaries, and what it holds back
  is booked.\<close>

definition settles :: "(u64 \<Rightarrow> event list) \<Rightarrow> throttle \<Rightarrow> event multiset \<Rightarrow> event list \<Rightarrow> throttle \<Rightarrow> bool" where
  "settles P th booked due th' \<longleftrightarrow>
     (\<exists>P' groups. ledger P' th' \<and> map Some due = map summary_of groups \<and> list_all (\<lambda>es. es \<noteq> []) groups \<and>
        mset (concat groups) + owed P' (th_keys th') = owed P (th_keys th) + booked) \<and> th_cfg th' = th_cfg th"

lemma ledger_get: "ledger P th \<Longrightarrow> map_of (th_keys th) k = Some st \<Longrightarrow> represents st (P k)"
  by (auto simp: ledger_def dest: map_of_SomeD)

lemma represents_hold [simp]: "represents st [] \<Longrightarrow> represents (hold e st) [e]"
  by (simp add: represents_def hold_def max_condensed_events_def)

lemma close_window_held [simp]:
  "ks_held (snd (close_window st now window burst)) = ks_held st"
  "ks_held_total (snd (close_window st now window burst)) = ks_held_total st"
  by (simp_all add: close_window_def Let_def)

lemma exchange:
  fixes g e p b r r' :: "'a multiset"
  assumes "g + e = p + b" and "r' + p = r + e"
  shows "g + r' = r + b"
proof -
  have "(g + r') + (e + p) = (g + e) + (r' + p)" by (simp add: ac_simps)
  also have "\<dots> = (r + b) + (e + p)" unfolding assms by (simp add: ac_simps)
  finally show ?thesis by (rule add_right_imp_eq)
qed

lemma admit_known_settles:
  assumes L: "ledger P th" and st: "map_of (th_keys th) key = Some st" and adm: "admit_known e key st th = (d, due, th')"
  shows "settles P th (if d = Suppress then {#e#} else {#}) due th'"
proof -
  have rep: "represents st (P key)" using ledger_get [OF L st] .
  obtain es groups st' where r: "represents st' es" and
    g: "map Some due = map summary_of groups" "list_all (\<lambda>es. es \<noteq> []) groups"
      "mset (concat groups) + mset es = mset (P key) + (if d = Suppress then {#e#} else {#})"
    and th': "th_keys th' = AList.update key st' (th_keys th)" "th_cfg th' = th_cfg th"
  proof (cases "ev_sec e - ks_window_start st \<ge> ks_span st \<or> ev_sec e < ks_window_start st")
    case True
    define groups where "groups = (if P key = [] then [] else [P key])"
    obtain busy w where cw: "close_window (st\<lparr>ks_held := [], ks_held_total := 0\<rparr>) (ev_sec e) (tc_window (th_cfg th)) (tc_burst (th_cfg th)) = (busy, w)"
      by (cases "close_window (st\<lparr>ks_held := [], ks_held_total := 0\<rparr>) (ev_sec e) (tc_window (th_cfg th)) (tc_burst (th_cfg th))")
    have w: "ks_held w = []" "ks_held_total w = 0"
      using close_window_held [of "st\<lparr>ks_held := [], ks_held_total := 0\<rparr>" "ev_sec e" "tc_window (th_cfg th)" "tc_burst (th_cfg th)"] cw
      by simp_all
    have due: "due = (case summary_of (P key) of Some s \<Rightarrow> [s] | None \<Rightarrow> [])"
      and out: "d = (if busy then Suppress else Write)" "th_cfg th' = th_cfg th"
      "th_keys th' = AList.update key (if busy then hold e (w\<lparr>ks_last_seen := ev_sec e, ks_seen := 1\<rparr>)
         else w\<lparr>ks_last_seen := ev_sec e, ks_seen := 1, ks_written := 1\<rparr>) (th_keys th)"
      using adm True cw by (auto simp: admit_known_def Let_def summarize_represents [OF rep] split: if_splits)
    show thesis
    proof (rule that [of _ "if busy then [e] else []" groups, OF _ _ _ _ out(3) out(2)])
      show "map Some due = map summary_of groups"
        using due summary_of_Some [of "P key"] by (auto simp: groups_def)
    qed (use w out(1) in \<open>auto simp: groups_def represents_def hold_def max_condensed_events_def\<close>)
  next
    case False
    define s1 where "s1 = st\<lparr>ks_last_seen := ev_sec e, ks_seen := min (ks_seen st + 1) u32_max\<rparr>"
    show thesis
    proof (cases "ks_written st < tc_burst (th_cfg th)")
      case True
      then show thesis
        using adm False rep that [of "s1\<lparr>ks_written := ks_written st + 1\<rparr>" "P key" "[]"]
        by (auto simp: admit_known_def Let_def s1_def represents_def)
    next
      case nw: False
      define s2 where "s2 = (if length (ks_held s1) < max_condensed_events then hold e s1 else s1\<lparr>ks_held_total := ks_held_total s1 + 1\<rparr>)"
      have "represents s2 (P key @ [e])"
        using rep by (auto simp: s2_def s1_def represents_def hold_def)
      then show thesis
        using adm False nw that [of s2 "P key @ [e]" "[]"]
        by (auto simp: admit_known_def Let_def s1_def [symmetric] s2_def) (auto simp: s1_def)
    qed
  qed
  have "ledger (P(key := es)) th'"
    using ledger_update [OF L r, of key] th' by (simp add: ledger_def)
  moreover have "mset (concat groups) + owed (P(key := es)) (th_keys th') = owed P (th_keys th) + (if d = Suppress then {#e#} else {#})"
  proof -
    have "owed (P(key := es)) (th_keys th') + mset (P key) = owed P (th_keys th) + mset es"
      using owed_update [OF st] th'(1) by metis
    then show ?thesis using exchange [OF g(3)] by blast
  qed
  ultimately show ?thesis unfolding settles_def using g(1,2) th'(2) by blast
qed

lemma settles_trans:
  assumes "settles P th a due1 th1" and "\<And>P'. ledger P' th1 \<Longrightarrow> settles P' th1 b due2 th2"
  shows "settles P th (a + b) (due1 @ due2) th2"
proof -
  obtain P1 g1 where 1: "ledger P1 th1" "map Some due1 = map summary_of g1" "list_all (\<lambda>es. es \<noteq> []) g1"
    "mset (concat g1) + owed P1 (th_keys th1) = owed P (th_keys th) + a" "th_cfg th1 = th_cfg th"
    using assms(1) unfolding settles_def by blast
  obtain P2 g2 where 2: "ledger P2 th2" "map Some due2 = map summary_of g2" "list_all (\<lambda>es. es \<noteq> []) g2"
    "mset (concat g2) + owed P2 (th_keys th2) = owed P1 (th_keys th1) + b" "th_cfg th2 = th_cfg th1"
    using assms(2) [OF 1(1)] unfolding settles_def by blast
  have "mset (concat (g1 @ g2)) + owed P2 (th_keys th2) = mset (concat g1) + (mset (concat g2) + owed P2 (th_keys th2))"
    by simp
  also have "\<dots> = (mset (concat g1) + owed P1 (th_keys th1)) + b"
    unfolding 2(4) by simp
  finally have "mset (concat (g1 @ g2)) + owed P2 (th_keys th2) = owed P (th_keys th) + (a + b)"
    unfolding 1(4) by simp
  then show ?thesis
    unfolding settles_def
  proof (intro conjI exI)
    show "ledger P2 th2" using 2(1) .
    show "map Some (due1 @ due2) = map summary_of (g1 @ g2)" using 1(2) 2(2) by simp
    show "list_all (\<lambda>es. es \<noteq> []) (g1 @ g2)" using 1(3) 2(3) by simp
    show "th_cfg th2 = th_cfg th" using 1(5) 2(5) by simp
  qed
qed

text \<open>Dropping entries reports them.\<close>

lemma drop_settles:
  assumes L: "ledger P th" and keys: "th_keys th' = filter (\<lambda>e. \<not> Q e) (th_keys th)" and cfg: "th_cfg th' = th_cfg th"
  shows "settles P th {#} (due_of (filter Q (th_keys th))) th'"
  unfolding settles_def
proof (intro conjI exI)
  have d: "distinct (map fst (th_keys th))" and r: "\<forall>(k, st) \<in> set (th_keys th). represents st (P k)"
    using L by (simp_all add: ledger_def)
  show "ledger P th'" using d r by (auto simp: ledger_def keys amap_distinct_filter)
  show "map Some (due_of (filter Q (th_keys th))) = map summary_of (reported P (filter Q (th_keys th)))"
    using r by (intro due_reported) auto
  show "list_all (\<lambda>es. es \<noteq> []) (reported P (filter Q (th_keys th)))" by (rule reported_nonempty)
  show "mset (concat (reported P (filter Q (th_keys th)))) + owed P (th_keys th') = owed P (th_keys th) + {#}"
    using owed_split [OF d, of P Q] by (simp add: keys mset_reported amap_distinct_filter d)
qed (rule cfg)

definition evict_cutoff :: "throttle \<Rightarrow> nat" where
  "evict_cutoff th = sort (map (ks_last_seen \<circ> snd) (th_keys th)) !
     (min (max (tc_max_keys (th_cfg th) div 100) 1) (max (length (th_keys th) - 1) 1) - 1)"

definition stale :: "throttle \<Rightarrow> u64 \<times> key_state \<Rightarrow> bool" where
  "stale th e \<longleftrightarrow> ks_last_seen (snd e) \<le> evict_cutoff th"

lemma evict_batch_eq:
  assumes "th_keys th \<noteq> []"
  shows "evict_batch th = (due_of (filter (stale th) (th_keys th)),
    th\<lparr>th_keys := filter (\<lambda>e. \<not> stale th e) (th_keys th),
       th_evicted := th_evicted th + length (filter (stale th) (th_keys th)),
       th_summaries := th_summaries th + length (due_of (filter (stale th) (th_keys th)))\<rparr>)"
proof -
  have "stale th = (\<lambda>(k, st). ks_last_seen st \<le> evict_cutoff th)"
    and "(\<lambda>e. \<not> stale th e) = (\<lambda>(k, st). ks_last_seen st > evict_cutoff th)"
    by (auto simp: stale_def fun_eq_iff)
  then show ?thesis
    using assms unfolding evict_batch_def Let_def evict_cutoff_def by (simp only: if_False)
qed

lemma evict_settles:
  assumes L: "ledger P th" and ev: "evict_batch th = (due, th')"
  shows "settles P th {#} due th'"
proof (cases "th_keys th = []")
  case True
  have "settles P th {#} (due_of (filter (\<lambda>_. False) (th_keys th))) th"
    by (rule drop_settles [OF L]) simp_all
  then show ?thesis using True ev by (simp add: evict_batch_def due_of_def List.map_filter_def)
next
  case False
  have "settles P th {#} (due_of (filter (stale th) (th_keys th))) (snd (evict_batch th))"
    by (rule drop_settles [OF L]) (simp_all add: evict_batch_eq [OF False])
  moreover have "due_of (filter (stale th) (th_keys th)) = fst (evict_batch th)"
    by (simp add: evict_batch_eq [OF False])
  ultimately show ?thesis unfolding ev by simp
qed

lemma fresh_settles:
  assumes L: "ledger P th" and new: "map_of (th_keys th) key = None" and st: "ks_held st = []" "ks_held_total st = 0"
  shows "settles P th {#} [] (th\<lparr>th_keys := AList.update key st (th_keys th)\<rparr>)"
  unfolding settles_def
proof (intro conjI exI)
  have k: "key \<notin> fst ` set (th_keys th)" using new by (simp add: map_of_eq_None_iff)
  show "ledger (P(key := [])) (th\<lparr>th_keys := AList.update key st (th_keys th)\<rparr>)"
    using ledger_update [OF L, of st "[]" key] st by (simp add: represents_def)
  have "owed (P(key := [])) (AList.update key st (th_keys th)) = (\<Sum>x \<in> fst ` set (th_keys th). mset ((P(key := [])) x))"
    using k by (simp add: owed_def amap_simps)
  also have "\<dots> = owed P (th_keys th)"
    unfolding owed_def using k by (intro sum.cong) auto
  finally show "mset (concat []) + owed (P(key := [])) (th_keys (th\<lparr>th_keys := AList.update key st (th_keys th)\<rparr>)) =
      owed P (th_keys th) + {#}" by simp
qed simp_all

lemma settles_nothing: "ledger P th \<Longrightarrow> settles P th {#} [] th"
  by (auto simp: settles_def intro!: exI [of _ P] exI [of _ "[]"])

lemma evict_keys: "set (th_keys (snd (evict_batch th))) \<subseteq> set (th_keys th)"
  by (cases "th_keys th = []") (auto simp: evict_batch_eq, simp add: evict_batch_def)

lemma admit_settles:
  assumes L: "ledger P th" and adm: "admit_summarizing e th = (d, due, th')"
  shows "settles P th (if d = Suppress then {#e#} else {#}) due th'"
proof (cases "map_of (th_keys th) (tracking_key e th)")
  case (Some st)
  then show ?thesis using admit_known_settles [OF L Some] adm by (simp add: admit_summarizing_def Let_def)
next
  case None
  define key where "key = tracking_key e th"
  obtain due1 th1 where ev: "(if length (th_keys th) \<ge> tc_max_keys (th_cfg th) then evict_batch th else ([], th)) = (due1, th1)"
    by (cases "if length (th_keys th) \<ge> tc_max_keys (th_cfg th) then evict_batch th else ([], th)")
  have s1: "settles P th {#} due1 th1"
    using ev evict_settles [OF L] settles_nothing [OF L] by (auto split: if_splits)
  have "key \<notin> fst ` set (th_keys th)" using None by (simp add: key_def map_of_eq_None_iff)
  then have new: "map_of (th_keys th1) key = None"
  proof -
    have "set (th_keys th1) \<subseteq> set (th_keys th)"
      using ev evict_keys [of th] by (metis order_refl snd_conv)
    then show ?thesis using \<open>key \<notin> _\<close> by (auto simp: map_of_eq_None_iff)
  qed
  define fresh where "fresh = \<lparr>ks_window_start = ev_sec e, ks_written = 1, ks_held = [], ks_held_total = 0,
    ks_last_seen = ev_sec e, ks_seen = 1, ks_span = tc_window (th_cfg th1)\<rparr>"
  have "settles P th ({#} + {#}) (due1 @ []) (th1\<lparr>th_keys := AList.update key fresh (th_keys th1)\<rparr>)"
    by (rule settles_trans [OF s1]) (rule fresh_settles [OF _ new], simp_all add: fresh_def)
  then show ?thesis using adm None ev by (auto simp: admit_summarizing_def Let_def key_def fresh_def split: prod.splits)
qed

text \<open>A flush reports the closed windows and keeps the rest; what it forgets owes nothing.\<close>

definition closed :: "nat \<Rightarrow> u64 \<times> key_state \<Rightarrow> bool" where
  "closed now e \<longleftrightarrow> \<not> in_window now (snd e)"

definition after_flush :: "nat \<Rightarrow> (u64 \<times> key_state) list \<Rightarrow> (u64 \<Rightarrow> event list) \<Rightarrow> u64 \<Rightarrow> event list" where
  "after_flush now ks P k = (if k \<in> fst ` set (filter (closed now) ks) then [] else P k)"

lemma flush_key_Some:
  assumes "flush_key cfg now e = Some e'"
  shows "fst e' = fst e \<and> (\<not> closed now e \<longrightarrow> e' = e) \<and>
    (closed now e \<longrightarrow> ks_held (snd e') = [] \<and> ks_held_total (snd e') = 0)"
proof (cases "closed now e")
  case True
  obtain k st where e: "e = (k, st)" by (cases e)
  obtain a w where cw: "close_window (snd (summarize st)) now (tc_window cfg) (tc_burst cfg) = (a, w)"
    by (cases "close_window (snd (summarize st)) now (tc_window cfg) (tc_burst cfg)")
  have "ks_held w = [] \<and> ks_held_total w = 0"
    using close_window_held [of "snd (summarize st)" now "tc_window cfg" "tc_burst cfg"]
    unfolding cw by (simp add: summarize_def)
  then show ?thesis using assms True e cw by (auto simp: flush_key_def closed_def split: if_splits)
next
  case False
  then show ?thesis using assms by (auto simp: flush_key_def closed_def split: prod.splits if_splits)
qed

lemma flush_key_open: "\<not> closed now e \<Longrightarrow> flush_key cfg now e = Some e"
  by (auto simp: flush_key_def closed_def split: prod.splits)

lemma map_filter_flush:
  "set (List.map_filter (flush_key cfg now) ks) = {e'. \<exists>e \<in> set ks. flush_key cfg now e = Some e'}"
  by (auto simp: List.map_filter_def image_iff) (metis option.distinct(1) option.sel)+

lemma map_filter_flush_keys:
  "distinct (map fst ks) \<Longrightarrow> distinct (map fst (List.map_filter (flush_key cfg now) ks))"
proof (induction ks)
  case (Cons e ks)
  have "fst e' \<noteq> fst e" if e': "e' \<in> set (List.map_filter (flush_key cfg now) ks)" for e'
  proof -
    obtain d where "d \<in> set ks" "flush_key cfg now d = Some e'" using e' unfolding map_filter_flush by blast
    then show ?thesis using flush_key_Some [of cfg now d e'] Cons.prems by (metis distinct.simps(2) image_eqI list.set_map list.simps(9))
  qed
  then have "fst e \<notin> fst ` set (List.map_filter (flush_key cfg now) ks)" by (metis imageE)
  then show ?case
    using Cons flush_key_Some [of cfg now e] by (auto simp: List.map_filter_simps split: option.splits)
qed (simp add: List.map_filter_def)

lemma flush_settles:
  assumes L: "ledger P th" and mode: "tc_mode (th_cfg th) = Summarize" and fl: "flush_due now th = (due, th')"
  shows "settles P th {#} due th'"
  unfolding settles_def
proof (intro conjI exI)
  define ks where "ks = th_keys th"
  define P' where "P' = after_flush now ks P"
  have d: "distinct (map fst ks)" and r: "\<forall>(k, st) \<in> set ks. represents st (P k)"
    using L by (simp_all add: ledger_def ks_def)
  have eta: "(\<lambda>(k, st). \<not> in_window now st) = closed now" by (auto simp: closed_def fun_eq_iff)
  have th': "due = due_of (filter (closed now) ks)" "th_keys th' = List.map_filter (flush_key (th_cfg th) now) ks" "th_cfg th' = th_cfg th"
    using fl mode by (auto simp: flush_due_def Let_def eta ks_def)
  have key: "e1 = e2" if "e1 \<in> set ks" "e2 \<in> set ks" "fst e1 = fst e2" for e1 e2
    using that d by (metis distinct_map inj_onD)
  have cl: "P' (fst e) = (if closed now e then [] else P (fst e))" if "e \<in> set ks" for e
    using key [OF that] that by (auto simp: P'_def after_flush_def)
  show "ledger P' th'"
    unfolding ledger_def th'
  proof (intro conjI ballI)
    show "distinct (map fst (List.map_filter (flush_key (th_cfg th) now) ks))" using map_filter_flush_keys [OF d] .
    fix e' assume "e' \<in> set (List.map_filter (flush_key (th_cfg th) now) ks)"
    then obtain e where e: "e \<in> set ks" "flush_key (th_cfg th) now e = Some e'" by (auto simp: map_filter_flush)
    show "case e' of (k, st) \<Rightarrow> represents st (P' k)"
      using flush_key_Some [OF e(2)] cl [OF e(1)] r e(1) by (cases e'; cases "closed now e") (auto simp: represents_def)
  qed
  show "map Some due = map summary_of (reported P (filter (closed now) ks))"
    using r th'(1) due_reported [of "filter (closed now) ks" P] by auto
  show "list_all (\<lambda>es. es \<noteq> []) (reported P (filter (closed now) ks))" by (rule reported_nonempty)
  show "th_cfg th' = th_cfg th" by (rule th')
  have "owed P' (th_keys th') = owed P (filter (\<lambda>e. \<not> closed now e) ks)"
  proof -
    have sub: "fst ` set (filter (\<lambda>e. \<not> closed now e) ks) \<subseteq> fst ` set (th_keys th')"
      using flush_key_open by (force simp: th' map_filter_flush)
    have sub2: "fst ` set (th_keys th') \<subseteq> fst ` set ks"
      by (auto simp: th' map_filter_flush dest!: flush_key_Some)
    have zero: "P' k = []" if "k \<in> fst ` set (th_keys th') - fst ` set (filter (\<lambda>e. \<not> closed now e) ks)" for k
      using that sub2 cl by (fastforce simp: image_iff)
    have "owed P' (th_keys th') = (\<Sum>k \<in> fst ` set (filter (\<lambda>e. \<not> closed now e) ks). mset (P' k))"
      unfolding owed_def using sub zero by (intro sum.mono_neutral_right) auto
    also have "\<dots> = owed P (filter (\<lambda>e. \<not> closed now e) ks)"
      unfolding owed_def using cl by (intro sum.cong) auto
    finally show ?thesis .
  qed
  then show "mset (concat (reported P (filter (closed now) ks))) + owed P' (th_keys th') = owed P (th_keys th) + {#}"
    using owed_split [OF d, of P "closed now"] d by (simp add: mset_reported amap_distinct_filter ks_def [symmetric])
qed

lemma flush_all_settles:
  assumes L: "ledger P th" and fl: "flush_all th = (due, th')"
  shows "settles P th {#} due th' \<and> th_keys th' = []"
proof -
  have "settles P th {#} (due_of (filter (\<lambda>_. True) (th_keys th))) th'"
    using fl by (intro drop_settles [OF L]) (auto simp: flush_all_def Let_def)
  then show ?thesis using fl by (auto simp: flush_all_def Let_def)
qed

section \<open>Runs\<close>

datatype throttle_op = Admit event | Flush nat | FlushAll

fun th_step :: "throttle_op \<Rightarrow> throttle \<Rightarrow> event list \<times> event list \<times> throttle" where
  "th_step (Admit e) th = (let (d, due, th) = th_admit e th in (if d = Write then [e] else [], due, th))"
| "th_step (Flush now) th = (let (due, th) = flush_due now th in ([], due, th))"
| "th_step FlushAll th = (let (due, th) = flush_all th in ([], due, th))"

text \<open>The events written as they came, the summaries, and the final state.\<close>

fun th_run :: "throttle_op list \<Rightarrow> throttle \<Rightarrow> event list \<times> event list \<times> throttle" where
  "th_run [] th = ([], [], th)"
| "th_run (x # xs) th =
     (let (w, due, th) = th_step x th; (ws, dues, th) = th_run xs th in (w @ ws, due @ dues, th))"

fun offered :: "throttle_op list \<Rightarrow> event list" where
  "offered [] = []"
| "offered (Admit e # xs) = e # offered xs"
| "offered (_ # xs) = offered xs"

lemma offered_append: "offered (xs @ ys) = offered xs @ offered ys"
  by (induction xs rule: offered.induct) auto

lemma step_settles:
  assumes L: "ledger P th" and mode: "tc_mode (th_cfg th) \<noteq> Legacy" and st: "th_step x th = (w, due, th')"
  shows "\<exists>held. settles P th held due th' \<and> mset (offered [x]) = mset w + held"
proof (cases x)
  case (Admit e)
  obtain d due0 th0 where a: "th_admit e th = (d, due0, th0)" by (cases "th_admit e th")
  have "settles P th (if d = Suppress then {#e#} else {#}) due0 th0"
  proof (cases "tc_mode (th_cfg th) = Off")
    case True
    then show ?thesis using a settles_nothing [OF L] by (simp add: th_admit_def)
  next
    case False
    then show ?thesis using a mode admit_settles [OF L] by (cases "tc_mode (th_cfg th)") (simp_all add: th_admit_def)
  qed
  moreover have "d \<noteq> Write \<longleftrightarrow> d = Suppress" by (cases d) auto
  ultimately show ?thesis using st a Admit by (intro exI [of _ "if d = Suppress then {#e#} else {#}"]) auto
next
  case (Flush now)
  have "settles P th {#} due th'"
  proof (cases "tc_mode (th_cfg th) = Off")
    case True
    then show ?thesis using st Flush settles_nothing [OF L] by (simp add: flush_due_def)
  next
    case False
    then show ?thesis using st Flush mode flush_settles [OF L] by (cases "tc_mode (th_cfg th)") (auto split: prod.splits)
  qed
  then show ?thesis using st Flush by (intro exI [of _ "{#}"]) (auto split: prod.splits)
next
  case FlushAll
  then show ?thesis using st flush_all_settles [OF L] by (intro exI [of _ "{#}"]) (auto split: prod.splits)
qed

lemma settles_cfg: "settles P th held due th' \<Longrightarrow> th_cfg th' = th_cfg th"
  by (simp add: settles_def)

lemma settles_ledger: "settles P th held due th' \<Longrightarrow> \<exists>P'. ledger P' th'"
  unfolding settles_def by blast

lemma run_settles:
  "ledger P th \<Longrightarrow> tc_mode (th_cfg th) \<noteq> Legacy \<Longrightarrow> th_run xs th = (ws, dues, th') \<Longrightarrow>
   \<exists>held. settles P th held dues th' \<and> mset (offered xs) = mset ws + held"
proof (induction xs arbitrary: P th ws dues th')
  case Nil
  then show ?case using settles_nothing by (intro exI [of _ "{#}"]) auto
next
  case (Cons x xs)
  obtain w due th1 where x: "th_step x th = (w, due, th1)" by (cases "th_step x th")
  obtain ws' dues' where xs: "th_run xs th1 = (ws', dues', th')" "ws = w @ ws'" "dues = due @ dues'"
    using Cons.prems(3) x by (auto split: prod.splits)
  obtain held where h: "settles P th held due th1" "mset (offered [x]) = mset w + held"
    using step_settles [OF Cons.prems(1,2) x] by blast
  have off: "offered (x # xs) = offered [x] @ offered xs" using offered_append [of "[x]" xs] by simp
  have cfg: "tc_mode (th_cfg th1) \<noteq> Legacy" using Cons.prems(2) settles_cfg [OF h(1)] by simp
  obtain P1 where P1: "ledger P1 th1" using settles_ledger [OF h(1)] by blast
  define held' where "held' = mset (offered xs) - mset ws'"
  have rest: "settles Q th1 held' dues' th' \<and> mset (offered xs) = mset ws' + held'" if "ledger Q th1" for Q
    using Cons.IH [OF that cfg xs(1)] by (auto simp: held'_def)
  have "settles P th (held + held') (due @ dues') th'"
    using settles_trans [OF h(1)] rest by blast
  moreover have "mset (offered (x # xs)) = mset ws + (held + held')"
    using rest [OF P1] h(2) off xs(2) by (simp add: ac_simps)
  ultimately show ?case using xs(3) by blast
qed

lemma run_flush_all: "th_run (xs @ [FlushAll]) th = (ws, dues, th') \<Longrightarrow> th_keys th' = []"
  by (induction xs arbitrary: th ws dues) (auto simp: flush_all_def Let_def split: prod.splits)

text \<open>What the legacy mode drops: an event of the bucket of one that was written, with one of its keys.\<close>

definition legacy_bucket_of :: "throttle_config \<Rightarrow> event \<Rightarrow> nat" where
  "legacy_bucket_of cfg e = ev_sec e div max (tc_legacy_divisor cfg) 1"

definition repeats :: "u64 \<Rightarrow> throttle_config \<Rightarrow> event \<Rightarrow> event \<Rightarrow> bool" where
  "repeats seed cfg e w \<longleftrightarrow> legacy_bucket_of cfg e = legacy_bucket_of cfg w \<and>
     (fst (keys_for seed e) \<in> {fst (keys_for seed w), snd (keys_for seed w)} \<or>
      snd (keys_for seed e) \<in> {fst (keys_for seed w), snd (keys_for seed w)})"

definition legacy_ok :: "event set \<Rightarrow> throttle \<Rightarrow> bool" where
  "legacy_ok W th \<longleftrightarrow> tc_mode (th_cfg th) = Legacy \<and> th_keys th = [] \<and>
     (\<forall>k \<in> th_legacy_trails th. \<exists>w \<in> W. th_legacy_bucket th = Some (legacy_bucket_of (th_cfg th) w) \<and>
        k \<in> {fst (keys_for (th_seed th) w), snd (keys_for (th_seed th) w)})"

lemma legacy_step:
  assumes "legacy_ok W th" "th_step x th = (w, due, th')"
  shows "\<exists>lost. due = [] \<and> mset (offered [x]) = mset w + lost \<and> th_suppressed th' = th_suppressed th + size lost \<and>
    (\<forall>e \<in># lost. \<exists>v \<in> W. repeats (th_seed th) (th_cfg th) e v) \<and>
    legacy_ok (W \<union> set w) th' \<and> th_seed th' = th_seed th \<and> th_cfg th' = th_cfg th"
proof (cases x)
  case (Admit e)
  obtain k k' where k: "keys_for (th_seed th) e = (k, k')" by (cases "keys_for (th_seed th) e")
  let ?b = "legacy_bucket_of (th_cfg th) e"
  note step = assms(2) [unfolded Admit] and ok = assms(1) [unfolded legacy_ok_def]
  show ?thesis
  proof (cases "th_legacy_bucket th = Some ?b \<and> (k \<in> th_legacy_trails th \<or> k' \<in> th_legacy_trails th)")
    case True
    then have "w = []" "due = []" "th' = th\<lparr>th_suppressed := th_suppressed th + 1\<rparr>"
      using step ok k by (auto simp: th_admit_def admit_legacy_def legacy_bucket_of_def)
    moreover have "\<exists>v \<in> W. repeats (th_seed th) (th_cfg th) e v"
      using True ok k unfolding repeats_def by (metis fst_conv option.inject snd_conv)
    ultimately show ?thesis using Admit ok by (intro exI [of _ "{#e#}"]) (auto simp: legacy_ok_def)
  next
    case False
    let ?trails = "if th_legacy_bucket th = Some ?b then insert k' (insert k (th_legacy_trails th)) else {}"
    have w: "w = [e]" "due = []" "th' = th\<lparr>th_legacy_bucket := Some ?b, th_legacy_trails := ?trails\<rparr>"
      using False step ok k by (auto simp: th_admit_def admit_legacy_def legacy_bucket_of_def Let_def split: if_splits)
    have "\<exists>v \<in> W \<union> {e}. ?b = legacy_bucket_of (th_cfg th) v \<and> j \<in> {fst (keys_for (th_seed th) v), snd (keys_for (th_seed th) v)}"
      if "j \<in> ?trails" for j
    proof (cases "j \<in> {k, k'}")
      case True
      then show ?thesis using k by (intro bexI [of _ e]) auto
    next
      case False
      then have "j \<in> th_legacy_trails th" "th_legacy_bucket th = Some ?b" using that by (auto split: if_splits)
      then show ?thesis using ok by (metis UnI1 option.inject)
    qed
    then have "legacy_ok (W \<union> {e}) th'" using ok by (simp add: w(3) legacy_ok_def)
    then have "w = [e]" "due = []" "legacy_ok (W \<union> {e}) th'" "th_suppressed th' = th_suppressed th" "th_seed th' = th_seed th" "th_cfg th' = th_cfg th"
      using w by simp_all
    then show ?thesis using Admit by (intro exI [of _ "{#}"]) auto
  qed
qed (use assms in \<open>auto simp: legacy_ok_def flush_due_def flush_all_def due_of_def List.map_filter_def\<close>)

lemma legacy_run:
  assumes "legacy_ok W th" "th_run xs th = (ws, dues, th')"
  shows "\<exists>lost. dues = [] \<and> mset (offered xs) = mset ws + lost \<and> th_suppressed th' = th_suppressed th + size lost \<and>
    (\<forall>e \<in># lost. \<exists>v \<in> W \<union> set ws. repeats (th_seed th) (th_cfg th) e v)"
  using assms
proof (induction xs arbitrary: W th ws dues th')
  case (Cons x xs)
  obtain w due th1 where x: "th_step x th = (w, due, th1)" by (cases "th_step x th")
  obtain ws' dues' where xs: "th_run xs th1 = (ws', dues', th')" "ws = w @ ws'" "dues = due @ dues'"
    using Cons.prems(2) x by (auto split: prod.splits)
  obtain l1 where l1: "due = []" "mset (offered [x]) = mset w + l1" "th_suppressed th1 = th_suppressed th + size l1"
    "\<forall>e \<in># l1. \<exists>v \<in> W. repeats (th_seed th) (th_cfg th) e v" "legacy_ok (W \<union> set w) th1" "th_seed th1 = th_seed th" "th_cfg th1 = th_cfg th"
    using legacy_step [OF Cons.prems(1) x] by blast
  obtain l2 where l2: "dues' = []" "mset (offered xs) = mset ws' + l2" "th_suppressed th' = th_suppressed th1 + size l2"
    "\<forall>e \<in># l2. \<exists>v \<in> W \<union> set w \<union> set ws'. repeats (th_seed th) (th_cfg th) e v"
    using Cons.IH [OF l1(5) xs(1)] unfolding l1(6,7) by blast
  have off: "offered (x # xs) = offered [x] @ offered xs" using offered_append [of "[x]" xs] by simp
  show ?case
    using l1 l2 by (intro exI [of _ "l1 + l2"]) (auto simp: xs off ac_simps)
qed simp

text \<open>C4: what the throttle does with an event, in each of its modes, over any sequence of events and flushes that
  ends with the flush of a shutdown. Switched off or summarizing, nothing is lost: every event offered was written as
  it came or belongs to exactly one group, and every group came out as one summary line, which counts the events of
  the group it names no columns of - events held when their key was evicted from the table, when the clock stepped back
  and when the buffer of 1000 was full among them. The legacy mode discards by design: it writes no summaries, every
  event it drops is counted as suppressed, and falls into the time bucket of an event that was written with one of its keys.\<close>

theorem throttled_events_are_summarized:
  "case th_run (ops @ [FlushAll]) (throttle_new seed cfg) of (written, summaries, th) \<Rightarrow>
    \<exists>groups lost. map Some summaries = map summary_of groups \<and> list_all (\<lambda>es. es \<noteq> []) groups \<and>
      mset (offered ops) = mset written + mset (concat groups) + lost \<and>
      (if tc_mode cfg = Legacy
       then groups = [] \<and> th_suppressed th = size lost \<and> (\<forall>e \<in># lost. \<exists>w \<in> set written. repeats seed cfg e w)
       else lost = {#})"
proof -
  obtain written summaries th where run: "th_run (ops @ [FlushAll]) (throttle_new seed cfg) = (written, summaries, th)"
    by (cases "th_run (ops @ [FlushAll]) (throttle_new seed cfg)")
  show ?thesis
  proof (cases "tc_mode cfg = Legacy")
    case True
    then have "legacy_ok {} (throttle_new seed cfg)" by (simp add: legacy_ok_def throttle_new_def)
    from legacy_run [OF this run] obtain lost where "summaries = []" "mset (offered ops) = mset written + lost"
      "th_suppressed th = size lost" "\<forall>e \<in># lost. \<exists>w \<in> set written. repeats seed cfg e w"
      by (auto simp: throttle_new_def offered_append)
    then show ?thesis using run True by (auto intro!: exI [of _ "[]"] exI [of _ lost])
  next
    case False
    have "ledger (\<lambda>_. []) (throttle_new seed cfg)" by (simp add: ledger_def throttle_new_def)
    moreover have "tc_mode (th_cfg (throttle_new seed cfg)) \<noteq> Legacy" using False by (simp add: throttle_new_def)
    ultimately obtain held where h: "settles (\<lambda>_. []) (throttle_new seed cfg) held summaries th"
      "mset (offered (ops @ [FlushAll])) = mset written + held"
      using run_settles [OF _ _ run] by blast
    have "owed P' (th_keys th) = {#}" for P'
      using run_flush_all [OF run] by (simp add: owed_def)
    then obtain groups where "map Some summaries = map summary_of groups" "list_all (\<lambda>es. es \<noteq> []) groups"
      "mset (concat groups) = held"
      using h(1) by (auto simp: settles_def owed_def throttle_new_def)
    then show ?thesis using h(2) run False by (auto simp: offered_append intro!: exI [of _ groups])
  qed
qed

definition sample_event :: event where
  "sample_event = \<lparr>ev_sec = 100, ev_usec = 0, ev_src_ip = ''10.0.0.1'', ev_src_port = FInt 4000, ev_dst_ip = FText ''1.2.3.4'',
     ev_dst_port = FInt 80, ev_proto = FText ''TCP'', ev_trail_type = ''IP'', ev_trail = FText ''1.2.3.4'',
     ev_info = ''malware'', ev_reference = ''(static)''\<rparr>"

definition sample_throttle :: throttle_config where
  "sample_throttle = throttle_config_default\<lparr>tc_burst := 1\<rparr>"

lemma sample_run:
  "fst (th_run ([Admit sample_event, Admit sample_event] @ [FlushAll]) (throttle_new 7 sample_throttle)) = [sample_event] \<and>
   fst (snd (th_run ([Admit sample_event, Admit sample_event] @ [FlushAll]) (throttle_new 7 sample_throttle))) = [sample_event]"
proof -
  obtain k k' where "keys_for 7 sample_event = (k, k')" by (cases "keys_for 7 sample_event")
  then show ?thesis
    by (simp add: th_admit_def admit_summarizing_def tracking_key_def admit_known_def throttle_new_def sample_throttle_def
        throttle_config_default_def flush_all_def due_of_def List.map_filter_def summarize_def summary_def hold_def
        merge_events_def varying_def max_condensed_events_def Let_def sample_event_def)
qed

lemma sample_legacy_run:
  "\<exists>th. th_run ([Admit sample_event, Admit sample_event, Admit sample_event] @ [FlushAll]) (throttle_new 7 (sample_throttle\<lparr>tc_mode := Legacy\<rparr>)) =
    ([sample_event, sample_event], [], th) \<and> th_suppressed th = 1"
proof -
  obtain k k' where "keys_for 7 sample_event = (k, k')" by (cases "keys_for 7 sample_event")
  then show ?thesis
    by (simp add: th_admit_def admit_legacy_def throttle_new_def sample_throttle_def throttle_config_default_def flush_all_def
        due_of_def List.map_filter_def Let_def sample_event_def)
qed

theorem throttled_events_are_summarized_witness:
  "(\<exists>th groups. th_run ([Admit sample_event, Admit sample_event] @ [FlushAll]) (throttle_new 7 sample_throttle) = ([sample_event], [sample_event], th) \<and>
      map Some [sample_event] = map summary_of groups \<and> mset [sample_event, sample_event] = mset [sample_event] + mset (concat groups)) \<and>
   (\<exists>th lost. th_run ([Admit sample_event, Admit sample_event, Admit sample_event] @ [FlushAll]) (throttle_new 7 (sample_throttle\<lparr>tc_mode := Legacy\<rparr>)) =
      ([sample_event, sample_event], [], th) \<and> mset [sample_event, sample_event, sample_event] = mset [sample_event, sample_event] + lost \<and> th_suppressed th = size lost)"
proof
  obtain th where r: "th_run ([Admit sample_event, Admit sample_event] @ [FlushAll]) (throttle_new 7 sample_throttle) = ([sample_event], [sample_event], th)"
    using sample_run by (metis prod.collapse)
  have "tc_mode sample_throttle \<noteq> Legacy" by (simp add: sample_throttle_def throttle_config_default_def)
  then show "\<exists>th groups. th_run ([Admit sample_event, Admit sample_event] @ [FlushAll]) (throttle_new 7 sample_throttle) = ([sample_event], [sample_event], th) \<and>
      map Some [sample_event] = map summary_of groups \<and> mset [sample_event, sample_event] = mset [sample_event] + mset (concat groups)"
    using throttled_events_are_summarized [where ops = "[Admit sample_event, Admit sample_event]" and seed = 7 and cfg = sample_throttle] r
    unfolding r prod.case offered.simps by (metis add.right_neutral)
  obtain th where l: "th_run ([Admit sample_event, Admit sample_event, Admit sample_event] @ [FlushAll]) (throttle_new 7 (sample_throttle\<lparr>tc_mode := Legacy\<rparr>)) =
    ([sample_event, sample_event], [], th)" using sample_legacy_run by blast
  show "\<exists>th lost. th_run ([Admit sample_event, Admit sample_event, Admit sample_event] @ [FlushAll]) (throttle_new 7 (sample_throttle\<lparr>tc_mode := Legacy\<rparr>)) =
      ([sample_event, sample_event], [], th) \<and> mset [sample_event, sample_event, sample_event] = mset [sample_event, sample_event] + lost \<and> th_suppressed th = size lost"
    using throttled_events_are_summarized [where ops = "[Admit sample_event, Admit sample_event, Admit sample_event]" and seed = 7 and cfg = "sample_throttle\<lparr>tc_mode := Legacy\<rparr>"]
    unfolding l by auto
qed

section \<open>Bounds\<close>

definition bounded :: "throttle \<Rightarrow> bool" where
  "bounded th \<longleftrightarrow> length (th_keys th) \<le> max (tc_max_keys (th_cfg th)) 1 \<and>
     list_all (\<lambda>(k, st). length (ks_held st) \<le> max_condensed_events) (th_keys th)"

lemma list_all_update:
  "list_all Q m \<Longrightarrow> Q (k, v) \<Longrightarrow> list_all Q (AList.update k v m)"
  by (induction m) auto

lemma evict_shrinks:
  assumes "th_keys th \<noteq> []"
  shows "length (th_keys (snd (evict_batch th))) < length (th_keys th)"
proof -
  define stamps where "stamps = map (ks_last_seen \<circ> snd) (th_keys th)"
  define i where "i = min (max (tc_max_keys (th_cfg th) div 100) 1) (max (length (th_keys th) - 1) 1) - 1"
  have "i < length (sort stamps)" using assms by (cases "th_keys th") (auto simp: i_def stamps_def)
  then have "evict_cutoff th \<in> set stamps"
    using nth_mem [of i "sort stamps"] by (simp add: evict_cutoff_def i_def stamps_def)
  then obtain e where "e \<in> set (th_keys th)" "stale th e" by (auto simp: stamps_def stale_def)
  then have "length (filter (\<lambda>e. \<not> stale th e) (th_keys th)) < length (th_keys th)"
    by (intro length_filter_less) auto
  then show ?thesis by (simp add: evict_batch_eq [OF assms])
qed

lemma known_length: "map_of m k = Some v \<Longrightarrow> length (AList.update k w m) = length m"
  by (simp add: amap_len_update)

lemma admit_known_cfg: "th_cfg (snd (snd (admit_known e key st th))) = th_cfg th"
  by (simp add: admit_known_def Let_def split_beta)

lemma admit_known_shape:
  assumes "length (ks_held st) \<le> max_condensed_events"
  shows "\<exists>st'. th_keys (snd (snd (admit_known e key st th))) = AList.update key st' (th_keys th) \<and>
    th_cfg (snd (snd (admit_known e key st th))) = th_cfg th \<and> length (ks_held st') \<le> max_condensed_events"
proof (cases "ev_sec e - ks_window_start st \<ge> ks_span st \<or> ev_sec e < ks_window_start st")
  case True
  define s0 where "s0 = snd (summarize st)"
  obtain busy w where cw: "close_window s0 (ev_sec e) (tc_window (th_cfg th)) (tc_burst (th_cfg th)) = (busy, w)"
    by (cases "close_window s0 (ev_sec e) (tc_window (th_cfg th)) (tc_burst (th_cfg th))")
  have "ks_held w = []"
    using close_window_held(1) [of s0 "ev_sec e" "tc_window (th_cfg th)" "tc_burst (th_cfg th)"]
    unfolding cw by (simp add: s0_def summarize_def)
  moreover define st' where "st' = (let w' = w\<lparr>ks_last_seen := ev_sec e, ks_seen := 1\<rparr>
    in if \<not> busy then w'\<lparr>ks_written := 1\<rparr> else hold e w')"
  moreover have "th_keys (snd (snd (admit_known e key st th))) = AList.update key st' (th_keys th)"
    using True cw by (simp add: admit_known_def Let_def split_beta s0_def st'_def)
  ultimately show ?thesis
    using admit_known_cfg [of e key st th] by (intro exI [of _ st']) (simp add: Let_def hold_def max_condensed_events_def)
next
  case False
  define st1 where "st1 = st\<lparr>ks_last_seen := ev_sec e, ks_seen := min (ks_seen st + 1) u32_max\<rparr>"
  define st' where "st' = (if ks_written st1 < tc_burst (th_cfg th) then st1\<lparr>ks_written := ks_written st1 + 1\<rparr>
    else if length (ks_held st1) < max_condensed_events then hold e st1 else st1\<lparr>ks_held_total := ks_held_total st1 + 1\<rparr>)"
  have "th_keys (snd (snd (admit_known e key st th))) = AList.update key st' (th_keys th)"
    using False by (simp add: admit_known_def Let_def st'_def st1_def)
  then show ?thesis
    using assms admit_known_cfg [of e key st th] by (intro exI [of _ st']) (simp add: st'_def st1_def hold_def)
qed

lemma bounded_update:
  assumes "bounded th" and "th_keys th' = AList.update key st' (th_keys th)" and "th_cfg th' = th_cfg th"
    and "length (ks_held st') \<le> max_condensed_events"
    and "map_of (th_keys th) key = None \<Longrightarrow> length (th_keys th) < max (tc_max_keys (th_cfg th)) 1"
  shows "bounded th'"
  using assms by (auto simp: bounded_def amap_len_update intro: list_all_update)

lemma evict_cfg [simp]: "th_cfg (snd (evict_batch th)) = th_cfg th"
  by (cases "th_keys th = []") (simp_all add: evict_batch_eq, simp add: evict_batch_def)

lemma evict_bounded:
  assumes "bounded th"
  shows "bounded (snd (evict_batch th)) \<and> length (th_keys (snd (evict_batch th))) < max (tc_max_keys (th_cfg th)) 1"
proof (cases "th_keys th = []")
  case True
  then show ?thesis using assms by (simp add: evict_batch_def)
next
  case False
  have "list_all (\<lambda>(k, st). length (ks_held st) \<le> max_condensed_events) (th_keys (snd (evict_batch th)))"
    using assms evict_keys [of th] by (auto simp: bounded_def list_all_iff)
  then show ?thesis using evict_shrinks [OF False] assms by (auto simp: bounded_def)
qed

lemma admit_bounded:
  assumes "bounded th"
  shows "bounded (snd (snd (admit_summarizing e th)))"
proof (cases "map_of (th_keys th) (tracking_key e th)")
  case (Some st)
  have "length (ks_held st) \<le> max_condensed_events"
    using assms map_of_SomeD [OF Some] by (auto simp: bounded_def list_all_iff)
  from admit_known_shape [OF this, of e "tracking_key e th" th]
  obtain st' where "th_keys (snd (snd (admit_summarizing e th))) = AList.update (tracking_key e th) st' (th_keys th)"
    "th_cfg (snd (snd (admit_summarizing e th))) = th_cfg th" "length (ks_held st') \<le> max_condensed_events"
    using Some by (auto simp: admit_summarizing_def Let_def)
  then show ?thesis using Some by (intro bounded_update [OF assms]) auto
next
  case None
  define th1 where "th1 = (if length (th_keys th) \<ge> tc_max_keys (th_cfg th) then snd (evict_batch th) else th)"
  have "bounded th1 \<and> length (th_keys th1) < max (tc_max_keys (th_cfg th)) 1 \<and> th_cfg th1 = th_cfg th"
    using assms evict_bounded [OF assms] by (simp add: th1_def)
  moreover define st where "st = \<lparr>ks_window_start = ev_sec e, ks_written = 1, ks_held = [], ks_held_total = 0,
    ks_last_seen = ev_sec e, ks_seen = 1, ks_span = tc_window (th_cfg th1)\<rparr>"
  moreover have "snd (snd (admit_summarizing e th)) = th1\<lparr>th_keys := AList.update (tracking_key e th) st (th_keys th1)\<rparr>"
    using None by (simp add: admit_summarizing_def Let_def th1_def st_def split_beta)
  ultimately show ?thesis
    using bounded_update [of th1 "snd (snd (admit_summarizing e th))" "tracking_key e th" st] by simp
qed

lemma flush_bounded: "bounded th \<Longrightarrow> bounded (snd (flush_due now th))"
proof -
  assume b: "bounded th"
  have len: "length (List.map_filter f xs) \<le> length xs" for f :: "u64 \<times> key_state \<Rightarrow> (u64 \<times> key_state) option" and xs
    by (simp add: List.map_filter_def)
  have "length (ks_held (snd e')) \<le> max_condensed_events"
    if "e \<in> set (th_keys th)" "flush_key (th_cfg th) now e = Some e'" for e e'
    using flush_key_Some [OF that(2)] that(1) b by (cases "closed now e") (auto simp: bounded_def list_all_iff)
  then show ?thesis
    using b len [of "flush_key (th_cfg th) now" "th_keys th"]
    by (auto simp: flush_due_def Let_def bounded_def list_all_iff map_filter_flush intro: order_trans)
qed

lemma th_step_bounded:
  assumes "bounded th"
  shows "bounded (snd (snd (th_step x th))) \<and> th_cfg (snd (snd (th_step x th))) = th_cfg th"
proof (cases x)
  case (Admit e)
  have legacy: "th_keys (snd (admit_legacy e th)) = th_keys th" "th_cfg (snd (admit_legacy e th)) = th_cfg th"
    by (simp_all add: admit_legacy_def Let_def split_beta)
  have cfg: "th_cfg (snd (snd (admit_summarizing e th))) = th_cfg th"
    by (simp add: admit_summarizing_def Let_def split_beta admit_known_cfg split: option.splits)
  show ?thesis
    using Admit assms legacy cfg admit_bounded [OF assms, of e]
    by (cases "tc_mode (th_cfg th)") (auto simp: th_admit_def split_beta Let_def bounded_def)
next
  case (Flush now)
  then show ?thesis using flush_bounded [OF assms, of now] by (simp add: split_beta Let_def) (simp add: flush_due_def Let_def)
next
  case FlushAll
  then show ?thesis using assms by (simp add: flush_all_def Let_def bounded_def)
qed

text \<open>The throttle's memory is bounded: however many events with however many distinct
  addresses and names arrive, the key table stays within \<open>max_keys\<close> and no key holds more than the
  1000 events of \<open>MAX_CONDENSED_EVENTS\<close>.\<close>

theorem throttle_is_bounded:
  "length (th_keys (snd (snd (th_run ops (throttle_new seed cfg))))) \<le> max (tc_max_keys cfg) 1 \<and>
   list_all (\<lambda>(k, st). length (ks_held st) \<le> max_condensed_events) (th_keys (snd (snd (th_run ops (throttle_new seed cfg)))))"
proof -
  have step: "bounded (snd (snd (th_step x th))) \<and> th_cfg (snd (snd (th_step x th))) = th_cfg th" if "bounded th" for x th
    using th_step_bounded [OF that] .
  have "bounded (snd (snd (th_run ops th))) \<and> th_cfg (snd (snd (th_run ops th))) = th_cfg th" if "bounded th" for th
    using that
  proof (induction ops arbitrary: th)
    case (Cons x xs)
    then show ?case using step [of th x] by (simp add: split_beta Let_def)
  qed simp
  moreover have "bounded (throttle_new seed cfg)" "th_cfg (throttle_new seed cfg) = cfg" by (simp_all add: bounded_def throttle_new_def)
  ultimately show ?thesis by (metis bounded_def)
qed

end
