(* ===== verification/Cache.thy ===== *)
theory Cache
  imports Prelude
begin

text \<open>
  The contract of a result cache, as \<open>state.rs\<close> and \<open>process.rs\<close> use one: a lookup returns what
  is stored and leaves it alone, a store may forget any entry but invents none. A caller that asks
  the cache first and computes on a miss then gets the computed answer, always.
\<close>

text \<open>The caller's pattern: look up, and on a miss compute and store.\<close>

definition through_cache :: "('k \<Rightarrow> 'c \<Rightarrow> ('v option \<times> 'c) option) \<Rightarrow> ('k \<Rightarrow> 'v \<Rightarrow> 'c \<Rightarrow> 'c option) \<Rightarrow>
    ('k \<Rightarrow> 'v) \<Rightarrow> 'k \<Rightarrow> 'c \<Rightarrow> ('v \<times> 'c) option" where
  "through_cache look store f k c = do {
     (r, c') \<leftarrow> look k c;
     (case r of
        Some v \<Rightarrow> Some (v, c')
      | None \<Rightarrow> do { c'' \<leftarrow> store k (f k) c'; Some (f k, c'') })
   }"

fun through_all :: "('k \<Rightarrow> 'c \<Rightarrow> ('v option \<times> 'c) option) \<Rightarrow> ('k \<Rightarrow> 'v \<Rightarrow> 'c \<Rightarrow> 'c option) \<Rightarrow>
    ('k \<Rightarrow> 'v) \<Rightarrow> 'k list \<Rightarrow> 'c \<Rightarrow> ('v list \<times> 'c) option" where
  "through_all look store f [] c = Some ([], c)"
| "through_all look store f (k # ks) c = do {
     (v, c') \<leftarrow> through_cache look store f k c;
     (vs, c'') \<leftarrow> through_all look store f ks c';
     Some (v # vs, c'')
   }"

locale result_cache =
  fixes look :: "'k \<Rightarrow> 'c \<Rightarrow> ('v option \<times> 'c) option"
    and store :: "'k \<Rightarrow> 'v \<Rightarrow> 'c \<Rightarrow> 'c option"
    and ok :: "'c \<Rightarrow> bool"
    and contents :: "'c \<Rightarrow> 'k \<Rightarrow> 'v option"
  assumes look_spec: "ok c \<Longrightarrow> \<exists>c'. look k c = Some (contents c k, c') \<and> ok c' \<and> contents c' = contents c"
    and store_spec: "ok c \<Longrightarrow> \<exists>c'. store k v c = Some c' \<and> ok c' \<and>
      (\<forall>k' x. contents c' k' = Some x \<longrightarrow> (k' = k \<and> x = v) \<or> contents c k' = Some x)"
begin

text \<open>Everything stored is the answer of \<open>f\<close>.\<close>

definition answers :: "('k \<Rightarrow> 'v) \<Rightarrow> 'c \<Rightarrow> bool" where
  "answers f c \<longleftrightarrow> ok c \<and> (\<forall>k v. contents c k = Some v \<longrightarrow> v = f k)"

lemma one_answer:
  assumes "answers f c"
  shows "\<exists>c'. through_cache look store f k c = Some (f k, c') \<and> answers f c'"
proof -
  have c: "ok c" "\<And>k v. contents c k = Some v \<Longrightarrow> v = f k" using assms by (simp_all add: answers_def)
  obtain c' where c': "look k c = Some (contents c k, c')" "ok c'" "contents c' = contents c"
    using look_spec [OF c(1)] by blast
  show ?thesis
  proof (cases "contents c k")
    case (Some v)
    then have "v = f k" using c(2) by blast
    then show ?thesis using c' c(2) Some by (simp add: through_cache_def answers_def)
  next
    case None
    obtain c'' where "store k (f k) c' = Some c''" "ok c''"
      "\<And>k' x. contents c'' k' = Some x \<Longrightarrow> (k' = k \<and> x = f k) \<or> contents c' k' = Some x"
      using store_spec [OF c'(2)] by blast
    then show ?thesis using c' c(2) None by (auto simp: through_cache_def answers_def)
  qed
qed

lemma all_answers:
  "answers f c \<Longrightarrow> \<exists>c'. through_all look store f ks c = Some (map f ks, c') \<and> answers f c'"
proof (induction ks arbitrary: c)
  case (Cons k ks)
  obtain c' where "through_cache look store f k c = Some (f k, c')" "answers f c'"
    using one_answer [OF Cons.prems] by blast
  then show ?case using Cons.IH [of c'] by auto
qed simp

lemma answers_ok: "answers f c \<Longrightarrow> ok c"
  by (simp add: answers_def)

end

locale remembering_cache = result_cache +
  assumes remembers: "ok c \<Longrightarrow> store k v c = Some c' \<Longrightarrow> contents c' k = Some v"
begin

lemma hit_after_store:
  assumes "ok c"
  shows "\<exists>c' c''. store k v c = Some c' \<and> look k c' = Some (Some v, c'') \<and> ok c''"
proof -
  obtain c' where "store k v c = Some c'" "ok c'" using store_spec [OF assms] by blast
  moreover from this have "contents c' k = Some v" using remembers [OF assms] by blast
  ultimately show ?thesis using look_spec [of c' k] by auto
qed

end

end
