(* ===== verification/Lru.thy ===== *)
theory Lru
  imports Fasthash Capped Cache
begin

text \<open>
  \<open>lru.rs\<close>: the bounded cache with SIEVE eviction. The slab is a list of nodes, an index into
  it a \<open>nat\<close> with \<open>NIL = u32::MAX\<close>; the hash of a key is an argument (\<open>hash_of\<close>, the seeded
  hash of \<open>fasthash.rs\<close>). \<open>None\<close> is a panic (an index outside the slab).
\<close>

definition nil :: nat where "nil = 4294967295"

record ('k, 'v) node =
  nd_key :: 'k
  nd_hash :: u64
  nd_value :: 'v
  nd_prev :: nat
  nd_next :: nat
  nd_visited :: bool

record ('k, 'v) lru =
  lru_index :: "(u64, nat) amap"
  lru_nodes :: "('k, 'v) node list"
  lru_free :: "nat list"
  lru_head :: nat
  lru_tail :: nat
  lru_hand :: nat
  lru_capacity :: nat
  lru_door :: "u64 list"

definition lru_new :: "nat \<Rightarrow> ('k, 'v) lru" where
  "lru_new capacity = \<lparr>lru_index = [], lru_nodes = [], lru_free = [], lru_head = nil, lru_tail = nil,
     lru_hand = nil, lru_capacity = max capacity 1, lru_door = []\<rparr>"

text \<open>\<open>usize::next_power_of_two\<close>\<close>

function pow2_from :: "nat \<Rightarrow> nat \<Rightarrow> nat" where
  "pow2_from p n = (if p = 0 \<or> n \<le> p then p else pow2_from (2 * p) n)"
  by pat_completeness auto
termination by (relation "measure (\<lambda>(p, n). n - p)") auto

declare pow2_from.simps [simp del]

definition next_power_of_two :: "nat \<Rightarrow> nat" where
  "next_power_of_two n = pow2_from 1 n"

definition with_admission_filter :: "nat \<Rightarrow> ('k, 'v) lru \<Rightarrow> ('k, 'v) lru" where
  "with_admission_filter slots l = l\<lparr>lru_door := replicate (next_power_of_two (max slots 64)) 0\<rparr>"

definition lru_len :: "('k, 'v) lru \<Rightarrow> nat" where
  "lru_len l = length (lru_index l)"

definition lru_clear :: "('k, 'v) lru \<Rightarrow> ('k, 'v) lru" where
  "lru_clear l = l\<lparr>lru_index := [], lru_nodes := [], lru_free := [], lru_head := nil, lru_tail := nil, lru_hand := nil\<rparr>"

text \<open>\<open>self.nodes[i].field = x\<close>\<close>

definition put_node :: "nat \<Rightarrow> (('k, 'v) node \<Rightarrow> ('k, 'v) node) \<Rightarrow> ('k, 'v) lru \<Rightarrow> ('k, 'v) lru option" where
  "put_node i f l =
     (if i < length (lru_nodes l) then Some (l\<lparr>lru_nodes := (lru_nodes l)[i := f (lru_nodes l ! i)]\<rparr>) else None)"

definition lru_slot :: "u64 \<Rightarrow> 'k \<Rightarrow> ('k, 'v) lru \<Rightarrow> nat option option" where
  "lru_slot h key l =
     (case map_of (lru_index l) h of
        None \<Rightarrow> Some None
      | Some i \<Rightarrow> do { n \<leftarrow> b_at (lru_nodes l) i; Some (if nd_key n = key then Some i else None) })"

definition lru_get_hashed :: "u64 \<Rightarrow> 'k \<Rightarrow> ('k, 'v) lru \<Rightarrow> ('v option \<times> ('k, 'v) lru) option" where
  "lru_get_hashed h key l = do {
     slot \<leftarrow> lru_slot h key l;
     (case slot of
        None \<Rightarrow> Some (None, l)
      | Some i \<Rightarrow> do {
          n \<leftarrow> b_at (lru_nodes l) i;
          l' \<leftarrow> put_node i (nd_visited_update (\<lambda>_. True)) l;
          Some (Some (nd_value n), l')
        })
   }"

definition lru_contains :: "u64 \<Rightarrow> 'k \<Rightarrow> ('k, 'v) lru \<Rightarrow> bool option" where
  "lru_contains h key l = map_option (\<lambda>s. s \<noteq> None) (lru_slot h key l)"

text \<open>The doorkeeper: whether the key is admitted, and the updated table.\<close>

definition lru_admit :: "u64 \<Rightarrow> ('k, 'v) lru \<Rightarrow> bool \<times> ('k, 'v) lru" where
  "lru_admit h l =
     (if lru_door l = [] then (True, l)
      else (let slot = unat h AND (length (lru_door l) - 1); fingerprint = drop_bit 16 h OR 1
            in if lru_door l ! slot = fingerprint then (True, l)
               else (False, l\<lparr>lru_door := (lru_door l)[slot := fingerprint]\<rparr>)))"

definition lru_detach :: "nat \<Rightarrow> ('k, 'v) lru \<Rightarrow> ('k, 'v) lru option" where
  "lru_detach i l = do {
     n \<leftarrow> b_at (lru_nodes l) i;
     (let prev = nd_prev n; next = nd_next n
      in do {
        l1 \<leftarrow> (if prev \<noteq> nil then put_node prev (nd_next_update (\<lambda>_. next)) l
               else Some (if lru_head l = i then l\<lparr>lru_head := next\<rparr> else l));
        l2 \<leftarrow> (if next \<noteq> nil then put_node next (nd_prev_update (\<lambda>_. prev)) l1
               else Some (if lru_tail l1 = i then l1\<lparr>lru_tail := prev\<rparr> else l1));
        put_node i (\<lambda>m. m\<lparr>nd_prev := nil, nd_next := nil\<rparr>) l2
      })
   }"

definition lru_push_front :: "nat \<Rightarrow> ('k, 'v) lru \<Rightarrow> ('k, 'v) lru option" where
  "lru_push_front i l =
     (let old = lru_head l
      in do {
        l1 \<leftarrow> put_node i (\<lambda>m. m\<lparr>nd_next := old, nd_prev := nil\<rparr>) l;
        l2 \<leftarrow> (if old \<noteq> nil then put_node old (nd_prev_update (\<lambda>_. i)) l1 else Some l1);
        (let l3 = l2\<lparr>lru_head := i\<rparr>
         in Some (if lru_tail l3 = nil then l3\<lparr>lru_tail := i\<rparr> else l3))
      })"

text \<open>The walk of the hand: clear visited bits until an entry without one. Every step clears a
  bit, so it ends.\<close>

function sieve_walk :: "('k, 'v) node list \<Rightarrow> nat \<Rightarrow> nat \<Rightarrow> (('k, 'v) node list \<times> nat) option" where
  "sieve_walk nodes tail i =
     (if i < length nodes
      then (if nd_visited (nodes ! i)
            then sieve_walk (nodes[i := (nodes ! i)\<lparr>nd_visited := False\<rparr>]) tail
                   (if nd_prev (nodes ! i) = nil then tail else nd_prev (nodes ! i))
            else Some (nodes, i))
      else None)"
  by pat_completeness auto
termination
proof (relation "measure (\<lambda>(nodes, tail, i). length (filter nd_visited nodes))")
  fix nodes :: "('k, 'v) node list" and tail i :: nat
  assume *: "i < length nodes" "nd_visited (nodes ! i)"
  have "length (filter nd_visited (nodes[i := (nodes ! i)\<lparr>nd_visited := False\<rparr>])) < length (filter nd_visited nodes)"
    using * by (subst (2) id_take_nth_drop [OF *(1)]) (simp add: upd_conv_take_nth_drop)
  then show "((nodes[i := (nodes ! i)\<lparr>nd_visited := False\<rparr>], tail,
      if nd_prev (nodes ! i) = nil then tail else nd_prev (nodes ! i)), nodes, tail, i)
    \<in> measure (\<lambda>(nodes, tail, i). length (filter nd_visited nodes))" by simp
qed simp

declare sieve_walk.simps [simp del]

definition lru_evict :: "('k, 'v) lru \<Rightarrow> ('k, 'v) lru option" where
  "lru_evict l =
     (let start = (if lru_hand l = nil then lru_tail l else lru_hand l)
      in if start = nil then Some l
         else do {
           (nodes, i) \<leftarrow> sieve_walk (lru_nodes l) (lru_tail l) start;
           n \<leftarrow> b_at nodes i;
           l1 \<leftarrow> lru_detach i (l\<lparr>lru_nodes := nodes, lru_hand := nd_prev n\<rparr>);
           m \<leftarrow> b_at (lru_nodes l1) i;
           Some (l1\<lparr>lru_index := AList.delete (nd_hash m) (lru_index l1), lru_free := lru_free l1 @ [i]\<rparr>)
         })"

definition lru_insert_hashed :: "u64 \<Rightarrow> 'k \<Rightarrow> 'v \<Rightarrow> ('k, 'v) lru \<Rightarrow> ('k, 'v) lru option" where
  "lru_insert_hashed h key v l =
     (case map_of (lru_index l) h of
        Some i \<Rightarrow> put_node i (\<lambda>n. n\<lparr>nd_visited := (nd_key n = key), nd_key := key, nd_value := v\<rparr>) l
      | None \<Rightarrow> do {
          l1 \<leftarrow> (if length (lru_index l) \<ge> lru_capacity l then lru_evict l else Some l);
          (let node = \<lparr>nd_key = key, nd_hash = h, nd_value = v, nd_prev = nil, nd_next = nil, nd_visited = False\<rparr>
           in do {
             (i, l2) \<leftarrow>
               (if lru_free l1 \<noteq> []
                then (let i = last (lru_free l1); l' = l1\<lparr>lru_free := butlast (lru_free l1)\<rparr>
                      in do { l'' \<leftarrow> put_node i (\<lambda>_. node) l'; Some (i, l'') })
                else Some ((length (lru_nodes l1)) mod 2 ^ 32, l1\<lparr>lru_nodes := lru_nodes l1 @ [node]\<rparr>));
             lru_push_front i (l2\<lparr>lru_index := AList.update h i (lru_index l2)\<rparr>)
           })
        })"

definition lru_insert_if_seen_before_hashed :: "u64 \<Rightarrow> 'k \<Rightarrow> 'v \<Rightarrow> ('k, 'v) lru \<Rightarrow> ('k, 'v) lru option" where
  "lru_insert_if_seen_before_hashed h key v l =
     (let (ok, l') = lru_admit h l in if ok then lru_insert_hashed h key v l' else Some l')"

definition lru_get :: "('k \<Rightarrow> u64) \<Rightarrow> 'k \<Rightarrow> ('k, 'v) lru \<Rightarrow> ('v option \<times> ('k, 'v) lru) option" where
  "lru_get hash_of key l = lru_get_hashed (hash_of key) key l"

definition lru_insert :: "('k \<Rightarrow> u64) \<Rightarrow> 'k \<Rightarrow> 'v \<Rightarrow> ('k, 'v) lru \<Rightarrow> ('k, 'v) lru option" where
  "lru_insert hash_of key v l = lru_insert_hashed (hash_of key) key v l"

definition lru_insert_if_seen_before :: "('k \<Rightarrow> u64) \<Rightarrow> 'k \<Rightarrow> 'v \<Rightarrow> ('k, 'v) lru \<Rightarrow> ('k, 'v) lru option" where
  "lru_insert_if_seen_before hash_of key v l = lru_insert_if_seen_before_hashed (hash_of key) key v l"

section \<open>The invariant\<close>

text \<open>The doubly-linked list between two ends, over the functions that read the links: \<open>p\<close>
  precedes the segment and \<open>q\<close> follows it.\<close>

fun seg :: "(nat \<Rightarrow> nat) \<Rightarrow> (nat \<Rightarrow> nat) \<Rightarrow> nat \<Rightarrow> nat list \<Rightarrow> nat \<Rightarrow> bool" where
  "seg P N p [] q \<longleftrightarrow> True"
| "seg P N p (i # is) q \<longleftrightarrow> P i = p \<and> N i = (case is of [] \<Rightarrow> q | j # _ \<Rightarrow> j) \<and> seg P N i is q"

definition prevs :: "('k, 'v) node list \<Rightarrow> nat \<Rightarrow> nat" where "prevs ns i = nd_prev (ns ! i)"
definition nexts :: "('k, 'v) node list \<Rightarrow> nat \<Rightarrow> nat" where "nexts ns i = nd_next (ns ! i)"

definition first :: "nat list \<Rightarrow> nat" where "first is = (case is of [] \<Rightarrow> nil | i # _ \<Rightarrow> i)"
definition final :: "nat list \<Rightarrow> nat" where "final is = (if is = [] then nil else last is)"

definition lru_ok :: "('k \<Rightarrow> u64) \<Rightarrow> nat list \<Rightarrow> ('k, 'v) lru \<Rightarrow> bool" where
  "lru_ok hash_of order l \<longleftrightarrow>
     distinct order \<and> seg (prevs (lru_nodes l)) (nexts (lru_nodes l)) nil order nil \<and>
     lru_head l = first order \<and> lru_tail l = final order \<and>
     (lru_hand l = nil \<or> lru_hand l \<in> set order) \<and>
     distinct (lru_free l) \<and> set (lru_free l) \<inter> set order = {} \<and>
     set (lru_free l) \<union> set order = {..<length (lru_nodes l)} \<and>
     length (lru_nodes l) \<le> lru_capacity l \<and> 0 < lru_capacity l \<and> lru_capacity l < nil \<and>
     distinct (map fst (lru_index l)) \<and>
     (\<forall>h i. map_of (lru_index l) h = Some i \<longleftrightarrow> i \<in> set order \<and> nd_hash (lru_nodes l ! i) = h) \<and>
     (\<forall>i \<in> set order. nd_hash (lru_nodes l ! i) = hash_of (nd_key (lru_nodes l ! i)))"

definition lru_inv :: "('k \<Rightarrow> u64) \<Rightarrow> ('k, 'v) lru \<Rightarrow> bool" where
  "lru_inv hash_of l \<longleftrightarrow> (\<exists>order. lru_ok hash_of order l)"

text \<open>What is cached, the way a lookup sees it.\<close>

definition cached :: "('k \<Rightarrow> u64) \<Rightarrow> ('k, 'v) lru \<Rightarrow> 'k \<Rightarrow> 'v option" where
  "cached hash_of l key =
     (case map_of (lru_index l) (hash_of key) of
        None \<Rightarrow> None
      | Some i \<Rightarrow> if nd_key (lru_nodes l ! i) = key then Some (nd_value (lru_nodes l ! i)) else None)"

section \<open>Segments\<close>

lemma seg_cong:
  "(\<And>i. i \<in> set is \<Longrightarrow> P i = P' i \<and> N i = N' i) \<Longrightarrow> seg P N p is q = seg P' N' p is q"
  by (induction "is" arbitrary: p) auto

lemma seg_append:
  "seg P N p (xs @ ys) q \<longleftrightarrow>
     seg P N p xs (case ys of [] \<Rightarrow> q | j # _ \<Rightarrow> j) \<and> seg P N (if xs = [] then p else last xs) ys q"
  by (induction xs arbitrary: p) (auto split: list.splits)

lemma seg_detach:
  assumes "seg P N nil (xs @ i # ys) nil" and "distinct (xs @ i # ys)" and "nil \<notin> set (xs @ i # ys)"
    and "N' = (if xs = [] then N else N(last xs := first ys))"
    and "P' = (if ys = [] then P else P(hd ys := final xs))"
  shows "seg P' N' nil (xs @ ys) nil"
proof -
  have xs: "seg P N nil xs i" and ys: "seg P N i ys nil"
    using assms(1) by (auto simp: seg_append)
  have hd: "ys \<noteq> [] \<Longrightarrow> hd ys \<notin> set xs" and last: "xs \<noteq> [] \<Longrightarrow> last xs \<notin> set ys"
    using assms(2) by (auto dest: hd_in_set last_in_set)
  have "seg P' N' nil xs (first ys)"
  proof (cases xs rule: rev_cases)
    case (snoc xs' p)
    then have "seg P N nil xs' p" "P p = (if xs' = [] then nil else last xs')"
      using xs by (auto simp: seg_append)
    moreover have "p \<notin> set xs'" using assms(2) snoc by simp
    moreover have "P j = P' j \<and> N j = N' j" if "j \<in> set xs'" for j
      using that hd snoc assms(4,5) \<open>p \<notin> set xs'\<close> by auto
    ultimately have "seg P' N' nil xs' p"
      using seg_cong [of xs' P P' N N' nil p] by blast
    moreover have "N' p = first ys" "P' p = P p"
      using snoc assms(4,5) hd by auto
    ultimately show ?thesis
      using snoc \<open>P p = _\<close> by (simp add: seg_append)
  qed simp
  moreover have "seg P' N' (final xs) ys nil"
  proof (cases ys)
    case (Cons y ys')
    then have "seg P N y ys' nil" "N y = first ys'"
      using ys by (auto simp: first_def)
    moreover have "y \<notin> set ys'" using assms(2) Cons by simp
    moreover have "P j = P' j \<and> N j = N' j" if "j \<in> set ys'" for j
      using that last Cons assms(4,5) \<open>y \<notin> set ys'\<close> by auto
    ultimately have "seg P' N' y ys' nil"
      using seg_cong [of ys' P P' N N' y nil] by blast
    moreover have "P' y = final xs" "N' y = N y"
      using Cons assms(4,5) last by auto
    ultimately show ?thesis using Cons \<open>N y = first ys'\<close> by (simp add: first_def)
  qed simp
  ultimately show ?thesis
    by (auto simp: seg_append first_def final_def split: list.splits if_splits)
qed

lemma seg_push:
  assumes "seg P N nil order nil" and "distinct order" and "i \<notin> set order"
    and "N' = N(i := first order)"
    and "P' = (if order = [] then P(i := nil) else (P(i := nil))(hd order := i))"
  shows "seg P' N' nil (i # order) nil"
proof (cases order)
  case Nil
  then show ?thesis using assms by (simp add: first_def)
next
  case (Cons y ys)
  then have "seg P N y ys nil" using assms(1) by simp
  moreover have "y \<notin> set ys" "i \<noteq> y" "i \<notin> set ys" using assms(2,3) Cons by auto
  moreover have "P j = P' j \<and> N j = N' j" if "j \<in> set ys" for j
    using that Cons assms(4,5) \<open>y \<notin> set ys\<close> \<open>i \<notin> set ys\<close> by auto
  ultimately have "seg P' N' y ys nil"
    using seg_cong [of ys P P' N N' y nil] by blast
  then show ?thesis
    using assms Cons \<open>i \<noteq> y\<close> by (auto simp: first_def)
qed

lemma seg_prev:
  "seg P N p (xs @ i # ys) q \<Longrightarrow> P i = (if xs = [] then p else last xs)"
  by (simp add: seg_append)

lemma seg_next:
  "seg P N p (xs @ i # ys) q \<Longrightarrow> N i = (case ys of [] \<Rightarrow> q | j # _ \<Rightarrow> j)"
  by (simp add: seg_append)

section \<open>Nodes under updates\<close>

lemma prevs_upd: "i < length ns \<Longrightarrow> prevs (ns[i := n]) = (prevs ns)(i := nd_prev n)"
  by (auto simp: prevs_def fun_eq_iff nth_list_update)

lemma nexts_upd: "i < length ns \<Longrightarrow> nexts (ns[i := n]) = (nexts ns)(i := nd_next n)"
  by (auto simp: nexts_def fun_eq_iff nth_list_update)

lemma map_upd_same: "i < length ns \<Longrightarrow> f n = f (ns ! i) \<Longrightarrow> map f (ns[i := n]) = map f ns"
  by (metis length_map list_update_id map_update nth_map)

lemma nth_upd_same: "(\<And>n. f (g n) = f n) \<Longrightarrow> f (ns[i := g (ns ! i)] ! j) = f (ns ! j)"
  by (cases "i < length ns") (auto simp: nth_list_update list_update_beyond not_less)

text \<open>What a node stores besides its links.\<close>

definition data :: "('k, 'v) node \<Rightarrow> 'k \<times> u64 \<times> 'v" where
  "data n = (nd_key n, nd_hash n, nd_value n)"

definition same_data :: "('k, 'v) node list \<Rightarrow> ('k, 'v) node list \<Rightarrow> bool" where
  "same_data ns ns' \<longleftrightarrow> map data ns = map data ns'"

lemma same_data_upd:
  "same_data ns ns' \<Longrightarrow> i < length ns' \<Longrightarrow> data n = data (ns' ! i) \<Longrightarrow> same_data ns (ns'[i := n])"
  unfolding same_data_def map_update by (metis length_map list_update_id nth_map)

lemma same_data_length: "same_data ns ns' \<Longrightarrow> length ns' = length ns"
  by (metis length_map same_data_def)

lemma same_data_nth:
  assumes "same_data ns ns'" and "i < length ns"
  shows "nd_key (ns' ! i) = nd_key (ns ! i) \<and> nd_hash (ns' ! i) = nd_hash (ns ! i) \<and> nd_value (ns' ! i) = nd_value (ns ! i)"
proof -
  have "data (ns' ! i) = data (ns ! i)"
  proof -
    have "map data ns' ! i = map data ns ! i" using assms(1) by (simp add: same_data_def)
    then show ?thesis using assms(2) same_data_length [OF assms(1)] by simp
  qed
  then show ?thesis by (simp add: data_def)
qed

lemma same_data_refl [simp]: "same_data ns ns"
  by (simp add: same_data_def)

section \<open>Detaching\<close>

lemma detach_spec:
  assumes "seg (prevs (lru_nodes l)) (nexts (lru_nodes l)) nil (xs @ i # ys) nil" and "distinct (xs @ i # ys)"
    and "\<forall>j \<in> set (xs @ i # ys). j < length (lru_nodes l) \<and> j < nil"
    and "lru_head l = first (xs @ i # ys)" and "lru_tail l = final (xs @ i # ys)"
  shows "\<exists>l'. lru_detach i l = Some l' \<and> same_data (lru_nodes l) (lru_nodes l') \<and>
    map nd_visited (lru_nodes l') = map nd_visited (lru_nodes l) \<and>
    seg (prevs (lru_nodes l')) (nexts (lru_nodes l')) nil (xs @ ys) nil \<and>
    lru_head l' = first (xs @ ys) \<and> lru_tail l' = final (xs @ ys) \<and>
    lru_index l' = lru_index l \<and> lru_free l' = lru_free l \<and> lru_hand l' = lru_hand l \<and>
    lru_capacity l' = lru_capacity l \<and> lru_door l' = lru_door l"
proof -
  define ns where "ns = lru_nodes l"
  have P: "nd_prev (ns ! i) = final xs" and N: "nd_next (ns ! i) = first ys"
    using seg_prev [OF assms(1)] seg_next [OF assms(1)]
    by (auto simp: prevs_def nexts_def final_def first_def ns_def split: list.splits)
  have i: "i < length ns" "i \<noteq> nil" using assms(3) by (auto simp: ns_def)
  have fx: "xs \<noteq> [] \<Longrightarrow> final xs \<noteq> nil \<and> final xs < length ns \<and> final xs \<noteq> i \<and> final xs = last xs"
  proof -
    assume ne: "xs \<noteq> []"
    then have "last xs \<in> set (xs @ i # ys)" by simp
    then have "last xs < length ns \<and> last xs < nil" using assms(3) unfolding ns_def by blast
    moreover have "last xs \<noteq> i" using ne assms(2) by (auto dest: last_in_set)
    ultimately show ?thesis using ne by (simp add: final_def)
  qed
  have fy: "ys \<noteq> [] \<Longrightarrow> first ys \<noteq> nil \<and> first ys < length ns \<and> first ys \<noteq> i \<and> first ys = hd ys"
    using assms(2,3) by (cases ys) (auto simp: first_def ns_def)
  have xy: "xs \<noteq> [] \<Longrightarrow> ys \<noteq> [] \<Longrightarrow> final xs \<noteq> first ys"
  proof -
    assume ne: "xs \<noteq> []" "ys \<noteq> []"
    then have "last xs \<in> set xs" "hd ys \<in> set ys" by simp_all
    moreover have "set xs \<inter> set ys = {}" using assms(2) by auto
    ultimately have "last xs \<noteq> hd ys" by (metis disjoint_iff)
    then show ?thesis using fx fy ne by simp
  qed
  define ns1 where "ns1 = (if xs = [] then ns else ns[final xs := (ns ! final xs)\<lparr>nd_next := first ys\<rparr>])"
  define ns2 where "ns2 = (if ys = [] then ns1 else ns1[first ys := (ns1 ! first ys)\<lparr>nd_prev := final xs\<rparr>])"
  define ns3 where "ns3 = ns2[i := (ns2 ! i)\<lparr>nd_prev := nil, nd_next := nil\<rparr>]"
  define l' where "l' = l\<lparr>lru_nodes := ns3, lru_head := first (xs @ ys), lru_tail := final (xs @ ys)\<rparr>"
  have len: "length ns1 = length ns" "length ns2 = length ns" "length ns3 = length ns"
    by (simp_all add: ns1_def ns2_def ns3_def)
  have d1: "same_data ns ns1" using fx by (auto simp: ns1_def data_def intro!: same_data_upd)
  have d2: "same_data ns ns2"
    using fy len d1 by (auto simp: ns2_def data_def intro!: same_data_upd)
  have d3: "same_data ns ns3"
    using i len d2 by (auto simp: ns3_def data_def intro!: same_data_upd)
  have v1: "map nd_visited ns1 = map nd_visited ns"
    using fx by (auto simp: ns1_def intro!: map_upd_same)
  have v2: "map nd_visited ns2 = map nd_visited ns1"
    using fy len by (auto simp: ns2_def intro!: map_upd_same)
  have "map nd_visited ns3 = map nd_visited ns2"
    using i len by (auto simp: ns3_def intro!: map_upd_same)
  with v1 v2 have v: "map nd_visited ns3 = map nd_visited ns" by simp
  have e1: "(if final xs \<noteq> nil then put_node (final xs) (nd_next_update (\<lambda>_. first ys)) l
      else Some (if lru_head l = i then l\<lparr>lru_head := first ys\<rparr> else l))
      = Some (l\<lparr>lru_nodes := ns1, lru_head := first (xs @ ys)\<rparr>)"
    using fx assms(4) by (cases xs) (simp_all add: put_node_def ns1_def final_def first_def flip: ns_def)
  define l1 where "l1 = l\<lparr>lru_nodes := ns1, lru_head := first (xs @ ys)\<rparr>"
  define l2 where "l2 = l\<lparr>lru_nodes := ns2, lru_head := first (xs @ ys), lru_tail := final (xs @ ys)\<rparr>"
  have e2: "(if first ys \<noteq> nil then put_node (first ys) (nd_prev_update (\<lambda>_. final xs)) l1
      else Some (if lru_tail l1 = i then l1\<lparr>lru_tail := final xs\<rparr> else l1)) = Some l2"
    using fy assms(5) len by (cases ys) (simp_all add: put_node_def ns2_def final_def first_def l1_def l2_def)
  have e3: "put_node i (\<lambda>m. m\<lparr>nd_prev := nil, nd_next := nil\<rparr>) l2 = Some l'"
    using i len by (simp add: put_node_def l2_def l'_def ns3_def)
  have e0: "b_at (lru_nodes l) i = Some (ns ! i)" using i by (simp add: ns_def)
  have "lru_detach i l = Some l'"
    unfolding lru_detach_def e0 Option.bind.simps(2) Let_def P N e1 [folded l1_def] e2 e3 by (rule refl)
  moreover have "seg (prevs ns3) (nexts ns3) nil (xs @ ys) nil"
  proof -
    define P1 where "P1 = (if ys = [] then prevs ns else (prevs ns)(hd ys := final xs))"
    define N1 where "N1 = (if xs = [] then nexts ns else (nexts ns)(last xs := first ys))"
    have "seg P1 N1 nil (xs @ ys) nil"
      using assms(3) by (intro seg_detach [OF assms(1,2)]) (auto simp: P1_def N1_def ns_def)
    moreover have "P1 j = prevs ns3 j \<and> N1 j = nexts ns3 j" if "j \<in> set (xs @ ys)" for j
    proof -
      have "j \<noteq> i" using that assms(2) by auto
      then show ?thesis using fx fy xy i len
        by (auto simp: P1_def N1_def ns3_def ns2_def ns1_def prevs_upd nexts_upd prevs_def [of ns] nexts_def [of ns])
    qed
    ultimately show ?thesis using seg_cong [of "xs @ ys" P1 "prevs ns3" N1 "nexts ns3" nil nil] by blast
  qed
  ultimately show ?thesis
    using d3 v by (intro exI [of _ l']) (simp add: l'_def ns_def)
qed

section \<open>Pushing\<close>

lemma push_front_spec:
  assumes "seg (prevs (lru_nodes l)) (nexts (lru_nodes l)) nil order nil" and "distinct (i # order)"
    and "\<forall>j \<in> set (i # order). j < length (lru_nodes l) \<and> j < nil"
    and "lru_head l = first order" and "lru_tail l = final order"
  shows "\<exists>l'. lru_push_front i l = Some l' \<and> same_data (lru_nodes l) (lru_nodes l') \<and>
    seg (prevs (lru_nodes l')) (nexts (lru_nodes l')) nil (i # order) nil \<and>
    lru_head l' = first (i # order) \<and> lru_tail l' = final (i # order) \<and>
    lru_index l' = lru_index l \<and> lru_free l' = lru_free l \<and> lru_hand l' = lru_hand l \<and>
    lru_capacity l' = lru_capacity l \<and> lru_door l' = lru_door l"
proof -
  define ns where "ns = lru_nodes l"
  have i: "i < length ns" "i \<noteq> nil" using assms(3) by (auto simp: ns_def)
  have fo: "order \<noteq> [] \<Longrightarrow> first order \<noteq> nil \<and> first order < length ns \<and> first order \<noteq> i \<and> first order = hd order"
    using assms(2,3) by (cases order) (auto simp: first_def ns_def)
  have la: "order \<noteq> [] \<Longrightarrow> final order \<noteq> nil"
  proof -
    assume ne: "order \<noteq> []"
    then have "last order \<in> set (i # order)" by simp
    then have "last order < nil" using assms(3) by blast
    then show ?thesis using ne by (simp add: final_def)
  qed
  define ns1 where "ns1 = ns[i := (ns ! i)\<lparr>nd_next := first order, nd_prev := nil\<rparr>]"
  define ns2 where "ns2 = (if order = [] then ns1 else ns1[first order := (ns1 ! first order)\<lparr>nd_prev := i\<rparr>])"
  define l' where "l' = l\<lparr>lru_nodes := ns2, lru_head := i, lru_tail := final (i # order)\<rparr>"
  have len: "length ns1 = length ns" "length ns2 = length ns" by (simp_all add: ns1_def ns2_def)
  have d1: "same_data ns ns1" using i by (auto simp: ns1_def data_def intro!: same_data_upd)
  have d2: "same_data ns ns2" using fo len d1 by (auto simp: ns2_def data_def intro!: same_data_upd)
  have "lru_push_front i l = Some l'"
    using i fo la assms(4,5) len
    by (cases order) (simp_all add: lru_push_front_def put_node_def ns1_def ns2_def l'_def first_def final_def flip: ns_def)
  moreover have "seg (prevs ns2) (nexts ns2) nil (i # order) nil"
  proof (rule seg_push [OF assms(1)])
    show "distinct order" "i \<notin> set order" using assms(2) by auto
    show "nexts ns2 = (nexts (lru_nodes l))(i := first order)"
      using i fo len by (auto simp: ns2_def ns1_def ns_def nexts_def fun_eq_iff nth_list_update)
    show "prevs ns2 = (if order = [] then (prevs (lru_nodes l))(i := nil) else (prevs (lru_nodes l))(i := nil, hd order := i))"
      using i fo len by (auto simp: ns2_def ns1_def prevs_upd ns_def)
  qed
  ultimately show ?thesis
    using d2 by (intro exI [of _ l']) (simp add: l'_def ns_def first_def)
qed

section \<open>The hand\<close>

lemma visited_off [simp]:
  "prevs (ns[i := (ns ! i)\<lparr>nd_visited := v\<rparr>]) = prevs ns"
  "nexts (ns[i := (ns ! i)\<lparr>nd_visited := v\<rparr>]) = nexts ns"
  "same_data ns (ns[i := (ns ! i)\<lparr>nd_visited := v\<rparr>])"
  using nth_upd_same [of nd_prev "nd_visited_update (\<lambda>_. v)" ns i] nth_upd_same [of nd_next "nd_visited_update (\<lambda>_. v)" ns i]
  by (auto simp: prevs_def nexts_def fun_eq_iff same_data_def data_def intro!: nth_equalityI)
    (cases "i < length ns"; simp add: nth_list_update)+

text \<open>The step of the hand towards the head, around the end.\<close>

definition hand_step :: "('k, 'v) node list \<Rightarrow> nat \<Rightarrow> nat \<Rightarrow> nat" where
  "hand_step ns tail i = (if prevs ns i = nil then tail else prevs ns i)"

definition visited :: "('k, 'v) node list \<Rightarrow> nat \<Rightarrow> bool" where
  "visited ns i = nd_visited (ns ! i)"

definition clear_bit :: "nat \<Rightarrow> ('k, 'v) node list \<Rightarrow> ('k, 'v) node list" where
  "clear_bit i ns = ns[i := (ns ! i)\<lparr>nd_visited := False\<rparr>]"

lemma clear_bit_simps [simp]:
  "prevs (clear_bit i ns) = prevs ns" "nexts (clear_bit i ns) = nexts ns" "length (clear_bit i ns) = length ns"
  "same_data ns (clear_bit i ns)" "hand_step (clear_bit i ns) = hand_step ns"
  by (simp_all add: clear_bit_def hand_step_def fun_eq_iff)

lemma visited_clear: "i < length ns \<Longrightarrow> visited (clear_bit i ns) j \<longleftrightarrow> visited ns j \<and> j \<noteq> i"
  by (auto simp: visited_def clear_bit_def nth_list_update)

lemma sieve_walk_step:
  "i < length ns \<Longrightarrow> sieve_walk ns tail i =
     (if visited ns i then sieve_walk (clear_bit i ns) tail (hand_step ns tail i) else Some (ns, i))"
  by (subst sieve_walk.simps) (simp add: visited_def clear_bit_def hand_step_def prevs_def)

lemma fold_clear_simps [simp]:
  "prevs (fold clear_bit ps ns) = prevs ns" "nexts (fold clear_bit ps ns) = nexts ns"
  "length (fold clear_bit ps ns) = length ns"
  by (induction ps arbitrary: ns) auto

lemma same_data_trans: "same_data a b \<Longrightarrow> same_data b c \<Longrightarrow> same_data a c"
  by (simp add: same_data_def)

lemma fold_clear_data [simp]: "same_data ns (fold clear_bit ps ns)"
  by (induction ps arbitrary: ns) (auto intro: same_data_trans [OF clear_bit_simps(4)])

lemma fold_clear_visited:
  "\<forall>p \<in> set ps. p < length ns \<Longrightarrow> visited (fold clear_bit ps ns) j \<longleftrightarrow> visited ns j \<and> j \<notin> set ps"
  by (induction ps arbitrary: ns) (auto simp: visited_clear)

fun steps_to :: "(nat \<Rightarrow> nat) \<Rightarrow> nat list \<Rightarrow> nat \<Rightarrow> bool" where
  "steps_to f [] j \<longleftrightarrow> True"
| "steps_to f (p # ps) j \<longleftrightarrow> f p = (case ps of [] \<Rightarrow> j | q # _ \<Rightarrow> q) \<and> steps_to f ps j"

lemma steps_to_append:
  "steps_to f (ps @ qs) j \<longleftrightarrow> steps_to f ps (case qs of [] \<Rightarrow> j | q # _ \<Rightarrow> q) \<and> steps_to f qs j"
  by (induction ps) (auto split: list.splits)

lemma sieve_walk_chain:
  "steps_to (hand_step ns tail) ps j \<Longrightarrow> \<forall>p \<in> set ps. p < length ns \<and> visited ns p \<Longrightarrow> distinct ps \<Longrightarrow>
   j < length ns \<Longrightarrow> \<not> visited (fold clear_bit ps ns) j \<Longrightarrow>
   sieve_walk ns tail (case ps of [] \<Rightarrow> j | p # _ \<Rightarrow> p) = Some (fold clear_bit ps ns, j)"
proof (induction ps arbitrary: ns)
  case Nil
  then show ?case by (simp add: sieve_walk_step)
next
  case (Cons p ps)
  have "\<forall>q \<in> set ps. q < length (clear_bit p ns) \<and> visited (clear_bit p ns) q"
    using Cons.prems(2,3) by (auto simp: visited_clear)
  then have "sieve_walk (clear_bit p ns) tail (case ps of [] \<Rightarrow> j | q # _ \<Rightarrow> q)
      = Some (fold clear_bit ps (clear_bit p ns), j)"
    using Cons by simp
  then show ?case using Cons.prems by (simp add: sieve_walk_step)
qed

text \<open>One lap of the hand: from its place to the head, then from the tail back.\<close>

lemma lap_steps:
  assumes "seg P N nil (xs @ i # ys) nil" and "distinct (xs @ i # ys)" and "nil \<notin> set (xs @ i # ys)"
    and "P = prevs ns"
  shows "steps_to (hand_step ns (final (xs @ i # ys))) (i # rev xs @ rev ys) i"
proof -
  have rev_seg: "steps_to (hand_step ns t) (rev zs) (if p = nil then t else p)"
    if "seg P N p zs q" "nil \<notin> set zs" for zs p q t
    using that
  proof (induction zs arbitrary: p)
    case Nil
    then show ?case by simp
  next
    case (Cons z zs)
    then have "steps_to (hand_step ns t) (rev zs) z" using Cons.IH [of z] by auto
    moreover have "hand_step ns t z = (if p = nil then t else p)"
      using Cons.prems assms(4) by (simp add: hand_step_def)
    ultimately show ?case by (simp add: steps_to_append)
  qed
  have xs: "seg P N nil xs i" and ys: "seg P N i ys nil"
    and P: "P i = (if xs = [] then nil else last xs)"
    using assms(1) by (auto simp: seg_append)
  define t where "t = final (xs @ i # ys)"
  have t: "t = (case rev ys of [] \<Rightarrow> i | q # _ \<Rightarrow> q)"
    by (cases ys rule: rev_cases) (simp_all add: t_def final_def)
  have "i \<noteq> nil" using assms(3) by auto
  then have "steps_to (hand_step ns t) (rev ys) i"
    using rev_seg [OF ys, of t] assms(3) by simp
  moreover have "steps_to (hand_step ns t) (rev xs) t"
    using rev_seg [OF xs, of t] assms(3) by simp
  moreover have "hand_step ns t i = (case rev xs of [] \<Rightarrow> t | q # _ \<Rightarrow> q)"
  proof (cases xs rule: rev_cases)
    case Nil
    then show ?thesis using P assms(4) by (simp add: hand_step_def)
  next
    case (snoc zs z)
    then have "z \<noteq> nil" using assms(3) by auto
    then show ?thesis using P assms(4) snoc by (simp add: hand_step_def)
  qed
  ultimately have "steps_to (hand_step ns t) (i # rev xs @ rev ys) i"
    using t by (auto simp: steps_to_append split: list.splits)
  then show ?thesis by (simp add: t_def)
qed

text \<open>The victim and the entries the hand passes on its way to it.\<close>

definition victim :: "(nat \<Rightarrow> bool) \<Rightarrow> nat list \<Rightarrow> nat" where
  "victim vis lap = (case dropWhile vis lap of [] \<Rightarrow> hd lap | j # _ \<Rightarrow> j)"

lemma sieve_walk_lap:
  assumes "seg (prevs ns) N nil (xs @ i # ys) nil" and "distinct (xs @ i # ys)"
    and "\<forall>j \<in> set (xs @ i # ys). j < length ns \<and> j < nil"
    and "lap = i # rev xs @ rev ys"
  shows "sieve_walk ns (final (xs @ i # ys)) i =
    Some (fold clear_bit (takeWhile (visited ns) lap) ns, victim (visited ns) lap)"
proof -
  define tail where "tail = final (xs @ i # ys)"
  have steps: "steps_to (hand_step ns tail) lap i"
    using lap_steps [OF assms(1,2) _ refl] assms(3,4) by (auto simp: tail_def)
  have in_lap: "\<forall>p \<in> set lap. p < length ns" and dist: "distinct lap" and lap: "lap \<noteq> []" "hd lap = i"
    using assms(2,3,4) by auto
  show ?thesis
  proof (cases "dropWhile (visited ns) lap")
    case Nil
    then have all: "takeWhile (visited ns) lap = lap" "\<forall>p \<in> set lap. visited ns p"
      by (auto simp: dropWhile_eq_Nil_conv takeWhile_eq_all_conv)
    have "\<not> visited (fold clear_bit lap ns) i"
      using in_lap lap fold_clear_visited [of lap ns i] hd_in_set [of lap] by simp
    then have "sieve_walk ns tail (case lap of [] \<Rightarrow> i | p # _ \<Rightarrow> p) = Some (fold clear_bit lap ns, i)"
      using steps in_lap dist all lap by (intro sieve_walk_chain) (auto simp: assms(4))
    then show ?thesis using Nil all(1) lap by (simp add: victim_def tail_def assms(4))
  next
    case (Cons j rest)
    define ps where "ps = takeWhile (visited ns) lap"
    have split: "lap = ps @ j # rest" using Cons takeWhile_dropWhile_id [of "visited ns" lap] by (simp add: ps_def)
    have ps: "\<forall>p \<in> set ps. visited ns p" by (auto simp: ps_def dest: set_takeWhileD)
    have j: "\<not> visited ns j" using Cons by (metis hd_dropWhile list.distinct(1) list.sel(1))
    have "steps_to (hand_step ns tail) ps j" using steps by (simp add: split steps_to_append)
    moreover have "\<forall>p \<in> set ps. p < length ns" "distinct ps" "j < length ns" "j \<notin> set ps"
      using in_lap dist split by auto
    ultimately have "sieve_walk ns tail (case ps of [] \<Rightarrow> j | p # _ \<Rightarrow> p) = Some (fold clear_bit ps ns, j)"
      using ps j by (intro sieve_walk_chain) (auto simp: fold_clear_visited)
    moreover have "(case ps of [] \<Rightarrow> j | p # _ \<Rightarrow> p) = i"
      using split assms(4) by (cases ps) auto
    ultimately show ?thesis using Cons by (simp add: victim_def ps_def tail_def)
  qed
qed

lemma victim_in: "lap \<noteq> [] \<Longrightarrow> victim vis lap \<in> set lap"
proof (cases "dropWhile vis lap")
  case (Cons j rest)
  then have "j \<in> set (dropWhile vis lap)" by simp
  then have "j \<in> set lap" by (rule set_dropWhileD)
  then show ?thesis using Cons by (simp add: victim_def)
qed (cases lap; simp add: victim_def)

section \<open>Eviction\<close>

lemma lru_ok_bounds:
  "lru_ok hash_of order l \<Longrightarrow> j \<in> set order \<Longrightarrow> j < length (lru_nodes l) \<and> j < nil"
  by (auto simp: lru_ok_def)

lemma lru_ok_split:
  assumes "lru_ok hash_of (xs @ i # ys) l"
  shows "seg (prevs (lru_nodes l)) (nexts (lru_nodes l)) nil (xs @ i # ys) nil" "distinct (xs @ i # ys)"
    "\<forall>j \<in> set (xs @ i # ys). j < length (lru_nodes l) \<and> j < nil"
    "lru_head l = first (xs @ i # ys)" "lru_tail l = final (xs @ i # ys)"
  using assms lru_ok_bounds [OF assms] by (simp_all add: lru_ok_def)

text \<open>Where the hand starts.\<close>

definition hand_start :: "('k, 'v) lru \<Rightarrow> nat" where
  "hand_start l = (if lru_hand l = nil then lru_tail l else lru_hand l)"

lemma hand_start_in: "lru_ok hash_of order l \<Longrightarrow> order \<noteq> [] \<Longrightarrow> hand_start l \<in> set order"
  by (auto simp: lru_ok_def hand_start_def final_def)

lemma evict_spec:
  assumes ok: "lru_ok hash_of order l" and order: "order = xs @ hand_start l # ys"
    and lap: "lap = hand_start l # rev xs @ rev ys"
    and v: "v = victim (visited (lru_nodes l)) lap"
  shows "\<exists>l'. lru_evict l = Some l' \<and> lru_ok hash_of (remove1 v order) l' \<and>
    lru_capacity l' = lru_capacity l \<and> lru_door l' = lru_door l \<and>
    lru_index l' = AList.delete (nd_hash (lru_nodes l ! v)) (lru_index l) \<and> lru_free l' = lru_free l @ [v] \<and>
    same_data (lru_nodes l) (lru_nodes l') \<and>
    (\<forall>j \<in> set order. visited (lru_nodes l') j \<longleftrightarrow>
       visited (lru_nodes l) j \<and> j \<notin> set (takeWhile (visited (lru_nodes l)) lap))"
proof -
  define i where "i = hand_start l"
  define ns where "ns = lru_nodes l"
  define ns' where "ns' = fold clear_bit (takeWhile (visited ns) lap) ns"
  note sp = lru_ok_split [OF ok [unfolded order]]
  have walk: "sieve_walk ns (lru_tail l) i = Some (ns', v)"
    using sieve_walk_lap [OF sp(1,2,3) lap] sp(5) by (simp add: i_def ns_def ns'_def v)
  have "v \<in> set order" using victim_in [of lap "visited ns"] by (auto simp: lap order v ns_def)
  then obtain as bs where o: "order = as @ v # bs" by (auto simp: in_set_conv_decomp)
  define l0 where "l0 = l\<lparr>lru_nodes := ns', lru_hand := nd_prev (ns' ! v)\<rparr>"
  have nodes0: "prevs (lru_nodes l0) = prevs ns" "nexts (lru_nodes l0) = nexts ns" "length (lru_nodes l0) = length ns"
    "same_data ns (lru_nodes l0)" by (simp_all add: l0_def ns'_def)
  note so = lru_ok_split [OF ok [unfolded o]]
  have seg0: "seg (prevs (lru_nodes l0)) (nexts (lru_nodes l0)) nil (as @ v # bs) nil"
    using so(1) nodes0 by (simp add: ns_def)
  have bound0: "\<forall>j \<in> set (as @ v # bs). j < length (lru_nodes l0) \<and> j < nil"
    using so(3) nodes0(3) by (simp add: ns_def)
  obtain l1 where l1: "lru_detach v l0 = Some l1" "same_data (lru_nodes l0) (lru_nodes l1)"
    "map nd_visited (lru_nodes l1) = map nd_visited (lru_nodes l0)"
    "seg (prevs (lru_nodes l1)) (nexts (lru_nodes l1)) nil (as @ bs) nil"
    "lru_head l1 = first (as @ bs)" "lru_tail l1 = final (as @ bs)" "lru_index l1 = lru_index l0"
    "lru_free l1 = lru_free l0" "lru_hand l1 = lru_hand l0" "lru_capacity l1 = lru_capacity l0" "lru_door l1 = lru_door l0"
    using detach_spec [OF seg0 so(2) bound0] so(4,5) by (auto simp: l0_def)
  have data: "same_data ns (lru_nodes l1)" using nodes0(4) l1(2) by (rule same_data_trans)
  have len: "length (lru_nodes l1) = length ns" using same_data_length [OF data] .
  have vlen: "v < length ns" using so(3) by (auto simp: ns_def)
  define l' where "l' = l1\<lparr>lru_index := AList.delete (nd_hash (ns ! v)) (lru_index l1), lru_free := lru_free l1 @ [v]\<rparr>"
  have hash_v: "nd_hash (lru_nodes l1 ! v) = nd_hash (ns ! v)"
    using same_data_nth [OF data vlen] by simp
  have start: "hand_start l \<noteq> nil" using sp(3) by auto
  have evict: "lru_evict l = Some l'"
    using walk start vlen len l1(1) hash_v
    by (simp add: lru_evict_def Let_def hand_start_def [symmetric] i_def ns_def [symmetric] ns'_def [symmetric]
        l0_def [symmetric] l'_def nodes0(3) [unfolded l0_def, simplified])
  have rm: "remove1 v order = as @ bs" using so(2) o by (simp add: remove1_append)
  have nodes': "lru_nodes l' = lru_nodes l1" by (simp add: l'_def)
  have hash': "nd_hash (lru_nodes l1 ! j) = nd_hash (ns ! j) \<and> nd_key (lru_nodes l1 ! j) = nd_key (ns ! j)"
    if "j \<in> set order" for j
    using same_data_nth [OF data, of j] lru_ok_bounds [OF ok that] by (simp add: ns_def)
  have dist: "distinct order" and idx: "map_of (lru_index l) h = Some j \<longleftrightarrow> j \<in> set order \<and> nd_hash (ns ! j) = h" for h j
    using ok by (simp_all add: lru_ok_def ns_def)
  have hand: "lru_hand l1 = final as"
    using seg_prev [OF seg0] nodes0(1) l1(9) by (auto simp: l0_def prevs_def final_def)
  have index': "lru_index l' = AList.delete (nd_hash (ns ! v)) (lru_index l)" using l1(7) by (simp add: l'_def l0_def)
  have free': "lru_free l' = lru_free l @ [v]" using l1(8) by (simp add: l'_def l0_def)
  have cap': "lru_capacity l' = lru_capacity l" "lru_door l' = lru_door l"
    using l1(10,11) by (simp_all add: l'_def l0_def)
  have keep: "j \<in> set (as @ bs) \<longleftrightarrow> j \<in> set order \<and> j \<noteq> v" for j
    using o so(2) by auto
  have "lru_ok hash_of (as @ bs) l'"
    unfolding lru_ok_def
  proof (intro conjI)
    show "lru_hand l' = nil \<or> lru_hand l' \<in> set (as @ bs)"
      using hand by (auto simp: l'_def final_def)
    show "distinct (lru_free l')" "set (lru_free l') \<inter> set (as @ bs) = {}"
      "set (lru_free l') \<union> set (as @ bs) = {..<length (lru_nodes l')}"
      using ok so(2) len by (auto simp: lru_ok_def free' o nodes' ns_def)
    show "length (lru_nodes l') \<le> lru_capacity l'" "0 < lru_capacity l'" "lru_capacity l' < nil"
      using ok len by (simp_all add: lru_ok_def nodes' cap' ns_def)
    show "distinct (map fst (lru_index l'))"
      using ok by (simp add: lru_ok_def index' distinct_delete)
    show "\<forall>h j. map_of (lru_index l') h = Some j \<longleftrightarrow> j \<in> set (as @ bs) \<and> nd_hash (lru_nodes l' ! j) = h"
    proof (intro allI)
      fix h j
      have hv: "map_of (lru_index l) (nd_hash (ns ! v)) = Some v" using idx \<open>v \<in> set order\<close> by blast
      have "map_of (lru_index l') h = (if h = nd_hash (ns ! v) then None else map_of (lru_index l) h)"
        by (simp add: index' delete_conv')
      moreover have "j \<in> set (as @ bs) \<and> nd_hash (lru_nodes l' ! j) = h \<longleftrightarrow>
          j \<noteq> v \<and> map_of (lru_index l) h = Some j"
        using idx [of h j] hash' [of j] keep [of j] by (metis nodes')
      moreover have "map_of (lru_index l) h = Some v \<Longrightarrow> h = nd_hash (ns ! v)"
        using idx [of h v] by simp
      ultimately show "map_of (lru_index l') h = Some j \<longleftrightarrow> j \<in> set (as @ bs) \<and> nd_hash (lru_nodes l' ! j) = h"
        using hv by (metis option.distinct(1) option.inject)
    qed
    show "\<forall>j \<in> set (as @ bs). nd_hash (lru_nodes l' ! j) = hash_of (nd_key (lru_nodes l' ! j))"
      using ok hash' keep by (simp add: lru_ok_def nodes' ns_def)
  qed (use l1(4,5,6) so(2) in \<open>simp_all add: l'_def\<close>)
  moreover have "visited (lru_nodes l') j \<longleftrightarrow> visited ns j \<and> j \<notin> set (takeWhile (visited ns) lap)" if "j \<in> set order" for j
  proof -
    have j: "j < length ns" using lru_ok_bounds [OF ok that] by (simp add: ns_def)
    have "visited (lru_nodes l1) j = visited ns' j"
    proof -
      have "map nd_visited (lru_nodes l1) ! j = map nd_visited ns' ! j" using l1(3) by (simp add: l0_def)
      then show ?thesis using j len by (simp add: visited_def ns'_def)
    qed
    moreover have "\<forall>p \<in> set (takeWhile (visited ns) lap). p < length ns"
      using sp(3) by (auto simp: lap ns_def dest: set_takeWhileD)
    ultimately show ?thesis by (simp add: nodes' ns'_def fold_clear_visited)
  qed
  ultimately show ?thesis
    using evict rm index' free' cap' data by (intro exI [of _ l']) (simp add: nodes' ns_def)
qed

section \<open>Looking up and inserting\<close>

lemma lru_index_length:
  assumes "lru_ok hash_of order l"
  shows "length (lru_index l) = length order"
proof -
  have idx: "\<And>h i. map_of (lru_index l) h = Some i \<longleftrightarrow> i \<in> set order \<and> nd_hash (lru_nodes l ! i) = h"
    and dist: "distinct (map fst (lru_index l))" "distinct order"
    using assms by (simp_all add: lru_ok_def)
  have "dom (map_of (lru_index l)) = (\<lambda>i. nd_hash (lru_nodes l ! i)) ` set order"
    using idx by auto
  moreover have "inj_on (\<lambda>i. nd_hash (lru_nodes l ! i)) (set order)"
    by (intro inj_onI) (metis idx option.inject)
  moreover have "card (dom (map_of (lru_index l))) = length (lru_index l)"
    using distinct_card [OF dist(1)] by (simp add: dom_map_of_conv_image_fst)
  ultimately show ?thesis
    using dist(2) by (simp add: card_image distinct_card)
qed

lemma lru_ok_keyed:
  assumes "lru_ok hash_of order l" and "map_of (lru_index l) h = Some i"
  shows "i \<in> set order \<and> i < length (lru_nodes l) \<and> nd_hash (lru_nodes l ! i) = h \<and>
    hash_of (nd_key (lru_nodes l ! i)) = h"
  using assms lru_ok_bounds [OF assms(1)] by (auto simp: lru_ok_def)

text \<open>An update of a node that keeps its links and its hash keeps the invariant.\<close>

lemma lru_ok_touch:
  assumes ok: "lru_ok hash_of order l" and "i \<in> set order"
    and n: "nd_prev n = nd_prev (lru_nodes l ! i)" "nd_next n = nd_next (lru_nodes l ! i)"
      "nd_hash n = nd_hash (lru_nodes l ! i)" "hash_of (nd_key n) = nd_hash n"
  shows "lru_ok hash_of order (l\<lparr>lru_nodes := (lru_nodes l)[i := n]\<rparr>)"
proof -
  have i: "i < length (lru_nodes l)" using lru_ok_bounds [OF ok assms(2)] by simp
  have "prevs ((lru_nodes l)[i := n]) = prevs (lru_nodes l)" "nexts ((lru_nodes l)[i := n]) = nexts (lru_nodes l)"
    using i n by (auto simp: prevs_upd nexts_upd prevs_def nexts_def)
  moreover have "nd_hash ((lru_nodes l)[i := n] ! j) = nd_hash (lru_nodes l ! j)" for j
    using i n by (cases "j = i") auto
  moreover have "\<forall>j \<in> set order. nd_hash (lru_nodes l ! j) = hash_of (nd_key ((lru_nodes l)[i := n] ! j))"
    using ok i n by (auto simp: lru_ok_def nth_list_update)
  ultimately show ?thesis using ok by (simp add: lru_ok_def)
qed

lemma get_spec:
  assumes ok: "lru_ok hash_of order l"
  shows "\<exists>l'. lru_get hash_of key l = Some (cached hash_of l key, l') \<and> lru_ok hash_of order l' \<and>
    cached hash_of l' = cached hash_of l \<and> lru_capacity l' = lru_capacity l \<and> lru_hand l' = lru_hand l"
proof (cases "cached hash_of l key")
  case None
  then have "lru_get hash_of key l = Some (None, l)"
    using lru_ok_keyed [OF ok, of "hash_of key"]
    by (auto simp: cached_def lru_get_def lru_get_hashed_def lru_slot_def split: option.splits if_splits)
  then show ?thesis using ok None by simp
next
  case (Some v)
  then obtain i where i: "map_of (lru_index l) (hash_of key) = Some i" "nd_key (lru_nodes l ! i) = key"
    "nd_value (lru_nodes l ! i) = v"
    by (auto simp: cached_def split: option.splits if_splits)
  note bound = lru_ok_keyed [OF ok i(1)]
  define n where "n = nd_visited_update (\<lambda>_. True) (lru_nodes l ! i)"
  define l' where "l' = l\<lparr>lru_nodes := (lru_nodes l)[i := n]\<rparr>"
  have "lru_get hash_of key l = Some (Some v, l')"
    using i bound by (simp add: lru_get_def lru_get_hashed_def lru_slot_def put_node_def l'_def n_def)
  moreover have "lru_ok hash_of order l'"
    unfolding l'_def using bound by (intro lru_ok_touch [OF ok]) (auto simp: n_def)
  moreover have "cached hash_of l' k = cached hash_of l k" for k
    using bound by (auto simp: cached_def l'_def n_def nth_list_update split: option.splits)
  ultimately show ?thesis using Some by (intro exI [of _ l']) (auto simp: fun_eq_iff l'_def)
qed

text \<open>The second half of \<open>insert_hashed\<close>: a fresh node at the front.\<close>

definition fresh_node :: "u64 \<Rightarrow> 'k \<Rightarrow> 'v \<Rightarrow> ('k, 'v) node" where
  "fresh_node h key v = \<lparr>nd_key = key, nd_hash = h, nd_value = v, nd_prev = nil, nd_next = nil, nd_visited = False\<rparr>"

lemma link_spec:
  assumes ok: "lru_ok hash_of order l" and new: "map_of (lru_index l) (hash_of key) = None"
    and i: "i \<notin> set order" "i < length ns" "ns ! i = fresh_node (hash_of key) key v"
    and ns: "length ns \<le> lru_capacity l" "\<And>j. j \<in> set order \<Longrightarrow> ns ! j = lru_nodes l ! j"
    and free: "distinct free" "set free \<inter> set (i # order) = {}" "set free \<union> set (i # order) = {..<length ns}"
  shows "\<exists>l'. lru_push_front i (l\<lparr>lru_nodes := ns, lru_free := free,
      lru_index := AList.update (hash_of key) i (lru_index l)\<rparr>) = Some l' \<and>
    lru_ok hash_of (i # order) l' \<and> lru_capacity l' = lru_capacity l \<and>
    cached hash_of l' key = Some v \<and>
    (\<forall>k. hash_of k \<noteq> hash_of key \<longrightarrow> cached hash_of l' k = cached hash_of l k)"
proof -
  define l0 where "l0 = l\<lparr>lru_nodes := ns, lru_free := free,
      lru_index := AList.update (hash_of key) i (lru_index l)\<rparr>"
  have idx: "\<And>h j. map_of (lru_index l) h = Some j \<longleftrightarrow> j \<in> set order \<and> nd_hash (lru_nodes l ! j) = h"
    using ok by (simp add: lru_ok_def)
  have cap: "lru_capacity l < nil" using ok by (simp add: lru_ok_def)
  have bound: "\<forall>j \<in> set (i # order). j < length ns \<and> j < nil"
  proof
    fix j assume "j \<in> set (i # order)"
    then have "j < length ns" using free(3) by blast
    then show "j < length ns \<and> j < nil" using ns(1) cap by linarith
  qed
  have "seg (prevs ns) (nexts ns) nil order nil = seg (prevs (lru_nodes l)) (nexts (lru_nodes l)) nil order nil"
    using ns(2) by (intro seg_cong) (simp add: prevs_def nexts_def)
  then have seg: "seg (prevs (lru_nodes l0)) (nexts (lru_nodes l0)) nil order nil"
    using ok by (simp add: lru_ok_def l0_def)
  have "distinct (i # order)" "\<forall>j \<in> set (i # order). j < length (lru_nodes l0) \<and> j < nil"
    "lru_head l0 = first order" "lru_tail l0 = final order"
    using ok i(1) bound by (simp_all add: lru_ok_def l0_def)
  then obtain l' where l': "lru_push_front i l0 = Some l'" "same_data (lru_nodes l0) (lru_nodes l')"
    "seg (prevs (lru_nodes l')) (nexts (lru_nodes l')) nil (i # order) nil"
    "lru_head l' = first (i # order)" "lru_tail l' = final (i # order)" "lru_index l' = lru_index l0"
    "lru_free l' = lru_free l0" "lru_hand l' = lru_hand l0" "lru_capacity l' = lru_capacity l0"
    using push_front_spec [OF seg] by blast
  have len: "length (lru_nodes l') = length ns" using same_data_length [OF l'(2)] by (simp add: l0_def)
  have at_i: "nd_key (lru_nodes l' ! i) = key" "nd_hash (lru_nodes l' ! i) = hash_of key" "nd_value (lru_nodes l' ! i) = v"
    using same_data_nth [OF l'(2), of i] i by (simp_all add: l0_def fresh_node_def)
  have at_j: "nd_key (lru_nodes l' ! j) = nd_key (lru_nodes l ! j) \<and> nd_hash (lru_nodes l' ! j) = nd_hash (lru_nodes l ! j) \<and>
      nd_value (lru_nodes l' ! j) = nd_value (lru_nodes l ! j)" if "j \<in> set order" for j
    using same_data_nth [OF l'(2), of j] that ns(2) bound by (simp add: l0_def)
  have index: "map_of (lru_index l') = (map_of (lru_index l))(hash_of key \<mapsto> i)"
    by (simp add: l'(6) l0_def update_conv')
  have "lru_ok hash_of (i # order) l'"
    unfolding lru_ok_def
  proof (intro conjI)
    show "distinct (map fst (lru_index l'))"
      using ok by (simp add: lru_ok_def l'(6) l0_def distinct_update)
    show "\<forall>h j. map_of (lru_index l') h = Some j \<longleftrightarrow> j \<in> set (i # order) \<and> nd_hash (lru_nodes l' ! j) = h"
    proof (intro allI)
      fix h j
      show "map_of (lru_index l') h = Some j \<longleftrightarrow> j \<in> set (i # order) \<and> nd_hash (lru_nodes l' ! j) = h"
      proof (cases "j = i")
        case True
        then show ?thesis using idx [of h i] i(1) at_i(2) by (auto simp: index)
      next
        case False
        then show ?thesis using idx [of h j] at_j [of j] new by (auto simp: index)
      qed
    qed
    show "\<forall>j \<in> set (i # order). nd_hash (lru_nodes l' ! j) = hash_of (nd_key (lru_nodes l' ! j))"
      using ok at_i at_j by (simp add: lru_ok_def)
    show "lru_hand l' = nil \<or> lru_hand l' \<in> set (i # order)"
      using ok by (auto simp: lru_ok_def l'(8) l0_def)
  qed (use ok l' \<open>distinct (i # order)\<close> free ns(1) len in \<open>simp_all add: l0_def lru_ok_def\<close>)
  moreover have "cached hash_of l' key = Some v"
    using at_i by (simp add: cached_def index)
  moreover have "cached hash_of l' k = cached hash_of l k" if "hash_of k \<noteq> hash_of key" for k
  proof (cases "map_of (lru_index l) (hash_of k)")
    case (Some j)
    then have "j \<in> set order" using idx by blast
    then show ?thesis using that at_j Some by (simp add: cached_def index)
  qed (use that in \<open>simp add: cached_def index\<close>)
  ultimately show ?thesis using l'(1,9) by (intro exI [of _ l']) (simp add: l0_def)
qed

lemma lru_room:
  assumes "lru_ok hash_of order l"
  shows "length (lru_index l) = length order" "lru_free l = [] \<Longrightarrow> length (lru_nodes l) = length order"
    "length order \<le> lru_capacity l"
proof -
  have u: "set (lru_free l) \<union> set order = {..<length (lru_nodes l)}" and d: "distinct order"
    and c: "length (lru_nodes l) \<le> lru_capacity l"
    using assms by (simp_all add: lru_ok_def)
  show "length (lru_index l) = length order" using assms by (rule lru_index_length)
  show "length (lru_nodes l) = length order" if "lru_free l = []"
    using u that distinct_card [OF d] by simp
  have "set order \<subseteq> {..<length (lru_nodes l)}" using u by blast
  then have "card (set order) \<le> length (lru_nodes l)"
    using card_mono [of "{..<length (lru_nodes l)}" "set order"] by simp
  then show "length order \<le> lru_capacity l" using distinct_card [OF d] c by simp
qed

definition lru_place :: "u64 \<Rightarrow> 'k \<Rightarrow> 'v \<Rightarrow> ('k, 'v) lru \<Rightarrow> ('k, 'v) lru option" where
  "lru_place h key v l = do {
     (i, l2) \<leftarrow>
       (if lru_free l \<noteq> []
        then (let i = last (lru_free l); l' = l\<lparr>lru_free := butlast (lru_free l)\<rparr>
              in do { l'' \<leftarrow> put_node i (\<lambda>_. fresh_node h key v) l'; Some (i, l'') })
        else Some ((length (lru_nodes l)) mod 2 ^ 32, l\<lparr>lru_nodes := lru_nodes l @ [fresh_node h key v]\<rparr>));
     lru_push_front i (l2\<lparr>lru_index := AList.update h i (lru_index l2)\<rparr>)
   }"

lemma insert_hashed_new:
  "map_of (lru_index l) h = None \<Longrightarrow> lru_insert_hashed h key v l =
     do { l1 \<leftarrow> (if length (lru_index l) \<ge> lru_capacity l then lru_evict l else Some l); lru_place h key v l1 }"
  by (simp only: lru_insert_hashed_def lru_place_def fresh_node_def option.case Let_def)

lemma place_spec:
  assumes ok: "lru_ok hash_of order l" and new: "map_of (lru_index l) (hash_of key) = None"
    and room: "lru_free l \<noteq> [] \<or> length (lru_nodes l) < lru_capacity l"
  shows "\<exists>i l'. lru_place (hash_of key) key v l = Some l' \<and>
    lru_ok hash_of (i # order) l' \<and> lru_capacity l' = lru_capacity l \<and>
    cached hash_of l' key = Some v \<and>
    (\<forall>k. hash_of k \<noteq> hash_of key \<longrightarrow> cached hash_of l' k = cached hash_of l k)"
proof -
  define node where "node = fresh_node (hash_of key) key v"
  have u: "set (lru_free l) \<union> set order = {..<length (lru_nodes l)}"
    and dj: "set (lru_free l) \<inter> set order = {}" and df: "distinct (lru_free l)"
    and c: "length (lru_nodes l) \<le> lru_capacity l" "lru_capacity l < nil"
    using ok by (simp_all add: lru_ok_def)
  show ?thesis
  proof (cases "lru_free l = []")
    case True
    define ns where "ns = lru_nodes l @ [node]"
    have len: "length (lru_nodes l) mod 2 ^ 32 = length (lru_nodes l)"
      using c by (simp add: nil_def)
    have same: "l\<lparr>lru_nodes := ns, lru_free := [], lru_index := ix\<rparr> = l\<lparr>lru_nodes := ns, lru_index := ix\<rparr>" for ix
      using True by (cases l) simp
    obtain l' where l': "lru_push_front (length (lru_nodes l)) (l\<lparr>lru_nodes := ns, lru_free := [],
        lru_index := AList.update (hash_of key) (length (lru_nodes l)) (lru_index l)\<rparr>) = Some l'"
      "lru_ok hash_of (length (lru_nodes l) # order) l' \<and> lru_capacity l' = lru_capacity l \<and> cached hash_of l' key = Some v \<and>
        (\<forall>k. hash_of k \<noteq> hash_of key \<longrightarrow> cached hash_of l' k = cached hash_of l k)"
      using link_spec [OF ok new, of "length (lru_nodes l)" ns v "[]"] True room u c
      by (auto simp: ns_def node_def nth_append lessThan_Suc)
    show ?thesis
      using True len l'(1) [unfolded same] l'(2)
      by (intro exI [of _ "length (lru_nodes l)"] exI [of _ l']) (simp add: ns_def node_def lru_place_def)
  next
    case False
    define i where "i = last (lru_free l)"
    define ns where "ns = (lru_nodes l)[i := node]"
    have fr: "lru_free l = butlast (lru_free l) @ [i]" using False by (simp add: i_def)
    have i: "i \<in> set (lru_free l)" using False by (simp add: i_def)
    have il: "i < length (lru_nodes l)" using i u by blast
    have d: "distinct (butlast (lru_free l))" "i \<notin> set (butlast (lru_free l))"
      using df fr by (metis distinct_append distinct_butlast, metis disjoint_insert(1) distinct_append list.set(2))
    have un: "set (butlast (lru_free l)) \<union> set (i # order) = {..<length ns}"
      using u fr by (metis Un_insert_left Un_insert_right list.simps(15) ns_def length_list_update rotate1.simps(2) set_rotate1)
    have dj': "set (butlast (lru_free l)) \<inter> set (i # order) = {}"
      using d(2) dj by (auto dest: in_set_butlastD)
    have "i \<notin> set order" "i < length ns" "ns ! i = fresh_node (hash_of key) key v"
      "length ns \<le> lru_capacity l" "\<And>j. j \<in> set order \<Longrightarrow> ns ! j = lru_nodes l ! j"
      using i dj il c by (auto simp: ns_def node_def nth_list_update)
    note this d(1) dj' un
    from link_spec [OF ok new this]
    obtain l' where l': "lru_push_front i (l\<lparr>lru_nodes := ns, lru_free := butlast (lru_free l),
        lru_index := AList.update (hash_of key) i (lru_index l)\<rparr>) = Some l'"
      "lru_ok hash_of (i # order) l' \<and> lru_capacity l' = lru_capacity l \<and> cached hash_of l' key = Some v \<and>
        (\<forall>k. hash_of k \<noteq> hash_of key \<longrightarrow> cached hash_of l' k = cached hash_of l k)"
      by blast
    have swap: "l\<lparr>lru_nodes := ns, lru_free := fr, lru_index := ix\<rparr> = l\<lparr>lru_free := fr, lru_nodes := ns, lru_index := ix\<rparr>" for fr ix
      by simp
    show ?thesis
      using False il l'(1) [unfolded swap] l'(2) by (intro exI [of _ i] exI [of _ l']) (simp add: lru_place_def Let_def put_node_def ns_def node_def i_def)
  qed
qed

lemma evict_forgets:
  assumes ok: "lru_ok hash_of order l" and "order \<noteq> []"
  shows "\<exists>l' order'. lru_evict l = Some l' \<and> lru_ok hash_of order' l' \<and> lru_capacity l' = lru_capacity l \<and>
    lru_free l' \<noteq> [] \<and> (\<forall>h. map_of (lru_index l) h = None \<longrightarrow> map_of (lru_index l') h = None) \<and>
    (\<forall>k x. cached hash_of l' k = Some x \<longrightarrow> cached hash_of l k = Some x)"
proof -
  have "hand_start l \<in> set order" using hand_start_in [OF assms] .
  then obtain xs ys where o: "order = xs @ hand_start l # ys" by (auto simp: in_set_conv_decomp)
  from evict_spec [OF ok o refl refl]
  obtain l' v where l': "lru_evict l = Some l'" "lru_ok hash_of (remove1 v order) l'" "lru_capacity l' = lru_capacity l"
    "lru_index l' = AList.delete (nd_hash (lru_nodes l ! v)) (lru_index l)" "lru_free l' = lru_free l @ [v]"
    "same_data (lru_nodes l) (lru_nodes l')" by blast
  have sub: "map_of (lru_index l') h = Some j \<Longrightarrow> map_of (lru_index l) h = Some j" for h j
    by (auto simp: l'(4) delete_conv' split: if_splits)
  have "cached hash_of l k = Some x" if x: "cached hash_of l' k = Some x" for k x
  proof -
    obtain j where j: "map_of (lru_index l') (hash_of k) = Some j" "nd_key (lru_nodes l' ! j) = k" "nd_value (lru_nodes l' ! j) = x"
      using x by (auto simp: cached_def split: option.splits if_splits)
    moreover have "j < length (lru_nodes l)" using lru_ok_keyed [OF ok sub [OF j(1)]] by simp
    ultimately show ?thesis
      using same_data_nth [OF l'(6), of j] sub [OF j(1)] by (simp add: cached_def)
  qed
  moreover have "map_of (lru_index l') h = None" if "map_of (lru_index l) h = None" for h
    using sub [of h] that by (cases "map_of (lru_index l') h") auto
  ultimately show ?thesis using l' by (intro exI [of _ l'] exI [of _ "remove1 v order"]) simp
qed

lemma insert_spec:
  assumes ok: "lru_ok hash_of order l"
  shows "\<exists>l' order'. lru_insert hash_of key v l = Some l' \<and> lru_ok hash_of order' l' \<and>
    lru_capacity l' = lru_capacity l \<and> cached hash_of l' key = Some v \<and>
    (\<forall>k x. k \<noteq> key \<longrightarrow> cached hash_of l' k = Some x \<longrightarrow> cached hash_of l k = Some x)"
proof (cases "map_of (lru_index l) (hash_of key)")
  case (Some i)
  note bound = lru_ok_keyed [OF ok Some]
  define n where "n = (lru_nodes l ! i)\<lparr>nd_visited := (nd_key (lru_nodes l ! i) = key), nd_key := key, nd_value := v\<rparr>"
  define l' where "l' = l\<lparr>lru_nodes := (lru_nodes l)[i := n]\<rparr>"
  have "lru_insert hash_of key v l = Some l'"
    using Some bound by (simp add: lru_insert_def lru_insert_hashed_def put_node_def l'_def n_def)
  moreover have "lru_ok hash_of order l'"
    unfolding l'_def using bound by (intro lru_ok_touch [OF ok]) (auto simp: n_def)
  moreover have "cached hash_of l' key = Some v"
    using Some bound by (simp add: cached_def l'_def n_def)
  moreover have "cached hash_of l k = Some x" if "k \<noteq> key" "cached hash_of l' k = Some x" for k x
    using that bound
    by (auto simp: cached_def l'_def n_def nth_list_update split: option.splits if_splits)
  ultimately show ?thesis by (intro exI [of _ l'] exI [of _ order]) (simp add: l'_def)
next
  case None
  define full where "full = (length (lru_index l) \<ge> lru_capacity l)"
  have "\<exists>l1 order1. (if full then lru_evict l else Some l) = Some l1 \<and> lru_ok hash_of order1 l1 \<and>
    lru_capacity l1 = lru_capacity l \<and> (lru_free l1 \<noteq> [] \<or> length (lru_nodes l1) < lru_capacity l1) \<and>
    map_of (lru_index l1) (hash_of key) = None \<and> (\<forall>k x. cached hash_of l1 k = Some x \<longrightarrow> cached hash_of l k = Some x)"
  proof (cases full)
    case True
    then have "order \<noteq> []" using ok lru_room(1) [OF ok] by (auto simp: full_def lru_ok_def)
    from evict_forgets [OF ok this] show ?thesis using True None by auto
  next
    case False
    then have "lru_free l \<noteq> [] \<or> length (lru_nodes l) < lru_capacity l"
      using lru_room(1,2) [OF ok] by (auto simp: full_def)
    then show ?thesis using False None ok by auto
  qed
  then obtain l1 order1 where l1: "(if full then lru_evict l else Some l) = Some l1" "lru_ok hash_of order1 l1"
    "lru_capacity l1 = lru_capacity l" "lru_free l1 \<noteq> [] \<or> length (lru_nodes l1) < lru_capacity l1"
    "map_of (lru_index l1) (hash_of key) = None" "\<And>k x. cached hash_of l1 k = Some x \<Longrightarrow> cached hash_of l k = Some x"
    by blast
  from place_spec [OF l1(2,5,4), of v]
  obtain i l' where l': "lru_insert hash_of key v l = Some l'" "lru_ok hash_of (i # order1) l'" "lru_capacity l' = lru_capacity l"
    "cached hash_of l' key = Some v" "\<And>k. hash_of k \<noteq> hash_of key \<Longrightarrow> cached hash_of l' k = cached hash_of l1 k"
    using None l1(1,3) by (auto simp: lru_insert_def insert_hashed_new full_def)
  have "cached hash_of l k = Some x" if k: "k \<noteq> key" "cached hash_of l' k = Some x" for k x
  proof (cases "hash_of k = hash_of key")
    case True
    then have "cached hash_of l' k = None"
      using l'(4) k(1) by (auto simp: cached_def split: option.splits if_splits)
    then show ?thesis using k by simp
  next
    case False
    then show ?thesis using l'(5) l1(6) k(2) by simp
  qed
  then show ?thesis using l' by blast
qed

section \<open>The map as a result cache\<close>

lemma lru_new_ok: "capacity < nil \<Longrightarrow> lru_ok hash_of [] (lru_new capacity)"
  by (simp add: lru_ok_def lru_new_def first_def final_def nil_def)

lemma lru_ok_door [simp]: "lru_ok hash_of order (l\<lparr>lru_door := d\<rparr>) = lru_ok hash_of order l"
  by (simp add: lru_ok_def)

lemma cached_door [simp]: "cached hash_of (l\<lparr>lru_door := d\<rparr>) = cached hash_of l"
proof (rule ext)
  show "cached hash_of (l\<lparr>lru_door := d\<rparr>) k = cached hash_of l k" for k
    by (cases "map_of (lru_index l) (hash_of k)") (simp_all add: cached_def)
qed

lemma cached_new: "cached hash_of (lru_new capacity) k = None"
  by (simp add: cached_def lru_new_def)

lemma admit_only_door: "\<exists>d. snd (lru_admit h l) = l\<lparr>lru_door := d\<rparr>"
  by (cases l) (auto simp: lru_admit_def Let_def)

lemma filter_new: "with_admission_filter slots l = l\<lparr>lru_door := replicate (next_power_of_two (max slots 64)) 0\<rparr>"
  by (rule with_admission_filter_def)

text \<open>The invariant at a fixed capacity.\<close>

definition lru_at :: "('k \<Rightarrow> u64) \<Rightarrow> nat \<Rightarrow> ('k, 'v) lru \<Rightarrow> bool" where
  "lru_at hash_of capacity l \<longleftrightarrow> lru_inv hash_of l \<and> lru_capacity l = capacity"

lemma insert_at:
  "lru_at hash_of n l \<Longrightarrow> \<exists>l'. lru_insert hash_of key v l = Some l' \<and> lru_at hash_of n l' \<and> cached hash_of l' key = Some v \<and>
    (\<forall>k x. cached hash_of l' k = Some x \<longrightarrow> (k = key \<and> x = v) \<or> cached hash_of l k = Some x)"
proof -
  assume "lru_at hash_of n l"
  then obtain order where ok: "lru_ok hash_of order l" "lru_capacity l = n" by (auto simp: lru_at_def lru_inv_def)
  obtain l' order' where "lru_insert hash_of key v l = Some l'" "lru_ok hash_of order' l'" "lru_capacity l' = n"
    "cached hash_of l' key = Some v" "\<forall>k x. k \<noteq> key \<longrightarrow> cached hash_of l' k = Some x \<longrightarrow> cached hash_of l k = Some x"
    using insert_spec [OF ok(1), of key v] ok(2) by auto
  then show ?thesis
    by (intro exI [of _ l'] conjI allI impI) (auto simp: lru_at_def lru_inv_def, metis option.inject)
qed

lemma get_at:
  "lru_at hash_of n l \<Longrightarrow> \<exists>l'. lru_get hash_of key l = Some (cached hash_of l key, l') \<and> lru_at hash_of n l' \<and>
    cached hash_of l' = cached hash_of l"
proof -
  assume "lru_at hash_of n l"
  then obtain order where "lru_ok hash_of order l" "lru_capacity l = n" by (auto simp: lru_at_def lru_inv_def)
  then show ?thesis using get_spec [of hash_of order l key] by (auto simp: lru_at_def lru_inv_def)
qed

lemma lru_at_len: "lru_at hash_of n l \<Longrightarrow> lru_len l \<le> n"
  using lru_room(1,3) by (fastforce simp: lru_at_def lru_inv_def lru_len_def)

interpretation sieve: remembering_cache "lru_get hash_of" "lru_insert hash_of" "lru_at hash_of n" "cached hash_of"
  for hash_of :: "'k \<Rightarrow> u64" and n
proof unfold_locales
  show "\<exists>c'. lru_get hash_of k c = Some (cached hash_of c k, c') \<and> lru_at hash_of n c' \<and> cached hash_of c' = cached hash_of c"
    if "lru_at hash_of n c" for c :: "('k, 'v) lru" and k
    using get_at [OF that] .
  show "\<exists>c'. lru_insert hash_of k v c = Some c' \<and> lru_at hash_of n c' \<and>
      (\<forall>k' x. cached hash_of c' k' = Some x \<longrightarrow> (k' = k \<and> x = v) \<or> cached hash_of c k' = Some x)"
    if "lru_at hash_of n c" for c :: "('k, 'v) lru" and k v
    using insert_at [OF that, of k v] by blast
  show "cached hash_of c' k = Some v"
    if "lru_at hash_of n c" "lru_insert hash_of k v c = Some c'" for c c' :: "('k, 'v) lru" and k v
    using insert_at [OF that(1), of k v] that(2) by auto
qed

text \<open>Behind the doorkeeper a store may be declined; nothing else changes.\<close>

interpretation doorkeeper: result_cache "lru_get hash_of" "lru_insert_if_seen_before hash_of" "lru_at hash_of n"
  "cached hash_of" for hash_of :: "'k \<Rightarrow> u64" and n
proof unfold_locales
  show "\<exists>c'. lru_get hash_of k c = Some (cached hash_of c k, c') \<and> lru_at hash_of n c' \<and> cached hash_of c' = cached hash_of c"
    if "lru_at hash_of n c" for c :: "('k, 'v) lru" and k
    using get_at [OF that] .
  show "\<exists>c'. lru_insert_if_seen_before hash_of k v c = Some c' \<and> lru_at hash_of n c' \<and>
      (\<forall>k' x. cached hash_of c' k' = Some x \<longrightarrow> (k' = k \<and> x = v) \<or> cached hash_of c k' = Some x)"
    if c: "lru_at hash_of n c" for c :: "('k, 'v) lru" and k v
  proof -
    obtain d where d: "snd (lru_admit (hash_of k) c) = c\<lparr>lru_door := d\<rparr>" using admit_only_door by blast
    have at: "lru_at hash_of n (c\<lparr>lru_door := d\<rparr>)" using c by (simp add: lru_at_def lru_inv_def)
    have step: "lru_insert_if_seen_before hash_of k v c =
        (if fst (lru_admit (hash_of k) c) then lru_insert hash_of k v (c\<lparr>lru_door := d\<rparr>) else Some (c\<lparr>lru_door := d\<rparr>))"
      by (simp add: lru_insert_if_seen_before_def lru_insert_if_seen_before_hashed_def lru_insert_def
          split_beta d)
    show ?thesis
      using insert_at [OF at, of k v] at by (auto simp: step)
  qed
qed

lemma admission_in_range:
  assumes "lru_door l \<noteq> []"
  shows "unat h AND (length (lru_door l) - 1) < length (lru_door l)"
proof -
  have "int (unat h AND m) \<le> int m" for m :: nat
    unfolding of_nat_and_eq by (rule AND_upper2) simp
  then have "unat h AND (length (lru_door l) - 1) \<le> length (lru_door l) - 1" by simp
  then show ?thesis using assms by (cases "lru_door l") auto
qed

section \<open>Properties\<close>

lemma lru_at_new: "capacity < nil \<Longrightarrow> lru_at hash_of (max capacity 1) (with_admission_filter slots (lru_new capacity))"
  using lru_new_ok by (auto simp: lru_at_def lru_inv_def filter_new) (simp add: lru_new_def)

lemma cached_filtered [simp]: "cached hash_of (with_admission_filter slots (lru_new capacity)) k = None"
  by (simp add: filter_new cached_new)

text \<open>C18: a verdict read through a cache with the doorkeeper is the verdict computed afresh,
  whatever the sequence of keys, whatever collides and whatever is evicted; the lookups and
  insertions never panic (no index leaves the slab), and the map never holds more than its
  capacity.\<close>

theorem cache_never_changes_an_answer:
  assumes "capacity < nil"
  shows "\<exists>l'. through_all (lru_get hash_of) (lru_insert_if_seen_before hash_of) f keys
      (with_admission_filter slots (lru_new capacity)) = Some (map f keys, l') \<and> lru_len l' \<le> max capacity 1"
proof -
  have "doorkeeper.answers hash_of (max capacity 1) f (with_admission_filter slots (lru_new capacity))"
    using lru_at_new [OF assms] by (simp add: doorkeeper.answers_def)
  from doorkeeper.all_answers [OF this, of keys] show ?thesis
    using doorkeeper.answers_ok lru_at_len by blast
qed

theorem cache_never_changes_an_answer_witness:
  "\<exists>l'. through_all (lru_get (str_hash 0)) (lru_insert_if_seen_before (str_hash 0)) length [''a'', ''bc'', ''a'', ''a'']
      (with_admission_filter 64 (lru_new 2)) = Some ([1, 2, 1, 1], l') \<and> lru_len l' \<le> 2"
  using cache_never_changes_an_answer [of 2 "str_hash 0" length "[''a'', ''bc'', ''a'', ''a'']" 64]
  by (simp add: nil_def numeral_2_eq_2 del: through_all.simps)

text \<open>The bounded map remembers: right after an insertion a lookup of the key returns the
  inserted value, every other entry that is left is one that was there before, and the number of
  entries stays within the capacity.\<close>

theorem inserted_value_is_found:
  assumes "lru_inv hash_of l"
  shows "\<exists>l' l''. lru_insert hash_of key v l = Some l' \<and> lru_get hash_of key l' = Some (Some v, l'') \<and>
    lru_inv hash_of l'' \<and> lru_len l'' \<le> lru_capacity l \<and>
    (\<forall>k x. k \<noteq> key \<longrightarrow> cached hash_of l' k = Some x \<longrightarrow> cached hash_of l k = Some x)"
proof -
  have at: "lru_at hash_of (lru_capacity l) l" using assms by (simp add: lru_at_def)
  obtain l' l'' where "lru_insert hash_of key v l = Some l'" "lru_get hash_of key l' = Some (Some v, l'')"
    "lru_at hash_of (lru_capacity l) l''"
    using sieve.hit_after_store [OF at] by blast
  then show ?thesis
    using insert_at [OF at, of key v] lru_at_len
    by (intro exI [of _ l'] exI [of _ l'']) (auto simp: lru_at_def)
qed

theorem inserted_value_is_found_witness:
  "\<exists>l' l''. lru_insert (str_hash 0) ''k'' (7 :: nat) (lru_new 1) = Some l' \<and> lru_get (str_hash 0) ''k'' l' = Some (Some 7, l'') \<and>
    lru_inv (str_hash 0) l'' \<and> lru_len l'' \<le> 1 \<and>
    (\<forall>k x. k \<noteq> ''k'' \<longrightarrow> cached (str_hash 0) l' k = Some x \<longrightarrow> cached (str_hash 0) (lru_new 1) k = Some x)"
proof -
  have "lru_inv (str_hash 0) (lru_new 1 :: (char list, nat) lru)"
    using lru_new_ok [of 1 "str_hash 0"] by (auto simp: lru_inv_def nil_def)
  then show ?thesis
    using inserted_value_is_found [of "str_hash 0" "lru_new 1" "''k''" 7] by (simp add: lru_new_def)
qed

text \<open>C19: eviction is SIEVE. With the entries in list order \<open>xs @ start # ys\<close>, the hand laps from
  where it stands towards the head and around the tail. It evicts the first entry on the lap that
  has not been visited since the hand last passed (the one it started on, when all have), clears the
  bit of exactly the entries it passed, and touches no other bit and no other entry. In
  particular it terminates and never leaves the slab.\<close>

theorem eviction_is_sieve:
  assumes "lru_ok hash_of order l" and "order = xs @ hand_start l # ys"
    and "lap = hand_start l # rev xs @ rev ys" and "v = victim (visited (lru_nodes l)) lap"
  shows "\<exists>l'. lru_evict l = Some l' \<and> lru_ok hash_of (remove1 v order) l' \<and>
    lru_index l' = AList.delete (nd_hash (lru_nodes l ! v)) (lru_index l) \<and>
    (\<forall>j \<in> set order. visited (lru_nodes l') j \<longleftrightarrow>
       visited (lru_nodes l) j \<and> j \<notin> set (takeWhile (visited (lru_nodes l)) lap))"
  using evict_spec [OF assms] by blast

text \<open>Three entries, the oldest of them visited: the middle one goes.\<close>

definition three_entries :: "(nat, nat) lru" where
  "three_entries = \<lparr>lru_index = [(5, 0), (6, 1), (7, 2)],
     lru_nodes = [\<lparr>nd_key = 5, nd_hash = 5, nd_value = 50, nd_prev = 1, nd_next = nil, nd_visited = True\<rparr>,
       \<lparr>nd_key = 6, nd_hash = 6, nd_value = 60, nd_prev = 2, nd_next = 0, nd_visited = False\<rparr>,
       \<lparr>nd_key = 7, nd_hash = 7, nd_value = 70, nd_prev = nil, nd_next = 1, nd_visited = False\<rparr>],
     lru_free = [], lru_head = 2, lru_tail = 0, lru_hand = nil, lru_capacity = 3, lru_door = []\<rparr>"

lemma three_entries_built:
  "do { a \<leftarrow> lru_insert of_nat (5 :: nat) (50 :: nat) (lru_new 3); b \<leftarrow> lru_insert of_nat 6 60 a;
        c \<leftarrow> lru_insert of_nat 7 70 b; (r, d) \<leftarrow> lru_get of_nat 5 c; Some d } = Some three_entries"
  by (simp add: lru_insert_def lru_insert_hashed_def lru_get_def lru_get_hashed_def lru_slot_def lru_new_def
      lru_push_front_def put_node_def three_entries_def nil_def Let_def)

lemma three_entries_ok: "lru_ok of_nat [2, 1, 0] three_entries"
proof -
  have "map_of (lru_index three_entries) h = Some i \<longleftrightarrow> i \<in> set [2, 1, 0] \<and> nd_hash (lru_nodes three_entries ! i) = h" for h i
    by (cases "i = 0"; cases "i = 1"; cases "i = 2") (auto simp: three_entries_def split: if_splits)
  then show ?thesis
    unfolding lru_ok_def
    by (auto simp: three_entries_def prevs_def nexts_def first_def final_def nil_def)
qed

theorem eviction_is_sieve_witness:
  "\<exists>l'. lru_evict three_entries = Some l' \<and> lru_ok of_nat [2, 0] l' \<and> lru_index l' = [(5, 0), (7, 2)] \<and>
    \<not> visited (lru_nodes l') 0"
proof -
  have start: "hand_start three_entries = 0" "victim (visited (lru_nodes three_entries)) [0, 1, 2] = 1"
    "nd_hash (lru_nodes three_entries ! 1) = 6" "takeWhile (visited (lru_nodes three_entries)) [0, 1, 2] = [0]"
    by (simp_all add: hand_start_def victim_def visited_def three_entries_def)
  have "AList.delete 6 (lru_index three_entries) = [(5, 0), (7, 2)]" "remove1 1 [2, 1, 0] = [2, 0 :: nat]"
    by (simp_all add: three_entries_def)
  then show ?thesis
    using eviction_is_sieve [of of_nat "[2, 1, 0]" three_entries "[2, 1]" "[]" "[0, 1, 2]" 1] three_entries_ok start
    by auto
qed

end
