(* ===== verification/Negfilter.thy ===== *)
theory Negfilter
  imports Lru
begin

text \<open>
  \<open>trails/table.rs\<close>: the hash of the trail tables and their negative prefilter, a bitmap with two
  bits per key. A \<open>usize\<close> mask or bit position is a 64-bit word, a bitmap index a \<open>nat\<close>; reading or
  writing outside the bitmap is a panic, \<open>None\<close>.
\<close>

section \<open>The hash\<close>

definition mix :: "u64 \<Rightarrow> u64" where
  "mix h0 =
     (let h = h0 XOR drop_bit 33 h0;
          h = h * 0xff51afd7ed558ccd;
          h = h XOR drop_bit 29 h;
          h = h * 0xc4ceb9fe1a85ec53
      in h XOR drop_bit 32 h)"

definition hash_k :: u64 where "hash_k = 0x9e3779b97f4a7c15"

function hash_chunks :: "u64 \<Rightarrow> bytes \<Rightarrow> u64" where
  "hash_chunks h b =
     (if length b \<ge> 8 then hash_chunks (word_rotl 31 ((h XOR le_u64 (take 8 b)) * hash_k)) (drop 8 b)
      else if b = [] then h else word_rotl 27 ((h XOR tail_word b) * hash_k))"
  by pat_completeness auto
termination by (relation "measure (\<lambda>(h, b). length b)") auto

declare hash_chunks.simps [simp del]

definition hash_bytes :: "bytes \<Rightarrow> u64" where
  "hash_bytes b = mix (hash_chunks (0xcbf29ce484222325 XOR of_nat (length b) * hash_k) b)"

section \<open>The bitmap\<close>

text \<open>Setting and testing bit \<open>a\<close> of a bitmap of 64-bit words.\<close>

definition set_bit_at :: "u64 list \<Rightarrow> u64 \<Rightarrow> u64 list option" where
  "set_bit_at bits a =
     (let i = unat (drop_bit 6 a)
      in if i < length bits then Some (bits[i := bits ! i OR push_bit (unat (a AND 63)) 1]) else None)"

definition test_bit_at :: "u64 list \<Rightarrow> u64 \<Rightarrow> bool option" where
  "test_bit_at bits a = map_option (\<lambda>w. drop_bit (unat (a AND 63)) w AND 1 \<noteq> 0) (b_at bits (unat (drop_bit 6 a)))"

record negative_filter =
  nf_bits :: "u64 list"
  nf_mask :: u64

definition filter_bits :: "nat \<Rightarrow> nat" where
  "filter_bits entries = next_power_of_two (max (min (entries * 16) usize_max) 1024)"

definition nf_new :: "nat \<Rightarrow> negative_filter" where
  "nf_new entries =
     (let want_bits = filter_bits entries
      in \<lparr>nf_bits = replicate (want_bits div 64) 0, nf_mask = of_nat (want_bits - 1)\<rparr>)"

definition positions :: "u64 \<Rightarrow> u64 \<Rightarrow> u64 \<times> u64" where
  "positions msk h = (h AND msk, drop_bit 32 h * 0x9e3779b9 AND msk)"

definition nf_insert :: "negative_filter \<Rightarrow> u64 \<Rightarrow> negative_filter option" where
  "nf_insert f h = do {
     let (a, b) = positions (nf_mask f) h;
     bits \<leftarrow> set_bit_at (nf_bits f) a;
     bits' \<leftarrow> set_bit_at bits b;
     Some (f\<lparr>nf_bits := bits'\<rparr>)
   }"

definition maybe_contains :: "negative_filter \<Rightarrow> u64 \<Rightarrow> bool option" where
  "maybe_contains f h = do {
     let (a, b) = positions (nf_mask f) h;
     x \<leftarrow> test_bit_at (nf_bits f) a;
     if x then test_bit_at (nf_bits f) b else Some False
   }"

definition nf_from_parts :: "u64 list \<Rightarrow> nat \<Rightarrow> negative_filter option" where
  "nf_from_parts bits msk = do {
     size \<leftarrow> usize_checked_add msk 1;
     if list_ex (\<lambda>k. size = 2 ^ k) [0..<64] \<and> size = length bits * 64 then Some \<lparr>nf_bits = bits, nf_mask = of_nat msk\<rparr> else None
   }"

section \<open>What the filter promises\<close>

definition covers :: "u64 list \<Rightarrow> u64 \<Rightarrow> bool" where
  "covers bits msk \<longleftrightarrow> unat msk + 1 = length bits * 64"

definition nf_ok :: "negative_filter \<Rightarrow> bool" where
  "nf_ok f \<longleftrightarrow> covers (nf_bits f) (nf_mask f)"

lemma and_mask_le: "unat (x AND m :: u64) \<le> unat m"
  by (metis and.commute word_and_le1 word_le_nat_alt)

lemma covered:
  assumes "covers bits msk"
  shows "unat (drop_bit 6 (x AND msk)) < length bits"
proof -
  have "unat (drop_bit 6 (x AND msk)) = unat (x AND msk) div 64"
    by (simp add: drop_bit_eq_div unat_div_distrib)
  moreover have "unat (x AND msk) < length bits * 64" using and_mask_le [of x msk] assms by (simp add: covers_def)
  ultimately show ?thesis by (simp add: less_mult_imp_div_less)
qed

lemma bit_index: "unat (a AND 63 :: u64) < 64"
  using and_mask_le [of a 63] by simp

lemma test_bit: "drop_bit n w AND 1 \<noteq> 0 \<longleftrightarrow> bit (w :: u64) n"
  by (simp add: and_one_eq mod_2_eq_odd bit_iff_odd_drop_bit)

lemma test_bit_at_in:
  "covers bits msk \<Longrightarrow> test_bit_at bits (x AND msk) =
     Some (bit (bits ! unat (drop_bit 6 (x AND msk))) (unat ((x AND msk) AND 63)))"
  using covered [of bits msk x] by (simp add: test_bit_at_def test_bit)

lemma set_bit_at_in:
  assumes "covers bits msk"
  shows "\<exists>bits'. set_bit_at bits (x AND msk) = Some bits' \<and> covers bits' msk \<and>
    test_bit_at bits' (x AND msk) = Some True \<and>
    (\<forall>y. test_bit_at bits (y AND msk) = Some True \<longrightarrow> test_bit_at bits' (y AND msk) = Some True)"
proof -
  define i where "i = unat (drop_bit 6 (x AND msk))"
  define n where "n = unat ((x AND msk) AND 63)"
  have i: "i < length bits" using covered [OF assms, of x] by (simp add: i_def)
  have n: "n < 64" using bit_index [of "x AND msk"] by (simp add: n_def)
  define bits' where "bits' = bits[i := bits ! i OR push_bit n 1]"
  have set: "set_bit_at bits (x AND msk) = Some bits'"
    using i by (simp add: set_bit_at_def Let_def bits'_def i_def n_def)
  have cov: "covers bits' msk" using assms by (simp add: covers_def bits'_def)
  have keep: "bit (bits' ! j) m \<longleftrightarrow> bit (bits ! j) m \<or> (j = i \<and> m = n)" if "j < length bits" "m < 64" for j m
    using that i n by (cases "j = i") (auto simp: bits'_def bit_or_iff bit_exp_iff possible_bit_word)
  have "test_bit_at bits' (x AND msk) = Some True"
    using test_bit_at_in [OF cov, of x] keep [OF i n] i n by (simp add: i_def n_def)
  moreover have "test_bit_at bits' (y AND msk) = Some True" if "test_bit_at bits (y AND msk) = Some True" for y
    using that test_bit_at_in [OF cov, of y] test_bit_at_in [OF assms, of y]
      keep [OF covered [OF assms, of y] bit_index] by simp
  ultimately show ?thesis using set cov by blast
qed

lemma nf_insert_spec:
  assumes "nf_ok f"
  shows "\<exists>f'. nf_insert f h = Some f' \<and> nf_ok f' \<and> nf_mask f' = nf_mask f \<and> maybe_contains f' h = Some True \<and>
    (\<forall>g. maybe_contains f g = Some True \<longrightarrow> maybe_contains f' g = Some True)"
proof -
  define p where "p = drop_bit 32 h * 0x9e3779b9"
  have c: "covers (nf_bits f) (nf_mask f)" using assms by (simp add: nf_ok_def)
  obtain b1 where b1: "set_bit_at (nf_bits f) (h AND nf_mask f) = Some b1" "covers b1 (nf_mask f)"
    "test_bit_at b1 (h AND nf_mask f) = Some True"
    "\<And>y. test_bit_at (nf_bits f) (y AND nf_mask f) = Some True \<Longrightarrow> test_bit_at b1 (y AND nf_mask f) = Some True"
    using set_bit_at_in [OF c, of h] by blast
  obtain b2 where b2: "set_bit_at b1 (p AND nf_mask f) = Some b2" "covers b2 (nf_mask f)"
    "test_bit_at b2 (p AND nf_mask f) = Some True"
    "\<And>y. test_bit_at b1 (y AND nf_mask f) = Some True \<Longrightarrow> test_bit_at b2 (y AND nf_mask f) = Some True"
    using set_bit_at_in [OF b1(2), of p] by blast
  have hit: "maybe_contains g k = Some True \<longleftrightarrow> test_bit_at (nf_bits g) (k AND nf_mask g) = Some True \<and>
      test_bit_at (nf_bits g) (drop_bit 32 k * 0x9e3779b9 AND nf_mask g) = Some True" for g k
    by (auto simp: maybe_contains_def positions_def Option.bind_eq_Some_conv split: if_splits)
  have "nf_insert f h = Some (f\<lparr>nf_bits := b2\<rparr>)"
    using b1 b2 by (simp add: nf_insert_def positions_def p_def)
  moreover have "maybe_contains (f\<lparr>nf_bits := b2\<rparr>) h = Some True"
    using b1 b2 by (simp add: hit p_def)
  ultimately show ?thesis
    using b1 b2 by (intro exI [of _ "f\<lparr>nf_bits := b2\<rparr>"]) (auto simp: nf_ok_def hit)
qed

lemma maybe_contains_total: "nf_ok f \<Longrightarrow> \<exists>r. maybe_contains f h = Some r"
  by (cases "test_bit_at (nf_bits f) (h AND nf_mask f)") (auto simp: maybe_contains_def positions_def nf_ok_def test_bit_at_in)

lemma pow2_from_spec:
  "0 < p \<Longrightarrow> \<exists>k. pow2_from p n = p * 2 ^ k \<and> n \<le> pow2_from p n \<and> (pow2_from p n = p \<or> pow2_from p n < 2 * n)"
proof (induction p n rule: pow2_from.induct)
  case (1 p n)
  show ?case
  proof (cases "n \<le> p")
    case True
    then show ?thesis using 1(2) by (subst (1 2 3 4) pow2_from.simps) (auto intro: exI [of _ 0])
  next
    case False
    then obtain k where "pow2_from (2 * p) n = 2 * p * 2 ^ k" "n \<le> pow2_from (2 * p) n"
      "pow2_from (2 * p) n = 2 * p \<or> pow2_from (2 * p) n < 2 * n"
      using 1 by auto
    moreover have "pow2_from p n = pow2_from (2 * p) n" using False 1(2) by (subst pow2_from.simps) simp
    ultimately show ?thesis using False by (auto intro!: exI [of _ "Suc k"])
  qed
qed

lemma filter_bits_spec:
  assumes "entries < 2 ^ 58"
  shows "\<exists>k. filter_bits entries = 2 ^ k \<and> 10 \<le> k \<and> k \<le> 63"
proof -
  define n where "n = max (min (entries * 16) usize_max) 1024"
  have n: "1024 \<le> n" "n < 2 ^ 62" using assms by (auto simp: n_def usize_max_def)
  obtain k where k: "next_power_of_two n = 2 ^ k" "n \<le> 2 ^ k" "next_power_of_two n = 1 \<or> next_power_of_two n < 2 * n"
    using pow2_from_spec [of 1 n] unfolding next_power_of_two_def by (metis mult_1 zero_less_one)
  have "(2::nat) ^ 10 \<le> 2 ^ k" using k(2) n(1) by simp
  then have "10 \<le> k" using power_le_imp_le_exp [of "2::nat" 10 k] by simp
  moreover have "(2::nat) ^ k < 2 ^ 63" using k(1,3) n by auto
  then have "k < 63" using power_less_imp_less_exp [of "2::nat" k 63] by simp
  ultimately show ?thesis using k(1) by (auto simp: filter_bits_def n_def)
qed

lemma unat_u64_of_nat: "n < 2 ^ 64 \<Longrightarrow> unat (of_nat n :: u64) = n"
  by (simp add: unsigned_of_nat take_bit_nat_eq_self)

lemma nf_new_ok:
  assumes "entries < 2 ^ 58"
  shows "nf_ok (nf_new entries)"
proof -
  obtain k where k: "filter_bits entries = 2 ^ k" "10 \<le> k" "k \<le> 63" using filter_bits_spec [OF assms] by blast
  obtain j where "k = j + 6" using k(2) by (metis add.commute le_Suc_ex le_trans numeral_le_iff semiring_norm(68,69,71,73,76))
  then have "(2 :: nat) ^ k div 64 * 64 = 2 ^ k" by (simp add: power_add)
  moreover have "(2 :: nat) ^ k \<le> 2 ^ 63" using k(3) by (intro power_increasing) auto
  moreover from this have "unat (of_nat (2 ^ k - 1) :: u64) = 2 ^ k - 1"
    by (intro unat_u64_of_nat) simp
  moreover have "nf_new entries = \<lparr>nf_bits = replicate (2 ^ k div 64) 0, nf_mask = of_nat (2 ^ k - 1)\<rparr>"
    by (simp add: nf_new_def Let_def k(1))
  ultimately show ?thesis
    unfolding nf_ok_def covers_def by (simp only: negative_filter.select_convs length_replicate) simp
qed

end
