(* ===== verification/Probe.thy ===== *)
theory Probe
  imports Prelude
begin

text \<open>
  Linear probing, shared by the two trail tables: the walk to the first slot that stops it, over
  a slot array read as a list of optional entries, and the invariant that makes the walk from a
  key's home slot find the key or prove it absent. Last, the contract of a dictionary that can
  run out of room, and what its clients get from it.
\<close>

section \<open>The walk\<close>

definition next_slot :: "nat \<Rightarrow> nat \<Rightarrow> nat" where
  "next_slot i cap = (if i + 1 = cap then 0 else i + 1)"

text \<open>A walk that meets no stopping slot does not end; reading outside the array is a panic. Both
  are \<open>None\<close>.\<close>

partial_function (option) probe :: "('s \<Rightarrow> bool option) \<Rightarrow> 's list \<Rightarrow> nat \<Rightarrow> nat option" where
  "probe stop slots i =
     (if i < length slots
      then do { b \<leftarrow> stop (slots ! i); if b then Some i else probe stop slots (next_slot i (length slots)) }
      else None)"

text \<open>The occupied slots of an old array, entered one by one into a new one.\<close>

fun reinsert :: "('s \<Rightarrow> bool) \<Rightarrow> ('s \<Rightarrow> nat option) \<Rightarrow> 's list \<Rightarrow> 's list \<Rightarrow> 's list option" where
  "reinsert vacant home_of [] new = Some new"
| "reinsert vacant home_of (s # old) new =
     (if vacant s then reinsert vacant home_of old new
      else do {
        h \<leftarrow> home_of s;
        i \<leftarrow> probe (\<lambda>x. Some (vacant x)) new h;
        reinsert vacant home_of old (new[i := s])
      })"

lemma next_slot_mod: "i < cap \<Longrightarrow> next_slot i cap = (i + 1) mod cap"
  by (auto simp: next_slot_def)

lemma probe_first:
  "i < length slots \<Longrightarrow> stop (slots ! ((i + d) mod length slots)) = Some True \<Longrightarrow>
   (\<forall>e < d. stop (slots ! ((i + e) mod length slots)) = Some False) \<Longrightarrow>
   probe stop slots i = Some ((i + d) mod length slots)"
proof (induction d arbitrary: i)
  case 0
  then show ?case by (subst probe.simps) simp
next
  case (Suc d)
  define j where "j = next_slot i (length slots)"
  have j: "j < length slots" "j = (i + 1) mod length slots" using Suc.prems(1) by (auto simp: j_def next_slot_def)
  have shift: "(j + e) mod length slots = (i + Suc e) mod length slots" for e
    unfolding j(2) by (simp add: mod_add_left_eq)
  have "probe stop slots j = Some ((j + d) mod length slots)"
    using Suc.prems by (intro Suc.IH j(1)) (auto simp: shift simp del: add_Suc_right)
  moreover have "stop (slots ! i) = Some False" using Suc.prems(1,3) by (force dest: spec [of _ 0])
  ultimately show ?case
    using Suc.prems(1) by (subst probe.simps) (simp add: j_def [symmetric] shift)
qed

section \<open>Placement\<close>

text \<open>The slots of a table as optional entries; \<open>home\<close> is where the walk for a key starts. Every
  entry is reached from its home over occupied slots, and no key is stored twice.\<close>

definition reached :: "('k \<times> 'v) option list \<Rightarrow> nat \<Rightarrow> nat \<Rightarrow> bool" where
  "reached kvs i j \<longleftrightarrow> (\<exists>d < length kvs. j = (i + d) mod length kvs \<and>
     (\<forall>e < d. kvs ! ((i + e) mod length kvs) \<noteq> None))"

definition once :: "('k \<times> 'v) option list \<Rightarrow> bool" where
  "once kvs \<longleftrightarrow> (\<forall>i j k v w. i < length kvs \<and> j < length kvs \<and> kvs ! i = Some (k, v) \<and> kvs ! j = Some (k, w) \<longrightarrow> i = j)"

definition placed :: "('k \<Rightarrow> nat) \<Rightarrow> ('k \<times> 'v) option list \<Rightarrow> bool" where
  "placed home kvs \<longleftrightarrow> (\<forall>k. home k < length kvs) \<and> once kvs \<and>
     (\<forall>j k v. j < length kvs \<and> kvs ! j = Some (k, v) \<longrightarrow> reached kvs (home k) j)"

definition contents :: "('k \<times> 'v) option list \<Rightarrow> 'k \<Rightarrow> 'v option" where
  "contents kvs = map_of (List.map_filter id kvs)"

lemma once_tail: "once (x # kvs) \<Longrightarrow> once kvs"
  unfolding once_def by (metis Suc_less_eq length_Cons nat.inject nth_Cons_Suc)

lemma contents_iff: "once kvs \<Longrightarrow> contents kvs k = Some v \<longleftrightarrow> Some (k, v) \<in> set kvs"
proof (induction kvs)
  case (Cons x kvs)
  note IH = Cons.IH [OF once_tail [OF Cons.prems]]
  have head: "Some (k, w) \<notin> set kvs" if "x = Some (k, v')" for v' w
  proof
    assume "Some (k, w) \<in> set kvs"
    then obtain j where "j < length kvs" "kvs ! j = Some (k, w)" by (auto simp: in_set_conv_nth)
    then have "0 = Suc j"
      using Cons.prems that unfolding once_def by (metis Suc_less_eq length_Cons nth_Cons_0 nth_Cons_Suc zero_less_Suc)
    then show False by simp
  qed
  show ?case
  proof (cases x)
    case None
    then show ?thesis using IH by (simp add: contents_def List.map_filter_simps)
  next
    case (Some p)
    obtain k' v' where p: "p = (k', v')" by (cases p)
    show ?thesis
    proof (cases "k' = k")
      case True
      then show ?thesis using head [of v'] Some p by (auto simp: contents_def List.map_filter_simps)
    next
      case False
      then show ?thesis using IH Some p by (auto simp: contents_def List.map_filter_simps)
    qed
  qed
qed (simp add: contents_def List.map_filter_def)

lemma contents_None: "contents kvs k = None \<longleftrightarrow> (\<forall>v. Some (k, v) \<notin> set kvs)"
  by (auto simp: contents_def map_of_eq_None_iff List.map_filter_def image_iff)

text \<open>Stopping at a free slot or at the key: the key's slot when it is there, otherwise the slot
  where it belongs.\<close>

lemma first_free_or_key:
  fixes kvs :: "('k \<times> 'v) option list"
  assumes P: "placed home kvs" and free: "None \<in> set kvs"
    and stop: "\<And>i. i < length kvs \<Longrightarrow> stop (slots ! i) = Some (kvs ! i = None \<or> (\<exists>v. kvs ! i = Some (k, v)))"
    and len: "length slots = length kvs"
  shows "\<exists>j < length kvs. probe stop slots (home k) = Some j \<and>
    (case contents kvs k of None \<Rightarrow> kvs ! j = None \<and> reached kvs (home k) j | Some v \<Rightarrow> kvs ! j = Some (k, v))"
proof -
  define n where "n = length kvs"
  define slot where "slot d = (home k + d) mod n" for d
  have n: "0 < n" "home k < n" using P free by (auto simp: placed_def n_def)
  have slot: "slot d < n" for d using n by (simp add: slot_def)
  define stops where "stops d \<longleftrightarrow> kvs ! slot d = None \<or> (\<exists>v. kvs ! slot d = Some (k, v))" for d
  obtain f where f: "f < n" "kvs ! f = None" using free by (auto simp: in_set_conv_nth n_def)
  have "slot ((f + n - home k) mod n) = f"
    using f n by (simp add: slot_def mod_add_right_eq)
  then have "stops ((f + n - home k) mod n)" using f by (simp add: stops_def)
  moreover have "(f + n - home k) mod n < n" using n by simp
  ultimately have "\<exists>d. stops d \<and> d < n" by blast
  define d where "d = (LEAST d. stops d)"
  have d: "stops d" "\<And>e. e < d \<Longrightarrow> \<not> stops e" "d < n"
    using \<open>\<exists>d. stops d \<and> d < n\<close> by (auto simp: d_def intro: LeastI dest: not_less_Least) (meson Least_le le_less_trans)
  have st: "stop (slots ! slot e) = Some (stops e)" for e using stop [of "slot e"] slot [of e] by (simp add: stops_def n_def)
  have probe: "probe stop slots (home k) = Some (slot d)"
  proof -
    have "probe stop slots (home k) = Some ((home k + d) mod length slots)"
      using d st n len by (intro probe_first) (auto simp: slot_def n_def)
    then show ?thesis by (simp add: slot_def n_def len)
  qed
  have busy: "kvs ! slot e \<noteq> None" if "e < d" for e using d(2) [OF that] by (auto simp: stops_def)
  have O: "once kvs" using P by (simp add: placed_def)
  show ?thesis
  proof (cases "contents kvs k")
    case None
    then have "kvs ! slot d = None" using d(1) slot [of d] by (auto simp: stops_def contents_None n_def) (metis nth_mem)
    moreover have "reached kvs (home k) (slot d)" using busy d(3) by (auto simp: reached_def slot_def n_def)
    ultimately show ?thesis using None probe slot [of d] by (auto simp: n_def)
  next
    case (Some v)
    then obtain j where j: "j < n" "kvs ! j = Some (k, v)" using contents_iff [OF O] by (auto simp: in_set_conv_nth n_def)
    then have "reached kvs (home k) j" using P by (auto simp: placed_def n_def)
    then obtain e where e: "e < n" "j = slot e" "\<And>g. g < e \<Longrightarrow> kvs ! slot g \<noteq> None"
      by (auto simp: reached_def slot_def n_def)
    have "d \<le> e" using d(2) [of e] j(2) e(2) by (force simp: stops_def)
    have "kvs ! slot d = Some (k, v)"
    proof (cases "d = e")
      case False
      then have "kvs ! slot d \<noteq> None" using e(3) [of d] \<open>d \<le> e\<close> by simp
      then obtain w where w: "kvs ! slot d = Some (k, w)" using d(1) by (auto simp: stops_def)
      then have "slot d = j" using O j slot [of d] unfolding once_def n_def by blast
      then show ?thesis using j by simp
    qed (use j e in simp)
    then show ?thesis using Some probe slot [of d] by (auto simp: n_def)
  qed
qed

section \<open>Filling and overwriting a slot\<close>

lemma nth_list_update_not_None: "m < length kvs \<Longrightarrow> kvs ! m \<noteq> None \<Longrightarrow> kvs[j := Some x] ! m \<noteq> None"
  by (cases "m = j") auto

lemma reached_mono:
  assumes "reached kvs i j" and "length kvs' = length kvs" and "\<And>m. m < length kvs \<Longrightarrow> kvs ! m \<noteq> None \<Longrightarrow> kvs' ! m \<noteq> None"
  shows "reached kvs' i j"
proof -
  obtain d where d: "d < length kvs" "j = (i + d) mod length kvs" "\<And>e. e < d \<Longrightarrow> kvs ! ((i + e) mod length kvs) \<noteq> None"
    using assms(1) by (auto simp: reached_def)
  have "(i + e) mod length kvs < length kvs" for e using d(1) by (intro mod_less_divisor) linarith
  then show ?thesis using d assms(2,3) unfolding reached_def by (intro exI [of _ d]) auto
qed

lemma placed_fill:
  assumes P: "placed home kvs" and j: "j < length kvs" "kvs ! j = None" and r: "reached kvs (home k) j"
    and new: "contents kvs k = None"
  shows "placed home (kvs[j := Some (k, v)]) \<and> contents (kvs[j := Some (k, v)]) = (contents kvs)(k \<mapsto> v)"
proof -
  define kvs' where "kvs' = kvs[j := Some (k, v)]"
  have mono: "reached kvs i m \<Longrightarrow> reached kvs' i m" for i m
    unfolding kvs'_def by (erule reached_mono) (simp_all add: nth_list_update_not_None)
  have fresh: "kvs ! i \<noteq> Some (k, w)" if "i < length kvs" for i w
    using new that by (metis contents_None nth_mem)
  have O: "once kvs'"
    using P j fresh by (auto simp: once_def kvs'_def nth_list_update placed_def split: if_splits)
  have "reached kvs' (home k') m" if "m < length kvs'" "kvs' ! m = Some (k', w)" for m k' w
    using that P r j mono by (cases "m = j") (auto simp: kvs'_def placed_def)
  then have "placed home kvs'" using P O by (auto simp: placed_def kvs'_def)
  moreover have "contents kvs' x = ((contents kvs)(k \<mapsto> v)) x" for x
  proof -
    have "contents kvs' x = Some w \<longleftrightarrow> ((contents kvs)(k \<mapsto> v)) x = Some w" for w
    proof -
      have "Some (x, w) \<in> set kvs' \<longleftrightarrow> (x = k \<and> w = v) \<or> Some (x, w) \<in> set kvs"
        using j by (auto simp: kvs'_def in_set_conv_nth nth_list_update split: if_splits) (metis option.distinct(1))+
      moreover have "once kvs" using P by (simp add: placed_def)
      ultimately show ?thesis using contents_iff [OF O] contents_iff [of kvs] new by (auto simp: contents_None)
    qed
    then show ?thesis by (metis not_None_eq)
  qed
  ultimately show ?thesis by (auto simp: kvs'_def fun_eq_iff)
qed

lemma placed_overwrite:
  assumes P: "placed home kvs" and j: "j < length kvs" "kvs ! j = Some (k, u)"
  shows "placed home (kvs[j := Some (k, v)]) \<and> contents (kvs[j := Some (k, v)]) = (contents kvs)(k \<mapsto> v)"
proof -
  define kvs' where "kvs' = kvs[j := Some (k, v)]"
  have mono: "reached kvs i m \<Longrightarrow> reached kvs' i m" for i m
    unfolding kvs'_def by (erule reached_mono) (simp_all add: nth_list_update_not_None)
  have O: "once kvs" using P by (simp add: placed_def)
  have O': "once kvs'"
    using O j unfolding once_def kvs'_def by (metis length_list_update nth_list_update_eq nth_list_update_neq option.inject prod.inject)
  have "reached kvs' (home k') m" if "m < length kvs'" "kvs' ! m = Some (k', w)" for m k' w
    using that P j mono by (cases "m = j") (auto simp: kvs'_def placed_def)
  then have "placed home kvs'" using P O' by (auto simp: placed_def kvs'_def)
  moreover have "contents kvs' x = ((contents kvs)(k \<mapsto> v)) x" for x
  proof -
    have "contents kvs' x = Some w \<longleftrightarrow> ((contents kvs)(k \<mapsto> v)) x = Some w" for w
    proof (cases "x = k")
      case True
      have "Some (k, v) \<in> set kvs'" using j by (simp add: kvs'_def set_update_memI)
      then have "contents kvs' k = Some v" using contents_iff [OF O'] by blast
      then show ?thesis using True by auto
    next
      case False
      then have "Some (x, w) \<in> set kvs' \<longleftrightarrow> Some (x, w) \<in> set kvs"
        using j by (auto simp: kvs'_def in_set_conv_nth nth_list_update split: if_splits) (metis option.inject prod.inject)+
      then show ?thesis using False contents_iff [OF O'] contents_iff [OF O] by simp
    qed
    then show ?thesis by (metis not_None_eq)
  qed
  ultimately show ?thesis by (auto simp: kvs'_def fun_eq_iff)
qed

section \<open>Moving to a larger array\<close>

definition occupied :: "('k \<times> 'v) option list \<Rightarrow> nat" where
  "occupied kvs = length (filter (\<lambda>e. e \<noteq> None) kvs)"

lemma occupied_free: "occupied kvs < length kvs \<Longrightarrow> None \<in> set kvs"
  by (metis (mono_tags, lifting) filter_True nat_neq_iff occupied_def)

lemma occupied_fill: "j < length kvs \<Longrightarrow> kvs ! j = None \<Longrightarrow> occupied (kvs[j := Some x]) = Suc (occupied kvs)"
proof (induction kvs arbitrary: j)
  case (Cons e kvs)
  then show ?case by (cases j) (auto simp: occupied_def)
qed simp

lemma occupied_overwrite: "j < length kvs \<Longrightarrow> kvs ! j \<noteq> None \<Longrightarrow> occupied (kvs[j := Some x]) = occupied kvs"
proof (induction kvs arbitrary: j)
  case (Cons e kvs)
  then show ?case by (cases j) (auto simp: occupied_def)
qed simp

lemma occupied_Cons: "occupied (e # kvs) = (if e = None then occupied kvs else Suc (occupied kvs))"
  by (simp add: occupied_def)

lemma contents_Cons: "contents (Some (k, v) # kvs) = (contents kvs)(k \<mapsto> v)" "contents (None # kvs) = contents kvs"
  by (simp_all add: contents_def List.map_filter_simps fun_eq_iff)

lemma once_head: "once (Some (k, v) # kvs) \<Longrightarrow> contents kvs k = None"
proof -
  assume o: "once (Some (k, v) # kvs)"
  have "Some (k, w) \<notin> set kvs" for w
  proof
    assume "Some (k, w) \<in> set kvs"
    then obtain j where "j < length kvs" "kvs ! j = Some (k, w)" by (auto simp: in_set_conv_nth)
    then have "0 = Suc j"
      using o unfolding once_def by (metis Suc_less_eq length_Cons nth_Cons_0 nth_Cons_Suc zero_less_Suc)
    then show False by simp
  qed
  then show ?thesis by (simp add: contents_None)
qed

lemma reinsert_spec:
  assumes "placed home (map entry new)" and "once (map entry old)"
    and "\<forall>k. contents (map entry old) k \<noteq> None \<longrightarrow> contents (map entry new) k = None"
    and "occupied (map entry new) + occupied (map entry old) < length new"
    and "\<forall>s. vacant s \<longleftrightarrow> entry s = None"
    and "\<forall>s \<in> set old. \<forall>k v. entry s = Some (k, v) \<longrightarrow> home_of s = Some (home k)"
  shows "\<exists>new'. reinsert vacant home_of old new = Some new' \<and> length new' = length new \<and>
    placed home (map entry new') \<and> contents (map entry new') = contents (map entry new) ++ contents (map entry old) \<and>
    occupied (map entry new') = occupied (map entry new) + occupied (map entry old) \<and> set new' \<subseteq> set new \<union> set old"
  using assms
proof (induction old arbitrary: new)
  case Nil
  then show ?case by (simp add: contents_def occupied_def List.map_filter_def)
next
  case (Cons s old)
  show ?case
  proof (cases "entry s")
    case None
    then have rs: "reinsert vacant home_of (s # old) new = reinsert vacant home_of old new" using Cons.prems(5) by simp
    have "occupied (map entry (s # old)) = occupied (map entry old)" "contents (map entry (s # old)) = contents (map entry old)"
      using None by (simp_all add: occupied_Cons contents_Cons)
    note cs = this
    have "\<exists>new'. reinsert vacant home_of old new = Some new' \<and> length new' = length new \<and>
      placed home (map entry new') \<and> contents (map entry new') = contents (map entry new) ++ contents (map entry old) \<and>
      occupied (map entry new') = occupied (map entry new) + occupied (map entry old) \<and> set new' \<subseteq> set new \<union> set old"
    proof (rule Cons.IH)
      show "once (map entry old)" using Cons.prems(2) once_tail [of "entry s" "map entry old"] by simp
      show "\<forall>s. vacant s = (entry s = None)" using Cons.prems(5) .
      show "\<forall>s \<in> set old. \<forall>k v. entry s = Some (k, v) \<longrightarrow> home_of s = Some (home k)" using Cons.prems(6) by simp
      show "placed home (map entry new)" using Cons.prems(1) .
    qed (use Cons.prems(3,4) cs in simp_all)
    then show ?thesis unfolding rs cs by auto
  next
    case (Some p)
    obtain k v where p: "p = (k, v)" by (cases p)
    define kvs where "kvs = map entry new"
    have o: "once (Some (k, v) # map entry old)" using Cons.prems(2) Some p by simp
    have hd: "contents (map entry old) k = None" using once_head [OF o] .
    have cs: "contents (map entry (s # old)) = (contents (map entry old))(k \<mapsto> v)" using Some p by (simp add: contents_Cons)
    have os: "occupied (map entry (s # old)) = Suc (occupied (map entry old))" using Some p by (simp add: occupied_Cons)
    have new: "contents kvs k = None" using Cons.prems(3) cs by (simp add: kvs_def)
    have free: "None \<in> set kvs" using Cons.prems(4) os by (intro occupied_free) (simp add: kvs_def)
    have st: "Some (vacant (new ! i)) = Some (kvs ! i = None \<or> (\<exists>w. kvs ! i = Some (k, w)))" if "i < length kvs" for i
    proof -
      have "kvs ! i \<noteq> Some (k, w)" for w using new that by (metis contents_None nth_mem)
      then show ?thesis using Cons.prems(5) that by (simp add: kvs_def)
    qed
    obtain j where j: "j < length kvs" "probe (\<lambda>x. Some (vacant x)) new (home k) = Some j" "kvs ! j = None"
      "reached kvs (home k) j"
    proof -
      have "\<exists>j < length kvs. probe (\<lambda>x. Some (vacant x)) new (home k) = Some j \<and>
          (case contents kvs k of None \<Rightarrow> kvs ! j = None \<and> reached kvs (home k) j | Some v \<Rightarrow> kvs ! j = Some (k, v))"
        using free st Cons.prems(1) by (intro first_free_or_key) (simp_all add: kvs_def)
      then show thesis using that new by auto
    qed
    have upd: "map entry (new[j := s]) = kvs[j := Some (k, v)]" using Some p by (simp add: kvs_def map_update)
    have pl: "placed home (kvs[j := Some (k, v)])" "contents (kvs[j := Some (k, v)]) = (contents kvs)(k \<mapsto> v)"
      using placed_fill [where home = home and kvs = kvs and j = j and k = k and v = v] j new Cons.prems(1)
      by (simp_all add: kvs_def)
    have oc: "occupied (kvs[j := Some (k, v)]) = Suc (occupied kvs)" using occupied_fill [OF j(1,3)] .
    have "\<exists>new'. reinsert vacant home_of old (new[j := s]) = Some new' \<and> length new' = length (new[j := s]) \<and>
      placed home (map entry new') \<and>
      contents (map entry new') = contents (map entry (new[j := s])) ++ contents (map entry old) \<and>
      occupied (map entry new') = occupied (map entry (new[j := s])) + occupied (map entry old) \<and>
      set new' \<subseteq> set (new[j := s]) \<union> set old"
    proof (rule Cons.IH)
      show "placed home (map entry (new[j := s]))" using pl(1) by (simp only: upd)
      show "once (map entry old)" using once_tail [OF o] .
      show "\<forall>x. contents (map entry old) x \<noteq> None \<longrightarrow> contents (map entry (new[j := s])) x = None"
        unfolding upd pl(2) using Cons.prems(3) hd cs by (auto simp: kvs_def)
      show "occupied (map entry (new[j := s])) + occupied (map entry old) < length (new[j := s])"
        unfolding upd oc using Cons.prems(4) os by (simp add: kvs_def)
      show "\<forall>s. vacant s = (entry s = None)" using Cons.prems(5) .
      show "\<forall>s \<in> set old. \<forall>k v. entry s = Some (k, v) \<longrightarrow> home_of s = Some (home k)" using Cons.prems(6) by simp
    qed
    then obtain new' where n': "reinsert vacant home_of old (new[j := s]) = Some new'" "length new' = length new"
      "placed home (map entry new')" "contents (map entry new') = (contents kvs)(k \<mapsto> v) ++ contents (map entry old)"
      "occupied (map entry new') = Suc (occupied kvs) + occupied (map entry old)" "set new' \<subseteq> set (new[j := s]) \<union> set old"
      unfolding upd pl(2) oc by auto
    have "home_of s = Some (home k)" using Cons.prems(6) Some p by simp
    moreover have "\<not> vacant s" using Cons.prems(5) Some by simp
    ultimately have "reinsert vacant home_of (s # old) new = Some new'" using j(2) n'(1) by simp
    moreover have "contents (map entry new') = contents (map entry new) ++ contents (map entry (s # old))"
      unfolding n'(4) cs kvs_def [symmetric] using hd by (auto simp: map_add_def fun_eq_iff split: option.splits)
    moreover have "set new' \<subseteq> set new \<union> set (s # old)"
      using n'(6) set_update_subset_insert [of new j s] by auto
    ultimately show ?thesis using n'(2,3,5) os by (simp add: kvs_def)
  qed
qed

section \<open>Dictionaries with limited room\<close>

fun put_all :: "('k \<Rightarrow> 'v \<Rightarrow> 't \<Rightarrow> 't option) \<Rightarrow> ('k \<times> 'v) list \<Rightarrow> 't \<Rightarrow> 't option" where
  "put_all put [] t = Some t"
| "put_all put ((k, v) # rows) t = do { t' \<leftarrow> put k v t; put_all put rows t' }"

locale dictionary =
  fixes put :: "'k \<Rightarrow> 'v \<Rightarrow> 't \<Rightarrow> 't option"
    and look :: "'k \<Rightarrow> 't \<Rightarrow> 'v option option"
    and ok :: "'t \<Rightarrow> bool"
    and storable :: "'v \<Rightarrow> bool"
    and used :: "'t \<Rightarrow> nat"
    and cost :: "'k \<Rightarrow> nat"
    and limit :: nat
    and bindings :: "'t \<Rightarrow> 'k \<Rightarrow> 'v option"
  assumes put_spec: "ok t \<Longrightarrow> storable v \<Longrightarrow> used t + cost k \<le> limit \<Longrightarrow>
      \<exists>t'. put k v t = Some t' \<and> ok t' \<and> used t' \<le> used t + cost k \<and> bindings t' = (bindings t)(k \<mapsto> v)"
    and look_spec: "ok t \<Longrightarrow> look k t = Some (bindings t k)"
begin

lemma put_all_spec:
  "ok t \<Longrightarrow> \<forall>(k, v) \<in> set rows. storable v \<Longrightarrow> used t + (\<Sum>r\<leftarrow>rows. cost (fst r)) \<le> limit \<Longrightarrow>
   \<exists>t'. put_all put rows t = Some t' \<and> ok t' \<and> used t' \<le> used t + (\<Sum>r\<leftarrow>rows. cost (fst r)) \<and>
     bindings t' = bindings t ++ map_of (rev rows)"
proof (induction rows arbitrary: t)
  case (Cons row rows)
  obtain k v where row: "row = (k, v)" by (cases row)
  have "storable v" "used t + cost k \<le> limit" using Cons.prems row by auto
  then obtain t1 where t1: "put k v t = Some t1" "ok t1" "used t1 \<le> used t + cost k" "bindings t1 = (bindings t)(k \<mapsto> v)"
    using put_spec [OF Cons.prems(1)] by blast
  have "used t1 + (\<Sum>r\<leftarrow>rows. cost (fst r)) \<le> limit" using Cons.prems(3) t1(3) row by simp
  then obtain t2 where t2: "put_all put rows t1 = Some t2" "ok t2" "used t2 \<le> used t1 + (\<Sum>r\<leftarrow>rows. cost (fst r))"
    "bindings t2 = bindings t1 ++ map_of (rev rows)"
    using Cons.IH [OF t1(2)] Cons.prems(2) by auto
  have "used t2 \<le> used t + (\<Sum>r\<leftarrow>row # rows. cost (fst r))" using t2(3) t1(3) row by simp
  moreover have "bindings t2 = bindings t ++ map_of (rev (row # rows))"
    unfolding t2(4) t1(4) row by (simp add: map_add_def fun_eq_iff split: option.splits)
  ultimately show ?case using t1(1) t2(1,2) row by (intro exI [of _ t2]) simp
qed simp

lemma look_after_put_all:
  assumes "ok t" and "\<forall>(k, v) \<in> set rows. storable v" and "used t + (\<Sum>r\<leftarrow>rows. cost (fst r)) \<le> limit"
    and "bindings t = Map.empty"
  shows "\<exists>t'. put_all put rows t = Some t' \<and> (\<forall>k. look k t' = Some (map_of (rev rows) k))"
  using put_all_spec [OF assms(1-3)] look_spec assms(4) by auto

end

end
