(* ===== verification/Table.thy ===== *)
theory Table
  imports Negfilter Probe
begin

text \<open>
  \<open>trails/table.rs\<close>: the string table over a byte arena and the integer table. A \<open>Region\<close> or \<open>Arena\<close> is
  a list, whether it lives on the heap or in a mapped file. \<open>None\<close> is a panic or a probe that never
  ends. An offset, a length and a value are 32-bit words, so the wrap of an arena past 4 GiB is in
  the model.
\<close>

definition empty_val :: u32 where "empty_val = - 1"

definition capacity_for :: "nat \<Rightarrow> nat" where
  "capacity_for n = max (min (n * 10) usize_max div 8 + 1) 16"

definition slot_of :: "u64 \<Rightarrow> nat \<Rightarrow> nat" where
  "slot_of h cap = unat (drop_bit 32 ((h AND 0xffffffff) * of_nat cap))"

record str_slot =
  sl_tag :: u32
  sl_off :: u32
  sl_len :: u32
  sl_val :: u32

definition empty_str_slot :: str_slot where
  "empty_str_slot = \<lparr>sl_tag = 0, sl_off = 0, sl_len = 0, sl_val = empty_val\<rparr>"

record str_table =
  st_arena :: string
  st_slots :: "str_slot list"
  st_len :: nat
  st_filter :: negative_filter

definition str_with_capacity :: "nat \<Rightarrow> str_table" where
  "str_with_capacity n = \<lparr>st_arena = [], st_slots = replicate (capacity_for n) empty_str_slot, st_len = 0, st_filter = nf_new n\<rparr>"

definition slot_key :: "string \<Rightarrow> str_slot \<Rightarrow> string option" where
  "slot_key arena s = b_slice arena (unat (sl_off s)) (unat (sl_off s) + unat (sl_len s))"

definition key_hash :: "string \<Rightarrow> u64" where
  "key_hash key = hash_bytes (str_bytes key)"

definition str_grow :: "str_table \<Rightarrow> str_table option" where
  "str_grow t =
     (let cap = max (length (st_slots t) + length (st_slots t) div 2) 16
      in do {
        slots \<leftarrow> reinsert (\<lambda>s. sl_val s = empty_val) (\<lambda>s. map_option (\<lambda>k. slot_of (key_hash k) cap) (slot_key (st_arena t) s))
                   (st_slots t) (replicate cap empty_str_slot);
        Some (t\<lparr>st_slots := slots\<rparr>)
      })"

definition str_insert_hashed :: "string \<Rightarrow> u64 \<Rightarrow> u32 \<Rightarrow> str_table \<Rightarrow> (bool \<times> str_table) option" where
  "str_insert_hashed key h v t0 = do {
     t \<leftarrow> (if (st_len t0 + 1) * 100 > length (st_slots t0) * 85 then str_grow t0 else Some t0);
     f \<leftarrow> nf_insert (st_filter t) h;
     let tag = (ucast (drop_bit 32 h) :: u32);
     i \<leftarrow> probe (\<lambda>s. if sl_val s = empty_val then Some True
                     else if sl_tag s = tag then map_option (\<lambda>k. k = key) (slot_key (st_arena t) s) else Some False)
            (st_slots t) (slot_of h (length (st_slots t)));
     s \<leftarrow> b_at (st_slots t) i;
     Some (if sl_val s = empty_val
           then (True, t\<lparr>st_filter := f, st_arena := st_arena t @ key,
                        st_slots := (st_slots t)[i := \<lparr>sl_tag = tag, sl_off = of_nat (length (st_arena t)),
                                                      sl_len = of_nat (length key), sl_val = v\<rparr>],
                        st_len := st_len t + 1\<rparr>)
           else (False, t\<lparr>st_filter := f, st_slots := (st_slots t)[i := s\<lparr>sl_val := v\<rparr>]\<rparr>))
   }"

definition str_insert :: "string \<Rightarrow> u32 \<Rightarrow> str_table \<Rightarrow> (bool \<times> str_table) option" where
  "str_insert key v t = str_insert_hashed key (key_hash key) v t"

definition str_get :: "string \<Rightarrow> str_table \<Rightarrow> u32 option option" where
  "str_get key t = do {
     let h = key_hash key;
     m \<leftarrow> maybe_contains (st_filter t) h;
     if \<not> m then Some None
     else do {
       let tag = (ucast (drop_bit 32 h) :: u32);
       i \<leftarrow> probe (\<lambda>s. if sl_val s = empty_val then Some True
                       else if sl_tag s = tag \<and> unat (sl_len s) = length key
                       then map_option (\<lambda>k. k = key) (slot_key (st_arena t) s) else Some False)
              (st_slots t) (slot_of h (length (st_slots t)));
       s \<leftarrow> b_at (st_slots t) i;
       Some (if sl_val s = empty_val then None else Some (sl_val s))
     }
   }"

definition str_contains :: "string \<Rightarrow> str_table \<Rightarrow> bool option" where
  "str_contains key t = map_option (\<lambda>r. r \<noteq> None) (str_get key t)"

record slot_check =
  sc_occupied :: nat
  sc_max_val :: "u32 option"
  sc_in_bounds :: bool

definition check_step :: "nat \<times> u32 \<times> nat \<Rightarrow> str_slot \<Rightarrow> nat \<times> u32 \<times> nat" where
  "check_step acc s =
     (case acc of (occ, most, end') \<Rightarrow>
        (occ + of_bool (sl_val s \<noteq> empty_val), max most (sl_val s + 1), max end' (unat (sl_off s) + unat (sl_len s))))"

definition str_validate :: "str_table \<Rightarrow> slot_check" where
  "str_validate t =
     (let (occ, most, end') = foldl check_step (0, 0, 0) (st_slots t)
      in \<lparr>sc_occupied = occ, sc_max_val = (if most = 0 then None else Some (most - 1)), sc_in_bounds = (end' \<le> length (st_arena t))\<rparr>)"

section \<open>Integer keys\<close>

definition hash_u32 :: "u32 \<Rightarrow> u64" where "hash_u32 k = mix (ucast k)"
definition hash_u64 :: "u64 \<Rightarrow> u64" where "hash_u64 k = mix k"
definition hash_u128 :: "u128 \<Rightarrow> u64" where
  "hash_u128 k = mix (ucast k XOR ucast (drop_bit 64 k) * 0x9e3779b97f4a7c15)"

record 'k int_slot =
  is_key :: 'k
  is_val :: u32

record 'k int_table =
  it_slots :: "'k int_slot list"
  it_len :: nat
  it_filter :: negative_filter

definition empty_int_slot :: "'k::zero int_slot" where
  "empty_int_slot = \<lparr>is_key = 0, is_val = empty_val\<rparr>"

definition int_with_capacity :: "nat \<Rightarrow> 'k::zero int_table" where
  "int_with_capacity n = \<lparr>it_slots = replicate (capacity_for n) empty_int_slot, it_len = 0, it_filter = nf_new n\<rparr>"

definition int_grow :: "('k \<Rightarrow> u64) \<Rightarrow> 'k::zero int_table \<Rightarrow> 'k int_table option" where
  "int_grow hash_key t =
     (let cap = max (length (it_slots t) + length (it_slots t) div 2) 16
      in do {
        slots \<leftarrow> reinsert (\<lambda>s. is_val s = empty_val) (\<lambda>s. Some (slot_of (hash_key (is_key s)) cap))
                   (it_slots t) (replicate cap empty_int_slot);
        Some (t\<lparr>it_slots := slots\<rparr>)
      })"

definition int_insert :: "('k \<Rightarrow> u64) \<Rightarrow> 'k::zero \<Rightarrow> u32 \<Rightarrow> 'k int_table \<Rightarrow> 'k int_table option" where
  "int_insert hash_key key v t0 = do {
     t \<leftarrow> (if (it_len t0 + 1) * 100 > length (it_slots t0) * 85 then int_grow hash_key t0 else Some t0);
     let h = hash_key key;
     f \<leftarrow> nf_insert (it_filter t) h;
     i \<leftarrow> probe (\<lambda>s. Some (is_val s = empty_val \<or> is_key s = key)) (it_slots t) (slot_of h (length (it_slots t)));
     s \<leftarrow> b_at (it_slots t) i;
     Some (if is_val s = empty_val
           then t\<lparr>it_filter := f, it_slots := (it_slots t)[i := \<lparr>is_key = key, is_val = v\<rparr>], it_len := it_len t + 1\<rparr>
           else t\<lparr>it_filter := f, it_slots := (it_slots t)[i := s\<lparr>is_val := v\<rparr>]\<rparr>)
   }"

definition int_get :: "('k \<Rightarrow> u64) \<Rightarrow> 'k \<Rightarrow> 'k int_table \<Rightarrow> u32 option option" where
  "int_get hash_key key t = do {
     let h = hash_key key;
     m \<leftarrow> maybe_contains (it_filter t) h;
     if \<not> m then Some None
     else do {
       i \<leftarrow> probe (\<lambda>s. Some (is_val s = empty_val \<or> is_key s = key)) (it_slots t) (slot_of h (length (it_slots t)));
       s \<leftarrow> b_at (it_slots t) i;
       Some (if is_val s = empty_val then None else Some (is_val s))
     }
   }"

definition int_check_step :: "nat \<times> u32 \<Rightarrow> 'k int_slot \<Rightarrow> nat \<times> u32" where
  "int_check_step acc s = (case acc of (occ, most) \<Rightarrow> (occ + of_bool (is_val s \<noteq> empty_val), max most (is_val s + 1)))"

definition int_validate :: "'k int_table \<Rightarrow> slot_check" where
  "int_validate t =
     (let (occ, most) = foldl int_check_step (0, 0) (it_slots t)
      in \<lparr>sc_occupied = occ, sc_max_val = (if most = 0 then None else Some (most - 1)), sc_in_bounds = True\<rparr>)"

section \<open>The integer table is a map\<close>

definition max_cap :: nat where "max_cap = 2 ^ 32"

lemma slot_of_less:
  assumes "0 < cap" and "cap \<le> max_cap"
  shows "slot_of h cap < cap"
proof -
  define x where "x = unat (h AND 0xffffffff)"
  have x: "x < 2 ^ 32" using and_mask_le [of h "0xffffffff"] by (simp add: x_def)
  have "x * cap < 2 ^ 32 * cap" using x assms(1) by simp
  also have "\<dots> \<le> 2 ^ 32 * 2 ^ 32" using assms(2) by (simp add: max_cap_def)
  finally have small: "x * cap < 2 ^ 64" by simp
  have cap: "unat (of_nat cap :: u64) = cap" using assms(2) by (intro unat_u64_of_nat) (simp add: max_cap_def)
  have "unat ((h AND 0xffffffff) * of_nat cap :: u64) = x * cap"
    using small cap by (simp add: unat_word_ariths x_def)
  then have "slot_of h cap = x * cap div 2 ^ 32"
    by (simp add: slot_of_def drop_bit_eq_div unat_div_distrib)
  also have "\<dots> < cap" using x assms(1) by (simp add: less_mult_imp_div_less mult.commute)
  finally show ?thesis .
qed

definition int_entry :: "'k int_slot \<Rightarrow> ('k \<times> u32) option" where
  "int_entry s = (if is_val s = empty_val then None else Some (is_key s, is_val s))"

definition int_bindings :: "'k int_table \<Rightarrow> 'k \<Rightarrow> u32 option" where
  "int_bindings t = contents (map int_entry (it_slots t))"

definition int_home :: "('k \<Rightarrow> u64) \<Rightarrow> nat \<Rightarrow> 'k \<Rightarrow> nat" where
  "int_home hash_key cap k = slot_of (hash_key k) cap"

definition int_ok :: "('k \<Rightarrow> u64) \<Rightarrow> 'k int_table \<Rightarrow> bool" where
  "int_ok hash_key t \<longleftrightarrow>
     16 \<le> length (it_slots t) \<and> length (it_slots t) \<le> max_cap \<and>
     placed (int_home hash_key (length (it_slots t))) (map int_entry (it_slots t)) \<and>
     it_len t = occupied (map int_entry (it_slots t)) \<and> it_len t * 100 \<le> length (it_slots t) * 85 \<and>
     nf_ok (it_filter t) \<and>
     (\<forall>k. int_bindings t k \<noteq> None \<longrightarrow> maybe_contains (it_filter t) (hash_key k) = Some True)"

definition table_limit :: nat where "table_limit = 2 ^ 31"

lemma placed_empty: "(\<And>k. home k < n) \<Longrightarrow> placed home (replicate n None)"
  by (auto simp: placed_def once_def)

lemma contents_empty: "contents (replicate n None) = Map.empty"
  by (induction n) (simp_all add: contents_def List.map_filter_simps)

lemma occupied_empty: "occupied (replicate n None) = 0"
  by (simp add: occupied_def)

lemma reinsert_fresh:
  assumes "once (map entry old)" and "entry e = None" and "\<forall>k. home k < cap" and "occupied (map entry old) < cap"
    and "\<forall>s. vacant s \<longleftrightarrow> entry s = None"
    and "\<forall>s \<in> set old. \<forall>k v. entry s = Some (k, v) \<longrightarrow> home_of s = Some (home k)"
  shows "\<exists>new. reinsert vacant home_of old (replicate cap e) = Some new \<and> length new = cap \<and>
    placed home (map entry new) \<and> contents (map entry new) = contents (map entry old) \<and>
    occupied (map entry new) = occupied (map entry old) \<and> set new \<subseteq> insert e (set old)"
proof -
  have me: "map entry (replicate cap e) = replicate cap None" using assms(2) by simp
  have "\<exists>new. reinsert vacant home_of old (replicate cap e) = Some new \<and> length new = length (replicate cap e) \<and>
    placed home (map entry new) \<and> contents (map entry new) = contents (map entry (replicate cap e)) ++ contents (map entry old) \<and>
    occupied (map entry new) = occupied (map entry (replicate cap e)) + occupied (map entry old) \<and>
    set new \<subseteq> set (replicate cap e) \<union> set old"
  proof (rule reinsert_spec)
    show "placed home (map entry (replicate cap e))" unfolding me using assms(3) by (intro placed_empty) blast
    show "\<forall>k. contents (map entry old) k \<noteq> None \<longrightarrow> contents (map entry (replicate cap e)) k = None"
      unfolding me contents_empty by simp
    show "occupied (map entry (replicate cap e)) + occupied (map entry old) < length (replicate cap e)"
      unfolding me occupied_empty using assms(4) by simp
  qed (use assms in blast)+
  then show ?thesis unfolding me contents_empty occupied_empty by (auto simp: set_replicate_conv_if split: if_splits)
qed

lemma placed_put:
  assumes P: "placed home kvs" and j: "j < length kvs"
    and c: "case contents kvs k of None \<Rightarrow> kvs ! j = None \<and> reached kvs (home k) j | Some u \<Rightarrow> kvs ! j = Some (k, u)"
  shows "placed home (kvs[j := Some (k, v)])" "contents (kvs[j := Some (k, v)]) = (contents kvs)(k \<mapsto> v)"
    "occupied (kvs[j := Some (k, v)]) = occupied kvs + of_bool (contents kvs k = None)"
proof -
  have "placed home (kvs[j := Some (k, v)]) \<and> contents (kvs[j := Some (k, v)]) = (contents kvs)(k \<mapsto> v) \<and>
    occupied (kvs[j := Some (k, v)]) = occupied kvs + of_bool (contents kvs k = None)"
  proof (cases "contents kvs k")
    case None
    then have e: "kvs ! j = None" "reached kvs (home k) j" using c by simp_all
    show ?thesis using placed_fill [OF P j e None] occupied_fill [OF j e(1)] None by simp
  next
    case (Some u)
    then have e: "kvs ! j = Some (k, u)" using c by simp
    then have "kvs ! j \<noteq> None" by simp
    show ?thesis using placed_overwrite [OF P j e] occupied_overwrite [OF j \<open>kvs ! j \<noteq> None\<close>] Some by simp
  qed
  then show "placed home (kvs[j := Some (k, v)])" "contents (kvs[j := Some (k, v)]) = (contents kvs)(k \<mapsto> v)"
    "occupied (kvs[j := Some (k, v)]) = occupied kvs + of_bool (contents kvs k = None)" by simp_all
qed

text \<open>The capacity after growing.\<close>

lemma grown_cap:
  assumes "16 \<le> n" and "len * 100 \<le> n * 85" and "len < table_limit" and "(len + 1) * 100 > n * 85"
  shows "16 \<le> max (n + n div 2) 16" "max (n + n div 2) 16 \<le> max_cap" "(len + 1) * 100 \<le> max (n + n div 2) 16 * 85"
    "len < max (n + n div 2) 16"
  using assms unfolding max_cap_def table_limit_def by auto

lemma int_grow_spec:
  assumes ok: "int_ok hk t" and small: "it_len t < table_limit" and full: "(it_len t + 1) * 100 > length (it_slots t) * 85"
  shows "\<exists>t'. int_grow hk t = Some t' \<and> it_len t' = it_len t \<and> it_filter t' = it_filter t \<and>
    16 \<le> length (it_slots t') \<and> length (it_slots t') \<le> max_cap \<and>
    placed (int_home hk (length (it_slots t'))) (map int_entry (it_slots t')) \<and>
    it_len t' = occupied (map int_entry (it_slots t')) \<and> (it_len t' + 1) * 100 \<le> length (it_slots t') * 85 \<and>
    int_bindings t' = int_bindings t"
proof -
  define cap where "cap = max (length (it_slots t) + length (it_slots t) div 2) 16"
  have n: "16 \<le> length (it_slots t)" "it_len t * 100 \<le> length (it_slots t) * 85" "it_len t = occupied (map int_entry (it_slots t))"
    and P: "placed (int_home hk (length (it_slots t))) (map int_entry (it_slots t))"
    using ok by (simp_all add: int_ok_def)
  note cap = grown_cap [OF n(1,2) small full, folded cap_def]
  have "\<exists>new. reinsert (\<lambda>s. is_val s = empty_val) (\<lambda>s. Some (slot_of (hk (is_key s)) cap)) (it_slots t)
      (replicate cap empty_int_slot) = Some new \<and> length new = cap \<and>
    placed (int_home hk cap) (map int_entry new) \<and> contents (map int_entry new) = contents (map int_entry (it_slots t)) \<and>
    occupied (map int_entry new) = occupied (map int_entry (it_slots t)) \<and> set new \<subseteq> insert empty_int_slot (set (it_slots t))"
    using P cap n(3) by (intro reinsert_fresh)
      (auto simp: placed_def int_entry_def empty_int_slot_def int_home_def slot_of_less split: if_splits)
  then obtain slots where s: "reinsert (\<lambda>s. is_val s = empty_val) (\<lambda>s. Some (slot_of (hk (is_key s)) cap)) (it_slots t)
      (replicate cap empty_int_slot) = Some slots" "length slots = cap" "placed (int_home hk cap) (map int_entry slots)"
    "contents (map int_entry slots) = contents (map int_entry (it_slots t))"
    "occupied (map int_entry slots) = occupied (map int_entry (it_slots t))"
    by blast
  have "int_grow hk t = Some (t\<lparr>it_slots := slots\<rparr>)"
    using s(1) by (simp add: int_grow_def Let_def cap_def)
  then show ?thesis
    using s cap n(3) by (intro exI [of _ "t\<lparr>it_slots := slots\<rparr>"]) (simp add: int_bindings_def)
qed

text \<open>The walk of a lookup and of an insertion.\<close>

lemma int_entry_None: "int_entry s = None \<longleftrightarrow> is_val s = empty_val"
  by (simp add: int_entry_def)

lemma int_entry_Some: "int_entry s = Some (k, u) \<longleftrightarrow> u \<noteq> empty_val \<and> s = \<lparr>is_key = k, is_val = u\<rparr>"
  by (cases s) (auto simp: int_entry_def)

lemma int_probe:
  assumes P: "placed (int_home hk (length (it_slots t))) (map int_entry (it_slots t))"
    and free: "None \<in> set (map int_entry (it_slots t))"
  shows "\<exists>j < length (map int_entry (it_slots t)).
    probe (\<lambda>s. Some (is_val s = empty_val \<or> is_key s = key)) (it_slots t) (slot_of (hk key) (length (it_slots t))) = Some j \<and>
    (case contents (map int_entry (it_slots t)) key of
       None \<Rightarrow> map int_entry (it_slots t) ! j = None \<and> reached (map int_entry (it_slots t)) (int_home hk (length (it_slots t)) key) j
     | Some v \<Rightarrow> map int_entry (it_slots t) ! j = Some (key, v))"
proof -
  have "\<exists>j < length (map int_entry (it_slots t)).
    probe (\<lambda>s. Some (is_val s = empty_val \<or> is_key s = key)) (it_slots t) (int_home hk (length (it_slots t)) key) = Some j \<and>
    (case contents (map int_entry (it_slots t)) key of
       None \<Rightarrow> map int_entry (it_slots t) ! j = None \<and> reached (map int_entry (it_slots t)) (int_home hk (length (it_slots t)) key) j
     | Some v \<Rightarrow> map int_entry (it_slots t) ! j = Some (key, v))"
    by (rule first_free_or_key [OF P free]) (auto simp: int_entry_def)
  then show ?thesis unfolding int_home_def .
qed

lemma load_free: "occupied kvs * 100 \<le> length kvs * 85 \<Longrightarrow> 0 < length kvs \<Longrightarrow> None \<in> set kvs"
  by (rule occupied_free) linarith

lemma int_get_spec:
  assumes ok: "int_ok hk t"
  shows "int_get hk key t = Some (int_bindings t key)"
proof -
  have P: "placed (int_home hk (length (it_slots t))) (map int_entry (it_slots t))" and nf: "nf_ok (it_filter t)"
    and hit: "int_bindings t key \<noteq> None \<Longrightarrow> maybe_contains (it_filter t) (hk key) = Some True"
    using ok by (simp_all add: int_ok_def)
  have free: "None \<in> set (map int_entry (it_slots t))"
    using ok by (intro load_free) (auto simp: int_ok_def)
  obtain m where m: "maybe_contains (it_filter t) (hk key) = Some m" using maybe_contains_total [OF nf] by blast
  show ?thesis
  proof (cases m)
    case True
    from int_probe [OF P free, of key] obtain j where j: "j < length (it_slots t)"
      "probe (\<lambda>s. Some (is_val s = empty_val \<or> is_key s = key)) (it_slots t) (slot_of (hk key) (length (it_slots t))) = Some j"
      "case int_bindings t key of None \<Rightarrow> map int_entry (it_slots t) ! j = None \<and> reached (map int_entry (it_slots t)) (int_home hk (length (it_slots t)) key) j
       | Some v \<Rightarrow> map int_entry (it_slots t) ! j = Some (key, v)"
      unfolding int_bindings_def length_map by blast
    then have "(if is_val (it_slots t ! j) = empty_val then None else Some (is_val (it_slots t ! j))) = int_bindings t key"
      by (cases "int_bindings t key") (simp_all add: int_entry_None int_entry_Some)
    then show ?thesis using m True j(1,2) by (simp add: int_get_def Let_def)
  next
    case False
    then have "\<not> int_bindings t key \<noteq> None" using hit m by fastforce
    then have "int_bindings t key = None" by simp
    then show ?thesis using False m by (simp add: int_get_def Let_def)
  qed
qed

lemma int_insert_spec:
  assumes ok: "int_ok hk t0" and v: "v \<noteq> empty_val" and small: "it_len t0 < table_limit"
  shows "\<exists>t'. int_insert hk key v t0 = Some t' \<and> int_ok hk t' \<and> it_len t' \<le> it_len t0 + 1 \<and>
    int_bindings t' = (int_bindings t0)(key \<mapsto> v)"
proof -
  obtain t where t: "(if (it_len t0 + 1) * 100 > length (it_slots t0) * 85 then int_grow hk t0 else Some t0) = Some t"
    "it_len t = it_len t0" "it_filter t = it_filter t0" "16 \<le> length (it_slots t)" "length (it_slots t) \<le> max_cap"
    "placed (int_home hk (length (it_slots t))) (map int_entry (it_slots t))"
    "it_len t = occupied (map int_entry (it_slots t))" "(it_len t + 1) * 100 \<le> length (it_slots t) * 85"
    "int_bindings t = int_bindings t0"
  proof (cases "(it_len t0 + 1) * 100 > length (it_slots t0) * 85")
    case True
    then show thesis using int_grow_spec [OF ok small True] that by auto
  next
    case False
    then show thesis using ok that [of t0] by (simp add: int_ok_def)
  qed
  define kvs where "kvs = map int_entry (it_slots t)"
  have nf: "nf_ok (it_filter t)" using ok t(3) by (simp add: int_ok_def)
  obtain f where f: "nf_insert (it_filter t) (hk key) = Some f" "nf_ok f" "maybe_contains f (hk key) = Some True"
    "\<And>g. maybe_contains (it_filter t) g = Some True \<Longrightarrow> maybe_contains f g = Some True"
    using nf_insert_spec [OF nf] by blast
  have free: "None \<in> set (map int_entry (it_slots t))" using t(4,7,8) by (intro load_free) auto
  from int_probe [OF t(6) free, of key, folded kvs_def] obtain j where j: "j < length kvs"
    "probe (\<lambda>s. Some (is_val s = empty_val \<or> is_key s = key)) (it_slots t) (slot_of (hk key) (length (it_slots t))) = Some j"
    "case contents kvs key of None \<Rightarrow> kvs ! j = None \<and> reached kvs (int_home hk (length (it_slots t)) key) j
     | Some u \<Rightarrow> kvs ! j = Some (key, u)"
    by blast
  have jk: "j < length (it_slots t)" "kvs ! j = int_entry (it_slots t ! j)" using j(1) by (simp_all add: kvs_def)
  define slots where "slots = (it_slots t)[j := \<lparr>is_key = key, is_val = v\<rparr>]"
  define t' where "t' = t\<lparr>it_filter := f, it_slots := slots, it_len := it_len t + of_bool (contents kvs key = None)\<rparr>"
  have view: "map int_entry slots = kvs[j := Some (key, v)]" and len: "length slots = length (it_slots t)"
    using v by (simp_all add: slots_def kvs_def map_update int_entry_def)
  have ins: "int_insert hk key v t0 = Some t'"
  proof (cases "contents kvs key")
    case None
    then have "is_val (it_slots t ! j) = empty_val" using j(3) jk by (simp add: int_entry_None)
    then show ?thesis using t(1) f(1) j(2) jk(1) None by (simp add: int_insert_def Let_def t'_def slots_def)
  next
    case (Some u)
    then have "it_slots t ! j = \<lparr>is_key = key, is_val = u\<rparr>" "u \<noteq> empty_val" using j(3) jk by (simp_all add: int_entry_Some)
    then show ?thesis using t(1) f(1) j(2) jk(1) Some by (simp add: int_insert_def Let_def t'_def slots_def)
  qed
  note put = placed_put [OF t(6) [folded kvs_def] j(1,3), of v]
  have b: "int_bindings t' = (int_bindings t0)(key \<mapsto> v)"
    using put(2) t(9) unfolding int_bindings_def t'_def by (simp add: view kvs_def)
  have "maybe_contains f (hk k) = Some True" if "int_bindings t' k \<noteq> None" for k
    using that f(3,4) ok t(3) unfolding b by (auto simp: int_ok_def split: if_splits)
  then have "int_ok hk t'"
    using put(1,3) t(4,5,7,8) f(2) by (auto simp: int_ok_def t'_def view len kvs_def)
  then show ?thesis using ins b t(2) by (intro exI [of _ t']) (simp add: t'_def)
qed

lemma capacity_ok: "n \<le> table_limit \<Longrightarrow> 16 \<le> capacity_for n \<and> capacity_for n \<le> max_cap"
  unfolding capacity_for_def table_limit_def max_cap_def usize_max_def by auto

lemma int_with_capacity_ok:
  fixes hk :: "'k::zero \<Rightarrow> u64"
  assumes "n \<le> table_limit"
  shows "int_ok hk (int_with_capacity n) \<and> it_len (int_with_capacity n :: 'k int_table) = 0 \<and>
    int_bindings (int_with_capacity n :: 'k int_table) = Map.empty"
proof -
  have e: "int_entry empty_int_slot = None" by (simp add: int_entry_def empty_int_slot_def)
  have "nf_ok (nf_new n)" using assms by (intro nf_new_ok) (simp add: table_limit_def)
  moreover have "placed (int_home hk (capacity_for n)) (replicate (capacity_for n) None :: ('k \<times> u32) option list)"
    using capacity_ok [OF assms] by (intro placed_empty) (simp add: int_home_def slot_of_less)
  ultimately show ?thesis
    using capacity_ok [OF assms]
    unfolding int_ok_def int_bindings_def int_with_capacity_def by (simp add: e contents_empty occupied_empty)
qed

interpretation int_rows: dictionary "int_insert hk" "int_get hk" "int_ok hk" "\<lambda>v. v \<noteq> empty_val" it_len "\<lambda>_. 1" table_limit int_bindings
  for hk :: "'k::zero \<Rightarrow> u64"
proof
  show "\<exists>t'. int_insert hk k v t = Some t' \<and> int_ok hk t' \<and> it_len t' \<le> it_len t + 1 \<and> int_bindings t' = (int_bindings t)(k \<mapsto> v)"
    if "int_ok hk t" "v \<noteq> empty_val" "it_len t + 1 \<le> table_limit" for t k v
    using int_insert_spec that by fastforce
qed (rule int_get_spec)

end
