(* ===== verification/Strtable.thy ===== *)
theory Strtable
  imports Table
begin

text \<open>
  The string table of \<open>trails/table.rs\<close> is a map: what an insertion, a lookup and a growth do to its
  slots and its arena, and the properties of both tables.
\<close>

section \<open>The string table is a map\<close>

definition str_entry :: "string \<Rightarrow> str_slot \<Rightarrow> (string \<times> u32) option" where
  "str_entry arena s =
     (if sl_val s = empty_val then None else Some (take (unat (sl_len s)) (drop (unat (sl_off s)) arena), sl_val s))"

definition str_bindings :: "str_table \<Rightarrow> string \<Rightarrow> u32 option" where
  "str_bindings t = contents (map (str_entry (st_arena t)) (st_slots t))"

definition str_home :: "nat \<Rightarrow> string \<Rightarrow> nat" where
  "str_home cap k = slot_of (key_hash k) cap"

text \<open>An occupied slot points into the arena and carries the tag of its key.\<close>

definition slot_good :: "string \<Rightarrow> str_slot \<Rightarrow> bool" where
  "slot_good arena s \<longleftrightarrow> sl_val s \<noteq> empty_val \<longrightarrow>
     (\<exists>key. slot_key arena s = Some key \<and> sl_tag s = ucast (drop_bit 32 (key_hash key)))"

definition str_ok :: "str_table \<Rightarrow> bool" where
  "str_ok t \<longleftrightarrow>
     16 \<le> length (st_slots t) \<and> length (st_slots t) \<le> max_cap \<and>
     placed (str_home (length (st_slots t))) (map (str_entry (st_arena t)) (st_slots t)) \<and>
     st_len t = occupied (map (str_entry (st_arena t)) (st_slots t)) \<and> st_len t * 100 \<le> length (st_slots t) * 85 \<and>
     (\<forall>s \<in> set (st_slots t). slot_good (st_arena t) s) \<and>
     nf_ok (st_filter t) \<and>
     (\<forall>k. str_bindings t k \<noteq> None \<longrightarrow> maybe_contains (st_filter t) (key_hash k) = Some True)"

lemma str_entry_None: "str_entry arena s = None \<longleftrightarrow> sl_val s = empty_val"
  by (simp add: str_entry_def)

lemma str_entry_Some:
  "slot_good arena s \<Longrightarrow> str_entry arena s = Some (k, u) \<longleftrightarrow>
     sl_val s = u \<and> u \<noteq> empty_val \<and> slot_key arena s = Some k \<and> sl_tag s = ucast (drop_bit 32 (key_hash k))"
  by (auto simp: str_entry_def slot_good_def slot_key_def b_slice_def split: if_splits)

lemma slot_key_append: "slot_key arena s = Some k \<Longrightarrow> slot_key (arena @ rest) s = Some k"
  by (auto simp: slot_key_def b_slice_Some)

lemma slot_good_append:
  "slot_good arena s \<Longrightarrow> slot_good (arena @ rest) s \<and> str_entry (arena @ rest) s = str_entry arena s"
  by (auto simp: slot_good_def str_entry_def slot_key_def b_slice_Some)

lemma str_grow_spec:
  assumes ok: "str_ok t" and small: "st_len t < table_limit" and full: "(st_len t + 1) * 100 > length (st_slots t) * 85"
  shows "\<exists>slots. str_grow t = Some (t\<lparr>st_slots := slots\<rparr>) \<and> 16 \<le> length slots \<and> length slots \<le> max_cap \<and>
    placed (str_home (length slots)) (map (str_entry (st_arena t)) slots) \<and>
    st_len t = occupied (map (str_entry (st_arena t)) slots) \<and> (st_len t + 1) * 100 \<le> length slots * 85 \<and>
    (\<forall>s \<in> set slots. slot_good (st_arena t) s) \<and>
    contents (map (str_entry (st_arena t)) slots) = str_bindings t"
proof -
  define cap where "cap = max (length (st_slots t) + length (st_slots t) div 2) 16"
  define ent where "ent = str_entry (st_arena t)"
  have n: "16 \<le> length (st_slots t)" "st_len t * 100 \<le> length (st_slots t) * 85" "st_len t = occupied (map ent (st_slots t))"
    and P: "placed (str_home (length (st_slots t))) (map ent (st_slots t))"
    and G: "\<forall>s \<in> set (st_slots t). slot_good (st_arena t) s"
    using ok by (simp_all add: str_ok_def ent_def)
  note cap = grown_cap [OF n(1,2) small full, folded cap_def]
  define home_of where "home_of s = map_option (\<lambda>k. slot_of (key_hash k) cap) (slot_key (st_arena t) s)" for s
  have "\<exists>new. reinsert (\<lambda>s. sl_val s = empty_val) home_of (st_slots t) (replicate cap empty_str_slot) = Some new \<and>
    length new = cap \<and> placed (str_home cap) (map ent new) \<and> contents (map ent new) = contents (map ent (st_slots t)) \<and>
    occupied (map ent new) = occupied (map ent (st_slots t)) \<and> set new \<subseteq> insert empty_str_slot (set (st_slots t))"
  proof (rule reinsert_fresh)
    show "once (map ent (st_slots t))" using P by (simp add: placed_def)
    show "ent empty_str_slot = None" by (simp add: ent_def str_entry_def empty_str_slot_def)
    show "\<forall>k. str_home cap k < cap" using cap by (simp add: str_home_def slot_of_less)
    show "occupied (map ent (st_slots t)) < cap" using cap n(3) by simp
    show "\<forall>s. (sl_val s = empty_val) = (ent s = None)" by (simp add: ent_def str_entry_None)
    show "\<forall>s \<in> set (st_slots t). \<forall>k v. ent s = Some (k, v) \<longrightarrow> home_of s = Some (str_home cap k)"
      using G by (auto simp: ent_def str_entry_Some home_of_def str_home_def)
  qed
  then obtain slots where s: "reinsert (\<lambda>s. sl_val s = empty_val) home_of (st_slots t) (replicate cap empty_str_slot) = Some slots"
    "length slots = cap" "placed (str_home cap) (map ent slots)" "contents (map ent slots) = contents (map ent (st_slots t))"
    "occupied (map ent slots) = occupied (map ent (st_slots t))" "set slots \<subseteq> insert empty_str_slot (set (st_slots t))"
    by blast
  have "str_grow t = Some (t\<lparr>st_slots := slots\<rparr>)"
    using s(1) by (simp add: str_grow_def Let_def cap_def home_of_def [abs_def])
  moreover have "\<forall>s \<in> set slots. slot_good (st_arena t) s"
    using s(6) G by (auto simp: slot_good_def empty_str_slot_def)
  ultimately show ?thesis
    using s cap n(3) unfolding str_bindings_def ent_def by (intro exI [of _ slots]) simp
qed

definition key_tag :: "string \<Rightarrow> u32" where
  "key_tag key = ucast (drop_bit 32 (key_hash key))"

text \<open>The walk an insertion takes, and the one of a lookup, which also compares the length first.\<close>

lemma insert_stop:
  assumes "slot_good arena s"
  shows "(if sl_val s = empty_val then Some True
          else if sl_tag s = key_tag key then map_option (\<lambda>k. k = key) (slot_key arena s) else Some False)
       = Some (str_entry arena s = None \<or> (\<exists>v. str_entry arena s = Some (key, v)))"
  using assms by (auto simp: str_entry_None str_entry_Some slot_good_def key_tag_def)

lemma get_stop:
  assumes "slot_good arena s"
  shows "(if sl_val s = empty_val then Some True
          else if sl_tag s = key_tag key \<and> unat (sl_len s) = length key then map_option (\<lambda>k. k = key) (slot_key arena s) else Some False)
       = Some (str_entry arena s = None \<or> (\<exists>v. str_entry arena s = Some (key, v)))"
proof -
  have "unat (sl_len s) = length key" if "slot_key arena s = Some key"
    using that b_slice_length [of arena _ _ key] by (fastforce simp: slot_key_def)
  then show ?thesis using assms by (auto simp: str_entry_None str_entry_Some slot_good_def key_tag_def)
qed

lemma str_probe:
  assumes P: "placed (str_home (length slots)) (map (str_entry arena) slots)"
    and free: "None \<in> set (map (str_entry arena) slots)" and G: "\<forall>s \<in> set slots. slot_good arena s"
    and stop: "\<And>s. slot_good arena s \<Longrightarrow> stop s = Some (str_entry arena s = None \<or> (\<exists>v. str_entry arena s = Some (key, v)))"
  shows "\<exists>j < length slots. probe stop slots (slot_of (key_hash key) (length slots)) = Some j \<and>
    (case contents (map (str_entry arena) slots) key of
       None \<Rightarrow> map (str_entry arena) slots ! j = None \<and> reached (map (str_entry arena) slots) (str_home (length slots) key) j
     | Some v \<Rightarrow> map (str_entry arena) slots ! j = Some (key, v))"
proof -
  have "\<exists>j < length (map (str_entry arena) slots). probe stop slots (str_home (length slots) key) = Some j \<and>
    (case contents (map (str_entry arena) slots) key of
       None \<Rightarrow> map (str_entry arena) slots ! j = None \<and> reached (map (str_entry arena) slots) (str_home (length slots) key) j
     | Some v \<Rightarrow> map (str_entry arena) slots ! j = Some (key, v))"
  proof (rule first_free_or_key [OF P free])
    fix i assume i: "i < length (map (str_entry arena) slots)"
    then have "slot_good arena (slots ! i)" using G by simp
    then show "stop (slots ! i) = Some (map (str_entry arena) slots ! i = None \<or> (\<exists>v. map (str_entry arena) slots ! i = Some (key, v)))"
      using stop i by simp
  qed simp
  then show ?thesis unfolding length_map str_home_def .
qed

lemma str_get_spec:
  assumes ok: "str_ok t"
  shows "str_get key t = Some (str_bindings t key)"
proof -
  define stop where "stop s = (if sl_val s = empty_val then Some True
          else if sl_tag s = key_tag key \<and> unat (sl_len s) = length key
          then map_option (\<lambda>k. k = key) (slot_key (st_arena t) s) else Some False)" for s
  have P: "placed (str_home (length (st_slots t))) (map (str_entry (st_arena t)) (st_slots t))" and nf: "nf_ok (st_filter t)"
    and hit: "str_bindings t key \<noteq> None \<Longrightarrow> maybe_contains (st_filter t) (key_hash key) = Some True"
    and G: "\<forall>s \<in> set (st_slots t). slot_good (st_arena t) s"
    using ok by (simp_all add: str_ok_def)
  have free: "None \<in> set (map (str_entry (st_arena t)) (st_slots t))"
    using ok by (intro load_free) (auto simp: str_ok_def)
  obtain m where m: "maybe_contains (st_filter t) (key_hash key) = Some m" using maybe_contains_total [OF nf] by blast
  show ?thesis
  proof (cases m)
    case True
    obtain j where j: "j < length (st_slots t)" "probe stop (st_slots t) (slot_of (key_hash key) (length (st_slots t))) = Some j"
      "case str_bindings t key of
         None \<Rightarrow> map (str_entry (st_arena t)) (st_slots t) ! j = None \<and>
           reached (map (str_entry (st_arena t)) (st_slots t)) (str_home (length (st_slots t)) key) j
       | Some v \<Rightarrow> map (str_entry (st_arena t)) (st_slots t) ! j = Some (key, v)"
      using str_probe [OF P free G, of stop key] get_stop unfolding str_bindings_def stop_def by blast
    then have "slot_good (st_arena t) (st_slots t ! j)" using G by simp
    then have "(if sl_val (st_slots t ! j) = empty_val then None else Some (sl_val (st_slots t ! j))) = str_bindings t key"
      using j(1,3) by (cases "str_bindings t key") (auto simp: str_entry_None str_entry_Some)
    then show ?thesis
      using m True j(1) j(2) [unfolded stop_def [abs_def] key_tag_def] by (simp add: str_get_def Let_def)
  next
    case False
    then have "\<not> str_bindings t key \<noteq> None" using hit m by fastforce
    then have "str_bindings t key = None" by simp
    then show ?thesis using False m by (simp add: str_get_def Let_def)
  qed
qed

definition str_used :: "str_table \<Rightarrow> nat" where
  "str_used t = st_len t + length (st_arena t)"

lemma fresh_slot:
  assumes "length arena + length key < 2 ^ 32" and "v \<noteq> empty_val"
  defines "s \<equiv> \<lparr>sl_tag = key_tag key, sl_off = of_nat (length arena), sl_len = of_nat (length key), sl_val = v\<rparr>"
  shows "slot_good (arena @ key) s" "str_entry (arena @ key) s = Some (key, v)"
proof -
  have u: "unat (sl_off s) = length arena" "unat (sl_len s) = length key" "sl_val s = v" "sl_tag s = key_tag key"
    using assms(1) by (simp_all add: s_def unat_of_nat)
  then show "slot_good (arena @ key) s" "str_entry (arena @ key) s = Some (key, v)"
    using assms(2) by (auto simp: slot_good_def str_entry_def slot_key_def b_slice_def key_tag_def)
qed

lemma str_insert_spec:
  assumes ok: "str_ok t0" and v: "v \<noteq> empty_val" and small: "str_used t0 + 1 + length key \<le> table_limit"
  shows "\<exists>t'. str_insert key v t0 = Some (str_bindings t0 key = None, t') \<and> str_ok t' \<and>
    str_used t' \<le> str_used t0 + 1 + length key \<and> str_bindings t' = (str_bindings t0)(key \<mapsto> v)"
proof -
  define arena where "arena = st_arena t0"
  obtain slots where g: "(if (st_len t0 + 1) * 100 > length (st_slots t0) * 85 then str_grow t0 else Some t0) = Some (t0\<lparr>st_slots := slots\<rparr>)"
    and sz: "16 \<le> length slots" "length slots \<le> max_cap" "st_len t0 = occupied (map (str_entry arena) slots)"
      "(st_len t0 + 1) * 100 \<le> length slots * 85"
    and P: "placed (str_home (length slots)) (map (str_entry arena) slots)" and G: "\<forall>s \<in> set slots. slot_good arena s"
    and b: "contents (map (str_entry arena) slots) = str_bindings t0"
  proof (cases "(st_len t0 + 1) * 100 > length (st_slots t0) * 85")
    case True
    have "st_len t0 < table_limit" using small by (simp add: str_used_def)
    from str_grow_spec [OF ok this True] True that show thesis unfolding arena_def by auto
  next
    case False
    then show thesis using ok that [of "st_slots t0"] by (simp add: str_ok_def arena_def str_bindings_def)
  qed
  define kvs where "kvs = map (str_entry arena) slots"
  define stop where "stop s = (if sl_val s = empty_val then Some True
          else if sl_tag s = key_tag key then map_option (\<lambda>k. k = key) (slot_key arena s) else Some False)" for s
  have nf: "nf_ok (st_filter t0)" using ok by (simp add: str_ok_def)
  obtain f where f: "nf_insert (st_filter t0) (key_hash key) = Some f" "nf_ok f" "maybe_contains f (key_hash key) = Some True"
    "\<And>g. maybe_contains (st_filter t0) g = Some True \<Longrightarrow> maybe_contains f g = Some True"
    using nf_insert_spec [OF nf] by blast
  have free: "None \<in> set (map (str_entry arena) slots)" using sz by (intro load_free) auto
  obtain j where j: "j < length slots" "probe stop slots (slot_of (key_hash key) (length slots)) = Some j"
    and c: "case contents kvs key of None \<Rightarrow> kvs ! j = None \<and> reached kvs (str_home (length slots) key) j
     | Some u \<Rightarrow> kvs ! j = Some (key, u)"
    using str_probe [OF P free G, of stop key] insert_stop unfolding kvs_def stop_def by blast
  have jk: "j < length kvs" "kvs ! j = str_entry arena (slots ! j)" and gj: "slot_good arena (slots ! j)"
    using j(1) G by (simp_all add: kvs_def)
  note put = placed_put [OF P [folded kvs_def] jk(1) c, of v]
  define new where "new = (contents kvs key = None)"
  define arena' where "arena' = (if new then arena @ key else arena)"
  define s' where "s' = (if new then \<lparr>sl_tag = key_tag key, sl_off = of_nat (length arena), sl_len = of_nat (length key), sl_val = v\<rparr>
    else (slots ! j)\<lparr>sl_val := v\<rparr>)"
  have fits: "length arena + length key < 2 ^ 32" using small by (simp add: str_used_def arena_def table_limit_def)
  have keep: "slot_good arena' s \<and> str_entry arena' s = str_entry arena s" if "s \<in> set slots" for s
    using G that slot_good_append by (simp add: arena'_def)
  have s': "slot_good arena' s'" "str_entry arena' s' = Some (key, v)"
  proof -
    have "slot_good arena' s' \<and> str_entry arena' s' = Some (key, v)"
    proof (cases "contents kvs key")
      case None
      then show ?thesis using fresh_slot [OF fits v] by (simp add: new_def arena'_def s'_def)
    next
      case (Some u)
      then have e: "slot_key arena (slots ! j) = Some key" "sl_tag (slots ! j) = ucast (drop_bit 32 (key_hash key))"
        using c jk str_entry_Some [OF gj] by simp_all
      define w where "w = (slots ! j)\<lparr>sl_val := v\<rparr>"
      have k: "slot_key arena w = Some key" using e(1) by (simp add: slot_key_def w_def)
      have g: "slot_good arena w" using e(2) k by (simp add: slot_good_def) (simp add: w_def)
      moreover have "str_entry arena w = Some (key, v)"
        using str_entry_Some [OF g, of key v] e(2) k v by (simp add: w_def)
      ultimately show ?thesis using Some by (simp add: new_def arena'_def s'_def w_def)
    qed
    then show "slot_good arena' s'" "str_entry arena' s' = Some (key, v)" by simp_all
  qed
  have view: "map (str_entry arena') (slots[j := s']) = kvs[j := Some (key, v)]"
    using keep s' by (simp add: kvs_def map_update cong: map_cong)
  define t' where "t' = t0\<lparr>st_slots := slots[j := s'], st_filter := f, st_arena := arena', st_len := st_len t0 + of_bool new\<rparr>"
  have new': "new \<longleftrightarrow> str_bindings t0 key = None" by (simp add: new_def kvs_def b)
  have ins: "str_insert key v t0 = Some (str_bindings t0 key = None, t')"
  proof (cases "contents kvs key")
    case None
    then have "sl_val (slots ! j) = empty_val" using c jk by (simp add: str_entry_None)
    then show ?thesis
      using g f(1) j(1) j(2) [unfolded stop_def [abs_def] key_tag_def] None new'
      unfolding str_insert_def str_insert_hashed_def by (simp add: t'_def new_def s'_def arena'_def arena_def key_tag_def cong: if_cong)
  next
    case (Some u)
    then have "sl_val (slots ! j) \<noteq> empty_val" using c jk str_entry_Some [OF gj] by simp
    then show ?thesis
      using g f(1) j(1) j(2) [unfolded stop_def [abs_def] key_tag_def] Some new'
      unfolding str_insert_def str_insert_hashed_def by (simp add: t'_def new_def s'_def arena'_def arena_def cong: if_cong)
  qed
  have bt: "str_bindings t' = (str_bindings t0)(key \<mapsto> v)"
    using put(2) b unfolding str_bindings_def t'_def by (simp add: view kvs_def)
  have "maybe_contains f (key_hash k) = Some True" if "str_bindings t' k \<noteq> None" for k
    using that f(3,4) ok unfolding bt by (auto simp: str_ok_def split: if_splits)
  moreover have "\<forall>s \<in> set (slots[j := s']). slot_good arena' s"
    using keep s'(1) set_update_subset_insert [of slots j s'] by blast
  moreover have "st_len t' = occupied (kvs[j := Some (key, v)])" using put(3) sz(3) by (simp add: t'_def kvs_def new_def)
  moreover have "st_len t' * 100 \<le> length slots * 85" using sz(4) by (cases new) (simp_all add: t'_def)
  moreover have "st_arena t' = arena'" "st_slots t' = slots[j := s']" "st_filter t' = f" by (simp_all add: t'_def)
  ultimately have "str_ok t'" using put(1) sz(1,2) f(2) unfolding str_ok_def by (simp add: view)
  moreover have "str_used t' \<le> str_used t0 + 1 + length key"
    by (simp add: str_used_def t'_def arena'_def arena_def)
  ultimately show ?thesis using ins bt by blast
qed

lemma str_with_capacity_ok:
  assumes "n \<le> table_limit"
  shows "str_ok (str_with_capacity n) \<and> str_used (str_with_capacity n) = 0 \<and> str_bindings (str_with_capacity n) = Map.empty"
proof -
  have e: "str_entry [] empty_str_slot = None" by (simp add: str_entry_def empty_str_slot_def)
  have g: "slot_good [] empty_str_slot" by (simp add: slot_good_def empty_str_slot_def)
  have "nf_ok (nf_new n)" using assms by (intro nf_new_ok) (simp add: table_limit_def)
  moreover have "placed (str_home (capacity_for n)) (replicate (capacity_for n) None :: (string \<times> u32) option list)"
    using capacity_ok [OF assms] by (intro placed_empty) (simp add: str_home_def slot_of_less)
  ultimately show ?thesis
    using capacity_ok [OF assms] g
    unfolding str_ok_def str_bindings_def str_with_capacity_def str_used_def by (simp add: e contents_empty occupied_empty)
qed

definition str_put :: "string \<Rightarrow> u32 \<Rightarrow> str_table \<Rightarrow> str_table option" where
  "str_put key v t = map_option snd (str_insert key v t)"

interpretation str_rows: dictionary str_put str_get str_ok "\<lambda>v. v \<noteq> empty_val" str_used "\<lambda>k. 1 + length k" table_limit str_bindings
proof
  show "\<exists>t'. str_put k v t = Some t' \<and> str_ok t' \<and> str_used t' \<le> str_used t + (1 + length k) \<and>
      str_bindings t' = (str_bindings t)(k \<mapsto> v)"
    if "str_ok t" "v \<noteq> empty_val" "str_used t + (1 + length k) \<le> table_limit" for t k v
    using str_insert_spec [OF that(1,2), of k] that(3) by (auto simp: str_put_def)
qed (rule str_get_spec)

section \<open>What the tables promise\<close>

text \<open>C21: a string table filled with any rows whose values are not the reserved one, within half of
  the 32-bit offsets, never panics or probes for ever, and a lookup then answers what a map updated
  in the same order holds: the value of the last row with that key, nothing for a key of no row.\<close>

theorem string_table_is_a_map:
  assumes "n \<le> table_limit" and "list_all (\<lambda>r. snd r \<noteq> empty_val) rows"
    and "(\<Sum>r\<leftarrow>rows. 1 + length (fst r)) \<le> table_limit"
  shows "\<exists>t. put_all str_put rows (str_with_capacity n) = Some t \<and> (\<forall>k. str_get k t = Some (map_of (rev rows) k))"
  using assms str_with_capacity_ok [OF assms(1)]
  by (intro str_rows.look_after_put_all) (auto simp: list_all_iff)

theorem string_table_is_a_map_witness:
  "\<exists>t. put_all str_put [(''a'', 1), (''b'', 2), (''a'', 3)] (str_with_capacity 0) = Some t \<and>
     (\<forall>k. str_get k t = Some (map_of [(''a'', 3), (''b'', 2), (''a'', 1)] k))"
  using string_table_is_a_map [of 0 "[(''a'', 1), (''b'', 2), (''a'', 3)]"]
  by (simp add: empty_val_def table_limit_def)

text \<open>An insertion reports the key as new exactly when a lookup before it found nothing, and a
  lookup after it finds the inserted value and leaves every other key as it was.\<close>

theorem insertion_reports_new_keys:
  assumes "n \<le> table_limit" and "list_all (\<lambda>r. snd r \<noteq> empty_val) rows"
    and "(\<Sum>r\<leftarrow>rows. 1 + length (fst r)) + 1 + length key \<le> table_limit" and "v \<noteq> empty_val"
    and "put_all str_put rows (str_with_capacity n) = Some t"
  shows "\<exists>t'. str_insert key v t = Some (str_contains key t = Some False, t') \<and>
    (\<forall>k. str_get k t' = (if k = key then Some (Some v) else str_get k t))"
proof -
  have e: "str_ok (str_with_capacity n)" "str_used (str_with_capacity n) = 0" using str_with_capacity_ok [OF assms(1)] by simp_all
  have t: "str_ok t" "str_used t \<le> (\<Sum>r\<leftarrow>rows. 1 + length (fst r))"
  proof -
    have "\<exists>t'. put_all str_put rows (str_with_capacity n) = Some t' \<and> str_ok t' \<and>
      str_used t' \<le> str_used (str_with_capacity n) + (\<Sum>r\<leftarrow>rows. 1 + length (fst r)) \<and>
      str_bindings t' = str_bindings (str_with_capacity n) ++ map_of (rev rows)"
      using assms(2,3) e(2) by (intro str_rows.put_all_spec [OF e(1)]) (auto simp: list_all_iff)
    then show "str_ok t" "str_used t \<le> (\<Sum>r\<leftarrow>rows. 1 + length (fst r))" using assms(5) e(2) by auto
  qed
  then obtain t' where t': "str_insert key v t = Some (str_bindings t key = None, t')" "str_ok t'"
    "str_bindings t' = (str_bindings t)(key \<mapsto> v)"
    using str_insert_spec [OF t(1) assms(4), of key] assms(3) by auto
  then show ?thesis using str_get_spec [OF t(1)] str_get_spec [OF t'(2)] by (auto simp: str_contains_def)
qed

theorem insertion_reports_new_keys_witness:
  "\<exists>t t'. put_all str_put [(''a'', 1)] (str_with_capacity 0) = Some t \<and>
     str_insert ''b'' 7 t = Some (str_contains ''b'' t = Some False, t')"
proof -
  have "\<exists>t. put_all str_put [(''a'', 1)] (str_with_capacity 0) = Some t"
    using str_rows.put_all_spec [of "str_with_capacity 0" "[(''a'', 1)]"] str_with_capacity_ok [of 0]
    by (auto simp: empty_val_def table_limit_def)
  then obtain t where t: "put_all str_put [(''a'', 1)] (str_with_capacity 0) = Some t" by blast
  show ?thesis
    using insertion_reports_new_keys [of 0 "[(''a'', 1)]" "''b''" 7 t] t by (auto simp: empty_val_def table_limit_def)
qed

text \<open>The same of an integer table, whatever the hash of its keys.\<close>

theorem integer_table_is_a_map:
  fixes hash_key :: "'k::zero \<Rightarrow> u64"
  assumes "n \<le> table_limit" and "list_all (\<lambda>r. snd r \<noteq> empty_val) rows" and "length rows \<le> table_limit"
  shows "\<exists>t. put_all (int_insert hash_key) rows (int_with_capacity n) = Some t \<and>
    (\<forall>k. int_get hash_key k t = Some (map_of (rev rows) k))"
proof -
  have e: "int_ok hash_key (int_with_capacity n)" "it_len (int_with_capacity n :: 'k int_table) = 0"
    "int_bindings (int_with_capacity n :: 'k int_table) = Map.empty"
    using int_with_capacity_ok [OF assms(1), of hash_key] by simp_all
  show ?thesis
    using assms(2,3) e(2) by (intro int_rows.look_after_put_all [OF e(1) _ _ e(3)]) (auto simp: list_all_iff sum_list_triv)
qed

theorem integer_table_is_a_map_witness:
  "(\<exists>t. put_all (int_insert hash_u32) [(0x7f000001, 1), (0x08080808, 2)] (int_with_capacity 2) = Some t \<and>
      (\<forall>k. int_get hash_u32 k t = Some (map_of [(0x08080808, 2), (0x7f000001, 1)] k))) \<and>
   (\<exists>t. put_all (int_insert hash_u128) [(1, 5)] (int_with_capacity 2) = Some t \<and>
      (\<forall>k. int_get hash_u128 k t = Some (map_of [(1, 5)] k)))"
  using integer_table_is_a_map [of 2 "[(0x7f000001, 1), (0x08080808, 2)]" hash_u32]
    integer_table_is_a_map [of 2 "[(1, 5)]" hash_u128]
  by (simp add: empty_val_def table_limit_def)

end
