(* ===== verification/Whitelist.thy ===== *)
theory Whitelist
  imports Table Names
begin

text \<open>
  \<open>whitelist.rs\<close>: the whitelist read from its files, the text and the native check of a trail, and the
  walk from a queried name up its parent domains. The entries are a list without repetition, in the
  order of their insertion (a hash set in the source; nothing depends on its order). \<open>None\<close> is a read
  outside the prefilter.
\<close>

section \<open>Reading the files\<close>

text \<open>\<open>str::lines\<close>, and \<open>iter_file_lines\<close> of \<open>settings.rs\<close> on a file's text.\<close>

definition chop_cr :: "string \<Rightarrow> string" where
  "chop_cr l = (if l \<noteq> [] \<and> last l = char_of (13 :: nat) then butlast l else l)"

definition str_lines :: "string \<Rightarrow> string list" where
  "str_lines text =
     (let ls = split_on (char_of (10 :: nat)) text
      in map chop_cr (if last ls = [] then butlast ls else ls))"

definition iter_file_lines :: "string \<Rightarrow> string list" where
  "iter_file_lines text = filter (\<lambda>l. l \<noteq> [] \<and> \<not> starts_with l ''#'') (map trim (str_lines text))"

record whitelist =
  wl_exact :: "string list"
  wl_exact_filter :: "u64 list"
  wl_ranges :: "(u32 \<times> u32) list"
  wl_ip4 :: "u32 set"
  wl_ip6 :: "u128 set"

definition wl_default :: whitelist where
  "wl_default = \<lparr>wl_exact = [], wl_exact_filter = [], wl_ranges = [], wl_ip4 = {}, wl_ip6 = {}\<rparr>"

definition is_dotted_quad :: "string \<Rightarrow> bool" where
  "is_dotted_quad s \<longleftrightarrow>
     (let parts = split_on (CHR ''.'') s
      in list_all (\<lambda>p. p \<noteq> [] \<and> length p \<le> 3 \<and> list_all is_digit p) parts \<and> length parts = 4)"

definition parse_u32 :: "string \<Rightarrow> u32 option" where
  "parse_u32 s = (if parse_dec s < 2 ^ 32 then Some (of_nat (parse_dec s)) else None)"

definition parse_cidr4 :: "string \<Rightarrow> (u32 \<times> u32) option" where
  "parse_cidr4 line = do {
     (addr, msk) \<leftarrow> split_once line ''/'';
     if \<not> is_dotted_quad addr \<or> msk = [] \<or> \<not> list_all is_digit msk then None
     else do {
       bits \<leftarrow> parse_u32 msk;
       if bits > 32 then None else do { a \<leftarrow> addr_to_int addr; Some (a, bits) }
     }
   }"

definition wl_add :: "string \<Rightarrow> whitelist \<Rightarrow> whitelist" where
  "wl_add line0 wl =
     (let line = canonical_ip_text line0
      in case parse_cidr4 line of
           Some (net, bits) \<Rightarrow> (let m = make_mask bits in wl\<lparr>wl_ranges := wl_ranges wl @ [(net AND m, m)]\<rparr>)
         | None \<Rightarrow>
             (let wl = (case parse_canonical_ip line of
                          Some (V4 v) \<Rightarrow> wl\<lparr>wl_ip4 := insert v (wl_ip4 wl)\<rparr>
                        | Some (V6 v) \<Rightarrow> wl\<lparr>wl_ip6 := insert v (wl_ip6 wl)\<rparr>
                        | None \<Rightarrow> wl)
              in wl\<lparr>wl_exact := List.insert line (wl_exact wl)\<rparr>))"

text \<open>The two bits of an entry, as in the trail tables.\<close>

definition set_entry_bits :: "nat \<Rightarrow> string \<Rightarrow> u64 list \<Rightarrow> u64 list option" where
  "set_entry_bits bits entry filt = do {
     let (a, b) = positions (of_nat (bits - 1)) (hash_bytes (str_bytes entry));
     filt \<leftarrow> set_bit_at filt a;
     set_bit_at filt b
   }"

fun set_all_bits :: "nat \<Rightarrow> string list \<Rightarrow> u64 list \<Rightarrow> u64 list option" where
  "set_all_bits bits [] filt = Some filt"
| "set_all_bits bits (e # es) filt = do { filt \<leftarrow> set_entry_bits bits e filt; set_all_bits bits es filt }"

definition build_exact_filter :: "whitelist \<Rightarrow> whitelist option" where
  "build_exact_filter wl =
     (let bits = filter_bits (length (wl_exact wl))
      in map_option (\<lambda>filt. wl\<lparr>wl_exact_filter := filt\<rparr>)
           (set_all_bits bits (wl_exact wl) (replicate (bits div 64) 0)))"

definition wl_load :: "string list \<Rightarrow> whitelist option" where
  "wl_load texts = build_exact_filter (fold wl_add (concat (map iter_file_lines texts)) wl_default)"

section \<open>The checks\<close>

definition exact_entry :: "whitelist \<Rightarrow> string \<Rightarrow> string option option" where
  "exact_entry wl candidate =
     (let stored = (if candidate \<in> set (wl_exact wl) then Some candidate else None)
      in if wl_exact_filter wl = [] then Some stored
         else do {
           let (a, b) = positions (of_nat (length (wl_exact_filter wl) * 64 - 1)) (hash_bytes (str_bytes candidate));
           x \<leftarrow> test_bit_at (wl_exact_filter wl) a;
           if \<not> x then Some None
           else do {
             y \<leftarrow> test_bit_at (wl_exact_filter wl) b;
             if \<not> y then Some None else Some stored
           }
         })"

definition contains_exact :: "whitelist \<Rightarrow> string \<Rightarrow> bool option" where
  "contains_exact wl candidate = map_option (\<lambda>r. r \<noteq> None) (exact_entry wl candidate)"

definition match_ranges :: "whitelist \<Rightarrow> u32 \<Rightarrow> bool" where
  "match_ranges wl v = list_ex (\<lambda>(net, m). v AND m = net) (wl_ranges wl)"

definition check_whitelisted :: "whitelist \<Rightarrow> string \<Rightarrow> bool option" where
  "check_whitelisted wl trail = do {
     hit \<leftarrow> contains_exact wl trail;
     if hit then Some True
     else if is_dotted_quad trail
     then Some (case addr_to_int trail of Some v \<Rightarrow> match_ranges wl v | None \<Rightarrow> False)
     else Some False
   }"

fun check_whitelisted_ip :: "whitelist \<Rightarrow> ip \<Rightarrow> bool" where
  "check_whitelisted_ip wl (V4 v) \<longleftrightarrow> v \<in> wl_ip4 wl \<or> match_ranges wl v"
| "check_whitelisted_ip wl (V6 v) \<longleftrightarrow> v \<in> wl_ip6 wl"

text \<open>The loop over the dots of the name, on a test that may panic.\<close>

fun first_parent :: "(string \<Rightarrow> string option option) \<Rightarrow> string \<Rightarrow> nat list \<Rightarrow> string option option" where
  "first_parent entry name [] = Some None"
| "first_parent entry name (i # is) = do {
     r \<leftarrow> entry (drop (i + 1) name);
     (case r of Some e \<Rightarrow> Some (Some e) | None \<Rightarrow> first_parent entry name is)
   }"

definition check_domain_member_entry :: "whitelist \<Rightarrow> string \<Rightarrow> string option option" where
  "check_domain_member_entry wl query = do {
     let lowered = map to_lower query;
     r \<leftarrow> exact_entry wl lowered;
     (case r of Some e \<Rightarrow> Some (Some e) | None \<Rightarrow> first_parent (exact_entry wl) lowered (dots lowered))
   }"

definition check_domain_member_depth :: "whitelist \<Rightarrow> string \<Rightarrow> u32 option" where
  "check_domain_member_depth wl query = do {
     r \<leftarrow> check_domain_member_entry wl query;
     Some (case r of Some entry \<Rightarrow> of_nat (count_list entry (CHR ''.'') + 1) | None \<Rightarrow> 0)
   }"

definition check_domain_member :: "whitelist \<Rightarrow> string \<Rightarrow> bool option" where
  "check_domain_member wl query = map_option (\<lambda>d. d > 0) (check_domain_member_depth wl query)"

text \<open>The free function of the same name, over any collection.\<close>

definition domain_member_of :: "string \<Rightarrow> (string \<Rightarrow> bool) \<Rightarrow> bool" where
  "domain_member_of query contains =
     (let q = map to_lower query
      in if contains q then True else list_ex (\<lambda>i. contains (drop (i + 1) q)) (dots q))"

definition whitelist_domain_token :: "string \<Rightarrow> string" where
  "whitelist_domain_token query =
     takeWhile (\<lambda>c. is_alnum c \<or> c = CHR ''.'' \<or> c = CHR ''_'' \<or> c = CHR ''-'') query"

section \<open>The prefilter hides nothing\<close>

definition filter_of :: "u64 list \<Rightarrow> negative_filter" where
  "filter_of filt = \<lparr>nf_bits = filt, nf_mask = of_nat (length filt * 64 - 1)\<rparr>"

definition wl_ok :: "whitelist \<Rightarrow> bool" where
  "wl_ok wl \<longleftrightarrow> nf_ok (filter_of (wl_exact_filter wl)) \<and>
     (\<forall>e \<in> set (wl_exact wl). maybe_contains (filter_of (wl_exact_filter wl)) (hash_bytes (str_bytes e)) = Some True)"

lemma set_entry_bits_nf:
  "set_entry_bits bits e filt =
     map_option nf_bits (nf_insert \<lparr>nf_bits = filt, nf_mask = of_nat (bits - 1)\<rparr> (hash_bytes (str_bytes e)))"
  by (simp add: set_entry_bits_def nf_insert_def positions_def map_option_case split: option.splits Option.bind_split)

lemma set_all_bits_spec:
  "nf_ok \<lparr>nf_bits = filt, nf_mask = of_nat (bits - 1)\<rparr> \<Longrightarrow>
   \<exists>filt'. set_all_bits bits es filt = Some filt' \<and> nf_ok \<lparr>nf_bits = filt', nf_mask = of_nat (bits - 1)\<rparr> \<and>
     length filt' = length filt \<and>
     (\<forall>h. maybe_contains \<lparr>nf_bits = filt, nf_mask = of_nat (bits - 1)\<rparr> h = Some True \<longrightarrow>
          maybe_contains \<lparr>nf_bits = filt', nf_mask = of_nat (bits - 1)\<rparr> h = Some True) \<and>
     (\<forall>e \<in> set es. maybe_contains \<lparr>nf_bits = filt', nf_mask = of_nat (bits - 1)\<rparr> (hash_bytes (str_bytes e)) = Some True)"
proof (induction es arbitrary: filt)
  case (Cons e es)
  obtain f where f: "nf_insert \<lparr>nf_bits = filt, nf_mask = of_nat (bits - 1)\<rparr> (hash_bytes (str_bytes e)) = Some f"
    "nf_ok f" "nf_mask f = of_nat (bits - 1)" "maybe_contains f (hash_bytes (str_bytes e)) = Some True"
    "\<And>h. maybe_contains \<lparr>nf_bits = filt, nf_mask = of_nat (bits - 1)\<rparr> h = Some True \<Longrightarrow> maybe_contains f h = Some True"
    using nf_insert_spec [OF Cons.prems, of "hash_bytes (str_bytes e)"] by auto
  have fe: "f = \<lparr>nf_bits = nf_bits f, nf_mask = of_nat (bits - 1)\<rparr>" using f(3) by simp
  have "nf_ok \<lparr>nf_bits = nf_bits f, nf_mask = of_nat (bits - 1)\<rparr>" using f(2) fe by simp
  from Cons.IH [OF this] obtain g where g: "set_all_bits bits es (nf_bits f) = Some g"
    "nf_ok \<lparr>nf_bits = g, nf_mask = of_nat (bits - 1)\<rparr>" "length g = length (nf_bits f)"
    "\<And>h. maybe_contains f h = Some True \<Longrightarrow> maybe_contains \<lparr>nf_bits = g, nf_mask = of_nat (bits - 1)\<rparr> h = Some True"
    "\<And>e. e \<in> set es \<Longrightarrow> maybe_contains \<lparr>nf_bits = g, nf_mask = of_nat (bits - 1)\<rparr> (hash_bytes (str_bytes e)) = Some True"
    using fe by auto
  have "length (nf_bits f) = length filt"
    using f(2,3) Cons.prems by (simp add: nf_ok_def covers_def)
  moreover have "set_all_bits bits (e # es) filt = Some g" using f(1) g(1) by (simp add: set_entry_bits_nf)
  ultimately show ?case using g f(4,5) by (intro exI [of _ g]) auto
qed simp

lemma exact_entry_spec:
  assumes "wl_ok wl"
  shows "exact_entry wl c = Some (if c \<in> set (wl_exact wl) then Some c else None)"
proof -
  let ?f = "filter_of (wl_exact_filter wl)"
  have "nf_ok ?f" using assms by (simp add: wl_ok_def)
  then obtain r where r: "maybe_contains ?f (hash_bytes (str_bytes c)) = Some r"
    using maybe_contains_total by blast
  have "c \<in> set (wl_exact wl) \<Longrightarrow> r" using assms r by (auto simp: wl_ok_def)
  then show ?thesis
    using r by (auto simp: exact_entry_def maybe_contains_def filter_of_def positions_def Let_def
        split: Option.bind_split_asm if_splits)
qed

section \<open>A loaded whitelist\<close>

definition wl_lines :: "string list \<Rightarrow> string list" where
  "wl_lines texts = concat (map iter_file_lines texts)"

text \<open>What the lines mean: the verbatim entries and the ranges.\<close>

definition entry_lines :: "string list \<Rightarrow> string set" where
  "entry_lines ls = {e. \<exists>l \<in> set ls. e = canonical_ip_text l \<and> parse_cidr4 e = None}"

definition range_lines :: "string list \<Rightarrow> (u32 \<times> u32) list" where
  "range_lines ls = List.map_filter (\<lambda>l. parse_cidr4 (canonical_ip_text l)) ls"

definition in_range :: "(u32 \<times> u32) list \<Rightarrow> u32 \<Rightarrow> bool" where
  "in_range rs v \<longleftrightarrow> (\<exists>(net, bits) \<in> set rs. v AND make_mask bits = net AND make_mask bits)"

lemma raw_whitelist:
  defines "raw ls \<equiv> fold wl_add ls wl_default"
  shows "set (wl_exact (raw ls)) = entry_lines ls \<and> length (wl_exact (raw ls)) \<le> length ls \<and>
    wl_ranges (raw ls) = map (\<lambda>(net, bits). (net AND make_mask bits, make_mask bits)) (range_lines ls) \<and>
    wl_ip4 (raw ls) = {v. \<exists>e \<in> entry_lines ls. parse_canonical_ip e = Some (V4 v)} \<and>
    wl_ip6 (raw ls) = {v. \<exists>e \<in> entry_lines ls. parse_canonical_ip e = Some (V6 v)}"
proof (induction ls rule: rev_induct)
  case Nil
  then show ?case by (simp add: raw_def wl_default_def entry_lines_def range_lines_def List.map_filter_simps)
next
  case (snoc l ls)
  have step: "raw (ls @ [l]) = wl_add l (raw ls)" by (simp add: raw_def)
  show ?case
  proof (cases "parse_cidr4 (canonical_ip_text l)")
    case (Some p)
    obtain net bits where p: "p = (net, bits)" by (cases p)
    have "entry_lines (ls @ [l]) = entry_lines ls" "range_lines (ls @ [l]) = range_lines ls @ [p]"
      using Some by (auto simp: entry_lines_def range_lines_def List.map_filter_def)
    then show ?thesis using snoc.IH Some p unfolding step by (simp add: wl_add_def Let_def)
  next
    case None
    have "entry_lines (ls @ [l]) = insert (canonical_ip_text l) (entry_lines ls)" "range_lines (ls @ [l]) = range_lines ls"
      using None by (auto simp: entry_lines_def range_lines_def List.map_filter_def)
    then show ?thesis using snoc.IH None unfolding step
      by (auto simp: wl_add_def Let_def List.insert_def split: option.splits ip.splits)
  qed
qed

lemma wl_load_spec:
  assumes "length (wl_lines texts) < 2 ^ 58"
  shows "\<exists>wl. wl_load texts = Some wl \<and> wl_ok wl \<and> set (wl_exact wl) = entry_lines (wl_lines texts) \<and>
    (\<forall>v. match_ranges wl v \<longleftrightarrow> in_range (range_lines (wl_lines texts)) v) \<and>
    wl_ip4 wl = {v. \<exists>e \<in> entry_lines (wl_lines texts). parse_canonical_ip e = Some (V4 v)} \<and>
    wl_ip6 wl = {v. \<exists>e \<in> entry_lines (wl_lines texts). parse_canonical_ip e = Some (V6 v)}"
proof -
  define raw where "raw = fold wl_add (wl_lines texts) wl_default"
  note R = raw_whitelist [of "wl_lines texts", folded raw_def]
  define bits where "bits = filter_bits (length (wl_exact raw))"
  have "length (wl_exact raw) < 2 ^ 58" using R assms by linarith
  then have "nf_ok \<lparr>nf_bits = replicate (bits div 64) 0, nf_mask = of_nat (bits - 1)\<rparr>"
    using nf_new_ok [of "length (wl_exact raw)"] by (simp add: nf_new_def Let_def bits_def)
  note ok = this
  obtain filt where f: "set_all_bits bits (wl_exact raw) (replicate (bits div 64) 0) = Some filt"
    "nf_ok \<lparr>nf_bits = filt, nf_mask = of_nat (bits - 1)\<rparr>" "length filt = bits div 64"
    "\<And>e. e \<in> set (wl_exact raw) \<Longrightarrow> maybe_contains \<lparr>nf_bits = filt, nf_mask = of_nat (bits - 1)\<rparr> (hash_bytes (str_bytes e)) = Some True"
    using set_all_bits_spec [OF ok, of "wl_exact raw"] by auto
  have "unat (of_nat (bits - 1) :: u64) = length filt * 64 - 1" using f(2) by (simp add: nf_ok_def covers_def)
  then have m: "(of_nat (length filt * 64 - 1) :: u64) = of_nat (bits - 1)" by (metis of_nat_unat ucast_id)
  define wl where "wl = raw\<lparr>wl_exact_filter := filt\<rparr>"
  have "wl_load texts = Some wl"
    using f(1) by (simp add: wl_load_def build_exact_filter_def wl_def raw_def wl_lines_def bits_def)
  moreover have "wl_ok wl" using f(2,4) m by (simp add: wl_ok_def wl_def filter_of_def)
  moreover have "match_ranges wl v \<longleftrightarrow> in_range (range_lines (wl_lines texts)) v" for v
    using R by (simp add: wl_def match_ranges_def in_range_def list_ex_iff case_prod_unfold)
  ultimately show ?thesis using R by (intro exI [of _ wl]) (simp add: wl_def)
qed

section \<open>The walk up the parent domains\<close>

fun tails :: "'a list \<Rightarrow> 'a list list" where
  "tails [] = []"
| "tails (x # xs) = (x # xs) # tails xs"

text \<open>The labels of a name, lower-cased, and the most specific entry at or above it.\<close>

definition labels :: "string \<Rightarrow> string list" where
  "labels q = split_on (CHR ''.'') (map to_lower q)"

definition closest :: "string set \<Rightarrow> string \<Rightarrow> string list option" where
  "closest E q = find (\<lambda>ls. join ''.'' ls \<in> E) (tails (labels q))"

lemma join_split: "join ''.'' (split_on (CHR ''.'') s) = s"
proof (induction s)
  case (Cons c s)
  obtain y ys where y: "split_on (CHR ''.'') s = y # ys" by (cases "split_on (CHR ''.'') s") auto
  then show ?case using Cons by (cases ys) auto
qed simp

lemma split_no_dot: "l \<in> set (split_on c s) \<Longrightarrow> c \<notin> set l"
proof (induction s arbitrary: l)
  case (Cons a s)
  obtain y ys where y: "split_on c s = y # ys" by (cases "split_on c s") auto
  then show ?case using Cons by (auto split: if_splits)
qed simp

lemma dots_Cons: "dots (c # s) = (if c = CHR ''.'' then [0] else []) @ map Suc (dots s)"
proof -
  have "[0..<length (c # s)] = 0 # map Suc [0..<length s]" by (simp add: upt_conv_Cons map_Suc_upt del: upt_Suc)
  then show ?thesis unfolding dots_def by (simp add: filter_map o_def)
qed

lemma dots_tails: "s # map (\<lambda>i. drop (i + 1) s) (dots s) = map (join ''.'') (tails (split_on (CHR ''.'') s))"
proof (induction s)
  case Nil
  then show ?case by (simp add: dots_def)
next
  case (Cons c s)
  obtain y ys where y: "split_on (CHR ''.'') s = y # ys" by (cases "split_on (CHR ''.'') s") auto
  have ds: "map (\<lambda>i. drop (i + 1) (c # s)) (map Suc (dots s)) = map (\<lambda>i. drop (i + 1) s) (dots s)" by simp
  have hd: "join ''.'' (split_on (CHR ''.'') (c # s)) = c # s" by (rule join_split)
  show ?case
  proof (cases "c = CHR ''.''")
    case True
    then show ?thesis using Cons hd ds by (simp add: dots_Cons o_def)
  next
    case False
    have "s # map (\<lambda>i. drop (i + 1) s) (dots s) = map (join ''.'') (tails (y # ys))" using Cons unfolding y .
    from this [unfolded tails.simps list.map list.inject]
    have "map (\<lambda>i. drop (i + 1) s) (dots s) = map (join ''.'') (tails ys)" by (rule conjunct2)
    then show ?thesis using False hd ds unfolding dots_Cons y by (simp add: y o_def)
  qed
qed

lemma first_parent_spec:
  "(\<And>c. entry c = Some (if c \<in> E then Some c else None)) \<Longrightarrow>
   first_parent entry name is = Some (find (\<lambda>c. c \<in> E) (map (\<lambda>i. drop (i + 1) name) is))"
  by (induction "is") auto

lemma find_map: "find P (map f xs) = map_option f (find (P \<circ> f) xs)"
  by (induction xs) auto

lemma entry_spec:
  assumes "wl_ok wl"
  shows "check_domain_member_entry wl q = Some (map_option (join ''.'') (closest (set (wl_exact wl)) q))"
proof -
  let ?q = "map to_lower q"
  have "check_domain_member_entry wl q = Some (find (\<lambda>c. c \<in> set (wl_exact wl)) (?q # map (\<lambda>i. drop (i + 1) ?q) (dots ?q)))"
    using exact_entry_spec [OF assms] first_parent_spec [of "exact_entry wl" "set (wl_exact wl)" ?q "dots ?q"]
    by (simp add: check_domain_member_entry_def Let_def)
  then show ?thesis unfolding dots_tails by (simp add: find_map closest_def labels_def o_def)
qed

lemma tails_sub: "ls \<in> set (tails xs) \<Longrightarrow> ls \<noteq> [] \<and> set ls \<subseteq> set xs"
  by (induction xs) auto

lemma join_dots: "ls \<noteq> [] \<Longrightarrow> \<forall>l \<in> set ls. CHR ''.'' \<notin> set l \<Longrightarrow> count_list (join ''.'' ls) (CHR ''.'') + 1 = length ls"
proof (induction ls rule: induct_list012)
  case (2 x)
  then show ?case by (simp add: count_list_0_iff)
next
  case (3 x y zs)
  then show ?case by (simp add: count_list_0_iff)
qed simp

lemma depth_spec:
  assumes "wl_ok wl"
  shows "check_domain_member_depth wl q = Some (of_nat (case closest (set (wl_exact wl)) q of None \<Rightarrow> 0 | Some ls \<Rightarrow> length ls))"
proof (cases "closest (set (wl_exact wl)) q")
  case None
  then show ?thesis by (simp add: check_domain_member_depth_def entry_spec [OF assms])
next
  case (Some ls)
  then have "ls \<in> set (tails (labels q))" by (auto simp: closest_def find_Some_iff)
  then have "ls \<noteq> []" "\<forall>l \<in> set ls. CHR ''.'' \<notin> set l"
    using tails_sub split_no_dot by (fastforce simp: labels_def)+
  then show ?thesis using join_dots [of ls] Some by (simp add: check_domain_member_depth_def entry_spec [OF assms])
qed

section \<open>What the whitelist promises\<close>

text \<open>C22: the whitelist depth of a name is the number of labels of the longest tail of its lower-cased
  labels that is an entry of the files, 0 for none: the prefilter hides no entry and the walk stops
  at the most specific one.\<close>

theorem depth_is_most_specific_entry:
  assumes "length (wl_lines texts) < 2 ^ 58"
  shows "\<exists>wl. wl_load texts = Some wl \<and>
    check_domain_member_depth wl q =
      Some (of_nat (case closest (entry_lines (wl_lines texts)) q of None \<Rightarrow> 0 | Some ls \<Rightarrow> length ls))"
  using wl_load_spec [OF assms] depth_spec by metis

lemma white_space_ends: "list_all (\<lambda>w. w \<noteq> [] \<and> \<not> is_alnum (hd w) \<and> \<not> is_alnum (last w)) white_space"
  by code_simp

lemma trim_plain:
  assumes "s \<noteq> []" and "is_alnum (hd s)" and "is_alnum (last s)"
  shows "trim s = s"
proof -
  have "\<not> starts_with s w" "\<not> ends_with s w" if w: "w \<in> set white_space" for w
  proof -
    have e: "w \<noteq> []" "\<not> is_alnum (hd w)" "\<not> is_alnum (last w)" using white_space_ends w by (auto simp: list_all_iff)
    then show "\<not> starts_with s w" using assms(1,2)
      by (cases w; cases s) (auto simp: starts_with_def)
    show "\<not> ends_with s w"
    proof
      assume "ends_with s w"
      then have "s = take (length s - length w) s @ w" by (metis append_take_drop_id ends_with_def)
      then have "last s = last w" using e(1) by (metis last_appendR)
      then show False using e(3) assms(3) by simp
    qed
  qed
  then have "trim_start s = s" "trim_end s = s"
    by (simp_all add: trim_start.simps [of s] trim_end.simps [of s] find_None_iff split: option.splits)
      (metis find_Some_iff nth_mem)+
  then show ?thesis by (simp add: trim_def)
qed

lemma sample_lines: "wl_lines [''google.com'', ''10.0.0.0/8''] = [''google.com'', ''10.0.0.0/8'']"
proof -
  have "str_lines ''google.com'' = [''google.com'']" "str_lines ''10.0.0.0/8'' = [''10.0.0.0/8'']" by code_simp+
  moreover have "trim ''google.com'' = ''google.com''" "trim ''10.0.0.0/8'' = ''10.0.0.0/8''"
    by (rule trim_plain; code_simp)+
  ultimately show ?thesis by (simp add: wl_lines_def iter_file_lines_def starts_with_def)
qed

lemma sample_net: "parse_cidr4 (canonical_ip_text ''10.0.0.0/8'') = Some (0x0a000000, 8)"
proof -
  have "canonical_ip_text ''10.0.0.0/8'' = ''10.0.0.0/8''" "split_once ''10.0.0.0/8'' ''/'' = Some (''10.0.0.0'', ''8'')"
    "is_dotted_quad ''10.0.0.0''" "list_all is_digit ''8''" "parse_dec ''8'' = 8" "addr_to_int ''10.0.0.0'' = Some 0x0a000000"
    by code_simp+
  then show ?thesis by (simp add: parse_cidr4_def parse_u32_def)
qed

lemma sample_entries: "entry_lines [''google.com'', ''10.0.0.0/8''] = {''google.com''}"
proof -
  have "canonical_ip_text ''google.com'' = ''google.com''" "parse_cidr4 ''google.com'' = None"
    by code_simp+
  then show ?thesis using sample_net by (auto simp: entry_lines_def)
qed

theorem depth_is_most_specific_entry_witness:
  "\<exists>wl. wl_load [''google.com'', ''10.0.0.0/8''] = Some wl \<and> check_domain_member_depth wl ''www.Google.COM'' = Some 2"
proof -
  have "closest {''google.com''} ''www.Google.COM'' = Some [''google'', ''com'']"
    by code_simp
  then show ?thesis
    using depth_is_most_specific_entry [of "[''google.com'', ''10.0.0.0/8'']" "''www.Google.COM''"]
    by (simp add: sample_lines sample_entries)
qed

lemma parse_canonical_V6: "parse_canonical_ip e = Some (V6 v) \<Longrightarrow> e = ip_render (V6 v)"
  by (auto simp: parse_canonical_ip_def split: option.splits if_splits)

lemma quad_render: "is_dotted_quad (ip_render (V4 v))"
proof -
  have "dec (unat (x :: u8)) \<noteq> [] \<and> length (dec (unat x)) \<le> 3 \<and> list_all is_digit (dec (unat x))" for x
    by (simp add: dec_u8_length dec_digits)
  then show ?thesis unfolding is_dotted_quad_def render_V4 split_quad Let_def by simp
qed

text \<open>The check on a parsed address says the same as the text check on its rendering: exactly for
  IPv4, ranges and verbatim entries alike, and never more for IPv6.\<close>

theorem native_check_is_text_check:
  assumes "length (wl_lines texts) < 2 ^ 58"
  shows "\<exists>wl. wl_load texts = Some wl \<and>
    check_whitelisted wl (ip_render (V4 v)) = Some (check_whitelisted_ip wl (V4 v)) \<and>
    (check_whitelisted_ip wl (V4 v) \<longleftrightarrow>
       ip_render (V4 v) \<in> entry_lines (wl_lines texts) \<or> in_range (range_lines (wl_lines texts)) v) \<and>
    (case check_whitelisted wl (ip_render (V6 w)) of None \<Rightarrow> False | Some text \<Rightarrow> check_whitelisted_ip wl (V6 w) \<le> text)"
proof -
  obtain wl where wl: "wl_load texts = Some wl" "wl_ok wl" "set (wl_exact wl) = entry_lines (wl_lines texts)"
    "\<And>v. match_ranges wl v \<longleftrightarrow> in_range (range_lines (wl_lines texts)) v"
    "wl_ip4 wl = {v. \<exists>e \<in> entry_lines (wl_lines texts). parse_canonical_ip e = Some (V4 v)}"
    "wl_ip6 wl = {v. \<exists>e \<in> entry_lines (wl_lines texts). parse_canonical_ip e = Some (V6 v)}"
    using wl_load_spec [OF assms] by blast
  have ex: "contains_exact wl c = Some (c \<in> entry_lines (wl_lines texts))" for c
    using exact_entry_spec [OF wl(2), of c] wl(3) by (simp add: contains_exact_def)
  have v6: "check_whitelisted_ip wl (V6 w) \<Longrightarrow> ip_render (V6 w) \<in> entry_lines (wl_lines texts)"
    using wl(6) parse_canonical_V6 by auto
  have "check_whitelisted wl (ip_render (V4 v)) = Some (check_whitelisted_ip wl (V4 v))"
    using ex wl(4,5) by (simp add: check_whitelisted_def quad_render addr_to_int_render parse_canonical_V4)
  moreover have "check_whitelisted_ip wl (V4 v) \<longleftrightarrow>
      ip_render (V4 v) \<in> entry_lines (wl_lines texts) \<or> in_range (range_lines (wl_lines texts)) v"
    using wl(4,5) by (simp add: parse_canonical_V4)
  moreover have "case check_whitelisted wl (ip_render (V6 w)) of None \<Rightarrow> False | Some text \<Rightarrow> check_whitelisted_ip wl (V6 w) \<le> text"
    using v6 ex [of "ip_render (V6 w)"] by (auto simp: check_whitelisted_def)
  ultimately show ?thesis using wl(1) by blast
qed

theorem native_check_is_text_check_witness:
  "\<exists>wl. wl_load [''google.com'', ''10.0.0.0/8''] = Some wl \<and> check_whitelisted_ip wl (V4 0x0a010203) \<and>
     check_whitelisted wl (ip_render (V4 0x0a010203)) = Some True"
proof -
  have "parse_cidr4 (canonical_ip_text ''google.com'') = None" by code_simp
  moreover have "make_mask 8 = 0xff000000" by code_simp
  ultimately have "in_range (range_lines [''google.com'', ''10.0.0.0/8'']) 0x0a010203"
    by (simp add: in_range_def range_lines_def List.map_filter_simps sample_net)
  then show ?thesis
    using native_check_is_text_check [of "[''google.com'', ''10.0.0.0/8'']" "0x0a010203" 0] by (auto simp: sample_lines)
qed

end
