(* ===== verification/Ignore.thy ===== *)
theory Ignore
  imports Event Whitelist
begin

text \<open>
  \<open>ignore.rs\<close>: the rules that keep an event out of the log, read from their files, and the regular
  expression of \<open>IGNORE_EVENTS_REGEX\<close>, whose matcher is a function argument (true for a match, false
  for none and for an error of the engine).
\<close>

section \<open>Rules\<close>

datatype host_rule = HostAny | HostExact string | HostV4 u32 u32 | HostV6 u128 u128

datatype port_rule = PortAny | PortExact string | PortRange u16 u16

record rule =
  rl_src_ip :: host_rule
  rl_src_port :: port_rule
  rl_dst_ip :: host_rule
  rl_dst_port :: port_rule

record ignore_rules =
  ig_rules :: "rule list"
  ig_seen :: "(string \<times> string \<times> string \<times> string) set"
  ig_regex :: "(string \<Rightarrow> bool) option"
  ig_needs_numeric :: bool

definition ig_default :: ignore_rules where
  "ig_default = \<lparr>ig_rules = [], ig_seen = {}, ig_regex = None, ig_needs_numeric = False\<rparr>"

text \<open>\<open>str::parse\<close> of an unsigned integer: decimal digits, after at most one plus sign.\<close>

definition parse_uint :: "nat \<Rightarrow> string \<Rightarrow> nat option" where
  "parse_uint bound s =
     (let digits = (case s of c # cs \<Rightarrow> if c = CHR ''+'' then cs else s | [] \<Rightarrow> s)
      in if digits \<noteq> [] \<and> list_all is_digit digits \<and> parse_dec digits \<le> bound then Some (parse_dec digits) else None)"

definition cidr :: "string \<Rightarrow> string \<Rightarrow> host_rule option" where
  "cidr addr bits = do {
     n \<leftarrow> parse_uint 4294967295 bits;
     (case addr_to_int addr of
        Some v4 \<Rightarrow>
          if n > 32 then None
          else (let m = make_mask (of_nat n) in Some (HostV4 (v4 AND m) ((v4 AND m) OR NOT m)))
      | None \<Rightarrow> do {
          v6 \<leftarrow> parse_ipv6 addr;
          if n > 128 then None
          else (let m = (if n = 0 then 0 else push_bit (128 - n) (- 1)) in Some (HostV6 (v6 AND m) ((v6 AND m) OR NOT m)))
        })
   }"

definition host_range :: "string \<Rightarrow> string \<Rightarrow> host_rule option" where
  "host_range lo hi =
     (case addr_to_int lo of
        Some start \<Rightarrow> do {
          finish \<leftarrow> (case addr_to_int hi of
              Some v \<Rightarrow> Some v
            | None \<Rightarrow> do {
                l \<leftarrow> parse_uint 4294967295 hi;
                if l > 255 then None else Some ((start AND 0xffffff00) OR of_nat l)
              });
          if finish \<ge> start then Some (HostV4 start finish) else None
        }
      | None \<Rightarrow> do {
          start \<leftarrow> parse_ipv6 lo;
          finish \<leftarrow> parse_ipv6 hi;
          if finish \<ge> start then Some (HostV6 start finish) else None
        })"

definition parse_host :: "string \<Rightarrow> host_rule" where
  "parse_host token =
     (if token = ''*'' then HostAny
      else case split_once token ''/'' of
        Some (addr, bits) \<Rightarrow> (case cidr addr bits of Some r \<Rightarrow> r | None \<Rightarrow> HostExact token)
      | None \<Rightarrow>
          (case split_once token ''-'' of
             Some (lo, hi) \<Rightarrow> (case host_range lo hi of Some r \<Rightarrow> r | None \<Rightarrow> HostExact token)
           | None \<Rightarrow> HostExact token))"

definition parse_port :: "string \<Rightarrow> port_rule" where
  "parse_port token =
     (if token = ''*'' then PortAny
      else case split_once token ''-'' of
        Some (lo, hi) \<Rightarrow>
          (case (parse_uint 65535 lo, parse_uint 65535 hi) of
             (Some a, Some b) \<Rightarrow> if b \<ge> a then PortRange (of_nat a) (of_nat b) else PortExact token
           | _ \<Rightarrow> PortExact token)
      | None \<Rightarrow> PortExact token)"

fun is_numeric :: "host_rule \<Rightarrow> bool" where
  "is_numeric (HostV4 lo hi) \<longleftrightarrow> True"
| "is_numeric (HostV6 lo hi) \<longleftrightarrow> True"
| "is_numeric _ \<longleftrightarrow> False"

fun host_matches :: "host_rule \<Rightarrow> string \<Rightarrow> u32 option \<Rightarrow> u128 option \<Rightarrow> bool" where
  "host_matches HostAny text v4 v6 \<longleftrightarrow> True"
| "host_matches (HostExact want) text v4 v6 \<longleftrightarrow> want = text"
| "host_matches (HostV4 lo hi) text v4 v6 \<longleftrightarrow> (case v4 of Some a \<Rightarrow> a \<ge> lo \<and> a \<le> hi | None \<Rightarrow> False)"
| "host_matches (HostV6 lo hi) text v4 v6 \<longleftrightarrow> (case v6 of Some a \<Rightarrow> a \<ge> lo \<and> a \<le> hi | None \<Rightarrow> False)"

fun port_matches :: "port_rule \<Rightarrow> string \<Rightarrow> bool" where
  "port_matches PortAny text \<longleftrightarrow> True"
| "port_matches (PortExact want) text \<longleftrightarrow> want = text"
| "port_matches (PortRange lo hi) text \<longleftrightarrow>
     (case parse_uint 65535 text of Some p \<Rightarrow> (of_nat p :: u16) \<ge> lo \<and> of_nat p \<le> hi | None \<Rightarrow> False)"

definition ig_add :: "string \<times> string \<times> string \<times> string \<Rightarrow> ignore_rules \<Rightarrow> ignore_rules" where
  "ig_add row ig =
     (case row of (a, b, c, d) \<Rightarrow>
        if row \<in> ig_seen ig then ig
        else (let r = \<lparr>rl_src_ip = parse_host a, rl_src_port = parse_port b, rl_dst_ip = parse_host c, rl_dst_port = parse_port d\<rparr>
              in ig\<lparr>ig_seen := insert row (ig_seen ig),
                    ig_needs_numeric := (ig_needs_numeric ig \<or> is_numeric (rl_src_ip r) \<or> is_numeric (rl_dst_ip r)),
                    ig_rules := ig_rules ig @ [r]\<rparr>))"

definition squeeze :: "string \<Rightarrow> string" where
  "squeeze l = concat (filter (\<lambda>c. c \<notin> set white_space) (str_chars l))"

definition rule_row :: "string \<Rightarrow> (string \<times> string \<times> string \<times> string) option" where
  "rule_row line0 =
     (let line = squeeze line0
      in if line = [] \<or> starts_with line ''#'' then None
         else if count_list line (CHR '';'') = 3
         then (case split_on (CHR '';'') line of [a, b, c, d] \<Rightarrow> Some (a, b, c, d) | _ \<Rightarrow> None)
         else None)"

definition ig_add_file :: "string \<Rightarrow> ignore_rules \<Rightarrow> ignore_rules" where
  "ig_add_file text ig = fold ig_add (List.map_filter rule_row (str_lines text)) ig"

definition ig_load :: "string list \<Rightarrow> (string \<Rightarrow> bool) option \<Rightarrow> ignore_rules" where
  "ig_load texts regex = (fold ig_add_file texts ig_default)\<lparr>ig_regex := regex\<rparr>"

section \<open>The test of an event\<close>

definition rule_matches :: "rule \<Rightarrow> string \<Rightarrow> string \<Rightarrow> string \<Rightarrow> string \<Rightarrow>
    u32 option \<times> u128 option \<times> u32 option \<times> u128 option \<Rightarrow> bool" where
  "rule_matches r src_ip src_port dst_ip dst_port parsed =
     (case parsed of (src4, src6, dst4, dst6) \<Rightarrow>
        host_matches (rl_src_ip r) src_ip src4 src6 \<and> port_matches (rl_src_port r) src_port \<and>
        host_matches (rl_dst_ip r) dst_ip dst4 dst6 \<and> port_matches (rl_dst_port r) dst_port)"

definition ignore_event :: "ignore_rules \<Rightarrow> event \<Rightarrow> bool" where
  "ignore_event ig e =
     (if (case ig_regex ig of Some re \<Rightarrow> re (ev_py_repr e) | None \<Rightarrow> False) then True
      else if ig_rules ig = [] then False
      else (let src_port = as_plain (ev_src_port e); dst_port = as_plain (ev_dst_port e); dst_ip = as_plain (ev_dst_ip e);
                parsed = (if ig_needs_numeric ig
                          then (addr_to_int (ev_src_ip e), parse_ipv6 (ev_src_ip e), addr_to_int dst_ip, parse_ipv6 dst_ip)
                          else (None, None, None, None))
            in list_ex (\<lambda>r. rule_matches r (ev_src_ip e) src_port dst_ip dst_port parsed) (ig_rules ig)))"

section \<open>The rules mean their rows\<close>

definition token_matches :: "string \<Rightarrow> string \<Rightarrow> bool" where
  "token_matches token text \<longleftrightarrow> host_matches (parse_host token) text (addr_to_int text) (parse_ipv6 text)"

definition row_matches :: "string \<times> string \<times> string \<times> string \<Rightarrow> event \<Rightarrow> bool" where
  "row_matches row e \<longleftrightarrow>
     (case row of (a, b, c, d) \<Rightarrow>
        token_matches a (ev_src_ip e) \<and> port_matches (parse_port b) (as_plain (ev_src_port e)) \<and>
        token_matches c (as_plain (ev_dst_ip e)) \<and> port_matches (parse_port d) (as_plain (ev_dst_port e)))"

definition rule_of :: "string \<times> string \<times> string \<times> string \<Rightarrow> rule" where
  "rule_of row = (case row of (a, b, c, d) \<Rightarrow>
     \<lparr>rl_src_ip = parse_host a, rl_src_port = parse_port b, rl_dst_ip = parse_host c, rl_dst_port = parse_port d\<rparr>)"

definition rule_numeric :: "rule \<Rightarrow> bool" where
  "rule_numeric r \<longleftrightarrow> is_numeric (rl_src_ip r) \<or> is_numeric (rl_dst_ip r)"

definition ig_inv :: "ignore_rules \<Rightarrow> bool" where
  "ig_inv ig \<longleftrightarrow> set (ig_rules ig) = rule_of ` ig_seen ig \<and>
     (ig_needs_numeric ig \<longleftrightarrow> list_ex rule_numeric (ig_rules ig)) \<and> ig_regex ig = None"

lemma ig_add_inv: "ig_inv ig \<Longrightarrow> ig_inv (ig_add row ig) \<and> ig_seen (ig_add row ig) = insert row (ig_seen ig)"
  by (auto simp: ig_inv_def ig_add_def rule_of_def rule_numeric_def Let_def insert_absorb split: prod.splits)

lemma ig_add_all_inv: "ig_inv ig \<Longrightarrow> ig_inv (fold ig_add rows ig) \<and> ig_seen (fold ig_add rows ig) = set rows \<union> ig_seen ig"
  by (induction rows arbitrary: ig) (use ig_add_inv in auto)

definition rule_rows :: "string list \<Rightarrow> (string \<times> string \<times> string \<times> string) list" where
  "rule_rows texts = concat (map (\<lambda>text. List.map_filter rule_row (str_lines text)) texts)"

lemma ig_files: "fold ig_add_file texts ig = fold ig_add (rule_rows texts) ig"
  by (induction texts arbitrary: ig) (simp_all add: rule_rows_def ig_add_file_def)

lemma ig_load_inv:
  "ig_seen (ig_load texts regex) = set (rule_rows texts)" "ig_regex (ig_load texts regex) = regex"
  "set (ig_rules (ig_load texts regex)) = rule_of ` set (rule_rows texts)"
  "ig_needs_numeric (ig_load texts regex) \<longleftrightarrow> list_ex rule_numeric (ig_rules (ig_load texts regex))"
proof -
  have "ig_inv ig_default" and e: "ig_seen ig_default = {}" by (simp_all add: ig_inv_def ig_default_def)
  from ig_add_all_inv [OF \<open>ig_inv ig_default\<close>, of "rule_rows texts"]
  show "ig_seen (ig_load texts regex) = set (rule_rows texts)" "ig_regex (ig_load texts regex) = regex"
    "set (ig_rules (ig_load texts regex)) = rule_of ` set (rule_rows texts)"
    "ig_needs_numeric (ig_load texts regex) \<longleftrightarrow> list_ex rule_numeric (ig_rules (ig_load texts regex))"
    by (simp_all add: ig_load_def ig_files ig_inv_def e)
qed

lemma host_matches_text: "\<not> is_numeric h \<Longrightarrow> host_matches h text v4 v6 = host_matches h text None None"
  by (cases h) auto

lemma rule_matches_row:
  "rule_matches (rule_of row) (ev_src_ip e) (as_plain (ev_src_port e)) (as_plain (ev_dst_ip e)) (as_plain (ev_dst_port e))
     (addr_to_int (ev_src_ip e), parse_ipv6 (ev_src_ip e), addr_to_int (as_plain (ev_dst_ip e)), parse_ipv6 (as_plain (ev_dst_ip e)))
   = row_matches row e"
  by (cases row) (simp add: rule_matches_def rule_of_def row_matches_def token_matches_def)

lemma rule_matches_plain:
  assumes "\<not> rule_numeric r"
  shows "rule_matches r si sp di dp parsed = rule_matches r si sp di dp (None, None, None, None)"
proof -
  obtain s4 s6 d4 d6 where p: "parsed = (s4, s6, d4, d6)" by (cases parsed)
  show ?thesis
    using assms host_matches_text [of "rl_src_ip r" si s4 s6] host_matches_text [of "rl_dst_ip r" di d4 d6]
    unfolding p rule_matches_def rule_numeric_def by simp
qed

text \<open>C23: an event is ignored exactly when the regular expression matches it or all four columns of
  some row of the files do: leaving addresses unparsed while no rule is a network or a range, and
  entering a repeated row once, change nothing.\<close>

theorem event_is_ignored_by_its_rows:
  "ignore_event (ig_load texts regex) e \<longleftrightarrow>
     (case regex of Some re \<Rightarrow> re (ev_py_repr e) | None \<Rightarrow> False) \<or> (\<exists>row \<in> set (rule_rows texts). row_matches row e)"
proof -
  define ig where "ig = ig_load texts regex"
  note L = ig_load_inv [of texts regex, folded ig_def]
  define parsed where "parsed = (addr_to_int (ev_src_ip e), parse_ipv6 (ev_src_ip e),
    addr_to_int (as_plain (ev_dst_ip e)), parse_ipv6 (as_plain (ev_dst_ip e)))"
  let ?m = "\<lambda>parsed r. rule_matches r (ev_src_ip e) (as_plain (ev_src_port e)) (as_plain (ev_dst_ip e)) (as_plain (ev_dst_port e)) parsed"
  have "list_ex (?m (if ig_needs_numeric ig then parsed else (None, None, None, None))) (ig_rules ig) \<longleftrightarrow>
      list_ex (?m parsed) (ig_rules ig)"
  proof (cases "ig_needs_numeric ig")
    case False
    then have "\<not> rule_numeric r" if "r \<in> set (ig_rules ig)" for r using L(4) that by (auto simp: list_ex_iff)
    then have "?m parsed r = ?m (None, None, None, None) r" if "r \<in> set (ig_rules ig)" for r
      using rule_matches_plain that by blast
    then show ?thesis using False by (simp add: list_ex_iff)
  qed simp
  also have "\<dots> \<longleftrightarrow> (\<exists>row \<in> set (rule_rows texts). row_matches row e)"
    by (simp add: list_ex_iff L(3) parsed_def rule_matches_row)
  finally show ?thesis
    unfolding ig_def [symmetric] ignore_event_def Let_def parsed_def using L(2) by (auto split: option.splits)
qed

section \<open>A network is the interval its mask spans\<close>

lemma make_mask_low:
  assumes "n \<le> 32"
  shows "make_mask (of_nat n) = NOT (mask (32 - n))"
proof -
  have "list_all (\<lambda>n. make_mask (of_nat n) = NOT (mask (32 - n))) [0..<33]" by code_simp
  then show ?thesis using assms by (simp add: list_all_iff)
qed

lemma drop_bit_mono: "a \<le> b \<Longrightarrow> drop_bit k a \<le> drop_bit k (b :: 'w::len word)"
  unfolding word_le_nat_alt unat_drop_bit_eq by (simp only: drop_bit_eq_div div_le_mono)

lemma network_interval:
  fixes v a :: "'w::len word"
  shows "(v AND NOT (mask k) \<le> a \<and> a \<le> (v AND NOT (mask k)) OR mask k) \<longleftrightarrow> a AND NOT (mask k) = v AND NOT (mask k)"
proof
  assume r: "v AND NOT (mask k) \<le> a \<and> a \<le> (v AND NOT (mask k)) OR mask k"
  have "drop_bit k (v AND NOT (mask k)) = drop_bit k v" "drop_bit k ((v AND NOT (mask k)) OR mask k) = drop_bit k v"
    by (auto simp: bit_eq_iff bit_simps dest: bit_imp_le_length)
  then have "drop_bit k a = drop_bit k v" using drop_bit_mono [of _ _ k] r by (metis order_antisym)
  moreover have "x AND NOT (mask k) = push_bit k (drop_bit k x)" for x :: "'w word"
    by (auto simp: bit_eq_iff bit_simps)
  ultimately show "a AND NOT (mask k) = v AND NOT (mask k)" by simp
next
  assume e: "a AND NOT (mask k) = v AND NOT (mask k)"
  have "a AND NOT (mask k) \<le> a" by (rule word_and_le2)
  moreover have "(a AND NOT (mask k)) OR mask k = a OR mask k" by (auto simp: bit_eq_iff bit_simps)
  then have "a \<le> (a AND NOT (mask k)) OR mask k" by (metis le_word_or2)
  ultimately show "v AND NOT (mask k) \<le> a \<and> a \<le> (v AND NOT (mask k)) OR mask k" using e by simp
qed

lemma split_once_char: "c \<notin> set p \<Longrightarrow> split_once (p @ c # s) [c] = Some (p, s)"
proof -
  assume "c \<notin> set p"
  then have "find_sub (p @ c # s) [c] = Some (length p)" by (induction p) (auto simp: starts_with_def)
  then show ?thesis by (simp add: split_once_def)
qed

lemma parse_uint_dec: "n \<le> bound \<Longrightarrow> parse_uint bound (dec n) = Some n"
proof -
  assume n: "n \<le> bound"
  obtain c cs where d: "dec n = c # cs" by (cases "dec n") auto
  then have "is_digit c" using dec_digits [of n] by simp
  then have "c \<noteq> CHR ''+''" by (auto simp: is_digit_def code_def)
  then show ?thesis using n d dec_digits [of n] parse_dec_dec [of n] by (simp add: parse_uint_def Let_def)
qed

lemma digit_not: "is_digit c \<Longrightarrow> c \<noteq> CHR ''/'' \<and> c \<noteq> CHR ''-'' \<and> c \<noteq> CHR ''*''"
  by (auto simp: is_digit_def code_def)

lemma render_V4_plain: "CHR ''/'' \<notin> set (ip_render (V4 v))" "CHR ''-'' \<notin> set (ip_render (V4 v))"
  "CHR ''*'' \<notin> set (ip_render (V4 v))"
proof -
  have "CHR ''/'' \<notin> set (dec n) \<and> CHR ''-'' \<notin> set (dec n) \<and> CHR ''*'' \<notin> set (dec n)" for n
    using dec_digits [of n] digit_not by (fastforce simp: list_all_iff)
  then show "CHR ''/'' \<notin> set (ip_render (V4 v))" "CHR ''-'' \<notin> set (ip_render (V4 v))" "CHR ''*'' \<notin> set (ip_render (V4 v))"
    by (simp_all add: render_V4)
qed

lemma not_star: "CHR ''*'' \<notin> set t \<Longrightarrow> t \<noteq> ''*''"
  by auto

lemma not_quad_star: "p @ CHR ''/'' # s \<noteq> ''*''"
  by (cases p) auto

text \<open>A row that names an IPv4 network matches exactly the addresses whose leading bits are the
  network's, and one that names a range exactly those from the first address to the last.\<close>

theorem network_rows_match_their_network:
  assumes "n \<le> 32" and "lo \<le> hi"
  shows "(token_matches (ip_render (V4 net) @ ''/'' @ dec n) (ip_render (V4 a)) \<longleftrightarrow>
      a AND make_mask (of_nat n) = net AND make_mask (of_nat n)) \<and>
    (token_matches (ip_render (V4 lo) @ ''-'' @ ip_render (V4 hi)) (ip_render (V4 a)) \<longleftrightarrow> lo \<le> a \<and> a \<le> hi)"
proof
  let ?t = "ip_render (V4 net) @ ''/'' @ dec n"
  have "parse_host ?t = HostV4 (net AND make_mask (of_nat n)) ((net AND make_mask (of_nat n)) OR NOT (make_mask (of_nat n)))"
    using assms(1) split_once_char [OF render_V4_plain(1), of net "dec n"] not_quad_star [of "ip_render (V4 net)" "dec n"]
    by (simp add: parse_host_def cidr_def parse_uint_dec addr_to_int_render Let_def)
  then show "token_matches ?t (ip_render (V4 a)) \<longleftrightarrow> a AND make_mask (of_nat n) = net AND make_mask (of_nat n)"
    using network_interval [of net "32 - n" a] by (simp add: token_matches_def addr_to_int_render make_mask_low [OF assms(1)])
next
  let ?t = "ip_render (V4 lo) @ ''-'' @ ip_render (V4 hi)"
  have "CHR ''/'' \<notin> set ?t" "CHR ''*'' \<notin> set ?t" using render_V4_plain by simp_all
  moreover have "split_once s [c] = None" if "c \<notin> set s" for s c
    using that by (induction s) (auto simp: split_once_def starts_with_def split: option.splits)
  ultimately have "parse_host ?t = HostV4 lo hi"
    using assms(2) split_once_char [OF render_V4_plain(2), of lo "ip_render (V4 hi)"] not_star [of ?t]
    by (simp add: parse_host_def host_range_def addr_to_int_render)
  then show "token_matches ?t (ip_render (V4 a)) \<longleftrightarrow> lo \<le> a \<and> a \<le> hi"
    by (simp add: token_matches_def addr_to_int_render)
qed

theorem network_rows_match_their_network_witness:
  "token_matches (ip_render (V4 0x0a010000) @ ''/'' @ dec 16) (ip_render (V4 0x0a01ff02)) \<and>
   \<not> token_matches (ip_render (V4 5) @ ''-'' @ ip_render (V4 9)) (ip_render (V4 10))"
proof -
  have "make_mask 16 = 0xffff0000" by code_simp
  then show ?thesis
    using network_rows_match_their_network [of 16 5 9 "0x0a010000" "0x0a01ff02"]
      network_rows_match_their_network [of 16 5 9 0 10] by simp
qed

end
