(* ===== verification/Utf8.thy ===== *)
theory Utf8
  imports Strs
begin

text \<open>
  Bytes and text: \<open>String::from_utf8_lossy\<close>, which replaces each maximal malformed part by U+FFFD, and
  the view of a byte slice as a string of the same bytes.
\<close>

definition bytes_str :: "bytes \<Rightarrow> string" where
  "bytes_str b = map (\<lambda>x. char_of (unat x)) b"

text \<open>The length of the malformed part at the head: the bytes that could still begin a sequence.\<close>

fun bad_len :: "string \<Rightarrow> nat" where
  "bad_len [] = 0"
| "bad_len (c # cs) =
     (case utf8_class (code c) of
        None \<Rightarrow> 1
      | Some (n, lo, hi) \<Rightarrow>
          if cs = [] \<or> \<not> (lo \<le> code (cs ! 0) \<and> code (cs ! 0) \<le> hi) then 1
          else 2 + length (takeWhile cont (take (n - 2) (tl cs))))"

definition replacement :: string where
  "replacement = map char_of [239, 191, 189 :: nat]"

function lossy :: "string \<Rightarrow> string" where
  "lossy s =
     (if s = [] then []
      else if utf8_head s > 0 then take (utf8_head s) s @ lossy (drop (utf8_head s) s)
      else replacement @ lossy (drop (bad_len s) s))"
  by pat_completeness auto
termination
proof (relation "measure length")
  show "\<And>s. s \<noteq> [] \<Longrightarrow> \<not> 0 < utf8_head s \<Longrightarrow> (drop (bad_len s) s, s) \<in> measure length"
  proof -
    fix s :: string assume "s \<noteq> []"
    then have "0 < bad_len s" by (cases s) (auto split: option.splits)
    then show "(drop (bad_len s) s, s) \<in> measure length" using \<open>s \<noteq> []\<close> by simp
  qed
qed auto

declare lossy.simps [simp del]

lemma lossy_valid: "utf8_valid s \<Longrightarrow> lossy s = s"
proof (induction s rule: utf8_valid.induct)
  case (1 s)
  show ?case
  proof (cases "s = []")
    case False
    then have "utf8_head s \<noteq> 0" "utf8_valid (drop (utf8_head s) s)"
      using 1(2) by (simp_all add: utf8_valid.simps [of s] split: if_splits)
    then show ?thesis using 1(1) False by (simp add: lossy.simps [of s])
  qed (simp add: lossy.simps)
qed

lemma bytes_str_simps [simp]: "length (bytes_str b) = length b" "bytes_str (a @ b) = bytes_str a @ bytes_str b"
  "bytes_str [] = []"
  by (simp_all add: bytes_str_def)

end
