(* ===== verification/Dns.thy ===== *)
theory Dns
  imports Utf8 Names
begin

text \<open>
  \<open>protocols/dns.rs\<close>: the question of a DNS message, the first address of its answers and the targets
  of its CNAME records. \<open>lower\<close>, the argument of the question decoder, is \<open>str::to_lowercase\<close>, which
  works by the Unicode tables and only runs on names that are not ASCII.
\<close>

section \<open>The header\<close>

definition qdcount :: "bytes \<Rightarrow> u16 option" where
  "qdcount d = (if length d \<le> 6 then None else Some (be16 (d ! 4) (d ! 5)))"

definition flags_high :: "bytes \<Rightarrow> u8 option" where "flags_high d = b_at d 2"

definition flags_low :: "bytes \<Rightarrow> u8 option" where "flags_low d = b_at d 3"

section \<open>The question\<close>

record dns_question =
  q_name :: string
  q_name_end :: nat
  q_truncated :: bool

definition lower_byte :: "u8 \<Rightarrow> char" where
  "lower_byte b = to_lower (char_of (unat b))"

definition ascii_bytes :: "bytes \<Rightarrow> bool" where
  "ascii_bytes b \<longleftrightarrow> list_all (\<lambda>x. x < 128) b"

text \<open>The loop over the labels: the text so far, whether a label was not ASCII, the offset and
  whether the data ran out.\<close>

function label_walk :: "bytes \<Rightarrow> nat \<Rightarrow> string \<Rightarrow> bool \<Rightarrow> string \<times> bool \<times> nat \<times> bool" where
  "label_walk d offset buf non_ascii =
     (if length d > offset
      then let len = unat (d ! offset)
           in if len = 0 then (butlast buf, non_ascii, offset, False)
              else let start = offset + 1;
                       finish = min (offset + len + 1) (length d);
                       label = take (finish - start) (drop start d);
                       (buf, non_ascii) =
                         (if start \<le> finish
                          then if ascii_bytes label then (buf @ map lower_byte label, non_ascii)
                               else (buf @ lossy (bytes_str label), True)
                          else (buf, non_ascii))
                   in label_walk d (offset + len + 1) (buf @ ''.'') non_ascii
      else (buf, non_ascii, offset, True))"
  by pat_completeness auto
termination by (relation "measure (\<lambda>(d, offset, _). length d - offset)") auto

declare label_walk.simps [simp del]

definition decode_name :: "(string \<Rightarrow> string) \<Rightarrow> bytes \<Rightarrow> string \<times> nat \<times> bool" where
  "decode_name lower d =
     (let (buf, non_ascii, offset, truncated) = label_walk d 12 [] False
      in (if non_ascii then lower buf else buf, offset, truncated))"

definition question :: "(string \<Rightarrow> string) \<Rightarrow> bytes \<Rightarrow> dns_question option" where
  "question lower d =
     (let (name, name_end, truncated) = decode_name lower d
      in Some \<lparr>q_name = name, q_name_end = name_end, q_truncated = truncated\<rparr>)"

text \<open>The same into the caller's buffer: the new buffer and the offset.\<close>

definition question_into :: "(string \<Rightarrow> string) \<Rightarrow> bytes \<Rightarrow> string \<times> nat option" where
  "question_into lower d = (let (name, name_end, _) = decode_name lower d in (name, Some name_end))"

definition question_type_class :: "bytes \<Rightarrow> nat \<Rightarrow> (u16 \<times> u16) option" where
  "question_type_class d name_end = do {
     start \<leftarrow> usize_checked_add name_end 1;
     finish \<leftarrow> usize_checked_add start 4;
     s \<leftarrow> b_slice d start finish;
     Some (be16 (s ! 0) (s ! 1), be16 (s ! 2) (s ! 3))
   }"

section \<open>The answers\<close>

function skip_name :: "bytes \<Rightarrow> nat \<Rightarrow> nat" where
  "skip_name d ptr =
     (if ptr < length d
      then let lbl_len = d ! ptr
           in if lbl_len AND 0xc0 \<noteq> 0 then ptr + 2
              else if lbl_len = 0 then ptr + 1
              else skip_name d (ptr + unat lbl_len + 1)
      else ptr)"
  by pat_completeness auto
termination by (relation "measure (\<lambda>(d, ptr). length d - ptr)") auto

declare skip_name.simps [simp del]

lemma skip_name_ge: "ptr \<le> skip_name d ptr"
proof (induction d ptr rule: skip_name.induct)
  case (1 d ptr)
  then show ?case by (subst skip_name.simps) (auto simp: Let_def intro: order_trans [rotated])
qed

text \<open>The walk over the records, to the end of the name it stops behind.\<close>

function answer_walk :: "bytes \<Rightarrow> nat \<Rightarrow> nat \<Rightarrow> nat option" where
  "answer_walk d cursor ptr0 =
     (if cursor < length d
      then let ptr = skip_name d cursor
           in if ptr + 10 > length d then Some ptr
              else do {
                t0 \<leftarrow> b_at d ptr;
                t1 \<leftarrow> b_at d (ptr + 1);
                if t0 = 0 \<and> t1 = 1 then Some ptr
                else do {
                  r0 \<leftarrow> b_at d (ptr + 8);
                  r1 \<leftarrow> b_at d (ptr + 9);
                  answer_walk d (ptr + 10 + unat (be16 r0 r1)) ptr
                }
              }
      else Some ptr0)"
  by pat_completeness auto
termination
proof (relation "measure (\<lambda>(d, cursor, _). length d - cursor)")
  show "\<And>d cursor ptr0 x xa xb xc xd. cursor < length d \<Longrightarrow> x = skip_name d cursor \<Longrightarrow> \<not> length d < x + 10 \<Longrightarrow>
      ((d, x + 10 + unat (be16 xc xd), x), d, cursor, ptr0) \<in> measure (\<lambda>(d, cursor, _). length d - cursor)"
  proof -
    fix d :: bytes and cursor ptr0 x and xc xd :: u8
    assume "cursor < length d" "x = skip_name d cursor" "\<not> length d < x + 10"
    then show "((d, x + 10 + unat (be16 xc xd), x), d, cursor, ptr0) \<in> measure (\<lambda>(d, cursor, _). length d - cursor)"
      using skip_name_ge [of cursor d] by simp
  qed
qed auto

declare answer_walk.simps [simp del]

text \<open>\<open>Some None\<close> is the source's \<open>None\<close>.\<close>

definition first_a_record :: "bytes \<Rightarrow> nat \<Rightarrow> u32 option option" where
  "first_a_record d name_end =
     (case usize_checked_add name_end 5 of
        None \<Rightarrow> Some None
      | Some cursor \<Rightarrow> do {
          ptr \<leftarrow> answer_walk d cursor cursor;
          Some (do {
            i \<leftarrow> usize_checked_add ptr 10;
            j \<leftarrow> usize_checked_add ptr 14;
            r \<leftarrow> b_slice d i j;
            Some (be32 (r ! 0) (r ! 1) (r ! 2) (r ! 3))
          })
        })"

section \<open>CNAME targets\<close>

definition max_cnames :: nat where "max_cnames = 8"

text \<open>The loop of \<open>read_name\<close>, after \<open>jumps\<close> pointers; \<open>None\<close> is the source's.\<close>

function read_labels :: "bytes \<Rightarrow> nat \<Rightarrow> nat \<Rightarrow> string \<Rightarrow> string option" where
  "read_labels d offset jumps name =
     (if offset < length d
      then let len = d ! offset
           in if len AND 0xc0 = 0xc0
              then if jumps + 1 > 16 \<or> offset + 1 \<ge> length d then None
                   else read_labels d (unat (push_bit 8 (ucast (len AND 0x3f)) OR ucast (d ! (offset + 1)) :: u16)) (jumps + 1) name
              else if len AND 0xc0 \<noteq> 0 then None
              else if len = 0 then Some name
              else if offset + 1 + unat len > length d then None
              else let label = take (unat len) (drop (offset + 1) d)
                   in if \<not> ascii_bytes label \<or> length name + unat len + 1 > 253 then None
                      else read_labels d (offset + 1 + unat len) jumps
                             ((if name \<noteq> [] then name @ ''.'' else name) @ map lower_byte label)
      else None)"
  by pat_completeness auto
termination by (relation "measures [\<lambda>(d, offset, jumps, name). 17 - jumps, \<lambda>(d, offset, jumps, name). length d - offset]") auto

declare read_labels.simps [simp del]

definition read_name :: "bytes \<Rightarrow> nat \<Rightarrow> string option" where
  "read_name d offset = do { name \<leftarrow> read_labels d offset 0 []; if name = [] then None else Some name }"

function skip_owner :: "bytes \<Rightarrow> nat \<Rightarrow> nat option" where
  "skip_owner d cursor =
     (if cursor < length d
      then let len = d ! cursor
           in if len AND 0xc0 = 0xc0 then Some (cursor + 2)
              else if len = 0 then Some (cursor + 1)
              else skip_owner d (cursor + 1 + unat len)
      else None)"
  by pat_completeness auto
termination by (relation "measure (\<lambda>(d, cursor). length d - cursor)") auto

declare skip_owner.simps [simp del]

text \<open>The loop over \<open>ancount\<close> records.\<close>

fun cname_walk :: "nat \<Rightarrow> bytes \<Rightarrow> nat \<Rightarrow> string list \<Rightarrow> string list" where
  "cname_walk 0 d cursor out = out"
| "cname_walk (Suc n) d cursor0 out =
     (case skip_owner d cursor0 of
        None \<Rightarrow> out
      | Some cursor \<Rightarrow>
          (case b_slice d cursor (cursor + 10) of
             None \<Rightarrow> out
           | Some fixed \<Rightarrow>
               (let rtype = be16 (fixed ! 0) (fixed ! 1);
                    rdlen = unat (be16 (fixed ! 8) (fixed ! 9));
                    rdata = cursor + 10
                in if rdata + rdlen > length d then out
                   else case (if rtype = 5 then read_name d rdata else None) of
                          None \<Rightarrow> cname_walk n d (rdata + rdlen) out
                        | Some target \<Rightarrow>
                            if target \<in> set out then cname_walk n d (rdata + rdlen) out
                            else if length (out @ [target]) = max_cnames then out @ [target]
                            else cname_walk n d (rdata + rdlen) (out @ [target]))))"

definition cname_targets :: "bytes \<Rightarrow> nat \<Rightarrow> string list" where
  "cname_targets d name_end =
     (case b_slice d 6 8 of
        None \<Rightarrow> []
      | Some b \<Rightarrow>
          (case usize_checked_add name_end 5 of
             None \<Rightarrow> []
           | Some cursor \<Rightarrow> cname_walk (unat (be16 (b ! 0) (b ! 1))) d cursor []))"

section \<open>Reading back a question\<close>

definition wire_label :: "bytes \<Rightarrow> bytes" where
  "wire_label l = of_nat (length l) # l"

definition wire_name :: "bytes list \<Rightarrow> bytes" where
  "wire_name ls = concat (map wire_label ls) @ [0]"

definition good_label :: "bytes \<Rightarrow> bool" where
  "good_label l \<longleftrightarrow> l \<noteq> [] \<and> length l < 64 \<and> ascii_bytes l"

text \<open>The labels as text.\<close>

definition spelled :: "bytes list \<Rightarrow> string" where
  "spelled ls = join ''.'' (map (map lower_byte) ls)"

lemma unat_length_u8: "length l < 256 \<Longrightarrow> unat (of_nat (length l) :: u8) = length l"
  by (simp add: unat_of_nat take_bit_nat_eq_self)

lemma label_walk_label:
  assumes "good_label l"
  shows "label_walk (pre @ wire_label l @ rest) (length pre) buf na =
    label_walk (pre @ wire_label l @ rest) (length (pre @ wire_label l)) (buf @ map lower_byte l @ ''.'') na"
proof -
  have l: "l \<noteq> []" "length l < 256" "ascii_bytes l" using assms by (auto simp: good_label_def)
  have "unat (of_nat (length l) :: u8) = length l" using unat_length_u8 [OF l(2)] .
  then show ?thesis
    using l by (subst label_walk.simps) (simp add: wire_label_def nth_append Let_def)
qed

lemma label_walk_labels:
  "list_all good_label ls \<Longrightarrow>
   label_walk (pre @ concat (map wire_label ls) @ rest) (length pre) buf na =
   label_walk (pre @ concat (map wire_label ls) @ rest) (length (pre @ concat (map wire_label ls)))
     (buf @ concat (map (\<lambda>l. map lower_byte l @ ''.'') ls)) na"
proof (induction ls arbitrary: pre buf)
  case (Cons l ls)
  then show ?case
    using label_walk_label [of l pre "concat (map wire_label ls) @ rest" buf na]
      Cons.IH [of "pre @ wire_label l" "buf @ map lower_byte l @ ''.''"] by simp
qed simp

lemma butlast_dotted: "butlast (concat (map (\<lambda>l. map lower_byte l @ ''.'') ls)) = spelled ls"
proof (induction ls rule: induct_list012)
  case (3 x y zs)
  then show ?case by (simp add: spelled_def butlast_append)
qed (simp_all add: spelled_def)

lemma label_walk_name:
  assumes "list_all good_label ls"
  shows "label_walk (pre @ wire_name ls @ rest) (length pre) [] False =
    (spelled ls, False, length pre + length (concat (map wire_label ls)), False)"
proof -
  have "label_walk (pre @ wire_name ls @ rest) (length pre) [] False =
      label_walk (pre @ wire_name ls @ rest) (length (pre @ concat (map wire_label ls)))
        (concat (map (\<lambda>l. map lower_byte l @ ''.'') ls)) False"
    using label_walk_labels [OF assms, of pre "0 # rest" "[]" False] by (simp add: wire_name_def)
  also have "\<dots> = (spelled ls, False, length pre + length (concat (map wire_label ls)), False)"
    by (subst label_walk.simps) (simp add: wire_name_def nth_append butlast_dotted)
  finally show ?thesis .
qed

text \<open>C24: the question of a query reads back: behind any header, a name of ASCII labels of 1 to 63
  bytes comes out lower-cased and joined by dots, marked complete, and the two words behind it are
  its type and class.\<close>

theorem question_reads_back:
  assumes "length hdr = 12" and "list_all good_label ls" and "length (wire_name ls) < 65536"
    and "msg = hdr @ wire_name ls @ [t0, t1, c0, c1] @ rest"
  shows "question lower msg = Some \<lparr>q_name = spelled ls, q_name_end = 11 + length (wire_name ls), q_truncated = False\<rparr> \<and>
    question_type_class msg (11 + length (wire_name ls)) = Some (be16 t0 t1, be16 c0 c1)"
proof
  have n: "length (wire_name ls) = length (concat (map wire_label ls)) + 1" by (simp add: wire_name_def)
  show "question lower msg = Some \<lparr>q_name = spelled ls, q_name_end = 11 + length (wire_name ls), q_truncated = False\<rparr>"
    using label_walk_name [OF assms(2), of hdr "[t0, t1, c0, c1] @ rest"] assms(1) n
    by (simp add: question_def decode_name_def assms(4))
  have split: "msg = (hdr @ wire_name ls) @ [t0, t1, c0, c1] @ rest" by (simp add: assms(4))
  have len: "length (hdr @ wire_name ls) = 12 + length (wire_name ls)" using assms(1) by simp
  have "b_slice msg (12 + length (wire_name ls)) (16 + length (wire_name ls)) = Some [t0, t1, c0, c1]"
    unfolding b_slice_def split len [symmetric] using len by simp
  then show "question_type_class msg (11 + length (wire_name ls)) = Some (be16 t0 t1, be16 c0 c1)"
    using assms(3) by (simp add: question_type_class_def usize_checked_add_def usize_max_def)
qed

theorem question_reads_back_witness:
  "question (\<lambda>s. s) (replicate 12 0 @ wire_name [map of_char ''WWW'', map of_char ''Example'', map of_char ''org''] @ [0, 1, 0, 1]) =
     Some \<lparr>q_name = ''www.example.org'', q_name_end = 28, q_truncated = False\<rparr>"
proof -
  let ?ls = "[map of_char ''WWW'', map of_char ''Example'', map of_char ''org'']"
  have "list_all good_label ?ls" "spelled ?ls = ''www.example.org''" "length (wire_name ?ls) = 17" by code_simp+
  then show ?thesis using question_reads_back [of "replicate 12 0" ?ls _ 0 1 0 1 "[]" "\<lambda>s. s", OF _ _ _ refl] by simp
qed

section \<open>Names behind pointers\<close>

text \<open>The labels spelled at an offset, with the number of pointers followed.\<close>

inductive spells :: "bytes \<Rightarrow> nat \<Rightarrow> nat \<Rightarrow> bytes list \<Rightarrow> bool" for d :: bytes where
  spells_end: "off < length d \<Longrightarrow> d ! off = 0 \<Longrightarrow> spells d off 0 []"
| spells_label: "off < length d \<Longrightarrow> d ! off AND 0xc0 = 0 \<Longrightarrow> d ! off \<noteq> 0 \<Longrightarrow> off + 1 + unat (d ! off) \<le> length d \<Longrightarrow>
    l = take (unat (d ! off)) (drop (off + 1) d) \<Longrightarrow> spells d (off + 1 + unat (d ! off)) j ls \<Longrightarrow> spells d off j (l # ls)"
| spells_pointer: "off + 1 < length d \<Longrightarrow> d ! off AND 0xc0 = 0xc0 \<Longrightarrow>
    spells d (unat (push_bit 8 (ucast (d ! off AND 0x3f)) OR ucast (d ! (off + 1)) :: u16)) j ls \<Longrightarrow> spells d off (Suc j) ls"

definition add_label :: "string \<Rightarrow> bytes \<Rightarrow> string" where
  "add_label name l = (if name \<noteq> [] then name @ ''.'' else name) @ map lower_byte l"

lemma u8_cases: "list_all (\<lambda>n. P (of_nat n)) [0..<256] \<Longrightarrow> P (x :: u8)"
  using unat_u8_bound [of x] by (auto simp: list_all_iff dest: bspec [of _ _ "unat x"])

lemma label_low: "x AND 0xc0 = 0 \<Longrightarrow> unat (x :: u8) < 64"
proof -
  have "list_all (\<lambda>n. (\<lambda>x :: u8. x AND 0xc0 = 0 \<longrightarrow> unat x < 64) (of_nat n)) [0..<256]" by code_simp
  from u8_cases [OF this] show "x AND 0xc0 = 0 \<Longrightarrow> unat x < 64" by simp
qed

lemma add_labels_grow: "length name \<le> length (foldl add_label name ls)"
proof (induction ls arbitrary: name)
  case (Cons l ls)
  have "length name \<le> length (add_label name l)" by (simp add: add_label_def)
  then show ?case using Cons [of "add_label name l"] by simp
qed simp

text \<open>One direction: what is read is spelled there.\<close>

lemma read_labels_sound:
  "read_labels d off jumps name = Some r \<Longrightarrow> length name \<le> 253 \<Longrightarrow> jumps \<le> 16 \<Longrightarrow>
   \<exists>j ls. spells d off j ls \<and> jumps + j \<le> 16 \<and> list_all ascii_bytes ls \<and> r = foldl add_label name ls \<and> length r \<le> 253"
proof (induction d off jumps name rule: read_labels.induct)
  case (1 d off jumps name)
  define len where "len = d ! off"
  define p where "p = unat (push_bit 8 (ucast (len AND 0x3f)) OR ucast (d ! (off + 1)) :: u16)"
  note eq = 1(3) [unfolded read_labels.simps [of d off jumps name], folded len_def, folded p_def]
  have off: "off < length d" using eq by (simp split: if_splits)
  consider (ptr) "len AND 0xc0 = 0xc0" | (fin) "len AND 0xc0 = 0" "len = 0" | (lab) "len AND 0xc0 = 0" "len \<noteq> 0"
    using eq off by (auto simp: Let_def split: if_splits)
  then show ?case
  proof cases
    case ptr
    then have c: "\<not> (jumps + 1 > 16 \<or> off + 1 \<ge> length d)" "read_labels d p (jumps + 1) name = Some r"
      using eq off by (auto simp: Let_def p_def split: if_splits)
    have "\<exists>j ls. spells d p j ls \<and> jumps + 1 + j \<le> 16 \<and> list_all ascii_bytes ls \<and> r = foldl add_label name ls \<and> length r \<le> 253"
      using 1(1) [OF off refl] ptr c 1(4) by (simp add: len_def p_def)
    then obtain j ls where i: "spells d p j ls" "jumps + 1 + j \<le> 16" "list_all ascii_bytes ls" "r = foldl add_label name ls" "length r \<le> 253"
      by blast
    have "spells d off (Suc j) ls" using spells_pointer [of off d j ls] ptr c(1) i(1) by (simp add: len_def p_def)
    then show ?thesis using i by (intro exI [of _ "Suc j"] exI [of _ ls]) simp
  next
    case fin
    then have "r = name" using eq off by (simp add: Let_def)
    then show ?thesis using spells_end [OF off] fin 1(4,5) by (intro exI [of _ 0] exI [of _ "[]"]) (simp add: len_def)
  next
    case lab
    define l where "l = take (unat len) (drop (off + 1) d)"
    have c: "\<not> off + 1 + unat len > length d" "ascii_bytes l" "length name + unat len + 1 \<le> 253"
      "read_labels d (off + 1 + unat len) jumps (add_label name l) = Some r"
      using eq off lab by (auto simp: Let_def l_def add_label_def split: if_splits)
    have "length l = unat len" using c(1) by (simp add: l_def)
    then have "length (add_label name l) \<le> 253" using c(3) by (simp add: add_label_def)
    then have "\<exists>j ls. spells d (off + 1 + unat len) j ls \<and> jumps + j \<le> 16 \<and> list_all ascii_bytes ls \<and>
        r = foldl add_label (add_label name l) ls \<and> length r \<le> 253"
      using 1(2) [OF off refl] lab c 1(5) unfolding add_label_def by (simp add: len_def l_def split del: if_split)
    then obtain j ls where i: "spells d (off + 1 + unat len) j ls" "jumps + j \<le> 16" "list_all ascii_bytes ls"
      "r = foldl add_label (add_label name l) ls" "length r \<le> 253" by blast
    have "spells d off j (l # ls)" using spells_label [OF off, of l j ls] lab c(1) i(1) by (simp add: len_def l_def)
    then show ?thesis using i c(2) by (intro exI [of _ j] exI [of _ "l # ls"]) simp
  qed
qed

text \<open>The other: what is spelled within the limits is read.\<close>

lemma read_labels_complete:
  "spells d off j ls \<Longrightarrow> jumps + j \<le> 16 \<Longrightarrow> list_all ascii_bytes ls \<Longrightarrow> length (foldl add_label name ls) \<le> 253 \<Longrightarrow>
   read_labels d off jumps name = Some (foldl add_label name ls)"
proof (induction arbitrary: jumps name rule: spells.induct)
  case (spells_end off)
  then show ?case by (subst read_labels.simps) simp
next
  case (spells_label off l j ls)
  have len: "unat (d ! off) < 64" "length l = unat (d ! off)" using label_low [OF spells_label(2)] spells_label(4,5) by simp_all
  have "length (add_label name l) \<le> 253"
    using add_labels_grow [of "add_label name l" ls] spells_label.prems(3) by simp
  then have "length name + unat (d ! off) + 1 \<le> 253"
    using len by (cases "name = []") (simp_all add: add_label_def)
  moreover have "read_labels d (off + 1 + unat (d ! off)) jumps (add_label name l) = Some (foldl add_label name (l # ls))"
    using spells_label.IH [of jumps "add_label name l"] spells_label.prems by simp
  ultimately show ?case
    using spells_label(1-5) spells_label.prems(2)
    by (subst read_labels.simps) (simp add: Let_def add_label_def)
next
  case (spells_pointer off j ls)
  have "read_labels d (unat (push_bit 8 (ucast (d ! off AND 0x3f)) OR ucast (d ! (off + 1)) :: u16)) (jumps + 1) name =
      Some (foldl add_label name ls)"
    using spells_pointer.IH [of "jumps + 1" name] spells_pointer.prems by simp
  then show ?case
    using spells_pointer(1,2) spells_pointer.prems(1) by (subst read_labels.simps) (simp add: Let_def)
qed

lemma foldl_add_label:
  "foldl add_label name ls = (if ls = [] then name else if name = [] then spelled ls else name @ ''.'' @ spelled ls)"
  if "list_all (\<lambda>l. l \<noteq> []) ls"
  using that
proof (induction ls arbitrary: name)
  case (Cons l ls)
  then have "l \<noteq> []" by simp
  then have "add_label name l \<noteq> []" by (simp add: add_label_def)
  then show ?case
    using Cons.IH [of "add_label name l"] Cons.prems by (cases ls) (auto simp: add_label_def spelled_def)
qed simp

lemma spells_nonempty: "spells d off j ls \<Longrightarrow> list_all (\<lambda>l. l \<noteq> []) ls"
proof (induction rule: spells.induct)
  case (spells_label off l j ls)
  then have "0 < unat (d ! off)" by (simp add: unat_gt_0)
  then show ?case using spells_label by auto
qed simp_all

text \<open>C25: a name read from the answers is exactly what the labels at its offset spell, compression
  pointers followed: it is read when at most sixteen pointers lie on the way, every label is ASCII,
  the name is not empty and has at most 253 characters, and then it is the labels in lower case.\<close>

theorem name_is_read_iff_spelled:
  "read_name d off = Some r \<longleftrightarrow>
     (\<exists>j ls. spells d off j ls \<and> j \<le> 16 \<and> ls \<noteq> [] \<and> list_all ascii_bytes ls \<and> r = spelled ls \<and> length r \<le> 253)"
proof
  assume "read_name d off = Some r"
  then have r: "read_labels d off 0 [] = Some r" "r \<noteq> []" by (auto simp: read_name_def split: Option.bind_splits if_splits)
  then obtain j ls where ls: "spells d off j ls" "j \<le> 16" "list_all ascii_bytes ls" "r = foldl add_label [] ls" "length r \<le> 253"
    using read_labels_sound [OF r(1)] by auto
  then show "\<exists>j ls. spells d off j ls \<and> j \<le> 16 \<and> ls \<noteq> [] \<and> list_all ascii_bytes ls \<and> r = spelled ls \<and> length r \<le> 253"
    using r(2) foldl_add_label [OF spells_nonempty [OF ls(1)], of "[]"] by (metis foldl_Nil)
next
  assume "\<exists>j ls. spells d off j ls \<and> j \<le> 16 \<and> ls \<noteq> [] \<and> list_all ascii_bytes ls \<and> r = spelled ls \<and> length r \<le> 253"
  then obtain j ls where ls: "spells d off j ls" "j \<le> 16" "ls \<noteq> []" "list_all ascii_bytes ls" "r = spelled ls" "length r \<le> 253"
    by blast
  have f: "foldl add_label [] ls = r" using foldl_add_label [OF spells_nonempty [OF ls(1)], of "[]"] ls(3,5) by simp
  have "read_labels d off 0 [] = Some r" using read_labels_complete [OF ls(1), of 0 "[]"] ls f by simp
  moreover have "r \<noteq> []"
    using ls(3,5) spells_nonempty [OF ls(1)] by (cases ls; cases "tl ls") (auto simp: spelled_def)
  ultimately show "read_name d off = Some r" by (simp add: read_name_def)
qed

section \<open>The CNAME walk is bounded\<close>

definition target_ok :: "string \<Rightarrow> bool" where
  "target_ok t \<longleftrightarrow> t \<noteq> [] \<and> length t \<le> 253 \<and> list_all is_ascii t"

lemma ascii_lower: "x < 128 \<Longrightarrow> is_ascii (lower_byte x)"
proof -
  assume "x < 128"
  then have "unat x < 128" by (simp add: word_less_nat_alt)
  then have "code (char_of (unat x)) < 128" by simp
  moreover have "code (to_lower c) < 128" if "code c < 128" for c
    using that by (auto simp: to_lower_def is_upper_def)
  ultimately show ?thesis by (simp add: is_ascii_def lower_byte_def)
qed

lemma ascii_label: "ascii_bytes l \<Longrightarrow> list_all is_ascii (map lower_byte l)"
  by (simp add: list_all_iff ascii_bytes_def ascii_lower)

lemma spelled_ascii: "list_all ascii_bytes ls \<Longrightarrow> list_all is_ascii (spelled ls)"
proof (induction ls rule: induct_list012)
  case (2 x)
  then show ?case by (simp add: spelled_def ascii_label)
next
  case (3 x y zs)
  then show ?case by (simp add: spelled_def ascii_label is_ascii_def [of "CHR ''.''"] code_def)
qed (simp add: spelled_def)

lemma read_name_ok: "read_name d off = Some t \<Longrightarrow> target_ok t"
proof -
  assume r: "read_name d off = Some t"
  then have "t \<noteq> []" and l: "read_labels d off 0 [] = Some t" by (auto simp: read_name_def split: Option.bind_splits if_splits)
  obtain j ls where ls: "spells d off j ls" "list_all ascii_bytes ls" "t = foldl add_label [] ls" "length t \<le> 253"
    using read_labels_sound [OF l] by auto
  then have "t = spelled ls" using foldl_add_label [OF spells_nonempty [OF ls(1)], of "[]"] by (simp add: spelled_def split: if_splits)
  then show ?thesis using ls(2,4) \<open>t \<noteq> []\<close> spelled_ascii by (simp add: target_ok_def)
qed

definition targets_ok :: "string list \<Rightarrow> bool" where
  "targets_ok out \<longleftrightarrow> distinct out \<and> length out \<le> max_cnames \<and> list_all target_ok out"

lemma targets_ok_snoc:
  "targets_ok out \<Longrightarrow> length out \<noteq> max_cnames \<Longrightarrow> read_name d i = Some t \<Longrightarrow> t \<notin> set out \<Longrightarrow> targets_ok (out @ [t])"
  using read_name_ok by (auto simp: targets_ok_def)

lemma cname_walk_ok:
  "targets_ok out \<Longrightarrow> length out \<noteq> max_cnames \<Longrightarrow> targets_ok (cname_walk n d cursor out)"
proof (induction n arbitrary: cursor out)
  case (Suc n)
  have step: "targets_ok (cname_walk n d c (out @ [t]))"
    if "read_name d i = Some t" "t \<notin> set out" "length (out @ [t]) \<noteq> max_cnames" for c i t
    using that targets_ok_snoc [OF Suc.prems that(1,2)] by (intro Suc.IH)
  have same: "targets_ok (cname_walk n d c out)" for c using Suc.prems by (intro Suc.IH)
  have last: "targets_ok (out @ [t])" if "read_name d i = Some t" "t \<notin> set out" for i t
    using targets_ok_snoc [OF Suc.prems that] .
  show ?case
    using Suc.prems(1) step same last by (auto simp: Let_def simp del: length_append split: option.splits if_splits)
qed simp

text \<open>Whatever the message, at most eight CNAME targets are read from it, all different, each a
  non-empty ASCII name of at most 253 characters.\<close>

theorem cname_targets_are_bounded:
  "length (cname_targets d name_end) \<le> max_cnames \<and> distinct (cname_targets d name_end) \<and>
   list_all target_ok (cname_targets d name_end)"
  using cname_walk_ok [of "[]"]
  by (auto simp: cname_targets_def targets_ok_def max_cnames_def split: option.splits)

section \<open>The first address\<close>

record answer =
  rr_owner :: bytes
  rr_type :: "u8 \<times> u8"
  rr_class_ttl :: bytes
  rr_rdlen :: "u8 \<times> u8"
  rr_data :: bytes

definition rr_wire :: "answer \<Rightarrow> bytes" where
  "rr_wire r = rr_owner r @ [fst (rr_type r), snd (rr_type r)] @ rr_class_ttl r @ [fst (rr_rdlen r), snd (rr_rdlen r)] @ rr_data r"

text \<open>An owner is a pointer or a name; the data has the length it says.\<close>

definition rr_ok :: "answer \<Rightarrow> bool" where
  "rr_ok r \<longleftrightarrow> ((\<exists>p q. p AND 0xc0 \<noteq> 0 \<and> rr_owner r = [p, q]) \<or> (\<exists>ls. list_all good_label ls \<and> rr_owner r = wire_name ls)) \<and>
     length (rr_class_ttl r) = 6 \<and> unat (be16 (fst (rr_rdlen r)) (snd (rr_rdlen r))) = length (rr_data r)"

definition is_a :: "answer \<Rightarrow> bool" where "is_a r \<longleftrightarrow> rr_type r = (0, 1)"

lemma small_label: "length l < 64 \<Longrightarrow> (of_nat (length l) :: u8) AND 0xc0 = 0"
proof -
  have "list_all (\<lambda>n. (of_nat n :: u8) AND 0xc0 = 0) [0..<64]" by code_simp
  then show "length l < 64 \<Longrightarrow> (of_nat (length l) :: u8) AND 0xc0 = 0" by (simp add: list_all_iff)
qed

lemma skip_name_labels:
  "list_all good_label ls \<Longrightarrow> skip_name (pre @ wire_name ls @ rest) (length pre) = length pre + length (wire_name ls)"
proof (induction ls arbitrary: pre)
  case Nil
  then show ?case by (subst skip_name.simps) (simp add: wire_name_def)
next
  case (Cons l ls)
  then have l: "l \<noteq> []" "length l < 64" by (simp_all add: good_label_def)
  have u: "unat (of_nat (length l) :: u8) = length l" using l(2) by (intro unat_length_u8) simp
  then have nz: "(of_nat (length l) :: u8) \<noteq> 0" using l(1) by (metis length_0_conv unat_0)
  have "skip_name (pre @ wire_name (l # ls) @ rest) (length pre) =
      skip_name ((pre @ wire_label l) @ wire_name ls @ rest) (length (pre @ wire_label l))"
    using small_label [OF l(2)] u nz by (subst skip_name.simps) (simp add: wire_name_def wire_label_def nth_append)
  also have "\<dots> = length (pre @ wire_label l) + length (wire_name ls)" using Cons by (intro Cons.IH) simp
  finally show ?case by (simp add: wire_name_def)
qed

lemma skip_owner_name:
  assumes "rr_ok r"
  shows "skip_name (pre @ rr_wire r @ rest) (length pre) = length pre + length (rr_owner r)"
proof -
  consider p q where "p AND 0xc0 \<noteq> 0" "rr_owner r = [p, q]" | ls where "list_all good_label ls" "rr_owner r = wire_name ls"
    using assms by (auto simp: rr_ok_def)
  then show ?thesis
  proof cases
    case 1
    then show ?thesis by (subst skip_name.simps) (simp add: rr_wire_def nth_append)
  next
    case 2
    then show ?thesis using skip_name_labels [of ls pre] by (simp add: rr_wire_def)
  qed
qed

lemma answer_walk_record:
  assumes ok: "rr_ok r"
  defines "d \<equiv> \<lambda>pre rest. pre @ rr_wire r @ rest"
  shows "answer_walk (d pre rest) (length pre) p0 =
    (if is_a r then Some (length pre + length (rr_owner r))
     else answer_walk (d pre rest) (length (pre @ rr_wire r)) (length pre + length (rr_owner r)))"
proof -
  define ptr where "ptr = length pre + length (rr_owner r)"
  have f: "length (rr_class_ttl r) = 6" "unat (be16 (fst (rr_rdlen r)) (snd (rr_rdlen r))) = length (rr_data r)"
    using ok by (simp_all add: rr_ok_def)
  have own: "rr_owner r \<noteq> []" using ok by (auto simp: rr_ok_def wire_name_def)
  have sk: "skip_name (d pre rest) (length pre) = ptr" using skip_owner_name [OF ok] by (simp add: d_def ptr_def)
  have at: "d pre rest = (pre @ rr_owner r) @ (fst (rr_type r) # snd (rr_type r) # rr_class_ttl r @
      fst (rr_rdlen r) # snd (rr_rdlen r) # rr_data r @ rest)"
    by (simp add: d_def rr_wire_def)
  have len: "length (pre @ rr_owner r) = ptr" by (simp add: ptr_def)
  have total: "length (d pre rest) = ptr + 10 + length (rr_data r) + length rest"
    unfolding at using f(1) by (simp add: ptr_def)
  have reads: "d pre rest ! ptr = fst (rr_type r)" "d pre rest ! (ptr + 1) = snd (rr_type r)"
    "d pre rest ! (ptr + 8) = fst (rr_rdlen r)" "d pre rest ! (ptr + 9) = snd (rr_rdlen r)"
    unfolding at nth_append len using f(1) by (simp_all add: nth_append numeral_eq_Suc)
  have nxt: "ptr + 10 + length (rr_data r) = length (pre @ rr_wire r)" using f(1) by (simp add: ptr_def rr_wire_def)
  have "length pre < length (d pre rest)" using own by (simp add: d_def rr_wire_def)
  then show ?thesis
    using total reads f(2) nxt
    by (subst answer_walk.simps) (auto simp: sk Let_def is_a_def prod_eq_iff ptr_def [symmetric])
qed

lemma answer_walk_skips:
  "list_all rr_ok rrs \<Longrightarrow> list_all (\<lambda>r. \<not> is_a r) rrs \<Longrightarrow>
   answer_walk (pre @ concat (map rr_wire rrs) @ rest) (length pre) p0 =
   answer_walk (pre @ concat (map rr_wire rrs) @ rest) (length (pre @ concat (map rr_wire rrs)))
     (if rrs = [] then p0 else length (pre @ concat (map rr_wire (butlast rrs))) + length (rr_owner (last rrs)))"
proof (induction rrs arbitrary: pre p0)
  case (Cons r rrs)
  then show ?case
    using answer_walk_record [of r pre "concat (map rr_wire rrs) @ rest" p0]
      Cons.IH [of "pre @ rr_wire r" "length pre + length (rr_owner r)"] by simp
qed simp

lemma record_data:
  assumes "rr_ok r" and "length (rr_data r) \<ge> 4"
  shows "b_slice (pre @ rr_wire r @ rest) (length pre + length (rr_owner r) + 10) (length pre + length (rr_owner r) + 14) =
    Some (take 4 (rr_data r))"
proof -
  have "pre @ rr_wire r @ rest = (pre @ rr_owner r @ [fst (rr_type r), snd (rr_type r)] @ rr_class_ttl r @
      [fst (rr_rdlen r), snd (rr_rdlen r)]) @ rr_data r @ rest"
    by (simp add: rr_wire_def)
  moreover have "length (pre @ rr_owner r @ [fst (rr_type r), snd (rr_type r)] @ rr_class_ttl r @
      [fst (rr_rdlen r), snd (rr_rdlen r)]) = length pre + length (rr_owner r) + 10"
    using assms(1) by (simp add: rr_ok_def)
  ultimately show ?thesis using assms(2) by (simp add: b_slice_def)
qed

definition first_four :: "bytes \<Rightarrow> u32" where
  "first_four b = be32 (b ! 0) (b ! 1) (b ! 2) (b ! 3)"

text \<open>The first address of a response is the data of its first A record. Where the answers hold
  none and end the message, it is the first four bytes of the last record's data, whatever its type,
  and no answer is reported as absent.\<close>

theorem first_address_of_answers:
  assumes "length hdr = name_end + 5" and "list_all rr_ok rrs" and "rrs \<noteq> []"
    and "list_all (\<lambda>r. 4 \<le> length (rr_data r)) rrs"
    and "length hdr + length (concat (map rr_wire rrs)) < 65536"
  shows "first_a_record (hdr @ concat (map rr_wire rrs)) name_end =
    Some (Some (first_four (rr_data (case find is_a rrs of Some r \<Rightarrow> r | None \<Rightarrow> last rrs))))"
proof -
  define d where "d = hdr @ concat (map rr_wire rrs)"
  obtain before r after where split: "rrs = before @ r # after" "list_all (\<lambda>r. \<not> is_a r) before"
    "r = (case find is_a rrs of Some r \<Rightarrow> r | None \<Rightarrow> last rrs)" "is_a r \<or> after = []"
  proof (cases "find is_a rrs")
    case None
    then have "list_all (\<lambda>r. \<not> is_a r) (butlast rrs)" by (auto simp: find_None_iff list_all_iff dest: in_set_butlastD)
    then show thesis using that [of "butlast rrs" "last rrs" "[]"] None assms(3) by simp
  next
    case (Some r)
    then obtain i where i: "i < length rrs" "is_a (rrs ! i)" "r = rrs ! i" "\<And>j. j < i \<Longrightarrow> \<not> is_a (rrs ! j)"
      by (auto simp: find_Some_iff)
    then have "list_all (\<lambda>r. \<not> is_a r) (take i rrs)" by (auto simp: list_all_length)
    then show thesis using that [of "take i rrs" r "drop (Suc i) rrs"] i Some id_take_nth_drop [OF i(1)] by simp
  qed
  define pre where "pre = hdr @ concat (map rr_wire before)"
  define rest where "rest = concat (map rr_wire after)"
  have dd: "d = pre @ rr_wire r @ rest" by (simp add: d_def pre_def rest_def split(1))
  have ok: "list_all rr_ok before" "rr_ok r" "4 \<le> length (rr_data r)" using assms(2,4) split(1) by auto
  obtain p where "answer_walk d (length hdr) (length hdr) = answer_walk d (length pre) p"
    using answer_walk_skips [OF ok(1) split(2), of hdr "rr_wire r @ rest" "length hdr"] by (auto simp: dd pre_def)
  moreover have "answer_walk d (length pre) p = Some (length pre + length (rr_owner r))"
  proof (cases "is_a r")
    case False
    then have "d = pre @ rr_wire r" using split(4) dd by (simp add: rest_def)
    then have "answer_walk d (length (pre @ rr_wire r)) q = Some q" for q by (subst answer_walk.simps) simp
    then show ?thesis using answer_walk_record [OF ok(2), of pre rest p] False by (simp add: dd)
  qed (use answer_walk_record [OF ok(2), of pre rest p] in \<open>simp add: dd\<close>)
  ultimately have walk: "answer_walk d (length hdr) (length hdr) = Some (length pre + length (rr_owner r))" by simp
  have slice: "b_slice d (length pre + length (rr_owner r) + 10) (length pre + length (rr_owner r) + 14) = Some (take 4 (rr_data r))"
    using record_data [OF ok(2,3), of pre rest] by (simp add: dd)
  then have "length pre + length (rr_owner r) + 14 \<le> length d" by (simp add: b_slice_Some)
  then have small: "length pre + length (rr_owner r) + 14 \<le> usize_max" "length hdr \<le> usize_max"
    using assms(5) by (simp_all add: d_def usize_max_def)
  have "usize_checked_add name_end 5 = Some (length hdr)" using small(2) assms(1) by (simp add: usize_checked_add_def)
  then have "first_a_record d name_end = Some (Some (first_four (take 4 (rr_data r))))"
    using walk slice small(1) by (simp add: first_a_record_def usize_checked_add_def first_four_def)
  then show ?thesis using split(3) by (simp add: d_def first_four_def)
qed

definition sample_answer :: "u8 \<Rightarrow> bytes \<Rightarrow> answer" where
  "sample_answer t data = \<lparr>rr_owner = [0xc0, 12], rr_type = (0, t), rr_class_ttl = [0, 1, 0, 0, 0, 60],
     rr_rdlen = (0, of_nat (length data)), rr_data = data\<rparr>"

theorem first_address_of_answers_witness:
  "first_a_record (replicate 20 7 @ rr_wire (sample_answer 5 [3, 119, 119, 119, 0xc0, 12]) @ rr_wire (sample_answer 1 [10, 0, 0, 1])) 15 =
     Some (Some 0x0a000001) \<and>
   first_a_record (replicate 20 7 @ rr_wire (sample_answer 5 [3, 119, 119, 119, 0xc0, 12])) 15 = Some (Some 0x03777777)"
proof -
  have ok: "rr_ok (sample_answer 5 [3, 119, 119, 119, 0xc0, 12])" "rr_ok (sample_answer 1 [10, 0, 0, 1])"
    by (auto simp: rr_ok_def sample_answer_def unat_be16 intro!: exI [of _ "0xc0"])
  have v: "be32 10 0 0 1 = 0x0a000001" "be32 3 119 119 119 = 0x03777777" by code_simp+
  show ?thesis
    using first_address_of_answers [of "replicate 20 7" 15 "[sample_answer 5 [3, 119, 119, 119, 0xc0, 12], sample_answer 1 [10, 0, 0, 1]]"]
      first_address_of_answers [of "replicate 20 7" 15 "[sample_answer 5 [3, 119, 119, 119, 0xc0, 12]]"] ok v
    by (simp add: sample_answer_def is_a_def first_four_def rr_wire_def)
qed

end
