(* ===== verification/Hello.thy ===== *)
theory Hello
  imports Fasthash
begin

text \<open>
  \<open>protocols/hello.rs\<close>: the fixed table in which a ClientHello split over packets is put together.
  The bytes of a slot are marked in a bitmap a word at a time; a key (an odd flow hash) may live in
  two slots. A second and a tick count are \<open>nat\<close>; \<open>None\<close> is a panic: a read or a write outside a
  slice.
\<close>

section \<open>The bitmap\<close>

definition slots_len :: nat where "slots_len = 64"
definition hello_cap :: nat where "hello_cap = 4096"
definition hello_ttl :: nat where "hello_ttl = 3"

definition trailing_ones :: "u64 \<Rightarrow> nat" where
  "trailing_ones w = length (takeWhile (bit w) [0..<64])"

fun count_ones :: "u64 list \<Rightarrow> nat" where
  "count_ones [] = 0"
| "count_ones (w # ws) = (let ones = trailing_ones w in if ones < 64 then ones else ones + count_ones ws)"

function mark :: "u64 list \<Rightarrow> nat \<Rightarrow> nat \<Rightarrow> u64 list option" where
  "mark filled b finish =
     (if b < finish
      then (let k = b mod 64;
                n = min (64 - k) (finish - b);
                ones = (if n = 64 then - 1 else push_bit k (push_bit n 1 - 1))
            in if b div 64 < length filled
               then mark (filled[b div 64 := filled ! (b div 64) OR ones]) (b + n) finish
               else None)
      else Some filled)"
  by pat_completeness auto
termination by (relation "measure (\<lambda>(f, b, e). e - b)") (auto simp: min_def)

declare mark.simps [simp del]

section \<open>The table\<close>

record hello_slot =
  hs_key :: u64
  hs_base :: u32
  hs_need :: nat
  hs_sec :: nat
  hs_tick :: nat
  hs_reported :: bool
  hs_filled :: "u64 list"
  hs_buf :: bytes

definition empty_slot :: hello_slot where
  "empty_slot = \<lparr>hs_key = 0, hs_base = 0, hs_need = 0, hs_sec = 0, hs_tick = 0, hs_reported = False,
     hs_filled = replicate (hello_cap div 64) 0, hs_buf = replicate hello_cap 0\<rparr>"

definition slot_prefix :: "hello_slot \<Rightarrow> nat" where
  "slot_prefix s = min (count_ones (hs_filled s)) (hs_need s)"

record hello_done =
  hd_bytes :: bytes
  hd_reported :: bool

record assembler =
  as_slots :: "hello_slot list"
  as_newest :: nat
  as_live :: nat
  as_ticks :: nat

definition as_default :: assembler where
  "as_default = \<lparr>as_slots = [], as_newest = 0, as_live = 0, as_ticks = 0\<rparr>"

definition pair_of :: "u64 \<Rightarrow> nat \<times> nat" where
  "pair_of key = (let i = unat (drop_bit 32 key) mod slots_len in (i, i XOR 1))"

text \<open>The hash of a flow under the process seed, made odd.\<close>

definition seeded_write_u16 :: "u64 \<Rightarrow> u16 \<Rightarrow> u64" where
  "seeded_write_u16 h i = seeded_write h (le_bytes 2 i)"

definition flow_key :: "u64 \<Rightarrow> ip \<Rightarrow> u16 \<Rightarrow> ip \<Rightarrow> u16 \<Rightarrow> bytes \<Rightarrow> u64" where
  "flow_key seed src src_port dst dst_port extra =
     (let h = seeded_write_u16 (seeded_ip (seeded_write_u16 (seeded_ip seed src) src_port) dst) dst_port
      in seeded_finish seed (seeded_write h extra) OR 1)"

definition hello_start :: "u64 \<Rightarrow> u32 \<Rightarrow> nat \<Rightarrow> nat \<Rightarrow> bool \<Rightarrow> assembler \<Rightarrow> assembler option" where
  "hello_start key base need sec reported as0 =
     (let as = (if as_slots as0 = [] then as0\<lparr>as_slots := replicate slots_len empty_slot\<rparr> else as0);
          (a, b) = pair_of key
      in do {
        sa \<leftarrow> b_at (as_slots as) a;
        sb \<leftarrow> b_at (as_slots as) b;
        let i = (if hs_key sa = key then a
                 else if hs_key sb = key \<or> hs_key sa \<noteq> 0 \<and> (hs_key sb = 0 \<or> hs_tick sb < hs_tick sa) then b
                 else a);
        s \<leftarrow> b_at (as_slots as) i;
        Some (as\<lparr>as_ticks := as_ticks as + 1,
                 as_live := (if hs_key s = 0 then as_live as + 1 else as_live as),
                 as_slots := (as_slots as)[i := s\<lparr>hs_key := key, hs_tick := as_ticks as + 1, hs_base := base,
                    hs_need := min need hello_cap, hs_sec := sec, hs_reported := reported,
                    hs_filled := replicate (hello_cap div 64) 0\<rparr>],
                 as_newest := sec\<rparr>)
      })"

definition hello_idle :: "nat \<Rightarrow> assembler \<Rightarrow> bool \<times> assembler" where
  "hello_idle sec as0 =
     (let as = (if as_live as0 > 0 \<and> sec > as_newest as0 + hello_ttl
                then as0\<lparr>as_slots := map (\<lambda>s. s\<lparr>hs_key := 0\<rparr>) (as_slots as0), as_live := 0\<rparr> else as0)
      in (as_live as = 0, as))"

text \<open>\<open>self.live -= 1\<close> underflows, and panics, at zero.\<close>

definition hello_free :: "nat \<Rightarrow> assembler \<Rightarrow> assembler option" where
  "hello_free i as = do {
     s \<leftarrow> b_at (as_slots as) i;
     if as_live as = 0 then None
     else Some (as\<lparr>as_slots := (as_slots as)[i := s\<lparr>hs_key := 0\<rparr>], as_live := as_live as - 1\<rparr>)
   }"

definition hello_find :: "u64 \<Rightarrow> nat \<Rightarrow> assembler \<Rightarrow> (nat option \<times> assembler) option" where
  "hello_find key sec as0 =
     (let (idle, as) = hello_idle sec as0
      in if idle then Some (None, as)
         else (let (a, b) = pair_of key in do {
           sa \<leftarrow> b_at (as_slots as) a;
           i \<leftarrow> (if hs_key sa = key then Some (Some a)
                 else do { sb \<leftarrow> b_at (as_slots as) b; Some (if hs_key sb = key then Some b else None) });
           (case i of
              None \<Rightarrow> Some (None, as)
            | Some i \<Rightarrow> do {
                s \<leftarrow> b_at (as_slots as) i;
                if sec > hs_sec s + hello_ttl then do { as' \<leftarrow> hello_free i as; Some (None, as') }
                else Some (Some i, as)
              })
         }))"

definition hello_pending :: "u64 \<Rightarrow> nat \<Rightarrow> assembler \<Rightarrow> (bool \<times> assembler) option" where
  "hello_pending key sec as = do { (i, as') \<leftarrow> hello_find key sec as; Some (i \<noteq> None, as') }"

definition hello_base :: "u64 \<Rightarrow> nat \<Rightarrow> assembler \<Rightarrow> (u32 option \<times> assembler) option" where
  "hello_base key sec as = do {
     (i, as') \<leftarrow> hello_find key sec as;
     (case i of None \<Rightarrow> Some (None, as')
      | Some i \<Rightarrow> do { s \<leftarrow> b_at (as_slots as') i; Some (Some (hs_base s), as') })
   }"

definition write_slot :: "nat \<Rightarrow> bytes \<Rightarrow> hello_slot \<Rightarrow> hello_slot option" where
  "write_slot off data s =
     (if off < hs_need s
      then (let finish = min (usize_saturating_add off (length data)) (hs_need s)
            in if finish \<le> length (hs_buf s) \<and> finish - off \<le> length data
               then do {
                 filled \<leftarrow> mark (hs_filled s) off finish;
                 Some (s\<lparr>hs_buf := take off (hs_buf s) @ take (finish - off) data @ drop finish (hs_buf s), hs_filled := filled\<rparr>)
               }
               else None)
      else Some s)"

definition hello_put :: "u64 \<Rightarrow> nat \<Rightarrow> nat \<Rightarrow> bytes \<Rightarrow> assembler \<Rightarrow> (hello_done option \<times> assembler) option" where
  "hello_put key sec off data as0 = do {
     (r, as) \<leftarrow> hello_find key sec as0;
     (case r of
        None \<Rightarrow> Some (None, as)
      | Some i \<Rightarrow> do {
          s0 \<leftarrow> b_at (as_slots as) i;
          s \<leftarrow> write_slot off data s0;
          let as = as\<lparr>as_slots := (as_slots as)[i := s]\<rparr>;
          if slot_prefix s < hs_need s then Some (None, as)
          else do {
            as \<leftarrow> hello_free i as;
            bytes \<leftarrow> b_slice (hs_buf s) 0 (hs_need s);
            Some (Some \<lparr>hd_bytes = bytes, hd_reported = hs_reported s\<rparr>, as)
          }
        })
   }"

definition hello_prefix :: "u64 \<Rightarrow> nat \<Rightarrow> assembler \<Rightarrow> (bytes option \<times> assembler) option" where
  "hello_prefix key sec as = do {
     (i, as') \<leftarrow> hello_find key sec as;
     (case i of None \<Rightarrow> Some (None, as')
      | Some i \<Rightarrow> do { s \<leftarrow> b_at (as_slots as') i; p \<leftarrow> b_slice (hs_buf s) 0 (slot_prefix s); Some (Some p, as') })
   }"

definition hello_mark_reported :: "u64 \<Rightarrow> nat \<Rightarrow> assembler \<Rightarrow> assembler option" where
  "hello_mark_reported key sec as = do {
     (i, as') \<leftarrow> hello_find key sec as;
     (case i of None \<Rightarrow> Some as'
      | Some i \<Rightarrow> do { s \<leftarrow> b_at (as_slots as') i; Some (as'\<lparr>as_slots := (as_slots as')[i := s\<lparr>hs_reported := True\<rparr>]\<rparr>) })
   }"

definition hello_forget :: "u64 \<Rightarrow> nat \<Rightarrow> assembler \<Rightarrow> assembler option" where
  "hello_forget key sec as = do {
     (i, as') \<leftarrow> hello_find key sec as;
     (case i of None \<Rightarrow> Some as' | Some i \<Rightarrow> hello_free i as')
   }"

section \<open>The bitmap says what was written\<close>

definition has_bit :: "u64 list \<Rightarrow> nat \<Rightarrow> bool" where
  "has_bit f i \<longleftrightarrow> bit (f ! (i div 64)) (i mod 64)"

lemma bit_run: "k + n \<le> 64 \<Longrightarrow> bit (push_bit k (push_bit n 1 - 1) :: u64) i \<longleftrightarrow> k \<le> i \<and> i < k + n"
  by (auto simp: push_bit_of_1 mask_eq_exp_minus_1 [symmetric] bit_simps)

lemma mark_spec:
  "finish \<le> 64 * length f \<Longrightarrow>
   \<exists>f'. mark f b finish = Some f' \<and> length f' = length f \<and>
     (\<forall>i < 64 * length f. has_bit f' i \<longleftrightarrow> has_bit f i \<or> (b \<le> i \<and> i < finish))"
proof (induction f b finish rule: mark.induct)
  case (1 f b finish)
  show ?case
  proof (cases "b < finish")
    case True
    define k n where kn: "k = b mod 64" "n = min (64 - k) (finish - b)"
    define ones where "ones = (if n = 64 then - 1 else push_bit k (push_bit n 1 - 1) :: u64)"
    define g where "g = f[b div 64 := f ! (b div 64) OR ones]"
    have w: "b div 64 < length f" using True 1(2) by (simp add: less_mult_imp_div_less)
    have kn': "k + n \<le> 64" "0 < n" "b + n \<le> finish" using True by (auto simp: kn min_def)
    have bits: "bit ones j \<longleftrightarrow> k \<le> j \<and> j < k + n" if "j < 64" for j
      using that bit_run [OF kn'(1)] kn'(1) by (auto simp: ones_def)
    have g: "has_bit g i \<longleftrightarrow> has_bit f i \<or> (b \<le> i \<and> i < b + n)" if "i < 64 * length f" for i
    proof (cases "i div 64 = b div 64")
      case True
      have b: "b = 64 * (b div 64) + k" by (simp add: kn)
      have i: "i = 64 * (b div 64) + i mod 64" using True by (metis mult_div_mod_eq)
      have "k \<le> i mod 64 \<and> i mod 64 < k + n \<longleftrightarrow> b \<le> i \<and> i < b + n"
        by (subst (1 2) b, subst (3 4) i) simp
      then show ?thesis using w bits [of "i mod 64"] True by (simp add: has_bit_def g_def bit_or_iff)
    next
      case False
      moreover have "\<not> (b \<le> i \<and> i < b + n)"
      proof
        assume "b \<le> i \<and> i < b + n"
        then have "b div 64 \<le> i div 64" and i: "i < b + n" by (simp_all add: div_le_mono)
        have "b = 64 * (b div 64) + k" by (simp add: kn)
        then have "i < (b div 64 + 1) * 64" using i kn'(1) by simp
        then have "i div 64 < b div 64 + 1" by (simp add: less_mult_imp_div_less)
        then show False using False \<open>b div 64 \<le> i div 64\<close> by simp
      qed
      ultimately show ?thesis by (auto simp: has_bit_def g_def)
    qed
    have m: "mark f b finish = mark g (b + n) finish"
      using True w by (subst mark.simps) (simp add: kn g_def ones_def Let_def)
    have "\<exists>f'. mark g (b + n) finish = Some f' \<and> length f' = length g \<and>
       (\<forall>i < 64 * length g. has_bit f' i \<longleftrightarrow> has_bit g i \<or> (b + n \<le> i \<and> i < finish))"
      using 1(1) [OF True kn(1) kn(2) _ w, of ones] 1(2) by (simp add: g_def ones_def)
    then show ?thesis using m g kn'(3) by (fastforce simp: g_def)
  next
    case False
    then show ?thesis by (subst mark.simps) auto
  qed
qed

lemma mono_prefix:
  "(\<forall>i < length (takeWhile P xs). P (xs ! i)) \<and>
   (length (takeWhile P xs) < length xs \<longrightarrow> \<not> P (xs ! length (takeWhile P xs)))"
  by (induction xs) (auto simp: nth_Cons split: nat.splits)

lemma trailing_ones_spec:
  "trailing_ones w \<le> 64" "i < trailing_ones w \<Longrightarrow> bit w i" "trailing_ones w < 64 \<Longrightarrow> \<not> bit w (trailing_ones w)"
proof -
  show le: "trailing_ones w \<le> 64" using length_takeWhile_le [of "bit w" "[0..<64]"] by (simp add: trailing_ones_def)
  note m = mono_prefix [of "bit w" "[0..<64]", folded trailing_ones_def]
  show "bit w i" if "i < trailing_ones w" using m that le by (metis diff_zero length_upt nth_upt add_0 order_less_le_trans)
  show "\<not> bit w (trailing_ones w)" if "trailing_ones w < 64" using m that by simp
qed

lemma has_bit_Cons: "has_bit (w # f) i = (if i < 64 then bit w i else has_bit f (i - 64))"
proof (cases "i < 64")
  case False
  then obtain j where "i = j + 64" by (metis add.commute le_Suc_ex not_le)
  then show ?thesis by (simp add: has_bit_def)
qed (simp add: has_bit_def)

lemma count_ones_spec:
  "count_ones f \<le> 64 * length f \<and> (\<forall>i < count_ones f. has_bit f i) \<and>
   (count_ones f < 64 * length f \<longrightarrow> \<not> has_bit f (count_ones f))"
proof (induction f)
  case (Cons w f)
  show ?case
  proof (cases "trailing_ones w < 64")
    case True
    then show ?thesis using trailing_ones_spec [where w = w] by (auto simp: Let_def has_bit_Cons)
  next
    case False
    then have "trailing_ones w = 64" using trailing_ones_spec(1) [where w = w] by simp
    then show ?thesis using Cons trailing_ones_spec(2) by (auto simp: Let_def has_bit_Cons)
  qed
qed simp

lemma count_ones_iff: "n \<le> 64 * length f \<Longrightarrow> n \<le> count_ones f \<longleftrightarrow> (\<forall>i < n. has_bit f i)"
  using count_ones_spec [of f] by (metis leI order_less_le_trans)

section \<open>The invariant of the table\<close>

text \<open>Every marked byte of a slot in use is the byte of its message \<open>M\<close> at that offset.\<close>

definition slot_ok :: "(u64 \<Rightarrow> nat \<Rightarrow> u8) \<Rightarrow> hello_slot \<Rightarrow> bool" where
  "slot_ok M s \<longleftrightarrow> length (hs_filled s) = 64 \<and> length (hs_buf s) = hello_cap \<and> hs_need s \<le> hello_cap \<and>
     (hs_key s \<noteq> 0 \<longrightarrow> (\<forall>i < hello_cap. has_bit (hs_filled s) i \<longrightarrow> i < hs_need s \<and> hs_buf s ! i = M (hs_key s) i))"

definition in_pair :: "u64 \<Rightarrow> nat \<Rightarrow> bool" where
  "in_pair key i \<longleftrightarrow> i = fst (pair_of key) \<or> i = snd (pair_of key)"

definition live_slots :: "hello_slot list \<Rightarrow> nat" where
  "live_slots ss = length (filter (\<lambda>s. hs_key s \<noteq> 0) ss)"

definition as_ok :: "(u64 \<Rightarrow> nat \<Rightarrow> u8) \<Rightarrow> assembler \<Rightarrow> bool" where
  "as_ok M as \<longleftrightarrow> (as_slots as = [] \<or> length (as_slots as) = slots_len) \<and> (\<forall>s \<in> set (as_slots as). slot_ok M s) \<and>
     as_live as = live_slots (as_slots as) \<and>
     (\<forall>i < length (as_slots as). hs_key (as_slots as ! i) \<noteq> 0 \<longrightarrow> in_pair (hs_key (as_slots as ! i)) i) \<and>
     (\<forall>i < length (as_slots as). \<forall>j < length (as_slots as).
        hs_key (as_slots as ! i) = hs_key (as_slots as ! j) \<longrightarrow> hs_key (as_slots as ! i) \<noteq> 0 \<longrightarrow> i = j)"

lemma pair_less: "fst (pair_of key) < slots_len" "snd (pair_of key) < slots_len"
proof -
  have "list_all (\<lambda>i :: nat. i XOR 1 < 64) [0..<64]" by code_simp
  then have "i XOR 1 < 64" if "i < 64" for i :: nat using that by (simp add: list_all_iff)
  then show "fst (pair_of key) < slots_len" "snd (pair_of key) < slots_len"
    by (simp_all add: pair_of_def slots_len_def Let_def)
qed

lemma in_pair_less: "in_pair key i \<Longrightarrow> i < slots_len"
  using pair_less by (auto simp: in_pair_def)

lemma live_update:
  "i < length ss \<Longrightarrow> live_slots (ss[i := s]) + of_bool (hs_key (ss ! i) \<noteq> 0) = live_slots ss + of_bool (hs_key s \<noteq> 0)"
proof (induction ss arbitrary: i)
  case (Cons x ss)
  then show ?case by (cases i) (auto simp: live_slots_def)
qed simp

lemma live_pos: "i < length ss \<Longrightarrow> hs_key (ss ! i) \<noteq> 0 \<Longrightarrow> 0 < live_slots ss"
  by (auto simp: live_slots_def filter_empty_conv dest: nth_mem)

text \<open>Changing one slot.\<close>

lemma as_ok_update:
  assumes "as_ok M as" and "i < length (as_slots as)" and "slot_ok M s"
    and "hs_key s \<noteq> 0 \<Longrightarrow> in_pair (hs_key s) i"
    and "\<And>j. j < length (as_slots as) \<Longrightarrow> j \<noteq> i \<Longrightarrow> hs_key s \<noteq> 0 \<Longrightarrow> hs_key (as_slots as ! j) \<noteq> hs_key s"
    and "as_slots as' = (as_slots as)[i := s]"
    and "as_live as' + of_bool (hs_key (as_slots as ! i) \<noteq> 0) = as_live as + of_bool (hs_key s \<noteq> 0)"
  shows "as_ok M as'"
proof -
  have "as_live as' = live_slots ((as_slots as)[i := s])"
    using live_update [OF assms(2), of s] assms(1,7) by (simp add: as_ok_def)
  moreover have "\<forall>x \<in> set ((as_slots as)[i := s]). slot_ok M x"
    using assms(1,3) set_update_subset_insert [of "as_slots as" i s] by (auto simp: as_ok_def)
  moreover have "a = b"
    if "a < length (as_slots as)" "b < length (as_slots as)" "hs_key ((as_slots as)[i := s] ! a) = hs_key ((as_slots as)[i := s] ! b)"
      "hs_key ((as_slots as)[i := s] ! a) \<noteq> 0" for a b
  proof -
    have u: "\<And>a b. a < length (as_slots as) \<Longrightarrow> b < length (as_slots as) \<Longrightarrow>
        hs_key (as_slots as ! a) = hs_key (as_slots as ! b) \<Longrightarrow> hs_key (as_slots as ! a) \<noteq> 0 \<Longrightarrow> a = b"
      using assms(1) unfolding as_ok_def by blast
    show ?thesis
    proof (cases "a = i \<or> b = i")
      case True
      then show ?thesis using that assms(2) assms(5) [of a] assms(5) [of b] by (cases "a = i"; cases "b = i") simp_all
    next
      case False
      then show ?thesis using that u [of a b] by simp
    qed
  qed
  moreover have "\<forall>a < length (as_slots as). hs_key ((as_slots as)[i := s] ! a) \<noteq> 0 \<longrightarrow> in_pair (hs_key ((as_slots as)[i := s] ! a)) a"
    using assms(1,2,4) by (simp add: as_ok_def nth_list_update)
  moreover have "(as_slots as)[i := s] = [] \<or> length ((as_slots as)[i := s]) = slots_len" using assms(1) by (simp add: as_ok_def)
  ultimately show ?thesis unfolding as_ok_def assms(6) length_list_update by blast
qed

lemma idle_ok:
  assumes "as_ok M as"
  shows "as_ok M (snd (hello_idle sec as)) \<and> fst (hello_idle sec as) = (as_live (snd (hello_idle sec as)) = 0) \<and>
    length (as_slots (snd (hello_idle sec as))) = length (as_slots as)"
proof (cases "as_live as > 0 \<and> sec > as_newest as + hello_ttl")
  case True
  define as' where "as' = as\<lparr>as_slots := map (\<lambda>s. s\<lparr>hs_key := 0\<rparr>) (as_slots as), as_live := 0\<rparr>"
  have "hello_idle sec as = (True, as')" using True by (simp add: hello_idle_def as'_def Let_def)
  moreover have "as_ok M as'"
    using assms by (auto simp: as_ok_def as'_def slot_ok_def live_slots_def o_def)
  ultimately show ?thesis by (simp add: as'_def)
next
  case False
  then have "hello_idle sec as = (as_live as = 0, as)" unfolding hello_idle_def Let_def by (simp only: if_False)
  then show ?thesis using assms by simp
qed

lemma free_ok:
  assumes "as_ok M as" and "i < length (as_slots as)" and "hs_key (as_slots as ! i) \<noteq> 0"
  shows "\<exists>as'. hello_free i as = Some as' \<and> as_ok M as' \<and>
    as' = as\<lparr>as_slots := (as_slots as)[i := (as_slots as ! i)\<lparr>hs_key := 0\<rparr>], as_live := as_live as - 1\<rparr>"
proof -
  define as' where "as' = as\<lparr>as_slots := (as_slots as)[i := (as_slots as ! i)\<lparr>hs_key := 0\<rparr>], as_live := as_live as - 1\<rparr>"
  have "0 < as_live as" using live_pos [OF assms(2,3)] assms(1) by (simp add: as_ok_def)
  then have "hello_free i as = Some as'" using assms(2) by (simp add: hello_free_def as'_def)
  moreover have "as_ok M as'"
  proof (rule as_ok_update [OF assms(1,2)])
    show "slot_ok M ((as_slots as ! i)\<lparr>hs_key := 0\<rparr>)" using assms(1,2) by (auto simp: as_ok_def slot_ok_def)
    show "as_slots as' = (as_slots as)[i := (as_slots as ! i)\<lparr>hs_key := 0\<rparr>]" by (simp add: as'_def)
  qed (use \<open>0 < as_live as\<close> assms(3) in \<open>simp_all add: as'_def\<close>)
  ultimately show ?thesis using as'_def by blast
qed

section \<open>The operations keep it\<close>

lemma as_ok_slot: "as_ok M as \<Longrightarrow> i < length (as_slots as) \<Longrightarrow> slot_ok M (as_slots as ! i)"
  by (simp add: as_ok_def)

lemma as_ok_uniq: "as_ok M as \<Longrightarrow> i < length (as_slots as) \<Longrightarrow> j < length (as_slots as) \<Longrightarrow>
    hs_key (as_slots as ! i) = key \<Longrightarrow> hs_key (as_slots as ! j) = key \<Longrightarrow> key \<noteq> 0 \<Longrightarrow> i = j"
  unfolding as_ok_def by metis

lemma as_ok_pair: "as_ok M as \<Longrightarrow> i < length (as_slots as) \<Longrightarrow> hs_key (as_slots as ! i) = key \<Longrightarrow> key \<noteq> 0 \<Longrightarrow> in_pair key i"
  unfolding as_ok_def by blast

lemma live_slots_some: "as_ok M as \<Longrightarrow> as_live as \<noteq> 0 \<Longrightarrow> length (as_slots as) = slots_len"
  by (auto simp: as_ok_def live_slots_def)

text \<open>The slot of a key is where the lookup looks, and found while neither it nor the table is stale.\<close>

lemma find_ok:
  assumes "as_ok M as" and "key \<noteq> 0"
  shows "\<exists>r as'. hello_find key sec as = Some (r, as') \<and> as_ok M as' \<and>
    (\<forall>i. r = Some i \<longrightarrow> i < length (as_slots as') \<and> hs_key (as_slots as' ! i) = key)"
proof -
  obtain idle as1 where i1: "hello_idle sec as = (idle, as1)" by (cases "hello_idle sec as")
  have ok1: "as_ok M as1" "idle \<longleftrightarrow> as_live as1 = 0" using idle_ok [OF assms(1), of sec] i1 by simp_all
  obtain a b where ab: "pair_of key = (a, b)" by (cases "pair_of key")
  show ?thesis
  proof (cases idle)
    case True
    then show ?thesis using i1 ok1 by (simp add: hello_find_def)
  next
    case False
    then have n: "length (as_slots as1) = slots_len" using live_slots_some [OF ok1(1)] ok1(2) by simp
    have less: "a < slots_len" "b < slots_len" using pair_less [of key] ab by simp_all
    define r where "r = (if hs_key (as_slots as1 ! a) = key then Some a else if hs_key (as_slots as1 ! b) = key then Some b else None)"
    have f: "hello_find key sec as = (case r of None \<Rightarrow> Some (None, as1)
        | Some i \<Rightarrow> do { s \<leftarrow> b_at (as_slots as1) i;
            if sec > hs_sec s + hello_ttl then do { as' \<leftarrow> hello_free i as1; Some (None, as') } else Some (Some i, as1) })"
      using i1 False ab n less by (simp add: hello_find_def r_def)
    show ?thesis
    proof (cases r)
      case None
      then show ?thesis using f ok1 by simp
    next
      case (Some i)
      then have i: "i < length (as_slots as1)" "hs_key (as_slots as1 ! i) = key" using less n by (auto simp: r_def split: if_splits)
      then have nz: "hs_key (as_slots as1 ! i) \<noteq> 0" using assms(2) by simp
      show ?thesis
      proof (cases "sec > hs_sec (as_slots as1 ! i) + hello_ttl")
        case True
        then show ?thesis using free_ok [OF ok1(1) i(1) nz] f Some i(1) by auto
      next
        case False
        then show ?thesis using f Some i ok1(1) by simp
      qed
    qed
  qed
qed

lemma find_live:
  assumes "as_ok M as" and "i < length (as_slots as)" and "hs_key (as_slots as ! i) = key" and "key \<noteq> 0"
    and "sec \<le> as_newest as + hello_ttl" and "sec \<le> hs_sec (as_slots as ! i) + hello_ttl"
  shows "hello_find key sec as = Some (Some i, as)"
proof -
  obtain a b where ab: "pair_of key = (a, b)" by (cases "pair_of key")
  have nz: "hs_key (as_slots as ! i) \<noteq> 0" using assms(3,4) by simp
  have "as_live as \<noteq> 0" using live_pos [OF assms(2) nz] assms(1) by (simp add: as_ok_def)
  then have n: "length (as_slots as) = slots_len" and idle: "hello_idle sec as = (False, as)"
    using live_slots_some [OF assms(1)] assms(5) by (simp_all add: hello_idle_def)
  have less: "a < slots_len" "b < slots_len" using pair_less [of key] ab by simp_all
  have "in_pair key i" using as_ok_pair [OF assms(1,2,3,4)] .
  then have p: "i = a \<or> i = b" by (simp add: in_pair_def ab)
  have u: "j = i" if "j < slots_len" "hs_key (as_slots as ! j) = key" for j
    using as_ok_uniq [OF assms(1) _ assms(2) that(2) assms(3,4)] that(1) n by simp
  have "(if hs_key (as_slots as ! a) = key then Some (Some a)
      else do { sb \<leftarrow> b_at (as_slots as) b; Some (if hs_key sb = key then Some b else None) }) = Some (Some i)"
    using p u [OF less(1)] assms(3) n less by auto
  then show ?thesis using idle ab n less assms(2,6) by (simp add: hello_find_def)
qed

lemma slot_ok_write:
  assumes s: "slot_ok M s" and data: "data = map (M (hs_key s)) [off..<off + length data]" and off: "off < hs_need s"
    and fin: "finish = min (usize_saturating_add off (length data)) (hs_need s)"
    and m: "mark (hs_filled s) off finish = Some filled"
  shows "slot_ok M (s\<lparr>hs_buf := take off (hs_buf s) @ take (finish - off) data @ drop finish (hs_buf s), hs_filled := filled\<rparr>) \<and>
    (\<forall>i < hello_cap. has_bit filled i \<longleftrightarrow> has_bit (hs_filled s) i \<or> (off \<le> i \<and> i < finish))"
proof -
  have len: "length (hs_filled s) = 64" "length (hs_buf s) = hello_cap" "hs_need s \<le> hello_cap"
    using s by (simp_all add: slot_ok_def)
  have f: "finish \<le> hs_need s" "finish \<le> off + length data" unfolding fin usize_saturating_add_def by simp_all
  then have "finish \<le> 64 * length (hs_filled s)" using len by (simp add: hello_cap_def)
  then have bits: "length filled = 64" "\<And>i. i < hello_cap \<Longrightarrow> has_bit filled i \<longleftrightarrow> has_bit (hs_filled s) i \<or> (off \<le> i \<and> i < finish)"
    using mark_spec [of finish "hs_filled s" off] m len by (auto simp: hello_cap_def)
  define buf where "buf = take off (hs_buf s) @ take (finish - off) data @ drop finish (hs_buf s)"
  have lb: "length buf = hello_cap" if "off \<le> finish" using that f len by (simp add: buf_def)
  have ge: "off \<le> finish" using off unfolding fin usize_saturating_add_def usize_max_def
    using len(3) by (simp add: hello_cap_def)
  have at: "buf ! i = (if off \<le> i \<and> i < finish then M (hs_key s) i else hs_buf s ! i)" if "i < hello_cap" for i
  proof -
    have "data ! (i - off) = M (hs_key s) i" if "off \<le> i" "i < finish"
      using that f by (subst data) simp
    then show ?thesis using that ge f len by (auto simp: buf_def nth_append)
  qed
  have "slot_ok M (s\<lparr>hs_buf := buf, hs_filled := filled\<rparr>)"
    using s bits lb [OF ge] at f(1) by (auto simp: slot_ok_def)
  then show ?thesis using bits by (simp add: buf_def)
qed

lemma slot_prefix_full: "slot_ok M s \<Longrightarrow> slot_prefix s < hs_need s \<longleftrightarrow> \<not> (\<forall>i < hs_need s. has_bit (hs_filled s) i)"
  using count_ones_iff [of "hs_need s" "hs_filled s"] by (auto simp: slot_ok_def slot_prefix_def hello_cap_def)

lemma put_found:
  assumes ok: "as_ok M as" and found: "hello_find key sec as0 = Some (Some i, as)" and i: "i < length (as_slots as)"
    and key: "hs_key (as_slots as ! i) = key" "key \<noteq> 0" and data: "data = map (M key) [off..<off + length data]"
  defines "old \<equiv> as_slots as ! i"
  shows "\<exists>s. (\<forall>j < hs_need old. has_bit (hs_filled s) j \<longleftrightarrow> has_bit (hs_filled old) j \<or> (off \<le> j \<and> j < off + length data)) \<and>
    hs_key s = key \<and> hs_need s = hs_need old \<and> hs_sec s = hs_sec old \<and> hs_reported s = hs_reported old \<and>
    as_ok M (as\<lparr>as_slots := (as_slots as)[i := s]\<rparr>) \<and>
    (if \<forall>j < hs_need old. has_bit (hs_filled s) j
     then \<exists>as'. hello_put key sec off data as0 =
         Some (Some \<lparr>hd_bytes = map (M key) [0..<hs_need old], hd_reported = hs_reported old\<rparr>, as') \<and> as_ok M as'
     else hello_put key sec off data as0 = Some (None, as\<lparr>as_slots := (as_slots as)[i := s]\<rparr>))"
proof -
  have s0: "slot_ok M old" using as_ok_slot [OF ok i] by (simp add: old_def)
  then have need: "hs_need old \<le> hello_cap" "length (hs_buf old) = hello_cap" by (simp_all add: slot_ok_def)
  define finish where "finish = min (usize_saturating_add off (length data)) (hs_need old)"
  have reach: "off \<le> j \<and> j < finish \<longleftrightarrow> off \<le> j \<and> j < off + length data" if "j < hs_need old" for j
    using that need(1) by (auto simp: finish_def usize_saturating_add_def usize_max_def hello_cap_def)
  have dk: "data = map (M (hs_key old)) [off..<off + length data]" using data key(1) by (simp add: old_def)
  obtain s where s: "slot_ok M s" "hs_key s = key" "hs_need s = hs_need old" "hs_sec s = hs_sec old" "hs_reported s = hs_reported old"
    "\<And>j. j < hs_need old \<Longrightarrow> has_bit (hs_filled s) j \<longleftrightarrow> has_bit (hs_filled old) j \<or> (off \<le> j \<and> j < off + length data)"
    "write_slot off data old = Some s"
  proof (cases "off < hs_need old")
    case True
    have "finish \<le> hello_cap" using need(1) unfolding finish_def by simp
    then have "finish \<le> 64 * length (hs_filled old)" using s0 by (simp add: slot_ok_def hello_cap_def)
    then obtain filled where m: "mark (hs_filled old) off finish = Some filled" using mark_spec by blast
    have w: "finish \<le> length (hs_buf old) \<and> finish - off \<le> length data"
      using need unfolding finish_def usize_saturating_add_def by (auto simp: min_def)
    note W = slot_ok_write [OF s0 dk True finish_def m]
    show thesis
      by (rule that [of "old\<lparr>hs_buf := take off (hs_buf old) @ take (finish - off) data @ drop finish (hs_buf old), hs_filled := filled\<rparr>"])
        (use W m w True key(1) reach need in \<open>auto simp: old_def write_slot_def finish_def Let_def\<close>)
  next
    case False
    then show thesis using that [of old] s0 key(1) by (simp add: old_def write_slot_def)
  qed
  define as1 where "as1 = as\<lparr>as_slots := (as_slots as)[i := s]\<rparr>"
  have ok1: "as_ok M as1"
  proof (rule as_ok_update [OF ok i s(1)])
    show "hs_key s \<noteq> 0 \<Longrightarrow> in_pair (hs_key s) i" using as_ok_pair [OF ok i key] s(2) by simp
    show "hs_key (as_slots as ! j) \<noteq> hs_key s" if "j < length (as_slots as)" "j \<noteq> i" for j
      using as_ok_uniq [OF ok that(1) i _ key] s(2) that(2) by auto
  qed (use s(2) key in \<open>simp_all add: as1_def\<close>)
  have at1: "as_slots as1 ! i = s" "i < length (as_slots as1)" using i by (simp_all add: as1_def)
  note full = slot_prefix_full [OF s(1)]
  have put: "hello_put key sec off data as0 =
      (if slot_prefix s < hs_need s then Some (None, as1)
       else do { as \<leftarrow> hello_free i as1; bytes \<leftarrow> b_slice (hs_buf s) 0 (hs_need s);
                 Some (Some \<lparr>hd_bytes = bytes, hd_reported = hs_reported s\<rparr>, as) })"
    using found i s(7) unfolding hello_put_def by (simp add: old_def [symmetric] Let_def as1_def)
  show ?thesis
  proof (intro exI [of _ s] conjI)
    show "\<forall>j < hs_need old. has_bit (hs_filled s) j \<longleftrightarrow> has_bit (hs_filled old) j \<or> (off \<le> j \<and> j < off + length data)"
      using s(6) by blast
    show "if \<forall>j < hs_need old. has_bit (hs_filled s) j
     then \<exists>as'. hello_put key sec off data as0 =
         Some (Some \<lparr>hd_bytes = map (M key) [0..<hs_need old], hd_reported = hs_reported old\<rparr>, as') \<and> as_ok M as'
     else hello_put key sec off data as0 = Some (None, as\<lparr>as_slots := (as_slots as)[i := s]\<rparr>)"
    proof (cases "\<forall>j < hs_need old. has_bit (hs_filled s) j")
      case True
      obtain as2 where as2: "hello_free i as1 = Some as2" "as_ok M as2" using free_ok [OF ok1 at1(2)] at1(1) s(2) key(2) by auto
      have "take (hs_need s) (hs_buf s) = map (M key) [0..<hs_need old]"
      proof (rule nth_equalityI)
        show "length (take (hs_need s) (hs_buf s)) = length (map (M key) [0..<hs_need old])" using s(1,3) by (simp add: slot_ok_def)
        fix j assume "j < length (take (hs_need s) (hs_buf s))"
        then show "take (hs_need s) (hs_buf s) ! j = map (M key) [0..<hs_need old] ! j"
          using s(1,2,3) True key(2) by (simp add: slot_ok_def)
      qed
      moreover have "b_slice (hs_buf s) 0 (hs_need s) = Some (take (hs_need s) (hs_buf s))"
        using s(1) by (simp add: b_slice_def slot_ok_def)
      ultimately show ?thesis using put full True as2 s(3,5) by simp
    next
      case False
      then show ?thesis using put full s(3) by (simp add: as1_def)
    qed
  qed (use s ok1 in \<open>simp_all add: as1_def\<close>)
qed

lemma start_ok:
  assumes ok: "as_ok M as0" and key: "key \<noteq> 0"
  shows "\<exists>as i. hello_start key base need sec reported as0 = Some as \<and> as_ok (M(key := m)) as \<and>
    i < length (as_slots as) \<and> hs_key (as_slots as ! i) = key \<and> hs_need (as_slots as ! i) = min need hello_cap \<and>
    hs_sec (as_slots as ! i) = sec \<and> hs_reported (as_slots as ! i) = reported \<and> as_newest as = sec \<and>
    (\<forall>j < hello_cap. \<not> has_bit (hs_filled (as_slots as ! i)) j)"
proof -
  define as where "as = (if as_slots as0 = [] then as0\<lparr>as_slots := replicate slots_len empty_slot\<rparr> else as0)"
  have "slot_ok M empty_slot" by (simp add: slot_ok_def empty_slot_def hello_cap_def)
  then have ok1: "as_ok M as" "length (as_slots as) = slots_len"
    using ok by (auto simp: as_ok_def as_def live_slots_def empty_slot_def split: if_splits)
  obtain a b where ab: "pair_of key = (a, b)" by (cases "pair_of key")
  have less: "a < slots_len" "b < slots_len" using pair_less [of key] ab by simp_all
  define sa sb where "sa = as_slots as ! a" "sb = as_slots as ! b"
  define i where "i = (if hs_key sa = key then a
     else if hs_key sb = key \<or> hs_key sa \<noteq> 0 \<and> (hs_key sb = 0 \<or> hs_tick sb < hs_tick sa) then b else a)"
  have i: "i < length (as_slots as)" "in_pair key i" using less ok1(2) ab by (auto simp: i_def in_pair_def)
  have other: "hs_key (as_slots as ! j) \<noteq> key" if j: "j < length (as_slots as)" "j \<noteq> i" for j
  proof
    assume k: "hs_key (as_slots as ! j) = key"
    then have "in_pair key j" using as_ok_pair [OF ok1(1) j(1) k key] by simp
    then have "j = a \<or> j = b" by (simp add: in_pair_def ab)
    moreover have "x = j" if "x < slots_len" "hs_key (as_slots as ! x) = key" for x
      using as_ok_uniq [OF ok1(1) _ j(1) that(2) k key] that(1) ok1(2) by simp
    moreover have "i = a" if "hs_key sa = key" using that by (simp add: i_def)
    moreover have "i = b" if "hs_key sa \<noteq> key" "hs_key sb = key" using that by (simp add: i_def)
    ultimately show False using j(2) k less unfolding sa_sb_def by metis
  qed
  define new where "new = (as_slots as ! i)\<lparr>hs_key := key, hs_tick := as_ticks as + 1, hs_base := base,
     hs_need := min need hello_cap, hs_sec := sec, hs_reported := reported, hs_filled := replicate (hello_cap div 64) 0\<rparr>"
  define as2 where "as2 = as\<lparr>as_ticks := as_ticks as + 1,
     as_live := (if hs_key (as_slots as ! i) = 0 then as_live as + 1 else as_live as), as_slots := (as_slots as)[i := new], as_newest := sec\<rparr>"
  have blank: "\<not> has_bit (replicate (hello_cap div 64) 0) j" if "j < hello_cap" for j
    using that by (simp add: has_bit_def hello_cap_def less_mult_imp_div_less)
  have "slot_ok M new"
    using as_ok_slot [OF ok1(1) i(1)] blank by (auto simp: slot_ok_def new_def hello_cap_def)
  then have ok2: "as_ok M as2"
    using as_ok_update [OF ok1(1) i(1), of new as2] i(2) other key by (auto simp: as2_def new_def)
  have same: "hs_key s = key \<Longrightarrow> s = new" if "s \<in> set (as_slots as2)" for s
    using that other i(1) by (auto simp: as2_def in_set_conv_nth nth_list_update split: if_splits)
  have "slot_ok (M(key := m)) s" if "s \<in> set (as_slots as2)" for s
  proof (cases "hs_key s = key")
    case True
    then show ?thesis using same [OF that] blank \<open>slot_ok M new\<close> by (auto simp: slot_ok_def new_def)
  next
    case False
    moreover have "slot_ok M s" using ok2 that by (simp add: as_ok_def)
    ultimately show ?thesis by (simp add: slot_ok_def)
  qed
  then have "as_ok (M(key := m)) as2" using ok2 by (simp add: as_ok_def)
  moreover have "hello_start key base need sec reported as0 = Some as2"
    unfolding hello_start_def Let_def ab case_prod_conv as_def [symmetric]
    using less ok1(2) i(1) by (simp add: sa_sb_def [symmetric] i_def [symmetric] as2_def new_def)
  ultimately show ?thesis using i(1) blank by (intro exI [of _ as2] exI [of _ i]) (simp add: as2_def new_def)
qed

section \<open>Runs\<close>

text \<open>The calls of the packet path. \<open>Begin\<close> also names the message its key's packets will carry, which no
  operation reads.\<close>

datatype hello_op = Begin u64 u32 nat nat bool "nat \<Rightarrow> u8" | Piece u64 nat nat bytes | Look u64 nat | Report u64 nat | Forget u64 nat

fun hello_step :: "hello_op \<Rightarrow> assembler \<Rightarrow> assembler option" where
  "hello_step (Begin key base need sec reported m) as = hello_start key base need sec reported as"
| "hello_step (Piece key sec off data) as = map_option snd (hello_put key sec off data as)"
| "hello_step (Look key sec) as = map_option snd (hello_prefix key sec as)"
| "hello_step (Report key sec) as = hello_mark_reported key sec as"
| "hello_step (Forget key sec) as = hello_forget key sec as"

fun hello_run :: "hello_op list \<Rightarrow> assembler \<Rightarrow> assembler option" where
  "hello_run [] as = Some as"
| "hello_run (x # xs) as = do { as' \<leftarrow> hello_step x as; hello_run xs as' }"

fun announce :: "hello_op \<Rightarrow> (u64 \<Rightarrow> nat \<Rightarrow> u8) \<Rightarrow> u64 \<Rightarrow> nat \<Rightarrow> u8" where
  "announce (Begin key base need sec reported m) M = M(key := m)"
| "announce _ M = M"

definition messages :: "hello_op list \<Rightarrow> (u64 \<Rightarrow> nat \<Rightarrow> u8) \<Rightarrow> u64 \<Rightarrow> nat \<Rightarrow> u8" where
  "messages ops M = fold announce ops M"

text \<open>Every piece carries bytes of the message of its key.\<close>

fun truthful :: "(u64 \<Rightarrow> nat \<Rightarrow> u8) \<Rightarrow> hello_op \<Rightarrow> bool" where
  "truthful M (Begin key base need sec reported m) \<longleftrightarrow> key \<noteq> 0"
| "truthful M (Piece key sec off data) \<longleftrightarrow> key \<noteq> 0 \<and> data = map (M key) [off..<off + length data]"
| "truthful M (Look key sec) \<longleftrightarrow> key \<noteq> 0"
| "truthful M (Report key sec) \<longleftrightarrow> key \<noteq> 0"
| "truthful M (Forget key sec) \<longleftrightarrow> key \<noteq> 0"

fun all_truthful :: "(u64 \<Rightarrow> nat \<Rightarrow> u8) \<Rightarrow> hello_op list \<Rightarrow> bool" where
  "all_truthful M [] \<longleftrightarrow> True"
| "all_truthful M (x # xs) \<longleftrightarrow> truthful M x \<and> all_truthful (announce x M) xs"

lemma put_ok:
  assumes "as_ok M as" and "key \<noteq> 0" and "data = map (M key) [off..<off + length data]"
  shows "\<exists>d as'. hello_put key sec off data as = Some (d, as') \<and> as_ok M as' \<and>
    (case d of None \<Rightarrow> True | Some x \<Rightarrow> hd_bytes x = map (M key) [0..<length (hd_bytes x)])"
proof -
  obtain r as1 where f: "hello_find key sec as = Some (r, as1)" "as_ok M as1"
    "\<And>i. r = Some i \<Longrightarrow> i < length (as_slots as1) \<and> hs_key (as_slots as1 ! i) = key"
    using find_ok [OF assms(1,2)] by blast
  show ?thesis
  proof (cases r)
    case None
    then show ?thesis using f by (simp add: hello_put_def)
  next
    case (Some i)
    then have i: "i < length (as_slots as1)" "hs_key (as_slots as1 ! i) = key" using f(3) by auto
    obtain s where s: "as_ok M (as1\<lparr>as_slots := (as_slots as1)[i := s]\<rparr>)"
      "if \<forall>j < hs_need (as_slots as1 ! i). has_bit (hs_filled s) j
       then \<exists>as'. hello_put key sec off data as =
           Some (Some \<lparr>hd_bytes = map (M key) [0..<hs_need (as_slots as1 ! i)], hd_reported = hs_reported (as_slots as1 ! i)\<rparr>, as') \<and> as_ok M as'
       else hello_put key sec off data as = Some (None, as1\<lparr>as_slots := (as_slots as1)[i := s]\<rparr>)"
      using put_found [OF f(2) f(1) [unfolded Some] i assms(2,3)] by blast
    show ?thesis
    proof (cases "\<forall>j < hs_need (as_slots as1 ! i). has_bit (hs_filled s) j")
      case True
      then show ?thesis using s(2) by auto
    next
      case False
      then show ?thesis using s by simp
    qed
  qed
qed

lemma step_ok:
  assumes "as_ok M as" and "truthful M x"
  shows "\<exists>as'. hello_step x as = Some as' \<and> as_ok (announce x M) as'"
proof (cases x)
  case (Begin key base need sec reported m)
  then show ?thesis using start_ok [OF assms(1), of key base need sec reported m] assms(2) by auto
next
  case (Piece key sec off data)
  then show ?thesis using put_ok [OF assms(1), of key data off sec] assms(2) by auto
next
  case (Look key sec)
  obtain r as1 where f: "hello_find key sec as = Some (r, as1)" "as_ok M as1"
    "\<And>i. r = Some i \<Longrightarrow> i < length (as_slots as1) \<and> hs_key (as_slots as1 ! i) = key"
    using find_ok [OF assms(1), of key sec] assms(2) Look by auto
  show ?thesis
  proof (cases r)
    case (Some i)
    then have i: "i < length (as_slots as1)" using f(3) by auto
    have "slot_prefix (as_slots as1 ! i) \<le> length (hs_buf (as_slots as1 ! i))"
      using as_ok_slot [OF f(2) i] by (auto simp: slot_ok_def slot_prefix_def min_def)
    then show ?thesis using f i Some Look by (simp add: hello_prefix_def b_slice_def)
  qed (use f Look in \<open>simp add: hello_prefix_def\<close>)
next
  case (Report key sec)
  obtain r as1 where f: "hello_find key sec as = Some (r, as1)" "as_ok M as1"
    "\<And>i. r = Some i \<Longrightarrow> i < length (as_slots as1) \<and> hs_key (as_slots as1 ! i) = key"
    using find_ok [OF assms(1), of key sec] assms(2) Report by auto
  show ?thesis
  proof (cases r)
    case (Some i)
    then have i: "i < length (as_slots as1)" "hs_key (as_slots as1 ! i) = key" using f(3) by auto
    define s where "s = (as_slots as1 ! i)\<lparr>hs_reported := True\<rparr>"
    define as2 where "as2 = as1\<lparr>as_slots := (as_slots as1)[i := s]\<rparr>"
    have k: "key \<noteq> 0" using assms(2) Report by simp
    have "as_ok M as2"
    proof (rule as_ok_update [OF f(2) i(1)])
      show "slot_ok M s" using as_ok_slot [OF f(2) i(1)] by (simp add: slot_ok_def s_def)
      show "hs_key s \<noteq> 0 \<Longrightarrow> in_pair (hs_key s) i" using as_ok_pair [OF f(2) i k] i(2) by (simp add: s_def)
      show "hs_key (as_slots as1 ! j) \<noteq> hs_key s" if "j < length (as_slots as1)" "j \<noteq> i" for j
        using as_ok_uniq [OF f(2) that(1) i(1) _ i(2) k] that(2) i(2) by (auto simp: s_def)
    qed (simp_all add: as2_def s_def)
    then show ?thesis using f i Some Report by (simp add: hello_mark_reported_def as2_def s_def)
  qed (use f Report in \<open>simp add: hello_mark_reported_def\<close>)
next
  case (Forget key sec)
  obtain r as1 where f: "hello_find key sec as = Some (r, as1)" "as_ok M as1"
    "\<And>i. r = Some i \<Longrightarrow> i < length (as_slots as1) \<and> hs_key (as_slots as1 ! i) = key"
    using find_ok [OF assms(1), of key sec] assms(2) Forget by auto
  show ?thesis
  proof (cases r)
    case (Some i)
    then have i: "i < length (as_slots as1)" "hs_key (as_slots as1 ! i) \<noteq> 0" using f(3) assms(2) Forget by auto
    then show ?thesis using free_ok [OF f(2) i] f Some Forget by (auto simp: hello_forget_def)
  qed (use f Forget in \<open>simp add: hello_forget_def\<close>)
qed

lemma run_ok:
  "as_ok M as \<Longrightarrow> all_truthful M ops \<Longrightarrow> \<exists>as'. hello_run ops as = Some as' \<and> as_ok (messages ops M) as'"
proof (induction ops arbitrary: M as)
  case (Cons x xs)
  then obtain as1 where "hello_step x as = Some as1" "as_ok (announce x M) as1" using step_ok [of M as x] by auto
  then show ?case using Cons.IH [of "announce x M" as1] Cons.prems(2) by (simp add: messages_def)
qed (simp add: messages_def)

lemma all_truthful_append: "all_truthful M (xs @ ys) \<longleftrightarrow> all_truthful M xs \<and> all_truthful (messages xs M) ys"
  by (induction xs arbitrary: M) (auto simp: messages_def)

lemma default_ok: "as_ok M as_default"
  by (simp add: as_ok_def as_default_def live_slots_def)

text \<open>C10: whatever the flows, in any order, overlapping, stale or evicting one another, no call panics,
  and bytes handed back as a complete ClientHello are those of the message of its flow, from its
  first byte on: none is of another flow or of an earlier message in the slot.\<close>

theorem reassembled_bytes_are_the_message:
  assumes "all_truthful M (ops @ [Piece key sec off data])"
  shows "\<exists>as d as'. hello_run ops as_default = Some as \<and> hello_put key sec off data as = Some (d, as') \<and>
    (case d of None \<Rightarrow> True | Some x \<Rightarrow> hd_bytes x = map (messages ops M key) [0..<length (hd_bytes x)])"
proof -
  have t: "all_truthful M ops" "key \<noteq> 0" "data = map (messages ops M key) [off..<off + length data]"
    using assms by (simp_all add: all_truthful_append)
  obtain as where "hello_run ops as_default = Some as" "as_ok (messages ops M) as" using run_ok [OF default_ok t(1)] by blast
  then show ?thesis using put_ok [of "messages ops M" as key data off sec] t(2,3) by blast
qed

theorem reassembled_bytes_are_the_message_witness:
  "\<exists>as d as'. hello_run [Begin 3 0 2 100 False of_nat, Begin 5 0 2 100 False (\<lambda>i. 9), Piece 3 100 1 [1]] as_default = Some as \<and>
     hello_put 3 101 0 [0] as = Some (d, as')"
  using reassembled_bytes_are_the_message [of "\<lambda>_ _. 0"
      "[Begin 3 0 2 100 False of_nat, Begin 5 0 2 100 False (\<lambda>i. 9), Piece 3 100 1 [1]]" 3 101 0 "[0]"]
  by (auto simp: messages_def)

section \<open>Completion\<close>

fun hello_puts :: "u64 \<Rightarrow> (nat \<times> nat \<times> bytes) list \<Rightarrow> assembler \<Rightarrow> (hello_done option list \<times> assembler) option" where
  "hello_puts key [] as = Some ([], as)"
| "hello_puts key ((sec, off, data) # ps) as = do {
     (d, as') \<leftarrow> hello_put key sec off data as;
     (ds, as'') \<leftarrow> hello_puts key ps as';
     Some (d # ds, as'')
   }"

definition covers_all :: "(nat \<times> nat \<times> bytes) list \<Rightarrow> nat \<Rightarrow> bool" where
  "covers_all ps n \<longleftrightarrow> (\<forall>j < n. list_ex (\<lambda>(sec, off, data). off \<le> j \<and> j < off + length data) ps)"

definition piece_of :: "(nat \<Rightarrow> u8) \<Rightarrow> nat \<Rightarrow> nat \<times> nat \<times> bytes \<Rightarrow> bool" where
  "piece_of m latest p = (case p of (sec, off, data) \<Rightarrow> sec \<le> latest \<and> data = map m [off..<off + length data])"

lemma puts_complete:
  assumes "as_ok M as" and "i < length (as_slots as)" and "hs_key (as_slots as ! i) = key" and "key \<noteq> 0"
    and "hs_need (as_slots as ! i) = need" and "hs_sec (as_slots as ! i) = t" and "as_newest as = t"
    and "hs_reported (as_slots as ! i) = rep"
    and "\<forall>j < need. has_bit (hs_filled (as_slots as ! i)) j \<longleftrightarrow> list_ex (\<lambda>(sec, off, data). off \<le> j \<and> j < off + length data) done'"
    and "list_all (piece_of (M key) (t + hello_ttl)) ps" and "ps \<noteq> []"
    and "covers_all (done' @ ps) need" and "\<not> covers_all (done' @ butlast ps) need"
  shows "\<exists>as'. hello_puts key ps as =
    Some (replicate (length ps - 1) None @ [Some \<lparr>hd_bytes = map (M key) [0..<need], hd_reported = rep\<rparr>], as')"
  using assms
proof (induction ps arbitrary: as done')
  case (Cons p ps)
  obtain sec off data where p: "p = (sec, off, data)" by (cases p)
  have pc: "sec \<le> t + hello_ttl" "data = map (M key) [off..<off + length data]"
    using Cons.prems(10) p by (simp_all add: piece_of_def)
  have found: "hello_find key sec as = Some (Some i, as)"
    using find_live [OF Cons.prems(1-4)] pc(1) Cons.prems(6,7) by simp
  obtain s where s: "\<And>j. j < need \<Longrightarrow> has_bit (hs_filled s) j \<longleftrightarrow> has_bit (hs_filled (as_slots as ! i)) j \<or> (off \<le> j \<and> j < off + length data)"
    "hs_key s = key" "hs_need s = need" "hs_sec s = t" "hs_reported s = rep" "as_ok M (as\<lparr>as_slots := (as_slots as)[i := s]\<rparr>)"
    "if \<forall>j < need. has_bit (hs_filled s) j
     then \<exists>as'. hello_put key sec off data as = Some (Some \<lparr>hd_bytes = map (M key) [0..<need], hd_reported = rep\<rparr>, as') \<and> as_ok M as'
     else hello_put key sec off data as = Some (None, as\<lparr>as_slots := (as_slots as)[i := s]\<rparr>)"
    using put_found [OF Cons.prems(1) found Cons.prems(2,3,4) pc(2), unfolded Cons.prems(5,6,8)] by blast
  have bits: "\<forall>j < need. has_bit (hs_filled s) j \<longleftrightarrow> list_ex (\<lambda>(sec, off, data). off \<le> j \<and> j < off + length data) (done' @ [p])"
    using s(1) Cons.prems(9) p by auto
  then have full: "(\<forall>j < need. has_bit (hs_filled s) j) \<longleftrightarrow> covers_all (done' @ [p]) need" by (simp add: covers_all_def)
  show ?case
  proof (cases "ps = []")
    case True
    then have "\<forall>j < need. has_bit (hs_filled s) j" using full Cons.prems(12) by simp
    then obtain as' where "hello_put key sec off data as = Some (Some \<lparr>hd_bytes = map (M key) [0..<need], hd_reported = rep\<rparr>, as')"
      using s(7) by auto
    then show ?thesis using True p by simp
  next
    case False
    have "\<not> covers_all (done' @ [p]) need"
    proof
      assume "covers_all (done' @ [p]) need"
      then have "covers_all (done' @ butlast (p # ps)) need" using False by (auto simp: covers_all_def)
      then show False using Cons.prems(13) by simp
    qed
    then have put: "hello_put key sec off data as = Some (None, as\<lparr>as_slots := (as_slots as)[i := s]\<rparr>)" using s(7) full by simp
    define as1 where "as1 = as\<lparr>as_slots := (as_slots as)[i := s]\<rparr>"
    have at: "as_slots as1 ! i = s" "i < length (as_slots as1)" "as_newest as1 = t"
      using Cons.prems(2,7) by (simp_all add: as1_def)
    have "\<exists>as'. hello_puts key ps as1 =
        Some (replicate (length ps - 1) None @ [Some \<lparr>hd_bytes = map (M key) [0..<need], hd_reported = rep\<rparr>], as')"
    proof (rule Cons.IH [of as1 "done' @ [p]"])
      show "covers_all ((done' @ [p]) @ ps) need" using Cons.prems(12) by simp
      show "\<not> covers_all ((done' @ [p]) @ butlast ps) need" using Cons.prems(13) False by simp
    qed (use s at bits Cons.prems False in \<open>simp_all add: as1_def\<close>)
    then show ?thesis using put p False by (auto simp: as1_def replicate_Suc [symmetric] Suc_diff_Suc simp del: replicate_Suc)
  qed
qed simp

text \<open>C26: a ClientHello of up to 4,096 bytes split in any way, its pieces arriving in any order, overlapping
  or repeated, within three seconds of the first, is handed back whole with the piece that fills the
  last gap, and not before, whatever else the table holds.\<close>

theorem split_hello_is_completed:
  assumes "all_truthful M ops" and "key \<noteq> 0" and "need \<le> hello_cap"
    and "list_all (piece_of m (t + hello_ttl)) ps" and "ps \<noteq> []"
    and "covers_all ps need" and "\<not> covers_all (butlast ps) need"
  shows "\<exists>as0 as1 as2. hello_run ops as_default = Some as0 \<and> hello_start key base need t rep as0 = Some as1 \<and>
    hello_puts key ps as1 =
      Some (replicate (length ps - 1) None @ [Some \<lparr>hd_bytes = map m [0..<need], hd_reported = rep\<rparr>], as2)"
proof -
  obtain as0 where as0: "hello_run ops as_default = Some as0" "as_ok (messages ops M) as0"
    using run_ok [OF default_ok assms(1)] by blast
  obtain as1 i where st: "hello_start key base need t rep as0 = Some as1" "as_ok ((messages ops M)(key := m)) as1"
    "i < length (as_slots as1)" "hs_key (as_slots as1 ! i) = key" "hs_need (as_slots as1 ! i) = need"
    "hs_sec (as_slots as1 ! i) = t" "hs_reported (as_slots as1 ! i) = rep" "as_newest as1 = t"
    "\<forall>j < hello_cap. \<not> has_bit (hs_filled (as_slots as1 ! i)) j"
    using start_ok [OF as0(2) assms(2), of base need t rep m] assms(3) by (auto simp: min_def)
  have "\<exists>as2. hello_puts key ps as1 = Some (replicate (length ps - 1) None @
      [Some \<lparr>hd_bytes = map (((messages ops M)(key := m)) key) [0..<need], hd_reported = rep\<rparr>], as2)"
    by (rule puts_complete [OF st(2,3,4) assms(2) st(5,6,8,7), where done' = "[]"]) (use st(9) assms(3-7) in auto)
  then show ?thesis using as0(1) st(1) by auto
qed

theorem split_hello_is_completed_witness:
  "\<exists>as1 as2. hello_start 3 7 5 100 True as_default = Some as1 \<and>
     hello_puts 3 [(100, 3, [3, 4, 5]), (101, 1, [1, 2]), (103, 0, [0, 1])] as1 =
       Some ([None, None, Some \<lparr>hd_bytes = [0, 1, 2, 3, 4], hd_reported = True\<rparr>], as2)"
proof -
  let ?ps = "[(100, 3, [3, 4, 5]), (101, 1, [1, 2]), (103, 0, [0, 1])] :: (nat \<times> nat \<times> bytes) list"
  have l: "[3..<6] = [3, 4, 5 :: nat]" "[1..<3] = [1, 2 :: nat]" "[0..<2] = [0, 1 :: nat]" "[0..<5] = [0, 1, 2, 3, 4 :: nat]"
    by code_simp+
  have "covers_all ?ps 5" "\<not> covers_all (butlast ?ps) 5" by (auto simp: covers_all_def intro!: exI [of _ 0])
  moreover have "list_all (piece_of of_nat (100 + hello_ttl)) ?ps" by (simp add: piece_of_def hello_ttl_def l)
  ultimately show ?thesis
    using split_hello_is_completed [of "\<lambda>_ _. 0" "[]" 3 5 of_nat 100 ?ps 7 True] l by (simp add: hello_cap_def)
qed

end
