(* ===== verification/Tls.thy ===== *)
theory Tls
  imports Utf8 Fasthash "HOL-Library.Multiset"
begin

text \<open>
  \<open>protocols/tls.rs\<close>: the server name, the JA3 and the JA4 fingerprint of a ClientHello and the leaf
  certificate of a server flight. The digests of the \<open>md5\<close> and \<open>sha2\<close> crates are the
  arguments \<open>md5\<close> and \<open>sha\<close>. Where the source unwraps a read, the outer \<open>None\<close> of the model is
  the panic; the source's own \<open>None\<close> is the inner one.
\<close>

section \<open>The reader\<close>

record reader =
  rd_b :: bytes
  rd_p :: nat

definition rd_new :: "bytes \<Rightarrow> reader" where
  "rd_new b = \<lparr>rd_b = b, rd_p = 0\<rparr>"

definition rd_u8 :: "reader \<Rightarrow> (u8 \<times> reader) option" where
  "rd_u8 r = do { v \<leftarrow> b_at (rd_b r) (rd_p r); Some (v, r\<lparr>rd_p := rd_p r + 1\<rparr>) }"

definition rd_u16 :: "reader \<Rightarrow> (u16 \<times> reader) option" where
  "rd_u16 r = do {
     s \<leftarrow> b_slice (rd_b r) (rd_p r) (rd_p r + 2);
     Some (be16 (s ! 0) (s ! 1), r\<lparr>rd_p := rd_p r + 2\<rparr>) }"

definition rd_u24 :: "reader \<Rightarrow> (u32 \<times> reader) option" where
  "rd_u24 r = do {
     s \<leftarrow> b_slice (rd_b r) (rd_p r) (rd_p r + 3);
     Some (push_bit 16 (ucast (s ! 0)) OR push_bit 8 (ucast (s ! 1)) OR ucast (s ! 2), r\<lparr>rd_p := rd_p r + 3\<rparr>) }"

definition rd_take :: "nat \<Rightarrow> reader \<Rightarrow> (bytes \<times> reader) option" where
  "rd_take n r = do {
     e \<leftarrow> usize_checked_add (rd_p r) n;
     s \<leftarrow> b_slice (rd_b r) (rd_p r) e;
     Some (s, r\<lparr>rd_p := rd_p r + n\<rparr>) }"

definition rd_left :: "reader \<Rightarrow> nat" where
  "rd_left r = length (rd_b r) - rd_p r"

section \<open>Host names\<close>

fun hostname_loop :: "bool \<Rightarrow> nat \<Rightarrow> nat \<Rightarrow> string \<Rightarrow> bool" where
  "hostname_loop lowercase_only dots label [] = (0 < label \<and> 1 \<le> dots)"
| "hostname_loop lowercase_only dots label (c # cs) =
     (if c = CHR ''.'' then (if label = 0 then False else hostname_loop lowercase_only (dots + 1) 0 cs)
      else
        let letter = (if lowercase_only then is_lower c else is_lower c \<or> is_upper c) in
        if \<not> (letter \<or> is_digit c \<or> c = CHR ''_'' \<or> c = CHR ''-'' \<and> 0 < label) then False
        else if 63 < label + 1 then False
        else hostname_loop lowercase_only dots (label + 1) cs)"

definition is_hostname_bytes :: "string \<Rightarrow> bool \<Rightarrow> bool" where
  "is_hostname_bytes b lowercase_only =
     (if b = [] \<or> 253 < length b then False else hostname_loop lowercase_only 0 0 b)"

definition is_hostname :: "string \<Rightarrow> bool \<Rightarrow> bool" where
  "is_hostname s lowercase_only = is_hostname_bytes s lowercase_only"

section \<open>Extensions\<close>

definition is_grease :: "u16 \<Rightarrow> bool" where
  "is_grease v = (let hb = drop_bit 8 v AND 0xff; lb = v AND 0xff in hb = lb \<and> lb AND 0x0f = 0x0a)"

datatype fatal_truncation = FatalTruncation

text \<open>The reads of a list until the buffer ends: \<open>while let Some(v) = r.u16()\<close>.\<close>

fun u16_run :: "bool \<Rightarrow> bytes \<Rightarrow> u16 list" where
  "u16_run drop_grease (x # y # b) =
     (if drop_grease \<and> is_grease (be16 x y) then u16_run drop_grease b else be16 x y # u16_run drop_grease b)"
| "u16_run drop_grease b = []"

definition u16_list :: "bytes \<Rightarrow> bool \<Rightarrow> bool \<Rightarrow> u16 list" where
  "u16_list body skip_len2 drop_grease = u16_run drop_grease (if skip_len2 \<and> 2 \<le> length body then drop 2 body else body)"

definition u8_list :: "bytes \<Rightarrow> bool \<Rightarrow> u8 list" where
  "u8_list body skip_len1 = (if skip_len1 \<and> 1 \<le> length body then drop 1 body else body)"

definition u8len_u16_list :: "bytes \<Rightarrow> bool \<Rightarrow> u16 list" where
  "u8len_u16_list body drop_grease = u16_run drop_grease (if 1 \<le> length body then drop 1 body else body)"

definition alpn_first :: "bytes \<Rightarrow> (fatal_truncation + bytes option) option" where
  "alpn_first body =
     (let r = rd_new body in
      if 2 \<le> rd_left r then
        let r = r\<lparr>rd_p := rd_p r + 2\<rparr> in
        if 1 \<le> rd_left r then do {
          (plen, r) \<leftarrow> rd_u8 r;
          if unat plen \<le> rd_left r then do { (s, r) \<leftarrow> rd_take (unat plen) r; Some (Inr (Some s)) }
          else Some (Inl FatalTruncation) }
        else Some (Inr None)
      else Some (Inr None))"

definition host_of :: "bool \<Rightarrow> string \<Rightarrow> string" where
  "host_of lowercase name = (if lowercase \<and> (\<exists>c\<in>set name. is_upper c) then map to_lower name else name)"

function sni_loop :: "bool \<Rightarrow> reader \<Rightarrow> (fatal_truncation + string option) option" where
  "sni_loop lowercase r =
     (if 3 \<le> rd_left r then
        case rd_u8 r of
          None \<Rightarrow> None
        | Some (ntype, r1) \<Rightarrow> (case rd_u16 r1 of
            None \<Rightarrow> None
          | Some (nlen, r2) \<Rightarrow> (case rd_take (unat nlen) r2 of
              None \<Rightarrow> Some (Inl FatalTruncation)
            | Some (name, r3) \<Rightarrow>
                if ntype = 0 then
                  (if \<not> is_hostname_bytes (bytes_str name) False then Some (Inr None)
                   else Some (Inr (Some (host_of lowercase (bytes_str name)))))
                else sni_loop lowercase r3))
      else Some (Inr None))"
  by pat_completeness auto
termination
  by (relation "measure (rd_left \<circ> snd)")
     (auto simp: rd_u8_def rd_u16_def rd_take_def rd_left_def bytes_simps split: Option.bind_splits)

definition sni_extension :: "bytes \<Rightarrow> bool \<Rightarrow> (fatal_truncation + string option) option" where
  "sni_extension body lowercase =
     (let r = rd_new body in
      if 2 \<le> rd_left r then sni_loop lowercase (r\<lparr>rd_p := rd_p r + 2\<rparr>) else Some (Inr None))"

definition parse_sni_extension :: "bytes \<Rightarrow> bool \<Rightarrow> (fatal_truncation + string option) option" where
  "parse_sni_extension body lowercase = sni_extension body lowercase"

section \<open>The server name alone\<close>

definition sni_only :: "(fatal_truncation + string option) option \<Rightarrow> string option option" where
  "sni_only p = (case p of None \<Rightarrow> None | Some (Inl FatalTruncation) \<Rightarrow> Some None | Some (Inr s) \<Rightarrow> Some s)"

function sni_walk :: "nat \<Rightarrow> reader \<Rightarrow> string option option" where
  "sni_walk eend r =
     (if rd_p r + 4 \<le> eend then
        case rd_u16 r of
          None \<Rightarrow> Some None
        | Some (etype, r1) \<Rightarrow> (case rd_u16 r1 of
            None \<Rightarrow> Some None
          | Some (elen, r2) \<Rightarrow>
              if length (rd_b r2) < rd_p r2 + unat elen then Some None
              else (case rd_take (unat elen) r2 of
                  None \<Rightarrow> Some None
                | Some (body, r3) \<Rightarrow>
                    if etype = 0x0000 then sni_only (sni_extension body True) else sni_walk eend r3))
      else Some None)"
  by pat_completeness auto
termination
  by (relation "measure (\<lambda>(eend, r). eend - rd_p r)")
     (auto simp: rd_u16_def rd_take_def bytes_simps split: Option.bind_splits)

text \<open>\<open>v?\<close> and \<open>let Some(x) = v else\<close>: the rest of the function, or the value it returns early.\<close>

definition or_fail :: "'a option \<Rightarrow> 'b \<Rightarrow> ('a \<Rightarrow> 'b) \<Rightarrow> 'b" where
  "or_fail v early f = (case v of None \<Rightarrow> early | Some x \<Rightarrow> f x)"

definition client_hello_sni :: "bytes \<Rightarrow> string option option" where
  "client_hello_sni data =
     (let r = rd_new data in
      or_fail (if b_at data 0 = Some 0x16 then map_option snd (rd_take 5 r) else Some r) (Some None) (\<lambda>r.
      or_fail (rd_u8 r) (Some None) (\<lambda>(ty, r).
      if ty \<noteq> 0x01 then Some None
      else
      or_fail (rd_u24 r) (Some None) (\<lambda>(_, r).
      or_fail (rd_take (2 + 32) r) (Some None) (\<lambda>(_, r).
      or_fail (rd_u8 r) (Some None) (\<lambda>(sid_len, r).
      or_fail (rd_take (unat sid_len) r) (Some None) (\<lambda>(_, r).
      or_fail (rd_u16 r) (Some None) (\<lambda>(cs_len, r).
      or_fail (rd_take (unat cs_len) r) (Some None) (\<lambda>(_, r).
      or_fail (rd_u8 r) (Some None) (\<lambda>(comp_len, r).
      or_fail (rd_take (unat comp_len) r) (Some None) (\<lambda>(_, r).
      or_fail (rd_u16 r) (Some None) (\<lambda>(ext_total, r).
        sni_walk (min (rd_p r + unat ext_total) (length (rd_b r))) r))))))))))))"

section \<open>The whole ClientHello\<close>

record client_hello =
  ch_sni :: "string option"
  ja3 :: string
  ja4 :: string

record scratch =
  ciphers :: "u16 list"
  ext_types :: "u16 list"
  curves :: "u16 list"
  ecpf :: "u8 list"
  sig_algs :: "u16 list"
  sup_vers :: "u16 list"

definition fp_ja3 :: u8 where "fp_ja3 = 1"
definition fp_ja4 :: u8 where "fp_ja4 = 2"

definition hex_char :: "nat \<Rightarrow> char" where
  "hex_char n = ''0123456789abcdef'' ! n"

definition hex_lowercase :: "bytes \<Rightarrow> string" where
  "hex_lowercase b = concat (map (\<lambda>x. [hex_char (unat (drop_bit 4 x)), hex_char (unat (x AND 0x0f))]) b)"

text \<open>The digits are written from the end of a buffer of five.\<close>

fun push_dec :: "nat \<Rightarrow> string \<Rightarrow> string" where
  "push_dec v buf =
     (let buf = digit_char (v mod 10) # buf; v = v div 10 in if v = 0 then buf else push_dec v buf)"

declare push_dec.simps [simp del]

definition append_dec :: "u16 list \<Rightarrow> string" where
  "append_dec list = join ''-'' (map (\<lambda>v. push_dec (unat v) []) list)"

definition ja3_string :: "u16 \<Rightarrow> scratch \<Rightarrow> string" where
  "ja3_string legacy_version w =
     push_dec (unat legacy_version) [] @ '','' @ append_dec (ciphers w) @ '','' @ append_dec (ext_types w) @ '','' @
     append_dec (curves w) @ '','' @ join ''-'' (map (\<lambda>b. push_dec (unat b) []) (ecpf w))"

definition ja3_digest :: "(bytes \<Rightarrow> bytes) \<Rightarrow> u16 \<Rightarrow> scratch \<Rightarrow> string" where
  "ja3_digest md5 legacy_version w = hex_lowercase (md5 (str_bytes (ja3_string legacy_version w)))"

definition push_hex4_list :: "u16 list \<Rightarrow> string" where
  "push_hex4_list list =
     join '','' (map (\<lambda>v. map (\<lambda>shift. hex_char (unat (drop_bit shift v) mod 16)) [12, 8, 4, 0]) list)"

definition memo_max_entries :: nat where "memo_max_entries = 256"

definition push_sha256_12 :: "(bytes \<Rightarrow> bytes) \<Rightarrow> (string, string) amap \<Rightarrow> string \<Rightarrow> string \<times> (string, string) amap" where
  "push_sha256_12 sha memo input =
     (case map_of memo input of
        Some hit \<Rightarrow> (hit, memo)
      | None \<Rightarrow>
          let hex = hex_lowercase (take 6 (sha (str_bytes input)));
              memo = (if memo_max_entries \<le> length memo then [] else memo)
          in (hex, AList.update input hex memo))"

text \<open>\<open>u8 as char\<close>: the code point of the byte, in UTF-8.\<close>

definition latin1 :: "u8 \<Rightarrow> string" where
  "latin1 b =
     (let n = unat b in if n < 128 then [char_of n] else [char_of (192 + n div 64), char_of (128 + n mod 64)])"

definition ja4_version :: "u16 \<Rightarrow> string" where
  "ja4_version ver =
     (if ver = 0x0304 then ''13'' else if ver = 0x0303 then ''12'' else if ver = 0x0302 then ''11''
      else if ver = 0x0301 then ''10'' else if ver = 0x0300 then ''s3'' else ''00'')"

definition ja4_count :: "nat \<Rightarrow> string" where
  "ja4_count n = [digit_char (n div 10), digit_char (n mod 10)]"

definition ja4_a :: "u8 \<Rightarrow> u16 \<Rightarrow> bool \<Rightarrow> bytes option \<Rightarrow> scratch \<Rightarrow> string" where
  "ja4_a transport legacy_version has_sni alpn0 w =
     latin1 transport @
     ja4_version (if sup_vers w = [] then legacy_version else Max (set (sup_vers w))) @
     (if has_sni then ''d'' else ''i'') @
     ja4_count (min (length (ciphers w)) 99) @ ja4_count (min (length (ext_types w)) 99) @
     (case alpn0 of
        None \<Rightarrow> ''00''
      | Some p \<Rightarrow> if p = [] then ''00'' else latin1 (hd p) @ latin1 (last p))"

definition ja4_b :: "scratch \<Rightarrow> string" where
  "ja4_b w = push_hex4_list (sort (ciphers w))"

definition ja4_c :: "scratch \<Rightarrow> string" where
  "ja4_c w =
     push_hex4_list (sort (filter (\<lambda>e. e \<noteq> 0x0000 \<and> e \<noteq> 0x0010) (ext_types w))) @
     (if sig_algs w = [] then [] else ''_'' @ push_hex4_list (sig_algs w))"

text \<open>The bytes from the position to \<open>e\<close>.\<close>

definition rd_span :: "reader \<Rightarrow> nat \<Rightarrow> bytes" where
  "rd_span r e = take (e - rd_p r) (drop (rd_p r) (rd_b r))"

definition cipher_walk :: "bytes \<Rightarrow> u16 list" where
  "cipher_walk cs = u16_run True cs"

text \<open>The extensions: the server name and the first ALPN name so far, and the lists.\<close>

type_synonym ext_state = "string option \<times> bytes option \<times> scratch"

definition on_ext :: "u16 \<Rightarrow> bytes \<Rightarrow> ext_state \<Rightarrow> ext_state option option" where
  "on_ext etype body st =
     (let (sni, alpn0, w) = st;
          w = (if is_grease etype then w else w\<lparr>ext_types := ext_types w @ [etype]\<rparr>)
      in
      if etype = 0x0000 then
        (case sni_extension body True of
           None \<Rightarrow> None
         | Some (Inr parsed) \<Rightarrow> Some (Some (parsed, alpn0, w))
         | Some (Inl FatalTruncation) \<Rightarrow> Some None)
      else if etype = 0x000a then Some (Some (sni, alpn0, w\<lparr>curves := u16_list body True True\<rparr>))
      else if etype = 0x000b then Some (Some (sni, alpn0, w\<lparr>ecpf := u8_list body True\<rparr>))
      else if etype = 0x000d then Some (Some (sni, alpn0, w\<lparr>sig_algs := u16_list body True True\<rparr>))
      else if etype = 0x0010 then
        (case alpn_first body of
           None \<Rightarrow> None
         | Some (Inr alpn) \<Rightarrow> Some (Some (sni, alpn, w))
         | Some (Inl FatalTruncation) \<Rightarrow> Some None)
      else if etype = 0x002b then Some (Some (sni, alpn0, w\<lparr>sup_vers := u8len_u16_list body True\<rparr>))
      else Some (Some (sni, alpn0, w)))"

function ext_walk :: "nat \<Rightarrow> reader \<Rightarrow> ext_state \<Rightarrow> ext_state option option" where
  "ext_walk eend r st =
     (if rd_p r + 4 \<le> eend then
        case rd_u16 r of
          None \<Rightarrow> Some None
        | Some (etype, r1) \<Rightarrow> (case rd_u16 r1 of
            None \<Rightarrow> Some None
          | Some (elen, r2) \<Rightarrow>
              if length (rd_b r2) < rd_p r2 + unat elen then Some (Some st)
              else (case rd_take (unat elen) r2 of
                  None \<Rightarrow> Some None
                | Some (body, r3) \<Rightarrow> (case on_ext etype body st of
                    None \<Rightarrow> None
                  | Some None \<Rightarrow> Some None
                  | Some (Some st') \<Rightarrow> ext_walk eend r3 st')))
      else Some (Some st))"
  by pat_completeness auto
termination
  by (relation "measure (\<lambda>(eend, r, st). eend - rd_p r)")
     (auto simp: rd_u16_def rd_take_def bytes_simps split: Option.bind_splits)

declare sni_loop.simps [simp del] sni_walk.simps [simp del] ext_walk.simps [simp del]

definition fingerprints ::
    "(bytes \<Rightarrow> bytes) \<Rightarrow> (bytes \<Rightarrow> bytes) \<Rightarrow> u8 \<Rightarrow> u8 \<Rightarrow> u16 \<Rightarrow> ext_state \<Rightarrow> (string, string) amap
     \<Rightarrow> client_hello \<times> (string, string) amap" where
  "fingerprints md5 sha want transport legacy_version st memo =
     (let (sni, alpn0, w) = st in
      if want AND (fp_ja3 OR fp_ja4) = 0 then (\<lparr>ch_sni = sni, ja3 = [], ja4 = []\<rparr>, memo)
      else
        let j3 = (if want AND fp_ja3 \<noteq> 0 then ja3_digest md5 legacy_version w else []) in
        if want AND fp_ja4 = 0 then (\<lparr>ch_sni = sni, ja3 = j3, ja4 = []\<rparr>, memo)
        else
          let (b, memo) = push_sha256_12 sha memo (ja4_b w);
              (c, memo) = push_sha256_12 sha memo (ja4_c w)
          in (\<lparr>ch_sni = sni, ja3 = j3,
               ja4 = ja4_a transport legacy_version (sni \<noteq> None) alpn0 w @ ''_'' @ b @ ''_'' @ c\<rparr>, memo))"

definition extensions :: "reader \<Rightarrow> scratch \<Rightarrow> ext_state option option" where
  "extensions r w =
     (if 2 \<le> rd_left r
      then or_fail (rd_u16 r) (Some None) (\<lambda>(ext_total, r).
             ext_walk (min (rd_p r + unat ext_total) (length (rd_b r))) r (None, None, w))
      else Some (Some (None, None, w)))"

definition parse_client_hello_into ::
    "(bytes \<Rightarrow> bytes) \<Rightarrow> (bytes \<Rightarrow> bytes) \<Rightarrow> bytes \<Rightarrow> u8 \<Rightarrow> u8 \<Rightarrow> scratch \<times> (string, string) amap
     \<Rightarrow> (client_hello option \<times> (string, string) amap) option" where
  "parse_client_hello_into md5 sha data want transport state =
     (let w = fst state; memo = snd state; r = rd_new data; fail = Some (None, memo) in
      or_fail (if b_at data 0 = Some 0x16 then map_option snd (rd_take 5 r) else Some r) fail (\<lambda>r.
      or_fail (rd_u8 r) fail (\<lambda>(ty, r).
      if ty \<noteq> 0x01 then fail
      else
      or_fail (rd_u24 r) fail (\<lambda>(hlen, r).
      or_fail (rd_u16 r) fail (\<lambda>(legacy_version, r).
      or_fail (rd_take 32 r) fail (\<lambda>(_, r).
      or_fail (rd_u8 r) fail (\<lambda>(sid_len, r).
      or_fail (rd_take (unat sid_len) r) fail (\<lambda>(_, r).
      or_fail (rd_u16 r) fail (\<lambda>(cs_len, r).
      or_fail (usize_checked_add (rd_p r) (unat cs_len)) fail (\<lambda>cend.
      if length (rd_b r) < cend then fail
      else
        let w = w\<lparr>ciphers := cipher_walk (rd_span r cend)\<rparr>; r = r\<lparr>rd_p := cend\<rparr> in
        or_fail (rd_u8 r) fail (\<lambda>(comp_len, r).
        or_fail (rd_take (unat comp_len) r) fail (\<lambda>(_, r).
          let w = w\<lparr>ext_types := [], curves := [], sig_algs := [], sup_vers := [], ecpf := []\<rparr> in
          case extensions r w of
            None \<Rightarrow> None
          | Some st \<Rightarrow> or_fail st fail (\<lambda>st.
              let (ch, memo) = fingerprints md5 sha want transport legacy_version st memo in Some (Some ch, memo))))))))))))))"

definition scratch_default :: scratch where
  "scratch_default = \<lparr>ciphers = [], ext_types = [], curves = [], ecpf = [], sig_algs = [], sup_vers = []\<rparr>"

definition parse_client_hello_over ::
    "(bytes \<Rightarrow> bytes) \<Rightarrow> (bytes \<Rightarrow> bytes) \<Rightarrow> bytes \<Rightarrow> u8 \<Rightarrow> u8 \<Rightarrow> scratch \<times> (string, string) amap
     \<Rightarrow> (client_hello option \<times> (string, string) amap) option" where
  "parse_client_hello_over md5 sha data want transport state = parse_client_hello_into md5 sha data want transport state"

definition parse_client_hello_with ::
    "(bytes \<Rightarrow> bytes) \<Rightarrow> (bytes \<Rightarrow> bytes) \<Rightarrow> bytes \<Rightarrow> u8 \<Rightarrow> scratch \<times> (string, string) amap
     \<Rightarrow> (client_hello option \<times> (string, string) amap) option" where
  "parse_client_hello_with md5 sha data want state = parse_client_hello_over md5 sha data want 0x74 state"

definition parse_client_hello ::
    "(bytes \<Rightarrow> bytes) \<Rightarrow> (bytes \<Rightarrow> bytes) \<Rightarrow> bytes \<Rightarrow> scratch \<times> (string, string) amap
     \<Rightarrow> (client_hello option \<times> (string, string) amap) option" where
  "parse_client_hello md5 sha data state = parse_client_hello_with md5 sha data (fp_ja3 OR fp_ja4) state"

section \<open>A minimal ClientHello\<close>

definition u16_bytes :: "u16 \<Rightarrow> bytes" where
  "u16_bytes v = [ucast (drop_bit 8 v), ucast v]"

definition u24_bytes :: "u32 \<Rightarrow> bytes" where
  "u24_bytes v = [ucast (drop_bit 16 v), ucast (drop_bit 8 v), ucast v]"

definition build_client_hello :: "string \<Rightarrow> bool \<Rightarrow> bytes" where
  "build_client_hello sni with_record =
     (let s = str_bytes sni;
          srv = [0x00] @ u16_bytes (of_nat (length s)) @ s;
          lst = u16_bytes (of_nat (length srv)) @ srv;
          ext = [0x00, 0x00] @ u16_bytes (of_nat (length lst)) @ lst;
          body = [0x03, 0x03] @ replicate 32 0x11 @ [0x00] @ [0x00, 0x02, 0x13, 0x01] @ [0x01, 0x00] @
                 u16_bytes (of_nat (length ext)) @ ext;
          hs = [0x01] @ u24_bytes (of_nat (length body)) @ body
      in if with_record then [0x16, 0x03, 0x03] @ u16_bytes (of_nat (length hs)) @ hs else hs)"

section \<open>The leaf certificate of a server flight\<close>

definition leaf_certificate :: "bytes \<Rightarrow> bytes option" where
  "leaf_certificate msg =
     or_fail (rd_u24 (rd_new msg)) None (\<lambda>(list_len, c).
     or_fail (rd_take (min (unat list_len) (rd_left c)) c) None (\<lambda>(list, c).
     or_fail (rd_u24 (rd_new list)) None (\<lambda>(cert_len, l).
       if cert_len = 0 \<or> rd_left l < unat cert_len then None
       else map_option fst (rd_take (unat cert_len) l))))"

text \<open>
  The messages of one record: the outer \<open>None\<close> is the end of them, after which the next record is
  read; \<open>Some v\<close> is what the function returns.
\<close>

function message_loop :: "reader \<Rightarrow> bytes option option" where
  "message_loop h =
     (if 4 \<le> rd_left h
      then (case rd_u8 h of
          None \<Rightarrow> Some None
        | Some (msg_type, h1) \<Rightarrow> (case rd_u24 h1 of
            None \<Rightarrow> Some None
          | Some (msg_len, h2) \<Rightarrow> (case rd_take (min (unat msg_len) (rd_left h2)) h2 of
              None \<Rightarrow> Some None
            | Some (msg, h3) \<Rightarrow> if msg_type \<noteq> 0x0b then message_loop h3 else Some (leaf_certificate msg))))
      else None)"
  by pat_completeness auto
termination
  by (relation "measure rd_left")
     (auto simp: rd_u8_def rd_u24_def rd_take_def rd_left_def bytes_simps split: Option.bind_splits)

function record_loop :: "reader \<Rightarrow> bytes option" where
  "record_loop r =
     (if 5 \<le> rd_left r
      then (case b_at (rd_b r) (rd_p r) of
          None \<Rightarrow> None
        | Some content_type \<Rightarrow>
            if content_type \<noteq> 0x16 then None
            else (case rd_take 3 r of
                None \<Rightarrow> None
              | Some (_, r1) \<Rightarrow> (case rd_u16 r1 of
                  None \<Rightarrow> None
                | Some (rec_len, r2) \<Rightarrow> (case rd_take (min (unat rec_len) (rd_left r2)) r2 of
                    None \<Rightarrow> None
                  | Some (body, r3) \<Rightarrow> (case message_loop (rd_new body) of
                      Some v \<Rightarrow> v
                    | None \<Rightarrow> record_loop r3)))))
      else None)"
  by pat_completeness auto
termination
  by (relation "measure rd_left")
     (auto simp: rd_u16_def rd_take_def rd_left_def bytes_simps split: Option.bind_splits)

declare message_loop.simps [simp del] record_loop.simps [simp del]

definition server_certificate_der :: "bytes \<Rightarrow> bytes option" where
  "server_certificate_der data = record_loop (rd_new data)"

section \<open>The reader in the middle of a buffer\<close>

text \<open>The reader behind the bytes \<open>pre\<close>, with \<open>rest\<close> still to come.\<close>

definition rd_split :: "bytes \<Rightarrow> bytes \<Rightarrow> reader" where
  "rd_split pre rest = \<lparr>rd_b = pre @ rest, rd_p = length pre\<rparr>"

named_theorems rd_simps \<open>reads in the middle of a buffer\<close>

lemma rd_new_split [rd_simps]: "rd_new b = rd_split [] b"
  by (simp add: rd_new_def rd_split_def)

lemma rd_split_sel [rd_simps]: "rd_b (rd_split p r) = p @ r" "rd_p (rd_split p r) = length p" "rd_left (rd_split p r) = length r"
  by (simp_all add: rd_split_def rd_left_def)

lemma rd_split_span: "e = length pre + length a \<Longrightarrow> rd_span (rd_split pre (a @ rest)) e = a"
  by (simp add: rd_span_def rd_split_def)

lemma rd_split_jump: "e = length pre + length a \<Longrightarrow> rd_split pre (a @ rest)\<lparr>rd_p := e\<rparr> = rd_split (pre @ a) rest"
  by (simp add: rd_split_def)

lemma rd_split_skip: "rd_split pre (a @ rest)\<lparr>rd_p := length pre + length a\<rparr> = rd_split (pre @ a) rest"
  by (simp add: rd_split_def)

lemma rd_u8_split [rd_simps]:
  "rd_u8 (rd_split pre []) = None" "rd_u8 (rd_split pre (x # rest)) = Some (x, rd_split (pre @ [x]) rest)"
  by (simp_all add: rd_u8_def rd_split_def b_at_def nth_append)

lemma rd_u16_split [rd_simps]:
  "rd_u16 (rd_split pre []) = None" "rd_u16 (rd_split pre [x]) = None"
  "rd_u16 (rd_split pre (x # y # rest)) = Some (be16 x y, rd_split (pre @ [x, y]) rest)"
  by (simp_all add: rd_u16_def rd_split_def b_slice_def)

lemma rd_take_split [rd_simps]:
  "rd_take n (rd_split pre rest) =
     (if length pre + n \<le> usize_max \<and> n \<le> length rest
      then Some (take n rest, rd_split (pre @ take n rest) (drop n rest)) else None)"
  by (auto simp: rd_take_def rd_split_def b_slice_def usize_checked_add_def)

lemma rd_take_app:
  "length a = n \<Longrightarrow> length pre + n \<le> usize_max \<Longrightarrow> rd_take n (rd_split pre (a @ rest)) = Some (a, rd_split (pre @ a) rest)"
  by (simp add: rd_take_split)

definition be24 :: "u8 \<Rightarrow> u8 \<Rightarrow> u8 \<Rightarrow> u32" where
  "be24 x y z = push_bit 16 (ucast x) OR push_bit 8 (ucast y) OR ucast z"

lemma rd_u24_split [rd_simps]:
  "rd_u24 (rd_split pre []) = None" "rd_u24 (rd_split pre [x]) = None" "rd_u24 (rd_split pre [x, y]) = None"
  "rd_u24 (rd_split pre (x # y # z # rest)) = Some (be24 x y z, rd_split (pre @ [x, y, z]) rest)"
  by (simp_all add: rd_u24_def rd_split_def b_slice_def be24_def)

lemma or_fail_simps [rd_simps]: "or_fail None e f = e" "or_fail (Some x) e f = f x"
  by (simp_all add: or_fail_def)

lemma be16_u16_bytes: "be16 (ucast (drop_bit 8 v)) (ucast v) = v"
proof (rule word_unat_eq_iff [THEN iffD2])
  have v: "unat v < 65536" by (rule unat_u16_bound)
  have "unat (drop_bit 8 v) = unat v div 256"
    by (subst unsigned_drop_bit_eq) (simp add: drop_bit_eq_div take_bit_nat_eq_self v)
  moreover have "unat v div 256 < 256" using v by (simp add: less_mult_imp_div_less)
  ultimately have "unat (ucast (drop_bit 8 v) :: u8) = unat v div 256" "unat (ucast v :: u8) = unat v mod 256"
    by (simp_all add: unsigned_ucast_eq take_bit_eq_mod)
  then show "unat (be16 (ucast (drop_bit 8 v)) (ucast v)) = unat v" by (simp add: unat_be16)
qed

end
