(* ===== verification/Clienthello.thy ===== *)
theory Clienthello
  imports Tls
begin

text \<open>
  What the ClientHello parser of \<open>protocols/tls.rs\<close> reads: a message laid out field by field, the name
  and fingerprints of such a message, the name in its first segment, and the minimal message of
  \<open>build_client_hello\<close>.
\<close>

section \<open>A ClientHello laid out\<close>

record hello_msg =
  hm_record :: bytes
  hm_len :: bytes
  hm_version :: u16
  hm_random :: bytes
  hm_session :: bytes
  hm_ciphers :: "u16 list"
  hm_compression :: bytes
  hm_exts :: "(u16 \<times> bytes) list"

definition wire_u16s :: "u16 list \<Rightarrow> bytes" where
  "wire_u16s vs = concat (map u16_bytes vs)"

fun wire_exts :: "(u16 \<times> bytes) list \<Rightarrow> bytes" where
  "wire_exts [] = []"
| "wire_exts ((t, body) # exts) = u16_bytes t @ u16_bytes (of_nat (length body)) @ body @ wire_exts exts"

definition wire_hello :: "hello_msg \<Rightarrow> bytes" where
  "wire_hello m = hm_record m @ [0x01] @ hm_len m @ u16_bytes (hm_version m) @ hm_random m @
     [of_nat (length (hm_session m))] @ hm_session m @
     u16_bytes (of_nat (2 * length (hm_ciphers m))) @ wire_u16s (hm_ciphers m) @
     [of_nat (length (hm_compression m))] @ hm_compression m @
     u16_bytes (of_nat (length (wire_exts (hm_exts m)))) @ wire_exts (hm_exts m)"

definition hello_wf :: "hello_msg \<Rightarrow> bool" where
  "hello_wf m \<longleftrightarrow>
     (hm_record m = [] \<or> length (hm_record m) = 5 \<and> hd (hm_record m) = 0x16) \<and> length (hm_len m) = 3 \<and>
     length (hm_random m) = 32 \<and> length (hm_session m) < 256 \<and> 2 * length (hm_ciphers m) < 65536 \<and>
     length (hm_compression m) < 256 \<and> length (wire_exts (hm_exts m)) < 65536"

lemma wire_u16s_simps [simp]: "wire_u16s [] = []" "wire_u16s (v # vs) = u16_bytes v @ wire_u16s vs"
  by (simp_all add: wire_u16s_def)

lemma length_u16_bytes [simp]: "length (u16_bytes v) = 2"
  by (simp add: u16_bytes_def)

lemma length_wire_u16s [simp]: "length (wire_u16s vs) = 2 * length vs"
  by (induction vs) auto

lemma u16_run_wire: "u16_run True (wire_u16s vs) = filter (\<lambda>v. \<not> is_grease v) vs"
  by (induction vs) (auto simp: u16_bytes_def be16_u16_bytes)

lemma unat_len_u8: "n < 256 \<Longrightarrow> unat (of_nat n :: u8) = n"
  by (simp add: unsigned_of_nat take_bit_nat_eq_self)

lemma unat_len_u16: "n < 65536 \<Longrightarrow> unat (of_nat n :: u16) = n"
  by (simp add: unsigned_of_nat take_bit_nat_eq_self)

lemma rd_u16_bytes [rd_simps]: "rd_u16 (rd_split pre (u16_bytes v @ rest)) = Some (v, rd_split (pre @ u16_bytes v) rest)"
  by (simp add: u16_bytes_def rd_u16_split be16_u16_bytes)

lemma rd_split_skip2 [rd_simps]: "rd_split [] (x # y # b)\<lparr>rd_p := Suc (Suc 0)\<rparr> = rd_split [x, y] b"
  by (simp add: rd_split_def)

section \<open>No read panics\<close>

lemma sni_loop_total: "sni_loop lowercase (rd_split pre rest) \<noteq> None"
proof (induction "length rest" arbitrary: pre rest rule: less_induct)
  case less
  show ?case
  proof (cases "3 \<le> length rest")
    case True
    then obtain t x y b where r: "rest = t # x # y # b"
      by (metis (no_types, opaque_lifting) One_nat_def Suc_le_length_iff numeral_3_eq_3)
    have "sni_loop lowercase (rd_split (pre @ [t, x, y] @ take n b) (drop n b)) \<noteq> None" for n
      using less r by simp
    then show ?thesis by (subst sni_loop.simps) (simp add: r rd_simps)
  qed (subst sni_loop.simps, simp add: rd_simps)
qed

lemma sni_extension_total: "sni_extension body lowercase \<noteq> None"
proof (cases "2 \<le> length body")
  case True
  then obtain x y b where "body = [x, y] @ b"
    by (metis One_nat_def Suc_1 Suc_le_length_iff append_Cons append_Nil)
  then show ?thesis using sni_loop_total [of lowercase "[x, y]" b]
    by (simp add: sni_extension_def rd_simps Let_def)
qed (simp add: sni_extension_def rd_simps)

lemma alpn_first_total: "alpn_first body \<noteq> None"
proof (cases "3 \<le> length body")
  case True
  then obtain x y l b where r: "body = x # y # l # b"
    by (metis (no_types, opaque_lifting) One_nat_def Suc_le_length_iff numeral_3_eq_3)
  show ?thesis using unat_u8_bound [of l] by (simp add: alpn_first_def r rd_simps usize_max_def Let_def)
qed (auto simp: alpn_first_def rd_simps rd_left_def rd_split_def Let_def)

section \<open>The extensions of a message\<close>

fun run_exts :: "(u16 \<times> bytes) list \<Rightarrow> ext_state \<Rightarrow> ext_state option option" where
  "run_exts [] st = Some (Some st)"
| "run_exts ((t, body) # exts) st =
     (case on_ext t body st of
        None \<Rightarrow> None
      | Some None \<Rightarrow> Some None
      | Some (Some st') \<Rightarrow> run_exts exts st')"

lemma wire_exts_bodies: "length (wire_exts ((t, body) # exts)) < 65536 \<Longrightarrow> unat (of_nat (length body) :: u16) = length body"
  by (simp add: unat_len_u16)

lemma ext_walk_wire:
  assumes "length (wire_exts exts) < 65536" "length pre + length (wire_exts exts) \<le> usize_max"
  shows "ext_walk (length pre + length (wire_exts exts)) (rd_split pre (wire_exts exts)) st = run_exts exts st"
  using assms
proof (induction exts arbitrary: pre st rule: list.induct)
  case Nil
  then show ?case by (simp add: ext_walk.simps rd_simps)
next
  case (Cons e exts)
  obtain t body where e: "e = (t, body)" by (cases e)
  have n: "unat (of_nat (length body) :: u16) = length body"
    using Cons.prems(1) wire_exts_bodies unfolding e by blast
  let ?pre = "pre @ u16_bytes t @ u16_bytes (of_nat (length body)) @ body"
  have IH: "ext_walk (length ?pre + length (wire_exts exts)) (rd_split ?pre (wire_exts exts)) st' = run_exts exts st'" for st'
    using Cons.prems by (intro Cons.IH) (simp_all add: e)
  show ?case
    using Cons.prems IH
    by (subst ext_walk.simps) (simp add: e rd_simps n rd_take_app add.assoc split: option.splits)
qed

definition first_name :: "(u16 \<times> bytes) list \<Rightarrow> string option option" where
  "first_name exts = (case map_of exts 0 of None \<Rightarrow> Some None | Some body \<Rightarrow> sni_only (sni_extension body True))"

lemma take_short: "length a \<le> k \<Longrightarrow> take k (a @ b) = a @ take (k - length a) b"
  by simp

text \<open>Of a region cut short, the walk finds the name of the whole or none.\<close>

lemma sni_walk_cut:
  assumes "length (wire_exts exts) < 65536" "length pre + length (wire_exts exts) \<le> usize_max"
  shows "sni_walk (length pre + length (take k (wire_exts exts))) (rd_split pre (take k (wire_exts exts))) \<in> {Some None, first_name exts}"
  using assms
proof (induction exts arbitrary: pre k rule: list.induct)
  case Nil
  then show ?case by (simp add: sni_walk.simps rd_simps)
next
  case (Cons e exts)
  obtain t body where e: "e = (t, body)" by (cases e)
  have n: "unat (of_nat (length body) :: u16) = length body"
    using Cons.prems(1) wire_exts_bodies unfolding e by blast
  let ?hd = "u16_bytes t @ u16_bytes (of_nat (length body))"
  have whole: "wire_exts (e # exts) = ?hd @ body @ wire_exts exts" by (simp add: e)
  show ?case
  proof (cases "k < 4")
    case True
    then have "sni_walk (length pre + length (take k (wire_exts (e # exts)))) (rd_split pre (take k (wire_exts (e # exts)))) = Some None"
      by (subst sni_walk.simps) (simp add: rd_simps)
    then show ?thesis by simp
  next
    case False
    then have t4: "take k (wire_exts (e # exts)) = u16_bytes t @ u16_bytes (of_nat (length body)) @ take (k - 4) (body @ wire_exts exts)"
      by (simp add: whole take_short)
    show ?thesis
    proof (cases "k - 4 < length body")
      case True
      then have "sni_walk (length pre + length (take k (wire_exts (e # exts)))) (rd_split pre (take k (wire_exts (e # exts)))) = Some None"
        unfolding t4 by (subst sni_walk.simps) (simp add: rd_simps n)
      then show ?thesis by simp
    next
      case False
      let ?pre = "pre @ ?hd @ body"
      let ?rest = "take (k - 4 - length body) (wire_exts exts)"
      have t5: "take (k - 4) (body @ wire_exts exts) = body @ ?rest" using False by simp
      have IH: "sni_walk (length ?pre + length ?rest) (rd_split ?pre ?rest) \<in> {Some None, first_name exts}"
        using Cons.prems by (intro Cons.IH) (simp_all add: e)
      have "sni_walk (length pre + length (take k (wire_exts (e # exts)))) (rd_split pre (take k (wire_exts (e # exts)))) =
          (if t = 0 then sni_only (sni_extension body True) else sni_walk (length ?pre + length ?rest) (rd_split ?pre ?rest))"
        using Cons.prems unfolding t4 t5 by (subst sni_walk.simps) (simp add: rd_simps n rd_take_app add.assoc e)
      then show ?thesis using IH by (auto simp: first_name_def e)
    qed
  qed
qed

lemma sni_walk_wire:
  assumes "length (wire_exts exts) < 65536" "length pre + length (wire_exts exts) \<le> usize_max"
  shows "sni_walk (length pre + length (wire_exts exts)) (rd_split pre (wire_exts exts)) = first_name exts"
  using assms
proof (induction exts arbitrary: pre rule: list.induct)
  case Nil
  then show ?case by (simp add: sni_walk.simps rd_simps first_name_def)
next
  case (Cons e exts)
  obtain t body where e: "e = (t, body)" by (cases e)
  have n: "unat (of_nat (length body) :: u16) = length body"
    using Cons.prems(1) wire_exts_bodies unfolding e by blast
  let ?pre = "pre @ u16_bytes t @ u16_bytes (of_nat (length body)) @ body"
  have IH: "sni_walk (length ?pre + length (wire_exts exts)) (rd_split ?pre (wire_exts exts)) = first_name exts"
    using Cons.prems by (intro Cons.IH) (simp_all add: e)
  show ?case
    using Cons.prems IH
    by (subst sni_walk.simps) (simp add: e rd_simps n rd_take_app add.assoc first_name_def)
qed

section \<open>The whole message\<close>

lemma hello_size:
  assumes "hello_wf m"
  shows "length (hm_record m) \<le> 5" "length (hm_len m) = 3" "length (hm_random m) = 32" "length (hm_session m) < 256"
    "length (hm_ciphers m) < 32768" "length (hm_compression m) < 256" "length (wire_exts (hm_exts m)) < 65536"
  using assms by (auto simp: hello_wf_def)

text \<open>The fixed part of the message, behind the record header.\<close>

definition wire_head :: "hello_msg \<Rightarrow> bytes" where
  "wire_head m = [0x01] @ hm_len m @ u16_bytes (hm_version m) @ hm_random m @
     [of_nat (length (hm_session m))] @ hm_session m @
     u16_bytes (of_nat (2 * length (hm_ciphers m))) @ wire_u16s (hm_ciphers m) @
     [of_nat (length (hm_compression m))] @ hm_compression m @
     u16_bytes (of_nat (length (wire_exts (hm_exts m))))"

lemma wire_hello_head: "wire_hello m = hm_record m @ wire_head m @ wire_exts (hm_exts m)"
  by (simp add: wire_hello_def wire_head_def)

lemma record_header_skipped:
  assumes "hello_wf m"
  shows "(if b_at (wire_hello m) 0 = Some 0x16 then map_option snd (rd_take 5 (rd_new (wire_hello m)))
          else Some (rd_new (wire_hello m))) = Some (rd_split (hm_record m) (wire_head m @ wire_exts (hm_exts m)))"
proof (cases "hm_record m = []")
  case True
  then show ?thesis by (simp add: rd_simps wire_hello_head wire_head_def)
next
  case False
  then have l: "length (hm_record m) = 5" "hd (hm_record m) = 0x16" using assms by (auto simp: hello_wf_def)
  then have "b_at (wire_hello m) 0 = Some 0x16"
    using False by (cases "hm_record m") (simp_all add: wire_hello_head)
  moreover have "rd_take 5 (rd_new (wire_hello m)) = Some (hm_record m, rd_split ([] @ hm_record m) (wire_head m @ wire_exts (hm_exts m)))"
    unfolding wire_hello_head rd_new_split by (rule rd_take_app) (simp_all add: l usize_max_def)
  ultimately show ?thesis by simp
qed

lemma three_bytes: "length l = 3 \<Longrightarrow> \<exists>x y z. l = [x, y, z]"
  by (metis One_nat_def length_0_conv length_Suc_conv numeral_3_eq_3)

lemma parse_wire:
  assumes "hello_wf m"
  shows "parse_client_hello_into md5 sha (wire_hello m) want transport (w, memo) =
    (case run_exts (hm_exts m) (None, None, scratch_default\<lparr>ciphers := filter (\<lambda>v. \<not> is_grease v) (hm_ciphers m)\<rparr>) of
       None \<Rightarrow> None
     | Some None \<Rightarrow> Some (None, memo)
     | Some (Some st) \<Rightarrow> let (ch, memo) = fingerprints md5 sha want transport (hm_version m) st memo in Some (Some ch, memo))"
proof -
  note sz = hello_size [OF assms]
  obtain x y z where l3: "hm_len m = [x, y, z]" using three_bytes [OF sz(2)] by blast
  let ?n = "length (hm_record m) + length (wire_head m)"
  have n: "?n + length (wire_exts (hm_exts m)) \<le> usize_max"
    using sz by (simp add: wire_head_def usize_max_def)
  have ext: "ext_walk (?n + length (wire_exts (hm_exts m))) (rd_split (hm_record m @ wire_head m) (wire_exts (hm_exts m))) st =
      run_exts (hm_exts m) st" for st
    using ext_walk_wire [of "hm_exts m" "hm_record m @ wire_head m" st] sz(7) n by simp
  note lens = unat_len_u8 [OF sz(4)] unat_len_u16 [of "2 * length (hm_ciphers m)"] unat_len_u8 [OF sz(6)] unat_len_u16 [OF sz(7)]
  have taken: "length pre \<le> 100000 \<Longrightarrow> length a \<le> 1000 \<Longrightarrow> rd_take (length a) (rd_split pre (a @ rest)) = Some (a, rd_split (pre @ a) rest)"
    "length pre \<le> 100000 \<Longrightarrow> rd_take 32 (rd_split pre (hm_random m @ rest)) = Some (hm_random m, rd_split (pre @ hm_random m) rest)"
    for pre a rest
    using sz by (auto intro!: rd_take_app simp: usize_max_def)
  have w: "w\<lparr>ciphers := c, ext_types := [], curves := [], sig_algs := [], sup_vers := [], ecpf := []\<rparr> = scratch_default\<lparr>ciphers := c\<rparr>" for c
    by (simp add: scratch_default_def)
  show ?thesis
    using sz ext
    unfolding parse_client_hello_into_def Let_def record_header_skipped [OF assms] or_fail_simps
    by (simp add: rd_simps wire_head_def l3 lens taken extensions_def w
       usize_checked_add_def usize_max_def cipher_walk_def u16_run_wire rd_split_span rd_split_jump add.assoc
       del: of_nat_mult rd_take_split)
    (auto simp: or_fail_simps split: option.split)
qed

section \<open>The name in a first segment\<close>

text \<open>A step that reads from a message cut after \<open>k\<close> bytes fails, or goes on as on the whole.\<close>

lemma cut_u8:
  assumes "P early" "\<And>k. P (f (x, rd_split (pre @ [x]) (take k rest)))"
  shows "P (or_fail (rd_u8 (rd_split pre (take k (x # rest)))) early f)"
  using assms by (cases k) (simp_all add: rd_simps)

lemma cut_u16:
  assumes "P early" "\<And>k. P (f (v, rd_split (pre @ u16_bytes v) (take k rest)))"
  shows "P (or_fail (rd_u16 (rd_split pre (take k (u16_bytes v @ rest)))) early f)"
proof (cases "k < 2")
  case True
  then consider "k = 0" | "k = 1" by linarith
  then show ?thesis using assms(1) by cases (simp_all add: u16_bytes_def rd_simps)
next
  case False
  then show ?thesis using assms(2) by (simp add: take_short rd_simps)
qed

lemma cut_u24:
  assumes "P early" "\<And>k. P (f (be24 x y z, rd_split (pre @ [x, y, z]) (take k rest)))"
  shows "P (or_fail (rd_u24 (rd_split pre (take k (x # y # z # rest)))) early f)"
proof -
  consider "k = 0" | "k = 1" | "k = 2" | j where "k = Suc (Suc (Suc j))"
    by (metis One_nat_def Suc_1 not0_implies_Suc)
  then show ?thesis using assms by cases (simp_all add: rd_simps numeral_2_eq_2)
qed

lemma cut_take:
  assumes "P early" "\<And>k. P (f (a, rd_split (pre @ a) (take k rest)))" "length a = n" "length pre + n \<le> usize_max"
  shows "P (or_fail (rd_take n (rd_split pre (take k (a @ rest)))) early f)"
proof (cases "k < n")
  case True
  then show ?thesis using assms(1,3) by (simp add: rd_take_split or_fail_simps)
next
  case False
  then show ?thesis using assms by (simp add: rd_take_split or_fail_simps)
qed

lemma sni_of_cut_head:
  assumes "hello_wf m" "length pre \<le> 5"
  shows "or_fail (rd_u8 (rd_split pre (take k (wire_head m @ wire_exts (hm_exts m))))) (Some None) (\<lambda>(ty, r).
      if ty \<noteq> 0x01 then Some None
      else
      or_fail (rd_u24 r) (Some None) (\<lambda>(_, r).
      or_fail (rd_take (2 + 32) r) (Some None) (\<lambda>(_, r).
      or_fail (rd_u8 r) (Some None) (\<lambda>(sid_len, r).
      or_fail (rd_take (unat sid_len) r) (Some None) (\<lambda>(_, r).
      or_fail (rd_u16 r) (Some None) (\<lambda>(cs_len, r).
      or_fail (rd_take (unat cs_len) r) (Some None) (\<lambda>(_, r).
      or_fail (rd_u8 r) (Some None) (\<lambda>(comp_len, r).
      or_fail (rd_take (unat comp_len) r) (Some None) (\<lambda>(_, r).
      or_fail (rd_u16 r) (Some None) (\<lambda>(ext_total, r).
        sni_walk (min (rd_p r + unat ext_total) (length (rd_b r))) r)))))))))) \<in> {Some None, first_name (hm_exts m)}"
    (is "?lhs \<in> ?S")
proof -
  note sz = hello_size [OF assms(1)]
  obtain x y z where l3: "hm_len m = [x, y, z]" using three_bytes [OF sz(2)] by blast
  have c: "2 * length (hm_ciphers m) < 65536" using sz(5) by simp
  note lens = unat_len_u8 [OF sz(4)] unat_len_u16 [OF c] unat_len_u8 [OF sz(6)] unat_len_u16 [OF sz(7)]
  let ?P = "\<lambda>v. v \<in> ?S"
  have vr: "u16_bytes (hm_version m) @ hm_random m @ rest = (u16_bytes (hm_version m) @ hm_random m) @ rest" for rest by simp
  have head: "wire_head m @ wire_exts (hm_exts m) = 0x01 # x # y # z # (u16_bytes (hm_version m) @ hm_random m) @
     of_nat (length (hm_session m)) # hm_session m @ u16_bytes (of_nat (2 * length (hm_ciphers m))) @ wire_u16s (hm_ciphers m) @
     of_nat (length (hm_compression m)) # hm_compression m @ u16_bytes (of_nat (length (wire_exts (hm_exts m)))) @ wire_exts (hm_exts m)"
    by (simp add: wire_head_def l3)
  have walk: "sni_walk (min (length pre' + length (wire_exts (hm_exts m))) (length (pre' @ take j (wire_exts (hm_exts m))))) (rd_split pre' (take j (wire_exts (hm_exts m)))) \<in> ?S"
    if "length pre' \<le> 100000" for pre' j
  proof -
    have e: "min (length pre' + length (wire_exts (hm_exts m))) (length (pre' @ take j (wire_exts (hm_exts m)))) = length pre' + length (take j (wire_exts (hm_exts m)))"
      by simp
    show ?thesis unfolding e using that sz(7) by (intro sni_walk_cut) (simp_all add: usize_max_def)
  qed
  show ?thesis
    unfolding head
    apply (rule cut_u8 [where P = ?P], simp)
    apply (simp only: prod.case if_False not_True_eq_False refl)
    apply (rule cut_u24 [where P = ?P], simp)
    apply (simp only: prod.case)
    apply (rule cut_take [where P = ?P], simp)
      apply (simp only: prod.case)
      apply (rule cut_u8 [where P = ?P], simp)
      apply (simp only: prod.case)
      apply (rule cut_take [where P = ?P], simp)
        apply (simp only: prod.case)
        apply (rule cut_u16 [where P = ?P], simp)
        apply (simp only: prod.case)
        apply (rule cut_take [where P = ?P], simp)
          apply (simp only: prod.case)
          apply (rule cut_u8 [where P = ?P], simp)
          apply (simp only: prod.case)
          apply (rule cut_take [where P = ?P], simp)
            apply (simp only: prod.case)
            apply (rule cut_u16 [where P = ?P], simp)
            apply (simp only: prod.case rd_split_sel lens)
            apply (rule walk)
    using sz assms(2) by (simp_all add: lens usize_max_def del: of_nat_mult)
qed

lemma sni_of_wire:
  assumes "hello_wf m"
  shows "client_hello_sni (wire_hello m) = first_name (hm_exts m)"
proof -
  note sz = hello_size [OF assms]
  obtain x y z where l3: "hm_len m = [x, y, z]" using three_bytes [OF sz(2)] by blast
  let ?pre = "hm_record m @ wire_head m"
  have walk: "sni_walk (length ?pre + length (wire_exts (hm_exts m))) (rd_split ?pre (wire_exts (hm_exts m))) = first_name (hm_exts m)"
    by (rule sni_walk_wire) (use sz in \<open>simp_all add: wire_head_def usize_max_def\<close>)
  note lens = unat_len_u8 [OF sz(4)] unat_len_u16 [of "2 * length (hm_ciphers m)"] unat_len_u8 [OF sz(6)] unat_len_u16 [OF sz(7)]
  have taken: "length pre \<le> 100000 \<Longrightarrow> length a \<le> 70000 \<Longrightarrow> rd_take (length a) (rd_split pre (a @ rest)) = Some (a, rd_split (pre @ a) rest)"
    for pre a rest
    by (auto intro!: rd_take_app simp: usize_max_def)
  have fixed34: "rd_take 34 (rd_split pre (u16_bytes (hm_version m) @ hm_random m @ rest)) =
      Some (u16_bytes (hm_version m) @ hm_random m, rd_split (pre @ u16_bytes (hm_version m) @ hm_random m) rest)"
    if "length pre \<le> 100000" for pre rest
    using rd_take_app [of "u16_bytes (hm_version m) @ hm_random m" 34 pre rest] that sz by (simp add: usize_max_def)
  have suites: "rd_take (2 * length (hm_ciphers m)) (rd_split pre (wire_u16s (hm_ciphers m) @ rest)) =
      Some (wire_u16s (hm_ciphers m), rd_split (pre @ wire_u16s (hm_ciphers m)) rest)" if "length pre \<le> 100000" for pre rest
    using rd_take_app [of "wire_u16s (hm_ciphers m)" _ pre rest] that sz by (simp add: usize_max_def)
  show ?thesis
    using sz walk
    unfolding client_hello_sni_def Let_def record_header_skipped [OF assms] or_fail_simps
    by (simp add: rd_simps wire_head_def l3 lens taken fixed34 suites usize_max_def add.assoc del: of_nat_mult rd_take_split)
qed

lemma sni_of_cut_wire:
  assumes "hello_wf m"
  shows "client_hello_sni (take k (wire_hello m)) \<in> {Some None, first_name (hm_exts m)}"
proof (cases "hm_record m = []")
  case True
  then have "b_at (take k (wire_hello m)) 0 \<noteq> Some 0x16"
    by (simp add: wire_hello_head wire_head_def b_at_def)
  then show ?thesis
    using sni_of_cut_head [OF assms, of "[]" k] True
    by (simp add: client_hello_sni_def Let_def or_fail_simps rd_new_split wire_hello_head)
next
  case False
  then have l: "length (hm_record m) = 5" "hd (hm_record m) = 0x16" using assms by (auto simp: hello_wf_def)
  show ?thesis
  proof (cases "k < 5")
    case True
    then have "length (take k (wire_hello m)) < 5" by simp
    with True have no_header: "rd_take 5 (rd_split [] (take k (wire_hello m))) = None" by (simp add: rd_take_split)
    show ?thesis
    proof (cases "k = 0")
      case True
      then show ?thesis by (simp add: client_hello_sni_def rd_simps b_at_def)
    next
      case False
      then have "b_at (take k (wire_hello m)) 0 = Some 0x16"
        using l \<open>hm_record m \<noteq> []\<close> by (cases "hm_record m"; cases k) (simp_all add: wire_hello_head)
      then show ?thesis by (simp add: client_hello_sni_def Let_def or_fail_simps rd_new_split no_header)
    qed
  next
    case 5: False
    have t: "take k (wire_hello m) = hm_record m @ take (k - 5) (wire_head m @ wire_exts (hm_exts m))"
      using 5 l(1) by (simp add: wire_hello_head)
    have "b_at (take k (wire_hello m)) 0 = Some 0x16"
      using l False unfolding t by (cases "hm_record m") simp_all
    moreover have "rd_take 5 (rd_split [] (take k (wire_hello m))) =
        Some (hm_record m, rd_split ([] @ hm_record m) (take (k - 5) (wire_head m @ wire_exts (hm_exts m))))"
      unfolding t by (rule rd_take_app) (simp_all add: l usize_max_def)
    ultimately show ?thesis
      using sni_of_cut_head [OF assms, of "hm_record m" "k - 5"] l(1)
      by (simp add: client_hello_sni_def Let_def or_fail_simps rd_new_split)
  qed
qed

section \<open>The extensions as a map\<close>

definition pick :: "(u16 \<rightharpoonup> bytes) \<Rightarrow> u16 \<Rightarrow> (bytes \<Rightarrow> 'a) \<Rightarrow> 'a \<Rightarrow> 'a" where
  "pick m t f d = (case m t of None \<Rightarrow> d | Some b \<Rightarrow> f b)"

definition sni_result :: "bytes \<Rightarrow> string option option" where
  "sni_result b = (case sni_extension b True of Some (Inr p) \<Rightarrow> Some p | _ \<Rightarrow> None)"

definition alpn_result :: "bytes \<Rightarrow> bytes option option" where
  "alpn_result b = (case alpn_first b of Some (Inr p) \<Rightarrow> Some p | _ \<Rightarrow> None)"

definition ext_fatal :: "(u16 \<rightharpoonup> bytes) \<Rightarrow> bool" where
  "ext_fatal m = (pick m 0x0000 (\<lambda>b. sni_result b = None) False \<or> pick m 0x0010 (\<lambda>b. alpn_result b = None) False)"

lemma ext_results [simp]:
  "(case sni_extension b True of None \<Rightarrow> None | Some (Inr p) \<Rightarrow> Some (Some (f p)) | Some (Inl FatalTruncation) \<Rightarrow> Some None) =
     Some (map_option f (sni_result b))"
  "(case alpn_first b of None \<Rightarrow> None | Some (Inr q) \<Rightarrow> Some (Some (g q)) | Some (Inl FatalTruncation) \<Rightarrow> Some None) =
     Some (map_option g (alpn_result b))"
  using sni_extension_total [of b True] alpn_first_total [of b]
  by (auto simp: sni_result_def alpn_result_def split: option.splits sum.splits fatal_truncation.splits)

lemma run_exts_map:
  assumes "distinct (map fst exts)"
  shows "run_exts exts (s, a, w) =
    (let m = map_of exts in
     if ext_fatal m then Some None
     else Some (Some (pick m 0x0000 (\<lambda>b. the (sni_result b)) s, pick m 0x0010 (\<lambda>b. the (alpn_result b)) a,
       w\<lparr>ext_types := ext_types w @ filter (\<lambda>t. \<not> is_grease t) (map fst exts),
         curves := pick m 0x000a (\<lambda>b. u16_list b True True) (curves w),
         ecpf := pick m 0x000b (\<lambda>b. u8_list b True) (ecpf w),
         sig_algs := pick m 0x000d (\<lambda>b. u16_list b True True) (sig_algs w),
         sup_vers := pick m 0x002b (\<lambda>b. u8len_u16_list b True) (sup_vers w)\<rparr>)))"
  using assms
proof (induction exts arbitrary: s a w rule: list.induct)
  case Nil
  then show ?case by (simp add: pick_def ext_fatal_def)
next
  case (Cons e exts)
  obtain t b where e: "e = (t, b)" by (cases e)
  have fresh: "map_of exts t = None" and IH: "distinct (map fst exts)"
    using Cons.prems by (auto simp: e map_of_eq_None_iff)
  note IH = Cons.IH [OF IH]
  consider "t = 0x0000" | "t = 0x000a" | "t = 0x000b" | "t = 0x000d" | "t = 0x0010" | "t = 0x002b" |
    "t \<noteq> 0x0000" "t \<noteq> 0x000a" "t \<noteq> 0x000b" "t \<noteq> 0x000d" "t \<noteq> 0x0010" "t \<noteq> 0x002b" by blast
  then show ?case
    using fresh
    by cases (auto simp: e on_ext_def IH pick_def ext_fatal_def Let_def is_grease_def split: option.split)
qed

lemma first_name_map:
  "first_name exts = Some (pick (map_of exts) 0 (\<lambda>b. case sni_result b of None \<Rightarrow> None | Some p \<Rightarrow> p) None)"
proof (cases "map_of exts 0")
  case (Some b)
  obtain r where "sni_extension b True = Some r" using sni_extension_total [of b True] by blast
  then show ?thesis
    by (cases r) (auto simp: Some first_name_def pick_def sni_only_def sni_result_def split: fatal_truncation.splits)
qed (simp add: first_name_def pick_def)

section \<open>The memo of digests\<close>

definition sha12 :: "(bytes \<Rightarrow> bytes) \<Rightarrow> string \<Rightarrow> string" where
  "sha12 sha input = hex_lowercase (take 6 (sha (str_bytes input)))"

definition memo_ok :: "(bytes \<Rightarrow> bytes) \<Rightarrow> (string, string) amap \<Rightarrow> bool" where
  "memo_ok sha memo \<longleftrightarrow> length memo \<le> memo_max_entries \<and> list_all (\<lambda>(k, v). v = sha12 sha k) memo"

lemma memo_hit: "memo_ok sha memo \<Longrightarrow> map_of memo k = Some v \<Longrightarrow> v = sha12 sha k"
  by (auto simp: memo_ok_def list_all_iff dest: map_of_SomeD)

lemma memo_update: "list_all (\<lambda>(k, v). v = f k) memo \<Longrightarrow> list_all (\<lambda>(k, v). v = f k) (AList.update k (f k) memo)"
  by (induction memo) auto

lemma push_sha256_12_ok:
  assumes "memo_ok sha memo"
  shows "fst (push_sha256_12 sha memo input) = sha12 sha input \<and> memo_ok sha (snd (push_sha256_12 sha memo input))"
proof (cases "map_of memo input")
  case (Some hit)
  then show ?thesis using memo_hit [OF assms Some] assms by (simp add: push_sha256_12_def)
next
  case None
  let ?m = "if memo_max_entries \<le> length memo then [] else memo"
  have "list_all (\<lambda>(k, v). v = sha12 sha k) ?m" "map_of ?m input = None" "length ?m < memo_max_entries"
    using assms None by (auto simp: memo_ok_def memo_max_entries_def)
  then have "memo_ok sha (AList.update input (sha12 sha input) ?m)"
    using memo_update [of "sha12 sha" ?m] by (simp add: memo_ok_def amap_len_update)
  moreover have "push_sha256_12 sha memo input = (sha12 sha input, AList.update input (sha12 sha input) ?m)"
    by (simp add: push_sha256_12_def None sha12_def Let_def)
  ultimately show ?thesis by simp
qed

text \<open>The fingerprints as computed afresh.\<close>

definition fresh_prints :: "(bytes \<Rightarrow> bytes) \<Rightarrow> (bytes \<Rightarrow> bytes) \<Rightarrow> u8 \<Rightarrow> u8 \<Rightarrow> u16 \<Rightarrow> ext_state \<Rightarrow> client_hello" where
  "fresh_prints md5 sha want transport v st =
     (case st of (sni, alpn0, w) \<Rightarrow>
        \<lparr>ch_sni = sni, ja3 = (if want AND fp_ja3 \<noteq> 0 then ja3_digest md5 v w else []),
         ja4 = (if want AND fp_ja4 \<noteq> 0
                then ja4_a transport v (sni \<noteq> None) alpn0 w @ ''_'' @ sha12 sha (ja4_b w) @ ''_'' @ sha12 sha (ja4_c w)
                else [])\<rparr>)"

lemma want_bits: "want AND (fp_ja3 OR fp_ja4) = 0 \<longleftrightarrow> want AND fp_ja3 = 0 \<and> want AND fp_ja4 = 0"
  by (simp add: bit_eq_iff bit_simps conj_disj_distribL) blast

lemma fingerprints_fresh:
  assumes "memo_ok sha memo"
  shows "fst (fingerprints md5 sha want transport v st memo) = fresh_prints md5 sha want transport v st \<and>
    memo_ok sha (snd (fingerprints md5 sha want transport v st memo))"
proof -
  obtain sni alpn0 w where st: "st = (sni, alpn0, w)" by (cases st)
  obtain b m1 where 1: "push_sha256_12 sha memo (ja4_b w) = (b, m1)" by fastforce
  obtain c m2 where 2: "push_sha256_12 sha m1 (ja4_c w) = (c, m2)" by fastforce
  have b: "b = sha12 sha (ja4_b w)" "memo_ok sha m1" using push_sha256_12_ok [OF assms, of "ja4_b w"] 1 by simp_all
  have c: "c = sha12 sha (ja4_c w)" "memo_ok sha m2" using push_sha256_12_ok [OF b(2), of "ja4_c w"] 2 by simp_all
  show ?thesis
    using assms b c by (simp add: fingerprints_def fresh_prints_def st 1 2 Let_def want_bits)
qed

section \<open>The fingerprint of a client\<close>

lemma pick_cong: "m t = m' t \<Longrightarrow> pick m t f d = pick m' t f d"
  by (simp add: pick_def)

lemma run_exts_grease: "run_exts exts st = run_exts (filter (\<lambda>e. \<not> is_grease (fst e)) exts) st"
proof (induction exts arbitrary: st rule: list.induct)
  case (Cons e exts)
  obtain t b where e: "e = (t, b)" by (cases e)
  show ?case
  proof (cases "is_grease t")
    case True
    then have "on_ext t b st = Some (Some st)" by (auto simp: on_ext_def is_grease_def Let_def split: prod.split)
    then show ?thesis using Cons.IH True by (simp add: e)
  next
    case False
    then show ?thesis using Cons.IH by (auto simp: e split: option.split)
  qed
qed simp

lemma map_of_mset:
  assumes "mset xs = mset ys" "distinct (map fst xs)"
  shows "map_of xs = map_of ys" "distinct (map fst ys)"
proof -
  have "mset (map fst xs) = mset (map fst ys)" using assms(1) by simp
  then show d: "distinct (map fst ys)" using assms(2) by (metis mset_eq_imp_distinct_iff)
  show "map_of xs = map_of ys"
    using map_of_inject_set [OF assms(2) d] mset_eq_setD [OF assms(1)] by simp
qed

lemma sort_filter_mset: "mset xs = mset ys \<Longrightarrow> sort (filter P xs) = sort (filter P ys)"
  by (metis mset_filter properties_for_sort sorted_sort mset_sort)

text \<open>C27: two ClientHellos of one version whose cipher suites and whose extensions agree up to their order
  and up to GREASE values (no extension type twice) have one JA4 and one server name, or both fail to
  parse, whatever their random and session fields, with whatever the scratch lists and a sound digest memo
  hold: the fingerprint names the client's stack, not the shuffled message.\<close>
theorem ja4_ignores_order_and_grease:
  assumes "hello_wf m1" "hello_wf m2" "hm_version m1 = hm_version m2"
    and "mset (filter (\<lambda>c. \<not> is_grease c) (hm_ciphers m1)) = mset (filter (\<lambda>c. \<not> is_grease c) (hm_ciphers m2))"
    and "mset (filter (\<lambda>e. \<not> is_grease (fst e)) (hm_exts m1)) = mset (filter (\<lambda>e. \<not> is_grease (fst e)) (hm_exts m2))"
    and "distinct (map fst (filter (\<lambda>e. \<not> is_grease (fst e)) (hm_exts m1)))"
    and "memo_ok sha memo1" "memo_ok sha memo2"
  shows "map_option (\<lambda>(r, _). map_option (\<lambda>h. (ch_sni h, ja4 h)) r)
      (parse_client_hello_into md5 sha (wire_hello m1) want transport (w1, memo1)) =
    map_option (\<lambda>(r, _). map_option (\<lambda>h. (ch_sni h, ja4 h)) r)
      (parse_client_hello_into md5 sha (wire_hello m2) want transport (w2, memo2))"
proof -
  let ?e1 = "filter (\<lambda>e. \<not> is_grease (fst e)) (hm_exts m1)"
  let ?e2 = "filter (\<lambda>e. \<not> is_grease (fst e)) (hm_exts m2)"
  let ?c1 = "filter (\<lambda>c. \<not> is_grease c) (hm_ciphers m1)"
  let ?c2 = "filter (\<lambda>c. \<not> is_grease c) (hm_ciphers m2)"
  have m: "map_of ?e1 = map_of ?e2" "distinct (map fst ?e2)" using map_of_mset [OF assms(5,6)] by blast+
  have types: "mset (map fst ?e1) = mset (map fst ?e2)" using assms(5) by simp
  have sorted: "sort ?c1 = sort ?c2" using assms(4) by (metis mset_sort properties_for_sort sorted_sort)
  define t1 where "t1 = filter (\<lambda>t. \<not> is_grease t) (map fst ?e1)"
  define t2 where "t2 = filter (\<lambda>t. \<not> is_grease t) (map fst ?e2)"
  have t: "mset t1 = mset t2" unfolding t1_def t2_def mset_filter types ..
  have len: "length ?c1 = length ?c2" "length t1 = length t2"
    using mset_eq_length [OF assms(4)] mset_eq_length [OF t] by blast+
  show ?thesis
  proof (cases "ext_fatal (map_of ?e2)")
    case True
    then show ?thesis
      by (simp add: parse_wire [OF assms(1)] parse_wire [OF assms(2)] run_exts_grease [of "hm_exts m1"] run_exts_grease [of "hm_exts m2"]
          run_exts_map [OF assms(6)] run_exts_map [OF m(2)] m(1) Let_def)
  next
    case False
    obtain s1 where r1: "run_exts (hm_exts m1) (None, None, scratch_default\<lparr>ciphers := ?c1\<rparr>) = Some (Some s1)"
      "s1 = (pick (map_of ?e2) 0x0000 (\<lambda>b. the (sni_result b)) None, pick (map_of ?e2) 0x0010 (\<lambda>b. the (alpn_result b)) None,
       (scratch_default\<lparr>ciphers := ?c1\<rparr>)\<lparr>ext_types := t1,
         curves := pick (map_of ?e2) 0x000a (\<lambda>b. u16_list b True True) [],
         ecpf := pick (map_of ?e2) 0x000b (\<lambda>b. u8_list b True) [],
         sig_algs := pick (map_of ?e2) 0x000d (\<lambda>b. u16_list b True True) [],
         sup_vers := pick (map_of ?e2) 0x002b (\<lambda>b. u8len_u16_list b True) []\<rparr>)"
      using False by (simp add: run_exts_grease [of "hm_exts m1"] run_exts_map [OF assms(6)] m(1) Let_def scratch_default_def t1_def del: filter_filter)
    obtain s2 where r2: "run_exts (hm_exts m2) (None, None, scratch_default\<lparr>ciphers := ?c2\<rparr>) = Some (Some s2)"
      "s2 = (pick (map_of ?e2) 0x0000 (\<lambda>b. the (sni_result b)) None, pick (map_of ?e2) 0x0010 (\<lambda>b. the (alpn_result b)) None,
       (scratch_default\<lparr>ciphers := ?c2\<rparr>)\<lparr>ext_types := t2,
         curves := pick (map_of ?e2) 0x000a (\<lambda>b. u16_list b True True) [],
         ecpf := pick (map_of ?e2) 0x000b (\<lambda>b. u8_list b True) [],
         sig_algs := pick (map_of ?e2) 0x000d (\<lambda>b. u16_list b True True) [],
         sup_vers := pick (map_of ?e2) 0x002b (\<lambda>b. u8len_u16_list b True) []\<rparr>)"
      using False by (simp add: run_exts_grease [of "hm_exts m2"] run_exts_map [OF m(2)] Let_def scratch_default_def t2_def del: filter_filter)
    have same: "ch_sni (fresh_prints md5 sha want transport v s1) = ch_sni (fresh_prints md5 sha want transport v s2) \<and>
        ja4 (fresh_prints md5 sha want transport v s1) = ja4 (fresh_prints md5 sha want transport v s2)" for v
      by (simp add: r1(2) r2(2) fresh_prints_def ja4_a_def ja4_b_def ja4_c_def sorted len sort_filter_mset [OF t])
    show ?thesis
      using fingerprints_fresh [OF assms(7)] fingerprints_fresh [OF assms(8)] same assms(3)
      by (simp add: parse_wire [OF assms(1)] parse_wire [OF assms(2)] r1(1) r2(1) case_prod_beta)
  qed
qed

definition sample_hello :: hello_msg where
  "sample_hello = \<lparr>hm_record = [0x16, 3, 1, 2, 0], hm_len = [0, 1, 0xfc], hm_version = 0x0303, hm_random = replicate 32 7,
     hm_session = [], hm_ciphers = [0x1301, 0xc02b], hm_compression = [0],
     hm_exts = [(0x0000, [0, 7, 0, 0, 4, 0x61, 0x2e, 0x63, 0x6f]), (0x002b, [4, 3, 4, 3, 3]), (0x000d, [0, 2, 4, 3])]\<rparr>"

definition sample_shuffled :: hello_msg where
  "sample_shuffled = \<lparr>hm_record = [], hm_len = [0, 2, 0], hm_version = 0x0303, hm_random = replicate 32 9,
     hm_session = [1, 2], hm_ciphers = [0x0a0a, 0xc02b, 0x1301], hm_compression = [0],
     hm_exts = [(0x002b, [4, 3, 4, 3, 3]), (0x1a1a, []), (0x0000, [0, 7, 0, 0, 4, 0x61, 0x2e, 0x63, 0x6f]), (0x000d, [0, 2, 4, 3])]\<rparr>"

lemma samples_wf: "hello_wf sample_hello" "hello_wf sample_shuffled"
  by (simp_all add: hello_wf_def sample_hello_def sample_shuffled_def)

lemma samples_agree:
  "hm_version sample_hello = hm_version sample_shuffled"
  "mset (filter (\<lambda>c. \<not> is_grease c) (hm_ciphers sample_hello)) = mset (filter (\<lambda>c. \<not> is_grease c) (hm_ciphers sample_shuffled))"
  "mset (filter (\<lambda>e. \<not> is_grease (fst e)) (hm_exts sample_hello)) = mset (filter (\<lambda>e. \<not> is_grease (fst e)) (hm_exts sample_shuffled))"
  "distinct (map fst (filter (\<lambda>e. \<not> is_grease (fst e)) (hm_exts sample_hello)))"
proof -
  have g: "is_grease 0x0a0a" "is_grease 0x1a1a" "\<not> is_grease 0x1301" "\<not> is_grease 0xc02b" "\<not> is_grease 0x0000"
    "\<not> is_grease 0x002b" "\<not> is_grease 0x000d"
    by code_simp+
  show "hm_version sample_hello = hm_version sample_shuffled"
    "mset (filter (\<lambda>c. \<not> is_grease c) (hm_ciphers sample_hello)) = mset (filter (\<lambda>c. \<not> is_grease c) (hm_ciphers sample_shuffled))"
    "mset (filter (\<lambda>e. \<not> is_grease (fst e)) (hm_exts sample_hello)) = mset (filter (\<lambda>e. \<not> is_grease (fst e)) (hm_exts sample_shuffled))"
    "distinct (map fst (filter (\<lambda>e. \<not> is_grease (fst e)) (hm_exts sample_hello)))"
    using g by (simp_all add: sample_hello_def sample_shuffled_def)
qed

theorem ja4_ignores_order_and_grease_witness:
  "map_option (\<lambda>(r, _). map_option (\<lambda>h. (ch_sni h, ja4 h)) r)
      (parse_client_hello_into (\<lambda>_. []) (\<lambda>b. b) (wire_hello sample_hello) 3 0x74 (scratch_default, [])) =
    map_option (\<lambda>(r, _). map_option (\<lambda>h. (ch_sni h, ja4 h)) r)
      (parse_client_hello_into (\<lambda>_. []) (\<lambda>b. b) (wire_hello sample_shuffled) 3 0x74 (scratch_default, []))"
  by (rule ja4_ignores_order_and_grease [OF samples_wf samples_agree]) (simp_all add: memo_ok_def)

text \<open>The name of the last server_name extension, which is the one the whole parse keeps.\<close>

definition last_name :: "(u16 \<times> bytes) list \<Rightarrow> string option option" where
  "last_name exts = (case map_of (rev exts) 0 of None \<Rightarrow> Some None | Some body \<Rightarrow> sni_only (sni_extension body True))"

definition bad_ext :: "u16 \<times> bytes \<Rightarrow> bool" where
  "bad_ext e \<longleftrightarrow> fst e = 0x0000 \<and> sni_result (snd e) = None \<or> fst e = 0x0010 \<and> alpn_result (snd e) = None"

lemma on_ext_name:
  "bad_ext (t, body) \<Longrightarrow> on_ext t body (sni, alpn, w) = Some None"
  "\<not> bad_ext (t, body) \<Longrightarrow>
     \<exists>alpn' w'. on_ext t body (sni, alpn, w) = Some (Some (if t = 0 then the (sni_result body) else sni, alpn', w'))"
  by (auto simp: on_ext_def bad_ext_def Let_def)

lemma run_exts_name:
  "case run_exts exts (sni, alpn, w) of None \<Rightarrow> False
   | Some None \<Rightarrow> \<exists>e \<in> set exts. bad_ext e
   | Some (Some st) \<Rightarrow> (\<forall>e \<in> set exts. \<not> bad_ext e) \<and>
       fst st = (case map_of (rev exts) 0 of None \<Rightarrow> sni | Some body \<Rightarrow> the (sni_result body))"
proof (induction exts arbitrary: sni alpn w rule: list.induct)
  case (Cons e exts)
  obtain t body where e: "e = (t, body)" by (cases e)
  show ?case
  proof (cases "bad_ext e")
    case True
    then show ?thesis by (simp add: e on_ext_name)
  next
    case False
    obtain alpn' w' where s: "on_ext t body (sni, alpn, w) = Some (Some (if t = 0 then the (sni_result body) else sni, alpn', w'))"
      using on_ext_name(2) False unfolding e by blast
    show ?thesis
      using Cons.IH [of "if t = 0 then the (sni_result body) else sni" alpn' w'] False
      by (auto simp: e s map_add_def split: option.splits)
  qed
qed simp

lemma name_of_good: "\<not> bad_ext (0, body) \<Longrightarrow> sni_only (sni_extension body True) = Some (the (sni_result body))"
  using sni_extension_total [of body True]
  by (auto simp: bad_ext_def sni_result_def sni_only_def split: option.splits sum.splits)

lemma map_of_first: "map_of exts k = (case filter (\<lambda>e. fst e = k) exts of [] \<Rightarrow> None | e # _ \<Rightarrow> Some (snd e))"
  by (induction exts) auto

lemma single_name: "length (filter (\<lambda>e. fst e = 0) exts) \<le> 1 \<Longrightarrow> last_name exts = first_name exts"
  unfolding last_name_def first_name_def map_of_first [of exts] map_of_first [of "rev exts"] rev_filter [symmetric]
  by (cases "filter (\<lambda>e. fst e = 0) exts") auto

lemma parse_wire_name:
  assumes "hello_wf m" "memo_ok sha memo"
  shows "case parse_client_hello_into md5 sha (wire_hello m) want transport (w, memo) of
       None \<Rightarrow> False
     | Some (None, _) \<Rightarrow> \<exists>e \<in> set (hm_exts m). bad_ext e
     | Some (Some h, _) \<Rightarrow> Some (ch_sni h) = last_name (hm_exts m)"
proof -
  let ?run = "run_exts (hm_exts m) (None, None, scratch_default\<lparr>ciphers := filter (\<lambda>v. \<not> is_grease v) (hm_ciphers m)\<rparr>)"
  note run = run_exts_name [of "hm_exts m" None None "scratch_default\<lparr>ciphers := filter (\<lambda>v. \<not> is_grease v) (hm_ciphers m)\<rparr>"]
  show ?thesis
  proof (cases ?run)
    case None
    then show ?thesis using run by simp
  next
    case (Some r)
    show ?thesis
    proof (cases r)
      case None
      then show ?thesis using run Some by (simp add: parse_wire [OF assms(1)])
    next
      case (Some st)
      note good = run [unfolded \<open>?run = Some r\<close> Some option.case]
      have "ch_sni (fst (fingerprints md5 sha want transport (hm_version m) st memo)) = fst st"
        using fingerprints_fresh [OF assms(2), of md5 want transport "hm_version m" st] by (simp add: fresh_prints_def case_prod_beta)
      moreover have "last_name (hm_exts m) = Some (fst st)"
      proof (cases "map_of (rev (hm_exts m)) 0")
        case (Some body)
        then have "(0, body) \<in> set (hm_exts m)" by (auto dest: map_of_SomeD)
        then show ?thesis using good Some name_of_good [of body] by (auto simp: last_name_def)
      qed (use good in \<open>simp add: last_name_def\<close>)
      ultimately show ?thesis
        using \<open>?run = Some r\<close> Some by (auto simp: parse_wire [OF assms(1)] split: prod.split)
    qed
  qed
qed

text \<open>C28: of a ClientHello with any extensions, the reader of a first segment answers, wherever the message is cut, the
  name of the first server_name extension or that there is no name yet, and on the whole message that name. The parser
  of the whole message keeps the last server_name extension, and refuses the message exactly for an extension of names
  or protocols that does not parse; so with at most one server_name extension, which is all TLS allows, both report the
  same name.\<close>
theorem first_segment_name_is_the_name:
  assumes "hello_wf m" "memo_ok sha memo"
  shows "client_hello_sni (wire_hello m) = first_name (hm_exts m) \<and>
    client_hello_sni (take k (wire_hello m)) \<in> {Some None, first_name (hm_exts m)} \<and>
    (case parse_client_hello_into md5 sha (wire_hello m) want transport (w, memo) of
       None \<Rightarrow> False
     | Some (None, _) \<Rightarrow> \<exists>e \<in> set (hm_exts m). bad_ext e
     | Some (Some h, _) \<Rightarrow> Some (ch_sni h) = last_name (hm_exts m) \<and>
         (length (filter (\<lambda>e. fst e = 0) (hm_exts m)) \<le> 1 \<longrightarrow> client_hello_sni (wire_hello m) = Some (ch_sni h)))"
proof -
  have "last_name (hm_exts m) = first_name (hm_exts m)" if "length (filter (\<lambda>e. fst e = 0) (hm_exts m)) \<le> 1"
    using that by (rule single_name)
  then show ?thesis
    using parse_wire_name [OF assms, of md5 want transport w] sni_of_wire [OF assms(1)] sni_of_cut_wire [OF assms(1), of k]
    by (auto split: option.splits)
qed

section \<open>The message the builder makes\<close>

lemma bytes_str_str_bytes [simp]: "bytes_str (str_bytes s) = s"
proof (induction s)
  case (Cons c s)
  have "unat (of_char c :: u8) = of_char c"
    using unat_len_u8 [of "of_char c"] by (simp add: of_char_def unat_len_u8)
  then have "char_of (unat (of_char c :: u8)) = c" by simp
  then show ?case using Cons by (simp add: bytes_str_def str_bytes_def)
qed (simp add: bytes_str_def str_bytes_def)

lemma lower_unchanged: "\<not> is_upper c \<Longrightarrow> to_lower c = c"
  by (simp add: to_lower_def)

lemma host_of_lower: "host_of True s = map to_lower s"
  by (auto simp: host_of_def lower_unchanged intro!: map_idI [symmetric])

definition built_hello :: "string \<Rightarrow> bytes \<Rightarrow> bytes \<Rightarrow> hello_msg" where
  "built_hello s rec hlen = \<lparr>hm_record = rec, hm_len = hlen, hm_version = 0x0303, hm_random = replicate 32 0x11,
     hm_session = [], hm_ciphers = [0x1301], hm_compression = [0],
     hm_exts = [(0x0000, u16_bytes (of_nat (3 + length s)) @ [0] @ u16_bytes (of_nat (length s)) @ str_bytes s)]\<rparr>"

lemma u16_bytes_of: "u16_bytes 0x0303 = [3, 3]" "u16_bytes 0x1301 = [0x13, 1]" "u16_bytes 0 = [0, 0]" "u16_bytes 2 = [0, 2]"
  by code_simp+

lemma built_is_wire:
  obtains rec hlen where "build_client_hello s with_record = wire_hello (built_hello s rec hlen)"
    "length s < 60000 \<Longrightarrow> hello_wf (built_hello s rec hlen)"
proof -
  define body where "body = drop 4 (build_client_hello s False)"
  define hlen where "hlen = u24_bytes (of_nat (length body))"
  define rec where "rec = (if with_record then [0x16, 0x03, 0x03] @ u16_bytes (of_nat (4 + length body)) else [])"
  have "build_client_hello s with_record = wire_hello (built_hello s rec hlen)"
    by (simp add: build_client_hello_def wire_hello_def built_hello_def rec_def hlen_def body_def u16_bytes_of u24_bytes_def Let_def
        str_bytes_def)
  moreover have "length s < 60000 \<Longrightarrow> hello_wf (built_hello s rec hlen)"
    by (simp add: hello_wf_def built_hello_def rec_def hlen_def u24_bytes_def str_bytes_def)
  ultimately show ?thesis by (rule that)
qed

lemma built_sni:
  assumes "is_hostname_bytes s False"
  shows "sni_result (u16_bytes (of_nat (3 + length s)) @ [0] @ u16_bytes (of_nat (length s)) @ str_bytes s) = Some (Some (map to_lower s))"
proof -
  have l: "length s \<le> 253" using assms by (simp add: is_hostname_bytes_def split: if_splits)
  obtain x y where n: "u16_bytes (of_nat (3 + length s)) = [x, y]" by (simp add: u16_bytes_def)
  have len: "unat (of_nat (length s) :: u16) = length s" using l by (simp add: unat_len_u16)
  have sb: "length (str_bytes s) = length s" by (simp add: str_bytes_def)
  have "sni_loop True (rd_split [x, y] (0 # u16_bytes (of_nat (length s)) @ str_bytes s)) = Some (Inr (Some (map to_lower s)))"
    using rd_take_app [of "str_bytes s" "length s" "[x, y, 0] @ u16_bytes (of_nat (length s))" "[]"] l sb assms
    by (subst sni_loop.simps) (simp add: rd_simps len usize_max_def host_of_lower del: rd_take_split)
  then show ?thesis
    unfolding n by (simp add: sni_result_def sni_extension_def rd_simps Let_def)
qed

lemma no_grease: "\<not> is_grease 0x1301" "\<not> is_grease 0x0000"
  by code_simp+

lemma minimal_prints:
  "ja3_string 0x0303 (scratch_default\<lparr>ciphers := [0x1301], ext_types := [0x0000]\<rparr>) = ''771,4865,0,,''"
  "ja4_a 0x74 0x0303 True None (scratch_default\<lparr>ciphers := [0x1301], ext_types := [0x0000]\<rparr>) = ''t12d010100''"
  "ja4_b (scratch_default\<lparr>ciphers := [0x1301], ext_types := [0x0000]\<rparr>) = ''1301''"
  "ja4_c (scratch_default\<lparr>ciphers := [0x1301], ext_types := [0x0000]\<rparr>) = []"
proof -
  have "digit_char 0 = CHR ''0''" "digit_char 1 = CHR ''1''" "digit_char 4 = CHR ''4''" "digit_char 5 = CHR ''5''"
    "digit_char 6 = CHR ''6''" "digit_char 7 = CHR ''7''" "digit_char 8 = CHR ''8''"
    by code_simp+
  then have d: "push_dec 771 [] = ''771''" "push_dec 4865 [] = ''4865''" "push_dec 0 [] = ''0''"
    by (simp_all add: push_dec.simps)
  have a: "latin1 0x74 = ''t''" "ja4_version 0x0303 = ''12''" "ja4_count 1 = ''01''" by code_simp+
  have h: "push_hex4_list [0x1301] = ''1301''" "push_hex4_list [] = []" by code_simp+
  show "ja3_string 0x0303 (scratch_default\<lparr>ciphers := [0x1301], ext_types := [0x0000]\<rparr>) = ''771,4865,0,,''"
    by (simp add: ja3_string_def append_dec_def d scratch_default_def)
  show "ja4_a 0x74 0x0303 True None (scratch_default\<lparr>ciphers := [0x1301], ext_types := [0x0000]\<rparr>) = ''t12d010100''"
    using a(3) by (simp add: ja4_a_def a scratch_default_def)
  show "ja4_b (scratch_default\<lparr>ciphers := [0x1301], ext_types := [0x0000]\<rparr>) = ''1301''"
    by (simp add: ja4_b_def h)
  show "ja4_c (scratch_default\<lparr>ciphers := [0x1301], ext_types := [0x0000]\<rparr>) = []"
    by (simp add: ja4_c_def h scratch_default_def)
qed

text \<open>The message \<open>build_client_hello\<close> makes for a host name, with or without a record header, reads back:
  its name is the host in lower case, its JA3 the digest of the one suite and the one extension, and its JA4
  the fingerprint of that stack.\<close>
theorem built_hello_reads_back:
  assumes "is_hostname_bytes s False" "memo_ok sha memo"
  shows "client_hello_sni (build_client_hello s with_record) = Some (Some (map to_lower s)) \<and>
    map_option fst (parse_client_hello md5 sha (build_client_hello s with_record) (w, memo)) =
      Some (Some \<lparr>ch_sni = Some (map to_lower s), ja3 = hex_lowercase (md5 (str_bytes ''771,4865,0,,'')),
        ja4 = ''t12d010100_'' @ sha12 sha ''1301'' @ ''_'' @ sha12 sha []\<rparr>)"
proof -
  obtain rec hlen where b: "build_client_hello s with_record = wire_hello (built_hello s rec hlen)"
    and wf: "length s < 60000 \<Longrightarrow> hello_wf (built_hello s rec hlen)"
    using built_is_wire [of s with_record] by blast
  let ?body = "u16_bytes (of_nat (3 + length s)) @ [0] @ u16_bytes (of_nat (length s)) @ str_bytes s"
  let ?w = "scratch_default\<lparr>ciphers := [0x1301], ext_types := [0x0000]\<rparr>"
  have wf: "hello_wf (built_hello s rec hlen)"
    using wf assms(1) by (simp add: is_hostname_bytes_def split: if_splits)
  have exts: "hm_exts (built_hello s rec hlen) = [(0x0000, ?body)]" "hm_version (built_hello s rec hlen) = 0x0303"
    "filter (\<lambda>v. \<not> is_grease v) (hm_ciphers (built_hello s rec hlen)) = [0x1301]"
    by (simp_all add: built_hello_def no_grease)
  have st: "run_exts [(0x0000, ?body)] (None, None, scratch_default\<lparr>ciphers := [0x1301]\<rparr>) = Some (Some (Some (map to_lower s), None, ?w))"
    using built_sni [OF assms(1)] by (subst run_exts_map) (simp_all add: pick_def ext_fatal_def no_grease Let_def scratch_default_def)
  have "client_hello_sni (build_client_hello s with_record) = Some (Some (map to_lower s))"
    using built_sni [OF assms(1)] unfolding b sni_of_wire [OF wf] first_name_map exts by (simp add: pick_def)
  moreover have "(fp_ja3 OR fp_ja4) AND fp_ja3 \<noteq> 0" "(fp_ja3 OR fp_ja4) AND fp_ja4 \<noteq> 0" by code_simp+
  then have "fresh_prints md5 sha (fp_ja3 OR fp_ja4) 0x74 0x0303 (Some (map to_lower s), None, ?w) =
      \<lparr>ch_sni = Some (map to_lower s), ja3 = hex_lowercase (md5 (str_bytes ''771,4865,0,,'')),
        ja4 = ''t12d010100_'' @ sha12 sha ''1301'' @ ''_'' @ sha12 sha []\<rparr>"
    by (simp add: fresh_prints_def minimal_prints ja3_digest_def)
  moreover have "map_option fst (parse_client_hello md5 sha (build_client_hello s with_record) (w, memo)) =
      Some (Some (fresh_prints md5 sha (fp_ja3 OR fp_ja4) 0x74 0x0303 (Some (map to_lower s), None, ?w)))"
    using fingerprints_fresh [OF assms(2)]
    unfolding parse_client_hello_def parse_client_hello_with_def parse_client_hello_over_def b parse_wire [OF wf] exts st
    by (simp add: case_prod_beta)
  ultimately show ?thesis by simp
qed

theorem built_hello_reads_back_witness:
  "client_hello_sni (build_client_hello ''Www.Example.org'' True) = Some (Some ''www.example.org'') \<and>
    map_option fst (parse_client_hello (\<lambda>_. [0xab]) (\<lambda>_. [1, 2, 3]) (build_client_hello ''Www.Example.org'' True) (scratch_default, [])) =
      Some (Some \<lparr>ch_sni = Some ''www.example.org'', ja3 = ''ab'', ja4 = ''t12d010100_010203_010203''\<rparr>)"
proof -
  have h: "is_hostname_bytes ''Www.Example.org'' False" by code_simp
  have l: "map to_lower ''Www.Example.org'' = ''www.example.org''" by code_simp
  have d: "hex_lowercase [0xab] = ''ab''" "sha12 (\<lambda>_. [1, 2, 3]) s = ''010203''" for s
    by code_simp (simp add: sha12_def, code_simp)
  have m: "memo_ok (\<lambda>_. [1, 2, 3]) []" by (simp add: memo_ok_def)
  show ?thesis
    using built_hello_reads_back [OF h m, of True "\<lambda>_. [0xab]" scratch_default] unfolding l d by simp
qed

lemma sample_parses:
  defines "m \<equiv> built_hello ''www.example.org'' [] [0, 0, 0]"
  shows "hello_wf m" "distinct (map fst (hm_exts m))"
    "\<exists>h memo'. parse_client_hello_into md5 sha (wire_hello m) 3 0x74 (scratch_default, []) = Some (Some h, memo')"
proof -
  show wf: "hello_wf m" by (simp add: m_def hello_wf_def built_hello_def str_bytes_def)
  show "distinct (map fst (hm_exts m))" by (simp add: m_def built_hello_def)
  have host: "is_hostname_bytes ''www.example.org'' False" by code_simp
  let ?w = "scratch_default\<lparr>ciphers := filter (\<lambda>v. \<not> is_grease v) (hm_ciphers m)\<rparr>"
  have "\<exists>st. run_exts (hm_exts m) (None, None, ?w) = Some (Some st)"
    using built_sni [OF host] by (subst run_exts_map) (simp_all add: m_def built_hello_def pick_def ext_fatal_def Let_def)
  then obtain st where st: "run_exts (hm_exts m) (None, None, ?w) = Some (Some st)" by blast
  obtain h memo' where f: "fingerprints md5 sha 3 0x74 (hm_version m) st [] = (h, memo')" by fastforce
  have "parse_client_hello_into md5 sha (wire_hello m) 3 0x74 (scratch_default, []) = Some (Some h, memo')"
    unfolding parse_wire [OF wf] st by (simp add: f)
  then show "\<exists>h memo'. parse_client_hello_into md5 sha (wire_hello m) 3 0x74 (scratch_default, []) = Some (Some h, memo')" by blast
qed

theorem first_segment_name_is_the_name_witness:
  "\<exists>h memo'. parse_client_hello_into (\<lambda>_. []) (\<lambda>_. []) (wire_hello (built_hello ''www.example.org'' [] [0, 0, 0])) 3 0x74 (scratch_default, []) = Some (Some h, memo') \<and>
    client_hello_sni (wire_hello (built_hello ''www.example.org'' [] [0, 0, 0])) = Some (ch_sni h) \<and>
    client_hello_sni (take 20 (wire_hello (built_hello ''www.example.org'' [] [0, 0, 0]))) \<in> {Some None, Some (ch_sni h)}"
proof -
  obtain h memo' where p: "parse_client_hello_into (\<lambda>_. []) (\<lambda>_. []) (wire_hello (built_hello ''www.example.org'' [] [0, 0, 0])) 3 0x74
      (scratch_default, []) = Some (Some h, memo')"
    using sample_parses(3) by blast
  have m: "memo_ok (\<lambda>_. []) []" by (simp add: memo_ok_def)
  have one: "length (filter (\<lambda>e. fst e = 0) (hm_exts (built_hello ''www.example.org'' [] [0, 0, 0]))) \<le> 1" by (simp add: built_hello_def)
  show ?thesis
    using first_segment_name_is_the_name [OF sample_parses(1) m, where k = 20 and ?md5.0 = "\<lambda>_. []" and want = 3 and transport = "0x74" and w = "scratch_default"] one p
    by (intro exI [of _ h] exI [of _ memo']) auto
qed

text \<open>A message with two names, on which the two readers differ: the finding of the first reader's comment.\<close>

definition name_ext :: "string \<Rightarrow> u16 \<times> bytes" where
  "name_ext s = (0x0000, u16_bytes (of_nat (3 + length s)) @ [0] @ u16_bytes (of_nat (length s)) @ str_bytes s)"

definition two_names :: hello_msg where
  "two_names = sample_hello\<lparr>hm_exts := [name_ext ''a.co'', name_ext ''b.co'']\<rparr>"

theorem repeated_names_differ:
  "client_hello_sni (wire_hello two_names) = Some (Some ''a.co'') \<and>
   map_option (\<lambda>(r, _). map_option ch_sni r) (parse_client_hello_into (\<lambda>_. []) (\<lambda>b. b) (wire_hello two_names) 0 0x74 (scratch_default, [])) =
     Some (Some (Some ''b.co''))"
proof -
  have wf: "hello_wf two_names" by (simp add: hello_wf_def two_names_def sample_hello_def name_ext_def str_bytes_def)
  have m: "memo_ok (\<lambda>b. b) []" by (simp add: memo_ok_def)
  have hosts: "is_hostname_bytes ''a.co'' False" "is_hostname_bytes ''b.co'' False" "map to_lower ''a.co'' = ''a.co''" "map to_lower ''b.co'' = ''b.co''"
    by code_simp+
  have names: "sni_result (snd (name_ext ''a.co'')) = Some (Some ''a.co'')" "sni_result (snd (name_ext ''b.co'')) = Some (Some ''b.co'')"
    using built_sni [OF hosts(1)] built_sni [OF hosts(2)] unfolding hosts(3,4) by (simp_all add: name_ext_def)
  have types: "fst (name_ext s) = 0" for s by (simp add: name_ext_def)
  have good: "\<not> bad_ext (name_ext ''a.co'')" "\<not> bad_ext (name_ext ''b.co'')" using names by (simp_all add: bad_ext_def types)
  then have ext: "sni_only (sni_extension (snd (name_ext ''a.co'')) True) = Some (Some ''a.co'')"
    "sni_only (sni_extension (snd (name_ext ''b.co'')) True) = Some (Some ''b.co'')"
    using names name_of_good types by (metis option.sel prod.collapse)+
  have exts: "first_name (hm_exts two_names) = Some (Some ''a.co'')" "last_name (hm_exts two_names) = Some (Some ''b.co'')"
    using ext unfolding first_name_def last_name_def map_of_first by (simp_all add: two_names_def types)
  have no_bad: "\<not> (\<exists>e \<in> set (hm_exts two_names). bad_ext e)" using good by (simp add: two_names_def)
  show ?thesis
    using parse_wire_name [OF wf m, where ?md5.0 = "\<lambda>_. []" and want = 0 and transport = "0x74" and w = scratch_default] no_bad exts sni_of_wire [OF wf] by (auto split: option.splits)
qed


end
