(* ===== verification/Certificate.thy ===== *)
theory Certificate
  imports Tls
begin

text \<open>
  The leaf certificate \<open>server_certificate_der\<close> of \<open>protocols/tls.rs\<close> takes out of a server flight, and
  the host names \<open>is_hostname\<close> accepts.
\<close>

section \<open>Host names\<close>

definition host_char :: "bool \<Rightarrow> char \<Rightarrow> bool" where
  "host_char lowercase_only c = ((if lowercase_only then is_lower c else is_lower c \<or> is_upper c) \<or> is_digit c \<or> c = CHR ''_'')"

text \<open>A label: 1 to 63 characters, a hyphen anywhere but first.\<close>

definition host_label :: "bool \<Rightarrow> string \<Rightarrow> bool" where
  "host_label lowercase_only l =
     (l \<noteq> [] \<and> length l \<le> 63 \<and> host_char lowercase_only (hd l) \<and> list_all (\<lambda>c. host_char lowercase_only c \<or> c = CHR ''-'') l)"

text \<open>The loop, inside a label of \<open>n\<close> characters with \<open>d\<close> dots behind it.\<close>

definition rest_ok :: "bool \<Rightarrow> nat \<Rightarrow> string \<Rightarrow> bool" where
  "rest_ok lo n l = (n + length l \<le> 63 \<and> 0 < n + length l \<and> (0 < n \<or> host_char lo (hd l)) \<and>
     list_all (\<lambda>c. host_char lo c \<or> c = CHR ''-'') l)"

lemma not_host_dot: "\<not> host_char lo CHR ''.''"
  by (simp add: host_char_def is_lower_def is_upper_def is_digit_def code_def)

lemma hostname_loop_labels:
  assumes "n \<le> 63"
  shows "hostname_loop lo d n cs \<longleftrightarrow>
    (case split_on (CHR ''.'') cs of
       [] \<Rightarrow> False
     | l # ls \<Rightarrow> rest_ok lo n l \<and> list_all (host_label lo) ls \<and> 1 \<le> d + length ls)"
  using assms
proof (induction lo d n cs rule: hostname_loop.induct)
  case (1 lo d n)
  then show ?case by (auto simp: rest_ok_def)
next
  case (2 lo d n c cs)
  obtain l ls where s: "split_on (CHR ''.'') cs = l # ls" using split_on_nonempty by (meson neq_Nil_conv)
  show ?case
  proof (cases "c = CHR ''.''")
    case True
    have "rest_ok lo 0 l \<longleftrightarrow> host_label lo l" by (auto simp: rest_ok_def host_label_def)
    then show ?thesis using True 2(1,3) by (auto simp: s rest_ok_def)
  next
    case False
    let ?ok = "host_char lo c \<or> c = CHR ''-'' \<and> 0 < n"
    have "rest_ok lo n (c # l) \<longleftrightarrow> ?ok \<and> n + 1 \<le> 63 \<and> rest_ok lo (n + 1) l"
      by (auto simp: rest_ok_def)
    moreover have "hostname_loop lo d n (c # cs) \<longleftrightarrow> ?ok \<and> n + 1 \<le> 63 \<and> hostname_loop lo d (n + 1) cs"
      using False by (auto simp: host_char_def Let_def)
    moreover have "hostname_loop lo d (n + 1) cs \<longleftrightarrow> rest_ok lo (n + 1) l \<and> list_all (host_label lo) ls \<and> 1 \<le> d + length ls"
      if "?ok" "n + 1 \<le> 63"
      using 2(2) [OF False refl] that s by (auto simp: host_char_def split: if_splits)
    ultimately show ?thesis using False by (auto simp: s)
  qed
qed

text \<open>The one-pass host name test accepts exactly the names of at most 253 characters that are two or
  more labels joined by dots, each label 1 to 63 letters, digits, underscores or hyphens that does not begin
  with a hyphen (lower-case letters only, when asked so).\<close>
theorem hostname_is_dotted_labels:
  "is_hostname s lowercase_only \<longleftrightarrow>
    length s \<le> 253 \<and> 2 \<le> length (split_on (CHR ''.'') s) \<and> list_all (host_label lowercase_only) (split_on (CHR ''.'') s)"
proof -
  obtain l ls where s: "split_on (CHR ''.'') s = l # ls" using split_on_nonempty by (meson neq_Nil_conv)
  have "rest_ok lowercase_only 0 l \<longleftrightarrow> host_label lowercase_only l" by (auto simp: rest_ok_def host_label_def)
  then have "hostname_loop lowercase_only 0 0 s \<longleftrightarrow> 2 \<le> length (split_on (CHR ''.'') s) \<and> list_all (host_label lowercase_only) (split_on (CHR ''.'') s)"
    using hostname_loop_labels [of 0 lowercase_only 0 s] by (auto simp: s)
  moreover have "s = [] \<Longrightarrow> \<not> 2 \<le> length (split_on (CHR ''.'') s)" by simp
  ultimately show ?thesis unfolding is_hostname_def is_hostname_bytes_def by auto
qed

section \<open>The certificate is whole\<close>

text \<open>What each read leaves of the bytes to come.\<close>

lemma rd_u8_Some: "rd_u8 (rd_split pre rest) = Some (v, r) \<longleftrightarrow> (\<exists>b. rest = v # b \<and> r = rd_split (pre @ [v]) b)"
  by (cases rest) (auto simp: rd_simps)

lemma rd_u16_Some: "rd_u16 (rd_split pre rest) = Some (v, r) \<longleftrightarrow> (\<exists>x y b. rest = x # y # b \<and> v = be16 x y \<and> r = rd_split (pre @ [x, y]) b)"
  by (cases rest rule: remdups_adj.cases) (auto simp: rd_simps)

lemma rd_u24_Some:
  "rd_u24 (rd_split pre rest) = Some (v, r) \<longleftrightarrow> (\<exists>x y z b. rest = x # y # z # b \<and> v = be24 x y z \<and> r = rd_split (pre @ [x, y, z]) b)"
proof (cases rest rule: remdups_adj.cases)
  case (3 x y b)
  then show ?thesis by (cases b) (auto simp: rd_simps)
qed (auto simp: rd_simps)

lemma rd_take_Some:
  "rd_take n (rd_split pre rest) = Some (s, r) \<longleftrightarrow>
    length pre + n \<le> usize_max \<and> (\<exists>b. rest = s @ b \<and> length s = n \<and> r = rd_split (pre @ s) b)"
  by (auto simp: rd_take_split min_def) (metis append_take_drop_id)

lemma or_fail_Some: "or_fail v None f = Some x \<longleftrightarrow> (\<exists>y. v = Some y \<and> f y = Some x)"
  by (cases v) (simp_all add: or_fail_def)

lemma leaf_certificate_Some:
  assumes "leaf_certificate msg = Some c"
  shows "\<exists>a x y z post. msg = a @ [x, y, z] @ c @ post \<and> c \<noteq> [] \<and> unat (be24 x y z) = length c"
proof -
  obtain n1 r1 n2 r2 list r3 where
    1: "rd_u24 (rd_new msg) = Some (n1, r1)"
    and 2: "rd_take (min (unat n1) (rd_left r1)) r1 = Some (list, r3)"
    and 3: "rd_u24 (rd_new list) = Some (n2, r2)"
    and 4: "(if n2 = 0 \<or> rd_left r2 < unat n2 then None else map_option fst (rd_take (unat n2) r2)) = Some c"
    using assms unfolding leaf_certificate_def or_fail_Some case_prod_beta by (auto cong: if_cong)
  obtain p q w b where m: "msg = [p, q, w] @ b" "r1 = rd_split [p, q, w] b"
    using 1 by (auto simp: rd_new_split rd_u24_Some)
  obtain tl where b: "b = list @ tl" using 2 by (auto simp: m(2) rd_take_Some)
  obtain x y z d where d: "list = [x, y, z] @ d" "r2 = rd_split [x, y, z] d" "n2 = be24 x y z"
    using 3 by (auto simp: rd_new_split rd_u24_Some)
  have nz: "n2 \<noteq> 0" and t: "map_option fst (rd_take (unat n2) r2) = Some c" using 4 by (simp_all split: if_splits)
  obtain e where e: "d = c @ e" "length c = unat n2" using t by (auto simp: d(2) rd_take_Some)
  then have "c \<noteq> []" using nz by (auto simp: unat_eq_0)
  then have "msg = [p, q, w] @ [x, y, z] @ c @ (e @ tl) \<and> c \<noteq> [] \<and> unat (be24 x y z) = length c"
    using e d(3) by (simp add: m b d(1))
  then show ?thesis by blast
qed

definition holds_cert :: "bytes \<Rightarrow> bytes \<Rightarrow> bool" where
  "holds_cert d c = (\<exists>a x y z post. d = a @ [x, y, z] @ c @ post \<and> c \<noteq> [] \<and> unat (be24 x y z) = length c)"

lemma holds_cert_mid: "holds_cert d c \<Longrightarrow> holds_cert (a @ d @ b) c"
  unfolding holds_cert_def by (metis append.assoc)

lemma message_loop_Some: "message_loop (rd_split pre rest) = Some (Some c) \<Longrightarrow> holds_cert rest c"
proof (induction "length rest" arbitrary: pre rest rule: less_induct)
  case less
  obtain t r1 l r2 msg r3 where
    1: "rd_u8 (rd_split pre rest) = Some (t, r1)" "rd_u24 r1 = Some (l, r2)" "rd_take (min (unat l) (rd_left r2)) r2 = Some (msg, r3)"
    and v: "(if t \<noteq> 0x0b then message_loop r3 else Some (leaf_certificate msg)) = Some (Some c)"
    using less.prems by (subst (asm) message_loop.simps) (auto split: if_splits option.splits)
  obtain x y z b where r: "rest = t # x # y # z # msg @ b" "r3 = rd_split (pre @ [t, x, y, z] @ msg) b"
    using 1 by (auto simp: rd_u8_Some rd_u24_Some rd_take_Some)
  show ?case
  proof (cases "t = 0x0b")
    case True
    then have "holds_cert msg c" using v leaf_certificate_Some unfolding holds_cert_def by simp
    then have "holds_cert ([t, x, y, z] @ msg @ b) c" by (rule holds_cert_mid)
    then show ?thesis by (simp add: r)
  next
    case False
    then have "holds_cert b c" using less.hyps [of b] v by (simp add: r)
    then have "holds_cert ((t # x # y # z # msg) @ b @ []) c" by (rule holds_cert_mid)
    then show ?thesis by (simp add: r)
  qed
qed

lemma record_loop_Some: "record_loop (rd_split pre rest) = Some c \<Longrightarrow> holds_cert rest c"
proof (induction "length rest" arbitrary: pre rest rule: less_induct)
  case less
  obtain h r1 l r2 body r3 where
    1: "rd_take 3 (rd_split pre rest) = Some (h, r1)" "rd_u16 r1 = Some (l, r2)" "rd_take (min (unat l) (rd_left r2)) r2 = Some (body, r3)"
    and v: "(case message_loop (rd_new body) of Some v \<Rightarrow> v | None \<Rightarrow> record_loop r3) = Some c"
    using less.prems by (subst (asm) record_loop.simps) (auto split: if_splits option.splits)
  obtain x y b where r: "rest = h @ [x, y] @ body @ b" "r3 = rd_split (pre @ h @ [x, y] @ body) b"
    using 1 by (auto simp: rd_u16_Some rd_take_Some)
  show ?case
  proof (cases "message_loop (rd_new body)")
    case None
    then have "holds_cert b c" using less.hyps [of b] v by (simp add: r)
    then have "holds_cert ((h @ [x, y] @ body) @ b @ []) c" by (rule holds_cert_mid)
    then show ?thesis by (simp add: r)
  next
    case (Some w)
    then have "holds_cert body c" using v message_loop_Some [of "[]" body c] by (simp add: rd_new_split)
    then have "holds_cert ((h @ [x, y]) @ body @ b) c" by (rule holds_cert_mid)
    then show ?thesis by (simp add: r)
  qed
qed

section \<open>A complete certificate is found\<close>

lemma be24_bytes: "n < 2 ^ 24 \<Longrightarrow> unat (be24 (ucast (drop_bit 16 (of_nat n :: u32))) (ucast (drop_bit 8 (of_nat n :: u32))) (ucast (of_nat n :: u32))) = n"
proof -
  assume n: "n < 2 ^ 24"
  let ?v = "of_nat n :: u32"
  have v: "unat ?v = n" using n by (simp add: unsigned_of_nat take_bit_nat_eq_self)
  have high: "\<not> bit ?v i" if "24 \<le> i" for i
  proof -
    have "n < 2 ^ i" using n that by (meson le_less_trans less_imp_le one_less_numeral_iff order_less_le_trans power_increasing_iff semiring_norm(76))
    then have "\<not> bit n i" by (simp add: bit_iff_odd)
    then show ?thesis by (simp add: bit_simps)
  qed
  have "be24 (ucast (drop_bit 16 ?v)) (ucast (drop_bit 8 ?v)) (ucast ?v) = ?v"
  proof (rule bit_word_eqI)
    fix i assume "i < LENGTH(32)"
    then show "bit (be24 (ucast (drop_bit 16 ?v)) (ucast (drop_bit 8 ?v)) (ucast ?v)) i = bit ?v i"
      using high [of i] by (cases "i < 8"; cases "i < 16"; cases "i < 24") (auto simp: be24_def bit_simps)
  qed
  then show ?thesis using v by simp
qed

lemma rd_u24_bytes: "rd_u24 (rd_split pre (u24_bytes (of_nat n) @ rest)) =
    Some (be24 (ucast (drop_bit 16 (of_nat n :: u32))) (ucast (drop_bit 8 (of_nat n :: u32))) (ucast (of_nat n :: u32)), rd_split (pre @ u24_bytes (of_nat n)) rest)"
  by (simp add: u24_bytes_def rd_u24_split)

definition wire_msg :: "u8 \<times> bytes \<Rightarrow> bytes" where
  "wire_msg m = [fst m] @ u24_bytes (of_nat (length (snd m))) @ snd m"

definition other_msg :: "u8 \<times> bytes \<Rightarrow> bool" where
  "other_msg m = (fst m \<noteq> 0x0b \<and> length (snd m) < 2 ^ 24)"

definition wire_record :: "bytes \<Rightarrow> bytes \<Rightarrow> bytes" where
  "wire_record version body = [0x16] @ version @ u16_bytes (of_nat (length body)) @ body"

definition wire_certificate :: "bytes \<Rightarrow> bytes \<Rightarrow> bytes" where
  "wire_certificate c others =
     u24_bytes (of_nat (3 + length c + length others)) @ u24_bytes (of_nat (length c)) @ c @ others"

lemma length_u24_bytes [simp]: "length (u24_bytes v) = 3"
  by (simp add: u24_bytes_def)

lemma leaf_of_wire:
  assumes "c \<noteq> []" "3 + length c + length others < 2 ^ 24"
  shows "leaf_certificate (wire_certificate c others) = Some c"
proof -
  let ?list = "u24_bytes (of_nat (length c)) @ c @ others"
  have n: "length c < 2 ^ 24" using assms(2) by simp
  have 1: "rd_u24 (rd_new (wire_certificate c others)) =
      Some (be24 (ucast (drop_bit 16 (of_nat (3 + length c + length others) :: u32))) (ucast (drop_bit 8 (of_nat (3 + length c + length others) :: u32))) (ucast (of_nat (3 + length c + length others) :: u32)),
        rd_split (u24_bytes (of_nat (3 + length c + length others))) ?list)"
    unfolding wire_certificate_def rd_new_split rd_u24_bytes by simp
  have 2: "rd_take (3 + length c + length others) (rd_split (u24_bytes (of_nat (3 + length c + length others))) (?list @ [])) =
      Some (?list, rd_split (u24_bytes (of_nat (3 + length c + length others)) @ ?list) [])"
    using assms(2) by (intro rd_take_app) (simp_all add: usize_max_def)
  have 3: "rd_u24 (rd_new ?list) =
      Some (be24 (ucast (drop_bit 16 (of_nat (length c) :: u32))) (ucast (drop_bit 8 (of_nat (length c) :: u32))) (ucast (of_nat (length c) :: u32)),
        rd_split (u24_bytes (of_nat (length c))) (c @ others))"
    unfolding rd_new_split rd_u24_bytes by simp
  have 4: "rd_take (length c) (rd_split (u24_bytes (of_nat (length c))) (c @ others)) = Some (c, rd_split (u24_bytes (of_nat (length c)) @ c) others)"
    using n by (intro rd_take_app) (simp_all add: usize_max_def)
  have nz: "be24 (ucast (drop_bit 16 (of_nat (length c) :: u32))) (ucast (drop_bit 8 (of_nat (length c) :: u32))) (ucast (of_nat (length c) :: u32)) \<noteq> 0"
    using be24_bytes [OF n] assms(1) by (auto simp: word_unat_eq_iff simp del: unat_eq_0)
  show ?thesis
    unfolding leaf_certificate_def 1 or_fail_simps prod.case be24_bytes [OF assms(2)] rd_split_sel
    using 2 by (simp add: or_fail_simps 3 4 nz be24_bytes [OF n] rd_split_sel)
qed

lemma message_loop_others:
  assumes "list_all other_msg ms" "length pre + length (concat (map wire_msg ms)) \<le> usize_max"
  shows "message_loop (rd_split pre (concat (map wire_msg ms) @ rest)) = message_loop (rd_split (pre @ concat (map wire_msg ms)) rest)"
  using assms
proof (induction ms arbitrary: pre)
  case (Cons m ms)
  obtain t b where m: "m = (t, b)" by (cases m)
  have t: "t \<noteq> 0x0b" and n: "length b < 2 ^ 24" using Cons.prems(1) by (simp_all add: m other_msg_def)
  have tk: "rd_take (length b) (rd_split (pre @ [t] @ u24_bytes (of_nat (length b))) (b @ more')) =
      Some (b, rd_split ((pre @ [t] @ u24_bytes (of_nat (length b))) @ b) more')" for more'
    using Cons.prems(2) by (intro rd_take_app) (simp_all add: m wire_msg_def)
  have IH: "message_loop (rd_split (pre @ wire_msg m) (concat (map wire_msg ms) @ rest)) =
      message_loop (rd_split ((pre @ wire_msg m) @ concat (map wire_msg ms)) rest)"
    using Cons.prems by (intro Cons.IH) (simp_all add: m)
  show ?case
    using IH tk t
    by (subst message_loop.simps)
       (simp add: m wire_msg_def rd_u8_split rd_u24_bytes be24_bytes [OF n] rd_split_sel del: rd_take_split)
qed simp

lemma record_step:
  assumes "length version = 2" "length body < 65536" "length pre \<le> 2 ^ 61"
  shows "record_loop (rd_split pre (wire_record version body @ rest)) =
    (case message_loop (rd_split [] body) of Some v \<Rightarrow> v | None \<Rightarrow> record_loop (rd_split (pre @ wire_record version body) rest))"
proof -
  obtain x y where v: "version = [x, y]" using assms(1) by (auto simp: length_Suc_conv numeral_2_eq_2)
  let ?n = "of_nat (length body) :: u16"
  have n: "unat ?n = length body" using assms(2) by (simp add: unsigned_of_nat take_bit_nat_eq_self)
  have 3: "rd_take 3 (rd_split pre (0x16 # x # y # tl)) = Some ([0x16, x, y], rd_split (pre @ [0x16, x, y]) tl)" for tl
    using rd_take_app [of "[0x16, x, y]" 3 pre tl] assms(3) by (simp add: usize_max_def)
  have 4: "rd_u16 (rd_split q (u16_bytes ?n @ tl)) = Some (?n, rd_split (q @ u16_bytes ?n) tl)" for q tl
    by (simp add: u16_bytes_def rd_u16_split be16_u16_bytes)
  have l2: "length (u16_bytes ?n) = 2" by (simp add: u16_bytes_def)
  have 5: "rd_take (length body) (rd_split (pre @ 0x16 # x # y # u16_bytes ?n) (body @ rest)) =
      Some (body, rd_split (pre @ 0x16 # x # y # u16_bytes ?n @ body) rest)"
    using rd_take_app [of body "length body" "pre @ 0x16 # x # y # u16_bytes ?n" rest] assms l2 by (simp add: usize_max_def)
  have w: "wire_record version body = 0x16 # x # y # u16_bytes ?n @ body" by (simp add: wire_record_def v)
  have at: "b_at (pre @ 0x16 # tl) (length pre) = Some 0x16" for tl :: bytes by (simp add: b_at_def nth_append)
  show ?thesis
    unfolding w
    by (subst record_loop.simps) (simp add: rd_split_sel at 3 4 5 n l2 rd_new_split del: rd_take_split)
qed

text \<open>A flight whose records hold any other handshake messages first and then a Certificate message with the
  leaf in front yields exactly that leaf; and whatever certificate is taken out of any bytes is whole: it is
  not empty and stands there as one piece, behind the three bytes that give its length.\<close>
theorem certificate_is_the_whole_leaf:
  assumes "list_all (\<lambda>(v, ms). length v = 2 \<and> list_all other_msg ms \<and> length (concat (map wire_msg ms)) < 65536) before"
    and "length (concat (map (\<lambda>(v, ms). wire_record v (concat (map wire_msg ms))) before)) \<le> 2 ^ 60"
    and "length version = 2" "list_all other_msg ms" "c \<noteq> []"
    and "length (concat (map wire_msg ms) @ wire_msg (0x0b, wire_certificate c others) @ tail) < 65536"
  shows "server_certificate_der (concat (map (\<lambda>(v, ms). wire_record v (concat (map wire_msg ms))) before) @
      wire_record version (concat (map wire_msg ms) @ wire_msg (0x0b, wire_certificate c others) @ tail) @ after) = Some c \<and>
    (case server_certificate_der d of None \<Rightarrow> True | Some c' \<Rightarrow> holds_cert d c')"
proof
  show "case server_certificate_der d of None \<Rightarrow> True | Some c' \<Rightarrow> holds_cert d c'"
    using record_loop_Some [of "[]" d] by (auto simp: server_certificate_der_def rd_new_split split: option.split)
next
  let ?rec = "\<lambda>(v, ms). wire_record v (concat (map wire_msg ms))"
  let ?cert = "wire_certificate c others"
  let ?body = "concat (map wire_msg ms) @ wire_msg (0x0b, ?cert) @ tail"
  have small: "length ?cert < 2 ^ 24" "3 + length c + length others < 2 ^ 24"
    using assms(6) by (simp_all add: wire_msg_def wire_certificate_def)
  have found: "message_loop (rd_split [] ?body) = Some (Some c)"
  proof -
    let ?pre = "concat (map wire_msg ms)"
    have tk: "rd_take (length ?cert) (rd_split ((?pre @ [0x0b]) @ u24_bytes (of_nat (length ?cert))) (?cert @ tail)) =
        Some (?cert, rd_split (((?pre @ [0x0b]) @ u24_bytes (of_nat (length ?cert))) @ ?cert) tail)"
      using assms(6) by (intro rd_take_app) (simp_all add: wire_msg_def usize_max_def)
    have "message_loop (rd_split [] ?body) = message_loop (rd_split ?pre (wire_msg (0x0b, ?cert) @ tail))"
      using message_loop_others [of ms "[]" "wire_msg (0x0b, ?cert) @ tail"] assms(4,6) by (simp add: usize_max_def)
    also have "\<dots> = Some (leaf_certificate ?cert)"
      using tk by (subst message_loop.simps)
        (simp add: wire_msg_def rd_u8_split rd_u24_bytes be24_bytes [OF small(1)] rd_split_sel del: rd_take_split)
    finally show ?thesis by (simp only: leaf_of_wire [OF assms(5) small(2)])
  qed
  have none: "message_loop (rd_split [] (concat (map wire_msg ms))) = None"
    if "list_all other_msg ms" "length (concat (map wire_msg ms)) < 65536" for ms
    using message_loop_others [of ms "[]" "[]"] that
    by (simp add: usize_max_def) (simp add: message_loop.simps rd_split_sel)
  have "record_loop (rd_split pre (concat (map ?rec before) @ wire_record version ?body @ after)) = Some c"
    if "list_all (\<lambda>(v, ms). length v = 2 \<and> list_all other_msg ms \<and> length (concat (map wire_msg ms)) < 65536) before"
      "length pre + length (concat (map ?rec before)) \<le> 2 ^ 60" for pre
    using that
  proof (induction before arbitrary: pre)
    case Nil
    then show ?case using record_step [OF assms(3,6), of pre after] found by simp
  next
    case (Cons r before)
    obtain v ms' where r: "r = (v, ms')" by (cases r)
    let ?b = "concat (map wire_msg ms')"
    have "record_loop (rd_split pre (wire_record v ?b @ concat (map ?rec before) @ wire_record version ?body @ after)) =
        record_loop (rd_split (pre @ wire_record v ?b) (concat (map ?rec before) @ wire_record version ?body @ after))"
      using Cons.prems by (subst record_step) (simp_all add: r none)
    also have "\<dots> = Some c" using Cons.prems by (intro Cons.IH) (simp_all add: r)
    finally show ?case by (simp add: r)
  qed
  from this [of "[]"] show "server_certificate_der (concat (map ?rec before) @ wire_record version ?body @ after) = Some c"
    using assms(1,2) by (simp add: server_certificate_der_def rd_new_split)
qed

theorem certificate_is_the_whole_leaf_witness:
  "server_certificate_der (wire_record [3, 3] (wire_msg (2, replicate 38 0)) @
      wire_record [3, 3] (wire_msg (0x0c, [1, 2]) @ wire_msg (0x0b, wire_certificate [0x30, 1, 7] [0, 0, 1, 9])) @ [0x15]) = Some [0x30, 1, 7]"
proof -
  have "list_all other_msg [(2, replicate 38 0)]" "list_all other_msg [(0x0c, [1, 2])]" by (simp_all add: other_msg_def)
  then show ?thesis
    using certificate_is_the_whole_leaf [of "[([3, 3], [(2, replicate 38 0)])]" "[3, 3]" "[(0x0c, [1, 2])]" "[0x30, 1, 7]" "[0, 0, 1, 9]" "[]" "[0x15]" "[]"]
    by (simp add: wire_msg_def wire_record_def wire_certificate_def u16_bytes_def)
qed

end
