(* ===== verification/Trails.thy ===== *)
theory Trails
  imports Strtable Clienthello
begin

text \<open>
  \<open>trails/mod.rs\<close>: the trail database, which keeps every trail under its text and mirrors those that name
  an address, or an address and port, in tables keyed by the address itself; and the store that hands new
  databases to the workers. The compiled regular expression of the wildcard trails (\<open>regexset.rs\<close>) is the
  parameter of the type.
\<close>

section \<open>Shapes of fingerprints\<close>

definition fp_cert :: u8 where "fp_cert = 4"

definition lower_hex :: "string \<Rightarrow> bool" where
  "lower_hex s = list_all (\<lambda>c. is_digit c \<or> code (CHR ''a'') \<le> code c \<and> code c \<le> code (CHR ''f'')) s"

definition fingerprint_shape :: "string \<Rightarrow> u8" where
  "fingerprint_shape b =
     (let n = length b;
          kind = (if n = 32 \<and> lower_hex b then fp_ja3 else 0);
          kind = (if (n = 40 \<or> n = 64) \<and> lower_hex b then kind OR fp_cert else kind)
      in if 26 \<le> n \<and> b ! (n - 26) = CHR ''_'' \<and> b ! (n - 13) = CHR ''_'' \<and>
            lower_hex (take 12 (drop (n - 25) b)) \<and> lower_hex (drop (n - 12) b)
         then kind OR fp_ja4 else kind)"

section \<open>Native keys\<close>

datatype native_key = NoKey | IpKey ip | IpPortKey ip u16

definition ip4_port_key :: "u32 \<Rightarrow> u16 \<Rightarrow> u64" where
  "ip4_port_key v port = push_bit 16 (ucast v) OR ucast port"

definition trail_ip :: "string \<Rightarrow> ip option" where
  "trail_ip text =
     (case parse_canonical_ip text of
        Some ip \<Rightarrow> Some ip
      | None \<Rightarrow> if CHR '':'' \<in> set text then map_option V6 (parse_ipv6 text) else None)"

definition parse_canonical_addr_port :: "string \<Rightarrow> (ip \<times> u16) option" where
  "parse_canonical_addr_port trail = do {
     (addr, port_text) \<leftarrow>
       (case strip_prefix trail ''['' of
          Some rest \<Rightarrow> map_option (\<lambda>idx. (take idx rest, drop (idx + 2) rest)) (find_sub rest '']:'')
        | None \<Rightarrow> map_option (\<lambda>idx. (take idx trail, drop (idx + 1) trail)) (rfind_char trail (CHR '':'')));
     if port_text = [] \<or> \<not> list_all is_digit port_text then None
     else do {
       port \<leftarrow> parse_u16 port_text;
       ip \<leftarrow> trail_ip addr;
       if is_v6 ip \<and> \<not> starts_with trail ''['' \<or> \<not> is_v6 ip \<and> starts_with trail ''['' then None
       else if (if is_v6 ip then dec (unat port) \<noteq> port_text else ip_addr_port ip port \<noteq> trail) then None
       else Some (ip, port)
     }
   }"

definition native_key_of :: "string \<Rightarrow> native_key" where
  "native_key_of trail =
     (if CHR '':'' \<notin> set trail then
        (if trail = [] \<or> \<not> is_digit (hd trail) then NoKey
         else case parse_canonical_ip trail of None \<Rightarrow> NoKey | Some ip \<Rightarrow> IpKey ip)
      else case trail_ip trail of
        Some ip \<Rightarrow> IpKey ip
      | None \<Rightarrow> (case parse_canonical_addr_port trail of Some (ip, port) \<Rightarrow> IpPortKey ip port | None \<Rightarrow> NoKey))"

section \<open>The database\<close>

type_synonym trail_info = "string \<times> string"

record 'r trail_db =
  td_pairs :: "trail_info list"
  td_strings :: str_table
  td_ip4 :: "u32 int_table"
  td_ip4_port :: "u64 int_table"
  td_ip6 :: "u128 int_table"
  td_ip6_port :: "(u128 \<times> u16, u32) amap"
  td_regex :: 'r
  td_len :: nat
  td_fingerprints :: u8
  td_prebuilt :: bool

definition pair :: "'r trail_db \<Rightarrow> u32 \<Rightarrow> trail_info option" where
  "pair db idx = b_at (td_pairs db) (unat idx)"

text \<open>A lookup: the outer \<open>None\<close> is a panic, the inner one a trail that is not there.\<close>

definition pair_of_index :: "'r trail_db \<Rightarrow> u32 option \<Rightarrow> trail_info option option" where
  "pair_of_index db idx = (case idx of None \<Rightarrow> Some None | Some i \<Rightarrow> map_option Some (pair db i))"

definition td_get :: "string \<Rightarrow> 'r trail_db \<Rightarrow> trail_info option option" where
  "td_get key db = do { idx \<leftarrow> str_get key (td_strings db); pair_of_index db idx }"

definition td_contains :: "string \<Rightarrow> 'r trail_db \<Rightarrow> bool option" where
  "td_contains key db = str_contains key (td_strings db)"

definition td_get_ip :: "ip \<Rightarrow> 'r trail_db \<Rightarrow> trail_info option option" where
  "td_get_ip ip db = do {
     idx \<leftarrow> (case ip of V4 v \<Rightarrow> int_get hash_u32 v (td_ip4 db) | V6 v \<Rightarrow> int_get hash_u128 v (td_ip6 db));
     pair_of_index db idx }"

definition td_get_ip_port :: "ip \<Rightarrow> u16 \<Rightarrow> 'r trail_db \<Rightarrow> trail_info option option" where
  "td_get_ip_port ip port db = do {
     idx \<leftarrow> (case ip of
        V4 v \<Rightarrow> int_get hash_u64 (ip4_port_key v port) (td_ip4_port db)
      | V6 v \<Rightarrow> Some (map_of (td_ip6_port db) (v, port)));
     pair_of_index db idx }"

definition has_fingerprints :: "u8 \<Rightarrow> 'r trail_db \<Rightarrow> bool" where
  "has_fingerprints fp db = (td_fingerprints db AND fp \<noteq> 0)"

definition trail_db_new :: "nat \<Rightarrow> 'r \<Rightarrow> 'r trail_db" where
  "trail_db_new estimated_rows regex =
     \<lparr>td_pairs = [], td_strings = str_with_capacity estimated_rows,
      td_ip4 = int_with_capacity (estimated_rows div 8 + 16), td_ip4_port = int_with_capacity (estimated_rows div 8 + 16),
      td_ip6 = int_with_capacity 64, td_ip6_port = [], td_regex = regex, td_len = 0, td_fingerprints = 0, td_prebuilt = False\<rparr>"

definition intern_pair :: "string \<Rightarrow> string \<Rightarrow> 'r trail_db \<Rightarrow> u32 \<times> 'r trail_db" where
  "intern_pair info reference db =
     (of_nat (length (td_pairs db)), db\<lparr>td_pairs := td_pairs db @ [(info, reference)]\<rparr>)"

definition insert_prepared :: "string \<Rightarrow> u64 \<Rightarrow> u32 \<Rightarrow> native_key \<Rightarrow> 'r trail_db \<Rightarrow> 'r trail_db option" where
  "insert_prepared trail hash idx native db = do {
     (fresh, strings) \<leftarrow> str_insert_hashed trail hash idx (td_strings db);
     let db = db\<lparr>td_strings := strings, td_len := (if fresh then td_len db + 1 else td_len db),
                 td_fingerprints := (if 26 \<le> length trail then td_fingerprints db OR fingerprint_shape trail else td_fingerprints db)\<rparr>;
     (case native of
        NoKey \<Rightarrow> Some db
      | IpKey (V4 v) \<Rightarrow> map_option (\<lambda>t. db\<lparr>td_ip4 := t\<rparr>) (int_insert hash_u32 v idx (td_ip4 db))
      | IpKey (V6 v) \<Rightarrow> map_option (\<lambda>t. db\<lparr>td_ip6 := t\<rparr>) (int_insert hash_u128 v idx (td_ip6 db))
      | IpPortKey (V4 v) port \<Rightarrow>
          map_option (\<lambda>t. db\<lparr>td_ip4_port := t\<rparr>) (int_insert hash_u64 (ip4_port_key v port) idx (td_ip4_port db))
      | IpPortKey (V6 v) port \<Rightarrow> Some (db\<lparr>td_ip6_port := AList.update (v, port) idx (td_ip6_port db)\<rparr>))
   }"

definition td_insert :: "string \<Rightarrow> u32 \<Rightarrow> 'r trail_db \<Rightarrow> 'r trail_db option" where
  "td_insert trail idx db = insert_prepared trail (key_hash trail) idx (native_key_of trail) db"

section \<open>Which texts have a native key\<close>

lemma dec_chars: "c \<in> set (dec n) \<Longrightarrow> is_digit c"
  using dec_digits [of n] by (auto simp: list_all_iff)

lemma render_V4_chars: "CHR '':'' \<notin> set (ip_render (V4 v))" "CHR ''.'' \<in> set (ip_render (V4 v))"
  "CHR ''['' \<notin> set (ip_render (V4 v))"
  "ip_render (V4 v) \<noteq> []" "is_digit (hd (ip_render (V4 v)))"
proof -
  have no: "CHR '':'' \<notin> set (dec n)" "CHR ''['' \<notin> set (dec n)" for n
    using dec_chars [of "CHR '':''" n] dec_chars [of "CHR ''[''" n] by (auto simp: is_digit_def code_def)
  show "CHR '':'' \<notin> set (ip_render (V4 v))" "CHR ''.'' \<in> set (ip_render (V4 v))" "CHR ''['' \<notin> set (ip_render (V4 v))"
    "ip_render (V4 v) \<noteq> []"
    using no by (simp_all add: render_V4)
  show "is_digit (hd (ip_render (V4 v)))"
    using dec_digits [of "unat (ucast (drop_bit 24 v) :: u8)"] by (cases "dec (unat (ucast (drop_bit 24 v) :: u8))") (simp_all add: render_V4)
qed

lemma trail_ip_V4: "trail_ip t = Some (V4 v) \<longleftrightarrow> t = ip_render (V4 v)"
  using parse_canonical_V4 [of t v] by (auto simp: trail_ip_def split: option.splits)

lemma dec_u16_length: "length (dec (unat (x :: u16))) \<le> 5"
proof -
  have step: "length (dec n) \<le> Suc k" if "n div 10 < 10 ^ k" "\<And>m. m < 10 ^ k \<Longrightarrow> length (dec m) \<le> k" for n k
    using that(2) [OF that(1)] by (subst dec.simps) auto
  have "length (dec n) \<le> 4" if "n < 10 ^ 4" for n
    using step [of n 3] dec_length3 that by (simp add: less_mult_imp_div_less)
  then have "length (dec n) \<le> 5" if "n < 10 ^ 5" for n
    using step [of n 4] that by (simp add: less_mult_imp_div_less)
  then show ?thesis using unat_u16_bound [of x] by simp
qed

lemma addr_port_V4: "ip_addr_port (V4 v) port = ip_render (V4 v) @ '':'' @ dec (unat port)"
proof -
  have l: "length (ip_render (V4 v)) \<le> 15"
    using dec_u8_length [of "ucast (drop_bit 24 v)"] dec_u8_length [of "ucast (drop_bit 16 v)"]
      dec_u8_length [of "ucast (drop_bit 8 v)"] dec_u8_length [of "ucast v"]
    by (simp add: render_V4)
  let ?s = "ip_render (V4 v) @ '':'' @ dec (unat port)"
  have "length (dec (unat port)) \<le> 5" using dec_u16_length by blast
  then have "ss_text (ss_push_u16 (ss_push_byte (ss_push_str (ss_new 64) (ip_render (V4 v))) (CHR '':'')) port) = ?s"
    using l by simp
  moreover have "list_all is_ascii ?s"
    by (simp add: render_V4 dec_ascii is_ascii_def code_def)
  ultimately show ?thesis by (simp add: ss_as_str_text utf8_valid_ascii)
qed

lemma native_ip4: "native_key_of t = IpKey (V4 v) \<longleftrightarrow> t = ip_render (V4 v)"
proof
  assume "native_key_of t = IpKey (V4 v)"
  then have "parse_canonical_ip t = Some (V4 v) \<or> trail_ip t = Some (V4 v)"
    by (auto simp: native_key_of_def split: if_splits option.splits)
  then show "t = ip_render (V4 v)" using parse_canonical_V4 trail_ip_V4 by blast
next
  assume t: "t = ip_render (V4 v)"
  show "native_key_of t = IpKey (V4 v)"
    unfolding t native_key_of_def using render_V4_chars [of v] parse_canonical_V4 [of "ip_render (V4 v)" v] by simp
qed

lemma find_sub_none_one_colon: "CHR '':'' \<notin> set a \<Longrightarrow> CHR '':'' \<notin> set b \<Longrightarrow> find_sub (a @ CHR '':'' # b) ''::'' = None"
proof (induction a)
  case Nil
  then have "find_sub b ''::'' = None"
    by (induction b) (auto simp: starts_with_def)
  then show ?case using Nil by (cases b) (auto simp: starts_with_def)
next
  case (Cons x a)
  then show ?case by (cases a) (auto simp: starts_with_def)
qed

lemma addr_port_is_no_ip:
  assumes "CHR ''.'' \<in> set a" "CHR '':'' \<notin> set a" "CHR '':'' \<notin> set b"
  shows "parse_ipv6 (a @ '':'' @ b) = None"
proof -
  have "find_sub (a @ '':'' @ b) ''::'' = None" using find_sub_none_one_colon [OF assms(2,3)] by simp
  then have "split_once (a @ '':'' @ b) ''::'' = None" by (simp add: split_once_def)
  moreover have "split_on (CHR '':'') (a @ '':'' @ b) = a # [b]"
    using split_on_append [OF assms(2), of b] assms(3) by (simp add: split_on_no)
  moreover have "parse_groups_it (a # [b]) [] = None"
  proof -
    have "\<not> is_hexdigit (CHR ''.'')" by code_simp
    then have "\<not> list_all is_hexdigit a"
      using assms(1) by (auto simp: list_all_iff)
    then show ?thesis by simp
  qed
  ultimately show ?thesis by (simp add: parse_ipv6_def parse_groups_def)
qed

lemma rfind_last: "c \<notin> set b \<Longrightarrow> rfind_char (a @ c # b) c = Some (length a)"
proof (induction a)
  case Nil
  then have "rfind_char b c = None" by (induction b) auto
  then show ?case by simp
qed simp

lemma parse_canonical_colon:
  assumes "CHR ''.'' \<in> set a" "CHR '':'' \<notin> set a" "CHR '':'' \<notin> set b"
  shows "parse_canonical_ip (a @ '':'' @ b) = None"
proof (cases "parse_canonical_ip (a @ '':'' @ b)")
  case (Some ip)
  show ?thesis
  proof (cases ip)
    case (V4 v)
    then have "a @ '':'' @ b = ip_render (V4 v)" using Some parse_canonical_V4 by simp
    then have "CHR '':'' \<in> set (ip_render (V4 v))" by (metis in_set_conv_decomp append_Cons append_Nil)
    then show ?thesis using render_V4_chars(1) by simp
  next
    case (V6 v)
    then show ?thesis using Some addr_port_is_no_ip [OF assms]
      by (simp add: parse_canonical_ip_def split: option.splits if_splits)
  qed
qed

lemma native_port4: "native_key_of t = IpPortKey (V4 v) port \<longleftrightarrow> t = ip_addr_port (V4 v) port"
proof
  assume "native_key_of t = IpPortKey (V4 v) port"
  then have "parse_canonical_addr_port t = Some (V4 v, port)"
    by (auto simp: native_key_of_def split: if_splits option.splits)
  then show "t = ip_addr_port (V4 v) port"
    by (auto simp: parse_canonical_addr_port_def split: Option.bind_splits if_splits)
next
  assume t: "t = ip_addr_port (V4 v) port"
  let ?a = "ip_render (V4 v)" and ?b = "dec (unat port)"
  have no: "CHR '':'' \<notin> set ?b" using dec_no_dot by blast
  have s: "t = ?a @ '':'' @ ?b" by (simp only: t addr_port_V4)
  have none: "trail_ip t = None"
    unfolding s trail_ip_def
    using parse_canonical_colon [OF render_V4_chars(2,1) no] addr_port_is_no_ip [OF render_V4_chars(2,1) no] by simp
  have br: "\<not> starts_with t ''[''"
    using render_V4_chars(3,4) [of v] unfolding s by (cases ?a) (auto simp: starts_with_def)
  have "rfind_char t (CHR '':'') = Some (length ?a)" unfolding s using rfind_last [OF no, of ?a] by simp
  then have split: "take (length ?a) t = ?a" "drop (length ?a + 1) t = ?b" "rfind_char t (CHR '':'') = Some (length ?a)"
    unfolding s by simp_all
  have p: "parse_u16 ?b = Some port"
    using unat_u16_bound [of port] by (simp add: parse_u16_def)
  have "parse_canonical_addr_port t = Some (V4 v, port)"
    using br split p trail_ip_V4 [of ?a v] t dec_digits
    by (simp add: parse_canonical_addr_port_def strip_prefix_def del: ip_addr_port.simps)
  then show "native_key_of t = IpPortKey (V4 v) port"
    using none s by (simp add: native_key_of_def)
qed

section \<open>The database of a list of rows\<close>

text \<open>The native tables mirror the text: the value of an address is that of the text it renders to, or, for an
  IPv6 address, of one of the texts that spell it.\<close>

definition covers :: "u8 \<Rightarrow> u8 \<Rightarrow> bool" where
  "covers fps shape \<longleftrightarrow> fps OR shape = fps"

definition spelled6 :: "(string \<Rightarrow> native_key) \<Rightarrow> (string \<Rightarrow> u32 option) \<Rightarrow> native_key \<Rightarrow> u32 option \<Rightarrow> bool" where
  "spelled6 nk text key found = (case found of
     None \<Rightarrow> \<forall>t. nk t = key \<longrightarrow> text t = None
   | Some i \<Rightarrow> \<exists>t. nk t = key \<and> text t = Some i)"

definition db_ok :: "'r trail_db \<Rightarrow> bool" where
  "db_ok db \<longleftrightarrow>
     str_ok (td_strings db) \<and> int_ok hash_u32 (td_ip4 db) \<and> int_ok hash_u64 (td_ip4_port db) \<and> int_ok hash_u128 (td_ip6 db) \<and>
     (\<forall>v. int_bindings (td_ip4 db) v = str_bindings (td_strings db) (ip_render (V4 v))) \<and>
     (\<forall>v p. int_bindings (td_ip4_port db) (ip4_port_key v p) = str_bindings (td_strings db) (ip_addr_port (V4 v) p)) \<and>
     (\<forall>v. spelled6 native_key_of (str_bindings (td_strings db)) (IpKey (V6 v)) (int_bindings (td_ip6 db) v)) \<and>
     (\<forall>v p. spelled6 native_key_of (str_bindings (td_strings db)) (IpPortKey (V6 v) p) (map_of (td_ip6_port db) (v, p))) \<and>
     (\<forall>t. str_bindings (td_strings db) t \<noteq> None \<and> 26 \<le> length t \<longrightarrow> covers (td_fingerprints db) (fingerprint_shape t))"

lemma ip4_port_key_inj: "ip4_port_key v p = ip4_port_key w q \<longleftrightarrow> v = w \<and> p = q"
proof
  assume eq: "ip4_port_key v p = ip4_port_key w q"
  have b: "bit (ip4_port_key v p) i = (16 \<le> i \<and> i < 64 \<and> bit v (i - 16) \<or> i < 16 \<and> bit p i)" for v p i
    by (auto simp: ip4_port_key_def bit_simps dest: bit_imp_le_length)
  have "bit v i = bit w i" if "i < 32" for i
    using b [of v p "i + 16"] b [of w q "i + 16"] that by (simp add: eq)
  moreover have "bit p i = bit q i" if "i < 16" for i
    using b [of v p i] b [of w q i] that by (simp add: eq)
  ultimately show "v = w \<and> p = q" by (simp add: bit_eq_iff)
qed simp

lemma spelled6_update:
  assumes "spelled6 nk text key found"
  shows "spelled6 nk (text(t \<mapsto> i)) key (if nk t = key then Some i else found)"
proof (cases "nk t = key")
  case True
  then show ?thesis by (auto simp: spelled6_def)
next
  case False
  then show ?thesis using assms by (auto simp: spelled6_def split: option.splits)
qed

lemma covers_or: "covers fps shape \<Longrightarrow> covers (fps OR other) shape" "covers (fps OR shape) shape"
  by (auto simp: covers_def bit_eq_iff bit_simps)

definition td_used :: "'r trail_db \<Rightarrow> nat" where
  "td_used db = str_used (td_strings db) + it_len (td_ip4 db) + it_len (td_ip4_port db) + it_len (td_ip6 db)"

lemma td_insert_tables:
  assumes ok: "db_ok db" and i: "idx \<noteq> empty_val" and small: "td_used db + (2 + length trail) \<le> table_limit"
    and nk: "nk = native_key_of trail"
  shows "\<exists>db'. td_insert trail idx db = Some db' \<and> td_pairs db' = td_pairs db \<and>
    str_ok (td_strings db') \<and> str_bindings (td_strings db') = (str_bindings (td_strings db))(trail \<mapsto> idx) \<and>
    int_ok hash_u32 (td_ip4 db') \<and> int_ok hash_u64 (td_ip4_port db') \<and> int_ok hash_u128 (td_ip6 db') \<and>
    td_used db' \<le> td_used db + (2 + length trail) \<and>
    (\<forall>v. int_bindings (td_ip4 db') v = (if nk = IpKey (V4 v) then Some idx else int_bindings (td_ip4 db) v)) \<and>
    (\<forall>v p. int_bindings (td_ip4_port db') (ip4_port_key v p) =
       (if nk = IpPortKey (V4 v) p then Some idx else int_bindings (td_ip4_port db) (ip4_port_key v p))) \<and>
    (\<forall>v. int_bindings (td_ip6 db') v = (if nk = IpKey (V6 v) then Some idx else int_bindings (td_ip6 db) v)) \<and>
    (\<forall>v p. map_of (td_ip6_port db') (v, p) = (if nk = IpPortKey (V6 v) p then Some idx else map_of (td_ip6_port db) (v, p))) \<and>
    td_fingerprints db' = (if 26 \<le> length trail then td_fingerprints db OR fingerprint_shape trail else td_fingerprints db)"
proof -
  obtain fresh strings where s: "str_insert_hashed trail (key_hash trail) idx (td_strings db) = Some (fresh, strings)"
    "str_ok strings" "str_used strings \<le> str_used (td_strings db) + (1 + length trail)"
    "str_bindings strings = (str_bindings (td_strings db))(trail \<mapsto> idx)"
    using str_insert_spec [of "td_strings db" idx trail] ok i small by (auto simp: db_ok_def str_insert_def td_used_def)
  have oks: "int_ok hash_u32 (td_ip4 db)" "int_ok hash_u64 (td_ip4_port db)" "int_ok hash_u128 (td_ip6 db)"
    using ok by (simp_all add: db_ok_def)
  have room: "it_len (td_ip4 db) < table_limit" "it_len (td_ip4_port db) < table_limit" "it_len (td_ip6 db) < table_limit"
    using small by (simp_all add: td_used_def)
  note ins = td_insert_def insert_prepared_def s(1) nk [symmetric]
  show ?thesis
  proof (cases nk)
    case NoKey
    then show ?thesis using s oks by (simp add: ins td_used_def)
  next
    case (IpKey ip)
    show ?thesis
    proof (cases ip)
      case (V4 v)
      obtain t where t: "int_insert hash_u32 v idx (td_ip4 db) = Some t" "int_ok hash_u32 t" "it_len t \<le> it_len (td_ip4 db) + 1"
        "int_bindings t = (int_bindings (td_ip4 db))(v \<mapsto> idx)"
        using int_insert_spec [OF oks(1) i room(1)] by blast
      then show ?thesis using s oks by (simp add: ins td_used_def IpKey V4)
    next
      case (V6 v)
      obtain t where t: "int_insert hash_u128 v idx (td_ip6 db) = Some t" "int_ok hash_u128 t" "it_len t \<le> it_len (td_ip6 db) + 1"
        "int_bindings t = (int_bindings (td_ip6 db))(v \<mapsto> idx)"
        using int_insert_spec [OF oks(3) i room(3)] by blast
      then show ?thesis using s oks by (simp add: ins td_used_def IpKey V6)
    qed
  next
    case (IpPortKey ip p)
    show ?thesis
    proof (cases ip)
      case (V4 v)
      obtain t where t: "int_insert hash_u64 (ip4_port_key v p) idx (td_ip4_port db) = Some t" "int_ok hash_u64 t"
        "it_len t \<le> it_len (td_ip4_port db) + 1" "int_bindings t = (int_bindings (td_ip4_port db))(ip4_port_key v p \<mapsto> idx)"
        using int_insert_spec [OF oks(2) i room(2)] by blast
      then show ?thesis using s oks by (simp add: ins td_used_def IpPortKey V4 ip4_port_key_inj)
    next
      case (V6 v)
      then show ?thesis using s oks by (simp add: ins td_used_def IpPortKey amap_simps)
    qed
  qed
qed

lemma td_insert_spec:
  assumes ok: "db_ok db" and i: "idx \<noteq> empty_val" and small: "td_used db + (2 + length trail) \<le> table_limit"
  shows "\<exists>db'. td_insert trail idx db = Some db' \<and> db_ok db' \<and> td_pairs db' = td_pairs db \<and>
    td_used db' \<le> td_used db + (2 + length trail) \<and>
    str_bindings (td_strings db') = (str_bindings (td_strings db))(trail \<mapsto> idx)"
proof -
  obtain db' where d: "td_insert trail idx db = Some db'" "td_pairs db' = td_pairs db"
    "str_ok (td_strings db')" "str_bindings (td_strings db') = (str_bindings (td_strings db))(trail \<mapsto> idx)"
    "int_ok hash_u32 (td_ip4 db')" "int_ok hash_u64 (td_ip4_port db')" "int_ok hash_u128 (td_ip6 db')"
    "td_used db' \<le> td_used db + (2 + length trail)"
    "\<And>v. int_bindings (td_ip4 db') v = (if native_key_of trail = IpKey (V4 v) then Some idx else int_bindings (td_ip4 db) v)"
    "\<And>v p. int_bindings (td_ip4_port db') (ip4_port_key v p) =
       (if native_key_of trail = IpPortKey (V4 v) p then Some idx else int_bindings (td_ip4_port db) (ip4_port_key v p))"
    "\<And>v. int_bindings (td_ip6 db') v = (if native_key_of trail = IpKey (V6 v) then Some idx else int_bindings (td_ip6 db) v)"
    "\<And>v p. map_of (td_ip6_port db') (v, p) = (if native_key_of trail = IpPortKey (V6 v) p then Some idx else map_of (td_ip6_port db) (v, p))"
    "td_fingerprints db' = (if 26 \<le> length trail then td_fingerprints db OR fingerprint_shape trail else td_fingerprints db)"
    using td_insert_tables [OF ok i small refl] by auto
  have "db_ok db'"
    unfolding db_ok_def
  proof (intro conjI allI d(3,5,6,7))
    show "int_bindings (td_ip4 db') v = str_bindings (td_strings db') (ip_render (V4 v))" for v
      using ok d(4) by (simp add: d(9) native_ip4 db_ok_def eq_commute)
    show "int_bindings (td_ip4_port db') (ip4_port_key v p) = str_bindings (td_strings db') (ip_addr_port (V4 v) p)" for v p
      using ok d(4) by (simp add: d(10) native_port4 db_ok_def eq_commute del: ip_addr_port.simps)
    show "spelled6 native_key_of (str_bindings (td_strings db')) (IpKey (V6 v)) (int_bindings (td_ip6 db') v)" for v
      using ok unfolding d(4,11) db_ok_def by (intro spelled6_update) blast
    show "spelled6 native_key_of (str_bindings (td_strings db')) (IpPortKey (V6 v) p) (map_of (td_ip6_port db') (v, p))" for v p
      using ok unfolding d(4,12) db_ok_def by (intro spelled6_update) blast
    show "str_bindings (td_strings db') t \<noteq> None \<and> 26 \<le> length t \<longrightarrow> covers (td_fingerprints db') (fingerprint_shape t)" for t
      using ok unfolding d(4,13) db_ok_def by (auto intro: covers_or)
  qed
  then show ?thesis using d(1,2,4,8) by blast
qed

interpretation trail_rows: dictionary td_insert "\<lambda>k db. str_get k (td_strings db)" "\<lambda>db. db_ok db \<and> td_pairs db = pairs"
    "\<lambda>v. v \<noteq> empty_val" td_used "\<lambda>k. 2 + length k" table_limit "\<lambda>db. str_bindings (td_strings db)"
  for pairs :: "trail_info list"
proof
  show "\<exists>t'. td_insert k v t = Some t' \<and> (db_ok t' \<and> td_pairs t' = pairs) \<and> td_used t' \<le> td_used t + (2 + length k) \<and>
      str_bindings (td_strings t') = (str_bindings (td_strings t))(k \<mapsto> v)"
    if "db_ok t \<and> td_pairs t = pairs" "v \<noteq> empty_val" "td_used t + (2 + length k) \<le> table_limit"
    for t :: "'r trail_db" and k v
    using td_insert_spec [of t v k] that by auto
  show "str_get k (td_strings t) = Some (str_bindings (td_strings t) k)" if "db_ok t \<and> td_pairs t = pairs" for t :: "'r trail_db" and k
    using that str_get_spec by (auto simp: db_ok_def)
qed

lemma trail_db_new_ok:
  assumes "n \<le> table_limit"
  shows "db_ok (trail_db_new n regex\<lparr>td_pairs := ps\<rparr>)" "td_used (trail_db_new n regex\<lparr>td_pairs := ps\<rparr>) = 0"
    "str_bindings (td_strings (trail_db_new n regex\<lparr>td_pairs := ps\<rparr>)) = Map.empty"
proof -
  have n: "n div 8 + 16 \<le> table_limit" "64 \<le> table_limit" using assms by (simp_all add: table_limit_def)
  note c = str_with_capacity_ok [OF assms] int_with_capacity_ok [OF n(1), of hash_u32] int_with_capacity_ok [OF n(1), of hash_u64]
    int_with_capacity_ok [OF n(2), of hash_u128]
  show "db_ok (trail_db_new n regex\<lparr>td_pairs := ps\<rparr>)"
    using c by (simp add: db_ok_def trail_db_new_def spelled6_def)
  show "td_used (trail_db_new n regex\<lparr>td_pairs := ps\<rparr>) = 0"
    "str_bindings (td_strings (trail_db_new n regex\<lparr>td_pairs := ps\<rparr>)) = Map.empty"
    using c by (simp_all add: td_used_def trail_db_new_def)
qed

definition row_fits :: "trail_info list \<Rightarrow> string \<times> u32 \<Rightarrow> bool" where
  "row_fits ps r \<longleftrightarrow> snd r \<noteq> empty_val \<and> unat (snd r) < length ps"

lemma build_db:
  assumes "n \<le> table_limit" "list_all (row_fits ps) rows" "(\<Sum>r\<leftarrow>rows. 2 + length (fst r)) \<le> table_limit"
  obtains db where "put_all td_insert rows (trail_db_new n regex\<lparr>td_pairs := ps\<rparr>) = Some db" "db_ok db" "td_pairs db = ps"
    "str_bindings (td_strings db) = map_of (rev rows)"
proof -
  have s: "\<forall>(k, v) \<in> set rows. v \<noteq> empty_val" using assms(2) by (auto simp: list_all_iff row_fits_def)
  have "\<exists>db. put_all td_insert rows (trail_db_new n regex\<lparr>td_pairs := ps\<rparr>) = Some db \<and> (db_ok db \<and> td_pairs db = ps) \<and>
      td_used db \<le> td_used (trail_db_new n regex\<lparr>td_pairs := ps\<rparr>) + (\<Sum>r\<leftarrow>rows. 2 + length (fst r)) \<and>
      str_bindings (td_strings db) = str_bindings (td_strings (trail_db_new n regex\<lparr>td_pairs := ps\<rparr>)) ++ map_of (rev rows)"
    using trail_db_new_ok [OF assms(1), where regex = regex and ps = ps] assms(3) by (intro trail_rows.put_all_spec s) simp_all
  then show ?thesis using that trail_db_new_ok(3) [OF assms(1), where regex = regex and ps = ps] by auto
qed

lemma pair_of_bound:
  assumes "\<And>i. found = Some i \<Longrightarrow> unat i < length (td_pairs db)"
  shows "pair_of_index db found = Some (map_option (\<lambda>i. td_pairs db ! unat i) found)"
  using assms by (auto simp: pair_of_index_def pair_def split: option.split)

text \<open>C8: a database filled with any rows answers as the list of rows does: a text is looked up as its last
  row, an IPv4 address (with or without a port) exactly as the text the sensor renders it to, and an IPv6
  address (with or without a port) is found exactly when some row spells it, with the value of such a row; no lookup panics.\<close>
theorem native_lookups_are_text_lookups:
  assumes "n \<le> table_limit" "list_all (row_fits ps) rows" "(\<Sum>r\<leftarrow>rows. 2 + length (fst r)) \<le> table_limit"
  shows "\<exists>db. put_all td_insert rows (trail_db_new n regex\<lparr>td_pairs := ps\<rparr>) = Some db \<and>
    (\<forall>k. td_get k db = Some (map_option (\<lambda>i. ps ! unat i) (map_of (rev rows) k))) \<and>
    (\<forall>v. td_get_ip (V4 v) db = td_get (ip_render (V4 v)) db) \<and>
    (\<forall>v p. td_get_ip_port (V4 v) p db = td_get (ip_addr_port (V4 v) p) db) \<and>
    (\<forall>v. case td_get_ip (V6 v) db of
           None \<Rightarrow> False
         | Some None \<Rightarrow> list_all (\<lambda>r. native_key_of (fst r) \<noteq> IpKey (V6 v)) rows
         | Some (Some x) \<Rightarrow> \<exists>r \<in> set rows. native_key_of (fst r) = IpKey (V6 v) \<and> td_get (fst r) db = Some (Some x)) \<and>
    (\<forall>v p. case td_get_ip_port (V6 v) p db of
           None \<Rightarrow> False
         | Some None \<Rightarrow> list_all (\<lambda>r. native_key_of (fst r) \<noteq> IpPortKey (V6 v) p) rows
         | Some (Some x) \<Rightarrow> \<exists>r \<in> set rows. native_key_of (fst r) = IpPortKey (V6 v) p \<and> td_get (fst r) db = Some (Some x))"
proof -
  obtain db where db: "put_all td_insert rows (trail_db_new n regex\<lparr>td_pairs := ps\<rparr>) = Some db" "db_ok db" "td_pairs db = ps"
    "str_bindings (td_strings db) = map_of (rev rows)" using build_db [OF assms] .
  have range: "unat i < length (td_pairs db)" if "map_of (rev rows) k = Some i" for k i
  proof -
    have "(k, i) \<in> set rows" using map_of_SomeD [OF that] by simp
    then show ?thesis using assms(2) db(3) by (fastforce simp: list_all_iff row_fits_def)
  qed
  have by_text: "td_get k db = Some (map_option (\<lambda>i. ps ! unat i) (map_of (rev rows) k))" for k
    using pair_of_bound [of "map_of (rev rows) k" db] range db by (simp add: td_get_def str_get_spec db_ok_def)
  have ip4: "int_get hash_u32 v (td_ip4 db) = Some (map_of (rev rows) (ip_render (V4 v)))" for v
    using db(2,4) int_get_spec [of hash_u32 "td_ip4 db" v] by (simp add: db_ok_def)
  have port4: "int_get hash_u64 (ip4_port_key v p) (td_ip4_port db) = Some (map_of (rev rows) (ip_addr_port (V4 v) p))" for v p
    using db(2,4) int_get_spec [of hash_u64 "td_ip4_port db" "ip4_port_key v p"] by (simp add: db_ok_def del: ip_addr_port.simps)
  have spelled: "case pair_of_index db found of
           None \<Rightarrow> False
         | Some None \<Rightarrow> list_all (\<lambda>r. native_key_of (fst r) \<noteq> key) rows
         | Some (Some x) \<Rightarrow> \<exists>r \<in> set rows. native_key_of (fst r) = key \<and> td_get (fst r) db = Some (Some x)"
    if s: "spelled6 native_key_of (map_of (rev rows)) key found" for key found
  proof (cases found)
    case None
    then have "\<forall>t. native_key_of t = key \<longrightarrow> map_of (rev rows) t = None" using s by (simp add: spelled6_def)
    then have "list_all (\<lambda>r. native_key_of (fst r) \<noteq> key) rows"
      by (fastforce simp: list_all_iff map_of_eq_None_iff)
    then show ?thesis by (simp add: None pair_of_index_def)
  next
    case (Some i)
    obtain t where t: "native_key_of t = key" "map_of (rev rows) t = Some i" using s Some by (auto simp: spelled6_def)
    then have "pair_of_index db found = Some (Some (ps ! unat i))" using range db(3) by (simp add: Some pair_of_index_def pair_def)
    moreover have "(t, i) \<in> set rows" using t(2) by (auto dest: map_of_SomeD)
    moreover have "td_get t db = Some (Some (ps ! unat i))" using by_text [of t] t(2) by simp
    ultimately show ?thesis using t(1) by force
  qed
  have ip6: "td_get_ip (V6 v) db = pair_of_index db (int_bindings (td_ip6 db) v)"
    "spelled6 native_key_of (map_of (rev rows)) (IpKey (V6 v)) (int_bindings (td_ip6 db) v)" for v
    using db(2,4) int_get_spec [of hash_u128 "td_ip6 db" v] by (auto simp: db_ok_def td_get_ip_def)
  have port6: "td_get_ip_port (V6 v) p db = pair_of_index db (map_of (td_ip6_port db) (v, p))"
    "spelled6 native_key_of (map_of (rev rows)) (IpPortKey (V6 v) p) (map_of (td_ip6_port db) (v, p))" for v p
    using db(2,4) by (auto simp: db_ok_def td_get_ip_port_def)
  note v6 = spelled [OF ip6(2), folded ip6(1)] spelled [OF port6(2), folded port6(1)]
  have "td_get_ip (V4 v) db = td_get (ip_render (V4 v)) db" for v
    using db(2,4) by (simp add: td_get_ip_def ip4 td_get_def str_get_spec db_ok_def)
  moreover have "td_get_ip_port (V4 v) p db = td_get (ip_addr_port (V4 v) p) db" for v p
    using db(2,4) by (simp add: td_get_ip_port_def port4 td_get_def str_get_spec db_ok_def del: ip_addr_port.simps)
  ultimately show ?thesis using db(1) by_text v6 by blast
qed

theorem native_lookups_are_text_lookups_witness:
  "\<exists>db. put_all td_insert [(''1.2.3.4'', 0), (''8.8.8.8:53'', 1), (''example.org'', 1)] (trail_db_new 3 ()\<lparr>td_pairs := [(''a'', ''b''), (''c'', ''d'')]\<rparr>) = Some db \<and>
    td_get ''1.2.3.4'' db = Some (Some (''a'', ''b'')) \<and> td_get_ip (V4 0x01020304) db = Some (Some (''a'', ''b''))"
proof -
  let ?rows = "[(''1.2.3.4'', 0), (''8.8.8.8:53'', 1), (''example.org'', 1)] :: (string \<times> u32) list"
  let ?ps = "[(''a'', ''b''), (''c'', ''d'')]"
  have fits: "list_all (row_fits ?ps) ?rows" by (simp add: row_fits_def empty_val_def)
  obtain db where db: "put_all td_insert ?rows (trail_db_new 3 ()\<lparr>td_pairs := ?ps\<rparr>) = Some db"
    "td_get ''1.2.3.4'' db = Some (map_option (\<lambda>i. ?ps ! unat i) (map_of (rev ?rows) ''1.2.3.4''))"
    "td_get_ip (V4 0x01020304) db = td_get (ip_render (V4 0x01020304)) db"
    using native_lookups_are_text_lookups [OF _ fits, of 3 "()"] unfolding table_limit_def by auto
  have "ip_render (V4 0x01020304) = ''1.2.3.4''" by code_simp
  then show ?thesis using db by (intro exI [of _ db]) simp
qed

section \<open>Fingerprints are not missed\<close>

lemma hex_char_lower: "n < 16 \<Longrightarrow> lower_hex [hex_char n]"
proof -
  have "list_all (\<lambda>n. lower_hex [hex_char n]) [0..<16]" by code_simp
  then show "n < 16 \<Longrightarrow> lower_hex [hex_char n]" by (simp add: list_all_iff)
qed

lemma hex_lowercase_lower: "lower_hex (hex_lowercase d)" "length (hex_lowercase d) = 2 * length d"
proof -
  have n: "unat (drop_bit 4 x) < 16" "unat (x AND 0x0f) < 16" for x :: u8
  proof -
    have "unat x < 256" by (rule unat_u8_bound)
    then show "unat (drop_bit 4 x) < 16"
      by (subst unsigned_drop_bit_eq) (simp add: drop_bit_eq_div take_bit_nat_eq_self less_mult_imp_div_less)
    have "x AND 0x0f \<le> 0x0f" by (rule word_and_le1)
    then have "unat (x AND 0x0f) \<le> unat (0x0f :: u8)" by (simp only: word_le_nat_alt)
    then show "unat (x AND 0x0f) < 16" by simp
  qed
  show "lower_hex (hex_lowercase d)" "length (hex_lowercase d) = 2 * length d"
    using hex_char_lower [OF n(1)] hex_char_lower [OF n(2)] by (induction d) (simp_all add: hex_lowercase_def lower_hex_def)
qed

lemma covers_and: "covers fps shape \<Longrightarrow> shape AND fp \<noteq> 0 \<Longrightarrow> fps AND fp \<noteq> 0"
proof -
  assume c: "covers fps shape" and nz: "shape AND fp \<noteq> 0"
  obtain n where n: "bit shape n" "bit fp n" using nz by (auto simp: bit_eq_iff bit_simps)
  have "bit fps n" using n(1) c unfolding covers_def by (metis bit_or_iff)
  then have "bit (fps AND fp) n" using n(2) by (simp add: bit_simps)
  then show "fps AND fp \<noteq> 0" by auto
qed

lemma shape_bits: "fp_ja3 AND fp_ja3 \<noteq> 0" "fp_cert AND fp_cert \<noteq> 0" "(k OR fp_ja4) AND fp_ja4 \<noteq> 0" "(fp_ja3 OR k) AND fp_ja3 \<noteq> 0"
  "(k OR fp_cert) AND fp_cert \<noteq> 0"
proof -
  show "fp_ja3 AND fp_ja3 \<noteq> 0" "fp_cert AND fp_cert \<noteq> 0" by (simp_all add: fp_ja3_def fp_cert_def)
  have "bit ((k OR fp_ja4) AND fp_ja4) 1" "bit ((fp_ja3 OR k) AND fp_ja3) 0" "bit ((k OR fp_cert) AND fp_cert) 2"
    by (simp_all add: bit_simps fp_ja4_def fp_ja3_def fp_cert_def)
  then show "(k OR fp_ja4) AND fp_ja4 \<noteq> 0" "(fp_ja3 OR k) AND fp_ja3 \<noteq> 0" "(k OR fp_cert) AND fp_cert \<noteq> 0" by auto
qed

lemma shape_of_digests:
  "length d = 16 \<Longrightarrow> fingerprint_shape (hex_lowercase d) AND fp_ja3 \<noteq> 0"
  "length d = 20 \<or> length d = 32 \<Longrightarrow> fingerprint_shape (hex_lowercase d) AND fp_cert \<noteq> 0"
proof -
  have or_bits: "x AND fp \<noteq> 0 \<Longrightarrow> (x OR y) AND fp \<noteq> 0" for x y fp :: u8
    by (auto simp: bit_eq_iff bit_simps)
  show "length d = 16 \<Longrightarrow> fingerprint_shape (hex_lowercase d) AND fp_ja3 \<noteq> 0"
    using hex_lowercase_lower [of d] shape_bits(1) or_bits by (simp add: fingerprint_shape_def Let_def)
  show "length d = 20 \<or> length d = 32 \<Longrightarrow> fingerprint_shape (hex_lowercase d) AND fp_cert \<noteq> 0"
    using hex_lowercase_lower [of d] shape_bits(2,5) or_bits by (auto simp: fingerprint_shape_def Let_def)
qed

lemma shape_of_ja4:
  assumes "lower_hex b" "lower_hex c" "length b = 12" "length c = 12"
  shows "fingerprint_shape (a @ ''_'' @ b @ ''_'' @ c) AND fp_ja4 \<noteq> 0"
proof -
  let ?s = "a @ ''_'' @ b @ ''_'' @ c"
  have l: "length ?s = length a + 26" using assms by simp
  have at: "?s ! length a = CHR ''_''" by (simp add: nth_append)
  have "?s ! (length a + 13) = (''_'' @ b @ ''_'' @ c) ! 13" by (simp only: nth_append_length_plus)
  then have at2: "?s ! (length a + 13) = CHR ''_''" using assms(3) by (simp add: nth_append)
  have d: "drop (length a + 1) ?s = b @ ''_'' @ c" "drop (length a + 14) ?s = c" using assms(3) by simp_all
  have n: "length ?s - 26 = length a" "length ?s - 13 = length a + 13" "length ?s - 25 = length a + 1" "length ?s - 12 = length a + 14" "26 \<le> length ?s"
    using l by simp_all
  have cond: "26 \<le> length ?s \<and> ?s ! (length ?s - 26) = CHR ''_'' \<and> ?s ! (length ?s - 13) = CHR ''_'' \<and>
      lower_hex (take 12 (drop (length ?s - 25) ?s)) \<and> lower_hex (drop (length ?s - 12) ?s)"
    unfolding n(1-4) at at2 d using assms n(5) by simp
  show ?thesis
    unfolding fingerprint_shape_def Let_def if_P [OF cond] by (rule shape_bits(3))
qed

section \<open>Fingerprints wanted\<close>

text \<open>Two readings of one message, for different kinds: the same fields, and the fingerprints of the kinds.\<close>

definition same_reading where
  "same_reading md5 sha want want' transport r r' =
     (case (r, r') of
        (Some (h, _), Some (h', _)) \<Rightarrow> h = None \<and> h' = None \<or>
          (\<exists>v st. h = Some (fresh_prints md5 sha want transport v st) \<and> h' = Some (fresh_prints md5 sha want' transport v st))
      | (None, None) \<Rightarrow> True
      | _ \<Rightarrow> False)"

lemma or_fail_both: "R early early' \<Longrightarrow> (\<And>x. R (f x) (f' x)) \<Longrightarrow> R (or_fail v early f) (or_fail v early' f')"
  by (cases v) (simp_all add: or_fail_def)

lemma if_both: "(b \<Longrightarrow> R x x') \<Longrightarrow> (\<not> b \<Longrightarrow> R y y') \<Longrightarrow> R (if b then x else y) (if b then x' else y')"
  by simp

lemma option_both: "R x x' \<Longrightarrow> (\<And>y. R (f y) (f' y)) \<Longrightarrow> R (case v of None \<Rightarrow> x | Some y \<Rightarrow> f y) (case v of None \<Rightarrow> x' | Some y \<Rightarrow> f' y)"
  by (cases v) simp_all

lemma parse_same_reading:
  assumes "memo_ok sha memo" "memo_ok sha memo'"
  shows "same_reading md5 sha want want' transport (parse_client_hello_into md5 sha packet want transport (w, memo))
    (parse_client_hello_into md5 sha packet want' transport (w, memo'))"
proof -
  let ?R = "same_reading md5 sha want want' transport"
  have fail: "?R (Some (None, memo)) (Some (None, memo'))" "?R None None" by (simp_all add: same_reading_def)
  have last: "?R (case fingerprints md5 sha want transport v st memo of (ch, memo) \<Rightarrow> Some (Some ch, memo))
      (case fingerprints md5 sha want' transport v st memo' of (ch, memo) \<Rightarrow> Some (Some ch, memo))" for v st
    using fingerprints_fresh [OF assms(1), of md5 want transport v st] fingerprints_fresh [OF assms(2), of md5 want' transport v st]
    unfolding same_reading_def split_beta by (simp only: prod.case option.case fst_conv snd_conv) blast
  show ?thesis
    unfolding parse_client_hello_into_def Let_def fst_conv snd_conv
    apply (rule or_fail_both [where R = ?R], rule fail)
    apply (rule or_fail_both [where R = ?R], rule fail, simp only: split_paired_all prod.case)
    apply (rule if_both [where R = ?R], rule fail)
    apply (rule or_fail_both [where R = ?R], rule fail, simp only: split_paired_all prod.case)
    apply (rule or_fail_both [where R = ?R], rule fail, simp only: split_paired_all prod.case)
    apply (rule or_fail_both [where R = ?R], rule fail, simp only: split_paired_all prod.case)
    apply (rule or_fail_both [where R = ?R], rule fail, simp only: split_paired_all prod.case)
    apply (rule or_fail_both [where R = ?R], rule fail, simp only: split_paired_all prod.case)
    apply (rule or_fail_both [where R = ?R], rule fail, simp only: split_paired_all prod.case)
    apply (rule or_fail_both [where R = ?R], rule fail)
    apply (rule if_both [where R = ?R], rule fail)
    apply (rule or_fail_both [where R = ?R], rule fail, simp only: split_paired_all prod.case)
    apply (rule or_fail_both [where R = ?R], rule fail, simp only: split_paired_all prod.case)
    apply (rule option_both [where R = ?R], rule fail)
    apply (rule or_fail_both [where R = ?R], rule fail)
    apply (rule last)
    done
qed

text \<open>A key that has a trail has its kind of fingerprint announced.\<close>

lemma hit_announced:
  assumes "db_ok db" "td_get k db \<noteq> Some None" "26 \<le> length k" "fingerprint_shape k AND fp \<noteq> 0"
  shows "has_fingerprints fp db"
proof -
  have "str_bindings (td_strings db) k \<noteq> None"
  proof
    have "str_ok (td_strings db)" using assms(1) by (simp add: db_ok_def)
    moreover assume "str_bindings (td_strings db) k = None"
    ultimately have "td_get k db = Some None" by (simp add: td_get_def str_get_spec pair_of_index_def)
    then show False using assms(2) by simp
  qed
  then have "covers (td_fingerprints db) (fingerprint_shape k)" using assms(1,3) by (auto simp: db_ok_def)
  then show ?thesis using covers_and assms(4) by (simp add: has_fingerprints_def)
qed

lemma prints_announced:
  assumes "db_ok db" "\<And>x. length (md5 x) = 16" "\<And>x. length (sha x) = 32" "h = fresh_prints md5 sha 3 transport v st"
  shows "td_get (ja3 h) db \<noteq> Some None \<Longrightarrow> has_fingerprints fp_ja3 db" "td_get (ja4 h) db \<noteq> Some None \<Longrightarrow> has_fingerprints fp_ja4 db"
    "ja3 h \<noteq> []" "ja4 h \<noteq> []"
proof -
  obtain sni alpn0 w' where st: "st = (sni, alpn0, w')" by (cases st)
  have want: "(3 :: u8) AND fp_ja3 \<noteq> 0" "(3 :: u8) AND fp_ja4 \<noteq> 0" by (simp_all add: fp_ja3_def fp_ja4_def)
  have j3: "ja3 h = hex_lowercase (md5 (str_bytes (ja3_string v w')))"
    and j4: "ja4 h = ja4_a transport v (sni \<noteq> None) alpn0 w' @ ''_'' @ sha12 sha (ja4_b w') @ ''_'' @ sha12 sha (ja4_c w')"
    using want by (simp_all add: assms(4) st fresh_prints_def ja3_digest_def)
  have s12: "lower_hex (sha12 sha x)" "length (sha12 sha x) = 12" for x
    using hex_lowercase_lower [of "take 6 (sha (str_bytes x))"] assms(3) [of "str_bytes x"] by (simp_all add: sha12_def)
  have l3: "length (ja3 h) = 32" unfolding j3 using hex_lowercase_lower(2) assms(2) by simp
  have l4: "26 \<le> length (ja4 h)" unfolding j4 using s12(2) by simp
  show "ja3 h \<noteq> []" "ja4 h \<noteq> []" using l3 l4 by auto
  show "has_fingerprints fp_ja3 db" if "td_get (ja3 h) db \<noteq> Some None"
    using hit_announced [OF assms(1) that] l3 shape_of_digests(1) [OF assms(2)] unfolding j3 by simp
  show "has_fingerprints fp_ja4 db" if "td_get (ja4 h) db \<noteq> Some None"
    by (rule hit_announced [OF assms(1) that l4], unfold j4, rule shape_of_ja4 [OF s12(1) s12(1) s12(2) s12(2)])
qed

end
