(* ===== verification/Publish.thy ===== *)
theory Publish
  imports Prelude
begin

text \<open>
  The hand-over of trail databases to the workers: \<open>TrailStore\<close> and \<open>TrailView\<close> of \<open>trails/mod.rs\<close>. The
  operations are given whole, and as the atomic steps threads take them in (a load or an addition on the
  generation counter, a critical section of the lock), interleaved by the relation \<open>sys_step\<close>. The lock is
  not poisoned: nothing panics while it is held. \<open>'db\<close> is an \<open>Arc\<close> of a database.
\<close>

section \<open>The operations\<close>

record 'db trail_store =
  ts_generation :: u64
  ts_current :: 'db

record 'db trail_view =
  tv_generation :: u64
  tv_db :: 'db

definition store_new :: "'db \<Rightarrow> 'db trail_store" where
  "store_new db = \<lparr>ts_generation = 1, ts_current = db\<rparr>"

definition generation_of :: "'db trail_store \<Rightarrow> u64" where
  "generation_of s = ts_generation s"

definition store_snapshot :: "'db trail_store \<Rightarrow> u64 \<times> 'db" where
  "store_snapshot s = (let gen = ts_generation s; db = ts_current s in (gen, db))"

definition publish_swap :: "'db \<Rightarrow> 'db trail_store \<Rightarrow> 'db trail_store" where
  "publish_swap db s = s\<lparr>ts_current := db\<rparr>"

definition publish_count :: "'db trail_store \<Rightarrow> 'db trail_store" where
  "publish_count s = s\<lparr>ts_generation := ts_generation s + 1\<rparr>"

definition publish :: "'db \<Rightarrow> 'db trail_store \<Rightarrow> 'db trail_store" where
  "publish db s = publish_count (publish_swap db s)"

definition view_new :: "'db trail_store \<Rightarrow> 'db trail_view" where
  "view_new s = (let (generation, db) = store_snapshot s in \<lparr>tv_generation = generation, tv_db = db\<rparr>)"

definition refresh :: "'db trail_store \<Rightarrow> 'db trail_view \<Rightarrow> bool \<times> 'db trail_view" where
  "refresh s v =
     (if generation_of s = tv_generation v then (False, v)
      else (let (generation, db) = store_snapshot s in (True, v\<lparr>tv_generation := generation, tv_db := db\<rparr>)))"

section \<open>Threads\<close>

text \<open>Between its atomic steps a worker has seen that the generation changed, then loaded it.\<close>

datatype worker_pc = Idle | Changed | Loaded u64

text \<open>\<open>wk_index\<close> says which of the published databases the view holds; it is not part of the code.\<close>

record 'db worker =
  wk_pc :: worker_pc
  wk_view :: "'db trail_view"
  wk_index :: nat

record 'db sys =
  sy_store :: "'db trail_store"
  sy_history :: "'db list"
  sy_inflight :: nat
  sy_workers :: "nat \<Rightarrow> 'db worker"

definition sys_init :: "'db \<Rightarrow> 'db sys" where
  "sys_init db = \<lparr>sy_store = store_new db, sy_history = [db], sy_inflight = 0,
     sy_workers = (\<lambda>_. \<lparr>wk_pc = Idle, wk_view = view_new (store_new db), wk_index = 0\<rparr>)\<rparr>"

inductive sys_step :: "'db sys \<Rightarrow> 'db sys \<Rightarrow> bool" where
  swap: "sys_step s (s\<lparr>sy_store := publish_swap db (sy_store s), sy_history := sy_history s @ [db], sy_inflight := sy_inflight s + 1\<rparr>)"
| count: "0 < sy_inflight s \<Longrightarrow> sys_step s (s\<lparr>sy_store := publish_count (sy_store s), sy_inflight := sy_inflight s - 1\<rparr>)"
| check: "wk_pc (sy_workers s w) = Idle \<Longrightarrow> generation_of (sy_store s) \<noteq> tv_generation (wk_view (sy_workers s w)) \<Longrightarrow>
    sys_step s (s\<lparr>sy_workers := (sy_workers s)(w := (sy_workers s w)\<lparr>wk_pc := Changed\<rparr>)\<rparr>)"
| load: "wk_pc (sy_workers s w) = Changed \<Longrightarrow>
    sys_step s (s\<lparr>sy_workers := (sy_workers s)(w := (sy_workers s w)\<lparr>wk_pc := Loaded (generation_of (sy_store s))\<rparr>)\<rparr>)"
| adopt: "wk_pc (sy_workers s w) = Loaded g \<Longrightarrow>
    sys_step s (s\<lparr>sy_workers := (sy_workers s)(w := \<lparr>wk_pc = Idle, wk_view = \<lparr>tv_generation = g, tv_db = ts_current (sy_store s)\<rparr>,
      wk_index = length (sy_history s) - 1\<rparr>)\<rparr>)"

section \<open>What the workers hold\<close>

text \<open>Counted without wrap-around: the generation is the number of publications that are complete, and a view
  is at least as new as the generation it carries.\<close>

definition completed :: "'db sys \<Rightarrow> nat" where
  "completed s = length (sy_history s) - sy_inflight s"

definition thread_ok :: "'db sys \<Rightarrow> 'db worker \<Rightarrow> bool" where
  "thread_ok s k \<longleftrightarrow>
     wk_index k < length (sy_history s) \<and> sy_history s ! wk_index k = tv_db (wk_view k) \<and>
     (\<exists>g. tv_generation (wk_view k) = of_nat g \<and> g \<le> wk_index k + 1 \<and> g \<le> completed s) \<and>
     (case wk_pc k of Loaded l \<Rightarrow> \<exists>g. l = of_nat g \<and> g \<le> completed s | _ \<Rightarrow> True)"

definition sys_ok :: "'db sys \<Rightarrow> bool" where
  "sys_ok s \<longleftrightarrow>
     sy_inflight s < length (sy_history s) \<and> ts_current (sy_store s) = last (sy_history s) \<and>
     ts_generation (sy_store s) = of_nat (completed s) \<and> (\<forall>w. thread_ok s (sy_workers s w))"

lemma thread_ok_grows:
  assumes "thread_ok s k" "sy_history s' = sy_history s @ new" "completed s \<le> completed s'"
  shows "thread_ok s' k"
  using assms unfolding thread_ok_def
  by (auto simp: nth_append split: worker_pc.splits intro: order_trans)

lemma thread_ok_same: "sy_history s' = sy_history s \<Longrightarrow> completed s' = completed s \<Longrightarrow> thread_ok s' k = thread_ok s k"
  by (simp add: thread_ok_def split: worker_pc.split)

lemma sys_init_ok: "sys_ok (sys_init db)"
  by (auto simp: sys_ok_def sys_init_def thread_ok_def completed_def view_new_def store_new_def store_snapshot_def intro!: exI [of _ 1])

lemma sys_step_ok:
  assumes "sys_step s s'" "sys_ok s"
  shows "sys_ok s'"
  using assms(1)
proof (cases rule: sys_step.cases)
  case (swap db)
  have c: "completed s' = completed s" using assms(2) by (simp add: swap completed_def sys_ok_def)
  have "thread_ok s' (sy_workers s w)" for w
    using assms(2) c by (intro thread_ok_grows [of s _ s' "[db]"]) (simp_all add: swap sys_ok_def)
  then show ?thesis using assms(2) c by (simp add: sys_ok_def swap publish_swap_def)
next
  case count
  have c: "completed s' = completed s + 1" using assms(2) count by (simp add: completed_def sys_ok_def Suc_diff_le)
  have "thread_ok s' (sy_workers s w)" for w
    using assms(2) c by (intro thread_ok_grows [of s _ s' "[]"]) (simp_all add: count sys_ok_def)
  then show ?thesis using assms(2) c by (simp add: sys_ok_def count publish_count_def less_imp_diff_less)
next
  case (check w)
  have c: "completed s' = completed s" by (simp add: check completed_def)
  have "thread_ok s' ((sy_workers s w)\<lparr>wk_pc := Changed\<rparr>)"
    using assms(2) c by (auto simp: check sys_ok_def thread_ok_def dest!: spec [of _ w])
  then show ?thesis using assms(2) c thread_ok_same [of s' s] by (simp add: sys_ok_def check)
next
  case (load w)
  have c: "completed s' = completed s" by (simp add: load completed_def)
  have "thread_ok s' ((sy_workers s w)\<lparr>wk_pc := Loaded (generation_of (sy_store s))\<rparr>)"
    using assms(2) c by (auto simp: load sys_ok_def thread_ok_def generation_of_def dest!: spec [of _ w])
  then show ?thesis using assms(2) c thread_ok_same [of s' s] by (simp add: sys_ok_def load)
next
  case (adopt w g)
  have c: "completed s' = completed s" by (simp add: adopt completed_def)
  have ne: "sy_history s \<noteq> []" using assms(2) by (auto simp: sys_ok_def)
  obtain n where n: "g = of_nat n" "n \<le> completed s"
    using assms(2) adopt by (auto simp: sys_ok_def thread_ok_def dest!: spec [of _ w])
  have len: "completed s \<le> length (sy_history s)" by (simp add: completed_def)
  have "thread_ok s' \<lparr>wk_pc = Idle, wk_view = \<lparr>tv_generation = g, tv_db = ts_current (sy_store s)\<rparr>, wk_index = length (sy_history s) - 1\<rparr>"
    using assms(2) ne n c len by (auto simp: adopt sys_ok_def thread_ok_def last_conv_nth intro!: exI [of _ n])
  then show ?thesis using assms(2) c thread_ok_same [of s' s] by (simp add: sys_ok_def adopt)
qed

lemma reachable_ok: "sys_step\<^sup>*\<^sup>* (sys_init db) s \<Longrightarrow> sys_ok s"
  by (induction rule: rtranclp_induct) (auto simp: sys_init_ok dest: sys_step_ok)

text \<open>C29: however publications and refreshes interleave, a worker whose refresh reports nothing new holds one of
  the published databases, at least as new as every publication that is complete; with none under way it is
  the newest (fewer than 2 ^ 64 publications).\<close>
theorem unchanged_view_is_current:
  assumes "sys_step\<^sup>*\<^sup>* (sys_init db0) s" "length (sy_history s) < 2 ^ 64"
    and "wk_pc (sy_workers s w) = Idle" "fst (refresh (sy_store s) (wk_view (sy_workers s w))) = False"
  shows "\<exists>i < length (sy_history s). sy_history s ! i = tv_db (wk_view (sy_workers s w)) \<and> completed s \<le> i + 1 \<and>
    (sy_inflight s = 0 \<longrightarrow> tv_db (wk_view (sy_workers s w)) = ts_current (sy_store s))"
proof -
  let ?k = "sy_workers s w"
  have ok: "sys_ok s" using reachable_ok [OF assms(1)] .
  obtain g where g: "tv_generation (wk_view ?k) = of_nat g" "g \<le> wk_index ?k + 1" "g \<le> completed s"
    and i: "wk_index ?k < length (sy_history s)" "sy_history s ! wk_index ?k = tv_db (wk_view ?k)"
    using ok by (auto simp: sys_ok_def thread_ok_def)
  have eq: "of_nat g = (of_nat (completed s) :: u64)"
    using assms(4) g(1) ok by (auto simp: refresh_def generation_of_def sys_ok_def split: if_splits prod.splits)
  have small: "completed s < 2 ^ 64" using assms(2) by (simp add: completed_def)
  have inv: "unat (of_nat n :: u64) = n" if "n < 2 ^ 64" for n
    using that by (simp add: unsigned_of_nat take_bit_nat_eq_self)
  have "g = unat (of_nat g :: u64)" using g(3) small by (simp only: inv le_less_trans)
  also have "\<dots> = unat (of_nat (completed s) :: u64)" by (simp only: eq)
  also have "\<dots> = completed s" by (rule inv [OF small])
  finally have "g = completed s" .
  then have new: "completed s \<le> wk_index ?k + 1" using g(2) by simp
  have "tv_db (wk_view ?k) = ts_current (sy_store s)" if "sy_inflight s = 0"
  proof -
    have "wk_index ?k = length (sy_history s) - 1" using new i(1) that by (simp add: completed_def)
    moreover have "sy_history s \<noteq> []" using i(1) by auto
    ultimately show ?thesis using i(2) ok by (simp add: sys_ok_def last_conv_nth)
  qed
  then show ?thesis using i new by (intro exI [of _ "wk_index ?k"] conjI impI) simp_all
qed

theorem unchanged_view_is_current_witness:
  "\<exists>s. sys_step\<^sup>*\<^sup>* (sys_init (0 :: nat)) s \<and> sy_history s = [0, 7] \<and> sy_inflight s = 1 \<and>
    (\<exists>i < length (sy_history s). sy_history s ! i = tv_db (wk_view (sy_workers s 3)) \<and> completed s \<le> i + 1)"
proof -
  let ?s = "(sys_init (0 :: nat))\<lparr>sy_store := publish_swap 7 (sy_store (sys_init (0 :: nat))), sy_history := sy_history (sys_init (0 :: nat)) @ [7], sy_inflight := sy_inflight (sys_init (0 :: nat)) + 1\<rparr>"
  have run: "sys_step\<^sup>*\<^sup>* (sys_init (0 :: nat)) ?s" by (rule r_into_rtranclp, rule swap)
  have l: "length (sy_history ?s) < 2 ^ 64" "wk_pc (sy_workers ?s 3) = Idle" "fst (refresh (sy_store ?s) (wk_view (sy_workers ?s 3))) = False"
    by (simp_all add: sys_init_def refresh_def generation_of_def view_new_def store_snapshot_def publish_swap_def store_new_def)
  have "sy_history ?s = [0, 7]" "sy_inflight ?s = 1" by (simp_all add: sys_init_def)
  then show ?thesis using unchanged_view_is_current [OF run l] run by blast
qed

end
