(* ===== verification/Loader.thy ===== *)
theory Loader
  imports Trails Whitelist
begin

text \<open>
  \<open>trails/loader.rs\<close>: from the bytes of the trails file to the trail database. A file is read in batches that end on
  line boundaries, a batch is cut into slices parsed by one thread each into a shard, and the shards are drained in
  file order. The file is its bytes; the prebuilt store and the file-backed memory are not modelled. The wildcard
  expression (\<open>regexset.rs\<close>) is built from the offered rows by the parameter \<open>build\<close>.
\<close>

section \<open>Records\<close>

text \<open>One character with its continuation bytes.\<close>

definition char_len :: "string \<Rightarrow> nat" where
  "char_len s = Suc (length (takeWhile cont (tl s)))"

function csv_walk :: "string \<Rightarrow> string \<Rightarrow> bool \<Rightarrow> bool \<Rightarrow> string list \<Rightarrow> string list" where
  "csv_walk s field in_quotes started_quoted out =
     (case s of
        [] \<Rightarrow> out @ [field]
      | c # cs \<Rightarrow>
          if in_quotes
          then (if c = CHR 0x22
                then (case cs of
                        d # ds \<Rightarrow> if d = CHR 0x22 then csv_walk ds (field @ [CHR 0x22]) True started_quoted out
                                 else csv_walk cs field False started_quoted out
                      | [] \<Rightarrow> csv_walk cs field False started_quoted out)
                else csv_walk (drop (char_len s) s) (field @ take (char_len s) s) True started_quoted out)
          else if c = CHR '','' then csv_walk cs [] False False (out @ [field])
          else if c = CHR 0x22 \<and> field = [] \<and> \<not> started_quoted then csv_walk cs field True True out
          else csv_walk (drop (char_len s) s) (field @ take (char_len s) s) False started_quoted out)"
  by pat_completeness auto
termination
  by (relation "measure (\<lambda>(s, _). length s)") (auto simp: char_len_def)

declare csv_walk.simps [simp del]

definition split_csv_record :: "string \<Rightarrow> string list" where
  "split_csv_record line = csv_walk line [] False False []"

definition three_fields :: "string \<Rightarrow> (string \<times> string \<times> string) option" where
  "three_fields s = do {
     first \<leftarrow> find_char s (CHR '','');
     rest \<leftarrow> find_char (drop (first + 1) s) (CHR '','');
     let second = first + 1 + rest;
     if find_char (drop (second + 1) s) (CHR '','') \<noteq> None then None
     else Some (take first s, take rest (drop (first + 1) s), drop (second + 1) s)
   }"

definition parse_row :: "bytes \<Rightarrow> (string \<times> string \<times> string) option" where
  "parse_row raw =
     (let line = (if utf8_valid (bytes_str raw) then bytes_str raw else lossy (bytes_str raw))
      in if 0x22 \<in> set raw
         then (case split_csv_record line of [a, b, c] \<Rightarrow> Some (a, b, c) | _ \<Rightarrow> None)
         else three_fields line)"

section \<open>Wildcards\<close>

definition class_char :: "char \<Rightarrow> bool" where
  "class_char c \<longleftrightarrow> is_alnum c \<or> c \<in> {CHR ''_'', CHR ''.'', CHR ''-''}"

definition wildcard_at :: "string \<Rightarrow> bool" where
  "wildcard_at s =
     (case s of
        [] \<Rightarrow> False
      | c # cs \<Rightarrow>
          (c = CHR '']'' \<or> c = CHR ''.'') \<and> cs \<noteq> [] \<and> (hd cs = CHR ''*'' \<or> hd cs = CHR ''+'') \<or>
          c = CHR ''['' \<and> (let rest = dropWhile class_char cs in length rest < length cs \<and> rest \<noteq> [] \<and> hd rest = CHR '']''))"

definition is_wildcard_trail :: "string \<Rightarrow> bool" where
  "is_wildcard_trail trail = list_ex (\<lambda>i. wildcard_at (drop i trail)) [0..<length trail]"

section \<open>Shards\<close>

record load_stats =
  ld_rows :: nat
  ld_loaded :: nat
  ld_whitelisted :: nat
  ld_malformed :: nat

definition load_stats_default :: load_stats where
  "load_stats_default = \<lparr>ld_rows = 0, ld_loaded = 0, ld_whitelisted = 0, ld_malformed = 0\<rparr>"

record row =
  row_trail :: string
  row_hash :: u64
  row_native :: native_key
  row_pair :: u32

record shard =
  sh_rows :: "row list"
  sh_pairs :: "trail_info list"
  sh_index :: "(u64, u32 list) amap"
  sh_wildcards :: "(string \<times> string) list"
  sh_stats :: load_stats

definition shard_new :: shard where
  "shard_new = \<lparr>sh_rows = [], sh_pairs = [], sh_index = [], sh_wildcards = [], sh_stats = load_stats_default\<rparr>"

definition pair_hash :: "trail_info \<Rightarrow> u64" where
  "pair_hash p = key_hash (fst p) XOR word_rotl 17 (key_hash (snd p))"

text \<open>The first entry of the bucket that is the pair; an index out of range is a panic.\<close>

fun bucket_find :: "trail_info list \<Rightarrow> trail_info \<Rightarrow> u32 list \<Rightarrow> u32 option option" where
  "bucket_find pairs p [] = Some None"
| "bucket_find pairs p (idx # bucket) =
     (case b_at pairs (unat idx) of
        None \<Rightarrow> None
      | Some q \<Rightarrow> if q = p then Some (Some idx) else bucket_find pairs p bucket)"

definition shard_intern :: "trail_info \<Rightarrow> shard \<Rightarrow> (u32 \<times> shard) option" where
  "shard_intern p sh = do {
     let h = pair_hash p;
     let bucket = (case map_of (sh_index sh) h of Some b \<Rightarrow> b | None \<Rightarrow> []);
     hit \<leftarrow> bucket_find (sh_pairs sh) p bucket;
     (case hit of
        Some idx \<Rightarrow> Some (idx, sh\<lparr>sh_index := AList.update h bucket (sh_index sh)\<rparr>)
      | None \<Rightarrow>
          (let idx = of_nat (length (sh_pairs sh))
           in Some (idx, sh\<lparr>sh_index := AList.update h (bucket @ [idx]) (sh_index sh), sh_pairs := sh_pairs sh @ [p]\<rparr>)))
   }"

definition strip_eol :: "bytes \<Rightarrow> bytes" where
  "strip_eol raw = rev (dropWhile (\<lambda>b. b = 10 \<or> b = 13) (rev raw))"

text \<open>One line of a slice.\<close>

definition parse_line :: "whitelist \<Rightarrow> bytes \<Rightarrow> shard \<Rightarrow> shard option" where
  "parse_line wl line sh =
     (let raw = strip_eol line; stats = sh_stats sh
      in if raw = [] \<or> hd raw = 0x23 then Some sh
         else (let stats = stats\<lparr>ld_rows := ld_rows stats + 1\<rparr>
               in case parse_row raw of
                    None \<Rightarrow> Some (sh\<lparr>sh_stats := stats\<lparr>ld_malformed := ld_malformed stats + 1\<rparr>\<rparr>)
                  | Some (trail, info, reference) \<Rightarrow> do {
                      listed \<leftarrow> check_whitelisted wl trail;
                      if listed then Some (sh\<lparr>sh_stats := stats\<lparr>ld_whitelisted := ld_whitelisted stats + 1\<rparr>\<rparr>)
                      else do {
                        let sh = (if has_sub reference ''static'' \<and> is_wildcard_trail trail
                                  then sh\<lparr>sh_wildcards := sh_wildcards sh @ [(trail, reference)]\<rparr> else sh);
                        (idx, sh) \<leftarrow> shard_intern (info, reference) sh;
                        Some (sh\<lparr>sh_rows := sh_rows sh @ [\<lparr>row_trail = trail, row_hash = key_hash trail,
                            row_native = native_key_of trail, row_pair = idx\<rparr>],
                          sh_stats := stats\<lparr>ld_loaded := ld_loaded stats + 1\<rparr>\<rparr>)
                      }
                    }))"

fun find_byte :: "u8 \<Rightarrow> bytes \<Rightarrow> nat option" where
  "find_byte x [] = None"
| "find_byte x (b # bs) = (if b = x then Some 0 else map_option Suc (find_byte x bs))"

function parse_slice :: "whitelist \<Rightarrow> bytes \<Rightarrow> shard \<Rightarrow> shard option" where
  "parse_slice wl piece sh =
     (if piece = [] then Some sh
      else (let n = (case find_byte 10 piece of Some i \<Rightarrow> i + 1 | None \<Rightarrow> length piece)
            in case parse_line wl (take n piece) sh of None \<Rightarrow> None | Some sh \<Rightarrow> parse_slice wl (drop n piece) sh))"
  by pat_completeness auto
termination
  by (relation "measure (\<lambda>(_, piece, _). length piece)") (auto split: option.splits)

declare parse_slice.simps [simp del]

section \<open>Slices and batches\<close>

text \<open>The pieces of a region, as offsets; \<open>parts\<close> is the list of the cuts still to make.\<close>

fun split_walk :: "bytes \<Rightarrow> nat \<Rightarrow> nat list \<Rightarrow> nat \<Rightarrow> (nat \<times> nat) list" where
  "split_walk region parts [] start = (if start < length region then [(start, length region)] else [])"
| "split_walk region parts (p # ps) start =
     (let target = length region * p div parts
      in if target \<le> start then split_walk region parts ps start
         else (let cut = (case find_byte 10 (drop target region) of Some i \<Rightarrow> target + i + 1 | None \<Rightarrow> length region)
               in if cut > start
                  then (start, cut) # (if cut \<ge> length region then [] else split_walk region parts ps cut)
                  else if start \<ge> length region then [] else split_walk region parts ps start))"

definition split_lines :: "bytes \<Rightarrow> nat \<Rightarrow> (nat \<times> nat) list" where
  "split_lines region parts = split_walk region parts [1..<parts] 0"

definition slices_of :: "nat \<Rightarrow> bytes \<Rightarrow> bytes list" where
  "slices_of threads region = map (\<lambda>(a, b). take (b - a) (drop a region)) (split_lines region threads)"

lemma find_byte_Some: "find_byte x b = Some i \<Longrightarrow> i < length b \<and> b ! i = x \<and> x \<notin> set (take i b)"
  by (induction b arbitrary: i) (auto split: if_splits)

lemma find_byte_None: "find_byte x b = None \<longleftrightarrow> x \<notin> set b"
  by (induction b) auto

text \<open>What the read loop cuts a file into, with a buffer of \<open>n\<close> bytes that doubles for a line longer than it.\<close>

function read_batches :: "nat \<Rightarrow> bytes \<Rightarrow> bytes list" where
  "read_batches n rest =
     (if rest = [] then []
      else if length rest < n \<or> n = 0 then [rest]
      else (case find_byte 10 (rev (take n rest)) of
              Some i \<Rightarrow> take (n - i) rest # read_batches n (drop (n - i) rest)
            | None \<Rightarrow> read_batches (2 * n) rest))"
  by pat_completeness auto
termination
proof (relation "measures [\<lambda>(n, rest). length rest, \<lambda>(n, rest). length rest + 1 - n]")
  show "wf (measures [\<lambda>(n, rest :: bytes). length rest, \<lambda>(n, rest). length rest + 1 - n])" by simp
next
  fix n and rest :: bytes and i
  assume "rest \<noteq> []" "\<not> (length rest < n \<or> n = 0)" "find_byte 10 (rev (take n rest)) = Some i"
  then have "i < n" "0 < length rest" by (auto dest!: find_byte_Some)
  then have "length rest - (n - i) < length rest" by arith
  then show "((n, drop (n - i) rest), (n, rest)) \<in> measures [\<lambda>(n, rest). length rest, \<lambda>(n, rest). length rest + 1 - n]"
    by (simp only: in_measures length_drop prod.case simp_thms)
qed auto

declare read_batches.simps [simp del]

section \<open>Draining the shards\<close>

record 'r load_state =
  lo_db :: "'r trail_db"
  lo_index :: "(trail_info, u32) amap"
  lo_offers :: "(string \<times> string) list"
  lo_stats :: load_stats

fun drain_pairs :: "trail_info list \<Rightarrow> u32 list \<Rightarrow> 'r load_state \<Rightarrow> u32 list \<times> 'r load_state" where
  "drain_pairs [] local_to_global st = (local_to_global, st)"
| "drain_pairs (p # pairs) local_to_global st =
     (case map_of (lo_index st) p of
        Some idx \<Rightarrow> drain_pairs pairs (local_to_global @ [idx]) st
      | None \<Rightarrow>
          (let (idx, db) = intern_pair (fst p) (snd p) (lo_db st)
           in drain_pairs pairs (local_to_global @ [idx]) (st\<lparr>lo_db := db, lo_index := AList.update p idx (lo_index st)\<rparr>)))"

fun drain_rows :: "u32 list \<Rightarrow> row list \<Rightarrow> 'r trail_db \<Rightarrow> 'r trail_db option" where
  "drain_rows local_to_global [] db = Some db"
| "drain_rows local_to_global (r # rows) db = do {
     idx \<leftarrow> b_at local_to_global (unat (row_pair r));
     db \<leftarrow> insert_prepared (row_trail r) (row_hash r) idx (row_native r) db;
     drain_rows local_to_global rows db
   }"

definition add_stats :: "load_stats \<Rightarrow> load_stats \<Rightarrow> load_stats" where
  "add_stats a b = \<lparr>ld_rows = ld_rows a + ld_rows b, ld_loaded = ld_loaded a + ld_loaded b,
     ld_whitelisted = ld_whitelisted a + ld_whitelisted b, ld_malformed = ld_malformed a + ld_malformed b\<rparr>"

definition drain_shard :: "shard \<Rightarrow> 'r load_state \<Rightarrow> 'r load_state option" where
  "drain_shard sh st = do {
     let (local_to_global, st) = drain_pairs (sh_pairs sh) [] st;
     let st = st\<lparr>lo_offers := lo_offers st @ sh_wildcards sh\<rparr>;
     db \<leftarrow> drain_rows local_to_global (sh_rows sh) (lo_db st);
     Some (st\<lparr>lo_db := db, lo_stats := add_stats (lo_stats st) (sh_stats sh)\<rparr>)
   }"

fun drain_all :: "shard list \<Rightarrow> 'r load_state \<Rightarrow> 'r load_state option" where
  "drain_all [] st = Some st"
| "drain_all (sh # shards) st = Option.bind (drain_shard sh st) (drain_all shards)"

fun parse_all :: "whitelist \<Rightarrow> bytes list \<Rightarrow> shard list option" where
  "parse_all wl [] = Some []"
| "parse_all wl (piece # pieces) = do {
     sh \<leftarrow> parse_slice wl piece shard_new;
     shards \<leftarrow> parse_all wl pieces;
     Some (sh # shards)
   }"

section \<open>The load\<close>

definition load_batch :: "whitelist \<Rightarrow> nat \<Rightarrow> bytes \<Rightarrow> 'r load_state \<Rightarrow> 'r load_state option" where
  "load_batch wl threads region st = do {
     shards \<leftarrow> parse_all wl (if length (split_lines region threads) = 1 then [region] else slices_of threads region);
     drain_all shards st
   }"

fun load_batches :: "whitelist \<Rightarrow> nat \<Rightarrow> bytes list \<Rightarrow> 'r load_state \<Rightarrow> 'r load_state option" where
  "load_batches wl threads [] st = Some st"
| "load_batches wl threads (region # regions) st = Option.bind (load_batch wl threads region st) (load_batches wl threads regions)"

definition batch_bytes_max :: nat where "batch_bytes_max = 8 * 2 ^ 20"
definition parallel_min_bytes :: nat where "parallel_min_bytes = 4 * 2 ^ 20"
definition max_parse_threads :: nat where "max_parse_threads = 8"

definition threads_of :: "nat \<Rightarrow> nat option \<Rightarrow> nat \<Rightarrow> nat" where
  "threads_of cores parse_threads file_len =
     (if file_len < parallel_min_bytes then 1
      else max 1 (min max_parse_threads (case parse_threads of Some n \<Rightarrow> n | None \<Rightarrow> cores)))"

definition buffer_of :: "nat \<Rightarrow> nat" where
  "buffer_of file_len = max (64 * 1024) (min batch_bytes_max (file_len + 1))"

definition load_trails ::
    "((string \<times> string) list \<Rightarrow> 'r) \<Rightarrow> nat \<Rightarrow> nat option \<Rightarrow> whitelist \<Rightarrow> bytes \<Rightarrow> ('r trail_db \<times> load_stats) option" where
  "load_trails build cores parse_threads wl file = do {
     st \<leftarrow> load_batches wl (threads_of cores parse_threads (length file)) (read_batches (buffer_of (length file)) file)
       \<lparr>lo_db = trail_db_new (length file div 48 + 16) (build []), lo_index = [], lo_offers = [], lo_stats = load_stats_default\<rparr>;
     Some ((lo_db st)\<lparr>td_regex := build (lo_offers st)\<rparr>, lo_stats st)
   }"

section \<open>The lines of a file\<close>

function slice_lines :: "bytes \<Rightarrow> bytes list" where
  "slice_lines b =
     (if b = [] then []
      else (let n = (case find_byte 10 b of Some i \<Rightarrow> i + 1 | None \<Rightarrow> length b) in take n b # slice_lines (drop n b)))"
  by pat_completeness auto
termination
  by (relation "measure length") (auto split: option.splits)

declare slice_lines.simps [simp del]

lemma slice_lines_Nil [simp]: "slice_lines [] = []"
  by (simp add: slice_lines.simps)

lemma slice_lines_step: "10 \<notin> set a \<Longrightarrow> slice_lines (a @ 10 # b) = (a @ [10]) # slice_lines b"
proof -
  assume "10 \<notin> set a"
  then have "find_byte 10 (a @ 10 # b) = Some (length a)" by (induction a) auto
  then show ?thesis by (subst slice_lines.simps) simp
qed

text \<open>A piece that ends with a line break is cut into its own lines.\<close>

lemma slice_lines_append:
  "a = [] \<or> last a = 10 \<Longrightarrow> slice_lines (a @ b) = slice_lines a @ slice_lines b"
proof (induction a rule: length_induct)
  case (1 a)
  show ?case
  proof (cases "a = []")
    case False
    then have "10 \<in> set a" using 1(2) last_in_set by metis
    then obtain x y where a: "a = x @ 10 # y" "10 \<notin> set x" by (metis split_list_first)
    then have "y = [] \<or> last y = 10" using 1(2) by (cases "y = []") auto
    moreover have "length y < length a" using a by simp
    ultimately have "slice_lines (y @ b) = slice_lines y @ slice_lines b" using 1(1) by blast
    then show ?thesis using a slice_lines_step [of x y] slice_lines_step [of x "y @ b"] by simp
  qed simp
qed

lemma slice_lines_length: "length (slice_lines b) \<le> length b"
proof (induction b rule: slice_lines.induct)
  case (1 b)
  show ?case
  proof (cases "b = []")
    case False
    define n where "n = (case find_byte 10 b of Some i \<Rightarrow> i + 1 | None \<Rightarrow> length b)"
    have n: "0 < n" "n \<le> length b" using False find_byte_Some [of 10 b] by (auto simp: n_def Suc_le_eq split: option.split)
    have "length (slice_lines (drop n b)) \<le> length (drop n b)" using 1 False n_def by simp
    then show ?thesis using False n by (subst slice_lines.simps) (simp add: n_def [symmetric] Let_def)
  qed simp
qed

fun parse_lines :: "whitelist \<Rightarrow> bytes list \<Rightarrow> shard \<Rightarrow> shard option" where
  "parse_lines wl [] sh = Some sh"
| "parse_lines wl (l # ls) sh = Option.bind (parse_line wl l sh) (parse_lines wl ls)"

lemma parse_slice_lines: "parse_slice wl piece sh = parse_lines wl (slice_lines piece) sh"
proof (induction wl piece sh rule: parse_slice.induct)
  case (1 wl piece sh)
  show ?case
    by (subst parse_slice.simps, subst slice_lines.simps) (use 1 in \<open>auto simp: Let_def split: option.split bind_splits\<close>)
qed

text \<open>Slices and batches have the lines of what they cut.\<close>

lemma lines_cut:
  assumes "start < fin" "fin \<le> length b" "fin = length b \<or> b ! (fin - 1) = 10"
  shows "slice_lines (drop start b) = slice_lines (take (fin - start) (drop start b)) @ slice_lines (drop fin b)"
proof -
  let ?p = "take (fin - start) (drop start b)"
  have whole: "drop start b = ?p @ drop fin b"
    using append_take_drop_id [of "fin - start" "drop start b"] assms by simp
  show ?thesis
  proof (cases "fin = length b")
    case False
    have "last ?p = b ! (fin - 1)" using assms by (simp add: last_conv_nth)
    then show ?thesis using slice_lines_append [of ?p "drop fin b"] whole assms(3) False by simp
  qed simp
qed

lemma split_walk_lines:
  "slice_lines (drop start region) = concat (map (\<lambda>(a, b). slice_lines (take (b - a) (drop a region))) (split_walk region parts ps start))"
proof (induction region parts ps start rule: split_walk.induct)
  case (1 region parts start)
  then show ?case by auto
next
  case (2 region parts p ps start)
  define target where "target = length region * p div parts"
  define cut where "cut = (case find_byte 10 (drop target region) of Some i \<Rightarrow> target + i + 1 | None \<Rightarrow> length region)"
  have cut: "cut \<le> length region" "cut = length region \<or> region ! (cut - 1) = 10" if "start < cut"
    using find_byte_Some [of 10 "drop target region"] by (auto simp: cut_def split: option.splits)
  show ?case
    using 2 [OF target_def] lines_cut [of start cut region] cut
    by (auto simp: target_def [symmetric] cut_def [symmetric] Let_def)
qed

lemma split_lines_lines: "slice_lines region = concat (map slice_lines (slices_of threads region))"
  using split_walk_lines [of 0 region threads "[1..<threads]"]
  by (simp add: slices_of_def split_lines_def comp_def case_prod_beta')

lemma read_batches_lines: "slice_lines rest = concat (map slice_lines (read_batches n rest))"
proof (induction n rest rule: read_batches.induct)
  case (1 n rest)
  show ?case
  proof (cases "find_byte 10 (rev (take n rest))")
    case None
    then show ?thesis using 1 by (subst read_batches.simps) auto
  next
    case (Some i)
    show ?thesis
    proof (cases "rest = [] \<or> length rest < n \<or> n = 0")
      case True
      then show ?thesis by (subst read_batches.simps) auto
    next
      case False
      have i: "i < n" "rev (take n rest) ! i = 10" using find_byte_Some [OF Some] False by auto
      then have "rest ! (n - i - 1) = 10" using False by (simp add: rev_nth)
      then have "slice_lines (drop 0 rest) = slice_lines (take (n - i - 0) (drop 0 rest)) @ slice_lines (drop (n - i) rest)"
        using i False by (intro lines_cut) auto
      moreover have "slice_lines (drop (n - i) rest) = concat (map slice_lines (read_batches n (drop (n - i) rest)))"
        using 1(2) Some False by auto
      ultimately show ?thesis using Some False by (subst read_batches.simps) simp
    qed
  qed
qed

section \<open>What is in a file\<close>

text \<open>What one line is, for a whitelist that answers every trail.\<close>

datatype line_kind = Blank | Malformed | Listed | Trail string trail_info

definition listed :: "whitelist \<Rightarrow> string \<Rightarrow> bool" where
  "listed wl t \<longleftrightarrow> check_whitelisted wl t = Some True"

definition kind_of :: "whitelist \<Rightarrow> bytes \<Rightarrow> line_kind" where
  "kind_of wl line =
     (let raw = strip_eol line
      in if raw = [] \<or> hd raw = 0x23 then Blank
         else (case parse_row raw of
             None \<Rightarrow> Malformed
           | Some (trail, p) \<Rightarrow> if listed wl trail then Listed else Trail trail p))"

fun trails_of :: "line_kind list \<Rightarrow> (string \<times> trail_info) list" where
  "trails_of [] = []"
| "trails_of (Trail t p # ks) = (t, p) # trails_of ks"
| "trails_of (k # ks) = trails_of ks"

definition stats_of :: "line_kind list \<Rightarrow> load_stats" where
  "stats_of ks = \<lparr>ld_rows = length (filter (\<lambda>k. k \<noteq> Blank) ks), ld_loaded = length (trails_of ks),
     ld_whitelisted = count_list ks Listed, ld_malformed = count_list ks Malformed\<rparr>"

definition offers_of :: "line_kind list \<Rightarrow> (string \<times> string) list" where
  "offers_of ks = map (\<lambda>(t, p). (t, snd p)) (filter (\<lambda>(t, p). has_sub (snd p) ''static'' \<and> is_wildcard_trail t) (trails_of ks))"

text \<open>The values of a list, each once, in the order of their first appearance.\<close>

definition add_seen :: "'a list \<Rightarrow> 'a list \<Rightarrow> 'a list" where
  "add_seen xs seen = fold (\<lambda>x seen. if x \<in> set seen then seen else seen @ [x]) xs seen"

definition first_seen :: "'a list \<Rightarrow> 'a list" where
  "first_seen xs = add_seen xs []"

definition pos_in :: "'a \<Rightarrow> 'a list \<Rightarrow> nat" where
  "pos_in x xs = length (takeWhile (\<lambda>y. y \<noteq> x) xs)"

definition infos_of :: "line_kind list \<Rightarrow> trail_info list" where
  "infos_of ks = first_seen (map snd (trails_of ks))"

text \<open>One pass over the lines, in order: the rows of the file with the numbers of their values.\<close>

definition numbered :: "trail_info list \<Rightarrow> line_kind list \<Rightarrow> (string \<times> u32) list" where
  "numbered ps ks = map (\<lambda>(t, p). (t, of_nat (pos_in p ps))) (trails_of ks)"

definition serial_load ::
    "((string \<times> string) list \<Rightarrow> 'r) \<Rightarrow> whitelist \<Rightarrow> bytes \<Rightarrow> ('r trail_db \<times> load_stats) option" where
  "serial_load build wl file =
     (let ks = map (kind_of wl) (slice_lines file)
      in map_option (\<lambda>db. (db\<lparr>td_pairs := infos_of ks, td_regex := build (offers_of ks)\<rparr>, stats_of ks))
           (put_all td_insert (numbered (infos_of ks) ks) (trail_db_new (length file div 48 + 16) (build []))))"

lemma trails_of_append [simp]: "trails_of (a @ b) = trails_of a @ trails_of b"
  by (induction a rule: trails_of.induct) auto

lemma stats_of_append: "stats_of (a @ b) = add_stats (stats_of a) (stats_of b)"
  by (simp add: stats_of_def add_stats_def)

lemma offers_of_append: "offers_of (a @ b) = offers_of a @ offers_of b"
  by (simp add: offers_of_def)

lemma numbered_append: "numbered ps (a @ b) = numbered ps a @ numbered ps b"
  by (simp add: numbered_def)

lemma add_seen_Nil [simp]: "add_seen [] seen = seen"
  by (simp add: add_seen_def)

lemma add_seen_append: "add_seen (a @ b) seen = add_seen b (add_seen a seen)"
  by (simp add: add_seen_def)

lemma add_seen_Cons: "add_seen (x # xs) seen = add_seen xs (if x \<in> set seen then seen else seen @ [x])"
  by (simp add: add_seen_def)

lemma add_seen_prefix: "\<exists>new. add_seen xs seen = seen @ new"
proof (induction xs arbitrary: seen)
  case (Cons x xs)
  show ?case
    using Cons.IH [of seen] Cons.IH [of "seen @ [x]"] by (simp add: add_seen_Cons) metis
qed simp

lemma add_seen_set: "set (add_seen xs seen) = set seen \<union> set xs"
  by (induction xs arbitrary: seen) (simp_all add: add_seen_Cons insert_absorb)

lemma add_seen_distinct: "distinct seen \<Longrightarrow> distinct (add_seen xs seen)"
  by (induction xs arbitrary: seen) (auto simp: add_seen_Cons)

lemma add_seen_length: "length (add_seen xs seen) \<le> length seen + length xs"
proof (induction xs arbitrary: seen)
  case (Cons x xs)
  show ?case
    using Cons.IH [of seen] Cons.IH [of "seen @ [x]"] by (simp add: add_seen_Cons)
qed simp

lemma add_seen_there: "x \<in> set seen \<Longrightarrow> add_seen [x] seen = seen"
  by (simp add: add_seen_Cons)

lemma add_seen_first_seen: "add_seen (first_seen xs) seen = add_seen xs seen"
proof (induction xs rule: rev_induct)
  case (snoc x xs)
  show ?case
  proof (cases "x \<in> set xs")
    case True
    then have "add_seen [x] (first_seen xs) = first_seen xs" "add_seen [x] (add_seen xs seen) = add_seen xs seen"
      by (intro add_seen_there; simp add: first_seen_def add_seen_set)+
    then show ?thesis using snoc by (simp add: first_seen_def add_seen_append)
  next
    case False
    then have "add_seen [x] (first_seen xs) = first_seen xs @ [x]" by (simp add: first_seen_def add_seen_Cons add_seen_set)
    then show ?thesis using snoc by (simp add: first_seen_def add_seen_append)
  qed
qed (simp add: first_seen_def)

lemma pos_in_append: "x \<in> set xs \<Longrightarrow> pos_in x (xs @ ys) = pos_in x xs"
  by (induction xs) (auto simp: pos_in_def)

lemma pos_in_last: "x \<notin> set xs \<Longrightarrow> pos_in x (xs @ [x]) = length xs"
  by (induction xs) (auto simp: pos_in_def)

lemma pos_in_nth: "x \<in> set xs \<Longrightarrow> pos_in x xs < length xs \<and> xs ! pos_in x xs = x"
  by (induction xs) (auto simp: pos_in_def)

lemma pos_in_eq: "distinct xs \<Longrightarrow> i < length xs \<Longrightarrow> pos_in (xs ! i) xs = i"
  using pos_in_nth [of "xs ! i" xs] nth_eq_iff_index_eq [of xs] by (metis nth_mem)

lemma pos_in_add_seen: "x \<in> set seen \<Longrightarrow> pos_in x (add_seen xs seen) = pos_in x seen"
  using add_seen_prefix [of xs seen] by (auto simp: pos_in_append)

lemma infos_of_append: "infos_of (a @ b) = add_seen (map snd (trails_of b)) (infos_of a)"
  by (simp add: infos_of_def first_seen_def add_seen_append)

lemma infos_of_distinct: "distinct (infos_of ks)"
  by (simp add: infos_of_def first_seen_def add_seen_distinct)

lemma infos_of_set: "set (infos_of ks) = snd ` set (trails_of ks)"
  by (simp add: infos_of_def first_seen_def add_seen_set)

lemma numbered_stable: "numbered (infos_of (a @ b)) a = numbered (infos_of a) a"
proof -
  have "pos_in (snd r) (infos_of (a @ b)) = pos_in (snd r) (infos_of a)" if "r \<in> set (trails_of a)" for r
    using that by (simp only: infos_of_append, intro pos_in_add_seen) (simp add: infos_of_set)
  then show ?thesis by (simp add: numbered_def split_beta)
qed

lemma trails_of_length: "length (trails_of ks) \<le> length ks"
  by (induction ks rule: trails_of.induct) auto

lemma infos_of_length: "length (infos_of ks) \<le> length ks"
  using add_seen_length [of "map snd (trails_of ks)" "[]"] trails_of_length [of ks] by (simp add: infos_of_def first_seen_def)

section \<open>A shard holds its lines\<close>

definition index_good :: "(trail_info, u32) amap \<Rightarrow> trail_info list \<Rightarrow> bool" where
  "index_good index ps \<longleftrightarrow> (\<forall>p. map_of index p = (if p \<in> set ps then Some (of_nat (pos_in p ps)) else None))"

definition buckets_good :: "(u64, u32 list) amap \<Rightarrow> trail_info list \<Rightarrow> bool" where
  "buckets_good index ps \<longleftrightarrow> (\<forall>h. case map_of index h of
      None \<Rightarrow> \<forall>p\<in>set ps. pair_hash p \<noteq> h
    | Some bucket \<Rightarrow> (\<forall>i\<in>set bucket. unat i < length ps) \<and> (\<forall>p\<in>set ps. pair_hash p = h \<longrightarrow> of_nat (pos_in p ps) \<in> set bucket))"

text \<open>The row of a trail among the values seen so far.\<close>

definition row_good :: "trail_info list \<Rightarrow> string \<times> trail_info \<Rightarrow> row \<Rightarrow> bool" where
  "row_good ps r row \<longleftrightarrow> row_trail row = fst r \<and> row_hash row = key_hash (fst r) \<and> row_native row = native_key_of (fst r) \<and>
     unat (row_pair row) < length ps \<and> ps ! unat (row_pair row) = snd r"

definition shard_holds :: "line_kind list \<Rightarrow> shard \<Rightarrow> bool" where
  "shard_holds ks sh \<longleftrightarrow> sh_pairs sh = infos_of ks \<and> buckets_good (sh_index sh) (infos_of ks) \<and>
     list_all2 (row_good (infos_of ks)) (trails_of ks) (sh_rows sh) \<and> sh_wildcards sh = offers_of ks \<and> sh_stats sh = stats_of ks"

lemma bucket_find_spec:
  assumes "\<forall>i\<in>set bucket. unat i < length ps" "distinct ps"
  shows "\<exists>hit. bucket_find ps p bucket = Some hit \<and> (case hit of
      None \<Rightarrow> \<forall>i\<in>set bucket. ps ! unat i \<noteq> p
    | Some idx \<Rightarrow> unat idx < length ps \<and> ps ! unat idx = p)"
  using assms(1) by (induction bucket) (auto simp: b_at_def split: option.splits)

lemma shard_intern_spec:
  assumes "buckets_good (sh_index sh) (sh_pairs sh)" "distinct (sh_pairs sh)" "length (sh_pairs sh) < 2 ^ 32"
  obtains idx index where "shard_intern p sh = Some (idx, sh\<lparr>sh_index := index, sh_pairs := add_seen [p] (sh_pairs sh)\<rparr>)"
    "buckets_good index (add_seen [p] (sh_pairs sh))" "unat idx < length (add_seen [p] (sh_pairs sh))"
    "add_seen [p] (sh_pairs sh) ! unat idx = p"
proof -
  let ?ps = "sh_pairs sh" and ?h = "pair_hash p"
  define bucket where "bucket = (case map_of (sh_index sh) ?h of Some b \<Rightarrow> b | None \<Rightarrow> [])"
  have range: "\<forall>i\<in>set bucket. unat i < length ?ps"
    and full: "\<forall>q\<in>set ?ps. pair_hash q = ?h \<longrightarrow> of_nat (pos_in q ?ps) \<in> set bucket"
    using assms(1) [unfolded buckets_good_def, THEN spec, of ?h] by (auto simp: bucket_def split: option.splits)
  obtain hit where hit: "bucket_find ?ps p bucket = Some hit" "case hit of
      None \<Rightarrow> \<forall>i\<in>set bucket. ?ps ! unat i \<noteq> p | Some idx \<Rightarrow> unat idx < length ?ps \<and> ?ps ! unat idx = p"
    using bucket_find_spec [OF range assms(2)] by blast
  have pos: "unat (of_nat (pos_in q ?ps) :: u32) = pos_in q ?ps" if "q \<in> set ?ps" for q
    using pos_in_nth [OF that] assms(3) by (simp add: unat_of_nat)
  show thesis
  proof (cases hit)
    case (Some idx)
    then have "p \<in> set ?ps" using hit(2) nth_mem by force
    then have same: "add_seen [p] ?ps = ?ps" by (simp add: add_seen_Cons)
    have "buckets_good (AList.update ?h bucket (sh_index sh)) ?ps"
      using assms(1) range full by (auto simp: buckets_good_def update_conv split: option.split)
    then show thesis
      using hit Some same by (intro that [of idx "AList.update ?h bucket (sh_index sh)"]) (simp_all add: shard_intern_def bucket_def Let_def)
  next
    case None
    have new: "p \<notin> set ?ps"
    proof
      assume p: "p \<in> set ?ps"
      then have "?ps ! unat (of_nat (pos_in p ?ps) :: u32) \<noteq> p" using hit(2) None full by auto
      then show False using pos [OF p] pos_in_nth [OF p] by simp
    qed
    then have grown: "add_seen [p] ?ps = ?ps @ [p]" by (simp add: add_seen_Cons)
    let ?idx = "of_nat (length ?ps) :: u32"
    have idx: "unat ?idx = length ?ps" using assms(3) by (simp add: unat_of_nat)
    have "buckets_good (AList.update ?h (bucket @ [?idx]) (sh_index sh)) (?ps @ [p])"
      unfolding buckets_good_def
    proof
      fix h
      show "case map_of (AList.update ?h (bucket @ [?idx]) (sh_index sh)) h of
          None \<Rightarrow> \<forall>q\<in>set (?ps @ [p]). pair_hash q \<noteq> h
        | Some b \<Rightarrow> (\<forall>i\<in>set b. unat i < length (?ps @ [p])) \<and>
            (\<forall>q\<in>set (?ps @ [p]). pair_hash q = h \<longrightarrow> of_nat (pos_in q (?ps @ [p])) \<in> set b)"
      proof (cases "h = ?h")
        case True
        then show ?thesis using range full idx new by (auto simp: update_conv pos_in_append pos_in_last intro: less_SucI)
      next
        case False
        then show ?thesis
          using assms(1) by (auto simp: buckets_good_def update_conv pos_in_append split: option.split dest!: spec [of _ h] intro: less_SucI)
      qed
    qed
    then show thesis
      using hit None grown idx
      by (intro that [of ?idx "AList.update ?h (bucket @ [?idx]) (sh_index sh)"]) (simp_all add: shard_intern_def bucket_def Let_def)
  qed
qed

definition answers_all :: "whitelist \<Rightarrow> bool" where
  "answers_all wl \<longleftrightarrow> (\<forall>t. check_whitelisted wl t \<noteq> None)"

lemma holds_plain:
  assumes "shard_holds ks sh" "trails_of [k] = []" "stats = add_stats (sh_stats sh) (stats_of [k])"
  shows "shard_holds (ks @ [k]) (sh\<lparr>sh_stats := stats\<rparr>)"
  using assms by (simp add: shard_holds_def infos_of_append stats_of_append offers_of_append) (simp add: offers_of_def)

lemma row_good_mono: "row_good ps r row \<Longrightarrow> row_good (add_seen xs ps) r row"
  using add_seen_prefix [of xs ps] by (auto simp: row_good_def nth_append)

lemma parse_line_spec:
  assumes ok: "shard_holds ks sh" and total: "answers_all wl" and few: "length ks < 2 ^ 32"
  obtains sh' where "parse_line wl line sh = Some sh'" "shard_holds (ks @ [kind_of wl line]) sh'"
proof -
  let ?raw = "strip_eol line"
  note st = stats_of_def add_stats_def
  show thesis
  proof (cases "?raw = [] \<or> hd ?raw = 0x23")
    case True
    then have "kind_of wl line = Blank" by (simp add: kind_of_def)
    then show thesis
      using True holds_plain [OF ok, of Blank "sh_stats sh"] by (intro that [of sh]) (simp_all add: parse_line_def st)
  next
    case nonblank: False
    show thesis
    proof (cases "parse_row ?raw")
      case None
      then have "kind_of wl line = Malformed" using nonblank by (simp add: kind_of_def)
      then show thesis
        using nonblank None holds_plain [OF ok, of Malformed]
        by (intro that) (auto simp: parse_line_def st Let_def)
    next
      case (Some triple)
      obtain t i f where row: "parse_row ?raw = Some (t, i, f)" using Some by (cases triple) auto
      obtain l where l: "check_whitelisted wl t = Some l" using total by (auto simp: answers_all_def)
      show thesis
      proof (cases l)
        case True
        then have "kind_of wl line = Listed" using nonblank row l by (simp add: kind_of_def listed_def)
        then show thesis
          using nonblank row l True holds_plain [OF ok, of Listed]
          by (intro that) (auto simp: parse_line_def st Let_def)
      next
        case False
        then have kind: "kind_of wl line = Trail t (i, f)" using nonblank row l by (simp add: kind_of_def listed_def)
        let ?offer = "has_sub f ''static'' \<and> is_wildcard_trail t"
        define s1 where "s1 = (if ?offer then sh\<lparr>sh_wildcards := sh_wildcards sh @ [(t, f)]\<rparr> else sh)"
        have same: "sh_pairs s1 = infos_of ks" "sh_index s1 = sh_index sh" "sh_rows s1 = sh_rows sh" "sh_stats s1 = sh_stats sh"
          "sh_wildcards s1 = offers_of ks @ (if ?offer then [(t, f)] else [])"
          using ok by (auto simp: s1_def shard_holds_def)
        have "length (infos_of ks) < 2 ^ 32" using infos_of_length [of ks] few by simp
        then obtain idx index where in1: "shard_intern (i, f) s1 = Some (idx, s1\<lparr>sh_index := index, sh_pairs := add_seen [(i, f)] (infos_of ks)\<rparr>)"
          "buckets_good index (add_seen [(i, f)] (infos_of ks))" "unat idx < length (add_seen [(i, f)] (infos_of ks))"
          "add_seen [(i, f)] (infos_of ks) ! unat idx = (i, f)"
          using shard_intern_spec [of s1 "(i, f)"] ok same infos_of_distinct [of ks] unfolding shard_holds_def by metis
        let ?row = "\<lparr>row_trail = t, row_hash = key_hash t, row_native = native_key_of t, row_pair = idx\<rparr>"
        let ?stats = "(sh_stats sh)\<lparr>ld_rows := ld_rows (sh_stats sh) + 1, ld_loaded := ld_loaded (sh_stats sh) + 1\<rparr>"
        define s2 where "s2 = s1\<lparr>sh_index := index, sh_pairs := add_seen [(i, f)] (infos_of ks), sh_rows := sh_rows sh @ [?row], sh_stats := ?stats\<rparr>"
        have "list_all2 (row_good (add_seen [(i, f)] (infos_of ks))) (trails_of ks) (sh_rows sh)"
          using ok by (auto simp: shard_holds_def intro: list_all2_mono row_good_mono)
        moreover have "row_good (add_seen [(i, f)] (infos_of ks)) (t, i, f) ?row" using in1 by (simp add: row_good_def)
        ultimately have "list_all2 (row_good (add_seen [(i, f)] (infos_of ks))) (trails_of ks @ [(t, i, f)]) (sh_rows sh @ [?row])"
          by (intro list_all2_appendI) simp_all
        moreover have "?stats = stats_of (ks @ [Trail t (i, f)])"
          using ok by (simp add: shard_holds_def stats_of_append) (simp add: st)
        ultimately have "shard_holds (ks @ [Trail t (i, f)]) s2"
          using in1(2) same by (simp add: shard_holds_def s2_def infos_of_append offers_of_append) (simp add: offers_of_def)
        moreover have "parse_line wl line sh = Some s2"
          using nonblank row l False in1(1) same by (simp add: parse_line_def Let_def s1_def [symmetric] s2_def)
        ultimately show thesis using that kind by simp
      qed
    qed
  qed
qed

lemma parse_lines_spec:
  assumes "shard_holds ks sh" "answers_all wl" "length ks + length ls < 2 ^ 32"
  shows "\<exists>sh'. parse_lines wl ls sh = Some sh' \<and> shard_holds (ks @ map (kind_of wl) ls) sh'"
  using assms
proof (induction ls arbitrary: ks sh)
  case (Cons l ls)
  have "length ks < 2 ^ 32" using Cons.prems(3) by simp
  then obtain s1 where "parse_line wl l sh = Some s1" "shard_holds (ks @ [kind_of wl l]) s1"
    using parse_line_spec [OF Cons.prems(1,2)] by metis
  then show ?case using Cons.IH [of "ks @ [kind_of wl l]" s1] Cons.prems by simp
qed simp

lemma shard_new_holds: "shard_holds [] shard_new"
  by (simp add: shard_holds_def shard_new_def infos_of_def first_seen_def buckets_good_def offers_of_def stats_of_def load_stats_default_def)

definition kinds :: "whitelist \<Rightarrow> bytes \<Rightarrow> line_kind list" where
  "kinds wl piece = map (kind_of wl) (slice_lines piece)"

lemma parse_slice_spec:
  assumes "answers_all wl" "length piece < 2 ^ 32"
  shows "\<exists>sh. parse_slice wl piece shard_new = Some sh \<and> shard_holds (kinds wl piece) sh"
  using parse_lines_spec [OF shard_new_holds assms(1), of "slice_lines piece"] slice_lines_length [of piece] assms(2)
  by (simp add: parse_slice_lines kinds_def)

section \<open>The drains are one pass\<close>

lemma insert_prepared_pairs: "insert_prepared t h i n (db\<lparr>td_pairs := ps\<rparr>) = map_option (\<lambda>d. d\<lparr>td_pairs := ps\<rparr>) (insert_prepared t h i n db)"
proof -
  have swap: "d\<lparr>td_pairs := ps, td_strings := s\<rparr> = d\<lparr>td_strings := s, td_pairs := ps\<rparr>"
    "d\<lparr>td_pairs := ps, td_ip4_port := v4\<rparr> = d\<lparr>td_ip4_port := v4, td_pairs := ps\<rparr>"
    "d\<lparr>td_pairs := ps, td_ip6_port := v6\<rparr> = d\<lparr>td_ip6_port := v6, td_pairs := ps\<rparr>"
    "d\<lparr>td_pairs := ps, td_len := n\<rparr> = d\<lparr>td_len := n, td_pairs := ps\<rparr>"
    "d\<lparr>td_pairs := ps, td_ip4 := i4\<rparr> = d\<lparr>td_ip4 := i4, td_pairs := ps\<rparr>"
    "d\<lparr>td_pairs := ps, td_ip6 := i6\<rparr> = d\<lparr>td_ip6 := i6, td_pairs := ps\<rparr>"
    "d\<lparr>td_pairs := ps, td_fingerprints := f\<rparr> = d\<lparr>td_fingerprints := f, td_pairs := ps\<rparr>" for d :: "'a trail_db" and s v4 v6 f n i4 i6
    by simp_all
  show ?thesis
    by (cases "str_insert_hashed t h i (td_strings db)")
      (simp_all add: insert_prepared_def Let_def option.map_comp comp_def split_beta swap split: native_key.split ip.split)
qed

lemma td_insert_pairs: "td_insert t i (db\<lparr>td_pairs := ps\<rparr>) = map_option (\<lambda>d. d\<lparr>td_pairs := ps\<rparr>) (td_insert t i db)"
  by (simp add: td_insert_def insert_prepared_pairs)

lemma put_all_pairs: "put_all td_insert rows (db\<lparr>td_pairs := ps\<rparr>) = map_option (\<lambda>d. d\<lparr>td_pairs := ps\<rparr>) (put_all td_insert rows db)"
proof (induction rows arbitrary: db)
  case (Cons r rows)
  then show ?case by (cases r; cases "td_insert (fst r) (snd r) db") (simp_all add: td_insert_pairs)
qed simp

lemma put_all_append: "put_all ins (a @ b) t = Option.bind (put_all ins a t) (put_all ins b)"
proof (induction a arbitrary: t)
  case (Cons r a)
  then show ?case by (cases r; cases "ins (fst r) (snd r) t") simp_all
qed simp

text \<open>The state behind the lines \<open>ks\<close>, when their rows made the database \<open>db\<close>.\<close>

definition load_holds :: "line_kind list \<Rightarrow> 'r trail_db \<Rightarrow> 'r load_state \<Rightarrow> bool" where
  "load_holds ks db st \<longleftrightarrow> lo_db st = db\<lparr>td_pairs := infos_of ks\<rparr> \<and> index_good (lo_index st) (infos_of ks) \<and>
     lo_offers st = offers_of ks \<and> lo_stats st = stats_of ks"

lemma drain_pairs_spec:
  assumes "lo_db st = db\<lparr>td_pairs := ps\<rparr>" "index_good (lo_index st) ps" "distinct ps"
  shows "\<exists>index. drain_pairs xs acc st = (acc @ map (\<lambda>p. of_nat (pos_in p (add_seen xs ps))) xs,
      st\<lparr>lo_db := db\<lparr>td_pairs := add_seen xs ps\<rparr>, lo_index := index\<rparr>) \<and> index_good index (add_seen xs ps)"
  using assms
proof (induction xs arbitrary: acc st ps)
  case Nil
  then have "st\<lparr>lo_db := db\<lparr>td_pairs := ps\<rparr>, lo_index := lo_index st\<rparr> = st" by simp
  then show ?case using Nil by (intro exI [of _ "lo_index st"]) simp
next
  case (Cons p xs)
  show ?case
  proof (cases "p \<in> set ps")
    case True
    then have "map_of (lo_index st) p = Some (of_nat (pos_in p ps))" using Cons.prems(2) [unfolded index_good_def, THEN spec, of p] by simp
    moreover obtain index where "drain_pairs xs (acc @ [of_nat (pos_in p ps)]) st =
        ((acc @ [of_nat (pos_in p ps)]) @ map (\<lambda>p. of_nat (pos_in p (add_seen xs ps))) xs,
         st\<lparr>lo_db := db\<lparr>td_pairs := add_seen xs ps\<rparr>, lo_index := index\<rparr>)" "index_good index (add_seen xs ps)"
      using Cons.IH [OF Cons.prems, of "acc @ [of_nat (pos_in p ps)]"] by blast
    ultimately show ?thesis using True by (intro exI [of _ index]) (simp add: add_seen_Cons pos_in_add_seen)
  next
    case False
    let ?i = "of_nat (length ps) :: u32"
    let ?st = "st\<lparr>lo_db := db\<lparr>td_pairs := ps @ [p]\<rparr>, lo_index := AList.update p ?i (lo_index st)\<rparr>"
    have "map_of (lo_index st) p = None" using Cons.prems(2) [unfolded index_good_def, THEN spec, of p] False by simp
    moreover have "index_good (AList.update p ?i (lo_index st)) (ps @ [p])"
      using Cons.prems(2) False by (auto simp: index_good_def update_conv pos_in_append pos_in_last)
    then obtain index where "drain_pairs xs (acc @ [?i]) ?st =
        ((acc @ [?i]) @ map (\<lambda>q. of_nat (pos_in q (add_seen xs (ps @ [p])))) xs,
         ?st\<lparr>lo_db := db\<lparr>td_pairs := add_seen xs (ps @ [p])\<rparr>, lo_index := index\<rparr>)" "index_good index (add_seen xs (ps @ [p]))"
      using Cons.IH [of ?st "ps @ [p]" "acc @ [?i]"] Cons.prems False by auto
    moreover have "pos_in p (add_seen xs (ps @ [p])) = length ps" using False by (simp add: pos_in_add_seen pos_in_last)
    ultimately show ?thesis
      using False Cons.prems(1) by (intro exI [of _ index]) (simp add: add_seen_Cons intern_pair_def)
  qed
qed

lemma drain_rows_spec:
  fixes db :: "'r trail_db"
  assumes "list_all2 (row_good local) rows srows" "length ids = length local" "\<forall>i<length local. ids ! i = of_nat (pos_in (local ! i) ps)"
  shows "drain_rows ids srows db = put_all td_insert (map (\<lambda>(t, p). (t, of_nat (pos_in p ps))) rows) db"
  using assms(1)
proof (induction rows srows arbitrary: db rule: list_all2_induct)
  case (Cons r rows s srows)
  have "b_at ids (unat (row_pair s)) = Some (of_nat (pos_in (snd r) ps))"
    using Cons(1) assms(2,3) by (simp add: row_good_def b_at_def)
  moreover have "insert_prepared (row_trail s) (row_hash s) i (row_native s) d = td_insert (fst r) i d" for i and d :: "'r trail_db"
    using Cons(1) by (simp add: row_good_def td_insert_def)
  ultimately show ?case
    using Cons(3) by (cases "td_insert (fst r) (of_nat (pos_in (snd r) ps)) db") (simp_all add: split_beta)
qed simp

lemma drain_shard_spec:
  assumes st: "load_holds ks db st" and sh: "shard_holds ls sh"
  shows "case put_all td_insert (numbered (infos_of (ks @ ls)) ls) db of
      None \<Rightarrow> drain_shard sh st = None
    | Some db' \<Rightarrow> (\<exists>st'. drain_shard sh st = Some st' \<and> load_holds (ks @ ls) db' st')"
proof -
  let ?local = "infos_of ls" and ?ps = "add_seen (infos_of ls) (infos_of ks)"
  have ps: "?ps = infos_of (ks @ ls)" using add_seen_first_seen by (simp add: infos_of_append infos_of_def [of ls])
  obtain index where d: "drain_pairs ?local [] st = (map (\<lambda>p. of_nat (pos_in p ?ps)) ?local,
      st\<lparr>lo_db := db\<lparr>td_pairs := ?ps\<rparr>, lo_index := index\<rparr>)" "index_good index ?ps"
    using drain_pairs_spec [where st = st and db = db and ps = "infos_of ks" and xs = ?local and acc = "[]"] st infos_of_distinct [of ks] by (auto simp: load_holds_def)
  have rows: "drain_rows (map (\<lambda>p. of_nat (pos_in p ?ps)) ?local) (sh_rows sh) (db\<lparr>td_pairs := ?ps\<rparr>) =
      map_option (\<lambda>d. d\<lparr>td_pairs := ?ps\<rparr>) (put_all td_insert (numbered ?ps ls) db)"
    using drain_rows_spec [where local = ?local and rows = "trails_of ls" and srows = "sh_rows sh" and ps = ?ps
        and ids = "map (\<lambda>p. of_nat (pos_in p ?ps)) ?local" and db = "db\<lparr>td_pairs := ?ps\<rparr>"] sh
    by (simp add: shard_holds_def numbered_def put_all_pairs)
  show ?thesis
    using st sh d rows
    by (auto simp: drain_shard_def load_holds_def shard_holds_def ps offers_of_append stats_of_append split: option.split)
qed

section \<open>The load is one pass\<close>

lemma drain_all_spec:
  assumes "load_holds ks db st" "list_all2 shard_holds kss shards" "\<exists>more. infos_of (ks @ concat kss) @ more = ps"
  shows "case put_all td_insert (numbered ps (concat kss)) db of
      None \<Rightarrow> drain_all shards st = None
    | Some db' \<Rightarrow> (\<exists>st'. drain_all shards st = Some st' \<and> load_holds (ks @ concat kss) db' st')"
  using assms(2,1,3)
proof (induction kss shards arbitrary: ks db st rule: list_all2_induct)
  case Nil
  then show ?case by (simp add: numbered_def)
next
  case (Cons ls kss sh shards)
  have num: "numbered ps ls = numbered (infos_of (ks @ ls)) ls"
  proof -
    obtain rest where "ps = infos_of (ks @ ls) @ rest"
      using Cons.prems(2) add_seen_prefix [of "map snd (trails_of (concat kss))" "infos_of (ks @ ls)"] infos_of_append [of "ks @ ls" "concat kss"]
      by auto
    moreover have "snd r \<in> set (infos_of (ks @ ls))" if "r \<in> set (trails_of ls)" for r using that by (simp add: infos_of_set)
    ultimately show ?thesis by (auto simp: numbered_def pos_in_append)
  qed
  note one = drain_shard_spec [OF Cons.prems(1) Cons.hyps(1), folded num]
  show ?case
  proof (cases "put_all td_insert (numbered ps ls) db")
    case None
    then show ?thesis using one by (simp add: numbered_append put_all_append)
  next
    case (Some db1)
    then obtain st1 where st1: "drain_shard sh st = Some st1" "load_holds (ks @ ls) db1 st1" using one by auto
    then show ?thesis
      using Cons.IH [OF st1(2)] Cons.prems(2) Some by (simp add: numbered_append put_all_append split: option.splits)
  qed
qed

lemma parse_all_spec:
  assumes "answers_all wl" "\<forall>p\<in>set pieces. length p < 2 ^ 32"
  shows "\<exists>shards. parse_all wl pieces = Some shards \<and> list_all2 shard_holds (map (kinds wl) pieces) shards"
  using assms(2)
proof (induction pieces)
  case (Cons p pieces)
  then show ?case using parse_slice_spec [OF assms(1), of p] by auto
qed simp

lemma slices_short: "p \<in> set (slices_of threads region) \<Longrightarrow> length p \<le> length region"
  by (auto simp: slices_of_def)

lemma load_batch_spec:
  assumes "answers_all wl" "length region < 2 ^ 32" "load_holds ks db st" "\<exists>more. infos_of (ks @ kinds wl region) @ more = ps"
  shows "case put_all td_insert (numbered ps (kinds wl region)) db of
      None \<Rightarrow> load_batch wl threads region st = None
    | Some db' \<Rightarrow> (\<exists>st'. load_batch wl threads region st = Some st' \<and> load_holds (ks @ kinds wl region) db' st')"
proof -
  let ?pieces = "if length (split_lines region threads) = 1 then [region] else slices_of threads region"
  have "\<forall>p\<in>set ?pieces. length p < 2 ^ 32"
    using assms(2) by (auto dest!: slices_short)
  then obtain shards where sh: "parse_all wl ?pieces = Some shards" "list_all2 shard_holds (map (kinds wl) ?pieces) shards"
    using parse_all_spec [OF assms(1)] by metis
  have k: "kinds wl region = concat (map (kinds wl) ?pieces)"
    using split_lines_lines [of region threads]
    by (cases "length (split_lines region threads) = 1") (simp_all add: kinds_def [abs_def] map_concat comp_def)
  show ?thesis
    using drain_all_spec [OF assms(3) sh(2), of ps] assms(4) sh(1) unfolding k [symmetric] by (auto simp: load_batch_def split: option.splits)
qed

lemma load_batches_spec:
  assumes "answers_all wl" "\<forall>r\<in>set regions. length r < 2 ^ 32" "load_holds ks db st"
    "\<exists>more. infos_of (ks @ concat (map (kinds wl) regions)) @ more = ps"
  shows "case put_all td_insert (numbered ps (concat (map (kinds wl) regions))) db of
      None \<Rightarrow> load_batches wl threads regions st = None
    | Some db' \<Rightarrow> (\<exists>st'. load_batches wl threads regions st = Some st' \<and> load_holds (ks @ concat (map (kinds wl) regions)) db' st')"
  using assms(2-4)
proof (induction regions arbitrary: ks db st)
  case Nil
  then show ?case by (simp add: numbered_def)
next
  case (Cons r regions)
  have "\<exists>more. infos_of (ks @ kinds wl r) @ more = ps"
    using Cons.prems(3) add_seen_prefix [of "map snd (trails_of (concat (map (kinds wl) regions)))" "infos_of (ks @ kinds wl r)"]
      infos_of_append [of "ks @ kinds wl r" "concat (map (kinds wl) regions)"] by auto
  note one = load_batch_spec [OF assms(1) _ Cons.prems(2) this, of threads]
  show ?case
  proof (cases "put_all td_insert (numbered ps (kinds wl r)) db")
    case None
    then show ?thesis using one Cons.prems(1) by (simp add: numbered_append put_all_append)
  next
    case (Some db1)
    then obtain st1 where st1: "load_batch wl threads r st = Some st1" "load_holds (ks @ kinds wl r) db1 st1" using one Cons.prems(1) by auto
    then show ?thesis
      using Cons.IH [OF _ st1(2)] Cons.prems Some by (simp add: numbered_append put_all_append split: option.splits)
  qed
qed

lemma batches_short: "p \<in> set (read_batches n rest) \<Longrightarrow> length p \<le> length rest"
proof (induction n rest arbitrary: p rule: read_batches.induct)
  case (1 n rest)
  from 1(3) show ?case
    by (subst (asm) read_batches.simps) (use 1(1,2) in \<open>fastforce split: if_splits option.splits\<close>)
qed

lemma whitelist_answers: "wl_ok wl \<Longrightarrow> answers_all wl"
  using exact_entry_spec [of wl] by (auto simp: answers_all_def check_whitelisted_def contains_exact_def)

lemma load_serial:
  assumes "answers_all wl" "length file < 2 ^ 32"
  shows "load_trails build cores parse_threads wl file = serial_load build wl file"
proof -
  let ?n = "length file div 48 + 16" and ?batches = "read_batches (buffer_of (length file)) file"
  let ?new = "trail_db_new ?n (build [])"
  let ?st = "\<lparr>lo_db = ?new, lo_index = [], lo_offers = [], lo_stats = load_stats_default\<rparr>"
  have short: "\<forall>r\<in>set ?batches. length r < 2 ^ 32" using assms(2) by (auto dest!: batches_short)
  have empty: "load_holds [] ?new ?st"
    by (simp add: load_holds_def trail_db_new_def infos_of_def first_seen_def add_seen_def index_good_def offers_of_def
      stats_of_def load_stats_default_def)
  have all: "concat (map (kinds wl) ?batches) = kinds wl file"
    by (simp add: kinds_def [abs_def] read_batches_lines [of "file" "buffer_of (length file)"] map_concat comp_def)
  show ?thesis
    using load_batches_spec [OF assms(1) short empty, of "infos_of (kinds wl file)" "threads_of cores parse_threads (length file)"]
    by (auto simp: all load_trails_def serial_load_def Let_def load_holds_def kinds_def [symmetric] split: option.splits)
qed

lemma text_lookup:
  assumes "list_all (row_fits ps) rows" "db_ok db" "td_pairs db = ps" "str_bindings (td_strings db) = map_of (rev rows)"
  shows "td_get k db = Some (map_option (\<lambda>i. ps ! unat i) (map_of (rev rows) k))"
proof -
  have "unat i < length (td_pairs db)" if "map_of (rev rows) k = Some i" for i
    using assms(1,3) map_of_SomeD [OF that] by (fastforce simp: list_all_iff row_fits_def)
  then show ?thesis
    using assms pair_of_bound [of "map_of (rev rows) k" db] by (simp add: td_get_def str_get_spec db_ok_def)
qed

section \<open>How long the rows of a file are\<close>

lemma csv_walk_length: "x \<in> set (csv_walk s field in_quotes started_quoted out) \<Longrightarrow> x \<in> set out \<or> length x \<le> length field + length s"
proof (induction s arbitrary: field in_quotes started_quoted out rule: length_induct)
  case (1 s)
  have IH: "x \<in> set out' \<or> length x \<le> length field' + length s'"
    if "x \<in> set (csv_walk s' field' q st out')" "length s' < length s" for s' field' q st out'
    using 1(1) that by blast
  show ?case
  proof (cases s)
    case Nil
    then show ?thesis using 1(2) by (auto simp: csv_walk.simps [of "[]"])
  next
    case (Cons c cs)
    let ?a = "take (char_len s) s" and ?b = "drop (char_len s) s"
    have cut: "length ?a + length ?b = length s" "length ?b < length s" "length cs < length s" "length s = Suc (length cs)"
      using Cons by (simp_all add: char_len_def)
    have "csv_walk s field in_quotes started_quoted out \<in>
        {csv_walk (tl cs) (field @ [CHR 0x22]) True started_quoted out, csv_walk cs field False started_quoted out,
         csv_walk ?b (field @ ?a) True started_quoted out, csv_walk cs [] False False (out @ [field]),
         csv_walk cs field True True out, csv_walk ?b (field @ ?a) False started_quoted out}" (is "_ \<in> ?next")
      by (subst csv_walk.simps) (auto simp: Cons split: list.split)
    then have "x \<in> (\<Union>w\<in>?next. set w)" using 1(2) by (rule UN_I)
    then show ?thesis using cut by (auto dest!: IH)
  qed
qed

lemma lossy_length: "length (lossy s) \<le> 3 * length s"
proof (induction s rule: lossy.induct)
  case (1 s)
  show ?case
  proof (cases "s = []")
    case False
    then have "0 < bad_len s" by (cases s) (auto split: option.splits)
    then show ?thesis
      using 1 False by (cases "utf8_head s > 0"; subst lossy.simps) (auto simp: replacement_def neq_Nil_conv)
  qed (simp add: lossy.simps)
qed

lemma parse_row_length: "parse_row raw = Some (t, p) \<Longrightarrow> length t \<le> 3 * length raw"
proof -
  let ?line = "if utf8_valid (bytes_str raw) then bytes_str raw else lossy (bytes_str raw)"
  assume row: "parse_row raw = Some (t, p)"
  have "length ?line \<le> 3 * length raw" using lossy_length [of "bytes_str raw"] by (simp add: bytes_str_def)
  moreover have "length t \<le> length ?line"
    using row csv_walk_length [of t ?line "[]" False False "[]"]
    by (auto simp: parse_row_def three_fields_def split_csv_record_def Let_def bind_eq_Some_conv split: if_splits list.splits)
  ultimately show ?thesis by linarith
qed

lemma strip_eol_length: "length (strip_eol l) \<le> length l"
  using length_dropWhile_le [of "\<lambda>b. b = 10 \<or> b = 13" "rev l"] by (simp add: strip_eol_def)

lemma kind_of_Trail:
  assumes "kind_of wl l = Trail t p"
  shows "2 + length t \<le> 5 * length l"
proof -
  have "strip_eol l \<noteq> []" "parse_row (strip_eol l) = Some (t, p)"
    using assms by (auto simp: kind_of_def Let_def split: if_splits option.splits)
  then show ?thesis
    using parse_row_length [of "strip_eol l" t p] strip_eol_length [of l] by (cases "strip_eol l") auto
qed

lemma rows_length: "(\<Sum>r\<leftarrow>trails_of (map (kind_of wl) ls). 2 + length (fst r)) \<le> 5 * length (concat ls)"
proof (induction ls)
  case (Cons l ls)
  then show ?case using kind_of_Trail [of wl l] by (cases "kind_of wl l") auto
qed simp

lemma slice_lines_concat: "concat (slice_lines b) = b"
proof (induction b rule: slice_lines.induct)
  case (1 b)
  then show ?case by (subst slice_lines.simps) (auto simp: Let_def)
qed

section \<open>What a loaded file answers\<close>

lemma numbered_lookup:
  assumes "length ks < 2 ^ 32"
  shows "map_option (\<lambda>i. infos_of ks ! unat i) (map_of (rev (numbered (infos_of ks) ks)) t) = map_of (rev (trails_of ks)) t"
proof -
  let ?ps = "infos_of ks"
  have known: "?ps ! unat (of_nat (pos_in p ?ps) :: u32) = p" if "map_of (rev (trails_of ks)) t = Some p" for p
  proof -
    have "p \<in> set ?ps" using map_of_SomeD [OF that] by (force simp: infos_of_set)
    then show ?thesis
      using pos_in_nth [of p ?ps] infos_of_length [of ks] assms by (simp add: unat_of_nat)
  qed
  have "rev (numbered ?ps ks) = map (\<lambda>(t, p). (t, of_nat (pos_in p ?ps))) (rev (trails_of ks))"
    by (simp add: numbered_def rev_map)
  then show ?thesis using known by (cases "map_of (rev (trails_of ks)) t") (simp_all add: map_of_map)
qed

lemma numbered_fits:
  assumes "length ks < 2 ^ 28"
  shows "list_all (row_fits (infos_of ks)) (numbered (infos_of ks) ks)"
proof -
  have "row_fits (infos_of ks) (t, of_nat (pos_in p (infos_of ks)))" if "(t, p) \<in> set (trails_of ks)" for t p
  proof -
    have "p \<in> set (infos_of ks)" using that by (force simp: infos_of_set)
    then have i: "pos_in p (infos_of ks) < length (infos_of ks)" "pos_in p (infos_of ks) < 2 ^ 28"
      using pos_in_nth [of p "infos_of ks"] infos_of_length [of ks] assms by simp_all
    then have u: "unat (of_nat (pos_in p (infos_of ks)) :: u32) = pos_in p (infos_of ks)" by (simp add: unat_of_nat)
    have "(of_nat (pos_in p (infos_of ks)) :: u32) \<noteq> empty_val"
    proof
      assume "(of_nat (pos_in p (infos_of ks)) :: u32) = empty_val"
      then have "pos_in p (infos_of ks) = unat empty_val" using u by simp
      moreover have "unat empty_val = 2 ^ 32 - 1" by (simp add: empty_val_def unsigned_minus_1_eq_mask mask_eq_exp_minus_1)
      ultimately show False using i by simp
    qed
    then show ?thesis using u i by (simp add: row_fits_def)
  qed
  then show ?thesis by (auto simp: numbered_def list_all_iff)
qed

lemma serial_load_lookup:
  assumes "length file < 2 ^ 28"
  shows "\<exists>db. serial_load build wl file = Some (db, stats_of (kinds wl file)) \<and> td_regex db = build (offers_of (kinds wl file)) \<and>
    (\<forall>t. td_get t db = Some (map_of (rev (trails_of (kinds wl file))) t))"
proof -
  let ?ks = "kinds wl file" and ?n = "length file div 48 + 16"
  let ?ps = "infos_of ?ks"
  have ks: "length ?ks < 2 ^ 28" using assms slice_lines_length [of "file"] by (simp add: kinds_def)
  have n: "?n \<le> table_limit" using assms by (simp add: table_limit_def)
  have "(\<Sum>r\<leftarrow>numbered ?ps ?ks. 2 + length (fst r)) = (\<Sum>r\<leftarrow>trails_of ?ks. 2 + length (fst r))"
    by (simp add: numbered_def comp_def split_beta)
  then have size: "(\<Sum>r\<leftarrow>numbered ?ps ?ks. 2 + length (fst r)) \<le> table_limit"
    using rows_length [of wl "slice_lines file"] assms by (simp add: slice_lines_concat kinds_def table_limit_def)
  obtain db where db: "put_all td_insert (numbered ?ps ?ks) (trail_db_new ?n (build [])\<lparr>td_pairs := ?ps\<rparr>) = Some db"
    "db_ok db" "td_pairs db = ?ps" "str_bindings (td_strings db) = map_of (rev (numbered ?ps ?ks))"
    using build_db [OF n numbered_fits [OF ks] size] .
  have get: "td_get t db = Some (map_of (rev (trails_of ?ks)) t)" for t
    using text_lookup [OF numbered_fits [OF ks] db(2-4), of t] numbered_lookup [of ?ks t] ks by simp
  obtain raw where raw: "put_all td_insert (numbered ?ps ?ks) (trail_db_new ?n (build [])) = Some raw" "db = raw\<lparr>td_pairs := ?ps\<rparr>"
    using db(1) by (auto simp: put_all_pairs)
  have "pair_of_index (raw\<lparr>td_pairs := ?ps, td_regex := r\<rparr>) = pair_of_index (raw\<lparr>td_pairs := ?ps\<rparr>)" for r
    by (simp add: fun_eq_iff pair_of_index_def pair_def split: option.split)
  then have "td_get t (raw\<lparr>td_pairs := ?ps, td_regex := r\<rparr>) = td_get t db" for t r
    by (simp add: td_get_def raw(2))
  then show ?thesis using get raw by (simp add: serial_load_def Let_def flip: kinds_def)
qed

text \<open>A file with a comment, a malformed row and a trail that is listed twice.\<close>

definition sample_file :: bytes where
  "sample_file = str_bytes ''# feed'' @ [13, 10] @ str_bytes ''evil.com,malware,static'' @ [10] @ str_bytes ''bad'' @ [10] @
     str_bytes ''evil.com,scan,static'' @ [10]"

lemma no_whitelist:
  obtains wl where "wl_load [] = Some wl" "\<not> listed wl ''evil.com''"
proof -
  have lines: "wl_lines [] = []" by (simp add: wl_lines_def)
  then obtain wl where wl: "wl_load [] = Some wl" "wl_ok wl" "set (wl_exact wl) = entry_lines []"
    using wl_load_spec [of "[]"] by auto
  have "\<not> is_dotted_quad ''evil.com''" by code_simp
  moreover have "entry_lines [] = {}" by (simp add: entry_lines_def)
  ultimately have "check_whitelisted wl ''evil.com'' = Some False"
    using exact_entry_spec [OF wl(2), of "''evil.com''"] wl(3) by (simp add: check_whitelisted_def contains_exact_def)
  then show ?thesis using that [OF wl(1)] by (simp add: listed_def)
qed

lemma sample_kinds:
  assumes "\<not> listed wl ''evil.com''"
  shows "kinds wl sample_file = [Blank, Trail ''evil.com'' (''malware'', ''static''), Malformed, Trail ''evil.com'' (''scan'', ''static'')]"
proof -
  have lines: "slice_lines sample_file = [str_bytes ''# feed'' @ [13, 10], str_bytes ''evil.com,malware,static'' @ [10],
      str_bytes ''bad'' @ [10], str_bytes ''evil.com,scan,static'' @ [10]]"
    by code_simp
  have strip: "strip_eol (str_bytes ''# feed'' @ [13, 10]) = str_bytes ''# feed''"
    "strip_eol (str_bytes ''evil.com,malware,static'' @ [10]) = str_bytes ''evil.com,malware,static''"
    "strip_eol (str_bytes ''bad'' @ [10]) = str_bytes ''bad''"
    "strip_eol (str_bytes ''evil.com,scan,static'' @ [10]) = str_bytes ''evil.com,scan,static''"
    by code_simp+
  have rows: "parse_row (str_bytes ''evil.com,malware,static'') = Some (''evil.com'', ''malware'', ''static'')"
    "parse_row (str_bytes ''bad'') = None" "parse_row (str_bytes ''evil.com,scan,static'') = Some (''evil.com'', ''scan'', ''static'')"
    by code_simp+
  have heads: "hd (str_bytes ''# feed'') = 0x23" "hd (str_bytes ''evil.com,malware,static'') \<noteq> 0x23" "hd (str_bytes ''bad'') \<noteq> 0x23"
    "hd (str_bytes ''evil.com,scan,static'') \<noteq> 0x23"
    by code_simp+
  show ?thesis
    unfolding kinds_def lines by (simp only: list.map kind_of_def strip Let_def heads rows simp_thms if_True if_False option.case prod.case assms)
      (simp add: str_bytes_def)
qed

lemma sample_file_short: "length sample_file < 2 ^ 28"
  by (simp add: sample_file_def str_bytes_def)

text \<open>C11: however many threads parse a file of trails, and wherever its batches and slices are cut, the load is the
  one pass over its lines in order: the same tables, the same values under the same numbers in the order of their
  first appearance, the same rows offered to the wildcard expression in the same order and the same counts. No load panics where the one
  pass does not.\<close>
theorem parallel_load_is_serial:
  assumes "length (wl_lines texts) < 2 ^ 58" "length file < 2 ^ 32"
  shows "\<exists>wl. wl_load texts = Some wl \<and>
    (\<forall>cores parse_threads. load_trails build cores parse_threads wl file = serial_load build wl file)"
  using wl_load_spec [OF assms(1)] load_serial [OF whitelist_answers assms(2)] by blast

theorem parallel_load_is_serial_witness:
  "\<exists>wl. wl_load [] = Some wl \<and> load_trails (\<lambda>_. ()) 8 None wl sample_file = serial_load (\<lambda>_. ()) wl sample_file \<and>
     load_trails (\<lambda>_. ()) 8 None wl sample_file = load_trails (\<lambda>_. ()) 1 (Some 1) wl sample_file"
proof -
  have "length (wl_lines []) < 2 ^ 58" "length sample_file < 2 ^ 32"
    using sample_file_short by (simp_all add: wl_lines_def)
  from parallel_load_is_serial [OF this, of "\<lambda>_. ()"] show ?thesis by metis
qed

text \<open>C39: loading a file under 256 MB of any bytes, on any number of cores, ends without a panic; a trail is then
  looked up as the last row of the file that has it, with the whitelisted trails, the comments and the malformed
  rows left out, and the counts are those of the lines.\<close>
theorem loaded_file_answers:
  assumes "length (wl_lines texts) < 2 ^ 58" "length file < 2 ^ 28"
  shows "\<exists>wl db. wl_load texts = Some wl \<and>
    load_trails build cores parse_threads wl file = Some (db, stats_of (kinds wl file)) \<and>
    td_regex db = build (offers_of (kinds wl file)) \<and>
    (\<forall>t. td_get t db = Some (map_of (rev (trails_of (kinds wl file))) t))"
proof -
  obtain wl where wl: "wl_load texts = Some wl" "wl_ok wl" using wl_load_spec [OF assms(1)] by blast
  have "length file < 2 ^ 32" using assms(2) by simp
  then show ?thesis
    using wl(1) load_serial [OF whitelist_answers [OF wl(2)], of "file" build cores parse_threads]
      serial_load_lookup [OF assms(2), of build wl] by auto
qed

theorem loaded_file_answers_witness:
  "\<exists>wl db stats. wl_load [] = Some wl \<and> load_trails (\<lambda>_. ()) 8 None wl sample_file = Some (db, stats) \<and>
     td_get ''evil.com'' db = Some (Some (''scan'', ''static'')) \<and> td_get ''bad'' db = Some None \<and>
     ld_rows stats = 3 \<and> ld_loaded stats = 2 \<and> ld_malformed stats = 1"
proof -
  obtain wl where wl: "wl_load [] = Some wl" "\<not> listed wl ''evil.com''" by (rule no_whitelist)
  have "length (wl_lines []) < 2 ^ 58" by (simp add: wl_lines_def)
  from loaded_file_answers [OF this sample_file_short, of "\<lambda>_. ()" 8 None] obtain db where
    "load_trails (\<lambda>_. ()) 8 None wl sample_file = Some (db, stats_of (kinds wl sample_file))"
    "\<And>t. td_get t db = Some (map_of (rev (trails_of (kinds wl sample_file))) t)"
    using wl(1) by auto
  then show ?thesis using wl(1) by (auto simp: sample_kinds [OF wl(2)] stats_of_def)
qed

section \<open>Rows read back\<close>

text \<open>A field as a CSV writer quotes it.\<close>

definition csv_escape :: "string \<Rightarrow> string" where
  "csv_escape s = concat (map (\<lambda>c. if c = CHR 0x22 then [CHR 0x22, CHR 0x22] else [c]) s)"

definition csv_quote :: "string \<Rightarrow> string" where
  "csv_quote s = CHR 0x22 # csv_escape s @ [CHR 0x22]"

lemma csv_escape_simps [simp]:
  "csv_escape [] = []" "csv_escape (c # s) = (if c = CHR 0x22 then [CHR 0x22, CHR 0x22] else [c]) @ csv_escape s"
  by (simp_all add: csv_escape_def)

lemma quote_not_cont: "\<not> cont (CHR 0x22)" "\<not> cont (CHR '','')"
  by code_simp+

lemma csv_escape_cont: "csv_escape s = takeWhile cont s @ csv_escape (dropWhile cont s)"
  using quote_not_cont by (induction s) auto

lemma csv_escape_head: "takeWhile cont (csv_escape (dropWhile cont s) @ CHR 0x22 # rest) = []"
  using quote_not_cont by (induction s) auto

lemma csv_walk_quoted:
  assumes "rest = [] \<or> hd rest \<noteq> CHR 0x22"
  shows "csv_walk (csv_escape s @ CHR 0x22 # rest) field True q out = csv_walk rest (field @ s) False q out"
proof (induction s arbitrary: field rule: length_induct)
  case (1 s)
  show ?case
  proof (cases s)
    case Nil
    then show ?thesis using assms by (subst csv_walk.simps) (cases rest; simp)
  next
    case (Cons c cs)
    have IH: "csv_walk (csv_escape s' @ CHR 0x22 # rest) field' True q out = csv_walk rest (field' @ s') False q out"
      if "length s' < length s" for s' field' using 1 that by blast
    show ?thesis
    proof (cases "c = CHR 0x22")
      case True
      then show ?thesis using IH [of cs "field @ [c]"] Cons by (subst csv_walk.simps) simp
    next
      case False
      let ?tail = "csv_escape (dropWhile cont cs) @ CHR 0x22 # rest"
      have s: "csv_escape s @ CHR 0x22 # rest = c # takeWhile cont cs @ ?tail"
        using False Cons csv_escape_cont [of cs] by simp
      have run: "takeWhile cont (takeWhile cont cs @ ?tail) = takeWhile cont cs"
        using csv_escape_head [of cs rest] by (simp add: takeWhile_append)
      have "csv_walk (csv_escape s @ CHR 0x22 # rest) field True q out = csv_walk ?tail (field @ c # takeWhile cont cs) True q out"
        unfolding s using False by (subst csv_walk.simps) (simp add: char_len_def run)
      also have "\<dots> = csv_walk rest ((field @ c # takeWhile cont cs) @ dropWhile cont cs) False q out"
        using length_dropWhile_le [of cont cs] Cons by (intro IH) simp
      finally show ?thesis using Cons by simp
    qed
  qed
qed

lemma csv_field_end: "csv_walk (CHR '','' # rest) field False q out = csv_walk rest [] False False (out @ [field])"
  by (subst csv_walk.simps) simp

lemma csv_walk_field:
  assumes "rest = [] \<or> hd rest \<noteq> CHR 0x22"
  shows "csv_walk (csv_quote s @ rest) [] False False out = csv_walk rest s False True out"
proof -
  have "csv_walk (csv_quote s @ rest) [] False False out = csv_walk (csv_escape s @ CHR 0x22 # rest) [] True True out"
    by (subst csv_walk.simps) (simp add: csv_quote_def)
  then show ?thesis by (simp add: csv_walk_quoted [OF assms])
qed

lemma plain_field: "find_char (a @ CHR '','' # b) (CHR '','') = Some (length a)" if "CHR '','' \<notin> set a"
  using that by (induction a) auto

text \<open>C40: rows read back. Three texts joined by commas, each quoted the way a CSV writer does (a quote doubled, so that
  commas and quotes may be part of the text), are read as exactly those texts, whatever bytes they hold; and so are three
  texts joined without quoting when they hold no comma and no quote.\<close>
theorem csv_row_reads_back:
  assumes "utf8_valid (csv_quote a @ '','' @ csv_quote b @ '','' @ csv_quote c)"
    and "utf8_valid (a' @ '','' @ b' @ '','' @ c')" "{CHR '','', CHR 0x22} \<inter> (set a' \<union> set b' \<union> set c') = {}"
  shows "parse_row (str_bytes (csv_quote a @ '','' @ csv_quote b @ '','' @ csv_quote c)) = Some (a, b, c) \<and>
    parse_row (str_bytes (a' @ '','' @ b' @ '','' @ c')) = Some (a', b', c')"
proof
  have quoted: "0x22 \<in> set (str_bytes (csv_quote a @ rest))" for rest by (simp add: csv_quote_def str_bytes_def)
  have "split_csv_record (csv_quote a @ '','' @ csv_quote b @ '','' @ csv_quote c) = [a, b, c]"
    using csv_walk_field [of "[]" c] by (simp add: split_csv_record_def csv_walk_field csv_field_end csv_walk.simps [of "[]"])
  then show "parse_row (str_bytes (csv_quote a @ '','' @ csv_quote b @ '','' @ csv_quote c)) = Some (a, b, c)"
    using assms(1) quoted by (simp add: parse_row_def)
  have plain: "CHR '','' \<notin> set a'" "CHR '','' \<notin> set b'" "CHR '','' \<notin> set c'" "CHR 0x22 \<notin> set (a' @ '','' @ b' @ '','' @ c')"
    using assms(3) by auto
  have "0x22 \<notin> set (str_bytes (a' @ '','' @ b' @ '','' @ c'))"
  proof
    assume "0x22 \<in> set (str_bytes (a' @ '','' @ b' @ '','' @ c'))"
    then have "char_of (unat (0x22 :: u8)) \<in> set (bytes_str (str_bytes (a' @ '','' @ b' @ '','' @ c')))" unfolding bytes_str_def by force
    moreover have "char_of (unat (0x22 :: u8)) = CHR 0x22" by code_simp
    ultimately have "CHR 0x22 \<in> set (bytes_str (str_bytes (a' @ '','' @ b' @ '','' @ c')))" by simp
    then show False using plain(4) by simp
  qed
  moreover have "find_char c' (CHR '','') = None" using plain(3) by (induction c') auto
  ultimately show "parse_row (str_bytes (a' @ '','' @ b' @ '','' @ c')) = Some (a', b', c')"
    using assms(2) plain plain_field [OF plain(1)] plain_field [OF plain(2)] by (simp add: parse_row_def three_fields_def Let_def)
qed

theorem csv_row_reads_back_witness:
  "parse_row (str_bytes (csv_quote ''a.com'' @ '','' @ csv_quote (''x, '' @ [CHR 0x22]) @ '','' @ csv_quote ''ref'')) = Some (''a.com'', ''x, '' @ [CHR 0x22], ''ref'') \<and>
   parse_row (str_bytes ''a.com,malware,ref'') = Some (''a.com'', ''malware'', ''ref'')"
proof -
  have "utf8_valid (csv_quote ''a.com'' @ '','' @ csv_quote (''x, '' @ [CHR 0x22]) @ '','' @ csv_quote ''ref'')"
    "utf8_valid (''a.com'' @ '','' @ ''malware'' @ '','' @ ''ref'')"
    by code_simp+
  from csv_row_reads_back [OF this] show ?thesis by simp
qed

end
