(* ===== verification/Http.thy ===== *)
theory Http
  imports Names Utf8
begin

text \<open>
  \<open>protocols/http.rs\<close>: the request line, a header's value, percent-decoding, and the candidates a request is looked up
  by. A \<open>Finder\<close> is the search for its needle; the regular expression of \<open>build_checks\<close> is a parameter. Every slice is
  taken at a match of an ASCII needle, which in UTF-8 text is a character boundary.
\<close>

definition crlf :: string where "crlf = [CHR 0x0d, CHR 0x0a]"

section \<open>Lines and headers\<close>

definition header_value_with :: "string \<Rightarrow> string \<Rightarrow> string option" where
  "header_value_with text name = do {
     i \<leftarrow> find_sub text name;
     let rest = drop (i + length name) text;
     e \<leftarrow> find_sub rest crlf;
     Some (if e = 0 then [] else take e rest)
   }"

definition header_value :: "string \<Rightarrow> string \<Rightarrow> string option" where
  "header_value text name = do {
     i \<leftarrow> find_sub text name;
     let rest = drop (i + length name) text;
     e \<leftarrow> find_sub rest crlf;
     Some (take e rest)
   }"

record request =
  rq_method :: string
  rq_path :: string
  rq_version :: string

text \<open>The count of spaces, with the places of the first two.\<close>

fun space_walk :: "string \<Rightarrow> nat \<Rightarrow> nat \<Rightarrow> nat \<Rightarrow> nat \<Rightarrow> (nat \<times> nat \<times> nat) option" where
  "space_walk [] i spaces first second = Some (spaces, first, second)"
| "space_walk (b # bs) i spaces first second =
     (if b = CHR '' ''
      then (let spaces = spaces + 1
            in if spaces = 1 then space_walk bs (i + 1) spaces i second
               else if spaces = 2 then space_walk bs (i + 1) spaces first i
               else None)
      else space_walk bs (i + 1) spaces first second)"

definition request_line :: "string \<Rightarrow> request option" where
  "request_line text = do {
     e \<leftarrow> find_sub text crlf;
     let line = take e text;
     (spaces, first, second) \<leftarrow> space_walk line 0 0 0 0;
     if spaces \<noteq> 2 \<or> find_sub line '' HTTP/'' = None then None
     else Some \<lparr>rq_method = take first line, rq_path = take (second - (first + 1)) (drop (first + 1) line),
       rq_version = drop (second + 1) line\<rparr>
   }"

section \<open>Percent-decoding\<close>

definition pct_val :: "char \<Rightarrow> nat option" where
  "pct_val c =
     (if is_digit c then Some (code c - 48)
      else if 97 \<le> code c \<and> code c \<le> 102 then Some (code c - 97 + 10)
      else if 65 \<le> code c \<and> code c \<le> 70 then Some (code c - 65 + 10)
      else None)"

text \<open>The two digits after a percent sign.\<close>

definition escape_at :: "string \<Rightarrow> char option" where
  "escape_at s =
     (case (Option.bind (b_at s 1) pct_val, Option.bind (b_at s 2) pct_val) of
        (Some h, Some l) \<Rightarrow> Some (char_of (16 * h + l))
      | _ \<Rightarrow> None)"

function unquote_walk :: "string \<Rightarrow> string \<Rightarrow> string \<Rightarrow> string" where
  "unquote_walk s run out =
     (case s of
        [] \<Rightarrow> out @ lossy run
      | b # bs \<Rightarrow>
          if b = CHR ''%''
          then (case escape_at s of
                  Some c \<Rightarrow> unquote_walk (drop 3 s) (run @ [c]) out
                | None \<Rightarrow> unquote_walk bs (run @ [CHR ''%'']) out)
          else if is_ascii b then unquote_walk bs (run @ [b]) out
          else unquote_walk (dropWhile cont bs) [] (out @ lossy run @ b # takeWhile cont bs))"
  by pat_completeness auto
termination
  by (relation "measure (\<lambda>(s, run, out). length s)") (auto simp: le_imp_less_Suc length_dropWhile_le)

declare unquote_walk.simps [simp del]

definition unquote :: "string \<Rightarrow> string" where
  "unquote value = (if CHR ''%'' \<notin> set value then value else unquote_walk value [] [])"

definition unquote_cow :: "string \<Rightarrow> string" where
  "unquote_cow value = (if CHR ''%'' \<notin> set value then value else unquote value)"

section \<open>Paths\<close>

definition trim_end_char :: "char \<Rightarrow> string \<Rightarrow> string" where
  "trim_end_char c s = rev (dropWhile (\<lambda>x. x = c) (rev s))"

text \<open>\<open>str::split\<close> by a string; by the empty one it is the characters, with an empty text at either end.\<close>

function split_sub :: "string \<Rightarrow> string \<Rightarrow> string list" where
  "split_sub s p =
     (if p = [] then [[]] @ str_chars s @ [[]]
      else (case find_sub s p of None \<Rightarrow> [s] | Some i \<Rightarrow> take i s # split_sub (drop (i + length p) s) p))"
  by pat_completeness auto
termination
proof (relation "measure (\<lambda>(s, p). length s)")
  fix s p :: string and i
  assume "p \<noteq> []" "find_sub s p = Some i"
  then have "s \<noteq> []" by auto
  then show "((drop (i + length p) s, p), (s, p)) \<in> measure (\<lambda>(s, p). length s)"
    using \<open>p \<noteq> []\<close> by (cases p) auto
qed simp

declare split_sub.simps [simp del]

text \<open>\<open>str::replace\<close>.\<close>

definition replace_sub :: "string \<Rightarrow> string \<Rightarrow> string \<Rightarrow> string" where
  "replace_sub s p q = join q (split_sub s p)"

fun splitext_walk :: "string \<Rightarrow> nat \<Rightarrow> nat \<Rightarrow> bool" where
  "splitext_walk [] i dot = False"
| "splitext_walk (b # bs) i dot = (if i < dot then b \<noteq> CHR ''.'' \<or> splitext_walk bs (i + 1) dot else False)"

definition splitext :: "string \<Rightarrow> string \<times> string" where
  "splitext filename =
     (case rfind_char filename (CHR ''.'') of
        None \<Rightarrow> (filename, [])
      | Some dot \<Rightarrow> if splitext_walk filename 0 dot then (take dot filename, drop dot filename) else (filename, []))"

definition urlparse_path_query :: "string \<Rightarrow> string \<times> string" where
  "urlparse_path_query url =
     (let rest = dropWhile (\<lambda>c. c \<notin> {CHR ''/'', CHR ''?'', CHR ''#''}) url;
          rest = (case find_char rest (CHR ''#'') of Some i \<Rightarrow> take i rest | None \<Rightarrow> rest)
      in case find_char rest (CHR ''?'') of
           Some i \<Rightarrow> (take i rest, drop (i + 1) rest)
         | None \<Rightarrow> (rest, []))"

definition count_slashes :: "string \<Rightarrow> nat" where
  "count_slashes s = length (filter (\<lambda>c. c = CHR ''/'') s)"

text \<open>The candidates of a path with a query, and of a request with a body.\<close>

definition query_checks :: "(string \<Rightarrow> string) \<Rightarrow> string \<Rightarrow> string list \<Rightarrow> string list" where
  "query_checks param_strip path checks =
     (let base = hd (split_on (CHR ''?'') path);
          checks = checks @ [trim_end_char (CHR ''/'') base];
          checks = (case find_char path (CHR ''='') of Some i \<Rightarrow> checks @ [take (i + 1) path] | None \<Rightarrow> checks);
          stripped = param_strip path
      in if stripped \<in> set checks then checks
         else (let checks' = checks @ [stripped]
               in if count_slashes stripped > 1 then checks' @ [CHR ''/'' # last (split_on (CHR ''/'') stripped)] else checks'))"

text \<open>The last candidate without its last segment, and the last segment of the first without its query.\<close>

definition segment_checks :: "string list \<Rightarrow> string list" where
  "segment_checks checks =
     (if count_slashes (last checks) > 1
      then (let final = last checks;
                checks = (case rfind_char final (CHR ''/'') of Some i \<Rightarrow> checks @ [take i final] | None \<Rightarrow> checks);
                first = hd checks
            in case rfind_char first (CHR ''/'') of
                 Some i \<Rightarrow> checks @ [hd (split_on (CHR ''?'') (drop i first))]
               | None \<Rightarrow> checks)
      else checks)"

definition build_checks :: "(string \<Rightarrow> string) \<Rightarrow> (string \<Rightarrow> string) \<Rightarrow> string \<Rightarrow> string option \<Rightarrow> string \<Rightarrow> string list" where
  "build_checks lower param_strip path post unquoted_post =
     (let checks = [trim_end_char (CHR ''/'') path];
          checks = (if CHR ''?'' \<in> set path then query_checks param_strip path checks
                    else if post \<noteq> None then checks @ [path @ ''?'' @ lower unquoted_post]
                    else checks)
      in segment_checks checks)"

section \<open>Lines that are read back\<close>

text \<open>A text percent-encoded: the characters of \<open>keep\<close> may stay, a percent sign and what is not ASCII may not.\<close>

definition pct_digit :: "bool \<Rightarrow> nat \<Rightarrow> char" where
  "pct_digit upper n = char_of (if n < 10 then 48 + n else if upper then 55 + n else 87 + n)"

definition percent_char :: "(char \<Rightarrow> bool) \<Rightarrow> bool \<Rightarrow> char \<Rightarrow> string" where
  "percent_char keep upper c =
     (if keep c \<and> is_ascii c \<and> c \<noteq> CHR ''%'' then [c]
      else [CHR ''%'', pct_digit upper (code c div 16), pct_digit upper (code c mod 16)])"

definition percent_encode :: "(char \<Rightarrow> bool) \<Rightarrow> bool \<Rightarrow> string \<Rightarrow> string" where
  "percent_encode keep upper s = concat (map (percent_char keep upper) s)"

lemma pct_val_digit: "n < 16 \<Longrightarrow> pct_val (pct_digit upper n) = Some n"
  by (auto simp: pct_val_def pct_digit_def is_digit_def of_char_of)

lemma escape_at_digits: "escape_at (CHR ''%'' # pct_digit upper (code c div 16) # pct_digit upper (code c mod 16) # t) = Some c"
proof -
  have "code c < 256" by (rule code_bound)
  then have "code c div 16 < 16" "code c mod 16 < 16" by simp_all
  then show ?thesis by (simp add: escape_at_def b_at_def pct_val_digit mult.commute code_def)
qed

lemma unquote_walk_encoded: "unquote_walk (percent_encode keep upper s) run out = out @ lossy (run @ s)"
proof (induction s arbitrary: run)
  case Nil
  then show ?case by (simp add: percent_encode_def unquote_walk.simps [of "[]"])
next
  case (Cons c s)
  have step: "percent_encode keep upper (c # s) = percent_char keep upper c @ percent_encode keep upper s"
    by (simp add: percent_encode_def)
  show ?case
  proof (cases "keep c \<and> is_ascii c \<and> c \<noteq> CHR ''%''")
    case True
    then show ?thesis using Cons [of "run @ [c]"] by (simp add: step percent_char_def unquote_walk.simps [of "c # _"])
  next
    case False
    then show ?thesis
      using Cons [of "run @ [c]"]
      by (simp only: step percent_char_def False if_False append_Cons append_Nil)
        (simp add: unquote_walk.simps [of "CHR ''%'' # _"] escape_at_digits)
  qed
qed

lemma encoded_kept: "CHR ''%'' \<notin> set (percent_encode keep upper s) \<Longrightarrow> percent_encode keep upper s = s"
  by (induction s) (auto simp: percent_encode_def percent_char_def split: if_splits)

text \<open>C37: Percent-decoding undoes percent-encoding: a text of valid UTF-8 whose percent signs and non-ASCII bytes are escaped, in
  either case of the digits, and any choice of its other characters with them, decodes to itself.\<close>

theorem percent_encoding_reads_back:
  assumes "utf8_valid s"
  shows "unquote_cow (percent_encode keep upper s) = s"
  using encoded_kept [of keep upper s] unquote_walk_encoded [of keep upper s "[]" "[]"] lossy_valid [OF assms]
  by (auto simp: unquote_cow_def unquote_def)

theorem percent_encoding_reads_back_witness:
  "unquote_cow (percent_encode is_alnum True [CHR ''a'', CHR ''%'', CHR 0xc3, CHR 0xa9]) = [CHR ''a'', CHR ''%'', CHR 0xc3, CHR 0xa9] \<and>
   percent_encode is_alnum True [CHR ''a'', CHR ''%'', CHR 0xc3, CHR 0xa9] = ''a%25%C3%A9''"
proof -
  have "utf8_valid [CHR ''a'', CHR ''%'', CHR 0xc3, CHR 0xa9]" by code_simp
  from percent_encoding_reads_back [OF this, of is_alnum True]
  have 1: "unquote_cow (percent_encode is_alnum True [CHR ''a'', CHR ''%'', CHR 0xc3, CHR 0xa9]) = [CHR ''a'', CHR ''%'', CHR 0xc3, CHR 0xa9]" .
  have 2: "percent_encode is_alnum True [CHR ''a'', CHR ''%'', CHR 0xc3, CHR 0xa9] = ''a%25%C3%A9''" by code_simp
  from 1 2 show ?thesis by blast
qed

text \<open>The request line.\<close>

lemma find_sub_front: "find_sub (p @ t) p = Some 0"
proof (cases "p @ t")
  case (Cons a list)
  then show ?thesis using append_eq_conv_conj [of p t "p @ t"] by (simp add: starts_with_def)
qed simp

lemma find_crlf: "CHR 0x0d \<notin> set a \<Longrightarrow> find_sub (a @ crlf @ t) crlf = Some (length a)"
  by (induction a) (auto simp: starts_with_def crlf_def)

lemma find_sub_later: "find_sub t p = Some i \<Longrightarrow> find_sub (a @ t) p \<noteq> None"
  by (induction a) auto

lemma space_walk_skip:
  "CHR '' '' \<notin> set a \<Longrightarrow> space_walk (a @ t) i n first second = space_walk t (i + length a) n first second"
  by (induction a arbitrary: i) auto

text \<open>C38: The request line reads back: a method, a target and a version after \<open>HTTP/\<close>, none of them with a space or a carriage
  return, joined by spaces and ended by a line break, are split into exactly these three, whatever follows.\<close>

theorem request_line_reads_back:
  assumes "CHR '' '' \<notin> set meth \<union> set path \<union> set version" "CHR 0x0d \<notin> set meth \<union> set path \<union> set version"
  shows "request_line (meth @ '' '' @ path @ '' HTTP/'' @ version @ crlf @ rest) =
    Some \<lparr>rq_method = meth, rq_path = path, rq_version = ''HTTP/'' @ version\<rparr>"
proof -
  let ?line = "meth @ '' '' @ path @ '' HTTP/'' @ version"
  have "find_sub (?line @ crlf @ rest) crlf = Some (length ?line)" by (rule find_crlf) (use assms in auto)
  then have e: "find_sub (meth @ '' '' @ path @ '' HTTP/'' @ version @ crlf @ rest) crlf = Some (length ?line)" by simp
  have t: "take (length ?line) (meth @ '' '' @ path @ '' HTTP/'' @ version @ crlf @ rest) = ?line"
    using append_eq_conv_conj [of ?line "crlf @ rest" "?line @ crlf @ rest"] by (simp only: append_assoc simp_thms)
  have "find_sub ('' HTTP/'' @ version) '' HTTP/'' = Some 0" by (rule find_sub_front)
  then have h: "find_sub ?line '' HTTP/'' \<noteq> None"
    using find_sub_later [of "'' HTTP/'' @ version" _ _ "meth @ '' '' @ path"] by simp
  have v: "space_walk version i n f s = Some (n, f, s)" for i n f s
    using space_walk_skip [of version "[]"] assms by simp
  have w: "space_walk ?line 0 0 0 0 = Some (2, length meth, length meth + 1 + length path)"
    using space_walk_skip [of meth "'' '' @ path @ '' HTTP/'' @ version" 0 0 0 0] space_walk_skip [of path "'' HTTP/'' @ version"] assms
    by (simp add: v)
  show ?thesis
    unfolding request_line_def e Let_def bind.bind_lunit t w using h by simp
qed

theorem request_line_reads_back_witness:
  "request_line (''GET'' @ '' '' @ ''/a?b=c'' @ '' HTTP/'' @ ''1.1'' @ crlf @ ''Host: x'') =
     Some \<lparr>rq_method = ''GET'', rq_path = ''/a?b=c'', rq_version = ''HTTP/'' @ ''1.1''\<rparr>"
  by (rule request_line_reads_back) simp_all

end
