(* ===== verification/Helloshape.thy ===== *)
theory Helloshape
  imports Hello
begin

text \<open>
  The table of split ClientHellos under packets that say anything: the invariant of \<open>Hello\<close> speaks of the message
  of a flow, and a hostile sender need not have one. The operations look at lengths, keys, times and bitmaps,
  never at the stored bytes, so they commute with blanking all bytes; a blanked table satisfies the invariant
  for the message of zeros, and no call panics.
\<close>

definition blank_slot :: "hello_slot \<Rightarrow> hello_slot" where
  "blank_slot s = s\<lparr>hs_buf := replicate (length (hs_buf s)) 0\<rparr>"

definition blank :: "assembler \<Rightarrow> assembler" where
  "blank as = as\<lparr>as_slots := map blank_slot (as_slots as)\<rparr>"

definition blank_done :: "hello_done \<Rightarrow> hello_done" where
  "blank_done d = d\<lparr>hd_bytes := replicate (length (hd_bytes d)) 0\<rparr>"

definition hello_sound :: "assembler \<Rightarrow> bool" where
  "hello_sound as \<longleftrightarrow> as_ok (\<lambda>_ _. 0) (blank as)"

lemma blank_slot_simps [simp]:
  "hs_key (blank_slot s) = hs_key s" "hs_base (blank_slot s) = hs_base s" "hs_need (blank_slot s) = hs_need s"
  "hs_sec (blank_slot s) = hs_sec s" "hs_tick (blank_slot s) = hs_tick s" "hs_reported (blank_slot s) = hs_reported s"
  "hs_filled (blank_slot s) = hs_filled s" "hs_buf (blank_slot s) = replicate (length (hs_buf s)) 0"
  "slot_prefix (blank_slot s) = slot_prefix s"
  "blank_slot (s\<lparr>hs_key := k\<rparr>) = (blank_slot s)\<lparr>hs_key := k\<rparr>"
  "blank_slot (s\<lparr>hs_tick := t\<rparr>) = (blank_slot s)\<lparr>hs_tick := t\<rparr>"
  "blank_slot (s\<lparr>hs_base := b\<rparr>) = (blank_slot s)\<lparr>hs_base := b\<rparr>"
  "blank_slot (s\<lparr>hs_need := n\<rparr>) = (blank_slot s)\<lparr>hs_need := n\<rparr>"
  "blank_slot (s\<lparr>hs_sec := sec\<rparr>) = (blank_slot s)\<lparr>hs_sec := sec\<rparr>"
  "blank_slot (s\<lparr>hs_reported := r\<rparr>) = (blank_slot s)\<lparr>hs_reported := r\<rparr>"
  "blank_slot (s\<lparr>hs_filled := f\<rparr>) = (blank_slot s)\<lparr>hs_filled := f\<rparr>"
  by (simp_all add: blank_slot_def slot_prefix_def)

lemma blank_simps [simp]:
  "as_slots (blank as) = map blank_slot (as_slots as)" "as_newest (blank as) = as_newest as"
  "as_live (blank as) = as_live as" "as_ticks (blank as) = as_ticks as"
  "blank (as\<lparr>as_newest := n\<rparr>) = (blank as)\<lparr>as_newest := n\<rparr>" "blank (as\<lparr>as_live := l\<rparr>) = (blank as)\<lparr>as_live := l\<rparr>"
  "blank (as\<lparr>as_ticks := t\<rparr>) = (blank as)\<lparr>as_ticks := t\<rparr>"
  "blank (as\<lparr>as_slots := ss\<rparr>) = (blank as)\<lparr>as_slots := map blank_slot ss\<rparr>"
  by (simp_all add: blank_def)

lemma b_at_map [simp]: "b_at (map f xs) i = map_option f (b_at xs i)"
  by (simp add: b_at_def)

lemma blank_empty [simp]: "blank_slot empty_slot = empty_slot"
  by (simp add: blank_slot_def empty_slot_def)

lemma blank_idle: "hello_idle sec (blank as) = (fst (hello_idle sec as), blank (snd (hello_idle sec as)))"
  by (simp add: hello_idle_def Let_def)

lemma blank_free: "hello_free i (blank as) = map_option blank (hello_free i as)"
  by (simp add: hello_free_def map_update split: Option.bind_split option.split)

lemma blank_find: "hello_find key sec (blank as) = map_option (\<lambda>(i, as'). (i, blank as')) (hello_find key sec as)"
proof -
  obtain idle as1 where "hello_idle sec as = (idle, as1)" by fastforce
  then show ?thesis
    by (simp add: hello_find_def blank_idle blank_free split_beta map_option_bind option.map_comp o_def Let_def
        cong: option.case_cong split: Option.bind_split option.split)
qed

lemma blank_start: "hello_start key base need sec reported (blank as) = map_option blank (hello_start key base need sec reported as)"
proof -
  obtain a b where ab: "pair_of key = (a, b)" by fastforce
  define as1 where "as1 = (if as_slots as = [] then as\<lparr>as_slots := replicate slots_len empty_slot\<rparr> else as)"
  have e: "(if as_slots (blank as) = [] then blank as\<lparr>as_slots := replicate slots_len empty_slot\<rparr> else blank as) = blank as1"
    by (simp add: as1_def map_replicate)
  show ?thesis
  proof (cases "b_at (as_slots as1) a")
    case (Some sa)
    show ?thesis
    proof (cases "b_at (as_slots as1) b")
      case (Some sb)
      define i where "i = (if hs_key sa = key then a
                 else if hs_key sb = key \<or> hs_key sa \<noteq> 0 \<and> (hs_key sb = 0 \<or> hs_tick sb < hs_tick sa) then b
                 else a)"
      then show ?thesis
        unfolding hello_start_def e as1_def [symmetric] ab Let_def prod.case
        by (simp only: blank_simps b_at_map Some \<open>b_at (as_slots as1) a = Some sa\<close> option.map Option.bind.simps blank_slot_simps i_def [symmetric])
          (cases "b_at (as_slots as1) i"; simp add: map_update)
    qed (unfold hello_start_def e as1_def [symmetric] ab Let_def prod.case, use Some in simp)
  qed (unfold hello_start_def e as1_def [symmetric] ab Let_def prod.case, simp)
qed

lemma blank_write: "write_slot off (replicate (length input) 0) (blank_slot s) = map_option blank_slot (write_slot off input s)"
proof (cases "off < hs_need s")
  case True
  define finish where "finish = min (usize_saturating_add off (length input)) (hs_need s)"
  have f: "off \<le> finish \<or> \<not> finish \<le> length (hs_buf s) \<or> \<not> finish - off \<le> length input \<or> finish < off" by linarith
  have buf: "take off (replicate (length (hs_buf s)) 0) @ take (finish - off) (replicate (length input) 0) @ drop finish (replicate (length (hs_buf s)) 0) =
      replicate (length (take off (hs_buf s) @ take (finish - off) input @ drop finish (hs_buf s))) (0 :: u8)"
    by (simp add: replicate_add min_def)
  show ?thesis
  proof (cases "finish \<le> length (hs_buf s) \<and> finish - off \<le> length input")
    case ok: True
    then have "min (finish - off) (length input) = finish - off" by simp
    then show ?thesis
      using True ok buf unfolding write_slot_def Let_def
      by (cases "mark (hs_filled s) off finish") (simp_all add: finish_def [symmetric] blank_slot_def)
  next
    case False
    then show ?thesis using True unfolding write_slot_def Let_def by (auto simp: finish_def [symmetric])
  qed
next
  case False
  then show ?thesis by (simp add: write_slot_def)
qed

lemma blank_put:
  "hello_put key sec off (replicate (length input) 0) (blank as) =
     map_option (\<lambda>(d, as'). (map_option blank_done d, blank as')) (hello_put key sec off input as)"
proof (cases "hello_find key sec as")
  case (Some r)
  obtain i as1 where r: "r = (i, as1)" by fastforce
  show ?thesis
  proof (cases i)
    case (Some j)
    show ?thesis
    proof (cases "b_at (as_slots as1) j")
      case (Some s0)
      show ?thesis
      proof (cases "write_slot off input s0")
        case (Some s)
        define as2 where "as2 = as1\<lparr>as_slots := (as_slots as1)[j := s]\<rparr>"
        have b: "(blank as1)\<lparr>as_slots := (map blank_slot (as_slots as1))[j := blank_slot s]\<rparr> = blank as2"
          by (simp add: as2_def map_update)
        have sl: "b_slice (replicate (length (hs_buf s)) (0 :: u8)) 0 (hs_need s) =
            map_option (\<lambda>x. replicate (length x) 0) (b_slice (hs_buf s) 0 (hs_need s))"
          by (simp add: b_slice_def)
        show ?thesis
          using \<open>hello_find key sec as = Some r\<close> r \<open>i = Some j\<close> \<open>b_at (as_slots as1) j = Some s0\<close> Some
          by (simp add: hello_put_def blank_find blank_write b as2_def [symmetric] blank_free sl Let_def blank_done_def
              split: Option.bind_split option.split)
      qed (use \<open>hello_find key sec as = Some r\<close> r \<open>i = Some j\<close> Some in \<open>simp add: hello_put_def blank_find blank_write\<close>)
    qed (use \<open>hello_find key sec as = Some r\<close> r Some in \<open>simp add: hello_put_def blank_find\<close>)
  qed (use Some r in \<open>simp add: hello_put_def blank_find\<close>)
qed (simp add: hello_put_def blank_find)

lemma blank_prefix:
  "hello_prefix key sec (blank as) = map_option (\<lambda>(p, as'). (map_option (\<lambda>x. replicate (length x) 0) p, blank as')) (hello_prefix key sec as)"
proof -
  have sl: "b_slice (replicate n (0 :: u8)) 0 k = map_option (\<lambda>x. replicate (length x) 0) (b_slice b 0 k)" if "length b = n" for b n k
    using that by (simp add: b_slice_def)
  show ?thesis
    by (simp add: hello_prefix_def blank_find split: Option.bind_split option.split) (auto simp: sl split: Option.bind_split)
qed

lemma blank_forget: "hello_forget key sec (blank as) = map_option blank (hello_forget key sec as)"
  by (simp add: hello_forget_def blank_find blank_free split: Option.bind_split option.split)

section \<open>No call panics\<close>

lemma hello_sound_default: "hello_sound as_default"
  using default_ok by (simp add: hello_sound_def as_default_def blank_def)

lemma hello_sound_idle: "hello_sound as \<Longrightarrow> hello_sound (snd (hello_idle sec as))"
  using idle_ok [of "\<lambda>_ _. 0" "blank as" sec] by (simp add: hello_sound_def blank_idle split: prod.splits)

lemma hello_sound_start:
  assumes "hello_sound as" "key \<noteq> 0"
  shows "\<exists>as'. hello_start key base need sec reported as = Some as' \<and> hello_sound as'"
proof -
  have same: "(\<lambda>_ _. 0 :: u8)(key := (\<lambda>_. 0)) = (\<lambda>_ _. 0)" by auto
  show ?thesis
    using start_ok [of "\<lambda>_ _. 0" "blank as" key base need sec reported "\<lambda>_. 0"] assms
    unfolding same hello_sound_def blank_start by (auto simp: map_option_case split: option.splits)
qed

lemma hello_sound_put:
  assumes "hello_sound as" "key \<noteq> 0"
  shows "\<exists>d as'. hello_put key sec off input as = Some (d, as') \<and> hello_sound as'"
proof -
  have "replicate (length input) (0 :: u8) = map (\<lambda>_. 0) [off..<off + length (replicate (length input) (0 :: u8))]"
    by (simp add: map_replicate_const)
  from put_ok [OF assms(1) [unfolded hello_sound_def] assms(2) this, of sec]
  show ?thesis unfolding hello_sound_def blank_put by (auto simp: map_option_case split: option.splits prod.splits)
qed

lemma hello_sound_find:
  assumes "hello_sound as" "key \<noteq> 0"
  shows "\<exists>i as'. hello_find key sec as = Some (i, as') \<and> hello_sound as' \<and> (\<forall>j. i = Some j \<longrightarrow> j < length (as_slots as'))"
  using find_ok [OF assms(1) [unfolded hello_sound_def] assms(2), of sec]
  unfolding hello_sound_def blank_find by (auto simp: map_option_case split: option.splits prod.splits)

lemma hello_sound_base:
  "hello_sound as \<Longrightarrow> key \<noteq> 0 \<Longrightarrow> \<exists>b as'. hello_base key sec as = Some (b, as') \<and> hello_sound as'"
  using hello_sound_find [of as key sec] by (auto simp: hello_base_def split: option.split)

lemma hello_sound_pending:
  "hello_sound as \<Longrightarrow> key \<noteq> 0 \<Longrightarrow> \<exists>b as'. hello_pending key sec as = Some (b, as') \<and> hello_sound as'"
  using hello_sound_find [of as key sec] by (auto simp: hello_pending_def)

lemma hello_sound_prefix:
  assumes "hello_sound as" "key \<noteq> 0"
  shows "\<exists>p as'. hello_prefix key sec as = Some (p, as') \<and> hello_sound as'"
  using step_ok [OF assms(1) [unfolded hello_sound_def], of "Look key sec"] assms(2)
  unfolding hello_sound_def by (auto simp: blank_prefix map_option_case split: option.splits prod.splits)

lemma hello_sound_forget:
  assumes "hello_sound as" "key \<noteq> 0"
  shows "\<exists>as'. hello_forget key sec as = Some as' \<and> hello_sound as'"
  using step_ok [OF assms(1) [unfolded hello_sound_def], of "Forget key sec"] assms(2)
  unfolding hello_sound_def by (auto simp: blank_forget map_option_case split: option.splits)

lemma flow_key_odd: "flow_key seed src src_port dst dst_port extra \<noteq> 0"
proof -
  have "bit (flow_key seed src src_port dst dst_port extra) 0" by (simp add: flow_key_def bit_or_iff)
  then show ?thesis by auto
qed


end
