(* ===== verification/Quic.thy ===== *)
theory Quic
  imports Tls
begin

text \<open>
  \<open>protocols/quic.rs\<close>: the server name of a QUIC Initial. The packet's keys come from its public connection
  identifier, so the header protection and the counter mode are undone without a secret. The primitives of
  the \<open>hmac\<close>, \<open>sha2\<close>, \<open>md-5\<close>, \<open>sha1\<close> and \<open>aes\<close> crates are a parameter, the record \<open>crypto\<close>. As in
  the TLS model the outer \<open>None\<close> is a panic.
\<close>

section \<open>Primitives\<close>

record crypto =
  md5_of :: "bytes \<Rightarrow> bytes"
  sha1_of :: "bytes \<Rightarrow> bytes"
  sha256_of :: "bytes \<Rightarrow> bytes"
  hmac_of :: "bytes \<Rightarrow> bytes \<Rightarrow> bytes"
  aes_block :: "bytes \<Rightarrow> bytes \<Rightarrow> bytes"

text \<open>The sizes the crates' types promise.\<close>

definition crypto_ok :: "crypto \<Rightarrow> bool" where
  "crypto_ok cr \<longleftrightarrow> (\<forall>k m. length (hmac_of cr k m) = 32) \<and> (\<forall>k m. length (aes_block cr k m) = 16)"

definition max_initial_decrypt :: nat where "max_initial_decrypt = 2048"

definition initial_salt_v1 :: bytes where
  "initial_salt_v1 = [0x38, 0x76, 0x2c, 0xf7, 0xf5, 0x59, 0x34, 0xb3, 0x4d, 0x17, 0x9a, 0xe6, 0xa4, 0xc8, 0x0c, 0xad, 0xcc, 0xbb, 0x7f, 0x0a]"

definition initial_salt_v2 :: bytes where
  "initial_salt_v2 = [0x0d, 0xed, 0xe3, 0xde, 0xf7, 0x00, 0xa6, 0xdb, 0x81, 0x93, 0x81, 0xbe, 0x6e, 0x26, 0x9d, 0xcb, 0xf9, 0xbd, 0x2e, 0xd9]"

section \<open>The key schedule\<close>

definition hkdf_extract :: "crypto \<Rightarrow> bytes \<Rightarrow> bytes \<Rightarrow> bytes" where
  "hkdf_extract cr salt ikm = hmac_of cr salt ikm"

definition hkdf_max :: nat where "hkdf_max = 32"

text \<open>The rounds: the bytes written so far, the last block if there was one, and the counter.\<close>

function hkdf_rounds :: "crypto \<Rightarrow> bytes \<Rightarrow> bytes \<Rightarrow> nat \<Rightarrow> nat \<Rightarrow> bytes option \<Rightarrow> u8 \<Rightarrow> bytes \<Rightarrow> bytes option" where
  "hkdf_rounds cr prk info len written prev counter out =
     (if written < len
      then (let block = hmac_of cr prk ((case prev of Some p \<Rightarrow> p | None \<Rightarrow> []) @ info @ [counter]);
                n = min (len - written) 32
            in if written + n > hkdf_max then None
               else (let out = take written out @ take n block @ drop (written + n) out
                     in if counter + 1 = 0 then Some out
                        else hkdf_rounds cr prk info len (written + n) (Some block) (counter + 1) out))
      else Some out)"
  by pat_completeness auto
termination by (relation "measure (\<lambda>(_, _, _, len, written, _). len - written)") auto

declare hkdf_rounds.simps [simp del]

definition hkdf_expand_into :: "crypto \<Rightarrow> bytes \<Rightarrow> bytes \<Rightarrow> nat \<Rightarrow> bytes option" where
  "hkdf_expand_into cr prk info len = hkdf_rounds cr prk info len 0 None 1 (replicate hkdf_max 0)"

text \<open>The buffer of the label has 64 bytes.\<close>

definition hkdf_expand_label_into :: "crypto \<Rightarrow> bytes \<Rightarrow> string \<Rightarrow> nat \<Rightarrow> bytes option" where
  "hkdf_expand_label_into cr secret label len =
     (let info = u16_bytes (of_nat len) @ [of_nat (6 + length label)] @ str_bytes ''tls13 '' @ str_bytes label @ [0]
      in if length info > 64 then None else hkdf_expand_into cr secret info len)"

record initial_keys =
  ik_key :: bytes
  ik_iv :: bytes
  ik_hp :: bytes

definition derive_client_initial_keys :: "crypto \<Rightarrow> bytes \<Rightarrow> u8 \<Rightarrow> initial_keys option" where
  "derive_client_initial_keys cr dcid version_kind =
     (let (salt, klbl, ivlbl, hplbl) = (if version_kind = 2 then (initial_salt_v2, ''quicv2 key'', ''quicv2 iv'', ''quicv2 hp'')
                                        else (initial_salt_v1, ''quic key'', ''quic iv'', ''quic hp''))
      in do {
        client_secret \<leftarrow> hkdf_expand_label_into cr (hkdf_extract cr salt dcid) ''client in'' 32;
        secret \<leftarrow> b_slice client_secret 0 32;
        key \<leftarrow> hkdf_expand_label_into cr secret klbl 16;
        iv \<leftarrow> hkdf_expand_label_into cr secret ivlbl 12;
        hp \<leftarrow> hkdf_expand_label_into cr secret hplbl 16;
        Some \<lparr>ik_key = take 16 key, ik_iv = take 12 iv, ik_hp = take 16 hp\<rparr>
      })"

text \<open>The memo of a thread: the seeded hash of version and identifier, the identifier, its keys.\<close>

type_synonym key_memo = "(u64, bytes \<times> initial_keys) amap"

definition key_memo_max :: nat where "key_memo_max = 64"

definition key_slot :: "u64 \<Rightarrow> bytes \<Rightarrow> u8 \<Rightarrow> u64" where
  "key_slot seed dcid version_kind = seeded_finish seed (seeded_write (seeded_write_u8 seed version_kind) dcid)"

definition cached_initial_keys :: "crypto \<Rightarrow> u64 \<Rightarrow> bytes \<Rightarrow> u8 \<Rightarrow> key_memo \<Rightarrow> (initial_keys \<times> key_memo) option" where
  "cached_initial_keys cr seed dcid version_kind memo =
     (let slot = key_slot seed dcid version_kind;
          fresh = do {
            keys \<leftarrow> derive_client_initial_keys cr dcid version_kind;
            Some (keys, AList.update slot (dcid, keys) (if length memo \<ge> key_memo_max then [] else memo))
          }
      in case map_of memo slot of
           Some (ident, keys) \<Rightarrow> if ident = dcid then Some (keys, memo) else fresh
         | None \<Rightarrow> fresh)"

section \<open>Counter mode\<close>

definition be128_bytes :: "u128 \<Rightarrow> bytes" where
  "be128_bytes w = map (\<lambda>i. ucast (drop_bit (8 * (15 - i)) w)) [0..<16]"

text \<open>The keystream is XORed on block by block; the source encrypts eight counter blocks at a time.\<close>

function ctr_blocks :: "crypto \<Rightarrow> bytes \<Rightarrow> u128 \<Rightarrow> bytes \<Rightarrow> bytes" where
  "ctr_blocks cr key ctr input =
     (if input = [] then []
      else map2 (XOR) (take 16 input) (aes_block cr key (be128_bytes ctr)) @ ctr_blocks cr key (ctr + 1) (drop 16 input))"
  by pat_completeness auto
termination by (relation "measure (\<lambda>(_, _, _, input). length input)") auto

declare ctr_blocks.simps [simp del]

text \<open>Extends a keystream prefix, which the callers leave on a block boundary or at the end of the input: the debug assertion
  that says so is not part of a release build and not of the model.\<close>

definition aes_ctr_extend :: "crypto \<Rightarrow> bytes \<Rightarrow> bytes \<Rightarrow> bytes \<Rightarrow> bytes \<Rightarrow> bytes" where
  "aes_ctr_extend cr key counter0 input out =
     out @ ctr_blocks cr key (be128 counter0 + of_nat (length out div 16)) (drop (min (length out) (length input)) input)"

section \<open>Variable-length integers and CRYPTO frames\<close>

fun varint_tail :: "bytes \<Rightarrow> nat \<Rightarrow> nat \<Rightarrow> u64 \<Rightarrow> u64 option" where
  "varint_tail buf i 0 val = Some val"
| "varint_tail buf i (Suc n) val = do { b \<leftarrow> b_at buf i; varint_tail buf (i + 1) n (push_bit 8 val OR ucast b) }"

definition read_varint :: "bytes \<Rightarrow> nat \<Rightarrow> (u64 \<times> nat) option" where
  "read_varint buf off = do {
     b0 \<leftarrow> b_at buf off;
     let len = 2 ^ unat (drop_bit 6 b0);
     val \<leftarrow> varint_tail buf (off + 1) (len - 1) (ucast (b0 AND 0x3f));
     Some (val, off + len)
   }"

text \<open>A \<open>BTreeMap\<close>: the entries in the order of their keys.\<close>

type_synonym chunk_map = "(u64 \<times> bytes) list"

fun chunk_insert :: "u64 \<Rightarrow> bytes \<Rightarrow> chunk_map \<Rightarrow> chunk_map" where
  "chunk_insert k v [] = [(k, v)]"
| "chunk_insert k v ((k', v') # cs) =
     (if k < k' then (k, v) # (k', v') # cs else if k = k' then (k, v) # cs else (k', v') # chunk_insert k v cs)"

fun read_varints :: "nat \<Rightarrow> bytes \<Rightarrow> nat \<Rightarrow> nat option" where
  "read_varints 0 buf off = Some off"
| "read_varints (Suc n) buf off = do { (_, next) \<leftarrow> read_varint buf off; read_varints n buf next }"

definition ack_frame :: "bytes \<Rightarrow> bool \<Rightarrow> nat \<Rightarrow> nat option" where
  "ack_frame payload ecn off = do {
     off \<leftarrow> read_varints 2 payload off;
     (range_count, off) \<leftarrow> read_varint payload off;
     off \<leftarrow> read_varints 1 payload off;
     off \<leftarrow> read_varints (2 * unat range_count) payload off;
     if ecn then read_varints 3 payload off else Some off
   }"

text \<open>The frames: \<open>None\<close> is the source's, from a read past the end.\<close>

lemma read_varint_more: "read_varint buf off = Some (v, next) \<Longrightarrow> off < next \<and> off < length buf"
  by (auto simp: read_varint_def Let_def bytes_simps split: bind_splits)

lemma read_varints_ge: "read_varints n buf off = Some next \<Longrightarrow> off \<le> next"
proof (induction n arbitrary: off)
  case (Suc n)
  then obtain v m where "read_varint buf off = Some (v, m)" "read_varints n buf m = Some next"
    by (auto split: bind_splits)
  then show ?case using Suc.IH [of m] read_varint_more [of buf off v m] by simp
qed simp

lemma ack_frame_ge: "ack_frame buf ecn off = Some next \<Longrightarrow> off \<le> next"
  unfolding ack_frame_def
  by (auto dest!: read_varints_ge read_varint_more split: bind_splits if_splits)

definition leading_zeros :: "bytes \<Rightarrow> nat" where
  "leading_zeros b = length (takeWhile (\<lambda>x. x = 0) b)"

function frame_walk :: "bytes \<Rightarrow> nat \<Rightarrow> chunk_map \<Rightarrow> chunk_map option" where
  "frame_walk payload off chunks =
     (if off < length payload
      then (case read_varint payload off of
          None \<Rightarrow> None
        | Some (ftype, next) \<Rightarrow>
            if ftype = 0 then frame_walk payload (next + leading_zeros (drop next payload)) chunks
            else if ftype = 1 then frame_walk payload next chunks
            else if ftype = 2 \<or> ftype = 3
            then (case ack_frame payload (ftype = 3) next of
                None \<Rightarrow> None
              | Some off' \<Rightarrow> frame_walk payload off' chunks)
            else if ftype = 6
            then (case read_varint payload next of
                None \<Rightarrow> None
              | Some (c_off, n1) \<Rightarrow> (case read_varint payload n1 of
                  None \<Rightarrow> None
                | Some (c_len, n2) \<Rightarrow>
                    (let finish = min (usize_saturating_add n2 (unat c_len)) (length payload)
                     in case b_slice payload n2 finish of
                          None \<Rightarrow> None
                        | Some body \<Rightarrow> frame_walk payload finish (chunk_insert c_off body chunks))))
            else Some chunks)
      else Some chunks)"
  by pat_completeness auto
termination
  by (relation "measure (\<lambda>(payload, off, _). length payload - off)")
    (auto dest!: read_varint_more ack_frame_ge simp: bytes_simps Let_def split: if_splits)

declare frame_walk.simps [simp del]

definition crypto_chunks :: "bytes \<Rightarrow> chunk_map option" where
  "crypto_chunks payload = do {
     chunks \<leftarrow> frame_walk payload 0 [];
     if chunks = [] then None else Some chunks
   }"

text \<open>The bytes from offset 0 up to the first gap.\<close>

fun join_chunks :: "bytes \<Rightarrow> chunk_map \<Rightarrow> bytes" where
  "join_chunks out [] = out"
| "join_chunks out ((off, chunk) # cs) =
     (if unat off > length out then out
      else (let skip = length out - unat off
            in join_chunks (if skip < length chunk then out @ drop skip chunk else out) cs))"

definition contiguous :: "chunk_map \<Rightarrow> bytes" where
  "contiguous chunks = join_chunks [] chunks"

section \<open>The server name of a handshake message\<close>

text \<open>
  The walk over the extensions; a host name is not lower-cased here. The offset is inside the slice, so the
  saturating addition of a length never saturates.
\<close>

definition quic_host :: "bytes \<Rightarrow> string option" where
  "quic_host name =
     (if list_all (\<lambda>b. b < 128) name \<and> is_hostname (bytes_str name) False then Some (bytes_str name) else None)"

definition quic_sni_extension :: "bytes \<Rightarrow> nat \<Rightarrow> string option option" where
  "quic_sni_extension h pos =
     (let sp = pos + 2
      in if sp + 3 > length h then Some None
         else do {
           ntype \<leftarrow> b_at h sp;
           l0 \<leftarrow> b_at h (sp + 1);
           l1 \<leftarrow> b_at h (sp + 2);
           let nlen = unat (be16 l0 l1);
           let sp = sp + 3;
           if ntype = 0 \<and> sp + nlen \<le> length h
           then do { name \<leftarrow> b_slice h sp (sp + nlen); Some (quic_host name) }
           else Some None
         })"

function quic_ext_walk :: "bytes \<Rightarrow> nat \<Rightarrow> nat \<Rightarrow> string option option" where
  "quic_ext_walk h finish pos =
     (if pos + 4 \<le> finish \<and> pos + 4 \<le> length h
      then (case (b_at h pos, b_at h (pos + 1), b_at h (pos + 2), b_at h (pos + 3)) of
          (Some t0, Some t1, Some l0, Some l1) \<Rightarrow>
            (if be16 t0 t1 = 0 then quic_sni_extension h (pos + 4)
             else quic_ext_walk h finish (pos + 4 + unat (be16 l0 l1)))
        | _ \<Rightarrow> None)
      else Some None)"
  by pat_completeness auto
termination
  by (relation "measure (\<lambda>(h, finish, pos). length h - pos)") auto

declare quic_ext_walk.simps [simp del]

definition quic_client_hello_sni :: "bytes \<Rightarrow> string option option" where
  "quic_client_hello_sni h =
     (if length h < 4 \<or> h ! 0 \<noteq> 1 then Some None
      else (let pos = 4 + (2 + 32)
        in if pos \<ge> length h then Some None
           else or_fail (b_at h pos) (Some None) (\<lambda>sid_len.
             let pos = pos + (1 + unat sid_len) in
             or_fail (b_at h pos) (Some None) (\<lambda>c0.
             or_fail (b_at h (pos + 1)) (Some None) (\<lambda>c1.
             let pos = pos + (2 + unat (be16 c0 c1)) in
             or_fail (b_at h pos) (Some None) (\<lambda>comp_len.
             let pos = pos + (1 + unat comp_len) in
             or_fail (b_at h pos) (Some None) (\<lambda>e0.
             or_fail (b_at h (pos + 1)) (Some None) (\<lambda>e1.
             let pos = pos + 2
             in quic_ext_walk h (usize_saturating_add pos (unat (be16 e0 e1))) pos))))))))"

section \<open>Opening an Initial\<close>

record opened =
  op_dcid :: bytes
  op_keys :: initial_keys
  op_counter0 :: bytes
  op_ciphertext :: bytes

text \<open>The passes of \<open>scan\<close>: the plaintext so far, and the frames of the last pass that had any.\<close>

fun scan_passes :: "crypto \<Rightarrow> opened \<Rightarrow> nat \<Rightarrow> nat list \<Rightarrow> bytes \<Rightarrow> chunk_map option \<Rightarrow> (string option \<times> chunk_map option) option" where
  "scan_passes cr o1 full [] plaintext last_chunks = Some (None, last_chunks)"
| "scan_passes cr o1 full (cap # caps) plaintext last_chunks =
     (let cap = min cap full;
          plaintext = aes_ctr_extend cr (ik_key (op_keys o1)) (op_counter0 o1) (take cap (op_ciphertext o1)) plaintext
      in case crypto_chunks plaintext of
           None \<Rightarrow> if cap \<ge> full then Some (None, last_chunks) else scan_passes cr o1 full caps plaintext last_chunks
         | Some chunks \<Rightarrow> do {
             sni \<leftarrow> quic_client_hello_sni (contiguous chunks);
             (case sni of
                Some name \<Rightarrow> Some (Some name, None)
              | None \<Rightarrow> if cap \<ge> full then Some (None, Some chunks) else scan_passes cr o1 full caps plaintext (Some chunks))
           })"

definition opened_scan :: "crypto \<Rightarrow> opened \<Rightarrow> (string option \<times> chunk_map option) option" where
  "opened_scan cr o1 =
     (let full = min (length (op_ciphertext o1)) max_initial_decrypt
      in scan_passes cr o1 full [512, full] [] None)"

definition opened_crypto :: "crypto \<Rightarrow> opened \<Rightarrow> chunk_map option" where
  "opened_crypto cr o1 =
     (let full = min (length (op_ciphertext o1)) max_initial_decrypt
      in crypto_chunks (aes_ctr_extend cr (ik_key (op_keys o1)) (op_counter0 o1) (take full (op_ciphertext o1)) []))"

text \<open>The packet number, unmasked byte by byte; \<open>None\<close> is a read past the mask.\<close>

fun packet_number :: "bytes \<Rightarrow> bytes \<Rightarrow> nat \<Rightarrow> u64 \<Rightarrow> u64 option" where
  "packet_number ms [] i n = Some n"
| "packet_number ms (b # bs) i n = do { m \<leftarrow> b_at ms (1 + i); packet_number ms bs (i + 1) (push_bit 8 n OR ucast (b XOR m)) }"

definition be64_bytes :: "u64 \<Rightarrow> bytes" where
  "be64_bytes w = map (\<lambda>i. ucast (drop_bit (8 * (7 - i)) w)) [0..<8]"

definition counter_of :: "bytes \<Rightarrow> u64 \<Rightarrow> bytes" where
  "counter_of iv n = take 4 iv @ map2 (XOR) (drop 4 iv) (be64_bytes n) @ [0, 0, 0, 2]"

text \<open>The part behind the header: the sample, the mask, the packet number and the ciphertext.\<close>

definition open_protected :: "crypto \<Rightarrow> bytes \<Rightarrow> bytes \<Rightarrow> nat \<Rightarrow> u64 \<Rightarrow> initial_keys \<Rightarrow> opened option option" where
  "open_protected cr p dcid pn_offset len keys =
     or_fail (b_slice p (pn_offset + 4) (pn_offset + 20)) (Some None) (\<lambda>sample.
     let ms = aes_block cr (ik_hp keys) sample
     in or_fail (b_at p 0) None (\<lambda>first_byte.
        or_fail (b_at ms 0) None (\<lambda>m0.
        let pn_len = unat ((first_byte XOR (m0 AND 0x0f)) AND 0x03) + 1
        in or_fail (b_slice p pn_offset (pn_offset + pn_len)) (Some None) (\<lambda>pn_bytes.
           or_fail (packet_number ms pn_bytes 0 0) None (\<lambda>number.
           let payload_offset = pn_offset + pn_len
           in if unat len < pn_len then Some None
              else (let finish = min (usize_saturating_add payload_offset (unat len - pn_len)) (length p)
                in or_fail (b_slice p payload_offset finish) (Some None) (\<lambda>text.
                   Some (Some \<lparr>op_dcid = dcid, op_keys = keys, op_counter0 = counter_of (ik_iv keys) number,
                     op_ciphertext = (if length text > 16 then take (length text - 16) text else text)\<rparr>))))))))"

definition open_initial :: "crypto \<Rightarrow> u64 \<Rightarrow> bytes \<Rightarrow> key_memo \<Rightarrow> (opened option \<times> key_memo) option" where
  "open_initial cr seed p memo =
     (let fail = Some (None, memo)
      in if length p < 7 then fail
         else if p ! 0 AND 0x80 = 0 then fail
         else let version = be32 (p ! 1) (p ! 2) (p ! 3) (p ! 4) in
              if version = 0 then fail
         else let ver_kind = (if version = 0x6b3343cf then 2 else 1 :: u8) in
         or_fail (b_at p 5) fail (\<lambda>dcid_len.
         let off = 6 in
         or_fail (b_slice p off (off + unat dcid_len)) fail (\<lambda>dcid.
         let off = off + unat dcid_len in
         or_fail (b_at p off) fail (\<lambda>scid_len.
         or_fail (usize_checked_add (off + 1) (unat scid_len)) fail (\<lambda>off.
         if (if ver_kind = 1 then p ! 0 AND 0x30 \<noteq> 0 else p ! 0 AND 0x30 \<noteq> 0x10) then fail
         else
         or_fail (read_varint p off) fail (\<lambda>(token_len, next).
         or_fail (usize_checked_add next (unat token_len)) fail (\<lambda>off.
         or_fail (read_varint p off) fail (\<lambda>(len, pn_offset).
         or_fail (usize_checked_add pn_offset 4) fail (\<lambda>sample_offset.
         or_fail (usize_checked_add sample_offset 16) fail (\<lambda>sample_end.
         if sample_end > length p then fail
         else if length dcid < 8 then fail
         else do {
           (keys, memo) \<leftarrow> cached_initial_keys cr seed dcid ver_kind memo;
           o1 \<leftarrow> open_protected cr p dcid pn_offset len keys;
           Some (o1, memo)
         }))))))))))"

definition extract_sni_from_quic_initial :: "crypto \<Rightarrow> u64 \<Rightarrow> bytes \<Rightarrow> key_memo \<Rightarrow> (string option \<times> key_memo) option" where
  "extract_sni_from_quic_initial cr seed p memo = do {
     (o1, memo) \<leftarrow> open_initial cr seed p memo;
     (case o1 of
        None \<Rightarrow> Some (None, memo)
      | Some x \<Rightarrow> do { (sni, _) \<leftarrow> opened_scan cr x; Some (sni, memo) })
   }"

section \<open>Nothing panics\<close>

lemma crypto_lengths: "crypto_ok cr \<Longrightarrow> length (hmac_of cr k m) = 32" "crypto_ok cr \<Longrightarrow> length (aes_block cr k m) = 16"
  by (simp_all add: crypto_ok_def)

lemma hkdf_expand_into_total:
  assumes "crypto_ok cr" "len \<le> 32"
  shows "\<exists>out. hkdf_expand_into cr prk info len = Some out \<and> length out = 32"
proof -
  have stop: "hkdf_rounds cr prk info len len prev counter out = Some out" for prev counter out
    by (subst hkdf_rounds.simps) simp
  have "(1 :: u8) + 1 \<noteq> 0" by simp
  then show ?thesis
    using assms crypto_lengths(1) [OF assms(1)]
    by (simp add: hkdf_expand_into_def hkdf_max_def, subst hkdf_rounds.simps) (auto simp: hkdf_max_def Let_def stop min_def)
qed

lemma hkdf_label_total:
  assumes "crypto_ok cr" "len \<le> 32" "length label \<le> 54"
  shows "\<exists>out. hkdf_expand_label_into cr secret label len = Some out \<and> length out = 32"
  using hkdf_expand_into_total [OF assms(1,2)] assms(3)
  by (simp add: hkdf_expand_label_into_def Let_def str_bytes_def u16_bytes_def)

lemma derive_total:
  assumes "crypto_ok cr"
  shows "\<exists>keys. derive_client_initial_keys cr dcid version_kind = Some keys"
proof -
  obtain salt klbl ivlbl hplbl where c: "(if version_kind = 2 then (initial_salt_v2, ''quicv2 key'', ''quicv2 iv'', ''quicv2 hp'')
      else (initial_salt_v1, ''quic key'', ''quic iv'', ''quic hp'')) = (salt, klbl, ivlbl, hplbl)"
    and l: "length klbl \<le> 54" "length ivlbl \<le> 54" "length hplbl \<le> 54"
    by (cases "version_kind = 2") auto
  obtain secret where "hkdf_expand_label_into cr (hkdf_extract cr salt dcid) ''client in'' 32 = Some secret" "length secret = 32"
    using hkdf_label_total [OF assms, of 32 "''client in''"] by auto
  moreover obtain key where "hkdf_expand_label_into cr secret klbl 16 = Some key" using hkdf_label_total [OF assms, of 16, OF _ l(1)] by auto
  moreover obtain iv where "hkdf_expand_label_into cr secret ivlbl 12 = Some iv" using hkdf_label_total [OF assms, of 12, OF _ l(2)] by auto
  moreover obtain hp where "hkdf_expand_label_into cr secret hplbl 16 = Some hp" using hkdf_label_total [OF assms, of 16, OF _ l(3)] by auto
  ultimately show ?thesis unfolding derive_client_initial_keys_def Let_def c by (simp add: b_slice_def)
qed

lemma cached_total:
  assumes "crypto_ok cr"
  shows "\<exists>keys memo'. cached_initial_keys cr seed dcid version_kind memo = Some (keys, memo')"
proof -
  obtain keys where "derive_client_initial_keys cr dcid version_kind = Some keys" using derive_total [OF assms] by blast
  then show ?thesis by (auto simp: cached_initial_keys_def Let_def split: option.split)
qed

lemma packet_number_total: "i + length bs < length ms \<Longrightarrow> \<exists>n. packet_number ms bs i v = Some n"
  by (induction bs arbitrary: i v) auto

lemma quic_or_fail_simps [simp]: "or_fail (Some x) early f = f x" "or_fail None early f = early"
  by (simp_all add: or_fail_def)

lemma or_fail_total: "(\<exists>r. early = Some r) \<Longrightarrow> (\<And>x. v = Some x \<Longrightarrow> \<exists>r. f x = Some r) \<Longrightarrow> \<exists>r. or_fail v early f = Some r"
  by (cases v) (simp_all add: or_fail_def)

lemma low_two: "unat (b AND 3 :: u8) \<le> 3"
proof -
  have "b AND 3 \<le> (3 :: u8)" by (rule word_and_le1)
  then show ?thesis by (simp add: word_le_nat_alt)
qed

lemma open_protected_total:
  assumes "crypto_ok cr" "0 < length p"
  shows "\<exists>r. open_protected cr p dcid pn_offset len keys = Some r"
proof -
  have n: "\<exists>n. packet_number (aes_block cr k m) s 0 0 = Some n" if "b_slice p i (i + (unat (b AND 3 :: u8) + 1)) = Some s" for k m s i b
    using that low_two [of b] crypto_lengths(2) [OF assms(1)] by (intro packet_number_total) (auto simp: b_slice_def split: if_splits)
  show ?thesis
  proof (cases "b_slice p (pn_offset + 4) (pn_offset + 20)")
    case None
    then show ?thesis by (simp add: open_protected_def)
  next
    case (Some sample)
    define ms where "ms = aes_block cr (ik_hp keys) sample"
    define b where "b = p ! 0 XOR (ms ! 0 AND 0x0f)"
    have at: "b_at p 0 = Some (p ! 0)" "b_at ms 0 = Some (ms ! 0)"
      using assms(2) crypto_lengths(2) [OF assms(1)] by (simp_all add: ms_def)
    have run: "open_protected cr p dcid pn_offset len keys =
        or_fail (b_slice p pn_offset (pn_offset + (unat (b AND 3) + 1))) (Some None) (\<lambda>pn_bytes.
           or_fail (packet_number ms pn_bytes 0 0) None (\<lambda>number.
             if unat len < unat (b AND 3) + 1 then Some None
              else (let finish = min (usize_saturating_add (pn_offset + (unat (b AND 3) + 1)) (unat len - (unat (b AND 3) + 1))) (length p)
                in or_fail (b_slice p (pn_offset + (unat (b AND 3) + 1)) finish) (Some None) (\<lambda>text.
                   Some (Some \<lparr>op_dcid = dcid, op_keys = keys, op_counter0 = counter_of (ik_iv keys) number,
                     op_ciphertext = (if length text > 16 then take (length text - 16) text else text)\<rparr>)))))"
      by (simp only: open_protected_def Some Let_def ms_def [symmetric] at quic_or_fail_simps b_def [symmetric])
    show ?thesis
    proof (cases "b_slice p pn_offset (pn_offset + (unat (b AND 3) + 1))")
      case (Some pn_bytes)
      obtain number where "packet_number ms pn_bytes 0 0 = Some number" using n [OF Some] by (auto simp: ms_def)
      then show ?thesis unfolding run Some by (auto simp: Let_def intro!: or_fail_total)
    qed (simp add: run)
  qed
qed

lemma quic_sni_extension_total: "\<exists>r. quic_sni_extension h pos = Some r"
  by (auto simp: quic_sni_extension_def Let_def b_slice_def)

lemma quic_ext_walk_total: "\<exists>r. quic_ext_walk h finish pos = Some r"
proof (induction h finish pos rule: quic_ext_walk.induct)
  case (1 h finish pos)
  show ?case
  proof (cases "pos + 4 \<le> finish \<and> pos + 4 \<le> length h")
    case True
    then have "b_at h pos = Some (h ! pos)" "b_at h (pos + 1) = Some (h ! (pos + 1))" "b_at h (pos + 2) = Some (h ! (pos + 2))"
      "b_at h (pos + 3) = Some (h ! (pos + 3))" by simp_all
    then show ?thesis using 1 True quic_sni_extension_total by (subst quic_ext_walk.simps) auto
  next
    case False
    then show ?thesis by (subst quic_ext_walk.simps) auto
  qed
qed

lemma quic_client_hello_sni_total: "\<exists>r. quic_client_hello_sni h = Some r"
  unfolding quic_client_hello_sni_def Let_def
  by (auto intro!: or_fail_total quic_ext_walk_total)

lemma scan_passes_total: "\<exists>r. scan_passes cr o1 full caps plaintext last_chunks = Some r"
proof (induction caps arbitrary: plaintext last_chunks)
  case (Cons cap caps)
  define plain where "plain = aes_ctr_extend cr (ik_key (op_keys o1)) (op_counter0 o1) (take (min cap full) (op_ciphertext o1)) plaintext"
  show ?case
  proof (cases "crypto_chunks plain")
    case None
    then show ?thesis using Cons.IH by (simp add: Let_def plain_def)
  next
    case (Some chunks)
    obtain sni where "quic_client_hello_sni (contiguous chunks) = Some sni" using quic_client_hello_sni_total by blast
    then show ?thesis using Some Cons.IH by (cases sni) (simp_all add: Let_def plain_def)
  qed
qed simp

lemma open_initial_total:
  assumes "crypto_ok cr"
  shows "\<exists>o1 memo'. open_initial cr seed p memo = Some (o1, memo')"
proof -
  define T :: "(opened option \<times> key_memo) option \<Rightarrow> bool" where "T r \<longleftrightarrow> (\<exists>o1 memo'. r = Some (o1, memo'))" for r
  have fail: "T (Some x)" for x by (simp add: T_def)
  have bind: "T (or_fail v (Some (None, memo)) f)" if "\<And>x. T (f x)" for v :: "'v option" and f
    using that by (cases v) (simp_all add: fail)
  have branch: "T (if b then x else y)" if "T x" "T y" for b x y using that by simp
  have pair: "T (case x of (a, b) \<Rightarrow> f a b)" if "\<And>a b. T (f a b)" for x :: "'v \<times> 'w" and f using that by (cases x) simp
  have last: "T (do {
           (keys, memo) \<leftarrow> cached_initial_keys cr seed dcid ver_kind memo;
           o1 \<leftarrow> open_protected cr p dcid pn_offset len keys;
           Some (o1, memo) })" if pos: "0 < length p" for dcid ver_kind pn_offset len
  proof -
    obtain keys memo1 where "cached_initial_keys cr seed dcid ver_kind memo = Some (keys, memo1)" using cached_total [OF assms] by blast
    moreover obtain r where "open_protected cr p dcid pn_offset len keys = Some r" using open_protected_total [OF assms pos] by blast
    ultimately show ?thesis by (simp add: fail)
  qed
  have "T (open_initial cr seed p memo)"
  proof (cases "length p < 7")
    case False
    then have "0 < length p" by linarith
    then show ?thesis unfolding open_initial_def Let_def by (intro branch bind pair fail last)
  qed (simp add: open_initial_def fail)
  then show ?thesis by (simp add: T_def)
qed

text \<open>Reading the server name of a QUIC Initial never panics and ends, whatever the packet: no index leaves a
  slice, no length of the key schedule leaves its buffer, and a hostile frame stream cannot make the walk spin.\<close>
theorem quic_never_panics:
  assumes "crypto_ok cr"
  shows "extract_sni_from_quic_initial cr seed p memo \<noteq> None"
proof -
  obtain o1 memo' where o1: "open_initial cr seed p memo = Some (o1, memo')" using open_initial_total [OF assms] by blast
  show ?thesis
  proof (cases o1)
    case (Some x)
    obtain r where "opened_scan cr x = Some r" unfolding opened_scan_def Let_def using scan_passes_total by blast
    then show ?thesis using o1 Some by (cases r) (simp add: extract_sni_from_quic_initial_def)
  qed (simp add: extract_sni_from_quic_initial_def o1)
qed

definition sample_crypto :: crypto where
  "sample_crypto = \<lparr>md5_of = (\<lambda>_. replicate 16 0), sha1_of = (\<lambda>_. replicate 20 0), sha256_of = (\<lambda>_. replicate 32 0),
     hmac_of = (\<lambda>_ _. replicate 32 0), aes_block = (\<lambda>_ _. replicate 16 0)\<rparr>"

lemma sample_crypto_ok: "crypto_ok sample_crypto"
  by (simp add: crypto_ok_def sample_crypto_def)

theorem quic_never_panics_witness:
  "extract_sni_from_quic_initial sample_crypto 0 ([0xc0, 0, 0, 0, 1, 8] @ replicate 40 0x41) [] \<noteq> None"
  by (rule quic_never_panics [OF sample_crypto_ok])

section \<open>Decryption in two passes\<close>

lemma ctr_blocks_append:
  assumes "length a = 16 * n"
  shows "ctr_blocks cr key ctr (a @ b) = ctr_blocks cr key ctr a @ ctr_blocks cr key (ctr + of_nat n) b"
  using assms
proof (induction n arbitrary: a ctr)
  case (Suc n)
  have d: "length (drop 16 a) = 16 * n" "a \<noteq> []" "16 \<le> length a" using Suc.prems by auto
  have "ctr_blocks cr key ctr (a @ b) = map2 (XOR) (take 16 a) (aes_block cr key (be128_bytes ctr)) @ ctr_blocks cr key (ctr + 1) (drop 16 a @ b)"
    using d by (subst ctr_blocks.simps) simp
  also have "ctr_blocks cr key (ctr + 1) (drop 16 a @ b) = ctr_blocks cr key (ctr + 1) (drop 16 a) @ ctr_blocks cr key (ctr + 1 + of_nat n) b"
    by (rule Suc.IH [OF d(1)])
  also have "map2 (XOR) (take 16 a) (aes_block cr key (be128_bytes ctr)) @ ctr_blocks cr key (ctr + 1) (drop 16 a) @ ctr_blocks cr key (ctr + 1 + of_nat n) b =
      ctr_blocks cr key ctr a @ ctr_blocks cr key (ctr + of_nat (Suc n)) b"
    using d by (subst (3) ctr_blocks.simps) (simp add: ac_simps)
  finally show ?case .
qed (simp add: ctr_blocks.simps)

lemma ctr_blocks_length:
  assumes "crypto_ok cr"
  shows "length (ctr_blocks cr key ctr input) = length input"
  using assms
proof (induction cr key ctr input rule: ctr_blocks.induct)
  case (1 cr key ctr input)
  then show ?case using crypto_lengths(2) [of cr key "be128_bytes ctr"] by (subst ctr_blocks.simps) auto
qed

lemma aes_ctr_resume:
  assumes "crypto_ok cr" "cap \<le> full" "full \<le> length ct" "16 dvd cap \<or> cap = full"
  shows "aes_ctr_extend cr key c (take full ct) (aes_ctr_extend cr key c (take cap ct) []) = aes_ctr_extend cr key c (take full ct) []"
proof -
  have once: "aes_ctr_extend cr key c input [] = ctr_blocks cr key (be128 c) input" for input
    by (simp add: aes_ctr_extend_def)
  have len: "length (ctr_blocks cr key (be128 c) (take cap ct)) = cap"
    using assms(2,3) by (simp add: ctr_blocks_length [OF assms(1)])
  have split: "take full ct = take cap ct @ drop cap (take full ct)" using assms(2) by (metis append_take_drop_id min_absorb1 take_take)
  have again: "aes_ctr_extend cr key c (take full ct) (aes_ctr_extend cr key c (take cap ct) []) =
      ctr_blocks cr key (be128 c) (take cap ct) @ ctr_blocks cr key (be128 c + of_nat (cap div 16)) (drop cap (take full ct))"
    unfolding once using assms(2,3) by (simp add: aes_ctr_extend_def len min_absorb1)
  show ?thesis
  proof (cases "16 dvd cap")
    case True
    then obtain n where n: "cap = 16 * n" by (rule dvdE)
    have "length (take cap ct) = 16 * n" using assms(2,3) n by simp
    from ctr_blocks_append [OF this, of cr key "be128 c" "drop cap (take full ct)"]
    show ?thesis unfolding again unfolding once using split n by simp
  next
    case False
    then show ?thesis unfolding again unfolding once using assms(4) by (simp add: ctr_blocks.simps)
  qed
qed

text \<open>C34: the second, longer pass over an Initial finds what one pass over all of it would: when no server name is
  found, the CRYPTO frames handed on for the next packet are those of the whole plaintext, whenever that has any.\<close>
theorem two_passes_are_one:
  assumes "crypto_ok cr" "opened_scan cr o1 = Some (None, chunks)" "opened_crypto cr o1 = Some whole"
  shows "chunks = Some whole"
proof -
  define ct key c where "ct = op_ciphertext o1" and "key = ik_key (op_keys o1)" and "c = op_counter0 o1"
  define full where "full = min (length ct) max_initial_decrypt"
  define one where "one = aes_ctr_extend cr key c (take (min 512 full) ct) []"
  have two: "aes_ctr_extend cr key c (take full ct) one = aes_ctr_extend cr key c (take full ct) []"
    unfolding one_def by (rule aes_ctr_resume [OF assms(1)]) (auto simp: full_def min_def)
  have w: "crypto_chunks (aes_ctr_extend cr key c (take full ct) []) = Some whole"
    using assms(3) by (simp add: opened_crypto_def Let_def full_def ct_def key_def c_def)
  have run: "scan_passes cr o1 full [512, full] [] None = Some (None, chunks)"
    using assms(2) by (simp add: opened_scan_def Let_def full_def ct_def)
  show ?thesis
  proof (cases "full \<le> 512")
    case True
    then have "min 512 full = full" by simp
    then show ?thesis
      using run w by (auto simp: Let_def ct_def [symmetric] key_def [symmetric] c_def [symmetric] split: bind_splits option.splits)
  next
    case False
    then have cap: "min 512 full = 512" by simp
    show ?thesis
      using run w two False
      by (auto simp: Let_def cap one_def ct_def [symmetric] key_def [symmetric] c_def [symmetric] split: bind_splits option.splits)
  qed
qed

definition sample_opened :: opened where
  "sample_opened = \<lparr>op_dcid = replicate 8 0x41, op_keys = \<lparr>ik_key = replicate 16 0, ik_iv = replicate 12 0, ik_hp = replicate 16 0\<rparr>,
     op_counter0 = replicate 16 0, op_ciphertext = [0, 0x06, 0x00, 0x02, 0x01, 0x07, 0, 0]\<rparr>"

lemma sample_keystream: "ctr_blocks sample_crypto key ctr input = input"
proof (induction "length input" arbitrary: input ctr rule: less_induct)
  case less
  have x: "map2 (XOR) xs (replicate n 0) = xs" if "length xs \<le> n" for xs :: bytes and n
    using that
  proof (induction xs arbitrary: n)
    case (Cons a xs)
    then show ?case by (cases n) auto
  qed simp
  show ?case
  proof (cases "input = []")
    case False
    then have "ctr_blocks sample_crypto key (ctr + 1) (drop 16 input) = drop 16 input" by (intro less) simp
    then show ?thesis using False x [of "take 16 input" 16] by (subst ctr_blocks.simps) (simp add: sample_crypto_def)
  qed (simp add: ctr_blocks.simps)
qed

lemmas frame_reads = crypto_chunks_def frame_walk.simps read_varint_def b_slice_def usize_saturating_add_def usize_max_def
  leading_zeros_def Let_def ack_frame_def

theorem two_passes_are_one_witness:
  "\<exists>chunks. opened_scan sample_crypto sample_opened = Some (None, chunks) \<and> chunks = Some [(0, [1, 7])]"
proof -
  have plain: "aes_ctr_extend sample_crypto key c input [] = input" for key c input
    by (simp add: aes_ctr_extend_def sample_keystream)
  have frames: "crypto_chunks [0, 0x06, 0x00, 0x02, 0x01, 0x07, 0, 0] = Some [(0, [1, 7])]"
    by (simp add: frame_reads)
  have scan: "fst (the (opened_scan sample_crypto sample_opened)) = None" "opened_crypto sample_crypto sample_opened = Some [(0, [1, 7])]"
    by (simp_all add: opened_scan_def opened_crypto_def sample_opened_def plain frames max_initial_decrypt_def contiguous_def
        quic_client_hello_sni_def)
  obtain r where r: "opened_scan sample_crypto sample_opened = Some r" using scan_passes_total unfolding opened_scan_def Let_def by blast
  then have "opened_scan sample_crypto sample_opened = Some (None, snd r)" using scan(1) by (cases r) simp
  from two_passes_are_one [OF sample_crypto_ok this scan(2)] this show ?thesis by blast
qed

section \<open>The bytes up to the first gap\<close>

definition covered :: "chunk_map \<Rightarrow> nat \<Rightarrow> bool" where
  "covered chunks i \<longleftrightarrow> (\<exists>(off, chunk) \<in> set chunks. unat off \<le> i \<and> i < unat off + length chunk)"

definition carries_message :: "(nat \<Rightarrow> u8) \<Rightarrow> chunk_map \<Rightarrow> bool" where
  "carries_message M chunks \<longleftrightarrow> list_all (\<lambda>(off, chunk). chunk = map M [unat off..<unat off + length chunk]) chunks"

lemma covered_simps [simp]:
  "\<not> covered [] i" "covered ((off, chunk) # cs) i \<longleftrightarrow> (unat off \<le> i \<and> i < unat off + length chunk) \<or> covered cs i"
  by (auto simp: covered_def)

lemma join_chunks_spec:
  assumes "sorted (map fst chunks)" "carries_message M chunks" "out = map M [0..<n]"
  shows "\<exists>k. join_chunks out chunks = map M [0..<k] \<and> n \<le> k \<and> (\<forall>i < k. i < n \<or> covered chunks i) \<and> \<not> covered chunks k"
  using assms
proof (induction chunks arbitrary: out n)
  case Nil
  then show ?case by auto
next
  case (Cons e cs)
  obtain off chunk where e: "e = (off, chunk)" by (cases e)
  have chunk: "chunk = map M [unat off..<unat off + length chunk]" and rest: "carries_message M cs" "sorted (map fst cs)"
    using Cons.prems(1,2) by (simp_all add: e carries_message_def)
  have later: "unat off \<le> unat o'" if "(o', c') \<in> set cs" for o' c'
    using Cons.prems(1) that by (auto simp: e word_le_nat_alt image_iff)
  show ?case
  proof (cases "unat off > n")
    case True
    then have "\<not> covered (e # cs) n" using later by (fastforce simp: e covered_def)
    then show ?thesis using True Cons.prems(3) by (intro exI [of _ n]) (simp add: e)
  next
    case False
    define m where "m = max n (unat off + length chunk)"
    have new: "(if n - unat off < length chunk then out @ drop (n - unat off) chunk else out) = map M [0..<m]"
    proof (cases "n - unat off < length chunk")
      case True
      have "drop (n - unat off) chunk = map M [n..<unat off + length chunk]"
        using False True by (subst chunk) (simp add: drop_map)
      then have "out @ drop (n - unat off) chunk = map M ([0..<n] @ [n..<unat off + length chunk])" using Cons.prems(3) by simp
      also have "[0..<n] @ [n..<unat off + length chunk] = [0..<m]"
        using True False upt_add_eq_append [of 0 n "unat off + length chunk - n"] by (simp add: m_def max_def)
      finally show ?thesis using True by simp
    next
      case False
      then have "m = n" using \<open>\<not> n < unat off\<close> by (simp add: m_def)
      then show ?thesis using False Cons.prems(3) by simp
    qed
    obtain k where k: "join_chunks (map M [0..<m]) cs = map M [0..<k]" "m \<le> k" "\<forall>i < k. i < m \<or> covered cs i" "\<not> covered cs k"
      using Cons.IH [OF rest(2,1) refl, of m] by blast
    have "length out = n" using Cons.prems(3) by simp
    then have "join_chunks out (e # cs) = join_chunks (if n - unat off < length chunk then out @ drop (n - unat off) chunk else out) cs"
      using False by (simp add: e Let_def)
    then have "join_chunks out (e # cs) = map M [0..<k]" unfolding new k(1) .
    moreover have "\<forall>i < k. i < n \<or> covered (e # cs) i" using k(3) False by (auto simp: e m_def)
    moreover have "\<not> covered (e # cs) k" using k(2,4) by (simp add: e m_def)
    ultimately show ?thesis using k(2) by (intro exI [of _ k]) (simp add: m_def)
  qed
qed

lemma chunk_insert_keys: "set (chunk_insert k v cs) \<subseteq> insert (k, v) (set cs)"
  by (induction cs) (auto split: if_splits)

lemma chunk_insert_sorted: "sorted (map fst cs) \<Longrightarrow> sorted (map fst (chunk_insert k v cs))"
proof (induction cs)
  case (Cons e cs)
  obtain k' v' where e: "e = (k', v')" by (cases e)
  have "\<forall>x \<in> set (chunk_insert k v cs). fst x = k \<or> x \<in> set cs" using chunk_insert_keys [of k v cs] by auto
  then show ?case using Cons by (auto simp: e)
qed simp

lemma frame_walk_sorted: "frame_walk payload off chunks = Some cs \<Longrightarrow> sorted (map fst chunks) \<Longrightarrow> sorted (map fst cs)"
proof (induction payload off chunks rule: frame_walk.induct)
  case (1 payload off chunks)
  show ?case
  proof (cases "off < length payload \<and> read_varint payload off \<noteq> None")
    case False
    then show ?thesis using 1(5,6) by (cases "read_varint payload off") (auto simp: frame_walk.simps [of payload off chunks] split: if_splits)
  next
    case True
    then obtain ftype nxt where v: "off < length payload" "read_varint payload off = Some (ftype, nxt)" by auto
    consider "ftype = 0" | "ftype = 1" | "ftype = 2 \<or> ftype = 3" | "ftype = 6" | "ftype \<notin> {0, 1, 2, 3, 6}" by blast
    then show ?thesis
    proof cases
      case 1
      then show ?thesis using "1.prems" "1.IH"(1) [OF v(1,2) refl] v by (simp add: frame_walk.simps [of payload off chunks])
    next
      case 2
      then show ?thesis using "1.prems" "1.IH"(2) [OF v(1,2) refl] v by (simp add: frame_walk.simps [of payload off chunks])
    next
      case 3
      then show ?thesis using "1.prems" "1.IH"(3) [OF v(1,2) refl] v
        by (auto simp: frame_walk.simps [of payload off chunks] split: option.splits)
    next
      case 4
      then show ?thesis using "1.prems" "1.IH"(4) [OF v(1,2) refl] v chunk_insert_sorted
        by (auto simp: frame_walk.simps [of payload off chunks] Let_def split: option.splits)
    next
      case 5
      then show ?thesis using "1.prems" v by (simp add: frame_walk.simps [of payload off chunks])
    qed
  qed
qed

text \<open>C35: the bytes joined from the CRYPTO frames are exactly the message from its first byte to the first gap: when
  each frame carries bytes of one message at its offset, whatever the order, overlap or repetition of the frames,
  every joined byte is covered by a frame and the byte after the last one by none.\<close>
theorem contiguous_is_the_message_to_the_first_gap:
  assumes "crypto_chunks payload = Some chunks" "carries_message M chunks"
  shows "\<exists>n. contiguous chunks = map M [0..<n] \<and> (\<forall>i < n. covered chunks i) \<and> \<not> covered chunks n"
proof -
  have "sorted (map fst chunks)" using assms(1) frame_walk_sorted [of payload 0 "[]"] by (auto simp: crypto_chunks_def split: bind_splits if_splits)
  from join_chunks_spec [OF this assms(2), of "[]" 0] show ?thesis by (auto simp: contiguous_def)
qed

definition sample_frames :: bytes where
  "sample_frames = [0x06, 3, 2, 13, 14, 0, 0, 0x01, 0x06, 0, 4, 10, 11, 12, 13, 0x06, 9, 1, 19]"

theorem contiguous_is_the_message_to_the_first_gap_witness:
  "\<exists>n. contiguous [(0, [10, 11, 12, 13]), (3, [13, 14]), (9, [19])] = map (\<lambda>i. of_nat (10 + i)) [0..<n] \<and> \<not> covered [(0, [10, 11, 12, 13]), (3, [13, 14]), (9, [19])] n"
proof -
  let ?c = "[(0, [10, 11, 12, 13]), (3, [13, 14]), (9, [19])] :: chunk_map"
  have "crypto_chunks sample_frames = Some ?c" by (simp add: sample_frames_def frame_reads)
  moreover have "carries_message (\<lambda>i. of_nat (10 + i)) ?c" by (simp add: carries_message_def upt_rec)
  ultimately show ?thesis using contiguous_is_the_message_to_the_first_gap [of sample_frames ?c "\<lambda>i. of_nat (10 + i)"] by blast
qed

end
