(* ===== verification/Meta.thy ===== *)
theory Meta
  imports Names
begin

text \<open>
  \<open>meta.rs\<close>: the window of the condensed observable store, one row per address and per queried name, with the
  direct-mapped array \<open>Recent\<close> in front of the map of addresses. The SQLite file, its writer thread and the queries on it
  are not modelled; a flush is the rows it hands to the writer. \<open>None\<close> is a panic.
\<close>

section \<open>State\<close>

definition flag_dns :: u8 where "flag_dns = 1"
definition scope_local :: u8 where "scope_local = 1"
definition scope_remote :: u8 where "scope_remote = 2"
definition condensed_flush_period :: nat where "condensed_flush_period = 60"
definition condensed_max_window_keys :: nat where "condensed_max_window_keys = 200000"

record meta_row =
  mr_flags :: u8
  mr_first_seen :: nat
  mr_last_seen :: nat
  mr_count :: nat

definition row_new :: "u8 \<Rightarrow> nat \<Rightarrow> meta_row" where
  "row_new flags sec = \<lparr>mr_flags = flags, mr_first_seen = sec, mr_last_seen = sec, mr_count = 1\<rparr>"

definition row_bump :: "nat \<Rightarrow> meta_row \<Rightarrow> meta_row" where
  "row_bump sec row = row\<lparr>mr_last_seen := sec, mr_count := mr_count row + 1\<rparr>"

text \<open>The slots of \<open>Recent\<close>: an address and its position plus one.\<close>

type_synonym recent = "(u32 \<times> u32) list"

definition recent_slots :: nat where "recent_slots = 1024"

definition recent_new :: recent where "recent_new = replicate recent_slots (0, 0)"

definition recent_slot :: "u32 \<Rightarrow> nat" where
  "recent_slot v4 = unat (drop_bit 54 ((ucast v4 :: u64) * 0x9e3779b97f4a7c15))"

definition recent_get :: "u32 \<Rightarrow> recent \<Rightarrow> nat option option" where
  "recent_get v4 r = do {
     (addr, pos) \<leftarrow> b_at r (recent_slot v4);
     Some (if pos \<noteq> 0 \<and> addr = v4 then Some (unat pos - 1) else None)
   }"

definition recent_set :: "u32 \<Rightarrow> nat \<Rightarrow> recent \<Rightarrow> recent option" where
  "recent_set v4 pos r = (if recent_slot v4 < length r then Some (r[recent_slot v4 := (v4, of_nat pos + 1)]) else None)"

record meta_store =
  ms_enabled :: bool
  ms_ips :: "(ip \<times> meta_row) list"
  ms_index :: "(ip, u32) amap"
  ms_recent :: recent
  ms_names :: "(string, meta_row) amap"
  ms_max_window_keys :: nat
  ms_flush_period :: nat
  ms_last_flush :: nat
  ms_saturations :: nat

definition meta_disabled :: meta_store where
  "meta_disabled = \<lparr>ms_enabled = False, ms_ips = [], ms_index = [], ms_recent = recent_new, ms_names = [],
     ms_max_window_keys = condensed_max_window_keys, ms_flush_period = condensed_flush_period, ms_last_flush = 0, ms_saturations = 0\<rparr>"

definition meta_new :: "nat \<Rightarrow> nat \<Rightarrow> meta_store" where
  "meta_new max_window_keys flush_period = meta_disabled\<lparr>ms_enabled := True,
     ms_max_window_keys := (if max_window_keys = 0 then condensed_max_window_keys else max_window_keys),
     ms_flush_period := (if flush_period = 0 then condensed_flush_period else flush_period)\<rparr>"

definition meta_for_config :: "bool \<Rightarrow> meta_store" where
  "meta_for_config use_condensed_storage =
     (if \<not> use_condensed_storage then meta_disabled else meta_new condensed_max_window_keys condensed_flush_period)"

definition meta_pending :: "meta_store \<Rightarrow> nat" where
  "meta_pending ms = length (ms_ips ms) + length (ms_names ms)"

section \<open>Addresses\<close>

fun is_junk_ip :: "ip \<Rightarrow> bool" where
  "is_junk_ip (V4 v) \<longleftrightarrow> v = 0 \<or> v = 0xffffffff \<or> (224 \<le> drop_bit 24 v \<and> drop_bit 24 v \<le> 239)"
| "is_junk_ip (V6 v) \<longleftrightarrow> v = 0 \<or> (ucast (drop_bit 120 v) :: u8) = 0xff"

definition ip_flags :: "ip \<Rightarrow> u8" where
  "ip_flags ip =
     (let local = (case ip of
            V4 v \<Rightarrow> is_local ip
          | V6 v \<Rightarrow> (let s = ip_render ip in s = ''::1'' \<or> take 2 s \<in> {''fe'', ''fc'', ''fd''}))
      in push_bit 1 (if local then scope_local else scope_remote))"

definition bump_at :: "nat \<Rightarrow> nat \<Rightarrow> meta_store \<Rightarrow> meta_store option" where
  "bump_at pos sec ms = do {
     (ip, row) \<leftarrow> b_at (ms_ips ms) pos;
     Some (ms\<lparr>ms_ips := (ms_ips ms)[pos := (ip, row_bump sec row)]\<rparr>)
   }"

text \<open>The position of the address, a new one if it is new; nothing when it is not to have a row.\<close>

definition meta_locate :: "ip \<Rightarrow> nat \<Rightarrow> meta_store \<Rightarrow> (nat option \<times> meta_store) option" where
  "meta_locate ip sec ms =
     (case map_of (ms_index ms) ip of
        Some pos \<Rightarrow> map_option (Pair (Some (unat pos))) (bump_at (unat pos) sec ms)
      | None \<Rightarrow>
          if is_junk_ip ip then Some (None, ms)
          else if meta_pending ms \<ge> ms_max_window_keys ms then Some (None, ms\<lparr>ms_saturations := ms_saturations ms + 1\<rparr>)
          else Some (Some (length (ms_ips ms)), ms\<lparr>ms_ips := ms_ips ms @ [(ip, row_new (ip_flags ip) sec)],
            ms_index := AList.update ip (of_nat (length (ms_ips ms))) (ms_index ms)\<rparr>))"

definition observe_ip_slow :: "ip \<Rightarrow> nat \<Rightarrow> meta_store \<Rightarrow> meta_store option" where
  "observe_ip_slow ip sec ms = do {
     (found, ms) \<leftarrow> meta_locate ip sec ms;
     (case (found, ip) of
        (Some pos, V4 v4) \<Rightarrow> map_option (\<lambda>r. ms\<lparr>ms_recent := r\<rparr>) (recent_set v4 pos (ms_recent ms))
      | _ \<Rightarrow> Some ms)
   }"

definition observe_ip :: "ip \<Rightarrow> nat \<Rightarrow> meta_store \<Rightarrow> meta_store option" where
  "observe_ip ip sec ms =
     (case ip of
        V4 v4 \<Rightarrow> do {
          found \<leftarrow> recent_get v4 (ms_recent ms);
          (case found of Some pos \<Rightarrow> bump_at pos sec ms | None \<Rightarrow> observe_ip_slow ip sec ms)
        }
      | V6 v \<Rightarrow> observe_ip_slow ip sec ms)"

definition observe_conn :: "ip \<Rightarrow> ip \<Rightarrow> nat \<Rightarrow> meta_store \<Rightarrow> meta_store option" where
  "observe_conn src dst sec ms =
     (if \<not> ms_enabled ms then Some ms
      else do { ms \<leftarrow> observe_ip dst sec ms; observe_ip src sec ms })"

section \<open>Names and flushes\<close>

definition observe_dns :: "string \<Rightarrow> nat \<Rightarrow> meta_store \<Rightarrow> meta_store" where
  "observe_dns name sec ms =
     (if \<not> ms_enabled ms \<or> name = [] then ms
      else (case map_of (ms_names ms) name of
          Some row \<Rightarrow> ms\<lparr>ms_names := AList.update name (row_bump sec row) (ms_names ms)\<rparr>
        | None \<Rightarrow>
            if meta_pending ms \<ge> ms_max_window_keys ms then ms\<lparr>ms_saturations := ms_saturations ms + 1\<rparr>
            else ms\<lparr>ms_names := AList.update name (row_new flag_dns sec) (ms_names ms)\<rparr>))"

definition take_ips :: "meta_store \<Rightarrow> (ip \<times> meta_row) list \<times> meta_store" where
  "take_ips ms = (ms_ips ms, ms\<lparr>ms_index := [], ms_recent := recent_new, ms_ips := []\<rparr>)"

text \<open>A job of the writer; whether its queue takes one is the parameter \<open>sent\<close>.\<close>

type_synonym flush_job = "(ip \<times> meta_row) list \<times> (string, meta_row) amap"

definition flush_async :: "bool \<Rightarrow> meta_store \<Rightarrow> flush_job option \<times> meta_store" where
  "flush_async sent ms =
     (if \<not> ms_enabled ms \<or> meta_pending ms = 0 then (None, ms)
      else (let (ips, ms) = take_ips ms;
                names = ms_names ms;
                ms = ms\<lparr>ms_names := []\<rparr>;
                rows = length ips + length names
            in if sent then (Some (ips, names), ms) else (None, ms\<lparr>ms_saturations := ms_saturations ms + rows\<rparr>)))"

definition maybe_flush :: "bool \<Rightarrow> nat \<Rightarrow> meta_store \<Rightarrow> flush_job option \<times> meta_store" where
  "maybe_flush sent now ms =
     (if \<not> ms_enabled ms \<or> meta_pending ms = 0 then (None, ms)
      else if ms_last_flush ms = 0 then (None, ms\<lparr>ms_last_flush := now\<rparr>)
      else if now - ms_last_flush ms < ms_flush_period ms then (None, ms)
      else flush_async sent (ms\<lparr>ms_last_flush := now\<rparr>))"

section \<open>The window is a map\<close>

definition position_of :: "(ip \<times> meta_row) list \<Rightarrow> ip \<Rightarrow> nat \<Rightarrow> bool" where
  "position_of ips ip i \<longleftrightarrow> i < length ips \<and> fst (ips ! i) = ip"

definition recent_ok :: "(ip \<times> meta_row) list \<Rightarrow> recent \<Rightarrow> bool" where
  "recent_ok ips recent \<longleftrightarrow> length recent = recent_slots \<and>
     (\<forall>(addr, pos)\<in>set recent. pos \<noteq> 0 \<longrightarrow> position_of ips (V4 addr) (unat pos - 1))"

definition index_ok :: "(ip \<times> meta_row) list \<Rightarrow> (ip, u32) amap \<Rightarrow> bool" where
  "index_ok ips index \<longleftrightarrow> distinct (map fst ips) \<and>
     (\<forall>ip i. map_of index ip = Some i \<longrightarrow> position_of ips ip (unat i)) \<and>
     (\<forall>ip. map_of index ip = None \<longrightarrow> ip \<notin> fst ` set ips)"

definition meta_ok :: "meta_store \<Rightarrow> bool" where
  "meta_ok ms \<longleftrightarrow> index_ok (ms_ips ms) (ms_index ms) \<and> recent_ok (ms_ips ms) (ms_recent ms) \<and> distinct (map fst (ms_names ms)) \<and>
     length (ms_ips ms) + length (ms_names ms) \<le> ms_max_window_keys ms \<and> ms_max_window_keys ms < 2 ^ 32 - 1"

text \<open>The rows of the window as maps, and the same operation on them.\<close>

definition ip_rows :: "meta_store \<Rightarrow> ip \<rightharpoonup> meta_row" where
  "ip_rows ms = map_of (ms_ips ms)"

definition window_full :: "meta_store \<Rightarrow> bool" where
  "window_full ms \<longleftrightarrow> meta_pending ms \<ge> ms_max_window_keys ms"

definition observed :: "bool \<Rightarrow> ip \<Rightarrow> nat \<Rightarrow> (ip \<rightharpoonup> meta_row) \<Rightarrow> (ip \<rightharpoonup> meta_row)" where
  "observed full ip sec rows =
     (case rows ip of
        Some row \<Rightarrow> rows(ip \<mapsto> row_bump sec row)
      | None \<Rightarrow> if is_junk_ip ip \<or> full then rows else rows(ip \<mapsto> row_new (ip_flags ip) sec))"

definition name_observed :: "bool \<Rightarrow> string \<Rightarrow> nat \<Rightarrow> (string \<rightharpoonup> meta_row) \<Rightarrow> (string \<rightharpoonup> meta_row)" where
  "name_observed full name sec names =
     (case names name of
        Some row \<Rightarrow> names(name \<mapsto> row_bump sec row)
      | None \<Rightarrow> if full then names else names(name \<mapsto> row_new flag_dns sec))"

datatype observation = Conn ip ip nat | Queried string nat

fun record_all :: "observation list \<Rightarrow> meta_store \<Rightarrow> meta_store option" where
  "record_all [] ms = Some ms"
| "record_all (Conn src dst sec # obs) ms = Option.bind (observe_conn src dst sec ms) (record_all obs)"
| "record_all (Queried name sec # obs) ms = record_all obs (observe_dns name sec ms)"

definition ref_full :: "nat \<Rightarrow> (ip \<rightharpoonup> meta_row) \<times> (string \<rightharpoonup> meta_row) \<Rightarrow> bool" where
  "ref_full cap w \<longleftrightarrow> cap \<le> card (dom (fst w)) + card (dom (snd w))"

fun ref_step :: "nat \<Rightarrow> observation \<Rightarrow> (ip \<rightharpoonup> meta_row) \<times> (string \<rightharpoonup> meta_row) \<Rightarrow>
    (ip \<rightharpoonup> meta_row) \<times> (string \<rightharpoonup> meta_row)" where
  "ref_step cap (Conn src dst sec) (rows, names) =
     (let rows' = observed (ref_full cap (rows, names)) dst sec rows
      in (observed (ref_full cap (rows', names)) src sec rows', names))"
| "ref_step cap (Queried name sec) (rows, names) =
     (rows, if name = [] then names else name_observed (ref_full cap (rows, names)) name sec names)"

lemma recent_slot_in: "recent_slot v4 < recent_slots"
proof -
  have small: "drop_bit 54 (unat (x :: u64)) < 1024" for x
    using unsigned_less [of x, where ?'a = nat] by (simp add: drop_bit_eq_div less_mult_imp_div_less)
  show ?thesis
    unfolding recent_slot_def recent_slots_def unat_drop_bit_eq by (rule small)
qed

lemma map_of_update_at:
  "\<lbrakk>distinct (map fst xs); i < length xs\<rbrakk> \<Longrightarrow> map_of (xs[i := (fst (xs ! i), v)]) = (map_of xs)(fst (xs ! i) \<mapsto> v)"
proof (induction xs arbitrary: i)
  case (Cons x xs)
  then show ?case
    by (cases i) (auto simp: fun_eq_iff, metis image_eqI nth_mem)
qed simp

lemma keys_update_at: "i < length xs \<Longrightarrow> map fst (xs[i := (fst (xs ! i), v)]) = map fst xs"
  by (simp add: map_update list_update_same_conv)

lemma update_at_position:
  "\<lbrakk>i < length xs; j < length xs\<rbrakk> \<Longrightarrow> fst (xs[i := (fst (xs ! i), v)] ! j) = fst (xs ! j)"
  by (cases "i = j") simp_all

lemma positions_kept:
  assumes same: "\<And>a i. position_of ips a i \<Longrightarrow> position_of ips' a i" and recent: "recent_ok ips recent"
  shows "recent_ok ips' recent"
  using recent same by (auto simp: recent_ok_def)

text \<open>A row that is there is bumped in place.\<close>

lemma bump_ok:
  assumes ok: "meta_ok ms" and pos: "position_of (ms_ips ms) ip i"
  obtains ms' where "bump_at i sec ms = Some ms'" "meta_ok ms'"
    "ip_rows ms' = observed (window_full ms) ip sec (ip_rows ms)" "position_of (ms_ips ms') ip i"
proof -
  let ?r = "snd (ms_ips ms ! i)"
  let ?ips = "(ms_ips ms)[i := (fst (ms_ips ms ! i), row_bump sec ?r)]"
  have i: "i < length (ms_ips ms)" and ip: "fst (ms_ips ms ! i) = ip" using pos by (auto simp: position_of_def)
  have d: "distinct (map fst (ms_ips ms))" using ok by (simp add: meta_ok_def index_ok_def)
  have same: "position_of ?ips a j = position_of (ms_ips ms) a j" for a j
    using i by (auto simp: position_of_def update_at_position)
  have keys: "map fst ?ips = map fst (ms_ips ms)" using i by (simp only: keys_update_at)
  then have "fst ` set ?ips = fst ` set (ms_ips ms)" by (metis set_map)
  then have "index_ok ?ips (ms_index ms)" using ok unfolding meta_ok_def index_ok_def same keys by simp
  moreover have "recent_ok ?ips (ms_recent ms)" using ok same by (simp add: meta_ok_def recent_ok_def)
  ultimately have "meta_ok (ms\<lparr>ms_ips := ?ips\<rparr>)" using ok by (simp add: meta_ok_def)
  moreover have "bump_at i sec ms = Some (ms\<lparr>ms_ips := ?ips\<rparr>)" using i by (simp add: bump_at_def b_at_def split_beta)
  moreover have row: "map_of (ms_ips ms) ip = Some ?r"
    using d i ip by (metis map_of_eq_Some_iff nth_mem prod.collapse)
  have "map_of ?ips = observed (window_full ms) ip sec (map_of (ms_ips ms))"
    using map_of_update_at [OF d i, of "row_bump sec ?r"] row by (simp add: observed_def ip)
  ultimately show thesis using that [of "ms\<lparr>ms_ips := ?ips\<rparr>"] same pos by (simp add: ip_rows_def)
qed

text \<open>A new row goes to the end.\<close>

lemma append_ok:
  assumes ok: "meta_ok ms" and fresh: "map_of (ms_index ms) ip = None" and room: "\<not> window_full ms"
  shows "meta_ok (ms\<lparr>ms_ips := ms_ips ms @ [(ip, row)], ms_index := AList.update ip (of_nat (length (ms_ips ms))) (ms_index ms)\<rparr>)"
proof -
  let ?ips = "ms_ips ms @ [(ip, row)]" and ?index = "AList.update ip (of_nat (length (ms_ips ms))) (ms_index ms)"
  have small: "length (ms_ips ms) < 2 ^ 32 - 1"
    using ok room by (simp add: meta_ok_def window_full_def meta_pending_def)
  then have n: "unat (of_nat (length (ms_ips ms)) :: u32) = length (ms_ips ms)"
    by (simp add: unat_of_nat)
  have grows: "position_of (ms_ips ms) a i \<Longrightarrow> position_of ?ips a i" for a i
    by (auto simp: position_of_def nth_append)
  have at_end: "position_of ?ips ip (length (ms_ips ms))" by (simp add: position_of_def)
  have index: "index_ok (ms_ips ms) (ms_index ms)" using ok by (simp add: meta_ok_def)
  have "map_of ?index a = Some i \<Longrightarrow> position_of ?ips a (unat i)" for a i
    using index grows at_end n by (cases "a = ip") (auto simp: index_ok_def update_conv)
  moreover have "map_of ?index a = None \<Longrightarrow> a \<notin> fst ` set ?ips" for a
    using index by (cases "a = ip") (auto simp: index_ok_def update_conv)
  ultimately have "index_ok ?ips ?index" using index fresh by (auto simp: index_ok_def)
  then show ?thesis
    using ok room positions_kept [OF grows] by (simp add: meta_ok_def window_full_def meta_pending_def)
qed

lemma saturated_ok: "meta_ok ms \<Longrightarrow> meta_ok (ms\<lparr>ms_saturations := n\<rparr>)"
  by (simp add: meta_ok_def)

lemma locate_ok:
  assumes "meta_ok ms"
  obtains found ms' where "meta_locate ip sec ms = Some (found, ms')" "meta_ok ms'"
    "ip_rows ms' = observed (window_full ms) ip sec (ip_rows ms)" "\<forall>i. found = Some i \<longrightarrow> position_of (ms_ips ms') ip i"
proof (cases "map_of (ms_index ms) ip")
  case (Some i)
  then have "position_of (ms_ips ms) ip (unat i)" using assms by (simp add: meta_ok_def index_ok_def)
  from bump_ok [OF assms this, of sec] obtain ms' where "bump_at (unat i) sec ms = Some ms'" "meta_ok ms'"
    "ip_rows ms' = observed (window_full ms) ip sec (ip_rows ms)" "position_of (ms_ips ms') ip (unat i)" by metis
  then show thesis by (intro that [of "Some (unat i)" ms']) (simp_all add: meta_locate_def Some)
next
  case None
  then have none: "map_of (ms_ips ms) ip = None"
    using assms by (simp add: map_of_eq_None_iff meta_ok_def index_ok_def)
  show thesis
  proof (cases "is_junk_ip ip \<or> window_full ms")
    case True
    let ?ms = "if is_junk_ip ip then ms else ms\<lparr>ms_saturations := ms_saturations ms + 1\<rparr>"
    have "meta_locate ip sec ms = Some (None, ?ms)"
      using None True by (auto simp: meta_locate_def window_full_def)
    moreover have "meta_ok ?ms" using assms saturated_ok by simp
    moreover have "ip_rows ?ms = observed (window_full ms) ip sec (ip_rows ms)"
      using none True by (auto simp: observed_def ip_rows_def)
    ultimately show thesis using that by blast
  next
    case False
    then have room: "\<not> window_full ms" by simp
    let ?ms = "ms\<lparr>ms_ips := ms_ips ms @ [(ip, row_new (ip_flags ip) sec)],
      ms_index := AList.update ip (of_nat (length (ms_ips ms))) (ms_index ms)\<rparr>"
    have "meta_locate ip sec ms = Some (Some (length (ms_ips ms)), ?ms)"
      using None False by (simp add: meta_locate_def window_full_def)
    moreover have "position_of (ms_ips ?ms) ip (length (ms_ips ms))" by (simp add: position_of_def)
    moreover note append_ok [OF assms None room, of "row_new (ip_flags ip) sec"]
    moreover have "ip_rows ?ms = observed (window_full ms) ip sec (ip_rows ms)"
      using none False by (auto simp: observed_def ip_rows_def map_add_def fun_eq_iff split: option.splits)
    ultimately show thesis using that by blast
  qed
qed

lemma recent_set_ok:
  assumes "meta_ok ms" and pos: "position_of (ms_ips ms) (V4 v4) i"
  obtains r where "recent_set v4 i (ms_recent ms) = Some r" "meta_ok (ms\<lparr>ms_recent := r\<rparr>)"
proof -
  let ?r = "(ms_recent ms)[recent_slot v4 := (v4, of_nat i + 1)]"
  have ok: "recent_ok (ms_ips ms) (ms_recent ms)" using assms by (simp add: meta_ok_def)
  have "i + 1 < 2 ^ 32" using assms by (auto simp: meta_ok_def position_of_def)
  then have "unat (of_nat (i + 1) :: u32) = i + 1" unfolding unat_of_nat by simp
  then have n: "unat (of_nat i + 1 :: u32) = i + 1" by (simp only: of_nat_add of_nat_1)
  have "set ?r \<subseteq> insert (v4, of_nat i + 1) (set (ms_recent ms))" by (rule set_update_subset_insert)
  moreover have "snd e \<noteq> 0 \<longrightarrow> position_of (ms_ips ms) (V4 (fst e)) (unat (snd e) - 1)" if "e \<in> set (ms_recent ms)" for e
    using ok that by (auto simp: recent_ok_def)
  ultimately have "snd e \<noteq> 0 \<longrightarrow> position_of (ms_ips ms) (V4 (fst e)) (unat (snd e) - 1)" if "e \<in> set ?r" for e
    using that pos n by (cases "e = (v4, of_nat i + 1)") auto
  then have "recent_ok (ms_ips ms) ?r" using ok by (auto simp: recent_ok_def)
  then have "meta_ok (ms\<lparr>ms_recent := ?r\<rparr>)" using assms(1) by (simp add: meta_ok_def)
  moreover have "recent_slot v4 < length (ms_recent ms)" using ok recent_slot_in by (simp add: recent_ok_def)
  ultimately show thesis using that by (simp add: recent_set_def)
qed

lemma observe_ip_slow_ok:
  assumes "meta_ok ms"
  obtains ms' where "observe_ip_slow ip sec ms = Some ms'" "meta_ok ms'"
    "ip_rows ms' = observed (window_full ms) ip sec (ip_rows ms)"
proof -
  obtain found ms' where located: "meta_locate ip sec ms = Some (found, ms')" "meta_ok ms'"
      "ip_rows ms' = observed (window_full ms) ip sec (ip_rows ms)" "\<forall>i. found = Some i \<longrightarrow> position_of (ms_ips ms') ip i"
    using locate_ok [OF assms] by metis
  show thesis
  proof (cases "\<exists>i v4. found = Some i \<and> ip = V4 v4")
    case True
    then obtain i v4 where found: "found = Some i" and ip: "ip = V4 v4" by blast
    obtain r where "recent_set v4 i (ms_recent ms') = Some r" "meta_ok (ms'\<lparr>ms_recent := r\<rparr>)"
      using recent_set_ok located found ip by metis
    then show thesis
      using located found ip by (intro that [of "ms'\<lparr>ms_recent := r\<rparr>"]) (simp_all add: observe_ip_slow_def ip_rows_def)
  next
    case False
    then have "observe_ip_slow ip sec ms = Some ms'"
      using located by (auto simp: observe_ip_slow_def split: option.splits ip.splits)
    then show thesis using located that by blast
  qed
qed

text \<open>An address whose slot holds it is found without the map, and is there.\<close>

lemma recent_get_ok:
  assumes "meta_ok ms"
  obtains found where "recent_get v4 (ms_recent ms) = Some found" "\<forall>i. found = Some i \<longrightarrow> position_of (ms_ips ms) (V4 v4) i"
proof -
  have n: "recent_slot v4 < length (ms_recent ms)" using assms recent_slot_in by (simp add: meta_ok_def recent_ok_def)
  obtain addr pos where slot: "ms_recent ms ! recent_slot v4 = (addr, pos)" by force
  then have "(addr, pos) \<in> set (ms_recent ms)" using n nth_mem by metis
  then have "pos \<noteq> 0 \<longrightarrow> position_of (ms_ips ms) (V4 addr) (unat pos - 1)" using assms by (auto simp: meta_ok_def recent_ok_def)
  then show thesis
    using n slot by (intro that [of "if pos \<noteq> 0 \<and> addr = v4 then Some (unat pos - 1) else None"])
      (auto simp: recent_get_def b_at_def)
qed

lemma observe_ip_ok:
  assumes "meta_ok ms"
  obtains ms' where "observe_ip ip sec ms = Some ms'" "meta_ok ms'"
    "ip_rows ms' = observed (window_full ms) ip sec (ip_rows ms)"
proof (cases ip)
  case (V4 v4)
  obtain found where get: "recent_get v4 (ms_recent ms) = Some found" "\<forall>i. found = Some i \<longrightarrow> position_of (ms_ips ms) (V4 v4) i"
    using recent_get_ok [OF assms] by metis
  show thesis
  proof (cases found)
    case None
    then show thesis using observe_ip_slow_ok [OF assms, of ip sec] get that V4 by (auto simp: observe_ip_def)
  next
    case (Some i)
    then have "position_of (ms_ips ms) ip i" using get V4 by simp
    from bump_ok [OF assms this, of sec] show thesis using get that V4 Some by (auto simp: observe_ip_def)
  qed
next
  case (V6 v)
  then show thesis using observe_ip_slow_ok [OF assms, of ip sec] that by (auto simp: observe_ip_def)
qed

lemma observe_conn_ok:
  assumes "meta_ok ms"
  obtains ms' where "observe_conn src dst sec ms = Some ms'" "meta_ok ms'"
proof -
  obtain m1 where 1: "observe_ip dst sec ms = Some m1" "meta_ok m1" using observe_ip_ok [OF assms] by metis
  obtain m2 where 2: "observe_ip src sec m1 = Some m2" "meta_ok m2" using observe_ip_ok [OF 1(2)] by metis
  show thesis using that [of "if ms_enabled ms then m2 else ms"] assms 1 2 by (simp add: observe_conn_def)
qed

lemma observe_dns_ok: "meta_ok ms \<Longrightarrow> meta_ok (observe_dns name sec ms)"
proof -
  assume ok: "meta_ok ms"
  have kept: "meta_ok (ms\<lparr>ms_names := AList.update name row (ms_names ms)\<rparr>)"
    if "map_of (ms_names ms) name \<noteq> None \<or> \<not> window_full ms" for row
    using ok that by (auto simp: meta_ok_def window_full_def meta_pending_def amap_len_update distinct_update)
  show ?thesis
    using kept ok saturated_ok by (auto simp: observe_dns_def window_full_def split: option.split)
qed

lemma observe_dns_names:
  assumes "meta_ok ms" and "ms_enabled ms"
  shows "map_of (ms_names (observe_dns name sec ms)) =
    (if name = [] then map_of (ms_names ms) else name_observed (window_full ms) name sec (map_of (ms_names ms)))"
  using assms by (auto simp: observe_dns_def name_observed_def window_full_def update_conv' split: option.split)

lemma observed_settings:
  assumes "meta_locate ip sec ms = Some (found, ms')"
  shows "ms_names ms' = ms_names ms \<and> ms_enabled ms' = ms_enabled ms \<and> ms_max_window_keys ms' = ms_max_window_keys ms"
  using assms by (auto simp: meta_locate_def bump_at_def split: option.splits if_splits bind_splits)

lemma observe_ip_settings:
  assumes "observe_ip ip sec ms = Some ms'"
  shows "ms_names ms' = ms_names ms \<and> ms_enabled ms' = ms_enabled ms \<and> ms_max_window_keys ms' = ms_max_window_keys ms"
  using assms by (auto simp: observe_ip_def observe_ip_slow_def bump_at_def recent_set_def dest!: observed_settings
      split: option.splits if_splits bind_splits ip.splits)

lemma window_full_card:
  assumes "meta_ok ms"
  shows "window_full ms \<longleftrightarrow> ref_full (ms_max_window_keys ms) (ip_rows ms, map_of (ms_names ms))"
  using assms by (simp add: window_full_def meta_pending_def ref_full_def ip_rows_def dom_map_of_conv_image_fst
      meta_ok_def index_ok_def flip: distinct_card) (simp add: distinct_card flip: set_map)

lemma observe_conn_rows:
  assumes ok: "meta_ok ms" and on: "ms_enabled ms"
  obtains ms' where "observe_conn src dst sec ms = Some ms'" "meta_ok ms'" "ms_enabled ms'"
    "ms_max_window_keys ms' = ms_max_window_keys ms"
    "(ip_rows ms', map_of (ms_names ms')) = ref_step (ms_max_window_keys ms) (Conn src dst sec) (ip_rows ms, map_of (ms_names ms))"
proof -
  obtain m1 where 1: "observe_ip dst sec ms = Some m1" "meta_ok m1" "ip_rows m1 = observed (window_full ms) dst sec (ip_rows ms)"
    using observe_ip_ok [OF ok] by metis
  obtain m2 where 2: "observe_ip src sec m1 = Some m2" "meta_ok m2" "ip_rows m2 = observed (window_full m1) src sec (ip_rows m1)"
    using observe_ip_ok [OF 1(2)] by metis
  note observe_ip_settings [OF 1(1)] observe_ip_settings [OF 2(1)]
  then show thesis
    using 1 2 on window_full_card [OF ok] window_full_card [OF 1(2)]
    by (intro that [of m2]) (simp_all add: observe_conn_def Let_def)
qed

lemma record_all_rows:
  assumes "meta_ok ms" and "ms_enabled ms"
  shows "\<exists>ms'. record_all obs ms = Some ms' \<and> meta_ok ms' \<and>
    (ip_rows ms', map_of (ms_names ms')) = fold (ref_step (ms_max_window_keys ms)) obs (ip_rows ms, map_of (ms_names ms))"
  using assms
proof (induction obs arbitrary: ms)
  case (Cons a obs)
  show ?case
  proof (cases a)
    case (Conn src dst sec)
    obtain m where m: "observe_conn src dst sec ms = Some m" "meta_ok m" "ms_enabled m"
        "ms_max_window_keys m = ms_max_window_keys ms"
        "(ip_rows m, map_of (ms_names m)) = ref_step (ms_max_window_keys ms) (Conn src dst sec) (ip_rows ms, map_of (ms_names ms))"
      using observe_conn_rows [OF Cons.prems] by metis
    then show ?thesis using Cons.IH [OF m(2,3)] Conn by (simp del: ref_step.simps)
  next
    case (Queried name sec)
    let ?m = "observe_dns name sec ms"
    have "ms_enabled ?m" "ms_max_window_keys ?m = ms_max_window_keys ms" "ip_rows ?m = ip_rows ms"
      using Cons.prems by (auto simp: observe_dns_def ip_rows_def split: option.split)
    then show ?thesis
      using Cons.IH [OF observe_dns_ok [OF Cons.prems(1)], of name sec] Queried Cons.prems
        observe_dns_names [OF Cons.prems, of name sec] window_full_card [OF Cons.prems(1)] by (cases "name = []") simp_all
  qed
qed simp

lemma meta_new_ok: "n < 2 ^ 32 - 1 \<Longrightarrow> meta_ok (meta_new n p)"
  by (auto simp: meta_ok_def index_ok_def recent_ok_def meta_new_def meta_disabled_def recent_new_def condensed_max_window_keys_def)

lemma meta_for_config_ok: "meta_ok (meta_for_config on)"
  by (auto simp: meta_ok_def index_ok_def recent_ok_def meta_for_config_def meta_new_def meta_disabled_def recent_new_def
      condensed_max_window_keys_def)

text \<open>C7: The condensed window is a map. Whatever connections and queried names are recorded, no step panics and the rows are
  those of plain maps, one from addresses and one from names, updated in the same order: a known key is bumped, a new one gets a
  row while the keys of both together are below the cap, and the position array in front of the index changes nothing.\<close>

theorem condensed_window_is_a_map:
  assumes "max_window_keys < 2 ^ 32 - 1"
  shows "\<exists>ms. record_all obs (meta_new max_window_keys flush_period) = Some ms \<and>
    (map_of (ms_ips ms), map_of (ms_names ms)) =
      fold (ref_step (if max_window_keys = 0 then condensed_max_window_keys else max_window_keys)) obs (Map.empty, Map.empty)"
  using record_all_rows [OF meta_new_ok [OF assms], of flush_period obs]
  by (auto simp: meta_new_def meta_disabled_def ip_rows_def)

theorem condensed_window_is_a_map_witness:
  "\<exists>ms. record_all [Conn (V4 1) (V4 2) 5, Queried ''a.b'' 6, Conn (V4 1) (V4 1025) 7] (meta_new 3 60) = Some ms \<and>
    (map_of (ms_ips ms), map_of (ms_names ms)) =
      fold (ref_step 3) [Conn (V4 1) (V4 2) 5, Queried ''a.b'' 6, Conn (V4 1) (V4 1025) 7] (Map.empty, Map.empty)"
  using condensed_window_is_a_map [of 3 "[Conn (V4 1) (V4 2) 5, Queried ''a.b'' 6, Conn (V4 1) (V4 1025) 7]" 60]
  by (simp del: fold_simps)

end
