(* ===== verification/Worker.thy ===== *)
theory Worker
  imports Trails Lru Whitelist Scan Beacon Dnsheur Nxdomain Event Helloshape Tunnel Dns Quic Meta
begin

text \<open>
  The state of one worker (\<open>state.rs\<close>), the options of \<open>config.rs\<close> its packet path reads, and the
  emission of events (\<open>process.rs\<close>). Events are appended to the list \<open>ws_sink\<close>, which stands for
  \<open>EventSink::log_event\<close>. What the path calls and is not modelled is gathered in the record \<open>outside\<close>:
  Unicode lower-casing, the compiled wildcard expression of the trails, and the random process seed of the
  hashers. The buffers and memos the TLS and QUIC parsers keep in the worker's thread are the fields
  \<open>ws_tls\<close> and \<open>ws_quic\<close>.
\<close>

section \<open>State\<close>

record config =
  use_heuristics :: bool
  check_tls_sni :: bool
  check_tls_fingerprints :: bool
  check_host_domains :: bool
  check_missing_host :: bool
  domain_cache_entries :: nat
  scan_window_cfg :: nat
  disabled_heuristics :: "string list"
  use_condensed_storage :: bool

definition heuristic_enabled :: "string \<Rightarrow> config \<Rightarrow> bool" where
  "heuristic_enabled name cfg = (\<not> list_ex (\<lambda>d. d = name) (disabled_heuristics cfg))"

record metrics =
  m_packets_processed :: nat
  m_packets_ignored :: nat
  m_packets_truncated :: nat
  m_packets_fragment :: nat
  m_packets_decapsulated :: nat
  m_handshakes_reassembled :: nat
  m_events :: nat
  m_trail_lookups :: nat
  m_cache_hits :: nat
  m_cache_misses :: nat

definition metrics_default :: metrics where
  "metrics_default = \<lparr>m_packets_processed = 0, m_packets_ignored = 0, m_packets_truncated = 0, m_packets_fragment = 0,
     m_packets_decapsulated = 0, m_handshakes_reassembled = 0, m_events = 0, m_trail_lookups = 0, m_cache_hits = 0, m_cache_misses = 0\<rparr>"

record flow_stamp =
  fs_sec :: nat
  fs_src :: ip
  fs_src_port :: u16
  fs_dst :: ip
  fs_dst_port :: u16

record endpoints =
  ep_src :: ip
  ep_src_port :: u16
  ep_dst :: ip
  ep_dst_port :: u16

record 'r worker_state =
  ws_cfg :: config
  ws_whitelist :: whitelist
  ws_trails :: "'r trail_db"
  ws_sink :: "event list"
  ws_metrics :: metrics
  ws_last_syn :: "flow_stamp option"
  ws_last_logged_syn :: "flow_stamp option"
  ws_last_udp :: "flow_stamp option"
  ws_last_udp_payload :: u64
  ws_last_logged_udp :: "flow_stamp option"
  ws_domain_clean :: "(string, unit) lru"
  ws_domain_whitelisted :: "(string, u32) lru"
  ws_user_agent :: "(string, string option) lru"
  ws_path_findings :: "(string, string) lru"
  ws_post_findings :: "(string, string) lru"
  ws_dga_findings :: "(string, string option) lru"
  ws_local_prefix_cache :: "string option"
  ws_connect_sec :: nat
  ws_last_sec :: nat
  ws_scan :: scan_state
  ws_dns_exhaustion :: dns_exhaustion
  ws_dns_tunneling :: dns_tunneling
  ws_nxdomain :: nx_counters
  ws_beacon :: beacon_tracker
  ws_hello :: assembler
  ws_tls :: "scratch \<times> (string, string) amap"
  ws_quic :: key_memo
  ws_meta :: meta_store

record 'r outside =
  lower_unicode :: "string \<Rightarrow> string"
  wild_empty :: "'r \<Rightarrow> bool"
  wild_find :: "'r \<Rightarrow> string \<Rightarrow> (nat \<times> nat \<times> string) option"
  hash_seed :: u64

definition max_cache_entries :: nat where "max_cache_entries = 1000"
definition domain_admission :: nat where "domain_admission = 4096"

definition worker_new :: "config \<Rightarrow> scan_state \<Rightarrow> whitelist \<Rightarrow> 'r trail_db \<Rightarrow> 'r worker_state" where
  "worker_new cfg scan wl trails =
     \<lparr>ws_cfg = cfg, ws_whitelist = wl, ws_trails = trails, ws_sink = [], ws_metrics = metrics_default,
      ws_last_syn = None, ws_last_logged_syn = None, ws_last_udp = None, ws_last_udp_payload = 0, ws_last_logged_udp = None,
      ws_domain_clean = with_admission_filter domain_admission (lru_new (domain_cache_entries cfg)),
      ws_domain_whitelisted = with_admission_filter domain_admission (lru_new (domain_cache_entries cfg)),
      ws_user_agent = lru_new max_cache_entries, ws_path_findings = lru_new max_cache_entries,
      ws_post_findings = lru_new max_cache_entries, ws_dga_findings = lru_new max_cache_entries,
      ws_local_prefix_cache = None, ws_connect_sec = 0, ws_last_sec = 0, ws_scan = scan,
      ws_dns_exhaustion = de_default, ws_dns_tunneling = dt_default, ws_nxdomain = nx_default,
      ws_beacon = bt_default, ws_hello = as_default, ws_tls = (scratch_default, []), ws_quic = [],
      ws_meta = meta_for_config (use_condensed_storage cfg)\<rparr>"

section \<open>Verdicts through the caches\<close>

definition check_domain_whitelist_depth :: "'r outside \<Rightarrow> string \<Rightarrow> 'r worker_state \<Rightarrow> (u32 \<times> 'r worker_state) option" where
  "check_domain_whitelist_depth env query st = do {
     (hit, c) \<leftarrow> lru_get (str_hash (hash_seed env)) query (ws_domain_whitelisted st);
     let st = st\<lparr>ws_domain_whitelisted := c\<rparr>;
     (case hit of
        Some v \<Rightarrow> Some (v, st)
      | None \<Rightarrow> do {
          result \<leftarrow> check_domain_member_depth (ws_whitelist st) (whitelist_domain_token query);
          c \<leftarrow> lru_insert_if_seen_before (str_hash (hash_seed env)) query result c;
          Some (result, st\<lparr>ws_domain_whitelisted := c\<rparr>) })
   }"

definition check_domain_whitelisted :: "'r outside \<Rightarrow> string \<Rightarrow> 'r worker_state \<Rightarrow> (bool \<times> 'r worker_state) option" where
  "check_domain_whitelisted env query st =
     map_option (\<lambda>(d, st). (d \<noteq> 0, st)) (check_domain_whitelist_depth env query st)"

definition worker_local_prefix :: "'r worker_state \<Rightarrow> string \<times> 'r worker_state" where
  "worker_local_prefix st =
     (case scan_local_prefix (ws_scan st) of
        Some best \<Rightarrow> (best, st\<lparr>ws_local_prefix_cache := Some best\<rparr>)
      | None \<Rightarrow> (case ws_local_prefix_cache st of Some p \<Rightarrow> (p, st) | None \<Rightarrow> (''_'', st)))"

section \<open>Events\<close>

definition bump :: "(metrics \<Rightarrow> metrics) \<Rightarrow> 'r worker_state \<Rightarrow> 'r worker_state" where
  "bump f st = st\<lparr>ws_metrics := f (ws_metrics st)\<rparr>"

definition emit :: "nat \<Rightarrow> nat \<Rightarrow> string \<Rightarrow> field \<Rightarrow> field \<Rightarrow> field \<Rightarrow> string \<Rightarrow> string \<Rightarrow> field \<Rightarrow> string \<Rightarrow> string
    \<Rightarrow> 'r worker_state \<Rightarrow> 'r worker_state" where
  "emit sec usec src_ip src_port dst_ip dst_port proto trail_type trail info reference st =
     (let event = \<lparr>ev_sec = sec, ev_usec = usec, ev_src_ip = src_ip, ev_src_port = src_port, ev_dst_ip = dst_ip,
            ev_dst_port = dst_port, ev_proto = FText proto, ev_trail_type = trail_type, ev_trail = trail,
            ev_info = info, ev_reference = reference\<rparr>;
          st = bump (\<lambda>m. m\<lparr>m_events := m_events m + 1\<rparr>) st
      in st\<lparr>ws_sink := ws_sink st @ [event]\<rparr>)"

definition emit_ep :: "nat \<Rightarrow> nat \<Rightarrow> endpoints \<Rightarrow> string \<Rightarrow> string \<Rightarrow> field \<Rightarrow> string \<Rightarrow> string \<Rightarrow> 'r worker_state \<Rightarrow> 'r worker_state" where
  "emit_ep sec usec ep proto trail_type trail info reference st =
     emit sec usec (ip_render (ep_src ep)) (field_port (ep_src_port ep)) (FText (ip_render (ep_dst ep)))
       (field_port (ep_dst_port ep)) proto trail_type trail info reference st"

section \<open>Workers in good order\<close>

text \<open>A trail database whose rows all have their pair: no lookup in it panics.\<close>

definition trails_ok :: "'r trail_db \<Rightarrow> bool" where
  "trails_ok db \<longleftrightarrow> db_ok db \<and> (\<forall>k i. str_bindings (td_strings db) k = Some i \<longrightarrow> unat i < length (td_pairs db))"

definition trail_of :: "'r trail_db \<Rightarrow> string \<Rightarrow> trail_info option" where
  "trail_of db k = map_option (\<lambda>i. td_pairs db ! unat i) (str_bindings (td_strings db) k)"

lemma td_get_ok: "trails_ok db \<Longrightarrow> td_get k db = Some (trail_of db k)"
  using pair_of_bound [of "str_bindings (td_strings db) k" db]
  by (simp add: trails_ok_def td_get_def str_get_spec db_ok_def trail_of_def)

lemma pair_total: "(\<And>i. found = Some i \<Longrightarrow> unat i < length (td_pairs db)) \<Longrightarrow> pair_of_index db found \<noteq> None"
  using pair_of_bound [of found db] by simp

lemma spelled6_bound:
  assumes "spelled6 nk text key found" "\<And>t i. text t = Some i \<Longrightarrow> unat i < n"
  shows "found = Some i \<Longrightarrow> unat i < n"
  using assms by (auto simp: spelled6_def)

lemma td_get_ip_total:
  assumes "trails_ok db"
  shows "\<exists>r. td_get_ip ip db = Some r"
proof -
  have ok: "db_ok db" and b: "\<And>k i. str_bindings (td_strings db) k = Some i \<Longrightarrow> unat i < length (td_pairs db)"
    using assms by (simp_all add: trails_ok_def)
  show ?thesis
  proof (cases ip)
    case (V4 v)
    then show ?thesis
      using ok int_get_spec [of hash_u32 "td_ip4 db" v] pair_total [of "int_bindings (td_ip4 db) v" db] b
      by (auto simp: td_get_ip_def db_ok_def)
  next
    case (V6 v)
    have "spelled6 native_key_of (str_bindings (td_strings db)) (IpKey (V6 v)) (int_bindings (td_ip6 db) v)"
      using ok by (simp add: db_ok_def)
    from spelled6_bound [OF this, of "length (td_pairs db)"] b
    show ?thesis
      using ok V6 int_get_spec [of hash_u128 "td_ip6 db" v] pair_total [of "int_bindings (td_ip6 db) v" db]
      by (auto simp: td_get_ip_def db_ok_def)
  qed
qed

lemma td_get_ip_port_total:
  assumes "trails_ok db"
  shows "\<exists>r. td_get_ip_port ip port db = Some r"
proof -
  have ok: "db_ok db" and b: "\<And>k i. str_bindings (td_strings db) k = Some i \<Longrightarrow> unat i < length (td_pairs db)"
    using assms by (simp_all add: trails_ok_def)
  show ?thesis
  proof (cases ip)
    case (V4 v)
    have "int_bindings (td_ip4_port db) (ip4_port_key v port) = str_bindings (td_strings db) (ip_addr_port (V4 v) port)"
      using ok by (simp add: db_ok_def del: ip_addr_port.simps)
    then show ?thesis
      using ok V4 int_get_spec [of hash_u64 "td_ip4_port db" "ip4_port_key v port"] b
        pair_total [of "int_bindings (td_ip4_port db) (ip4_port_key v port)" db]
      by (auto simp: td_get_ip_port_def db_ok_def simp del: ip_addr_port.simps)
  next
    case (V6 v)
    have "spelled6 native_key_of (str_bindings (td_strings db)) (IpPortKey (V6 v) port) (map_of (td_ip6_port db) (v, port))"
      using ok by (simp add: db_ok_def)
    from spelled6_bound [OF this, of "length (td_pairs db)"] b
    show ?thesis
      using V6 pair_total [of "map_of (td_ip6_port db) (v, port)" db] by (auto simp: td_get_ip_port_def)
  qed
qed

text \<open>The whitelist verdict of a name, and the caches over it.\<close>

definition whitelist_depth :: "whitelist \<Rightarrow> string \<Rightarrow> u32" where
  "whitelist_depth wl q =
     of_nat (case closest (set (wl_exact wl)) (whitelist_domain_token q) of None \<Rightarrow> 0 | Some ls \<Rightarrow> length ls)"

definition memo_of :: "u64 \<Rightarrow> (string \<Rightarrow> 'v) \<Rightarrow> (string, 'v) lru \<Rightarrow> bool" where
  "memo_of seed f c \<longleftrightarrow> (\<exists>n. doorkeeper.answers (str_hash seed) n f c)"

definition only_holds :: "u64 \<Rightarrow> (string \<Rightarrow> bool) \<Rightarrow> (string, 'v) lru \<Rightarrow> bool" where
  "only_holds seed P c \<longleftrightarrow> (\<exists>n. lru_at (str_hash seed) n c) \<and> (\<forall>k. cached (str_hash seed) c k \<noteq> None \<longrightarrow> P k)"

lemma memo_new: "cap < nil \<Longrightarrow> memo_of seed f (with_admission_filter slots (lru_new cap))"
  using lru_at_new [of cap "str_hash seed" slots] by (auto simp: memo_of_def doorkeeper.answers_def)

lemma only_holds_new: "cap < nil \<Longrightarrow> only_holds seed P (with_admission_filter slots (lru_new cap))"
  using lru_at_new [of cap "str_hash seed" slots] by (auto simp: only_holds_def)

lemma only_holds_get:
  assumes "only_holds seed P c"
  shows "\<exists>c'. lru_get (str_hash seed) q c = Some (cached (str_hash seed) c q, c') \<and> only_holds seed P c'"
proof -
  obtain n where n: "lru_at (str_hash seed) n c" using assms by (auto simp: only_holds_def)
  show ?thesis using doorkeeper.look_spec [OF n, of q] assms by (auto simp: only_holds_def)
qed

lemma only_holds_put:
  assumes "only_holds seed P c" "P q"
  shows "\<exists>c'. lru_insert_if_seen_before (str_hash seed) q v c = Some c' \<and> only_holds seed P c'"
proof -
  obtain n where n: "lru_at (str_hash seed) n c" using assms by (auto simp: only_holds_def)
  show ?thesis using doorkeeper.store_spec [OF n, of q v] assms by (fastforce simp: only_holds_def)
qed

lemma whitelist_depth_cached:
  assumes "wl_ok (ws_whitelist st)" "memo_of (hash_seed env) (whitelist_depth (ws_whitelist st)) (ws_domain_whitelisted st)"
  shows "\<exists>c. check_domain_whitelist_depth env q st = Some (whitelist_depth (ws_whitelist st) q, st\<lparr>ws_domain_whitelisted := c\<rparr>) \<and>
    memo_of (hash_seed env) (whitelist_depth (ws_whitelist st)) c"
proof -
  let ?h = "str_hash (hash_seed env)" and ?f = "whitelist_depth (ws_whitelist st)"
  obtain n where "doorkeeper.answers ?h n ?f (ws_domain_whitelisted st)" using assms(2) by (auto simp: memo_of_def)
  from doorkeeper.one_answer [OF this, of q] obtain c where
    c: "through_cache (lru_get ?h) (lru_insert_if_seen_before ?h) ?f q (ws_domain_whitelisted st) = Some (?f q, c)"
      "memo_of (hash_seed env) ?f c"
    by (auto simp: memo_of_def)
  have "check_domain_member_depth (ws_whitelist st) (whitelist_domain_token q) = Some (?f q)"
    using depth_spec [OF assms(1)] by (simp add: whitelist_depth_def)
  then have "check_domain_whitelist_depth env q st =
      map_option (\<lambda>(v, c). (v, st\<lparr>ws_domain_whitelisted := c\<rparr>))
        (through_cache (lru_get ?h) (lru_insert_if_seen_before ?h) ?f q (ws_domain_whitelisted st))"
    by (auto simp: check_domain_whitelist_depth_def through_cache_def split: Option.bind_split option.split)
  then show ?thesis using c by auto
qed

lemma built_trails_ok:
  assumes "n \<le> table_limit" "list_all (row_fits ps) rows" "(\<Sum>r\<leftarrow>rows. 2 + length (fst r)) \<le> table_limit"
  obtains db :: "'r trail_db" where "trails_ok db" "\<And>k. trail_of db k = map_option (\<lambda>i. ps ! unat i) (map_of (rev rows) k)"
proof -
  obtain db :: "'r trail_db" where db: "db_ok db" "td_pairs db = ps" "str_bindings (td_strings db) = map_of (rev rows)"
    using build_db [OF assms, of undefined] by metis
  have "unat i < length ps" if "map_of (rev rows) k = Some i" for k i
  proof -
    have "(k, i) \<in> set rows" using map_of_SomeD [OF that] by simp
    then show ?thesis using assms(2) by (fastforce simp: list_all_iff row_fits_def)
  qed
  then have "trails_ok db" using db by (simp add: trails_ok_def)
  moreover have "trail_of db k = map_option (\<lambda>i. ps ! unat i) (map_of (rev rows) k)" for k
    by (simp add: trail_of_def db)
  ultimately show ?thesis using that by blast
qed

definition sample_outside :: "unit outside" where
  "sample_outside = \<lparr>lower_unicode = map to_lower, wild_empty = (\<lambda>_. True), wild_find = (\<lambda>_ _. None), hash_seed = 0\<rparr>"

lemma sample_db:
  obtains db :: "unit trail_db" where "trails_ok db"
    "trail_of db = (\<lambda>k. if k = ''bad.cloudfront.net'' then Some (''malware'', ''(static)'') else None)"
proof -
  obtain db :: "unit trail_db" where "trails_ok db"
    "\<And>k. trail_of db k = map_option (\<lambda>i. [(''malware'', ''(static)'')] ! unat i) (map_of (rev [(''bad.cloudfront.net'', 0 :: u32)]) k)"
    using built_trails_ok [of 1 "[(''malware'', ''(static)'')]" "[(''bad.cloudfront.net'', 0 :: u32)]"]
    by (auto simp: table_limit_def row_fits_def empty_val_def)
  then show ?thesis using that by fastforce
qed

end
