(* ===== verification/Homograph.thy ===== *)
theory Homograph
  imports Whitelist
begin

text \<open>
  IDN homographs (\<open>heuristics/homograph.rs\<close>): the decoding of Punycode and the check of a name against the
  listed names it could stand for. A decoded label is the list of the code points of its characters. The
  code's checked operations end the decoding; its plain ones panic when they overflow, which is the outer
  \<open>None\<close>.
\<close>

section \<open>Letters that look alike\<close>

definition latin_twins :: "(nat \<times> char) list" where
  "latin_twins =
     [(0x0430, CHR ''a''), (0x0441, CHR ''c''), (0x0501, CHR ''d''), (0x0435, CHR ''e''), (0x04bb, CHR ''h''),
      (0x0456, CHR ''i''), (0x0458, CHR ''j''), (0x04cf, CHR ''l''), (0x043e, CHR ''o''), (0x0440, CHR ''p''),
      (0x051b, CHR ''q''), (0x0455, CHR ''s''), (0x0443, CHR ''y''), (0x051d, CHR ''w''), (0x0445, CHR ''x''),
      (0x03b1, CHR ''a''), (0x03f2, CHR ''c''), (0x03b9, CHR ''i''), (0x03f3, CHR ''j''), (0x03ba, CHR ''k''),
      (0x03bd, CHR ''v''), (0x03bf, CHR ''o''), (0x03c1, CHR ''p''), (0x03c5, CHR ''u''), (0x03c7, CHR ''x''),
      (0x0570, CHR ''h''), (0x0578, CHR ''n''), (0x0585, CHR ''o''), (0x057d, CHR ''u''),
      (0x0131, CHR ''i''), (0x0251, CHR ''a''), (0x0261, CHR ''g''), (0x0269, CHR ''i'')]"

definition latin_twin :: "nat \<Rightarrow> char option" where
  "latin_twin c = map_of latin_twins c"

section \<open>Punycode\<close>

definition in_u32 :: "nat \<Rightarrow> nat option" where
  "in_u32 n = (if n < 2 ^ 32 then Some n else None)"

text \<open>\<open>char::from_u32\<close> accepts the Unicode scalar values.\<close>

definition scalar :: "nat \<Rightarrow> bool" where
  "scalar n \<longleftrightarrow> n < 0xd800 \<or> 0xdfff < n \<and> n < 0x110000"

fun adapt_loop :: "nat \<Rightarrow> nat \<Rightarrow> (nat \<times> nat) option" where
  "adapt_loop delta k =
     (if delta > 455 then (case in_u32 (k + 36) of None \<Rightarrow> None | Some k \<Rightarrow> adapt_loop (delta div 35) k)
      else Some (delta, k))"

declare adapt_loop.simps [simp del]

definition adapt :: "nat \<Rightarrow> nat \<Rightarrow> bool \<Rightarrow> nat option" where
  "adapt delta points is_first = do {
     let delta = (if is_first then delta div 700 else delta div 2);
     delta \<leftarrow> in_u32 (delta + delta div points);
     (delta, k) \<leftarrow> adapt_loop delta 0;
     m \<leftarrow> in_u32 (36 * delta);
     in_u32 (k + m div (delta + 38))
   }"

definition puny_digit :: "char \<Rightarrow> nat option" where
  "puny_digit c =
     (if is_lower c then Some (code c - 97)
      else if is_upper c then Some (code c - 65)
      else if is_digit c then Some (code c - 48 + 26)
      else None)"

text \<open>The inner loop: one generalized variable-length integer, added to \<open>i\<close>.\<close>

fun puny_int :: "nat \<Rightarrow> string \<Rightarrow> nat \<Rightarrow> nat \<Rightarrow> nat \<Rightarrow> (nat \<times> string) option option" where
  "puny_int bias [] i w k = Some None"
| "puny_int bias (c # cs) i w k =
     (case puny_digit c of
        None \<Rightarrow> Some None
      | Some digit \<Rightarrow> (case Option.bind (in_u32 (digit * w)) (\<lambda>x. in_u32 (i + x)) of
            None \<Rightarrow> Some None
          | Some i \<Rightarrow>
              (let t = (if k \<le> bias then 1 else if k \<ge> bias + 26 then 26 else k - bias)
               in if digit < t then Some (Some (i, cs))
                  else (case in_u32 (w * (36 - t)) of
                          None \<Rightarrow> Some None
                        | Some w \<Rightarrow> (case in_u32 (k + 36) of
                              None \<Rightarrow> None
                            | Some k \<Rightarrow> puny_int bias cs i w k)))))"

lemma puny_int_shorter: "puny_int bias ds i w k = Some (Some (j, rest)) \<Longrightarrow> length rest < length ds"
  by (induction bias ds i w k rule: puny_int.induct) (auto simp: Let_def less_SucI split: option.splits if_splits)

definition insert_at :: "nat \<Rightarrow> 'a \<Rightarrow> 'a list \<Rightarrow> 'a list option" where
  "insert_at i x xs = (if i \<le> length xs then Some (take i xs @ x # drop i xs) else None)"

function puny_loop :: "string \<Rightarrow> nat list \<Rightarrow> nat \<Rightarrow> nat \<Rightarrow> nat \<Rightarrow> nat list option option" where
  "puny_loop digits out n i bias =
     (if digits = [] then Some (Some out)
      else (case puny_int bias digits i 1 36 of
          None \<Rightarrow> None
        | Some None \<Rightarrow> Some None
        | Some (Some (j, rest)) \<Rightarrow>
            (let points = length out + 1
             in case adapt (j - i) points (i = 0) of
                  None \<Rightarrow> None
                | Some bias \<Rightarrow> (case in_u32 (n + j div points) of
                      None \<Rightarrow> Some None
                    | Some n \<Rightarrow>
                        if \<not> scalar n then Some None
                        else (case insert_at (j mod points) n out of
                                None \<Rightarrow> None
                              | Some out \<Rightarrow> (case in_u32 (j mod points + 1) of
                                    None \<Rightarrow> None
                                  | Some i \<Rightarrow> puny_loop rest out n i bias))))))"
  by pat_completeness auto
termination
  by (relation "measure (\<lambda>(digits, out, n, i, bias). length digits)") (auto dest: puny_int_shorter)

declare puny_loop.simps [simp del]

definition punycode_decode :: "string \<Rightarrow> nat list option option" where
  "punycode_decode input =
     (if length input > 63 then Some None
      else (let (basic, extended) = (case rfind_char input (CHR ''-'') of
                  Some i \<Rightarrow> (take i input, drop (i + 1) input)
                | None \<Rightarrow> ([], input))
            in if \<not> list_all is_ascii basic then Some None
               else puny_loop extended (map code basic) 128 0 72))"

section \<open>The name a name stands for\<close>

definition plain_char :: "nat \<Rightarrow> char option" where
  "plain_char c = (if c < 128 then Some (char_of c) else latin_twin c)"

text \<open>The twin of a label: what it decodes to, when every character of that looks like an ASCII one.\<close>

definition label_twin :: "string \<Rightarrow> string option option" where
  "label_twin label =
     (if 4 \<le> length label \<and> eq_ignore_ascii_case (take 4 label) ''xn--''
      then map_option (\<lambda>r. Option.bind r (\<lambda>decoded. those (map plain_char decoded))) (punycode_decode (drop 4 label))
      else Some None)"

definition impersonated :: "string \<Rightarrow> whitelist \<Rightarrow> string option option" where
  "impersonated query wl =
     (if \<not> has query ''xn--'' then Some None
      else do {
        let labels = split_on (CHR ''.'') query;
        twins \<leftarrow> those (map label_twin labels);
        let rewritten = map (\<lambda>t. t \<noteq> None) twins;
        let skeleton = map (\<lambda>(label, twin). case twin of Some t \<Rightarrow> t | None \<Rightarrow> label) (zip labels twins);
        r \<leftarrow> check_domain_member_entry wl (join ''.'' skeleton);
        Some (case r of
            None \<Rightarrow> None
          | Some e \<Rightarrow>
              (let covered = length (split_on (CHR ''.'') e)
               in if covered < 2 \<or> covered > length labels \<or>
                     \<not> list_ex (\<lambda>b. b) (drop (length labels - covered) rewritten)
                  then None else Some e))
      })"

section \<open>Decoding neither overflows nor panics\<close>

lemma in_u32_Some [simp]: "in_u32 n = Some m \<longleftrightarrow> m = n \<and> n < 2 ^ 32"
  by (auto simp: in_u32_def)

lemma in_u32_small [simp]: "n < 2 ^ 32 \<Longrightarrow> in_u32 n = Some n"
  by simp

lemma adapt_loop_bound:
  "12 * k + delta < 2 ^ 32 \<Longrightarrow> \<exists>d k'. adapt_loop delta k = Some (d, k') \<and> d \<le> 455 \<and> 12 * k' \<le> 12 * k + delta"
proof (induction delta k rule: adapt_loop.induct)
  case (1 delta k)
  show ?case
  proof (cases "delta > 455")
    case True
    have small: "k + 36 < 2 ^ 32" and le: "12 * (k + 36) + delta div 35 \<le> 12 * k + delta"
      using "1.prems" True by simp_all
    obtain d k' where r: "adapt_loop (delta div 35) (k + 36) = Some (d, k')" "d \<le> 455" "12 * k' \<le> 12 * (k + 36) + delta div 35"
      using "1.IH" [OF True in_u32_small [OF small]] le "1.prems" by auto
    have "adapt_loop delta k = Some (d, k')" using True r(1) in_u32_small [OF small] by (subst adapt_loop.simps) simp
    then show ?thesis using r(2,3) le by auto
  qed (subst adapt_loop.simps, auto)
qed

lemma adapt_total:
  assumes "delta < 2 ^ 32" "0 < points"
  shows "\<exists>b. adapt delta points is_first = Some b \<and> b < 2 ^ 31"
proof -
  define e where "e = (if is_first then delta div 700 else delta div 2)"
  have half: "e \<le> delta div 2" by (auto simp: e_def)
  moreover have "e div points \<le> e" by simp
  ultimately have sum: "e + e div points < 2 ^ 32" using assms(1) by linarith
  obtain d k where l: "adapt_loop (e + e div points) 0 = Some (d, k)" "d \<le> 455" "12 * k \<le> e + e div points"
    using adapt_loop_bound [of 0 "e + e div points"] sum by auto
  have "36 * d div (d + 38) \<le> 16380" using l(2) by (intro order_trans [OF div_le_dividend]) simp
  moreover have "12 * k < 2 ^ 32" using l(3) sum by linarith
  ultimately have small: "k + 36 * d div (d + 38) < 2 ^ 31" by simp
  have "adapt delta points is_first = Some (k + 36 * d div (d + 38))"
    unfolding adapt_def Let_def using l small sum in_u32_small [OF sum] by (simp add: e_def [symmetric])
  then show ?thesis using small by blast
qed

lemma puny_int_total:
  assumes "i < 2 ^ 32" "k + 36 * length ds < 2 ^ 32"
  shows "\<exists>r. puny_int bias ds i w k = Some r \<and> (\<forall>j rest. r = Some (j, rest) \<longrightarrow> i \<le> j \<and> j < 2 ^ 32)"
  using assms
proof (induction bias ds i w k rule: puny_int.induct)
  case (2 bias c cs i w k)
  show ?case
  proof (cases "puny_digit c")
    case (Some digit)
    show ?thesis
    proof (cases "Option.bind (in_u32 (digit * w)) (\<lambda>x. in_u32 (i + x))")
      case step: (Some j)
      then have j: "i \<le> j" "j < 2 ^ 32" by (auto split: Option.bind_splits)
      define t where "t = (if k \<le> bias then 1 else if k \<ge> bias + 26 then 26 else k - bias)"
      show ?thesis
      proof (cases "digit < t \<or> in_u32 (w * (36 - t)) = None")
        case True
        then show ?thesis using Some step j by (auto simp: t_def Let_def)
      next
        case False
        then obtain v where v: "in_u32 (w * (36 - t)) = Some v" "\<not> digit < t" by auto
        have k: "k + 36 < 2 ^ 32" using "2.prems" by simp
        have "puny_int bias (c # cs) i w k = puny_int bias cs j v (k + 36)"
          using Some step v in_u32_small [OF k] by (simp add: t_def [symmetric] Let_def)
        moreover obtain r where "puny_int bias cs j v (k + 36) = Some r" "\<forall>n rest. r = Some (n, rest) \<longrightarrow> j \<le> n \<and> n < 2 ^ 32"
          using "2.IH" [OF Some step t_def v(2,1) in_u32_small [OF k]] "2.prems" j by auto
        ultimately show ?thesis using j(1) by fastforce
      qed
    qed (simp add: Some)
  qed simp
qed simp

lemma insert_at_total: "i \<le> length xs \<Longrightarrow> insert_at i x xs = Some (take i xs @ x # drop i xs)"
  by (simp add: insert_at_def)

text \<open>What decoding leaves of the text it started from.\<close>

definition decoded_ok :: "nat list \<Rightarrow> nat \<Rightarrow> nat list option \<Rightarrow> bool" where
  "decoded_ok basic n r = (case r of
     None \<Rightarrow> True
   | Some cs \<Rightarrow> list_all scalar cs \<and> length cs \<le> n \<and> filter (\<lambda>c. c < 128) cs = basic)"

lemma filter_inserted: "\<not> P x \<Longrightarrow> filter P (take i xs @ x # drop i xs) = filter P xs"
  by (metis append_take_drop_id filter.simps(2) filter_append)

lemma puny_loop_ok:
  assumes "i \<le> length out" "length out + length digits < 2 ^ 20" "128 \<le> n" "list_all scalar out"
  shows "\<exists>r. puny_loop digits out n i bias = Some r \<and> decoded_ok (filter (\<lambda>c. c < 128) out) (length out + length digits) r"
  using assms
proof (induction digits out n i bias rule: puny_loop.induct)
  case (1 digits out n i bias)
  show ?case
  proof (cases "digits = []")
    case False
    have "\<exists>r. puny_int bias digits i 1 36 = Some r \<and> (\<forall>j rest. r = Some (j, rest) \<longrightarrow> i \<le> j \<and> j < 2 ^ 32)"
      using "1.prems"(1,2) by (intro puny_int_total) simp_all
    then obtain r where r: "puny_int bias digits i 1 36 = Some r" "\<And>j rest. r = Some (j, rest) \<Longrightarrow> i \<le> j \<and> j < 2 ^ 32"
      by blast
    show ?thesis
    proof (cases r)
      case None
      then show ?thesis using False r(1) by (subst puny_loop.simps) (simp add: decoded_ok_def)
    next
      case (Some p)
      obtain j rest where p: "p = (j, rest)" by (cases p)
      have j: "i \<le> j" "j < 2 ^ 32" using r(2) Some p by simp_all
      define points where "points = length out + 1"
      have points: "Suc (length out) = points" by (simp add: points_def)
      have "j - i < 2 ^ 32" "0 < points" using j by (simp_all add: points_def)
      then obtain b where b: "adapt (j - i) points (i = 0) = Some b" using adapt_total by blast
      have shorter: "length rest < length digits" using r(1) Some p puny_int_shorter by blast
      define m where "m = n + j div points"
      have low: "j mod points \<le> length out" by (simp add: points_def less_Suc_eq_le [symmetric])
      define out' where "out' = take (j mod points) out @ m # drop (j mod points) out"
      have small: "j mod points + 1 < 2 ^ 32" using low "1.prems"(2) by simp
      note eq = puny_loop.simps [of digits out n i bias]
      show ?thesis
      proof (cases "m < 2 ^ 32 \<and> scalar m")
        case True
        have step: "puny_loop digits out n i bias = puny_loop rest out' m (j mod points + 1) b"
          unfolding eq using False r(1) Some p b True in_u32_small [OF small] insert_at_total [OF low, of m]
          by (simp add: points m_def [symmetric] out'_def Let_def)
        have len: "length out' = length out + 1" using low by (simp add: out'_def)
        have kept: "filter (\<lambda>c. c < 128) out' = filter (\<lambda>c. c < 128) out"
          unfolding out'_def using "1.prems"(3) by (intro filter_inserted) (simp add: m_def)
        have all: "list_all scalar out'"
          using "1.prems"(4) True by (auto simp: out'_def list_all_iff dest: in_set_takeD in_set_dropD)
        have "\<exists>r. puny_loop rest out' m (j mod points + 1) b = Some r \<and>
            decoded_ok (filter (\<lambda>c. c < 128) out') (length out' + length rest) r"
        proof (rule "1.IH" [OF False r(1) Some p [symmetric] points_def b])
          show "in_u32 (n + j div points) = Some m" using True by (simp add: m_def)
          show "\<not> \<not> scalar m" using True by simp
          show "insert_at (j mod points) m out = Some out'" using low by (simp add: insert_at_total out'_def)
          show "in_u32 (j mod points + 1) = Some (j mod points + 1)" using in_u32_small [OF small] .
          show "j mod points + 1 \<le> length out'" using len low by simp
          show "length out' + length rest < 2 ^ 20" using len shorter "1.prems"(2) by simp
          show "128 \<le> m" using "1.prems"(3) by (simp add: m_def)
          show "list_all scalar out'" by (rule all)
        qed
        then show ?thesis unfolding step kept using len shorter by (fastforce simp: decoded_ok_def split: option.splits)
      next
        case no: False
        have "puny_loop digits out n i bias = Some None"
          unfolding eq using False r(1) Some p b no by (cases "m < 2 ^ 32") (simp_all add: points m_def [symmetric] Let_def in_u32_def)
        then show ?thesis by (simp add: decoded_ok_def)
      qed
    qed
  qed (use "1.prems"(4) in \<open>subst puny_loop.simps, simp add: decoded_ok_def\<close>)
qed

lemma decode_ok:
  "\<exists>r. punycode_decode s = Some r \<and>
     decoded_ok (case rfind_char s (CHR ''-'') of Some i \<Rightarrow> map code (take i s) | None \<Rightarrow> []) 63 r"
proof (cases "length s > 63")
  case True
  then show ?thesis by (simp add: punycode_decode_def decoded_ok_def)
next
  case short: False
  have "\<exists>r. (if \<not> list_all is_ascii basic then Some None else puny_loop ext (map code basic) 128 0 72) = Some r \<and>
      decoded_ok (map code basic) 63 r" if len: "length basic + length ext \<le> 63" for basic ext
  proof (cases "list_all is_ascii basic")
    case True
    then have low: "filter (\<lambda>c. c < 128) (map code basic) = map code basic"
      by (simp add: list_all_iff is_ascii_def filter_map o_def cong: filter_cong)
    have "list_all scalar (map code basic)" using True by (fastforce simp: list_all_iff is_ascii_def scalar_def)
    then obtain r where "puny_loop ext (map code basic) 128 0 72 = Some r"
      "decoded_ok (filter (\<lambda>c. c < 128) (map code basic)) (length (map code basic) + length ext) r"
      using puny_loop_ok [of 0 "map code basic" ext 128 72] len by auto
    then show ?thesis using True low len by (auto simp: decoded_ok_def split: option.splits)
  qed (simp add: decoded_ok_def)
  note both = this
  show ?thesis
  proof (cases "rfind_char s (CHR ''-'')")
    case None
    then show ?thesis using both [of "[]" s] short by (simp add: punycode_decode_def)
  next
    case (Some i)
    then show ?thesis using both [of "take i s" "drop (i + 1) s"] short by (auto simp: punycode_decode_def)
  qed
qed

section \<open>Properties\<close>

text \<open>C31: decoding a Punycode label ends for every text, never panics and never lets an addition wrap: the result
  is a refusal or at most 63 Unicode scalar values, of which the ASCII ones are exactly the characters before
  the last hyphen, in their order.\<close>
theorem punycode_never_panics:
  "\<exists>r. punycode_decode s = Some r \<and>
     (case r of None \<Rightarrow> True
      | Some cs \<Rightarrow> list_all scalar cs \<and> length cs \<le> 63 \<and>
          filter (\<lambda>c. c < 128) cs = (case rfind_char s (CHR ''-'') of Some i \<Rightarrow> map code (take i s) | None \<Rightarrow> []))"
  using decode_ok [of s] by (auto simp: decoded_ok_def split: option.splits)

text \<open>A label and the label it is taken for.\<close>

definition looks_like :: "string \<Rightarrow> string \<Rightarrow> bool" where
  "looks_like label l \<longleftrightarrow> map to_lower label = l \<or>
     (case label_twin label of Some (Some t) \<Rightarrow> map to_lower t = l | _ \<Rightarrow> False)"

definition disguised :: "string \<Rightarrow> bool" where
  "disguised label \<longleftrightarrow> (case label_twin label of Some (Some t) \<Rightarrow> True | _ \<Rightarrow> False)"

lemma to_lower_dot: "to_lower c = CHR ''.'' \<longleftrightarrow> c = CHR ''.''"
proof (cases "is_upper c")
  case True
  then have u: "65 \<le> code c" "code c \<le> 90" by (simp_all add: is_upper_def)
  then have "code (to_lower c) = code c + 32" using True by (simp add: to_lower_def)
  moreover have "code (CHR ''.'') = 46" by (simp add: code_def)
  ultimately have "to_lower c \<noteq> CHR ''.''" "c \<noteq> CHR ''.''" using u by auto
  then show ?thesis by simp
qed (simp add: to_lower_def)

lemma lower_dots: "CHR ''.'' \<in> to_lower ` set l \<longleftrightarrow> CHR ''.'' \<in> set l"
  by (metis (no_types, lifting) image_iff to_lower_dot)

lemma split_lower: "split_on (CHR ''.'') (map to_lower s) = map (map to_lower) (split_on (CHR ''.'') s)"
  by (induction s) (auto simp: to_lower_dot split: list.splits)

lemma split_join: "ls \<noteq> [] \<Longrightarrow> \<forall>l \<in> set ls. CHR ''.'' \<notin> set l \<Longrightarrow> split_on (CHR ''.'') (join ''.'' ls) = ls"
proof (induction ls rule: induct_list012)
  case (3 x y zs)
  then show ?case by (simp add: split_on_append split_on_no)
qed (simp_all add: split_on_no)

lemma label_twin_total: "label_twin l \<noteq> None"
  using decode_ok [of "drop 4 l"] by (auto simp: label_twin_def)

lemma those_Some: "those xs = Some ys \<longleftrightarrow> xs = map Some ys"
  by (induction xs arbitrary: ys) (auto split: option.splits simp: Cons_eq_map_conv)

lemma rfind_bound: "rfind_char s c = Some i \<Longrightarrow> i < length s"
  by (induction s arbitrary: i) (auto split: option.splits if_splits)

lemma twin_no_dot:
  assumes "label_twin l = Some (Some t)" "CHR ''.'' \<notin> set l"
  shows "CHR ''.'' \<notin> set t"
proof
  assume dot: "CHR ''.'' \<in> set t"
  obtain cs where cs: "punycode_decode (drop 4 l) = Some (Some cs)" "map plain_char cs = map Some t"
    using assms(1) by (auto simp: label_twin_def those_Some split: if_splits Option.bind_splits)
  have "Some (CHR ''.'') \<in> plain_char ` set cs" using dot cs(2) by (metis image_eqI list.set_map)
  then obtain c where c: "c \<in> set cs" "plain_char c = Some (CHR ''.'')" by auto
  have "c < 128"
  proof (rule ccontr)
    assume "\<not> c < 128"
    then have "(c, CHR ''.'') \<in> set latin_twins" using c(2) by (auto simp: plain_char_def latin_twin_def dest: map_of_SomeD)
    then show False by (simp add: latin_twins_def)
  qed
  then have "c = 46" using c(2) by (auto simp: plain_char_def dest: arg_cong [of _ _ "of_char :: char \<Rightarrow> nat"])
  then have "46 \<in> set (filter (\<lambda>c. c < 128) cs)" using c(1) by simp
  moreover have "filter (\<lambda>c. c < 128) cs = (case rfind_char (drop 4 l) (CHR ''-'') of Some i \<Rightarrow> map code (take i (drop 4 l)) | None \<Rightarrow> [])"
    using decode_ok [of "drop 4 l"] cs(1) by (simp add: decoded_ok_def)
  ultimately have "46 \<in> code ` set (drop 4 l)" by (auto split: option.splits dest: in_set_takeD)
  then obtain x where "x \<in> set l" "code x = 46" by (auto dest: in_set_dropD)
  moreover have "code (CHR ''.'') = 46" by (simp add: code_def)
  ultimately show False using assms(2) code_inject by metis
qed

lemma tails_drop: "ls \<in> set (tails xs) \<Longrightarrow> \<exists>k < length xs. ls = drop k xs"
proof (induction xs)
  case (Cons x xs)
  show ?case
  proof (cases "ls = x # xs")
    case False
    then obtain k where "k < length xs" "ls = drop k xs" using Cons by auto
    then show ?thesis by (intro exI [of _ "Suc k"]) simp
  qed auto
qed simp

definition shown_label :: "string \<Rightarrow> string" where
  "shown_label l = (case label_twin l of Some (Some t) \<Rightarrow> t | _ \<Rightarrow> l)"

lemma shown_looks: "looks_like l (map to_lower (shown_label l))"
  by (simp add: looks_like_def shown_label_def split: option.splits)

lemma twin_disguised: "the (label_twin l) \<noteq> None \<longleftrightarrow> disguised l"
  using label_twin_total [of l] by (auto simp: disguised_def split: option.splits)

lemma impersonated_shape:
  "impersonated q wl =
     (if \<not> has q ''xn--'' then Some None
      else map_option (\<lambda>r. Option.bind r (\<lambda>e.
         let ls = split_on (CHR ''.'') q; covered = length (split_on (CHR ''.'') e)
         in if covered < 2 \<or> covered > length ls \<or> \<not> list_ex disguised (drop (length ls - covered) ls) then None else Some e))
       (check_domain_member_entry wl (join ''.'' (map shown_label (split_on (CHR ''.'') q)))))"
proof -
  let ?ls = "split_on (CHR ''.'') q"
  define twins where "twins = map (\<lambda>l. the (label_twin l)) ?ls"
  have t: "those (map label_twin ?ls) = Some twins"
    using label_twin_total by (simp add: those_Some twins_def)
  have sk: "map (\<lambda>(label, twin). case twin of Some t \<Rightarrow> t | None \<Rightarrow> label) (zip ?ls twins) = map shown_label ?ls"
    unfolding twins_def
    by (auto simp: label_twin_total shown_label_def zip_map2 zip_same_conv_map split: option.splits)
  have rw: "list_ex (\<lambda>b. b) (drop n (map (\<lambda>t. t \<noteq> None) twins)) = list_ex disguised (drop n ?ls)" for n
    unfolding twins_def by (simp add: list_ex_iff drop_map twin_disguised del: not_None_eq)
  show ?thesis
    unfolding impersonated_def Let_def t by (simp add: sk rw del: not_None_eq split: Option.bind_split option.split)
qed

text \<open>C32: a name reported as a homograph is one: the reported entry is listed and has at least two labels, the
  last labels of the name read, one by one, as its labels, and at least one of them is a disguised one, written
  in Punycode and made of lookalike letters; no name panics the check.\<close>
theorem homograph_is_a_disguised_entry:
  assumes "wl_ok wl"
  shows "case impersonated q wl of
      None \<Rightarrow> False
    | Some None \<Rightarrow> True
    | Some (Some e) \<Rightarrow> e \<in> set (wl_exact wl) \<and>
        (\<exists>pre tl. split_on (CHR ''.'') q = pre @ tl \<and> list_all2 looks_like tl (split_on (CHR ''.'') e) \<and>
           2 \<le> length tl \<and> list_ex disguised tl)"
proof -
  let ?ls = "split_on (CHR ''.'') q"
  let ?sk = "map shown_label ?ls"
  have nodot: "\<forall>l \<in> set ?sk. CHR ''.'' \<notin> set l"
    using split_no_dot twin_no_dot by (auto simp: shown_label_def split: option.splits)
  have labs: "labels (join ''.'' ?sk) = map (map to_lower) ?sk"
    using nodot by (simp add: labels_def split_lower split_join)
  have "e \<in> set (wl_exact wl) \<and> (\<exists>pre tl. ?ls = pre @ tl \<and> list_all2 looks_like tl (split_on (CHR ''.'') e) \<and>
           2 \<le> length tl \<and> list_ex disguised tl)" if hit: "impersonated q wl = Some (Some e)" for e
  proof -
    have "check_domain_member_entry wl (join ''.'' ?sk) = Some (Some e)"
      and dis: "list_ex disguised (drop (length ?ls - length (split_on (CHR ''.'') e)) ?ls)" "2 \<le> length (split_on (CHR ''.'') e)"
      using hit by (auto simp: impersonated_shape Let_def split: if_splits Option.bind_splits)
    then obtain ts where ts: "closest (set (wl_exact wl)) (join ''.'' ?sk) = Some ts" "e = join ''.'' ts"
      using entry_spec [OF assms] by auto
    then have e: "e \<in> set (wl_exact wl)" and "ts \<in> set (tails (map (map to_lower) ?sk))"
      by (auto simp: closest_def labs find_Some_iff)
    then obtain k where k: "k < length ?ls" "ts = drop k (map (map to_lower) ?sk)" using tails_drop by fastforce
    have "\<forall>l \<in> set ts. CHR ''.'' \<notin> set l"
      using nodot unfolding k(2) by (auto simp: lower_dots dest!: in_set_dropD)
    moreover have "ts \<noteq> []" using k by auto
    ultimately have parts: "split_on (CHR ''.'') e = ts" using ts(2) split_join by blast
    have "list_all2 looks_like (drop k ?ls) ts"
      unfolding k(2) by (simp add: list_all2_map2 drop_map shown_looks list.rel_refl)
    moreover have "length ?ls - length ts = k" using k by simp
    ultimately show ?thesis
      using e dis parts k by (intro conjI exI [of _ "take k ?ls"] exI [of _ "drop k ?ls"]) auto
  qed
  then show ?thesis
    using entry_spec [OF assms] by (auto simp: impersonated_shape split: option.split)
qed

lemma decodes_apple: "punycode_decode ''pple-43d'' = Some (Some [0x430, 0x70, 0x70, 0x6c, 0x65])"
  by (simp add: punycode_decode_def puny_loop.simps adapt_def adapt_loop.simps puny_digit_def is_ascii_def is_lower_def is_upper_def is_digit_def code_def insert_at_def scalar_def)

lemma apple_listed:
  obtains wl where "wl_ok wl" "set (wl_exact wl) = {''apple.com''}"
proof -
  have "str_lines ''apple.com'' = [''apple.com'']" by code_simp
  moreover have "trim ''apple.com'' = ''apple.com''" by (rule trim_plain; code_simp)
  ultimately have e: "wl_lines [''apple.com''] = [''apple.com'']"
    by (simp add: wl_lines_def iter_file_lines_def starts_with_def)
  have c: "canonical_ip_text ''apple.com'' = ''apple.com''" "parse_cidr4 ''apple.com'' = None" by code_simp+
  have "entry_lines (wl_lines [''apple.com'']) = {''apple.com''}" unfolding e by (auto simp: entry_lines_def c)
  moreover have "length (wl_lines [''apple.com'']) < 2 ^ 58" unfolding e by simp
  ultimately show ?thesis using wl_load_spec [of "[''apple.com'']"] that by metis
qed

theorem homograph_is_a_disguised_entry_witness:
  "\<exists>wl. set (wl_exact wl) = {''apple.com''} \<and> (case impersonated ''login.xn--pple-43d.com'' wl of
      Some (Some e) \<Rightarrow> e = ''apple.com''
    | _ \<Rightarrow> False)"
proof -
  obtain wl where wl: "wl_ok wl" "set (wl_exact wl) = {''apple.com''}" using apple_listed .
  have q: "split_on (CHR ''.'') ''login.xn--pple-43d.com'' = [''login'', ''xn--pple-43d'', ''com'']" by simp
  have t: "shown_label ''login'' = ''login''" "shown_label ''com'' = ''com''" "shown_label ''xn--pple-43d'' = ''apple''"
    "disguised ''xn--pple-43d''"
    by (simp_all add: shown_label_def disguised_def label_twin_def decodes_apple eq_ignore_ascii_case_def plain_char_def latin_twin_def latin_twins_def to_lower_def is_upper_def code_def char_of_eq_iff)
  have x: "has ''login.xn--pple-43d.com'' ''xn--''" by code_simp
  have l: "labels ''login.apple.com'' = [''login'', ''apple'', ''com'']" by code_simp
  have "impersonated ''login.xn--pple-43d.com'' wl = Some (Some ''apple.com'')"
    using entry_spec [OF wl(1), of "''login.apple.com''"] t
    by (simp add: impersonated_shape x q closest_def l wl(2) Let_def)
  then show ?thesis
    using homograph_is_a_disguised_entry [OF wl(1), of "''login.xn--pple-43d.com''"] wl(2) by (intro exI [of _ wl]) simp
qed

end
