(* ===== verification/Domain.thy ===== *)
theory Domain
  imports Worker Homograph
begin

text \<open>
  The check of a domain name (\<open>check_domain\<close>, \<open>domain_hit\<close> of \<open>process.rs\<close>): the name against the trails,
  the whitelist and the heuristics, behind the cache of clean names and the cache of whitelist verdicts. Every
  function may panic, which is the outer \<open>None\<close>; no hit is the inner one.
\<close>

section \<open>Offsets of the labels\<close>

record dot_index =
  di_first :: "nat option"
  di_tail :: "nat option list"
  di_count :: nat
  di_len :: nat

definition dots_step :: "nat \<times> char \<Rightarrow> dot_index \<Rightarrow> dot_index" where
  "dots_step ic d =
     (if snd ic = CHR ''.''
      then d\<lparr>di_first := (if di_first d = None then Some (fst ic) else di_first d),
             di_tail := [Some (fst ic), di_tail d ! 0, di_tail d ! 1],
             di_count := di_count d + 1\<rparr>
      else d)"

definition dots_of :: "string \<Rightarrow> dot_index" where
  "dots_of name =
     fold dots_step (List.enumerate 0 name) \<lparr>di_first = None, di_tail = [None, None, None], di_count = 0, di_len = length name\<rparr>"

definition label_count :: "dot_index \<Rightarrow> nat" where
  "label_count d = di_count d + 1"

definition last_label :: "dot_index \<Rightarrow> string \<Rightarrow> string" where
  "last_label d name = (case di_tail d ! 0 of Some i \<Rightarrow> drop (i + 1) name | None \<Rightarrow> name)"

definition label_at :: "dot_index \<Rightarrow> string \<Rightarrow> nat \<Rightarrow> string option" where
  "label_at d name index =
     (if index = 0 then Some (case di_first d of Some i \<Rightarrow> take i name | None \<Rightarrow> name)
      else if label_count d - 1 < index then None
      else (let from_end = label_count d - 1 - index
            in if from_end = 0 then Some (last_label d name)
               else if from_end = 1 \<or> from_end = 2
               then b_slice name (case di_tail d ! from_end of Some i \<Rightarrow> i + 1 | None \<Rightarrow> 0)
                      (case di_tail d ! (from_end - 1) of Some i \<Rightarrow> i | None \<Rightarrow> di_len d)
               else Some []))"

definition suffix_from :: "dot_index \<Rightarrow> string \<Rightarrow> nat \<Rightarrow> string" where
  "suffix_from d name index =
     (if index = 0 then name
      else if di_count d < index \<or> 3 \<le> di_count d - index then []
      else (case di_tail d ! (di_count d - index) of Some i \<Rightarrow> drop (i + 1) name | None \<Rightarrow> name))"

definition prefix_upto :: "dot_index \<Rightarrow> string \<Rightarrow> nat \<Rightarrow> string" where
  "prefix_upto d name index =
     (if index = 0 then []
      else if label_count d \<le> index then name
      else if di_count d < index \<or> 3 \<le> di_count d - index then []
      else (case di_tail d ! (di_count d - index) of Some i \<Rightarrow> take i name | None \<Rightarrow> []))"

section \<open>The verdict on a name\<close>

record domain_found =
  dh_trail :: string
  dh_info :: string
  dh_reference :: string

definition alias_trail :: "string \<Rightarrow> string option \<Rightarrow> string" where
  "alias_trail trail alias_of = (case alias_of of Some query \<Rightarrow> trail @ '' ('' @ query @ '')'' | None \<Rightarrow> trail)"

text \<open>The expression \<open>(?i)\A([rd]?ns|nf|mx|nic)\d*\.\<close>, on the ASCII names it is asked about.\<close>

definition ns_like_prefix :: "string \<Rightarrow> bool" where
  "ns_like_prefix q =
     list_ex (\<lambda>p. starts_with (map to_lower q) p \<and>
         starts_with (dropWhile is_digit (drop (length p) (map to_lower q))) ''.'')
       [''rns'', ''dns'', ''ns'', ''nf'', ''mx'', ''nic'']"

text \<open>An infrastructure name under a suspicious parent, or the bare name of a dynamic-DNS provider, is no
  indicator.\<close>

definition skip_trail :: "string \<Rightarrow> bool \<Rightarrow> string \<Rightarrow> bool" where
  "skip_trail q is_whole info =
     (let skip_ns = ns_like_prefix q \<and> (has_sub info ''suspicious'' \<or> has_sub info ''sinkhole'');
          skip_dynamic = (is_whole \<or> label_at (dots_of q) q 0 = Some ''www'') \<and> (has_sub info ''dynamic'' \<or> has_sub info ''free web'')
      in skip_ns \<or> skip_dynamic)"

lemma find_char_Some: "find_char s c = Some i \<Longrightarrow> i < length s \<and> s ! i = c \<and> c \<notin> set (take i s)"
  by (induction s arbitrary: i) (auto split: if_splits option.splits simp: map_option_case)

text \<open>One turn of the walk, at the trail of the name from \<open>start\<close> on: \<open>None\<close> goes on, \<open>Some\<close> ends it.\<close>

definition walk_step :: "string \<Rightarrow> u32 \<Rightarrow> string option \<Rightarrow> nat \<Rightarrow> trail_info option \<Rightarrow> domain_found option option" where
  "walk_step q depth alias_of start hit =
     (case hit of
        None \<Rightarrow> None
      | Some (info, reference) \<Rightarrow>
          (if skip_trail q (start = 0) info then None
           else Some (let trail = (if start = 0 then q else ''('' @ take (start - 1) q @ '')'' @ drop (start - 1) q);
                          trail_labels = of_nat (count_list (drop start q) (CHR ''.'')) + 1
                      in if trail_labels > depth
                         then Some \<lparr>dh_trail = alias_trail trail alias_of, dh_info = info, dh_reference = reference\<rparr>
                         else None)))"

function parent_walk :: "'r trail_db \<Rightarrow> string \<Rightarrow> u32 \<Rightarrow> string option \<Rightarrow> nat \<Rightarrow> domain_found option option" where
  "parent_walk db q depth alias_of start =
     (case td_get (drop start q) db of
        None \<Rightarrow> None
      | Some hit \<Rightarrow> (case walk_step q depth alias_of start hit of
            Some decided \<Rightarrow> Some decided
          | None \<Rightarrow> (case find_char (drop start q) (CHR ''.'') of
                Some rel \<Rightarrow> parent_walk db q depth alias_of (start + rel + 1)
              | None \<Rightarrow> Some None)))"
  by pat_completeness auto
termination
  by (relation "measure (\<lambda>(db, q, depth, alias_of, start). length q - start)") (auto dest: find_char_Some)

declare parent_walk.simps [simp del]

definition ip_adress_hit :: "'r trail_db \<Rightarrow> string \<Rightarrow> string option \<Rightarrow> domain_found option option" where
  "ip_adress_hit db q alias_of =
     (let d = dots_of q; base = prefix_upto d q (label_count d - 2)
      in map_option (map_option (\<lambda>(i, r). \<lparr>dh_trail = alias_trail (base @ ''(.ip-adress.com)'') alias_of, dh_info = i, dh_reference = r\<rparr>))
           (td_get base db))"

definition homograph_hit :: "whitelist \<Rightarrow> string \<Rightarrow> domain_found option option" where
  "homograph_hit wl q =
     map_option (map_option (\<lambda>brand. \<lparr>dh_trail = q, dh_info = ''potential homograph of '' @ brand @ '' (suspicious)'',
         dh_reference = ''(heuristic)''\<rparr>)) (impersonated q wl)"

lemma drop_shorter: "p \<noteq> [] \<Longrightarrow> i < length s \<Longrightarrow> length s - (i + length p) < length s"
  by (cases p) auto

function str_replace :: "string \<Rightarrow> string \<Rightarrow> string \<Rightarrow> string" where
  "str_replace s p t =
     (if p = [] then s
      else (case find_sub s p of
          None \<Rightarrow> s
        | Some i \<Rightarrow> take i s @ t @ (if i < length s then str_replace (drop (i + length p) s) p t else [])))"
  by pat_completeness auto
termination
  by (relation "measure (\<lambda>(s, p, t). length s)") (auto dest: drop_shorter)

declare str_replace.simps [simp del]

definition wildcard_hit :: "'r outside \<Rightarrow> 'r trail_db \<Rightarrow> string \<Rightarrow> string option \<Rightarrow> domain_found option option" where
  "wildcard_hit env db q alias_of =
     (case wild_find env (td_regex db) q of
        None \<Rightarrow> Some None
      | Some (start, fin, candidate) \<Rightarrow> do {
          hit \<leftarrow> td_get candidate db;
          (case hit of
             None \<Rightarrow> Some None
           | Some (i, r) \<Rightarrow> do {
               trail \<leftarrow> b_slice q start fin;
               before \<leftarrow> b_slice q 0 start;
               after \<leftarrow> b_from q fin;
               let trail = (if before \<noteq> [] then ''('' @ before @ '')'' @ trail else trail);
               let trail = (if after \<noteq> [] then trail @ ''('' @ after @ '')'' else trail);
               Some (Some \<lparr>dh_trail = alias_trail (str_replace trail ''.)'' '').'') alias_of, dh_info = i, dh_reference = r\<rparr>)
             })
        })"

text \<open>The rewriting of \<open>(\.onion)(\..*)\<close> to \<open>$1($2)\<close>.\<close>

definition onion_rewrite :: "string \<Rightarrow> string" where
  "onion_rewrite q =
     (case find_sub q ''.onion.'' of
        None \<Rightarrow> q
      | Some i \<Rightarrow> (let rest = drop (i + 6) q; tail = takeWhile (\<lambda>c. c \<noteq> newline) rest
                  in take (i + 6) q @ ''('' @ tail @ '')'' @ drop (length tail) rest))"

definition onion_hit :: "'r trail_db \<Rightarrow> string \<Rightarrow> string option \<Rightarrow> domain_found option option" where
  "onion_hit db q alias_of =
     (let trail = onion_rewrite q; base = takeWhile (\<lambda>c. c \<noteq> CHR ''('') trail
      in map_option (map_option (\<lambda>(i, r). \<lparr>dh_trail = alias_trail trail alias_of, dh_info = i, dh_reference = r\<rparr>)) (td_get base db))"

text \<open>A later check is made when the ones before it found nothing.\<close>

definition if_none :: "'a option \<Rightarrow> bool \<Rightarrow> 'a option option \<Rightarrow> 'a option option" where
  "if_none found cond later = (if found = None \<and> cond then later else Some found)"

definition domain_verdict ::
    "'r outside \<Rightarrow> config \<Rightarrow> whitelist \<Rightarrow> 'r trail_db \<Rightarrow> string \<Rightarrow> u32 \<Rightarrow> string option \<Rightarrow> domain_found option option" where
  "domain_verdict env cfg wl db q depth alias_of = do {
     let whitelisted = depth > 0;
     found \<leftarrow> (if \<not> whitelisted \<and> ends_with q ''.ip-adress.com'' then ip_adress_hit db q alias_of else Some None);
     found \<leftarrow> if_none found True (parent_walk db q depth alias_of 0);
     found \<leftarrow> if_none found (\<not> whitelisted \<and> alias_of = None \<and> use_heuristics cfg \<and> heuristic_enabled ''idn_homograph'' cfg)
       (homograph_hit wl q);
     found \<leftarrow> if_none found (\<not> whitelisted \<and> \<not> wild_empty env (td_regex db)) (wildcard_hit env db q alias_of);
     if_none found (\<not> whitelisted \<and> has q ''.onion.'') (onion_hit db q alias_of)
   }"

section \<open>The check behind its caches\<close>

definition dotted_number :: "string \<Rightarrow> bool" where
  "dotted_number s = (list_all (\<lambda>c. c = CHR ''.'' \<or> is_digit c) s \<and> list_ex is_digit s)"

text \<open>The part past the cache of clean names.\<close>

definition uncached_hit ::
    "'r outside \<Rightarrow> string \<Rightarrow> u32 option \<Rightarrow> string option \<Rightarrow> 'r worker_state \<Rightarrow> (domain_found option \<times> 'r worker_state) option" where
  "uncached_hit env q precomputed alias_of st = do {
     let verified = precomputed \<noteq> None;
     (depth, st) \<leftarrow> (case precomputed of Some v \<Rightarrow> Some (v, st) | None \<Rightarrow> check_domain_whitelist_depth env q st);
     found \<leftarrow> (if verified \<or> is_valid_dns_name q
               then domain_verdict env (ws_cfg st) (ws_whitelist st) (ws_trails st) q depth alias_of else Some None);
     if found = None \<and> alias_of = None
     then do {
       c \<leftarrow> lru_insert_if_seen_before (str_hash (hash_seed env)) q () (ws_domain_clean st);
       Some (None, st\<lparr>ws_domain_clean := c\<rparr>)
     }
     else Some (found, st)
   }"

definition domain_hit ::
    "'r outside \<Rightarrow> string \<Rightarrow> u32 option \<Rightarrow> string option \<Rightarrow> 'r worker_state \<Rightarrow> (domain_found option \<times> 'r worker_state) option" where
  "domain_hit env query precomputed alias_of st = do {
     let verified = precomputed \<noteq> None;
     let trimmed = (if verified then query else takeWhile (\<lambda>c. c \<noteq> CHR '':'') query);
     if dotted_number trimmed then Some (None, st)
     else do {
       let q = (if \<not> verified \<and> list_ex is_upper trimmed then lower_unicode env trimmed else trimmed);
       (seen, c) \<leftarrow> lru_get (str_hash (hash_seed env)) q (ws_domain_clean st);
       let st = st\<lparr>ws_domain_clean := c\<rparr>;
       if seen \<noteq> None then Some (None, bump (\<lambda>m. m\<lparr>m_cache_hits := m_cache_hits m + 1\<rparr>) st)
       else uncached_hit env q precomputed alias_of (bump (\<lambda>m. m\<lparr>m_cache_misses := m_cache_misses m + 1\<rparr>) st)
     }
   }"

definition check_domain_inner ::
    "'r outside \<Rightarrow> string \<Rightarrow> nat \<Rightarrow> nat \<Rightarrow> endpoints \<Rightarrow> string \<Rightarrow> u32 option \<Rightarrow> string option \<Rightarrow>
     'r worker_state \<Rightarrow> (bool \<times> 'r worker_state) option" where
  "check_domain_inner env query sec usec ep proto precomputed alias_of st = do {
     (found, st) \<leftarrow> domain_hit env query precomputed alias_of st;
     (case found of
        Some hit \<Rightarrow> Some (True, emit_ep sec usec ep proto ''DNS'' (FText (dh_trail hit)) (dh_info hit) (dh_reference hit) st)
      | None \<Rightarrow> Some (False, st))
   }"

definition check_domain ::
    "'r outside \<Rightarrow> string \<Rightarrow> nat \<Rightarrow> nat \<Rightarrow> endpoints \<Rightarrow> string \<Rightarrow> 'r worker_state \<Rightarrow> 'r worker_state option" where
  "check_domain env query sec usec ep proto st = map_option snd (check_domain_inner env query sec usec ep proto None None st)"

section \<open>The caches change no verdict\<close>

text \<open>What the compiled wildcard expression promises: a match lies within its subject.\<close>

definition outside_ok :: "'r outside \<Rightarrow> bool" where
  "outside_ok env \<longleftrightarrow> (\<forall>r q s f c. wild_find env r q = Some (s, f, c) \<longrightarrow> s \<le> f \<and> f \<le> length q)"

lemma impersonated_total: "wl_ok wl \<Longrightarrow> \<exists>r. impersonated q wl = Some r"
  by (simp add: impersonated_shape entry_spec)

lemma homograph_hit_total: "wl_ok wl \<Longrightarrow> \<exists>r. homograph_hit wl q = Some r"
  using impersonated_total by (auto simp: homograph_hit_def)

lemma parent_walk_total: "trails_ok db \<Longrightarrow> \<exists>r. parent_walk db q depth alias_of start = Some r"
  by (induction db q depth alias_of start rule: parent_walk.induct)
    (subst parent_walk.simps, auto simp: td_get_ok split: option.splits)

lemma wildcard_hit_total:
  assumes "trails_ok db" "outside_ok env"
  shows "\<exists>r. wildcard_hit env db q alias_of = Some r"
proof (cases "wild_find env (td_regex db) q")
  case (Some m)
  obtain s f c where m: "m = (s, f, c)" by (cases m)
  then have "s \<le> f" "f \<le> length q" using assms(2) Some unfolding outside_ok_def by blast+
  then have "b_slice q s f \<noteq> None" "b_slice q 0 s \<noteq> None" "b_from q f \<noteq> None"
    by (auto simp: b_slice_def b_from_def)
  then show ?thesis
    using Some m td_get_ok [OF assms(1)] by (auto simp: wildcard_hit_def Let_def split: option.split)
qed (simp add: wildcard_hit_def)

lemma if_none_total: "\<exists>r. later = Some r \<Longrightarrow> \<exists>r. if_none found cond later = Some r"
  by (auto simp: if_none_def)

lemma verdict_total:
  assumes "trails_ok db" "wl_ok wl" "outside_ok env"
  shows "\<exists>r. domain_verdict env cfg wl db q depth alias_of = Some r"
proof -
  have ip: "\<exists>r. ip_adress_hit db q alias_of = Some r" "\<exists>r. onion_hit db q alias_of = Some r"
    using td_get_ok [OF assms(1)] by (simp_all add: ip_adress_hit_def onion_hit_def Let_def)
  have bind: "\<exists>r. x = Some r \<Longrightarrow> (\<And>v. \<exists>r. f v = Some r) \<Longrightarrow> \<exists>r. Option.bind x f = Some r" for x :: "'x option" and f :: "'x \<Rightarrow> 'y option"
    by auto
  show ?thesis
    unfolding domain_verdict_def Let_def
    using ip parent_walk_total [OF assms(1)] wildcard_hit_total [OF assms(1,3)] homograph_hit_total [OF assms(2)]
    by (intro bind if_none_total) auto
qed

text \<open>The trail text of an alias is all that the name it stands for changes; the heuristics are left out.\<close>

definition hitless :: "domain_found option option \<Rightarrow> bool" where
  "hitless r \<longleftrightarrow> r = Some None"

lemma walk_step_alias:
  "walk_step q depth x start hit = None \<longleftrightarrow> walk_step q depth y start hit = None"
  "walk_step q depth x start hit = Some None \<longleftrightarrow> walk_step q depth y start hit = Some None"
  by (auto simp: walk_step_def Let_def split: option.splits)

lemma parent_walk_alias: "hitless (parent_walk db q depth x start) \<longleftrightarrow> hitless (parent_walk db q depth y start)"
proof (induction db q depth x start rule: parent_walk.induct)
  case (1 db q depth x start)
  note eqs = parent_walk.simps [of db q depth x start] parent_walk.simps [of db q depth y start]
  show ?case
  proof (cases "td_get (drop start q) db")
    case (Some hit)
    note go = "1.IH" [OF Some]
    show ?thesis
    proof (cases "walk_step q depth x start hit = None")
      case True
      then have "walk_step q depth y start hit = None" using walk_step_alias(1) by blast
      then show ?thesis using go [OF True] True Some unfolding eqs by (auto simp: hitless_def split: option.split)
    next
      case False
      then obtain a b where "walk_step q depth x start hit = Some a" "walk_step q depth y start hit = Some b"
        using walk_step_alias(1) [of q depth x start hit y] by auto
      then show ?thesis using walk_step_alias(2) [of q depth x start hit y] Some unfolding eqs by (simp add: hitless_def)
    qed
  qed (simp add: eqs hitless_def)
qed

lemma wildcard_hit_alias: "hitless (wildcard_hit env db q x) \<longleftrightarrow> hitless (wildcard_hit env db q y)"
  by (auto simp: wildcard_hit_def hitless_def Let_def split: option.splits Option.bind_splits)

lemma if_none_hitless: "Option.bind x (\<lambda>found. if_none found cond later) = Some None \<longleftrightarrow> x = Some None \<and> (cond \<longrightarrow> later = Some None)"
  by (auto simp: if_none_def split: Option.bind_splits if_splits)

lemma verdict_hitless:
  "domain_verdict env cfg wl db q depth alias_of = Some None \<longleftrightarrow>
     (depth = 0 \<and> ends_with q ''.ip-adress.com'' \<longrightarrow> hitless (ip_adress_hit db q alias_of)) \<and>
     hitless (parent_walk db q depth alias_of 0) \<and>
     (depth = 0 \<and> alias_of = None \<and> use_heuristics cfg \<and> heuristic_enabled ''idn_homograph'' cfg \<longrightarrow> hitless (homograph_hit wl q)) \<and>
     (depth = 0 \<and> \<not> wild_empty env (td_regex db) \<longrightarrow> hitless (wildcard_hit env db q alias_of)) \<and>
     (depth = 0 \<and> has q ''.onion.'' \<longrightarrow> hitless (onion_hit db q alias_of))"
proof -
  have assoc: "Option.bind x (\<lambda>a. Option.bind (f a) g) = Option.bind (Option.bind x f) g" for x :: "'x option" and f :: "'x \<Rightarrow> 'y option" and g :: "'y \<Rightarrow> 'z option"
    by (cases x) auto
  show ?thesis
    unfolding domain_verdict_def Let_def assoc if_none_hitless hitless_def
    by (auto simp: word_gt_0)
qed

lemma alias_hits_are_hits:
  assumes "domain_verdict env cfg wl db q depth None = Some None"
  shows "domain_verdict env cfg wl db q depth (Some a) = Some None"
proof -
  have "hitless (ip_adress_hit db q x) \<longleftrightarrow> hitless (ip_adress_hit db q y)" "hitless (onion_hit db q x) \<longleftrightarrow> hitless (onion_hit db q y)" for x y
    by (auto simp: hitless_def ip_adress_hit_def onion_hit_def Let_def)
  then show ?thesis
    using assms parent_walk_alias [of db q depth None 0 "Some a"] wildcard_hit_alias [of env db q None "Some a"]
    unfolding verdict_hitless by blast
qed

text \<open>The name a text asks about, and the verdict on it computed afresh.\<close>

definition asked_name :: "'r outside \<Rightarrow> string \<Rightarrow> string option" where
  "asked_name env query =
     (let trimmed = takeWhile (\<lambda>c. c \<noteq> CHR '':'') query
      in if dotted_number trimmed then None
         else Some (if list_ex is_upper trimmed then lower_unicode env trimmed else trimmed))"

definition fresh_verdict ::
    "'r outside \<Rightarrow> config \<Rightarrow> whitelist \<Rightarrow> 'r trail_db \<Rightarrow> string \<Rightarrow> string option \<Rightarrow> domain_found option option" where
  "fresh_verdict env cfg wl db q alias_of =
     (if is_valid_dns_name q then domain_verdict env cfg wl db q (whitelist_depth wl q) alias_of else Some None)"

definition fresh_hit ::
    "'r outside \<Rightarrow> config \<Rightarrow> whitelist \<Rightarrow> 'r trail_db \<Rightarrow> string \<Rightarrow> string option \<Rightarrow> domain_found option option" where
  "fresh_hit env cfg wl db query alias_of =
     (case asked_name env query of None \<Rightarrow> Some None | Some q \<Rightarrow> fresh_verdict env cfg wl db q alias_of)"

definition is_clean :: "'r outside \<Rightarrow> 'r worker_state \<Rightarrow> string \<Rightarrow> bool" where
  "is_clean env st q \<longleftrightarrow> fresh_verdict env (ws_cfg st) (ws_whitelist st) (ws_trails st) q None = Some None"

definition domain_ok :: "'r outside \<Rightarrow> 'r worker_state \<Rightarrow> bool" where
  "domain_ok env st \<longleftrightarrow>
     wl_ok (ws_whitelist st) \<and> trails_ok (ws_trails st) \<and> outside_ok env \<and>
     memo_of (hash_seed env) (whitelist_depth (ws_whitelist st)) (ws_domain_whitelisted st) \<and>
     only_holds (hash_seed env) (is_clean env st) (ws_domain_clean st)"

text \<open>What the DNS path hands over: a name already checked, and its whitelist verdict.\<close>

definition handed_over :: "'r worker_state \<Rightarrow> string \<Rightarrow> u32 option \<Rightarrow> bool" where
  "handed_over st query precomputed \<longleftrightarrow> (case precomputed of
     None \<Rightarrow> True
   | Some d \<Rightarrow> d = whitelist_depth (ws_whitelist st) query \<and> is_valid_dns_name query \<and> \<not> list_ex is_upper query)"

text \<open>A check of a name touches the two caches and the counters, nothing else.\<close>

definition domain_frame :: "'r worker_state \<Rightarrow> 'r worker_state \<Rightarrow> bool" where
  "domain_frame st st' \<longleftrightarrow> (\<exists>c w m. st' = st\<lparr>ws_domain_clean := c, ws_domain_whitelisted := w, ws_metrics := m\<rparr>)"

lemma domain_frame_simps:
  assumes "domain_frame st st'"
  shows "ws_cfg st' = ws_cfg st" "ws_whitelist st' = ws_whitelist st" "ws_trails st' = ws_trails st" "ws_sink st' = ws_sink st"
  using assms by (auto simp: domain_frame_def)

lemma domain_frame_refl: "domain_frame st st"
proof -
  have "st = st\<lparr>ws_domain_clean := ws_domain_clean st, ws_domain_whitelisted := ws_domain_whitelisted st, ws_metrics := ws_metrics st\<rparr>"
    by simp
  then show ?thesis unfolding domain_frame_def by blast
qed

lemma domain_frame_update:
  assumes "domain_frame st st'"
  shows "domain_frame st (st'\<lparr>ws_domain_clean := c\<rparr>)" "domain_frame st (st'\<lparr>ws_domain_whitelisted := w\<rparr>)" "domain_frame st (bump f st')"
proof -
  obtain c' w' m where "st' = st\<lparr>ws_domain_clean := c', ws_domain_whitelisted := w', ws_metrics := m\<rparr>"
    using assms by (auto simp: domain_frame_def)
  then have "st'\<lparr>ws_domain_clean := c\<rparr> = st\<lparr>ws_domain_clean := c, ws_domain_whitelisted := w', ws_metrics := m\<rparr>"
    "st'\<lparr>ws_domain_whitelisted := w\<rparr> = st\<lparr>ws_domain_clean := c', ws_domain_whitelisted := w, ws_metrics := m\<rparr>"
    "bump f st' = st\<lparr>ws_domain_clean := c', ws_domain_whitelisted := w', ws_metrics := f m\<rparr>"
    by (simp_all add: bump_def)
  then show "domain_frame st (st'\<lparr>ws_domain_clean := c\<rparr>)" "domain_frame st (st'\<lparr>ws_domain_whitelisted := w\<rparr>)" "domain_frame st (bump f st')"
    unfolding domain_frame_def by blast+
qed

lemma domain_ok_clean: "domain_ok env st \<Longrightarrow> only_holds (hash_seed env) (is_clean env st) c \<Longrightarrow> domain_ok env (st\<lparr>ws_domain_clean := c\<rparr>)"
  by (simp add: domain_ok_def is_clean_def [abs_def])

lemma domain_ok_bump: "domain_ok env st \<Longrightarrow> domain_ok env (bump f st)"
  by (simp add: domain_ok_def is_clean_def [abs_def] bump_def)

lemma domain_ok_memo: "domain_ok env st \<Longrightarrow> memo_of (hash_seed env) (whitelist_depth (ws_whitelist st)) w \<Longrightarrow> domain_ok env (st\<lparr>ws_domain_whitelisted := w\<rparr>)"
  by (simp add: domain_ok_def is_clean_def [abs_def])

lemma valid_name_chars: "is_valid_dns_name q \<Longrightarrow> list_all name_char q"
  by (auto simp: dns_name_check_is_its_pattern list_all_iff name_char_def tld_char_def)

lemma name_char_plain: "name_char c \<Longrightarrow> c \<noteq> CHR '':'' \<and> c \<noteq> CHR ''('' \<and> is_ascii c"
  by (auto simp: name_char_def is_alnum_def is_digit_def is_lower_def is_upper_def is_ascii_def code_def)

lemma handed_over_name:
  assumes "is_valid_dns_name q" "\<not> list_ex is_upper q"
  shows "takeWhile (\<lambda>c. c \<noteq> CHR '':'') q = q" "asked_name env q = (if dotted_number q then None else Some q)"
proof -
  have all: "takeWhile (\<lambda>c. c \<noteq> CHR '':'') q = q"
    using valid_name_chars [OF assms(1)] name_char_plain by (simp add: takeWhile_eq_all_conv list_all_iff)
  show "takeWhile (\<lambda>c. c \<noteq> CHR '':'') q = q" by (rule all)
  show "asked_name env q = (if dotted_number q then None else Some q)"
    unfolding asked_name_def all using assms(2) by simp
qed

lemma fresh_verdict_total:
  assumes "domain_ok env st"
  shows "\<exists>r. fresh_verdict env (ws_cfg st) (ws_whitelist st) (ws_trails st) q alias_of = Some r"
proof (cases "is_valid_dns_name q")
  case True
  have "\<exists>r. domain_verdict env (ws_cfg st) (ws_whitelist st) (ws_trails st) q (whitelist_depth (ws_whitelist st) q) alias_of = Some r"
    using assms by (intro verdict_total) (simp_all add: domain_ok_def)
  then show ?thesis using True by (simp add: fresh_verdict_def)
qed (simp add: fresh_verdict_def)

lemma fresh_hit_total: "domain_ok env st \<Longrightarrow> \<exists>r. fresh_hit env (ws_cfg st) (ws_whitelist st) (ws_trails st) query alias_of = Some r"
  using fresh_verdict_total by (auto simp: fresh_hit_def split: option.split)

text \<open>The part of the check behind the cache of clean names.\<close>

lemma depth_known:
  assumes "domain_ok env st" "handed_over st q precomputed"
  shows "\<exists>st'. (case precomputed of Some v \<Rightarrow> Some (v, st) | None \<Rightarrow> check_domain_whitelist_depth env q st) =
      Some (whitelist_depth (ws_whitelist st) q, st') \<and> domain_ok env st' \<and> domain_frame st st'"
proof (cases precomputed)
  case None
  have "wl_ok (ws_whitelist st)" "memo_of (hash_seed env) (whitelist_depth (ws_whitelist st)) (ws_domain_whitelisted st)"
    using assms(1) by (simp_all add: domain_ok_def)
  from whitelist_depth_cached [OF this, of q] show ?thesis
    using None domain_ok_memo [OF assms(1)] domain_frame_update(2) [OF domain_frame_refl] by auto
next
  case (Some v)
  then show ?thesis using assms domain_frame_refl by (simp add: handed_over_def)
qed

lemma verdict_reached:
  assumes ok: "domain_ok env st" and h: "handed_over st q precomputed"
  shows "\<exists>found st'. uncached_hit env q precomputed alias_of st = Some (found, st') \<and>
    fresh_verdict env (ws_cfg st) (ws_whitelist st) (ws_trails st) q alias_of = Some found \<and> domain_ok env st' \<and> domain_frame st st'"
proof -
  define fresh where "fresh = fresh_verdict env (ws_cfg st) (ws_whitelist st) (ws_trails st) q alias_of"
  obtain st1 where st1: "(case precomputed of Some v \<Rightarrow> Some (v, st) | None \<Rightarrow> check_domain_whitelist_depth env q st) =
      Some (whitelist_depth (ws_whitelist st) q, st1)" "domain_ok env st1" "domain_frame st st1"
    using depth_known [OF ok h] by blast
  note same = domain_frame_simps [OF st1(3)]
  have valid: "precomputed \<noteq> None \<or> is_valid_dns_name q \<longleftrightarrow> is_valid_dns_name q"
    using h by (auto simp: handed_over_def)
  have v: "(if precomputed \<noteq> None \<or> is_valid_dns_name q
      then domain_verdict env (ws_cfg st1) (ws_whitelist st1) (ws_trails st1) q (whitelist_depth (ws_whitelist st) q) alias_of else Some None) = fresh"
    unfolding fresh_def fresh_verdict_def valid same ..
  obtain found where found: "fresh = Some found"
    using fresh_verdict_total [OF ok, of q alias_of] by (auto simp: fresh_def)
  have run: "uncached_hit env q precomputed alias_of st =
      (if found = None \<and> alias_of = None
       then do {
         c \<leftarrow> lru_insert_if_seen_before (str_hash (hash_seed env)) q () (ws_domain_clean st1);
         Some (None, st1\<lparr>ws_domain_clean := c\<rparr>)
       }
       else Some (found, st1))"
    by (simp only: uncached_hit_def Let_def st1(1) Option.bind.simps prod.case v found)
  show ?thesis
  proof (cases "found = None \<and> alias_of = None")
    case True
    then have "is_clean env st1 q" using found unfolding is_clean_def same fresh_def by simp
    moreover have "only_holds (hash_seed env) (is_clean env st1) (ws_domain_clean st1)" using st1(2) by (simp add: domain_ok_def)
    ultimately obtain c where c: "lru_insert_if_seen_before (str_hash (hash_seed env)) q () (ws_domain_clean st1) = Some c"
      "only_holds (hash_seed env) (is_clean env st1) c"
      using only_holds_put [of "hash_seed env" "is_clean env st1" "ws_domain_clean st1" q "()"] by blast
    have "uncached_hit env q precomputed alias_of st = Some (None, st1\<lparr>ws_domain_clean := c\<rparr>)"
      unfolding run using True c(1) by simp
    then show ?thesis
      using found True domain_ok_clean [OF st1(2) c(2)] domain_frame_update(1) [OF st1(3), of c] unfolding fresh_def by blast
  next
    case False
    then have "uncached_hit env q precomputed alias_of st = Some (found, st1)" unfolding run by auto
    then show ?thesis using st1(2,3) found unfolding fresh_def by blast
  qed
qed

lemma seen_is_clean:
  assumes "domain_ok env st"
  shows "\<exists>c. lru_get (str_hash (hash_seed env)) q (ws_domain_clean st) = Some (cached (str_hash (hash_seed env)) (ws_domain_clean st) q, c) \<and>
    domain_ok env (st\<lparr>ws_domain_clean := c\<rparr>) \<and>
    (cached (str_hash (hash_seed env)) (ws_domain_clean st) q \<noteq> None \<longrightarrow> is_clean env st q)"
proof -
  have h: "only_holds (hash_seed env) (is_clean env st) (ws_domain_clean st)" using assms by (simp add: domain_ok_def)
  show ?thesis using only_holds_get [OF h, of q] domain_ok_clean [OF assms] h by (auto simp: only_holds_def)
qed

lemma clean_alias:
  "is_clean env st q \<Longrightarrow> fresh_verdict env (ws_cfg st) (ws_whitelist st) (ws_trails st) q alias_of = Some None"
  using alias_hits_are_hits by (cases alias_of) (auto simp: is_clean_def fresh_verdict_def split: if_splits)

lemma domain_hit_spec:
  assumes ok: "domain_ok env st" and h: "handed_over st query precomputed"
  shows "\<exists>found st'. domain_hit env query precomputed alias_of st = Some (found, st') \<and>
    fresh_hit env (ws_cfg st) (ws_whitelist st) (ws_trails st) query alias_of = Some found \<and> domain_ok env st' \<and> domain_frame st st'"
proof -
  define trimmed where "trimmed = (if precomputed \<noteq> None then query else takeWhile (\<lambda>c. c \<noteq> CHR '':'') query)"
  define q where "q = (if \<not> precomputed \<noteq> None \<and> list_ex is_upper trimmed then lower_unicode env trimmed else trimmed)"
  have asked: "asked_name env query = (if dotted_number trimmed then None else Some q)"
  proof (cases precomputed)
    case None
    then show ?thesis by (simp add: asked_name_def trimmed_def q_def Let_def)
  next
    case (Some d)
    then have "is_valid_dns_name query" "\<not> list_ex is_upper query" using h by (simp_all add: handed_over_def)
    from handed_over_name(2) [OF this, of env] show ?thesis using Some by (simp add: trimmed_def q_def)
  qed
  show ?thesis
  proof (cases "dotted_number trimmed")
    case True
    then have "domain_hit env query precomputed alias_of st = Some (None, st)"
      unfolding domain_hit_def Let_def trimmed_def [symmetric] by simp
    moreover have "fresh_hit env (ws_cfg st) (ws_whitelist st) (ws_trails st) query alias_of = Some None"
      using asked True by (simp add: fresh_hit_def)
    ultimately show ?thesis using ok domain_frame_refl by auto
  next
    case False
    have fresh: "fresh_hit env (ws_cfg st) (ws_whitelist st) (ws_trails st) query alias_of =
        fresh_verdict env (ws_cfg st) (ws_whitelist st) (ws_trails st) q alias_of"
      using asked False by (simp add: fresh_hit_def)
    obtain c where c: "lru_get (str_hash (hash_seed env)) q (ws_domain_clean st) = Some (cached (str_hash (hash_seed env)) (ws_domain_clean st) q, c)"
      "domain_ok env (st\<lparr>ws_domain_clean := c\<rparr>)"
      "cached (str_hash (hash_seed env)) (ws_domain_clean st) q \<noteq> None \<longrightarrow> is_clean env st q"
      using seen_is_clean [OF ok, of q] by blast
    have frame: "domain_frame st (bump f (st\<lparr>ws_domain_clean := c\<rparr>))" for f
      by (intro domain_frame_update(3) domain_frame_update(1) domain_frame_refl)
    show ?thesis
    proof (cases "cached (str_hash (hash_seed env)) (ws_domain_clean st) q = None")
      case seen: False
      then have "domain_hit env query precomputed alias_of st =
          Some (None, bump (\<lambda>m. m\<lparr>m_cache_hits := m_cache_hits m + 1\<rparr>) (st\<lparr>ws_domain_clean := c\<rparr>))"
        unfolding domain_hit_def Let_def trimmed_def [symmetric] q_def [symmetric] using False c(1) by simp
      then show ?thesis
        using fresh clean_alias c seen frame domain_ok_bump by fastforce
    next
      case unseen: True
      define st1 where "st1 = bump (\<lambda>m. m\<lparr>m_cache_misses := m_cache_misses m + 1\<rparr>) (st\<lparr>ws_domain_clean := c\<rparr>)"
      have same: "domain_ok env st1" "domain_frame st st1" using c(2) frame domain_ok_bump by (simp_all add: st1_def)
      have h1: "handed_over st1 q precomputed"
        using h by (auto simp: handed_over_def st1_def bump_def q_def trimmed_def split: option.splits)
      have e: "ws_cfg st1 = ws_cfg st" "ws_whitelist st1 = ws_whitelist st" "ws_trails st1 = ws_trails st"
        by (simp_all add: st1_def bump_def)
      have step: "domain_hit env query precomputed alias_of st = uncached_hit env q precomputed alias_of st1"
        unfolding domain_hit_def Let_def trimmed_def [symmetric] q_def [symmetric] using False unseen c(1) by (simp add: st1_def)
      obtain found st' where
        "domain_hit env query precomputed alias_of st = Some (found, st')"
        "fresh_verdict env (ws_cfg st1) (ws_whitelist st1) (ws_trails st1) q alias_of = Some found"
        "domain_ok env st'" "domain_frame st1 st'"
        using verdict_reached [OF same(1) h1, of alias_of] unfolding step by blast
      moreover have "domain_frame st st'"
        using same(2) \<open>domain_frame st1 st'\<close> unfolding domain_frame_def by (elim exE) (simp, blast)
      ultimately show ?thesis unfolding fresh e by blast
    qed
  qed
qed

section \<open>The most specific trail wins\<close>

text \<open>Among the tails of the labels, the longest that is a trail worth reporting.\<close>

definition reported_tail :: "'r trail_db \<Rightarrow> string \<Rightarrow> string list \<Rightarrow> bool" where
  "reported_tail db q ls \<longleftrightarrow> (case trail_of db (join ''.'' ls) of
     None \<Rightarrow> False
   | Some (info, reference) \<Rightarrow> \<not> skip_trail q (ls = split_on (CHR ''.'') q) info)"

definition most_specific :: "'r trail_db \<Rightarrow> string \<Rightarrow> string list option" where
  "most_specific db q = find (reported_tail db q) (tails (split_on (CHR ''.'') q))"

text \<open>The labels before a tail in parentheses, then the tail.\<close>

definition bracketed :: "string \<Rightarrow> string list \<Rightarrow> string" where
  "bracketed q ls =
     (let all = split_on (CHR ''.'') q; before = take (length all - length ls) all
      in if before = [] then q else ''('' @ join ''.'' before @ '').'' @ join ''.'' ls)"

definition tail_hit :: "'r trail_db \<Rightarrow> string \<Rightarrow> string option \<Rightarrow> string list \<Rightarrow> domain_found" where
  "tail_hit db q alias_of ls =
     (case trail_of db (join ''.'' ls) of
        Some (info, reference) \<Rightarrow> \<lparr>dh_trail = alias_trail (bracketed q ls) alias_of, dh_info = info, dh_reference = reference\<rparr>)"

lemma split_first: "find_char s (CHR ''.'') = Some i \<Longrightarrow> split_on (CHR ''.'') s = take i s # split_on (CHR ''.'') (drop (i + 1) s)"
  using find_char_Some [of s "CHR ''.''" i] split_on_append [of "CHR ''.''" "take i s" "drop (i + 1) s"] id_take_nth_drop [of i s]
  by simp

lemma find_char_None: "find_char s c = None \<Longrightarrow> c \<notin> set s"
  by (induction s) (auto split: if_splits)

lemma join_snoc: "pre \<noteq> [] \<Longrightarrow> ls \<noteq> [] \<Longrightarrow> join sep (pre @ ls) = join sep pre @ sep @ join sep ls"
  by (induction pre rule: induct_list012) (auto simp: neq_Nil_conv)

lemma join_single: "pre \<noteq> [] \<Longrightarrow> length (join ''.'' (pre @ [l])) = length (join ''.'' pre) + 1 + length l"
  by (simp add: join_snoc)

text \<open>Where the walk stands: after the labels \<open>pre\<close> and their dots.\<close>

definition standing :: "string \<Rightarrow> string list \<Rightarrow> nat \<Rightarrow> bool" where
  "standing q pre start \<longleftrightarrow>
     (if pre = [] then start = 0
      else start = length (join ''.'' pre) + 1 \<and> start \<le> length q \<and> take (start - 1) q = join ''.'' pre \<and> q ! (start - 1) = CHR ''.'') \<and>
     split_on (CHR ''.'') q = pre @ split_on (CHR ''.'') (drop start q)"

lemma standing_next:
  assumes "standing q pre start" "find_char (drop start q) (CHR ''.'') = Some rel"
  shows "standing q (pre @ [take rel (drop start q)]) (start + rel + 1)"
proof -
  note f = find_char_Some [OF assms(2)]
  have q: "take start q = (if pre = [] then [] else join ''.'' pre @ ''.'')"
    using assms(1) by (auto simp: standing_def take_Suc_conv_app_nth split: if_splits)
  have len: "start + rel < length q" using f by (simp add: less_diff_conv add.commute)
  then have tk: "take (start + rel) q = take start q @ take rel (drop start q)" by (simp add: take_add)
  have "join ''.'' (pre @ [take rel (drop start q)]) = take (start + rel) q"
    unfolding tk q by (cases "pre = []") (simp_all add: join_snoc)
  moreover have "length (take (start + rel) q) = start + rel" using len by simp
  moreover have "q ! (start + rel) = CHR ''.''" using f len by simp
  moreover have "split_on (CHR ''.'') q = (pre @ [take rel (drop start q)]) @ split_on (CHR ''.'') (drop (start + rel + 1) q)"
    using assms(1) split_first [OF assms(2)] by (simp add: standing_def add.commute add.left_commute)
  ultimately show ?thesis using len by (simp add: standing_def)
qed

lemma standing_bracketed:
  assumes "standing q pre start"
  shows "(if start = 0 then q else ''('' @ take (start - 1) q @ '')'' @ drop (start - 1) q) =
     bracketed q (split_on (CHR ''.'') (drop start q))"
proof -
  have all: "split_on (CHR ''.'') q = pre @ split_on (CHR ''.'') (drop start q)" using assms by (simp add: standing_def)
  show ?thesis
  proof (cases "pre = []")
    case True
    then show ?thesis using assms all by (simp add: standing_def bracketed_def)
  next
    case False
    then have s: "0 < start" "start \<le> length q" "take (start - 1) q = join ''.'' pre" "q ! (start - 1) = CHR ''.''"
      using assms by (auto simp: standing_def)
    then have "drop (start - 1) q = CHR ''.'' # drop start q"
      using Cons_nth_drop_Suc [of "start - 1" q] by simp
    then show ?thesis using s False all by (simp add: bracketed_def join_split)
  qed
qed

lemma standing_start: "standing q pre start \<Longrightarrow> start = 0 \<longleftrightarrow> split_on (CHR ''.'') (drop start q) = split_on (CHR ''.'') q"
  by (auto simp: standing_def split: if_splits)

lemma label_number: "of_nat (count_list s (CHR ''.'')) + 1 = (of_nat (length (split_on (CHR ''.'') s)) :: u32)"
proof -
  have "\<forall>l \<in> set (split_on (CHR ''.'') s). CHR ''.'' \<notin> set l" using split_no_dot by blast
  from join_dots [OF split_on_nonempty this] have "length (split_on (CHR ''.'') s) = count_list s (CHR ''.'') + 1"
    by (simp add: join_split)
  then show ?thesis by simp
qed

lemma walk_step_spec:
  assumes "standing q pre start"
  defines "ls \<equiv> split_on (CHR ''.'') (drop start q)"
  shows "walk_step q depth alias_of start (trail_of db (drop start q)) =
    (if reported_tail db q ls then Some (if depth < of_nat (length ls) then Some (tail_hit db q alias_of ls) else None) else None)"
proof -
  have j: "join ''.'' ls = drop start q" by (simp add: ls_def join_split)
  note b = standing_bracketed [OF assms(1), folded ls_def]
  note w = standing_start [OF assms(1), folded ls_def]
  note n = label_number [of "drop start q", folded ls_def]
  show ?thesis
  proof (cases "trail_of db (drop start q)")
    case None
    then show ?thesis by (simp add: walk_step_def reported_tail_def j)
  next
    case (Some p)
    obtain i r where "p = (i, r)" by (cases p)
    then show ?thesis
      using Some unfolding walk_step_def reported_tail_def tail_hit_def Let_def j b n by (simp add: w)
  qed
qed

lemma parent_walk_spec:
  assumes "trails_ok db" "standing q pre start"
  shows "parent_walk db q depth alias_of start =
    Some (case find (reported_tail db q) (tails (split_on (CHR ''.'') (drop start q))) of
      None \<Rightarrow> None
    | Some ls \<Rightarrow> if depth < of_nat (length ls) then Some (tail_hit db q alias_of ls) else None)"
  using assms
proof (induction db q depth alias_of start arbitrary: pre rule: parent_walk.induct)
  case (1 db q depth alias_of start)
  let ?ls = "split_on (CHR ''.'') (drop start q)"
  note step = walk_step_spec [OF "1.prems"(2), of depth alias_of db]
  note get = td_get_ok [OF "1.prems"(1), of "drop start q"]
  note eq = parent_walk.simps [of db q depth alias_of start]
  obtain l ls where ls: "?ls = l # ls" using split_on_nonempty by (meson neq_Nil_conv)
  show ?case
  proof (cases "reported_tail db q ?ls")
    case True
    then show ?thesis unfolding eq get using step ls by simp
  next
    case no: False
    then have none: "walk_step q depth alias_of start (trail_of db (drop start q)) = None" using step by simp
    show ?thesis
    proof (cases "find_char (drop start q) (CHR ''.'')")
      case None
      then have "?ls = [drop start q]" using find_char_None split_on_no by blast
      then show ?thesis unfolding eq get using none None no by simp
    next
      case (Some rel)
      have "parent_walk db q depth alias_of start = parent_walk db q depth alias_of (start + rel + 1)"
        unfolding eq get using none Some by simp
      moreover have "?ls = take rel (drop start q) # split_on (CHR ''.'') (drop (start + rel + 1) q)"
        using split_first [OF Some] by (simp add: add.commute add.left_commute)
      ultimately show ?thesis
        using "1.IH" [OF get none Some "1.prems"(1) standing_next [OF "1.prems"(2) Some]] no by simp
    qed
  qed
qed

text \<open>C2: longest match: when an ancestor of a name is whitelisted, at a depth of \<open>d\<close> labels, the check reports
  the name exactly when the most specific of its trails (those a provider or infrastructure rule does not
  exempt) has more labels than \<open>d\<close>, and reports that trail; a whitelist entry at least as specific hides it and
  every less specific trail, and neither wildcards nor heuristics are asked.\<close>
theorem most_specific_trail_beats_whitelist:
  assumes "trails_ok db" "0 < depth"
  shows "domain_verdict env cfg wl db q depth alias_of =
    Some (case most_specific db q of
      None \<Rightarrow> None
    | Some ls \<Rightarrow> if depth < of_nat (length ls) then Some (tail_hit db q alias_of ls) else None)"
proof -
  have "standing q [] 0" by (simp add: standing_def)
  from parent_walk_spec [OF assms(1) this, of depth alias_of] show ?thesis
    using assms(2) by (simp add: domain_verdict_def most_specific_def if_none_def)
qed

definition sample_config :: config where
  "sample_config = \<lparr>use_heuristics = True, check_tls_sni = True, check_tls_fingerprints = True, check_host_domains = True,
     check_missing_host = False, domain_cache_entries = 1000, scan_window_cfg = 60, disabled_heuristics = [], use_condensed_storage = True\<rparr>"

lemma sample_skip: "\<not> skip_trail ''x.bad.cloudfront.net'' False ''malware''"
  by code_simp

theorem most_specific_trail_beats_whitelist_witness:
  "\<exists>db wl. trail_of db ''bad.cloudfront.net'' = Some (''malware'', ''(static)'') \<and>
     domain_verdict sample_outside sample_config wl db ''x.bad.cloudfront.net'' 2 None =
       Some (Some \<lparr>dh_trail = ''(x).bad.cloudfront.net'', dh_info = ''malware'', dh_reference = ''(static)''\<rparr>)"
proof -
  let ?q = "''x.bad.cloudfront.net''"
  obtain db :: "unit trail_db" where db: "trails_ok db" "trail_of db = (\<lambda>k. if k = ''bad.cloudfront.net'' then Some (''malware'', ''(static)'') else None)"
    using sample_db .
  have l: "split_on (CHR ''.'') ?q = [''x'', ''bad'', ''cloudfront'', ''net'']" by code_simp
  have "most_specific db ?q = Some [''bad'', ''cloudfront'', ''net'']"
    unfolding most_specific_def l using sample_skip by (simp add: reported_tail_def db(2) l)
  moreover have "tail_hit db ?q None [''bad'', ''cloudfront'', ''net''] =
      \<lparr>dh_trail = ''(x).bad.cloudfront.net'', dh_info = ''malware'', dh_reference = ''(static)''\<rparr>"
    by (simp add: tail_hit_def db(2) bracketed_def l alias_trail_def)
  ultimately show ?thesis
    using most_specific_trail_beats_whitelist [OF db(1), of 2 sample_outside sample_config undefined ?q None] db(2)
    by (intro exI [of _ db] exI [of _ undefined]) simp
qed

text \<open>Checks in a row, and the hits they make.\<close>

fun hits_of :: "'r outside \<Rightarrow> (string \<times> string option) list \<Rightarrow> 'r worker_state \<Rightarrow> (domain_found option list \<times> 'r worker_state) option" where
  "hits_of env [] st = Some ([], st)"
| "hits_of env ((query, alias_of) # asks) st = do {
     (found, st) \<leftarrow> domain_hit env query None alias_of st;
     (hits, st) \<leftarrow> hits_of env asks st;
     Some (found # hits, st)
   }"

lemma domain_frame_trans: "domain_frame a b \<Longrightarrow> domain_frame b c \<Longrightarrow> domain_frame a c"
  unfolding domain_frame_def by (elim exE) (simp, blast)

lemma hits_of_spec:
  "domain_ok env st \<Longrightarrow> \<exists>hits st'. hits_of env asks st = Some (hits, st') \<and> domain_ok env st' \<and> domain_frame st st' \<and>
     map Some hits = map (\<lambda>(query, alias_of). fresh_hit env (ws_cfg st) (ws_whitelist st) (ws_trails st) query alias_of) asks"
proof (induction asks arbitrary: st)
  case Nil
  then show ?case using domain_frame_refl by simp
next
  case (Cons a asks)
  obtain query alias_of where a: "a = (query, alias_of)" by (cases a)
  have "handed_over st query None" by (simp add: handed_over_def)
  from domain_hit_spec [OF Cons.prems this, of alias_of] obtain found st1 where
    one: "domain_hit env query None alias_of st = Some (found, st1)" "domain_ok env st1" "domain_frame st st1"
      "fresh_hit env (ws_cfg st) (ws_whitelist st) (ws_trails st) query alias_of = Some found" by blast
  note same = domain_frame_simps [OF one(3)]
  from Cons.IH [OF one(2)] obtain hits st2 where
    two: "hits_of env asks st1 = Some (hits, st2)" "domain_ok env st2" "domain_frame st1 st2"
      "map Some hits = map (\<lambda>(query, alias_of). fresh_hit env (ws_cfg st) (ws_whitelist st) (ws_trails st) query alias_of) asks"
    unfolding same by blast
  show ?case
    using one two domain_frame_trans [OF one(3) two(3)] by (intro exI [of _ "found # hits"] exI [of _ st2]) (simp add: a)
qed

lemma domain_ok_new:
  assumes "wl_ok wl" "trails_ok db" "outside_ok env" "domain_cache_entries cfg < nil"
  shows "domain_ok env (worker_new cfg scan wl db)"
proof -
  have "ws_whitelist (worker_new cfg scan wl db) = wl" "ws_trails (worker_new cfg scan wl db) = db"
    "ws_domain_clean (worker_new cfg scan wl db) = with_admission_filter domain_admission (lru_new (domain_cache_entries cfg))"
    "ws_domain_whitelisted (worker_new cfg scan wl db) = with_admission_filter domain_admission (lru_new (domain_cache_entries cfg))"
    by (simp_all add: worker_new_def)
  then show ?thesis using assms by (simp add: domain_ok_def memo_new only_holds_new)
qed

text \<open>C3: the caches change no verdict: a fresh worker asked any sequence of names (with or without an alias they
  stand for) finds on each exactly what the trails, the whitelist and the heuristics say of that name alone,
  however often it was asked before and whatever was evicted; no check panics and none writes an event.\<close>
theorem caches_change_no_hit:
  assumes "wl_load texts = Some wl" "length (wl_lines texts) < 2 ^ 58" "trails_ok db" "outside_ok env" "domain_cache_entries cfg < nil"
  shows "\<exists>hits st'. hits_of env asks (worker_new cfg scan wl db) = Some (hits, st') \<and> ws_sink st' = [] \<and>
    map Some hits = map (\<lambda>(query, alias_of). fresh_hit env cfg wl db query alias_of) asks"
proof -
  have "wl_ok wl" using wl_load_spec [OF assms(2)] assms(1) by auto
  from hits_of_spec [OF domain_ok_new [OF this assms(3-5)], of asks scan] show ?thesis
    by (auto dest!: domain_frame_simps(4) simp: worker_new_def)
qed

lemma sample_outside_ok: "outside_ok sample_outside"
  by (simp add: outside_ok_def sample_outside_def)

theorem caches_change_no_hit_witness:
  "\<exists>db wl hits st'. hits_of sample_outside [(''10.0.0.1:80'', None), (''10.0.0.1:80'', Some ''a.b'')] (worker_new sample_config scan_default wl db) =
     Some (hits, st') \<and> hits = [None, None]"
proof -
  obtain db :: "unit trail_db" where db: "trails_ok db" using sample_db by metis
  have t: "length (wl_lines []) < 2 ^ 58" by (simp add: wl_lines_def)
  obtain wl where wl: "wl_load [] = Some wl" using wl_load_spec [OF t] by blast
  have n: "asked_name sample_outside ''10.0.0.1:80'' = None" by code_simp
  have "domain_cache_entries sample_config < nil" by (simp add: sample_config_def nil_def)
  from caches_change_no_hit [OF wl t db sample_outside_ok this, of "[(''10.0.0.1:80'', None), (''10.0.0.1:80'', Some ''a.b'')]" scan_default]
  obtain hits st' where "hits_of sample_outside [(''10.0.0.1:80'', None), (''10.0.0.1:80'', Some ''a.b'')] (worker_new sample_config scan_default wl db) = Some (hits, st')"
    "map Some hits = [Some None, Some None]"
    by (auto simp: fresh_hit_def n)
  then show ?thesis by blast
qed

section \<open>A reload does not clear the clean names\<close>

text \<open>\<open>worker.rs\<close> gives the worker a new database between two packets; the caches stay.\<close>

definition reload :: "'r trail_db \<Rightarrow> 'r worker_state \<Rightarrow> 'r worker_state" where
  "reload db st = st\<lparr>ws_trails := db\<rparr>"

lemma domain_hit_asked:
  assumes "asked_name env query = Some q"
  shows "domain_hit env query None alias_of st = do {
       (seen, c) \<leftarrow> lru_get (str_hash (hash_seed env)) q (ws_domain_clean st);
       let st = st\<lparr>ws_domain_clean := c\<rparr>;
       if seen \<noteq> None then Some (None, bump (\<lambda>m. m\<lparr>m_cache_hits := m_cache_hits m + 1\<rparr>) st)
       else uncached_hit env q None alias_of (bump (\<lambda>m. m\<lparr>m_cache_misses := m_cache_misses m + 1\<rparr>) st)
     }"
proof -
  define t where "t = takeWhile (\<lambda>c. c \<noteq> CHR '':'') query"
  have q: "\<not> dotted_number t" "q = (if list_ex is_upper t then lower_unicode env t else t)"
    using assms by (auto simp: asked_name_def Let_def t_def split: if_splits)
  show ?thesis unfolding domain_hit_def Let_def q(2) using q(1) by (simp add: t_def [symmetric] cong: if_cong)
qed

text \<open>C30: a name in the cache of clean names is not reported after a reload whose trails list it, although the
  verdict computed afresh reports it, until the entry is evicted.\<close>
theorem clean_name_survives_reload:
  assumes "domain_ok env st" "asked_name env query = Some q" "cached (str_hash (hash_seed env)) (ws_domain_clean st) q \<noteq> None"
    and "fresh_hit env (ws_cfg st) (ws_whitelist st) db query None = Some (Some hit)"
  shows "\<exists>st'. domain_hit env query None None (reload db st) = Some (None, st') \<and>
    fresh_hit env (ws_cfg st') (ws_whitelist st') (ws_trails st') query None = Some (Some hit)"
proof -
  let ?h = "str_hash (hash_seed env)"
  obtain c where "lru_get ?h q (ws_domain_clean st) = Some (cached ?h (ws_domain_clean st) q, c)"
    using seen_is_clean [OF assms(1)] by blast
  then have "domain_hit env query None None (reload db st) =
      Some (None, bump (\<lambda>m. m\<lparr>m_cache_hits := m_cache_hits m + 1\<rparr>) (st\<lparr>ws_trails := db, ws_domain_clean := c\<rparr>))"
    using assms(3) unfolding domain_hit_asked [OF assms(2)] by (simp add: reload_def)
  then show ?thesis using assms(4) by (simp add: bump_def)
qed

lemma clean_entry_stored:
  assumes "domain_ok env st" "is_clean env st q"
  obtains c where "domain_ok env (st\<lparr>ws_domain_clean := c\<rparr>)" "cached (str_hash (hash_seed env)) c q = Some ()"
proof -
  let ?h = "str_hash (hash_seed env)"
  obtain n where n: "lru_at ?h n (ws_domain_clean st)" and held: "\<And>k. cached ?h (ws_domain_clean st) k \<noteq> None \<Longrightarrow> is_clean env st k"
    using assms(1) by (auto simp: domain_ok_def only_holds_def)
  obtain c where c: "lru_insert ?h q () (ws_domain_clean st) = Some c" "lru_at ?h n c" "cached ?h c q = Some ()"
    "\<And>k x. k \<noteq> q \<Longrightarrow> cached ?h c k = Some x \<Longrightarrow> cached ?h (ws_domain_clean st) k = Some x"
    using insert_at [OF n, of q "()"] by blast
  have "is_clean env st k" if "cached ?h c k \<noteq> None" for k
    using that held [of k] c(4) [of k] assms(2) by (cases "k = q") auto
  then have "domain_ok env (st\<lparr>ws_domain_clean := c\<rparr>)"
    using c(2) by (intro domain_ok_clean [OF assms(1)]) (auto simp: only_holds_def)
  then show ?thesis using that c(3) by blast
qed

theorem clean_name_survives_reload_witness:
  "\<exists>db st st'. ws_trails st = trail_db_new 1 () \<and> domain_hit sample_outside ''bad.cloudfront.net'' None None (reload db st) = Some (None, st') \<and>
    fresh_hit sample_outside (ws_cfg st') (ws_whitelist st') (ws_trails st') ''bad.cloudfront.net'' None =
      Some (Some \<lparr>dh_trail = ''bad.cloudfront.net'', dh_info = ''malware'', dh_reference = ''(static)''\<rparr>)"
proof -
  let ?q = "''bad.cloudfront.net''"
  obtain db :: "unit trail_db" where db: "trails_ok db" "trail_of db = (\<lambda>k. if k = ''bad.cloudfront.net'' then Some (''malware'', ''(static)'') else None)"
    using sample_db .
  obtain wl where wl: "wl_ok wl" "set (wl_exact wl) = {''apple.com''}" using apple_listed .
  define db0 :: "unit trail_db" where "db0 = trail_db_new 1 ()"
  have "db_ok db0" "str_bindings (td_strings db0) = Map.empty"
    using trail_db_new_ok(1,3) [where n = 1 and regex = "()" and ps = "[]"] by (simp_all add: db0_def trail_db_new_def table_limit_def)
  then have db0: "trails_ok db0" "trail_of db0 = (\<lambda>_. None)" by (auto simp: trails_ok_def trail_of_def)
  define st where "st = worker_new sample_config scan_default wl db0"
  have n: "asked_name sample_outside ?q = Some ?q" "is_valid_dns_name ?q" by code_simp+
  have d: "whitelist_depth wl ?q = 0"
  proof -
    have "whitelist_domain_token ?q = ?q" "labels ?q = [''bad'', ''cloudfront'', ''net'']" by code_simp+
    then show ?thesis by (simp add: whitelist_depth_def closest_def wl(2))
  qed
  have l: "split_on (CHR ''.'') ?q = [''bad'', ''cloudfront'', ''net'']" by code_simp
  have stand: "standing ?q [] 0" by (simp add: standing_def)
  have no: "\<not> ends_with ?q ''.ip-adress.com''" "\<not> has ?q ''xn--''" "\<not> has ?q ''.onion.''" "\<not> skip_trail ?q True ''malware''"
    by code_simp+
  have verdict: "domain_verdict sample_outside sample_config wl d ?q 0 None = Some (if trail_of d ?q = None then None else Some (tail_hit d ?q None [''bad'', ''cloudfront'', ''net'']))"
    if "trails_ok d" "trail_of d = (\<lambda>k. if k = ?q then v else None)" "v = None \<or> v = Some (''malware'', ''(static)'')" for d :: "unit trail_db" and v
    using parent_walk_spec [OF that(1) stand, of 0 None] that(2,3)
    by (auto simp: domain_verdict_def if_none_def no homograph_hit_def impersonated_def sample_outside_def reported_tail_def l)
  have clean: "is_clean sample_outside st ?q"
    using verdict [OF db0(1), of None] db0(2) n(2) d by (simp add: is_clean_def fresh_verdict_def st_def worker_new_def)
  have ok: "domain_ok sample_outside st"
    unfolding st_def by (intro domain_ok_new wl db0 sample_outside_ok) (simp add: sample_config_def nil_def)
  obtain c where c: "domain_ok sample_outside (st\<lparr>ws_domain_clean := c\<rparr>)" "cached (str_hash (hash_seed sample_outside)) c ?q = Some ()"
    using clean_entry_stored [OF ok clean] .
  have "tail_hit db ?q None [''bad'', ''cloudfront'', ''net''] = \<lparr>dh_trail = ?q, dh_info = ''malware'', dh_reference = ''(static)''\<rparr>"
    by (simp add: tail_hit_def db(2) bracketed_def l alias_trail_def)
  then have hit: "fresh_hit sample_outside sample_config wl db ?q None =
      Some (Some \<lparr>dh_trail = ?q, dh_info = ''malware'', dh_reference = ''(static)''\<rparr>)"
    using verdict [OF db] n d db(2) by (simp add: fresh_hit_def fresh_verdict_def)
  define s1 where "s1 = st\<lparr>ws_domain_clean := c\<rparr>"
  have e: "ws_cfg s1 = sample_config" "ws_whitelist s1 = wl" "ws_trails s1 = trail_db_new 1 ()" "ws_domain_clean s1 = c"
    by (simp_all add: s1_def st_def worker_new_def db0_def)
  obtain st' where "domain_hit sample_outside ?q None None (reload db s1) = Some (None, st')"
    "fresh_hit sample_outside (ws_cfg st') (ws_whitelist st') (ws_trails st') ?q None =
      Some (Some \<lparr>dh_trail = ?q, dh_info = ''malware'', dh_reference = ''(static)''\<rparr>)"
    using clean_name_survives_reload [OF c(1) [folded s1_def] n(1), of db] c(2) hit unfolding e by auto
  then show ?thesis using e(3) by blast
qed

lemma length_tails: "length (tails xs) = length xs"
  by (induction xs) auto

lemma nth_tails: "i < length xs \<Longrightarrow> tails xs ! i = drop i xs"
  by (induction xs arbitrary: i) (auto simp: nth_Cons' drop_Cons')

section \<open>The dot index reads labels\<close>

lemma dots_snoc: "dots (s @ [c]) = dots s @ (if c = CHR ''.'' then [length s] else [])"
  by (auto simp: dots_def nth_append intro: filter_cong)

definition dot_tail :: "nat list \<Rightarrow> nat \<Rightarrow> nat option" where
  "dot_tail ds t = (if t < length ds then Some (rev ds ! t) else None)"

lemma dots_fold:
  "fold dots_step (List.enumerate 0 s) \<lparr>di_first = None, di_tail = [None, None, None], di_count = 0, di_len = n\<rparr> =
     \<lparr>di_first = (if dots s = [] then None else Some (hd (dots s))),
      di_tail = [dot_tail (dots s) 0, dot_tail (dots s) 1, dot_tail (dots s) 2], di_count = length (dots s), di_len = n\<rparr>"
proof (induction s rule: rev_induct)
  case Nil
  then show ?case by (simp add: dots_def dot_tail_def)
next
  case (snoc c s)
  have "List.enumerate 0 (s @ [c]) = List.enumerate 0 s @ [(length s, c)]" by (simp add: enumerate_append_eq)
  then show ?case
    using snoc by (auto simp: dots_step_def dots_snoc dot_tail_def hd_append nth_Cons')
qed

lemma dots_of_spec:
  "dots_of s = \<lparr>di_first = (if dots s = [] then None else Some (hd (dots s))),
      di_tail = [dot_tail (dots s) 0, dot_tail (dots s) 1, dot_tail (dots s) 2], di_count = length (dots s), di_len = length s\<rparr>"
  by (simp add: dots_of_def dots_fold)

lemma dots_labels: "length (split_on (CHR ''.'') s) = length (dots s) + 1"
  using dots_tails [of s, THEN arg_cong, of length] by (simp add: length_tails)

lemma dot_splits:
  assumes "i < length (dots s)"
  defines "ls \<equiv> split_on (CHR ''.'') s"
  shows "drop (dots s ! i + 1) s = join ''.'' (drop (i + 1) ls)" "take (dots s ! i) s = join ''.'' (take (i + 1) ls)"
    "dots s ! i < length s"
proof -
  have n: "i + 1 < length ls" using assms(1) by (simp add: ls_def dots_labels)
  have "(s # map (\<lambda>i. drop (i + 1) s) (dots s)) ! (i + 1) = map (join ''.'') (tails ls) ! (i + 1)"
    unfolding ls_def by (rule arg_cong [OF dots_tails])
  then show d: "drop (dots s ! i + 1) s = join ''.'' (drop (i + 1) ls)"
    using assms(1) n by (simp add: nth_tails length_tails)
  have "dots s ! i \<in> set (dots s)" using assms(1) by simp
  then show b: "dots s ! i < length s" by (simp add: dots_def)
  have "s = join ''.'' (take (i + 1) ls @ drop (i + 1) ls)" by (simp add: ls_def join_split)
  then have s: "s = join ''.'' (take (i + 1) ls) @ ''.'' @ join ''.'' (drop (i + 1) ls)"
    using n by (subst (asm) join_snoc) auto
  have "length s = length (join ''.'' (take (i + 1) ls)) + 1 + length (join ''.'' (drop (i + 1) ls))"
    by (subst s) simp
  moreover have "length (join ''.'' (drop (i + 1) ls)) = length s - (dots s ! i + 1)" using d [THEN arg_cong, of length] by simp
  ultimately have "length (join ''.'' (take (i + 1) ls)) = dots s ! i" using b by simp
  then show "take (dots s ! i) s = join ''.'' (take (i + 1) ls)" by (subst s) simp
qed

lemma dot_slice:
  assumes "0 < i" "i < length (dots s)"
  shows "b_slice s (dots s ! (i - 1) + 1) (dots s ! i) = Some (split_on (CHR ''.'') s ! i)"
proof -
  let ?ls = "split_on (CHR ''.'') s"
  have n: "i + 1 < length ?ls" using assms(2) by (simp add: dots_labels)
  have a: "drop (dots s ! (i - 1) + 1) s = join ''.'' (drop i ?ls)" "dots s ! (i - 1) < length s"
    using dot_splits(1,3) [of "i - 1" s] assms by simp_all
  have b: "drop (dots s ! i + 1) s = join ''.'' (drop (i + 1) ?ls)" "dots s ! i < length s"
    using dot_splits(1,3) [OF assms(2)] by simp_all
  have "drop i ?ls = [?ls ! i] @ drop (i + 1) ?ls" using n Cons_nth_drop_Suc [of i ?ls] by simp
  then have j: "join ''.'' (drop i ?ls) = ?ls ! i @ ''.'' @ join ''.'' (drop (i + 1) ?ls)"
    using n join_snoc [of "[?ls ! i]" "drop (i + 1) ?ls" "''.''"] by simp
  have "length s - (dots s ! (i - 1) + 1) = length (?ls ! i) + 1 + (length s - (dots s ! i + 1))"
    using a(1) [THEN arg_cong, of length] b(1) [THEN arg_cong, of length] unfolding j by simp
  then have e: "dots s ! i = dots s ! (i - 1) + 1 + length (?ls ! i)" using a(2) b(2) by linarith
  show ?thesis
    using a b unfolding b_slice_def e by (simp add: j take_drop [symmetric])
qed

lemma dot_tail_at:
  assumes "0 < k" "k \<le> length (dots s)" "length (dots s) - k < 3"
  shows "di_tail (dots_of s) ! (length (dots s) - k) = Some (dots s ! (k - 1))"
proof -
  define t where "t = length (dots s) - k"
  have t: "t = 0 \<or> t = 1 \<or> t = 2" using assms(3) by (auto simp: t_def)
  have "rev (dots s) ! t = dots s ! (k - 1)" using assms by (simp add: rev_nth t_def)
  then have "dot_tail (dots s) t = Some (dots s ! (k - 1))" using assms by (simp add: dot_tail_def t_def)
  then show ?thesis unfolding t_def [symmetric] using t by (auto simp: dots_of_spec)
qed

lemma dots_of_fields:
  "di_count (dots_of s) = length (dots s)" "di_len (dots_of s) = length s"
  "di_first (dots_of s) = (if dots s = [] then None else Some (hd (dots s)))"
  by (simp_all add: dots_of_spec)

lemma label_count_dots: "label_count (dots_of s) = length (split_on (CHR ''.'') s)"
  by (simp add: label_count_def dots_of_fields dots_labels)

lemma label_zero:
  assumes "1 < length (split_on (CHR ''.'') s)"
  shows "label_at (dots_of s) s 0 = Some (split_on (CHR ''.'') s ! 0)"
proof -
  let ?ls = "split_on (CHR ''.'') s"
  have ds: "dots s \<noteq> []" using assms by (auto simp: dots_labels)
  then have "hd (dots s) = dots s ! 0" "0 < length (dots s)" by (simp_all add: hd_conv_nth)
  moreover have "take 1 ?ls = [?ls ! 0]" using assms by (cases ?ls) simp_all
  ultimately show ?thesis using ds dot_splits(2) [of 0 s] by (simp add: label_at_def dots_of_fields)
qed

lemma dot_parts:
  fixes s :: string
  defines "ls \<equiv> split_on (CHR ''.'') s"
  assumes "0 < k" "k < length ls" "length ls \<le> k + 3"
  shows "label_at (dots_of s) s k = Some (ls ! k)"
    and "suffix_from (dots_of s) s k = join ''.'' (drop k ls)"
    and "prefix_upto (dots_of s) s k = join ''.'' (take k ls)"
proof -
  have n: "length ls = length (dots s) + 1" by (simp add: ls_def dots_labels)
  have k: "0 < k" "k \<le> length (dots s)" "length (dots s) - k < 3" using assms n by simp_all
  note at_k = dot_tail_at [OF k]
  have k1: "k - 1 < length (dots s)" "k - 1 + 1 = k" using k by simp_all
  note sp = dot_splits [OF k1(1), folded ls_def, unfolded k1(2)]
  show "label_at (dots_of s) s k = Some (ls ! k)"
  proof (cases "k = length (dots s)")
    case True
    then have "drop k ls = [ls ! k]" using n Cons_nth_drop_Suc [of k ls] by simp
    then show ?thesis using True k sp at_k by (simp add: label_at_def label_count_def dots_of_fields last_label_def)
  next
    case False
    then have c: "0 < k" "k < length (dots s)" "length (dots s) - k = 1 \<or> length (dots s) - k = 2" using k by auto
    have up: "di_tail (dots_of s) ! (length (dots s) - k - 1) = Some (dots s ! k)"
    proof -
      have "length (dots s) - (k + 1) < 3" using c by linarith
      then show ?thesis using dot_tail_at [of "k + 1" s] c by simp
    qed
    show ?thesis
      using c at_k up dot_slice [OF c(1,2)] k unfolding label_at_def label_count_def dots_of_fields ls_def by (auto simp: Let_def)
  qed
  show "suffix_from (dots_of s) s k = join ''.'' (drop k ls)"
    using k at_k sp by (simp add: suffix_from_def dots_of_fields)
  show "prefix_upto (dots_of s) s k = join ''.'' (take k ls)"
    using k at_k sp by (simp add: prefix_upto_def dots_of_fields label_count_def)
qed

text \<open>The dot index answers as splitting the name at its dots would: the first label and the last three, the
  suffixes that begin at one of the last three labels, and the prefixes that end before one, for every name.\<close>
theorem dot_index_reads_labels:
  fixes s :: string
  defines "ls \<equiv> split_on (CHR ''.'') s"
  assumes "0 < k" "k < length ls" "length ls \<le> k + 3"
  shows "label_count (dots_of s) = length ls \<and> label_at (dots_of s) s 0 = Some (ls ! 0) \<and>
    label_at (dots_of s) s k = Some (ls ! k) \<and>
    suffix_from (dots_of s) s k = join ''.'' (drop k ls) \<and> prefix_upto (dots_of s) s k = join ''.'' (take k ls)"
  using assms dot_parts [of k s] label_zero [of s] by (simp add: label_count_dots)

theorem dot_index_reads_labels_witness:
  "label_count (dots_of ''a.b.cd.e.fg'') = 5 \<and> label_at (dots_of ''a.b.cd.e.fg'') ''a.b.cd.e.fg'' 2 = Some ''cd'' \<and>
   suffix_from (dots_of ''a.b.cd.e.fg'') ''a.b.cd.e.fg'' 2 = ''cd.e.fg''"
  using dot_index_reads_labels [of 2 "''a.b.cd.e.fg''"] by simp

end
