(* ===== verification/Steps.thy ===== *)
theory Steps
  imports Domain
begin

text \<open>
  What every step of the packet path promises, whatever the packet: it does not panic, it leaves the worker in
  good order (every cache holds only what it may hold, no accumulator is over its cap), it changes neither the
  options nor the whitelist nor the trails, and it only appends to the event log, at most \<open>n\<close> events, all of
  them satisfying \<open>P\<close>. The rules compose such promises along the code, adding up the events.
\<close>

section \<open>Workers in good order\<close>

definition de_room :: "dns_exhaustion \<Rightarrow> bool" where
  "de_room de \<longleftrightarrow> de_inv de \<and> card (fst ` set (de_domains de)) \<le> heuristic_max_keys"

definition dt_room :: "dns_tunneling \<Rightarrow> bool" where
  "dt_room dt \<longleftrightarrow> dt_inv dt \<and> card (fst ` set (dt_pairs dt)) \<le> heuristic_max_keys"

definition nx_room :: "nx_counters \<Rightarrow> bool" where
  "nx_room nx \<longleftrightarrow> nx_inv nx \<and> card (nx_keys nx) \<le> heuristic_max_keys"

definition scan_room :: "scan_state \<Rightarrow> bool" where
  "scan_room sc \<longleftrightarrow> scan_inv sc \<and> card (connect_table_keys sc) \<le> scan_max_keys \<and> card (web_keys sc) \<le> scan_max_keys \<and>
     card (udp_keys sc) \<le> scan_max_keys \<and> card (icmp_keys sc) \<le> scan_max_keys"

definition beacon_room :: "beacon_tracker \<Rightarrow> bool" where
  "beacon_room bt \<longleftrightarrow> beacon_inv bt \<and> card (beacon_keys bt) \<le> heuristic_max_keys"

lemma de_room_step: "de_room de \<Longrightarrow> de_room (ex_step e de)"
  using exhaustion.inv_step [of de e] exhaustion.step_bounded [of de e] by (simp add: de_room_def)

lemma dt_room_step: "dt_room dt \<Longrightarrow> dt_room (tunnel_step e dt)"
  using tunneling.inv_step [of dt e] tunneling.step_bounded [of dt e] by (simp add: dt_room_def)

lemma nx_room_step: "nx_room nx \<Longrightarrow> nx_room (nx_step e nx)"
  using nx.inv_step [of nx e] nx.step_bounded [of nx e] by (simp add: nx_room_def)

lemma scan_room_step: "scan_room sc \<Longrightarrow> scan_room (scan_step seed e sc)"
  using connect.inv_step [of sc seed e] connect.step_bounded [of sc seed e] web.step_bounded [of sc seed e]
    udp.step_bounded [of sc seed e] icmp.step_bounded [of sc seed e]
  by (simp add: scan_room_def)

lemma beacon_room_step: "beacon_room bt \<Longrightarrow> beacon_room (beacon_step e bt)"
  using beacon.inv_step [of bt e] beacon.step_bounded [of bt e] by (simp add: beacon_room_def)

text \<open>The verdict on the first label of a missing name, which the cache \<open>dga_findings\<close> remembers.\<close>

definition suspicious_domain_consonant_threshold :: nat where "suspicious_domain_consonant_threshold = 9"
definition suspicious_domain_entropy_threshold :: real where "suspicious_domain_entropy_threshold = 7 / 2"

definition dga_verdict :: "string \<Rightarrow> string option" where
  "dga_verdict part =
     (if label_entropy part > suspicious_domain_entropy_threshold then Some ''entropy threshold no such domain (suspicious)''
      else if consonant_count part > suspicious_domain_consonant_threshold then Some ''consonant threshold no such domain (suspicious)''
      else None)"

definition lru_sound :: "u64 \<Rightarrow> (string, 'v) lru \<Rightarrow> bool" where
  "lru_sound seed c \<longleftrightarrow> (\<exists>n. lru_at (str_hash seed) n c)"

definition worker_ok :: "'r outside \<Rightarrow> 'r worker_state \<Rightarrow> bool" where
  "worker_ok env st \<longleftrightarrow> domain_ok env st \<and> memo_of (hash_seed env) dga_verdict (ws_dga_findings st) \<and>
     lru_sound (hash_seed env) (ws_user_agent st) \<and> lru_sound (hash_seed env) (ws_path_findings st) \<and>
     lru_sound (hash_seed env) (ws_post_findings st) \<and>
     de_room (ws_dns_exhaustion st) \<and> dt_room (ws_dns_tunneling st) \<and> nx_room (ws_nxdomain st) \<and>
     scan_room (ws_scan st) \<and> beacon_room (ws_beacon st) \<and> hello_sound (ws_hello st) \<and>
     meta_ok (ws_meta st)"

lemma domain_ok_cong:
  assumes "ws_cfg st' = ws_cfg st" "ws_whitelist st' = ws_whitelist st" "ws_trails st' = ws_trails st"
    "ws_domain_whitelisted st' = ws_domain_whitelisted st" "ws_domain_clean st' = ws_domain_clean st"
  shows "domain_ok env st' = domain_ok env st"
proof -
  have "is_clean env st' = is_clean env st" by (rule ext) (simp add: is_clean_def assms)
  then show ?thesis by (simp add: domain_ok_def assms)
qed

text \<open>What a check of a name leaves alone.\<close>

lemma worker_ok_frame:
  assumes "worker_ok env st" "domain_ok env st'" "domain_frame st st'"
  shows "worker_ok env st'"
  using assms by (auto simp: worker_ok_def domain_frame_def)

section \<open>Promises of a step\<close>

definition writes :: "'r outside \<Rightarrow> (event \<Rightarrow> bool) \<Rightarrow> nat \<Rightarrow> 'r worker_state \<Rightarrow> 'r worker_state \<Rightarrow> bool" where
  "writes env P n st st' \<longleftrightarrow> worker_ok env st' \<and> ws_cfg st' = ws_cfg st \<and> ws_whitelist st' = ws_whitelist st \<and>
     ws_trails st' = ws_trails st \<and> (\<exists>es. ws_sink st' = ws_sink st @ es \<and> list_all P es \<and> length es \<le> n)"

definition lands :: "'r outside \<Rightarrow> (event \<Rightarrow> bool) \<Rightarrow> nat \<Rightarrow> 'r worker_state \<Rightarrow> 'r worker_state option \<Rightarrow> bool" where
  "lands env P n st r \<longleftrightarrow> (\<exists>st'. r = Some st' \<and> writes env P n st st')"

text \<open>The same of a step with a result.\<close>

definition yields :: "'r outside \<Rightarrow> (event \<Rightarrow> bool) \<Rightarrow> nat \<Rightarrow> 'r worker_state \<Rightarrow> ('a \<times> 'r worker_state) option \<Rightarrow> bool" where
  "yields env P n st r \<longleftrightarrow> (\<exists>x st'. r = Some (x, st') \<and> writes env P n st st')"

named_theorems step_intros

lemma writes_refl: "worker_ok env st \<Longrightarrow> writes env P n st st"
  by (auto simp: writes_def)

lemma writes_trans:
  assumes "writes env P m a b" "writes env P n b c" "m + n \<le> k"
  shows "writes env P k a c"
proof -
  obtain es es' where "ws_sink b = ws_sink a @ es" "list_all P es" "length es \<le> m"
    "ws_sink c = ws_sink b @ es'" "list_all P es'" "length es' \<le> n"
    using assms by (auto simp: writes_def)
  then have "ws_sink c = ws_sink a @ es @ es'" "list_all P (es @ es')" "length (es @ es') \<le> k"
    using assms(3) by simp_all
  then show ?thesis using assms(1,2) unfolding writes_def by metis
qed

lemma writes_mono: "writes env P n a b \<Longrightarrow> n \<le> k \<Longrightarrow> writes env P k a b"
  by (auto simp: writes_def intro: order_trans)

lemma writes_ok: "writes env P n st st' \<Longrightarrow> worker_ok env st'"
  by (simp add: writes_def)

lemma writes_same:
  assumes "writes env P n st st'"
  shows "ws_cfg st' = ws_cfg st" "ws_whitelist st' = ws_whitelist st" "ws_trails st' = ws_trails st"
  using assms by (simp_all add: writes_def)

text \<open>The updates of one field.\<close>

lemma writes_quiet:
  assumes "worker_ok env st'" "ws_cfg st' = ws_cfg st" "ws_whitelist st' = ws_whitelist st" "ws_trails st' = ws_trails st"
    "ws_sink st' = ws_sink st"
  shows "writes env P n st st'"
  using assms by (auto simp: writes_def)

lemma writes_fields:
  assumes "worker_ok env st"
  shows "de_room de \<Longrightarrow> writes env P n st (st\<lparr>ws_dns_exhaustion := de\<rparr>)"
    "dt_room dt \<Longrightarrow> writes env P n st (st\<lparr>ws_dns_tunneling := dt\<rparr>)"
    "nx_room nx \<Longrightarrow> writes env P n st (st\<lparr>ws_nxdomain := nx\<rparr>)"
    "scan_room sc \<Longrightarrow> writes env P n st (st\<lparr>ws_scan := sc\<rparr>)"
    "beacon_room bt \<Longrightarrow> writes env P n st (st\<lparr>ws_beacon := bt\<rparr>)"
    "memo_of (hash_seed env) dga_verdict c \<Longrightarrow> writes env P n st (st\<lparr>ws_dga_findings := c\<rparr>)"
    "lru_sound (hash_seed env) u \<Longrightarrow> writes env P n st (st\<lparr>ws_user_agent := u\<rparr>)"
    "lru_sound (hash_seed env) p \<Longrightarrow> writes env P n st (st\<lparr>ws_path_findings := p\<rparr>)"
    "lru_sound (hash_seed env) p \<Longrightarrow> writes env P n st (st\<lparr>ws_post_findings := p\<rparr>)"
    "writes env P n st (bump f st)"
    "writes env P n st (st\<lparr>ws_last_syn := stamp\<rparr>)" "writes env P n st (st\<lparr>ws_last_logged_syn := stamp\<rparr>)"
    "writes env P n st (st\<lparr>ws_last_udp := stamp\<rparr>)" "writes env P n st (st\<lparr>ws_last_logged_udp := stamp\<rparr>)"
    "writes env P n st (st\<lparr>ws_last_udp_payload := digest\<rparr>)" "writes env P n st (st\<lparr>ws_local_prefix_cache := known\<rparr>)"
    "writes env P n st (st\<lparr>ws_connect_sec := sec\<rparr>)" "writes env P n st (st\<lparr>ws_last_sec := sec\<rparr>)"
    "hello_sound asm \<Longrightarrow> writes env P n st (st\<lparr>ws_hello := asm\<rparr>)"
    "writes env P n st (st\<lparr>ws_tls := tls\<rparr>)" "writes env P n st (st\<lparr>ws_quic := memo\<rparr>)"
    "meta_ok ms \<Longrightarrow> writes env P n st (st\<lparr>ws_meta := ms\<rparr>)"
  using assms by (intro writes_quiet; simp add: worker_ok_def bump_def; subst domain_ok_cong [where st = st]; simp)+

lemma writes_emit_ep:
  assumes "worker_ok env st"
    "P \<lparr>ev_sec = sec, ev_usec = usec, ev_src_ip = ip_render (ep_src ep), ev_src_port = field_port (ep_src_port ep),
       ev_dst_ip = FText (ip_render (ep_dst ep)), ev_dst_port = field_port (ep_dst_port ep), ev_proto = FText proto,
       ev_trail_type = trail_type, ev_trail = trail, ev_info = info, ev_reference = reference\<rparr>" "n > 0"
  shows "writes env P n st (emit_ep sec usec ep proto trail_type trail info reference st)"
proof -
  have "worker_ok env (emit_ep sec usec ep proto trail_type trail info reference st)"
    using assms(1) unfolding worker_ok_def emit_ep_def emit_def Let_def bump_def
    by (simp, subst domain_ok_cong [where st = st]) simp_all
  then show ?thesis using assms(2,3) by (simp add: writes_def emit_ep_def emit_def Let_def bump_def)
qed

section \<open>Rules\<close>

lemma lands_Some [step_intros]: "writes env P n st st' \<Longrightarrow> lands env P n st (Some st')"
  by (simp add: lands_def)

lemma yields_Some [step_intros]: "writes env P n st st' \<Longrightarrow> yields env P n st (Some (x, st'))"
  by (simp add: yields_def)

lemma lands_after:
  assumes "writes env P m st st1" "lands env P n st1 r" "m + n \<le> k"
  shows "lands env P k st r"
  using assms writes_trans by (fastforce simp: lands_def)

lemma yields_after:
  assumes "writes env P m st st1" "yields env P n st1 r" "m + n \<le> k"
  shows "yields env P k st r"
  using assms writes_trans by (fastforce simp: yields_def)

lemma lands_bind:
  assumes "lands env P m st r" "\<And>st'. writes env P m st st' \<Longrightarrow> lands env P n st' (f st')" "m + n \<le> k"
  shows "lands env P k st (Option.bind r f)"
proof -
  obtain st' where "r = Some st'" "writes env P m st st'" using assms(1) by (auto simp: lands_def)
  then show ?thesis using lands_after [OF _ assms(2,3)] by simp
qed

lemma lands_bind_yield:
  assumes "yields env P m st r" "\<And>x st'. r = Some (x, st') \<Longrightarrow> writes env P m st st' \<Longrightarrow> lands env P n st' (f (x, st'))" "m + n \<le> k"
  shows "lands env P k st (Option.bind r f)"
proof -
  obtain x st' where "r = Some (x, st')" "writes env P m st st'" using assms(1) by (auto simp: yields_def)
  then show ?thesis using lands_after [OF _ assms(2,3)] by simp
qed

lemma yields_bind:
  assumes "yields env P m st r" "\<And>x st'. r = Some (x, st') \<Longrightarrow> writes env P m st st' \<Longrightarrow> yields env P n st' (f (x, st'))" "m + n \<le> k"
  shows "yields env P k st (Option.bind r f)"
proof -
  obtain x st' where "r = Some (x, st')" "writes env P m st st'" using assms(1) by (auto simp: yields_def)
  then show ?thesis using yields_after [OF _ assms(2,3)] by simp
qed

lemma yields_bind_lands:
  assumes "lands env P m st r" "\<And>st'. writes env P m st st' \<Longrightarrow> yields env P n st' (f st')" "m + n \<le> k"
  shows "yields env P k st (Option.bind r f)"
proof -
  obtain st' where "r = Some st'" "writes env P m st st'" using assms(1) by (auto simp: lands_def)
  then show ?thesis using yields_after [OF _ assms(2,3)] by simp
qed

text \<open>A pure step that does not fail.\<close>

lemma bind_value:
  assumes "\<exists>v. x = Some v" "\<And>v. x = Some v \<Longrightarrow> lands env P n st (f v)"
  shows "lands env P n st (Option.bind x f)"
  using assms by auto

lemma bind_value_yield:
  assumes "\<exists>v. x = Some v" "\<And>v. x = Some v \<Longrightarrow> yields env P n st (f v)"
  shows "yields env P n st (Option.bind x f)"
  using assms by auto

lemma lands_snd: "yields env P n st r \<Longrightarrow> lands env P n st (map_option snd r)"
  by (auto simp: yields_def lands_def)

lemma yields_map: "yields env P n st r \<Longrightarrow> (\<And>x st'. snd (f (x, st')) = st') \<Longrightarrow> yields env P n st (map_option f r)"
  by (auto simp: yields_def) (metis prod.collapse)

lemma lands_if: "(b \<Longrightarrow> lands env P n st x) \<Longrightarrow> (\<not> b \<Longrightarrow> lands env P n st y) \<Longrightarrow> lands env P n st (if b then x else y)"
  by simp

lemma yields_if: "(b \<Longrightarrow> yields env P n st x) \<Longrightarrow> (\<not> b \<Longrightarrow> yields env P n st y) \<Longrightarrow> yields env P n st (if b then x else y)"
  by simp

lemma writes_if: "(b \<Longrightarrow> writes env P n st x) \<Longrightarrow> (\<not> b \<Longrightarrow> writes env P n st y) \<Longrightarrow> writes env P n st (if b then x else y)"
  by simp

lemma lands_mono: "lands env P m st r \<Longrightarrow> m \<le> n \<Longrightarrow> lands env P n st r"
  by (auto simp: lands_def intro: writes_mono)

lemma yields_mono: "yields env P m st r \<Longrightarrow> m \<le> n \<Longrightarrow> yields env P n st r"
  by (auto simp: yields_def intro: writes_mono)

section \<open>Lookups in the caches of verdicts\<close>

lemma memo_get:
  assumes "memo_of seed f c"
  shows "\<exists>hit c'. lru_get (str_hash seed) q c = Some (hit, c') \<and> (hit = None \<or> hit = Some (f q)) \<and> memo_of seed f c'"
proof -
  obtain n where n: "doorkeeper.answers (str_hash seed) n f c" using assms by (auto simp: memo_of_def)
  then have "lru_at (str_hash seed) n c" by (rule doorkeeper.answers_ok)
  from sieve.look_spec [OF this, of q] obtain c' where
    c': "lru_get (str_hash seed) q c = Some (cached (str_hash seed) c q, c')" "lru_at (str_hash seed) n c'"
      "cached (str_hash seed) c' = cached (str_hash seed) c" by blast
  then have "memo_of seed f c'" using n by (auto simp: memo_of_def doorkeeper.answers_def)
  moreover have "cached (str_hash seed) c q = None \<or> cached (str_hash seed) c q = Some (f q)"
    using n by (cases "cached (str_hash seed) c q") (auto simp: doorkeeper.answers_def)
  ultimately show ?thesis using c'(1) by blast
qed

lemma memo_put:
  assumes "memo_of seed f c"
  shows "\<exists>c'. lru_insert (str_hash seed) q (f q) c = Some c' \<and> memo_of seed f c'"
proof -
  obtain n where n: "doorkeeper.answers (str_hash seed) n f c" using assms by (auto simp: memo_of_def)
  then have "lru_at (str_hash seed) n c" by (rule doorkeeper.answers_ok)
  from sieve.store_spec [OF this, of q "f q"] n show ?thesis
    by (fastforce simp: memo_of_def doorkeeper.answers_def)
qed

lemma sound_get: "lru_sound seed c \<Longrightarrow> \<exists>hit c'. lru_get (str_hash seed) q c = Some (hit, c') \<and> lru_sound seed c'"
  using sieve.look_spec [of "str_hash seed" _ c q] by (fastforce simp: lru_sound_def)

lemma sound_put: "lru_sound seed c \<Longrightarrow> \<exists>c'. lru_insert (str_hash seed) q v c = Some c' \<and> lru_sound seed c'"
  using sieve.store_spec [of "str_hash seed" _ c q v] by (fastforce simp: lru_sound_def)

section \<open>The checks of a name\<close>

lemma worker_domain_ok: "worker_ok env st \<Longrightarrow> domain_ok env st"
  by (simp add: worker_ok_def)

lemma writes_frame:
  assumes "worker_ok env st" "domain_ok env st'" "domain_frame st st'"
  shows "writes env P n st st'"
  using assms worker_ok_frame domain_frame_simps [OF assms(3)] by (intro writes_quiet) blast+

lemma depth_yields:
  assumes "worker_ok env st"
  shows "\<exists>st'. check_domain_whitelist_depth env q st = Some (whitelist_depth (ws_whitelist st) q, st') \<and> writes env P n st st'"
proof -
  have "handed_over st q None" by (simp add: handed_over_def)
  from depth_known [OF worker_domain_ok [OF assms] this] show ?thesis using writes_frame [OF assms] by fastforce
qed

lemma whitelisted_yields: "worker_ok env st \<Longrightarrow> yields env P n st (check_domain_whitelisted env q st)"
  using depth_yields [of env st q P n] by (auto simp: yields_def check_domain_whitelisted_def)

lemma domain_hit_yields:
  assumes "worker_ok env st" "handed_over st q precomputed"
  shows "yields env P n st (domain_hit env q precomputed alias_of st)"
proof -
  obtain found st' where "domain_hit env q precomputed alias_of st = Some (found, st')" "domain_ok env st'" "domain_frame st st'"
    using domain_hit_spec [OF worker_domain_ok [OF assms(1)] assms(2)] by blast
  then show ?thesis using writes_frame [OF assms(1)] by (auto simp: yields_def)
qed

lemma check_domain_inner_yields:
  assumes "worker_ok env st" "handed_over st q precomputed" "n > 0"
    "\<And>trail info reference. P \<lparr>ev_sec = sec, ev_usec = usec, ev_src_ip = ip_render (ep_src ep), ev_src_port = field_port (ep_src_port ep),
       ev_dst_ip = FText (ip_render (ep_dst ep)), ev_dst_port = field_port (ep_dst_port ep), ev_proto = FText proto,
       ev_trail_type = ''DNS'', ev_trail = FText trail, ev_info = info, ev_reference = reference\<rparr>"
  shows "yields env P n st (check_domain_inner env q sec usec ep proto precomputed alias_of st)"
  unfolding check_domain_inner_def
  using assms(3,4)
  by (intro yields_bind [OF domain_hit_yields [OF assms(1,2), where n = 0], where n = n])
    (auto intro!: yields_Some writes_emit_ep writes_refl dest: writes_ok split: option.split)

section \<open>A fresh worker\<close>

lemma rooms_new:
  "de_room de_default" "dt_room dt_default" "nx_room nx_default" "scan_room (scan_new th)" "beacon_room bt_default"
  by (simp_all add: de_room_def de_inv_def de_default_def dt_room_def dt_inv_def dt_default_def nx_room_def nx_inv_def nx_keys_def
      nx_default_def scan_room_def scan_inv_def connect_table_keys_def web_keys_def udp_keys_def icmp_keys_def scan_new_def
      beacon_room_def beacon_inv_def beacon_keys_def bt_default_def)

lemma unfiltered_new:
  assumes "cap < nil"
  shows "memo_of seed f (lru_new cap)" "lru_sound seed (lru_new cap)"
proof -
  have "lru_at (str_hash seed) (max cap 1) (lru_new cap)"
    using lru_new_ok [OF assms] by (auto simp: lru_at_def lru_inv_def) (simp add: lru_new_def)
  then show "memo_of seed f (lru_new cap)" "lru_sound seed (lru_new cap)"
    by (auto simp: memo_of_def doorkeeper.answers_def cached_new lru_sound_def)
qed

lemma worker_ok_new:
  assumes "wl_ok wl" "trails_ok db" "outside_ok env" "domain_cache_entries cfg < nil"
  shows "worker_ok env (worker_new cfg (scan_new th) wl db)"
proof -
  have "max_cache_entries < nil" by (simp add: max_cache_entries_def nil_def)
  note caches = unfiltered_new [OF this]
  show ?thesis
    using domain_ok_new [OF assms] caches rooms_new
    by (simp add: worker_ok_def) (simp add: worker_new_def caches rooms_new hello_sound_default meta_for_config_ok)
qed

end
