(* ===== verification/Dnspath.thy ===== *)
theory Dnspath
  imports Steps
begin

text \<open>
  The DNS path of a packet (\<open>dns_packet\<close> and \<open>dns_name\<close> of \<open>process.rs\<close>): queries against the exhaustion and
  tunneling heuristics, the address trails and the domain check, responses against the alias targets, the
  sinkholed and parked addresses and the counters of failed names.
\<close>

section \<open>The parts of a name\<close>

definition dns_exhaustion_threshold :: nat where "dns_exhaustion_threshold = 1000"

definition ignore_dns_query_suffixes :: "string list" where
  "ignore_dns_query_suffixes =
     [''alienvault'', ''arpa'', ''corp'', ''example'', ''guest'', ''home'', ''internal'', ''intra'', ''intran'', ''intranet'',
      ''lan'', ''local'', ''localdomain'', ''localnet'', ''test'', ''url'', ''workgroup'']"

text \<open>The expression \<open>bl\b\<close>, on ASCII text.\<close>

definition bl_word :: "string \<Rightarrow> bool" where
  "bl_word s =
     list_ex (\<lambda>i. starts_with (drop i s) ''bl'' \<and> (case b_at s (i + 2) of None \<Rightarrow> True | Some c \<Rightarrow> \<not> is_word c)) [0..<length s]"

definition td_contains_domain_member :: "string \<Rightarrow> 'r trail_db \<Rightarrow> bool option" where
  "td_contains_domain_member query db =
     (let q = map to_lower query
      in fold (\<lambda>name found. do { f \<leftarrow> found; if f then Some True else td_contains name db })
           (q # map (\<lambda>i. drop (i + 1) q) (dots q)) (Some False))"

definition ignored_name :: "string \<Rightarrow> bool" where
  "ignored_name query \<longleftrightarrow>
     query = [] \<or> \<not> is_valid_dns_name query \<or>
     list_ex (\<lambda>i. query ! i = CHR ''.'' \<and> starts_with (drop i query) ''.intranet.'') [0..<length query] \<or>
     last_label (dots_of query) query \<in> set ignore_dns_query_suffixes"

section \<open>Queries\<close>

text \<open>The heuristic event of a name.\<close>

definition emit_name :: "nat \<Rightarrow> nat \<Rightarrow> endpoints \<Rightarrow> string \<Rightarrow> string \<Rightarrow> 'r worker_state \<Rightarrow> 'r worker_state" where
  "emit_name sec usec ep trail info st = emit_ep sec usec ep ''UDP'' ''DNS'' (FText trail) info ''(heuristic)'' st"

text \<open>The exhaustion heuristic; \<open>True\<close> ends the check of the packet.\<close>

definition exhaustion_check ::
    "'r outside \<Rightarrow> string \<Rightarrow> string \<Rightarrow> u64 \<Rightarrow> u64 \<Rightarrow> nat \<Rightarrow> nat \<Rightarrow> endpoints \<Rightarrow> 'r worker_state \<Rightarrow> (bool \<times> 'r worker_state) option" where
  "exhaustion_check env query domain domain_key subdomain_key sec usec ep st = do {
     let d = dots_of query;
     head \<leftarrow> label_at d query 0;
     if is_dashed_quad head then Some (False, st)
     else (let (outcome, de) = de_observe_keyed domain_key subdomain_key sec dns_exhaustion_threshold (ws_dns_exhaustion st);
               st = st\<lparr>ws_dns_exhaustion := de\<rparr>
           in case outcome of
                Continue \<Rightarrow> Some (False, st)
              | Suppress \<Rightarrow> Some (True, st)
              | Alert \<Rightarrow>
                  (let trail = ''('' @ prefix_upto d query (label_count d - 2) @ '').'' @ suffix_from d query (label_count d - 2)
                   in if \<not> bl_word trail \<and> \<not> has_local_lookup (hash_seed env) domain (ws_dns_exhaustion st) \<and>
                         heuristic_enabled ''dns_exhaustion'' (ws_cfg st)
                      then (let st = emit_name sec usec ep trail ''potential dns exhaustion (suspicious)'' st
                            in Some (True, st\<lparr>ws_dns_exhaustion := mark_exhausted (hash_seed env) domain (ws_dns_exhaustion st)\<rparr>))
                      else Some (True, st)))
   }"

definition tunneling_check ::
    "'r outside \<Rightarrow> string \<Rightarrow> string \<Rightarrow> string \<Rightarrow> u64 \<Rightarrow> u64 \<Rightarrow> nat \<Rightarrow> nat \<Rightarrow> endpoints \<Rightarrow> 'r worker_state \<Rightarrow> 'r worker_state option" where
  "tunneling_check env query domain subdomain domain_key subdomain_key sec usec ep st =
     (if use_heuristics (ws_cfg st) \<and> heuristic_enabled ''dns_tunneling'' (ws_cfg st)
      then do {
        head \<leftarrow> label_at (dots_of query) query 0;
        let dt = maybe_window_reset sec (ws_dns_tunneling st);
        let key = pair_key (hash_seed env) (ep_src ep) domain_key;
        let ex = (allowed_zone domain \<or> may_contain_bl domain \<and> bl_word domain);
        let (outcome, dt) = dt_observe_unless key (subdomain_key, length subdomain) head sec ex dt;
        let st = st\<lparr>ws_dns_tunneling := dt\<rparr>;
        Some (if outcome = TunnelAlert
              then emit_name sec usec ep (''('' @ subdomain @ '').'' @ domain) ''potential dns tunneling (suspicious)'' st
              else st)
      }
      else Some st)"

text \<open>The registrable domain of a name of more than two labels: its last two, or three under a short second level.\<close>

definition query_domain :: "string \<Rightarrow> string option" where
  "query_domain query =
     (let d = dots_of query; n = label_count d
      in do {
        short \<leftarrow> (if n > 3 then map_option (\<lambda>l. length l \<le> 3) (label_at d query (n - 2)) else Some False);
        Some (suffix_from d query (if short then n - 3 else n - 2))
      })"

definition zone_checks ::
    "'r outside \<Rightarrow> string \<Rightarrow> u32 \<Rightarrow> nat \<Rightarrow> nat \<Rightarrow> endpoints \<Rightarrow> 'r worker_state \<Rightarrow> (bool \<times> 'r worker_state) option" where
  "zone_checks env query wl_query sec usec ep st =
     (let d = dots_of query
      in if label_count d \<le> 2 then Some (False, st)
         else do {
           domain \<leftarrow> query_domain query;
           (wl_domain, st) \<leftarrow> (if wl_query > 0 then check_domain_whitelisted env domain st else Some (False, st));
           if wl_domain then Some (False, st)
           else do {
             let st = st\<lparr>ws_dns_exhaustion := maybe_hourly_reset sec (ws_dns_exhaustion st)\<rparr>;
             let subdomain = prefix_upto d query (label_count d - 2);
             let domain_key = name_key (hash_seed env) domain;
             let subdomain_key = name_key (hash_seed env) subdomain;
             (stop, st) \<leftarrow> exhaustion_check env query domain domain_key subdomain_key sec usec ep st;
             if stop then Some (True, st)
             else do {
               st \<leftarrow> tunneling_check env query domain subdomain domain_key subdomain_key sec usec ep st;
               Some (False, st)
             }
           }
         })"

text \<open>The first of the three lookups that hits, with the trail it is reported under.\<close>

definition address_hit :: "string \<Rightarrow> endpoints \<Rightarrow> 'r trail_db \<Rightarrow> (string \<times> string \<times> trail_info) option option" where
  "address_hit query ep db = do {
     port_hit \<leftarrow> td_get_ip_port (ep_dst ep) (ep_dst_port ep) db;
     (case port_hit of
        Some hit \<Rightarrow> Some (Some (''IPORT'', ip_render (ep_dst ep) @ '' ('' @ query @ '')'', hit))
      | None \<Rightarrow> do {
          dst_hit \<leftarrow> td_get_ip (ep_dst ep) db;
          (case dst_hit of
             Some hit \<Rightarrow> Some (Some (''IP'', ip_render (ep_dst ep) @ '' ('' @ query @ '')'', hit))
           | None \<Rightarrow> do {
               src_hit \<leftarrow> td_get_ip (ep_src ep) db;
               Some (map_option (\<lambda>hit. (''IP'', ip_render (ep_src ep), hit)) src_hit)
             })
        })
   }"

definition query_trails ::
    "'r outside \<Rightarrow> string \<Rightarrow> u32 \<Rightarrow> nat \<Rightarrow> nat \<Rightarrow> endpoints \<Rightarrow> 'r worker_state \<Rightarrow> 'r worker_state option" where
  "query_trails env query wl_query sec usec ep st = do {
     let st = bump (\<lambda>m. m\<lparr>m_trail_lookups := m_trail_lookups m + 1\<rparr>) st;
     hit \<leftarrow> address_hit query ep (ws_trails st);
     let st = (case hit of
            Some (trail_type, trail, info, reference) \<Rightarrow> emit_ep sec usec ep ''UDP'' trail_type (FText trail) info reference st
          | None \<Rightarrow> st);
     map_option snd (check_domain_inner env query sec usec ep ''UDP'' (Some wl_query) None st)
   }"

text \<open>PTR and AAAA questions are not looked up, nor those of another class than IN.\<close>

definition looked_up :: "u16 \<times> u16 \<Rightarrow> bool" where
  "looked_up tc \<longleftrightarrow> fst tc \<noteq> 12 \<and> fst tc \<noteq> 28 \<and> snd tc = 1"

definition dns_query ::
    "'r outside \<Rightarrow> bytes \<Rightarrow> string \<Rightarrow> nat \<Rightarrow> u32 \<Rightarrow> nat \<Rightarrow> nat \<Rightarrow> endpoints \<Rightarrow> 'r worker_state \<Rightarrow> 'r worker_state option" where
  "dns_query env dns_data query name_end wl_query sec usec ep st =
     (case question_type_class dns_data name_end of
        None \<Rightarrow> Some st
      | Some tc \<Rightarrow> do {
          (stop, st) \<leftarrow> zone_checks env query wl_query sec usec ep st;
          if \<not> stop \<and> looked_up tc then query_trails env query wl_query sec usec ep st else Some st
        })"

section \<open>Responses\<close>

text \<open>The event about an alias that hit: under the queried name when that is listed under the same label.\<close>

definition alias_event ::
    "'r outside \<Rightarrow> bytes \<Rightarrow> string \<Rightarrow> nat \<Rightarrow> nat \<Rightarrow> nat \<Rightarrow> endpoints \<Rightarrow> domain_found \<Rightarrow> 'r worker_state \<Rightarrow> 'r worker_state option" where
  "alias_event env dns_data query name_end sec usec client hit st = do {
     (own, st) \<leftarrow> domain_hit env query None None st;
     let report = (\<lambda>h. emit_ep sec usec client ''UDP'' ''DNS'' (FText (dh_trail h)) (dh_info h) (dh_reference h) st);
     Some (case own of
         Some own \<Rightarrow>
           (if dh_info own = dh_info hit
            then (case question_type_class dns_data name_end of
                    Some tc \<Rightarrow> if looked_up tc then st else report own
                  | None \<Rightarrow> report own)
            else report hit)
       | None \<Rightarrow> report hit)
   }"

text \<open>The targets of a CNAME chain, up to the first that is reported or that the request already reported.\<close>

fun alias_walk ::
    "'r outside \<Rightarrow> bytes \<Rightarrow> string \<Rightarrow> nat \<Rightarrow> nat \<Rightarrow> nat \<Rightarrow> endpoints \<Rightarrow> string list \<Rightarrow> 'r worker_state \<Rightarrow> 'r worker_state option" where
  "alias_walk env dns_data query name_end sec usec client [] st = Some st"
| "alias_walk env dns_data query name_end sec usec client (target # targets) st =
     (if target = query \<or> \<not> is_valid_dns_name target then alias_walk env dns_data query name_end sec usec client targets st
      else do {
        (found, st) \<leftarrow> domain_hit env target None (Some query) st;
        (case found of
           None \<Rightarrow> alias_walk env dns_data query name_end sec usec client targets st
         | Some hit \<Rightarrow> alias_event env dns_data query name_end sec usec client hit st)
      })"

definition answered_name :: "string \<Rightarrow> string" where
  "answered_name query =
     (let parts = split_on (CHR ''.'') query
      in ''('' @ join ''.'' (butlast parts) @ '').'' @ last parts)"

definition sinkhole_check ::
    "'r outside \<Rightarrow> bytes \<Rightarrow> string \<Rightarrow> nat \<Rightarrow> nat \<Rightarrow> nat \<Rightarrow> endpoints \<Rightarrow> 'r worker_state \<Rightarrow> 'r worker_state option" where
  "sinkhole_check env dns_data query name_end sec usec ep st = do {
     answer \<leftarrow> first_a_record dns_data name_end;
     (case answer of
        None \<Rightarrow> Some st
      | Some addr \<Rightarrow> do {
          hit \<leftarrow> td_get_ip (V4 addr) (ws_trails st);
          (case hit of
             None \<Rightarrow> Some st
           | Some (info, reference) \<Rightarrow> do {
               (listed, st) \<leftarrow> check_domain_whitelisted env query st;
               Some (if listed then st
                     else if has_sub info ''sinkhole''
                     then (let by_whom = (case b_at (split_on (CHR '' '') info) 1 of Some w \<Rightarrow> w | None \<Rightarrow> [])
                           in emit_name sec usec ep (answered_name query) (''sinkholed by '' @ by_whom @ '' (malware)'') st)
                     else if has_sub info ''parking''
                     then emit_name sec usec ep (answered_name query) ''parked site (suspicious)'' st
                     else st)
             })
        })
   }"

definition dnsbl_lookup :: "string list \<Rightarrow> bool" where
  "dnsbl_lookup parts \<longleftrightarrow> length parts > 4 \<and>
     list_all (\<lambda>p. p \<noteq> [] \<and> list_all is_digit p \<and> (case parse_u32 p of Some v \<Rightarrow> v < 256 | None \<Rightarrow> False)) (take 4 parts)"

fun nx_observe_keys :: "string list \<Rightarrow> string \<Rightarrow> nat \<Rightarrow> nat \<Rightarrow> endpoints \<Rightarrow> 'r worker_state \<Rightarrow> 'r worker_state" where
  "nx_observe_keys [] query sec usec ep st = st"
| "nx_observe_keys (key # keys) query sec usec ep st =
     (let (alert, nx) = nx_observe key query sec (ws_nxdomain st); st = st\<lparr>ws_nxdomain := nx\<rparr>
      in case alert of
           None \<Rightarrow> nx_observe_keys keys query sec usec ep st
         | Some (Wildcard trail names) \<Rightarrow>
             (if \<not> list_ex (\<lambda>w. has_sub trail w) local_subdomain_lookups
              then emit_name sec usec ep trail ''excessive no such domain (suspicious)'' st else st)
         | Some (Exact trail) \<Rightarrow> emit_name sec usec ep trail ''excessive no such domain (suspicious)'' st)"

definition dga_check :: "'r outside \<Rightarrow> string list \<Rightarrow> nat \<Rightarrow> nat \<Rightarrow> endpoints \<Rightarrow> 'r worker_state \<Rightarrow> 'r worker_state option" where
  "dga_check env parts sec usec ep st =
     (if length parts = 2 \<and> parts ! 0 \<noteq> [] \<and> CHR ''-'' \<notin> set (parts ! 0)
      then do {
        let part = parts ! 0;
        let trail = ''('' @ part @ '').'' @ parts ! 1;
        (hit, c) \<leftarrow> lru_get (str_hash (hash_seed env)) part (ws_dga_findings st);
        let st = st\<lparr>ws_dga_findings := c\<rparr>;
        (result, st) \<leftarrow> (case hit of
            Some v \<Rightarrow> Some (v, bump (\<lambda>m. m\<lparr>m_cache_hits := m_cache_hits m + 1\<rparr>) st)
          | None \<Rightarrow> do {
              let st = bump (\<lambda>m. m\<lparr>m_cache_misses := m_cache_misses m + 1\<rparr>) st;
              c \<leftarrow> lru_insert (str_hash (hash_seed env)) part (dga_verdict part) (ws_dga_findings st);
              Some (dga_verdict part, st\<lparr>ws_dga_findings := c\<rparr>)
            });
        Some (case result of Some info \<Rightarrow> emit_name sec usec ep trail info st | None \<Rightarrow> st)
      }
      else Some st)"

text \<open>A name that does not exist and is of no known kind: it is counted, and its first label looked at.\<close>

definition missing_name ::
    "'r outside \<Rightarrow> string \<Rightarrow> string list \<Rightarrow> nat \<Rightarrow> nat \<Rightarrow> endpoints \<Rightarrow> 'r worker_state \<Rightarrow> 'r worker_state option" where
  "missing_name env query parts sec usec ep st =
     (let keys = query # (if count_list query (CHR ''.'') > 1 then [''*.'' @ join ''.'' (drop (length parts - 2) parts)] else []);
          st = (if \<not> is_local (ep_dst ep)
                then nx_observe_keys keys query sec usec ep (st\<lparr>ws_nxdomain := nx_maybe_prune sec (ws_nxdomain st)\<rparr>)
                else st)
      in dga_check env parts sec usec ep st)"

definition no_such_name ::
    "'r outside \<Rightarrow> string \<Rightarrow> nat \<Rightarrow> nat \<Rightarrow> endpoints \<Rightarrow> 'r worker_state \<Rightarrow> 'r worker_state option" where
  "no_such_name env query sec usec ep st =
     (let parts = split_on (CHR ''.'') query
      in if is_exhausted (hash_seed env) (join ''.'' (drop (length parts - 2) parts)) (ws_dns_exhaustion st) then Some st
         else do {
           (listed, st) \<leftarrow> check_domain_whitelisted env query st;
           if listed then Some st
           else do {
             known \<leftarrow> td_contains_domain_member query (ws_trails st);
             if known \<or> list_all is_digit (last parts) \<and> last parts \<noteq> [] \<or> dnsbl_lookup parts then Some st
             else missing_name env query parts sec usec ep st
           }
         })"

definition dns_response ::
    "'r outside \<Rightarrow> bytes \<Rightarrow> string \<Rightarrow> nat \<Rightarrow> u8 \<Rightarrow> u8 \<Rightarrow> nat \<Rightarrow> nat \<Rightarrow> endpoints \<Rightarrow> 'r worker_state \<Rightarrow> 'r worker_state option" where
  "dns_response env dns_data query name_end high low sec usec ep st = do {
     let client = \<lparr>ep_src = ep_dst ep, ep_src_port = ep_dst_port ep, ep_dst = ep_src ep, ep_dst_port = ep_src_port ep\<rparr>;
     st \<leftarrow> (if high AND 0x80 \<noteq> 0 \<and> low AND 0x0f = 0
            then alias_walk env dns_data query name_end sec usec client (cname_targets dns_data name_end) st
            else Some st);
     if \<not> use_heuristics (ws_cfg st) \<or> high AND 0x80 = 0 then Some st
     else if low = 0x80 then sinkhole_check env dns_data query name_end sec usec ep st
     else if low = 0x83 then no_such_name env query sec usec ep st
     else Some st
   }"

section \<open>A DNS packet\<close>

definition dns_name ::
    "'r outside \<Rightarrow> bytes \<Rightarrow> endpoints \<Rightarrow> string \<Rightarrow> nat \<Rightarrow> nat \<Rightarrow> nat \<Rightarrow> 'r worker_state \<Rightarrow> 'r worker_state option" where
  "dns_name env dns_data ep query name_end sec usec st =
     (if ignored_name query then Some st
      else do {
        let st = st\<lparr>ws_meta := observe_dns query sec (ws_meta st)\<rparr>;
        (wl_query, st) \<leftarrow> check_domain_whitelist_depth env query st;
        (case (flags_high dns_data, flags_low dns_data) of
           (Some high, Some low) \<Rightarrow>
             (if high AND 0xfa = 0 then dns_query env dns_data query name_end wl_query sec usec ep st
              else dns_response env dns_data query name_end high low sec usec ep st)
         | _ \<Rightarrow> Some st)
      })"

definition dns_packet :: "'r outside \<Rightarrow> bytes \<Rightarrow> ip_header \<Rightarrow> endpoints \<Rightarrow> nat \<Rightarrow> nat \<Rightarrow> 'r worker_state \<Rightarrow> 'r worker_state option" where
  "dns_packet env ip_data header ep sec usec st =
     (let dns_data = udp_payload ip_data (ih_header_len header)
      in case qdcount dns_data of
           None \<Rightarrow> Some st
         | Some qd \<Rightarrow>
             (if qd = 0 then Some st
              else (case question_into (lower_unicode env) dns_data of
                      (name, Some name_end) \<Rightarrow> dns_name env dns_data ep name name_end sec usec st
                    | (name, None) \<Rightarrow> Some st)))"

section \<open>What a DNS packet may do\<close>

text \<open>Every event about a DNS packet carries the time of the packet, its two addresses in one order or the other,
  and one of three trail types.\<close>

definition dns_event :: "nat \<Rightarrow> nat \<Rightarrow> endpoints \<Rightarrow> event \<Rightarrow> bool" where
  "dns_event sec usec ep e \<longleftrightarrow> ev_sec e = sec \<and> ev_usec e = usec \<and> ev_proto e = FText ''UDP'' \<and>
     ev_trail_type e \<in> {''DNS'', ''IP'', ''IPORT''} \<and>
     ((ev_src_ip e = ip_render (ep_src ep) \<and> ev_dst_ip e = FText (ip_render (ep_dst ep))) \<or>
      (ev_src_ip e = ip_render (ep_dst ep) \<and> ev_dst_ip e = FText (ip_render (ep_src ep))))"

lemma emit_name_writes [step_intros]:
  "worker_ok env st \<Longrightarrow> n > 0 \<Longrightarrow> writes env (dns_event sec usec ep) n st (emit_name sec usec ep trail info st)"
  by (simp add: emit_name_def writes_emit_ep dns_event_def)

lemma head_label: "\<exists>l. label_at (dots_of q) q 0 = Some l"
  by (simp add: label_at_def)

lemma exhaustion_yields:
  assumes "worker_ok env st"
  shows "yields env (dns_event sec usec ep) 1 st (exhaustion_check env query domain domain_key subdomain_key sec usec ep st)"
proof -
  define de where "de = snd (de_observe_keyed domain_key subdomain_key sec dns_exhaustion_threshold (ws_dns_exhaustion st))"
  have room: "de_room (ws_dns_exhaustion st)" using assms by (simp add: worker_ok_def)
  then have de: "de_room de" using de_room_step [of _ "ExQuery domain_key subdomain_key sec dns_exhaustion_threshold"] by (simp add: de_def)
  have mark: "de_room (mark_exhausted (hash_seed env) domain d)" if "de_room d" for d
    using de_room_step [OF that, of "ExMark (hash_seed env) domain"] by simp
  have one: "writes env (dns_event sec usec ep) 1 st
      (let st' = emit_name sec usec ep trail info (st\<lparr>ws_dns_exhaustion := de\<rparr>)
       in st'\<lparr>ws_dns_exhaustion := mark_exhausted (hash_seed env) domain (ws_dns_exhaustion st')\<rparr>)" for trail info
  proof -
    have a: "writes env (dns_event sec usec ep) 0 st (st\<lparr>ws_dns_exhaustion := de\<rparr>)" by (rule writes_fields(1) [OF assms de])
    have b: "writes env (dns_event sec usec ep) 1 (st\<lparr>ws_dns_exhaustion := de\<rparr>) (emit_name sec usec ep trail info (st\<lparr>ws_dns_exhaustion := de\<rparr>))"
      using writes_ok [OF a] by (intro emit_name_writes) simp_all
    have c: "writes env (dns_event sec usec ep) 0 st' (st'\<lparr>ws_dns_exhaustion := mark_exhausted (hash_seed env) domain (ws_dns_exhaustion st')\<rparr>)"
      if "worker_ok env st'" for st' :: "'a worker_state"
      using that by (intro writes_fields(1) mark) (simp_all add: worker_ok_def)
    show ?thesis unfolding Let_def using writes_trans [OF writes_trans [OF a b, of 1] c [OF writes_ok [OF b]], of 1] by simp
  qed
  have quiet: "writes env (dns_event sec usec ep) 1 st (st\<lparr>ws_dns_exhaustion := de\<rparr>)" by (rule writes_fields(1) [OF assms de])
  show ?thesis
    unfolding exhaustion_check_def Let_def
    using one quiet writes_refl [OF assms]
    by (intro bind_value_yield [OF head_label])
      (auto simp: de_def Let_def split: ex_outcome.split prod.split intro!: yields_Some)
qed

lemma exhaustion_goes_on:
  assumes "worker_ok env st" "exhaustion_check env query domain domain_key subdomain_key sec usec ep st = Some (False, st')"
  shows "writes env P n st st'"
proof -
  define de where "de = snd (de_observe_keyed domain_key subdomain_key sec dns_exhaustion_threshold (ws_dns_exhaustion st))"
  have "de_room (ws_dns_exhaustion st)" using assms by (simp add: worker_ok_def)
  then have "de_room de" using de_room_step [of _ "ExQuery domain_key subdomain_key sec dns_exhaustion_threshold"] by (simp add: de_def)
  then have "writes env P n st (st\<lparr>ws_dns_exhaustion := de\<rparr>)" by (rule writes_fields(1) [OF assms(1)])
  moreover have "st' = st \<or> st' = st\<lparr>ws_dns_exhaustion := de\<rparr>"
    using assms(2) by (auto simp: exhaustion_check_def Let_def de_def split: bind_splits if_splits ex_outcome.splits prod.splits)
  ultimately show ?thesis using writes_refl [OF assms(1)] by blast
qed

lemma tunneling_lands:
  assumes "worker_ok env st"
  shows "lands env (dns_event sec usec ep) 1 st (tunneling_check env query domain subdomain domain_key subdomain_key sec usec ep st)"
proof -
  obtain head where head: "label_at (dots_of query) query 0 = Some head" using head_label by blast
  define key where "key = pair_key (hash_seed env) (ep_src ep) domain_key"
  define ex where "ex = (allowed_zone domain \<or> may_contain_bl domain \<and> bl_word domain)"
  obtain outcome dt where dt: "dt_observe_unless key (subdomain_key, length subdomain) head sec ex (maybe_window_reset sec (ws_dns_tunneling st)) = (outcome, dt)"
    by fastforce
  have "dt_room (ws_dns_tunneling st)" using assms by (simp add: worker_ok_def)
  then have "dt_room dt"
    using dt_room_step [OF dt_room_step, of "ws_dns_tunneling st" "TunnelQuery key (subdomain_key, length subdomain) head sec ex" "TunnelTick sec"]
    by (simp add: dt)
  note quiet = writes_fields(2) [OF assms this]
  have loud: "writes env (dns_event sec usec ep) 1 st (emit_name sec usec ep trail info (st\<lparr>ws_dns_tunneling := dt\<rparr>))" for trail info
    using writes_trans [OF quiet [where n = 0] emit_name_writes [OF writes_ok [OF quiet], of 1]] by simp
  have run: "tunneling_check env query domain subdomain domain_key subdomain_key sec usec ep st =
      Some (if use_heuristics (ws_cfg st) \<and> heuristic_enabled ''dns_tunneling'' (ws_cfg st)
        then (if outcome = TunnelAlert
          then emit_name sec usec ep (''('' @ subdomain @ '').'' @ domain) ''potential dns tunneling (suspicious)'' (st\<lparr>ws_dns_tunneling := dt\<rparr>)
          else st\<lparr>ws_dns_tunneling := dt\<rparr>)
        else st)"
    unfolding tunneling_check_def Let_def head key_def [symmetric] ex_def [symmetric] by (simp add: dt)
  show ?thesis unfolding run using loud quiet writes_refl [OF assms] by (intro lands_Some) (auto split: if_split)
qed

lemma address_hit_total: "trails_ok db \<Longrightarrow> \<exists>r. address_hit query ep db = Some r"
  using td_get_ip_port_total [of db "ep_dst ep" "ep_dst_port ep"] td_get_ip_total [of db "ep_dst ep"] td_get_ip_total [of db "ep_src ep"]
  by (auto simp: address_hit_def split: option.split)

lemma worker_trails_ok: "worker_ok env st \<Longrightarrow> trails_ok (ws_trails st)"
  by (simp add: worker_ok_def domain_ok_def)

lemma address_hit_type: "address_hit query ep db = Some (Some (trail_type, trail, hit)) \<Longrightarrow> trail_type \<in> {''IP'', ''IPORT''}"
  by (auto simp: address_hit_def split: bind_splits option.splits)

lemma query_trails_lands:
  assumes "worker_ok env st" "handed_over st query (Some wl_query)"
  shows "lands env (dns_event sec usec ep) 2 st (query_trails env query wl_query sec usec ep st)"
proof -
  define st1 where "st1 = bump (\<lambda>m. m\<lparr>m_trail_lookups := m_trail_lookups m + 1\<rparr>) st"
  have w1: "writes env (dns_event sec usec ep) 0 st st1" unfolding st1_def by (rule writes_fields [OF assms(1)])
  obtain r where r: "address_hit query ep (ws_trails st1) = Some r"
    using address_hit_total [OF worker_trails_ok [OF writes_ok [OF w1]]] by blast
  define st2 where "st2 = (case r of
            Some (trail_type, trail, info, reference) \<Rightarrow> emit_ep sec usec ep ''UDP'' trail_type (FText trail) info reference st1
          | None \<Rightarrow> st1)"
  have w2: "writes env (dns_event sec usec ep) 1 st1 st2"
  proof (cases r)
    case None
    then show ?thesis using writes_refl [OF writes_ok [OF w1]] by (simp add: st2_def)
  next
    case (Some h)
    obtain trail_type trail info reference where h: "h = (trail_type, trail, info, reference)" by (cases h)
    then have "trail_type \<in> {''IP'', ''IPORT''}" using address_hit_type r Some by blast
    then show ?thesis unfolding st2_def Some h prod.case option.case
      by (intro writes_emit_ep [OF writes_ok [OF w1]]) (auto simp: dns_event_def)
  qed
  have "handed_over st2 query (Some wl_query)"
    using assms(2) writes_same(2) [OF w1] writes_same(2) [OF w2] by (simp add: handed_over_def)
  then have "lands env (dns_event sec usec ep) 1 st2 (map_option snd (check_domain_inner env query sec usec ep ''UDP'' (Some wl_query) None st2))"
    by (intro lands_snd check_domain_inner_yields [OF writes_ok [OF w2]]) (simp_all add: dns_event_def)
  then have "lands env (dns_event sec usec ep) 2 st (map_option snd (check_domain_inner env query sec usec ep ''UDP'' (Some wl_query) None st2))"
    using lands_after [OF writes_trans [OF w1 w2, of 1], of 1 _ 2] by simp
  then show ?thesis unfolding query_trails_def Let_def st1_def [symmetric] r Option.bind.simps st2_def .
qed

lemma no_verdict_yet: "handed_over st q None"
  by (simp add: handed_over_def)

lemma report_writes:
  "worker_ok env st \<Longrightarrow> n > 0 \<Longrightarrow>
     writes env (dns_event sec usec ep) n st (emit_ep sec usec ep ''UDP'' ''DNS'' (FText trail) info reference st)"
  by (rule writes_emit_ep) (simp_all add: dns_event_def)

lemma alias_event_lands:
  assumes "worker_ok env st"
  shows "lands env (dns_event sec usec client) 1 st (alias_event env dns_data query name_end sec usec client hit st)"
  unfolding alias_event_def
  by (rule lands_bind_yield [OF domain_hit_yields [OF assms no_verdict_yet, where n = 0], where n = 1])
    (auto split: option.split prod.split intro!: lands_Some report_writes writes_refl dest: writes_ok)

lemma alias_walk_lands:
  assumes "worker_ok env st"
  shows "lands env (dns_event sec usec client) 1 st (alias_walk env dns_data query name_end sec usec client targets st)"
  using assms
proof (induction targets arbitrary: st)
  case Nil
  then show ?case by (simp add: lands_Some writes_refl)
next
  case (Cons target targets)
  show ?case
  proof (cases "target = query \<or> \<not> is_valid_dns_name target")
    case True
    then show ?thesis using Cons by auto
  next
    case False
    have "lands env (dns_event sec usec client) 1 st (do {
        (found, st) \<leftarrow> domain_hit env target None (Some query) st;
        (case found of
           None \<Rightarrow> alias_walk env dns_data query name_end sec usec client targets st
         | Some hit \<Rightarrow> alias_event env dns_data query name_end sec usec client hit st)
      })"
      using Cons.IH
      by (intro lands_bind_yield [OF domain_hit_yields [OF Cons.prems no_verdict_yet, where n = 0], where n = 1])
        (simp_all del: One_nat_def split: option.split add: writes_ok alias_event_lands)
    then show ?thesis using False by simp
  qed
qed

lemma first_a_record_total: "\<exists>r. first_a_record d name_end = Some r"
proof -
  have "\<exists>r. answer_walk d cursor ptr0 = Some r" for cursor ptr0
  proof (induction d cursor ptr0 rule: answer_walk.induct)
    case (1 d cursor ptr0)
    have "b_at d i \<noteq> None" if "\<not> skip_name d cursor + 10 > length d" "i < skip_name d cursor + 10" for i
      using that by (simp add: b_at_def)
    then show ?case using 1 by (subst answer_walk.simps) (auto simp: Let_def split: Option.bind_split)
  qed
  from this [of x x for x] show ?thesis
    by (cases "usize_checked_add name_end 5") (auto simp: first_a_record_def, metis Option.bind.simps(2))
qed

lemma sinkhole_lands:
  assumes "worker_ok env st"
  shows "lands env (dns_event sec usec ep) 1 st (sinkhole_check env dns_data query name_end sec usec ep st)"
proof -
  obtain answer where a: "first_a_record dns_data name_end = Some answer" using first_a_record_total by blast
  have quiet: "lands env (dns_event sec usec ep) 1 st (Some st)" using writes_refl [OF assms] by (rule lands_Some)
  show ?thesis
  proof (cases answer)
    case None
    then show ?thesis using quiet by (simp add: sinkhole_check_def a)
  next
    case (Some addr)
    obtain hit where h: "td_get_ip (V4 addr) (ws_trails st) = Some hit" using td_get_ip_total [OF worker_trails_ok [OF assms]] by blast
    show ?thesis
    proof (cases hit)
      case None
      then show ?thesis using quiet by (simp add: sinkhole_check_def a Some h)
    next
      case (Some v)
      show ?thesis
        unfolding sinkhole_check_def a \<open>answer = Some addr\<close> Option.bind.simps option.case h Some
        by (cases v, simp only: prod.case,
            rule lands_bind_yield [OF whitelisted_yields [OF assms, where n = 0], where n = 1])
          (auto intro!: lands_Some writes_refl emit_name_writes dest: writes_ok simp: Let_def split: option.split)
    qed
  qed
qed

lemma member_total:
  assumes "trails_ok db"
  shows "\<exists>r. td_contains_domain_member query db = Some r"
proof -
  have "\<exists>r. td_contains k db = Some r" for k using assms by (simp add: td_contains_def str_contains_def trails_ok_def db_ok_def str_get_spec)
  then have "\<exists>r. fold (\<lambda>name found. do { f \<leftarrow> found; if f then Some True else td_contains name db }) names (Some b) = Some r" for names b
    by (induction names arbitrary: b) (auto split: if_split, metis)
  moreover obtain b where "td_contains (map to_lower query) db = Some b"
    using assms by (auto simp: td_contains_def str_contains_def trails_ok_def db_ok_def str_get_spec)
  ultimately show ?thesis by (simp add: td_contains_domain_member_def Let_def)
qed

lemma nx_observe_keys_writes:
  assumes "worker_ok env st"
  shows "writes env (dns_event sec usec ep) 1 st (nx_observe_keys keys query sec usec ep st)"
  using assms
proof (induction keys arbitrary: st)
  case Nil
  then show ?case by (simp add: writes_refl)
next
  case (Cons key keys)
  obtain alert nx where nx: "nx_observe key query sec (ws_nxdomain st) = (alert, nx)" by fastforce
  define st1 where "st1 = st\<lparr>ws_nxdomain := nx\<rparr>"
  have "nx_room (ws_nxdomain st)" using Cons.prems by (simp add: worker_ok_def)
  then have "nx_room nx" using nx_room_step [of "ws_nxdomain st" "NxSeen key query sec"] by (simp add: nx)
  note w = writes_fields(3) [OF Cons.prems this, of "dns_event sec usec ep" 0, folded st1_def]
  have loud: "writes env (dns_event sec usec ep) 1 st (emit_name sec usec ep trail info st1)" for trail info
    using writes_trans [OF w emit_name_writes [OF writes_ok [OF w], of 1]] by simp
  have on: "writes env (dns_event sec usec ep) 1 st (nx_observe_keys keys query sec usec ep st1)"
    using writes_trans [OF w Cons.IH [OF writes_ok [OF w]]] by simp
  have quiet: "writes env (dns_event sec usec ep) 1 st st1" using writes_mono [OF w] by simp
  show ?case using loud on quiet by (auto simp: nx Let_def st1_def [symmetric] split: option.split nx_alert.split)
qed

lemma dga_lands:
  assumes "worker_ok env st"
  shows "lands env (dns_event sec usec ep) 1 st (dga_check env parts sec usec ep st)"
proof (cases "length parts = 2 \<and> parts ! 0 \<noteq> [] \<and> CHR ''-'' \<notin> set (parts ! 0)")
  case True
  let ?h = "str_hash (hash_seed env)" and ?part = "parts ! 0"
  have memo: "memo_of (hash_seed env) dga_verdict (ws_dga_findings st)" using assms by (simp add: worker_ok_def)
  obtain hit c where c: "lru_get ?h ?part (ws_dga_findings st) = Some (hit, c)" "hit = None \<or> hit = Some (dga_verdict ?part)"
    "memo_of (hash_seed env) dga_verdict c"
    using memo_get [OF memo] by blast
  obtain c' where c': "lru_insert ?h ?part (dga_verdict ?part) c = Some c'" "memo_of (hash_seed env) dga_verdict c'"
    using memo_put [OF c(3)] by blast
  define st1 where "st1 = (case hit of
      Some v \<Rightarrow> bump (\<lambda>m. m\<lparr>m_cache_hits := m_cache_hits m + 1\<rparr>) (st\<lparr>ws_dga_findings := c\<rparr>)
    | None \<Rightarrow> bump (\<lambda>m. m\<lparr>m_cache_misses := m_cache_misses m + 1\<rparr>) (st\<lparr>ws_dga_findings := c\<rparr>)\<lparr>ws_dga_findings := c'\<rparr>)"
  have w: "writes env (dns_event sec usec ep) 0 st st1"
  proof -
    have a: "writes env (dns_event sec usec ep) 0 st (bump f (st\<lparr>ws_dga_findings := c\<rparr>))" for f
      using writes_trans [OF writes_fields(6) [OF assms c(3)] writes_fields(10), of 0 0 0] writes_ok [OF writes_fields(6) [OF assms c(3)]] by simp
    show ?thesis
      using a writes_trans [OF a writes_fields(6) [OF writes_ok [OF a] c'(2)], of 0 0] by (cases hit) (simp_all add: st1_def)
  qed
  have "dga_check env parts sec usec ep st = Some (case dga_verdict ?part of
      Some info \<Rightarrow> emit_name sec usec ep (''('' @ ?part @ '').'' @ parts ! 1) info st1 | None \<Rightarrow> st1)"
    using True c(1,2) c'(1) unfolding dga_check_def st1_def by (cases hit; cases "dga_verdict ?part") (auto simp: Let_def bump_def)
  moreover have "writes env (dns_event sec usec ep) 1 st (emit_name sec usec ep trail info st1)" for trail info
    using writes_trans [OF w emit_name_writes [OF writes_ok [OF w], of 1]] by simp
  ultimately show ?thesis
    using writes_mono [OF w, of 1] by (auto intro!: lands_Some split: option.split)
next
  case False
  then show ?thesis using writes_refl [OF assms] by (auto simp: dga_check_def intro!: lands_Some)
qed

lemma missing_name_lands:
  assumes "worker_ok env st"
  shows "lands env (dns_event sec usec ep) 2 st (missing_name env query parts sec usec ep st)"
proof -
  have "nx_room (ws_nxdomain st)" using assms by (simp add: worker_ok_def)
  then have "nx_room (nx_maybe_prune sec (ws_nxdomain st))" using nx_room_step [of "ws_nxdomain st" "NxTick sec"] by simp
  note w = writes_fields(3) [OF assms this, of "dns_event sec usec ep" 0]
  have a: "writes env (dns_event sec usec ep) 1 st (if \<not> is_local (ep_dst ep)
     then nx_observe_keys keys query sec usec ep (st\<lparr>ws_nxdomain := nx_maybe_prune sec (ws_nxdomain st)\<rparr>) else st)" for keys
    using writes_trans [OF w nx_observe_keys_writes [OF writes_ok [OF w]]] writes_refl [OF assms] by simp
  show ?thesis unfolding missing_name_def Let_def by (rule lands_after [OF a dga_lands [OF writes_ok [OF a]]]) simp
qed

lemma lands_quiet: "worker_ok env st \<Longrightarrow> lands env P n st (Some st)"
  using writes_refl by (rule lands_Some)

lemma no_such_name_lands:
  assumes "worker_ok env st"
  shows "lands env (dns_event sec usec ep) 2 st (no_such_name env query sec usec ep st)"
proof -
  have known: "\<exists>r. td_contains_domain_member query (ws_trails st') = Some r" if "worker_ok env st'" for st' :: "'a worker_state"
    by (rule member_total [OF worker_trails_ok [OF that]])
  show ?thesis
    unfolding no_such_name_def Let_def
    by (intro lands_if lands_quiet [OF assms] lands_bind_yield [OF whitelisted_yields [OF assms, where n = 0], where n = 2])
      (auto intro!: lands_quiet missing_name_lands bind_value known dest: writes_ok)
qed

lemma dns_response_lands:
  assumes "worker_ok env st"
  shows "lands env (dns_event sec usec ep) 3 st (dns_response env dns_data query name_end high low sec usec ep st)"
proof -
  let ?client = "\<lparr>ep_src = ep_dst ep, ep_src_port = ep_dst_port ep, ep_dst = ep_src ep, ep_dst_port = ep_src_port ep\<rparr>"
  have same: "dns_event sec usec ?client = dns_event sec usec ep" by (rule ext) (auto simp: dns_event_def)
  have a: "lands env (dns_event sec usec ep) 1 st (if high AND 0x80 \<noteq> 0 \<and> low AND 0x0f = 0
            then alias_walk env dns_data query name_end sec usec ?client (cname_targets dns_data name_end) st else Some st)"
    using alias_walk_lands [OF assms, of sec usec ?client] lands_quiet [OF assms] by (simp add: same)
  show ?thesis
    unfolding dns_response_def Let_def
    by (rule lands_bind [OF a, where n = 2])
      (auto intro!: lands_quiet no_such_name_lands lands_mono [OF sinkhole_lands] dest: writes_ok)
qed

section \<open>The registrable domain of a name\<close>

lemma query_domain_spec:
  fixes query :: string
  defines "ls \<equiv> split_on (CHR ''.'') query"
  assumes "2 < length ls"
  shows "query_domain query = Some (join ''.'' (drop (if 3 < length ls \<and> length (ls ! (length ls - 2)) \<le> 3 then length ls - 3 else length ls - 2) ls))"
proof -
  let ?n = "length ls"
  have l: "label_at (dots_of query) query (?n - 2) = Some (ls ! (?n - 2))"
    using dot_parts(1) [of "?n - 2" query] assms by (simp add: ls_def)
  have s: "suffix_from (dots_of query) query (?n - 2) = join ''.'' (drop (?n - 2) ls)"
    using dot_parts(2) [of "?n - 2" query] assms by (simp add: ls_def)
  have t: "suffix_from (dots_of query) query (?n - 3) = join ''.'' (drop (?n - 3) ls)" if "3 < ?n"
    using dot_parts(2) [of "?n - 3" query] that by (simp add: ls_def)
  show ?thesis using l s t assms(2) by (auto simp: query_domain_def Let_def label_count_dots ls_def [symmetric])
qed

lemma zone_yields:
  assumes "worker_ok env st"
  shows "yields env (dns_event sec usec ep) 1 st (zone_checks env query wl_query sec usec ep st)"
    and "zone_checks env query wl_query sec usec ep st = Some (False, st') \<Longrightarrow> writes env (dns_event sec usec ep) 1 st st'"
proof -
  have quiet: "yields env P n st' (Some (x, st'))" if "worker_ok env st'" for P n x and st' :: "'a worker_state"
    using writes_refl [OF that] by (rule yields_Some)
  have none: "yields env (dns_event sec usec ep) 1 st (zone_checks env query wl_query sec usec ep st)" if "label_count (dots_of query) \<le> 2"
    using that quiet [OF assms] by (simp add: zone_checks_def)
  have reset: "writes env (dns_event sec usec ep) 0 st' (st'\<lparr>ws_dns_exhaustion := maybe_hourly_reset sec (ws_dns_exhaustion st')\<rparr>)"
    if "worker_ok env st'" for st' :: "'a worker_state"
    using de_room_step [of "ws_dns_exhaustion st'" "ExTick sec"] that by (intro writes_fields(1)) (simp_all add: worker_ok_def)
  have rest: "yields env (dns_event sec usec ep) 1 st' (do {
             (stop, st) \<leftarrow> exhaustion_check env query domain domain_key subdomain_key sec usec ep st';
             if stop then Some (True, st)
             else do {
               st \<leftarrow> tunneling_check env query domain subdomain domain_key subdomain_key sec usec ep st;
               Some (False, st)
             }
           })" if ok: "worker_ok env st'" for st' :: "'a worker_state" and domain subdomain domain_key subdomain_key
  proof -
    obtain stop st1 where e: "exhaustion_check env query domain domain_key subdomain_key sec usec ep st' = Some (stop, st1)"
      "writes env (dns_event sec usec ep) 1 st' st1"
      using exhaustion_yields [OF ok] unfolding yields_def by blast
    show ?thesis
    proof (cases stop)
      case True
      then show ?thesis using e by (simp add: yields_Some)
    next
      case False
      then have w: "writes env (dns_event sec usec ep) 0 st' st1" using exhaustion_goes_on [OF ok] e(1) by simp
      have "yields env (dns_event sec usec ep) 1 st1 (do {
          st \<leftarrow> tunneling_check env query domain subdomain domain_key subdomain_key sec usec ep st1; Some (False, st) })"
        by (rule yields_bind_lands [OF tunneling_lands [OF writes_ok [OF w]], where n = 0]) (auto intro!: quiet dest: writes_ok)
      then show ?thesis using e(1) False yields_after [OF w, of 1 _ 1] by simp
    qed
  qed
  have all: "yields env (dns_event sec usec ep) 1 st (zone_checks env query wl_query sec usec ep st)"
  proof (cases "label_count (dots_of query) \<le> 2")
    case False
    then obtain domain where d: "query_domain query = Some domain"
      using query_domain_spec [of query] by (auto simp: label_count_dots)
    have w: "yields env (dns_event sec usec ep) 0 st (if wl_query > 0 then check_domain_whitelisted env domain st else Some (False, st))"
      using whitelisted_yields [OF assms] by (simp add: quiet [OF assms])
    show ?thesis
      unfolding zone_checks_def Let_def d Option.bind.simps if_not_P [OF False]
      by (rule yields_bind [OF w, where n = 1])
        (auto intro!: quiet yields_after [OF reset rest, where k = 1] dest: writes_ok intro: writes_ok [OF reset] simp del: One_nat_def)
  qed (rule none)
  then show "yields env (dns_event sec usec ep) 1 st (zone_checks env query wl_query sec usec ep st)" .
  show "zone_checks env query wl_query sec usec ep st = Some (False, st') \<Longrightarrow> writes env (dns_event sec usec ep) 1 st st'"
    using all by (auto simp: yields_def)
qed

lemma dns_query_lands:
  assumes "worker_ok env st" "handed_over st query (Some wl_query)"
  shows "lands env (dns_event sec usec ep) 3 st (dns_query env dns_data query name_end wl_query sec usec ep st)"
proof (cases "question_type_class dns_data name_end")
  case None
  then show ?thesis using lands_quiet [OF assms(1)] by (simp add: dns_query_def)
next
  case (Some tc)
  have over: "handed_over st' query (Some wl_query)" if "writes env P n st st'" for P n and st' :: "'a worker_state"
    using assms(2) writes_same(2) [OF that] by (simp add: handed_over_def)
  show ?thesis
    unfolding dns_query_def Some option.case
    by (rule lands_bind_yield [OF zone_yields(1) [OF assms(1)], where n = 2])
      (auto intro!: lands_quiet query_trails_lands over dest: writes_ok)
qed

section \<open>A DNS packet\<close>

text \<open>What lower-casing promises: no upper-case ASCII letter is left.\<close>

definition lower_sound :: "'r outside \<Rightarrow> bool" where
  "lower_sound env \<longleftrightarrow> (\<forall>s. \<not> list_ex is_upper (lower_unicode env s))"

lemma not_upper_lower: "\<not> is_upper (to_lower c)"
  by (auto simp: is_upper_def to_lower_def code_char_of)

lemma label_walk_lower:
  "non_ascii \<or> \<not> list_ex is_upper buf \<Longrightarrow>
     (case label_walk d offset buf non_ascii of (name, na, fin, tr) \<Rightarrow> na \<or> \<not> list_ex is_upper name)"
proof (induction d offset buf non_ascii rule: label_walk.induct)
  case (1 d offset buf non_ascii)
  let ?start = "offset + 1" and ?fin = "min (offset + unat (d ! offset) + 1) (length d)"
  let ?label = "take (?fin - ?start) (drop ?start d)"
  let ?next = "if ?start \<le> ?fin then if ascii_bytes ?label then (buf @ map lower_byte ?label, non_ascii) else (buf @ lossy (bytes_str ?label), True)
    else (buf, non_ascii)"
  have low: "\<not> list_ex is_upper (map lower_byte l)" for l by (induction l) (simp_all add: lower_byte_def not_upper_lower)
  have dot: "\<not> is_upper (CHR ''.'')" by code_simp
  have next_ok: "snd ?next \<or> \<not> list_ex is_upper (fst ?next @ ''.'')" using 1(2) low dot by auto
  show ?case
  proof (cases "offset < length d \<and> d ! offset \<noteq> 0")
    case True
    have "label_walk d offset buf non_ascii = label_walk d (offset + unat (d ! offset) + 1) (fst ?next @ ''.'') (snd ?next)"
      using True by (subst label_walk.simps) (simp add: Let_def split_beta unat_eq_zero)
    moreover have "case label_walk d (offset + unat (d ! offset) + 1) (fst ?next @ ''.'') (snd ?next) of (name, na, fin, tr) \<Rightarrow> na \<or> \<not> list_ex is_upper name"
      using True by (intro 1(1) [OF _ refl _ refl refl refl _ _] next_ok) (auto simp: unat_eq_zero)
    ultimately show ?thesis by simp
  next
    case False
    then have "label_walk d offset buf non_ascii = (if offset < length d then (butlast buf, non_ascii, offset, False) else (buf, non_ascii, offset, True))"
      by (subst label_walk.simps) auto
    then show ?thesis using 1(2) by (auto simp: list_ex_iff dest: in_set_butlastD)
  qed
qed

lemma question_lower:
  assumes "lower_sound env" "question_into (lower_unicode env) d = (name, Some name_end)"
  shows "\<not> list_ex is_upper name"
proof -
  obtain buf na fin tr where b: "label_walk d 12 [] False = (buf, na, fin, tr)" by (cases "label_walk d 12 [] False") auto
  then have "na \<or> \<not> list_ex is_upper buf" using label_walk_lower [of False "[]" d 12] by simp
  moreover have "name = (if na then lower_unicode env buf else buf)"
    using assms(2) by (simp add: question_into_def decode_name_def b)
  ultimately show ?thesis using assms(1) by (auto simp: lower_sound_def)
qed

lemma dns_name_lands:
  assumes "worker_ok env st" "\<not> list_ex is_upper query"
  shows "lands env (dns_event sec usec ep) 3 st (dns_name env dns_data ep query name_end sec usec st)"
proof (cases "ignored_name query")
  case True
  then show ?thesis using lands_quiet [OF assms(1)] by (simp add: dns_name_def)
next
  case False
  let ?st = "st\<lparr>ws_meta := observe_dns query sec (ws_meta st)\<rparr>"
  have "meta_ok (ws_meta st)" using assms(1) by (simp add: worker_ok_def)
  then have m: "writes env (dns_event sec usec ep) 0 st ?st"
    by (intro writes_fields(22) assms observe_dns_ok)
  obtain st1 where d: "check_domain_whitelist_depth env query ?st = Some (whitelist_depth (ws_whitelist ?st) query, st1)"
    "writes env (dns_event sec usec ep) 0 ?st st1"
    using depth_yields [OF writes_ok [OF m]] by blast
  have "handed_over st1 query (Some (whitelist_depth (ws_whitelist st) query))"
    using False assms(2) writes_same(2) [OF d(2)] by (simp add: handed_over_def ignored_name_def)
  note q = dns_query_lands [OF writes_ok [OF d(2)] this] and r = dns_response_lands [OF writes_ok [OF d(2)]]
  have "lands env (dns_event sec usec ep) 3 st1 (case (flags_high dns_data, flags_low dns_data) of
           (Some high, Some low) \<Rightarrow>
             (if high AND 0xfa = 0 then dns_query env dns_data query name_end (whitelist_depth (ws_whitelist st) query) sec usec ep st1
              else dns_response env dns_data query name_end high low sec usec ep st1)
         | _ \<Rightarrow> Some st1)"
    using q r lands_quiet [OF writes_ok [OF d(2)]] by (simp split: option.split)
  then show ?thesis using False lands_after [OF writes_trans [OF m d(2), of 0], of 3 _ 3] by (simp add: dns_name_def d(1))
qed

lemma dns_packet_lands:
  assumes "worker_ok env st" "lower_sound env"
  shows "lands env (dns_event sec usec ep) 3 st (dns_packet env ip_data header ep sec usec st)"
  using lands_quiet [OF assms(1)] dns_name_lands [OF assms(1) question_lower [OF assms(2)]]
  by (auto simp: dns_packet_def Let_def split: option.split prod.split)

text \<open>Whatever bytes a DNS datagram holds, its check does not panic: the worker is left in good order (each cache
  holds only verdicts that are right, no accumulator is over its cap), and at most three events are written, each
  with the time of the packet, its two addresses and one of the trail types DNS, IP and IPORT.\<close>
theorem dns_packet_never_panics:
  assumes "worker_ok env st" "lower_sound env"
  shows "\<exists>st' es. dns_packet env ip_data header ep sec usec st = Some st' \<and> worker_ok env st' \<and>
    ws_sink st' = ws_sink st @ es \<and> length es \<le> 3 \<and> list_all (dns_event sec usec ep) es"
proof -
  obtain st' where st': "dns_packet env ip_data header ep sec usec st = Some st'" "writes env (dns_event sec usec ep) 3 st st'"
    using dns_packet_lands [OF assms] unfolding lands_def by blast
  then obtain es where "ws_sink st' = ws_sink st @ es" "list_all (dns_event sec usec ep) es" "length es \<le> 3"
    unfolding writes_def by blast
  then show ?thesis using st' writes_ok by blast
qed

lemma sample_lower_sound: "lower_sound sample_outside"
  unfolding lower_sound_def
proof
  show "\<not> list_ex is_upper (lower_unicode sample_outside s)" for s
    by (induction s) (auto simp: sample_outside_def not_upper_lower)
qed

lemma sample_worker:
  obtains wl and db :: "unit trail_db" where "wl_load [] = Some wl" "trails_ok db"
    "trail_of db = (\<lambda>k. if k = ''bad.cloudfront.net'' then Some (''malware'', ''(static)'') else None)"
    "worker_ok sample_outside (worker_new sample_config scan_default wl db)"
proof -
  obtain db :: "unit trail_db" where db: "trails_ok db"
    "trail_of db = (\<lambda>k. if k = ''bad.cloudfront.net'' then Some (''malware'', ''(static)'') else None)" using sample_db .
  have "length (wl_lines []) < 2 ^ 58" by (simp add: wl_lines_def)
  from wl_load_spec [OF this] obtain wl where wl: "wl_load [] = Some wl" "wl_ok wl" by blast
  have "domain_cache_entries sample_config < nil" by (simp add: sample_config_def nil_def)
  from worker_ok_new [OF wl(2) db(1) sample_outside_ok this]
  have "worker_ok sample_outside (worker_new sample_config scan_default wl db)"
    by (simp add: scan_default_def)
  then show ?thesis using that wl(1) db by blast
qed

definition sample_query :: bytes where
  "sample_query = replicate 8 0 @ [0, 1, 1, 0, 0, 1, 0, 0, 0, 0, 0, 0] @
     [3] @ map (of_nat \<circ> code) ''bad'' @ [10] @ map (of_nat \<circ> code) ''cloudfront'' @ [3] @ map (of_nat \<circ> code) ''net'' @ [0, 0, 1, 0, 1]"

definition sample_header :: ip_header where
  "sample_header = \<lparr>ih_version = 4, ih_header_len = 0, ih_protocol = 17, ih_src = V4 0x0a000001, ih_dst = V4 0x08080808\<rparr>"

definition sample_endpoints :: endpoints where
  "sample_endpoints = \<lparr>ep_src = V4 0x0a000001, ep_src_port = 4242, ep_dst = V4 0x08080808, ep_dst_port = 53\<rparr>"

theorem dns_packet_never_panics_witness:
  "\<exists>db wl st' es. wl_load [] = Some wl \<and> trail_of db ''bad.cloudfront.net'' = Some (''malware'', ''(static)'') \<and>
     dns_packet sample_outside sample_query sample_header sample_endpoints 7 8 (worker_new sample_config scan_default wl db) = Some st' \<and>
     ws_sink st' = es \<and> length es \<le> 3 \<and> list_all (dns_event 7 8 sample_endpoints) es"
proof -
  obtain wl and db :: "unit trail_db" where w: "wl_load [] = Some wl"
    "trail_of db = (\<lambda>k. if k = ''bad.cloudfront.net'' then Some (''malware'', ''(static)'') else None)"
    "worker_ok sample_outside (worker_new sample_config scan_default wl db)"
    using sample_worker .
  show ?thesis
    using dns_packet_never_panics [OF w(3) sample_lower_sound, of sample_query sample_header sample_endpoints 7 8] w(1,2)
    by (intro exI [of _ db] exI [of _ wl]) (auto simp: worker_new_def)
qed

section \<open>One walk of the whitelist\<close>

lemma token_valid: "is_valid_dns_name q \<Longrightarrow> set d \<subseteq> set q \<Longrightarrow> whitelist_domain_token d = d"
  using valid_name_chars [of q] by (auto simp: whitelist_domain_token_def takeWhile_eq_all_conv list_all_iff name_char_def)

lemma split_shorter: "length (split_on c s) \<le> length s + 1"
  by (induction s) (auto split: list.split)

lemma tails_of_drop: "k < length xs \<Longrightarrow> set (tails (drop k xs)) \<subseteq> set (tails xs)"
proof (induction xs arbitrary: k)
  case (Cons x xs)
  then show ?case by (cases k) auto
qed simp

lemma drop_drop_text: "set (join ''.'' (drop k ls)) \<subseteq> set (join ''.'' ls)"
proof (induction ls arbitrary: k)
  case (Cons l ls)
  show ?case
  proof (cases k)
    case (Suc j)
    have "set (join ''.'' ls) \<subseteq> set (join ''.'' (l # ls))" by (cases ls) auto
    then show ?thesis using Cons.IH [of j] Suc by auto
  qed simp
qed simp

text \<open>C33: when no whitelist entry covers the queried name, none covers the registrable domain taken from it, so the
  second walk of the whitelist that the code leaves out in that case would find nothing.\<close>
theorem second_walk_is_redundant:
  assumes "wl_load texts = Some wl" "length (wl_lines texts) < 2 ^ 58"
    and "is_valid_dns_name query" "length query < 2 ^ 32 - 1" "2 < label_count (dots_of query)"
    and "check_domain_member_depth wl (whitelist_domain_token query) = Some 0"
  shows "\<exists>domain. query_domain query = Some domain \<and> check_domain_member_depth wl (whitelist_domain_token domain) = Some 0"
proof -
  define ls where "ls = split_on (CHR ''.'') query"
  obtain k where k: "query_domain query = Some (join ''.'' (drop k ls))" "k < length ls"
    using query_domain_spec [of query] assms(5) by (simp add: label_count_dots ls_def [symmetric] split: if_splits)
  have wl: "wl_ok wl" using wl_load_spec [OF assms(2)] assms(1) by auto
  have q: "query = join ''.'' ls" by (simp add: ls_def join_split)
  have t: "whitelist_domain_token query = query" "whitelist_domain_token (join ''.'' (drop k ls)) = join ''.'' (drop k ls)"
    using token_valid [OF assms(3), of query] token_valid [OF assms(3), of "join ''.'' (drop k ls)"] drop_drop_text [of k ls] by (simp_all add: q)
  have "\<forall>l \<in> set (drop k ls). CHR ''.'' \<notin> set l" using split_no_dot in_set_dropD unfolding ls_def by metis
  then have split: "split_on (CHR ''.'') (join ''.'' (drop k ls)) = drop k ls" using split_join [of "drop k ls"] k(2) by simp
  have lab: "labels query = map (map to_lower) ls" "labels (join ''.'' (drop k ls)) = drop k (map (map to_lower) ls)"
    by (simp_all add: labels_def split_lower ls_def [symmetric] split drop_map)
  have "closest (set (wl_exact wl)) query = None"
  proof (rule ccontr)
    assume "closest (set (wl_exact wl)) query \<noteq> None"
    then obtain m where m: "closest (set (wl_exact wl)) query = Some m" by blast
    then have "m \<in> set (tails (labels query))" by (auto simp: closest_def find_Some_iff)
    then have "m \<noteq> []" "length m \<le> length ls" using tails_drop [of m "labels query"] tails_sub by (auto simp: lab)
    then have "0 < length m" "length m < 2 ^ 32" using split_shorter [of "CHR ''.''" query] assms(4) by (auto simp: ls_def)
    moreover have "(of_nat (length m) :: u32) = 0" using assms(6) depth_spec [OF wl, of query] by (simp add: t m)
    ultimately show False by (simp add: of_nat_eq_0_iff dvd_imp_le word_of_nat_eq_0_iff nat_dvd_not_less)
  qed
  then have "closest (set (wl_exact wl)) (join ''.'' (drop k ls)) = None"
    using tails_of_drop [of k "map (map to_lower) ls"] k(2) by (auto simp: closest_def find_None_iff lab)
  then show ?thesis using k(1) depth_spec [OF wl, of "join ''.'' (drop k ls)"] by (simp add: t)
qed

theorem second_walk_is_redundant_witness:
  "\<exists>wl. wl_load [''google.com'', ''10.0.0.0/8''] = Some wl \<and> query_domain ''a.b.example.org'' = Some ''example.org'' \<and>
     check_domain_member_depth wl (whitelist_domain_token ''example.org'') = Some 0"
proof -
  let ?texts = "[''google.com'', ''10.0.0.0/8'']" and ?q = "''a.b.example.org''"
  have t: "length (wl_lines ?texts) < 2 ^ 58" by (simp add: sample_lines)
  obtain wl where wl: "wl_load ?texts = Some wl" "wl_ok wl" "set (wl_exact wl) = {''google.com''}"
    using wl_load_spec [OF t] by (auto simp: sample_lines sample_entries)
  have e: "whitelist_domain_token ?q = ?q" "is_valid_dns_name ?q" "2 < label_count (dots_of ?q)" "closest {''google.com''} ?q = None"
    "query_domain ?q = Some ''example.org''" by code_simp+
  have l: "length ?q < 2 ^ 32 - 1" by simp
  have "check_domain_member_depth wl (whitelist_domain_token ?q) = Some 0" using depth_spec [OF wl(2), of ?q] e by (simp add: wl(3))
  from second_walk_is_redundant [OF wl(1) t e(2) l e(3) this] show ?thesis using wl(1) e(5) by auto
qed

end
