(* ===== verification/Handshake.thy ===== *)
theory Handshake
  imports Dnspath
begin

text \<open>
  TLS and QUIC handshakes on the packet path (\<open>handshake_sni\<close> of \<open>process.rs\<close> and what it calls): server names against
  the trails, client fingerprints and server certificates against the trails of their kind, and the ClientHellos
  that span packets.
\<close>

section \<open>What a handshake is checked for\<close>

definition tcp_wire_payload :: "bytes \<Rightarrow> ip_header \<Rightarrow> tcp_header \<Rightarrow> bytes \<times> bool" where
  "tcp_wire_payload ip_data header tcph =
     (let payload = tcp_payload tcph ip_data (ih_header_len header);
          sent = (if ih_version header = 4 then map_option (\<lambda>b. unat (be16 (b ! 0) (b ! 1))) (b_slice ip_data 2 4)
                   else map_option (\<lambda>b. 40 + unat (be16 (b ! 0) (b ! 1))) (b_slice ip_data 4 6))
      in case sent of
           None \<Rightarrow> (payload, False)
         | Some sent \<Rightarrow>
             (let wire = sent - (ih_header_len header + unat (th_data_offset tcph) * 4)
              in if length payload \<ge> wire then (take wire payload, True) else (payload, False)))"

definition wanted_fingerprints :: "'r worker_state \<Rightarrow> u8" where
  "wanted_fingerprints st =
     (if \<not> check_tls_fingerprints (ws_cfg st) then 0
      else (if has_fingerprints fp_ja3 (ws_trails st) then fp_ja3 else 0) OR (if has_fingerprints fp_ja4 (ws_trails st) then fp_ja4 else 0))"

definition count_lookup :: "'r worker_state \<Rightarrow> 'r worker_state" where
  "count_lookup st = bump (\<lambda>m. m\<lparr>m_trail_lookups := m_trail_lookups m + 1\<rparr>) st"

definition check_client_fingerprint ::
    "client_hello \<Rightarrow> nat \<Rightarrow> nat \<Rightarrow> endpoints \<Rightarrow> string \<Rightarrow> 'r worker_state \<Rightarrow> 'r worker_state option" where
  "check_client_fingerprint ch sec usec ep proto st =
     (if ja3 ch = [] \<and> ja4 ch = [] then Some st
      else do {
        let st = count_lookup st;
        hit3 \<leftarrow> td_get (ja3 ch) (ws_trails st);
        (case (if ja3 ch = [] then None else hit3) of
           Some (info, reference) \<Rightarrow> Some (emit_ep sec usec ep proto ''JA3'' (FText (ja3 ch)) info reference st)
         | None \<Rightarrow> do {
             let st = count_lookup st;
             hit4 \<leftarrow> td_get (ja4 ch) (ws_trails st);
             Some (case (if ja4 ch = [] then None else hit4) of
                 Some (info, reference) \<Rightarrow> emit_ep sec usec ep proto ''JA4'' (FText (ja4 ch)) info reference st
               | None \<Rightarrow> st)
           })
      })"

text \<open>\<open>client_hello\<close> of \<open>process.rs\<close>.\<close>

definition on_client_hello ::
    "'r outside \<Rightarrow> client_hello \<Rightarrow> bool \<Rightarrow> nat \<Rightarrow> nat \<Rightarrow> endpoints \<Rightarrow> string \<Rightarrow> 'r worker_state \<Rightarrow> 'r worker_state option" where
  "on_client_hello env ch check_sni sec usec ep proto st = do {
     st \<leftarrow> (if check_sni \<and> check_tls_sni (ws_cfg st)
            then (case ch_sni ch of Some sni \<Rightarrow> check_domain env sni sec usec ep proto st | None \<Rightarrow> Some st)
            else Some st);
     if check_tls_fingerprints (ws_cfg st) then check_client_fingerprint ch sec usec ep proto st else Some st
   }"

definition hex_digest :: "(bytes \<Rightarrow> bytes) \<Rightarrow> bytes \<Rightarrow> string" where
  "hex_digest digest b = hex_lowercase (digest b)"

fun digest_walk :: "string list \<Rightarrow> nat \<Rightarrow> nat \<Rightarrow> endpoints \<Rightarrow> 'r worker_state \<Rightarrow> 'r worker_state option" where
  "digest_walk [] sec usec ep st = Some st"
| "digest_walk (digest # digests) sec usec ep st = do {
     let st = count_lookup st;
     hit \<leftarrow> td_get digest (ws_trails st);
     (case hit of
        Some (info, reference) \<Rightarrow> Some (emit_ep sec usec ep ''TCP'' ''CERT'' (FText digest) info reference st)
      | None \<Rightarrow> digest_walk digests sec usec ep st)
   }"

definition check_server_certificate ::
    "crypto \<Rightarrow> bytes \<Rightarrow> nat \<Rightarrow> nat \<Rightarrow> endpoints \<Rightarrow> 'r worker_state \<Rightarrow> 'r worker_state option" where
  "check_server_certificate cr payload sec usec ep st =
     (case server_certificate_der payload of
        None \<Rightarrow> Some st
      | Some der \<Rightarrow> digest_walk [hex_digest (sha1_of cr) der, hex_digest (sha256_of cr) der] sec usec ep st)"

text \<open>The parser with the buffers of the thread.\<close>

definition parse_hello :: "crypto \<Rightarrow> bytes \<Rightarrow> u8 \<Rightarrow> u8 \<Rightarrow> 'r worker_state \<Rightarrow> (client_hello option \<times> 'r worker_state) option" where
  "parse_hello cr msg want transport st = do {
     (ch, memo) \<leftarrow> parse_client_hello_over (md5_of cr) (sha256_of cr) msg want transport (ws_tls st);
     Some (ch, st\<lparr>ws_tls := (fst (ws_tls st), memo)\<rparr>)
   }"

definition on_parsed_hello ::
    "crypto \<Rightarrow> 'r outside \<Rightarrow> bytes \<Rightarrow> u8 \<Rightarrow> u8 \<Rightarrow> bool \<Rightarrow> nat \<Rightarrow> nat \<Rightarrow> endpoints \<Rightarrow> string \<Rightarrow> 'r worker_state \<Rightarrow> (bool \<times> 'r worker_state) option" where
  "on_parsed_hello cr env msg want transport check_sni sec usec ep proto st = do {
     (ch, st) \<leftarrow> parse_hello cr msg want transport st;
     (case ch of
        None \<Rightarrow> Some (False, st)
      | Some ch \<Rightarrow> map_option (\<lambda>st. (True, st)) (on_client_hello env ch check_sni sec usec ep proto st))
   }"

section \<open>TLS over TCP\<close>

definition idle_now :: "nat \<Rightarrow> 'r worker_state \<Rightarrow> bool \<times> 'r worker_state" where
  "idle_now sec st = (let (idle, asm) = hello_idle sec (ws_hello st) in (idle, st\<lparr>ws_hello := asm\<rparr>))"

text \<open>A later segment of a ClientHello that is waiting for it.\<close>

definition continue_hello ::
    "crypto \<Rightarrow> 'r outside \<Rightarrow> u64 \<Rightarrow> nat \<Rightarrow> bytes \<Rightarrow> nat \<Rightarrow> nat \<Rightarrow> endpoints \<Rightarrow> 'r worker_state \<Rightarrow> 'r worker_state option" where
  "continue_hello cr env key off payload sec usec ep st = do {
     let want = wanted_fingerprints st;
     (d, asm) \<leftarrow> hello_put key sec off payload (ws_hello st);
     let st = st\<lparr>ws_hello := asm\<rparr>;
     (case d of
        None \<Rightarrow> Some st
      | Some msg \<Rightarrow> map_option snd (on_parsed_hello cr env (hd_bytes msg) want 0x74 (\<not> hd_reported msg) sec usec ep ''TCP''
          (bump (\<lambda>m. m\<lparr>m_handshakes_reassembled := m_handshakes_reassembled m + 1\<rparr>) st)))
   }"

text \<open>A segment that begins a handshake record: a split ClientHello is put aside, anything else is looked at whole.\<close>

definition begin_hello ::
    "crypto \<Rightarrow> 'r outside \<Rightarrow> u64 \<Rightarrow> u32 \<Rightarrow> bytes \<Rightarrow> bool \<Rightarrow> nat \<Rightarrow> nat \<Rightarrow> endpoints \<Rightarrow> 'r worker_state \<Rightarrow> 'r worker_state option" where
  "begin_hello cr env key seq payload whole sec usec ep st =
     (let need = (case b_slice payload 3 5 of None \<Rightarrow> 0 | Some l \<Rightarrow> 5 + unat (be16 (l ! 0) (l ! 1)))
      in if whole \<and> b_at payload 5 = Some 0x01 \<and> length payload < need
         then do {
           sni \<leftarrow> (if check_tls_sni (ws_cfg st) then client_hello_sni payload else Some None);
           st \<leftarrow> (case sni of Some s \<Rightarrow> check_domain env s sec usec ep ''TCP'' st | None \<Rightarrow> Some st);
           asm \<leftarrow> hello_start key seq need sec (sni \<noteq> None) (ws_hello st);
           (_, asm) \<leftarrow> hello_put key sec 0 payload asm;
           Some (st\<lparr>ws_hello := asm\<rparr>)
         }
         else do {
           (found, st) \<leftarrow> on_parsed_hello cr env payload (wanted_fingerprints st) 0x74 True sec usec ep ''TCP'' st;
           if \<not> found \<and> check_tls_fingerprints (ws_cfg st) \<and> has_fingerprints fp_cert (ws_trails st)
           then check_server_certificate cr payload sec usec ep st else Some st
         })"

definition handshake_segment ::
    "crypto \<Rightarrow> 'r outside \<Rightarrow> u32 \<Rightarrow> bytes \<times> bool \<Rightarrow> nat \<Rightarrow> nat \<Rightarrow> endpoints \<Rightarrow> 'r worker_state \<Rightarrow> 'r worker_state option" where
  "handshake_segment cr env seq wire sec usec ep st =
     (let (payload, whole) = wire;
          key = flow_key (hash_seed env) (ep_src ep) (ep_src_port ep) (ep_dst ep) (ep_dst_port ep) []
      in if payload = [] then Some st
         else do {
           let (idle, st) = idle_now sec st;
           (pending, st) \<leftarrow> (if idle then Some (None, st)
             else do { (base, asm) \<leftarrow> hello_base key sec (ws_hello st); Some (base, st\<lparr>ws_hello := asm\<rparr>) });
           let later = (b_at payload 0 \<noteq> Some 0x16 \<or> b_at payload 5 \<noteq> Some 0x01);
           (case (if later then pending else None) of
              Some base \<Rightarrow> continue_hello cr env key (unat (seq - base)) payload sec usec ep st
            | None \<Rightarrow> if b_at payload 0 \<noteq> Some 0x16 then Some st else begin_hello cr env key seq payload whole sec usec ep st)
         })"

definition handshake_tcp ::
    "crypto \<Rightarrow> 'r outside \<Rightarrow> bytes \<Rightarrow> ip_header \<Rightarrow> nat \<Rightarrow> nat \<Rightarrow> 'r worker_state \<Rightarrow> 'r worker_state option" where
  "handshake_tcp cr env ip_data header sec usec st =
     (case parse_tcp ip_data (ih_header_len header) of
        None \<Rightarrow> Some st
      | Some tcph \<Rightarrow>
          (case b_at (tcp_payload tcph ip_data (ih_header_len header)) 0 of
             None \<Rightarrow> Some st
           | Some x \<Rightarrow>
               (let (skip, st) = (if x \<noteq> 0x16 then idle_now sec st else (False, st));
                    ep = \<lparr>ep_src = ih_src header, ep_src_port = th_src_port tcph, ep_dst = ih_dst header, ep_dst_port = th_dst_port tcph\<rparr>
                in if skip then Some st
                   else handshake_segment cr env (tcp_seq ip_data (ih_header_len header)) (tcp_wire_payload ip_data header tcph) sec usec ep st)))"

section \<open>QUIC\<close>

definition hello_need :: "bytes \<Rightarrow> nat" where
  "hello_need head = 4 + unat (be32 0 (head ! 1) (head ! 2) (head ! 3))"

definition flow_pending :: "u64 \<Rightarrow> nat \<Rightarrow> 'r worker_state \<Rightarrow> (bool \<times> 'r worker_state) option" where
  "flow_pending key sec st = do { (p, asm) \<leftarrow> hello_pending key sec (ws_hello st); Some (p, st\<lparr>ws_hello := asm\<rparr>) }"

definition flow_start :: "u64 \<Rightarrow> nat \<Rightarrow> nat \<Rightarrow> bool \<Rightarrow> 'r worker_state \<Rightarrow> 'r worker_state option" where
  "flow_start key need sec reported st = do { asm \<leftarrow> hello_start key 0 need sec reported (ws_hello st); Some (st\<lparr>ws_hello := asm\<rparr>) }"

text \<open>The frames, put in their place until the message is whole.\<close>

fun put_chunks :: "u64 \<Rightarrow> nat \<Rightarrow> chunk_map \<Rightarrow> 'r worker_state \<Rightarrow> (hello_done option \<times> 'r worker_state) option" where
  "put_chunks key sec [] st = Some (None, st)"
| "put_chunks key sec ((off, chunk) # chunks) st = do {
     (d, asm) \<leftarrow> hello_put key sec (unat off) chunk (ws_hello st);
     let st = st\<lparr>ws_hello := asm\<rparr>;
     (case d of
        None \<Rightarrow> put_chunks key sec chunks st
      | Some msg \<Rightarrow> Some (Some msg, bump (\<lambda>m. m\<lparr>m_handshakes_reassembled := m_handshakes_reassembled m + 1\<rparr>) st))
   }"

definition quic_start_hello :: "'r outside \<Rightarrow> u64 \<Rightarrow> bytes \<Rightarrow> nat \<Rightarrow> nat \<Rightarrow> endpoints \<Rightarrow> 'r worker_state \<Rightarrow> 'r worker_state option" where
  "quic_start_hello env key head sec usec ep st = do {
     sni \<leftarrow> (if check_tls_sni (ws_cfg st) then quic_client_hello_sni head else Some None);
     st \<leftarrow> (case sni of Some s \<Rightarrow> check_domain env s sec usec ep ''UDP'' st | None \<Rightarrow> Some st);
     flow_start key (hello_need head) sec (sni \<noteq> None) st
   }"

definition quic_client_hello ::
    "crypto \<Rightarrow> 'r outside \<Rightarrow> opened \<Rightarrow> u8 \<Rightarrow> nat \<Rightarrow> nat \<Rightarrow> endpoints \<Rightarrow> 'r worker_state \<Rightarrow> 'r worker_state option" where
  "quic_client_hello cr env o1 want sec usec ep st =
     (case opened_crypto cr o1 of
        None \<Rightarrow> Some st
      | Some chunks \<Rightarrow> do {
          let key = flow_key (hash_seed env) (ep_src ep) (ep_src_port ep) (ep_dst ep) (ep_dst_port ep) (op_dcid o1);
          (pending, st) \<leftarrow> flow_pending key sec st;
          let head = contiguous chunks;
          let need = hello_need head;
          if \<not> pending \<and> (length head < 4 \<or> head ! 0 \<noteq> 0x01) then Some st
          else if \<not> pending \<and> length head \<ge> need
          then map_option snd (on_parsed_hello cr env (take need head) want 0x71 True sec usec ep ''UDP'' st)
          else do {
            st \<leftarrow> (if pending then Some st else quic_start_hello env key head sec usec ep st);
            (d, st) \<leftarrow> put_chunks key sec chunks st;
            (case d of
               None \<Rightarrow> Some st
             | Some msg \<Rightarrow> map_option snd (on_parsed_hello cr env (hd_bytes msg) want 0x71 (\<not> hd_reported msg) sec usec ep ''UDP'' st))
          }
        })"

definition check_name :: "'r outside \<Rightarrow> string option \<Rightarrow> nat \<Rightarrow> nat \<Rightarrow> endpoints \<Rightarrow> 'r worker_state \<Rightarrow> 'r worker_state option" where
  "check_name env sni sec usec ep st = (case sni of Some s \<Rightarrow> check_domain env s sec usec ep ''UDP'' st | None \<Rightarrow> Some st)"

text \<open>The server name in what has arrived of a message that is not complete.\<close>

definition quic_prefix :: "'r outside \<Rightarrow> u64 \<Rightarrow> nat \<Rightarrow> nat \<Rightarrow> endpoints \<Rightarrow> 'r worker_state \<Rightarrow> 'r worker_state option" where
  "quic_prefix env key sec usec ep st = do {
     (p, asm) \<leftarrow> hello_prefix key sec (ws_hello st);
     let st = st\<lparr>ws_hello := asm\<rparr>;
     sni \<leftarrow> (case p of None \<Rightarrow> Some None | Some b \<Rightarrow> quic_client_hello_sni b);
     (case sni of
        None \<Rightarrow> Some st
      | Some s \<Rightarrow> do {
          asm \<leftarrow> hello_forget key sec (ws_hello st);
          check_domain env s sec usec ep ''UDP'' (st\<lparr>ws_hello := asm\<rparr>)
        })
   }"

text \<open>The server name alone, as long as no fingerprint is wanted.\<close>

definition quic_sni ::
    "crypto \<Rightarrow> 'r outside \<Rightarrow> opened \<Rightarrow> nat \<Rightarrow> nat \<Rightarrow> endpoints \<Rightarrow> 'r worker_state \<Rightarrow> 'r worker_state option" where
  "quic_sni cr env o1 sec usec ep st = do {
     (sni, chunks) \<leftarrow> opened_scan cr o1;
     (case (sni, chunks) of
        (Some s, _) \<Rightarrow> check_domain env s sec usec ep ''UDP'' st
      | (None, None) \<Rightarrow> Some st
      | (None, Some chunks) \<Rightarrow> do {
          let key = flow_key (hash_seed env) (ep_src ep) (ep_src_port ep) (ep_dst ep) (ep_dst_port ep) (op_dcid o1);
          (pending, st) \<leftarrow> flow_pending key sec st;
          let head = (case map_of chunks 0 of Some h \<Rightarrow> h | None \<Rightarrow> []);
          if \<not> pending \<and> (length head < 4 \<or> head ! 0 \<noteq> 0x01 \<or> length (contiguous chunks) \<ge> hello_need head) then Some st
          else do {
            st \<leftarrow> (if pending then Some st else flow_start key (hello_need head) sec False st);
            (d, st) \<leftarrow> put_chunks key sec chunks st;
            (case d of
               Some msg \<Rightarrow> do { sni \<leftarrow> quic_client_hello_sni (hd_bytes msg); check_name env sni sec usec ep st }
             | None \<Rightarrow> quic_prefix env key sec usec ep st)
          }
        })
   }"

definition handshake_udp ::
    "crypto \<Rightarrow> 'r outside \<Rightarrow> bytes \<Rightarrow> ip_header \<Rightarrow> nat \<Rightarrow> nat \<Rightarrow> 'r worker_state \<Rightarrow> 'r worker_state option" where
  "handshake_udp cr env ip_data header sec usec st =
     (case parse_udp ip_data (ih_header_len header) of
        None \<Rightarrow> Some st
      | Some udph \<Rightarrow>
          (let payload = udp_payload ip_data (ih_header_len header);
               ep = \<lparr>ep_src = ih_src header, ep_src_port = uh_src_port udph, ep_dst = ih_dst header, ep_dst_port = uh_dst_port udph\<rparr>
           in if (case b_at payload 0 of None \<Rightarrow> True | Some b \<Rightarrow> b AND 0x80 = 0) then Some st
              else do {
                (o1, memo) \<leftarrow> open_initial cr (hash_seed env) payload (ws_quic st);
                let st = st\<lparr>ws_quic := memo\<rparr>;
                (case o1 of
                   None \<Rightarrow> Some st
                 | Some o1 \<Rightarrow>
                     (let want = wanted_fingerprints st
                      in if want \<noteq> 0 then quic_client_hello cr env o1 want sec usec ep st
                         else if \<not> check_tls_sni (ws_cfg st) then Some st
                         else quic_sni cr env o1 sec usec ep st))
              }))"

definition handshake_sni ::
    "crypto \<Rightarrow> 'r outside \<Rightarrow> bytes \<Rightarrow> ip_header \<Rightarrow> nat \<Rightarrow> nat \<Rightarrow> 'r worker_state \<Rightarrow> 'r worker_state option" where
  "handshake_sni cr env ip_data header sec usec st =
     (if ih_protocol header = 6 then handshake_tcp cr env ip_data header sec usec st
      else if ih_protocol header = 17 \<and> (check_tls_sni (ws_cfg st) \<or> check_tls_fingerprints (ws_cfg st))
      then handshake_udp cr env ip_data header sec usec st
      else Some st)"

section \<open>The parsers do not panic\<close>

lemma on_ext_total [simp]: "on_ext etype body st \<noteq> None"
  using sni_extension_total [of body True] alpn_first_total [of body]
  by (cases st) (auto simp: on_ext_def Let_def split: option.split sum.split fatal_truncation.split)

lemma ext_walk_total: "\<exists>out. ext_walk eend r st = Some out"
proof (induction eend r st rule: ext_walk.induct)
  case (1 eend r st)
  show ?case
    by (subst ext_walk.simps) (use on_ext_total 1 in \<open>clarsimp split: option.split prod.split simp del: on_ext_total; blast\<close>)
qed

lemma sni_walk_total: "\<exists>s. sni_walk eend r = Some s"
proof (induction eend r rule: sni_walk.induct)
  case (1 eend r)
  have "\<exists>s. sni_only (sni_extension body True) = Some s" for body
    using sni_extension_total [of body True] by (auto simp: sni_only_def split: option.split sum.split fatal_truncation.split)
  then show ?case
    by (subst sni_walk.simps) (use 1 in \<open>clarsimp split: option.split prod.split; blast\<close>)
qed

lemma client_hello_sni_total: "\<exists>s. client_hello_sni msg = Some s"
  unfolding client_hello_sni_def Let_def by ((rule or_fail_total, simp, (clarsimp simp: sni_walk_total)?)+)

lemma if_total: "(b \<Longrightarrow> \<exists>out. x = Some out) \<Longrightarrow> (\<not> b \<Longrightarrow> \<exists>out. y = Some out) \<Longrightarrow> \<exists>out. (if b then x else y) = Some out"
  by simp

lemma extensions_total: "\<exists>out. extensions r w = Some out"
  unfolding extensions_def using ext_walk_total by (auto intro!: or_fail_total)

lemma parse_client_hello_total: "\<exists>ch memo. parse_client_hello_over md5 sha msg want transport state = Some (ch, memo)"
proof -
  have step: "\<exists>out. (case extensions r w of None \<Rightarrow> None | Some st \<Rightarrow> or_fail st (Some (None, snd state)) (\<lambda>st.
      case fingerprints md5 sha want transport legacy_version st (snd state) of (ch, memo) \<Rightarrow> Some (Some ch, memo))) = Some out"
    for r w legacy_version
    using extensions_total [of r w] by (auto simp: split_beta or_fail_def split: option.split)
  have "\<exists>out. parse_client_hello_into md5 sha msg want transport state = Some out"
    unfolding parse_client_hello_into_def Let_def
    by (rule or_fail_total if_total step | simp; fail | clarsimp simp del: not_None_eq split_paired_Ex)+
  then show ?thesis by (auto simp: parse_client_hello_over_def)
qed

section \<open>The events of a flow\<close>

definition at_flow :: "nat \<Rightarrow> nat \<Rightarrow> endpoints \<Rightarrow> string \<Rightarrow> event \<Rightarrow> bool" where
  "at_flow sec usec ep proto e \<longleftrightarrow> ev_sec e = sec \<and> ev_usec e = usec \<and> ev_src_ip e = ip_render (ep_src ep) \<and>
     ev_src_port e = field_port (ep_src_port ep) \<and> ev_dst_ip e = FText (ip_render (ep_dst ep)) \<and>
     ev_dst_port e = field_port (ep_dst_port ep) \<and> ev_proto e = FText proto"

lemma emit_at_flow [step_intros]:
  "worker_ok env st \<Longrightarrow> n > 0 \<Longrightarrow> writes env (at_flow sec usec ep proto) n st (emit_ep sec usec ep proto trail_type trail info reference st)"
  by (rule writes_emit_ep) (simp_all add: at_flow_def)

lemma check_domain_lands:
  assumes "worker_ok env st"
  shows "lands env (at_flow sec usec ep proto) 1 st (check_domain env q sec usec ep proto st)"
  unfolding check_domain_def
  using check_domain_inner_yields [OF assms, of q None 1] by (intro lands_snd) (simp add: at_flow_def handed_over_def)

lemma lands_events: "lands env P n st r \<Longrightarrow> (\<And>e. P e \<Longrightarrow> Q e) \<Longrightarrow> lands env Q n st r"
  by (auto simp: lands_def writes_def list_all_iff)

lemma worker_td_get: "worker_ok env st \<Longrightarrow> \<exists>r. td_get k (ws_trails st) = Some r"
  using td_get_ok by (auto simp: worker_ok_def domain_ok_def)

lemma count_writes: "worker_ok env st \<Longrightarrow> writes env P n st (count_lookup st)"
  unfolding count_lookup_def by (rule writes_fields)

lemma count_emit:
  assumes "writes env (at_flow sec usec ep proto) 0 st st'" "n > 0"
  shows "writes env (at_flow sec usec ep proto) n st (emit_ep sec usec ep proto trail_type trail info reference st')"
  using writes_trans [OF assms(1) emit_at_flow [OF writes_ok [OF assms(1)] assms(2)]] by simp

declare One_nat_def [simp del]

text \<open>A lookup that is counted first.\<close>

lemma lookup_lands:
  assumes "worker_ok env st"
    "\<And>hit. td_get k (ws_trails st) = Some hit \<Longrightarrow> writes env P 0 st (count_lookup st) \<Longrightarrow> lands env P n st (f hit)"
  shows "lands env P n st (Option.bind (td_get k (ws_trails (count_lookup st))) f)"
proof -
  obtain hit where "td_get k (ws_trails st) = Some hit" using worker_td_get [OF assms(1)] by blast
  moreover from this have "lands env P n st (f hit)" using assms(2) count_writes [OF assms(1)] by blast
  ultimately show ?thesis by (simp add: count_lookup_def bump_def)
qed

lemma lands_hit:
  "(\<And>info reference. lands env P n st (f info reference)) \<Longrightarrow> lands env P n st r \<Longrightarrow>
   lands env P n st (case hit of Some (info, reference) \<Rightarrow> f info reference | None \<Rightarrow> r)"
  by (simp split: option.split)

lemma check_client_fingerprint_lands:
  assumes "worker_ok env st"
  shows "lands env (at_flow sec usec ep proto) 1 st (check_client_fingerprint ch sec usec ep proto st)"
proof -
  define c where "c = count_lookup st"
  have second: "lands env (at_flow sec usec ep proto) 1 st
      (Option.bind (td_get (ja4 ch) (ws_trails (count_lookup c))) (\<lambda>hit4.
        Some (case (if ja4 ch = [] then None else hit4) of
            Some (info, reference) \<Rightarrow> emit_ep sec usec ep proto ''JA4'' (FText (ja4 ch)) info reference (count_lookup c)
          | None \<Rightarrow> count_lookup c)))"
    if c: "writes env (at_flow sec usec ep proto) 0 st c"
  proof (rule lands_after [OF c lookup_lands [OF writes_ok [OF c]]])
    fix hit assume "writes env (at_flow sec usec ep proto) 0 c (count_lookup c)"
    then show "lands env (at_flow sec usec ep proto) 1 c
        (Some (case (if ja4 ch = [] then None else hit) of
            Some (info, reference) \<Rightarrow> emit_ep sec usec ep proto ''JA4'' (FText (ja4 ch)) info reference (count_lookup c)
          | None \<Rightarrow> count_lookup c))"
      by (auto intro!: lands_Some count_emit split: option.split elim: writes_mono)
  qed simp
  show ?thesis
    unfolding check_client_fingerprint_def Let_def c_def [symmetric]
    apply (rule lands_if)
     apply (simp add: lands_Some writes_refl assms)
    apply (unfold c_def)
    apply (rule lookup_lands [OF assms])
    apply (fold c_def)
    apply (rule lands_hit)
     apply (rule lands_Some)
     apply (erule count_emit)
     apply simp
    apply (erule second)
    done
qed

text \<open>The first digest with a trail is reported.\<close>

lemma digest_walk_lands:
  "worker_ok env st \<Longrightarrow> lands env (at_flow sec usec ep ''TCP'') 1 st (digest_walk digests sec usec ep st)"
proof (induction digests arbitrary: st)
  case (Cons digest digests)
  show ?case
    unfolding digest_walk.simps Let_def
  proof (rule lookup_lands [OF Cons.prems])
    fix hit assume c: "writes env (at_flow sec usec ep ''TCP'') 0 st (count_lookup st)"
    show "lands env (at_flow sec usec ep ''TCP'') 1 st
        (case hit of None \<Rightarrow> digest_walk digests sec usec ep (count_lookup st)
         | Some (info, reference) \<Rightarrow> Some (emit_ep sec usec ep ''TCP'' ''CERT'' (FText digest) info reference (count_lookup st)))"
      using lands_after [OF c Cons.IH [OF writes_ok [OF c]]]
      by (auto intro!: lands_Some count_emit c split: option.split)
  qed
qed (simp add: lands_Some writes_refl)

lemma check_server_certificate_lands:
  "worker_ok env st \<Longrightarrow> lands env (at_flow sec usec ep ''TCP'') 1 st (check_server_certificate cr payload sec usec ep st)"
  by (auto simp: check_server_certificate_def lands_Some writes_refl digest_walk_lands split: option.split
      simp del: digest_walk.simps)

lemma on_client_hello_lands:
  assumes "worker_ok env st"
  shows "lands env (at_flow sec usec ep proto) 2 st (on_client_hello env ch check_sni sec usec ep proto st)"
  unfolding on_client_hello_def
  by (rule lands_bind [where m = 1 and n = 1])
    (auto intro!: lands_if check_domain_lands check_client_fingerprint_lands lands_Some writes_refl dest: writes_ok
      simp: assms split: option.split)

lemma on_parsed_hello_yields:
  assumes "worker_ok env st"
  shows "yields env (at_flow sec usec ep proto) 2 st (on_parsed_hello cr env msg want transport check_sni sec usec ep proto st)"
proof -
  obtain ch memo where run: "parse_hello cr msg want transport st = Some (ch, st\<lparr>ws_tls := (fst (ws_tls st), memo)\<rparr>)"
    using parse_client_hello_total [of "md5_of cr" "sha256_of cr" msg want transport "ws_tls st"] by (auto simp: parse_hello_def)
  have w: "writes env (at_flow sec usec ep proto) 0 st (st\<lparr>ws_tls := (fst (ws_tls st), memo)\<rparr>)" by (rule writes_fields [OF assms])
  show ?thesis
  proof (cases ch)
    case (Some hello)
    from lands_after [OF w on_client_hello_lands [OF writes_ok [OF w]], of 2 hello] obtain st' where
      "on_client_hello env hello check_sni sec usec ep proto (st\<lparr>ws_tls := (fst (ws_tls st), memo)\<rparr>) = Some st'"
      "writes env (at_flow sec usec ep proto) 2 st st'"
      by (auto simp: lands_def)
    then show ?thesis by (simp add: on_parsed_hello_def run Some yields_Some)
  qed (simp add: on_parsed_hello_def run yields_Some writes_mono [OF w])
qed


section \<open>The assembler under a worker\<close>

lemma worker_hello: "worker_ok env st \<Longrightarrow> hello_sound (ws_hello st)"
  by (simp add: worker_ok_def)

lemma put_writes:
  assumes "worker_ok env st" "key \<noteq> 0"
  obtains d asm where "hello_put key sec off input (ws_hello st) = Some (d, asm)"
    "\<And>P n. writes env P n st (st\<lparr>ws_hello := asm\<rparr>)" "\<And>P n f. writes env P n st (bump f (st\<lparr>ws_hello := asm\<rparr>))"
proof -
  obtain d asm where r: "hello_put key sec off input (ws_hello st) = Some (d, asm)" "hello_sound asm"
    using hello_sound_put [OF worker_hello [OF assms(1)] assms(2)] by blast
  have w: "writes env P n st (st\<lparr>ws_hello := asm\<rparr>)" for P n by (rule writes_fields(19) [OF assms(1) r(2)])
  moreover have "writes env P n st (bump f (st\<lparr>ws_hello := asm\<rparr>))" for P n f
    by (rule writes_trans [OF w [of P 0] writes_fields(10) [OF writes_ok [OF w [of P 0]], where n = n]]) simp
  ultimately show ?thesis using r(1) that by blast
qed

lemma continue_hello_lands:
  assumes "worker_ok env st" "key \<noteq> 0"
  shows "lands env (at_flow sec usec ep ''TCP'') 2 st (continue_hello cr env key off payload sec usec ep st)"
proof -
  obtain d asm where r: "hello_put key sec off payload (ws_hello st) = Some (d, asm)"
    "\<And>P n. writes env P n st (st\<lparr>ws_hello := asm\<rparr>)" "\<And>P n f. writes env P n st (bump f (st\<lparr>ws_hello := asm\<rparr>))"
    using put_writes [OF assms, of sec off payload] by metis
  show ?thesis
  proof (cases d)
    case (Some msg)
    have "lands env (at_flow sec usec ep ''TCP'') 2 st (map_option snd
        (on_parsed_hello cr env (hd_bytes msg) (wanted_fingerprints st) 0x74 (\<not> hd_reported msg) sec usec ep ''TCP''
          (bump (\<lambda>m. m\<lparr>m_handshakes_reassembled := m_handshakes_reassembled m + 1\<rparr>) (st\<lparr>ws_hello := asm\<rparr>))))"
      by (rule lands_after [OF r(3) [of _ 0]], rule lands_snd, rule on_parsed_hello_yields, rule writes_ok [OF r(3) [of "\<lambda>_. True" 0]]) simp
    then show ?thesis by (simp add: continue_hello_def r(1) Some)
  qed (simp add: continue_hello_def r lands_Some)
qed

lemma named_lands:
  assumes "worker_ok env st"
  shows "lands env (at_flow sec usec ep proto) 1 st
    (case sni of Some s \<Rightarrow> check_domain env s sec usec ep proto st | None \<Rightarrow> Some st)"
  using assms by (auto intro: check_domain_lands lands_Some writes_refl split: option.split)

lemma begin_hello_lands:
  assumes "worker_ok env st" "key \<noteq> 0"
  shows "lands env (at_flow sec usec ep ''TCP'') 3 st (begin_hello cr env key seq payload whole sec usec ep st)"
proof -
  define need where "need = (case b_slice payload 3 5 of None \<Rightarrow> 0 | Some l \<Rightarrow> 5 + unat (be16 (l ! 0) (l ! 1)))"
  have put_aside: "lands env (at_flow sec usec ep ''TCP'') 0 st (do {
      asm \<leftarrow> hello_start key seq need sec reported (ws_hello st);
      (_, asm) \<leftarrow> hello_put key sec 0 payload asm;
      Some (st\<lparr>ws_hello := asm\<rparr>) })"
    if ok: "worker_ok env st" for st :: "'a worker_state" and reported
  proof -
    obtain asm where a: "hello_start key seq need sec reported (ws_hello st) = Some asm" "hello_sound asm"
      using hello_sound_start [OF worker_hello [OF ok] assms(2)] by blast
    obtain d asm' where b: "hello_put key sec 0 payload asm = Some (d, asm')" "hello_sound asm'"
      using hello_sound_put [OF a(2) assms(2)] by blast
    show ?thesis using a(1) b writes_fields(19) [OF ok b(2)] by (simp add: lands_Some)
  qed
  obtain sni where sni: "(if check_tls_sni (ws_cfg st) then client_hello_sni payload else Some None) = Some sni"
    using client_hello_sni_total [of payload] by (cases "check_tls_sni (ws_cfg st)") auto
  show ?thesis
    unfolding begin_hello_def need_def [symmetric] Let_def sni Option.bind.simps
  proof (rule lands_if)
    show "lands env (at_flow sec usec ep ''TCP'') 3 st (do {
        st \<leftarrow> (case sni of Some s \<Rightarrow> check_domain env s sec usec ep ''TCP'' st | None \<Rightarrow> Some st);
        asm \<leftarrow> hello_start key seq need sec (sni \<noteq> None) (ws_hello st);
        (_, asm) \<leftarrow> hello_put key sec 0 payload asm;
        Some (st\<lparr>ws_hello := asm\<rparr>) })"
      by (rule lands_bind [OF named_lands [OF assms(1)] put_aside]) (auto dest: writes_ok)
    show "lands env (at_flow sec usec ep ''TCP'') 3 st (do {
        (found, st) \<leftarrow> on_parsed_hello cr env payload (wanted_fingerprints st) 0x74 True sec usec ep ''TCP'' st;
        if \<not> found \<and> check_tls_fingerprints (ws_cfg st) \<and> has_fingerprints fp_cert (ws_trails st)
        then check_server_certificate cr payload sec usec ep st else Some st })"
      by (rule lands_bind_yield [OF on_parsed_hello_yields [OF assms(1)], where n = 1])
        (auto intro!: lands_if check_server_certificate_lands lands_Some writes_refl dest: writes_ok)
  qed
qed

lemma idle_writes:
  assumes "worker_ok env st"
  obtains idle st' where "idle_now sec st = (idle, st')" "\<And>P n. writes env P n st st'"
proof (rule that)
  show "idle_now sec st = (fst (hello_idle sec (ws_hello st)), st\<lparr>ws_hello := snd (hello_idle sec (ws_hello st))\<rparr>)"
    by (simp add: idle_now_def split_beta)
  show "writes env P n st (st\<lparr>ws_hello := snd (hello_idle sec (ws_hello st))\<rparr>)" for P n
    by (rule writes_fields(19) [OF assms hello_sound_idle [OF worker_hello [OF assms]]])
qed

lemma handshake_segment_lands:
  assumes "worker_ok env st"
  shows "lands env (at_flow sec usec ep ''TCP'') 3 st (handshake_segment cr env seq wire sec usec ep st)"
proof -
  obtain payload whole where wire: "wire = (payload, whole)" by fastforce
  define key where "key = flow_key (hash_seed env) (ep_src ep) (ep_src_port ep) (ep_dst ep) (ep_dst_port ep) []"
  have key: "key \<noteq> 0" by (simp add: key_def flow_key_odd)
  obtain idle st1 where i: "idle_now sec st = (idle, st1)" "\<And>P n. writes env P n st st1"
    using idle_writes [OF assms, of sec] by metis
  have ok1: "worker_ok env st1" by (rule writes_ok [OF i(2)])
  obtain pending st2 where p: "(if idle then Some (None, st1)
      else do { (base, asm) \<leftarrow> hello_base key sec (ws_hello st1); Some (base, st1\<lparr>ws_hello := asm\<rparr>) }) = Some (pending, st2)"
      "\<And>P n. writes env P n st1 st2"
  proof (cases idle)
    case True
    then show ?thesis using that [of None st1] writes_refl [OF ok1] by simp
  next
    case False
    obtain base asm where "hello_base key sec (ws_hello st1) = Some (base, asm)" "hello_sound asm"
      using hello_sound_base [OF worker_hello [OF ok1] key, of sec] by blast
    then show ?thesis using that [of base "st1\<lparr>ws_hello := asm\<rparr>"] writes_fields(19) [OF ok1] False by simp
  qed
  have w: "writes env P 0 st st2" for P by (rule writes_trans [OF i(2) [of P 0] p(2) [of P 0]]) simp
  have ok2: "worker_ok env st2" by (rule writes_ok [OF w])
  have rest: "lands env (at_flow sec usec ep ''TCP'') 3 st2
      (case if later then pending else None of
         None \<Rightarrow> if b_at payload 0 \<noteq> Some 0x16 then Some st2 else begin_hello cr env key seq payload whole sec usec ep st2
       | Some base \<Rightarrow> continue_hello cr env key (unat (seq - base)) payload sec usec ep st2)" for later
    using lands_mono [OF continue_hello_lands [OF ok2 key]] begin_hello_lands [OF ok2 key]
    by (auto intro: lands_Some writes_refl [OF ok2] split: option.split)
  show ?thesis
    unfolding wire handshake_segment_def Let_def key_def [symmetric] prod.case i(1) p(1) Option.bind.simps
    by (rule lands_if, simp add: lands_Some writes_refl assms, rule lands_after [OF w rest]) simp
qed


lemma put_chunks_yields:
  "worker_ok env st \<Longrightarrow> key \<noteq> 0 \<Longrightarrow> yields env P 0 st (put_chunks key sec chunks st)"
proof (induction key sec chunks st rule: put_chunks.induct)
  case (2 key sec off chunk chunks st)
  obtain d asm where r: "hello_put key sec (unat off) chunk (ws_hello st) = Some (d, asm)"
    "\<And>P n. writes env P n st (st\<lparr>ws_hello := asm\<rparr>)" "\<And>P n f. writes env P n st (bump f (st\<lparr>ws_hello := asm\<rparr>))"
    using put_writes [OF 2(2,3), of sec "unat off" chunk] by metis
  show ?case
  proof (cases d)
    case None
    have "yields env P 0 (st\<lparr>ws_hello := asm\<rparr>) (put_chunks key sec chunks (st\<lparr>ws_hello := asm\<rparr>))"
      using 2(1) r(1) None writes_ok [OF r(2)] 2(3) by simp
    from yields_after [OF r(2) [of P 0] this, of 0] show ?thesis by (simp add: r(1) None)
  qed (simp add: r yields_Some)
qed (simp add: yields_Some writes_refl)

lemma flow_pending_yields:
  assumes "worker_ok env st" "key \<noteq> 0"
  shows "yields env P n st (flow_pending key sec st)"
proof -
  obtain p asm where "hello_pending key sec (ws_hello st) = Some (p, asm)" "hello_sound asm"
    using hello_sound_pending [OF worker_hello [OF assms(1)] assms(2)] by blast
  then show ?thesis using writes_fields(19) [OF assms(1)] by (simp add: flow_pending_def yields_Some)
qed

lemma flow_start_lands:
  assumes "worker_ok env st" "key \<noteq> 0"
  shows "lands env P n st (flow_start key need sec reported st)"
proof -
  obtain asm where "hello_start key 0 need sec reported (ws_hello st) = Some asm" "hello_sound asm"
    using hello_sound_start [OF worker_hello [OF assms(1)] assms(2)] by blast
  then show ?thesis using writes_fields(19) [OF assms(1)] by (simp add: flow_start_def lands_Some)
qed

lemma quic_client_hello_lands:
  assumes "worker_ok env st"
  shows "lands env (at_flow sec usec ep ''UDP'') 3 st (quic_client_hello cr env o1 want sec usec ep st)"
proof (cases "opened_crypto cr o1")
  case (Some chunks)
  define key where "key = flow_key (hash_seed env) (ep_src ep) (ep_src_port ep) (ep_dst ep) (ep_dst_port ep) (op_dcid o1)"
  have key: "key \<noteq> 0" by (simp add: key_def flow_key_odd)
  define head where "head = contiguous chunks"
  have started: "lands env (at_flow sec usec ep ''UDP'') 1 st (quic_start_hello env key head sec usec ep st)"
    if ok: "worker_ok env st" for st :: "'a worker_state"
    unfolding quic_start_hello_def
    by (rule bind_value, simp add: quic_client_hello_sni_total,
        rule lands_bind [OF named_lands [OF ok] flow_start_lands [OF _ key, where n = 0]]) (auto dest: writes_ok)
  show ?thesis
    unfolding quic_client_hello_def Some option.case Let_def key_def [symmetric] head_def [symmetric]
  proof (rule lands_bind_yield [OF flow_pending_yields [OF assms key, where n = 0]], unfold prod.case)
    fix pending st1 assume w: "writes env (at_flow sec usec ep ''UDP'') 0 st st1"
    note ok = writes_ok [OF w]
    show "lands env (at_flow sec usec ep ''UDP'') 3 st1
        (if \<not> pending \<and> (length head < 4 \<or> head ! 0 \<noteq> 0x01) then Some st1
         else if \<not> pending \<and> hello_need head \<le> length head
         then map_option snd (on_parsed_hello cr env (take (hello_need head) head) want 0x71 True sec usec ep ''UDP'' st1)
         else do {
           st \<leftarrow> (if pending then Some st1 else quic_start_hello env key head sec usec ep st1);
           (d, st) \<leftarrow> put_chunks key sec chunks st;
           (case d of
              None \<Rightarrow> Some st
            | Some msg \<Rightarrow> map_option snd (on_parsed_hello cr env (hd_bytes msg) want 0x71 (\<not> hd_reported msg) sec usec ep ''UDP'' st)) })"
    proof (intro lands_if)
      show "lands env (at_flow sec usec ep ''UDP'') 3 st1
          (map_option snd (on_parsed_hello cr env (take (hello_need head) head) want 0x71 True sec usec ep ''UDP'' st1))"
        by (rule lands_mono [OF lands_snd [OF on_parsed_hello_yields [OF ok]]]) simp
      show "lands env (at_flow sec usec ep ''UDP'') 3 st1 (do {
           st \<leftarrow> (if pending then Some st1 else quic_start_hello env key head sec usec ep st1);
           (d, st) \<leftarrow> put_chunks key sec chunks st;
           (case d of
              None \<Rightarrow> Some st
            | Some msg \<Rightarrow> map_option snd (on_parsed_hello cr env (hd_bytes msg) want 0x71 (\<not> hd_reported msg) sec usec ep ''UDP'' st)) })"
        by (rule lands_bind [where m = 1 and n = 2])
          (auto intro!: lands_if started [OF ok] lands_Some writes_refl ok lands_bind_yield [where m = 0 and n = 2] put_chunks_yields key
             lands_snd on_parsed_hello_yields dest: writes_ok split: option.split)
    qed (simp add: lands_Some writes_refl ok)
  qed simp
qed (simp add: quic_client_hello_def lands_Some writes_refl assms)


lemma quic_prefix_lands:
  assumes "worker_ok env st" "key \<noteq> 0"
  shows "lands env (at_flow sec usec ep ''UDP'') 1 st (quic_prefix env key sec usec ep st)"
proof -
  obtain p asm where p: "hello_prefix key sec (ws_hello st) = Some (p, asm)" "hello_sound asm"
    using hello_sound_prefix [OF worker_hello [OF assms(1)] assms(2)] by blast
  obtain asm' where f: "hello_forget key sec asm = Some asm'" "hello_sound asm'"
    using hello_sound_forget [OF p(2) assms(2)] by blast
  obtain sni where sni: "(case p of None \<Rightarrow> Some None | Some b \<Rightarrow> quic_client_hello_sni b) = Some sni"
    using quic_client_hello_sni_total by (cases p) auto
  note w = writes_fields(19) [OF assms(1)]
  have "lands env (at_flow sec usec ep ''UDP'') 1 st (check_domain env s sec usec ep ''UDP'' (st\<lparr>ws_hello := asm'\<rparr>))" for s
    by (rule lands_after [OF w [OF f(2)] check_domain_lands [OF writes_ok [OF w [OF f(2), where n = 0 and P = "\<lambda>_. True"]]], where m = 0]) simp
  then show ?thesis using w [OF p(2)] by (cases sni) (simp_all add: quic_prefix_def p(1) f(1) sni lands_Some)
qed

lemma quic_sni_lands:
  assumes "worker_ok env st"
  shows "lands env (at_flow sec usec ep ''UDP'') 1 st (quic_sni cr env o1 sec usec ep st)"
proof -
  obtain sni chunks where run: "opened_scan cr o1 = Some (sni, chunks)"
    using scan_passes_total [of cr o1 "min (length (op_ciphertext o1)) max_initial_decrypt"]
    by (metis opened_scan_def surj_pair)
  define key where "key = flow_key (hash_seed env) (ep_src ep) (ep_src_port ep) (ep_dst ep) (ep_dst_port ep) (op_dcid o1)"
  have key: "key \<noteq> 0" by (simp add: key_def flow_key_odd)
  show ?thesis
  proof (cases sni)
    case None
    show ?thesis
    proof (cases chunks)
      case (Some cs)
      define head where "head = (case map_of cs 0 of Some h \<Rightarrow> h | None \<Rightarrow> [])"
      have last: "lands env (at_flow sec usec ep ''UDP'') 1 st
          (case d of Some msg \<Rightarrow> do { sni \<leftarrow> quic_client_hello_sni (hd_bytes msg); check_name env sni sec usec ep st }
           | None \<Rightarrow> quic_prefix env key sec usec ep st)" if "worker_ok env st" for d and st :: "'a worker_state"
        unfolding check_name_def
        by (cases d) (auto intro!: quic_prefix_lands bind_value named_lands simp: that key quic_client_hello_sni_total)
      show ?thesis
        unfolding quic_sni_def run Option.bind.simps prod.case None Some option.case Let_def key_def [symmetric] head_def [symmetric]
        by (rule lands_bind_yield [OF flow_pending_yields [OF assms key, where n = 0]])
          (auto intro!: lands_if lands_Some writes_refl lands_bind [where m = 0 and n = 1] lands_bind_yield [where m = 0 and n = 1]
            flow_start_lands put_chunks_yields last key dest: writes_ok)
    qed (simp add: quic_sni_def run None lands_Some writes_refl assms)
  qed (simp add: quic_sni_def run check_domain_lands assms)
qed

section \<open>Handshakes\<close>

text \<open>An event of a handshake: its packet's second and addresses, over TCP or UDP.\<close>

definition handshake_event :: "nat \<Rightarrow> nat \<Rightarrow> ip_header \<Rightarrow> event \<Rightarrow> bool" where
  "handshake_event sec usec header e \<longleftrightarrow> ev_sec e = sec \<and> ev_usec e = usec \<and> ev_src_ip e = ip_render (ih_src header) \<and>
     ev_dst_ip e = FText (ip_render (ih_dst header)) \<and> ev_proto e \<in> {FText ''TCP'', FText ''UDP''}"

lemma at_handshake:
  "at_flow sec usec \<lparr>ep_src = ih_src header, ep_src_port = sp, ep_dst = ih_dst header, ep_dst_port = dp\<rparr> ''TCP'' e \<Longrightarrow> handshake_event sec usec header e"
  "at_flow sec usec \<lparr>ep_src = ih_src header, ep_src_port = sp, ep_dst = ih_dst header, ep_dst_port = dp\<rparr> ''UDP'' e \<Longrightarrow> handshake_event sec usec header e"
  by (simp_all add: at_flow_def handshake_event_def)

lemma lands_option:
  "(x = None \<Longrightarrow> lands env P n st r) \<Longrightarrow> (\<And>y. x = Some y \<Longrightarrow> lands env P n st (f y)) \<Longrightarrow>
   lands env P n st (case x of None \<Rightarrow> r | Some y \<Rightarrow> f y)"
  by (cases x) simp_all

lemma handshake_tcp_lands:
  assumes "worker_ok env st"
  shows "lands env (handshake_event sec usec header) 3 st (handshake_tcp cr env ip_data header sec usec st)"
proof -
  obtain idle st1 where i: "idle_now sec st = (idle, st1)" "\<And>P n. writes env P n st st1"
    using idle_writes [OF assms, of sec] by metis
  have whole: "lands env (handshake_event sec usec header) 3 st
      (if skip then Some st' else handshake_segment cr env seq wire sec usec
         \<lparr>ep_src = ih_src header, ep_src_port = sp, ep_dst = ih_dst header, ep_dst_port = dp\<rparr> st')"
    if "st' = st \<or> st' = st1" for skip st' seq wire sp dp
  proof -
    have w: "writes env (handshake_event sec usec header) 0 st st'" using that i(2) writes_refl [OF assms] by blast
    have segment: "lands env (handshake_event sec usec header) 3 st' (handshake_segment cr env seq wire sec usec
        \<lparr>ep_src = ih_src header, ep_src_port = sp, ep_dst = ih_dst header, ep_dst_port = dp\<rparr> st')"
      using lands_events [OF handshake_segment_lands [OF writes_ok [OF w]] at_handshake(1)] .
    show ?thesis by (rule lands_if, rule lands_Some, rule writes_mono [OF w], simp, rule lands_after [OF w segment]) simp_all
  qed
  show ?thesis
    unfolding handshake_tcp_def Let_def i(1) split_beta
    by (intro lands_option whole lands_Some writes_refl [OF assms]) simp
qed


lemma handshake_udp_lands:
  assumes "worker_ok env st" "crypto_ok cr"
  shows "lands env (handshake_event sec usec header) 3 st (handshake_udp cr env ip_data header sec usec st)"
proof -
  obtain o1 memo where run: "open_initial cr (hash_seed env) (udp_payload ip_data (ih_header_len header)) (ws_quic st) = Some (o1, memo)"
    using open_initial_total [OF assms(2)] by blast
  note w = writes_fields(21) [OF assms(1)]
  have ok: "worker_ok env (st\<lparr>ws_quic := memo\<rparr>)" by (rule writes_ok [OF w [where n = 0 and P = "\<lambda>_. True"]])
  have opened: "lands env (handshake_event sec usec header) 3 st
      (if want \<noteq> 0 then quic_client_hello cr env x want sec usec ep (st\<lparr>ws_quic := memo\<rparr>)
       else if \<not> check_tls_sni (ws_cfg (st\<lparr>ws_quic := memo\<rparr>)) then Some (st\<lparr>ws_quic := memo\<rparr>)
       else quic_sni cr env x sec usec ep (st\<lparr>ws_quic := memo\<rparr>))"
    if ep: "ep = \<lparr>ep_src = ih_src header, ep_src_port = sp, ep_dst = ih_dst header, ep_dst_port = dp\<rparr>" for x want ep sp dp
    unfolding ep
    by (intro lands_if lands_after [OF w [where n = 0] lands_events [OF quic_client_hello_lands [OF ok] at_handshake(2)]]
        lands_after [OF w [where n = 0] lands_events [OF quic_sni_lands [OF ok] at_handshake(2)]] lands_Some w)
      simp_all
  show ?thesis
    unfolding handshake_udp_def Let_def run Option.bind.simps prod.case
    by (intro lands_option lands_if opened [OF refl] lands_Some w writes_refl [OF assms(1)])
qed

lemma handshake_sni_lands:
  assumes "worker_ok env st" "crypto_ok cr"
  shows "lands env (handshake_event sec usec header) 3 st (handshake_sni cr env ip_data header sec usec st)"
  unfolding handshake_sni_def
  by (intro lands_if handshake_tcp_lands handshake_udp_lands assms lands_Some writes_refl)

text \<open>No packet of a TLS or QUIC handshake, whatever its bytes and whatever ClientHellos are pending, makes the
  worker panic: it stays in good order, the log only grows, by at most three events, and each carries the second and the
  two addresses of the packet.\<close>

theorem handshake_never_panics:
  assumes "worker_ok env st" "crypto_ok cr"
  shows "\<exists>st' es. handshake_sni cr env ip_data header sec usec st = Some st' \<and> worker_ok env st' \<and>
    ws_sink st' = ws_sink st @ es \<and> length es \<le> 3 \<and> list_all (handshake_event sec usec header) es"
  using handshake_sni_lands [OF assms] by (fastforce simp: lands_def writes_def)


theorem handshake_never_panics_witness:
  "\<exists>wl (db :: unit trail_db) st' es. wl_load [] = Some wl \<and>
     handshake_sni sample_crypto sample_outside (replicate 8 0 @ [0xc0, 0, 0, 0, 1, 8] @ replicate 40 0x41) sample_header 7 8
       (worker_new sample_config scan_default wl db) = Some st' \<and>
     worker_ok sample_outside st' \<and> ws_sink st' = es \<and> length es \<le> 3"
proof -
  obtain wl and db :: "unit trail_db" where w: "wl_load [] = Some wl"
    "worker_ok sample_outside (worker_new sample_config scan_default wl db)"
    using sample_worker .
  show ?thesis
    using handshake_never_panics [OF w(2) sample_crypto_ok, of "replicate 8 0 @ [0xc0, 0, 0, 0, 1, 8] @ replicate 40 0x41" sample_header 7 8] w(1)
    by (intro exI [of _ wl] exI [of _ db]) (auto simp: worker_new_def)
qed

lemma wanted_bits:
  assumes "check_tls_fingerprints (ws_cfg st)"
  shows "wanted_fingerprints st AND fp_ja3 \<noteq> 0 \<longleftrightarrow> has_fingerprints fp_ja3 (ws_trails st)"
    "wanted_fingerprints st AND fp_ja4 \<noteq> 0 \<longleftrightarrow> has_fingerprints fp_ja4 (ws_trails st)"
  using assms by (auto simp: wanted_fingerprints_def fp_ja3_def fp_ja4_def)

text \<open>The checks of a ClientHello, read for the wanted kinds and for both.\<close>

lemma prints_checked_alike:
  assumes "worker_ok env st" "check_tls_fingerprints (ws_cfg st)" "\<And>x. length (md5 x) = 16" "\<And>x. length (sha x) = 32"
    "wanted = wanted_fingerprints st"
    "h = fresh_prints md5 sha wanted transport v es" "h' = fresh_prints md5 sha 3 transport v es"
  shows "map_option ws_sink (check_client_fingerprint h sec usec ep proto st) = map_option ws_sink (check_client_fingerprint h' sec usec ep proto st)"
proof -
  let ?db = "ws_trails st"
  have db: "db_ok ?db" "trails_ok ?db" using assms(1) by (simp_all add: worker_ok_def domain_ok_def trails_ok_def)
  note bits = wanted_bits [OF assms(2)]
  have want: "(3 :: u8) AND fp_ja3 \<noteq> 0" "(3 :: u8) AND fp_ja4 \<noteq> 0" by (simp_all add: fp_ja3_def fp_ja4_def)
  note ann = prints_announced [OF db(1) assms(3,4,7)]
  have j3: "ja3 h = (if has_fingerprints fp_ja3 ?db then ja3 h' else [])"
    and j4: "ja4 h = (if has_fingerprints fp_ja4 ?db then ja4 h' else [])"
    using bits want by (simp_all add: assms(5-7) fresh_prints_def split: prod.split)
  have g: "td_get k (ws_trails st) = Some (trail_of ?db k)" for k using td_get_ok [OF db(2)] .
  have none: "trail_of ?db (ja3 h') = None \<or> has_fingerprints fp_ja3 ?db" "trail_of ?db (ja4 h') = None \<or> has_fingerprints fp_ja4 ?db"
    using ann(1,2) unfolding g option.inject by blast+
  have c: "ws_trails (count_lookup s) = ws_trails s" "ws_sink (count_lookup s) = ws_sink s" for s :: "'a worker_state"
    by (simp_all add: count_lookup_def bump_def)
  have e: "ws_sink (emit_ep sec usec ep proto tt tr i r (count_lookup (count_lookup st))) = ws_sink (emit_ep sec usec ep proto tt tr i r (count_lookup st))"
    "ws_sink (emit_ep sec usec ep proto tt tr i r (count_lookup st)) = ws_sink (emit_ep sec usec ep proto tt tr i r st)"
    for tt tr i r
    by (simp_all add: emit_ep_def emit_def Let_def bump_def count_lookup_def)
  define hit where "hit x = (if x = [] then None else trail_of ?db x)" for x
  have sink: "map_option ws_sink (check_client_fingerprint x sec usec ep proto st) = Some (
      if ja3 x = [] \<and> ja4 x = [] then ws_sink st
      else case hit (ja3 x) of Some (i, r) \<Rightarrow> ws_sink (emit_ep sec usec ep proto ''JA3'' (FText (ja3 x)) i r st)
      | None \<Rightarrow> (case hit (ja4 x) of Some (i, r) \<Rightarrow> ws_sink (emit_ep sec usec ep proto ''JA4'' (FText (ja4 x)) i r st)
          | None \<Rightarrow> ws_sink st))" for x
    by (simp add: check_client_fingerprint_def Let_def c e g hit_def split: option.split)
  have same: "hit (ja3 h) = hit (ja3 h')" "hit (ja4 h) = hit (ja4 h')" using none by (auto simp: hit_def j3 j4)
  have used: "hit (ja3 h) \<noteq> None \<Longrightarrow> ja3 h = ja3 h'" "hit (ja4 h) \<noteq> None \<Longrightarrow> ja4 h = ja4 h'" by (auto simp: hit_def j3 j4)
  show ?thesis
    using same used by (auto simp: sink split: option.split)
qed

text \<open>C6: fingerprints are computed only of the kinds some trail has, and no hit is lost by it: a ClientHello read for
  the wanted kinds is reported exactly as the same ClientHello read for both kinds, whatever the memo of digests held
  at either reading.\<close>

theorem lazy_fingerprints_lose_no_hit:
  assumes "worker_ok env st" "\<And>x. length (md5 x) = 16" "\<And>x. length (sha x) = 32"
    and "memo_ok sha (snd tls)" "memo_ok sha (snd tls')" "fst tls = fst tls'"
    and "parse_client_hello_over md5 sha msg (wanted_fingerprints st) transport tls = Some (Some h, m)"
    and "parse_client_hello_over md5 sha msg 3 transport tls' = Some (Some h', m')"
  shows "map_option ws_sink (on_client_hello env h check_sni sec usec ep proto st) =
    map_option ws_sink (on_client_hello env h' check_sni sec usec ep proto st)"
proof -
  obtain w memo memo' where t: "tls = (w, memo)" "tls' = (w, memo')" using assms(6) by (cases tls, cases tls') auto
  obtain v es where h: "h = fresh_prints md5 sha (wanted_fingerprints st) transport v es" "h' = fresh_prints md5 sha 3 transport v es"
    using parse_same_reading [of sha memo memo' md5 "wanted_fingerprints st" 3 transport msg w] assms(4,5,7,8)
    by (auto simp: same_reading_def parse_client_hello_over_def t)
  have sni: "ch_sni h = ch_sni h'" by (simp add: h fresh_prints_def split: prod.split)
  define first where "first = (if check_sni \<and> check_tls_sni (ws_cfg st)
      then (case ch_sni h of Some s \<Rightarrow> check_domain env s sec usec ep proto st | None \<Rightarrow> Some st) else Some st)"
  have "lands env (at_flow sec usec ep proto) 1 st first"
    unfolding first_def by (intro lands_if named_lands assms(1) lands_Some writes_refl)
  then obtain st1 where st1: "first = Some st1" "writes env (at_flow sec usec ep proto) 1 st st1" by (auto simp: lands_def)
  have want: "wanted_fingerprints st = wanted_fingerprints st1"
    using writes_same [OF st1(2)] by (simp add: wanted_fingerprints_def)
  have run: "on_client_hello env x check_sni sec usec ep proto st =
      (if check_tls_fingerprints (ws_cfg st1) then check_client_fingerprint x sec usec ep proto st1 else Some st1)" if "ch_sni x = ch_sni h" for x
    unfolding on_client_hello_def that first_def [symmetric] st1(1) by simp
  show ?thesis
    using prints_checked_alike [OF writes_ok [OF st1(2)] _ assms(2,3) want h] by (simp add: run sni)
qed

theorem lazy_fingerprints_lose_no_hit_witness:
  "\<exists>wl (db :: unit trail_db) h m h' m'. wl_load [] = Some wl \<and> (let st = worker_new sample_config scan_default wl db;
       msg = wire_hello (built_hello ''www.example.org'' [] [0, 0, 0])
     in parse_client_hello_over (md5_of sample_crypto) (sha256_of sample_crypto) msg (wanted_fingerprints st) 0x74 (scratch_default, []) = Some (Some h, m) \<and>
        parse_client_hello_over (md5_of sample_crypto) (sha256_of sample_crypto) msg 3 0x74 (scratch_default, []) = Some (Some h', m') \<and>
        map_option ws_sink (on_client_hello sample_outside h True 7 8 sample_endpoints ''TCP'' st) =
          map_option ws_sink (on_client_hello sample_outside h' True 7 8 sample_endpoints ''TCP'' st))"
proof -
  obtain wl and db :: "unit trail_db" where w: "wl_load [] = Some wl"
    "worker_ok sample_outside (worker_new sample_config scan_default wl db)"
    using sample_worker .
  define st where "st = worker_new sample_config scan_default wl db"
  let ?md5 = "md5_of sample_crypto" and ?sha = "sha256_of sample_crypto"
  let ?msg = "wire_hello (built_hello ''www.example.org'' [] [0, 0, 0])"
  obtain h' m' where p: "parse_client_hello_over ?md5 ?sha ?msg 3 0x74 (scratch_default, []) = Some (Some h', m')"
    using sample_parses(3) by (fastforce simp: parse_client_hello_over_def)
  have memo: "memo_ok ?sha []" by (simp add: memo_ok_def)
  obtain h m where q: "parse_client_hello_over ?md5 ?sha ?msg (wanted_fingerprints st) 0x74 (scratch_default, []) = Some (Some h, m)"
    using parse_same_reading [OF memo memo, of ?md5 "wanted_fingerprints st" 3 "0x74" ?msg scratch_default] p
    by (auto simp: same_reading_def parse_client_hello_over_def split: option.splits)
  have len: "length (?md5 x) = 16" "length (?sha x) = 32" for x by (simp_all add: sample_crypto_def)
  show ?thesis
    using lazy_fingerprints_lose_no_hit [OF w(2) [folded st_def] len(1) len(2) _ _ _ q p, where check_sni = True and sec = 7 and usec = 8
        and ep = sample_endpoints and proto = "''TCP''"] memo p q w(1)
    unfolding st_def Let_def by auto
qed

end
