(* ===== verification/Sweep.thy ===== *)
theory Sweep
  imports Handshake
begin

text \<open>
  The once-a-second sweep over the accumulators of the heuristics (\<open>heuristics_sweep\<close> and
  \<open>final_heuristics_sweep\<close> of \<open>process.rs\<close>).
\<close>

text \<open>The label of an IP protocol.\<close>

definition ipproto_lut :: "(u8 \<times> string) list" where
  "ipproto_lut =
    [(0, ''IP''), (1, ''ICMP''), (2, ''IGMP''), (4, ''IPIP''), (6, ''TCP''), (8, ''EGP''), (12, ''PUP''), (17, ''UDP''),
     (22, ''IDP''), (29, ''TP''), (41, ''IPV6''), (43, ''ROUTING''), (44, ''FRAGMENT''), (46, ''RSVP''), (47, ''GRE''), (50, ''ESP''),
     (51, ''AH''), (58, ''ICMPV6''), (59, ''NONE''), (60, ''DSTOPTS''), (103, ''PIM''), (132, ''SCTP''), (136, ''UDPLITE''), (255, ''RAW'')]"

definition ipproto_label :: "u8 \<Rightarrow> string option" where
  "ipproto_label proto = map_of ipproto_lut proto"

section \<open>The sweep\<close>

text \<open>One loop over the candidates of a heuristic: those that are not skipped are reported and marked.\<close>

fun report_each :: "('r worker_state \<Rightarrow> 'k \<Rightarrow> bool) \<Rightarrow> ('r worker_state \<Rightarrow> 'k \<times> 'd \<Rightarrow> 'r worker_state) \<Rightarrow> ('k \<Rightarrow> scan_state \<Rightarrow> scan_state)
    \<Rightarrow> ('k \<times> 'd) list \<Rightarrow> 'r worker_state \<Rightarrow> 'r worker_state" where
  "report_each skip report marked [] st = st"
| "report_each skip report marked ((k, d) # found) st =
     (if skip st k then report_each skip report marked found st
      else (let st = report st (k, d) in report_each skip report marked found (st\<lparr>ws_scan := marked k (ws_scan st)\<rparr>)))"

definition sweep_port :: "nat \<Rightarrow> nat \<Rightarrow> 'r worker_state \<Rightarrow> 'r worker_state" where
  "sweep_port sec usec st =
     (if \<not> heuristic_enabled ''port_scanning'' (ws_cfg st) then st
      else (let (sc, found) = port_scan_candidates (ws_scan st)
            in report_each (\<lambda>st (src, dst). check_whitelisted_ip (ws_whitelist st) src)
                 (\<lambda>st ((src, dst), d). emit_ep sec usec
                    \<lparr>ep_src = src, ep_src_port = pd_src_port d, ep_dst = dst, ep_dst_port = pd_dst_port d\<rparr>
                    ''TCP'' ''IP'' (FText (ip_render src)) ''potential port scanning (suspicious)'' ''(heuristic)'' st)
                 (\<lambda>(src, dst). mark_port_alerted src dst) found (st\<lparr>ws_scan := sc\<rparr>)))"

definition sweep_infection :: "nat \<Rightarrow> nat \<Rightarrow> 'r worker_state \<Rightarrow> 'r worker_state" where
  "sweep_infection sec usec st =
     (if \<not> heuristic_enabled ''infection'' (ws_cfg st) then st
      else (let (prefix, st) = worker_local_prefix st;
                (sc, found) = infection_candidates (ws_scan st)
            in report_each (\<lambda>st (src, dst_port). \<not> starts_with (ip_render src) prefix)
                 (\<lambda>st ((src, dst_port), d). emit_ep sec usec
                    \<lparr>ep_src = src, ep_src_port = if_src_port d, ep_dst = if_dst_ip d, ep_dst_port = dst_port\<rparr>
                    ''TCP'' ''PORT'' (FInt (uint dst_port)) ''potential infection (suspicious)'' ''(heuristic)'' st)
                 (\<lambda>(src, dst_port). mark_infection_alerted src dst_port) found (st\<lparr>ws_scan := sc\<rparr>)))"

definition sweep_web :: "'r worker_state \<Rightarrow> 'r worker_state" where
  "sweep_web st =
     (if \<not> heuristic_enabled ''web_scanning'' (ws_cfg st) then st
      else (let (sc, found) = web_scan_candidates (ws_scan st)
            in report_each (\<lambda>st (src, dst). check_whitelisted_ip (ws_whitelist st) src \<or> (is_local src \<and> is_local dst))
                 (\<lambda>st ((src, dst), d). emit_ep (pa_sec d) (unat (pa_usec d))
                    \<lparr>ep_src = src, ep_src_port = pa_src_port d, ep_dst = dst, ep_dst_port = pa_dst_port d\<rparr>
                    ''TCP'' ''PATH'' (FText (scanned_paths (ws_scan st) src dst)) ''potential web scanning (suspicious)'' ''(heuristic)'' st)
                 (\<lambda>(src, dst). mark_path_alerted src dst) found (st\<lparr>ws_scan := sc\<rparr>)))"

definition sweep_udp :: "nat \<Rightarrow> nat \<Rightarrow> 'r worker_state \<Rightarrow> 'r worker_state" where
  "sweep_udp sec usec st =
     (if \<not> heuristic_enabled ''udp_scanning'' (ws_cfg st) then st
      else (let (sc, found) = udp_scan_candidates (ws_scan st)
            in report_each (\<lambda>st (src, dst). check_whitelisted_ip (ws_whitelist st) src)
                 (\<lambda>st ((src, dst), d). emit_ep sec usec
                    \<lparr>ep_src = src, ep_src_port = pd_src_port d, ep_dst = dst, ep_dst_port = pd_dst_port d\<rparr>
                    ''UDP'' ''IP'' (FText (ip_render src)) ''potential udp scanning (suspicious)'' ''(heuristic)'' st)
                 (\<lambda>(src, dst). mark_udp_alerted src dst) found (st\<lparr>ws_scan := sc\<rparr>)))"

definition echo_label :: "ip \<Rightarrow> string" where
  "echo_label dst =
     (case dst of V4 v \<Rightarrow> ''ICMP''
      | V6 v \<Rightarrow> (case ipproto_label 58 of None \<Rightarrow> ''ICMP'' | Some label \<Rightarrow> label))"

definition sweep_icmp :: "nat \<Rightarrow> nat \<Rightarrow> 'r worker_state \<Rightarrow> 'r worker_state" where
  "sweep_icmp sec usec st =
     (if \<not> heuristic_enabled ''icmp_tunneling'' (ws_cfg st) then st
      else (let (sc, found) = icmp_tunnel_candidates (ws_scan st)
            in report_each (\<lambda>st (src, dst). check_whitelisted_ip (ws_whitelist st) src \<or> check_whitelisted_ip (ws_whitelist st) dst)
                 (\<lambda>st ((src, dst), d). emit_ep sec usec \<lparr>ep_src = src, ep_src_port = 0, ep_dst = dst, ep_dst_port = 0\<rparr>
                    (echo_label dst) ''IP'' (FText (ip_render dst)) ''potential icmp tunneling (suspicious)'' ''(heuristic)'' st)
                 (\<lambda>(src, dst). mark_icmp_alerted src dst) found (st\<lparr>ws_scan := sc\<rparr>)))"

text \<open>What follows the loops: the hourly prune and the end of the window.\<close>

definition age_state :: "nat \<Rightarrow> 'r worker_state \<Rightarrow> 'r worker_state" where
  "age_state sec st =
     (let st = st\<lparr>ws_beacon := bt_maybe_prune sec (ws_beacon st)\<rparr>
      in if sec - sc_window_start (ws_scan st) \<ge> scan_window_cfg (ws_cfg st)
         then st\<lparr>ws_scan := clear_window sec (ws_scan st)\<rparr> else st)"

definition heuristics_sweep :: "nat \<Rightarrow> nat \<Rightarrow> 'r worker_state \<Rightarrow> 'r worker_state" where
  "heuristics_sweep sec usec st =
     (let connect_sec = ws_connect_sec st;
          st = st\<lparr>ws_connect_sec := sec\<rparr>
      in if sec \<le> connect_sec then st
         else age_state sec (sweep_icmp sec usec (sweep_udp sec usec (sweep_web (sweep_infection sec usec (sweep_port sec usec st))))))"

definition final_heuristics_sweep :: "'r worker_state \<Rightarrow> 'r worker_state" where
  "final_heuristics_sweep st =
     (if use_heuristics (ws_cfg st) \<and> ws_last_sec st > 0
      then (let st = st\<lparr>ws_connect_sec := ws_last_sec st - 1\<rparr> in heuristics_sweep (ws_last_sec st) 0 st)
      else st)"


section \<open>Promises\<close>

text \<open>An event of the sweep: one of the five kinds of its loops.\<close>

definition sweep_kinds :: "(string \<times> string) set" where
  "sweep_kinds =
     {(''IP'', ''potential port scanning (suspicious)''), (''PORT'', ''potential infection (suspicious)''),
      (''PATH'', ''potential web scanning (suspicious)''), (''IP'', ''potential udp scanning (suspicious)''),
      (''IP'', ''potential icmp tunneling (suspicious)'')}"

definition sweep_event :: "event \<Rightarrow> bool" where
  "sweep_event e \<longleftrightarrow> ev_reference e = ''(heuristic)'' \<and> (ev_trail_type e, ev_info e) \<in> sweep_kinds"

lemma scan_room_calls:
  assumes "scan_room sc"
  shows "scan_room (fst (port_scan_candidates sc))" "scan_room (fst (infection_candidates sc))" "scan_room (fst (web_scan_candidates sc))"
    "scan_room (fst (udp_scan_candidates sc))" "scan_room (fst (icmp_tunnel_candidates sc))"
    "scan_room (mark_port_alerted a b sc)" "scan_room (mark_infection_alerted a p sc)" "scan_room (mark_path_alerted a b sc)"
    "scan_room (mark_udp_alerted a b sc)" "scan_room (mark_icmp_alerted a b sc)" "scan_room (clear_window sec sc)"
    "scan_room (track_port a b p pd sc)" "scan_room (track_infection a p b fd sc)" "scan_room (track_path a b t qd sc)"
    "scan_room (track_udp seed a b p pd sc)" "scan_room (track_icmp a b digest pd sc)"
  using scan_room_step [OF assms, of seed SweepPort] scan_room_step [OF assms, of seed SweepInfection]
    scan_room_step [OF assms, of seed SweepWeb] scan_room_step [OF assms, of seed SweepUdp] scan_room_step [OF assms, of seed SweepIcmp]
    scan_room_step [OF assms, of seed "MarkPort a b"] scan_room_step [OF assms, of seed "MarkInfection a p"]
    scan_room_step [OF assms, of seed "MarkPath a b"] scan_room_step [OF assms, of seed "MarkUdp a b"]
    scan_room_step [OF assms, of seed "MarkIcmp a b"] scan_room_step [OF assms, of seed "ClearWindow sec"]
    scan_room_step [OF assms, of seed "SynTo a b p pd"] scan_room_step [OF assms, of seed "ConnectTo a p b fd"]
    scan_room_step [OF assms, of seed "PathTo a b t qd"] scan_room_step [OF assms, of seed "UdpTo a b p pd"]
    scan_room_step [OF assms, of seed "EchoTo a b digest pd"]
  by simp_all

lemma worker_scan: "worker_ok env st \<Longrightarrow> scan_room (ws_scan st)"
  by (simp add: worker_ok_def)

lemma report_each_writes:
  assumes "worker_ok env st" "\<And>k sc. scan_room sc \<Longrightarrow> scan_room (marked k sc)"
    "\<And>st k d. worker_ok env st \<Longrightarrow> writes env P 1 st (report st (k, d))"
  shows "writes env P (length found) st (report_each skip report marked found st)"
  using assms(1)
proof (induction found arbitrary: st)
  case (Cons x found)
  obtain k d where x: "x = (k, d)" by fastforce
  define st1 where "st1 = report st (k, d)"
  define st2 where "st2 = st1\<lparr>ws_scan := marked k (ws_scan st1)\<rparr>"
  have w1: "writes env P 1 st st1" unfolding st1_def by (rule assms(3) [OF Cons.prems])
  have w2: "writes env P 0 st1 st2"
    unfolding st2_def by (rule writes_fields(4) [OF writes_ok [OF w1] assms(2) [OF worker_scan [OF writes_ok [OF w1]]]])
  have w: "writes env P 1 st st2" by (rule writes_trans [OF w1 w2]) simp
  have "writes env P (Suc (length found)) st (report_each skip report marked found st2)"
    by (rule writes_trans [OF w Cons.IH [OF writes_ok [OF w]]]) simp
  then show ?case
    using writes_mono [OF Cons.IH [OF Cons.prems]] by (simp add: x st1_def [symmetric] st2_def [symmetric] Let_def)
qed (simp add: writes_refl)

lemma writes_heuristic:
  "worker_ok env st \<Longrightarrow> (trail_type, info) \<in> sweep_kinds \<Longrightarrow>
     writes env sweep_event 1 st (emit_ep sec usec ep proto trail_type trail info ''(heuristic)'' st)"
  by (rule writes_emit_ep) (simp_all add: sweep_event_def)

lemma sweep_kinds_in:
  "(''IP'', ''potential port scanning (suspicious)'') \<in> sweep_kinds" "(''PORT'', ''potential infection (suspicious)'') \<in> sweep_kinds"
  "(''PATH'', ''potential web scanning (suspicious)'') \<in> sweep_kinds" "(''IP'', ''potential udp scanning (suspicious)'') \<in> sweep_kinds"
  "(''IP'', ''potential icmp tunneling (suspicious)'') \<in> sweep_kinds"
  by (simp_all add: sweep_kinds_def)

text \<open>A loop over the candidates of one queue.\<close>

lemma loop_writes:
  assumes "worker_ok env st" "scan_room sc" "\<And>k sc. scan_room sc \<Longrightarrow> scan_room (marked k sc)"
    "\<And>st k d. worker_ok env st \<Longrightarrow> writes env P 1 st (report st (k, d))"
  shows "\<exists>n. writes env P n st (report_each skip report marked found (st\<lparr>ws_scan := sc\<rparr>))"
proof -
  have w: "writes env P 0 st (st\<lparr>ws_scan := sc\<rparr>)" by (rule writes_fields(4) [OF assms(1,2)])
  have "writes env P (length found) (st\<lparr>ws_scan := sc\<rparr>) (report_each skip report marked found (st\<lparr>ws_scan := sc\<rparr>))"
    by (rule report_each_writes [OF writes_ok [OF w]], rule assms(3), assumption, rule assms(4))
  from writes_trans [OF w this order_refl] show ?thesis by blast
qed

lemma sweeps_write:
  assumes "worker_ok env st"
  shows "\<exists>n. writes env sweep_event n st (sweep_port sec usec st)" "\<exists>n. writes env sweep_event n st (sweep_web st)"
    "\<exists>n. writes env sweep_event n st (sweep_udp sec usec st)" "\<exists>n. writes env sweep_event n st (sweep_icmp sec usec st)"
  using scan_room_calls [OF worker_scan [OF assms]] scan_room_calls(6-10) writes_refl [OF assms]
  by (auto simp: sweep_port_def sweep_web_def sweep_udp_def sweep_icmp_def Let_def split_beta intro!: loop_writes [OF assms] writes_heuristic sweep_kinds_in)

lemma local_prefix_writes:
  assumes "worker_ok env st"
  shows "writes env P n st (snd (worker_local_prefix st))"
  using writes_fields(16) [OF assms] writes_refl [OF assms] by (simp add: worker_local_prefix_def split: option.split)

lemma sweep_infection_writes:
  assumes "worker_ok env st"
  shows "\<exists>n. writes env sweep_event n st (sweep_infection sec usec st)"
proof -
  obtain prefix st1 where p: "worker_local_prefix st = (prefix, st1)" by fastforce
  have w: "writes env sweep_event 0 st st1" using local_prefix_writes [OF assms] p by (metis snd_conv)
  note ok = writes_ok [OF w]
  obtain sc found where c: "infection_candidates (ws_scan st1) = (sc, found)" by fastforce
  have "scan_room sc" using scan_room_calls(2) [OF worker_scan [OF ok]] c by simp
  then have "\<exists>n. writes env sweep_event n st1 (report_each (\<lambda>st (src, dst_port). \<not> starts_with (ip_render src) prefix)
       (\<lambda>st ((src, dst_port), d). emit_ep sec usec
          \<lparr>ep_src = src, ep_src_port = if_src_port d, ep_dst = if_dst_ip d, ep_dst_port = dst_port\<rparr>
          ''TCP'' ''PORT'' (FInt (uint dst_port)) ''potential infection (suspicious)'' ''(heuristic)'' st)
       (\<lambda>(src, dst_port). mark_infection_alerted src dst_port) found (st1\<lparr>ws_scan := sc\<rparr>))"
    by (rule loop_writes [OF ok]) (auto simp: split_beta intro: scan_room_calls(7) writes_heuristic sweep_kinds_in)
  then obtain n where "writes env sweep_event n st1 (report_each (\<lambda>st (src, dst_port). \<not> starts_with (ip_render src) prefix)
       (\<lambda>st ((src, dst_port), d). emit_ep sec usec
          \<lparr>ep_src = src, ep_src_port = if_src_port d, ep_dst = if_dst_ip d, ep_dst_port = dst_port\<rparr>
          ''TCP'' ''PORT'' (FInt (uint dst_port)) ''potential infection (suspicious)'' ''(heuristic)'' st)
       (\<lambda>(src, dst_port). mark_infection_alerted src dst_port) found (st1\<lparr>ws_scan := sc\<rparr>))" by blast
  from writes_trans [OF w this, of n] show ?thesis
    using writes_refl [OF assms] by (auto simp: sweep_infection_def Let_def p c)
qed

lemma age_writes:
  assumes "worker_ok env st"
  shows "writes env P n st (age_state sec st)"
proof -
  have "beacon_room (ws_beacon st)" using assms by (simp add: worker_ok_def)
  then have "beacon_room (bt_maybe_prune sec (ws_beacon st))" using beacon_room_step [of "ws_beacon st" "BeaconTick sec"] by simp
  then have w: "writes env P n st (st\<lparr>ws_beacon := bt_maybe_prune sec (ws_beacon st)\<rparr>)" for n by (rule writes_fields(5) [OF assms])
  have ok: "worker_ok env (st\<lparr>ws_beacon := bt_maybe_prune sec (ws_beacon st)\<rparr>)" by (rule writes_ok [OF w [of 0]])
  have "writes env P n (st\<lparr>ws_beacon := bt_maybe_prune sec (ws_beacon st)\<rparr>)
      (st\<lparr>ws_beacon := bt_maybe_prune sec (ws_beacon st), ws_scan := clear_window sec (ws_scan st)\<rparr>)"
    using writes_fields(4) [OF ok scan_room_calls(11) [OF worker_scan [OF ok]]] by simp
  from writes_trans [OF w [of 0] this, of n] w show ?thesis by (auto simp: age_state_def Let_def)
qed

text \<open>Any number of events.\<close>

definition adds :: "'r outside \<Rightarrow> (event \<Rightarrow> bool) \<Rightarrow> 'r worker_state \<Rightarrow> 'r worker_state \<Rightarrow> bool" where
  "adds env P st st' \<longleftrightarrow> (\<exists>n. writes env P n st st')"

lemma adds_trans: "adds env P a b \<Longrightarrow> (worker_ok env b \<Longrightarrow> adds env P b c) \<Longrightarrow> adds env P a c"
  unfolding adds_def using writes_ok writes_trans [OF _ _ order_refl] by metis

lemma adds_step: "adds env P st a \<Longrightarrow> (\<And>s. worker_ok env s \<Longrightarrow> adds env P s (f s)) \<Longrightarrow> adds env P st (f a)"
  using adds_trans by blast

lemma sweep_adds:
  assumes "worker_ok env st"
  shows "adds env sweep_event st (heuristics_sweep sec usec st)"
proof -
  have w: "adds env sweep_event st (st\<lparr>ws_connect_sec := sec\<rparr>)"
    unfolding adds_def using writes_fields(17) [OF assms] by blast
  have "adds env sweep_event st (age_state sec (sweep_icmp sec usec (sweep_udp sec usec (sweep_web (sweep_infection sec usec
      (sweep_port sec usec (st\<lparr>ws_connect_sec := sec\<rparr>)))))))"
    by (rule adds_step [where f = "age_state sec"], rule adds_step [where f = "sweep_icmp sec usec"],
        rule adds_step [where f = "sweep_udp sec usec"], rule adds_step [where f = sweep_web],
        rule adds_step [where f = "sweep_infection sec usec"], rule adds_step [where f = "sweep_port sec usec"], rule w)
      (auto simp: adds_def intro: sweeps_write sweep_infection_writes age_writes)
  then show ?thesis using w by (simp add: heuristics_sweep_def Let_def)
qed


lemma final_sweep_adds:
  assumes "worker_ok env st"
  shows "adds env sweep_event st (final_heuristics_sweep st)"
proof -
  have w: "writes env sweep_event 0 st (st\<lparr>ws_connect_sec := ws_last_sec st - 1\<rparr>)" by (rule writes_fields(17) [OF assms])
  have "adds env sweep_event st (heuristics_sweep (ws_last_sec st) 0 (st\<lparr>ws_connect_sec := ws_last_sec st - 1\<rparr>))"
    by (rule adds_trans [OF _ sweep_adds]) (use w in \<open>auto simp: adds_def\<close>)
  then show ?thesis using writes_refl [OF assms] by (auto simp: final_heuristics_sweep_def adds_def)
qed

section \<open>A scanner is reported once\<close>

text \<open>What a queue still has to say: the candidates that would be reported.\<close>

definition due :: "('k::linorder) list \<Rightarrow> 'k set \<Rightarrow> ('k, ('a, 'd) bucket) amap \<Rightarrow> ('k \<Rightarrow> bool) \<Rightarrow> bool" where
  "due ready alerted m skip \<longleftrightarrow> (\<exists>x\<in>set (snd (candidates ready alerted m)). \<not> skip (fst x))"

lemma candidates_in: "x \<in> set (snd (candidates ready alerted m)) \<Longrightarrow>
    fst x \<in> set ready \<and> fst x \<notin> alerted \<and> Option.bind (map_of m (fst x)) bk_detail = Some (snd x)"
  by (auto simp: candidates_def Let_def map_filter_def)

lemma in_candidates: "k \<in> set ready \<Longrightarrow> k \<notin> alerted \<Longrightarrow> Option.bind (map_of m k) bk_detail = Some d \<Longrightarrow>
    (k, d) \<in> set (snd (candidates ready alerted m))"
  by (force simp: candidates_def Let_def map_filter_def)

lemma not_due_after:
  assumes "\<And>x. x \<in> set (snd (candidates ready alerted m)) \<Longrightarrow> \<not> skip (fst x) \<Longrightarrow> fst x \<in> alerted'" "alerted \<subseteq> alerted'"
  shows "\<not> due (fst (candidates ready alerted m)) alerted' m skip"
proof
  assume "due (fst (candidates ready alerted m)) alerted' m skip"
  then obtain x where x: "x \<in> set (snd (candidates (fst (candidates ready alerted m)) alerted' m))" "\<not> skip (fst x)"
    by (auto simp: due_def)
  from candidates_in [OF x(1)] have "fst x \<notin> alerted'" "fst x \<in> set ready" "fst x \<notin> alerted"
    "Option.bind (map_of m (fst x)) bk_detail = Some (snd x)"
    by (auto simp: candidates_def Let_def)
  then show False using in_candidates [of "fst x" ready alerted m "snd x"] assms(1) x(2) by auto
qed

text \<open>A loop marks what it does not skip.\<close>

lemma report_each_all:
  assumes "\<And>st. I st \<Longrightarrow> skip st = f" "\<And>st x. I st \<Longrightarrow> I (report st x) \<and> ws_scan (report st x) = ws_scan st"
    "\<And>st k. I st \<Longrightarrow> I (st\<lparr>ws_scan := marked k (ws_scan st)\<rparr>)" "I st"
  shows "I (report_each skip report marked found st) \<and>
    ws_scan (report_each skip report marked found st) = fold marked (filter (\<lambda>k. \<not> f k) (map fst found)) (ws_scan st)"
  using assms(4)
proof (induction found arbitrary: st)
  case (Cons x found)
  obtain k d where x: "x = (k, d)" by fastforce
  have "I (report st (k, d)\<lparr>ws_scan := marked k (ws_scan st)\<rparr>)"
    using assms(2) [OF Cons.prems, of "(k, d)"] assms(3) [of "report st (k, d)" k] by simp
  from Cons.IH [OF this] Cons.IH [OF Cons.prems] show ?case
    using assms(1) [OF Cons.prems] assms(2) [OF Cons.prems] by (simp add: x Let_def)
qed simp

lemma report_each_skips: "\<forall>x\<in>set found. skip st (fst x) \<Longrightarrow> report_each skip report marked found st = st"
  by (induction found) auto


text \<open>The five loops leave a worker like this.\<close>

definition same_rest :: "'r worker_state \<Rightarrow> 'r worker_state \<Rightarrow> bool" where
  "same_rest st st' \<longleftrightarrow> ws_cfg st' = ws_cfg st \<and> ws_whitelist st' = ws_whitelist st \<and> ws_local_prefix_cache st' = ws_local_prefix_cache st"

lemma same_rest_emit [simp]: "same_rest st (emit_ep sec usec ep proto tt tr i r st') = same_rest st st'"
  "ws_scan (emit_ep sec usec ep proto tt tr i r st') = ws_scan st'" "ws_cfg (emit_ep sec usec ep proto tt tr i r st') = ws_cfg st'"
  "ws_whitelist (emit_ep sec usec ep proto tt tr i r st') = ws_whitelist st'"
  "ws_local_prefix_cache (emit_ep sec usec ep proto tt tr i r st') = ws_local_prefix_cache st'"
  by (simp_all add: same_rest_def emit_ep_def emit_def Let_def bump_def)

lemma same_rest_scan [simp]: "same_rest st (st'\<lparr>ws_scan := sc\<rparr>) = same_rest st st'" "same_rest st st"
  by (simp_all add: same_rest_def)

lemma fold_marks:
  "fold (\<lambda>(a, b). mark_port_alerted a b) ks sc = sc\<lparr>sc_alerted_port := set ks \<union> sc_alerted_port sc\<rparr>"
  "fold (\<lambda>(a, p). mark_infection_alerted a p) ps sc = sc\<lparr>sc_alerted_infection := set ps \<union> sc_alerted_infection sc\<rparr>"
  "fold (\<lambda>(a, b). mark_path_alerted a b) ks sc = sc\<lparr>sc_alerted_path := set ks \<union> sc_alerted_path sc\<rparr>"
  "fold (\<lambda>(a, b). mark_udp_alerted a b) ks sc = sc\<lparr>sc_alerted_udp := set ks \<union> sc_alerted_udp sc\<rparr>"
  "fold (\<lambda>(a, b). mark_icmp_alerted a b) ks sc = sc\<lparr>sc_alerted_icmp := set ks \<union> sc_alerted_icmp sc\<rparr>"
proof -
  show "fold (\<lambda>(a, b). mark_port_alerted a b) ks sc = sc\<lparr>sc_alerted_port := set ks \<union> sc_alerted_port sc\<rparr>"
    by (induction ks arbitrary: sc) (auto simp: mark_port_alerted_def)
  show "fold (\<lambda>(a, p). mark_infection_alerted a p) ps sc = sc\<lparr>sc_alerted_infection := set ps \<union> sc_alerted_infection sc\<rparr>"
    by (induction ps arbitrary: sc) (auto simp: mark_infection_alerted_def)
  show "fold (\<lambda>(a, b). mark_path_alerted a b) ks sc = sc\<lparr>sc_alerted_path := set ks \<union> sc_alerted_path sc\<rparr>"
    by (induction ks arbitrary: sc) (auto simp: mark_path_alerted_def)
  show "fold (\<lambda>(a, b). mark_udp_alerted a b) ks sc = sc\<lparr>sc_alerted_udp := set ks \<union> sc_alerted_udp sc\<rparr>"
    by (induction ks arbitrary: sc) (auto simp: mark_udp_alerted_def)
  show "fold (\<lambda>(a, b). mark_icmp_alerted a b) ks sc = sc\<lparr>sc_alerted_icmp := set ks \<union> sc_alerted_icmp sc\<rparr>"
    by (induction ks arbitrary: sc) (auto simp: mark_icmp_alerted_def)
qed

definition skip_source :: "'r worker_state \<Rightarrow> ip \<times> ip \<Rightarrow> bool" where
  "skip_source st = (\<lambda>(src, dst). check_whitelisted_ip (ws_whitelist st) src)"

definition skip_web :: "'r worker_state \<Rightarrow> ip \<times> ip \<Rightarrow> bool" where
  "skip_web st = (\<lambda>(src, dst). check_whitelisted_ip (ws_whitelist st) src \<or> (is_local src \<and> is_local dst))"

definition skip_echo :: "'r worker_state \<Rightarrow> ip \<times> ip \<Rightarrow> bool" where
  "skip_echo st = (\<lambda>(src, dst). check_whitelisted_ip (ws_whitelist st) src \<or> check_whitelisted_ip (ws_whitelist st) dst)"

definition skip_infection :: "'r worker_state \<Rightarrow> ip \<times> u16 \<Rightarrow> bool" where
  "skip_infection st = (\<lambda>(src, dst_port). \<not> starts_with (ip_render src) (fst (worker_local_prefix st)))"

text \<open>Nothing is left to report, heuristic by heuristic.\<close>

definition quiet :: "'r worker_state \<Rightarrow> bool list" where
  "quiet st = (let sc = ws_scan st; on = (\<lambda>name. heuristic_enabled name (ws_cfg st)) in
     [on ''port_scanning'' \<longrightarrow> \<not> due (sc_ready_port sc) (sc_alerted_port sc) (sc_port sc) (skip_source st),
      on ''infection'' \<longrightarrow> \<not> due (sc_ready_infection sc) (sc_alerted_infection sc) (sc_infection sc) (skip_infection st),
      on ''web_scanning'' \<longrightarrow> \<not> due (sc_ready_web sc) (sc_alerted_path sc) (sc_web sc) (skip_web st),
      on ''udp_scanning'' \<longrightarrow> \<not> due (sc_ready_udp sc) (sc_alerted_udp sc) (sc_udp sc) (skip_source st),
      on ''icmp_tunneling'' \<longrightarrow> \<not> due (sc_ready_icmp sc) (sc_alerted_icmp sc) (sc_icmp sc) (skip_echo st)])"

lemma swept:
  assumes "\<And>s. same_rest st s \<Longrightarrow> skip s = f" "\<And>s x. same_rest st s \<Longrightarrow> same_rest st (report s x)"
    "\<And>s x. ws_scan (report s x) = ws_scan s"
  shows "same_rest st (report_each skip report marked found (st\<lparr>ws_scan := sc\<rparr>)) \<and>
    ws_scan (report_each skip report marked found (st\<lparr>ws_scan := sc\<rparr>)) = fold marked (filter (\<lambda>k. \<not> f k) (map fst found)) sc"
  using report_each_all [where I = "same_rest st" and f = f and st = "st\<lparr>ws_scan := sc\<rparr>" and skip = skip and report = report
      and marked = marked and found = found] assms by simp

lemma swept_port:
  assumes "heuristic_enabled ''port_scanning'' (ws_cfg st)"
  defines "c \<equiv> candidates (sc_ready_port (ws_scan st)) (sc_alerted_port (ws_scan st)) (sc_port (ws_scan st))"
  shows "same_rest st (sweep_port sec usec st) \<and> ws_scan (sweep_port sec usec st) = (ws_scan st)\<lparr>sc_ready_port := fst c,
     sc_alerted_port := set (filter (\<lambda>k. \<not> skip_source st k) (map fst (snd c))) \<union> sc_alerted_port (ws_scan st)\<rparr>"
proof -
  have "same_rest st (sweep_port sec usec st) \<and> ws_scan (sweep_port sec usec st) = fold (\<lambda>(a, b). mark_port_alerted a b)
      (filter (\<lambda>k. \<not> skip_source st k) (map fst (snd c))) ((ws_scan st)\<lparr>sc_ready_port := fst c\<rparr>)"
    unfolding sweep_port_def port_scan_candidates_def Let_def split_beta c_def [symmetric] fst_conv snd_conv if_not_P [OF iffD2 [OF not_not assms(1)]]
    by (rule swept [unfolded split_beta]) (auto simp: same_rest_def skip_source_def split_beta)
  then show ?thesis by (simp add: fold_marks)
qed

lemma swept_web:
  assumes "heuristic_enabled ''web_scanning'' (ws_cfg st)"
  defines "c \<equiv> candidates (sc_ready_web (ws_scan st)) (sc_alerted_path (ws_scan st)) (sc_web (ws_scan st))"
  shows "same_rest st (sweep_web st) \<and> ws_scan (sweep_web st) = (ws_scan st)\<lparr>sc_ready_web := fst c,
     sc_alerted_path := set (filter (\<lambda>k. \<not> skip_web st k) (map fst (snd c))) \<union> sc_alerted_path (ws_scan st)\<rparr>"
proof -
  have "same_rest st (sweep_web st) \<and> ws_scan (sweep_web st) = fold (\<lambda>(a, b). mark_path_alerted a b)
      (filter (\<lambda>k. \<not> skip_web st k) (map fst (snd c))) ((ws_scan st)\<lparr>sc_ready_web := fst c\<rparr>)"
    unfolding sweep_web_def web_scan_candidates_def Let_def split_beta c_def [symmetric] fst_conv snd_conv if_not_P [OF iffD2 [OF not_not assms(1)]]
    by (rule swept [unfolded split_beta]) (auto simp: same_rest_def skip_web_def split_beta)
  then show ?thesis by (simp add: fold_marks)
qed

lemma swept_udp:
  assumes "heuristic_enabled ''udp_scanning'' (ws_cfg st)"
  defines "c \<equiv> candidates (sc_ready_udp (ws_scan st)) (sc_alerted_udp (ws_scan st)) (sc_udp (ws_scan st))"
  shows "same_rest st (sweep_udp sec usec st) \<and> ws_scan (sweep_udp sec usec st) = (ws_scan st)\<lparr>sc_ready_udp := fst c,
     sc_alerted_udp := set (filter (\<lambda>k. \<not> skip_source st k) (map fst (snd c))) \<union> sc_alerted_udp (ws_scan st)\<rparr>"
proof -
  have "same_rest st (sweep_udp sec usec st) \<and> ws_scan (sweep_udp sec usec st) = fold (\<lambda>(a, b). mark_udp_alerted a b)
      (filter (\<lambda>k. \<not> skip_source st k) (map fst (snd c))) ((ws_scan st)\<lparr>sc_ready_udp := fst c\<rparr>)"
    unfolding sweep_udp_def udp_scan_candidates_def Let_def split_beta c_def [symmetric] fst_conv snd_conv if_not_P [OF iffD2 [OF not_not assms(1)]]
    by (rule swept [unfolded split_beta]) (auto simp: same_rest_def skip_source_def split_beta)
  then show ?thesis by (simp add: fold_marks)
qed

lemma swept_icmp:
  assumes "heuristic_enabled ''icmp_tunneling'' (ws_cfg st)"
  defines "c \<equiv> candidates (sc_ready_icmp (ws_scan st)) (sc_alerted_icmp (ws_scan st)) (sc_icmp (ws_scan st))"
  shows "same_rest st (sweep_icmp sec usec st) \<and> ws_scan (sweep_icmp sec usec st) = (ws_scan st)\<lparr>sc_ready_icmp := fst c,
     sc_alerted_icmp := set (filter (\<lambda>k. \<not> skip_echo st k) (map fst (snd c))) \<union> sc_alerted_icmp (ws_scan st)\<rparr>"
proof -
  have "same_rest st (sweep_icmp sec usec st) \<and> ws_scan (sweep_icmp sec usec st) = fold (\<lambda>(a, b). mark_icmp_alerted a b)
      (filter (\<lambda>k. \<not> skip_echo st k) (map fst (snd c))) ((ws_scan st)\<lparr>sc_ready_icmp := fst c\<rparr>)"
    unfolding sweep_icmp_def icmp_tunnel_candidates_def Let_def split_beta c_def [symmetric] fst_conv snd_conv if_not_P [OF iffD2 [OF not_not assms(1)]]
    by (rule swept [unfolded split_beta]) (auto simp: same_rest_def skip_echo_def split_beta)
  then show ?thesis by (simp add: fold_marks)
qed

lemma local_prefix_rest:
  "ws_cfg (snd (worker_local_prefix st)) = ws_cfg st" "ws_whitelist (snd (worker_local_prefix st)) = ws_whitelist st"
  "ws_scan (snd (worker_local_prefix st)) = ws_scan st" "ws_sink (snd (worker_local_prefix st)) = ws_sink st"
  by (simp_all add: worker_local_prefix_def split: option.split)

text \<open>The prefix is the same as long as the counts are.\<close>

lemma local_prefix_again:
  assumes "sc_prefix_counts (ws_scan st') = sc_prefix_counts (ws_scan st)"
    "ws_local_prefix_cache st' = ws_local_prefix_cache (snd (worker_local_prefix st)) \<or> ws_local_prefix_cache st' = ws_local_prefix_cache st"
  shows "fst (worker_local_prefix st') = fst (worker_local_prefix st)"
  using assms by (auto simp: worker_local_prefix_def scan_local_prefix_def split: option.splits prod.splits if_splits)

lemma swept_infection:
  assumes "heuristic_enabled ''infection'' (ws_cfg st)"
  defines "c \<equiv> candidates (sc_ready_infection (ws_scan st)) (sc_alerted_infection (ws_scan st)) (sc_infection (ws_scan st))"
  shows "same_rest (snd (worker_local_prefix st)) (sweep_infection sec usec st) \<and> ws_scan (sweep_infection sec usec st) =
    (ws_scan st)\<lparr>sc_ready_infection := fst c,
     sc_alerted_infection := set (filter (\<lambda>k. \<not> skip_infection st k) (map fst (snd c))) \<union> sc_alerted_infection (ws_scan st)\<rparr>"
proof -
  have "same_rest (snd (worker_local_prefix st)) (sweep_infection sec usec st) \<and>
      ws_scan (sweep_infection sec usec st) = fold (\<lambda>(a, b). mark_infection_alerted a b)
      (filter (\<lambda>k. \<not> skip_infection st k) (map fst (snd c))) ((ws_scan st)\<lparr>sc_ready_infection := fst c\<rparr>)"
    unfolding sweep_infection_def infection_candidates_def Let_def split_beta local_prefix_rest c_def [symmetric] fst_conv snd_conv
      if_not_P [OF iffD2 [OF not_not assms(1)]]
    by (rule swept [unfolded split_beta]) (auto simp: same_rest_def skip_infection_def split_beta)
  then show ?thesis by (simp add: fold_marks)
qed

lemma marked_not_due:
  "\<not> due (fst (candidates ready alerted m)) ({k \<in> fst ` set (snd (candidates ready alerted m)). \<not> skip k} \<union> alerted) m skip"
  by (rule not_due_after) auto

text \<open>Each loop silences its own heuristic and wakes no other.\<close>

lemma quiet_port: "quiet (sweep_port sec usec st) = (quiet st)[0 := True]"
proof (cases "heuristic_enabled ''port_scanning'' (ws_cfg st)")
  case True
  note sw = swept_port [OF True, of sec usec]
  have "fst (worker_local_prefix (sweep_port sec usec st)) = fst (worker_local_prefix st)"
    by (rule local_prefix_again) (use sw in \<open>auto simp: same_rest_def\<close>)
  then have rest: "ws_cfg (sweep_port sec usec st) = ws_cfg st" "ws_whitelist (sweep_port sec usec st) = ws_whitelist st"
    "skip_infection (sweep_port sec usec st) = skip_infection st"
    using sw by (auto simp: same_rest_def skip_infection_def local_prefix_rest)
  show ?thesis
    using sw rest(3) by (simp add: quiet_def Let_def rest skip_source_def skip_web_def skip_echo_def marked_not_due numeral_eq_Suc One_nat_def)
qed (simp add: quiet_def sweep_port_def Let_def numeral_eq_Suc One_nat_def)

lemma quiet_infection: "quiet (sweep_infection sec usec st) = (quiet st)[1 := True]"
proof (cases "heuristic_enabled ''infection'' (ws_cfg st)")
  case True
  note sw = swept_infection [OF True, of sec usec]
  have "fst (worker_local_prefix (sweep_infection sec usec st)) = fst (worker_local_prefix st)"
    by (rule local_prefix_again) (use sw in \<open>auto simp: same_rest_def\<close>)
  then have rest: "ws_cfg (sweep_infection sec usec st) = ws_cfg st" "ws_whitelist (sweep_infection sec usec st) = ws_whitelist st"
    "skip_infection (sweep_infection sec usec st) = skip_infection st"
    using sw by (auto simp: same_rest_def skip_infection_def local_prefix_rest)
  show ?thesis
    using sw rest(3) by (simp add: quiet_def Let_def rest skip_source_def skip_web_def skip_echo_def marked_not_due numeral_eq_Suc One_nat_def)
qed (simp add: quiet_def sweep_infection_def Let_def numeral_eq_Suc One_nat_def)

lemma quiet_web: "quiet (sweep_web st) = (quiet st)[2 := True]"
proof (cases "heuristic_enabled ''web_scanning'' (ws_cfg st)")
  case True
  note sw = swept_web [OF True]
  have "fst (worker_local_prefix (sweep_web st)) = fst (worker_local_prefix st)"
    by (rule local_prefix_again) (use sw in \<open>auto simp: same_rest_def\<close>)
  then have rest: "ws_cfg (sweep_web st) = ws_cfg st" "ws_whitelist (sweep_web st) = ws_whitelist st"
    "skip_infection (sweep_web st) = skip_infection st"
    using sw by (auto simp: same_rest_def skip_infection_def local_prefix_rest)
  show ?thesis
    using sw rest(3) by (simp add: quiet_def Let_def rest skip_source_def skip_web_def skip_echo_def marked_not_due numeral_eq_Suc One_nat_def)
qed (simp add: quiet_def sweep_web_def Let_def numeral_eq_Suc One_nat_def)

lemma quiet_udp: "quiet (sweep_udp sec usec st) = (quiet st)[3 := True]"
proof (cases "heuristic_enabled ''udp_scanning'' (ws_cfg st)")
  case True
  note sw = swept_udp [OF True, of sec usec]
  have "fst (worker_local_prefix (sweep_udp sec usec st)) = fst (worker_local_prefix st)"
    by (rule local_prefix_again) (use sw in \<open>auto simp: same_rest_def\<close>)
  then have rest: "ws_cfg (sweep_udp sec usec st) = ws_cfg st" "ws_whitelist (sweep_udp sec usec st) = ws_whitelist st"
    "skip_infection (sweep_udp sec usec st) = skip_infection st"
    using sw by (auto simp: same_rest_def skip_infection_def local_prefix_rest)
  show ?thesis
    using sw rest(3) by (simp add: quiet_def Let_def rest skip_source_def skip_web_def skip_echo_def marked_not_due numeral_eq_Suc One_nat_def)
qed (simp add: quiet_def sweep_udp_def Let_def numeral_eq_Suc One_nat_def)

lemma quiet_icmp: "quiet (sweep_icmp sec usec st) = (quiet st)[4 := True]"
proof (cases "heuristic_enabled ''icmp_tunneling'' (ws_cfg st)")
  case True
  note sw = swept_icmp [OF True, of sec usec]
  have "fst (worker_local_prefix (sweep_icmp sec usec st)) = fst (worker_local_prefix st)"
    by (rule local_prefix_again) (use sw in \<open>auto simp: same_rest_def\<close>)
  then have rest: "ws_cfg (sweep_icmp sec usec st) = ws_cfg st" "ws_whitelist (sweep_icmp sec usec st) = ws_whitelist st"
    "skip_infection (sweep_icmp sec usec st) = skip_infection st"
    using sw by (auto simp: same_rest_def skip_infection_def local_prefix_rest)
  show ?thesis
    using sw rest(3) by (simp add: quiet_def Let_def rest skip_source_def skip_web_def skip_echo_def marked_not_due numeral_eq_Suc One_nat_def)
qed (simp add: quiet_def sweep_icmp_def Let_def numeral_eq_Suc One_nat_def)

section \<open>A quiet heuristic says nothing\<close>

lemma silent_port: "quiet st ! 0 \<Longrightarrow> ws_sink (sweep_port sec usec st) = ws_sink st"
  unfolding sweep_port_def port_scan_candidates_def Let_def split_beta
  by (cases "heuristic_enabled ''port_scanning'' (ws_cfg st)", subst report_each_skips) (auto simp: quiet_def Let_def due_def skip_source_def split_beta local_prefix_rest numeral_eq_Suc One_nat_def)

lemma silent_infection: "quiet st ! 1 \<Longrightarrow> ws_sink (sweep_infection sec usec st) = ws_sink st"
  unfolding sweep_infection_def infection_candidates_def Let_def split_beta
  by (cases "heuristic_enabled ''infection'' (ws_cfg st)", subst report_each_skips) (auto simp: quiet_def Let_def due_def skip_infection_def split_beta local_prefix_rest numeral_eq_Suc One_nat_def)

lemma silent_web: "quiet st ! 2 \<Longrightarrow> ws_sink (sweep_web st) = ws_sink st"
  unfolding sweep_web_def web_scan_candidates_def Let_def split_beta
  by (cases "heuristic_enabled ''web_scanning'' (ws_cfg st)", subst report_each_skips) (auto simp: quiet_def Let_def due_def skip_web_def split_beta local_prefix_rest numeral_eq_Suc One_nat_def)

lemma silent_udp: "quiet st ! 3 \<Longrightarrow> ws_sink (sweep_udp sec usec st) = ws_sink st"
  unfolding sweep_udp_def udp_scan_candidates_def Let_def split_beta
  by (cases "heuristic_enabled ''udp_scanning'' (ws_cfg st)", subst report_each_skips) (auto simp: quiet_def Let_def due_def skip_source_def split_beta local_prefix_rest numeral_eq_Suc One_nat_def)

lemma silent_icmp: "quiet st ! 4 \<Longrightarrow> ws_sink (sweep_icmp sec usec st) = ws_sink st"
  unfolding sweep_icmp_def icmp_tunnel_candidates_def Let_def split_beta
  by (cases "heuristic_enabled ''icmp_tunneling'' (ws_cfg st)", subst report_each_skips) (auto simp: quiet_def Let_def due_def skip_echo_def split_beta local_prefix_rest numeral_eq_Suc One_nat_def)

lemma quiet_age:
  assumes "quiet st = replicate 5 True"
  shows "quiet (age_state sec st) = replicate 5 True"
proof -
  have "quiet (st\<lparr>ws_beacon := b\<rparr>) = quiet st" for b
    by (simp add: quiet_def Let_def skip_source_def skip_web_def skip_echo_def skip_infection_def worker_local_prefix_def
        split: option.split)
  moreover have "quiet (st\<lparr>ws_scan := clear_window sec sc\<rparr>) = replicate 5 True" for st :: "'a worker_state" and sc
    by (simp add: quiet_def Let_def due_def clear_window_def candidates_def numeral_eq_Suc One_nat_def)
  ultimately show ?thesis using assms by (simp add: age_state_def Let_def)
qed

lemma sink_age: "ws_sink (age_state sec st) = ws_sink st"
  by (simp add: age_state_def Let_def)

definition sweep_loops :: "nat \<Rightarrow> nat \<Rightarrow> 'r worker_state \<Rightarrow> 'r worker_state" where
  "sweep_loops sec usec st = sweep_icmp sec usec (sweep_udp sec usec (sweep_web (sweep_infection sec usec (sweep_port sec usec st))))"

lemma length_quiet: "length (quiet st) = 5"
  by (simp add: quiet_def Let_def)

lemma quiet_loops: "quiet (sweep_loops sec usec st) = replicate 5 True"
proof -
  obtain a b c d e where "quiet st = [a, b, c, d, e]"
    using length_quiet [of st] by (auto simp: numeral_eq_Suc One_nat_def length_Suc_conv)
  then show ?thesis
    by (simp add: sweep_loops_def quiet_port quiet_infection quiet_web quiet_udp quiet_icmp numeral_eq_Suc One_nat_def)
qed

lemma silent_loops:
  assumes "quiet st = replicate 5 True"
  shows "ws_sink (sweep_loops sec usec st) = ws_sink st"
  using assms
  by (simp add: sweep_loops_def silent_port silent_infection silent_web silent_udp silent_icmp
      quiet_port quiet_infection quiet_web quiet_udp quiet_icmp numeral_eq_Suc One_nat_def)

text \<open>C9: a scanner is reported once: a second sweep of the accumulators, whatever its second, adds nothing to the log
  when no packet has come in between, whichever heuristics are on and whoever is whitelisted, and also when the first
  sweep has closed the window.\<close>

theorem second_sweep_is_silent:
  assumes "ws_connect_sec st < sec"
  shows "ws_sink (heuristics_sweep sec' usec' (heuristics_sweep sec usec st)) = ws_sink (heuristics_sweep sec usec st)"
proof -
  define st1 where "st1 = heuristics_sweep sec usec st"
  have "st1 = age_state sec (sweep_loops sec usec (st\<lparr>ws_connect_sec := sec\<rparr>))"
    using assms by (simp add: st1_def heuristics_sweep_def Let_def sweep_loops_def)
  then have "quiet st1 = replicate 5 True" by (simp add: quiet_age quiet_loops)
  then have "quiet (st1\<lparr>ws_connect_sec := sec'\<rparr>) = replicate 5 True"
    by (simp add: quiet_def Let_def skip_source_def skip_web_def skip_echo_def skip_infection_def worker_local_prefix_def
        split: option.splits)
  from silent_loops [OF this, of sec' usec'] show ?thesis
    unfolding st1_def [symmetric] by (simp add: heuristics_sweep_def [of sec' usec' st1] Let_def sink_age sweep_loops_def)
qed

definition sample_scanned :: "whitelist \<Rightarrow> unit trail_db \<Rightarrow> unit worker_state" where
  "sample_scanned wl db = (worker_new sample_config scan_default wl db)\<lparr>ws_scan :=
     fold (\<lambda>port. track_port (V4 0x0a000001) (V4 0x08080808) port sample_port_detail) [1, 2, 3, 4, 5, 6, 7, 8, 9, 10, 11] scan_default\<rparr>"

theorem second_sweep_is_silent_witness:
  "\<exists>wl. wl_load [] = Some wl \<and> (let st = sample_scanned wl (trail_db_new 1 ())
     in ws_sink (heuristics_sweep 8 0 (heuristics_sweep 7 0 st)) = ws_sink (heuristics_sweep 7 0 st))"
proof -
  obtain wl where wl: "wl_load [] = Some wl" using sample_worker by metis
  have "ws_connect_sec (sample_scanned wl (trail_db_new 1 ())) < 7" by (simp add: sample_scanned_def worker_new_def)
  from second_sweep_is_silent [OF this, of 8 0 0] wl show ?thesis by (auto simp: Let_def)
qed

end
