(* ===== verification/Flowpath.thy ===== *)
theory Flowpath
  imports Sweep
begin

text \<open>
  The checks of one packet below the application (\<open>process.rs\<close>): a TCP connection attempt (\<open>syn\<close>), a UDP datagram
  (\<open>udp\<close>, with \<open>payload_digest\<close>), and ICMP and the other protocols (\<open>other_proto\<close>).
\<close>

section \<open>Connection attempts\<close>

definition potential_infection_ports :: "u16 set" where
  "potential_infection_ports = {135, 139, 445, 1433, 3389, 6379, 6892, 6893, 6901}"

definition flow_stamp_of :: "nat \<Rightarrow> endpoints \<Rightarrow> flow_stamp" where
  "flow_stamp_of sec ep = \<lparr>fs_sec = sec, fs_src = ep_src ep, fs_src_port = ep_src_port ep, fs_dst = ep_dst ep, fs_dst_port = ep_dst_port ep\<rparr>"

text \<open>The key that matched: the address with its port before the bare address. \<open>None\<close> is the panic when neither did.\<close>

definition matched_key :: "ip \<Rightarrow> u16 \<Rightarrow> trail_info option \<Rightarrow> trail_info option \<Rightarrow> (string \<times> string \<times> trail_info) option" where
  "matched_key address port hit port_hit =
     (case port_hit of
        Some h \<Rightarrow> Some (''IPORT'', ip_addr_port address port, h)
      | None \<Rightarrow> map_option (\<lambda>h. (''IP'', ip_render address, h)) hit)"

text \<open>A listed destination or a listed source, once per run of the same attempt.\<close>

definition logged_syn :: "flow_stamp \<Rightarrow> 'r worker_state \<Rightarrow> bool \<times> 'r worker_state" where
  "logged_syn stamp st = (ws_last_logged_syn st = Some stamp, st\<lparr>ws_last_logged_syn := Some stamp\<rparr>)"

definition syn_destination :: "nat \<Rightarrow> nat \<Rightarrow> endpoints \<Rightarrow> trail_info option \<Rightarrow> trail_info option \<Rightarrow> 'r worker_state \<Rightarrow> 'r worker_state option" where
  "syn_destination sec usec ep hit port_hit st =
     (let (already, st) = logged_syn (flow_stamp_of sec ep) st
      in if already then Some st
         else do {
           (trail_type, trail, info, reference) \<leftarrow> matched_key (ep_dst ep) (ep_dst_port ep) hit port_hit;
           let parking_off_web = (has_sub info ''parking site'' \<and> ep_dst_port ep \<notin> {80, 443});
           Some (if \<not> has_sub info ''attacker'' \<and> \<not> parking_off_web
                 then emit_ep sec usec ep ''TCP'' trail_type (FText trail) info reference st else st)
         })"

definition syn_source :: "nat \<Rightarrow> nat \<Rightarrow> endpoints \<Rightarrow> trail_info option \<Rightarrow> trail_info option \<Rightarrow> 'r worker_state \<Rightarrow> 'r worker_state option" where
  "syn_source sec usec ep hit port_hit st =
     (let (already, st) = logged_syn (flow_stamp_of sec ep) st
      in if already then Some st
         else do {
           (trail_type, trail, info, reference) \<leftarrow> matched_key (ep_src ep) (ep_src_port ep) hit port_hit;
           Some (if \<not> has_sub info ''malware''
                 then emit_ep sec usec ep ''TCP'' trail_type (FText trail) info reference st else st)
         })"

definition syn_trails :: "nat \<Rightarrow> nat \<Rightarrow> endpoints \<Rightarrow> 'r worker_state \<Rightarrow> 'r worker_state option" where
  "syn_trails sec usec ep st = do {
     let st = count_lookup st;
     dst_hit \<leftarrow> td_get_ip (ep_dst ep) (ws_trails st);
     dst_port_hit \<leftarrow> td_get_ip_port (ep_dst ep) (ep_dst_port ep) (ws_trails st);
     if dst_hit \<noteq> None \<or> dst_port_hit \<noteq> None then syn_destination sec usec ep dst_hit dst_port_hit st
     else if \<not> is_localhost (ep_dst ep) then do {
       src_hit \<leftarrow> td_get_ip (ep_src ep) (ws_trails st);
       src_port_hit \<leftarrow> td_get_ip_port (ep_src ep) (ep_src_port ep) (ws_trails st);
       if src_hit \<noteq> None \<or> src_port_hit \<noteq> None then syn_source sec usec ep src_hit src_port_hit st else Some st
     }
     else Some st
   }"

definition port_detail_of :: "nat \<Rightarrow> nat \<Rightarrow> endpoints \<Rightarrow> port_detail" where
  "port_detail_of sec usec ep = \<lparr>pd_sec = sec, pd_usec = of_nat usec, pd_src_port = ep_src_port ep, pd_dst_port = ep_dst_port ep\<rparr>"

definition syn_scan :: "nat \<Rightarrow> nat \<Rightarrow> endpoints \<Rightarrow> 'r worker_state \<Rightarrow> 'r worker_state" where
  "syn_scan sec usec ep st =
     (if use_heuristics (ws_cfg st) \<and> \<not> is_localhost (ep_dst ep)
      then (let st = st\<lparr>ws_scan := track_port (ep_src ep) (ep_dst ep) (ep_dst_port ep) (port_detail_of sec usec ep) (ws_scan st)\<rparr>
            in if ep_dst_port ep \<in> potential_infection_ports
               then st\<lparr>ws_scan := track_infection (ep_src ep) (ep_dst_port ep) (ep_dst ep)
                 \<lparr>if_sec = sec, if_usec = of_nat usec, if_src_port = ep_src_port ep, if_dst_ip = ep_dst ep\<rparr> (ws_scan st)\<rparr>
               else st)
      else st)"

definition syn_beacon :: "nat \<Rightarrow> nat \<Rightarrow> endpoints \<Rightarrow> 'r worker_state \<Rightarrow> 'r worker_state" where
  "syn_beacon sec usec ep st =
     (if use_heuristics (ws_cfg st) \<and> \<not> is_localhost (ep_dst ep) \<and> \<not> is_local (ep_dst ep) \<and>
         heuristic_enabled ''beaconing'' (ws_cfg st)
      then (let (timer, bt) = bt_observe (ep_src ep) (ep_dst ep) (ep_dst_port ep) sec (ws_beacon st);
                st = st\<lparr>ws_beacon := bt\<rparr>
            in if timer \<and> \<not> check_whitelisted_ip (ws_whitelist st) (ep_src ep) \<and> \<not> check_whitelisted_ip (ws_whitelist st) (ep_dst ep)
               then emit_ep sec usec ep ''TCP'' ''IPORT'' (FText (ip_addr_port (ep_dst ep) (ep_dst_port ep)))
                      ''potential periodic beaconing (suspicious)'' ''(heuristic)'' st
               else st)
      else st)"

definition syn :: "nat \<Rightarrow> nat \<Rightarrow> endpoints \<Rightarrow> 'r worker_state \<Rightarrow> 'r worker_state option" where
  "syn sec usec ep st =
     (let stamp = flow_stamp_of sec ep;
          previous = ws_last_syn st;
          st = st\<lparr>ws_last_syn := Some stamp\<rparr>
      in if previous = Some stamp then Some st
         else map_option (\<lambda>st. syn_beacon sec usec ep (syn_scan sec usec ep st)) (syn_trails sec usec ep st))"

section \<open>Datagrams\<close>

definition digest_prefix :: nat where "digest_prefix = 64"

fun digest_words :: "u64 \<Rightarrow> bytes \<Rightarrow> u64" where
  "digest_words hash b =
     (if 8 \<le> length b
      then (let hash = (hash XOR le_u64 (take 8 b)) * 0x9e3779b97f4a7c15; hash = hash XOR drop_bit 29 hash
            in digest_words hash (drop 8 b))
      else if b \<noteq> [] then (hash XOR le_u64 (b @ replicate (8 - length b) 0)) * 0x9e3779b97f4a7c15
      else hash)"

declare digest_words.simps [simp del]

definition payload_digest :: "bytes \<Rightarrow> u64" where
  "payload_digest payload =
     (let hash = digest_words (of_nat (length payload) XOR 0xcbf29ce484222325) (take digest_prefix payload)
      in hash XOR drop_bit 32 hash)"

text \<open>The listed side, the destination first, with the word that silences its listing.\<close>

definition datagram_hit :: "endpoints \<Rightarrow> 'r trail_db \<Rightarrow> (ip \<times> trail_info \<times> string) option option" where
  "datagram_hit ep db = do {
     dst_hit \<leftarrow> td_get_ip (ep_dst ep) db;
     (case dst_hit of
        Some h \<Rightarrow> Some (Some (ep_dst ep, h, ''attacker''))
      | None \<Rightarrow> do {
          src_hit \<leftarrow> td_get_ip (ep_src ep) db;
          Some (map_option (\<lambda>h. (ep_src ep, h, ''malware'')) src_hit)
        })
   }"

definition udp_trails :: "nat \<Rightarrow> nat \<Rightarrow> endpoints \<Rightarrow> 'r worker_state \<Rightarrow> 'r worker_state option" where
  "udp_trails sec usec ep st = do {
     let st = count_lookup st;
     hit \<leftarrow> datagram_hit ep (ws_trails st);
     Some (case hit of
         None \<Rightarrow> st
       | Some (side, (info, reference), suppressed) \<Rightarrow>
           (let previous = ws_last_logged_udp st;
                st = st\<lparr>ws_last_logged_udp := Some (flow_stamp_of sec ep)\<rparr>
            in if previous \<noteq> Some (flow_stamp_of sec ep) \<and> \<not> has_sub info suppressed
               then emit_ep sec usec ep ''UDP'' ''IP'' (FText (ip_render side)) info reference st else st))
   }"

definition udp_scan :: "'r outside \<Rightarrow> nat \<Rightarrow> nat \<Rightarrow> endpoints \<Rightarrow> 'r worker_state \<Rightarrow> 'r worker_state" where
  "udp_scan env sec usec ep st =
     (if use_heuristics (ws_cfg st) \<and> \<not> is_localhost (ep_dst ep) \<and> heuristic_enabled ''udp_scanning'' (ws_cfg st)
      then st\<lparr>ws_scan := track_udp (hash_seed env) (ep_src ep) (ep_dst ep) (ep_dst_port ep) (port_detail_of sec usec ep) (ws_scan st)\<rparr>
      else st)"

definition truncated :: "'r worker_state \<Rightarrow> 'r worker_state" where
  "truncated st = bump (\<lambda>m. m\<lparr>m_packets_truncated := m_packets_truncated m + 1\<rparr>) st"

definition ignored :: "'r worker_state \<Rightarrow> 'r worker_state" where
  "ignored st = bump (\<lambda>m. m\<lparr>m_packets_ignored := m_packets_ignored m + 1\<rparr>) st"

definition udp :: "'r outside \<Rightarrow> bytes \<Rightarrow> ip_header \<Rightarrow> nat \<Rightarrow> nat \<Rightarrow> 'r worker_state \<Rightarrow> 'r worker_state option" where
  "udp env ip_data header sec usec st =
     (case parse_udp ip_data (ih_header_len header) of
        None \<Rightarrow> Some (truncated st)
      | Some udph \<Rightarrow>
          (let ep = \<lparr>ep_src = ih_src header, ep_src_port = uh_src_port udph, ep_dst = ih_dst header, ep_dst_port = uh_dst_port udph\<rparr>;
               stamp = flow_stamp_of sec ep;
               digest = payload_digest (udp_payload ip_data (ih_header_len header));
               previous = ws_last_udp st;
               previous_digest = ws_last_udp_payload st;
               st = st\<lparr>ws_last_udp := Some stamp, ws_last_udp_payload := digest\<rparr>
           in if previous = Some stamp \<and> previous_digest = digest then Some st
              else if ep_src_port ep \<noteq> 53 \<and> ep_dst_port ep \<noteq> 53
              then map_option (udp_scan env sec usec ep) (udp_trails sec usec ep st)
              else dns_packet env ip_data header ep sec usec st))"

section \<open>ICMP and the other protocols\<close>

text \<open>\<open>hash_one\<close> of a byte slice: its length, then the bytes.\<close>

definition echo_digest :: "u64 \<Rightarrow> bytes \<Rightarrow> u64" where
  "echo_digest seed b = seeded_finish seed (seeded_write (seeded_write_u64 seed (of_nat (length b))) b)"

definition dns_or_icmp_type :: "bytes \<Rightarrow> nat \<Rightarrow> u8 option" where
  "dns_or_icmp_type ip_data header_len = icmp_type ip_data header_len"

definition echo_scan :: "'r outside \<Rightarrow> bytes \<Rightarrow> ip_header \<Rightarrow> u8 \<Rightarrow> nat \<Rightarrow> nat \<Rightarrow> 'r worker_state \<Rightarrow> 'r worker_state" where
  "echo_scan env ip_data header protocol sec usec st =
     (if (protocol = 1 \<or> protocol = 58) \<and> use_heuristics (ws_cfg st) \<and> heuristic_enabled ''icmp_tunneling'' (ws_cfg st) \<and>
         \<not> is_localhost (ih_dst header) \<and> \<not> is_local (ih_dst header)
      then (case b_from ip_data (ih_header_len header + 8) of
          None \<Rightarrow> st
        | Some echo \<Rightarrow>
            if is_standard_echo_payload echo then st
            else st\<lparr>ws_scan := track_icmp (ih_src header) (ih_dst header) (echo_digest (hash_seed env) (distinct_part echo))
                \<lparr>pd_sec = sec, pd_usec = of_nat usec, pd_src_port = 0, pd_dst_port = 0\<rparr> (ws_scan st)\<rparr>)
      else st)"

definition protocol_hit :: "ip_header \<Rightarrow> 'r trail_db \<Rightarrow> (ip \<times> trail_info) option option" where
  "protocol_hit header db = do {
     dst_hit \<leftarrow> td_get_ip (ih_dst header) db;
     (case dst_hit of
        Some h \<Rightarrow> Some (Some (ih_dst header, h))
      | None \<Rightarrow> do { src_hit \<leftarrow> td_get_ip (ih_src header) db; Some (map_option (Pair (ih_src header)) src_hit) })
   }"

definition other_proto ::
    "'r outside \<Rightarrow> bytes \<Rightarrow> ip_header \<Rightarrow> u8 \<Rightarrow> nat \<Rightarrow> nat \<Rightarrow> 'r worker_state \<Rightarrow> 'r worker_state option" where
  "other_proto env ip_data header protocol sec usec st =
     (case ipproto_label protocol of
        None \<Rightarrow> Some (ignored st)
      | Some label \<Rightarrow>
          if protocol = 1 \<and> dns_or_icmp_type ip_data (ih_header_len header) \<noteq> Some 0x08 then Some st
          else if protocol = 58 \<and> dns_or_icmp_type ip_data (ih_header_len header) \<noteq> Some 0x80 then Some st
          else do {
            let st = count_lookup (echo_scan env ip_data header protocol sec usec st);
            hit \<leftarrow> protocol_hit header (ws_trails st);
            Some (case hit of
                None \<Rightarrow> st
              | Some (side, info, reference) \<Rightarrow>
                  emit sec usec (ip_render (ih_src header)) field_dash (FText (ip_render (ih_dst header))) field_dash
                    label ''IP'' (FText (ip_render side)) info reference st)
          })"


section \<open>Promises\<close>

lemma worker_get_ip: "worker_ok env st \<Longrightarrow> \<exists>r. td_get_ip ip (ws_trails st) = Some r"
  using td_get_ip_total by (auto simp: worker_ok_def domain_ok_def)

lemma worker_get_ip_port: "worker_ok env st \<Longrightarrow> \<exists>r. td_get_ip_port ip port (ws_trails st) = Some r"
  using td_get_ip_port_total by (auto simp: worker_ok_def domain_ok_def)

lemma lands_let_st: "writes env P 0 st st1 \<Longrightarrow> lands env P n st1 r \<Longrightarrow> lands env P n st r"
  using lands_after [of env P 0 st st1 n r n] by simp

lemma logged_syn_writes:
  assumes "worker_ok env st"
  shows "writes env P n st (snd (logged_syn stamp st))"
  using writes_fields(12) [OF assms] by (simp add: logged_syn_def)

lemma matched_total: "hit \<noteq> None \<or> port_hit \<noteq> None \<Longrightarrow> \<exists>r. matched_key address port hit port_hit = Some r"
  by (auto simp: matched_key_def split: option.split)

lemma syn_listed_lands:
  assumes "worker_ok env st" "hit \<noteq> None \<or> port_hit \<noteq> None"
  shows "lands env (at_flow sec usec ep ''TCP'') 1 st (syn_destination sec usec ep hit port_hit st)"
    "lands env (at_flow sec usec ep ''TCP'') 1 st (syn_source sec usec ep hit port_hit st)"
proof -
  note w = logged_syn_writes [OF assms(1), of "at_flow sec usec ep ''TCP''" _ "flow_stamp_of sec ep"]
  note ok = writes_ok [OF w [of 0]]
  show "lands env (at_flow sec usec ep ''TCP'') 1 st (syn_destination sec usec ep hit port_hit st)"
    "lands env (at_flow sec usec ep ''TCP'') 1 st (syn_source sec usec ep hit port_hit st)"
    unfolding syn_destination_def syn_source_def Let_def split_beta
    by (auto intro!: lands_Some w lands_let_st [OF w [of 0]] bind_value matched_total [OF assms(2)] emit_at_flow ok
        writes_refl [OF ok] simp: split_beta)
qed

lemma syn_trails_lands:
  assumes "worker_ok env st"
  shows "lands env (at_flow sec usec ep ''TCP'') 1 st (syn_trails sec usec ep st)"
proof -
  note w = count_writes [OF assms, of "at_flow sec usec ep ''TCP''"]
  note ok = writes_ok [OF w [of 0]]
  show ?thesis
    unfolding syn_trails_def Let_def
    by (rule lands_let_st [OF w [of 0]])
      (auto intro!: bind_value worker_get_ip worker_get_ip_port ok lands_if syn_listed_lands lands_Some writes_refl)
qed

lemma syn_scan_writes:
  assumes "worker_ok env st"
  shows "writes env P 0 st (syn_scan sec usec ep st)"
proof -
  define st1 where "st1 = st\<lparr>ws_scan := track_port (ep_src ep) (ep_dst ep) (ep_dst_port ep) (port_detail_of sec usec ep) (ws_scan st)\<rparr>"
  have w: "writes env P 0 st st1"
    unfolding st1_def by (rule writes_fields(4) [OF assms scan_room_calls(12) [OF worker_scan [OF assms]]])
  note ok = writes_ok [OF w]
  have "writes env P 0 st1 (st1\<lparr>ws_scan := track_infection (ep_src ep) (ep_dst_port ep) (ep_dst ep) d (ws_scan st1)\<rparr>)" for d
    by (rule writes_fields(4) [OF ok scan_room_calls(13) [OF worker_scan [OF ok]]])
  from writes_trans [OF w this] show ?thesis
    unfolding syn_scan_def Let_def st1_def [symmetric] by (auto intro: w writes_refl [OF assms])
qed

lemma observe_writes:
  assumes "worker_ok env st"
  shows "writes env P n st (st\<lparr>ws_beacon := snd (bt_observe src dst port sec (ws_beacon st))\<rparr>)"
proof -
  have "beacon_room (ws_beacon st)" using assms by (simp add: worker_ok_def)
  then show ?thesis using beacon_room_step [of "ws_beacon st" "Connect src dst port sec"] writes_fields(5) [OF assms] by simp
qed

lemma syn_beacon_writes:
  assumes "worker_ok env st"
  shows "writes env (at_flow sec usec ep ''TCP'') 1 st (syn_beacon sec usec ep st)"
proof -
  note w = observe_writes [OF assms, of "at_flow sec usec ep ''TCP''"]
  note ok = writes_ok [OF w [of 0]]
  show ?thesis
    unfolding syn_beacon_def Let_def split_beta
    using writes_trans [OF w [of 0] emit_at_flow [OF ok], of 1 1] by (auto intro: w writes_refl [OF assms])
qed

lemma syn_lands:
  assumes "worker_ok env st"
  shows "lands env (at_flow sec usec ep ''TCP'') 2 st (syn sec usec ep st)"
proof -
  have w: "writes env (at_flow sec usec ep ''TCP'') 0 st (st\<lparr>ws_last_syn := Some (flow_stamp_of sec ep)\<rparr>)"
    by (rule writes_fields(11) [OF assms])
  obtain st1 where st1: "syn_trails sec usec ep (st\<lparr>ws_last_syn := Some (flow_stamp_of sec ep)\<rparr>) = Some st1"
    "writes env (at_flow sec usec ep ''TCP'') 1 (st\<lparr>ws_last_syn := Some (flow_stamp_of sec ep)\<rparr>) st1"
    using syn_trails_lands [OF writes_ok [OF w], of sec usec ep] by (auto simp: lands_def)
  note s = syn_scan_writes [OF writes_ok [OF st1(2)], of "at_flow sec usec ep ''TCP''" sec usec ep]
  have "writes env (at_flow sec usec ep ''TCP'') 2 st (syn_beacon sec usec ep (syn_scan sec usec ep st1))"
    using writes_trans [OF writes_trans [OF w st1(2), of 1] writes_trans [OF s syn_beacon_writes [OF writes_ok [OF s]], of 1], of 2] by simp
  then show ?thesis using writes_mono [OF w] by (auto simp: syn_def Let_def st1(1) intro: lands_Some)
qed


text \<open>An event about a packet: its time, and its two addresses in one order or the other.\<close>

definition packet_event :: "nat \<Rightarrow> nat \<Rightarrow> ip_header \<Rightarrow> event \<Rightarrow> bool" where
  "packet_event sec usec header e \<longleftrightarrow> ev_sec e = sec \<and> ev_usec e = usec \<and>
     ((ev_src_ip e = ip_render (ih_src header) \<and> ev_dst_ip e = FText (ip_render (ih_dst header))) \<or>
      (ev_src_ip e = ip_render (ih_dst header) \<and> ev_dst_ip e = FText (ip_render (ih_src header))))"

lemma packet_events:
  "at_flow sec usec \<lparr>ep_src = ih_src header, ep_src_port = sp, ep_dst = ih_dst header, ep_dst_port = dp\<rparr> proto e \<Longrightarrow> packet_event sec usec header e"
  "dns_event sec usec \<lparr>ep_src = ih_src header, ep_src_port = sp, ep_dst = ih_dst header, ep_dst_port = dp\<rparr> e \<Longrightarrow> packet_event sec usec header e"
  "handshake_event sec usec header e \<Longrightarrow> packet_event sec usec header e"
  by (auto simp: packet_event_def at_flow_def dns_event_def handshake_event_def)

lemma datagram_total: "worker_ok env st \<Longrightarrow> \<exists>r. datagram_hit ep (ws_trails st) = Some r"
  using worker_get_ip [of env st "ep_dst ep"] worker_get_ip [of env st "ep_src ep"]
  by (auto simp: datagram_hit_def split: option.split)

lemma udp_trails_lands:
  assumes "worker_ok env st"
  shows "lands env (at_flow sec usec ep ''UDP'') 1 st (udp_trails sec usec ep st)"
proof -
  define c where "c = count_lookup st"
  have w: "writes env (at_flow sec usec ep ''UDP'') n st c" for n unfolding c_def by (rule count_writes [OF assms])
  have l: "writes env (at_flow sec usec ep ''UDP'') n st (c\<lparr>ws_last_logged_udp := stamp\<rparr>)" for n stamp
    using writes_trans [OF w [of 0] writes_fields(14) [OF writes_ok [OF w [of 0]]], of n] by simp
  have e: "writes env (at_flow sec usec ep ''UDP'') 1 st (emit_ep sec usec ep ''UDP'' tt tr i r (c\<lparr>ws_last_logged_udp := stamp\<rparr>))" for tt tr i r stamp
    by (rule writes_trans [OF l [of 0] emit_at_flow [OF writes_ok [OF l [of 0]]], of 1]) simp_all
  obtain hit where "datagram_hit ep (ws_trails c) = Some hit" using datagram_total [OF writes_ok [OF w [of 0]]] by blast
  then show ?thesis
    by (auto simp: udp_trails_def Let_def c_def [symmetric] split: option.split intro!: lands_Some w l e)
qed

lemma udp_scan_writes:
  assumes "worker_ok env st"
  shows "writes env P n st (udp_scan env sec usec ep st)"
  using writes_fields(4) [OF assms scan_room_calls(15) [OF worker_scan [OF assms]]] writes_refl [OF assms]
  by (simp add: udp_scan_def)

lemma udp_lands:
  assumes "worker_ok env st" "lower_sound env"
  shows "lands env (packet_event sec usec header) 3 st (udp env ip_data header sec usec st)"
proof -
  have seen: "writes env P n st (st\<lparr>ws_last_udp := Some stamp, ws_last_udp_payload := digest\<rparr>)" for P n stamp digest
  proof -
    have w: "writes env P 0 st (st\<lparr>ws_last_udp := Some stamp\<rparr>)" by (rule writes_fields(13) [OF assms(1)])
    have "writes env P n (st\<lparr>ws_last_udp := Some stamp\<rparr>) (st\<lparr>ws_last_udp := Some stamp, ws_last_udp_payload := digest\<rparr>)"
      by (rule writes_fields(15) [OF writes_ok [OF w]])
    from writes_trans [OF w this, of n] show ?thesis by simp
  qed
  have rest: "lands env (packet_event sec usec header) 3 st1
      (if ep_src_port ep \<noteq> 53 \<and> ep_dst_port ep \<noteq> 53 then map_option (udp_scan env sec usec ep) (udp_trails sec usec ep st1)
       else dns_packet env ip_data header ep sec usec st1)"
    if ok: "worker_ok env st1" and ep: "ep = \<lparr>ep_src = ih_src header, ep_src_port = sp, ep_dst = ih_dst header, ep_dst_port = dp\<rparr>"
    for st1 :: "'a worker_state" and ep sp dp
  proof (rule lands_if)
    obtain st2 where st2: "udp_trails sec usec ep st1 = Some st2" "writes env (at_flow sec usec ep ''UDP'') 1 st1 st2"
      using udp_trails_lands [OF ok, of sec usec ep] unfolding lands_def by blast
    have "writes env (at_flow sec usec ep ''UDP'') 3 st1 (udp_scan env sec usec ep st2)"
      by (rule writes_trans [OF st2(2) udp_scan_writes [OF writes_ok [OF st2(2)], where n = 0]]) simp
    then have "lands env (at_flow sec usec ep ''UDP'') 3 st1 (map_option (udp_scan env sec usec ep) (udp_trails sec usec ep st1))"
      by (simp add: st2(1) lands_Some)
    then show "lands env (packet_event sec usec header) 3 st1 (map_option (udp_scan env sec usec ep) (udp_trails sec usec ep st1))"
      by (rule lands_events) (simp add: packet_events(1) ep)
    show "lands env (packet_event sec usec header) 3 st1 (dns_packet env ip_data header ep sec usec st1)"
      by (rule lands_events [OF dns_packet_lands [OF ok assms(2)]]) (simp add: packet_events(2) ep)
  qed
  have trunc: "writes env (packet_event sec usec header) 3 st (truncated st)"
    unfolding truncated_def by (rule writes_fields(10) [OF assms(1)])
  show ?thesis
    unfolding udp_def Let_def
    by (intro lands_option lands_if lands_Some trunc seen lands_let_st [OF seen rest [OF writes_ok [OF seen [where n = 0]] refl]])
qed

lemma echo_scan_writes:
  assumes "worker_ok env st"
  shows "writes env P n st (echo_scan env ip_data header protocol sec usec st)"
  using writes_fields(4) [OF assms scan_room_calls(16) [OF worker_scan [OF assms]]] writes_refl [OF assms]
  by (simp add: echo_scan_def split: option.split)

lemma other_proto_lands:
  assumes "worker_ok env st"
  shows "lands env (packet_event sec usec header) 1 st (other_proto env ip_data header protocol sec usec st)"
proof -
  define c where "c = count_lookup (echo_scan env ip_data header protocol sec usec st)"
  note w0 = echo_scan_writes [OF assms, of _ _ ip_data header protocol sec usec]
  have w: "writes env P n st c" for P n
    unfolding c_def using writes_trans [OF w0 [of P 0] count_writes [OF writes_ok [OF w0 [of P 0]]], of n n] by simp
  have ok: "worker_ok env c" by (rule writes_ok [OF w [of "\<lambda>_. True" 0]])
  have e: "writes env (packet_event sec usec header) 1 st
      (emit sec usec (ip_render (ih_src header)) field_dash (FText (ip_render (ih_dst header))) field_dash label ''IP'' tr i r c)" for label tr i r
  proof -
    have "worker_ok env (emit sec usec (ip_render (ih_src header)) field_dash (FText (ip_render (ih_dst header))) field_dash label ''IP'' tr i r c)"
      using ok unfolding worker_ok_def emit_def Let_def bump_def by (simp, subst domain_ok_cong [where st = c]) simp_all
    then have "writes env (packet_event sec usec header) 1 c
        (emit sec usec (ip_render (ih_src header)) field_dash (FText (ip_render (ih_dst header))) field_dash label ''IP'' tr i r c)"
      by (simp add: writes_def emit_def Let_def bump_def packet_event_def)
    from writes_trans [OF w [of _ 0] this] show ?thesis by simp
  qed
  obtain hit where hit: "protocol_hit header (ws_trails c) = Some hit"
    using worker_get_ip [OF ok, of "ih_dst header"] worker_get_ip [OF ok, of "ih_src header"]
    by (cases "the (td_get_ip (ih_dst header) (ws_trails c))") (auto simp: protocol_hit_def)
  have trunc: "writes env (packet_event sec usec header) 1 st (ignored st)"
    unfolding ignored_def by (rule writes_fields(10) [OF assms])
  have last: "lands env (packet_event sec usec header) 1 st (Some (case hit of None \<Rightarrow> c
      | Some (side, info, reference) \<Rightarrow> emit sec usec (ip_render (ih_src header)) field_dash (FText (ip_render (ih_dst header)))
          field_dash label ''IP'' (FText (ip_render side)) info reference c))" for label
    by (auto intro!: lands_Some w e split: option.split)
  show ?thesis
    unfolding other_proto_def Let_def c_def [symmetric] hit Option.bind.simps
    by (intro lands_option lands_if last lands_Some trunc writes_refl [OF assms])
qed

section \<open>Listed addresses\<close>

text \<open>What a destination is listed as: the address with its port before the bare address. A listing of an attacker, or of
  a parking site off the web ports, is not reported.\<close>

definition listing :: "'r trail_db \<Rightarrow> endpoints \<Rightarrow> (string \<times> string \<times> trail_info) option" where
  "listing db ep =
     (case trail_of db (ip_addr_port (ep_dst ep) (ep_dst_port ep)) of
        Some h \<Rightarrow> Some (''IPORT'', ip_addr_port (ep_dst ep) (ep_dst_port ep), h)
      | None \<Rightarrow> map_option (\<lambda>h. (''IP'', ip_render (ep_dst ep), h)) (trail_of db (ip_render (ep_dst ep))))"

definition silenced :: "string \<Rightarrow> u16 \<Rightarrow> bool" where
  "silenced info port \<longleftrightarrow> has_sub info ''attacker'' \<or> has_sub info ''parking site'' \<and> port \<notin> {80, 443}"

text \<open>Whether the attempt makes its flow a beacon, outside the whitelist.\<close>

definition beacon_alert :: "nat \<Rightarrow> endpoints \<Rightarrow> 'r worker_state \<Rightarrow> bool" where
  "beacon_alert sec ep st \<longleftrightarrow> use_heuristics (ws_cfg st) \<and> heuristic_enabled ''beaconing'' (ws_cfg st) \<and>
     \<not> is_localhost (ep_dst ep) \<and> \<not> is_local (ep_dst ep) \<and> fst (bt_observe (ep_src ep) (ep_dst ep) (ep_dst_port ep) sec (ws_beacon st)) \<and>
     \<not> check_whitelisted_ip (ws_whitelist st) (ep_src ep) \<and> \<not> check_whitelisted_ip (ws_whitelist st) (ep_dst ep)"

definition attempt_event :: "nat \<Rightarrow> nat \<Rightarrow> endpoints \<Rightarrow> string \<Rightarrow> string \<Rightarrow> string \<Rightarrow> string \<Rightarrow> event" where
  "attempt_event sec usec ep trail_type trail info reference =
     \<lparr>ev_sec = sec, ev_usec = usec, ev_src_ip = ip_render (ep_src ep), ev_src_port = field_port (ep_src_port ep),
      ev_dst_ip = FText (ip_render (ep_dst ep)), ev_dst_port = field_port (ep_dst_port ep), ev_proto = FText ''TCP'',
      ev_trail_type = trail_type, ev_trail = FText trail, ev_info = info, ev_reference = reference\<rparr>"

lemma emit_attempt:
  "ws_sink (emit_ep sec usec ep ''TCP'' ty (FText trail) info reference st) = ws_sink st @ [attempt_event sec usec ep ty trail info reference]"
  "ws_beacon (emit_ep sec usec ep proto ty f info reference st) = ws_beacon st"
  "ws_cfg (emit_ep sec usec ep proto ty f info reference st) = ws_cfg st"
  "ws_whitelist (emit_ep sec usec ep proto ty f info reference st) = ws_whitelist st"
  by (simp_all add: emit_ep_def emit_def bump_def attempt_event_def Let_def)

lemma beacon_alert_cong:
  "ws_cfg a = ws_cfg b \<Longrightarrow> ws_beacon a = ws_beacon b \<Longrightarrow> ws_whitelist a = ws_whitelist b \<Longrightarrow> beacon_alert sec ep a = beacon_alert sec ep b"
  by (simp add: beacon_alert_def)

lemma syn_scan_frame:
  "ws_sink (syn_scan sec usec ep st) = ws_sink st" "ws_beacon (syn_scan sec usec ep st) = ws_beacon st"
  "ws_cfg (syn_scan sec usec ep st) = ws_cfg st" "ws_whitelist (syn_scan sec usec ep st) = ws_whitelist st"
  by (simp_all add: syn_scan_def Let_def)

lemma syn_beacon_log:
  "ws_sink (syn_beacon sec usec ep st) = ws_sink st @
     (if beacon_alert sec ep st
      then [attempt_event sec usec ep ''IPORT'' (ip_addr_port (ep_dst ep) (ep_dst_port ep)) ''potential periodic beaconing (suspicious)'' ''(heuristic)'']
      else [])"
  by (simp add: syn_beacon_def beacon_alert_def Let_def split_beta emit_attempt)

lemma listed_lookups:
  assumes "trails_ok db"
  shows "td_get_ip (V4 v) db = Some (trail_of db (ip_render (V4 v)))"
    "td_get_ip_port (V4 v) port db = Some (trail_of db (ip_addr_port (V4 v) port))"
  using assms int_get_spec [of hash_u32 "td_ip4 db" v] int_get_spec [of hash_u64 "td_ip4_port db" "ip4_port_key v port"]
  by (auto simp: td_get_ip_def td_get_ip_port_def trails_ok_def db_ok_def trail_of_def pair_of_index_def pair_def b_at_def
      simp del: ip_addr_port.simps split: option.splits)

text \<open>C36: a connection attempt to a listed IPv4 destination is reported once. When the text table of the trails has the
  destination address with its port, or the bare address, as a key, the first packet of the attempt adds to the log
  exactly one event with that key (the one with the port if both are listed) and the listing's own info and reference,
  or none when the listing is of an attacker or of a parking site reached off the web ports; behind it, and only when this
  attempt makes the flow a beacon outside the whitelist, the one alert of the beacon heuristic; and nothing else.\<close>

theorem listed_destination_is_reported:
  assumes "worker_ok env st" "ep_dst ep = V4 v" "listing (ws_trails st) ep = Some (trail_type, trail, info, reference)"
    and "ws_last_syn st \<noteq> Some (flow_stamp_of sec ep)" "ws_last_logged_syn st \<noteq> Some (flow_stamp_of sec ep)"
  shows "\<exists>st'. syn sec usec ep st = Some st' \<and> ws_sink st' = ws_sink st @
    (if silenced info (ep_dst_port ep) then [] else [attempt_event sec usec ep trail_type trail info reference]) @
    (if beacon_alert sec ep st
     then [attempt_event sec usec ep ''IPORT'' (ip_addr_port (ep_dst ep) (ep_dst_port ep)) ''potential periodic beaconing (suspicious)'' ''(heuristic)'']
     else [])"
proof -
  have ok: "trails_ok (ws_trails st)" using assms(1) by (simp add: worker_ok_def domain_ok_def)
  define st0 where "st0 = count_lookup (st\<lparr>ws_last_syn := Some (flow_stamp_of sec ep)\<rparr>)"
  define st1 where "st1 = (if silenced info (ep_dst_port ep) then st0\<lparr>ws_last_logged_syn := Some (flow_stamp_of sec ep)\<rparr>
    else emit_ep sec usec ep ''TCP'' trail_type (FText trail) info reference (st0\<lparr>ws_last_logged_syn := Some (flow_stamp_of sec ep)\<rparr>))"
  have st0: "ws_trails st0 = ws_trails st" "ws_sink st0 = ws_sink st" "ws_last_logged_syn st0 = ws_last_logged_syn st"
    "ws_cfg st0 = ws_cfg st" "ws_beacon st0 = ws_beacon st" "ws_whitelist st0 = ws_whitelist st"
    by (simp_all add: st0_def count_lookup_def bump_def)
  have key: "matched_key (ep_dst ep) (ep_dst_port ep) (trail_of (ws_trails st) (ip_render (ep_dst ep)))
      (trail_of (ws_trails st) (ip_addr_port (ep_dst ep) (ep_dst_port ep))) = Some (trail_type, trail, info, reference)"
    using assms(3) by (simp add: matched_key_def listing_def)
  then have hit: "trail_of (ws_trails st) (ip_render (ep_dst ep)) \<noteq> None \<or> trail_of (ws_trails st) (ip_addr_port (ep_dst ep) (ep_dst_port ep)) \<noteq> None"
    by (auto simp: matched_key_def split: option.splits)
  have "syn_destination sec usec ep (trail_of (ws_trails st) (ip_render (ep_dst ep)))
      (trail_of (ws_trails st) (ip_addr_port (ep_dst ep) (ep_dst_port ep))) st0 = Some st1"
    using assms(5) by (auto simp: syn_destination_def logged_syn_def st0 key Let_def silenced_def st1_def)
  then have "syn_trails sec usec ep (st\<lparr>ws_last_syn := Some (flow_stamp_of sec ep)\<rparr>) = Some st1"
    using hit listed_lookups [OF ok, of v] assms(2)
    by (auto simp: syn_trails_def Let_def st0_def [symmetric] st0 simp del: ip_addr_port.simps)
  then have run: "syn sec usec ep st = Some (syn_beacon sec usec ep (syn_scan sec usec ep st1))"
    using assms(4) by (simp add: syn_def Let_def)
  have "ws_sink st1 = ws_sink st @ (if silenced info (ep_dst_port ep) then [] else [attempt_event sec usec ep trail_type trail info reference])"
    by (simp add: st1_def st0 emit_attempt)
  moreover have "beacon_alert sec ep (syn_scan sec usec ep st1) = beacon_alert sec ep st"
    by (rule beacon_alert_cong) (simp_all add: syn_scan_frame st1_def emit_attempt st0)
  ultimately show ?thesis by (simp add: run syn_beacon_log syn_scan_frame)
qed

definition listed_flow :: endpoints where
  "listed_flow = \<lparr>ep_src = V4 0x0a000001, ep_src_port = 40000, ep_dst = V4 0x08080808, ep_dst_port = 443\<rparr>"

lemma listed_worker:
  obtains wl and db :: "unit trail_db" where "wl_load [] = Some wl"
    "worker_ok sample_outside (worker_new sample_config scan_default wl db)"
    "trail_of db (ip_addr_port (V4 0x08080808) 443) = Some (''malware'', ''(static)'')"
proof -
  obtain wl where wl: "wl_load [] = Some wl" using sample_worker by metis
  have "length (wl_lines []) < 2 ^ 58" by (simp add: wl_lines_def)
  from wl_load_spec [OF this] wl have "wl_ok wl" by auto
  moreover obtain db :: "unit trail_db" where db: "trails_ok db"
    "\<And>k. trail_of db k = map_option (\<lambda>i. [(''malware'', ''(static)'')] ! unat i) (map_of (rev [(''8.8.8.8:443'', 0 :: u32)]) k)"
    using built_trails_ok [of 1 "[(''malware'', ''(static)'')]" "[(''8.8.8.8:443'', 0 :: u32)]"]
    by (auto simp: table_limit_def row_fits_def empty_val_def)
  moreover have "domain_cache_entries sample_config < nil" by (simp add: sample_config_def nil_def)
  ultimately have "worker_ok sample_outside (worker_new sample_config scan_default wl db)"
    using worker_ok_new sample_outside_ok by (simp add: scan_default_def)
  moreover have "ip_addr_port (V4 0x08080808) 443 = ''8.8.8.8:443''" by code_simp
  ultimately show ?thesis using that [OF wl, of db] db(2) by simp
qed

theorem listed_destination_is_reported_witness:
  "\<exists>wl (db :: unit trail_db) st'. wl_load [] = Some wl \<and>
     syn 7 8 listed_flow (worker_new sample_config scan_default wl db) = Some st' \<and>
     ws_sink st' = attempt_event 7 8 listed_flow ''IPORT'' (ip_addr_port (V4 0x08080808) 443) ''malware'' ''(static)'' #
       (if beacon_alert 7 listed_flow (worker_new sample_config scan_default wl db)
        then [attempt_event 7 8 listed_flow ''IPORT'' (ip_addr_port (V4 0x08080808) 443) ''potential periodic beaconing (suspicious)'' ''(heuristic)'']
        else [])"
proof -
  obtain wl and db :: "unit trail_db" where w: "wl_load [] = Some wl"
    "worker_ok sample_outside (worker_new sample_config scan_default wl db)"
    "trail_of db (ip_addr_port (V4 0x08080808) 443) = Some (''malware'', ''(static)'')"
    using listed_worker .
  let ?st = "worker_new sample_config scan_default wl db"
  have info: "\<not> silenced ''malware'' 443" by code_simp
  have dst: "ep_dst listed_flow = V4 0x08080808" "ep_dst_port listed_flow = 443" by (simp_all add: listed_flow_def)
  have new: "ws_trails ?st = db" "ws_last_syn ?st \<noteq> Some s" "ws_last_logged_syn ?st \<noteq> Some s" "ws_sink ?st = []" for s
    by (simp_all add: worker_new_def)
  have "listing (ws_trails ?st) listed_flow = Some (''IPORT'', ip_addr_port (V4 0x08080808) 443, ''malware'', ''(static)'')"
    unfolding listing_def dst new(1) w(3) by simp
  from listed_destination_is_reported [OF w(2) dst(1) this new(2,3), of 7 8] show ?thesis
    using w(1) info unfolding new(4) dst by fastforce
qed

end
