(* ===== verification/Request.thy ===== *)
theory Request
  imports Http Flowpath
begin

text \<open>
  HTTP on the packet path (\<open>process.rs\<close>): \<open>http_response\<close>, \<open>http_request\<close> and what they call. The compiled regular
  expressions of \<open>settings.rs\<close> are the record \<open>statics\<close>, a function each; the substring scanners of \<open>aho-corasick\<close> are
  the test whether one of their patterns occurs.
\<close>

section \<open>The compiled settings\<close>

record statics =
  generic_sinkhole :: "string \<Rightarrow> string option"
  seized_domain :: "string \<Rightarrow> bool"
  suspicious_direct_ip_url :: "string \<Rightarrow> bool"
  dotted_host :: "string \<Rightarrow> bool"
  whitelist_ua :: "string \<Rightarrow> bool"
  suspicious_ua :: "(string \<Rightarrow> string option) option"
  suspicious_http_request :: "(string \<times> (string \<Rightarrow> bool)) list"
  suspicious_http_path :: "(string \<times> (string \<Rightarrow> bool)) list"
  code_execution :: "string \<Rightarrow> bool"
  param_value :: "string \<Rightarrow> string"
  proxy_probe_path :: "string \<Rightarrow> string"
  proxy_probe_host :: "string \<Rightarrow> (string \<times> string option \<times> string option \<times> string) option"
  forwarded_for :: "bytes \<Rightarrow> bytes option"

definition contains_any :: "string list \<Rightarrow> string \<Rightarrow> bool" where
  "contains_any patterns s = list_ex (has_sub s) patterns"

definition suspicious_content_types :: "string list" where
  "suspicious_content_types =
    [''application/vnd.ms-htmlhelp'', ''application/x-bsh'', ''application/x-chm'', ''application/x-ms-shortcut'', ''application/x-sh'',
     ''application/x-shellscript'', ''application/hta'', ''text/x-scriptlet'', ''text/x-sh'', ''text/x-shellscript'', ''application/x-ms-vsto'']"

definition suspicious_download_extensions :: "string list" where
  "suspicious_download_extensions =
    [''.apk'', ''.bin'', ''.chm'', ''.class'', ''.dll'', ''.egg'', ''.exe'', ''.hta'', ''.hwp'', ''.lnk'', ''.msi'', ''.pif'', ''.ps1'', ''.pyz'',
     ''.scr'', ''.sct'', ''.vsto'', ''.wbk'', ''.xpi'']"

definition whitelist_direct_download :: "string list" where
  "whitelist_direct_download = [''cgi'', ''/scripts/'', ''/_vti_bin/'', ''/bin/'', ''/pub/softpaq/'', ''/bios/'', ''/pc-axis/'']"

definition pre_condition :: "string list" where
  "pre_condition = [''?'', ''..'', ''.ht'', ''='', '' '', [CHR 0x27]]"

definition proxy_probe_pre_condition :: "string list" where
  "proxy_probe_pre_condition = [''probe'', ''proxy'', ''echo'', ''check'']"

definition whitelist_request_paths :: "string list" where
  "whitelist_request_paths =
    [''fql'', ''yql'', ''ads'', ''../images/'', ''../themes/'', ''../design/'', ''../scripts/'', ''../assets/'', ''../core/'', ''../js/'', ''/gwx/'']"

definition force_encode_chars :: "(string \<times> string) list" where
  "force_encode_chars = [(''('', ''%28''), ('' '', ''%20''), ('')'', ''%29''), ([CHR 0x0d], ''%0D''), ([CHR 0x0a], ''%0A'')]"

section \<open>Small parts\<close>

definition force_encode :: "string \<Rightarrow> string" where
  "force_encode value =
     (if \<not> list_ex (\<lambda>(ch, _). has_sub value ch) force_encode_chars then value
      else fold (\<lambda>(ch, replacement) out. replace_sub out ch replacement) force_encode_chars value)"

definition lower_if_upper :: "'r outside \<Rightarrow> string \<Rightarrow> string" where
  "lower_if_upper env s = (if list_ex is_upper s then lower_unicode env s else s)"

definition strip_suffix_80 :: "string \<Rightarrow> string" where
  "strip_suffix_80 s = (if ends_with s '':80'' then take (length s - 3) s else s)"

definition first_is_alpha :: "string \<Rightarrow> bool" where
  "first_is_alpha s = (case s of [] \<Rightarrow> False | c # cs \<Rightarrow> is_lower c \<or> is_upper c)"

definition before_colon :: "string \<Rightarrow> string" where
  "before_colon s = hd (split_on (CHR '':'') s)"

definition http_source_field :: "statics \<Rightarrow> endpoints \<Rightarrow> bytes \<Rightarrow> string" where
  "http_source_field sx ep packet_bytes =
     (let field = ip_render (ep_src ep)
      in if has_forwarded_for_header (bytes_str packet_bytes)
         then (case forwarded_for sx packet_bytes of
                 Some m \<Rightarrow> field @ '','' @ lossy (bytes_str m)
               | None \<Rightarrow> field)
         else field)"

definition bracket_around :: "string \<Rightarrow> string \<Rightarrow> string" where
  "bracket_around url check =
     join check (map (\<lambda>part. if part = [] then [] else ''('' @ part @ '')'') (split_sub url check))"

definition ua_escape :: "string \<Rightarrow> string" where
  "ua_escape value = concat (map (\<lambda>c. if c \<in> {CHR ''('', CHR '')''} then [CHR 0x5c, c] else [c]) (trim_end_char (CHR 0x5c) value))"

definition classify_user_agent :: "statics \<Rightarrow> string \<Rightarrow> string option" where
  "classify_user_agent sx user_agent =
     (if whitelist_ua sx user_agent then None
      else do {
        re \<leftarrow> suspicious_ua sx;
        matched \<leftarrow> re user_agent;
        (if matched = [] then None
         else (let parts = (case split_once user_agent matched of Some (a, b) \<Rightarrow> [a, b] | None \<Rightarrow> [user_agent])
               in if length parts > 1 \<and> hd parts \<noteq> [] \<and> last parts \<noteq> []
                  then Some (ua_escape matched @ '' ('' @ ua_escape user_agent @ '')'')
                  else Some (join (ua_escape matched)
                         (map (\<lambda>part. if part = [] then ua_escape part else ''('' @ ua_escape part @ '')'') parts))))
      })"

section \<open>Responses\<close>

definition heuristic_event :: "nat \<Rightarrow> nat \<Rightarrow> endpoints \<Rightarrow> string \<Rightarrow> string \<Rightarrow> string \<Rightarrow> 'r worker_state \<Rightarrow> 'r worker_state" where
  "heuristic_event sec usec ep trail_type trail info st = emit_ep sec usec ep ''TCP'' trail_type (FText trail) info ''(heuristic)'' st"

definition seized_title :: "statics \<Rightarrow> string \<Rightarrow> string option" where
  "seized_title sx tcp_data = do {
     index \<leftarrow> find_sub tcp_data ''<title>'';
     let rest = drop (index + 7) tcp_data;
     e \<leftarrow> find_sub rest ''</title>'';
     let title = take e rest;
     if seized_domain sx title then Some title else None
   }"

definition http_response :: "'r outside \<Rightarrow> statics \<Rightarrow> string \<Rightarrow> endpoints \<Rightarrow> nat \<Rightarrow> nat \<Rightarrow> 'r worker_state \<Rightarrow> 'r worker_state" where
  "http_response env sx tcp_data ep sec usec st =
     (let head = concat (take 2000 (str_chars tcp_data));
          st = (case generic_sinkhole sx head of
                  Some m \<Rightarrow> heuristic_event sec usec ep ''HTTP'' m ''sinkhole response (malware)'' st
                | None \<Rightarrow> (case seized_title sx tcp_data of
                    Some title \<Rightarrow> heuristic_event sec usec ep ''HTTP'' title ''seized domain (suspicious)'' st
                  | None \<Rightarrow> st))
      in case header_value_with tcp_data (crlf @ ''Content-Type:'') of
           None \<Rightarrow> st
         | Some v \<Rightarrow>
             (let content_type = lower_unicode env (trim v)
              in if content_type \<noteq> [] \<and> content_type \<in> set suspicious_content_types
                 then heuristic_event sec usec ep ''HTTP'' content_type ''content type (suspicious)'' st else st))"

section \<open>Requests: the host\<close>

text \<open>The host of a request and what is wrong with it; no host when the request is done with.\<close>

definition named_host ::
    "'r outside \<Rightarrow> statics \<Rightarrow> string \<Rightarrow> string \<Rightarrow> endpoints \<Rightarrow> nat \<Rightarrow> nat \<Rightarrow> 'r worker_state \<Rightarrow> (string option \<times> 'r worker_state) option" where
  "named_host env sx raw_host path ep sec usec st = do {
     let host = lower_if_upper env (strip_suffix_80 (trim raw_host));
     dst_trail \<leftarrow> td_get_ip (ep_dst ep) (ws_trails st);
     (case (if host \<noteq> [] \<and> first_is_alpha host then dst_trail else None) of
        Some (info, reference) \<Rightarrow>
          Some (Some host, emit_ep sec usec ep ''TCP'' ''IP''
            (FText (ip_render (ep_dst ep) @ '' ('' @ before_colon host @ '')'')) info reference st)
      | None \<Rightarrow>
          if dotted_host sx host \<and> suspicious_direct_ip_url sx (host @ path)
          then (let (prefix, st) = worker_local_prefix st;
                    from_us = (is_local (ep_src ep) \<or> starts_with (ip_render (ep_src ep)) prefix)
                in if from_us \<and> \<not> starts_with (ip_render (ep_dst ep)) prefix
                   then Some (None, heuristic_event sec usec ep ''HTTP'' (''('' @ host @ '')'' @ path)
                          ''potential iot-malware download (suspicious)'' st)
                   else Some (Some host, st))
          else if check_host_domains (ws_cfg st)
          then map_option (Pair (Some host)) (check_domain env host sec usec ep ''TCP'' st)
          else Some (Some host, st))
   }"

definition http_host ::
    "'r outside \<Rightarrow> statics \<Rightarrow> string \<Rightarrow> string \<Rightarrow> endpoints \<Rightarrow> nat \<Rightarrow> nat \<Rightarrow> 'r worker_state \<Rightarrow> (string option \<times> 'r worker_state) option" where
  "http_host env sx tcp_data path ep sec usec st =
     (case header_value_with tcp_data (crlf @ ''Host:'') of
        Some raw_host \<Rightarrow> named_host env sx raw_host path ep sec usec st
      | None \<Rightarrow>
          (let host = ip_render (ep_dst ep)
           in Some (Some host,
                if use_heuristics (ws_cfg st) \<and> check_missing_host (ws_cfg st)
                then heuristic_event sec usec ep ''HTTP'' (host @ path) ''missing host header (suspicious)'' st else st)))"

section \<open>Requests: what is asked for\<close>

text \<open>Host, path, and the URL when the request line has one of its own; \<open>None\<close> when the request is done with.\<close>

type_synonym asked = "string \<times> string \<times> string option"

definition nth_segment :: "nat \<Rightarrow> string \<Rightarrow> string" where
  "nth_segment n path = (let parts = split_on (CHR ''/'') path in if n < length parts then parts ! n else [])"

definition probe_trail :: "statics \<Rightarrow> string \<Rightarrow> string" where
  "probe_trail sx path =
     (let staged = proxy_probe_path sx path
      in case proxy_probe_host sx staged of
           None \<Rightarrow> staged
         | Some (before, scheme, host, after) \<Rightarrow>
             (let host = (case host of Some h \<Rightarrow> h | None \<Rightarrow> []);
                  cleaned = trim_end_char (CHR ''.'') (before_colon host)
              in before @ (case scheme of Some g \<Rightarrow> g | None \<Rightarrow> []) @ cleaned @ after))"

definition absolute_uri ::
    "'r outside \<Rightarrow> statics \<Rightarrow> string \<Rightarrow> string \<Rightarrow> endpoints \<Rightarrow> nat \<Rightarrow> nat \<Rightarrow> 'r worker_state \<Rightarrow> (asked option \<times> 'r worker_state) option" where
  "absolute_uri env sx host path ep sec usec st =
     (if code_execution sx (unquote path) then Some (Some (host, path, None), st)
      else (let candidate = (case split_once path ''://'' of Some (_, rest) \<Rightarrow> rest | None \<Rightarrow> []);
                candidate = (if CHR ''/'' \<in> set candidate then candidate else candidate @ ''/'');
                (h, rest) = (case split_once candidate ''/'' of Some p \<Rightarrow> p | None \<Rightarrow> (candidate, []));
                h = strip_suffix_80 h
            in map_option (Pair (Some (h, ''/'' @ rest, Some candidate))) (check_domain env (before_colon h) sec usec ep ''TCP'' st)))"

definition connect_method ::
    "'r outside \<Rightarrow> string \<Rightarrow> endpoints \<Rightarrow> nat \<Rightarrow> nat \<Rightarrow> 'r worker_state \<Rightarrow> (asked option \<times> 'r worker_state) option" where
  "connect_method env path ep sec usec st =
     (let (host, path) = (case split_once path ''/'' of Some (h, rest) \<Rightarrow> (h, ''/'' @ rest) | None \<Rightarrow> (path, ''/''));
          host = strip_suffix_80 host
      in map_option (Pair (Some (host, path, Some (host @ path)))) (check_domain env (before_colon host) sec usec ep ''TCP'' st))"

definition proxied ::
    "'r outside \<Rightarrow> statics \<Rightarrow> string \<Rightarrow> string \<Rightarrow> string \<Rightarrow> endpoints \<Rightarrow> nat \<Rightarrow> nat \<Rightarrow> 'r worker_state \<Rightarrow> (asked option \<times> 'r worker_state) option" where
  "proxied env sx http_method host path ep sec usec st = do {
     let maybe_probe = (use_heuristics (ws_cfg st) \<and> ep_dst_port ep = 80 \<and> starts_with path ''http://'' \<and>
       contains_any proxy_probe_pre_condition path);
     (whitelisted, st) \<leftarrow> (if maybe_probe then check_domain_whitelisted env (nth_segment 2 path) st else Some (True, st));
     if maybe_probe \<and> \<not> whitelisted
     then Some (None, heuristic_event sec usec ep ''HTTP'' (probe_trail sx path) ''potential proxy probe (suspicious)'' st)
     else if has path ''://'' then absolute_uri env sx host path ep sec usec st
     else if http_method = ''CONNECT'' then connect_method env path ep sec usec st
     else Some (Some (host, path, None), st)
   }"

definition http_target ::
    "'r outside \<Rightarrow> statics \<Rightarrow> string \<Rightarrow> string \<Rightarrow> string \<Rightarrow> endpoints \<Rightarrow> nat \<Rightarrow> nat \<Rightarrow> 'r worker_state \<Rightarrow> (asked option \<times> 'r worker_state) option" where
  "http_target env sx http_method host path ep sec usec st =
     (if use_heuristics (ws_cfg st) \<and> starts_with path ''/''
      then Some (Some (host, path, None),
        if heuristic_enabled ''web_scanning'' (ws_cfg st)
        then st\<lparr>ws_scan := track_path (ep_src ep) (ep_dst ep) (nth_segment 1 path)
               \<lparr>pa_sec = sec, pa_usec = of_nat usec, pa_src_port = ep_src_port ep, pa_dst_port = ep_dst_port ep\<rparr> (ws_scan st)\<rparr>
        else st)
      else proxied env sx http_method host path ep sec usec st)"

section \<open>Requests: the user agent\<close>

definition cache_hit :: "'r worker_state \<Rightarrow> 'r worker_state" where
  "cache_hit st = bump (\<lambda>m. m\<lparr>m_cache_hits := m_cache_hits m + 1\<rparr>) st"

definition cache_miss :: "'r worker_state \<Rightarrow> 'r worker_state" where
  "cache_miss st = bump (\<lambda>m. m\<lparr>m_cache_misses := m_cache_misses m + 1\<rparr>) st"

definition agent_verdict :: "'r outside \<Rightarrow> statics \<Rightarrow> string \<Rightarrow> 'r worker_state \<Rightarrow> (string option \<times> 'r worker_state) option" where
  "agent_verdict env sx user_agent st = do {
     (hit, c) \<leftarrow> lru_get (str_hash (hash_seed env)) user_agent (ws_user_agent st);
     let st = st\<lparr>ws_user_agent := c\<rparr>;
     (case hit of
        Some v \<Rightarrow> Some (v, cache_hit st)
      | None \<Rightarrow> do {
          let st = cache_miss st;
          let computed = classify_user_agent sx user_agent;
          c \<leftarrow> lru_insert (str_hash (hash_seed env)) user_agent computed (ws_user_agent st);
          Some (computed, st\<lparr>ws_user_agent := c\<rparr>)
        })
   }"

definition check_user_agent :: "'r outside \<Rightarrow> statics \<Rightarrow> string \<Rightarrow> endpoints \<Rightarrow> nat \<Rightarrow> nat \<Rightarrow> 'r worker_state \<Rightarrow> 'r worker_state option" where
  "check_user_agent env sx tcp_data ep sec usec st =
     (case (if use_heuristics (ws_cfg st) then header_value_with tcp_data (crlf @ ''User-Agent:'') else None) of
        None \<Rightarrow> Some st
      | Some raw_ua \<Rightarrow>
          (let user_agent = trim (unquote_cow raw_ua)
           in if user_agent = [] then Some st
              else do {
                (result, st) \<leftarrow> agent_verdict env sx user_agent st;
                Some (case result of
                    Some trail \<Rightarrow> heuristic_event sec usec ep ''UA'' trail ''user agent (suspicious)'' st
                  | None \<Rightarrow> st)
              }))"

section \<open>Requests: the trails\<close>

fun first_trail :: "string list \<Rightarrow> 'r trail_db \<Rightarrow> (string \<times> trail_info) option option" where
  "first_trail [] db = Some None"
| "first_trail (candidate # tried) db = do {
     hit \<leftarrow> td_get candidate db;
     (case hit of Some found \<Rightarrow> Some (Some (candidate, found)) | None \<Rightarrow> first_trail tried db)
   }"

definition tried_candidates :: "string \<Rightarrow> string list \<Rightarrow> string list" where
  "tried_candidates host checks = concat (map (\<lambda>check. [check, host @ check]) (filter (\<lambda>check. check \<noteq> []) checks))"

definition matched_trail :: "string \<Rightarrow> string \<Rightarrow> asked \<Rightarrow> string option \<Rightarrow> string \<times> string" where
  "matched_trail candidate http_method a post =
     (let (host, path, url) = a
      in if CHR ''?'' \<notin> set path \<and> CHR ''?'' \<in> set candidate \<and> post \<noteq> None
         then (''HTTP'', host @ ''('' @ path @ '' '' @ [CHR 0x5c] @ ''('' @ http_method @ '' '' @ trim (case post of Some p \<Rightarrow> p | None \<Rightarrow> []) @
                 [CHR 0x5c] @ ''))'')
         else (''URL'', bracket_around (case url of Some u \<Rightarrow> u | None \<Rightarrow> host @ path) candidate))"

text \<open>The lookups of a request; whether one of them was reported.\<close>

definition http_trails ::
    "'r outside \<Rightarrow> statics \<Rightarrow> string \<Rightarrow> asked \<Rightarrow> string option \<Rightarrow> endpoints \<Rightarrow> nat \<Rightarrow> nat \<Rightarrow> 'r worker_state \<Rightarrow> (bool \<times> 'r worker_state) option" where
  "http_trails env sx http_method a post ep sec usec st = do {
     let (host, path, url) = a;
     let body = (case post of Some p \<Rightarrow> p | None \<Rightarrow> []);
     let checks = build_checks (lower_unicode env) (param_value sx) path post (unquote_cow body);
     hit \<leftarrow> first_trail (tried_candidates host checks) (ws_trails st);
     (case hit of
        Some (candidate, info, reference) \<Rightarrow>
          (let (trail_type, trail) = matched_trail candidate http_method a post
           in Some (True, emit_ep sec usec ep ''TCP'' trail_type (FText trail) info reference st))
      | None \<Rightarrow> do {
          whole \<leftarrow> td_get (host @ ''/'') (ws_trails st);
          Some (case whole of
              Some (info, reference) \<Rightarrow> (True, emit_ep sec usec ep ''TCP'' ''URL'' (FText (host @ ''/'')) info reference st)
            | None \<Rightarrow> (False, st))
        })
   }"

section \<open>Requests: the heuristics\<close>

definition emit_http :: "statics \<Rightarrow> bytes \<Rightarrow> nat \<Rightarrow> nat \<Rightarrow> endpoints \<Rightarrow> string \<Rightarrow> string \<Rightarrow> string \<Rightarrow> 'r worker_state \<Rightarrow> 'r worker_state" where
  "emit_http sx packet_bytes sec usec ep trail_type trail info st =
     emit sec usec (http_source_field sx ep packet_bytes) (field_port (ep_src_port ep)) (FText (ip_render (ep_dst ep)))
       (field_port (ep_dst_port ep)) ''TCP'' trail_type (FText trail) info ''(heuristic)'' st"

definition first_desc :: "(string \<times> (string \<Rightarrow> bool)) list \<Rightarrow> string \<Rightarrow> string" where
  "first_desc regexes s = (case find (\<lambda>(_, re). re s) regexes of Some (desc, _) \<Rightarrow> desc | None \<Rightarrow> [])"

definition path_verdict :: "'r outside \<Rightarrow> statics \<Rightarrow> string \<Rightarrow> 'r worker_state \<Rightarrow> (string \<times> 'r worker_state) option" where
  "path_verdict env sx unquoted_path st = do {
     (hit, c) \<leftarrow> lru_get (str_hash (hash_seed env)) unquoted_path (ws_path_findings st);
     let st = st\<lparr>ws_path_findings := c\<rparr>;
     (case hit of
        Some v \<Rightarrow> Some (v, cache_hit st)
      | None \<Rightarrow> do {
          let st = cache_miss st;
          let found = first_desc (suspicious_http_request sx) unquoted_path;
          c \<leftarrow> lru_insert (str_hash (hash_seed env)) unquoted_path found (ws_path_findings st);
          Some (found, st\<lparr>ws_path_findings := c\<rparr>)
        })
   }"

definition post_verdict :: "'r outside \<Rightarrow> statics \<Rightarrow> string \<Rightarrow> 'r worker_state \<Rightarrow> (string \<times> 'r worker_state) option" where
  "post_verdict env sx unquoted_post st = do {
     (hit, c) \<leftarrow> lru_get (str_hash (hash_seed env)) unquoted_post (ws_post_findings st);
     let st = st\<lparr>ws_post_findings := c\<rparr>;
     (case hit of
        Some v \<Rightarrow> Some (v, cache_hit st)
      | None \<Rightarrow> do {
          let st = cache_miss st;
          let found = first_desc (suspicious_http_request sx) unquoted_post;
          c \<leftarrow> lru_insert (str_hash (hash_seed env)) unquoted_post found (ws_post_findings st);
          Some (found, st\<lparr>ws_post_findings := c\<rparr>)
        })
   }"

text \<open>The path against the request expressions; whether it was reported.\<close>

definition check_path_request ::
    "'r outside \<Rightarrow> statics \<Rightarrow> bytes \<Rightarrow> string \<Rightarrow> string \<Rightarrow> endpoints \<Rightarrow> nat \<Rightarrow> nat \<Rightarrow> 'r worker_state \<Rightarrow> (bool \<times> 'r worker_state) option" where
  "check_path_request env sx packet_bytes host path ep sec usec st =
     (let unquoted_path = unquote_cow path
      in if \<not> contains_any pre_condition unquoted_path then Some (False, st)
         else do {
           (found, st) \<leftarrow> path_verdict env sx unquoted_path st;
           let local_data_leakage = (has_sub found ''data leakage'' \<and> is_local (ep_dst ep));
           Some (if found \<noteq> [] \<and> \<not> local_data_leakage
                 then (True, emit_http sx packet_bytes sec usec ep ''URL'' (host @ ''('' @ force_encode path @ '')'') (found @ '' (suspicious)'') st)
                 else (False, st))
         })"

definition check_post_request ::
    "'r outside \<Rightarrow> statics \<Rightarrow> bytes \<Rightarrow> string \<Rightarrow> string \<Rightarrow> string \<Rightarrow> string option \<Rightarrow> endpoints \<Rightarrow> nat \<Rightarrow> nat \<Rightarrow> 'r worker_state \<Rightarrow> (bool \<times> 'r worker_state) option" where
  "check_post_request env sx packet_bytes http_method host path post ep sec usec st =
     (let unquoted_post = unquote_cow (case post of Some p \<Rightarrow> p | None \<Rightarrow> [])
      in if \<not> contains_any pre_condition unquoted_post then Some (False, st)
         else do {
           (found, st) \<leftarrow> post_verdict env sx unquoted_post st;
           let body = trim (case post of Some p \<Rightarrow> force_encode p | None \<Rightarrow> []);
           Some (if found \<noteq> []
                 then (True, emit_http sx packet_bytes sec usec ep ''HTTP''
                   (host @ ''('' @ force_encode path @ '' '' @ [CHR 0x5c] @ ''('' @ http_method @ '' '' @ body @ [CHR 0x5c] @ ''))'')
                   (found @ '' (suspicious)'') st)
                 else (False, st))
         })"

definition check_filename ::
    "'r outside \<Rightarrow> statics \<Rightarrow> bytes \<Rightarrow> asked \<Rightarrow> endpoints \<Rightarrow> nat \<Rightarrow> nat \<Rightarrow> 'r worker_state \<Rightarrow> 'r worker_state" where
  "check_filename env sx packet_bytes a ep sec usec st =
     (let (host, path, url) = a;
          encoded_path = force_encode path
      in if CHR ''.'' \<notin> set encoded_path then st
         else (let (url_path, url_query) = urlparse_path_query (case url of Some u \<Rightarrow> u | None \<Rightarrow> host @ path);
                   filename = last (split_on (CHR ''/'') url_path);
                   (name, extension) = splitext filename;
                   trail = host @ ''('' @ lower_unicode env encoded_path @ '')''
               in if extension \<in> set suspicious_download_extensions \<and> \<not> is_local (ep_dst ep) \<and> CHR ''='' \<notin> set url_query \<and>
                     length (str_chars name) < 10 \<and> \<not> contains_any whitelist_direct_download (lower_unicode env encoded_path)
                  then emit_http sx packet_bytes sec usec ep ''URL'' trail (''direct '' @ extension @ '' download (suspicious)'') st
                  else (case find (\<lambda>(_, re). re filename) (suspicious_http_path sx) of
                      Some (desc, _) \<Rightarrow> emit_http sx packet_bytes sec usec ep ''URL'' trail (desc @ '' (suspicious)'') st
                    | None \<Rightarrow> st)))"

definition http_heuristics ::
    "'r outside \<Rightarrow> statics \<Rightarrow> bytes \<Rightarrow> string \<Rightarrow> asked \<Rightarrow> string option \<Rightarrow> endpoints \<Rightarrow> nat \<Rightarrow> nat \<Rightarrow> 'r worker_state \<Rightarrow> 'r worker_state option" where
  "http_heuristics env sx packet_bytes http_method a post ep sec usec st = do {
     let (host, path, url) = a;
     let whitelisted_path = contains_any whitelist_request_paths (lower_if_upper env (unquote_cow path));
     (reported, st) \<leftarrow> (if whitelisted_path then Some (False, st)
       else check_path_request env sx packet_bytes host path ep sec usec st);
     (reported, st) \<leftarrow> (if whitelisted_path \<or> reported then Some (reported, st)
       else check_post_request env sx packet_bytes http_method host path post ep sec usec st);
     Some (if reported then st else check_filename env sx packet_bytes a ep sec usec st)
   }"

section \<open>Requests\<close>

definition http_lookups ::
    "'r outside \<Rightarrow> statics \<Rightarrow> bytes \<Rightarrow> string \<Rightarrow> asked \<Rightarrow> string option \<Rightarrow> endpoints \<Rightarrow> nat \<Rightarrow> nat \<Rightarrow> 'r worker_state \<Rightarrow> 'r worker_state option" where
  "http_lookups env sx packet_bytes http_method a post ep sec usec st = do {
     let (host, path, url) = a;
     let host_labels = (of_nat (length (filter (\<lambda>c. c = CHR ''.'') host) + 1) :: u32);
     (depth, st) \<leftarrow> check_domain_whitelist_depth env host st;
     if depth \<ge> host_labels then Some st
     else do {
       let path = (if has path ''//'' then replace_sub path ''//'' ''/'' else path);
       (reported, st) \<leftarrow> http_trails env sx http_method (host, path, url) post ep sec usec st;
       if reported \<or> \<not> use_heuristics (ws_cfg st) \<or> depth > 0 then Some st
       else http_heuristics env sx packet_bytes http_method (host, path, url) post ep sec usec st
     }
   }"

definition http_request ::
    "'r outside \<Rightarrow> statics \<Rightarrow> bytes \<Rightarrow> string \<Rightarrow> endpoints \<Rightarrow> nat \<Rightarrow> nat \<Rightarrow> 'r worker_state \<Rightarrow> 'r worker_state option" where
  "http_request env sx packet_bytes tcp_data ep sec usec st =
     (case request_line tcp_data of
        None \<Rightarrow> Some st
      | Some line \<Rightarrow> do {
          let path = lower_if_upper env (rq_path line);
          (host, st) \<leftarrow> http_host env sx tcp_data path ep sec usec st;
          (case host of
             None \<Rightarrow> Some st
           | Some host \<Rightarrow> do {
               let post = map_option (\<lambda>i. drop (i + 4) tcp_data) (find_sub tcp_data (crlf @ crlf));
               (a, st) \<leftarrow> http_target env sx (rq_method line) host path ep sec usec st;
               (case a of
                  None \<Rightarrow> Some st
                | Some a \<Rightarrow> do {
                    st \<leftarrow> check_user_agent env sx tcp_data ep sec usec st;
                    http_lookups env sx packet_bytes (rq_method line) a post ep sec usec st
                  })
             })
        })"

section \<open>Segments\<close>

definition stealth_flags :: "u8 set" where "stealth_flags = {0x00, 0x01, 0x29}"

definition http_scan_crossover :: nat where "http_scan_crossover = 24"

definition contains_http_marker :: "bytes \<Rightarrow> bool" where
  "contains_http_marker payload =
     (if length payload < 5 then False
      else if length payload < http_scan_crossover
      then list_ex (\<lambda>i. take 5 (drop i (bytes_str payload)) = ''HTTP/'') [0..<length payload - 4]
      else find_sub (bytes_str payload) ''HTTP/'' \<noteq> None)"

definition tcp ::
    "'r outside \<Rightarrow> statics \<Rightarrow> bytes \<Rightarrow> bytes \<Rightarrow> ip_header \<Rightarrow> nat \<Rightarrow> nat \<Rightarrow> 'r worker_state \<Rightarrow> 'r worker_state option" where
  "tcp env sx packet_bytes ip_data header sec usec st =
     (case parse_tcp ip_data (ih_header_len header) of
        None \<Rightarrow> Some (truncated st)
      | Some tcph \<Rightarrow>
          (let ep = \<lparr>ep_src = ih_src header, ep_src_port = th_src_port tcph, ep_dst = ih_dst header, ep_dst_port = th_dst_port tcph\<rparr>;
               payload = tcp_payload tcph ip_data (ih_header_len header)
           in if th_flags tcph = 2 then syn sec usec ep st
              else if use_heuristics (ws_cfg st) \<and> th_flags tcph \<in> stealth_flags \<and> \<not> is_localhost (ep_dst ep) \<and>
                      heuristic_enabled ''port_scanning'' (ws_cfg st)
              then Some (st\<lparr>ws_scan := track_port (ep_src ep) (ep_dst ep) (ep_dst_port ep) (port_detail_of sec usec ep) (ws_scan st)\<rparr>)
              else if \<not> contains_http_marker payload then Some st
              else (let tcp_data = (if utf8_valid (bytes_str payload) then bytes_str payload else lossy (bytes_str payload));
                        st = (if starts_with tcp_data ''HTTP/'' then http_response env sx tcp_data ep sec usec st else st)
                    in if find_sub tcp_data '' HTTP/'' \<noteq> None
                       then http_request env sx packet_bytes tcp_data ep sec usec st else Some st)))"

section \<open>Promises\<close>

declare One_nat_def [simp del]

text \<open>An event of an HTTP message: its flow, the source perhaps with the client a header names.\<close>

definition http_event :: "nat \<Rightarrow> nat \<Rightarrow> endpoints \<Rightarrow> event \<Rightarrow> bool" where
  "http_event sec usec ep e \<longleftrightarrow> ev_sec e = sec \<and> ev_usec e = usec \<and> starts_with (ev_src_ip e) (ip_render (ep_src ep)) \<and>
     ev_dst_ip e = FText (ip_render (ep_dst ep)) \<and> ev_proto e = FText ''TCP''"

lemma http_of_flow: "at_flow sec usec ep ''TCP'' e \<Longrightarrow> http_event sec usec ep e"
  by (simp add: at_flow_def http_event_def starts_with_def)

lemma heuristic_event_writes:
  assumes "worker_ok env st" "n > 0"
  shows "writes env (http_event sec usec ep) n st (heuristic_event sec usec ep trail_type trail info st)"
  unfolding heuristic_event_def
  by (rule writes_emit_ep [OF assms(1) _ assms(2)]) (simp add: http_event_def starts_with_def)

lemma emit_ep_writes:
  assumes "worker_ok env st" "n > 0"
  shows "writes env (http_event sec usec ep) n st (emit_ep sec usec ep ''TCP'' trail_type trail info reference st)"
  by (rule writes_emit_ep [OF assms(1) _ assms(2)]) (simp add: http_event_def starts_with_def)

lemma source_field_starts: "starts_with (http_source_field sx ep packet_bytes) (ip_render (ep_src ep))"
  by (auto simp: http_source_field_def Let_def starts_with_def split: option.split)

lemma emit_http_writes:
  assumes "worker_ok env st" "n > 0"
  shows "writes env (http_event sec usec ep) n st (emit_http sx packet_bytes sec usec ep trail_type trail info st)"
proof -
  have "worker_ok env (emit_http sx packet_bytes sec usec ep trail_type trail info st)"
    using assms(1) unfolding worker_ok_def emit_http_def emit_def Let_def bump_def by (simp, subst domain_ok_cong [where st = st]) simp_all
  then show ?thesis
    using assms(2) source_field_starts by (simp add: writes_def emit_http_def emit_def Let_def bump_def http_event_def)
qed

lemma check_domain_http:
  "worker_ok env st \<Longrightarrow> lands env (http_event sec usec ep) 1 st (check_domain env q sec usec ep ''TCP'' st)"
  by (rule lands_events [OF check_domain_lands http_of_flow])

lemma yields_pair: "lands env P n st r \<Longrightarrow> yields env P n st (map_option (Pair x) r)"
  by (auto simp: lands_def yields_def)

lemma response_writes:
  assumes "worker_ok env st"
  shows "writes env (http_event sec usec ep) 2 st (http_response env sx tcp_data ep sec usec st)"
proof -
  define st1 where "st1 = (case generic_sinkhole sx (concat (take 2000 (str_chars tcp_data))) of
      Some m \<Rightarrow> heuristic_event sec usec ep ''HTTP'' m ''sinkhole response (malware)'' st
    | None \<Rightarrow> (case seized_title sx tcp_data of
        Some title \<Rightarrow> heuristic_event sec usec ep ''HTTP'' title ''seized domain (suspicious)'' st
      | None \<Rightarrow> st))"
  have w: "writes env (http_event sec usec ep) 1 st st1"
    using assms by (auto simp: st1_def intro!: heuristic_event_writes writes_refl split: option.split)
  have "writes env (http_event sec usec ep) 2 st (heuristic_event sec usec ep ''HTTP'' t i st1)" for t i
    using writes_trans [OF w heuristic_event_writes [OF writes_ok [OF w]], of 1 2] by simp
  then show ?thesis
    using writes_mono [OF w, of 2] by (auto simp: http_response_def Let_def st1_def [symmetric] split: option.split)
qed

lemma named_host_yields:
  assumes "worker_ok env st"
  shows "yields env (http_event sec usec ep) 1 st (named_host env sx raw_host path ep sec usec st)"
proof -
  define host where "host = lower_if_upper env (strip_suffix_80 (trim raw_host))"
  have dropper: "yields env (http_event sec usec ep) 1 st (let (prefix, st) = worker_local_prefix st;
        from_us = (is_local (ep_src ep) \<or> starts_with (ip_render (ep_src ep)) prefix)
      in if from_us \<and> \<not> starts_with (ip_render (ep_dst ep)) prefix
         then Some (None, heuristic_event sec usec ep ''HTTP'' (''('' @ host @ '')'' @ path) ''potential iot-malware download (suspicious)'' st)
         else Some (Some host, st))"
  proof -
    obtain prefix st1 where p: "worker_local_prefix st = (prefix, st1)" by fastforce
    have w: "writes env (http_event sec usec ep) n st st1" for n
      using local_prefix_writes [OF assms, of "http_event sec usec ep" n] p by simp
    have "writes env (http_event sec usec ep) 1 st (heuristic_event sec usec ep t r i st1)" for t r i
      by (rule writes_trans [OF w [of 0] heuristic_event_writes [OF writes_ok [OF w [of 0]]], of 1]) simp_all
    then show ?thesis unfolding p by (simp add: Let_def yields_Some w)
  qed
  show ?thesis
    unfolding named_host_def Let_def host_def [symmetric]
    by (rule bind_value_yield [OF worker_get_ip [OF assms]])
      (auto simp: dropper [unfolded Let_def] intro!: yields_Some emit_ep_writes assms yields_pair check_domain_http writes_refl split: option.split)
qed

lemma http_host_yields:
  assumes "worker_ok env st"
  shows "yields env (http_event sec usec ep) 1 st (http_host env sx tcp_data path ep sec usec st)"
  using named_host_yields [OF assms] heuristic_event_writes [OF assms] writes_refl [OF assms]
  by (auto simp: http_host_def Let_def intro!: yields_Some split: option.split)

lemma uri_yields:
  assumes "worker_ok env st"
  shows "yields env (http_event sec usec ep) 1 st (absolute_uri env sx host path ep sec usec st)"
    "yields env (http_event sec usec ep) 1 st (connect_method env path ep sec usec st)"
  using assms
  by (auto simp: absolute_uri_def connect_method_def Let_def split_beta intro!: yields_Some writes_refl yields_pair check_domain_http)

lemma proxied_yields:
  assumes "worker_ok env st"
  shows "yields env (http_event sec usec ep) 1 st (proxied env sx http_method host path ep sec usec st)"
  unfolding proxied_def Let_def
  by (rule yields_bind [where m = 0 and n = 1])
    (auto intro!: yields_if whitelisted_yields assms yields_Some writes_refl heuristic_event_writes uri_yields dest: writes_ok)

lemma http_target_yields:
  assumes "worker_ok env st"
  shows "yields env (http_event sec usec ep) 1 st (http_target env sx http_method host path ep sec usec st)"
  using writes_fields(4) [OF assms scan_room_calls(14) [OF worker_scan [OF assms]]] writes_refl [OF assms]
  by (auto simp: http_target_def intro!: yields_Some proxied_yields [OF assms])

lemma bump_writes:
  assumes "writes env P n st st1"
  shows "writes env P n st (bump f st1)"
  by (rule writes_trans [OF assms writes_fields(10) [OF writes_ok [OF assms], where n = 0]]) simp

lemma bump_fields: "ws_user_agent (bump f st) = ws_user_agent st" "ws_path_findings (bump f st) = ws_path_findings st"
  "ws_post_findings (bump f st) = ws_post_findings st"
  by (simp_all add: bump_def)

lemma agent_verdict_yields:
  assumes "worker_ok env st"
  shows "yields env P n st (agent_verdict env sx user_agent st)"
proof -
  have "lru_sound (hash_seed env) (ws_user_agent st)" using assms by (simp add: worker_ok_def)
  then obtain hit c where c: "lru_get (str_hash (hash_seed env)) user_agent (ws_user_agent st) = Some (hit, c)" "lru_sound (hash_seed env) c"
    using sound_get by blast
  obtain c' where c': "lru_insert (str_hash (hash_seed env)) user_agent (classify_user_agent sx user_agent) c = Some c'"
      "lru_sound (hash_seed env) c'"
    using sound_put [OF c(2)] by blast
  have w: "writes env P n st (bump f (st\<lparr>ws_user_agent := c\<rparr>))" for f by (rule bump_writes [OF writes_fields(7) [OF assms c(2)]])
  have "(bump f (st\<lparr>ws_user_agent := c\<rparr>))\<lparr>ws_user_agent := c'\<rparr> = bump f (st\<lparr>ws_user_agent := c'\<rparr>)" for f
    by (rule worker_state.equality) (simp_all add: bump_def)
  then have "writes env P n st ((bump f (st\<lparr>ws_user_agent := c\<rparr>))\<lparr>ws_user_agent := c'\<rparr>)" for f
    using bump_writes [OF writes_fields(7) [OF assms c'(2)]] by simp
  then show ?thesis
    using w c(1) c'(1) by (cases hit) (simp_all add: agent_verdict_def cache_hit_def cache_miss_def yields_Some Let_def bump_fields)
qed

lemma path_verdict_yields:
  assumes "worker_ok env st"
  shows "yields env P n st (path_verdict env sx q st)"
proof -
  have "lru_sound (hash_seed env) (ws_path_findings st)" using assms by (simp add: worker_ok_def)
  then obtain hit c where c: "lru_get (str_hash (hash_seed env)) q (ws_path_findings st) = Some (hit, c)" "lru_sound (hash_seed env) c"
    using sound_get by blast
  obtain c' where c': "lru_insert (str_hash (hash_seed env)) q (first_desc (suspicious_http_request sx) q) c = Some c'"
      "lru_sound (hash_seed env) c'"
    using sound_put [OF c(2)] by blast
  have w: "writes env P n st (bump f (st\<lparr>ws_path_findings := c\<rparr>))" for f by (rule bump_writes [OF writes_fields(8) [OF assms c(2)]])
  have "(bump f (st\<lparr>ws_path_findings := c\<rparr>))\<lparr>ws_path_findings := c'\<rparr> = bump f (st\<lparr>ws_path_findings := c'\<rparr>)" for f
    by (rule worker_state.equality) (simp_all add: bump_def)
  then have "writes env P n st ((bump f (st\<lparr>ws_path_findings := c\<rparr>))\<lparr>ws_path_findings := c'\<rparr>)" for f
    using bump_writes [OF writes_fields(8) [OF assms c'(2)]] by simp
  then show ?thesis
    using w c(1) c'(1) by (cases hit) (simp_all add: path_verdict_def cache_hit_def cache_miss_def yields_Some Let_def bump_fields)
qed

lemma post_verdict_yields:
  assumes "worker_ok env st"
  shows "yields env P n st (post_verdict env sx q st)"
proof -
  have "lru_sound (hash_seed env) (ws_post_findings st)" using assms by (simp add: worker_ok_def)
  then obtain hit c where c: "lru_get (str_hash (hash_seed env)) q (ws_post_findings st) = Some (hit, c)" "lru_sound (hash_seed env) c"
    using sound_get by blast
  obtain c' where c': "lru_insert (str_hash (hash_seed env)) q (first_desc (suspicious_http_request sx) q) c = Some c'"
      "lru_sound (hash_seed env) c'"
    using sound_put [OF c(2)] by blast
  have w: "writes env P n st (bump f (st\<lparr>ws_post_findings := c\<rparr>))" for f by (rule bump_writes [OF writes_fields(9) [OF assms c(2)]])
  have "(bump f (st\<lparr>ws_post_findings := c\<rparr>))\<lparr>ws_post_findings := c'\<rparr> = bump f (st\<lparr>ws_post_findings := c'\<rparr>)" for f
    by (rule worker_state.equality) (simp_all add: bump_def)
  then have "writes env P n st ((bump f (st\<lparr>ws_post_findings := c\<rparr>))\<lparr>ws_post_findings := c'\<rparr>)" for f
    using bump_writes [OF writes_fields(9) [OF assms c'(2)]] by simp
  then show ?thesis
    using w c(1) c'(1) by (cases hit) (simp_all add: post_verdict_def cache_hit_def cache_miss_def yields_Some Let_def bump_fields)
qed

lemma check_user_agent_lands:
  assumes "worker_ok env st"
  shows "lands env (http_event sec usec ep) 1 st (check_user_agent env sx tcp_data ep sec usec st)"
  unfolding check_user_agent_def Let_def
  by (intro lands_option lands_if lands_Some writes_refl assms lands_bind_yield [OF agent_verdict_yields [OF assms, where n = 0], where n = 1])
    (auto intro!: lands_Some heuristic_event_writes writes_refl dest: writes_ok split: option.split)

lemma first_trail_total: "worker_ok env st \<Longrightarrow> \<exists>r. first_trail cs (ws_trails st) = Some r"
proof (induction cs)
  case (Cons c cs)
  obtain hit where "td_get c (ws_trails st) = Some hit" using worker_td_get [OF Cons.prems] by blast
  then show ?case using Cons by (cases hit) auto
qed simp

text \<open>A step that says whether it has reported the request, and writes nothing when it has not.\<close>

definition reports :: "'r outside \<Rightarrow> (event \<Rightarrow> bool) \<Rightarrow> 'r worker_state \<Rightarrow> (bool \<times> 'r worker_state) option \<Rightarrow> bool" where
  "reports env P st r \<longleftrightarrow> (\<exists>reported st'. r = Some (reported, st') \<and> writes env P (if reported then 1 else 0) st st')"

lemma reports_False: "writes env P 0 st st' \<Longrightarrow> reports env P st (Some (False, st'))"
  unfolding reports_def by (rule exI [of _ False]) simp

lemma reports_True: "writes env P 1 st st' \<Longrightarrow> reports env P st (Some (True, st'))"
  unfolding reports_def by (rule exI [of _ True]) simp

lemma reports_after:
  assumes "writes env P 0 st st1" "reports env P st1 r"
  shows "reports env P st r"
proof -
  obtain reported st' where r: "r = Some (reported, st')" "writes env P (if reported then 1 else 0) st1 st'"
    using assms(2) by (auto simp: reports_def)
  have "writes env P (if reported then 1 else 0) st st'" by (rule writes_trans [OF assms(1) r(2)]) simp
  then show ?thesis using r(1) by (auto simp: reports_def)
qed

lemma reports_bind:
  assumes "yields env P 0 st r" "\<And>x st'. writes env P 0 st st' \<Longrightarrow> reports env P st' (f (x, st'))"
  shows "reports env P st (Option.bind r f)"
proof -
  obtain x st' where r: "r = Some (x, st')" "writes env P 0 st st'" using assms(1) by (auto simp: yields_def)
  show ?thesis using reports_after [OF r(2) assms(2) [OF r(2)]] by (simp add: r(1))
qed

lemma http_trails_yields:
  assumes "worker_ok env st"
  shows "reports env (http_event sec usec ep) st (http_trails env sx http_method a post ep sec usec st)"
proof -
  obtain host path url where a: "a = (host, path, url)" by (cases a)
  define checks where "checks = build_checks (lower_unicode env) (param_value sx) path post (unquote_cow (case post of Some p \<Rightarrow> p | None \<Rightarrow> []))"
  obtain hit where hit: "first_trail (tried_candidates host checks) (ws_trails st) = Some hit" using first_trail_total [OF assms] by blast
  obtain whole where whole: "td_get (host @ ''/'') (ws_trails st) = Some whole" using worker_td_get [OF assms] by blast
  have e: "writes env (http_event sec usec ep) 1 st (emit_ep sec usec ep ''TCP'' tt (FText tr) i r st)" for tt tr i r
    by (rule emit_ep_writes [OF assms]) simp
  show ?thesis
    using e writes_refl [OF assms]
    by (cases hit; cases whole) (auto simp: http_trails_def a Let_def checks_def [symmetric] hit whole split_beta reports_def)
qed

lemma check_path_request_reports:
  assumes "worker_ok env st"
  shows "reports env (http_event sec usec ep) st (check_path_request env sx packet_bytes host path ep sec usec st)"
proof -
  have "reports env (http_event sec usec ep) st (Option.bind (path_verdict env sx q st) (\<lambda>(found, st).
      Some (if found \<noteq> [] \<and> \<not> (has_sub found ''data leakage'' \<and> is_local (ep_dst ep))
            then (True, emit_http sx packet_bytes sec usec ep ''URL'' t (found @ '' (suspicious)'') st) else (False, st))))" for q t
    by (rule reports_bind [OF path_verdict_yields [OF assms]])
      (auto intro!: reports_True reports_False emit_http_writes writes_refl dest: writes_ok)
  then show ?thesis using reports_False [OF writes_refl [OF assms]] by (simp add: check_path_request_def Let_def)
qed

lemma check_post_request_reports:
  assumes "worker_ok env st"
  shows "reports env (http_event sec usec ep) st (check_post_request env sx packet_bytes http_method host path post ep sec usec st)"
proof -
  have "reports env (http_event sec usec ep) st (Option.bind (post_verdict env sx q st) (\<lambda>(found, st).
      Some (if found \<noteq> [] then (True, emit_http sx packet_bytes sec usec ep ''HTTP'' t (found @ '' (suspicious)'') st) else (False, st))))" for q t
    by (rule reports_bind [OF post_verdict_yields [OF assms]])
      (auto intro!: reports_True reports_False emit_http_writes writes_refl dest: writes_ok)
  then show ?thesis using reports_False [OF writes_refl [OF assms]] by (simp add: check_post_request_def Let_def)
qed

lemma check_filename_writes:
  assumes "worker_ok env st"
  shows "writes env (http_event sec usec ep) 1 st (check_filename env sx packet_bytes a ep sec usec st)"
  using emit_http_writes [OF assms, of 1] writes_refl [OF assms]
  by (auto simp: check_filename_def Let_def split_beta split: option.split)

lemma http_heuristics_lands:
  assumes "worker_ok env st"
  shows "lands env (http_event sec usec ep) 1 st (http_heuristics env sx packet_bytes http_method a post ep sec usec st)"
proof -
  obtain host path url where a: "a = (host, path, url)" by (cases a)
  define whitelisted where "whitelisted = contains_any whitelist_request_paths (lower_if_upper env (unquote_cow path))"
  have "reports env (http_event sec usec ep) st (if whitelisted then Some (False, st) else check_path_request env sx packet_bytes host path ep sec usec st)"
    using reports_False [OF writes_refl [OF assms]] check_path_request_reports [OF assms] by simp
  then obtain r1 st1 where r1: "(if whitelisted then Some (False, st) else check_path_request env sx packet_bytes host path ep sec usec st) = Some (r1, st1)"
    "writes env (http_event sec usec ep) (if r1 then 1 else 0) st st1"
    by (auto simp: reports_def)
  have "\<exists>r2 st2. (if whitelisted \<or> r1 then Some (r1, st1)
      else check_post_request env sx packet_bytes http_method host path post ep sec usec st1) = Some (r2, st2) \<and>
      writes env (http_event sec usec ep) (if r2 then 1 else 0) st st2"
  proof (cases "whitelisted \<or> r1")
    case False
    then have w: "writes env (http_event sec usec ep) 0 st st1" using r1(2) by simp
    show ?thesis
      using reports_after [OF w check_post_request_reports [OF writes_ok [OF w]]] False by (auto simp: reports_def)
  qed (use r1(2) in auto)
  then obtain r2 st2 where r2: "(if whitelisted \<or> r1 then Some (r1, st1)
      else check_post_request env sx packet_bytes http_method host path post ep sec usec st1) = Some (r2, st2)"
    "writes env (http_event sec usec ep) (if r2 then 1 else 0) st st2"
    by blast
  have "writes env (http_event sec usec ep) 1 st (if r2 then st2 else check_filename env sx packet_bytes a ep sec usec st2)"
  proof (cases r2)
    case False
    then have w: "writes env (http_event sec usec ep) 0 st st2" using r2(2) by simp
    show ?thesis using writes_trans [OF w check_filename_writes [OF writes_ok [OF w]]] False by simp
  qed (use r2(2) in simp)
  then show ?thesis
    unfolding http_heuristics_def a Let_def prod.case whitelisted_def [symmetric] r1(1) Option.bind.simps r2(1) by (rule lands_Some)
qed

lemma http_lookups_lands:
  assumes "worker_ok env st"
  shows "lands env (http_event sec usec ep) 1 st (http_lookups env sx packet_bytes http_method a post ep sec usec st)"
proof -
  obtain host path url where a: "a = (host, path, url)" by (cases a)
  obtain st1 where d: "check_domain_whitelist_depth env host st = Some (whitelist_depth (ws_whitelist st) host, st1)"
    "writes env (http_event sec usec ep) 0 st st1"
    using depth_yields [OF assms] by blast
  note ok1 = writes_ok [OF d(2)]
  define p where "p = (if has path ''//'' then replace_sub path ''//'' ''/'' else path)"
  obtain reported st2 where t: "http_trails env sx http_method (host, p, url) post ep sec usec st1 = Some (reported, st2)"
    "writes env (http_event sec usec ep) (if reported then 1 else 0) st1 st2"
    using http_trails_yields [OF ok1] by (fastforce simp: reports_def)
  have rest: "lands env (http_event sec usec ep) 1 st1 (if reported \<or> quiet then Some st2
      else http_heuristics env sx packet_bytes http_method (host, p, url) post ep sec usec st2)" for quiet
  proof (cases reported)
    case False
    then have w: "writes env (http_event sec usec ep) 0 st1 st2" using t(2) by simp
    show ?thesis
      using lands_let_st [OF w http_heuristics_lands [OF writes_ok [OF w]]] writes_mono [OF w, of 1] False by (auto intro: lands_Some)
  qed (use t(2) in \<open>simp add: lands_Some\<close>)
  show ?thesis
    unfolding http_lookups_def a Let_def prod.case d(1) Option.bind.simps p_def [symmetric] t(1) disj_assoc
    by (intro lands_let_st [OF d(2)] lands_if lands_Some writes_refl [OF ok1] rest [unfolded disj_assoc])
qed

lemma http_request_lands:
  assumes "worker_ok env st"
  shows "lands env (http_event sec usec ep) 4 st (http_request env sx packet_bytes tcp_data ep sec usec st)"
proof -
  have rest: "lands env (http_event sec usec ep) 2 st (do {
      st \<leftarrow> check_user_agent env sx tcp_data ep sec usec st;
      http_lookups env sx packet_bytes http_method a post ep sec usec st })" if "worker_ok env st" for st :: "'a worker_state" and http_method a post
    by (rule lands_bind [OF check_user_agent_lands [OF that] http_lookups_lands]) (auto dest: writes_ok)
  have target: "lands env (http_event sec usec ep) 3 st (do {
      (a, st) \<leftarrow> http_target env sx http_method host path ep sec usec st;
      (case a of None \<Rightarrow> Some st
       | Some a \<Rightarrow> do {
           st \<leftarrow> check_user_agent env sx tcp_data ep sec usec st;
           http_lookups env sx packet_bytes http_method a post ep sec usec st }) })"
    if "worker_ok env st" for st :: "'a worker_state" and http_method host path post
    by (rule lands_bind_yield [OF http_target_yields [OF that], where n = 2])
      (auto intro!: lands_option lands_Some writes_refl rest dest: writes_ok)
  show ?thesis
    unfolding http_request_def Let_def
    by (intro lands_option lands_Some writes_refl assms lands_bind_yield [OF http_host_yields [OF assms], where n = 3])
      (auto intro!: lands_option lands_Some writes_refl target dest: writes_ok)
qed

lemma tcp_lands:
  assumes "worker_ok env st"
  shows "\<exists>sp dp. lands env (http_event sec usec \<lparr>ep_src = ih_src header, ep_src_port = sp, ep_dst = ih_dst header, ep_dst_port = dp\<rparr>) 6 st
    (tcp env sx packet_bytes ip_data header sec usec st)"
proof (cases "parse_tcp ip_data (ih_header_len header)")
  case None
  then show ?thesis using writes_fields(10) [OF assms] by (simp add: tcp_def truncated_def lands_Some)
next
  case (Some tcph)
  define ep where "ep = \<lparr>ep_src = ih_src header, ep_src_port = th_src_port tcph, ep_dst = ih_dst header, ep_dst_port = th_dst_port tcph\<rparr>"
  have s: "lands env (http_event sec usec ep) 6 st (syn sec usec ep st)"
    by (rule lands_mono [OF lands_events [OF syn_lands [OF assms] http_of_flow]]) simp_all
  have t: "writes env (http_event sec usec ep) 6 st (st\<lparr>ws_scan := track_port a b p d (ws_scan st)\<rparr>)" for a b p d
    by (rule writes_fields(4) [OF assms scan_room_calls(12) [OF worker_scan [OF assms]]])
  have h: "lands env (http_event sec usec ep) 6 st
      (if q then http_request env sx packet_bytes tcp_data ep sec usec (if b then http_response env sx tcp_data ep sec usec st else st)
       else Some (if b then http_response env sx tcp_data ep sec usec st else st))" for q b tcp_data
  proof -
    have w: "writes env (http_event sec usec ep) 2 st (if b then http_response env sx tcp_data ep sec usec st else st)"
      using response_writes [OF assms] writes_refl [OF assms] by simp
    show ?thesis
      by (rule lands_if, rule lands_after [OF w http_request_lands [OF writes_ok [OF w]]], simp, rule lands_Some, rule writes_mono [OF w]) simp
  qed
  have "lands env (http_event sec usec ep) 6 st (tcp env sx packet_bytes ip_data header sec usec st)"
    unfolding tcp_def Some option.case Let_def ep_def [symmetric]
    by (intro lands_if s lands_Some t writes_refl [OF assms] h)
  then show ?thesis unfolding ep_def by blast
qed

end
