(* ===== verification/Packetpath.thy ===== *)
theory Packetpath
  imports Request
begin

text \<open>
  The entry of the packet path (\<open>process_packet\<close> and \<open>process_layer\<close> of \<open>process.rs\<close>): the clock tick, the IP header,
  the dispatch on its protocol and the packets inside tunnels. The loop over the depths is the recursion of
  \<open>layer_walk\<close> over the list of them.
\<close>

section \<open>One layer\<close>

definition clock_tick :: "nat \<Rightarrow> nat \<Rightarrow> nat \<Rightarrow> 'r worker_state \<Rightarrow> 'r worker_state" where
  "clock_tick sec usec depth st =
     (let st = st\<lparr>ws_last_sec := sec\<rparr>
      in if use_heuristics (ws_cfg st) \<and> depth = 0
         then (if sec > ws_connect_sec st then heuristics_sweep sec usec st else st\<lparr>ws_connect_sec := sec\<rparr>)
         else st)"

definition dropped :: "drop_reason \<Rightarrow> 'r worker_state \<Rightarrow> 'r worker_state" where
  "dropped reason st =
     (case reason of
        NotIp \<Rightarrow> ignored st
      | Fragment \<Rightarrow> bump (\<lambda>m. m\<lparr>m_packets_fragment := m_packets_fragment m + 1\<rparr>) st
      | Truncated \<Rightarrow> truncated st)"

definition dispatch ::
    "crypto \<Rightarrow> 'r outside \<Rightarrow> statics \<Rightarrow> bytes \<Rightarrow> bytes \<Rightarrow> ip_header \<Rightarrow> nat \<Rightarrow> nat \<Rightarrow> 'r worker_state \<Rightarrow> 'r worker_state option" where
  "dispatch cr env sx packet_bytes ip_data header sec usec st = do {
     st \<leftarrow> (if check_tls_sni (ws_cfg st) \<or> check_tls_fingerprints (ws_cfg st)
           then handshake_sni cr env ip_data header sec usec st else Some st);
     if ih_protocol header = 6 then tcp env sx packet_bytes ip_data header sec usec st
     else if ih_protocol header = 17 then udp env ip_data header sec usec st
     else other_proto env ip_data header (ih_protocol header) sec usec st
   }"

definition process_layer ::
    "crypto \<Rightarrow> 'r outside \<Rightarrow> statics \<Rightarrow> bytes \<Rightarrow> nat \<Rightarrow> nat \<Rightarrow> nat \<Rightarrow> nat \<Rightarrow> 'r worker_state \<Rightarrow> (nat option \<times> 'r worker_state) option" where
  "process_layer cr env sx packet_bytes sec usec ipoff depth st =
     (let st = clock_tick sec usec depth st
      in case b_from packet_bytes ipoff of
           None \<Rightarrow> Some (None, ignored st)
         | Some ip_data \<Rightarrow> do {
             parsed \<leftarrow> parse_ip ip_data;
             (case parsed of
                Inl reason \<Rightarrow> Some (None, dropped reason st)
              | Inr header \<Rightarrow> do {
                  let st = bump (\<lambda>m. m\<lparr>m_packets_processed := m_packets_processed m + 1\<rparr>) st;
                  ms \<leftarrow> observe_conn (ih_src header) (ih_dst header) sec (ws_meta st);
                  st \<leftarrow> dispatch cr env sx packet_bytes ip_data header sec usec (st\<lparr>ws_meta := ms\<rparr>);
                  let inner = (if depth < max_tunnel_depth \<and> may_encapsulate (ih_protocol header)
                               then inner_ip_offset packet_bytes ipoff header else None);
                  Some (inner, if inner = None then st
                    else bump (\<lambda>m. m\<lparr>m_packets_decapsulated := m_packets_decapsulated m + 1\<rparr>) st)
                })
           })"

section \<open>A packet and a stream of them\<close>

fun layer_walk ::
    "crypto \<Rightarrow> 'r outside \<Rightarrow> statics \<Rightarrow> bytes \<Rightarrow> nat \<Rightarrow> nat \<Rightarrow> nat \<Rightarrow> nat list \<Rightarrow> 'r worker_state \<Rightarrow> 'r worker_state option" where
  "layer_walk cr env sx packet_bytes sec usec offset [] st = Some st"
| "layer_walk cr env sx packet_bytes sec usec offset (depth # depths) st = do {
     (inner, st) \<leftarrow> process_layer cr env sx packet_bytes sec usec offset depth st;
     (case inner of
        Some inner \<Rightarrow> layer_walk cr env sx packet_bytes sec usec inner depths st
      | None \<Rightarrow> Some st)
   }"

definition process_packet ::
    "crypto \<Rightarrow> 'r outside \<Rightarrow> statics \<Rightarrow> bytes \<Rightarrow> nat \<Rightarrow> nat \<Rightarrow> nat \<Rightarrow> 'r worker_state \<Rightarrow> 'r worker_state option" where
  "process_packet cr env sx packet_bytes sec usec ipoff st =
     layer_walk cr env sx packet_bytes sec usec ipoff [0..<max_tunnel_depth + 1] st"

section \<open>What a packet may report\<close>

definition from_header :: "nat \<Rightarrow> nat \<Rightarrow> ip_header \<Rightarrow> event \<Rightarrow> bool" where
  "from_header sec usec header e \<longleftrightarrow> ev_sec e = sec \<and> ev_usec e = usec \<and>
     ((starts_with (ev_src_ip e) (ip_render (ih_src header)) \<and> ev_dst_ip e = FText (ip_render (ih_dst header))) \<or>
      (ev_src_ip e = ip_render (ih_dst header) \<and> ev_dst_ip e = FText (ip_render (ih_src header))))"

text \<open>An event of a packet stands for a header in it, or is one of the sweep.\<close>

definition of_packet :: "nat \<Rightarrow> nat \<Rightarrow> bytes \<Rightarrow> event \<Rightarrow> bool" where
  "of_packet sec usec packet e \<longleftrightarrow>
     (\<exists>off header. parse_ip (drop off packet) = Some (Inr header) \<and> from_header sec usec header e)"

lemma from_header_events:
  "handshake_event sec usec header e \<Longrightarrow> from_header sec usec header e"
  "packet_event sec usec header e \<Longrightarrow> from_header sec usec header e"
  "http_event sec usec \<lparr>ep_src = ih_src header, ep_src_port = sp, ep_dst = ih_dst header, ep_dst_port = dp\<rparr> e \<Longrightarrow> from_header sec usec header e"
  by (auto simp: from_header_def handshake_event_def packet_event_def http_event_def starts_with_def)

lemma writes_events: "writes env P n st st' \<Longrightarrow> (\<And>e. P e \<Longrightarrow> Q e) \<Longrightarrow> writes env Q n st st'"
  by (auto simp: writes_def list_all_iff)

lemma dispatch_lands:
  assumes "worker_ok env st" "crypto_ok cr" "lower_sound env"
  shows "lands env (from_header sec usec header) 9 st (dispatch cr env sx packet_bytes ip_data header sec usec st)"
proof -
  have "lands env (from_header sec usec header) 3 st (if check_tls_sni (ws_cfg st) \<or> check_tls_fingerprints (ws_cfg st)
      then handshake_sni cr env ip_data header sec usec st else Some st)"
    by (intro lands_if lands_quiet assms(1) lands_events [OF handshake_sni_lands [OF assms(1,2)]] from_header_events(1))
  then obtain s where s: "(if check_tls_sni (ws_cfg st) \<or> check_tls_fingerprints (ws_cfg st)
      then handshake_sni cr env ip_data header sec usec st else Some st) = Some s" "writes env (from_header sec usec header) 3 st s"
    by (auto simp only: lands_def)
  have ok: "worker_ok env s" using writes_ok [OF s(2)] .
  obtain sp dp where t: "lands env (http_event sec usec \<lparr>ep_src = ih_src header, ep_src_port = sp, ep_dst = ih_dst header, ep_dst_port = dp\<rparr>) 6 s
      (tcp env sx packet_bytes ip_data header sec usec s)"
    using tcp_lands [OF ok] by metis
  have "lands env (from_header sec usec header) 6 s
     (if ih_protocol header = 6 then tcp env sx packet_bytes ip_data header sec usec s
      else if ih_protocol header = 17 then udp env ip_data header sec usec s
      else other_proto env ip_data header (ih_protocol header) sec usec s)"
  proof (intro lands_if)
    show "lands env (from_header sec usec header) 6 s (tcp env sx packet_bytes ip_data header sec usec s)"
      using t by (rule lands_events) (rule from_header_events(3))
    have "lands env (from_header sec usec header) 3 s (udp env ip_data header sec usec s)"
      using udp_lands [OF ok assms(3)] by (rule lands_events) (rule from_header_events(2))
    then show "lands env (from_header sec usec header) 6 s (udp env ip_data header sec usec s)" by (rule lands_mono) simp
    have "lands env (from_header sec usec header) 1 s (other_proto env ip_data header (ih_protocol header) sec usec s)"
      using other_proto_lands [OF ok] by (rule lands_events) (rule from_header_events(2))
    then show "lands env (from_header sec usec header) 6 s (other_proto env ip_data header (ih_protocol header) sec usec s)"
      by (rule lands_mono) simp
  qed
  from lands_after [OF s(2) this] show ?thesis by (simp add: dispatch_def s(1))
qed

definition packet_reports :: "nat \<Rightarrow> nat \<Rightarrow> bytes \<Rightarrow> event \<Rightarrow> bool" where
  "packet_reports sec usec packet e \<longleftrightarrow> sweep_event e \<or> of_packet sec usec packet e"

definition sweeps :: "nat \<Rightarrow> 'r worker_state \<Rightarrow> bool" where
  "sweeps sec st \<longleftrightarrow> use_heuristics (ws_cfg st) \<and> sec > ws_connect_sec st"

lemma tick_writes:
  assumes "worker_ok env st"
  shows "\<exists>n. writes env (packet_reports sec usec packet) n st (clock_tick sec usec depth st) \<and> (depth = 0 \<and> sweeps sec st \<or> n = 0)"
proof -
  let ?P = "packet_reports sec usec packet" and ?st = "st\<lparr>ws_last_sec := sec\<rparr>"
  have w: "writes env P 0 st ?st" for P by (rule writes_fields(18) [OF assms])
  note ok = writes_ok [OF w]
  have c: "writes env ?P 0 ?st (?st\<lparr>ws_connect_sec := sec\<rparr>)" by (rule writes_fields(17) [OF ok])
  obtain n where "writes env sweep_event n ?st (heuristics_sweep sec usec ?st)"
    using sweep_adds [OF ok] by (auto simp: adds_def)
  then have h: "writes env ?P n ?st (heuristics_sweep sec usec ?st)"
    by (rule writes_events) (simp add: packet_reports_def)
  show ?thesis
  proof (cases "use_heuristics (ws_cfg st) \<and> depth = 0")
    case False
    then have "clock_tick sec usec depth st = ?st" by (auto simp: clock_tick_def Let_def)
    then show ?thesis using w by metis
  next
    case True
    then show ?thesis
      using writes_trans [OF w h, of n] writes_trans [OF w c, of 0]
      by (cases "sec > ws_connect_sec st") (auto simp: clock_tick_def Let_def sweeps_def)
  qed
qed

lemma dropped_writes: "worker_ok env st \<Longrightarrow> writes env P n st (dropped reason st)"
  using writes_fields(10) by (auto simp: dropped_def ignored_def truncated_def split: drop_reason.split)

lemma layer_yields:
  assumes ok: "worker_ok env st" and outside: "crypto_ok cr" "lower_sound env"
  shows "\<exists>n. yields env (packet_reports sec usec packet) (n + 9) st (process_layer cr env sx packet sec usec off depth st) \<and>
    (depth = 0 \<and> sweeps sec st \<or> n = 0)"
proof -
  let ?P = "packet_reports sec usec packet" and ?st = "clock_tick sec usec depth st"
  obtain n where t: "writes env ?P n st ?st" and n: "depth = 0 \<and> sweeps sec st \<or> n = 0"
    using tick_writes [OF ok] by metis
  note ok1 = writes_ok [OF t]
  have "yields env ?P 9 ?st (process_layer cr env sx packet sec usec off depth st)"
  proof (cases "b_from packet off")
    case None
    then show ?thesis
      using writes_fields(10) [OF ok1] by (simp add: process_layer_def Let_def ignored_def yields_Some)
  next
    case (Some d)
    then have d: "d = drop off packet" by (auto simp: b_from_def split: if_splits)
    obtain parsed where p: "parse_ip d = Some parsed" using parse_ip_never_panics by auto
    show ?thesis
    proof (cases parsed)
      case (Inl reason)
      then show ?thesis using Some p dropped_writes [OF ok1] by (simp add: process_layer_def Let_def yields_Some)
    next
      case (Inr header)
      let ?st1 = "bump (\<lambda>m. m\<lparr>m_packets_processed := m_packets_processed m + 1\<rparr>) ?st"
      have w1: "writes env ?P 0 ?st ?st1" by (rule writes_fields(10) [OF ok1])
      have "meta_ok (ws_meta ?st1)" using writes_ok [OF w1] unfolding worker_ok_def by blast
      then obtain ms where ms: "observe_conn (ih_src header) (ih_dst header) sec (ws_meta ?st1) = Some ms" "meta_ok ms"
        by (rule observe_conn_ok)
      have w2: "writes env ?P 0 ?st (?st1\<lparr>ws_meta := ms\<rparr>)"
        by (rule writes_trans [OF w1 writes_fields(22) [OF writes_ok [OF w1] ms(2)], of 0]) simp
      have "from_header sec usec header e \<Longrightarrow> ?P e" for e
        using p d Inr by (auto simp: packet_reports_def of_packet_def)
      from lands_events [OF dispatch_lands [OF writes_ok [OF w2] outside] this]
      have "lands env ?P 9 ?st (dispatch cr env sx packet d header sec usec (?st1\<lparr>ws_meta := ms\<rparr>))"
        using lands_after [OF w2, of 9 _ 9] by simp
      then obtain s where s: "dispatch cr env sx packet d header sec usec (?st1\<lparr>ws_meta := ms\<rparr>) = Some s" "writes env ?P 9 ?st s"
        by (auto simp: lands_def)
      have "writes env ?P 9 ?st (if q then s else bump f s)" for q f
        using writes_trans [OF s(2) writes_fields(10) [OF writes_ok [OF s(2)]], of 0 9] s(2) by simp
      then show ?thesis using Some p Inr ms(1) s(1)
        by (simp only: process_layer_def Let_def option.case sum.case bind.bind_lunit yields_Some)
    qed
  qed
  then show ?thesis using yields_after [OF t] n by blast
qed

lemma walk_lands:
  assumes "worker_ok env st" "crypto_ok cr" "lower_sound env" "0 \<notin> set depths"
  shows "lands env (packet_reports sec usec packet) (9 * length depths) st (layer_walk cr env sx packet sec usec off depths st)"
  using assms
proof (induction depths arbitrary: off st)
  case Nil
  then show ?case by (simp add: lands_quiet)
next
  case (Cons depth depths)
  obtain n where n: "yields env (packet_reports sec usec packet) (n + 9) st (process_layer cr env sx packet sec usec off depth st)"
    "depth = 0 \<and> sweeps sec st \<or> n = 0"
    using layer_yields [OF Cons.prems(1-3)] by metis
  then have "yields env (packet_reports sec usec packet) 9 st (process_layer cr env sx packet sec usec off depth st)"
    using Cons.prems(4) by auto
  then show ?case unfolding layer_walk.simps
    by (rule lands_bind_yield [where n = "9 * length depths"])
      (use Cons in \<open>auto simp: lands_quiet dest: writes_ok split: option.split\<close>)
qed

lemma packet_lands:
  assumes "worker_ok env st" "crypto_ok cr" "lower_sound env"
  shows "\<exists>n. lands env (packet_reports sec usec packet) (n + 36) st (process_packet cr env sx packet sec usec off st) \<and> (sweeps sec st \<or> n = 0)"
proof -
  have depths: "[0..<max_tunnel_depth + 1] = 0 # [1, 2, 3]" by (simp add: max_tunnel_depth_def upt_rec)
  obtain n where n: "yields env (packet_reports sec usec packet) (n + 9) st (process_layer cr env sx packet sec usec off 0 st)"
    "sweeps sec st \<or> n = 0"
    using layer_yields [OF assms, where depth = 0] by metis
  have "lands env (packet_reports sec usec packet) 27 s (layer_walk cr env sx packet sec usec i [1, 2, 3] s)" if "worker_ok env s" for i s
    using walk_lands [OF that assms(2,3), of "[1, 2, 3]"] by simp
  then have "lands env (packet_reports sec usec packet) (n + 36) st (process_packet cr env sx packet sec usec off st)"
    unfolding process_packet_def depths layer_walk.simps(2) [of _ _ _ _ _ _ _ 0]
    by (intro lands_bind_yield [OF n(1), where n = 27]) (auto simp: lands_quiet dest: writes_ok simp del: layer_walk.simps split: option.split)
  then show ?thesis using n(2) by blast
qed

text \<open>C1: No packet stops the worker. Whatever the bytes of a packet, the offset its capture gave it and the state the packets
  before it left, the whole path (clock tick, sweep, header, handshakes, protocol, tunnels) ends without a panic and leaves the
  worker in good order, with its options, whitelist and trails as they were; the log only grows, by at most nine events for each of
  the four layers when no sweep is due, and each event is one of the sweep or names the addresses of an IP header in the packet.\<close>

theorem no_packet_stops_the_worker:
  assumes "worker_ok env st" "crypto_ok cr" "lower_sound env"
  shows "\<exists>st' es. process_packet cr env sx packet sec usec off st = Some st' \<and> worker_ok env st' \<and>
    ws_cfg st' = ws_cfg st \<and> ws_whitelist st' = ws_whitelist st \<and> ws_trails st' = ws_trails st \<and> ws_sink st' = ws_sink st @ es \<and>
    (sweeps sec st \<or> length es \<le> 36) \<and> list_all (\<lambda>e. sweep_event e \<or> of_packet sec usec packet e) es"
proof -
  obtain n where n: "lands env (packet_reports sec usec packet) (n + 36) st (process_packet cr env sx packet sec usec off st)"
    "sweeps sec st \<or> n = 0"
    using packet_lands [OF assms] by metis
  then show ?thesis by (auto simp: lands_def writes_def packet_reports_def [abs_def])
qed

text \<open>An IP-in-IP packet around a datagram to port 53.\<close>

definition sample_tunnelled :: bytes where
  "sample_tunnelled = [0x45, 0, 0, 56, 0, 0, 0, 0, 64, 4, 0, 0, 10, 0, 0, 1, 8, 8, 8, 8,
     0x45, 0, 0, 36, 0, 0, 0, 0, 64, 17, 0, 0, 10, 0, 0, 2, 8, 8, 4, 4, 0, 53, 0, 53, 0, 16, 0, 0, 1, 2, 3, 4, 5, 6, 7, 8]"

theorem no_packet_stops_the_worker_witness:
  "\<exists>wl (db :: unit trail_db) sx st'. wl_load [] = Some wl \<and>
     process_packet sample_crypto sample_outside sx sample_tunnelled 0 8 0 (worker_new sample_config scan_default wl db) = Some st' \<and>
     worker_ok sample_outside st' \<and> length (ws_sink st') \<le> 36"
proof -
  obtain wl and db :: "unit trail_db" where w: "wl_load [] = Some wl"
    "worker_ok sample_outside (worker_new sample_config scan_default wl db)"
    using sample_worker .
  let ?st = "worker_new sample_config scan_default wl db"
  have "\<not> sweeps 0 ?st" "ws_sink ?st = []" by (simp_all add: sweeps_def worker_new_def)
  with no_packet_stops_the_worker [OF w(2) sample_crypto_ok sample_lower_sound, of undefined sample_tunnelled 0 8 0]
  obtain st' es where "process_packet sample_crypto sample_outside undefined sample_tunnelled 0 8 0 ?st = Some st'"
    "worker_ok sample_outside st'" "ws_sink st' = es" "length es \<le> 36"
    by (metis append_Nil)
  then show ?thesis using w(1) by blast
qed

text \<open>A stream of packets, each with its second, microsecond and offset, and the last sweep.\<close>

fun process_all ::
    "crypto \<Rightarrow> 'r outside \<Rightarrow> statics \<Rightarrow> (bytes \<times> nat \<times> nat \<times> nat) list \<Rightarrow> 'r worker_state \<Rightarrow> 'r worker_state option" where
  "process_all cr env sx [] st = Some (final_heuristics_sweep st)"
| "process_all cr env sx ((packet, sec, usec, off) # packets) st =
     Option.bind (process_packet cr env sx packet sec usec off st) (process_all cr env sx packets)"

lemma stream_total:
  assumes "worker_ok env st" "crypto_ok cr" "lower_sound env"
  shows "\<exists>st'. process_all cr env sx packets st = Some st' \<and> worker_ok env st' \<and> ws_trails st' = ws_trails st \<and>
    prefix (ws_sink st) (ws_sink st')"
  using assms
proof (induction packets arbitrary: st)
  case Nil
  then show ?case using final_sweep_adds [OF Nil(1)] by (auto simp: adds_def writes_def)
next
  case (Cons p packets)
  obtain packet sec usec off where p: "p = (packet, sec, usec, off)" by (cases p)
  obtain s es where s: "process_packet cr env sx packet sec usec off st = Some s" "worker_ok env s" "ws_trails s = ws_trails st"
      "ws_sink s = ws_sink st @ es"
    using packet_lands [OF Cons.prems, of sec usec packet sx off] by (auto simp: lands_def writes_def)
  with Cons.IH [OF s(2) Cons.prems(2,3)] show ?case by (auto simp: p prefix_def)
qed

text \<open>C5: A worker started on a loaded whitelist and a loaded trail database takes any finite stream of packets to its end, the
  last sweep included, without a panic; every table is then still within its cap and every cache still holds only what it may.\<close>

theorem any_stream_is_processed_to_its_end:
  assumes "wl_ok wl" "trails_ok db" "outside_ok env" "lower_sound env" "crypto_ok cr" "domain_cache_entries cfg < nil"
  shows "\<exists>st'. process_all cr env sx packets (worker_new cfg (scan_new th) wl db) = Some st' \<and> worker_ok env st' \<and> ws_trails st' = db"
  using stream_total [OF worker_ok_new [OF assms(1-3,6)] assms(5,4)] by (fastforce simp: worker_new_def)

theorem any_stream_is_processed_to_its_end_witness:
  "\<exists>wl (db :: unit trail_db) sx st'. wl_load [] = Some wl \<and>
     process_all sample_crypto sample_outside sx [(sample_tunnelled, 3, 0, 0), ([0x45, 1], 4, 7, 0), (sample_tunnelled, 4, 9, 99)]
       (worker_new sample_config scan_default wl db) = Some st' \<and> worker_ok sample_outside st'"
proof -
  have "length (wl_lines []) < 2 ^ 58" by (simp add: wl_lines_def)
  from wl_load_spec [OF this] obtain wl where wl: "wl_load [] = Some wl" "wl_ok wl" by blast
  obtain db :: "unit trail_db" where db: "trails_ok db" using sample_db by metis
  have "domain_cache_entries sample_config < nil" by (simp add: sample_config_def nil_def)
  from any_stream_is_processed_to_its_end [OF wl(2) db sample_outside_ok sample_lower_sound sample_crypto_ok this]
  show ?thesis using wl(1) unfolding scan_default_def by blast
qed

end
