(* ===== verification/Spec2Isabelle.thy ===== *)
theory Spec2Isabelle
  imports Tunnel Dnsheur Throttle Strtable Ignore Dns Hello Clienthello Certificate Trails Publish Loader Packetpath
begin

text \<open>
  The sensor of Maltrail, \<open>src/sensor/src\<close>: what it does with a packet, from the bytes a capture hands over to the
  events it logs.

  \<^bold>\<open>The program.\<close> A capture thread resolves where the IP header of a frame starts (\<open>packet/dlt.rs\<close>) and gives the packet
  to a worker. \<open>process_packet\<close> (\<open>process.rs\<close>) parses the header (\<open>packet/mod.rs\<close>), ticks the clock of the heuristics, looks
  into TLS and QUIC handshakes, dispatches on the protocol and repeats for the packet inside a tunnel
  (\<open>packet/tunnel.rs\<close>). What it finds in headers, DNS messages, HTTP requests and handshakes it looks up in the trail
  database (\<open>trails/\<close>), past the whitelist (\<open>whitelist.rs\<close>), and feeds to the heuristics (\<open>heuristics/\<close>); an event goes
  through the ignore rules and the throttle (\<open>ignore.rs\<close>, \<open>throttle.rs\<close>) into a line of the log (\<open>event.rs\<close>). All state of
  a worker is one value, \<open>WorkerState\<close> (\<open>state.rs\<close>).

  \<^bold>\<open>Theories, bottom up.\<close>
  \<^item> \<open>Prelude\<close>, \<open>Strs\<close>, \<open>Utf8\<close>: bytes, bounds-checked reads, association lists as maps, texts and UTF-8. \<open>Orders\<close>: instances of the
    library's orders. \<open>Capped\<close>, \<open>Cache\<close>: the locales of tables with a cap and of lookups through a cache, interpreted by the
    heuristics and by the caches of the worker.
  \<^item> \<open>Smallstr\<close>, \<open>Addr\<close>, \<open>Fasthash\<close>, \<open>Lru\<close>, \<open>Names\<close>: \<open>smallstr.rs\<close>, \<open>addr.rs\<close>, \<open>fasthash.rs\<close>, \<open>lru.rs\<close> and the name tests of
    \<open>settings.rs\<close> and \<open>protocols/mod.rs\<close>.
  \<^item> \<open>Packet\<close>, \<open>Dlt\<close>, \<open>Tunnel\<close>: the three files of \<open>packet/\<close>.
  \<^item> \<open>Probe\<close>, \<open>Negfilter\<close>, \<open>Table\<close>, \<open>Strtable\<close>: the hash tables of \<open>trails/table.rs\<close> (probe sequences as a locale, the negative
    filter, integer and text tables). \<open>Trails\<close>, \<open>Publish\<close>: \<open>trails/mod.rs\<close>, the database and its publication to the workers.
    \<open>Loader\<close>: \<open>trails/loader.rs\<close>, from the bytes of a trails file to the database.
  \<^item> \<open>Whitelist\<close>, \<open>Ignore\<close>, \<open>Event\<close>, \<open>Throttle\<close>, \<open>Meta\<close>: the files of the same names.
  \<^item> \<open>Scan\<close>, \<open>Beacon\<close>, \<open>Nxdomain\<close>, \<open>Dnsheur\<close>, \<open>Icmp\<close>, \<open>Homograph\<close>: \<open>heuristics/\<close>.
  \<^item> \<open>Dns\<close>, \<open>Hello\<close>, \<open>Helloshape\<close>, \<open>Tls\<close>, \<open>Clienthello\<close>, \<open>Certificate\<close>, \<open>Quic\<close>, \<open>Http\<close>: \<open>protocols/\<close>.
  \<^item> \<open>Worker\<close>, \<open>Domain\<close>, \<open>Dnspath\<close>, \<open>Handshake\<close>, \<open>Sweep\<close>, \<open>Flowpath\<close>, \<open>Request\<close>, \<open>Packetpath\<close>: \<open>state.rs\<close> and \<open>process.rs\<close>, function by
    function; \<open>Steps\<close> holds the rules their proofs compose.

  \<^bold>\<open>Conventions.\<close> A definition has the name of the function it models; a long function is a few definitions called in
  its order. A panic (an index or slice out of bounds, a failed \<open>expect\<close>) is the outer \<open>None\<close>; an early \<open>None\<close> of the source is an
  inner option. Byte strings and texts are lists (a text is its UTF-8 bytes); slices of a text are taken at ASCII
  matches, which are character boundaries. Fixed-width integers that can wrap are words; counters and clocks that
  only grow are naturals. A hash map is an association list without duplicate keys. A debug assertion, which a release build
  leaves out, is not a branch of the model. The seed that a process picks for its hashes is an argument (of \<open>throttle_new\<close>, say, which
  keeps it in the state).

  \<^bold>\<open>What the theorems show.\<close> \<open>Packetpath\<close>: no packet, and no stream of packets, makes a worker panic, whatever its bytes; every
  cap and every cache invariant holds afterwards, and each event names the addresses of a header in its packet. The
  invariant is \<open>worker_ok\<close>, and \<open>writes\<close>, \<open>lands\<close> and \<open>yields\<close> (\<open>Steps\<close>) are the promises of a step with the number of events
  it may add. \<open>Domain\<close>: the most specific trail decides against the whitelist, and the caches change no verdict.
  \<open>Handshake\<close>, \<open>Quic\<close>, \<open>Hello\<close>, \<open>Clienthello\<close>: what is left uncomputed or split over packets loses nothing. \<open>Trails\<close>, \<open>Strtable\<close>, \<open>Meta\<close>,
  \<open>Lru\<close>, \<open>Whitelist\<close>, \<open>Ignore\<close>: each data structure refines the plain map, cache or list of rules it stands for. \<open>Loader\<close>: a load on any
  number of threads, batches and slices is the one pass over the lines of the file. \<open>Throttle\<close>: in no mode is an event lost without a count.
  \<open>Publish\<close>: under any interleaving of threads a worker that is told nothing is new holds a current database. \<open>Scan\<close>, \<open>Beacon\<close>, \<open>Nxdomain\<close>,
  \<open>Dnsheur\<close>, \<open>Sweep\<close>: caps, exact alert conditions, and that nothing is reported twice. \<open>Event\<close>, \<open>Dns\<close>, \<open>Http\<close>, \<open>Loader\<close>: what is written or
  sent reads back.

  \<^bold>\<open>Bounds.\<close> Loops are structural recursions or recursions on a measure; none needs fuel beyond the bound the source itself
  sets (sixteen compression pointers, four stacked tags, eight extension headers, three tunnels). \<open>process_packet\<close> is the
  recursion over its depths 0 to 3.

  \<^bold>\<open>Parameters.\<close> The record \<open>outside\<close>: Unicode lower-casing, the wildcard expression of the trails, the seed of the hashers.
  The record \<open>statics\<close>: the compiled regular expressions of \<open>settings.rs\<close>. The record \<open>crypto\<close>: HMAC, AES, the digests, with the
  sizes of their results as the hypothesis \<open>crypto_ok\<close>. \<open>lower_sound\<close> says a lower-cased text has no ASCII capitals. Floating-point numbers
  are reals.

  \<^bold>\<open>Not modelled.\<close> Capture, sockets, files, threads and signals (\<open>capture/\<close>, \<open>main.rs\<close>, \<open>worker.rs\<close> but for its line 279, where
  a worker takes over a new database and nothing else of its state changes, \<open>output.rs\<close> but for what \<open>Event\<close> and \<open>Throttle\<close> take from it, \<open>trailupdate.rs\<close>, the SQLite half of \<open>meta.rs\<close>): calls into the system.
  \<open>config.rs\<close>: the options are the record \<open>config\<close>. \<open>trails/store.rs\<close>, \<open>region.rs\<close> and the calls of
  \<open>loader.rs\<close> into them: memory-mapped files, which hold what the insertions put there. \<open>regexset.rs\<close> (but for \<open>is_wildcard_trail\<close>),
  \<open>pyre.rs\<close>: regular expressions run by a library. \<open>selftest.rs\<close>, \<open>testkit.rs\<close>, \<open>stats.rs\<close>,
  \<open>colorized.rs\<close>: test traffic and terminal output. The Python server, the feeds and the packaging of the repository are in
  other languages.
\<close>

end
